(* ===== verification/Jem_Prelude.thy ===== *)
theory Jem_Prelude
  imports Main "HOL-Library.Word"
begin

text \<open>
  The prelude of the development: the machine types of the target that the sources are
  built for (x86_64 Linux, \<open>LG_SIZEOF_PTR = 3\<close>, \<open>LG_QUANTUM = 4\<close>, \<open>LG_PAGE = 12\<close>, as
  fixed by contrib/jemalloc-cmake/include_linux_x86_64 and by quantum.h), the collections
  that the component theories extend, and the lemmas on natural numbers, words, lists and
  options that several components share.

  Conventions used throughout. A C value whose wrap-around matters (\<open>size_t\<close>,
  \<open>uint64_t\<close>, \<open>uint32_t\<close>, \<open>int32_t\<close>) is a word of its width. A C integer that is an
  index, a bit position or a shift count, and that the code keeps far away from its limits,
  is a \<open>nat\<close> (or an \<open>int\<close> where the code uses -1). A read or write outside an array is the
  value \<open>None\<close> of an option.
\<close>

unbundle bit_operations_syntax

type_synonym size_t = "64 word"
type_synonym uint64 = "64 word"
type_synonym uint32 = "32 word"
type_synonym uint8 = "8 word"

named_theorems unat_simps \<open>reading word operations as operations on natural numbers\<close>
named_theorems bounds_intro \<open>bounds that arithmetic needs to know\<close>

section \<open>Powers of two and logarithms on natural numbers\<close>

text \<open>The position of the most significant bit of a positive number (0 for 0 and 1).\<close>

fun nat_lg :: "nat \<Rightarrow> nat" where
  "nat_lg n = (if n < 2 then 0 else Suc (nat_lg (n div 2)))"

declare nat_lg.simps [simp del]

lemma nat_lg_bounds: "0 < n \<Longrightarrow> 2 ^ nat_lg n \<le> n \<and> n < 2 ^ Suc (nat_lg n)"
proof (induction n rule: nat_lg.induct)
  case (1 n)
  show ?case
  proof (cases "n < 2")
    case True
    with "1.prems" show ?thesis by (simp add: nat_lg.simps [of n])
  next
    case False
    then have "2 ^ nat_lg (n div 2) \<le> n div 2 \<and> n div 2 < 2 ^ Suc (nat_lg (n div 2))"
      using "1.IH" by simp
    with False show ?thesis by (auto simp: nat_lg.simps [of n])
  qed
qed

lemma nat_lg_eqI: "2 ^ k \<le> n \<Longrightarrow> n < 2 ^ Suc k \<Longrightarrow> nat_lg n = k"
proof -
  assume a: "2 ^ k \<le> n" "n < 2 ^ Suc k"
  then have "0 < n" by (metis gr0I not_le zero_less_numeral zero_less_power)
  note b = nat_lg_bounds [OF this]
  have "(2::nat) ^ k < 2 ^ Suc (nat_lg n)" using a(1) b by linarith
  then have "k < Suc (nat_lg n)" by (rule power_less_imp_less_exp [rotated]) simp
  moreover have "(2::nat) ^ nat_lg n < 2 ^ Suc k" using a(2) b by linarith
  then have "nat_lg n < Suc k" by (rule power_less_imp_less_exp [rotated]) simp
  ultimately show ?thesis by simp
qed

lemma nat_lg_pow2 [simp]: "nat_lg (2 ^ k) = k"
  by (rule nat_lg_eqI) simp_all

lemma nat_lg_mono: "m \<le> n \<Longrightarrow> nat_lg m \<le> nat_lg n"
proof (cases "m = 0")
  case False
  assume "m \<le> n"
  with False have "2 ^ nat_lg m < (2::nat) ^ Suc (nat_lg n)"
    using nat_lg_bounds [of m] nat_lg_bounds [of n] by linarith
  then have "nat_lg m < Suc (nat_lg n)" by (rule power_less_imp_less_exp [rotated]) simp
  then show ?thesis by simp
qed (simp add: nat_lg.simps [of 0])

lemma nat_lg_less: "n < 2 ^ k \<Longrightarrow> 0 < k \<Longrightarrow> nat_lg n < k"
proof (cases "n = 0")
  case False
  assume "n < 2 ^ k"
  with False have "2 ^ nat_lg n < (2::nat) ^ k"
    using nat_lg_bounds [of n] by linarith
  then show ?thesis by (rule power_less_imp_less_exp [rotated]) simp
qed (simp add: nat_lg.simps [of 0])

text \<open>The ceiling of the logarithm as the code computes it, \<open>lg_floor(2 * s - 1)\<close>.\<close>

lemma nat_lg_double_minus_one:
  assumes "2 ^ k < s" and "s \<le> 2 ^ Suc k"
  shows "nat_lg (2 * s - 1) = Suc k"
  using assms by (intro nat_lg_eqI) auto

lemma ceil_lg_bounds:
  assumes "1 < s"
  obtains k where "nat_lg (2 * s - 1) = Suc k" "2 ^ k < s" "s \<le> 2 ^ Suc k"
proof -
  let ?k = "nat_lg (s - 1)"
  have "2 ^ ?k \<le> s - 1 \<and> s - 1 < 2 ^ Suc ?k"
    using assms by (intro nat_lg_bounds) simp
  then have "2 ^ ?k < s" "s \<le> 2 ^ Suc ?k" using assms by linarith+
  with nat_lg_double_minus_one that show thesis by blast
qed

section \<open>Words as natural numbers\<close>

lemma unat_of_nat_eq [unat_simps]:
  "n < 2 ^ LENGTH('a) \<Longrightarrow> unat (of_nat n :: 'a::len word) = n"
  by (simp add: unat_of_nat)

lemma unat_lt2p [bounds_intro]: "unat (w :: 'a::len word) < 2 ^ LENGTH('a)"
  by (rule unsigned_less)

lemma unat_pow2 [simp]: "k < LENGTH('a) \<Longrightarrow> unat (2 ^ k :: 'a::len word) = 2 ^ k"
  using unat_of_nat_eq [where 'a = 'a, of "2 ^ k"] by simp

lemma unat_push_bit_mod:
  "unat (push_bit k w) = (unat w * 2 ^ k) mod 2 ^ LENGTH('a)" for w :: "'a::len word"
proof -
  have "push_bit k w = of_nat (unat w * 2 ^ k)" by (simp add: push_bit_eq_mult)
  then show ?thesis by (simp only: unat_of_nat)
qed

lemma unat_push_bit_eq [unat_simps]:
  "unat w * 2 ^ k < 2 ^ LENGTH('a) \<Longrightarrow> unat (push_bit k w) = unat w * 2 ^ k"
  for w :: "'a::len word"
  by (simp only: unat_push_bit_mod) simp

lemma unat_push_bit_1 [unat_simps]:
  "k < LENGTH('a) \<Longrightarrow> unat (push_bit k (1 :: 'a::len word)) = 2 ^ k"
  by (simp only: unat_push_bit_mod) simp

lemma unat_drop_bit_div [unat_simps]: "unat (drop_bit k w) = unat w div 2 ^ k"
  by (subst unat_drop_bit_eq) (rule drop_bit_eq_div)

lemma unat_and_mask [unat_simps]: "unat (w AND mask k) = unat w mod 2 ^ k"
  for w :: "'a::len word"
proof -
  have "unat (w AND mask k) = take_bit k (unat w)"
    by (simp only: take_bit_eq_mask [symmetric] unsigned_take_bit_eq)
  then show ?thesis by (simp only: take_bit_eq_mod)
qed

lemma unat_add_eq [unat_simps]:
  "unat v + unat w < 2 ^ LENGTH('a) \<Longrightarrow> unat (v + w) = unat v + unat w"
  for v w :: "'a::len word"
  by (simp add: unat_word_ariths)

lemma unat_mult_eq [unat_simps]:
  "unat v * unat w < 2 ^ LENGTH('a) \<Longrightarrow> unat (v * w) = unat v * unat w"
  for v w :: "'a::len word"
  by (simp add: unat_word_ariths)

lemma unat_diff_eq [unat_simps]:
  "unat w \<le> unat v \<Longrightarrow> unat (v - w) = unat v - unat w" for v w :: "'a::len word"
  by (simp add: unat_sub word_le_nat_alt)

lemma push_bit_minus_1_eq_mask: "push_bit k 1 - 1 = (mask k :: 'a::len word)"
  by (simp add: mask_eq_exp_minus_1 push_bit_eq_mult)

lemma unat_mask_eq [unat_simps]: "k \<le> LENGTH('a) \<Longrightarrow> unat (mask k :: 'a::len word) = 2 ^ k - 1"
proof -
  assume "k \<le> LENGTH('a)"
  then have "unat (mask k :: 'a word) = mask k"
    by (intro bit_eqI) (auto simp: bit_simps)
  then show ?thesis by (simp only: mask_eq_exp_minus_1)
qed

lemma and_not_mask_eq: "w AND NOT (mask k) = push_bit k (drop_bit k w)" for w :: "'a::len word"
  by (rule bit_word_eqI) (auto simp: bit_simps)

lemma unat_and_not_mask [unat_simps]: "unat (w AND NOT (mask k)) = unat w div 2 ^ k * 2 ^ k"
  for w :: "'a::len word"
proof -
  have "unat w div 2 ^ k * 2 ^ k \<le> unat w" by (rule div_times_less_eq_dividend)
  also have "\<dots> < 2 ^ LENGTH('a)" by (rule unat_lt2p)
  finally show ?thesis by (simp only: and_not_mask_eq unat_push_bit_mod unat_drop_bit_div) simp
qed

text \<open>Rounding a word up to a multiple of a power of two, as the \<open>CEILING\<close> macros do.\<close>

definition nat_round_up :: "nat \<Rightarrow> nat \<Rightarrow> nat" where
  "nat_round_up d s = (s + (d - 1)) div d * d"

lemma unat_round_up [unat_simps]:
  "k < LENGTH('a) \<Longrightarrow> unat w + (2 ^ k - 1) < 2 ^ LENGTH('a) \<Longrightarrow>
   unat ((w + mask k) AND NOT (mask k)) = nat_round_up (2 ^ k) (unat w)"
  for w :: "'a::len word"
  by (simp add: unat_simps nat_round_up_def)

lemma nat_round_up_ge: "0 < d \<Longrightarrow> s \<le> nat_round_up d s"
proof -
  assume "0 < d"
  moreover have "(s + (d - 1)) mod d < d" using calculation by simp
  moreover have "(s + (d - 1)) div d * d + (s + (d - 1)) mod d = s + (d - 1)" by simp
  ultimately show ?thesis unfolding nat_round_up_def by linarith
qed

lemma nat_round_up_less: "0 < d \<Longrightarrow> nat_round_up d s < s + d"
proof -
  assume "0 < d"
  moreover have "(s + (d - 1)) div d * d + (s + (d - 1)) mod d = s + (d - 1)" by simp
  ultimately show ?thesis unfolding nat_round_up_def by linarith
qed

lemma dvd_nat_round_up [simp]: "d dvd nat_round_up d s"
  by (simp add: nat_round_up_def)

lemma nat_round_up_least:
  assumes "0 < d" "d dvd t" "s \<le> t" shows "nat_round_up d s \<le> t"
proof (rule ccontr)
  assume "\<not> nat_round_up d s \<le> t"
  then have l: "t < nat_round_up d s" by simp
  moreover have "d dvd nat_round_up d s - t" using assms(2) by simp
  ultimately have "d \<le> nat_round_up d s - t" by (simp add: dvd_imp_le)
  with nat_round_up_less [OF assms(1), of s] assms(3) l show False by linarith
qed

lemma nat_round_up_pred:
  "0 < d \<Longrightarrow> 0 < s \<Longrightarrow> nat_round_up d s = ((s - 1) div d + 1) * d"
proof -
  assume "0 < d" "0 < s"
  then have "s + (d - 1) = (s - 1) + d" by simp
  then have "(s + (d - 1)) div d = (s - 1) div d + 1" using \<open>0 < d\<close> by (metis Suc_eq_plus1 div_add_self2 less_not_refl2)
  then show ?thesis by (simp only: nat_round_up_def)
qed

section \<open>Array accesses\<close>

text \<open>An access outside an array is \<open>None\<close>: C leaves it undefined.\<close>

definition read_at :: "'a list \<Rightarrow> nat \<Rightarrow> 'a option" where
  "read_at xs i = (if i < length xs then Some (xs ! i) else None)"

definition write_at :: "'a list \<Rightarrow> nat \<Rightarrow> 'a \<Rightarrow> 'a list option" where
  "write_at xs i x = (if i < length xs then Some (xs[i := x]) else None)"

lemma read_at_Some [simp]: "i < length xs \<Longrightarrow> read_at xs i = Some (xs ! i)"
  by (simp add: read_at_def)

lemma read_at_eq_Some_iff: "read_at xs i = Some x \<longleftrightarrow> i < length xs \<and> xs ! i = x"
  by (auto simp: read_at_def)

lemma write_at_Some [simp]: "i < length xs \<Longrightarrow> write_at xs i x = Some (xs[i := x])"
  by (simp add: write_at_def)

lemma write_at_eq_Some_iff: "write_at xs i x = Some ys \<longleftrightarrow> i < length xs \<and> ys = xs[i := x]"
  by (auto simp: write_at_def)

text \<open>An array filled from the left: the first \<open>n\<close> entries are those of \<open>f\<close>.\<close>

definition filled :: "nat \<Rightarrow> (nat \<Rightarrow> 'a) \<Rightarrow> 'a list \<Rightarrow> bool" where
  "filled n f xs \<longleftrightarrow> n \<le> length xs \<and> (\<forall>i<n. xs ! i = f i)"

lemma filled_0 [simp]: "filled 0 f xs"
  by (simp add: filled_def)

lemma filled_Suc: "filled n f xs \<Longrightarrow> n < length xs \<Longrightarrow> filled (Suc n) f (xs[n := f n])"
  by (auto simp: filled_def less_Suc_eq nth_list_update)

lemma filled_nth: "filled n f xs \<Longrightarrow> i < n \<Longrightarrow> xs ! i = f i"
  by (simp add: filled_def)

end
