(* ===== verification/Bit_Util.thy ===== *)
theory Bit_Util
  imports Jem_Prelude
begin

text \<open>
  include/jemalloc/internal/bit_util.h: find first set, the rounding to a power of two and
  the integer logarithms, each in the variant that x86_64 compiles (the \<open>bsr\<close> instruction,
  the \<open>ffs\<close> and \<open>clz\<close> builtins) and in the portable variant next to it. The properties say
  that the variants agree and what they compute.
\<close>

section \<open>The instructions and builtins the header uses\<close>

text \<open>
  \<open>__builtin_ffs*\<close>: one plus the index of the least significant 1 bit, or 0 for 0.
  \<open>bsr\<close>: the index of the most significant 1 bit (undefined for 0; the model gives 0, and
  the callers' arguments are shown to be positive). \<open>__builtin_clz*\<close>: the number of leading
  0 bits (undefined for 0).
\<close>

definition builtin_ffs :: "'a::len word \<Rightarrow> nat" where
  "builtin_ffs w = (case find (bit w) [0..<LENGTH('a)] of None \<Rightarrow> 0 | Some i \<Rightarrow> Suc i)"

definition bsr :: "'a::len word \<Rightarrow> nat" where
  "bsr w = nat_lg (unat w)"

definition builtin_clz :: "'a::len word \<Rightarrow> nat" where
  "builtin_clz w = LENGTH('a) - 1 - bsr w"

section \<open>The functions of the header\<close>

definition ffs_llu :: "64 word \<Rightarrow> nat" where "ffs_llu bitmap = builtin_ffs bitmap"

definition ffs_lu :: "64 word \<Rightarrow> nat" where "ffs_lu bitmap = builtin_ffs bitmap"

definition ffs_u :: "32 word \<Rightarrow> nat" where "ffs_u bitmap = builtin_ffs bitmap"

text \<open>\<open>LG_SIZEOF_PTR\<close> and \<open>LG_SIZEOF_LONG\<close> are 3, \<open>LG_SIZEOF_INT\<close> is 2.\<close>

definition ffs_zu :: "size_t \<Rightarrow> nat" where "ffs_zu bitmap = ffs_lu bitmap"

definition ffs_u64 :: "uint64 \<Rightarrow> nat" where "ffs_u64 bitmap = ffs_lu bitmap"

definition ffs_u32 :: "uint32 \<Rightarrow> nat" where "ffs_u32 bitmap = ffs_u bitmap"

definition pow2_ceil_u64 :: "uint64 \<Rightarrow> uint64" where
  "pow2_ceil_u64 x =
     (if x \<le> 1 then x
      else (let msb_on_index = bsr (x - 1) in push_bit (msb_on_index + 1) 1))"

definition pow2_ceil_u64_clz :: "uint64 \<Rightarrow> uint64" where
  "pow2_ceil_u64_clz x =
     (if x \<le> 1 then x
      else (let msb_on_index = 63 XOR builtin_clz (x - 1) in push_bit (msb_on_index + 1) 1))"

text \<open>One line \<open>x |= x >> k\<close> of the portable variants.\<close>

definition or_shift :: "nat \<Rightarrow> 'a::len word \<Rightarrow> 'a word" where
  "or_shift k x = x OR drop_bit k x"

definition pow2_ceil_u64_portable :: "uint64 \<Rightarrow> uint64" where
  "pow2_ceil_u64_portable x =
     (let x = x - 1;
          x = or_shift 1 x;
          x = or_shift 2 x;
          x = or_shift 4 x;
          x = or_shift 8 x;
          x = or_shift 16 x;
          x = or_shift 32 x
      in x + 1)"

definition pow2_ceil_u32 :: "uint32 \<Rightarrow> uint32" where
  "pow2_ceil_u32 x =
     (if x \<le> 1 then x
      else (let msb_on_index = 31 XOR builtin_clz (x - 1) in push_bit (msb_on_index + 1) 1))"

definition pow2_ceil_u32_portable :: "uint32 \<Rightarrow> uint32" where
  "pow2_ceil_u32_portable x =
     (let x = x - 1;
          x = or_shift 1 x;
          x = or_shift 2 x;
          x = or_shift 4 x;
          x = or_shift 8 x;
          x = or_shift 16 x
      in x + 1)"

definition pow2_ceil_zu :: "size_t \<Rightarrow> size_t" where
  "pow2_ceil_zu x = pow2_ceil_u64 x"

definition lg_floor :: "size_t \<Rightarrow> nat" where
  "lg_floor x = bsr x"

text \<open>\<open>(8 << LG_SIZEOF_PTR) - 1\<close> is 63.\<close>

definition lg_floor_clz :: "size_t \<Rightarrow> nat" where
  "lg_floor_clz x = ((8 * 2 ^ 3) - 1) - builtin_clz x"

definition lg_floor_portable :: "size_t \<Rightarrow> nat" where
  "lg_floor_portable x =
     (let x = or_shift 1 x;
          x = or_shift 2 x;
          x = or_shift 4 x;
          x = or_shift 8 x;
          x = or_shift 16 x;
          x = or_shift 32 x
      in if x = - 1 then (8 * 2 ^ 3) - 1 else ffs_zu (x + 1) - 2)"

definition lg_ceil :: "size_t \<Rightarrow> nat" where
  "lg_ceil x = lg_floor x + (if x AND (x - 1) = 0 then 0 else 1)"

text \<open>
  The compile-time macros. Their arguments are unsigned long long constants: words.
\<close>

definition LG_FLOOR_1 :: "64 word \<Rightarrow> nat" where "LG_FLOOR_1 x = 0"
definition LG_FLOOR_2 :: "64 word \<Rightarrow> nat" where
  "LG_FLOOR_2 x = (if x < push_bit 1 1 then LG_FLOOR_1 x else 1 + LG_FLOOR_1 (drop_bit 1 x))"
definition LG_FLOOR_4 :: "64 word \<Rightarrow> nat" where
  "LG_FLOOR_4 x = (if x < push_bit 2 1 then LG_FLOOR_2 x else 2 + LG_FLOOR_2 (drop_bit 2 x))"
definition LG_FLOOR_8 :: "64 word \<Rightarrow> nat" where
  "LG_FLOOR_8 x = (if x < push_bit 4 1 then LG_FLOOR_4 x else 4 + LG_FLOOR_4 (drop_bit 4 x))"
definition LG_FLOOR_16 :: "64 word \<Rightarrow> nat" where
  "LG_FLOOR_16 x = (if x < push_bit 8 1 then LG_FLOOR_8 x else 8 + LG_FLOOR_8 (drop_bit 8 x))"
definition LG_FLOOR_32 :: "64 word \<Rightarrow> nat" where
  "LG_FLOOR_32 x = (if x < push_bit 16 1 then LG_FLOOR_16 x else 16 + LG_FLOOR_16 (drop_bit 16 x))"
definition LG_FLOOR_64 :: "64 word \<Rightarrow> nat" where
  "LG_FLOOR_64 x = (if x < push_bit 32 1 then LG_FLOOR_32 x else 32 + LG_FLOOR_32 (drop_bit 32 x))"

definition LG_FLOOR :: "64 word \<Rightarrow> nat" where "LG_FLOOR x = LG_FLOOR_64 x"

definition LG_CEIL :: "64 word \<Rightarrow> nat" where
  "LG_CEIL x = LG_FLOOR x + (if x AND (x - 1) = 0 then 0 else 1)"

section \<open>What the instructions compute\<close>

lemma bsr_bounds: "w \<noteq> 0 \<Longrightarrow> 2 ^ bsr w \<le> unat w \<and> unat w < 2 ^ Suc (bsr w)"
  unfolding bsr_def by (rule nat_lg_bounds) (simp add: unat_gt_0)

lemma bsr_less: "bsr (w :: 'a::len word) < LENGTH('a)"
  unfolding bsr_def by (rule nat_lg_less) (simp_all add: unat_lt2p)

lemma bit_above_bsr: "bsr w < n \<Longrightarrow> \<not> bit w n" for w :: "'a::len word"
proof (cases "w = 0")
  case False
  assume "bsr w < n"
  then have "(2::nat) ^ Suc (bsr w) \<le> 2 ^ n" by (intro power_increasing) simp_all
  with bsr_bounds [OF False] have "unat w div 2 ^ n = 0" by simp
  then have "\<not> bit (unat w) n" by (simp add: bit_iff_odd)
  then show ?thesis by (simp add: bit_unsigned_iff)
qed simp

lemma bit_at_bsr: "w \<noteq> 0 \<Longrightarrow> bit w (bsr w)" for w :: "'a::len word"
proof -
  assume "w \<noteq> 0"
  from bsr_bounds [OF this] have "unat w div 2 ^ bsr w = 1"
    by (intro div_nat_eqI) simp_all
  then have "bit (unat w) (bsr w)" by (simp add: bit_iff_odd)
  then show ?thesis by (simp add: bit_unsigned_iff)
qed

lemma bsr_eqI: "bit w k \<Longrightarrow> (\<And>n. k < n \<Longrightarrow> \<not> bit w n) \<Longrightarrow> bsr w = k" for w :: "'a::len word"
  by (metis bit_above_bsr bit_at_bsr bit_0_eq bot_apply bot_bool_def linorder_neqE_nat)

lemma find_upt_Some_iff:
  "find P [0..<n] = Some i \<longleftrightarrow> i < n \<and> P i \<and> (\<forall>j<i. \<not> P j)"
  by (auto simp: find_Some_iff)

lemma find_upt_None_iff: "find P [0..<n] = None \<longleftrightarrow> (\<forall>i<n. \<not> P i)"
  by (auto simp: find_None_iff)

lemma builtin_ffs_0 [simp]: "builtin_ffs 0 = 0"
  by (simp add: builtin_ffs_def find_upt_None_iff [THEN iffD2] split: option.splits)

lemma builtin_ffs_eq_Suc_iff:
  "builtin_ffs w = Suc i \<longleftrightarrow> bit w i \<and> (\<forall>j<i. \<not> bit w j)" for w :: "'a::len word"
proof
  assume "builtin_ffs w = Suc i"
  then show "bit w i \<and> (\<forall>j<i. \<not> bit w j)"
    by (simp add: builtin_ffs_def find_upt_Some_iff split: option.splits)
next
  assume a: "bit w i \<and> (\<forall>j<i. \<not> bit w j)"
  then have "i < LENGTH('a)" using bit_imp_le_length by blast
  with a have "find (bit w) [0..<LENGTH('a)] = Some i" by (simp add: find_upt_Some_iff)
  then show "builtin_ffs w = Suc i" by (simp add: builtin_ffs_def)
qed

lemma builtin_ffs_eq_0_iff [simp]: "builtin_ffs w = 0 \<longleftrightarrow> w = 0" for w :: "'a::len word"
proof
  assume "builtin_ffs w = 0"
  then have "\<forall>i<LENGTH('a). \<not> bit w i"
    by (simp add: builtin_ffs_def find_upt_None_iff split: option.splits)
  then show "w = 0" by (intro bit_word_eqI) simp
qed simp

lemma builtin_ffs_le: "builtin_ffs (w :: 'a::len word) \<le> LENGTH('a)"
  by (auto simp: builtin_ffs_def find_upt_Some_iff split: option.splits)

lemma builtin_ffsE:
  assumes "(w :: 'a::len word) \<noteq> 0"
  obtains i where "builtin_ffs w = Suc i" "bit w i" "\<forall>j<i. \<not> bit w j" "i < LENGTH('a)"
proof -
  from assms obtain i where i: "builtin_ffs w = Suc i"
    by (metis builtin_ffs_eq_0_iff not0_implies_Suc)
  with that show thesis
    using builtin_ffs_eq_Suc_iff [of w i] bit_imp_le_length [of w i] by blast
qed

lemma builtin_ffs_pow2: "k < LENGTH('a) \<Longrightarrow> builtin_ffs (push_bit k (1 :: 'a::len word)) = Suc k"
  by (subst builtin_ffs_eq_Suc_iff) (auto simp: bit_simps)

lemmas ffs_defs = ffs_zu_def ffs_u64_def ffs_u32_def ffs_lu_def ffs_llu_def ffs_u_def

section \<open>The variants agree\<close>

text \<open>Each line of the portable variants doubles the distance over which bits are spread.\<close>

lemma bit_or_shift: "bit (or_shift k x) n \<longleftrightarrow> bit x n \<or> bit x (n + k)" for x :: "'a::len word"
  by (auto simp: or_shift_def bit_simps add.commute)

lemma or_shift_spread:
  fixes x y :: "'a::len word"
  assumes "\<And>n. bit y n \<longleftrightarrow> (\<exists>j<m. bit x (n + j))"
  shows "bit (or_shift m y) n \<longleftrightarrow> (\<exists>j<2 * m. bit x (n + j))"
proof -
  have "(\<exists>j<2 * m. bit x (n + j)) \<longleftrightarrow> (\<exists>j<m. bit x (n + j)) \<or> (\<exists>j<m. bit x (n + m + j))"
  proof
    assume "\<exists>j<2 * m. bit x (n + j)"
    then obtain j where j: "j < 2 * m" "bit x (n + j)" by blast
    show "(\<exists>j<m. bit x (n + j)) \<or> (\<exists>j<m. bit x (n + m + j))"
    proof (cases "j < m")
      case False
      with j have "j - m < m" "bit x (n + m + (j - m))" by simp_all
      then show ?thesis by blast
    qed (use j in blast)
  next
    assume "(\<exists>j<m. bit x (n + j)) \<or> (\<exists>j<m. bit x (n + m + j))"
    then show "\<exists>j<2 * m. bit x (n + j)"
    proof
      assume "\<exists>j<m. bit x (n + m + j)"
      then obtain j where "j < m" "bit x (n + (m + j))" by (auto simp: add.assoc)
      then show ?thesis by (intro exI [of _ "m + j"]) simp
    qed (metis mult_2 trans_less_add1)
  qed
  with assms show ?thesis by (simp add: bit_or_shift)
qed

lemma spread_eq_mask:
  fixes x y :: "'a::len word"
  assumes "\<And>n. bit y n \<longleftrightarrow> (\<exists>j<m. bit x (n + j))" and "LENGTH('a) \<le> m" and "x \<noteq> 0"
  shows "y = mask (Suc (bsr x))"
proof (rule bit_word_eqI)
  fix n assume n: "n < LENGTH('a)"
  have "bit y n \<longleftrightarrow> n \<le> bsr x"
  proof
    assume "bit y n"
    then show "n \<le> bsr x" using assms(1) bit_above_bsr [of x] by (metis le_add1 le_trans not_le)
  next
    assume "n \<le> bsr x"
    moreover have "bsr x - n < m" using bsr_less [of x] assms(2) by simp
    ultimately show "bit y n" using assms(1) bit_at_bsr [OF assms(3)] by (metis le_add_diff_inverse)
  qed
  with n show "bit y n = bit (mask (Suc (bsr x)) :: 'a word) n" by (auto simp: bit_simps)
qed

lemma or_shifts_64:
  fixes x :: "64 word"
  assumes "x \<noteq> 0"
  shows "or_shift 32 (or_shift 16 (or_shift 8 (or_shift 4 (or_shift 2 (or_shift 1 x)))))
    = mask (Suc (bsr x))"
proof (rule spread_eq_mask [where m = 64, OF _ _ assms])
  have s: "\<And>n. bit (or_shift 1 x) n \<longleftrightarrow> (\<exists>j<2 * 1. bit x (n + j))"
    by (rule or_shift_spread) simp
  note s = or_shift_spread [OF this, simplified]
  note s = or_shift_spread [OF s, simplified]
  note s = or_shift_spread [OF s, simplified]
  note s = or_shift_spread [OF s, simplified]
  note s = or_shift_spread [OF s, simplified]
  fix n
  show "bit (or_shift 32 (or_shift 16 (or_shift 8 (or_shift 4 (or_shift 2 (or_shift 1 x)))))) n
    \<longleftrightarrow> (\<exists>j<64. bit x (n + j))" using s by simp
qed simp

lemma or_shifts_32:
  fixes x :: "32 word"
  assumes "x \<noteq> 0"
  shows "or_shift 16 (or_shift 8 (or_shift 4 (or_shift 2 (or_shift 1 x)))) = mask (Suc (bsr x))"
proof (rule spread_eq_mask [where m = 32, OF _ _ assms])
  have s: "\<And>n. bit (or_shift 1 x) n \<longleftrightarrow> (\<exists>j<2 * 1. bit x (n + j))"
    by (rule or_shift_spread) simp
  note s = or_shift_spread [OF this, simplified]
  note s = or_shift_spread [OF s, simplified]
  note s = or_shift_spread [OF s, simplified]
  note s = or_shift_spread [OF s, simplified]
  fix n
  show "bit (or_shift 16 (or_shift 8 (or_shift 4 (or_shift 2 (or_shift 1 x))))) n
    \<longleftrightarrow> (\<exists>j<32. bit x (n + j))" using s by simp
qed simp

lemma mask_plus_1: "mask k + 1 = (push_bit k 1 :: 'a::len word)"
  by (simp add: mask_eq_exp_minus_1 push_bit_eq_mult)

lemma xor_sub_63: "b < 64 \<Longrightarrow> 63 XOR (63 - b) = (b::nat)"
  and xor_sub_31: "c < 32 \<Longrightarrow> 31 XOR (31 - c) = (c::nat)"
proof -
  have "\<forall>b\<in>set [0..<64]. 63 XOR (63 - b) = (b::nat)" by code_simp
  then show "b < 64 \<Longrightarrow> 63 XOR (63 - b) = (b::nat)" by simp
  have "\<forall>b\<in>set [0..<32]. 31 XOR (31 - b) = (b::nat)" by code_simp
  then show "c < 32 \<Longrightarrow> 31 XOR (31 - c) = (c::nat)" by simp
qed

lemma mask_neq_minus_1: "k < LENGTH('a) \<Longrightarrow> (mask k :: 'a::len word) \<noteq> - 1"
proof
  assume k: "k < LENGTH('a)" and "mask k = (- 1 :: 'a word)"
  then have "bit (mask k :: 'a word) k" by (simp add: bit_simps)
  then show False by (simp add: bit_simps)
qed

lemma lg_floor_portable_eq:
  assumes "x \<noteq> 0" shows "lg_floor_portable x = lg_floor x"
proof (cases "bsr x = 63")
  case True
  then have "(mask (Suc (bsr x)) :: 64 word) = - 1" by (simp add: mask_eq_exp_minus_1)
  with True show ?thesis
    by (simp only: lg_floor_portable_def lg_floor_def or_shifts_64 [OF assms] Let_def) simp
next
  case False
  with bsr_less [of x] have b: "Suc (bsr x) < 64" by simp
  then have "builtin_ffs (mask (Suc (bsr x)) + 1 :: 64 word) = Suc (Suc (bsr x))"
    by (simp only: mask_plus_1) (rule builtin_ffs_pow2, simp)
  with b mask_neq_minus_1 [of "Suc (bsr x)", where 'a = 64] show ?thesis
    by (simp only: lg_floor_portable_def lg_floor_def or_shifts_64 [OF assms] Let_def ffs_defs) simp
qed

lemma lg_floor_clz_eq: "lg_floor_clz x = lg_floor x"
  using bsr_less [of x] by (simp add: lg_floor_clz_def lg_floor_def builtin_clz_def)

lemma pow2_ceil_u64_clz_eq: "pow2_ceil_u64_clz x = pow2_ceil_u64 x"
  using bsr_less [of "x - 1"]
  by (simp add: pow2_ceil_u64_clz_def pow2_ceil_u64_def builtin_clz_def xor_sub_63)

lemma pow2_ceil_u64_portable_eq:
  assumes "unat x \<le> 2 ^ 63" shows "pow2_ceil_u64_portable x = pow2_ceil_u64 x"
proof (cases "x \<le> 1")
  case True
  then have "x = 0 \<or> x = 1" by (simp add: word_le_nat_alt le_Suc_eq unat_eq_zero) (metis One_nat_def unat_1 word_unat_eq_iff)
  then show ?thesis
    by (auto simp: pow2_ceil_u64_portable_def pow2_ceil_u64_def or_shift_def Let_def)
next
  case False
  then have nz: "x - 1 \<noteq> 0" by auto
  show ?thesis
    unfolding pow2_ceil_u64_portable_def pow2_ceil_u64_def Let_def or_shifts_64 [OF nz] mask_plus_1
    using False by simp
qed

lemma pow2_ceil_u32_portable_eq: "pow2_ceil_u32_portable x = pow2_ceil_u32 x"
proof (cases "x \<le> 1")
  case True
  then have "x = 0 \<or> x = 1" by (simp add: word_le_nat_alt le_Suc_eq unat_eq_zero) (metis One_nat_def unat_1 word_unat_eq_iff)
  then show ?thesis
    by (auto simp: pow2_ceil_u32_portable_def pow2_ceil_u32_def or_shift_def Let_def)
next
  case False
  then have nz: "x - 1 \<noteq> 0" by auto
  show ?thesis
    unfolding pow2_ceil_u32_portable_def pow2_ceil_u32_def Let_def or_shifts_32 [OF nz] mask_plus_1
      builtin_clz_def
    using False bsr_less [of "x - 1"] by (simp add: xor_sub_31)
qed

section \<open>What the functions compute\<close>

lemma lg_floor_bounds [bounds_intro]: "x \<noteq> 0 \<Longrightarrow> 2 ^ lg_floor x \<le> unat x \<and> unat x < 2 ^ Suc (lg_floor x)"
  unfolding lg_floor_def by (rule bsr_bounds)

lemma lg_floor_less [bounds_intro]: "lg_floor x < 64"
  using bsr_less [of x] by (simp add: lg_floor_def)

lemma lg_floor_eq_nat_lg: "lg_floor x = nat_lg (unat x)"
  by (simp add: lg_floor_def bsr_def)

lemma nat_lg_shift: "2 ^ k \<le> n \<Longrightarrow> nat_lg n = k + nat_lg (n div 2 ^ k)"
proof -
  assume n: "2 ^ k \<le> n"
  then have "0 < n div 2 ^ k" by (simp add: div_greater_zero_iff)
  note b = nat_lg_bounds [OF this]
  show ?thesis
  proof (rule nat_lg_eqI)
    have "2 ^ (k + nat_lg (n div 2 ^ k)) \<le> n div 2 ^ k * 2 ^ k"
      using b by (simp add: power_add mult.commute)
    also have "\<dots> \<le> n" by (rule div_times_less_eq_dividend)
    finally show "2 ^ (k + nat_lg (n div 2 ^ k)) \<le> n" .
    have "n < Suc (n div 2 ^ k) * 2 ^ k" by (simp add: dividend_less_div_times)
    also have "\<dots> \<le> 2 ^ Suc (nat_lg (n div 2 ^ k)) * 2 ^ k"
      using b by (intro mult_right_mono) auto
    finally show "n < 2 ^ Suc (k + nat_lg (n div 2 ^ k))" by (simp add: power_add algebra_simps)
  qed
qed

text \<open>One level of the compile-time macros.\<close>

lemma LG_FLOOR_step:
  assumes "\<And>y :: 64 word. unat y < 2 ^ k \<Longrightarrow> F y = nat_lg (unat y)"
    and "unat x < 2 ^ (2 * k)" and "k < 64"
  shows "(if x < push_bit k 1 then F x else k + F (drop_bit k x)) = nat_lg (unat x)"
proof (cases "x < push_bit k 1")
  case True
  with assms show ?thesis by (simp add: word_less_nat_alt)
next
  case False
  then have "2 ^ k \<le> unat x" using assms(3) by (simp add: word_less_nat_alt)
  moreover have "unat (drop_bit k x) < 2 ^ k"
    using assms(2) by (simp only: unat_drop_bit_div) (simp add: less_mult_imp_div_less mult_2 power_add)
  then have "F (drop_bit k x) = nat_lg (unat x div 2 ^ k)"
    using assms(1) by (simp only: unat_drop_bit_div)
  ultimately show ?thesis using False nat_lg_shift by simp
qed

lemma LG_FLOOR_eq: "LG_FLOOR x = lg_floor x"
proof -
  have 1: "\<And>y. unat y < 2 ^ 1 \<Longrightarrow> LG_FLOOR_1 y = nat_lg (unat y)"
    by (simp add: LG_FLOOR_1_def nat_lg.simps)
  have 2: "\<And>y. unat y < 2 ^ 2 \<Longrightarrow> LG_FLOOR_2 y = nat_lg (unat y)"
    unfolding LG_FLOOR_2_def by (rule LG_FLOOR_step [OF 1]) simp_all
  have 4: "\<And>y. unat y < 2 ^ 4 \<Longrightarrow> LG_FLOOR_4 y = nat_lg (unat y)"
    unfolding LG_FLOOR_4_def by (rule LG_FLOOR_step [OF 2]) simp_all
  have 8: "\<And>y. unat y < 2 ^ 8 \<Longrightarrow> LG_FLOOR_8 y = nat_lg (unat y)"
    unfolding LG_FLOOR_8_def by (rule LG_FLOOR_step [OF 4]) simp_all
  have 16: "\<And>y. unat y < 2 ^ 16 \<Longrightarrow> LG_FLOOR_16 y = nat_lg (unat y)"
    unfolding LG_FLOOR_16_def by (rule LG_FLOOR_step [OF 8]) simp_all
  have 32: "\<And>y. unat y < 2 ^ 32 \<Longrightarrow> LG_FLOOR_32 y = nat_lg (unat y)"
    unfolding LG_FLOOR_32_def by (rule LG_FLOOR_step [OF 16]) simp_all
  have "LG_FLOOR_64 x = nat_lg (unat x)"
    unfolding LG_FLOOR_64_def using unat_lt2p [of x]
    by (intro LG_FLOOR_step [OF 32]) simp_all
  then show ?thesis by (simp add: LG_FLOOR_def lg_floor_eq_nat_lg)
qed

lemma and_pred_eq_0_iff: "x \<noteq> 0 \<Longrightarrow> x AND (x - 1) = 0 \<longleftrightarrow> unat x = 2 ^ bsr x"
  for x :: "'a::len word"
proof
  assume x: "x \<noteq> 0" and z: "x AND (x - 1) = 0"
  show "unat x = 2 ^ bsr x"
  proof (rule ccontr)
    assume "unat x \<noteq> 2 ^ bsr x"
    with bsr_bounds [OF x] have b: "2 ^ bsr x \<le> unat x - 1" "unat x - 1 < 2 ^ Suc (bsr x)" by linarith+
    have u: "unat (x - 1) = unat x - 1" using x by (simp add: unat_minus_one)
    with b have "bsr (x - 1) = bsr x" unfolding bsr_def [of "x - 1"] by (intro nat_lg_eqI) simp_all
    moreover have "x - 1 \<noteq> 0" using u b by (metis unat_0 not_le zero_less_numeral zero_less_power)
    ultimately have "bit (x - 1) (bsr x)" using bit_at_bsr by metis
    then have "bit (x AND (x - 1)) (bsr x)" using bit_at_bsr [OF x] by (simp add: bit_and_iff)
    with z show False by simp
  qed
next
  assume x: "x \<noteq> 0" and p: "unat x = 2 ^ bsr x"
  then have "x = push_bit (bsr x) 1"
    by (simp only: word_unat_eq_iff unat_push_bit_1 [OF bsr_less])
  then obtain k where "x = push_bit k 1" by blast
  then show "x AND (x - 1) = 0"
    by (simp only: push_bit_minus_1_eq_mask) (auto intro: bit_word_eqI simp: bit_simps)
qed

lemma lg_ceil_bounds:
  assumes "x \<noteq> 0"
  shows "unat x \<le> 2 ^ lg_ceil x" and "lg_ceil x \<noteq> 0 \<Longrightarrow> 2 ^ (lg_ceil x - 1) < unat x"
  using lg_floor_bounds [OF assms] and_pred_eq_0_iff [OF assms]
  by (auto simp: lg_ceil_def lg_floor_def)

lemma pow2_ceil_u64_spec:
  assumes "0 < unat x" and "unat x \<le> 2 ^ 63"
  obtains k where "unat (pow2_ceil_u64 x) = 2 ^ k" "unat x \<le> 2 ^ k" "k \<le> 63"
    "\<And>j. unat x \<le> 2 ^ j \<Longrightarrow> k \<le> j" "pow2_ceil_u64 x = push_bit k 1"
proof (cases "x \<le> 1")
  case True
  then have "x = 1" using assms(1) by (auto simp: word_le_nat_alt word_unat_eq_iff)
  then show thesis by (intro that [of 0]) (simp_all add: pow2_ceil_u64_def)
next
  case False
  then have "1 < unat x" by (simp add: word_le_nat_alt)
  then have u: "unat (x - 1) = unat x - 1" "x - 1 \<noteq> 0" by (auto simp: unat_simps)
  note b = bsr_bounds [OF u(2)]
  have "2 ^ bsr (x - 1) < (2::nat) ^ 63" using b u assms by linarith
  then have k: "bsr (x - 1) < 63" by (rule power_less_imp_less_exp [rotated]) simp
  have least: "Suc (bsr (x - 1)) \<le> j" if "unat x \<le> 2 ^ j" for j
  proof -
    have "(2::nat) ^ bsr (x - 1) < 2 ^ j" using b u that \<open>1 < unat x\<close> by linarith
    then have "bsr (x - 1) < j" by (rule power_less_imp_less_exp [rotated]) simp
    then show ?thesis by simp
  qed
  have e: "pow2_ceil_u64 x = push_bit (Suc (bsr (x - 1))) 1" using False by (simp add: pow2_ceil_u64_def)
  have "unat (pow2_ceil_u64 x) = 2 ^ Suc (bsr (x - 1))"
    using k by (simp add: e del: power_Suc)
  moreover have "unat x \<le> 2 ^ Suc (bsr (x - 1))" using b u by linarith
  ultimately show thesis using that [OF _ _ _ least e] k by simp
qed

section \<open>Properties\<close>

text \<open>For a non-zero word, the three variants of \<open>lg_floor\<close> (bit scan, count of leading
  zeros, portable) and the macro \<open>LG_FLOOR\<close> agree and return the integer logarithm rounded
  down; \<open>lg_ceil\<close> and \<open>LG_CEIL\<close> agree and return it rounded up.\<close>

theorem lg_routines_correct:
  assumes "x \<noteq> 0"
  shows "2 ^ lg_floor x \<le> unat x \<and> unat x < 2 ^ (lg_floor x + 1)
    \<and> lg_floor_clz x = lg_floor x \<and> lg_floor_portable x = lg_floor x \<and> LG_FLOOR x = lg_floor x
    \<and> unat x \<le> 2 ^ lg_ceil x \<and> (lg_ceil x = 0 \<or> 2 ^ (lg_ceil x - 1) < unat x)
    \<and> LG_CEIL x = lg_ceil x"
  using assms lg_floor_bounds [OF assms] lg_ceil_bounds [OF assms]
  by (auto simp: lg_floor_clz_eq lg_floor_portable_eq LG_FLOOR_eq LG_CEIL_def lg_ceil_def)

theorem lg_routines_correct_witness:
  "2 ^ lg_floor 5 \<le> unat (5 :: size_t) \<and> unat (5 :: size_t) < 2 ^ (lg_floor 5 + 1)
    \<and> lg_floor_clz 5 = lg_floor 5 \<and> lg_floor_portable 5 = lg_floor 5 \<and> LG_FLOOR 5 = lg_floor 5
    \<and> unat (5 :: size_t) \<le> 2 ^ lg_ceil 5 \<and> (lg_ceil 5 = 0 \<or> 2 ^ (lg_ceil 5 - 1) < unat (5 :: size_t))
    \<and> LG_CEIL 5 = lg_ceil 5"
  by (rule lg_routines_correct) simp

text \<open>\<open>pow2_ceil_u64\<close> returns the least power of two that is not below its argument, for
  arguments from 1 to \<open>2 ^ 63\<close>, and the three variants of it that the preprocessor selects from
  agree there; the two variants for 32 bits agree on every argument.\<close>

theorem pow2_ceil_correct:
  assumes "0 < x" "x \<le> 2 ^ 63"
  shows "(\<exists>k\<le>63. unat (pow2_ceil_u64 x) = 2 ^ k \<and> unat x \<le> 2 ^ k \<and> (\<forall>j<k. 2 ^ j < unat x))
    \<and> pow2_ceil_u64_clz x = pow2_ceil_u64 x \<and> pow2_ceil_u64_portable x = pow2_ceil_u64 x
    \<and> pow2_ceil_u32_portable y = pow2_ceil_u32 y"
proof -
  have x: "0 < unat x" "unat x \<le> 2 ^ 63"
    using assms by (simp_all add: word_less_nat_alt word_le_nat_alt)
  from pow2_ceil_u64_spec [OF x] obtain k where
    k: "unat (pow2_ceil_u64 x) = 2 ^ k" "unat x \<le> 2 ^ k" "k \<le> 63"
      "\<And>j. unat x \<le> 2 ^ j \<Longrightarrow> k \<le> j" by blast
  then have "\<forall>j<k. 2 ^ j < unat x" by (metis not_le)
  with k x show ?thesis
    by (auto simp: pow2_ceil_u64_clz_eq pow2_ceil_u64_portable_eq pow2_ceil_u32_portable_eq)
qed

theorem pow2_ceil_correct_witness:
  "(\<exists>k\<le>63. unat (pow2_ceil_u64 100) = 2 ^ k \<and> unat (100 :: uint64) \<le> 2 ^ k)
    \<and> pow2_ceil_u64_clz 100 = pow2_ceil_u64 100 \<and> pow2_ceil_u64_portable 100 = pow2_ceil_u64 100
    \<and> pow2_ceil_u32_portable 7 = pow2_ceil_u32 7"
proof -
  have "(0 :: uint64) < 100" "(100 :: uint64) \<le> 2 ^ 63"
    by (simp_all add: word_less_nat_alt word_le_nat_alt)
  from pow2_ceil_correct [OF this, of 7] show ?thesis by blast
qed

end
