(* ===== verification/Size_Classes.thy ===== *)
theory Size_Classes
  imports Bit_Util
begin

text \<open>
  src/sc.c and include/jemalloc/internal/sc.h: the computation of the size classes at boot
  time. \<open>sc_data_init\<close> fills a table of 232 classes; the loops of \<open>slab_size\<close> and
  \<open>size_classes\<close> are modelled as loops that may not end (\<^theory_text>\<open>partial_function\<close>), and a
  write outside the table is the value \<open>None\<close>, so that \<open>sc_data_init = Some d\<close> says that
  the loops end and that every write is inside the table.
\<close>

section \<open>Configuration and the macros of sc.h\<close>

definition LG_SIZEOF_PTR :: nat where "LG_SIZEOF_PTR = 3"
definition LG_QUANTUM :: nat where "LG_QUANTUM = 4"
definition LG_PAGE :: nat where "LG_PAGE = 12"
definition PAGE :: size_t where "PAGE = push_bit LG_PAGE 1"
definition PAGE_MASK :: size_t where "PAGE_MASK = PAGE - 1"

definition SC_LG_NGROUP :: nat where "SC_LG_NGROUP = 2"
definition SC_LG_TINY_MIN :: nat where "SC_LG_TINY_MIN = 3"
definition SC_NGROUP :: nat where "SC_NGROUP = 2 ^ SC_LG_NGROUP"
definition SC_PTR_BITS :: nat where "SC_PTR_BITS = 2 ^ LG_SIZEOF_PTR * 8"
definition SC_NTINY :: nat where "SC_NTINY = LG_QUANTUM - SC_LG_TINY_MIN"
definition SC_LG_TINY_MAXCLASS :: int where
  "SC_LG_TINY_MAXCLASS = (if LG_QUANTUM > SC_LG_TINY_MIN then int LG_QUANTUM - 1 else -1)"
definition SC_NPSEUDO :: nat where "SC_NPSEUDO = SC_NGROUP"
definition SC_LG_FIRST_REGULAR_BASE :: nat where
  "SC_LG_FIRST_REGULAR_BASE = LG_QUANTUM + SC_LG_NGROUP"
definition SC_LG_BASE_MAX :: nat where "SC_LG_BASE_MAX = SC_PTR_BITS - 2"
definition SC_NREGULAR :: nat where
  "SC_NREGULAR = SC_NGROUP * (SC_LG_BASE_MAX - SC_LG_FIRST_REGULAR_BASE + 1) - 1"
definition SC_NSIZES :: nat where "SC_NSIZES = SC_NTINY + SC_NPSEUDO + SC_NREGULAR"
definition SC_NPSIZES :: nat where
  "SC_NPSIZES = SC_NSIZES - (LG_PAGE - 1 - SC_LG_FIRST_REGULAR_BASE) * SC_NGROUP
     - SC_NPSEUDO - SC_NTINY - (2 * SC_NGROUP)"
definition SC_NBINS :: nat where
  "SC_NBINS = SC_NTINY + SC_NPSEUDO
     + SC_NGROUP * (LG_PAGE + SC_LG_NGROUP - SC_LG_FIRST_REGULAR_BASE) - 1"
definition SC_LOOKUP_MAXCLASS :: size_t where "SC_LOOKUP_MAXCLASS = push_bit 12 1"
definition SC_SMALL_MAX_BASE :: size_t where
  "SC_SMALL_MAX_BASE = push_bit (LG_PAGE + SC_LG_NGROUP - 1) 1"
definition SC_SMALL_MAX_DELTA :: size_t where "SC_SMALL_MAX_DELTA = push_bit (LG_PAGE - 1) 1"
definition SC_SMALL_MAXCLASS :: size_t where
  "SC_SMALL_MAXCLASS = SC_SMALL_MAX_BASE + (of_nat SC_NGROUP - 1) * SC_SMALL_MAX_DELTA"
definition SC_LARGE_MINCLASS :: size_t where
  "SC_LARGE_MINCLASS = push_bit (LG_PAGE + SC_LG_NGROUP) 1"
definition SC_LG_LARGE_MINCLASS :: nat where "SC_LG_LARGE_MINCLASS = LG_PAGE + SC_LG_NGROUP"
definition SC_MAX_BASE :: size_t where "SC_MAX_BASE = push_bit (SC_PTR_BITS - 2) 1"
definition SC_MAX_DELTA :: size_t where
  "SC_MAX_DELTA = push_bit (SC_PTR_BITS - 2 - SC_LG_NGROUP) 1"
definition SC_LARGE_MAXCLASS :: size_t where
  "SC_LARGE_MAXCLASS = SC_MAX_BASE + (of_nat SC_NGROUP - 1) * SC_MAX_DELTA"

lemmas sc_config_defs = LG_SIZEOF_PTR_def LG_QUANTUM_def LG_PAGE_def SC_LG_NGROUP_def
  SC_LG_TINY_MIN_def SC_NGROUP_def SC_PTR_BITS_def SC_NTINY_def SC_LG_TINY_MAXCLASS_def
  SC_NPSEUDO_def SC_LG_FIRST_REGULAR_BASE_def SC_LG_BASE_MAX_def SC_NREGULAR_def SC_NSIZES_def
  SC_NPSIZES_def SC_NBINS_def SC_LG_LARGE_MINCLASS_def

lemmas sc_size_defs = PAGE_def PAGE_MASK_def SC_LOOKUP_MAXCLASS_def SC_SMALL_MAX_BASE_def
  SC_SMALL_MAX_DELTA_def SC_SMALL_MAXCLASS_def SC_LARGE_MINCLASS_def SC_MAX_BASE_def
  SC_MAX_DELTA_def SC_LARGE_MAXCLASS_def

section \<open>The size class table\<close>

record sc_t =
  sc_index :: int
  sc_lg_base :: nat
  sc_lg_delta :: nat
  sc_ndelta :: nat
  sc_psz :: bool
  sc_bin :: bool
  sc_pgs :: nat
  sc_lg_delta_lookup :: nat

record sc_data_t =
  sd_ntiny :: nat
  sd_nlbins :: nat
  sd_nbins :: nat
  sd_nsizes :: nat
  sd_lg_ceil_nsizes :: nat
  sd_npsizes :: nat
  sd_lg_tiny_maxclass :: int
  sd_lookup_maxclass :: size_t
  sd_small_maxclass :: size_t
  sd_lg_large_minclass :: nat
  sd_large_minclass :: size_t
  sd_large_maxclass :: size_t
  sd_initialized :: bool
  sd_sc :: "sc_t list"

text \<open>The static \<open>sc_data_global\<close> starts zeroed.\<close>

definition sc_zero :: sc_t where
  "sc_zero = \<lparr>sc_index = 0, sc_lg_base = 0, sc_lg_delta = 0, sc_ndelta = 0, sc_psz = False,
     sc_bin = False, sc_pgs = 0, sc_lg_delta_lookup = 0\<rparr>"

definition sc_data_global :: sc_data_t where
  "sc_data_global = \<lparr>sd_ntiny = 0, sd_nlbins = 0, sd_nbins = 0, sd_nsizes = 0,
     sd_lg_ceil_nsizes = 0, sd_npsizes = 0, sd_lg_tiny_maxclass = 0, sd_lookup_maxclass = 0,
     sd_small_maxclass = 0, sd_lg_large_minclass = 0, sd_large_minclass = 0,
     sd_large_maxclass = 0, sd_initialized = False, sd_sc = replicate SC_NSIZES sc_zero\<rparr>"

section \<open>One size class\<close>

definition reg_size_compute :: "nat \<Rightarrow> nat \<Rightarrow> nat \<Rightarrow> size_t" where
  "reg_size_compute lg_base lg_delta ndelta =
     push_bit lg_base 1 + push_bit lg_delta (of_nat ndelta)"

text \<open>The loop of \<open>slab_size\<close>; its result is the final \<open>perfect_slab_size\<close>.\<close>

partial_function (option) slab_size_loop ::
  "size_t \<Rightarrow> size_t \<Rightarrow> size_t \<Rightarrow> size_t \<Rightarrow> size_t option" where
  "slab_size_loop page reg_size try_slab_size try_nregs =
     (if try_slab_size = try_nregs * reg_size then Some try_slab_size
      else slab_size_loop page reg_size (try_slab_size + page)
             ((try_slab_size + page) div reg_size))"

definition slab_size :: "nat \<Rightarrow> nat \<Rightarrow> nat \<Rightarrow> nat \<Rightarrow> nat option" where
  "slab_size lg_page lg_base lg_delta ndelta =
     (let page = push_bit lg_page 1;
          reg_size = reg_size_compute lg_base lg_delta ndelta;
          try_slab_size = page;
          try_nregs = try_slab_size div reg_size
      in map_option (\<lambda>perfect_slab_size. unat (perfect_slab_size div page))
           (slab_size_loop page reg_size try_slab_size try_nregs))"

definition size_class ::
  "nat \<Rightarrow> nat \<Rightarrow> nat \<Rightarrow> nat \<Rightarrow> nat \<Rightarrow> nat \<Rightarrow> nat \<Rightarrow> sc_t option" where
  "size_class lg_max_lookup lg_page lg_ngroup index lg_base lg_delta ndelta =
     (let psz = (reg_size_compute lg_base lg_delta ndelta mod push_bit lg_page 1 = 0);
          size = (push_bit lg_base 1 + push_bit lg_delta (of_nat ndelta) :: size_t);
          bin = (size < push_bit (lg_page + lg_ngroup) 1);
          lg_delta_lookup = (if size \<le> push_bit lg_max_lookup 1 then lg_delta else 0)
      in map_option (\<lambda>pgs.
           \<lparr>sc_index = int index, sc_lg_base = lg_base, sc_lg_delta = lg_delta,
            sc_ndelta = ndelta, sc_psz = psz, sc_bin = bin, sc_pgs = pgs,
            sc_lg_delta_lookup = lg_delta_lookup\<rparr>)
         (if bin then slab_size lg_page lg_base lg_delta ndelta else Some 0))"

section \<open>All size classes\<close>

text \<open>The local variables of \<open>size_classes\<close>, with the table being filled.\<close>

record sc_locals =
  v_ntiny :: nat
  v_nlbins :: nat
  v_lg_tiny_maxclass :: int
  v_nbins :: nat
  v_npsizes :: nat
  v_index :: nat
  v_ndelta :: nat
  v_lg_base :: nat
  v_lg_delta :: nat
  v_lookup_maxclass :: size_t
  v_small_maxclass :: size_t
  v_lg_large_minclass :: nat
  v_large_maxclass :: size_t
  v_sc :: "sc_t list"

definition count_if :: "bool \<Rightarrow> nat \<Rightarrow> nat" where
  "count_if b n = (if b then n + 1 else n)"

text \<open>\<open>size_class(&sc_data->sc[index], ...)\<close> with the current locals; \<open>None\<close> outside the table.\<close>

definition fill_class :: "nat \<Rightarrow> nat \<Rightarrow> nat \<Rightarrow> sc_locals \<Rightarrow> (sc_t \<times> sc_locals) option" where
  "fill_class lg_max_lookup lg_page lg_ngroup v =
     (if v_index v < length (v_sc v) then
        map_option (\<lambda>sc. (sc, v\<lparr>v_sc := (v_sc v)[v_index v := sc]\<rparr>))
          (size_class lg_max_lookup lg_page lg_ngroup (v_index v) (v_lg_base v) (v_lg_delta v)
            (v_ndelta v))
      else None)"

definition tiny_step :: "nat \<Rightarrow> nat \<Rightarrow> nat \<Rightarrow> sc_locals \<Rightarrow> sc_locals option" where
  "tiny_step lg_max_lookup lg_page lg_ngroup v =
     map_option (\<lambda>(sc, v). v\<lparr>
         v_nlbins := (if sc_lg_delta_lookup sc \<noteq> 0 then v_index v + 1 else v_nlbins v),
         v_npsizes := count_if (sc_psz sc) (v_npsizes v),
         v_nbins := count_if (sc_bin sc) (v_nbins v),
         v_ntiny := v_ntiny v + 1,
         v_lg_tiny_maxclass := int (v_lg_base v),
         v_index := v_index v + 1,
         v_lg_delta := v_lg_base v,
         v_lg_base := v_lg_base v + 1\<rparr>)
       (fill_class lg_max_lookup lg_page lg_ngroup v)"

partial_function (option) tiny_loop ::
  "nat \<Rightarrow> nat \<Rightarrow> nat \<Rightarrow> nat \<Rightarrow> sc_locals \<Rightarrow> sc_locals option" where
  "tiny_loop lg_quantum lg_max_lookup lg_page lg_ngroup v =
     (if v_lg_base v < lg_quantum then
        Option.bind (tiny_step lg_max_lookup lg_page lg_ngroup v)
          (tiny_loop lg_quantum lg_max_lookup lg_page lg_ngroup)
      else Some v)"

definition first_pseudo :: "nat \<Rightarrow> nat \<Rightarrow> nat \<Rightarrow> sc_locals \<Rightarrow> sc_locals option" where
  "first_pseudo lg_max_lookup lg_page lg_ngroup v =
     (if v_ntiny v \<noteq> 0 then
        map_option (\<lambda>(sc, v). v\<lparr>
            v_index := v_index v + 1,
            v_lg_base := v_lg_base v + 1,
            v_lg_delta := v_lg_delta v + 1,
            v_npsizes := count_if (sc_psz sc) (v_npsizes v),
            v_nbins := count_if (sc_bin sc) (v_nbins v)\<rparr>)
          (fill_class lg_max_lookup lg_page lg_ngroup
            (v\<lparr>v_lg_base := v_lg_base v - 1, v_ndelta := 1\<rparr>))
      else Some v)"

partial_function (option) pseudo_loop ::
  "nat \<Rightarrow> nat \<Rightarrow> nat \<Rightarrow> nat \<Rightarrow> sc_locals \<Rightarrow> sc_locals option" where
  "pseudo_loop ngroup lg_max_lookup lg_page lg_ngroup v =
     (if v_ndelta v < ngroup then
        Option.bind (fill_class lg_max_lookup lg_page lg_ngroup v) (\<lambda>(sc, v).
          pseudo_loop ngroup lg_max_lookup lg_page lg_ngroup
            (v\<lparr>v_index := v_index v + 1,
               v_ndelta := v_ndelta v + 1,
               v_npsizes := count_if (sc_psz sc) (v_npsizes v),
               v_nbins := count_if (sc_bin sc) (v_nbins v)\<rparr>))
      else Some v)"

definition group_step :: "nat \<Rightarrow> nat \<Rightarrow> nat \<Rightarrow> sc_locals \<Rightarrow> sc_locals option" where
  "group_step lg_max_lookup lg_page lg_ngroup v =
     map_option (\<lambda>(sc, v).
         let size = push_bit (v_lg_base v) 1 + push_bit (v_lg_delta v) (of_nat (v_ndelta v));
             v = (if sc_lg_delta_lookup sc \<noteq> 0
                  then v\<lparr>v_nlbins := v_index v + 1, v_lookup_maxclass := size\<rparr> else v);
             v = v\<lparr>v_npsizes := count_if (sc_psz sc) (v_npsizes v)\<rparr>;
             v = (if sc_bin sc
                  then v\<lparr>v_nbins := v_nbins v + 1, v_small_maxclass := size,
                         v_lg_large_minclass :=
                           (if lg_ngroup > 0 then v_lg_base v + 1 else v_lg_base v + 2)\<rparr> else v)
         in v\<lparr>v_large_maxclass := size, v_index := v_index v + 1, v_ndelta := v_ndelta v + 1\<rparr>)
       (fill_class lg_max_lookup lg_page lg_ngroup v)"

partial_function (option) group_loop ::
  "nat \<Rightarrow> nat \<Rightarrow> nat \<Rightarrow> nat \<Rightarrow> sc_locals \<Rightarrow> sc_locals option" where
  "group_loop ndelta_limit lg_max_lookup lg_page lg_ngroup v =
     (if v_ndelta v \<le> ndelta_limit then
        Option.bind (group_step lg_max_lookup lg_page lg_ngroup v)
          (group_loop ndelta_limit lg_max_lookup lg_page lg_ngroup)
      else Some v)"

partial_function (option) groups_loop ::
  "nat \<Rightarrow> nat \<Rightarrow> nat \<Rightarrow> nat \<Rightarrow> nat \<Rightarrow> sc_locals \<Rightarrow> sc_locals option" where
  "groups_loop ptr_bits ngroup lg_max_lookup lg_page lg_ngroup v =
     (if v_lg_base v < ptr_bits - 1 then
        Option.bind
          (group_loop (if v_lg_base v = ptr_bits - 2 then ngroup - 1 else ngroup)
            lg_max_lookup lg_page lg_ngroup (v\<lparr>v_ndelta := 1\<rparr>))
          (\<lambda>v. groups_loop ptr_bits ngroup lg_max_lookup lg_page lg_ngroup
             (v\<lparr>v_lg_base := v_lg_base v + 1, v_lg_delta := v_lg_delta v + 1\<rparr>))
      else Some v)"

definition size_classes ::
  "sc_data_t \<Rightarrow> nat \<Rightarrow> nat \<Rightarrow> nat \<Rightarrow> nat \<Rightarrow> nat \<Rightarrow> nat \<Rightarrow> sc_data_t option" where
  "size_classes sc_data lg_ptr_size lg_quantum lg_tiny_min lg_max_lookup lg_page lg_ngroup =
     (let ptr_bits = 2 ^ lg_ptr_size * 8;
          ngroup = 2 ^ lg_ngroup;
          v = \<lparr>v_ntiny = 0, v_nlbins = 0, v_lg_tiny_maxclass = -1, v_nbins = 0, v_npsizes = 0,
               v_index = 0, v_ndelta = 0, v_lg_base = lg_tiny_min, v_lg_delta = lg_tiny_min,
               v_lookup_maxclass = 0, v_small_maxclass = 0, v_lg_large_minclass = 0,
               v_large_maxclass = 0, v_sc = sd_sc sc_data\<rparr>
      in map_option (\<lambda>v.
           sc_data\<lparr>sd_ntiny := v_ntiny v,
                   sd_nlbins := v_nlbins v,
                   sd_nbins := v_nbins v,
                   sd_nsizes := v_index v,
                   sd_lg_ceil_nsizes := lg_ceil (of_nat (v_index v)),
                   sd_npsizes := v_npsizes v,
                   sd_lg_tiny_maxclass := v_lg_tiny_maxclass v,
                   sd_lookup_maxclass := v_lookup_maxclass v,
                   sd_small_maxclass := v_small_maxclass v,
                   sd_lg_large_minclass := v_lg_large_minclass v,
                   sd_large_minclass := push_bit (v_lg_large_minclass v) 1,
                   sd_large_maxclass := v_large_maxclass v,
                   sd_sc := v_sc v\<rparr>)
         (Option.bind (tiny_loop lg_quantum lg_max_lookup lg_page lg_ngroup v)
           (\<lambda>v. Option.bind (first_pseudo lg_max_lookup lg_page lg_ngroup v)
           (\<lambda>v. Option.bind (pseudo_loop ngroup lg_max_lookup lg_page lg_ngroup v)
           (\<lambda>v. groups_loop ptr_bits ngroup lg_max_lookup lg_page lg_ngroup
                  (v\<lparr>v_lg_base := v_lg_base v + lg_ngroup\<rparr>))))))"

definition sc_data_init :: "sc_data_t \<Rightarrow> sc_data_t option" where
  "sc_data_init sc_data =
     (let lg_max_lookup = 12
      in map_option (\<lambda>d. d\<lparr>sd_initialized := True\<rparr>)
           (size_classes sc_data LG_SIZEOF_PTR LG_QUANTUM SC_LG_TINY_MIN lg_max_lookup LG_PAGE 2))"

text \<open>
  Changing the slab sizes of a range of bins (the \<open>slab_sizes\<close> option). The bitmap of a slab
  bounds the number of its regions: \<open>LG_SLAB_MAXREGS\<close> of arena_types.h is above
  \<open>LG_CEIL(SC_NSIZES)\<close> here, so it is the bound that bitmap.h chooses.
\<close>

definition LG_SLAB_MAXREGS :: nat where "LG_SLAB_MAXREGS = LG_PAGE - SC_LG_TINY_MIN"

definition LG_BITMAP_MAXBITS :: nat where
  "LG_BITMAP_MAXBITS =
     (if LG_SLAB_MAXREGS > LG_CEIL (of_nat SC_NSIZES) then LG_SLAB_MAXREGS
      else LG_CEIL (of_nat SC_NSIZES))"

definition BITMAP_MAXBITS :: size_t where "BITMAP_MAXBITS = push_bit LG_BITMAP_MAXBITS 1"

definition sc_data_update_sc_slab_size :: "sc_t \<Rightarrow> size_t \<Rightarrow> size_t \<Rightarrow> sc_t" where
  "sc_data_update_sc_slab_size sc reg_size pgs_guess =
     (let min_pgs = reg_size div PAGE;
          min_pgs = (if reg_size mod PAGE \<noteq> 0 then min_pgs + 1 else min_pgs);
          max_pgs = BITMAP_MAXBITS * reg_size div PAGE
      in if pgs_guess < min_pgs then sc\<lparr>sc_pgs := unat min_pgs\<rparr>
         else if pgs_guess > max_pgs then sc\<lparr>sc_pgs := unat max_pgs\<rparr>
         else sc\<lparr>sc_pgs := unat pgs_guess\<rparr>)"

text \<open>The loop over \<open>data->sc[0 .. nsizes)\<close>, stopping at the first class that is no bin.\<close>

fun update_slab_size_loop :: "size_t \<Rightarrow> size_t \<Rightarrow> int \<Rightarrow> sc_t list \<Rightarrow> sc_t list" where
  "update_slab_size_loop begin_sz end_sz pgs [] = []"
| "update_slab_size_loop begin_sz end_sz pgs (sc # scs) =
     (if \<not> sc_bin sc then sc # scs
      else (let reg_size = reg_size_compute (sc_lg_base sc) (sc_lg_delta sc) (sc_ndelta sc)
            in (if begin_sz \<le> reg_size \<and> reg_size \<le> end_sz
                then sc_data_update_sc_slab_size sc reg_size (word_of_int pgs) else sc)
               # update_slab_size_loop begin_sz end_sz pgs scs))"

definition sc_data_update_slab_size :: "sc_data_t \<Rightarrow> size_t \<Rightarrow> size_t \<Rightarrow> int \<Rightarrow> sc_data_t" where
  "sc_data_update_slab_size data begin_sz end_sz pgs =
     data\<lparr>sd_sc := update_slab_size_loop begin_sz end_sz pgs (take (sd_nsizes data) (sd_sc data))
                   @ drop (sd_nsizes data) (sd_sc data)\<rparr>"

definition sc_boot :: "sc_data_t \<Rightarrow> sc_data_t option" where
  "sc_boot data = sc_data_init data"

declare slab_size_loop.simps [code] tiny_loop.simps [code] pseudo_loop.simps [code]
  group_loop.simps [code] groups_loop.simps [code]

section \<open>The table the code is meant to build\<close>

text \<open>
  The comment of sc.h describes the classes: one tiny class, the pseudo-group of multiples of
  the quantum, then groups of \<open>SC_NGROUP\<close> classes. Here is that description as a function of
  the index, on natural numbers.
\<close>

definition class_lg_base :: "nat \<Rightarrow> nat" where
  "class_lg_base i = (if i < 2 then 3 else if i < 5 then 4 else 6 + (i - 5) div 4)"

definition class_lg_delta :: "nat \<Rightarrow> nat" where
  "class_lg_delta i = (if i < 2 then 3 else if i < 5 then 4 else 4 + (i - 5) div 4)"

definition class_ndelta :: "nat \<Rightarrow> nat" where
  "class_ndelta i = (if i < 2 then i else if i < 5 then i - 1 else (i - 5) mod 4 + 1)"

definition class_size :: "nat \<Rightarrow> nat" where
  "class_size i = 2 ^ class_lg_base i + class_ndelta i * 2 ^ class_lg_delta i"

definition sc_entry :: "nat \<Rightarrow> sc_t" where
  "sc_entry i = \<lparr>sc_index = int i, sc_lg_base = class_lg_base i, sc_lg_delta = class_lg_delta i,
     sc_ndelta = class_ndelta i, sc_psz = (class_size i mod 2 ^ 12 = 0),
     sc_bin = (class_size i < 2 ^ 14),
     sc_pgs = (if class_size i < 2 ^ 14 then lcm (2 ^ 12) (class_size i) div 2 ^ 12 else 0),
     sc_lg_delta_lookup = (if class_size i \<le> 2 ^ 12 then class_lg_delta i else 0)\<rparr>"

section \<open>The slab loop finds the least common multiple\<close>

lemma slab_size_loop_lcm:
  fixes page reg_size t :: size_t
  defines "L \<equiv> lcm (unat page) (unat reg_size)"
  assumes "0 < unat page" "0 < unat reg_size" "L < 2 ^ 64"
    and "unat page dvd unat t" "0 < unat t" "unat t \<le> L"
  shows "slab_size_loop page reg_size t (t div reg_size) = Some (of_nat L)"
  using assms(5-7)
proof (induction "L - unat t" arbitrary: t rule: less_induct)
  case less
  have d: "unat (t div reg_size) = unat t div unat reg_size" by (rule unat_div)
  have "unat t div unat reg_size * unat reg_size < 2 ^ LENGTH(64)"
    using div_times_less_eq_dividend unat_lt2p by (rule le_less_trans)
  then have m: "unat (t div reg_size * reg_size) = unat t div unat reg_size * unat reg_size"
    by (subst unat_mult_eq) (simp_all only: d)
  show ?case
  proof (cases "unat reg_size dvd unat t")
    case True
    with less.prems have "L dvd unat t" by (simp add: L_def)
    with less.prems have "unat t = L" by (simp add: dvd_imp_le le_antisym)
    then have "t = of_nat L" by (metis of_nat_unat ucast_id)
    moreover have "t = t div reg_size * reg_size"
      using True m by (simp add: word_unat_eq_iff)
    ultimately show ?thesis by (subst slab_size_loop.simps) simp
  next
    case False
    then have ne: "t \<noteq> t div reg_size * reg_size"
      using m by (metis dvd_triv_right)
    from False have "unat t \<noteq> L" by (auto simp: L_def)
    with less.prems have lt: "unat t < L" by simp
    moreover have "unat page dvd L - unat t" using less.prems by (simp add: L_def)
    ultimately have le: "unat t + unat page \<le> L" by (auto dest: dvd_imp_le)
    then have u: "unat (t + page) = unat t + unat page"
      using assms(4) by (simp add: unat_word_ariths)
    have "slab_size_loop page reg_size (t + page) ((t + page) div reg_size) = Some (of_nat L)"
      using less.prems le lt u assms(2) by (intro less.hyps) simp_all
    with ne show ?thesis by (subst slab_size_loop.simps) simp
  qed
qed

lemma slab_size_lcm:
  assumes "lg_page < 64" "0 < unat (reg_size_compute lg_base lg_delta ndelta)"
    and "lcm (2 ^ lg_page) (unat (reg_size_compute lg_base lg_delta ndelta)) < 2 ^ 64"
  shows "slab_size lg_page lg_base lg_delta ndelta
    = Some (lcm (2 ^ lg_page) (unat (reg_size_compute lg_base lg_delta ndelta)) div 2 ^ lg_page)"
proof -
  let ?p = "push_bit lg_page 1 :: size_t" and ?r = "reg_size_compute lg_base lg_delta ndelta"
  have p: "unat ?p = 2 ^ lg_page" using assms(1) by (intro unat_push_bit_1) simp
  have "2 ^ lg_page \<le> lcm (2 ^ lg_page) (unat ?r)"
    using assms(2) by (intro dvd_imp_le) (simp_all add: lcm_pos_nat)
  then have "slab_size_loop ?p ?r ?p (?p div ?r) = Some (of_nat (lcm (unat ?p) (unat ?r)))"
    using assms p by (intro slab_size_loop_lcm) simp_all
  then show ?thesis
    using assms(3) p
    by (simp add: slab_size_def unat_div unat_of_nat del: push_bit_of_1)
qed

lemma unat_reg_size_compute:
  assumes "2 ^ b + n * 2 ^ d < (2::nat) ^ 64"
  shows "unat (reg_size_compute b d n) = 2 ^ b + n * 2 ^ d"
proof -
  have "(2::nat) ^ b < 2 ^ 64" using assms by linarith
  then have b: "b < 64" by (rule power_less_imp_less_exp [rotated]) simp
  have n: "n * 2 ^ d < (2::nat) ^ 64" using assms by linarith
  have "n \<le> n * 2 ^ d" by simp
  from le_less_trans [OF this n] have "n < 2 ^ LENGTH(64)" by simp
  then have "unat (of_nat n :: size_t) = n" by (rule unat_of_nat_eq)
  with n have "unat (push_bit d (of_nat n :: size_t)) = n * 2 ^ d"
    by (subst unat_push_bit_eq) simp_all
  with assms b show ?thesis
    unfolding reg_size_compute_def by (subst unat_add_eq) simp_all
qed

lemma size_class_eq:
  assumes "2 ^ b + n * 2 ^ d = s" and "s < 2 ^ 63" and "0 < s"
  shows "size_class 12 12 2 i b d n = Some
    \<lparr>sc_index = int i, sc_lg_base = b, sc_lg_delta = d, sc_ndelta = n, sc_psz = (s mod 2 ^ 12 = 0),
     sc_bin = (s < 2 ^ 14), sc_pgs = (if s < 2 ^ 14 then lcm (2 ^ 12) s div 2 ^ 12 else 0),
     sc_lg_delta_lookup = (if s \<le> 2 ^ 12 then d else 0)\<rparr>"
proof -
  have s: "unat (reg_size_compute b d n) = s" using assms by (subst unat_reg_size_compute) simp_all
  have l: "slab_size 12 b d n = Some (lcm (2 ^ 12) s div 2 ^ 12)" if "s < 2 ^ 14"
  proof -
    have "lcm (2 ^ 12) s \<le> 2 ^ 12 * s" using assms(3) by (intro dvd_imp_le) simp_all
    also have "\<dots> < 2 ^ 64" using that by simp
    finally show ?thesis using slab_size_lcm [of 12 b d n] s assms(3) by simp
  qed
  have psz: "reg_size_compute b d n mod push_bit 12 1 = 0 \<longleftrightarrow> s mod 2 ^ 12 = 0"
    using s by (simp add: word_unat_eq_iff unat_mod)
  have bin: "reg_size_compute b d n < push_bit (12 + 2) 1 \<longleftrightarrow> s < 2 ^ 14"
    using s by (simp add: word_less_nat_alt)
  have lk: "reg_size_compute b d n \<le> push_bit 12 1 \<longleftrightarrow> s \<le> 2 ^ 12"
    using s by (simp add: word_le_nat_alt)
  show ?thesis
    unfolding size_class_def Let_def psz [unfolded reg_size_compute_def]
      bin [unfolded reg_size_compute_def] lk [unfolded reg_size_compute_def]
    using psz l by (simp add: reg_size_compute_def)
qed

lemma class_size_less: "i < 232 \<Longrightarrow> class_size i < 2 ^ 63"
proof -
  assume i: "i < 232"
  show ?thesis
  proof (cases "i < 5")
    case True
    then show ?thesis by (auto simp: class_size_def class_lg_base_def class_lg_delta_def class_ndelta_def)
  next
    case False
    let ?g = "(i - 5) div 4" and ?m = "(i - 5) mod 4"
    have s: "class_size i = (?m + 5) * 2 ^ (4 + ?g)"
      using False by (simp add: class_size_def class_lg_base_def class_lg_delta_def
          class_ndelta_def power_add algebra_simps)
    show ?thesis
    proof (cases "?g = 56")
      case True
      moreover from this i False have "?m < 3" by presburger
      ultimately show ?thesis unfolding s by simp
    next
      case g: False
      with i have "?g \<le> 55" by presburger
      then have "(2::nat) ^ (4 + ?g) \<le> 2 ^ 59" by (intro power_increasing) simp_all
      then have "(?m + 5) * 2 ^ (4 + ?g) \<le> 8 * (2 ^ 59)" by (intro mult_mono) simp_all
      then show ?thesis unfolding s by simp
    qed
  qed
qed

lemma class_size_pos: "0 < class_size i"
  by (simp add: class_size_def)

lemma size_class_entry:
  "i < 232 \<Longrightarrow> class_lg_base i = b \<Longrightarrow> class_lg_delta i = d \<Longrightarrow> class_ndelta i = n \<Longrightarrow>
   size_class 12 12 2 i b d n = Some (sc_entry i)"
proof -
  assume a: "i < 232" "class_lg_base i = b" "class_lg_delta i = d" "class_ndelta i = n"
  then have "2 ^ b + n * 2 ^ d = class_size i" by (simp add: class_size_def)
  from size_class_eq [OF this class_size_less class_size_pos] a(1)
  show ?thesis by (simp only: sc_entry_def a)
qed

section \<open>The loops fill the table\<close>

text \<open>
  The state of the loops before class \<open>k\<close>: the first \<open>k\<close> entries are in place and the
  counters count them. \<open>v_nlbins\<close> and the three maxima are only maintained by the group loop.
\<close>

definition table_upto :: "nat \<Rightarrow> sc_t list \<Rightarrow> bool" where
  "table_upto k l \<longleftrightarrow> length l = 232 \<and> take k l = map sc_entry [0..<k]"

definition count_upto :: "(sc_t \<Rightarrow> bool) \<Rightarrow> nat \<Rightarrow> nat" where
  "count_upto P k = length (filter P (map sc_entry [0..<k]))"

definition build_inv :: "nat \<Rightarrow> sc_locals \<Rightarrow> bool" where
  "build_inv k v \<longleftrightarrow> k \<le> 232 \<and> v_index v = k \<and> table_upto k (v_sc v)
     \<and> v_npsizes v = count_upto sc_psz k \<and> v_nbins v = count_upto sc_bin k"

definition group_inv :: "nat \<Rightarrow> sc_locals \<Rightarrow> bool" where
  "group_inv k v \<longleftrightarrow> build_inv k v
     \<and> v_nlbins v = (if k \<le> 5 then 1 else min k 29)
     \<and> v_lookup_maxclass v = (if k \<le> 5 then 0 else of_nat (class_size (min k 29 - 1)))
     \<and> v_small_maxclass v = (if k \<le> 5 then 0 else of_nat (class_size (min k 36 - 1)))
     \<and> v_lg_large_minclass v = (if k \<le> 5 then 0 else class_lg_base (min k 36 - 1) + 1)
     \<and> v_large_maxclass v = (if k \<le> 5 then 0 else of_nat (class_size (k - 1)))
     \<and> v_ntiny v = 1 \<and> v_lg_tiny_maxclass v = 3"

definition at_class :: "nat \<Rightarrow> sc_locals \<Rightarrow> bool" where
  "at_class k v \<longleftrightarrow> v_lg_base v = class_lg_base k \<and> v_lg_delta v = class_lg_delta k
     \<and> v_ndelta v = class_ndelta k"

lemma count_upto_Suc: "count_upto P (Suc k) = count_if (P (sc_entry k)) (count_upto P k)"
  by (simp add: count_upto_def count_if_def)

lemma table_upto_Suc:
  "table_upto k l \<Longrightarrow> k < 232 \<Longrightarrow> table_upto (Suc k) (l[k := sc_entry k])"
  by (simp add: table_upto_def take_Suc_conv_app_nth)

lemma table_upto_full: "table_upto 232 l \<Longrightarrow> l = map sc_entry [0..<232]"
  by (metis table_upto_def take_all order_refl)

lemma fill_class_entry:
  assumes "build_inv k v" "k < 232" "at_class k v"
  shows "fill_class 12 12 2 v = Some (sc_entry k, v\<lparr>v_sc := (v_sc v)[k := sc_entry k]\<rparr>)"
  using assms by (simp add: fill_class_def build_inv_def table_upto_def at_class_def size_class_entry)

lemma build_inv_fill:
  assumes "build_inv k v" "k < 232" "v_index w = Suc k" "v_sc w = (v_sc v)[k := sc_entry k]"
    and "v_npsizes w = count_if (sc_psz (sc_entry k)) (v_npsizes v)"
    and "v_nbins w = count_if (sc_bin (sc_entry k)) (v_nbins v)"
  shows "build_inv (Suc k) w"
  using assms by (simp add: build_inv_def table_upto_Suc count_upto_Suc)

text \<open>The tiny and the pseudo-group loops: five classes, unrolled.\<close>

lemma at_class_small:
  "at_class 0 v \<longleftrightarrow> v_lg_base v = 3 \<and> v_lg_delta v = 3 \<and> v_ndelta v = 0"
  "at_class (Suc 0) v \<longleftrightarrow> v_lg_base v = 3 \<and> v_lg_delta v = 3 \<and> v_ndelta v = 1"
  "at_class 2 v \<longleftrightarrow> v_lg_base v = 4 \<and> v_lg_delta v = 4 \<and> v_ndelta v = 1"
  "at_class 3 v \<longleftrightarrow> v_lg_base v = 4 \<and> v_lg_delta v = 4 \<and> v_ndelta v = 2"
  "at_class 4 v \<longleftrightarrow> v_lg_base v = 4 \<and> v_lg_delta v = 4 \<and> v_ndelta v = 3"
  by (simp_all add: at_class_def class_lg_base_def class_lg_delta_def class_ndelta_def)

definition meta :: "sc_locals \<Rightarrow> nat \<times> nat \<times> int" where
  "meta v = (v_nlbins v, v_ntiny v, v_lg_tiny_maxclass v)"

definition maxima :: "sc_locals \<Rightarrow> size_t \<times> size_t \<times> nat \<times> size_t" where
  "maxima v = (v_lookup_maxclass v, v_small_maxclass v, v_lg_large_minclass v, v_large_maxclass v)"

lemma tiny_loop_1:
  assumes v: "build_inv 0 v" "at_class 0 v" "v_ntiny v = 0"
  shows "\<exists>w. tiny_loop 4 12 12 2 v = Some w \<and> build_inv (Suc 0) w \<and> v_lg_base w = 4
    \<and> v_lg_delta w = 3 \<and> v_ndelta w = 0 \<and> meta w = (1, 1, 3) \<and> maxima w = maxima v"
proof -
  have l: "sc_lg_delta_lookup (sc_entry 0) = 3"
    by (simp add: sc_entry_def class_size_def class_lg_base_def class_lg_delta_def class_ndelta_def)
  have b: "v_lg_base v = 3" "v_lg_delta v = 3" "v_ndelta v = 0" "v_index v = 0"
    using v by (simp_all add: at_class_small build_inv_def)
  define w where "w = (case tiny_step 12 12 2 v of Some w \<Rightarrow> w)"
  have s: "tiny_step 12 12 2 v = Some w" and "build_inv (Suc 0) w" "v_lg_base w = 4"
    "v_lg_delta w = 3" "v_ndelta w = 0" "meta w = (1, 1, 3)" "maxima w = maxima v"
    using b v l
    by (simp_all add: w_def tiny_step_def fill_class_entry meta_def maxima_def
        build_inv_fill [OF v(1)])
  moreover have "tiny_loop 4 12 12 2 v = Some w"
    using b s \<open>v_lg_base w = 4\<close>
    by (simp add: tiny_loop.simps [of 4 12 12 2 v] tiny_loop.simps [of 4 12 12 2 w])
  ultimately show ?thesis by blast
qed

lemma pseudo_step:
  assumes v: "build_inv k v" "at_class k v" "k < 232" "class_ndelta k < 4"
  shows "\<exists>w. pseudo_loop 4 12 12 2 v = pseudo_loop 4 12 12 2 w \<and> build_inv (Suc k) w
    \<and> v_ndelta w = Suc (v_ndelta v) \<and> v_lg_base w = v_lg_base v \<and> v_lg_delta w = v_lg_delta v
    \<and> meta w = meta v \<and> maxima w = maxima v"
proof -
  have "v_ndelta v < 4" "v_index v = k" using v by (simp_all add: at_class_def build_inv_def)
  with v show ?thesis
    apply (simp add: pseudo_loop.simps [of 4 12 12 2 v] fill_class_entry)
    apply (rule exI, rule conjI, rule refl)
    by (simp add: build_inv_fill [OF v(1)] meta_def maxima_def)
qed

lemma pseudo_groups:
  assumes "build_inv (Suc 0) v" "v_lg_base v = 4" "v_lg_delta v = 3" "meta v = (1, 1, 3)"
  shows "\<exists>w. Option.bind (first_pseudo 12 12 2 v) (pseudo_loop 4 12 12 2) = Some w
    \<and> build_inv 5 w \<and> v_lg_base w = 4 \<and> v_lg_delta w = 4 \<and> meta w = (1, 1, 3)
    \<and> maxima w = maxima v"
proof -
  let ?v = "v\<lparr>v_lg_base := v_lg_base v - 1, v_ndelta := 1\<rparr>"
  have v: "build_inv (Suc 0) ?v" "at_class (Suc 0) ?v" "v_index v = 1" "v_ntiny v = 1"
    using assms by (simp_all add: build_inv_def at_class_small meta_def)
  define w where "w = (case first_pseudo 12 12 2 v of Some w \<Rightarrow> w)"
  have f: "first_pseudo 12 12 2 v = Some w" and w: "build_inv 2 w" "at_class 2 w"
    "meta w = (1, 1, 3)" "maxima w = maxima v"
    using assms v
    by (simp_all add: w_def first_pseudo_def fill_class_entry meta_def maxima_def at_class_small
        build_inv_fill [OF v(1), simplified, folded numeral_2_eq_2])
  obtain w1 where w1: "pseudo_loop 4 12 12 2 w = pseudo_loop 4 12 12 2 w1" "build_inv 3 w1"
    "at_class 3 w1" "meta w1 = (1, 1, 3)" "maxima w1 = maxima v"
    using pseudo_step [OF w(1,2)] w by (auto simp: at_class_small class_ndelta_def)
  obtain w2 where w2: "pseudo_loop 4 12 12 2 w1 = pseudo_loop 4 12 12 2 w2" "build_inv 4 w2"
    "at_class 4 w2" "meta w2 = (1, 1, 3)" "maxima w2 = maxima v"
    using pseudo_step [OF w1(2,3)] w1 by (auto simp: at_class_small class_ndelta_def)
  obtain w3 where w3: "pseudo_loop 4 12 12 2 w2 = pseudo_loop 4 12 12 2 w3" "build_inv 5 w3"
    "v_lg_base w3 = 4" "v_lg_delta w3 = 4" "v_ndelta w3 = 4" "meta w3 = (1, 1, 3)"
    "maxima w3 = maxima v"
    using pseudo_step [OF w2(2,3)] w2 by (auto simp: at_class_small class_ndelta_def)
  have "pseudo_loop 4 12 12 2 w3 = Some w3"
    using w3 by (simp add: pseudo_loop.simps [of 4 12 12 2 w3])
  with f w1(1) w2(1) w3 show ?thesis by simp
qed

text \<open>The classes grow, so the lookup classes and the bins are prefixes of the table.\<close>

lemma class_size_group: "5 \<le> i \<Longrightarrow> class_size i = ((i - 5) mod 4 + 5) * 2 ^ (4 + (i - 5) div 4)"
  by (simp add: class_size_def class_lg_base_def class_lg_delta_def class_ndelta_def power_add
      algebra_simps)

lemma class_size_small:
  "class_size 0 = 8" "class_size (Suc 0) = 16" "class_size 2 = 32" "class_size 3 = 48"
  "class_size 4 = 64" "class_size 5 = 80" "class_size 28 = 4096" "class_size 35 = 14336"
  by (simp_all add: class_size_def class_lg_base_def class_lg_delta_def class_ndelta_def)

lemma class_size_Suc: "class_size i < class_size (Suc i)"
proof (cases "i < 5")
  case True
  then have "i = 0 \<or> i = 1 \<or> i = 2 \<or> i = 3 \<or> i = 4" by auto
  then show ?thesis by (auto simp: class_size_small numeral_2_eq_2 [symmetric])
next
  case False
  define r where "r = i - 5"
  have s: "class_size i = (r mod 4 + 5) * 2 ^ (4 + r div 4)"
    using False by (simp add: class_size_group r_def)
  have s': "class_size (Suc i) = (Suc r mod 4 + 5) * 2 ^ (4 + Suc r div 4)"
  proof -
    have "Suc i - 5 = Suc r" "5 \<le> Suc i" using False by (simp_all add: r_def)
    then show ?thesis by (simp only: class_size_group)
  qed
  show ?thesis
  proof (cases "r mod 4 = 3")
    case True
    then have "Suc r mod 4 = 0" "Suc r div 4 = Suc (r div 4)" by presburger+
    with True show ?thesis unfolding s s' by (simp add: power_add)
  next
    case False
    then have "Suc r mod 4 = Suc (r mod 4)" "Suc r div 4 = r div 4" by presburger+
    then show ?thesis unfolding s s' by simp
  qed
qed

lemma class_size_strict_mono: "strict_mono class_size"
  by (simp add: strict_mono_Suc_iff class_size_Suc)

lemmas class_size_less_iff = strict_mono_less [OF class_size_strict_mono]
lemmas class_size_le_iff = strict_mono_less_eq [OF class_size_strict_mono]

lemma class_size_le_lookup: "class_size k \<le> 2 ^ 12 \<longleftrightarrow> k < 29"
  using class_size_le_iff [of k 28] by (auto simp: class_size_small)

lemma class_size_bin: "class_size k < 2 ^ 14 \<longleftrightarrow> k < 36"
proof -
  have "class_size 36 = 2 ^ 14" by (simp add: class_size_group)
  then show ?thesis using class_size_less_iff [of k 36] by simp
qed

lemma of_nat_class_size:
  "push_bit (class_lg_base k) 1 + push_bit (class_lg_delta k) (of_nat (class_ndelta k))
    = (of_nat (class_size k) :: size_t)"
  by (simp add: class_size_def push_bit_eq_mult)

lemma group_step_inv:
  assumes v: "group_inv k v" "at_class k v" "5 \<le> k" "k < 232"
  shows "\<exists>w. group_step 12 12 2 v = Some w \<and> group_inv (Suc k) w
    \<and> v_ndelta w = Suc (v_ndelta v) \<and> v_lg_base w = v_lg_base v \<and> v_lg_delta w = v_lg_delta v"
proof -
  have b: "build_inv k v" using v(1) by (simp add: group_inv_def)
  define w where "w = (case group_step 12 12 2 v of Some w \<Rightarrow> w)"
  have lk: "sc_lg_delta_lookup (sc_entry k) \<noteq> 0 \<longleftrightarrow> k < 29"
    using v(3) by (simp add: sc_entry_def class_size_le_lookup class_lg_delta_def del: power_numeral)
  have bin: "sc_bin (sc_entry k) \<longleftrightarrow> k < 36"
    by (simp add: sc_entry_def class_size_bin del: power_numeral)
  note fill = fill_class_entry [OF b v(4) v(2)]
  have idx: "v_index v = k" and nb: "v_nbins v = count_upto sc_bin k"
    and at: "v_lg_base v = class_lg_base k" "v_lg_delta v = class_lg_delta k"
      "v_ndelta v = class_ndelta k"
    using b v(2) by (simp_all add: build_inv_def at_class_def)
  have f: "group_step 12 12 2 v = Some w"
    by (simp add: w_def group_step_def fill)
  have w: "v_index w = Suc k" "v_sc w = (v_sc v)[k := sc_entry k]"
    "v_npsizes w = count_if (sc_psz (sc_entry k)) (v_npsizes v)"
    "v_nbins w = count_if (sc_bin (sc_entry k)) (v_nbins v)"
    "v_nlbins w = (if k < 29 then Suc k else v_nlbins v)"
    "v_lookup_maxclass w = (if k < 29 then of_nat (class_size k) else v_lookup_maxclass v)"
    "v_small_maxclass w = (if k < 36 then of_nat (class_size k) else v_small_maxclass v)"
    "v_lg_large_minclass w = (if k < 36 then class_lg_base k + 1 else v_lg_large_minclass v)"
    "v_large_maxclass w = of_nat (class_size k)"
    "v_ntiny w = v_ntiny v" "v_lg_tiny_maxclass w = v_lg_tiny_maxclass v"
    "v_ndelta w = Suc (v_ndelta v)" "v_lg_base w = v_lg_base v" "v_lg_delta w = v_lg_delta v"
    using lk bin
    by (simp_all add: w_def group_step_def fill Let_def count_if_def idx at of_nat_class_size
        del: push_bit_of_1)
  have "build_inv (Suc k) w" by (rule build_inv_fill [OF b v(4) w(1-4)])
  moreover have "k < 29 \<or> k = 29 \<or> (29 < k \<and> k < 36) \<or> k = 36 \<or> 36 < k" by linarith
  ultimately have "group_inv (Suc k) w"
    using v(1,3) unfolding group_inv_def w by (elim disjE) (simp_all add: min_def)
  with f w show ?thesis by blast
qed

text \<open>One whole group, then all groups by induction on the base.\<close>

lemma group_loop_run:
  assumes "group_inv k v" "v_lg_base v = class_lg_base k" "v_lg_delta v = class_lg_delta k"
    and "5 \<le> k" "v_ndelta v + n = Suc L" "k + n \<le> 232"
    and "\<And>j. j < n \<Longrightarrow> class_lg_base (k + j) = class_lg_base k
      \<and> class_lg_delta (k + j) = class_lg_delta k \<and> class_ndelta (k + j) = v_ndelta v + j"
  shows "\<exists>w. group_loop L 12 12 2 v = Some w \<and> group_inv (k + n) w
    \<and> v_lg_base w = class_lg_base k \<and> v_lg_delta w = class_lg_delta k"
  using assms
proof (induction n arbitrary: k v)
  case 0
  then show ?case by (auto simp: group_loop.simps [of L 12 12 2 v])
next
  case (Suc n)
  have at: "at_class k v" using Suc.prems(2,3) Suc.prems(7) [of 0] by (simp add: at_class_def)
  obtain w where w: "group_step 12 12 2 v = Some w" "group_inv (Suc k) w"
    "v_ndelta w = Suc (v_ndelta v)" "v_lg_base w = v_lg_base v" "v_lg_delta w = v_lg_delta v"
    using group_step_inv [OF Suc.prems(1) at Suc.prems(4)] Suc.prems(6) by auto
  have s: "group_loop L 12 12 2 v = group_loop L 12 12 2 w"
    using w(1) Suc.prems(5) by (simp add: group_loop.simps [of L 12 12 2 v])
  show ?case
  proof (cases n)
    case 0
    then have "group_loop L 12 12 2 w = Some w"
      using w(3) Suc.prems(5) by (simp add: group_loop.simps [of L 12 12 2 w])
    with s w Suc.prems(2,3) 0 show ?thesis by simp
  next
    case (Suc n')
    have n: "class_lg_base (Suc k) = class_lg_base k" "class_lg_delta (Suc k) = class_lg_delta k"
      using Suc.prems(7) [of 1] Suc by simp_all
    have "\<exists>u. group_loop L 12 12 2 w = Some u \<and> group_inv (Suc k + n) u
      \<and> v_lg_base u = class_lg_base (Suc k) \<and> v_lg_delta u = class_lg_delta (Suc k)"
    proof (rule Suc.IH [OF w(2)])
      fix j assume "j < n"
      then show "class_lg_base (Suc k + j) = class_lg_base (Suc k)
        \<and> class_lg_delta (Suc k + j) = class_lg_delta (Suc k)
        \<and> class_ndelta (Suc k + j) = v_ndelta w + j"
        using Suc.prems(7) [of "Suc j"] n w(3) by simp
    qed (use Suc.prems w n in simp_all)
    with s n show ?thesis by simp
  qed
qed

lemma class_in_group:
  "j < 4 \<Longrightarrow> class_lg_base (5 + 4 * g + j) = 6 + g"
  "j < 4 \<Longrightarrow> class_lg_delta (5 + 4 * g + j) = 4 + g"
  "j < 4 \<Longrightarrow> class_ndelta (5 + 4 * g + j) = 1 + j"
  by (simp_all add: class_lg_base_def class_lg_delta_def class_ndelta_def)

lemma groups_loop_run:
  assumes "g \<le> 56" "group_inv (5 + 4 * g) v" "v_lg_base v = 6 + g" "v_lg_delta v = 4 + g"
  shows "\<exists>w. groups_loop 64 4 12 12 2 v = Some w \<and> group_inv 232 w"
  using assms
proof (induction "56 - g" arbitrary: g v)
  case 0
  then have g: "g = 56" by simp
  let ?v = "v\<lparr>v_ndelta := 1\<rparr>"
  have "\<exists>w. group_loop 3 12 12 2 ?v = Some w \<and> group_inv (5 + 4 * g + 3) w
    \<and> v_lg_base w = class_lg_base (5 + 4 * g) \<and> v_lg_delta w = class_lg_delta (5 + 4 * g)"
    using "0.prems" g class_in_group [of 0 g]
    by (intro group_loop_run) (simp_all add: class_in_group [where g = 56, simplified]
        group_inv_def build_inv_def)
  then obtain w where w: "group_loop 3 12 12 2 ?v = Some w" "group_inv 232 w" "v_lg_base w = 62"
    using g class_in_group [of 0 56] by auto
  let ?w = "w\<lparr>v_lg_base := v_lg_base w + 1, v_lg_delta := v_lg_delta w + 1\<rparr>"
  have "groups_loop 64 4 12 12 2 ?w = Some ?w"
    using w by (subst groups_loop.simps) simp
  moreover have "group_inv 232 ?w" using w by (simp add: group_inv_def build_inv_def)
  ultimately show ?case using "0.prems" g w by (simp add: groups_loop.simps [of 64 4 12 12 2 v])
next
  case (Suc n)
  let ?v = "v\<lparr>v_ndelta := 1\<rparr>"
  have "\<exists>w. group_loop 4 12 12 2 ?v = Some w \<and> group_inv (5 + 4 * g + 4) w
    \<and> v_lg_base w = class_lg_base (5 + 4 * g) \<and> v_lg_delta w = class_lg_delta (5 + 4 * g)"
    using Suc.prems Suc.hyps(2) class_in_group [of 0 g]
    by (intro group_loop_run) (simp_all add: class_in_group group_inv_def build_inv_def)
  then obtain w where w: "group_loop 4 12 12 2 ?v = Some w" "group_inv (5 + 4 * Suc g) w"
    "v_lg_base w = 6 + g" "v_lg_delta w = 4 + g"
    using class_in_group [of 0 g] by (auto simp: algebra_simps)
  let ?w = "w\<lparr>v_lg_base := v_lg_base w + 1, v_lg_delta := v_lg_delta w + 1\<rparr>"
  have "\<exists>u. groups_loop 64 4 12 12 2 ?w = Some u \<and> group_inv 232 u"
    using Suc.hyps(2) w by (intro Suc.hyps(1) [of "Suc g"])
      (simp_all add: group_inv_def build_inv_def)
  moreover have "g < 56" using Suc.hyps(2) by simp
  ultimately show ?case using Suc.prems w by (simp add: groups_loop.simps [of 64 4 12 12 2 v])
qed

section \<open>The initialised table\<close>

definition sc_data_spec :: sc_data_t where
  "sc_data_spec = \<lparr>sd_ntiny = SC_NTINY, sd_nlbins = 29, sd_nbins = SC_NBINS,
     sd_nsizes = SC_NSIZES, sd_lg_ceil_nsizes = 8, sd_npsizes = SC_NPSIZES,
     sd_lg_tiny_maxclass = SC_LG_TINY_MAXCLASS, sd_lookup_maxclass = SC_LOOKUP_MAXCLASS,
     sd_small_maxclass = SC_SMALL_MAXCLASS, sd_lg_large_minclass = SC_LG_LARGE_MINCLASS,
     sd_large_minclass = SC_LARGE_MINCLASS, sd_large_maxclass = SC_LARGE_MAXCLASS,
     sd_initialized = True, sd_sc = map sc_entry [0..<SC_NSIZES]\<rparr>"

lemma class_size_psz: "37 \<le> i \<Longrightarrow> class_size i mod 2 ^ 12 = 0"
proof -
  assume "37 \<le> i"
  then have "12 \<le> 4 + (i - 5) div 4" by presburger
  then have "(2::nat) ^ 12 dvd 2 ^ (4 + (i - 5) div 4)" by (rule le_imp_power_dvd)
  with \<open>37 \<le> i\<close> show ?thesis by (simp add: class_size_group del: power_numeral)
qed

lemma count_upto_232: "count_upto sc_psz 232 = 199" "count_upto sc_bin 232 = 36"
proof -
  have "[0..<232] = [0..<37] @ [37..<232]"
    using upt_add_eq_append [of 0 37 195] by (simp del: upt_rec_numeral)
  moreover have "filter (\<lambda>i. class_size i mod 2 ^ 12 = 0) [37..<232] = [37..<232]"
    using class_size_psz by (intro filter_True) simp
  moreover have "length (filter (\<lambda>i. class_size i mod 2 ^ 12 = 0) [0..<37]) = 4"
    by (simp add: upt_conv_Cons class_size_def class_lg_base_def class_lg_delta_def class_ndelta_def)
  ultimately have "length (filter (\<lambda>i. class_size i mod 2 ^ 12 = 0) [0..<232]) = 199"
    by (simp del: power_numeral upt_rec_numeral)
  then show "count_upto sc_psz 232 = 199"
    by (simp add: count_upto_def filter_map comp_def sc_entry_def)
  have "[0..<232] = [0..<36] @ [36..<232]"
    using upt_add_eq_append [of 0 36 196] by (simp del: upt_rec_numeral)
  moreover have "filter (\<lambda>i. i < 36) [0..<36] = [0..<36]" by (intro filter_True) simp
  moreover have "filter (\<lambda>i. i < 36) [36..<232] = []" by (intro filter_False) simp
  ultimately have "length (filter (\<lambda>i. i < 36) [0..<232]) = 36"
    by (simp del: upt_rec_numeral)
  then show "count_upto sc_bin 232 = 36"
    by (simp add: count_upto_def filter_map comp_def sc_entry_def class_size_bin del: power_numeral)
qed

lemma sc_macro_values:
  "SC_NSIZES = 232" "SC_NPSIZES = 199" "SC_NBINS = 36" "SC_NTINY = 1"
  "SC_LG_TINY_MAXCLASS = 3" "SC_LG_LARGE_MINCLASS = 14"
  "SC_LOOKUP_MAXCLASS = of_nat (class_size 28)"
  "SC_SMALL_MAXCLASS = of_nat (class_size 35)"
  "SC_LARGE_MAXCLASS = of_nat (class_size 231)"
  "SC_LARGE_MINCLASS = 2 ^ 14"
  by (simp_all add: sc_config_defs sc_size_defs class_size_small class_size_group)

lemma sc_data_init_eq: "sc_data_init sc_data_global = Some sc_data_spec"
proof -
  define v where "v = \<lparr>v_ntiny = 0, v_nlbins = 0, v_lg_tiny_maxclass = -1, v_nbins = 0,
    v_npsizes = 0, v_index = 0, v_ndelta = 0, v_lg_base = 3, v_lg_delta = 3,
    v_lookup_maxclass = 0, v_small_maxclass = 0, v_lg_large_minclass = 0,
    v_large_maxclass = 0, v_sc = sd_sc sc_data_global\<rparr>"
  have "build_inv 0 v" "at_class 0 v" "v_ntiny v = 0" "maxima v = (0, 0, 0, 0)"
    by (simp_all add: v_def build_inv_def table_upto_def count_upto_def at_class_small
        sc_data_global_def sc_macro_values maxima_def)
  with tiny_loop_1 [of v] obtain v1 where v1: "tiny_loop 4 12 12 2 v = Some v1"
    "build_inv (Suc 0) v1" "v_lg_base v1 = 4" "v_lg_delta v1 = 3" "meta v1 = (1, 1, 3)"
    "maxima v1 = (0, 0, 0, 0)" by auto
  from pseudo_groups [OF v1(2-5)] v1(6) obtain v2 where
    v2: "Option.bind (first_pseudo 12 12 2 v1) (pseudo_loop 4 12 12 2) = Some v2"
    "build_inv 5 v2" "v_lg_base v2 = 4" "v_lg_delta v2 = 4" "meta v2 = (1, 1, 3)"
    "maxima v2 = (0, 0, 0, 0)" by auto
  let ?v2 = "v2\<lparr>v_lg_base := v_lg_base v2 + 2\<rparr>"
  have "group_inv (5 + 4 * 0) ?v2"
    using v2 by (simp add: group_inv_def build_inv_def meta_def maxima_def)
  then obtain v3 where v3: "groups_loop 64 4 12 12 2 ?v2 = Some v3" "group_inv 232 v3"
    using groups_loop_run [of 0 ?v2] v2(3,4) by auto
  have f: "v_index v3 = 232" "v_sc v3 = map sc_entry [0..<232]" "v_npsizes v3 = 199"
    "v_nbins v3 = 36" "v_nlbins v3 = 29" "v_lookup_maxclass v3 = of_nat (class_size 28)"
    "v_small_maxclass v3 = of_nat (class_size 35)" "v_lg_large_minclass v3 = 14"
    "v_large_maxclass v3 = of_nat (class_size 231)" "v_ntiny v3 = 1" "v_lg_tiny_maxclass v3 = 3"
    using v3(2) by (simp_all add: group_inv_def build_inv_def table_upto_full count_upto_232
        class_lg_base_def)
  have "lg_ceil 232 = 8" by code_simp
  moreover have "Option.bind (tiny_loop 4 12 12 2 v) (\<lambda>v. Option.bind (first_pseudo 12 12 2 v)
      (\<lambda>v. Option.bind (pseudo_loop 4 12 12 2 v)
      (\<lambda>v. groups_loop 64 4 12 12 2 (v\<lparr>v_lg_base := v_lg_base v + 2\<rparr>)))) = Some v3"
    using v1(1) v2(1) v3(1) by (auto split: bind_splits)
  ultimately show ?thesis
    unfolding sc_data_init_def size_classes_def Let_def
    by (simp add: sc_config_defs v_def f sc_data_spec_def sc_macro_values sc_data_global_def)
qed

section \<open>Every slab holds at least one region and at most a bitmap of them\<close>

lemma BITMAP_MAXBITS_eq: "BITMAP_MAXBITS = 512"
proof -
  have "LG_CEIL 232 = 8" by code_simp
  then show ?thesis
    by (simp add: BITMAP_MAXBITS_def LG_BITMAP_MAXBITS_def LG_SLAB_MAXREGS_def sc_macro_values
        LG_PAGE_def SC_LG_TINY_MIN_def)
qed

text \<open>The regions of a slab, \<open>nregs\<close> of bin.c: the slab size divided by the region size.\<close>

definition slab_nregs :: "sc_t \<Rightarrow> nat" where
  "slab_nregs sc = sc_pgs sc * 2 ^ LG_PAGE
     div unat (reg_size_compute (sc_lg_base sc) (sc_lg_delta sc) (sc_ndelta sc))"

definition slab_fits :: "sc_t \<Rightarrow> bool" where
  "slab_fits sc \<longleftrightarrow> 0 < slab_nregs sc \<and> slab_nregs sc \<le> unat BITMAP_MAXBITS"

lemma unat_reg_size_entry:
  "i < 232 \<Longrightarrow> unat (reg_size_compute (class_lg_base i) (class_lg_delta i) (class_ndelta i))
    = class_size i"
  using class_size_less [of i] by (subst unat_reg_size_compute) (simp_all add: class_size_def)

lemma update_sc_slab_size_same [simp]:
  "sc_lg_base (sc_data_update_sc_slab_size sc r g) = sc_lg_base sc"
  "sc_lg_delta (sc_data_update_sc_slab_size sc r g) = sc_lg_delta sc"
  "sc_ndelta (sc_data_update_sc_slab_size sc r g) = sc_ndelta sc"
  "sc_bin (sc_data_update_sc_slab_size sc r g) = sc_bin sc"
  by (simp_all add: sc_data_update_sc_slab_size_def Let_def)

lemma page_count_bounds:
  fixes r :: nat
  defines "mn \<equiv> (if r mod 4096 \<noteq> 0 then r div 4096 + 1 else r div 4096)"
  assumes "8 \<le> r" "r < 16384"
  shows "mn \<le> r div 8" "0 < mn" "r \<le> mn * 4096" "mn < 5"
proof -
  have e: "r = r div 4096 * 4096 + r mod 4096" "r mod 4096 < 4096" by simp_all
  have "r div 4096 < 4" using assms(3) by (simp add: less_mult_imp_div_less)
  then show "mn < 5" by (simp add: mn_def)
  show p: "0 < mn" using assms(2) by (auto simp: mn_def)
  show "r \<le> mn * 4096"
  proof (cases "r mod 4096 = 0")
    case True with e show ?thesis by (simp add: mn_def)
  next
    case False with e show ?thesis unfolding mn_def by simp
  qed
  show "mn \<le> r div 8"
  proof (cases "r \<le> 4096")
    case True
    then have "r < 4096 \<or> r = 4096" by linarith
    then have "mn = 1" by (elim disjE) (use assms(2) in \<open>simp_all add: mn_def\<close>)
    with assms(2) show ?thesis by (simp add: Suc_le_eq div_greater_zero_iff)
  next
    case False
    then have "512 \<le> r div 8" using div_le_mono [of 4096 r 8] by simp
    with \<open>mn < 5\<close> show ?thesis by simp
  qed
qed

lemma update_sc_slab_size_fits:
  assumes r: "unat (reg_size_compute (sc_lg_base sc) (sc_lg_delta sc) (sc_ndelta sc)) = r"
    and "8 \<le> r" "r < 16384"
  shows "slab_fits (sc_data_update_sc_slab_size sc
    (reg_size_compute (sc_lg_base sc) (sc_lg_delta sc) (sc_ndelta sc)) g)"
proof -
  let ?R = "reg_size_compute (sc_lg_base sc) (sc_lg_delta sc) (sc_ndelta sc)"
  let ?min = "if r mod 4096 \<noteq> 0 then r div 4096 + 1 else r div 4096"
  define p where "p = sc_pgs (sc_data_update_sc_slab_size sc ?R g)"
  note b = page_count_bounds [OF assms(2,3)]
  have pg: "PAGE = 4096" by (simp add: PAGE_def LG_PAGE_def)
  have d: "unat (?R div PAGE) = r div 4096" "?R mod PAGE = 0 \<longleftrightarrow> r mod 4096 = 0"
    using r by (simp_all add: pg unat_div unat_mod word_unat_eq_iff)
  have mn: "unat (if ?R mod PAGE \<noteq> 0 then ?R div PAGE + 1 else ?R div PAGE) = ?min"
    using d assms(3) b(4) by (simp add: unat_add_eq)
  have "512 * r div 4096 = r div 8" using div_mult_mult1 [of 512 r 8] by simp
  then have mx: "unat (BITMAP_MAXBITS * ?R div PAGE) = r div 8"
    using r assms(3) by (simp add: pg BITMAP_MAXBITS_eq unat_div unat_mult_eq)
  define m M where "m = (if ?R mod PAGE \<noteq> 0 then ?R div PAGE + 1 else ?R div PAGE)"
    and "M = BITMAP_MAXBITS * ?R div PAGE"
  have "p = (if g < m then unat m else if M < g then unat M else unat g)"
    by (simp add: p_def sc_data_update_sc_slab_size_def Let_def m_def M_def)
  moreover have "unat m \<le> unat M" using mn mx b(1) by (simp only: m_def M_def)
  ultimately have "unat m \<le> p \<and> p \<le> unat M" by (simp add: word_less_nat_alt not_less)
  then have "?min \<le> p \<and> p \<le> r div 8" using mn mx by (simp only: m_def M_def)
  then have p: "?min \<le> p" "p * 8 \<le> r" by (simp_all add: less_eq_div_iff_mult_less_eq)
  have "r \<le> p * 4096" using b(3) mult_le_mono1 [OF p(1), of 4096] by linarith
  then have "0 < p * 4096 div r" using assms(2) by (simp add: div_greater_zero_iff)
  moreover have "p * 4096 div r \<le> 512 * r div r" using p(2) by (intro div_le_mono) simp
  ultimately show ?thesis
    using r assms(2) by (simp add: slab_fits_def slab_nregs_def BITMAP_MAXBITS_eq LG_PAGE_def
      p_def [symmetric])
qed

lemma slab_fits_entry: "i < 36 \<Longrightarrow> slab_fits (sc_entry i)"
proof -
  assume i: "i < 36"
  then have "slab_fits (sc_entry i) \<longleftrightarrow>
    0 < lcm 4096 (class_size i) div class_size i
    \<and> lcm 4096 (class_size i) div class_size i \<le> 512"
    using class_size_bin [of i]
    by (simp add: slab_fits_def slab_nregs_def sc_entry_def unat_reg_size_entry
        BITMAP_MAXBITS_eq LG_PAGE_def)
  moreover have "class_size i \<le> lcm 4096 (class_size i)"
    using class_size_pos [of i] by (intro dvd_imp_le) (simp_all add: lcm_pos_nat)
  moreover have "lcm 4096 (class_size i) div class_size i \<le> 512"
  proof -
    have "8 dvd class_size i"
    proof -
      have "3 \<le> class_lg_base i" "3 \<le> class_lg_delta i"
        by (simp_all add: class_lg_base_def class_lg_delta_def)
      then have "2 ^ 3 dvd class_size i"
        unfolding class_size_def by (intro dvd_add dvd_mult le_imp_power_dvd)
      then show ?thesis by simp
    qed
    then have "8 dvd gcd 4096 (class_size i)" by simp
    then obtain c where "gcd 4096 (class_size i) = 8 * c" by (elim dvdE)
    then have "8 \<le> gcd 4096 (class_size i)" using class_size_pos [of i] by (cases c) simp_all
    then have "8 * lcm 4096 (class_size i) \<le> gcd 4096 (class_size i) * lcm 4096 (class_size i)"
      by (rule mult_le_mono1)
    also have "\<dots> = 4096 * class_size i" by (rule prod_gcd_lcm_nat [symmetric])
    finally have "lcm 4096 (class_size i) \<le> 512 * class_size i" by linarith
    then have "lcm 4096 (class_size i) div class_size i \<le> 512 * class_size i div class_size i"
      by (rule div_le_mono)
    then show ?thesis using class_size_pos [of i] by simp
  qed
  ultimately show ?thesis
    using class_size_pos [of i] by (simp add: div_greater_zero_iff)
qed

text \<open>
  The invariant of the table under any sequence of updates: the geometry of the classes never
  changes and every bin's slab keeps between 1 and \<open>BITMAP_MAXBITS\<close> regions.
\<close>

definition geometry :: "sc_t \<Rightarrow> nat \<times> nat \<times> nat \<times> bool" where
  "geometry sc = (sc_lg_base sc, sc_lg_delta sc, sc_ndelta sc, sc_bin sc)"

definition bins_fit :: "sc_data_t \<Rightarrow> bool" where
  "bins_fit d \<longleftrightarrow> (\<forall>sc \<in> set (sd_sc d). sc_bin sc \<longrightarrow> slab_fits sc)"

definition table_inv :: "sc_data_t \<Rightarrow> bool" where
  "table_inv d \<longleftrightarrow> map geometry (sd_sc d) = map (\<lambda>i. geometry (sc_entry i)) [0..<232]
     \<and> bins_fit d"

lemma geometry_update [simp]: "geometry (sc_data_update_sc_slab_size sc r g) = geometry sc"
  by (simp add: geometry_def)

lemma update_loop_geometry:
  "map geometry (update_slab_size_loop b e p scs) = map geometry scs"
  by (induction b e p scs rule: update_slab_size_loop.induct) (simp_all add: Let_def)

lemma update_loop_fits:
  assumes "\<forall>sc \<in> set scs. sc_bin sc \<longrightarrow> slab_fits sc
      \<and> (\<exists>i<36. geometry sc = geometry (sc_entry i))"
    and "sc \<in> set (update_slab_size_loop b e p scs)" "sc_bin sc"
  shows "slab_fits sc"
  using assms
proof (induction b e p scs rule: update_slab_size_loop.induct)
  case (2 b e p s scs)
  show ?case
  proof (cases "sc_bin s")
    case True
    with "2.prems"(1) obtain i where i: "i < 36" "geometry s = geometry (sc_entry i)" by auto
    then have r: "unat (reg_size_compute (sc_lg_base s) (sc_lg_delta s) (sc_ndelta s)) = class_size i"
      by (simp add: geometry_def sc_entry_def unat_reg_size_entry)
    have "8 \<le> class_size i" using class_size_le_iff [of 0 i] by (simp add: class_size_small)
    moreover have "class_size i < 16384" using class_size_bin [of i] i(1) by simp
    ultimately have "slab_fits (sc_data_update_sc_slab_size s
        (reg_size_compute (sc_lg_base s) (sc_lg_delta s) (sc_ndelta s)) (word_of_int p))"
      by (rule update_sc_slab_size_fits [OF r])
    with True "2.IH" "2.prems" show ?thesis
      by (auto simp: Let_def split: if_splits)
  qed (use "2.prems" in auto)
qed simp

lemma sc_bin_entry: "sc_bin (sc_entry i) \<longleftrightarrow> i < 36"
  by (simp add: sc_entry_def class_size_bin del: power_numeral)

lemma table_inv_init: "table_inv sc_data_spec"
  by (auto simp: table_inv_def bins_fit_def sc_data_spec_def sc_macro_values sc_bin_entry
      slab_fits_entry)

lemma table_inv_entries:
  assumes "map geometry scs = map (\<lambda>i. geometry (sc_entry i)) [0..<n]"
  shows "\<forall>sc \<in> set scs. sc_bin sc \<longrightarrow> (\<exists>i<36. geometry sc = geometry (sc_entry i))"
proof (intro ballI impI)
  fix sc assume "sc \<in> set scs" "sc_bin sc"
  then have "geometry sc \<in> set (map geometry scs)" by simp
  then obtain i where "geometry sc = geometry (sc_entry i)" unfolding assms by auto
  moreover from this \<open>sc_bin sc\<close> have "sc_bin (sc_entry i)" by (simp add: geometry_def)
  ultimately show "\<exists>i<36. geometry sc = geometry (sc_entry i)" by (auto simp: sc_bin_entry)
qed

lemma table_inv_update:
  assumes "table_inv d" shows "table_inv (sc_data_update_slab_size d b e p)"
proof -
  let ?n = "sd_nsizes d" and ?l = "sd_sc d"
  let ?u = "update_slab_size_loop b e p (take ?n ?l)"
  have g: "map geometry ?l = map (\<lambda>i. geometry (sc_entry i)) [0..<232]"
    and f: "\<And>sc. sc \<in> set ?l \<Longrightarrow> sc_bin sc \<Longrightarrow> slab_fits sc"
    using assms by (auto simp: table_inv_def bins_fit_def)
  have "map geometry (?u @ drop ?n ?l) = map geometry (take ?n ?l @ drop ?n ?l)"
    by (simp only: map_append update_loop_geometry)
  then have "map geometry (?u @ drop ?n ?l) = map (\<lambda>i. geometry (sc_entry i)) [0..<232]"
    by (simp only: append_take_drop_id g)
  moreover have "slab_fits sc" if "sc \<in> set (?u @ drop ?n ?l)" "sc_bin sc" for sc
  proof (cases "sc \<in> set ?u")
    case True
    have "\<forall>sc \<in> set (take ?n ?l). sc_bin sc \<longrightarrow> slab_fits sc
      \<and> (\<exists>i<36. geometry sc = geometry (sc_entry i))"
      using f table_inv_entries [OF g] by (auto dest: in_set_takeD)
    from update_loop_fits [OF this True that(2)] show ?thesis .
  next
    case False
    with that f show ?thesis by (auto dest: in_set_dropD)
  qed
  ultimately show ?thesis 
    by (simp only: table_inv_def bins_fit_def sc_data_update_slab_size_def) simp
qed

lemma table_inv_updates:
  "table_inv (foldl (\<lambda>d (b, e, p). sc_data_update_slab_size d b e p)
     (the (sc_data_init sc_data_global)) updates)"
proof -
  have "table_inv (foldl (\<lambda>d (b, e, p). sc_data_update_slab_size d b e p) d updates)"
    if "table_inv d" for d
    using that by (induction updates arbitrary: d) (auto simp: table_inv_update)
  from this [OF table_inv_init] show ?thesis by (simp add: sc_data_init_eq)
qed

section \<open>Properties\<close>

text \<open>C21: \<open>sc_data_init\<close> ends, writes only inside the table, and builds exactly the classes that
  the comment of sc.h describes; its twelve outputs are the values of the macros of sc.h, as
  the assertions at the end of \<open>size_classes\<close> demand.
\<close>

theorem sc_data_init_table:
  "\<exists>d. sc_data_init sc_data_global = Some d \<and> sd_initialized d
     \<and> sd_sc d = map sc_entry [0..<SC_NSIZES] \<and> sd_nsizes d = SC_NSIZES
     \<and> sd_ntiny d = SC_NTINY \<and> sd_npsizes d = SC_NPSIZES \<and> sd_nbins d = SC_NBINS
     \<and> sd_lg_tiny_maxclass d = SC_LG_TINY_MAXCLASS
     \<and> sd_lookup_maxclass d = SC_LOOKUP_MAXCLASS
     \<and> sd_small_maxclass d = SC_SMALL_MAXCLASS
     \<and> sd_large_minclass d = SC_LARGE_MINCLASS
     \<and> sd_lg_large_minclass d = SC_LG_LARGE_MINCLASS
     \<and> sd_large_maxclass d = SC_LARGE_MAXCLASS
     \<and> sd_large_maxclass d < 2 ^ 63 - 1"
proof -
  have "unat (of_nat (class_size 231) :: size_t) = class_size 231"
    using class_size_less [of 231] by (intro unat_of_nat_eq) simp
  moreover have "class_size 231 < 2 ^ 63 - 1" by (simp add: class_size_group)
  ultimately have "SC_LARGE_MAXCLASS < 2 ^ 63 - 1"
    by (simp add: sc_macro_values word_less_nat_alt)
  then show ?thesis by (simp add: sc_data_init_eq sc_data_spec_def)
qed

text \<open>The loop of \<open>slab_size\<close> ends and returns the number of pages of the least common
  multiple of the page size and the region size, for every page and region size for which that
  multiple fits into a \<open>size_t\<close>.
\<close>

theorem slab_size_is_lcm:
  assumes "lg_page < 64" "0 < unat (reg_size_compute lg_base lg_delta ndelta)"
    and "lcm (2 ^ lg_page) (unat (reg_size_compute lg_base lg_delta ndelta)) < 2 ^ 64"
  shows "slab_size lg_page lg_base lg_delta ndelta
    = Some (lcm (2 ^ lg_page) (unat (reg_size_compute lg_base lg_delta ndelta)) div 2 ^ lg_page)"
  using assms by (rule slab_size_lcm)

theorem slab_size_is_lcm_witness: "slab_size 12 6 4 3 = Some (lcm (2 ^ 12) 112 div 2 ^ 12)"
proof -
  have r: "unat (reg_size_compute 6 4 3) = 112" by (subst unat_reg_size_compute) simp_all
  have "lcm (2 ^ 12) (112 :: nat) \<le> 2 ^ 12 * 112" by (intro dvd_imp_le) simp_all
  then show ?thesis using slab_size_is_lcm [of 12 6 4 3] unfolding r by simp
qed

text \<open>After any sequence of \<open>sc_data_update_slab_size\<close> calls on the initialised table, each
  with any range and any page count, the slab of every bin holds at least one region and at most
  the \<open>BITMAP_MAXBITS\<close> regions for which a slab has bits.
\<close>

theorem slab_sizes_keep_bitmap_bound:
  "bins_fit (foldl (\<lambda>d (b, e, p). sc_data_update_slab_size d b e p)
     (the (sc_data_init sc_data_global)) updates)"
  using table_inv_updates [of updates] by (simp add: table_inv_def)

end
