(* ===== verification/Sz.thy ===== *)
theory Sz
  imports Size_Classes
begin

text \<open>
  include/jemalloc/internal/sz.h and src/sz.c: from a request size to a size class index, to
  the usable size, and back; the same for the page size classes; the three tables that
  \<open>sz_boot\<close> fills. The laws that connect the two directions are stated once, in the locale
  \<open>size_class_map\<close>, and both families of functions are interpretations of it.
\<close>

section \<open>The functions of sz.h\<close>

text \<open>\<open>JEMALLOC_CACHE_OBLIVIOUS\<close> is defined, so large allocations are padded by a page.\<close>

definition sz_large_pad :: size_t where "sz_large_pad = PAGE"

definition sz_psz2ind :: "size_t \<Rightarrow> nat" where
  "sz_psz2ind psz =
     (if psz > SC_LARGE_MAXCLASS then SC_NPSIZES
      else (let x = lg_floor (push_bit 1 psz - 1);
                shift = (if x < SC_LG_NGROUP + LG_PAGE then 0 else x - (SC_LG_NGROUP + LG_PAGE));
                grp = shift * 2 ^ SC_LG_NGROUP;
                lg_delta = (if x < SC_LG_NGROUP + LG_PAGE + 1 then LG_PAGE else x - SC_LG_NGROUP - 1);
                delta_inverse_mask = push_bit lg_delta (- 1);
                md = unat (drop_bit lg_delta ((psz - 1) AND delta_inverse_mask)
                       AND (push_bit SC_LG_NGROUP 1 - 1))
            in grp + md))"

definition sz_pind2sz_compute :: "nat \<Rightarrow> size_t" where
  "sz_pind2sz_compute pind =
     (if pind = SC_NPSIZES then SC_LARGE_MAXCLASS + PAGE
      else (let grp = pind div 2 ^ SC_LG_NGROUP;
                md = pind mod 2 ^ SC_LG_NGROUP;
                grp_size_mask = NOT ((if grp = 0 then 0 else 1) - 1);
                grp_size = push_bit grp (push_bit (LG_PAGE + (SC_LG_NGROUP - 1)) 1) AND grp_size_mask;
                shift = (if grp = 0 then 1 else grp);
                lg_delta = shift + (LG_PAGE - 1);
                mod_size = push_bit lg_delta (of_nat md + 1)
            in grp_size + mod_size))"

definition sz_psz2u :: "size_t \<Rightarrow> size_t" where
  "sz_psz2u psz =
     (if psz > SC_LARGE_MAXCLASS then SC_LARGE_MAXCLASS + PAGE
      else (let x = lg_floor (push_bit 1 psz - 1);
                lg_delta = (if x < SC_LG_NGROUP + LG_PAGE + 1 then LG_PAGE else x - SC_LG_NGROUP - 1);
                delta = push_bit lg_delta 1;
                delta_mask = delta - 1
            in (psz + delta_mask) AND NOT delta_mask))"

definition sz_size2index_compute :: "size_t \<Rightarrow> nat" where
  "sz_size2index_compute req =
     (if req > SC_LARGE_MAXCLASS then SC_NSIZES
      else if req = 0 then 0
      else if req \<le> push_bit (nat SC_LG_TINY_MAXCLASS) 1 then
        (let lg_tmin = nat SC_LG_TINY_MAXCLASS - SC_NTINY + 1;
             lg_ceil = lg_floor (pow2_ceil_zu req)
         in if lg_ceil < lg_tmin then 0 else lg_ceil - lg_tmin)
      else
        (let x = lg_floor (push_bit 1 req - 1);
             shift = (if x < SC_LG_NGROUP + LG_QUANTUM then 0 else x - (SC_LG_NGROUP + LG_QUANTUM));
             grp = shift * 2 ^ SC_LG_NGROUP;
             lg_delta = (if x < SC_LG_NGROUP + LG_QUANTUM + 1 then LG_QUANTUM
                         else x - SC_LG_NGROUP - 1);
             delta_inverse_mask = push_bit lg_delta (- 1);
             md = unat (drop_bit lg_delta ((req - 1) AND delta_inverse_mask)
                    AND (push_bit SC_LG_NGROUP 1 - 1))
         in SC_NTINY + grp + md))"

definition sz_index2size_compute :: "nat \<Rightarrow> size_t" where
  "sz_index2size_compute index =
     (if index < SC_NTINY then push_bit (nat SC_LG_TINY_MAXCLASS - SC_NTINY + 1 + index) 1
      else
        (let reduced_index = index - SC_NTINY;
             grp = reduced_index div 2 ^ SC_LG_NGROUP;
             md = reduced_index mod 2 ^ SC_LG_NGROUP;
             grp_size_mask = NOT ((if grp = 0 then 0 else 1) - 1);
             grp_size = push_bit grp (push_bit (LG_QUANTUM + (SC_LG_NGROUP - 1)) 1) AND grp_size_mask;
             shift = (if grp = 0 then 1 else grp);
             lg_delta = shift + (LG_QUANTUM - 1);
             mod_size = push_bit lg_delta (of_nat md + 1)
         in grp_size + mod_size))"

definition sz_s2u_compute :: "size_t \<Rightarrow> size_t" where
  "sz_s2u_compute req =
     (if req > SC_LARGE_MAXCLASS then 0
      else (let req = (if req = 0 then req + 1 else req)
            in if req \<le> push_bit (nat SC_LG_TINY_MAXCLASS) 1 then
                 (let lg_tmin = nat SC_LG_TINY_MAXCLASS - SC_NTINY + 1;
                      lg_ceil = lg_floor (pow2_ceil_zu req)
                  in if lg_ceil < lg_tmin then push_bit lg_tmin 1 else push_bit lg_ceil 1)
               else
                 (let x = lg_floor (push_bit 1 req - 1);
                      lg_delta = (if x < SC_LG_NGROUP + LG_QUANTUM + 1 then LG_QUANTUM
                                  else x - SC_LG_NGROUP - 1);
                      delta = push_bit lg_delta 1;
                      delta_mask = delta - 1
                  in (req + delta_mask) AND NOT delta_mask)))"

text \<open>
  The lookup tables (\<open>sz_pind2sz_tab\<close>, \<open>sz_index2size_tab\<close>, \<open>sz_size2index_tab\<close>) are global
  arrays; a read outside them is \<open>None\<close>.
\<close>

record sz_tabs =
  pind2sz_tab :: "size_t list"
  index2size_tab :: "size_t list"
  size2index_tab :: "uint8 list"

definition sz_pind2sz_lookup :: "sz_tabs \<Rightarrow> nat \<Rightarrow> size_t option" where
  "sz_pind2sz_lookup t pind = read_at (pind2sz_tab t) pind"

definition sz_pind2sz :: "sz_tabs \<Rightarrow> nat \<Rightarrow> size_t option" where
  "sz_pind2sz t pind = sz_pind2sz_lookup t pind"

definition sz_size2index_lookup :: "sz_tabs \<Rightarrow> size_t \<Rightarrow> nat option" where
  "sz_size2index_lookup t req =
     map_option unat (read_at (size2index_tab t)
       (unat (drop_bit SC_LG_TINY_MIN (req + push_bit SC_LG_TINY_MIN 1 - 1))))"

definition sz_size2index :: "sz_tabs \<Rightarrow> size_t \<Rightarrow> nat option" where
  "sz_size2index t req =
     (if req \<le> SC_LOOKUP_MAXCLASS then sz_size2index_lookup t req
      else Some (sz_size2index_compute req))"

definition sz_index2size_lookup :: "sz_tabs \<Rightarrow> nat \<Rightarrow> size_t option" where
  "sz_index2size_lookup t index = read_at (index2size_tab t) index"

definition sz_index2size :: "sz_tabs \<Rightarrow> nat \<Rightarrow> size_t option" where
  "sz_index2size t index = sz_index2size_lookup t index"

definition sz_s2u_lookup :: "sz_tabs \<Rightarrow> size_t \<Rightarrow> size_t option" where
  "sz_s2u_lookup t req = Option.bind (sz_size2index_lookup t req) (sz_index2size_lookup t)"

definition sz_s2u :: "sz_tabs \<Rightarrow> size_t \<Rightarrow> size_t option" where
  "sz_s2u t req =
     (if req \<le> SC_LOOKUP_MAXCLASS then sz_s2u_lookup t req else Some (sz_s2u_compute req))"

definition ALIGNMENT_CEILING :: "size_t \<Rightarrow> size_t \<Rightarrow> size_t" where
  "ALIGNMENT_CEILING s alignment = (s + (alignment - 1)) AND (NOT alignment + 1)"

definition PAGE_CEILING :: "size_t \<Rightarrow> size_t" where
  "PAGE_CEILING s = (s + PAGE_MASK) AND NOT PAGE_MASK"

text \<open>The part of \<open>sz_sa2u\<close> after the attempt at a small size class.\<close>

definition sz_sa2u_large :: "sz_tabs \<Rightarrow> size_t \<Rightarrow> size_t \<Rightarrow> size_t option" where
  "sz_sa2u_large t req alignment =
     (if alignment > SC_LARGE_MAXCLASS then Some 0
      else Option.bind (if req \<le> SC_LARGE_MINCLASS then Some SC_LARGE_MINCLASS else sz_s2u t req)
        (\<lambda>usize.
          if \<not> req \<le> SC_LARGE_MINCLASS \<and> usize < req then Some 0
          else if usize + sz_large_pad + PAGE_CEILING alignment - PAGE < usize then Some 0
          else Some usize))"

definition sz_sa2u :: "sz_tabs \<Rightarrow> size_t \<Rightarrow> size_t \<Rightarrow> size_t option" where
  "sz_sa2u t req alignment =
     (if req \<le> SC_SMALL_MAXCLASS \<and> alignment < PAGE then
        Option.bind (sz_s2u t (ALIGNMENT_CEILING req alignment))
          (\<lambda>usize. if usize < SC_LARGE_MINCLASS then Some usize
                   else sz_sa2u_large t req alignment)
      else sz_sa2u_large t req alignment)"

section \<open>The tables of sz.c\<close>

text \<open>One pass of the first loop of \<open>sz_boot_pind2sz_tab\<close>, then its second loop.\<close>

definition sc_size :: "sc_t \<Rightarrow> size_t" where
  "sc_size sc = push_bit (sc_lg_base sc) 1 + push_bit (sc_lg_delta sc) (of_nat (sc_ndelta sc))"

fun pind2sz_loop :: "sc_t list \<Rightarrow> nat \<Rightarrow> size_t list \<Rightarrow> (nat \<times> size_t list) option" where
  "pind2sz_loop [] pind tab = Some (pind, tab)"
| "pind2sz_loop (sc # scs) pind tab =
     (if sc_psz sc then Option.bind (write_at tab pind (sc_size sc)) (pind2sz_loop scs (pind + 1))
      else pind2sz_loop scs pind tab)"

fun pind2sz_fill :: "size_t \<Rightarrow> nat list \<Rightarrow> nat \<Rightarrow> size_t list \<Rightarrow> size_t list option" where
  "pind2sz_fill x [] pind tab = Some tab"
| "pind2sz_fill x (i # is) pind tab = Option.bind (write_at tab pind x) (pind2sz_fill x is pind)"

definition sz_boot_pind2sz_tab :: "sc_data_t \<Rightarrow> size_t list \<Rightarrow> size_t list option" where
  "sz_boot_pind2sz_tab sc_data tab =
     Option.bind (pind2sz_loop (take SC_NSIZES (sd_sc sc_data)) 0 tab) (\<lambda>(pind, tab).
       pind2sz_fill (sd_large_maxclass sc_data + PAGE) [pind..<SC_NPSIZES + 1] pind tab)"

fun index2size_loop :: "sc_t list \<Rightarrow> nat \<Rightarrow> size_t list \<Rightarrow> size_t list option" where
  "index2size_loop [] i tab = Some tab"
| "index2size_loop (sc # scs) i tab =
     Option.bind (write_at tab i (sc_size sc)) (index2size_loop scs (i + 1))"

definition sz_boot_index2size_tab :: "sc_data_t \<Rightarrow> size_t list \<Rightarrow> size_t list option" where
  "sz_boot_index2size_tab sc_data tab = index2size_loop (take SC_NSIZES (sd_sc sc_data)) 0 tab"

text \<open>The inner loop writes the same class index to consecutive slots.\<close>

function size2index_inner :: "nat \<Rightarrow> nat \<Rightarrow> uint8 \<Rightarrow> nat \<Rightarrow> uint8 list \<Rightarrow> (nat \<times> uint8 list) option"
where
  "size2index_inner max_ind dst_max sc_ind dst_ind tab =
     (if dst_ind \<le> max_ind \<and> dst_ind < dst_max then
        Option.bind (write_at tab dst_ind sc_ind)
          (size2index_inner max_ind dst_max sc_ind (dst_ind + 1))
      else Some (dst_ind, tab))"
  by pat_completeness auto
termination
  by (relation "measure (\<lambda>(_, dst_max, _, dst_ind, _). dst_max - dst_ind)") auto

declare size2index_inner.simps [simp del]

fun size2index_loop :: "sc_t list \<Rightarrow> nat \<Rightarrow> nat \<Rightarrow> nat \<Rightarrow> uint8 list \<Rightarrow> uint8 list option" where
  "size2index_loop [] sc_ind dst_max dst_ind tab = Some tab"
| "size2index_loop (sc # scs) sc_ind dst_max dst_ind tab =
     (if dst_ind < dst_max then
        (let max_ind = unat (drop_bit SC_LG_TINY_MIN (sc_size sc + push_bit SC_LG_TINY_MIN 1 - 1))
         in Option.bind (size2index_inner max_ind dst_max (of_nat sc_ind) dst_ind tab)
              (\<lambda>(dst_ind, tab). size2index_loop scs (sc_ind + 1) dst_max dst_ind tab))
      else Some tab)"

definition size2index_tab_len :: nat where
  "size2index_tab_len = unat (drop_bit SC_LG_TINY_MIN SC_LOOKUP_MAXCLASS) + 1"

definition sz_boot_size2index_tab :: "sc_data_t \<Rightarrow> uint8 list \<Rightarrow> uint8 list option" where
  "sz_boot_size2index_tab sc_data tab =
     size2index_loop (take SC_NSIZES (sd_sc sc_data)) 0 size2index_tab_len 0 tab"

text \<open>The tables before boot: zeroed statics of their declared lengths.\<close>

definition sz_tabs_zero :: sz_tabs where
  "sz_tabs_zero = \<lparr>pind2sz_tab = replicate (SC_NPSIZES + 1) 0,
     index2size_tab = replicate SC_NSIZES 0,
     size2index_tab = replicate size2index_tab_len 0\<rparr>"

definition sz_boot :: "sc_data_t \<Rightarrow> sz_tabs \<Rightarrow> sz_tabs option" where
  "sz_boot sc_data t =
     Option.bind (sz_boot_pind2sz_tab sc_data (pind2sz_tab t)) (\<lambda>p.
     Option.bind (sz_boot_index2size_tab sc_data (index2size_tab t)) (\<lambda>i.
     Option.bind (sz_boot_size2index_tab sc_data (size2index_tab t)) (\<lambda>s.
       Some \<lparr>pind2sz_tab = p, index2size_tab = i, size2index_tab = s\<rparr>)))"

section \<open>Groups of four size classes, on natural numbers\<close>

text \<open>
  Both families have the same shape: classes spaced by \<open>2 ^ q\<close> up to \<open>4 * 2 ^ q\<close>, then groups
  of four per power of two. \<open>group_size q i\<close> is the size of class \<open>i\<close>, \<open>group_index q s\<close> the
  index that the code computes for a request \<open>s\<close>, \<open>group_lg_delta q s\<close> the spacing it rounds to.
\<close>

definition group_size :: "nat \<Rightarrow> nat \<Rightarrow> nat" where
  "group_size q i = (if i div 4 = 0 then 0 else 2 ^ (q + 1 + i div 4))
     + (i mod 4 + 1) * 2 ^ ((if i div 4 = 0 then 1 else i div 4) + (q - 1))"

definition group_lg_delta :: "nat \<Rightarrow> nat \<Rightarrow> nat" where
  "group_lg_delta q s = (let x = nat_lg (2 * s - 1) in if x < 2 + q + 1 then q else x - 2 - 1)"

definition group_index :: "nat \<Rightarrow> nat \<Rightarrow> nat" where
  "group_index q s =
     (let x = nat_lg (2 * s - 1); shift = (if x < 2 + q then 0 else x - (2 + q))
      in shift * 4 + (s - 1) div 2 ^ group_lg_delta q s mod 4)"

text \<open>The two cases of the computation: below and above the first power-of-two group.\<close>

lemma group_index_low:
  assumes "0 < q" "0 < s" "s \<le> 4 * 2 ^ q"
  shows "group_lg_delta q s = q" "group_index q s = (s - 1) div 2 ^ q" "(s - 1) div 2 ^ q < 4"
proof -
  have "2 * s - 1 < 2 ^ (3 + q)" using assms by (simp add: power_add)
  then have x: "nat_lg (2 * s - 1) < 3 + q" by (rule nat_lg_less) simp
  then show d: "group_lg_delta q s = q" by (simp add: group_lg_delta_def Let_def)
  show l: "(s - 1) div 2 ^ q < 4" using assms by (simp add: less_mult_imp_div_less)
  have "nat_lg (2 * s - 1) - (2 + q) = 0" using x by simp
  then show "group_index q s = (s - 1) div 2 ^ q"
    using l by (simp add: group_index_def Let_def d)
qed

lemma group_index_high:
  assumes "0 < q" "4 * 2 ^ q < s"
  obtains g where "0 < g" "group_lg_delta q s = g + (q - 1)"
    "4 * 2 ^ (g + (q - 1)) < s" "s \<le> 8 * 2 ^ (g + (q - 1))"
    "group_index q s = 4 * g + ((s - 1) div 2 ^ (g + (q - 1)) - 4)"
    "4 \<le> (s - 1) div 2 ^ (g + (q - 1))" "(s - 1) div 2 ^ (g + (q - 1)) < 8"
    "nat_lg (2 * s - 1) = Suc (q + 1 + g)"
proof -
  have "(1::nat) \<le> 2 ^ q" by simp
  then have "1 < s" using assms(2) by linarith
  from ceil_lg_bounds [OF this] obtain k where
    k: "nat_lg (2 * s - 1) = Suc k" "2 ^ k < s" "s \<le> 2 ^ Suc k" .
  have "(2::nat) ^ (2 + q) < 2 ^ Suc k" using assms(2) k(3) by (simp add: power_add)
  then have "2 + q < Suc k" by (rule power_less_imp_less_exp [rotated]) simp
  define g where "g = k - (q + 1)"
  have kg: "k = 2 + (g + (q - 1))" "0 < g" "k = q + 1 + g"
    using \<open>2 + q < Suc k\<close> assms(1) by (simp_all add: g_def)
  have lo: "4 * 2 ^ (g + (q - 1)) < s" using k(2) unfolding kg(1) power_add by simp
  have hi: "s \<le> 8 * 2 ^ (g + (q - 1))" using k(3) unfolding kg(1) power_Suc power_add by simp
  have d: "group_lg_delta q s = g + (q - 1)"
    using kg k(1) by (simp add: group_lg_delta_def Let_def)
  have m: "4 \<le> (s - 1) div 2 ^ (g + (q - 1))"
    using lo by (simp add: less_eq_div_iff_mult_less_eq)
  have n: "(s - 1) div 2 ^ (g + (q - 1)) < 8"
    using hi \<open>1 < s\<close> by (intro less_mult_imp_div_less) simp
  have "(s - 1) div 2 ^ (g + (q - 1)) mod 4 = (s - 1) div 2 ^ (g + (q - 1)) - 4"
    using m n by (simp add: mod_if)
  then have "group_index q s = 4 * g + ((s - 1) div 2 ^ (g + (q - 1)) - 4)"
    using kg k(1) by (simp add: group_index_def Let_def d)
  with lo hi d m n kg k(1) show thesis using that by simp
qed

lemma group_size_low: "0 < q \<Longrightarrow> i < 4 \<Longrightarrow> group_size q i = (i + 1) * 2 ^ q"
  by (simp add: group_size_def)

lemma group_size_high:
  assumes "0 < q" "0 < g" "m < 4"
  shows "group_size q (4 * g + m) = (m + 5) * 2 ^ (g + (q - 1))"
proof -
  have "(4 * g + m) div 4 = g" "(4 * g + m) mod 4 = m" using assms(3) by simp_all
  then have "group_size q (4 * g + m) = 2 ^ (q + 1 + g) + (m + 1) * 2 ^ (g + (q - 1))"
    using assms(2) by (simp add: group_size_def)
  also have "q + 1 + g = 2 + (g + (q - 1))" using assms(1) by simp
  also have "(2::nat) ^ (2 + (g + (q - 1))) = 4 * 2 ^ (g + (q - 1))" by (simp add: power_add)
  finally show ?thesis by (simp add: algebra_simps)
qed

text \<open>The class of a request is the request rounded up to the spacing.\<close>

lemma group_size_index:
  assumes "0 < q" "0 < s"
  shows "group_size q (group_index q s) = nat_round_up (2 ^ group_lg_delta q s) s"
proof (cases "s \<le> 4 * 2 ^ q")
  case True
  note l = group_index_low [OF assms True]
  show ?thesis
    using assms(2) group_size_low [OF assms(1) l(3)] by (simp only: l(1,2)) (simp add: nat_round_up_pred)
next
  case False
  then have "4 * 2 ^ q < s" by simp
  from group_index_high [OF assms(1) this] obtain g where
    g: "0 < g" "group_lg_delta q s = g + (q - 1)"
      "group_index q s = 4 * g + ((s - 1) div 2 ^ (g + (q - 1)) - 4)"
      "4 \<le> (s - 1) div 2 ^ (g + (q - 1))" "(s - 1) div 2 ^ (g + (q - 1)) < 8" .
  have m: "(s - 1) div 2 ^ (g + (q - 1)) - 4 < 4" using g(4,5) by linarith
  have "(s - 1) div 2 ^ (g + (q - 1)) - 4 + 5 = (s - 1) div 2 ^ (g + (q - 1)) + 1" using g by simp
  then show ?thesis
    using assms(2) by (simp only: g(2,3) group_size_high [OF assms(1) g(1) m]) (simp add: nat_round_up_pred)
qed

text \<open>The class below is too small.\<close>

lemma group_size_pred:
  assumes "0 < q" "0 < s" "0 < group_index q s"
  shows "group_size q (group_index q s - 1) < s"
proof (cases "s \<le> 4 * 2 ^ q")
  case True
  note l = group_index_low [OF assms(1,2) True]
  have "group_size q (group_index q s - 1) = (s - 1) div 2 ^ q * 2 ^ q"
    using assms(1,3) l by (subst group_size_low) simp_all
  also have "\<dots> \<le> s - 1" by (rule div_times_less_eq_dividend)
  finally show ?thesis using assms(2) by simp
next
  case False
  then have "4 * 2 ^ q < s" by simp
  from group_index_high [OF assms(1) this] obtain g where
    g: "0 < g" "4 * 2 ^ (g + (q - 1)) < s"
      "group_index q s = 4 * g + ((s - 1) div 2 ^ (g + (q - 1)) - 4)"
      "4 \<le> (s - 1) div 2 ^ (g + (q - 1))" "(s - 1) div 2 ^ (g + (q - 1)) < 8" .
  define m where "m = (s - 1) div 2 ^ (g + (q - 1))"
  have m4: "m - 5 < 4" using g(5) unfolding m_def by linarith
  show ?thesis
  proof (cases "m = 4")
    case False
    then have "group_index q s - 1 = 4 * g + (m - 5)" using g by (simp add: m_def)
    moreover have "m - 5 + 5 = m" using g False by (simp add: m_def)
    moreover have "group_size q (4 * g + (m - 5)) = (m - 5 + 5) * 2 ^ (g + (q - 1))"
      using assms(1) g m4 by (intro group_size_high) simp_all
    ultimately have "group_size q (group_index q s - 1) = m * 2 ^ (g + (q - 1))" by simp
    also have "\<dots> \<le> s - 1" unfolding m_def by (rule div_times_less_eq_dividend)
    finally show ?thesis using assms(2) by simp
  next
    case True
    then have i: "group_index q s - 1 = 4 * (g - 1) + 3" using g by (simp add: m_def)
    have "group_size q (4 * (g - 1) + 3) = 4 * 2 ^ (g + (q - 1))"
    proof (cases "g = 1")
      case True
      with assms(1) show ?thesis using group_size_low [of q 3] by simp
    next
      case False
      then have "g + (q - 1) = Suc (g - 1 + (q - 1))" using g(1) by simp
      then have "(2::nat) ^ (g + (q - 1)) = 2 * 2 ^ (g - 1 + (q - 1))" by (simp only: power_Suc)
      with False g(1) assms(1) show ?thesis by (subst group_size_high) simp_all
    qed
    with i g(2) show ?thesis by simp
  qed
qed

lemma group_size_Suc: "0 < q \<Longrightarrow> group_size q i < group_size q (Suc i)"
proof -
  assume q: "0 < q"
  show ?thesis
  proof (cases "i < 4")
    case True
    then show ?thesis
    proof (cases "i = 3")
      case True
      with q group_size_high [OF q, of 1 0] show ?thesis
        by (simp add: group_size_low)
    qed (use q in \<open>simp add: group_size_low\<close>)
  next
    case False
    define g m where "g = i div 4" and "m = i mod 4"
    with False have g: "0 < g" "m < 4" and i: "i = 4 * g + m" by simp_all
    note s = group_size_high [OF q g]
    show ?thesis
    proof (cases "m = 3")
      case True
      then have "Suc i = 4 * Suc g + 0" using i by simp
      with group_size_high [OF q, of "Suc g" 0]
      have "group_size q (Suc i) = 5 * 2 ^ Suc (g + (q - 1))" by simp
      with s i True show ?thesis by simp
    next
      case False
      then have "Suc i = 4 * g + Suc m" "Suc m < 4" using i g by simp_all
      with group_size_high [OF q g(1), of "Suc m"]
      have "group_size q (Suc i) = (Suc m + 5) * 2 ^ (g + (q - 1))" by simp
      with s i show ?thesis by simp
    qed
  qed
qed

lemma group_size_strict_mono: "0 < q \<Longrightarrow> strict_mono (group_size q)"
  by (simp add: strict_mono_Suc_iff group_size_Suc)

text \<open>The size classes above the tiny one are the groups with the quantum as spacing.\<close>

lemma class_size_group_size: "class_size (Suc i) = group_size 4 i"
proof (cases "i < 4")
  case True
  then have "i = 0 \<or> i = 1 \<or> i = 2 \<or> i = 3" by auto
  then show ?thesis using True
    by (auto simp: group_size_low class_size_small numeral_2_eq_2 [symmetric]
        numeral_3_eq_3 [symmetric])
next
  case False
  define r where "r = i - 4"
  have i: "i = 4 * Suc (r div 4) + r mod 4" using False by (simp add: r_def)
  have "class_size (Suc i) = (r mod 4 + 5) * 2 ^ (4 + r div 4)"
    using False by (subst class_size_group) (simp_all add: r_def)
  also have "\<dots> = group_size 4 i"
    by (subst i, subst group_size_high) (simp_all add: add.commute)
  finally show ?thesis .
qed

text \<open>Shifting by one group is doubling the spacing.\<close>

lemma group_size_shift: "0 < q \<Longrightarrow> 3 \<le> i \<Longrightarrow> group_size q (i + 4) = group_size (Suc q) i"
proof (cases "i = 3")
  case True
  assume "0 < q"
  then show ?thesis using True group_size_high [of q 1 3] by (simp add: group_size_low power_eq_if)
next
  case False
  assume "0 < q" "3 \<le> i"
  with False have g: "0 < i div 4" by simp
  have "i + 4 = 4 * Suc (i div 4) + i mod 4" by simp
  then have "group_size q (i + 4) = (i mod 4 + 5) * 2 ^ (Suc (i div 4) + (q - 1))"
    using group_size_high [OF \<open>0 < q\<close>, of "Suc (i div 4)" "i mod 4"] by simp
  also have "\<dots> = group_size (Suc q) (4 * (i div 4) + i mod 4)"
    using g \<open>0 < q\<close> by (subst group_size_high) simp_all
  finally show ?thesis by simp
qed

section \<open>The code computes the group functions\<close>

lemma SC_LARGE_MAXCLASS_unat: "unat SC_LARGE_MAXCLASS = 7 * 2 ^ 60"
proof -
  have "unat (of_nat (class_size 231) :: size_t) = class_size 231"
    using class_size_less [of 231] by (intro unat_of_nat_eq) simp
  then show ?thesis by (simp only: sc_macro_values) (simp add: class_size_group)
qed

lemma le_LARGE_MAXCLASS: "w \<le> SC_LARGE_MAXCLASS \<longleftrightarrow> unat w \<le> 7 * 2 ^ 60"
  by (simp only: word_le_nat_alt SC_LARGE_MAXCLASS_unat)

lemma le_LARGE_MAXCLASS_less: "w \<le> SC_LARGE_MAXCLASS \<Longrightarrow> unat w < 2 ^ 63"
  by (simp add: le_LARGE_MAXCLASS)

lemma not_le_LARGE_MAXCLASS: "w > SC_LARGE_MAXCLASS \<longleftrightarrow> \<not> w \<le> SC_LARGE_MAXCLASS"
  by auto

lemma lg_floor_double_minus_one:
  fixes w :: size_t
  assumes "0 < unat w" "unat w < 2 ^ 63"
  shows "lg_floor (push_bit 1 w - 1) = nat_lg (2 * unat w - 1)"
proof -
  have "unat (push_bit 1 w) = unat w * 2 ^ 1"
    using assms(2) by (intro unat_push_bit_eq) simp
  then have "unat (push_bit 1 w - 1) = 2 * unat w - 1"
    using assms(1) by (subst unat_diff_eq) simp_all
  then show ?thesis by (simp only: lg_floor_eq_nat_lg)
qed

lemma mod_bits_eq:
  fixes w :: size_t
  assumes "0 < unat w"
  shows "unat (drop_bit d ((w - 1) AND push_bit d (- 1)) AND (push_bit 2 1 - 1))
    = (unat w - 1) div 2 ^ d mod 4"
proof -
  have "drop_bit d ((w - 1) AND push_bit d (- 1)) = drop_bit d (w - 1)"
    by (rule bit_word_eqI) (auto simp: bit_simps dest: bit_imp_le_length)
  moreover have "unat (w - 1) = unat w - 1" using assms by (subst unat_diff_eq) simp_all
  moreover have "push_bit 2 1 - 1 = (mask 2 :: size_t)" by (rule push_bit_minus_1_eq_mask)
  moreover have "unat (drop_bit d (w - 1) AND mask 2) = unat (w - 1) div 2 ^ d mod 2 ^ 2"
    by (simp only: unat_and_mask unat_drop_bit_div)
  ultimately show ?thesis by simp
qed

lemma group_size_word:
  assumes "0 < q"
  shows "(push_bit (i div 4) (push_bit (q + 1) (1 :: size_t))
      AND NOT ((if i div 4 = 0 then 0 else 1) - 1))
    + push_bit ((if i div 4 = 0 then 1 else i div 4) + (q - 1)) (of_nat (i mod 4) + 1)
    = of_nat (group_size q i)"
proof (cases "i div 4 = 0")
  case True
  with assms show ?thesis
    by (simp add: group_size_def push_bit_eq_mult) (cases q, simp_all add: algebra_simps)
next
  case False
  then have "push_bit (i div 4) (push_bit (q + 1) (1 :: size_t)) = 2 ^ (q + 1 + i div 4)"
    by (simp add: push_bit_eq_mult power_add)
  with False show ?thesis
    by (simp add: group_size_def push_bit_eq_mult algebra_simps del: push_bit_of_1)
qed

lemma sz_index2size_compute_Suc: "sz_index2size_compute (Suc i) = of_nat (group_size 4 i)"
proof -
  have "sz_index2size_compute (Suc i) = (push_bit (i div 4) (push_bit (4 + 1) 1)
      AND NOT ((if i div 4 = 0 then 0 else 1) - 1))
    + push_bit ((if i div 4 = 0 then 1 else i div 4) + (4 - 1)) (of_nat (i mod 4) + 1)"
    by (simp add: sz_index2size_compute_def sc_config_defs Let_def)
  then show ?thesis by (simp only: group_size_word)
qed

lemma sz_index2size_compute_eq: "sz_index2size_compute i = of_nat (class_size i)"
proof (cases i)
  case 0
  then show ?thesis by (simp add: sz_index2size_compute_def sc_config_defs class_size_small)
qed (simp only: sz_index2size_compute_Suc class_size_group_size)

lemma unat_sz_index2size_compute: "i < 232 \<Longrightarrow> unat (sz_index2size_compute i) = class_size i"
  using class_size_less [of i] by (simp only: sz_index2size_compute_eq) (simp add: unat_of_nat_eq)

lemma sz_pind2sz_compute_eq: "pind < 199 \<Longrightarrow> sz_pind2sz_compute pind = of_nat (group_size 12 pind)"
proof -
  assume "pind < 199"
  then have "sz_pind2sz_compute pind = (push_bit (pind div 4) (push_bit (12 + 1) 1)
      AND NOT ((if pind div 4 = 0 then 0 else 1) - 1))
    + push_bit ((if pind div 4 = 0 then 1 else pind div 4) + (12 - 1)) (of_nat (pind mod 4) + 1)"
    by (simp add: sz_pind2sz_compute_def sc_config_defs Let_def)
  then show ?thesis by (simp only: group_size_word)
qed

lemma sz_size2index_compute_tiny:
  assumes "unat w \<le> 8" shows "sz_size2index_compute w = 0"
proof (cases "w = 0")
  case True
  then show ?thesis by (simp add: sz_size2index_compute_def word_less_nat_alt SC_LARGE_MAXCLASS_unat)
next
  case False
  then have w: "0 < unat w" "unat w \<le> 2 ^ 63" using assms by (simp_all add: unat_gt_0)
  from pow2_ceil_u64_spec [OF w] obtain k where
    k: "unat (pow2_ceil_u64 w) = 2 ^ k" "\<And>j. unat w \<le> 2 ^ j \<Longrightarrow> k \<le> j" by blast
  have "k \<le> 3" using k(2) [of 3] assms by simp
  moreover have "lg_floor (pow2_ceil_zu w) = k"
    by (simp only: lg_floor_eq_nat_lg pow2_ceil_zu_def k(1) nat_lg_pow2)
  ultimately show ?thesis using False assms
    by (simp add: sz_size2index_compute_def sc_config_defs word_less_nat_alt word_le_nat_alt
        SC_LARGE_MAXCLASS_unat)
qed

lemma sz_size2index_compute_eq:
  assumes "8 < unat w" "w \<le> SC_LARGE_MAXCLASS"
  shows "sz_size2index_compute w = Suc (group_index 4 (unat w))"
proof -
  have w: "0 < unat w" "unat w < 2 ^ 63" "w \<noteq> 0"
    using assms le_LARGE_MAXCLASS_less by auto
  have t: "\<not> w \<le> push_bit (nat SC_LG_TINY_MAXCLASS) 1"
    using assms(1) by (simp add: SC_LG_TINY_MAXCLASS_def LG_QUANTUM_def SC_LG_TINY_MIN_def
        word_le_nat_alt)
  show ?thesis
    using assms(2) t w
    unfolding sz_size2index_compute_def lg_floor_double_minus_one [OF w(1,2)]
    by (simp only: not_le_LARGE_MAXCLASS not_not if_False if_True SC_LG_NGROUP_def Let_def
        mod_bits_eq [OF w(1)] group_index_def group_lg_delta_def)
      (simp add: SC_NTINY_def LG_QUANTUM_def SC_LG_TINY_MIN_def)
qed

lemma sz_psz2ind_eq:
  assumes "0 < unat w" "w \<le> SC_LARGE_MAXCLASS"
  shows "sz_psz2ind w = group_index 12 (unat w)"
proof -
  have w: "unat w < 2 ^ 63" using assms le_LARGE_MAXCLASS_less by auto
  show ?thesis
    using assms(2)
    unfolding sz_psz2ind_def lg_floor_double_minus_one [OF assms(1) w]
    by (simp only: not_le_LARGE_MAXCLASS not_not if_False if_True SC_LG_NGROUP_def Let_def
        mod_bits_eq [OF assms(1)] group_index_def group_lg_delta_def)
      (simp add: LG_PAGE_def)
qed

section \<open>The contract of a size class map\<close>

text \<open>
  What the allocator relies on: the class sizes increase with the index, and the index of a
  request is the first class that is large enough. \<open>n\<close> is the number of classes.
\<close>

locale size_class_map =
  fixes ind2sz :: "nat \<Rightarrow> nat" and sz2ind :: "nat \<Rightarrow> nat" and n :: nat
  assumes classes: "0 < n"
    and ind2sz_less: "i < j \<Longrightarrow> j < n \<Longrightarrow> ind2sz i < ind2sz j"
    and sz2ind_less: "0 < s \<Longrightarrow> s \<le> ind2sz (n - 1) \<Longrightarrow> sz2ind s < n"
    and covers: "0 < s \<Longrightarrow> s \<le> ind2sz (n - 1) \<Longrightarrow> s \<le> ind2sz (sz2ind s)"
    and below: "0 < s \<Longrightarrow> s \<le> ind2sz (n - 1) \<Longrightarrow> 0 < sz2ind s \<Longrightarrow> ind2sz (sz2ind s - 1) < s"
begin

lemma ind2sz_le_iff: "i < n \<Longrightarrow> j < n \<Longrightarrow> ind2sz i \<le> ind2sz j \<longleftrightarrow> i \<le> j"
  by (metis ind2sz_less le_less not_le)

text \<open>The index and the size form a Galois connection.\<close>

lemma galois:
  assumes "0 < s" "s \<le> ind2sz (n - 1)" "i < n"
  shows "sz2ind s \<le> i \<longleftrightarrow> s \<le> ind2sz i"
proof
  assume "sz2ind s \<le> i"
  then have "ind2sz (sz2ind s) \<le> ind2sz i"
    using assms sz2ind_less ind2sz_le_iff by blast
  with covers [OF assms(1,2)] show "s \<le> ind2sz i" by simp
next
  assume "s \<le> ind2sz i"
  show "sz2ind s \<le> i"
  proof (rule ccontr)
    assume "\<not> sz2ind s \<le> i"
    then have "i \<le> sz2ind s - 1" "0 < sz2ind s" by simp_all
    moreover have "sz2ind s - 1 < n" using sz2ind_less [OF assms(1,2)] by simp
    ultimately have "ind2sz i < s"
      using below [OF assms(1,2)] ind2sz_le_iff [of i "sz2ind s - 1"] assms(3) by simp
    with \<open>s \<le> ind2sz i\<close> show False by simp
  qed
qed

lemma roundtrip: "i < n \<Longrightarrow> 0 < ind2sz i \<Longrightarrow> sz2ind (ind2sz i) = i"
proof -
  assume i: "i < n" "0 < ind2sz i"
  then have le: "ind2sz i \<le> ind2sz (n - 1)" using ind2sz_le_iff [of i "n - 1"] by simp
  then have "sz2ind (ind2sz i) \<le> i" using i by (simp add: galois)
  moreover have "i \<le> sz2ind (ind2sz i)"
    using covers [OF i(2) le] sz2ind_less [OF i(2) le] i(1) by (simp add: ind2sz_le_iff)
  ultimately show ?thesis by simp
qed

lemma sz2ind_mono:
  "0 < s \<Longrightarrow> s \<le> t \<Longrightarrow> t \<le> ind2sz (n - 1) \<Longrightarrow> sz2ind s \<le> sz2ind t"
  using galois [of s "sz2ind t"] covers [of t] sz2ind_less [of t] by simp

text \<open>The usable size: the smallest class size that is large enough.\<close>

lemma usable_least:
  assumes "0 < s" "s \<le> ind2sz (n - 1)" "i < n" "s \<le> ind2sz i"
  shows "ind2sz (sz2ind s) \<le> ind2sz i"
  using assms galois ind2sz_le_iff sz2ind_less by blast

end

definition sz_ind2sz_nat :: "nat \<Rightarrow> nat" where
  "sz_ind2sz_nat i = unat (sz_index2size_compute i)"

definition sz_sz2ind_nat :: "nat \<Rightarrow> nat" where
  "sz_sz2ind_nat s = sz_size2index_compute (of_nat s)"

definition psz_ind2sz_nat :: "nat \<Rightarrow> nat" where
  "psz_ind2sz_nat i = unat (sz_pind2sz_compute i)"

definition psz_sz2ind_nat :: "nat \<Rightarrow> nat" where
  "psz_sz2ind_nat s = sz_psz2ind (of_nat s)"

lemma group_index_less:
  assumes "0 < q" "0 < s" "s \<le> group_size q i" shows "group_index q s \<le> i"
proof (rule ccontr)
  assume "\<not> group_index q s \<le> i"
  then have "i \<le> group_index q s - 1" "0 < group_index q s" by simp_all
  then have "group_size q i < s"
    using group_size_pred [OF assms(1,2)] group_size_strict_mono [OF assms(1)]
    by (meson le_less_trans strict_mono_less_eq)
  with assms(3) show False by simp
qed

lemma group_index_covers: "0 < q \<Longrightarrow> 0 < s \<Longrightarrow> s \<le> group_size q (group_index q s)"
  by (simp add: group_size_index nat_round_up_ge)

lemma max_class_sizes: "class_size 231 = 7 * 2 ^ 60" "group_size 12 198 = 7 * 2 ^ 60"
  using group_size_high [of 12 49 2] by (simp_all add: class_size_group)

lemma unat_sz_pind2sz_compute: "i < 199 \<Longrightarrow> unat (sz_pind2sz_compute i) = group_size 12 i"
proof -
  assume i: "i < 199"
  then have "group_size 12 i \<le> group_size 12 198"
    using strict_mono_less_eq [OF group_size_strict_mono, of 12 i 198] by simp
  then have "group_size 12 i < 2 ^ LENGTH(64)" by (simp add: max_class_sizes)
  with i show ?thesis by (simp only: sz_pind2sz_compute_eq unat_of_nat_eq)
qed

interpretation szc: size_class_map sz_ind2sz_nat sz_sz2ind_nat SC_NSIZES
proof
  have top: "sz_ind2sz_nat (SC_NSIZES - 1) = 7 * 2 ^ 60"
    by (simp add: sz_ind2sz_nat_def sc_macro_values unat_sz_index2size_compute max_class_sizes)
  show "0 < SC_NSIZES" by (simp add: sc_macro_values)
  show "sz_ind2sz_nat i < sz_ind2sz_nat j" if "i < j" "j < SC_NSIZES" for i j
    using that by (simp add: sz_ind2sz_nat_def sc_macro_values unat_sz_index2size_compute
        class_size_less_iff)
  have c: "sz_sz2ind_nat s < SC_NSIZES \<and> s \<le> sz_ind2sz_nat (sz_sz2ind_nat s)
      \<and> (0 < sz_sz2ind_nat s \<longrightarrow> sz_ind2sz_nat (sz_sz2ind_nat s - 1) < s)"
    if s: "0 < s" "s \<le> 7 * 2 ^ 60" for s
  proof -
    have u: "unat (of_nat s :: size_t) = s" using s by (intro unat_of_nat_eq) simp
    show ?thesis
    proof (cases "s \<le> 8")
      case True
      then show ?thesis
        using u by (simp add: sz_sz2ind_nat_def sz_size2index_compute_tiny sz_ind2sz_nat_def
            unat_sz_index2size_compute class_size_small sc_macro_values)
    next
      case False
      let ?i = "group_index 4 s"
      have e: "sz_sz2ind_nat s = Suc ?i"
        using False s u by (simp add: sz_sz2ind_nat_def sz_size2index_compute_eq le_LARGE_MAXCLASS)
      have "?i \<le> 230"
        using s by (intro group_index_less) (simp_all add: max_class_sizes(1) flip: class_size_group_size)
      moreover have "s \<le> class_size (Suc ?i)"
        using s by (simp add: class_size_group_size group_index_covers)
      moreover have "class_size ?i < s"
      proof (cases ?i)
        case 0
        with False show ?thesis by (simp add: class_size_small)
      next
        case (Suc m)
        with group_size_pred [of 4 s] s show ?thesis by (simp add: class_size_group_size)
      qed
      ultimately show ?thesis
        by (simp add: e sz_ind2sz_nat_def unat_sz_index2size_compute sc_macro_values)
    qed
  qed
  show "sz_sz2ind_nat s < SC_NSIZES" if "0 < s" "s \<le> sz_ind2sz_nat (SC_NSIZES - 1)" for s
    using c that unfolding top by blast
  show "s \<le> sz_ind2sz_nat (sz_sz2ind_nat s)"
    if "0 < s" "s \<le> sz_ind2sz_nat (SC_NSIZES - 1)" for s
    using c that unfolding top by blast
  show "sz_ind2sz_nat (sz_sz2ind_nat s - 1) < s"
    if "0 < s" "s \<le> sz_ind2sz_nat (SC_NSIZES - 1)" "0 < sz_sz2ind_nat s" for s
    using c that unfolding top by blast
qed

interpretation pszc: size_class_map psz_ind2sz_nat psz_sz2ind_nat SC_NPSIZES
proof
  have top: "psz_ind2sz_nat (SC_NPSIZES - 1) = 7 * 2 ^ 60"
    by (simp add: psz_ind2sz_nat_def sc_macro_values unat_sz_pind2sz_compute max_class_sizes)
  show "0 < SC_NPSIZES" by (simp add: sc_macro_values)
  show "psz_ind2sz_nat i < psz_ind2sz_nat j" if "i < j" "j < SC_NPSIZES" for i j
    using that strict_mono_less [OF group_size_strict_mono, of 12 i j]
    by (simp add: psz_ind2sz_nat_def sc_macro_values unat_sz_pind2sz_compute)
  have c: "psz_sz2ind_nat s < SC_NPSIZES \<and> s \<le> psz_ind2sz_nat (psz_sz2ind_nat s)
      \<and> (0 < psz_sz2ind_nat s \<longrightarrow> psz_ind2sz_nat (psz_sz2ind_nat s - 1) < s)"
    if s: "0 < s" "s \<le> 7 * 2 ^ 60" for s
  proof -
    have u: "unat (of_nat s :: size_t) = s" using s by (intro unat_of_nat_eq) simp
    have e: "psz_sz2ind_nat s = group_index 12 s"
      using s u by (simp add: psz_sz2ind_nat_def sz_psz2ind_eq le_LARGE_MAXCLASS)
    have "group_index 12 s \<le> 198"
      using s by (intro group_index_less) (simp_all add: max_class_sizes)
    with s group_size_pred [of 12 s] show ?thesis
      by (simp add: e psz_ind2sz_nat_def unat_sz_pind2sz_compute sc_macro_values
          group_index_covers)
  qed
  show "psz_sz2ind_nat s < SC_NPSIZES" if "0 < s" "s \<le> psz_ind2sz_nat (SC_NPSIZES - 1)" for s
    using c that unfolding top by blast
  show "s \<le> psz_ind2sz_nat (psz_sz2ind_nat s)"
    if "0 < s" "s \<le> psz_ind2sz_nat (SC_NPSIZES - 1)" for s
    using c that unfolding top by blast
  show "psz_ind2sz_nat (psz_sz2ind_nat s - 1) < s"
    if "0 < s" "s \<le> psz_ind2sz_nat (SC_NPSIZES - 1)" "0 < psz_sz2ind_nat s" for s
    using c that unfolding top by blast
qed

section \<open>The usable size\<close>

lemma of_nat_unat_size_t [simp]: "of_nat (unat w) = w" for w :: "'a::len word"
  by simp

lemma sz_size2index_compute_less:
  "w \<le> SC_LARGE_MAXCLASS \<Longrightarrow> sz_size2index_compute w < 232"
proof (cases "w = 0")
  case False
  assume "w \<le> SC_LARGE_MAXCLASS"
  moreover have "sz_ind2sz_nat (SC_NSIZES - 1) = 7 * 2 ^ 60"
    by (simp add: sz_ind2sz_nat_def sc_macro_values unat_sz_index2size_compute max_class_sizes)
  ultimately show ?thesis
    using False szc.sz2ind_less [of "unat w"]
    by (simp add: sz_sz2ind_nat_def sc_macro_values(1) le_LARGE_MAXCLASS unat_gt_0)
qed (simp add: sz_size2index_compute_tiny)

lemma sz_s2u_compute_eq:
  assumes "w \<le> SC_LARGE_MAXCLASS"
  shows "sz_s2u_compute w = sz_index2size_compute (sz_size2index_compute w)"
proof -
  define v where "v = (if w = 0 then w + 1 else w)"
  have v: "v \<le> SC_LARGE_MAXCLASS" "0 < unat v" "v = w \<or> (w = 0 \<and> v = 1)"
    using assms by (auto simp: v_def le_LARGE_MAXCLASS unat_gt_0)
  show ?thesis
  proof (cases "unat v \<le> 8")
    case True
    then have i: "sz_size2index_compute w = 0"
      using v(3) by (auto intro: sz_size2index_compute_tiny)
    have "unat v \<le> 2 ^ 63" using True by simp
    from pow2_ceil_u64_spec [OF v(2) this] obtain k where
      k: "unat (pow2_ceil_u64 v) = 2 ^ k" "\<And>j. unat v \<le> 2 ^ j \<Longrightarrow> k \<le> j" by blast
    have "k \<le> 3" using k(2) [of 3] True by simp
    moreover have "lg_floor (pow2_ceil_zu v) = k"
      by (simp only: lg_floor_eq_nat_lg pow2_ceil_zu_def k(1) nat_lg_pow2)
    moreover have "v \<le> push_bit (nat SC_LG_TINY_MAXCLASS) 1"
      using True by (simp add: SC_LG_TINY_MAXCLASS_def LG_QUANTUM_def SC_LG_TINY_MIN_def
          word_le_nat_alt)
    moreover have "nat SC_LG_TINY_MAXCLASS - SC_NTINY + 1 = 3"
      by (simp add: SC_LG_TINY_MAXCLASS_def LG_QUANTUM_def SC_LG_TINY_MIN_def SC_NTINY_def)
    moreover have "k < 3 \<or> k = 3" using \<open>k \<le> 3\<close> by linarith
    ultimately have "sz_s2u_compute w = push_bit 3 1"
      using assms unfolding sz_s2u_compute_def v_def [symmetric] Let_def
      by (elim disjE) (simp_all only: not_le_LARGE_MAXCLASS not_not if_False if_True less_irrefl
          not_True_eq_False)
    then have "sz_s2u_compute w = 8" by simp
    then show ?thesis by (simp add: i sz_index2size_compute_eq class_size_small)
  next
    case False
    then have vw: "v = w" using v(3) by auto
    have w: "0 < unat w" "unat w < 2 ^ 63" "8 < unat w"
      using False v vw le_LARGE_MAXCLASS_less by auto
    define d where "d = group_lg_delta 4 (unat w)"
    have t: "\<not> w \<le> push_bit (nat SC_LG_TINY_MAXCLASS) 1"
      using w(3) by (simp add: SC_LG_TINY_MAXCLASS_def LG_QUANTUM_def SC_LG_TINY_MIN_def
          word_le_nat_alt)
    have "sz_s2u_compute w = (w + (push_bit d 1 - 1)) AND NOT (push_bit d 1 - 1)"
      using assms t w(1)
      unfolding sz_s2u_compute_def v_def [symmetric] vw Let_def
        lg_floor_double_minus_one [OF w(1,2)]
      by (simp only: not_le_LARGE_MAXCLASS not_True_eq_False if_False if_True d_def group_lg_delta_def
          Let_def SC_LG_NGROUP_def LG_QUANTUM_def)
    then have s: "sz_s2u_compute w = (w + mask d) AND NOT (mask d)"
      by (simp only: push_bit_minus_1_eq_mask)
    have "2 * unat w - 1 < 2 ^ 64" using w(2) by simp
    then have "nat_lg (2 * unat w - 1) < 64" by (rule nat_lg_less) simp
    then have dk: "d < 64" by (auto simp: d_def group_lg_delta_def Let_def)
    have u: "nat_round_up (2 ^ d) (unat w) = class_size (sz_size2index_compute w)"
      using assms w(1,3) by (simp add: sz_size2index_compute_eq class_size_group_size
          group_size_index d_def)
    have "2 ^ d \<le> unat w + 16"
    proof (cases "unat w \<le> 4 * 2 ^ 4")
      case True
      then show ?thesis using group_index_low [of 4 "unat w"] w(1) by (simp add: d_def)
    next
      case False
      then have "4 * 2 ^ 4 < unat w" by simp
      from group_index_high [OF _ this] obtain g where
        "d = g + (4 - 1)" "4 * 2 ^ (g + (4 - 1)) < unat w" unfolding d_def by auto
      then show ?thesis by simp
    qed
    moreover have "unat w \<le> 7 * 2 ^ 60" using assms by (simp only: le_LARGE_MAXCLASS)
    ultimately have "unat w + (2 ^ d - 1) < 2 ^ LENGTH(64)" by simp
    then have "unat (sz_s2u_compute w) = nat_round_up (2 ^ d) (unat w)"
      unfolding s using dk by (intro unat_round_up) simp_all
    then show ?thesis
      using u assms by (simp add: word_unat_eq_iff unat_sz_index2size_compute
          sz_size2index_compute_less)
  qed
qed

lemma unat_sz_s2u_compute:
  assumes "w \<le> SC_LARGE_MAXCLASS"
  shows "unat (sz_s2u_compute w) = class_size (sz_size2index_compute w)"
  using assms by (simp add: sz_s2u_compute_eq unat_sz_index2size_compute sz_size2index_compute_less)

section \<open>The tables hold the computed values\<close>

lemma sc_size_entry: "sc_size (sc_entry i) = of_nat (class_size i)"
  using of_nat_class_size [of i] by (simp add: sc_size_def sc_entry_def)

lemma upt_Cons_232: "k < 232 \<Longrightarrow> [k..<232] = k # [Suc k..<232]"
  by (rule upt_conv_Cons)

lemma index2size_loop_filled:
  assumes "k \<le> 232" "filled k sz_index2size_compute tab" "length tab = 232"
  shows "\<exists>tab'. index2size_loop (map sc_entry [k..<232]) k tab = Some tab'
    \<and> filled 232 sz_index2size_compute tab' \<and> length tab' = 232"
  using assms
proof (induction "232 - k" arbitrary: k tab)
  case (Suc n)
  then have k: "k < 232" by simp
  let ?tab = "tab[k := sz_index2size_compute k]"
  have "filled (Suc k) sz_index2size_compute ?tab"
    using Suc.prems k by (simp add: filled_Suc)
  with Suc.hyps(1) [of "Suc k" ?tab] Suc.hyps(2) Suc.prems k show ?case
    by (simp add: upt_Cons_232 sc_size_entry sz_index2size_compute_eq del: upt_rec_numeral)
qed simp

text \<open>The page size classes are the classes 28, 32, 34 and all from 36 on.\<close>

lemma count_psz_small:
  "count_upto sc_psz 28 = 0" "count_upto sc_psz 32 = 1" "count_upto sc_psz 34 = 2"
  "count_upto sc_psz 36 = 3" "count_upto sc_psz 37 = 4"
  by (simp_all add: count_upto_def upt_conv_Cons sc_entry_def class_size_def class_lg_base_def
      class_lg_delta_def class_ndelta_def)

lemma sc_psz_entry_small:
  assumes "i < 37" shows "sc_psz (sc_entry i) \<longleftrightarrow> i = 28 \<or> i = 32 \<or> i = 34 \<or> i = 36"
proof -
  have "filter (\<lambda>i. sc_psz (sc_entry i)) [0..<37] = [28, 32, 34, 36]"
    by (simp add: upt_conv_Cons sc_entry_def class_size_def class_lg_base_def
      class_lg_delta_def class_ndelta_def)
  then have "i \<in> set (filter (\<lambda>i. sc_psz (sc_entry i)) [0..<37]) \<longleftrightarrow> i \<in> set [28, 32, 34, 36]"
    by simp
  with assms show ?thesis by (simp del: upt_rec_numeral)
qed

lemma sc_psz_entry_large: "37 \<le> i \<Longrightarrow> sc_psz (sc_entry i)"
  by (simp add: sc_entry_def class_size_psz del: power_numeral)

lemma count_psz_large: "37 \<le> k \<Longrightarrow> count_upto sc_psz k = k - 33"
proof (induction k rule: dec_induct)
  case base
  then show ?case by (simp add: count_psz_small)
next
  case (step k)
  then show ?case by (simp add: count_upto_Suc sc_psz_entry_large count_if_def)
qed

lemma group_size_shift_n: "0 < q \<Longrightarrow> 3 \<le> i \<Longrightarrow> group_size q (i + 4 * n) = group_size (q + n) i"
proof (induction n arbitrary: q)
  case (Suc n)
  have "group_size q (i + 4 * Suc n) = group_size q (i + 4 * n + 4)" by (simp add: add.commute add.left_commute)
  also have "\<dots> = group_size (Suc q) (i + 4 * n)" using Suc.prems by (intro group_size_shift) simp_all
  also have "\<dots> = group_size (Suc q + n) i" using Suc by simp
  finally show ?case by simp
qed simp

lemma group_size_shift8: "3 \<le> i \<Longrightarrow> group_size 4 (i + 32) = group_size 12 i"
  using group_size_shift_n [of 4 i 8] by simp

lemma psz_class_size:
  assumes "sc_psz (sc_entry k)" "k < 232"
  shows "class_size k = group_size 12 (count_upto sc_psz k)"
proof (cases "k < 36")
  case True
  with assms sc_psz_entry_small [of k] have "k = 28 \<or> k = 32 \<or> k = 34" by auto
  then show ?thesis
    by (auto simp: count_psz_small group_size_low class_size_group)
next
  case False
  then have "count_upto sc_psz k = k - 33"
    using count_psz_large [of k] count_psz_small by (cases "k = 36") simp_all
  moreover have "class_size k = group_size 4 (k - 33 + 32)"
    using False class_size_group_size [of "k - 1"] by simp
  ultimately show ?thesis using False group_size_shift8 [of "k - 33"] by simp
qed

lemma count_psz_le: "k \<le> 232 \<Longrightarrow> count_upto sc_psz k \<le> 199"
proof -
  have "count_upto sc_psz j \<le> count_upto sc_psz (Suc j)" for j
    by (simp add: count_upto_Suc count_if_def)
  then have "k \<le> 232 \<Longrightarrow> count_upto sc_psz k \<le> count_upto sc_psz 232" by (rule lift_Suc_mono_le)
  then show "k \<le> 232 \<Longrightarrow> ?thesis" by (simp add: count_upto_232)
qed

lemma pind2sz_loop_filled:
  assumes "k \<le> 232" "filled (count_upto sc_psz k) sz_pind2sz_compute tab" "length tab = 200"
  shows "\<exists>tab'. pind2sz_loop (map sc_entry [k..<232]) (count_upto sc_psz k) tab = Some (199, tab')
    \<and> filled 199 sz_pind2sz_compute tab' \<and> length tab' = 200"
  using assms
proof (induction "232 - k" arbitrary: k tab)
  case 0
  then show ?case by (simp add: count_upto_232)
next
  case (Suc n)
  let ?c = "count_upto sc_psz k"
  have k: "k < 232" using Suc.hyps(2) by simp
  show ?case
  proof (cases "sc_psz (sc_entry k)")
    case True
    then have c: "count_upto sc_psz (Suc k) = Suc ?c" by (simp add: count_upto_Suc count_if_def)
    then have "?c < 199" using count_psz_le [of "Suc k"] k by simp
    then have s: "sc_size (sc_entry k) = sz_pind2sz_compute ?c"
      using psz_class_size [OF True k] by (simp add: sc_size_entry sz_pind2sz_compute_eq)
    let ?tab = "tab[?c := sz_pind2sz_compute ?c]"
    have "filled (count_upto sc_psz (Suc k)) sz_pind2sz_compute ?tab"
      using Suc.prems \<open>?c < 199\<close> unfolding c by (intro filled_Suc) simp_all
    with Suc.hyps(1) [of "Suc k" ?tab] Suc.hyps(2) Suc.prems k True s c \<open>?c < 199\<close> show ?thesis
      by (simp add: upt_Cons_232 del: upt_rec_numeral)
  next
    case False
    then have "count_upto sc_psz (Suc k) = ?c" by (simp add: count_upto_Suc count_if_def)
    with Suc.hyps(1) [of "Suc k" tab] Suc.hyps(2) Suc.prems k False show ?thesis
      by (simp add: upt_Cons_232 del: upt_rec_numeral)
  qed
qed

text \<open>The compressed table from request sizes to indices, in steps of eight bytes.\<close>

definition size2index_entry :: "nat \<Rightarrow> uint8" where
  "size2index_entry j = of_nat (sz_size2index_compute (of_nat (8 * j)))"

lemma class_size_dvd8: "8 dvd class_size i"
proof -
  have "3 \<le> class_lg_base i" "3 \<le> class_lg_delta i"
    by (simp_all add: class_lg_base_def class_lg_delta_def)
  then have "2 ^ 3 dvd class_size i"
    unfolding class_size_def by (intro dvd_add dvd_mult le_imp_power_dvd)
  then show ?thesis by simp
qed

lemma sz_size2index_eqI:
  assumes "0 < s" "s \<le> 7 * 2 ^ 60" "s \<le> class_size k" "k < 232" "\<And>j. j < k \<Longrightarrow> class_size j < s"
  shows "sz_size2index_compute (of_nat s) = k"
proof -
  have top: "s \<le> sz_ind2sz_nat (SC_NSIZES - 1)" and n: "SC_NSIZES = 232"
    using assms(2) by (simp_all add: sz_ind2sz_nat_def sc_macro_values(1)
        unat_sz_index2size_compute max_class_sizes)
  have l: "sz_sz2ind_nat s < 232" using szc.sz2ind_less [OF assms(1) top] n by simp
  have "sz_sz2ind_nat s \<le> k"
    using szc.galois [OF assms(1) top, of k] assms n
    by (simp add: sz_ind2sz_nat_def unat_sz_index2size_compute)
  moreover have "s \<le> class_size (sz_sz2ind_nat s)"
    using szc.covers [OF assms(1) top] l by (simp add: sz_ind2sz_nat_def unat_sz_index2size_compute)
  then have "\<not> sz_sz2ind_nat s < k" using assms(5) [of "sz_sz2ind_nat s"] by fastforce
  ultimately show ?thesis by (simp add: sz_sz2ind_nat_def)
qed

lemma size2index_entry_class:
  assumes "8 * j \<le> class_size k" "k < 232" "\<And>i. i < k \<Longrightarrow> class_size i < 8 * j"
  shows "size2index_entry j = of_nat k"
proof (cases "j = 0")
  case True
  with assms(3) have "k = 0" by (metis less_nat_zero_code mult_0_right neq0_conv)
  with True show ?thesis by (simp add: size2index_entry_def sz_size2index_compute_tiny)
next
  case False
  have "class_size k \<le> class_size 231" using assms(2) class_size_le_iff [of k 231] by simp
  then have "8 * j \<le> 7 * 2 ^ 60" using assms(1) max_class_sizes by linarith
  with assms False show ?thesis
    unfolding size2index_entry_def by (subst sz_size2index_eqI) simp_all
qed

lemma size2index_inner_filled:
  assumes "filled d f tab" "length tab = dst_max" "d \<le> dst_max" "d \<le> Suc mx"
    and "\<And>j. d \<le> j \<Longrightarrow> j \<le> mx \<Longrightarrow> f j = x"
  shows "\<exists>tab'. size2index_inner mx dst_max x d tab = Some (min dst_max (Suc mx), tab')
    \<and> filled (min dst_max (Suc mx)) f tab' \<and> length tab' = dst_max"
  using assms
proof (induction mx dst_max x d tab rule: size2index_inner.induct)
  case (1 mx dst_max x d tab)
  show ?case
  proof (cases "d \<le> mx \<and> d < dst_max")
    case True
    then have w: "write_at tab d x = Some (tab[d := f d])" using "1.prems" by simp
    moreover have "filled (Suc d) f (tab[d := f d])"
      using True "1.prems" by (intro filled_Suc) simp_all
    ultimately have "\<exists>tab'. size2index_inner mx dst_max x (Suc d) (tab[d := f d])
        = Some (min dst_max (Suc mx), tab')
      \<and> filled (min dst_max (Suc mx)) f tab' \<and> length tab' = dst_max"
      using True "1.prems" "1.IH" by simp
    with True w show ?thesis by (subst size2index_inner.simps) simp
  next
    case False
    then have "min dst_max (Suc mx) = d" using "1.prems" by auto
    with False "1.prems" show ?thesis by (subst size2index_inner.simps) auto
  qed
qed

text \<open>The slots below \<open>slots_upto k\<close> belong to the classes below \<open>k\<close>.\<close>

definition slots_upto :: "nat \<Rightarrow> nat" where
  "slots_upto k = (if k = 0 then 0 else min 513 (Suc (class_size (k - 1) div 8)))"

lemma size2index_loop_filled:
  assumes "k \<le> 29" "filled (slots_upto k) size2index_entry tab" "length tab = 513"
  shows "\<exists>tab'. size2index_loop (map sc_entry [k..<232]) k 513 (slots_upto k) tab = Some tab'
    \<and> filled 513 size2index_entry tab' \<and> length tab' = 513"
  using assms
proof (induction "29 - k" arbitrary: k tab)
  case 0
  then have k: "k = 29" by simp
  have "slots_upto 29 = 513" by (simp add: slots_upto_def class_size_small)
  with "0.prems" k show ?case by (simp add: upt_Cons_232 del: upt_rec_numeral)
next
  case (Suc n)
  have k: "k < 29" using Suc.hyps(2) by simp
  have le: "class_size i \<le> 4096" if "i < 29" for i
    using that class_size_le_iff [of i 28] by (simp add: class_size_small)
  let ?mx = "class_size k div 8"
  have sl: "slots_upto k < 513"
    using k le [of "k - 1"] class_size_less_iff [of "k - 1" 28] by (auto simp: slots_upto_def class_size_small)
  have d: "slots_upto k \<le> Suc ?mx"
    using class_size_less_iff [of "k - 1" k] div_le_mono [of "class_size (k - 1)" "class_size k" 8]
    by (auto simp: slots_upto_def min_def)
  have e: "size2index_entry j = of_nat k" if "slots_upto k \<le> j" "j \<le> ?mx" for j
  proof (rule size2index_entry_class)
    show "8 * j \<le> class_size k" using that(2) by (simp add: less_eq_div_iff_mult_less_eq mult.commute)
    fix i assume i: "i < k"
    then have "class_size i \<le> class_size (k - 1)" using class_size_le_iff [of i "k - 1"] by simp
    moreover have "class_size (k - 1) div 8 < j"
      using i that(1) sl by (auto simp: slots_upto_def min_def split: if_splits)
    then have "class_size (k - 1) < 8 * j"
      using class_size_dvd8 [of "k - 1"] by auto
    ultimately show "class_size i < 8 * j" by simp
  qed (use k in simp)
  obtain tab' where tab': "size2index_inner ?mx 513 (of_nat k) (slots_upto k) tab
      = Some (min 513 (Suc ?mx), tab')" "filled (min 513 (Suc ?mx)) size2index_entry tab'"
      "length tab' = 513"
    using size2index_inner_filled [OF Suc.prems(2,3) _ d e] sl by auto
  have m: "min 513 (Suc ?mx) = slots_upto (Suc k)" by (simp add: slots_upto_def)
  have "unat (of_nat (class_size k) :: size_t) = class_size k"
    using le [OF k] by (intro unat_of_nat_eq) simp
  then have "unat (drop_bit 3 (of_nat (class_size k) + (8 :: size_t) - 1)) = (class_size k + 7) div 8"
    using le [OF k] by (simp add: unat_drop_bit_div unat_add_eq)
  also have "(class_size k + 7) div 8 = ?mx" using class_size_dvd8 [of k] by auto
  finally have mx: "unat (drop_bit SC_LG_TINY_MIN (sc_size (sc_entry k) + push_bit SC_LG_TINY_MIN 1 - 1)) = ?mx"
    by (simp add: sc_size_entry SC_LG_TINY_MIN_def)
  have u: "[k..<232] = k # [Suc k..<232]" using k by (intro upt_Cons_232) simp
  show ?case
    using Suc.hyps(1) [of "Suc k" tab'] Suc.hyps(2) tab' [unfolded m] sl k mx
    by (simp add: u Let_def del: upt_rec_numeral)
qed

lemma sc_data_spec_classes: "take 232 (sd_sc sc_data_spec) = map sc_entry [0..<232]"
  "sd_large_maxclass sc_data_spec = SC_LARGE_MAXCLASS"
  by (simp_all add: sc_data_spec_def sc_macro_values del: upt_rec_numeral)

lemma tab_lengths: "size2index_tab_len = 513" "SC_NPSIZES + 1 = 200"
  by (simp_all add: size2index_tab_len_def sc_macro_values(2) SC_LOOKUP_MAXCLASS_def
      SC_LG_TINY_MIN_def)

definition tabs_ok :: "sz_tabs \<Rightarrow> bool" where
  "tabs_ok t \<longleftrightarrow> pind2sz_tab t = map sz_pind2sz_compute [0..<SC_NPSIZES + 1]
     \<and> index2size_tab t = map sz_index2size_compute [0..<SC_NSIZES]
     \<and> size2index_tab t = map size2index_entry [0..<size2index_tab_len]"

lemma filled_all: "filled n f xs \<Longrightarrow> length xs = n \<Longrightarrow> xs = map f [0..<n]"
  by (rule nth_equalityI) (simp_all add: filled_nth del: upt_rec_numeral)

text \<open>\<open>sz_boot\<close> on the data of \<open>sc_data_init\<close> writes inside the tables and fills them.\<close>

lemma sz_boot_pind2sz_tab_ok:
  "sz_boot_pind2sz_tab sc_data_spec (replicate (SC_NPSIZES + 1) 0)
    = Some (map sz_pind2sz_compute [0..<SC_NPSIZES + 1])"
proof -
  have "filled (count_upto sc_psz 0) sz_pind2sz_compute (replicate 200 0)"
    by (simp add: count_upto_def)
  from pind2sz_loop_filled [OF _ this] obtain tab where
    tab: "pind2sz_loop (map sc_entry [0..<232]) 0 (replicate 200 0) = Some (199, tab)"
      "filled 199 sz_pind2sz_compute tab" "length tab = 200"
    by (auto simp: count_upto_def simp del: upt_rec_numeral)
  have "sz_pind2sz_compute 199 = SC_LARGE_MAXCLASS + PAGE"
    by (simp add: sz_pind2sz_compute_def sc_macro_values(2))
  then have f: "filled 200 sz_pind2sz_compute (tab[199 := SC_LARGE_MAXCLASS + PAGE])"
    using filled_Suc [OF tab(2)] tab(3) by simp
  have "pind2sz_fill x [199..<200] 199 tab = Some (tab[199 := x])" for x
    using tab(3) by (simp add: upt_conv_Cons)
  then have "sz_boot_pind2sz_tab sc_data_spec (replicate (SC_NPSIZES + 1) 0)
      = Some (tab[199 := SC_LARGE_MAXCLASS + PAGE])"
    by (simp only: sz_boot_pind2sz_tab_def sc_macro_values(1) sc_data_spec_classes tab_lengths
        tab(1) bind.bind_lunit prod.case)
  also have "tab[199 := SC_LARGE_MAXCLASS + PAGE] = map sz_pind2sz_compute [0..<200]"
    using filled_all [OF f] tab(3) by (simp del: upt_rec_numeral)
  finally show ?thesis by (simp only: tab_lengths)
qed

lemma sz_boot_index2size_tab_ok:
  "sz_boot_index2size_tab sc_data_spec (replicate SC_NSIZES 0)
    = Some (map sz_index2size_compute [0..<SC_NSIZES])"
  using index2size_loop_filled [of 0 "replicate 232 0"] filled_all [of 232]
  by (auto simp: sz_boot_index2size_tab_def sc_data_spec_classes sc_macro_values(1)
      simp del: upt_rec_numeral)

lemma sz_boot_size2index_tab_ok:
  "sz_boot_size2index_tab sc_data_spec (replicate size2index_tab_len 0)
    = Some (map size2index_entry [0..<size2index_tab_len])"
  using size2index_loop_filled [of 0 "replicate 513 0"] filled_all [of 513]
  by (auto simp: sz_boot_size2index_tab_def sc_data_spec_classes sc_macro_values(1) tab_lengths
      slots_upto_def
      simp del: upt_rec_numeral)

lemma sz_boot_ok: "\<exists>t. sz_boot sc_data_spec sz_tabs_zero = Some t \<and> tabs_ok t"
  by (simp only: sz_boot_def sz_tabs_zero_def sz_tabs.simps sz_boot_pind2sz_tab_ok
      sz_boot_index2size_tab_ok sz_boot_size2index_tab_ok tabs_ok_def bind.bind_lunit option.inject)
    simp

text \<open>Lookups in filled tables agree with the computations.\<close>

lemma sz_pind2sz_ok: "tabs_ok t \<Longrightarrow> i \<le> SC_NPSIZES \<Longrightarrow> sz_pind2sz t i = Some (sz_pind2sz_compute i)"
  by (simp add: sz_pind2sz_def sz_pind2sz_lookup_def tabs_ok_def nth_append)

lemma sz_index2size_ok: "tabs_ok t \<Longrightarrow> i < SC_NSIZES \<Longrightarrow> sz_index2size t i = Some (sz_index2size_compute i)"
  by (simp add: sz_index2size_def sz_index2size_lookup_def tabs_ok_def)

lemma le_top_class:
  "s \<le> sz_ind2sz_nat (SC_NSIZES - 1) \<longleftrightarrow> s \<le> 7 * 2 ^ 60"
  "s \<le> psz_ind2sz_nat (SC_NPSIZES - 1) \<longleftrightarrow> s \<le> 7 * 2 ^ 60"
  by (simp_all add: sz_ind2sz_nat_def psz_ind2sz_nat_def sc_macro_values(1,2)
      unat_sz_index2size_compute unat_sz_pind2sz_compute max_class_sizes)

lemma sz_ind2sz_nat_eq: "i < SC_NSIZES \<Longrightarrow> sz_ind2sz_nat i = class_size i"
  by (simp add: sz_ind2sz_nat_def sc_macro_values(1) unat_sz_index2size_compute)

lemma round_up8_le: "8 * ((s + 7) div 8) \<le> class_size i \<longleftrightarrow> s \<le> class_size i"
  using class_size_dvd8 [of i] by (elim dvdE) auto

lemma sz2ind_round_up8:
  assumes "0 < s" "s \<le> 4096"
  shows "sz_sz2ind_nat (8 * ((s + 7) div 8)) = sz_sz2ind_nat s"
proof -
  let ?r = "8 * ((s + 7) div 8)"
  have "(s + 7) div 8 < 513" using assms by (intro less_mult_imp_div_less) simp
  then have r: "0 < ?r" "?r \<le> 4096" using assms by linarith+
  have g: "sz_sz2ind_nat s' \<le> i \<longleftrightarrow> s' \<le> class_size i"
    if "0 < s'" "s' \<le> 4096" "i < SC_NSIZES" for s' i
  proof -
    have "s' \<le> 7 * 2 ^ 60" using that(2) by simp
    then show ?thesis
      using szc.galois [OF that(1) _ that(3)] by (simp only: le_top_class(1) sz_ind2sz_nat_eq [OF that(3)])
  qed
  have n: "sz_sz2ind_nat s' < SC_NSIZES" if "0 < s'" "s' \<le> 4096" for s'
    by (rule szc.sz2ind_less) (use that in \<open>simp_all only: le_top_class(1), simp\<close>)
  show ?thesis
    using g [OF assms n [OF r]] g [OF r n [OF assms]] g [OF assms n [OF assms]] g [OF r n [OF r]]
    by (intro order_antisym) (simp_all only: round_up8_le order_refl)
qed

lemma sz_size2index_compute_nat: "sz_size2index_compute w = sz_sz2ind_nat (unat w)"
  by (simp add: sz_sz2ind_nat_def)

lemma sz_size2index_ok: "tabs_ok t \<Longrightarrow> sz_size2index t w = Some (sz_size2index_compute w)"
proof (cases "w \<le> SC_LOOKUP_MAXCLASS")
  case True
  assume t: "tabs_ok t"
  have w: "unat w \<le> 4096" using True by (simp add: SC_LOOKUP_MAXCLASS_def word_le_nat_alt)
  define j where "j = (unat w + 7) div 8"
  have "unat (w + 8 - 1) = unat w + 7" using w by (simp add: unat_add_eq)
  then have s: "unat (drop_bit SC_LG_TINY_MIN (w + push_bit SC_LG_TINY_MIN 1 - 1)) = j"
    by (simp add: SC_LG_TINY_MIN_def unat_drop_bit_div j_def)
  have "sz_size2index_compute (of_nat (8 * j)) = sz_size2index_compute w"
  proof (cases "w = 0")
    case True
    then show ?thesis by (simp add: j_def)
  next
    case False
    then have "0 < unat w" by (simp add: unat_gt_0)
    from sz2ind_round_up8 [OF this w] show ?thesis
      by (simp add: sz_sz2ind_nat_def j_def)
  qed
  moreover have "sz_size2index_compute w < 256"
    using sz_size2index_compute_less [of w] w by (simp add: le_LARGE_MAXCLASS)
  moreover have "j < 513" using w by (simp add: j_def)
  ultimately have "map_option unat (read_at (size2index_tab t) j) = Some (sz_size2index_compute w)"
    using t by (simp add: tabs_ok_def tab_lengths size2index_entry_def unat_of_nat_eq
        del: upt_rec_numeral)
  with True show ?thesis by (simp only: sz_size2index_def sz_size2index_lookup_def s if_True)
qed (simp add: sz_size2index_def)

lemma sz_s2u_ok: "tabs_ok t \<Longrightarrow> sz_s2u t w = Some (sz_s2u_compute w)"
proof (cases "w \<le> SC_LOOKUP_MAXCLASS")
  case True
  assume t: "tabs_ok t"
  have w: "w \<le> SC_LARGE_MAXCLASS"
    using True by (simp only: le_LARGE_MAXCLASS) (simp add: SC_LOOKUP_MAXCLASS_def word_le_nat_alt)
  have "sz_size2index_compute w < SC_NSIZES"
    using sz_size2index_compute_less [OF w] by (simp add: sc_macro_values(1))
  from sz_index2size_ok [OF t this] sz_size2index_ok [OF t, of w] show ?thesis
    using True by (simp add: sz_s2u_def sz_s2u_lookup_def sz_index2size_def sz_size2index_def
        sz_s2u_compute_eq [OF w])
qed (simp add: sz_s2u_def)

section \<open>Alignment\<close>

lemma NOT_plus_1: "NOT (2 ^ a) + 1 = (NOT (mask a) :: size_t)"
proof -
  have "NOT (2 ^ a) + 1 = - (2 ^ a :: size_t)" by (simp add: not_eq_complement)
  moreover have "NOT (mask a) = - (2 ^ a :: size_t)" by (simp add: not_eq_complement mask_eq_decr_exp)
  ultimately show ?thesis by simp
qed

lemma unat_ALIGNMENT_CEILING:
  assumes "a < 64" "unat s + (2 ^ a - 1) < 2 ^ 64"
  shows "unat (ALIGNMENT_CEILING s (2 ^ a)) = nat_round_up (2 ^ a) (unat s)"
proof -
  have "ALIGNMENT_CEILING s (2 ^ a) = (s + mask a) AND NOT (mask a)"
    by (simp only: ALIGNMENT_CEILING_def NOT_plus_1 mask_eq_decr_exp)
  moreover have "unat s + (2 ^ a - 1) < 2 ^ LENGTH(64)" using assms(2) by simp
  ultimately show ?thesis using assms(1) by (simp only:) (intro unat_round_up; simp)
qed

lemma unat_PAGE_CEILING:
  assumes "unat s + 4095 < 2 ^ 64"
  shows "unat (PAGE_CEILING s) = nat_round_up 4096 (unat s)"
proof -
  have m: "PAGE_MASK = mask 12" by (simp add: PAGE_MASK_def PAGE_def LG_PAGE_def mask_eq_decr_exp)
  have "unat (PAGE_CEILING s) = nat_round_up (2 ^ 12) (unat s)"
    unfolding PAGE_CEILING_def m by (rule unat_round_up) (use assms in simp_all)
  then show ?thesis by simp
qed

text \<open>A class that covers an aligned request is aligned, as its spacing is a power of two.\<close>

lemma class_size_aligned:
  assumes "0 < s" "s \<le> 7 * 2 ^ 60" "2 ^ a dvd s"
  shows "2 ^ a dvd class_size (sz_sz2ind_nat s)"
proof (cases "s \<le> 8")
  case True
  have "unat (of_nat s :: size_t) = s" using True by (intro unat_of_nat_eq) simp
  then have "class_size (sz_sz2ind_nat s) = 2 ^ 3"
    using True by (simp add: sz_sz2ind_nat_def sz_size2index_compute_tiny class_size_small)
  moreover have "(2::nat) ^ a \<le> 2 ^ 3" using dvd_imp_le [OF assms(3,1)] True by simp
  then have "a \<le> 3" by (rule power_le_imp_le_exp [rotated]) simp
  ultimately show ?thesis by (simp add: le_imp_power_dvd del: power_numeral)
next
  case False
  have "unat (of_nat s :: size_t) = s" using assms(2) by (intro unat_of_nat_eq) simp
  then have c: "class_size (sz_sz2ind_nat s) = nat_round_up (2 ^ group_lg_delta 4 s) s"
    using False assms by (simp add: sz_sz2ind_nat_def sz_size2index_compute_eq le_LARGE_MAXCLASS
        class_size_group_size group_size_index)
  show ?thesis
  proof (cases "a \<le> group_lg_delta 4 s")
    case True
    then show ?thesis unfolding c using dvd_trans [OF le_imp_power_dvd dvd_nat_round_up] by blast
  next
    case False
    then have "2 ^ group_lg_delta 4 s dvd s"
      using assms(3) by (intro dvd_trans [OF le_imp_power_dvd assms(3)]) simp
    then have "nat_round_up (2 ^ group_lg_delta 4 s) s = s"
      by (intro order_antisym nat_round_up_least nat_round_up_ge) simp_all
    with assms(3) c show ?thesis by simp
  qed
qed

lemma class_size_page:
  assumes "16384 \<le> class_size i" shows "4096 dvd class_size i"
proof -
  have c: "class_size 36 = 4 * 4096" by (simp add: class_size_group)
  have "36 \<le> i" using assms class_size_le_iff [of 36 i] c by simp
  then show ?thesis using class_size_psz [of i] c by (cases "i = 36") auto
qed

text \<open>\<open>sz_psz2u\<close> rounds to the spacing of the page size classes.\<close>

lemma sz_psz2u_eq:
  assumes "0 < unat w" "w \<le> SC_LARGE_MAXCLASS"
  shows "sz_psz2u w = sz_pind2sz_compute (sz_psz2ind w)"
proof -
  have w: "unat w \<le> 7 * 2 ^ 60" "unat w < 2 ^ 63"
    using assms(2) le_LARGE_MAXCLASS_less by (simp_all only: le_LARGE_MAXCLASS)
  define d where "d = group_lg_delta 12 (unat w)"
  have "sz_psz2u w = (w + (push_bit d 1 - 1)) AND NOT (push_bit d 1 - 1)"
    using assms(2) unfolding sz_psz2u_def Let_def lg_floor_double_minus_one [OF assms(1) w(2)]
    by (simp only: not_le_LARGE_MAXCLASS not_True_eq_False if_False d_def group_lg_delta_def
        Let_def SC_LG_NGROUP_def LG_PAGE_def)
  then have s: "sz_psz2u w = (w + mask d) AND NOT (mask d)"
    by (simp only: push_bit_minus_1_eq_mask)
  have "2 * unat w - 1 < 2 ^ 64" using w(2) by simp
  then have "nat_lg (2 * unat w - 1) < 64" by (rule nat_lg_less) simp
  then have dk: "d < 64" by (auto simp: d_def group_lg_delta_def Let_def)
  have "2 ^ d \<le> unat w + 4096"
  proof (cases "unat w \<le> 4 * 2 ^ 12")
    case True
    then show ?thesis using group_index_low [of 12 "unat w"] assms(1) by (simp add: d_def)
  next
    case False
    then have "4 * 2 ^ 12 < unat w" by simp
    from group_index_high [OF _ this] obtain g where
      "d = g + (12 - 1)" "4 * 2 ^ (g + (12 - 1)) < unat w" unfolding d_def by auto
    then show ?thesis by simp
  qed
  with w(1) have "unat w + (2 ^ d - 1) < 2 ^ LENGTH(64)" by simp
  then have u: "unat (sz_psz2u w) = nat_round_up (2 ^ d) (unat w)"
    unfolding s using dk by (intro unat_round_up) simp_all
  have "group_index 12 (unat w) \<le> 198"
    using assms(1) w(1) by (intro group_index_less) (simp_all add: max_class_sizes)
  then show ?thesis
    using u assms by (simp add: word_unat_eq_iff sz_psz2ind_eq unat_sz_pind2sz_compute
        group_size_index d_def)
qed

section \<open>Properties\<close>

text \<open>C20: the size class index and the class size form a Galois connection. For every request
  from one byte to the largest class, \<open>sz_size2index_compute\<close> is a valid index, it is at most
  \<open>i\<close> exactly when class \<open>i\<close> is large enough for the request, and on the sizes of the classes
  the two computations are inverse to each other.\<close>

theorem size2index_galois:
  assumes "0 < w" "w \<le> SC_LARGE_MAXCLASS" "i < SC_NSIZES"
  shows "sz_size2index_compute w < SC_NSIZES
    \<and> (sz_size2index_compute w \<le> i \<longleftrightarrow> w \<le> sz_index2size_compute i)
    \<and> sz_size2index_compute (sz_index2size_compute i) = i"
proof -
  have w: "0 < unat w" "unat w \<le> sz_ind2sz_nat (SC_NSIZES - 1)"
    using assms(1,2) by (simp_all only: le_LARGE_MAXCLASS le_top_class word_less_nat_alt unat_0)
  have "0 < sz_ind2sz_nat i"
    using szc.ind2sz_le_iff [OF szc.classes assms(3)] sz_ind2sz_nat_eq [OF szc.classes]
    by (simp add: class_size_small)
  from szc.galois [OF w assms(3)] szc.roundtrip [OF assms(3) this] szc.sz2ind_less [OF w]
  show ?thesis
    by (simp add: sz_size2index_compute_nat sz_ind2sz_nat_def word_le_nat_alt)
qed

theorem size2index_galois_witness:
  "sz_size2index_compute (100 :: size_t) < SC_NSIZES
    \<and> (sz_size2index_compute (100 :: size_t) \<le> 7 \<longleftrightarrow> (100 :: size_t) \<le> sz_index2size_compute 7)
    \<and> sz_size2index_compute (sz_index2size_compute 7) = 7"
proof (rule size2index_galois)
  show "(0 :: size_t) < 100" by simp
  show "(100 :: size_t) \<le> SC_LARGE_MAXCLASS" by (simp only: le_LARGE_MAXCLASS) simp
  show "7 < SC_NSIZES" by (simp add: sc_macro_values(1))
qed

text \<open>The same for the page size classes that the page allocator uses, and \<open>sz_psz2u\<close> is the
  size of the class that \<open>sz_psz2ind\<close> selects.\<close>

theorem psz2ind_galois:
  assumes "0 < w" "w \<le> SC_LARGE_MAXCLASS" "i < SC_NPSIZES"
  shows "sz_psz2ind w < SC_NPSIZES
    \<and> (sz_psz2ind w \<le> i \<longleftrightarrow> w \<le> sz_pind2sz_compute i)
    \<and> sz_psz2ind (sz_pind2sz_compute i) = i
    \<and> sz_psz2u w = sz_pind2sz_compute (sz_psz2ind w)"
proof -
  have w: "0 < unat w" "unat w \<le> psz_ind2sz_nat (SC_NPSIZES - 1)"
    using assms(1,2) by (simp_all only: le_LARGE_MAXCLASS le_top_class word_less_nat_alt unat_0)
  have "0 < psz_ind2sz_nat 0"
    by (simp add: psz_ind2sz_nat_def unat_sz_pind2sz_compute group_size_low)
  then have "0 < psz_ind2sz_nat i"
    using pszc.ind2sz_le_iff [OF pszc.classes assms(3)] by simp
  from pszc.galois [OF w assms(3)] pszc.roundtrip [OF assms(3) this] pszc.sz2ind_less [OF w]
    sz_psz2u_eq [OF w(1) assms(2)]
  show ?thesis
    by (simp add: psz_sz2ind_nat_def psz_ind2sz_nat_def word_le_nat_alt)
qed

theorem psz2ind_galois_witness:
  "sz_psz2ind (10000 :: size_t) < SC_NPSIZES
    \<and> (sz_psz2ind (10000 :: size_t) \<le> 2 \<longleftrightarrow> (10000 :: size_t) \<le> sz_pind2sz_compute 2)
    \<and> sz_psz2ind (sz_pind2sz_compute 2) = 2
    \<and> sz_psz2u (10000 :: size_t) = sz_pind2sz_compute (sz_psz2ind (10000 :: size_t))"
proof (rule psz2ind_galois)
  show "(0 :: size_t) < 10000" by simp
  show "(10000 :: size_t) \<le> SC_LARGE_MAXCLASS" by (simp only: le_LARGE_MAXCLASS) simp
  show "2 < SC_NPSIZES" by (simp add: sc_macro_values(2))
qed

text \<open>C25: booting the size tables from the size class data that \<open>sc_data_init\<close> builds stays
  inside the three arrays, and afterwards the lookups return what the computations return: for
  every page size index, for every size index, and for every request, whatever path
  \<open>sz_size2index\<close> and \<open>sz_s2u\<close> take.\<close>

theorem sz_boot_tables:
  "\<exists>d t. sc_data_init sc_data_global = Some d \<and> sz_boot d sz_tabs_zero = Some t
    \<and> (\<forall>i\<in>{..SC_NPSIZES}. sz_pind2sz t i = Some (sz_pind2sz_compute i))
    \<and> (\<forall>i\<in>{..<SC_NSIZES}. sz_index2size t i = Some (sz_index2size_compute i))
    \<and> (\<forall>w. sz_size2index t w = Some (sz_size2index_compute w))
    \<and> (\<forall>w. sz_s2u t w = Some (sz_s2u_compute w))"
proof -
  obtain t where t: "sz_boot sc_data_spec sz_tabs_zero = Some t" "tabs_ok t"
    using sz_boot_ok by auto
  show ?thesis
    by (intro exI [of _ sc_data_spec] exI [of _ t])
      (simp add: sc_data_init_eq t sz_pind2sz_ok sz_index2size_ok sz_size2index_ok sz_s2u_ok)
qed

theorem sz_boot_tables_witness:
  "\<exists>d t. sc_data_init sc_data_global = Some d \<and> sz_boot d sz_tabs_zero = Some t
    \<and> sz_pind2sz t 3 = Some (sz_pind2sz_compute 3) \<and> sz_index2size t 9 = Some (sz_index2size_compute 9)"
  using sz_boot_tables by (fastforce simp: sc_macro_values(1,2))

text \<open>\<open>sz_s2u_compute\<close>, which never looks at an index, returns the smallest class size that
  holds the request, and it returns the request itself exactly for the class sizes.\<close>

theorem s2u_least_class:
  assumes "0 < w" "w \<le> SC_LARGE_MAXCLASS"
  shows "w \<le> sz_s2u_compute w \<and> sz_s2u_compute w \<in> sz_index2size_compute ` {..<SC_NSIZES}
    \<and> (\<forall>i<SC_NSIZES. w \<le> sz_index2size_compute i \<longrightarrow> sz_s2u_compute w \<le> sz_index2size_compute i)"
proof -
  have w: "0 < unat w" "unat w \<le> sz_ind2sz_nat (SC_NSIZES - 1)"
    using assms by (simp_all only: le_LARGE_MAXCLASS le_top_class word_less_nat_alt unat_0)
  note n = szc.sz2ind_less [OF w]
  have e: "sz_s2u_compute w = sz_index2size_compute (sz_sz2ind_nat (unat w))"
    using assms by (simp add: sz_s2u_compute_eq sz_size2index_compute_nat)
  show ?thesis
    using n szc.covers [OF w] szc.usable_least [OF w]
    by (auto simp: e word_le_nat_alt sz_ind2sz_nat_def)
qed

theorem s2u_least_class_witness:
  "(5000 :: size_t) \<le> sz_s2u_compute 5000
    \<and> sz_s2u_compute 5000 \<in> sz_index2size_compute ` {..<SC_NSIZES}
    \<and> sz_s2u_compute 5000 \<le> sz_index2size_compute 29"
proof -
  have "(0 :: size_t) < 5000" by simp
  moreover have "(5000 :: size_t) \<le> SC_LARGE_MAXCLASS" by (simp only: le_LARGE_MAXCLASS) simp
  ultimately have "(5000 :: size_t) \<le> sz_s2u_compute 5000
    \<and> sz_s2u_compute 5000 \<in> sz_index2size_compute ` {..<SC_NSIZES}
    \<and> (\<forall>i<SC_NSIZES. (5000 :: size_t) \<le> sz_index2size_compute i
        \<longrightarrow> sz_s2u_compute 5000 \<le> sz_index2size_compute i)"
    by (rule s2u_least_class)
  moreover have "(5000 :: size_t) \<le> sz_index2size_compute 29"
    by (simp add: word_le_nat_alt unat_sz_index2size_compute class_size_group)
  ultimately show ?thesis by (simp add: sc_macro_values(1))
qed

text \<open>The two parts of \<open>sz_sa2u\<close>.\<close>

lemma unat_two_power: "a < 64 \<Longrightarrow> unat (2 ^ a :: size_t) = 2 ^ a"
  by (rule unat_pow2) simp

lemma nat_round_up_le_mono: "0 < d \<Longrightarrow> d dvd m \<Longrightarrow> s \<le> m \<Longrightarrow> nat_round_up d s \<le> m"
  by (rule nat_round_up_least)

lemma SMALL_MAXCLASS_unat: "w \<le> SC_SMALL_MAXCLASS \<longleftrightarrow> unat w \<le> 7 * 2 ^ 11"
proof -
  have c: "class_size 35 = 7 * 2 ^ 11" by (simp add: class_size_group)
  have "unat (of_nat (class_size 35) :: size_t) = class_size 35"
    by (intro unat_of_nat_eq) (simp add: class_size_group)
  then show ?thesis by (simp only: word_le_nat_alt sc_macro_values(8) c)
qed

lemma sz_sa2u_small:
  assumes "tabs_ok t" "0 < w" "w \<le> SC_SMALL_MAXCLASS" "a < 12"
  shows "\<exists>u. sz_sa2u t w (2 ^ a) = Some u \<and> w \<le> u \<and> u \<le> SC_SMALL_MAXCLASS \<and> 2 ^ a dvd unat u
    \<and> u \<in> sz_index2size_compute ` {..<SC_NSIZES}"
proof -
  let ?s = "ALIGNMENT_CEILING w (2 ^ a)"
  let ?u = "sz_s2u_compute ?s"
  have w: "0 < unat w" "unat w \<le> 7 * 2 ^ 11"
    using assms(2,3) by (simp_all only: SMALL_MAXCLASS_unat word_less_nat_alt unat_0)
  have a: "(2::nat) ^ a \<le> 2 ^ 11" "(2::nat) ^ a dvd 7 * 2 ^ 11"
    using assms(4) by (intro power_increasing dvd_mult le_imp_power_dvd; simp)+
  have s: "unat ?s = nat_round_up (2 ^ a) (unat w)"
    using assms(4) w a by (intro unat_ALIGNMENT_CEILING) simp_all
  have sw: "unat w \<le> unat ?s" unfolding s by (rule nat_round_up_ge) simp
  have sm: "unat ?s \<le> 7 * 2 ^ 11"
    unfolding s using w a by (intro nat_round_up_least) simp_all
  have sd: "2 ^ a dvd unat ?s" unfolding s by simp
  have s0: "0 < unat ?s" "unat ?s \<le> 7 * 2 ^ 60" using w sw sm by simp_all
  then have sl: "?s \<le> SC_LARGE_MAXCLASS" by (simp only: le_LARGE_MAXCLASS)
  have top: "unat ?s \<le> sz_ind2sz_nat (SC_NSIZES - 1)" using s0 by (simp only: le_top_class)
  note n = szc.sz2ind_less [OF s0(1) top]
  have u: "unat ?u = class_size (sz_sz2ind_nat (unat ?s))"
    using unat_sz_s2u_compute [OF sl] by (simp add: sz_sz2ind_nat_def)
  have c35: "sz_ind2sz_nat 35 = 7 * 2 ^ 11"
    by (simp add: sz_ind2sz_nat_eq sc_macro_values(1) class_size_group)
  have "unat ?u \<le> 7 * 2 ^ 11"
    using szc.usable_least [OF s0(1) top, of 35] sm n
    by (simp add: u c35 sz_ind2sz_nat_eq sc_macro_values(1))
  then have us: "?u \<le> SC_SMALL_MAXCLASS" by (simp only: SMALL_MAXCLASS_unat)
  have "?u < SC_LARGE_MINCLASS"
    using \<open>unat ?u \<le> _\<close> by (simp add: word_less_nat_alt sc_macro_values(10))
  moreover have "(2 ^ a :: size_t) < PAGE"
    using a assms(4) by (simp add: word_less_nat_alt PAGE_def LG_PAGE_def unat_two_power)
  ultimately have r: "sz_sa2u t w (2 ^ a) = Some ?u"
    using assms(1,3) by (simp add: sz_sa2u_def sz_s2u_ok)
  have "unat w \<le> unat ?u"
    using szc.covers [OF s0(1) top] sw n by (simp add: u sz_ind2sz_nat_eq)
  then have "w \<le> ?u" by (simp only: word_le_nat_alt)
  moreover have "2 ^ a dvd unat ?u" unfolding u by (rule class_size_aligned [OF s0 sd])
  moreover have "?u \<in> sz_index2size_compute ` {..<SC_NSIZES}"
    using sl n by (auto simp: sz_s2u_compute_eq sz_size2index_compute_nat)
  ultimately show ?thesis using r us by blast
qed

lemma le_LARGE_pow2: "a < 64 \<Longrightarrow> (2 ^ a :: size_t) \<le> SC_LARGE_MAXCLASS \<longleftrightarrow> a < 63"
proof -
  assume a: "a < 64"
  have "(2::nat) ^ a \<le> 7 * 2 ^ 60 \<longleftrightarrow> a < 63"
  proof (cases "a < 63")
    case True
    then have "(2::nat) ^ a \<le> 2 ^ 62" by (intro power_increasing) simp_all
    with True show ?thesis by simp
  next
    case False
    with a have "a = 63" by simp
    then show ?thesis by simp
  qed
  with a show ?thesis by (simp only: le_LARGE_MAXCLASS unat_two_power)
qed

text \<open>The padded, aligned allocation of \<open>usize\<close> does not wrap: the last check of \<open>sz_sa2u\<close> never
  fires for a power of two that passed the first one.\<close>

lemma sa2u_no_wrap:
  assumes "a < 63" "unat u \<le> 7 * 2 ^ 60"
  shows "unat u + unat (PAGE_CEILING (2 ^ a)) < 2 ^ 64"
    "u \<le> u + sz_large_pad + PAGE_CEILING (2 ^ a) - PAGE"
proof -
  have p: "(2::nat) ^ a \<le> 2 ^ 62" using assms(1) by (intro power_increasing) simp_all
  have c: "unat (PAGE_CEILING (2 ^ a)) = nat_round_up 4096 (2 ^ a)"
    using assms(1) p by (subst unat_PAGE_CEILING) (simp_all add: unat_two_power)
  have "nat_round_up 4096 (2 ^ a) \<le> 2 ^ 62" using p by (intro nat_round_up_least) simp_all
  with c have l: "unat (PAGE_CEILING (2 ^ a)) \<le> 2 ^ 62" by simp
  with assms(2) show "unat u + unat (PAGE_CEILING (2 ^ a)) < 2 ^ 64" by simp
  then have "u \<le> u + PAGE_CEILING (2 ^ a)" by (simp add: word_le_nat_alt unat_add_eq)
  then show "u \<le> u + sz_large_pad + PAGE_CEILING (2 ^ a) - PAGE"
    by (simp add: sz_large_pad_def)
qed

lemma sz_sa2u_large_ok:
  assumes "tabs_ok t" "0 < w" "a < 64"
  shows "\<exists>u. sz_sa2u_large t w (2 ^ a) = Some u
    \<and> (u = 0 \<longleftrightarrow> w > SC_LARGE_MAXCLASS \<or> 2 ^ a > SC_LARGE_MAXCLASS)
    \<and> (u \<noteq> 0 \<longrightarrow> w \<le> u \<and> SC_LARGE_MINCLASS \<le> u \<and> 4096 dvd unat u
        \<and> u \<in> sz_index2size_compute ` {..<SC_NSIZES}
        \<and> unat u + unat (PAGE_CEILING (2 ^ a)) < 2 ^ 64)"
proof -
  have min: "unat SC_LARGE_MINCLASS = 16384" by (simp add: sc_macro_values(10))
  have minc: "SC_LARGE_MINCLASS = sz_index2size_compute 36"
    by (simp add: sz_index2size_compute_eq class_size_group sc_macro_values(10))
  have nz: "SC_LARGE_MINCLASS \<noteq> 0" using min by auto
  consider (al) "\<not> a < 63" | (low) "a < 63" "w \<le> SC_LARGE_MINCLASS"
    | (ok) "a < 63" "\<not> w \<le> SC_LARGE_MINCLASS" "w \<le> SC_LARGE_MAXCLASS"
    | (big) "a < 63" "\<not> w \<le> SC_LARGE_MINCLASS" "\<not> w \<le> SC_LARGE_MAXCLASS" by blast
  then show ?thesis
  proof cases
    case al
    then show ?thesis using le_LARGE_pow2 [OF assms(3)]
      by (simp only: sz_sa2u_large_def not_le_LARGE_MAXCLASS simp_thms if_True) simp
  next
    case low
    note nw = sa2u_no_wrap [OF low(1), of SC_LARGE_MINCLASS]
    have "w \<le> SC_LARGE_MAXCLASS"
      unfolding le_LARGE_MAXCLASS using low(2) min by (simp add: word_le_nat_alt)
    moreover have "sz_sa2u_large t w (2 ^ a) = Some SC_LARGE_MINCLASS"
      using low le_LARGE_pow2 [OF assms(3)] nw(2) min
      by (auto simp: sz_sa2u_large_def not_le_LARGE_MAXCLASS dest: leD)
    ultimately show ?thesis
      using low nw(1) min minc nz le_LARGE_pow2 [OF assms(3)]
      by (auto simp: sc_macro_values(1) not_less)
  next
    case ok
    let ?u = "sz_s2u_compute w"
    have w: "0 < unat w" "unat w \<le> 7 * 2 ^ 60" "unat w \<le> sz_ind2sz_nat (SC_NSIZES - 1)"
      using assms(2) ok(3) by (simp_all only: le_LARGE_MAXCLASS le_top_class word_less_nat_alt unat_0)
    note n = szc.sz2ind_less [OF w(1,3)]
    have u: "unat ?u = class_size (sz_sz2ind_nat (unat w))"
      using unat_sz_s2u_compute [OF ok(3)] by (simp add: sz_sz2ind_nat_def)
    have wu: "unat w \<le> unat ?u" using szc.covers [OF w(1,3)] n by (simp add: u sz_ind2sz_nat_eq)
    then have wu': "w \<le> ?u" by (simp only: word_le_nat_alt)
    have um: "unat ?u \<le> 7 * 2 ^ 60"
      using n class_size_le_iff [of "sz_sz2ind_nat (unat w)" 231]
      by (simp add: u sc_macro_values(1) max_class_sizes)
    have "16384 < unat w" using ok(2) min by (simp add: word_le_nat_alt)
    with wu have "?u \<noteq> 0" by (intro notI) simp
    with \<open>16384 < unat w\<close> have pg: "4096 dvd unat ?u" "SC_LARGE_MINCLASS \<le> ?u" "?u \<noteq> 0"
      using wu class_size_page [of "sz_sz2ind_nat (unat w)"]
      by (auto simp: u word_le_nat_alt min)
    note nw = sa2u_no_wrap [OF ok(1) um]
    have "sz_sa2u_large t w (2 ^ a) = Some ?u"
      using ok assms(1) le_LARGE_pow2 [OF assms(3)] nw(2) wu'
      by (auto simp: sz_sa2u_large_def sz_s2u_ok dest: leD)
    moreover have "?u \<in> sz_index2size_compute ` {..<SC_NSIZES}"
      using ok(3) n by (auto simp: sz_s2u_compute_eq sz_size2index_compute_nat)
    ultimately show ?thesis
      using ok pg wu' nw(1) le_LARGE_pow2 [OF assms(3)] by (auto simp: not_less)
  next
    case big
    then have "sz_s2u_compute w = 0" by (simp add: sz_s2u_compute_def not_le)
    with big assms(1,2) le_LARGE_pow2 [OF assms(3)] show ?thesis
      by (simp add: sz_sa2u_large_def not_le_LARGE_MAXCLASS sz_s2u_ok)
  qed
qed

text \<open>C24: the usable size of an aligned allocation. With booted tables, a positive request and a
  power of two as alignment, \<open>sz_sa2u\<close> reports an error (0) exactly when the request or the
  alignment exceeds the largest class. Otherwise it returns a size class that holds the request
  and that is either a small class whose size is a multiple of the alignment, so that every
  region of a slab is aligned, or a large class, a multiple of the page, whose padded and
  aligned extent does not overflow the address space.\<close>

theorem sa2u_correct:
  assumes "sc_data_init sc_data_global = Some d" "sz_boot d sz_tabs_zero = Some t"
    and "0 < w" "a < 64"
  shows "\<exists>u. sz_sa2u t w (2 ^ a) = Some u
    \<and> (u = 0 \<longleftrightarrow> w > SC_LARGE_MAXCLASS \<or> 2 ^ a > SC_LARGE_MAXCLASS)
    \<and> (u \<noteq> 0 \<longrightarrow> w \<le> u \<and> u \<in> sz_index2size_compute ` {..<SC_NSIZES}
        \<and> (u \<le> SC_SMALL_MAXCLASS \<and> 2 ^ a dvd unat u
            \<or> SC_LARGE_MINCLASS \<le> u \<and> 4096 dvd unat u
              \<and> unat u + unat (PAGE_CEILING (2 ^ a)) < 2 ^ 64))"
proof -
  have t: "tabs_ok t" using assms(1,2) sz_boot_ok by (auto simp: sc_data_init_eq)
  show ?thesis
  proof (cases "w \<le> SC_SMALL_MAXCLASS \<and> a < 12")
    case True
    then obtain u where u: "sz_sa2u t w (2 ^ a) = Some u" "w \<le> u" "u \<le> SC_SMALL_MAXCLASS"
      "2 ^ a dvd unat u" "u \<in> sz_index2size_compute ` {..<SC_NSIZES}"
      using sz_sa2u_small [OF t assms(3), of a] by blast
    have "unat w \<le> 7 * 2 ^ 11" using True by (simp only: SMALL_MAXCLASS_unat)
    then have "w \<le> SC_LARGE_MAXCLASS" unfolding le_LARGE_MAXCLASS by simp
    moreover have "(2 ^ a :: size_t) \<le> SC_LARGE_MAXCLASS" using True le_LARGE_pow2 [OF assms(4)] by simp
    moreover have "u \<noteq> 0" using assms(3) u(2) by auto
    ultimately show ?thesis using u by (auto simp: not_less)
  next
    case False
    have "(2 ^ a :: size_t) < PAGE \<longleftrightarrow> a < 12"
      using assms(4) power_strict_increasing_iff [of "2::nat" a 12]
      by (simp add: word_less_nat_alt PAGE_def LG_PAGE_def unat_two_power del: power_strict_increasing_iff)
    with False have "sz_sa2u t w (2 ^ a) = sz_sa2u_large t w (2 ^ a)"
      by (auto simp: sz_sa2u_def)
    with sz_sa2u_large_ok [OF t assms(3,4)] show ?thesis by metis
  qed
qed

theorem sa2u_correct_witness:
  "\<exists>d t u. sc_data_init sc_data_global = Some d \<and> sz_boot d sz_tabs_zero = Some t
    \<and> sz_sa2u t 100 (2 ^ 6) = Some u
    \<and> (u = 0 \<longleftrightarrow> (100 :: size_t) > SC_LARGE_MAXCLASS \<or> (2 ^ 6 :: size_t) > SC_LARGE_MAXCLASS)"
proof -
  obtain t where t: "sz_boot sc_data_spec sz_tabs_zero = Some t" using sz_boot_ok by auto
  have "(0 :: size_t) < 100" "(6 :: nat) < 64" by simp_all
  from sa2u_correct [OF sc_data_init_eq t this] t sc_data_init_eq show ?thesis by blast
qed

end
