(* ===== verification/Bitmap.thy ===== *)
theory Bitmap
  imports Size_Classes
begin

text \<open>
  include/jemalloc/internal/bitmap.h and src/bitmap.c, the flat variant: an array of 64-bit
  groups in which a one means that the logical bit is unset. What the clients of a bitmap rely
  on is the locale \<open>bitset\<close>; the operations are an interpretation of it. Bit numbers, which
  never exceed \<open>BITMAP_MAXBITS\<close>, are natural numbers; an access outside the array is \<open>None\<close>.
\<close>

section \<open>The operations\<close>

definition LG_SIZEOF_BITMAP :: nat where "LG_SIZEOF_BITMAP = 3"
definition LG_BITMAP_GROUP_NBITS :: nat where "LG_BITMAP_GROUP_NBITS = LG_SIZEOF_BITMAP + 3"
definition BITMAP_GROUP_NBITS :: nat where "BITMAP_GROUP_NBITS = 2 ^ LG_BITMAP_GROUP_NBITS"
definition BITMAP_GROUP_NBITS_MASK :: nat where
  "BITMAP_GROUP_NBITS_MASK = BITMAP_GROUP_NBITS - 1"

definition BITMAP_BITS2GROUPS :: "nat \<Rightarrow> nat" where
  "BITMAP_BITS2GROUPS nbits = drop_bit LG_BITMAP_GROUP_NBITS (nbits + BITMAP_GROUP_NBITS_MASK)"

type_synonym bitmap = "64 word list"

record bitmap_info =
  bi_nbits :: nat
  bi_ngroups :: nat

definition bitmap_info_init :: "nat \<Rightarrow> bitmap_info" where
  "bitmap_info_init nbits = \<lparr>bi_nbits = nbits, bi_ngroups = BITMAP_BITS2GROUPS nbits\<rparr>"

definition bitmap_info_ngroups :: "bitmap_info \<Rightarrow> nat" where
  "bitmap_info_ngroups binfo = bi_ngroups binfo"

definition bitmap_size :: "bitmap_info \<Rightarrow> nat" where
  "bitmap_size binfo = push_bit LG_SIZEOF_BITMAP (bitmap_info_ngroups binfo)"

text \<open>\<open>memset\<close> over the first \<open>sz\<close> bytes, a whole number of groups.\<close>

definition memset_groups :: "bitmap \<Rightarrow> 64 word \<Rightarrow> nat \<Rightarrow> bitmap option" where
  "memset_groups bitmap w sz =
     (let n = drop_bit LG_SIZEOF_BITMAP sz
      in if n \<le> length bitmap then Some (replicate n w @ drop n bitmap) else None)"

definition bitmap_init :: "bitmap \<Rightarrow> bitmap_info \<Rightarrow> bool \<Rightarrow> bitmap option" where
  "bitmap_init bitmap binfo fill =
     (if fill then memset_groups bitmap 0 (bitmap_size binfo)
      else
        Option.bind (memset_groups bitmap (- 1) (bitmap_size binfo)) (\<lambda>bitmap.
          let extra = (BITMAP_GROUP_NBITS - (bi_nbits binfo AND BITMAP_GROUP_NBITS_MASK))
                        AND BITMAP_GROUP_NBITS_MASK
          in if extra \<noteq> 0 then
               Option.bind (read_at bitmap (bi_ngroups binfo - 1)) (\<lambda>g.
                 write_at bitmap (bi_ngroups binfo - 1) (drop_bit extra g))
             else Some bitmap))"

text \<open>The loop of \<open>bitmap_full\<close> from group \<open>i\<close> on, with \<open>n\<close> groups left.\<close>

fun bitmap_full_loop :: "bitmap \<Rightarrow> nat \<Rightarrow> nat \<Rightarrow> bool option" where
  "bitmap_full_loop bitmap i 0 = Some True"
| "bitmap_full_loop bitmap i (Suc n) =
     Option.bind (read_at bitmap i) (\<lambda>g.
       if g \<noteq> 0 then Some False else bitmap_full_loop bitmap (i + 1) n)"

definition bitmap_full :: "bitmap \<Rightarrow> bitmap_info \<Rightarrow> bool option" where
  "bitmap_full bitmap binfo = bitmap_full_loop bitmap 0 (bi_ngroups binfo)"

definition group_bit :: "nat \<Rightarrow> 64 word" where
  "group_bit b = push_bit (b AND BITMAP_GROUP_NBITS_MASK) 1"

definition bitmap_get :: "bitmap \<Rightarrow> bitmap_info \<Rightarrow> nat \<Rightarrow> bool option" where
  "bitmap_get bitmap binfo b =
     (let goff = drop_bit LG_BITMAP_GROUP_NBITS b
      in map_option (\<lambda>g. g AND group_bit b = 0) (read_at bitmap goff))"

definition bitmap_set :: "bitmap \<Rightarrow> bitmap_info \<Rightarrow> nat \<Rightarrow> bitmap option" where
  "bitmap_set bitmap binfo b =
     (let goff = drop_bit LG_BITMAP_GROUP_NBITS b
      in Option.bind (read_at bitmap goff) (\<lambda>g. write_at bitmap goff (g XOR group_bit b)))"

definition bitmap_unset :: "bitmap \<Rightarrow> bitmap_info \<Rightarrow> nat \<Rightarrow> bitmap option" where
  "bitmap_unset bitmap binfo b =
     (let goff = drop_bit LG_BITMAP_GROUP_NBITS b
      in Option.bind (read_at bitmap goff) (\<lambda>g. write_at bitmap goff (g XOR group_bit b)))"

text \<open>
  The loop of \<open>bitmap_ffu\<close>: the next group is read before its number is compared with
  \<open>ngroups\<close>.
\<close>

function bitmap_ffu_loop :: "bitmap \<Rightarrow> bitmap_info \<Rightarrow> nat \<Rightarrow> 64 word \<Rightarrow> nat option" where
  "bitmap_ffu_loop bitmap binfo i g =
     (let b = ffs_lu g
      in if b \<noteq> 0 then Some (push_bit LG_BITMAP_GROUP_NBITS i + (b - 1))
         else Option.bind (read_at bitmap (i + 1)) (\<lambda>g.
                if i + 1 < bi_ngroups binfo then bitmap_ffu_loop bitmap binfo (i + 1) g
                else Some (bi_nbits binfo)))"
  by pat_completeness auto
termination
  by (relation "measure (\<lambda>(_, binfo, i, _). bi_ngroups binfo - i)") auto

declare bitmap_ffu_loop.simps [simp del]

definition bitmap_ffu :: "bitmap \<Rightarrow> bitmap_info \<Rightarrow> nat \<Rightarrow> nat option" where
  "bitmap_ffu bitmap binfo min_bit =
     (let i = drop_bit LG_BITMAP_GROUP_NBITS min_bit
      in Option.bind (read_at bitmap i) (\<lambda>g.
           bitmap_ffu_loop bitmap binfo i (g AND NOT (group_bit min_bit - 1))))"

text \<open>
  The loop of \<open>bitmap_sfu\<close> has no bound of its own: it stops at the first group that is not
  zero, or leaves the array.
\<close>

function bitmap_sfu_loop :: "bitmap \<Rightarrow> nat \<Rightarrow> 64 word \<Rightarrow> (nat \<times> nat) option" where
  "bitmap_sfu_loop bitmap i g =
     (let b = ffs_lu g
      in if b = 0 then Option.bind (read_at bitmap (i + 1)) (bitmap_sfu_loop bitmap (i + 1))
         else Some (i, b))"
  by pat_completeness auto
termination
  by (relation "measure (\<lambda>(bitmap, i, _). length bitmap - i)")
    (auto simp: read_at_eq_Some_iff)

declare bitmap_sfu_loop.simps [simp del]

definition bitmap_sfu :: "bitmap \<Rightarrow> bitmap_info \<Rightarrow> (nat \<times> bitmap) option" where
  "bitmap_sfu bitmap binfo =
     Option.bind (read_at bitmap 0) (\<lambda>g.
     Option.bind (bitmap_sfu_loop bitmap 0 g) (\<lambda>(i, b).
       let b = push_bit LG_BITMAP_GROUP_NBITS i + (b - 1)
       in map_option (\<lambda>bitmap. (b, bitmap)) (bitmap_set bitmap binfo b)))"

lemmas bitmap_config_defs = LG_SIZEOF_BITMAP_def LG_BITMAP_GROUP_NBITS_def BITMAP_GROUP_NBITS_def
  BITMAP_GROUP_NBITS_MASK_def BITMAP_BITS2GROUPS_def

section \<open>Bits of the array\<close>

text \<open>\<open>bm_bit bitmap b\<close>: the bit that stands for \<open>b\<close> is a one, so \<open>b\<close> is unset.\<close>

definition bm_bit :: "bitmap \<Rightarrow> nat \<Rightarrow> bool" where
  "bm_bit bm b \<longleftrightarrow> b div 64 < length bm \<and> bit (bm ! (b div 64)) (b mod 64)"

lemma drop_bit_group [simp]: "drop_bit LG_BITMAP_GROUP_NBITS b = b div 64" for b :: nat
  by (simp add: bitmap_config_defs drop_bit_eq_div)

lemma push_bit_group [simp]: "push_bit LG_BITMAP_GROUP_NBITS b = 64 * b" for b :: nat
  by (simp add: bitmap_config_defs push_bit_eq_mult)

lemma nat_and_63: "(b :: nat) AND 63 = b mod 64"
proof -
  have "b AND 63 = take_bit 6 b" using take_bit_eq_mask [of 6 b] by (simp add: mask_eq_exp_minus_1)
  then show ?thesis by (simp add: take_bit_eq_mod)
qed

lemma group_bit_eq: "group_bit b = push_bit (b mod 64) 1"
  by (simp add: group_bit_def bitmap_config_defs nat_and_63)

lemma bit_group_bit [simp]: "bit (group_bit b) k \<longleftrightarrow> k = b mod 64"
  by (auto simp: group_bit_eq bit_simps)

lemma and_group_bit_eq_0: "w AND group_bit b = 0 \<longleftrightarrow> \<not> bit w (b mod 64)"
  by (simp add: group_bit_eq and_exp_eq_0_iff_not_bit)

lemma BITMAP_BITS2GROUPS_eq: "BITMAP_BITS2GROUPS n = (n + 63) div 64"
  by (simp add: bitmap_config_defs drop_bit_eq_div)

lemma groups_bounds: "n \<le> 64 * BITMAP_BITS2GROUPS n" "64 * BITMAP_BITS2GROUPS n < n + 64"
  unfolding BITMAP_BITS2GROUPS_eq by linarith+

lemma bitmap_get_eq: "b div 64 < length bm \<Longrightarrow> bitmap_get bm bi b = Some (\<not> bm_bit bm b)"
  by (simp add: bitmap_get_def bm_bit_def and_group_bit_eq_0)

text \<open>Toggling one bit of the array.\<close>

definition bm_toggle :: "bitmap \<Rightarrow> nat \<Rightarrow> bitmap" where
  "bm_toggle bm b = bm[b div 64 := bm ! (b div 64) XOR group_bit b]"

lemma length_bm_toggle [simp]: "length (bm_toggle bm b) = length bm"
  by (simp add: bm_toggle_def)

lemma bm_bit_toggle:
  "b div 64 < length bm \<Longrightarrow> bm_bit (bm_toggle bm b) c \<longleftrightarrow> (if c = b then \<not> bm_bit bm b else bm_bit bm c)"
proof (cases "c div 64 = b div 64")
  case True
  assume b: "b div 64 < length bm"
  have "c mod 64 = b mod 64 \<longleftrightarrow> c = b" using True by (metis div_mult_mod_eq)
  then show ?thesis
    using b True by (auto simp: bm_bit_def bm_toggle_def bit_simps)
next
  case False
  assume "b div 64 < length bm"
  with False show ?thesis by (auto simp: bm_bit_def bm_toggle_def nth_list_update)
qed

lemma bitmap_set_eq: "b div 64 < length bm \<Longrightarrow> bitmap_set bm bi b = Some (bm_toggle bm b)"
  by (simp add: bitmap_set_def bm_toggle_def Let_def)

lemma bitmap_unset_eq: "b div 64 < length bm \<Longrightarrow> bitmap_unset bm bi b = Some (bm_toggle bm b)"
  by (simp add: bitmap_unset_def bm_toggle_def Let_def)

text \<open>The first one at or after a position.\<close>

definition first_one :: "bitmap \<Rightarrow> nat \<Rightarrow> nat \<Rightarrow> bool" where
  "first_one bm m b \<longleftrightarrow> m \<le> b \<and> bm_bit bm b \<and> (\<forall>j. m \<le> j \<longrightarrow> j < b \<longrightarrow> \<not> bm_bit bm j)"

lemma first_one_unique: "first_one bm m b \<Longrightarrow> first_one bm m c \<Longrightarrow> b = c"
  unfolding first_one_def by (metis linorder_neqE_nat)

lemma bit_index: "k < 64 \<Longrightarrow> (64 * i + k) div 64 = i \<and> (64 * i + k) mod 64 = (k :: nat)"
  by simp

lemma ones_of_group:
  fixes g :: "64 word"
  assumes "\<And>k. bit g k \<longleftrightarrow> k < 64 \<and> m \<le> 64 * i + k \<and> bm_bit bm (64 * i + k)"
    and "b div 64 = i" "m \<le> b"
  shows "bit g (b mod 64) \<longleftrightarrow> bm_bit bm b"
  using assms(1) [of "b mod 64"] assms(2,3) by auto

lemma group_first_one:
  fixes g :: "64 word"
  assumes g: "\<And>k. bit g k \<longleftrightarrow> k < 64 \<and> m \<le> 64 * i + k \<and> bm_bit bm (64 * i + k)"
    and lo: "\<And>j. m \<le> j \<Longrightarrow> j < 64 * i \<Longrightarrow> \<not> bm_bit bm j"
    and b: "ffs_lu g = Suc k"
  shows "k < 64" "first_one bm m (64 * i + k)"
proof -
  have k: "bit g k" "\<And>j. j < k \<Longrightarrow> \<not> bit g j"
    using b by (auto simp: ffs_lu_def builtin_ffs_eq_Suc_iff)
  then show "k < 64" using g by blast
  have "\<not> bm_bit bm j" if j: "m \<le> j" "j < 64 * i + k" for j
  proof (cases "j < 64 * i")
    case False
    then have e: "j = 64 * i + (j - 64 * i)" by simp
    have "j - 64 * i < k" using False j by simp
    with k(2) g [of "j - 64 * i"] e j \<open>k < 64\<close> show ?thesis by auto
  qed (use lo j in blast)
  with k(1) g [of k] show "first_one bm m (64 * i + k)" by (auto simp: first_one_def)
qed

lemma group_no_one:
  fixes g :: "64 word"
  assumes g: "\<And>k. bit g k \<longleftrightarrow> k < 64 \<and> m \<le> 64 * i + k \<and> bm_bit bm (64 * i + k)"
    and lo: "\<And>j. m \<le> j \<Longrightarrow> j < 64 * i \<Longrightarrow> \<not> bm_bit bm j"
    and b: "ffs_lu g = 0" and j: "m \<le> j" "j < 64 * (i + 1)"
  shows "\<not> bm_bit bm j"
proof (cases "j < 64 * i")
  case False
  then have "j div 64 = i" using j by (intro div_nat_eqI) simp_all
  from ones_of_group [OF g this j(1)] b show ?thesis by (simp add: ffs_lu_def)
qed (use lo j in blast)

lemma bit_nth_group: "i < length bm \<Longrightarrow> m \<le> 64 * i \<Longrightarrow>
    bit (bm ! i) k \<longleftrightarrow> k < 64 \<and> m \<le> 64 * i + k \<and> bm_bit bm (64 * i + k)"
  using bit_imp_le_length [of "bm ! i" k] by (cases "k < 64") (auto simp: bm_bit_def)

lemma bitmap_ffu_loop_spec:
  assumes "bi_ngroups bi \<le> length bm" "i < bi_ngroups bi" "m < 64 * (i + 1)"
    and "\<And>k. bit g k \<longleftrightarrow> k < 64 \<and> m \<le> 64 * i + k \<and> bm_bit bm (64 * i + k)"
    and "\<And>j. m \<le> j \<Longrightarrow> j < 64 * i \<Longrightarrow> \<not> bm_bit bm j"
  shows "(\<exists>b<64 * bi_ngroups bi. first_one bm m b \<and> bitmap_ffu_loop bm bi i g = Some b)
    \<or> (\<forall>j. m \<le> j \<longrightarrow> j < 64 * bi_ngroups bi \<longrightarrow> \<not> bm_bit bm j) \<and> bitmap_ffu_loop bm bi i g
        = (if bi_ngroups bi < length bm then Some (bi_nbits bi) else None)"
  using assms
proof (induction bm bi i g rule: bitmap_ffu_loop.induct)
  case (1 bm bi i g)
  show ?case
  proof (cases "ffs_lu g")
    case 0
    note no = group_no_one [OF "1.prems"(4,5) 0]
    show ?thesis
    proof (cases "i + 1 < bi_ngroups bi")
      case True
      then have l: "i + 1 < length bm" using "1.prems"(1) by simp
      have r: "read_at bm (i + 1) = Some (bm ! (i + 1))" using l by simp
      have s: "bitmap_ffu_loop bm bi i g = bitmap_ffu_loop bm bi (i + 1) (bm ! (i + 1))"
        using 0 True r by (subst bitmap_ffu_loop.simps) simp
      have g': "bit (bm ! (i + 1)) k \<longleftrightarrow> k < 64 \<and> m \<le> 64 * (i + 1) + k \<and> bm_bit bm (64 * (i + 1) + k)" for k
        using bit_nth_group [OF l, of m k] "1.prems"(3) by simp
      show ?thesis
        unfolding s using "1.IH" [OF refl _ r True "1.prems"(1) True _ g' no] 0 "1.prems"(3) by simp
    next
      case False
      then have e: "i + 1 = bi_ngroups bi" using "1.prems"(2) by simp
      have "bitmap_ffu_loop bm bi i g = (if bi_ngroups bi < length bm then Some (bi_nbits bi) else None)"
        using 0 False e by (subst bitmap_ffu_loop.simps) (auto simp: read_at_def)
      then show ?thesis using no e by simp
    qed
  next
    case (Suc k)
    note f = group_first_one [OF "1.prems"(4,5) Suc]
    have "bitmap_ffu_loop bm bi i g = Some (64 * i + k)"
      using Suc by (subst bitmap_ffu_loop.simps) simp
    moreover have "64 * i + k < 64 * bi_ngroups bi" using f(1) "1.prems"(2) by linarith
    ultimately show ?thesis using f(2) by blast
  qed
qed

text \<open>The search of \<open>bitmap_sfu\<close> finds the first one of the whole array.\<close>

lemma bitmap_sfu_loop_spec:
  assumes "i < length bm" "bm_bit bm b" "\<And>j. j < 64 * i \<Longrightarrow> \<not> bm_bit bm j" "g = bm ! i"
  shows "\<exists>i' k. bitmap_sfu_loop bm i g = Some (i', Suc k) \<and> k < 64 \<and> first_one bm 0 (64 * i' + k)"
  using assms
proof (induction bm i g rule: bitmap_sfu_loop.induct)
  case (1 bm i g)
  have g: "bit g k \<longleftrightarrow> k < 64 \<and> 0 \<le> 64 * i + k \<and> bm_bit bm (64 * i + k)" for k
    using bit_nth_group [OF "1.prems"(1), of 0 k] "1.prems"(4) by simp
  show ?case
  proof (cases "ffs_lu g")
    case 0
    have no: "\<not> bm_bit bm j" if "j < 64 * (i + 1)" for j
      using group_no_one [OF g _ 0 _ that] "1.prems"(3) by blast
    then have "64 * (i + 1) \<le> b" using "1.prems"(2) not_less by blast
    then have "i + 1 \<le> b div 64" by (simp add: less_eq_div_iff_mult_less_eq mult.commute)
    then have l: "i + 1 < length bm" using "1.prems"(2) by (simp add: bm_bit_def)
    then have s: "bitmap_sfu_loop bm i g = bitmap_sfu_loop bm (i + 1) (bm ! (i + 1))"
      using 0 by (subst bitmap_sfu_loop.simps) simp
    show ?thesis
      unfolding s using "1.IH" [OF refl 0 _ l "1.prems"(2) no refl] l by simp
  next
    case (Suc k)
    from group_first_one [OF g _ Suc] "1.prems"(3)
    have "k < 64" "first_one bm 0 (64 * i + k)" by blast+
    moreover have "bitmap_sfu_loop bm i g = Some (i, Suc k)"
      using Suc by (subst bitmap_sfu_loop.simps) simp
    ultimately show ?thesis by blast
  qed
qed

lemma bitmap_sfu_eq:
  assumes "bm_bit bm c"
  shows "\<exists>b. first_one bm 0 b \<and> bitmap_sfu bm bi = Some (b, bm_toggle bm b)"
proof -
  have "0 < length bm" using assms by (auto simp: bm_bit_def)
  from bitmap_sfu_loop_spec [OF this assms _ refl] obtain i k where
    l: "bitmap_sfu_loop bm 0 (bm ! 0) = Some (i, Suc k)" "k < 64" "first_one bm 0 (64 * i + k)" by auto
  have "(64 * i + k) div 64 < length bm" using l(3) by (simp add: first_one_def bm_bit_def)
  then have "bitmap_sfu bm bi = Some (64 * i + k, bm_toggle bm (64 * i + k))"
    using l(1) \<open>0 < length bm\<close> by (simp add: bitmap_sfu_def bitmap_set_eq Let_def)
  with l(3) show ?thesis by blast
qed

lemma bitmap_full_loop_eq:
  "i + n \<le> length bm \<Longrightarrow> bitmap_full_loop bm i n = Some (\<forall>k\<in>{i..<i + n}. bm ! k = 0)"
proof (induction bm i n rule: bitmap_full_loop.induct)
  case (2 bm i n)
  have "{i..<i + Suc n} = insert i {i + 1..<i + 1 + n}" by auto
  with 2 show ?case by (cases "bm ! i = 0") auto
qed simp

lemma group_zero_iff: "k < length bm \<Longrightarrow> bm ! k = 0 \<longleftrightarrow> (\<forall>b. b div 64 = k \<longrightarrow> \<not> bm_bit bm b)"
proof
  assume k: "k < length bm" and z: "\<forall>b. b div 64 = k \<longrightarrow> \<not> bm_bit bm b"
  show "bm ! k = 0"
  proof (rule bit_word_eqI)
    fix j assume "j < LENGTH(64)"
    with z k show "bit (bm ! k) j = bit (0 :: 64 word) j"
      by (auto simp: bm_bit_def dest!: spec [of _ "64 * k + j"])
  qed
qed (auto simp: bm_bit_def)

section \<open>The contract of a bit set\<close>

text \<open>
  \<open>used s\<close> are the numbers below \<open>n\<close> that are set. Setting and unsetting are only allowed in
  turn: the code toggles. A client that allocates with \<open>sfu\<close> gets the first unset number.
\<close>

locale bitset =
  fixes inv :: "'s \<Rightarrow> bool" and used :: "'s \<Rightarrow> nat set" and n :: nat
    and get :: "'s \<Rightarrow> nat \<Rightarrow> bool option"
    and set unset :: "'s \<Rightarrow> nat \<Rightarrow> 's option"
    and full :: "'s \<Rightarrow> bool option"
    and sfu :: "'s \<Rightarrow> (nat \<times> 's) option"
    and ffu :: "'s \<Rightarrow> nat \<Rightarrow> nat option"
  assumes used_bound: "inv s \<Longrightarrow> used s \<subseteq> {..<n}"
    and get_used: "inv s \<Longrightarrow> b < n \<Longrightarrow> get s b = Some (b \<in> used s)"
    and set_used: "inv s \<Longrightarrow> b < n \<Longrightarrow> b \<notin> used s \<Longrightarrow>
      \<exists>s'. set s b = Some s' \<and> inv s' \<and> used s' = insert b (used s)"
    and unset_used: "inv s \<Longrightarrow> b \<in> used s \<Longrightarrow>
      \<exists>s'. unset s b = Some s' \<and> inv s' \<and> used s' = used s - {b}"
    and full_used: "inv s \<Longrightarrow> full s = Some (used s = {..<n})"
    and sfu_used: "inv s \<Longrightarrow> used s \<noteq> {..<n} \<Longrightarrow>
      \<exists>b s'. sfu s = Some (b, s') \<and> b < n \<and> b \<notin> used s \<and> {..<b} \<subseteq> used s
        \<and> inv s' \<and> used s' = insert b (used s)"
    and ffu_used: "inv s \<Longrightarrow> m \<le> b \<Longrightarrow> b < n \<Longrightarrow> b \<notin> used s \<Longrightarrow> {m..<b} \<subseteq> used s \<Longrightarrow> ffu s m = Some b"
begin

lemma finite_used: "inv s \<Longrightarrow> finite (used s)"
  by (rule finite_subset [OF used_bound finite_lessThan])

lemma card_used: "inv s \<Longrightarrow> card (used s) \<le> n"
  using card_mono [OF finite_lessThan used_bound] by simp

lemma full_iff_card: "inv s \<Longrightarrow> full s = Some (card (used s) = n)"
proof -
  assume s: "inv s"
  have "card (used s) = n \<longleftrightarrow> used s = {..<n}"
    by (metis card_lessThan card_subset_eq finite_lessThan s used_bound)
  then show ?thesis using full_used [OF s] by simp
qed

text \<open>With the number of unset bits as a counter, \<open>sfu\<close> may be called while it is positive.\<close>

lemma sfu_card:
  assumes "inv s" "card (used s) < n"
  shows "\<exists>b s'. sfu s = Some (b, s') \<and> b < n \<and> b \<notin> used s \<and> {..<b} \<subseteq> used s
    \<and> inv s' \<and> used s' = insert b (used s) \<and> card (used s') = Suc (card (used s))"
proof -
  have "used s \<noteq> {..<n}"
  proof
    assume "used s = {..<n}"
    then have "card (used s) = n" by simp
    with assms(2) show False by simp
  qed
  from sfu_used [OF assms(1) this] obtain b s' where b: "sfu s = Some (b, s')" "b < n" "b \<notin> used s"
    "{..<b} \<subseteq> used s" "inv s'" "used s' = insert b (used s)" by blast
  have "card (used s') = Suc (card (used s))"
    unfolding b(6) using finite_used [OF assms(1)] b(3) by simp
  with b show ?thesis by (intro exI conjI)
qed

lemma unset_card:
  assumes "inv s" "b \<in> used s"
  shows "\<exists>s'. unset s b = Some s' \<and> inv s' \<and> used s' = used s - {b}
    \<and> Suc (card (used s')) = card (used s)"
proof -
  have "Suc (card (used s - {b})) = card (used s)"
    using finite_used [OF assms(1)] assms(2) by (metis card_Suc_Diff1)
  then show ?thesis using unset_used [OF assms] by auto
qed

text \<open>Freeing the number just allocated and allocating again gives the same number.\<close>

lemma sfu_unset_sfu:
  assumes "inv s" "sfu s = Some (b, s')" "unset s' b = Some s''" "used s \<noteq> {..<n}"
  shows "\<exists>t. sfu s'' = Some (b, t) \<and> used t = used s'"
proof -
  from sfu_used [OF assms(1,4)] assms(2) have
    b: "b < n" "b \<notin> used s" "{..<b} \<subseteq> used s" "inv s'" "used s' = insert b (used s)" by auto
  then have u: "inv s''" "used s'' = used s" using unset_used [of s' b] assms(3) by auto
  then have "used s'' \<noteq> {..<n}" using assms(4) by simp
  from sfu_used [OF u(1) this] obtain c t where
    c: "sfu s'' = Some (c, t)" "c < n" "c \<notin> used s" "{..<c} \<subseteq> used s" "used t = insert c (used s)"
    using u(2) by auto
  have "c = b" using b c by (metis lessThan_iff linorder_neqE_nat subsetD)
  with c b show ?thesis by auto
qed

end

section \<open>The flat bitmap is a bit set\<close>

definition bitmap_inv :: "nat \<Rightarrow> bitmap \<Rightarrow> bool" where
  "bitmap_inv n bm \<longleftrightarrow> BITMAP_BITS2GROUPS n \<le> length bm
     \<and> (\<forall>b. n \<le> b \<longrightarrow> b < 64 * BITMAP_BITS2GROUPS n \<longrightarrow> \<not> bm_bit bm b)"

definition bitmap_used :: "nat \<Rightarrow> bitmap \<Rightarrow> nat set" where
  "bitmap_used n bm = {b. b < n \<and> \<not> bm_bit bm b}"

lemma bitmap_inv_index: "bitmap_inv n bm \<Longrightarrow> b < n \<Longrightarrow> b div 64 < length bm"
proof -
  assume "bitmap_inv n bm" "b < n"
  then have "b < 64 * length bm" using groups_bounds(1) [of n] by (auto simp: bitmap_inv_def)
  then show ?thesis by (intro less_mult_imp_div_less) (simp add: mult.commute)
qed

lemma bitmap_inv_toggle:
  assumes "bitmap_inv n bm" "b < n"
  shows "bitmap_inv n (bm_toggle bm b)"
    "bitmap_used n (bm_toggle bm b) =
      (if b \<in> bitmap_used n bm then bitmap_used n bm - {b} else insert b (bitmap_used n bm))"
  using assms bitmap_inv_index [OF assms]
  by (auto simp: bitmap_inv_def bitmap_used_def bm_bit_toggle split: if_splits)

lemma first_one_unused:
  assumes "bitmap_inv n bm" "bitmap_used n bm \<noteq> {..<n}" "first_one bm 0 b"
  shows "b < n" "b \<notin> bitmap_used n bm" "{..<b} \<subseteq> bitmap_used n bm"
proof -
  from assms(2) obtain c where c: "c < n" "bm_bit bm c" by (auto simp: bitmap_used_def)
  then have "b \<le> c" using assms(3) by (metis first_one_def le0 not_le)
  then show "b < n" using c by simp
  then show "b \<notin> bitmap_used n bm" "{..<b} \<subseteq> bitmap_used n bm"
    using assms(3) by (auto simp: bitmap_used_def first_one_def)
qed

lemma bitmap_full_eq:
  assumes "bitmap_inv n bm"
  shows "bitmap_full bm (bitmap_info_init n) = Some (bitmap_used n bm = {..<n})"
proof -
  let ?g = "BITMAP_BITS2GROUPS n"
  have g: "?g \<le> length bm" "\<And>b. n \<le> b \<Longrightarrow> b < 64 * ?g \<Longrightarrow> \<not> bm_bit bm b"
    using assms by (auto simp: bitmap_inv_def)
  have "(\<forall>k\<in>{0..<?g}. bm ! k = 0) \<longleftrightarrow> (\<forall>k<?g. \<forall>b. b div 64 = k \<longrightarrow> \<not> bm_bit bm b)"
    using g(1) by (auto simp: group_zero_iff)
  also have "\<dots> \<longleftrightarrow> (\<forall>b. b div 64 < ?g \<longrightarrow> \<not> bm_bit bm b)" by blast
  also have "\<dots> \<longleftrightarrow> (\<forall>b<n. \<not> bm_bit bm b)"
  proof
    assume a: "\<forall>b<n. \<not> bm_bit bm b"
    show "\<forall>b. b div 64 < ?g \<longrightarrow> \<not> bm_bit bm b"
    proof (intro allI impI)
      fix b assume "b div 64 < ?g"
      then have "b < 64 * ?g" using div_less_iff_less_mult [of 64 b ?g] by (simp add: mult.commute)
      with a g(2) show "\<not> bm_bit bm b" by (metis not_le)
    qed
  next
    assume a: "\<forall>b. b div 64 < ?g \<longrightarrow> \<not> bm_bit bm b"
    show "\<forall>b<n. \<not> bm_bit bm b"
    proof (intro allI impI)
      fix b assume "b < n"
      then have "b div 64 < ?g" using groups_bounds(1) [of n]
        by (intro less_mult_imp_div_less) (simp add: mult.commute)
      with a show "\<not> bm_bit bm b" by blast
    qed
  qed
  finally show ?thesis
    using g(1) bitmap_full_loop_eq [of 0 ?g bm]
    by (auto simp: bitmap_full_def bitmap_info_init_def bitmap_used_def)
qed

lemma bitmap_ffu_group:
  "i < length bm \<Longrightarrow> m div 64 = i \<Longrightarrow>
    bit (bm ! i AND NOT (group_bit m - 1)) k \<longleftrightarrow> k < 64 \<and> m \<le> 64 * i + k \<and> bm_bit bm (64 * i + k)"
proof -
  assume a: "i < length bm" "m div 64 = i"
  have m: "group_bit m - 1 = mask (m mod 64)" by (simp add: group_bit_eq mask_eq_decr_exp)
  have "m = 64 * i + m mod 64" using a(2) by auto
  then have "m \<le> 64 * i + k \<longleftrightarrow> m mod 64 \<le> k" by linarith
  then show ?thesis
    using a(1) bit_nth_group [OF a(1), of 0 k]
    by (auto simp: m bit_simps dest: bit_imp_le_length)
qed

lemma bitmap_ffu_eq:
  assumes "bitmap_inv n bm" "m < n"
  shows "bitmap_ffu bm (bitmap_info_init n) m =
    (if \<exists>b<n. first_one bm m b then Some (THE b. first_one bm m b)
     else if BITMAP_BITS2GROUPS n < length bm then Some n else None)"
proof -
  let ?bi = "bitmap_info_init n" and ?g = "BITMAP_BITS2GROUPS n"
  have l: "m div 64 < length bm" using bitmap_inv_index [OF assms] .
  have g: "?g \<le> length bm" "\<And>b. n \<le> b \<Longrightarrow> b < 64 * ?g \<Longrightarrow> \<not> bm_bit bm b"
    using assms(1) by (auto simp: bitmap_inv_def)
  have mg: "m div 64 < ?g" using groups_bounds(1) [of n] assms(2)
    by (intro less_mult_imp_div_less) (simp add: mult.commute)
  have e: "bitmap_ffu bm ?bi m = bitmap_ffu_loop bm ?bi (m div 64) (bm ! (m div 64) AND NOT (group_bit m - 1))"
    using l by (simp add: bitmap_ffu_def Let_def)
  have "m < 64 * (m div 64 + 1)" using dividend_less_times_div [of 64 m] by simp
  from bitmap_ffu_loop_spec [of ?bi bm "m div 64" m, OF _ _ this bitmap_ffu_group [OF l refl]] g(1) mg
  have c: "(\<exists>b<64 * ?g. first_one bm m b \<and> bitmap_ffu bm ?bi m = Some b)
    \<or> (\<forall>j. m \<le> j \<longrightarrow> j < 64 * ?g \<longrightarrow> \<not> bm_bit bm j)
      \<and> bitmap_ffu bm ?bi m = (if ?g < length bm then Some n else None)"
    unfolding e by (auto simp: bitmap_info_init_def)
  then show ?thesis
  proof
    assume "\<exists>b<64 * ?g. first_one bm m b \<and> bitmap_ffu bm ?bi m = Some b"
    then obtain b where b: "b < 64 * ?g" "first_one bm m b" "bitmap_ffu bm ?bi m = Some b" by blast
    then have "b < n" using g(2) [of b] not_less [of b n] by (auto simp: first_one_def)
    moreover have "(THE b. first_one bm m b) = b" using b(2) first_one_unique by blast
    ultimately show ?thesis using b by auto
  next
    assume n: "(\<forall>j. m \<le> j \<longrightarrow> j < 64 * ?g \<longrightarrow> \<not> bm_bit bm j)
      \<and> bitmap_ffu bm ?bi m = (if ?g < length bm then Some n else None)"
    then have "\<not> (\<exists>b<n. first_one bm m b)" using groups_bounds(1) [of n] by (auto simp: first_one_def)
    with n show ?thesis by auto
  qed
qed

interpretation bmset: bitset "bitmap_inv n" "bitmap_used n" n
  "\<lambda>bm. bitmap_get bm (bitmap_info_init n)" "\<lambda>bm. bitmap_set bm (bitmap_info_init n)"
  "\<lambda>bm. bitmap_unset bm (bitmap_info_init n)" "\<lambda>bm. bitmap_full bm (bitmap_info_init n)"
  "\<lambda>bm. bitmap_sfu bm (bitmap_info_init n)" "\<lambda>bm. bitmap_ffu bm (bitmap_info_init n)" for n
proof
  fix bm b m assume i: "bitmap_inv n bm"
  show "bitmap_used n bm \<subseteq> {..<n}" by (auto simp: bitmap_used_def)
  show "bitmap_get bm (bitmap_info_init n) b = Some (b \<in> bitmap_used n bm)" if "b < n"
    using that bitmap_inv_index [OF i that] by (simp add: bitmap_get_eq bitmap_used_def)
  show "\<exists>s'. bitmap_set bm (bitmap_info_init n) b = Some s' \<and> bitmap_inv n s'
      \<and> bitmap_used n s' = insert b (bitmap_used n bm)" if "b < n" "b \<notin> bitmap_used n bm"
    using that bitmap_inv_index [OF i that(1)] bitmap_inv_toggle [OF i that(1)]
    by (simp add: bitmap_set_eq)
  show "\<exists>s'. bitmap_unset bm (bitmap_info_init n) b = Some s' \<and> bitmap_inv n s'
      \<and> bitmap_used n s' = bitmap_used n bm - {b}" if "b \<in> bitmap_used n bm"
  proof -
    have "b < n" using that by (simp add: bitmap_used_def)
    then show ?thesis
      using that bitmap_inv_index [OF i] bitmap_inv_toggle [OF i] by (simp add: bitmap_unset_eq)
  qed
  show "bitmap_full bm (bitmap_info_init n) = Some (bitmap_used n bm = {..<n})"
    by (rule bitmap_full_eq [OF i])
  show "\<exists>b s'. bitmap_sfu bm (bitmap_info_init n) = Some (b, s') \<and> b < n \<and> b \<notin> bitmap_used n bm
      \<and> {..<b} \<subseteq> bitmap_used n bm \<and> bitmap_inv n s' \<and> bitmap_used n s' = insert b (bitmap_used n bm)"
    if u: "bitmap_used n bm \<noteq> {..<n}"
  proof -
    obtain c where "bm_bit bm c" using u by (auto simp: bitmap_used_def)
    from bitmap_sfu_eq [OF this] obtain b where
      b: "first_one bm 0 b" "bitmap_sfu bm (bitmap_info_init n) = Some (b, bm_toggle bm b)" by blast
    note f = first_one_unused [OF i u b(1)]
    from b(2) f bitmap_inv_toggle [OF i f(1)] show ?thesis by simp
  qed
  show "bitmap_ffu bm (bitmap_info_init n) m = Some b"
    if "m \<le> b" "b < n" "b \<notin> bitmap_used n bm" "{m..<b} \<subseteq> bitmap_used n bm"
  proof -
    have f: "first_one bm m b" using that by (auto simp: first_one_def bitmap_used_def)
    then have "(THE b. first_one bm m b) = b" using first_one_unique by blast
    with f that bitmap_ffu_eq [OF i, of m] show ?thesis by auto
  qed
qed

section \<open>Initialisation\<close>

lemma memset_groups_info:
  assumes "BITMAP_BITS2GROUPS n \<le> length bm"
  shows "memset_groups bm w (bitmap_size (bitmap_info_init n))
    = Some (replicate (BITMAP_BITS2GROUPS n) w @ drop (BITMAP_BITS2GROUPS n) bm)"
proof -
  have "drop_bit LG_SIZEOF_BITMAP (bitmap_size (bitmap_info_init n)) = BITMAP_BITS2GROUPS n"
    by (simp add: bitmap_size_def bitmap_info_ngroups_def bitmap_info_init_def LG_SIZEOF_BITMAP_def
        push_bit_eq_mult drop_bit_eq_div)
  with assms show ?thesis by (simp add: memset_groups_def Let_def)
qed

lemma extra_bits: "(BITMAP_GROUP_NBITS - (n AND BITMAP_GROUP_NBITS_MASK)) AND BITMAP_GROUP_NBITS_MASK
    = (64 - n mod 64) mod 64"
  by (simp add: bitmap_config_defs nat_and_63)

text \<open>After initialisation the groups hold ones exactly below \<open>n\<close>.\<close>

lemma bitmap_init_bits:
  assumes "0 < n" "BITMAP_BITS2GROUPS n \<le> length bm"
  shows "\<exists>bm'. bitmap_init bm (bitmap_info_init n) False = Some bm' \<and> length bm' = length bm
    \<and> (\<forall>b < 64 * BITMAP_BITS2GROUPS n. bm_bit bm' b \<longleftrightarrow> b < n)"
proof -
  let ?g = "BITMAP_BITS2GROUPS n"
  define e where "e = (64 - n mod 64) mod 64"
  let ?a = "replicate ?g (- 1) @ drop ?g bm"
  have g0: "0 < ?g" using assms(1) groups_bounds(1) [of n] by (cases "?g") auto
  have l: "length ?a = length bm" using assms(2) by simp
  have b1: "bm_bit ?a b" if "b < 64 * ?g" for b
  proof -
    have "b div 64 < ?g" using that by (intro less_mult_imp_div_less) (simp add: mult.commute)
    with assms(2) show ?thesis by (simp add: bm_bit_def nth_append)
  qed
  have i: "bitmap_init bm (bitmap_info_init n) False =
    (if e \<noteq> 0 then Some (?a[?g - 1 := drop_bit e (- 1)]) else Some ?a)"
  proof -
    have r: "read_at ?a (?g - 1) = Some (- 1)" using assms g0 by (simp add: nth_append)
    have w: "write_at ?a (?g - 1) x = Some (?a[?g - 1 := x])" for x
      using assms g0 by (intro write_at_Some) simp
    have f: "bi_nbits (bitmap_info_init n) = n" "bi_ngroups (bitmap_info_init n) = ?g"
      by (simp_all add: bitmap_info_init_def)
    show ?thesis
      by (simp only: bitmap_init_def memset_groups_info [OF assms(2)] extra_bits e_def [symmetric]
          Let_def f r w bind.bind_lunit if_False)
  qed
  show ?thesis
  proof (cases "e = 0")
    case True
    then have "n mod 64 = 0" by (cases "n mod 64 = 0") (simp_all add: e_def)
    then have "64 dvd n" by (simp add: mod_eq_0_iff_dvd)
    then have "64 * ?g = n" unfolding BITMAP_BITS2GROUPS_eq by (elim dvdE) auto
    then show ?thesis using i True l b1 by simp
  next
    case False
    let ?b = "?a[?g - 1 := drop_bit e (- 1)]"
    have en: "64 * ?g = n + e"
    proof -
      have "n mod 64 \<noteq> 0" using False unfolding e_def by (intro notI) simp
      then obtain q r where q: "n = 64 * q + r" "0 < r" "r < 64"
        by (metis mod_less_divisor mult_div_mod_eq neq0_conv zero_less_numeral)
      have "e = 64 - r" unfolding e_def q(1) using q(2,3) by simp
      moreover have "(n + 63) div 64 = q + 1"
        unfolding q(1) using q(2,3) by (intro div_nat_eqI) simp_all
      ultimately show ?thesis using q unfolding BITMAP_BITS2GROUPS_eq by simp
    qed
    have "e < 64" unfolding e_def by simp
    have "bm_bit ?b b \<longleftrightarrow> b < n" if b: "b < 64 * ?g" for b
    proof (cases "b div 64 = ?g - 1")
      case True
      then have "b = 64 * (?g - 1) + b mod 64" by (metis mult_div_mod_eq)
      then have "b < n \<longleftrightarrow> b mod 64 < 64 - e" using en g0 \<open>e < 64\<close> by (simp add: algebra_simps) linarith
      moreover have "bm_bit ?b b \<longleftrightarrow> b mod 64 < 64 - e"
        using True g0 assms(2) \<open>e < 64\<close> by (auto simp: bm_bit_def bit_simps nth_list_update)
      ultimately show ?thesis by simp
    next
      case False
      have "b div 64 < ?g" using b by (intro less_mult_imp_div_less) (simp add: mult.commute)
      with False have "b div 64 + 1 \<le> ?g - 1" by simp
      then have "b < 64 * (?g - 1)" by linarith
      then have "b < n" using en \<open>e < 64\<close> by linarith
      moreover have "bm_bit ?b b" using b1 [OF b] False by (simp add: bm_bit_def nth_list_update)
      ultimately show ?thesis by simp
    qed
    then show ?thesis using i False l by simp
  qed
qed

lemma bitmap_init_unset:
  assumes "0 < n" "BITMAP_BITS2GROUPS n \<le> length bm"
  shows "\<exists>bm'. bitmap_init bm (bitmap_info_init n) False = Some bm' \<and> bitmap_inv n bm'
    \<and> bitmap_used n bm' = {} \<and> length bm' = length bm"
proof -
  from bitmap_init_bits [OF assms] obtain bm' where
    b: "bitmap_init bm (bitmap_info_init n) False = Some bm'" "length bm' = length bm"
      "\<forall>b < 64 * BITMAP_BITS2GROUPS n. bm_bit bm' b \<longleftrightarrow> b < n" by blast
  then have "bitmap_inv n bm'" "bitmap_used n bm' = {}"
    using assms(2) groups_bounds(1) [of n] by (auto simp: bitmap_inv_def bitmap_used_def)
  with b show ?thesis by blast
qed

lemma bitmap_init_fill:
  assumes "BITMAP_BITS2GROUPS n \<le> length bm"
  shows "\<exists>bm'. bitmap_init bm (bitmap_info_init n) True = Some bm' \<and> bitmap_inv n bm'
    \<and> bitmap_used n bm' = {..<n} \<and> length bm' = length bm"
proof -
  let ?g = "BITMAP_BITS2GROUPS n"
  let ?a = "replicate ?g 0 @ drop ?g bm"
  have z: "\<not> bm_bit ?a b" if "b < 64 * ?g" for b
  proof -
    have "b div 64 < ?g" using that by (intro less_mult_imp_div_less) (simp add: mult.commute)
    then show ?thesis by (simp add: bm_bit_def nth_append)
  qed
  have "bitmap_init bm (bitmap_info_init n) True = Some ?a"
    using memset_groups_info [OF assms] by (simp add: bitmap_init_def)
  moreover have "bitmap_inv n ?a" "bitmap_used n ?a = {..<n}" "length ?a = length bm"
    using assms z groups_bounds(1) [of n] by (auto simp: bitmap_inv_def bitmap_used_def)
  ultimately show ?thesis by blast
qed

section \<open>Properties\<close>

text \<open>Initialising a bitmap of \<open>n\<close> bits in an array with enough groups leaves no bit of
  the set, or all of them with \<open>fill\<close>; afterwards the first \<open>bitmap_sfu\<close> takes bit 0.\<close>

theorem bitmap_init_correct:
  assumes "0 < n" "BITMAP_BITS2GROUPS n \<le> length bm"
  shows "\<exists>e f bm'. bitmap_init bm (bitmap_info_init n) False = Some e
      \<and> bitmap_init bm (bitmap_info_init n) True = Some f
      \<and> (\<forall>b<n. bitmap_get e (bitmap_info_init n) b = Some False
               \<and> bitmap_get f (bitmap_info_init n) b = Some True)
      \<and> bitmap_full e (bitmap_info_init n) = Some False
      \<and> bitmap_full f (bitmap_info_init n) = Some True
      \<and> bitmap_sfu e (bitmap_info_init n) = Some (0, bm')"
proof -
  obtain e f where e: "bitmap_init bm (bitmap_info_init n) False = Some e" "bitmap_inv n e"
      "bitmap_used n e = {}" and f: "bitmap_init bm (bitmap_info_init n) True = Some f"
      "bitmap_inv n f" "bitmap_used n f = {..<n}"
    using bitmap_init_unset [OF assms] bitmap_init_fill [OF assms(2)] by blast
  have ne: "bitmap_used n e \<noteq> {..<n}" using e(3) assms(1) by auto
  from bmset.sfu_used [OF e(2) this] obtain b bm' where
    b: "bitmap_sfu e (bitmap_info_init n) = Some (b, bm')" "{..<b} \<subseteq> bitmap_used n e" by blast
  then have "b = 0" using e(3) by auto
  moreover have "bitmap_full e (bitmap_info_init n) = Some False"
    using bmset.full_used [OF e(2)] ne by simp
  ultimately show ?thesis
    using e f b bmset.get_used [OF e(2)] bmset.get_used [OF f(2)] bmset.full_used [OF f(2)] by auto
qed

theorem bitmap_init_correct_witness:
  "\<exists>e f bm'. bitmap_init [0, 0] (bitmap_info_init 100) False = Some e
      \<and> bitmap_init [0, 0] (bitmap_info_init 100) True = Some f
      \<and> bitmap_get e (bitmap_info_init 100) 99 = Some False
      \<and> bitmap_sfu e (bitmap_info_init 100) = Some (0, bm')"
  using bitmap_init_correct [of 100 "[0, 0]"] by (force simp: BITMAP_BITS2GROUPS_eq)

text \<open>C39: \<open>bitmap_ffu\<close> returns the first unset bit from \<open>min_bit\<close> on. When there is none, the code
  reads the group after the last one before it returns \<open>nbits\<close>: in an array of exactly
  \<open>ngroups\<close> groups, such as the one that extents.h embeds, this read is outside the array.\<close>

theorem bitmap_ffu_correct:
  assumes "bitmap_inv n bm" "m < n"
  shows "(\<forall>b<n. m \<le> b \<longrightarrow> bitmap_get bm (bitmap_info_init n) b = Some False
      \<longrightarrow> (\<exists>c\<le>b. bitmap_ffu bm (bitmap_info_init n) m = Some c \<and> m \<le> c
            \<and> bitmap_get bm (bitmap_info_init n) c = Some False
            \<and> (\<forall>j. m \<le> j \<longrightarrow> j < c \<longrightarrow> bitmap_get bm (bitmap_info_init n) j = Some True)))
    \<and> ({m..<n} \<subseteq> bitmap_used n bm \<longrightarrow>
        bitmap_ffu bm (bitmap_info_init n) m = (if BITMAP_BITS2GROUPS n < length bm then Some n else None))"
proof (intro conjI allI impI)
  note get = bmset.get_used [OF assms(1)]
  fix b assume b: "b < n" "m \<le> b" "bitmap_get bm (bitmap_info_init n) b = Some False"
  define c where "c = (LEAST c. m \<le> c \<and> c \<notin> bitmap_used n bm)"
  have u: "b \<notin> bitmap_used n bm" using get [OF b(1)] b(3) by simp
  then have mb: "m \<le> b \<and> b \<notin> bitmap_used n bm" using b(2) by blast
  have c: "m \<le> c \<and> c \<notin> bitmap_used n bm" "c \<le> b"
    unfolding c_def by (rule LeastI [where k = b], rule mb) (rule Least_le, rule mb)
  have lo: "j \<in> bitmap_used n bm" if "m \<le> j" "j < c" for j
    using not_less_Least [of j "\<lambda>c. m \<le> c \<and> c \<notin> bitmap_used n bm"] that c_def by blast
  have cn: "c < n" using c(2) b(1) by simp
  have "bitmap_ffu bm (bitmap_info_init n) m = Some c"
    using c lo cn by (intro bmset.ffu_used [OF assms(1)]) auto
  moreover have "bitmap_get bm (bitmap_info_init n) j = Some True" if "m \<le> j" "j < c" for j
    using lo [OF that] get [of j] that cn by simp
  ultimately show "\<exists>c\<le>b. bitmap_ffu bm (bitmap_info_init n) m = Some c \<and> m \<le> c
            \<and> bitmap_get bm (bitmap_info_init n) c = Some False
            \<and> (\<forall>j. m \<le> j \<longrightarrow> j < c \<longrightarrow> bitmap_get bm (bitmap_info_init n) j = Some True)"
    using c get [OF cn] by (intro exI [of _ c]) simp
next
  assume "{m..<n} \<subseteq> bitmap_used n bm"
  then have "\<not> (\<exists>b<n. first_one bm m b)" by (auto simp: first_one_def bitmap_used_def)
  with bitmap_ffu_eq [OF assms] show "bitmap_ffu bm (bitmap_info_init n) m =
    (if BITMAP_BITS2GROUPS n < length bm then Some n else None)" by simp
qed

theorem bitmap_ffu_correct_witness:
  "bitmap_ffu [0, 0] (bitmap_info_init 100) 3 = None \<and> bitmap_ffu [0, 0, 0] (bitmap_info_init 100) 3 = Some 100"
proof -
  have i: "bitmap_inv 100 [0, 0]" "bitmap_inv 100 [0, 0, 0]"
    by (auto simp: bitmap_inv_def BITMAP_BITS2GROUPS_eq bm_bit_def nth_Cons split: nat.splits)
  have "{3..<100} \<subseteq> bitmap_used 100 [0, 0]" "{3..<100} \<subseteq> bitmap_used 100 [0, 0, 0]"
    by (auto simp: bitmap_used_def bm_bit_def nth_Cons split: nat.splits)
  then show ?thesis
    using bitmap_ffu_correct [OF i(1), of 3] bitmap_ffu_correct [OF i(2), of 3]
    by (simp add: BITMAP_BITS2GROUPS_eq)
qed

end
