(* ===== verification/Div.thy ===== *)
theory Div
  imports Jem_Prelude
begin

text \<open>
  include/jemalloc/internal/div.h and src/div.c: division of a multiple of a fixed divisor by a
  multiplication and a shift. The divisor of a debug build is not stored here: \<open>JEMALLOC_DEBUG\<close>
  is not defined.
\<close>

record div_info =
  di_magic :: uint32

definition div_init :: "size_t \<Rightarrow> div_info" where
  "div_init d =
     (let two_to_k = push_bit 32 (1 :: uint64);
          magic = (ucast (two_to_k div d) :: uint32);
          magic = (if two_to_k mod d \<noteq> 0 then magic + 1 else magic)
      in \<lparr>di_magic = magic\<rparr>)"

definition div_compute :: "div_info \<Rightarrow> size_t \<Rightarrow> size_t" where
  "div_compute div_info n = drop_bit 32 (n * ucast (di_magic div_info))"

text \<open>The magic number is the rounded-up quotient.\<close>

lemma unat_ucast_32: "unat (w :: 64 word) < 2 ^ 32 \<Longrightarrow> unat (ucast w :: 32 word) = unat w"
  by (simp add: unsigned_ucast_eq take_bit_nat_eq_self)

lemma unat_ucast_64: "unat (ucast (w :: 32 word) :: 64 word) = unat w"
  by (simp add: unsigned_ucast_eq take_bit_nat_eq_self order_less_trans [OF unat_lt2p])

lemma unat_magic:
  assumes "1 < unat d"
  shows "unat (di_magic (div_init d)) = (2 ^ 32 + (unat d - 1)) div unat d"
proof -
  let ?t = "push_bit 32 (1 :: uint64)"
  have t: "unat ?t = 2 ^ 32" by simp
  have u: "unat (?t div d) = 2 ^ 32 div unat d" "unat (?t mod d) = 2 ^ 32 mod unat d"
    by (simp_all only: unat_div unat_mod t)
  have l: "2 ^ 32 div unat d \<le> 2 ^ 31"
    using assms div_le_mono2 [of 2 "unat d" "2 ^ 32"] by simp
  have c: "unat (ucast (?t div d) :: 32 word) = 2 ^ 32 div unat d"
    using l u(1) by (subst unat_ucast_32) simp_all
  have z: "?t mod d = 0 \<longleftrightarrow> 2 ^ 32 mod unat d = 0"
    using u(2) by (metis unat_eq_0)
  have r: "(2 ^ 32 + (unat d - 1)) div unat d
      = (if 2 ^ 32 mod unat d = 0 then 2 ^ 32 div unat d else 2 ^ 32 div unat d + 1)"
  proof -
    define q r where "q = 2 ^ 32 div unat d" and "r = 2 ^ 32 mod unat d"
    have e: "2 ^ 32 = q * unat d + r" unfolding q_def r_def by (rule div_mult_mod_eq [symmetric])
    have rl: "r < unat d" using assms unfolding r_def by simp
    have "(2 ^ 32 + (unat d - 1)) div unat d = (if r = 0 then q else q + 1)"
      unfolding e using rl assms by (intro div_nat_eqI) (auto simp: algebra_simps)
    then show ?thesis by (simp only: q_def r_def)
  qed
  show ?thesis
    using c l z r by (simp add: div_init_def Let_def unat_add_eq del: push_bit_of_1)
qed

lemma div_compute_mult:
  assumes "1 < unat d" "unat n = q * unat d" "unat n < 2 ^ 32"
  shows "unat (div_compute (div_init d) n) = q"
proof -
  define m where "m = (2 ^ 32 + (unat d - 1)) div unat d"
  define r where "r = m * unat d - 2 ^ 32"
  have m: "unat (di_magic (div_init d)) = m" using unat_magic [OF assms(1)] by (simp add: m_def)
  have b: "2 ^ 32 \<le> m * unat d" "m * unat d < 2 ^ 32 + unat d"
    using assms(1) nat_round_up_ge [of "unat d" "2 ^ 32"] nat_round_up_less [of "unat d" "2 ^ 32"]
    by (simp_all add: m_def nat_round_up_def)
  then have r: "m * unat d = 2 ^ 32 + r" "r < unat d" by (simp_all add: r_def)
  have ml: "m < 2 ^ 32" using m unat_lt2p [of "di_magic (div_init d)"] by simp
  have "unat n * m < 2 ^ 32 * 2 ^ 32"
    using assms(3) ml by (intro mult_strict_mono) simp_all
  then have "unat (n * ucast (di_magic (div_init d))) = unat n * m"
    by (subst unat_mult_eq) (simp_all add: unat_ucast_64 m)
  then have "unat (div_compute (div_init d) n) = unat n * m div 2 ^ 32"
    by (simp add: div_compute_def unat_drop_bit_div)
  also have "unat n * m = q * 2 ^ 32 + q * r"
    by (metis assms(2) r(1) add_mult_distrib2 mult.assoc mult.commute)
  also have "\<dots> div 2 ^ 32 = q"
  proof -
    have "q * r \<le> q * unat d" using r(2) by simp
    then have "q * r < 2 ^ 32" using assms(2,3) by linarith
    then show ?thesis by simp
  qed
  finally show ?thesis .
qed

text \<open>For every divisor from 2 on and every multiple of it below \<open>2 ^ 32\<close>, the
  multiplication by the magic number and the shift return the exact quotient.\<close>

theorem div_compute_exact:
  assumes "1 < d" "d udvd n" "n < 2 ^ 32"
  shows "div_compute (div_init d) n = n div d"
proof -
  have "unat d dvd unat n" using assms(2) by (simp add: udvd_iff_dvd)
  then obtain q where q: "unat n = q * unat d" by (metis dvdE mult.commute)
  have d: "1 < unat d" using assms(1) by (simp add: word_less_nat_alt)
  have "unat n < 2 ^ 32" using assms(3) by (simp add: word_less_nat_alt)
  from div_compute_mult [OF d q this] d show ?thesis
    by (simp add: word_unat_eq_iff unat_div q)
qed

theorem div_compute_exact_witness: "div_compute (div_init 48) (48 * 77) = (48 * 77) div 48"
proof (rule div_compute_exact)
  show "(48 :: size_t) udvd 48 * 77" by (simp add: udvd_iff_dvd)
qed (simp_all add: word_less_nat_alt)

end
