(* ===== verification/Ticker.thy ===== *)
theory Ticker
  imports Jem_Prelude
begin

text \<open>
  include/jemalloc/internal/ticker.h: the countdown that lets the allocation paths do work only
  now and then. A signed 32-bit counter is a word that is compared through \<open>sint\<close>.
\<close>

record ticker =
  tk_tick :: "32 word"
  tk_nticks :: "32 word"

definition ticker_init :: "ticker \<Rightarrow> 32 word \<Rightarrow> ticker" where
  "ticker_init ticker nticks = ticker\<lparr>tk_tick := nticks, tk_nticks := nticks\<rparr>"

definition ticker_copy :: "ticker \<Rightarrow> ticker \<Rightarrow> ticker" where
  "ticker_copy ticker other = other"

definition ticker_read :: "ticker \<Rightarrow> 32 word" where
  "ticker_read ticker = tk_tick ticker"

definition ticker_fixup :: "ticker \<Rightarrow> bool \<times> ticker" where
  "ticker_fixup ticker = (True, ticker\<lparr>tk_tick := tk_nticks ticker\<rparr>)"

definition ticker_ticks :: "ticker \<Rightarrow> 32 word \<Rightarrow> bool \<times> ticker" where
  "ticker_ticks ticker nticks =
     (let ticker = ticker\<lparr>tk_tick := tk_tick ticker - nticks\<rparr>
      in if sint (tk_tick ticker) < 0 then ticker_fixup ticker else (False, ticker))"

definition ticker_tick :: "ticker \<Rightarrow> bool \<times> ticker" where
  "ticker_tick ticker = ticker_ticks ticker 1"

definition ticker_trytick :: "ticker \<Rightarrow> bool \<times> ticker" where
  "ticker_trytick ticker =
     (let ticker = ticker\<lparr>tk_tick := tk_tick ticker - 1\<rparr>
      in if sint (tk_tick ticker) < 0 then (True, ticker) else (False, ticker))"

text \<open>The answers to \<open>k\<close> ticks in a row.\<close>

fun tick_run :: "nat \<Rightarrow> ticker \<Rightarrow> bool list \<times> ticker" where
  "tick_run 0 t = ([], t)"
| "tick_run (Suc k) t = (case tick_run k t of (bs, t) \<Rightarrow> case ticker_tick t of (b, t) \<Rightarrow> (bs @ [b], t))"

lemma sint_of_nat_32: "n < 2 ^ 31 \<Longrightarrow> sint (of_nat n :: 32 word) = int n"
  by (simp add: signed_of_nat signed_take_bit_int_eq_self_iff)

lemma tick_step:
  assumes "n < 2 ^ 31" "m \<le> n" "tk_nticks t = of_nat n" "tk_tick t = of_nat m"
  shows "ticker_tick t = (m = 0, t\<lparr>tk_tick := of_nat (if m = 0 then n else m - 1)\<rparr>)"
proof (cases m)
  case 0
  have "sint (- 1 :: 32 word) = - 1" by simp
  with 0 assms show ?thesis by (simp add: ticker_tick_def ticker_ticks_def ticker_fixup_def)
next
  case (Suc k)
  then have "tk_tick t - 1 = of_nat k" using assms(4) by simp
  moreover have "sint (of_nat k :: 32 word) = int k" using assms Suc by (intro sint_of_nat_32) simp
  ultimately show ?thesis using Suc by (simp add: ticker_tick_def ticker_ticks_def Let_def)
qed

lemma tick_run_state:
  assumes "n < 2 ^ 31"
  shows "tick_run k (ticker_init t (of_nat n)) =
    (map (\<lambda>i. Suc i mod Suc n = 0) [0..<k],
     (ticker_init t (of_nat n))\<lparr>tk_tick := of_nat (n - k mod Suc n)\<rparr>)"
proof (induction k)
  case (Suc k)
  let ?t = "(ticker_init t (of_nat n))\<lparr>tk_tick := of_nat (n - k mod Suc n)\<rparr>"
  have "ticker_tick ?t = (n - k mod Suc n = 0,
      ?t\<lparr>tk_tick := of_nat (if n - k mod Suc n = 0 then n else n - k mod Suc n - 1)\<rparr>)"
    using assms by (intro tick_step) (simp_all add: ticker_init_def)
  moreover obtain r where r: "k mod Suc n = r" "r \<le> n"
    using mod_less_divisor [of "Suc n" k] by simp
  moreover have "(n - k mod Suc n = 0) = (Suc k mod Suc n = 0)" using r(2) by (auto simp: mod_Suc r(1))
  moreover have "(if n - k mod Suc n = 0 then n else n - k mod Suc n - 1) = n - Suc k mod Suc n"
    using r(2) by (auto simp: mod_Suc r(1))
  ultimately show ?case using Suc.IH by simp
qed (simp add: ticker_init_def)

text \<open>A ticker initialised to \<open>n\<close> fires on the ticks \<open>n + 1\<close>, \<open>2 * (n + 1)\<close>, and so on, and on
  no other: the header says it triggers every \<open>nticks\<close> events, when the countdown hits zero, but
  the code fires when the counter becomes negative, one event later. Reading the counter
  returns the events that are left before that.\<close>

theorem ticker_period:
  assumes "n < 2 ^ 31" "i < k"
  shows "fst (tick_run k (ticker_init t (of_nat n))) ! i = ((i + 1) mod (n + 1) = 0)
    \<and> unat (ticker_read (snd (tick_run k (ticker_init t (of_nat n))))) = n - k mod (n + 1)"
proof -
  have "unat (of_nat (n - k mod Suc n) :: 32 word) = n - k mod Suc n"
    using assms(1) by (intro unat_of_nat_eq) simp
  then show ?thesis
    using assms(2) by (simp add: tick_run_state [OF assms(1)] ticker_read_def)
qed

theorem ticker_period_witness:
  "fst (tick_run 3 (ticker_init \<lparr>tk_tick = 0, tk_nticks = 0\<rparr> (of_nat 2))) ! 1 = (((1::nat) + 1) mod (2 + 1) = 0)
    \<and> unat (ticker_read (snd (tick_run 3 (ticker_init \<lparr>tk_tick = 0, tk_nticks = 0\<rparr> (of_nat 2)))))
      = 2 - 3 mod (2 + 1)"
  by (rule ticker_period) simp_all

end
