(* ===== verification/Prng.thy ===== *)
theory Prng
  imports Bit_Util
begin

text \<open>
  include/jemalloc/internal/prng.h: the linear congruential generators and the ranges drawn from
  them. An atomic operation may find that another thread has stored a value since the last
  access: the list \<open>es\<close> says, for each compare-and-exchange in turn, what was stored just before
  it (\<open>None\<close> for nothing); after its end nothing is stored.
\<close>

section \<open>The generators\<close>

definition PRNG_A_32 :: uint32 where "PRNG_A_32 = 1103515241"
definition PRNG_C_32 :: uint32 where "PRNG_C_32 = 12347"
definition PRNG_A_64 :: uint64 where "PRNG_A_64 = 6364136223846793005"
definition PRNG_C_64 :: uint64 where "PRNG_C_64 = 1442695040888963407"

definition prng_state_next_u32 :: "uint32 \<Rightarrow> uint32" where
  "prng_state_next_u32 state = state * PRNG_A_32 + PRNG_C_32"

definition prng_state_next_u64 :: "uint64 \<Rightarrow> uint64" where
  "prng_state_next_u64 state = state * PRNG_A_64 + PRNG_C_64"

definition prng_state_next_zu :: "size_t \<Rightarrow> size_t" where
  "prng_state_next_zu state = state * PRNG_A_64 + PRNG_C_64"

text \<open>What the variable holds when the next compare-and-exchange reads it.\<close>

definition interfere :: "'a option list \<Rightarrow> 'a \<Rightarrow> 'a" where
  "interfere es cur = (case es of Some v # _ \<Rightarrow> v | _ \<Rightarrow> cur)"

text \<open>
  The two retry loops, from the value \<open>state0\<close> that was loaded, with \<open>cur\<close> in the variable; the
  result is \<open>state1\<close> and what the variable holds. A failed exchange loads the variable into
  \<open>state0\<close>. The loop for 32 bits repeats while the exchange fails, the one for \<open>size_t\<close> while it
  succeeds.
\<close>

function prng_cas_u32 :: "uint32 option list \<Rightarrow> uint32 \<Rightarrow> uint32 \<Rightarrow> uint32 \<times> uint32" where
  "prng_cas_u32 es cur state0 =
     (let state1 = prng_state_next_u32 state0;
          cur = interfere es cur
      in if cur = state0 then (state1, state1)
         else prng_cas_u32 (tl es) cur cur)"
  by pat_completeness auto
termination
  by (relation "measures [\<lambda>(es, _, _). length es, \<lambda>(_, cur, state0). if cur = state0 then 0 else 1]")
    (auto simp: interfere_def split: list.splits option.splits)

declare prng_cas_u32.simps [simp del]

partial_function (option) prng_cas_zu ::
  "size_t option list \<Rightarrow> size_t \<Rightarrow> size_t \<Rightarrow> (size_t \<times> size_t) option" where
  "prng_cas_zu es cur state0 =
     (let state1 = prng_state_next_zu state0;
          cur = interfere es cur
      in if cur = state0 then prng_cas_zu (tl es) state1 state0
         else Some (state1, cur))"

declare prng_cas_zu.simps [code]

definition prng_lg_range_u32 ::
  "uint32 option list \<Rightarrow> uint32 \<Rightarrow> nat \<Rightarrow> bool \<Rightarrow> uint32 \<times> uint32" where
  "prng_lg_range_u32 es state lg_range atomic =
     (let state0 = state;
          (state1, state) = (if atomic then prng_cas_u32 es state state0
                             else (let state1 = prng_state_next_u32 state0 in (state1, state1)))
      in (drop_bit (32 - lg_range) state1, state))"

definition prng_lg_range_u64 :: "uint64 \<Rightarrow> nat \<Rightarrow> uint64 \<times> uint64" where
  "prng_lg_range_u64 state lg_range =
     (let state1 = prng_state_next_u64 state in (drop_bit (64 - lg_range) state1, state1))"

definition prng_lg_range_zu ::
  "size_t option list \<Rightarrow> size_t \<Rightarrow> nat \<Rightarrow> bool \<Rightarrow> (size_t \<times> size_t) option" where
  "prng_lg_range_zu es state lg_range atomic =
     (let state0 = state
      in map_option (\<lambda>(state1, state). (drop_bit (2 ^ (3 + 3) - lg_range) state1, state))
           (if atomic then prng_cas_zu es state state0
            else (let state1 = prng_state_next_zu state0 in Some (state1, state1))))"

text \<open>Repeated trial, without interference from other threads.\<close>

partial_function (option) prng_range_loop_u32 ::
  "uint32 \<Rightarrow> nat \<Rightarrow> bool \<Rightarrow> uint32 \<Rightarrow> (uint32 \<times> uint32) option" where
  "prng_range_loop_u32 rng lg_range atomic state =
     (let (ret, state) = prng_lg_range_u32 [] state lg_range atomic
      in if ret \<ge> rng then prng_range_loop_u32 rng lg_range atomic state else Some (ret, state))"

definition prng_range_u32 :: "uint32 \<Rightarrow> uint32 \<Rightarrow> bool \<Rightarrow> (uint32 \<times> uint32) option" where
  "prng_range_u32 state rng atomic =
     (let lg_range = ffs_u32 (pow2_ceil_u32 rng) - 1
      in prng_range_loop_u32 rng lg_range atomic state)"

partial_function (option) prng_range_loop_u64 ::
  "uint64 \<Rightarrow> nat \<Rightarrow> uint64 \<Rightarrow> (uint64 \<times> uint64) option" where
  "prng_range_loop_u64 rng lg_range state =
     (let (ret, state) = prng_lg_range_u64 state lg_range
      in if ret \<ge> rng then prng_range_loop_u64 rng lg_range state else Some (ret, state))"

definition prng_range_u64 :: "uint64 \<Rightarrow> uint64 \<Rightarrow> (uint64 \<times> uint64) option" where
  "prng_range_u64 state rng =
     (let lg_range = ffs_u64 (pow2_ceil_u64 rng) - 1
      in prng_range_loop_u64 rng lg_range state)"

partial_function (option) prng_range_loop_zu ::
  "size_t \<Rightarrow> nat \<Rightarrow> bool \<Rightarrow> size_t \<Rightarrow> (size_t \<times> size_t) option" where
  "prng_range_loop_zu rng lg_range atomic state =
     Option.bind (prng_lg_range_zu [] state lg_range atomic) (\<lambda>(ret, state).
       if ret \<ge> rng then prng_range_loop_zu rng lg_range atomic state else Some (ret, state))"

definition prng_range_zu :: "size_t \<Rightarrow> size_t \<Rightarrow> bool \<Rightarrow> (size_t \<times> size_t) option" where
  "prng_range_zu state rng atomic =
     (let lg_range = ffs_u64 (pow2_ceil_u64 rng) - 1
      in prng_range_loop_zu rng lg_range atomic state)"

declare prng_range_loop_u32.simps [code] prng_range_loop_u64.simps [code]
  prng_range_loop_zu.simps [code]

section \<open>The period of a linear congruential generator\<close>

text \<open>On the integers: \<open>n\<close> steps are one multiplication and one addition.\<close>

definition lcg :: "int \<Rightarrow> int \<Rightarrow> int \<Rightarrow> int" where "lcg a c x = x * a + c"

primrec lcg_sum :: "int \<Rightarrow> nat \<Rightarrow> int" where
  "lcg_sum a 0 = 0"
| "lcg_sum a (Suc n) = lcg_sum a n * a + 1"

lemma lcg_iter: "(lcg a c ^^ n) x = a ^ n * x + c * lcg_sum a n"
  by (induction n) (simp_all add: lcg_def algebra_simps)

lemma lcg_sum_add: "lcg_sum a (m + n) = lcg_sum a m * a ^ n + lcg_sum a n"
  by (induction n) (simp_all add: algebra_simps)

lemma lcg_sum_geometric: "(a - 1) * lcg_sum a n = a ^ n - 1"
  by (induction n) (simp_all add: algebra_simps)

text \<open>When \<open>a\<close> is 1 modulo 4, after \<open>2 ^ k\<close> steps the sum is an odd multiple of \<open>2 ^ k\<close>.\<close>

lemma power_mod_4: "a mod 4 = (1 :: int) \<Longrightarrow> a ^ n mod 4 = 1"
  by (induction n) (simp_all add: mod_mult_eq [symmetric, of a])

lemma lcg_sum_pow2:
  assumes "a mod 4 = 1" shows "\<exists>q. odd q \<and> lcg_sum a (2 ^ k) = 2 ^ k * q"
proof (induction k)
  case 0
  then show ?case by (intro exI [of _ 1]) simp
next
  case (Suc k)
  then obtain q where q: "odd q" "lcg_sum a (2 ^ k) = 2 ^ k * q" by blast
  have "a ^ 2 ^ k mod 4 = 1" by (rule power_mod_4 [OF assms])
  then have "a ^ 2 ^ k = 4 * (a ^ 2 ^ k div 4) + 1" by (metis mult_div_mod_eq)
  then obtain r where r: "1 + a ^ 2 ^ k = 2 * r" "odd r"
    using that [of "2 * (a ^ 2 ^ k div 4) + 1"] by simp
  have "lcg_sum a (2 ^ Suc k) = lcg_sum a (2 ^ k) * (1 + a ^ 2 ^ k)"
    by (simp add: mult_2 lcg_sum_add algebra_simps)
  then have "lcg_sum a (2 ^ Suc k) = 2 ^ Suc k * (q * r)" by (simp add: q r)
  with q r show ?case by (intro exI [of _ "q * r"]) simp
qed

text \<open>So the orbit of every start meets every residue modulo \<open>2 ^ k\<close>.\<close>

lemma lcg_step_pow2:
  assumes "a mod 4 = 1" "odd c"
  shows "\<exists>q. odd q \<and> (lcg a c ^^ 2 ^ k) x = x + 2 ^ k * q"
proof -
  from lcg_sum_pow2 [OF assms(1)] obtain q where q: "odd q" "lcg_sum a (2 ^ k) = 2 ^ k * q" by blast
  have "a ^ 2 ^ k = 1 + (a - 1) * (2 ^ k * q)" using lcg_sum_geometric [of a "2 ^ k"] q by simp
  then have "(lcg a c ^^ 2 ^ k) x = (1 + (a - 1) * (2 ^ k * q)) * x + c * (2 ^ k * q)"
    by (simp only: lcg_iter q)
  then have "(lcg a c ^^ 2 ^ k) x = x + 2 ^ k * (q * ((a - 1) * x + c))"
    by (simp add: algebra_simps)
  moreover have "even (a - 1)" using assms(1) by presburger
  ultimately show ?thesis using q assms(2) by (intro exI [of _ "q * ((a - 1) * x + c)"]) simp
qed

lemma lcg_reaches:
  assumes "a mod 4 = 1" "odd c"
  shows "\<exists>n. (lcg a c ^^ n) x mod 2 ^ k = y mod 2 ^ k"
proof (induction k)
  case (Suc k)
  then obtain n where n: "(lcg a c ^^ n) x mod 2 ^ k = y mod 2 ^ k" by blast
  define z where "z = (lcg a c ^^ n) x"
  from n obtain p where p: "y = z + 2 ^ k * p"
    by (metis z_def mod_eqE)
  show ?case
  proof (cases "even p")
    case True
    then obtain r where "p = 2 * r" by blast
    then have "y = z + 2 ^ Suc k * r" by (simp add: p)
    then have "z mod 2 ^ Suc k = y mod 2 ^ Suc k" by (simp only: mod_mult_self2)
    then show ?thesis by (auto simp: z_def)
  next
    case False
    from lcg_step_pow2 [OF assms] obtain q where
      q: "odd q" "(lcg a c ^^ 2 ^ k) z = z + 2 ^ k * q" by blast
    have "even (p - q)" using False q(1) by simp
    then obtain r where "p - q = 2 * r" by blast
    then have "y = (z + 2 ^ k * q) + 2 ^ Suc k * r" by (simp add: p algebra_simps)
    then have "(lcg a c ^^ (2 ^ k + n)) x mod 2 ^ Suc k = y mod 2 ^ Suc k"
      using q(2) by (simp add: funpow_add z_def)
    then show ?thesis by blast
  qed
qed simp

section \<open>The generators on words\<close>

definition lcg_word :: "'a::len word \<Rightarrow> 'a word \<Rightarrow> 'a word \<Rightarrow> 'a word" where
  "lcg_word a c x = x * a + c"

lemma prng_next_eq:
  "prng_state_next_u32 = lcg_word PRNG_A_32 PRNG_C_32"
  "prng_state_next_u64 = lcg_word PRNG_A_64 PRNG_C_64"
  "prng_state_next_zu = lcg_word PRNG_A_64 PRNG_C_64"
  by (auto simp: lcg_word_def prng_state_next_u32_def prng_state_next_u64_def prng_state_next_zu_def)

lemma lcg_word_iter:
  "(lcg_word a c ^^ n) x = word_of_int ((lcg (uint a) (uint c) ^^ n) (uint x))"
  by (induction n) (simp_all add: lcg_word_def lcg_def)

lemma lcg_word_reaches:
  fixes a c :: "'a::len word"
  assumes "uint a mod 4 = 1" "odd (uint c)"
  shows "\<exists>n. (lcg_word a c ^^ n) x = y"
proof -
  from lcg_reaches [OF assms] obtain n where
    n: "(lcg (uint a) (uint c) ^^ n) (uint x) mod 2 ^ LENGTH('a) = uint y mod 2 ^ LENGTH('a)" by blast
  have "uint ((lcg_word a c ^^ n) x) = uint y mod 2 ^ LENGTH('a)"
    by (simp only: lcg_word_iter uint_word_of_int n)
  then have "uint ((lcg_word a c ^^ n) x) = uint y" by simp
  then show ?thesis by (intro exI) (simp add: word_uint_eq_iff)
qed

lemma prng_reaches:
  "\<exists>n. (prng_state_next_u32 ^^ n) s = t" "\<exists>n. (prng_state_next_u64 ^^ n) s' = t'"
  unfolding prng_next_eq
  by (rule lcg_word_reaches; simp add: PRNG_A_32_def PRNG_C_32_def PRNG_A_64_def PRNG_C_64_def)+

lemma lcg_word_no_fixpoint:
  fixes a c x :: "'a::len word"
  assumes "uint a mod 4 = 1" "odd (uint c)" shows "lcg_word a c x \<noteq> x"
proof
  assume e: "lcg_word a c x = x"
  have "odd (uint a)" using assms(1) by presburger
  then have "bit (uint a) 0" "bit (uint c) 0" using assms(2) by (simp_all only: bit_0 simp_thms)
  then have "bit a 0" "bit c 0" by (simp_all only: bit_uint_iff)
  then have "odd a" "odd c" by (simp_all only: bit_0 simp_thms)
  then have "odd (lcg_word a c x) \<noteq> odd x" by (auto simp: lcg_word_def)
  with e show False by simp
qed

lemma prng_next_zu_neq: "prng_state_next_zu s \<noteq> s"
  unfolding prng_next_eq by (rule lcg_word_no_fixpoint) (simp_all add: PRNG_A_64_def PRNG_C_64_def)

section \<open>Termination of the ranges\<close>

text \<open>Without interference the exchange of the 32-bit loop succeeds at once; the other loop
  stores the new state, finds that the variable has changed, and then leaves with that state.\<close>

lemma prng_cas_u32_alone: "prng_cas_u32 [] s s = (prng_state_next_u32 s, prng_state_next_u32 s)"
  by (subst prng_cas_u32.simps) (simp add: interfere_def Let_def)

lemma prng_cas_zu_alone: "prng_cas_zu [] s s = Some (prng_state_next_zu s, prng_state_next_zu s)"
  using prng_next_zu_neq [of s]
  by (subst prng_cas_zu.simps, subst prng_cas_zu.simps) (simp add: interfere_def Let_def)

lemma prng_lg_range_u32_eq:
  "prng_lg_range_u32 [] s lg atomic = (drop_bit (32 - lg) (prng_state_next_u32 s), prng_state_next_u32 s)"
  by (simp add: prng_lg_range_u32_def prng_cas_u32_alone Let_def)

lemma prng_lg_range_zu_eq:
  "prng_lg_range_zu [] s lg atomic = Some (drop_bit (64 - lg) (prng_state_next_zu s), prng_state_next_zu s)"
  by (simp add: prng_lg_range_zu_def prng_cas_zu_alone Let_def)

lemma funpow_Suc_start: "(f ^^ n) (f s) = (f ^^ Suc n) s"
  by (simp add: funpow_swap1)

text \<open>
  What the three loops have in common: draw, and keep the first value below the bound. \<open>nxt\<close> is
  the step of the generator, \<open>out\<close> the value that is drawn from its state.
\<close>

locale trial_loop =
  fixes nxt :: "'s \<Rightarrow> 's" and out :: "'s \<Rightarrow> 'r::linorder" and bound :: 'r
    and loop :: "'s \<Rightarrow> ('r \<times> 's) option"
  assumes step: "loop s = (if bound \<le> out (nxt s) then loop (nxt s) else Some (out (nxt s), nxt s))"
begin

lemma ends:
  assumes "out ((nxt ^^ n) (nxt s)) < bound"
  shows "\<exists>s' m. loop s = Some (out s', s') \<and> out s' < bound \<and> s' = (nxt ^^ Suc m) s"
  using assms
proof (induction n arbitrary: s)
  case 0
  then have "loop s = Some (out (nxt s), nxt s)" using step [of s] by (simp add: not_le [symmetric])
  with 0 show ?case by (intro exI [of _ "nxt s"] exI [of _ 0]) simp
next
  case (Suc n)
  show ?case
  proof (cases "bound \<le> out (nxt s)")
    case True
    then have l: "loop s = loop (nxt s)" using step [of s] by simp
    have "out ((nxt ^^ n) (nxt (nxt s))) < bound" using Suc.prems by (simp add: funpow_swap1)
    from Suc.IH [OF this] obtain s' m where
      s': "loop (nxt s) = Some (out s', s')" "out s' < bound" "s' = (nxt ^^ Suc m) (nxt s)" by blast
    then have "s' = (nxt ^^ Suc (Suc m)) s" by (simp add: funpow_swap1)
    with s' l show ?thesis by metis
  next
    case False
    then have "loop s = Some (out (nxt s), nxt s)" using step [of s] by simp
    with False show ?thesis by (intro exI [of _ "nxt s"] exI [of _ 0]) simp
  qed
qed

end

interpretation t32: trial_loop prng_state_next_u32 "drop_bit (32 - lg)" rng
  "prng_range_loop_u32 rng lg atomic" for lg rng atomic
  by unfold_locales (subst prng_range_loop_u32.simps, simp add: prng_lg_range_u32_eq)

interpretation t64: trial_loop prng_state_next_u64 "drop_bit (64 - lg)" rng
  "prng_range_loop_u64 rng lg" for lg rng
  by unfold_locales (subst prng_range_loop_u64.simps, simp add: prng_lg_range_u64_def Let_def)

interpretation tzu: trial_loop prng_state_next_zu "drop_bit (64 - lg)" rng
  "prng_range_loop_zu rng lg atomic" for lg rng atomic
  by unfold_locales (subst prng_range_loop_zu.simps, simp add: prng_lg_range_zu_eq)

lemma prng_hits_zero:
  "\<exists>n. (prng_state_next_u32 ^^ n) s = 0" "\<exists>n. (prng_state_next_u64 ^^ n) s' = 0"
  "\<exists>n. (prng_state_next_zu ^^ n) s' = 0"
  using prng_reaches by (simp_all add: prng_next_eq)

text \<open>The number of bits that \<open>prng_range_u64\<close> draws.\<close>

lemma ffs_pow2_ceil:
  assumes "0 < x" "x \<le> 2 ^ 63"
  shows "ffs_u64 (pow2_ceil_u64 x) = Suc (lg_ceil x)"
proof -
  have x: "0 < unat x" "unat x \<le> 2 ^ 63" "x \<noteq> 0"
    using assms by (auto simp: word_less_nat_alt word_le_nat_alt)
  from pow2_ceil_u64_spec [OF x(1,2)] obtain k where
    k: "unat x \<le> 2 ^ k" "k \<le> 63" "\<And>j. unat x \<le> 2 ^ j \<Longrightarrow> k \<le> j" "pow2_ceil_u64 x = push_bit k 1" by blast
  have "k \<le> lg_ceil x" by (rule k(3)) (rule lg_ceil_bounds(1) [OF x(3)])
  moreover have "lg_ceil x \<le> k"
  proof (rule ccontr)
    assume "\<not> lg_ceil x \<le> k"
    then have l: "lg_ceil x \<noteq> 0" "k \<le> lg_ceil x - 1" by simp_all
    have "2 ^ (lg_ceil x - 1) < unat x" by (rule lg_ceil_bounds(2) [OF x(3) l(1)])
    moreover have "(2::nat) ^ k \<le> 2 ^ (lg_ceil x - 1)" using l(2) by simp
    ultimately show False using k(1) by linarith
  qed
  ultimately have "k = lg_ceil x" by simp
  then show ?thesis using k(2,4) by (simp add: ffs_u64_def ffs_lu_def builtin_ffs_pow2 del: push_bit_of_1)
qed

section \<open>Properties\<close>

text \<open>C40: both generators have full period: from every state, every state is reached.\<close>

theorem prng_full_period:
  "(\<exists>n. (prng_state_next_u32 ^^ n) s = t) \<and> (\<exists>n. (prng_state_next_u64 ^^ n) s' = t')"
  using prng_reaches by blast

text \<open>The part of this that other components need.\<close>

lemma range_u64_ends:
  assumes "1 < r" "r \<le> 2 ^ 63"
  shows "\<exists>x s'. prng_range_u64 t r = Some (x, s') \<and> x < r"
proof -
  have p: "0 < r" using assms(1) by (auto simp: word_less_nat_alt)
  obtain k where "(prng_state_next_u64 ^^ k) (prng_state_next_u64 t) = 0" using prng_hits_zero by metis
  moreover have "ffs_u64 (pow2_ceil_u64 r) - 1 = lg_ceil r" using ffs_pow2_ceil [OF p assms(2)] by simp
  ultimately show ?thesis unfolding prng_range_u64_def Let_def using t64.ends [of _ k t r] p by simp metis
qed

text \<open>Drawing from a range always ends, with a number below the range that consists of the
  upper bits of the state that is left, a successor of the state that was given; as many bits as
  the least power of two that is not below the range has. This holds for the three widths and,
  when no other thread interferes, for the atomic variants.\<close>

theorem prng_range_ends:
  assumes "1 < r32" "r32 \<le> 2 ^ 31" "1 < r64" "r64 \<le> 2 ^ 63"
  shows "(\<exists>r s' m. prng_range_u32 s r32 atomic = Some (r, s') \<and> r < r32
      \<and> r = drop_bit (32 - (ffs_u32 (pow2_ceil_u32 r32) - 1)) s' \<and> s' = (prng_state_next_u32 ^^ Suc m) s)
    \<and> (\<exists>r s' m. prng_range_u64 t r64 = Some (r, s') \<and> r < r64
      \<and> r = drop_bit (64 - lg_ceil r64) s' \<and> s' = (prng_state_next_u64 ^^ Suc m) t)
    \<and> (\<exists>r s' m. prng_range_zu t r64 atomic = Some (r, s') \<and> r < r64
      \<and> r = drop_bit (64 - lg_ceil r64) s' \<and> s' = (prng_state_next_zu ^^ Suc m) t)"
proof -
  have p: "0 < r32" "0 < r64" using assms(1,3) by (auto simp: word_less_nat_alt)
  obtain n k l where z: "(prng_state_next_u32 ^^ n) (prng_state_next_u32 s) = 0"
    "(prng_state_next_u64 ^^ k) (prng_state_next_u64 t) = 0"
    "(prng_state_next_zu ^^ l) (prng_state_next_zu t) = 0"
    using prng_hits_zero by metis
  have lg: "ffs_u64 (pow2_ceil_u64 r64) - 1 = lg_ceil r64"
    using ffs_pow2_ceil [OF p(2) assms(4)] by simp
  show ?thesis
    unfolding prng_range_u32_def prng_range_u64_def prng_range_zu_def Let_def lg
    using t32.ends [of _ n s r32] t64.ends [of _ k t r64] tzu.ends [of _ l t r64] z p
    by simp
qed

theorem prng_range_ends_witness:
  "(\<exists>r s' m. prng_range_u32 5 10 True = Some (r, s') \<and> r < 10
      \<and> r = drop_bit (32 - (ffs_u32 (pow2_ceil_u32 10) - 1)) s' \<and> s' = (prng_state_next_u32 ^^ Suc m) 5)
    \<and> (\<exists>r s' m. prng_range_u64 7 10 = Some (r, s') \<and> r < 10
      \<and> r = drop_bit (64 - lg_ceil 10) s' \<and> s' = (prng_state_next_u64 ^^ Suc m) 7)
    \<and> (\<exists>r s' m. prng_range_zu 7 10 True = Some (r, s') \<and> r < 10
      \<and> r = drop_bit (64 - lg_ceil 10) s' \<and> s' = (prng_state_next_zu ^^ Suc m) 7)"
  by (rule prng_range_ends) (simp_all add: word_less_nat_alt word_le_nat_alt)

text \<open>The retry condition of the \<open>size_t\<close> generator is inverted. When another thread stores
  \<open>v\<close> between the load and the exchange, \<open>prng_lg_range_u32\<close> draws again from \<open>v\<close> and advances the
  variable, but \<open>prng_lg_range_zu\<close> returns the number drawn from the stale state and leaves
  \<open>v\<close> there, so that two threads that load the same state draw the same number.\<close>

theorem prng_zu_lost_update:
  assumes "v \<noteq> s" "v' \<noteq> s'"
  shows "prng_lg_range_u32 [Some v'] s' lg True
      = (drop_bit (32 - lg) (prng_state_next_u32 v'), prng_state_next_u32 v')
    \<and> prng_lg_range_zu [Some v] s lg True = Some (drop_bit (64 - lg) (prng_state_next_zu s), v)
    \<and> map_option fst (prng_lg_range_zu [Some (prng_state_next_zu s)] s lg True)
      = map_option fst (prng_lg_range_zu [] s lg True)"
proof -
  have "prng_cas_u32 [Some v'] s' s' = (prng_state_next_u32 v', prng_state_next_u32 v')"
    using assms(2) by (subst prng_cas_u32.simps) (simp add: interfere_def prng_cas_u32_alone Let_def)
  moreover have "prng_cas_zu [Some u] s s = Some (prng_state_next_zu s, u)" if "u \<noteq> s" for u
    using that by (subst prng_cas_zu.simps) (simp add: interfere_def)
  ultimately show ?thesis
    using assms prng_next_zu_neq [of s]
    by (simp add: prng_lg_range_u32_def prng_lg_range_zu_def prng_cas_zu_alone Let_def)
qed

theorem prng_zu_lost_update_witness:
  "prng_lg_range_u32 [Some 2] 1 8 True
      = (drop_bit (32 - 8) (prng_state_next_u32 2), prng_state_next_u32 2)
    \<and> prng_lg_range_zu [Some 9] 1 8 True = Some (drop_bit (64 - 8) (prng_state_next_zu 1), 9)
    \<and> map_option fst (prng_lg_range_zu [Some (prng_state_next_zu 1)] 1 8 True)
      = map_option fst (prng_lg_range_zu [] 1 8 True)"
  by (rule prng_zu_lost_update) simp_all

end
