(* ===== verification/Nstime.thy ===== *)
theory Nstime
  imports Jem_Prelude
begin

text \<open>
  src/nstime.c: times in nanoseconds on 64 bits. The clock is not under this source tree: what it
  reads, in seconds and nanoseconds, is an argument of \<open>nstime_get\<close>.
\<close>

definition BILLION :: uint64 where "BILLION = 1000000000"
definition MILLION :: uint64 where "MILLION = 1000000"

record nstime =
  ns :: uint64

definition nstime_init :: "nstime \<Rightarrow> uint64 \<Rightarrow> nstime" where
  "nstime_init time n = time\<lparr>ns := n\<rparr>"

definition nstime_init2 :: "nstime \<Rightarrow> uint64 \<Rightarrow> uint64 \<Rightarrow> nstime" where
  "nstime_init2 time sec nsec = time\<lparr>ns := sec * BILLION + nsec\<rparr>"

definition nstime_ns :: "nstime \<Rightarrow> uint64" where "nstime_ns time = ns time"
definition nstime_msec :: "nstime \<Rightarrow> uint64" where "nstime_msec time = ns time div MILLION"
definition nstime_sec :: "nstime \<Rightarrow> uint64" where "nstime_sec time = ns time div BILLION"
definition nstime_nsec :: "nstime \<Rightarrow> uint64" where "nstime_nsec time = ns time mod BILLION"

definition nstime_copy :: "nstime \<Rightarrow> nstime \<Rightarrow> nstime" where "nstime_copy time source = source"

definition nstime_compare :: "nstime \<Rightarrow> nstime \<Rightarrow> int" where
  "nstime_compare a b = (if ns a > ns b then 1 else 0) - (if ns a < ns b then 1 else 0)"

definition nstime_add :: "nstime \<Rightarrow> nstime \<Rightarrow> nstime" where
  "nstime_add time addend = time\<lparr>ns := ns time + ns addend\<rparr>"
definition nstime_iadd :: "nstime \<Rightarrow> uint64 \<Rightarrow> nstime" where
  "nstime_iadd time addend = time\<lparr>ns := ns time + addend\<rparr>"
definition nstime_subtract :: "nstime \<Rightarrow> nstime \<Rightarrow> nstime" where
  "nstime_subtract time subtrahend = time\<lparr>ns := ns time - ns subtrahend\<rparr>"
definition nstime_isubtract :: "nstime \<Rightarrow> uint64 \<Rightarrow> nstime" where
  "nstime_isubtract time subtrahend = time\<lparr>ns := ns time - subtrahend\<rparr>"
definition nstime_imultiply :: "nstime \<Rightarrow> uint64 \<Rightarrow> nstime" where
  "nstime_imultiply time multiplier = time\<lparr>ns := ns time * multiplier\<rparr>"

text \<open>A division by zero is \<open>None\<close>.\<close>

definition nstime_idivide :: "nstime \<Rightarrow> uint64 \<Rightarrow> nstime option" where
  "nstime_idivide time divisor =
     (if divisor = 0 then None else Some (time\<lparr>ns := ns time div divisor\<rparr>))"
definition nstime_divide :: "nstime \<Rightarrow> nstime \<Rightarrow> uint64 option" where
  "nstime_divide time divisor = (if ns divisor = 0 then None else Some (ns time div ns divisor))"

text \<open>The assertion of \<open>nstime_imultiply\<close>: its first disjunct is the test on the upper halves
  (\<open>sizeof(uint64_t) << 2\<close> is 32), so that a zero multiplier never reaches the division.\<close>

definition imultiply_assert :: "nstime \<Rightarrow> uint64 \<Rightarrow> bool" where
  "imultiply_assert time multiplier \<longleftrightarrow>
     (ns time OR multiplier) AND push_bit (push_bit 2 8) (- 1) = 0
     \<or> (ns time * multiplier) div multiplier = ns time"

definition nstime_get :: "uint64 \<times> uint64 \<Rightarrow> nstime \<Rightarrow> nstime" where
  "nstime_get ts time = (case ts of (tv_sec, tv_nsec) \<Rightarrow> nstime_init2 time tv_sec tv_nsec)"

definition nstime_monotonic_impl :: bool where "nstime_monotonic_impl = True"

definition nstime_update_impl :: "uint64 \<times> uint64 \<Rightarrow> nstime \<Rightarrow> bool \<times> nstime" where
  "nstime_update_impl ts time =
     (let old_time = nstime_copy time time;
          time = nstime_get ts time
      in if nstime_compare old_time time > 0 then (True, nstime_copy time old_time)
         else (False, time))"

text \<open>Updating from one clock reading after the other.\<close>

fun update_run :: "(uint64 \<times> uint64) list \<Rightarrow> nstime \<Rightarrow> bool list \<times> nstime" where
  "update_run [] time = ([], time)"
| "update_run (ts # tss) time =
     (case nstime_update_impl ts time of (b, time) \<Rightarrow>
        case update_run tss time of (bs, time) \<Rightarrow> (b # bs, time))"

section \<open>Lemmas\<close>

lemma nstime_compare_iff:
  "nstime_compare a b > 0 \<longleftrightarrow> ns b < ns a" "nstime_compare a b < 0 \<longleftrightarrow> ns a < ns b"
  "nstime_compare a b = 0 \<longleftrightarrow> a = b"
  by (auto simp: nstime_compare_def)

definition reading :: "uint64 \<times> uint64 \<Rightarrow> uint64" where
  "reading ts = fst ts * BILLION + snd ts"

lemma nstime_update_eq:
  "nstime_update_impl ts time = (reading ts < ns time, \<lparr>ns = max (ns time) (reading ts)\<rparr>)"
  by (cases ts) (auto simp: nstime_update_impl_def nstime_compare_iff nstime_copy_def nstime_get_def
      nstime_init2_def reading_def Let_def max_def)

lemma update_run_eq:
  "ns (snd (update_run tss time)) = fold max (map reading tss) (ns time)"
  by (induction tss arbitrary: time) (simp_all add: nstime_update_eq max.commute case_prod_unfold)

lemma fold_max_ge: "(x :: 'a::linorder) \<le> fold max ys x"
  by (induction ys arbitrary: x) (auto intro: order_trans [OF max.cobounded2])

lemma update_run_answer:
  "i < length tss \<Longrightarrow> fst (update_run tss time) ! i \<longleftrightarrow>
    reading (tss ! i) < fold max (map reading (take i tss)) (ns time)"
proof (induction tss arbitrary: i time)
  case (Cons ts tss)
  then show ?case
    by (cases i) (simp_all add: nstime_update_eq max.commute case_prod_unfold)
qed simp

section \<open>Properties\<close>

text \<open>Whatever the clock reads, a time that is updated from it never decreases: after any
  number of readings it is the largest of the start and the readings, and an update answers true
  exactly when its reading is behind what the time already was.\<close>

theorem nstime_update_monotonic:
  "ns time \<le> ns (snd (update_run tss time))
    \<and> ns (snd (update_run tss time)) = Max (set (ns time # map reading tss))
    \<and> (\<forall>i<length tss. fst (update_run tss time) ! i
         \<longleftrightarrow> reading (tss ! i) < ns (snd (update_run (take i tss) time)))"
proof -
  have "fold max ys x = Max (set (x # ys))" for x :: uint64 and ys
    by (metis Max.set_eq_fold)
  then show ?thesis
    using fold_max_ge [of "ns time" "map reading tss"]
    by (simp add: update_run_eq update_run_answer)
qed

theorem nstime_update_monotonic_witness:
  "fst (update_run [(5, 3), (4, 0)] \<lparr>ns = 0\<rparr>) ! 1"
proof -
  have "fst (update_run [(5, 3), (4, 0)] \<lparr>ns = 0\<rparr>) ! 1
    \<longleftrightarrow> reading ([(5, 3), (4, 0)] ! 1) < ns (snd (update_run (take 1 [(5, 3), (4, 0)]) \<lparr>ns = 0\<rparr>))"
    using nstime_update_monotonic [of "\<lparr>ns = 0\<rparr>" "[(5, 3), (4, 0)]"] by simp
  also have "\<dots>"
    by (simp add: reading_def BILLION_def nstime_update_eq word_less_nat_alt max_def)
  finally show ?thesis .
qed

text \<open>The assertion of \<open>nstime_imultiply\<close> is exactly that the product does not overflow, for
  every multiplier but zero; and splitting a time into seconds and nanoseconds and building it
  again gives the same time.\<close>

theorem nstime_imultiply_assert:
  assumes "m \<noteq> 0"
  shows "(imultiply_assert time m \<longleftrightarrow> unat (ns time) * unat m < 2 ^ 64)
    \<and> nstime_init2 t (nstime_sec time) (nstime_nsec time) = time
    \<and> unat (nstime_nsec time) < 10 ^ 9"
proof -
  let ?t = "ns time"
  have m: "0 < unat m" "unat m < 2 ^ 64" using assms unat_lt2p [of m] by (simp_all add: unat_gt_0)
  have hi: "(w :: uint64) AND NOT (mask 32) = 0 \<longleftrightarrow> unat w < 2 ^ 32" for w
  proof -
    have "unat (w AND NOT (mask 32)) = unat w div 2 ^ 32 * 2 ^ 32" by (rule unat_and_not_mask)
    then have "w AND NOT (mask 32) = 0 \<longleftrightarrow> unat w div 2 ^ 32 * 2 ^ 32 = 0" by (metis unat_eq_0)
    also have "\<dots> \<longleftrightarrow> unat w div 2 ^ 32 = 0" by simp
    finally show ?thesis by (simp add: div_eq_0_iff)
  qed
  have or: "unat (x OR y) < 2 ^ 32 \<longleftrightarrow> unat x < 2 ^ 32 \<and> unat y < 2 ^ 32" for x y :: uint64
    using hi [of x] hi [of y] hi [of "x OR y"] by (simp add: word_ao_dist or_eq_0_iff)
  have small: "unat ?t * unat m < 2 ^ 64" if "unat ?t < 2 ^ 32" "unat m < 2 ^ 32"
    using mult_strict_mono [OF that] by simp
  have dv: "(?t * m) div m = ?t \<longleftrightarrow> unat ?t * unat m < 2 ^ 64"
  proof
    assume "(?t * m) div m = ?t"
    then have e: "unat (?t * m) div unat m = unat ?t" by (metis unat_div)
    have "unat ?t * unat m \<le> unat (?t * m)" by (metis e div_times_less_eq_dividend)
    then show "unat ?t * unat m < 2 ^ 64" using unat_lt2p [of "?t * m"] by simp
  next
    assume "unat ?t * unat m < 2 ^ 64"
    then have "unat (?t * m) = unat ?t * unat m" by (intro unat_mult_eq) simp
    then show "(?t * m) div m = ?t" using m by (simp add: word_unat_eq_iff unat_div)
  qed
  have "imultiply_assert time m \<longleftrightarrow> unat ?t * unat m < 2 ^ 64"
    using dv small by (auto simp: imultiply_assert_def hi or [simplified])
  moreover have "nstime_init2 t (nstime_sec time) (nstime_nsec time) = time"
    by (simp add: nstime_init2_def nstime_sec_def nstime_nsec_def word_mod_div_equality)
  moreover have "unat (nstime_nsec time) < 10 ^ 9"
    by (simp add: nstime_nsec_def unat_mod BILLION_def)
  ultimately show ?thesis by simp
qed

theorem nstime_imultiply_assert_witness:
  "(imultiply_assert \<lparr>ns = 2 ^ 63\<rparr> 2 \<longleftrightarrow> unat (ns \<lparr>ns = 2 ^ 63\<rparr>) * unat (2 :: uint64) < 2 ^ 64)
    \<and> nstime_init2 \<lparr>ns = 1\<rparr> (nstime_sec \<lparr>ns = 2 ^ 63\<rparr>) (nstime_nsec \<lparr>ns = 2 ^ 63\<rparr>) = \<lparr>ns = 2 ^ 63\<rparr>
    \<and> unat (nstime_nsec \<lparr>ns = 2 ^ 63\<rparr>) < 10 ^ 9"
  by (rule nstime_imultiply_assert) simp

end
