(* ===== verification/Extent.thy ===== *)
theory Extent
  imports Bitmap Sz Prng
begin

text \<open>
  include/jemalloc/internal/extent_structs.h and extent_inlines.h: the descriptor of a span of
  pages. Nine fields share the word \<open>e_bits\<close>; the size and the serial number of the descriptor
  share \<open>e_size_esn\<close>. The accessors are as in the source, and \<open>extent_view\<close> is the record of
  separate fields that they implement.
\<close>

section \<open>The packed word\<close>

datatype extent_state = extent_state_active | extent_state_dirty | extent_state_muzzy
  | extent_state_retained

fun state_code :: "extent_state \<Rightarrow> nat" where
  "state_code extent_state_active = 0"
| "state_code extent_state_dirty = 1"
| "state_code extent_state_muzzy = 2"
| "state_code extent_state_retained = 3"

definition state_of_code :: "uint64 \<Rightarrow> extent_state" where
  "state_of_code w = (if w = 0 then extent_state_active else if w = 1 then extent_state_dirty
     else if w = 2 then extent_state_muzzy else extent_state_retained)"

definition EXTENT_MASK :: "nat \<Rightarrow> nat \<Rightarrow> uint64" where
  "EXTENT_MASK width shift = push_bit shift (push_bit width 1 - 1)"

definition MALLOCX_ARENA_BITS :: nat where "MALLOCX_ARENA_BITS = 12"

definition EXTENT_BITS_ARENA_WIDTH :: nat where "EXTENT_BITS_ARENA_WIDTH = MALLOCX_ARENA_BITS"
definition EXTENT_BITS_ARENA_SHIFT :: nat where "EXTENT_BITS_ARENA_SHIFT = 0"
definition EXTENT_BITS_ARENA_MASK :: uint64 where
  "EXTENT_BITS_ARENA_MASK = EXTENT_MASK EXTENT_BITS_ARENA_WIDTH EXTENT_BITS_ARENA_SHIFT"
definition EXTENT_BITS_SLAB_WIDTH :: nat where "EXTENT_BITS_SLAB_WIDTH = 1"
definition EXTENT_BITS_SLAB_SHIFT :: nat where
  "EXTENT_BITS_SLAB_SHIFT = EXTENT_BITS_ARENA_WIDTH + EXTENT_BITS_ARENA_SHIFT"
definition EXTENT_BITS_SLAB_MASK :: uint64 where
  "EXTENT_BITS_SLAB_MASK = EXTENT_MASK EXTENT_BITS_SLAB_WIDTH EXTENT_BITS_SLAB_SHIFT"
definition EXTENT_BITS_COMMITTED_WIDTH :: nat where "EXTENT_BITS_COMMITTED_WIDTH = 1"
definition EXTENT_BITS_COMMITTED_SHIFT :: nat where
  "EXTENT_BITS_COMMITTED_SHIFT = EXTENT_BITS_SLAB_WIDTH + EXTENT_BITS_SLAB_SHIFT"
definition EXTENT_BITS_COMMITTED_MASK :: uint64 where
  "EXTENT_BITS_COMMITTED_MASK = EXTENT_MASK EXTENT_BITS_COMMITTED_WIDTH EXTENT_BITS_COMMITTED_SHIFT"
definition EXTENT_BITS_DUMPABLE_WIDTH :: nat where "EXTENT_BITS_DUMPABLE_WIDTH = 1"
definition EXTENT_BITS_DUMPABLE_SHIFT :: nat where
  "EXTENT_BITS_DUMPABLE_SHIFT = EXTENT_BITS_COMMITTED_WIDTH + EXTENT_BITS_COMMITTED_SHIFT"
definition EXTENT_BITS_DUMPABLE_MASK :: uint64 where
  "EXTENT_BITS_DUMPABLE_MASK = EXTENT_MASK EXTENT_BITS_DUMPABLE_WIDTH EXTENT_BITS_DUMPABLE_SHIFT"
definition EXTENT_BITS_ZEROED_WIDTH :: nat where "EXTENT_BITS_ZEROED_WIDTH = 1"
definition EXTENT_BITS_ZEROED_SHIFT :: nat where
  "EXTENT_BITS_ZEROED_SHIFT = EXTENT_BITS_DUMPABLE_WIDTH + EXTENT_BITS_DUMPABLE_SHIFT"
definition EXTENT_BITS_ZEROED_MASK :: uint64 where
  "EXTENT_BITS_ZEROED_MASK = EXTENT_MASK EXTENT_BITS_ZEROED_WIDTH EXTENT_BITS_ZEROED_SHIFT"
definition EXTENT_BITS_STATE_WIDTH :: nat where "EXTENT_BITS_STATE_WIDTH = 2"
definition EXTENT_BITS_STATE_SHIFT :: nat where
  "EXTENT_BITS_STATE_SHIFT = EXTENT_BITS_ZEROED_WIDTH + EXTENT_BITS_ZEROED_SHIFT"
definition EXTENT_BITS_STATE_MASK :: uint64 where
  "EXTENT_BITS_STATE_MASK = EXTENT_MASK EXTENT_BITS_STATE_WIDTH EXTENT_BITS_STATE_SHIFT"
definition EXTENT_BITS_SZIND_WIDTH :: nat where
  "EXTENT_BITS_SZIND_WIDTH = LG_CEIL (of_nat SC_NSIZES)"
definition EXTENT_BITS_SZIND_SHIFT :: nat where
  "EXTENT_BITS_SZIND_SHIFT = EXTENT_BITS_STATE_WIDTH + EXTENT_BITS_STATE_SHIFT"
definition EXTENT_BITS_SZIND_MASK :: uint64 where
  "EXTENT_BITS_SZIND_MASK = EXTENT_MASK EXTENT_BITS_SZIND_WIDTH EXTENT_BITS_SZIND_SHIFT"
definition EXTENT_BITS_NFREE_WIDTH :: nat where "EXTENT_BITS_NFREE_WIDTH = LG_SLAB_MAXREGS + 1"
definition EXTENT_BITS_NFREE_SHIFT :: nat where
  "EXTENT_BITS_NFREE_SHIFT = EXTENT_BITS_SZIND_WIDTH + EXTENT_BITS_SZIND_SHIFT"
definition EXTENT_BITS_NFREE_MASK :: uint64 where
  "EXTENT_BITS_NFREE_MASK = EXTENT_MASK EXTENT_BITS_NFREE_WIDTH EXTENT_BITS_NFREE_SHIFT"
definition EXTENT_BITS_SN_SHIFT :: nat where
  "EXTENT_BITS_SN_SHIFT = EXTENT_BITS_NFREE_WIDTH + EXTENT_BITS_NFREE_SHIFT"
definition EXTENT_BITS_SN_MASK :: uint64 where
  "EXTENT_BITS_SN_MASK = push_bit EXTENT_BITS_SN_SHIFT (- 1)"

text \<open>
  The descriptor. Addresses are words; \<open>e_self\<close> is the address of the descriptor itself, which
  one of the orders compares. The size word is a union with \<open>e_bsize\<close>.
\<close>

record extent =
  e_self :: "64 word"
  e_bits :: uint64
  e_addr :: "64 word"
  e_size_esn :: size_t
  e_slab_bitmap :: bitmap

definition EXTENT_SIZE_MASK :: size_t where "EXTENT_SIZE_MASK = NOT (PAGE - 1)"
definition EXTENT_ESN_MASK :: size_t where "EXTENT_ESN_MASK = PAGE - 1"

section \<open>Reading\<close>

definition extent_arena_ind_get :: "extent \<Rightarrow> uint64" where
  "extent_arena_ind_get extent =
     drop_bit EXTENT_BITS_ARENA_SHIFT (e_bits extent AND EXTENT_BITS_ARENA_MASK)"
definition extent_szind_get_maybe_invalid :: "extent \<Rightarrow> uint64" where
  "extent_szind_get_maybe_invalid extent =
     drop_bit EXTENT_BITS_SZIND_SHIFT (e_bits extent AND EXTENT_BITS_SZIND_MASK)"
definition extent_szind_get :: "extent \<Rightarrow> uint64" where
  "extent_szind_get extent = extent_szind_get_maybe_invalid extent"
definition extent_usize_get :: "sz_tabs \<Rightarrow> extent \<Rightarrow> size_t option" where
  "extent_usize_get t extent = sz_index2size t (unat (extent_szind_get extent))"
definition extent_sn_get :: "extent \<Rightarrow> size_t" where
  "extent_sn_get extent =
     drop_bit EXTENT_BITS_SN_SHIFT (e_bits extent AND EXTENT_BITS_SN_MASK)"
definition extent_state_get :: "extent \<Rightarrow> extent_state" where
  "extent_state_get extent = state_of_code
     (drop_bit EXTENT_BITS_STATE_SHIFT (e_bits extent AND EXTENT_BITS_STATE_MASK))"
definition extent_zeroed_get :: "extent \<Rightarrow> bool" where
  "extent_zeroed_get extent \<longleftrightarrow>
     drop_bit EXTENT_BITS_ZEROED_SHIFT (e_bits extent AND EXTENT_BITS_ZEROED_MASK) \<noteq> 0"
definition extent_committed_get :: "extent \<Rightarrow> bool" where
  "extent_committed_get extent \<longleftrightarrow>
     drop_bit EXTENT_BITS_COMMITTED_SHIFT (e_bits extent AND EXTENT_BITS_COMMITTED_MASK) \<noteq> 0"
definition extent_dumpable_get :: "extent \<Rightarrow> bool" where
  "extent_dumpable_get extent \<longleftrightarrow>
     drop_bit EXTENT_BITS_DUMPABLE_SHIFT (e_bits extent AND EXTENT_BITS_DUMPABLE_MASK) \<noteq> 0"
definition extent_slab_get :: "extent \<Rightarrow> bool" where
  "extent_slab_get extent \<longleftrightarrow>
     drop_bit EXTENT_BITS_SLAB_SHIFT (e_bits extent AND EXTENT_BITS_SLAB_MASK) \<noteq> 0"
definition extent_nfree_get :: "extent \<Rightarrow> uint64" where
  "extent_nfree_get extent =
     drop_bit EXTENT_BITS_NFREE_SHIFT (e_bits extent AND EXTENT_BITS_NFREE_MASK)"

definition PAGE_ADDR2BASE :: "64 word \<Rightarrow> 64 word" where "PAGE_ADDR2BASE a = a AND NOT PAGE_MASK"

definition extent_base_get :: "extent \<Rightarrow> 64 word" where
  "extent_base_get extent = PAGE_ADDR2BASE (e_addr extent)"
definition extent_addr_get :: "extent \<Rightarrow> 64 word" where "extent_addr_get extent = e_addr extent"
definition extent_size_get :: "extent \<Rightarrow> size_t" where
  "extent_size_get extent = e_size_esn extent AND EXTENT_SIZE_MASK"
definition extent_esn_get :: "extent \<Rightarrow> size_t" where
  "extent_esn_get extent = e_size_esn extent AND EXTENT_ESN_MASK"
definition extent_bsize_get :: "extent \<Rightarrow> size_t" where
  "extent_bsize_get extent = e_size_esn extent"
definition extent_before_get :: "extent \<Rightarrow> 64 word" where
  "extent_before_get extent = extent_base_get extent - PAGE"
definition extent_last_get :: "extent \<Rightarrow> 64 word" where
  "extent_last_get extent = extent_base_get extent + extent_size_get extent - PAGE"
definition extent_past_get :: "extent \<Rightarrow> 64 word" where
  "extent_past_get extent = extent_base_get extent + extent_size_get extent"
definition extent_slab_data_get :: "extent \<Rightarrow> bitmap" where
  "extent_slab_data_get extent = e_slab_bitmap extent"

section \<open>Writing\<close>

text \<open>The index of the arena, or \<open>None\<close> for a null arena.\<close>

definition extent_arena_set :: "extent \<Rightarrow> 32 word option \<Rightarrow> extent" where
  "extent_arena_set extent arena =
     (let arena_ind = (case arena of Some ind \<Rightarrow> ind | None \<Rightarrow> push_bit MALLOCX_ARENA_BITS 1 - 1)
      in extent\<lparr>e_bits := (e_bits extent AND NOT EXTENT_BITS_ARENA_MASK)
           OR push_bit EXTENT_BITS_ARENA_SHIFT (ucast arena_ind)\<rparr>)"
definition extent_addr_set :: "extent \<Rightarrow> 64 word \<Rightarrow> extent" where
  "extent_addr_set extent addr = extent\<lparr>e_addr := addr\<rparr>"
definition extent_size_set :: "extent \<Rightarrow> size_t \<Rightarrow> extent" where
  "extent_size_set extent sz =
     extent\<lparr>e_size_esn := sz OR (e_size_esn extent AND NOT EXTENT_SIZE_MASK)\<rparr>"
definition extent_esn_set :: "extent \<Rightarrow> size_t \<Rightarrow> extent" where
  "extent_esn_set extent esn =
     extent\<lparr>e_size_esn := (e_size_esn extent AND NOT EXTENT_ESN_MASK) OR (esn AND EXTENT_ESN_MASK)\<rparr>"
definition extent_bsize_set :: "extent \<Rightarrow> size_t \<Rightarrow> extent" where
  "extent_bsize_set extent bsize = extent\<lparr>e_size_esn := bsize\<rparr>"
definition extent_szind_set :: "extent \<Rightarrow> 32 word \<Rightarrow> extent" where
  "extent_szind_set extent szind =
     extent\<lparr>e_bits := (e_bits extent AND NOT EXTENT_BITS_SZIND_MASK)
       OR push_bit EXTENT_BITS_SZIND_SHIFT (ucast szind)\<rparr>"
definition extent_nfree_set :: "extent \<Rightarrow> 32 word \<Rightarrow> extent" where
  "extent_nfree_set extent nfree =
     extent\<lparr>e_bits := (e_bits extent AND NOT EXTENT_BITS_NFREE_MASK)
       OR push_bit EXTENT_BITS_NFREE_SHIFT (ucast nfree)\<rparr>"
definition extent_nfree_inc :: "extent \<Rightarrow> extent" where
  "extent_nfree_inc extent = extent\<lparr>e_bits := e_bits extent + push_bit EXTENT_BITS_NFREE_SHIFT 1\<rparr>"
definition extent_nfree_dec :: "extent \<Rightarrow> extent" where
  "extent_nfree_dec extent = extent\<lparr>e_bits := e_bits extent - push_bit EXTENT_BITS_NFREE_SHIFT 1\<rparr>"
definition extent_sn_set :: "extent \<Rightarrow> size_t \<Rightarrow> extent" where
  "extent_sn_set extent sn =
     extent\<lparr>e_bits := (e_bits extent AND NOT EXTENT_BITS_SN_MASK)
       OR push_bit EXTENT_BITS_SN_SHIFT sn\<rparr>"
definition extent_state_set :: "extent \<Rightarrow> extent_state \<Rightarrow> extent" where
  "extent_state_set extent state =
     extent\<lparr>e_bits := (e_bits extent AND NOT EXTENT_BITS_STATE_MASK)
       OR push_bit EXTENT_BITS_STATE_SHIFT (of_nat (state_code state))\<rparr>"
definition extent_zeroed_set :: "extent \<Rightarrow> bool \<Rightarrow> extent" where
  "extent_zeroed_set extent zeroed =
     extent\<lparr>e_bits := (e_bits extent AND NOT EXTENT_BITS_ZEROED_MASK)
       OR push_bit EXTENT_BITS_ZEROED_SHIFT (of_bool zeroed)\<rparr>"
definition extent_committed_set :: "extent \<Rightarrow> bool \<Rightarrow> extent" where
  "extent_committed_set extent committed =
     extent\<lparr>e_bits := (e_bits extent AND NOT EXTENT_BITS_COMMITTED_MASK)
       OR push_bit EXTENT_BITS_COMMITTED_SHIFT (of_bool committed)\<rparr>"
definition extent_dumpable_set :: "extent \<Rightarrow> bool \<Rightarrow> extent" where
  "extent_dumpable_set extent dumpable =
     extent\<lparr>e_bits := (e_bits extent AND NOT EXTENT_BITS_DUMPABLE_MASK)
       OR push_bit EXTENT_BITS_DUMPABLE_SHIFT (of_bool dumpable)\<rparr>"
definition extent_slab_set :: "extent \<Rightarrow> bool \<Rightarrow> extent" where
  "extent_slab_set extent slab =
     extent\<lparr>e_bits := (e_bits extent AND NOT EXTENT_BITS_SLAB_MASK)
       OR push_bit EXTENT_BITS_SLAB_SHIFT (of_bool slab)\<rparr>"

text \<open>The list linkage and the profiling context, which \<open>extent_init\<close> also resets, are not part of
  the record; \<open>config_prof\<close> is false.\<close>

definition extent_init :: "extent \<Rightarrow> 32 word option \<Rightarrow> 64 word \<Rightarrow> size_t \<Rightarrow> bool \<Rightarrow> 32 word \<Rightarrow> size_t
    \<Rightarrow> extent_state \<Rightarrow> bool \<Rightarrow> bool \<Rightarrow> bool \<Rightarrow> extent" where
  "extent_init extent arena addr sz slab szind sn state zeroed committed dumpable =
     (let extent = extent_arena_set extent arena;
          extent = extent_addr_set extent addr;
          extent = extent_size_set extent sz;
          extent = extent_slab_set extent slab;
          extent = extent_szind_set extent szind;
          extent = extent_sn_set extent sn;
          extent = extent_state_set extent state;
          extent = extent_zeroed_set extent zeroed;
          extent = extent_committed_set extent committed
      in extent_dumpable_set extent dumpable)"

definition extent_binit :: "extent \<Rightarrow> 64 word \<Rightarrow> size_t \<Rightarrow> size_t \<Rightarrow> extent" where
  "extent_binit extent addr bsize sn =
     (let extent = extent_arena_set extent None;
          extent = extent_addr_set extent addr;
          extent = extent_bsize_set extent bsize;
          extent = extent_slab_set extent False;
          extent = extent_szind_set extent (of_nat SC_NSIZES);
          extent = extent_sn_set extent sn;
          extent = extent_state_set extent extent_state_active;
          extent = extent_zeroed_set extent True;
          extent = extent_committed_set extent True
      in extent_dumpable_set extent True)"

section \<open>Random placement within the first page\<close>

definition CACHELINE :: size_t where "CACHELINE = 64"

definition CACHELINE_CEILING :: "size_t \<Rightarrow> size_t" where
  "CACHELINE_CEILING s = (s + (64 - 1)) AND NOT (64 - 1)"

text \<open>The offset is drawn from the state of the thread or, without a thread, from that of the
  arena; the state that was advanced is returned.\<close>

datatype offset_state = Tsd_state uint64 | Arena_state size_t

definition extent_addr_randomize :: "offset_state \<Rightarrow> extent \<Rightarrow> size_t \<Rightarrow> (offset_state \<times> extent) option" where
  "extent_addr_randomize st extent alignment =
     (if alignment < PAGE then
        (let lg_range = LG_PAGE - lg_floor (CACHELINE_CEILING alignment)
         in map_option (\<lambda>(r, st).
              let random_offset = push_bit (LG_PAGE - lg_range) r
              in (st, extent\<lparr>e_addr := e_addr extent + random_offset\<rparr>))
            (case st of
               Tsd_state s \<Rightarrow> (let (r, s) = prng_lg_range_u64 s lg_range in Some (r, Tsd_state s))
             | Arena_state s \<Rightarrow>
                 map_option (\<lambda>(r, s). (r, Arena_state s)) (prng_lg_range_zu [] s lg_range True)))
      else Some (st, extent))"

section \<open>The orders on extents\<close>

definition sign_compare :: "64 word \<Rightarrow> 64 word \<Rightarrow> int" where
  "sign_compare a b = (if a > b then 1 else 0) - (if a < b then 1 else 0)"

definition extent_sn_comp :: "extent \<Rightarrow> extent \<Rightarrow> int" where
  "extent_sn_comp a b = sign_compare (extent_sn_get a) (extent_sn_get b)"
definition extent_esn_comp :: "extent \<Rightarrow> extent \<Rightarrow> int" where
  "extent_esn_comp a b = sign_compare (extent_esn_get a) (extent_esn_get b)"
definition extent_ad_comp :: "extent \<Rightarrow> extent \<Rightarrow> int" where
  "extent_ad_comp a b = sign_compare (extent_addr_get a) (extent_addr_get b)"
definition extent_ead_comp :: "extent \<Rightarrow> extent \<Rightarrow> int" where
  "extent_ead_comp a b = sign_compare (e_self a) (e_self b)"
definition extent_snad_comp :: "extent \<Rightarrow> extent \<Rightarrow> int" where
  "extent_snad_comp a b =
     (let ret = extent_sn_comp a b in if ret \<noteq> 0 then ret else extent_ad_comp a b)"
definition extent_esnead_comp :: "extent \<Rightarrow> extent \<Rightarrow> int" where
  "extent_esnead_comp a b =
     (let ret = extent_esn_comp a b in if ret \<noteq> 0 then ret else extent_ead_comp a b)"

section \<open>Fields of a word\<close>

definition field :: "nat \<Rightarrow> nat \<Rightarrow> uint64 \<Rightarrow> uint64" where
  "field w s b = drop_bit s (b AND EXTENT_MASK w s)"

definition put :: "nat \<Rightarrow> nat \<Rightarrow> uint64 \<Rightarrow> uint64 \<Rightarrow> uint64" where
  "put w s b v = (b AND NOT (EXTENT_MASK w s)) OR push_bit s v"

lemma bit_EXTENT_MASK: "bit (EXTENT_MASK w s) n \<longleftrightarrow> n < 64 \<and> s \<le> n \<and> n < s + w"
proof -
  have "EXTENT_MASK w s = push_bit s (mask w)" by (simp only: EXTENT_MASK_def push_bit_minus_1_eq_mask)
  then show ?thesis by (auto simp: bit_simps)
qed

lemma bit_field: "bit (field w s b) n \<longleftrightarrow> n < w \<and> bit b (s + n)"
  by (auto simp: field_def bit_simps bit_EXTENT_MASK dest: bit_imp_le_length)

text \<open>A value fits when none of its bits falls outside the field and inside the word.\<close>

definition fits :: "nat \<Rightarrow> nat \<Rightarrow> uint64 \<Rightarrow> bool" where
  "fits w s v \<longleftrightarrow> (\<forall>n. bit v n \<longrightarrow> n < w \<or> 64 \<le> s + n)"

lemma bit_put: "fits w s v \<Longrightarrow> bit (put w s b v) n \<longleftrightarrow>
    (if s \<le> n \<and> n < s + w then n < 64 \<and> bit v (n - s) else bit b n)"
  by (auto simp: put_def fits_def bit_simps bit_EXTENT_MASK dest: bit_imp_le_length)

lemma field_put_same: "fits w s v \<Longrightarrow> s + w \<le> 64 \<Longrightarrow> field w s (put w s b v) = take_bit w v"
  by (rule bit_word_eqI) (auto simp: bit_field bit_put bit_simps)

lemma field_put_other:
  "fits w s v \<Longrightarrow> s' + w' \<le> s \<or> s + w \<le> s' \<Longrightarrow> field w' s' (put w s b v) = field w' s' b"
  by (rule bit_word_eqI) (auto simp: bit_field bit_put)

lemma fitsI: "unat v < 2 ^ w \<Longrightarrow> fits w s v"
proof -
  assume "unat v < 2 ^ w"
  have "n < w" if "bit v n" for n
  proof (rule ccontr)
    assume "\<not> n < w"
    then have "(2::nat) ^ w \<le> 2 ^ n" by simp
    moreover have "2 ^ n \<le> unat v"
    proof -
      have "bit (unat v) n" using that bit_imp_le_length [OF that] by (simp add: bit_unsigned_iff)
      then have "odd (unat v div 2 ^ n)" using bit_iff_odd [of "unat v" n] by blast
      then have "0 < unat v div 2 ^ n" by (rule odd_pos)
      then show ?thesis by (simp add: div_greater_zero_iff)
    qed
    ultimately show False using \<open>unat v < 2 ^ w\<close> by linarith
  qed
  then show ?thesis by (simp add: fits_def)
qed

lemma take_bit_fits: "unat v < 2 ^ w \<Longrightarrow> take_bit w v = (v :: uint64)"
  by (simp add: word_unat_eq_iff unsigned_take_bit_eq take_bit_nat_eq_self)

section \<open>The layout\<close>

lemma LG_CEIL_SC_NSIZES: "LG_CEIL (of_nat SC_NSIZES) = 8"
  by (simp add: sc_macro_values(1) LG_CEIL_def LG_FLOOR_eq lg_floor_eq_nat_lg nat_lg.simps)

lemmas extent_widths = EXTENT_BITS_ARENA_WIDTH_def EXTENT_BITS_SLAB_WIDTH_def
  EXTENT_BITS_COMMITTED_WIDTH_def EXTENT_BITS_DUMPABLE_WIDTH_def EXTENT_BITS_ZEROED_WIDTH_def
  EXTENT_BITS_STATE_WIDTH_def EXTENT_BITS_SZIND_WIDTH_def EXTENT_BITS_NFREE_WIDTH_def
  MALLOCX_ARENA_BITS_def LG_SLAB_MAXREGS_def LG_PAGE_def SC_LG_TINY_MIN_def LG_CEIL_SC_NSIZES

lemmas extent_shifts = EXTENT_BITS_ARENA_SHIFT_def EXTENT_BITS_SLAB_SHIFT_def
  EXTENT_BITS_COMMITTED_SHIFT_def EXTENT_BITS_DUMPABLE_SHIFT_def EXTENT_BITS_ZEROED_SHIFT_def
  EXTENT_BITS_STATE_SHIFT_def EXTENT_BITS_SZIND_SHIFT_def EXTENT_BITS_NFREE_SHIFT_def
  EXTENT_BITS_SN_SHIFT_def

lemmas extent_masks = EXTENT_BITS_ARENA_MASK_def EXTENT_BITS_SLAB_MASK_def
  EXTENT_BITS_COMMITTED_MASK_def EXTENT_BITS_DUMPABLE_MASK_def EXTENT_BITS_ZEROED_MASK_def
  EXTENT_BITS_STATE_MASK_def EXTENT_BITS_SZIND_MASK_def EXTENT_BITS_NFREE_MASK_def

lemma SN_MASK_eq: "EXTENT_BITS_SN_MASK = EXTENT_MASK 28 36"
  by (rule bit_word_eqI)
    (auto simp: EXTENT_BITS_SN_MASK_def bit_EXTENT_MASK bit_simps extent_shifts extent_widths)

lemma extent_getters:
  "extent_arena_ind_get e = field 12 0 (e_bits e)"
  "extent_slab_get e \<longleftrightarrow> field 1 12 (e_bits e) \<noteq> 0"
  "extent_committed_get e \<longleftrightarrow> field 1 13 (e_bits e) \<noteq> 0"
  "extent_dumpable_get e \<longleftrightarrow> field 1 14 (e_bits e) \<noteq> 0"
  "extent_zeroed_get e \<longleftrightarrow> field 1 15 (e_bits e) \<noteq> 0"
  "extent_state_get e = state_of_code (field 2 16 (e_bits e))"
  "extent_szind_get e = field 8 18 (e_bits e)"
  "extent_nfree_get e = field 10 26 (e_bits e)"
  "extent_sn_get e = field 28 36 (e_bits e)"
  by (simp_all add: extent_arena_ind_get_def extent_slab_get_def extent_committed_get_def
      extent_dumpable_get_def extent_zeroed_get_def extent_state_get_def extent_szind_get_def
      extent_szind_get_maybe_invalid_def extent_nfree_get_def extent_sn_get_def SN_MASK_eq
      field_def extent_masks extent_widths extent_shifts)

lemma extent_setters:
  "extent_arena_set e (Some i) = e\<lparr>e_bits := put 12 0 (e_bits e) (ucast i)\<rparr>"
  "extent_arena_set e None = e\<lparr>e_bits := put 12 0 (e_bits e) 4095\<rparr>"
  "extent_slab_set e b = e\<lparr>e_bits := put 1 12 (e_bits e) (of_bool b)\<rparr>"
  "extent_committed_set e b = e\<lparr>e_bits := put 1 13 (e_bits e) (of_bool b)\<rparr>"
  "extent_dumpable_set e b = e\<lparr>e_bits := put 1 14 (e_bits e) (of_bool b)\<rparr>"
  "extent_zeroed_set e b = e\<lparr>e_bits := put 1 15 (e_bits e) (of_bool b)\<rparr>"
  "extent_state_set e s = e\<lparr>e_bits := put 2 16 (e_bits e) (of_nat (state_code s))\<rparr>"
  "extent_szind_set e i' = e\<lparr>e_bits := put 8 18 (e_bits e) (ucast i')\<rparr>"
  "extent_nfree_set e i' = e\<lparr>e_bits := put 10 26 (e_bits e) (ucast i')\<rparr>"
  "extent_sn_set e v = e\<lparr>e_bits := put 28 36 (e_bits e) v\<rparr>"
  by (simp_all add: extent_arena_set_def extent_slab_set_def extent_committed_set_def
      extent_dumpable_set_def extent_zeroed_set_def extent_state_set_def extent_szind_set_def
      extent_nfree_set_def extent_sn_set_def SN_MASK_eq put_def extent_masks extent_widths
      extent_shifts Let_def)

section \<open>The abstract descriptor\<close>

record extent_view =
  ev_arena :: nat
  ev_slab :: bool
  ev_committed :: bool
  ev_dumpable :: bool
  ev_zeroed :: bool
  ev_state :: extent_state
  ev_szind :: nat
  ev_nfree :: nat
  ev_sn :: nat
  ev_addr :: "64 word"
  ev_size :: size_t
  ev_esn :: size_t

definition extent_view :: "extent \<Rightarrow> extent_view" where
  "extent_view e = \<lparr>ev_arena = unat (extent_arena_ind_get e), ev_slab = extent_slab_get e,
     ev_committed = extent_committed_get e, ev_dumpable = extent_dumpable_get e,
     ev_zeroed = extent_zeroed_get e, ev_state = extent_state_get e,
     ev_szind = unat (extent_szind_get e), ev_nfree = unat (extent_nfree_get e),
     ev_sn = unat (extent_sn_get e), ev_addr = extent_addr_get e, ev_size = extent_size_get e,
     ev_esn = extent_esn_get e\<rparr>"

lemma unat_ucast_up: "unat (ucast (i :: 32 word) :: 64 word) = unat i"
  by (simp add: unsigned_ucast_eq take_bit_nat_eq_self order_less_trans [OF unat_lt2p])

lemma fits_of_bool: "fits 1 s (of_bool b)"
  by (rule fitsI) (cases b; simp)

lemma fits_state: "fits 2 16 (of_nat (state_code s))"
  by (rule fitsI) (cases s; simp)

lemma fits_ucast: "unat (i :: 32 word) < 2 ^ w \<Longrightarrow> fits w s (ucast i)"
  by (rule fitsI) (simp only: unat_ucast_up)

lemma fits_sn: "fits 28 36 v"
  by (auto simp: fits_def)

lemma take_bit_1_of_bool: "take_bit 1 (of_bool b :: uint64) = of_bool b"
  by (cases b) simp_all

lemma state_of_code_code: "state_of_code (take_bit 2 (of_nat (state_code s))) = s"
  by (cases s) (simp_all add: state_of_code_def)

lemma unat_take_bit_ucast: "unat (i :: 32 word) < 2 ^ w \<Longrightarrow> unat (take_bit w (ucast i :: uint64)) = unat i"
  using take_bit_fits [of "ucast i" w] by (simp only: unat_ucast_up)

lemma unat_take_bit: "unat (take_bit w (v :: uint64)) = unat v mod 2 ^ w"
  by (simp add: unsigned_take_bit_eq take_bit_eq_mod [of _ "unat v"])

lemmas view_simps = extent_view_def extent_getters extent_setters extent_addr_get_def
  extent_size_get_def extent_esn_get_def field_put_other field_put_same

text \<open>Each setter changes its own field and no other.\<close>

lemma view_arena_set: "unat i < 2 ^ 12 \<Longrightarrow>
    extent_view (extent_arena_set e (Some i)) = (extent_view e)\<lparr>ev_arena := unat i\<rparr>"
  by (simp add: view_simps fits_ucast unat_take_bit_ucast del: power_numeral)

lemma view_arena_set_None:
  "extent_view (extent_arena_set e None) = (extent_view e)\<lparr>ev_arena := 4095\<rparr>"
  using fitsI [of 4095 12] by (simp add: view_simps unat_take_bit)

lemma view_slab_set: "extent_view (extent_slab_set e b) = (extent_view e)\<lparr>ev_slab := b\<rparr>"
  by (simp add: view_simps fits_of_bool take_bit_1_of_bool del: One_nat_def)

lemma view_committed_set: "extent_view (extent_committed_set e b) = (extent_view e)\<lparr>ev_committed := b\<rparr>"
  by (simp add: view_simps fits_of_bool take_bit_1_of_bool del: One_nat_def)

lemma view_dumpable_set: "extent_view (extent_dumpable_set e b) = (extent_view e)\<lparr>ev_dumpable := b\<rparr>"
  by (simp add: view_simps fits_of_bool take_bit_1_of_bool del: One_nat_def)

lemma view_zeroed_set: "extent_view (extent_zeroed_set e b) = (extent_view e)\<lparr>ev_zeroed := b\<rparr>"
  by (simp add: view_simps fits_of_bool take_bit_1_of_bool del: One_nat_def)

lemma view_state_set: "extent_view (extent_state_set e s) = (extent_view e)\<lparr>ev_state := s\<rparr>"
  by (simp add: view_simps fits_state state_of_code_code)

lemma view_szind_set: "unat i < 2 ^ 8 \<Longrightarrow>
    extent_view (extent_szind_set e i) = (extent_view e)\<lparr>ev_szind := unat i\<rparr>"
  by (simp add: view_simps fits_ucast unat_take_bit_ucast del: power_numeral)

lemma view_nfree_set: "unat i < 2 ^ 10 \<Longrightarrow>
    extent_view (extent_nfree_set e i) = (extent_view e)\<lparr>ev_nfree := unat i\<rparr>"
  by (simp add: view_simps fits_ucast unat_take_bit_ucast del: power_numeral)

text \<open>The serial number keeps its low 28 bits.\<close>

lemma view_sn_set:
  "extent_view (extent_sn_set e v) = (extent_view e)\<lparr>ev_sn := unat v mod 2 ^ 28\<rparr>"
  by (simp add: view_simps fits_sn unat_take_bit)

lemma view_addr_set: "extent_view (extent_addr_set e a) = (extent_view e)\<lparr>ev_addr := a\<rparr>"
  by (simp add: view_simps extent_addr_set_def)

lemma PAGE_masks: "PAGE - 1 = mask 12" "EXTENT_SIZE_MASK = NOT (mask 12)" "EXTENT_ESN_MASK = mask 12"
  by (simp_all add: EXTENT_SIZE_MASK_def EXTENT_ESN_MASK_def PAGE_def LG_PAGE_def mask_eq_decr_exp)

lemma view_size_set:
  assumes "sz AND NOT EXTENT_SIZE_MASK = 0"
  shows "extent_view (extent_size_set e sz) = (extent_view e)\<lparr>ev_size := sz\<rparr>"
proof -
  have b: "\<not> bit sz n" if "n < 12" for n
  proof -
    have "\<not> bit (sz AND mask 12) n" using assms by (simp add: PAGE_masks)
    with that show ?thesis by (auto simp: bit_simps dest: bit_imp_le_length)
  qed
  have "(sz OR e_size_esn e AND mask 12) AND NOT (mask 12) = sz"
    using b by (intro bit_word_eqI) (auto simp: bit_simps)
  moreover have "(sz OR e_size_esn e AND mask 12) AND mask 12 = e_size_esn e AND mask 12"
    using b by (intro bit_word_eqI) (auto simp: bit_simps)
  ultimately show ?thesis by (simp add: view_simps extent_size_set_def PAGE_masks)
qed

lemma view_esn_set:
  "extent_view (extent_esn_set e n) = (extent_view e)\<lparr>ev_esn := n AND EXTENT_ESN_MASK\<rparr>"
proof -
  have "((e_size_esn e AND NOT (mask 12)) OR (n AND mask 12)) AND NOT (mask 12) = e_size_esn e AND NOT (mask 12)"
    "((e_size_esn e AND NOT (mask 12)) OR (n AND mask 12)) AND mask 12 = n AND mask 12"
    by (intro bit_word_eqI; auto simp: bit_simps)+
  then show ?thesis by (simp add: view_simps extent_esn_set_def PAGE_masks)
qed

text \<open>Adding to the field in place is storing the sum, as long as it stays in the field.\<close>

lemma put_add: "fits w s v \<Longrightarrow> put w s b v = (b AND NOT (EXTENT_MASK w s)) + push_bit s v"
  unfolding put_def
  by (intro disjunctive_add [symmetric])
    (auto simp: fits_def bit_simps bit_EXTENT_MASK dest: bit_imp_le_length)

lemma put_field: "put w s b (field w s b) = b"
proof (rule bit_word_eqI)
  fix n assume "n < LENGTH(64)"
  moreover have "fits w s (field w s b)" by (simp add: fits_def bit_field)
  ultimately show "bit (put w s b (field w s b)) n = bit b n" by (auto simp: bit_put bit_field)
qed

lemma fits_field: "fits w s (field w s b)"
  by (simp add: fits_def bit_field)

lemma add_to_field:
  assumes "fits w s (field w s b + 1)"
  shows "b + push_bit s 1 = put w s b (field w s b + 1)"
proof -
  have "b = (b AND NOT (EXTENT_MASK w s)) + push_bit s (field w s b)"
    using put_add [OF fits_field, of w s b b] by (simp only: put_field)
  then have "b + push_bit s 1 = (b AND NOT (EXTENT_MASK w s)) + (push_bit s (field w s b) + push_bit s 1)"
    by (metis add.assoc)
  also have "push_bit s (field w s b) + push_bit s 1 = push_bit s (field w s b + 1)"
    by (rule push_bit_add [symmetric])
  finally show ?thesis by (simp only: put_add [OF assms])
qed

lemma subtract_from_field:
  assumes "fits w s (field w s b - 1)"
  shows "b - push_bit s 1 = put w s b (field w s b - 1)"
proof -
  have "b = (b AND NOT (EXTENT_MASK w s)) + push_bit s (field w s b)"
    using put_add [OF fits_field, of w s b b] by (simp only: put_field)
  then have "b - push_bit s 1 = (b AND NOT (EXTENT_MASK w s)) + (push_bit s (field w s b) - push_bit s 1)"
    by (metis add_diff_eq)
  also have "push_bit s (field w s b) - push_bit s 1 = push_bit s (field w s b - 1)"
    by (simp only: push_bit_eq_mult left_diff_distrib mult_1)
  finally show ?thesis by (simp only: put_add [OF assms])
qed

lemma unat_field_less: "unat (field w s b) < 2 ^ w"
proof (cases "w < 64")
  case True
  have "field w s b = take_bit w (field w s b)"
    by (rule bit_word_eqI) (auto simp: bit_field bit_simps)
  then have "unat (field w s b) = unat (field w s b) mod 2 ^ w" by (metis unat_take_bit)
  then show ?thesis by (metis mod_less_divisor zero_less_numeral zero_less_power)
next
  case False
  then have "(2::nat) ^ 64 \<le> 2 ^ w" by (intro power_increasing) simp_all
  with unat_lt2p [of "field w s b"] show ?thesis by simp
qed

lemma view_nfree_inc:
  assumes "unat (extent_nfree_get e) + 1 < 2 ^ 10"
  shows "extent_view (extent_nfree_inc e) = (extent_view e)\<lparr>ev_nfree := ev_nfree (extent_view e) + 1\<rparr>"
proof -
  let ?f = "field 10 26 (e_bits e)"
  have u: "unat (?f + 1) = unat ?f + 1" using assms by (simp add: unat_add_eq extent_getters)
  then have f: "fits 10 26 (?f + 1)" using assms by (intro fitsI) (simp add: extent_getters)
  have "take_bit 10 (?f + 1) = ?f + 1" using u assms by (intro take_bit_fits) (simp add: extent_getters)
  then show ?thesis
    using f u add_to_field [OF f]
    by (simp add: view_simps extent_nfree_inc_def extent_shifts extent_widths del: push_bit_of_1)
qed

lemma view_nfree_dec:
  assumes "0 < unat (extent_nfree_get e)"
  shows "extent_view (extent_nfree_dec e) = (extent_view e)\<lparr>ev_nfree := ev_nfree (extent_view e) - 1\<rparr>"
proof -
  let ?f = "field 10 26 (e_bits e)"
  have u: "unat (?f - 1) = unat ?f - 1" using assms by (subst unat_diff_eq) (simp_all add: extent_getters)
  have l: "unat (?f - 1) < 2 ^ 10" unfolding u using unat_field_less [of 10 26 "e_bits e"] by linarith
  then have f: "fits 10 26 (?f - 1)" by (rule fitsI)
  have "take_bit 10 (?f - 1) = ?f - 1" using l by (rule take_bit_fits)
  then show ?thesis
    using f u subtract_from_field [OF f]
    by (simp add: view_simps extent_nfree_dec_def extent_shifts extent_widths del: push_bit_of_1)
qed

section \<open>Properties of the descriptor\<close>

text \<open>\<open>extent_init\<close> stores every value so that its accessor reads it back: whatever the words
  held before, the view is the one of the arguments, for an arena index, a size class index and a
  page-multiple size in their ranges. Of the serial number the low 28 bits are kept. The count
  of free regions and the serial number of the descriptor are left as they were.\<close>

theorem extent_init_view:
  assumes "unat ind < 2 ^ 12" "unat szind \<le> SC_NSIZES" "sz AND NOT EXTENT_SIZE_MASK = 0"
  shows "extent_view (extent_init e (Some ind) addr sz slab szind sn state zeroed committed dumpable)
    = \<lparr>ev_arena = unat ind, ev_slab = slab, ev_committed = committed, ev_dumpable = dumpable,
       ev_zeroed = zeroed, ev_state = state, ev_szind = unat szind,
       ev_nfree = ev_nfree (extent_view e), ev_sn = unat sn mod 2 ^ 28, ev_addr = addr,
       ev_size = sz, ev_esn = ev_esn (extent_view e)\<rparr>"
proof -
  have "unat szind < 2 ^ 8" using assms(2) by (simp add: sc_macro_values(1))
  then show ?thesis
    using assms(1,3)
    by (simp only: extent_init_def Let_def view_arena_set view_addr_set view_size_set view_slab_set
        view_szind_set view_sn_set view_state_set view_zeroed_set view_committed_set
        view_dumpable_set extent_view.simps) (simp add: extent_view_def)
qed

theorem extent_init_view_witness:
  "extent_view (extent_init \<lparr>e_self = 0, e_bits = - 1, e_addr = 7, e_size_esn = 5, e_slab_bitmap = []\<rparr>
      (Some 3) 8192 4096 True 9 (2 ^ 28 + 6) extent_state_dirty False True True)
    = \<lparr>ev_arena = unat (3 :: 32 word), ev_slab = True, ev_committed = True, ev_dumpable = True,
       ev_zeroed = False, ev_state = extent_state_dirty, ev_szind = unat (9 :: 32 word),
       ev_nfree = ev_nfree (extent_view \<lparr>e_self = 0, e_bits = - 1, e_addr = 7, e_size_esn = 5, e_slab_bitmap = []\<rparr>),
       ev_sn = unat (2 ^ 28 + 6 :: size_t) mod 2 ^ 28, ev_addr = 8192, ev_size = 4096,
       ev_esn = ev_esn (extent_view \<lparr>e_self = 0, e_bits = - 1, e_addr = 7, e_size_esn = 5, e_slab_bitmap = []\<rparr>)\<rparr>"
  by (rule extent_init_view) (simp_all add: sc_macro_values(1) EXTENT_SIZE_MASK_def PAGE_def LG_PAGE_def)



section \<open>The random offset\<close>

lemma unat_CACHELINE_CEILING:
  "unat s + 63 < 2 ^ 64 \<Longrightarrow> unat (CACHELINE_CEILING s) = nat_round_up 64 (unat s)"
proof -
  assume a: "unat s + 63 < 2 ^ 64"
  have "CACHELINE_CEILING s = (s + mask 6) AND NOT (mask 6)"
    by (simp add: CACHELINE_CEILING_def mask_eq_decr_exp)
  moreover have "unat ((s + mask 6) AND NOT (mask 6)) = nat_round_up (2 ^ 6) (unat s)"
    by (rule unat_round_up) (use a in simp_all)
  ultimately show ?thesis by simp
qed

text \<open>For an alignment \<open>2 ^ a\<close> below a page: the unit of the offset.\<close>

lemma lg_CACHELINE_CEILING:
  assumes "a < 12" shows "lg_floor (CACHELINE_CEILING (2 ^ a)) = max 6 a"
proof -
  have p: "unat (2 ^ a :: size_t) = 2 ^ a" using assms by (intro unat_pow2) simp
  have "(2::nat) ^ a \<le> 2 ^ 11" using assms by (intro power_increasing) simp_all
  then have u: "unat (CACHELINE_CEILING (2 ^ a)) = nat_round_up 64 (2 ^ a)"
    using p by (subst unat_CACHELINE_CEILING) simp_all
  have "nat_round_up 64 (2 ^ a) = 2 ^ max 6 a"
  proof (cases "a \<le> 6")
    case True
    then have "(2::nat) ^ a \<le> 2 ^ 6" by (intro power_increasing) simp_all
    then have "nat_round_up 64 (2 ^ a) = 64"
      by (simp add: nat_round_up_pred)
    with True show ?thesis by (simp add: max_def)
  next
    case False
    then have "(2::nat) ^ 6 dvd 2 ^ a" by (intro le_imp_power_dvd) simp
    then have "nat_round_up 64 (2 ^ a) = 2 ^ a"
      by (intro order_antisym nat_round_up_least nat_round_up_ge) simp_all
    with False show ?thesis by (simp add: max_def)
  qed
  with u show ?thesis by (simp add: lg_floor_eq_nat_lg)
qed

lemma drop_bit_less: "k \<le> 64 \<Longrightarrow> unat (drop_bit (64 - k) (w :: 64 word)) < 2 ^ k"
proof -
  assume "k \<le> 64"
  then have "unat w < 2 ^ k * 2 ^ (64 - k)" using unat_lt2p [of w] by (simp flip: power_add)
  then show ?thesis by (simp add: unat_drop_bit_div less_mult_imp_div_less)
qed

lemma page_offset:
  fixes p off :: "64 word"
  assumes "PAGE_ADDR2BASE p = p" "unat off < 4096"
  shows "PAGE_ADDR2BASE (p + off) = p" "unat (p + off) = unat p + unat off" "4096 dvd unat p"
proof -
  have m: "PAGE_MASK = mask 12" by (simp add: PAGE_MASK_def PAGE_masks)
  have "unat (PAGE_ADDR2BASE p) = unat p div 2 ^ 12 * 2 ^ 12"
    by (simp only: PAGE_ADDR2BASE_def m unat_and_not_mask)
  then have "unat p = unat p div 2 ^ 12 * 2 ^ 12" using assms(1) by simp
  then have "2 ^ 12 dvd unat p" by (metis dvd_triv_right)
  then show d: "4096 dvd unat p" by simp
  then obtain q where q: "unat p = 4096 * q" by blast
  have "q < 2 ^ 52" using unat_lt2p [of p] q by simp
  then have l: "unat p + unat off < 2 ^ 64" using q assms(2) by simp
  then show u: "unat (p + off) = unat p + unat off" by (simp add: unat_add_eq)
  have "unat (PAGE_ADDR2BASE (p + off)) = unat (p + off) div 2 ^ 12 * 2 ^ 12"
    by (simp only: PAGE_ADDR2BASE_def m unat_and_not_mask)
  also have "\<dots> = unat p" using q assms(2) by (simp add: u)
  finally show "PAGE_ADDR2BASE (p + off) = p" by (simp add: word_unat_eq_iff)
qed

lemma randomize_offset:
  assumes "a < 12" "r = drop_bit (64 - (12 - max 6 a)) w"
  shows "unat (push_bit (12 - (12 - max 6 a)) r :: 64 word) < 4096"
    "2 ^ max 6 a dvd unat (push_bit (12 - (12 - max 6 a)) r :: 64 word)"
proof -
  define k where "k = max 6 a"
  have k: "k < 12" "12 - (12 - k) = k" using assms(1) by (auto simp: k_def)
  have r: "unat r < 2 ^ (12 - k)" unfolding assms(2) k_def [symmetric] by (rule drop_bit_less) simp
  have "unat r * 2 ^ k < 2 ^ (12 - k) * 2 ^ k" using r by simp
  also have "\<dots> = 2 ^ 12" using k(1) by (simp flip: power_add)
  finally have l: "unat r * 2 ^ k < 4096" by simp
  then have u: "unat (push_bit k r) = unat r * 2 ^ k"
    by (intro unat_push_bit_eq) simp
  show "unat (push_bit (12 - (12 - max 6 a)) r :: 64 word) < 4096"
    "2 ^ max 6 a dvd unat (push_bit (12 - (12 - max 6 a)) r :: 64 word)"
    using l u k unfolding k_def [symmetric] by simp_all
qed

lemma addr_randomize_ok:
  assumes "a < 64" "extent_base_get e = extent_addr_get e"
  shows "\<exists>st' e'. extent_addr_randomize st e (2 ^ a) = Some (st', e')
    \<and> extent_base_get e' = extent_base_get e \<and> e_bits e' = e_bits e \<and> e_size_esn e' = e_size_esn e
    \<and> unat (extent_addr_get e) \<le> unat (extent_addr_get e')
    \<and> unat (extent_addr_get e') < unat (extent_addr_get e) + 4096
    \<and> (if a < 12 then 2 ^ max 6 a dvd unat (extent_addr_get e') else st' = st \<and> e' = e)"
proof (cases "a < 12")
  case True
  let ?lg = "12 - max 6 a"
  have al: "(2 ^ a :: size_t) < PAGE"
    using True power_strict_increasing [of a 12 "2 :: nat"]
    by (simp add: word_less_nat_alt PAGE_def LG_PAGE_def unat_two_power)
  obtain w st' where w: "extent_addr_randomize st e (2 ^ a) = Some (st',
      e\<lparr>e_addr := e_addr e + push_bit (12 - ?lg) (drop_bit (64 - ?lg) w)\<rparr>)"
  proof (cases st)
    case (Tsd_state s)
    then show thesis using that [of "Tsd_state (prng_state_next_u64 s)" "prng_state_next_u64 s"] al
      by (simp only: extent_addr_randomize_def lg_CACHELINE_CEILING [OF True] Let_def if_True offset_state.case prng_lg_range_u64_def
          prod.case option.map LG_PAGE_def)
  next
    case (Arena_state s)
    then show thesis using that [of "Arena_state (prng_state_next_zu s)" "prng_state_next_zu s"] al
      by (simp only: extent_addr_randomize_def lg_CACHELINE_CEILING [OF True] Let_def if_True offset_state.case prng_lg_range_zu_eq
          prod.case option.map LG_PAGE_def)
  qed
  note off = randomize_offset [OF True refl, of w]
  have p: "PAGE_ADDR2BASE (e_addr e) = e_addr e"
    using assms(2) by (simp add: extent_base_get_def extent_addr_get_def)
  note po = page_offset [OF p off(1)]
  have "2 ^ max 6 a dvd (4096 :: nat)" using True le_imp_power_dvd [of "max 6 a" 12 "2 :: nat"] by simp
  then have "2 ^ max 6 a dvd unat (e_addr e)" using po(3) by (rule dvd_trans)
  then have "2 ^ max 6 a dvd unat (e_addr e + push_bit (12 - ?lg) (drop_bit (64 - ?lg) w))"
    unfolding po(2) using off(2) by (rule dvd_add)
  then show ?thesis
    using w po(1,2) off(1) p True
    by (simp add: extent_base_get_def extent_addr_get_def)
next
  case False
  then have "(2::nat) ^ 12 \<le> 2 ^ a" by (intro power_increasing) simp_all
  then have "\<not> (2 ^ a :: size_t) < PAGE"
    using assms(1) by (simp add: word_less_nat_alt PAGE_def LG_PAGE_def unat_two_power)
  with False show ?thesis by (simp add: extent_addr_randomize_def)
qed

text \<open>Randomising the address of a page-aligned extent for an alignment of a power of two keeps
  the address inside the first page, so that the base, and with it the registered pages, stay the
  same, and aligned to the alignment and the cache line; from a page on nothing changes.\<close>

theorem addr_randomize_correct:
  assumes "a < 64" "extent_base_get e = extent_addr_get e"
  shows "\<exists>st' e'. extent_addr_randomize st e (2 ^ a) = Some (st', e')
    \<and> extent_base_get e' = extent_base_get e \<and> e_bits e' = e_bits e \<and> e_size_esn e' = e_size_esn e
    \<and> unat (extent_addr_get e) \<le> unat (extent_addr_get e')
    \<and> unat (extent_addr_get e') < unat (extent_addr_get e) + 4096
    \<and> (if a < 12 then 2 ^ max 6 a dvd unat (extent_addr_get e') else st' = st \<and> e' = e)"
  by (rule addr_randomize_ok [OF assms])

theorem addr_randomize_correct_witness:
  "\<exists>st' e'. extent_addr_randomize (Tsd_state 1)
      \<lparr>e_self = 0, e_bits = 0, e_addr = 8192, e_size_esn = 0, e_slab_bitmap = []\<rparr> (2 ^ 7) = Some (st', e')
    \<and> 2 ^ max 6 7 dvd unat (extent_addr_get e')"
proof -
  have "extent_base_get \<lparr>e_self = 0, e_bits = 0, e_addr = 8192, e_size_esn = 0, e_slab_bitmap = []\<rparr>
    = extent_addr_get \<lparr>e_self = 0, e_bits = 0, e_addr = 8192, e_size_esn = 0, e_slab_bitmap = []\<rparr>"
    by (simp add: extent_base_get_def extent_addr_get_def PAGE_ADDR2BASE_def PAGE_MASK_def PAGE_def LG_PAGE_def)
  from addr_randomize_correct [OF _ this, of 7 "Tsd_state 1"] show ?thesis by auto
qed

end
