(* ===== verification/Slab.thy ===== *)
theory Slab
  imports Extent Div
begin

text \<open>
  src/bin.c and the slab part of src/arena.c: the regions of a slab are handed out through its
  bitmap, its count of free regions, and the exact division that turns a pointer back into a
  region number. The extent is the one of Extent; the pages themselves are not modelled.
\<close>

section \<open>Bins\<close>

record bin_info =
  bin_reg_size :: size_t
  bin_slab_size :: size_t
  bin_nregs :: "32 word"
  bin_bitmap_info :: bitmap_info

text \<open>One pass of the loop of \<open>bin_infos_init\<close>.\<close>

definition bin_info_of :: "sc_t \<Rightarrow> bin_info" where
  "bin_info_of sc =
     (let reg_size = push_bit (sc_lg_base sc) 1 + push_bit (sc_lg_delta sc) (of_nat (sc_ndelta sc));
          slab_size = push_bit LG_PAGE (of_nat (sc_pgs sc));
          nregs = ucast (slab_size div reg_size)
      in \<lparr>bin_reg_size = reg_size, bin_slab_size = slab_size, bin_nregs = nregs,
          bin_bitmap_info = bitmap_info_init (unat nregs)\<rparr>)"

definition bin_infos_init :: "sc_data_t \<Rightarrow> bin_info list" where
  "bin_infos_init sc_data = map bin_info_of (take SC_NBINS (sd_sc sc_data))"

definition bin_boot :: "sc_data_t \<Rightarrow> bin_info list" where
  "bin_boot sc_data = bin_infos_init sc_data"

text \<open>The loop of \<open>arena_boot\<close>; the divisor is computed on unsigned ints.\<close>

definition arena_boot_div :: "sc_data_t \<Rightarrow> div_info list" where
  "arena_boot_div sc_data = map (\<lambda>sc. div_init (ucast
       (push_bit (sc_lg_base sc) 1 + push_bit (sc_lg_delta sc) (of_nat (sc_ndelta sc)) :: 32 word)))
     (take SC_NBINS (sd_sc sc_data))"

section \<open>Regions\<close>

definition BITMAP_GROUPS_MAX :: nat where "BITMAP_GROUPS_MAX = BITMAP_BITS2GROUPS (unat BITMAP_MAXBITS)"

text \<open>The initialisation at the end of \<open>arena_slab_alloc\<close>.\<close>

definition arena_slab_init :: "extent \<Rightarrow> bin_info \<Rightarrow> extent option" where
  "arena_slab_init slab bin_info =
     (let slab = extent_nfree_set slab (bin_nregs bin_info)
      in map_option (\<lambda>bm. slab\<lparr>e_slab_bitmap := bm\<rparr>)
           (bitmap_init (extent_slab_data_get slab) (bin_bitmap_info bin_info) False))"

definition arena_slab_reg_alloc :: "extent \<Rightarrow> bin_info \<Rightarrow> (64 word \<times> extent) option" where
  "arena_slab_reg_alloc slab bin_info =
     map_option (\<lambda>(regind, bm).
         let ret = extent_addr_get slab + bin_reg_size bin_info * of_nat regind
         in (ret, extent_nfree_dec (slab\<lparr>e_slab_bitmap := bm\<rparr>)))
       (bitmap_sfu (extent_slab_data_get slab) (bin_bitmap_info bin_info))"

definition arena_slab_regind :: "div_info list \<Rightarrow> extent \<Rightarrow> nat \<Rightarrow> 64 word \<Rightarrow> size_t option" where
  "arena_slab_regind divs slab binind ptr =
     (let diff = ptr - extent_addr_get slab
      in map_option (\<lambda>div_info. div_compute div_info diff) (read_at divs binind))"

definition arena_slab_reg_dalloc ::
  "bin_info list \<Rightarrow> div_info list \<Rightarrow> extent \<Rightarrow> 64 word \<Rightarrow> extent option" where
  "arena_slab_reg_dalloc bins divs slab ptr =
     (let binind = unat (extent_szind_get slab)
      in Option.bind (read_at bins binind) (\<lambda>bin_info.
         Option.bind (arena_slab_regind divs slab binind ptr) (\<lambda>regind.
         map_option (\<lambda>bm. extent_nfree_inc (slab\<lparr>e_slab_bitmap := bm\<rparr>))
           (bitmap_unset (extent_slab_data_get slab) (bin_bitmap_info bin_info) (unat regind)))))"

section \<open>The bins of a table\<close>

text \<open>What the slab code needs of a bin: \<open>r\<close> bytes per region, \<open>n\<close> regions.\<close>

definition bin_ok :: "bin_info \<Rightarrow> div_info \<Rightarrow> nat \<Rightarrow> nat \<Rightarrow> bool" where
  "bin_ok bi dv r n \<longleftrightarrow> unat (bin_reg_size bi) = r \<and> unat (bin_nregs bi) = n
     \<and> bin_bitmap_info bi = bitmap_info_init n \<and> dv = div_init (bin_reg_size bi)
     \<and> 1 < r \<and> r < 16384 \<and> 0 < n \<and> n \<le> 512 \<and> n * r \<le> unat (bin_slab_size bi)
     \<and> unat (bin_slab_size bi) < 2 ^ 32"

lemma bin_of_table:
  assumes "table_inv d" "i < SC_NBINS"
  shows "i < length (bin_boot d)" "i < length (arena_boot_div d)"
    "bin_ok (bin_boot d ! i) (arena_boot_div d ! i) (class_size i) (unat (bin_nregs (bin_boot d ! i)))"
proof -
  have i: "i < 36" using assms(2) by (simp add: sc_macro_values(3))
  have g: "map geometry (sd_sc d) = map (\<lambda>i. geometry (sc_entry i)) [0..<232]"
    and fit: "bins_fit d" using assms(1) by (auto simp: table_inv_def)
  have len: "length (sd_sc d) = 232" using arg_cong [OF g, of length] by simp
  then show l: "i < length (bin_boot d)" "i < length (arena_boot_div d)"
    using i by (simp_all add: bin_boot_def bin_infos_init_def arena_boot_div_def sc_macro_values(3))
  define sc where "sc = sd_sc d ! i"
  have "map geometry (sd_sc d) ! i = map (\<lambda>i. geometry (sc_entry i)) [0..<232] ! i" by (simp only: g)
  then have gi: "geometry sc = geometry (sc_entry i)" using i len by (simp add: sc_def del: upt_rec_numeral)
  have b: "bin_boot d ! i = bin_info_of sc" "arena_boot_div d ! i = div_init (ucast
       (push_bit (sc_lg_base sc) 1 + push_bit (sc_lg_delta sc) (of_nat (sc_ndelta sc)) :: 32 word))"
    using i len by (simp_all add: bin_boot_def bin_infos_init_def arena_boot_div_def sc_def sc_macro_values(3))
  define r where "r = (push_bit (sc_lg_base sc) 1 + push_bit (sc_lg_delta sc) (of_nat (sc_ndelta sc)) :: size_t)"
  have rr: "r = reg_size_compute (sc_lg_base sc) (sc_lg_delta sc) (sc_ndelta sc)"
    by (simp add: r_def reg_size_compute_def)
  have ge: "sc_lg_base sc = class_lg_base i" "sc_lg_delta sc = class_lg_delta i"
    "sc_ndelta sc = class_ndelta i" "sc_bin sc \<longleftrightarrow> i < 36"
    using gi by (simp_all add: geometry_def sc_entry_def class_size_bin del: power_numeral)
  have ur: "unat r = class_size i" unfolding rr ge using i by (simp add: unat_reg_size_entry)
  have r8: "8 \<le> class_size i" using class_size_le_iff [of 0 i] by (simp add: class_size_small)
  have rb: "class_size i < 16384" using class_size_bin [of i] i by simp
  have "sc \<in> set (sd_sc d)" using i len by (simp add: sc_def)
  then have sf: "slab_fits sc" using fit ge(4) i by (auto simp: bins_fit_def)
  define n where "n = slab_nregs sc"
  have n: "n = sc_pgs sc * 4096 div class_size i" "0 < n" "n \<le> 512"
    using sf ur by (simp_all add: n_def slab_fits_def slab_nregs_def rr LG_PAGE_def BITMAP_MAXBITS_eq)
  have ps: "sc_pgs sc * 4096 < 2 ^ 32"
  proof -
    have "sc_pgs sc * 4096 < (n + 1) * class_size i"
      using r8 n(1) by (metis Suc_eq_plus1 dividend_less_div_times less_le_trans mult_Suc
          zero_less_numeral)
    also have "\<dots> \<le> 513 * 16384" using n(3) rb by (intro mult_le_mono) simp_all
    finally show ?thesis by simp
  qed
  have us: "unat (push_bit LG_PAGE (of_nat (sc_pgs sc)) :: size_t) = sc_pgs sc * 4096"
  proof -
    have "unat (of_nat (sc_pgs sc) :: size_t) = sc_pgs sc" using ps by (intro unat_of_nat_eq) simp
    then show ?thesis using ps by (subst unat_push_bit_eq) (simp_all add: LG_PAGE_def)
  qed
  have un: "unat (ucast ((push_bit LG_PAGE (of_nat (sc_pgs sc)) :: size_t) div r) :: 32 word) = n"
    using n us ur by (subst unat_ucast_32) (simp_all add: unat_div)
  have dv: "ucast (push_bit (sc_lg_base sc) 1 + push_bit (sc_lg_delta sc) (of_nat (sc_ndelta sc)) :: 32 word) = r"
  proof -
    let ?w = "push_bit (class_lg_base i) 1 + push_bit (class_lg_delta i) (of_nat (class_ndelta i)) :: 32 word"
    have "?w = of_nat (class_size i)" by (simp add: class_size_def push_bit_eq_mult)
    moreover have "unat (of_nat (class_size i) :: 32 word) = class_size i"
      using rb by (intro unat_of_nat_eq) simp
    ultimately have "unat (ucast ?w :: 64 word) = unat r" by (simp add: unat_ucast_64 ur)
    then show ?thesis unfolding ge by (simp add: word_unat_eq_iff)
  qed
  have "n * class_size i \<le> sc_pgs sc * 4096" unfolding n(1) by (rule div_times_less_eq_dividend)
  moreover have "bin_info_of sc = \<lparr>bin_reg_size = r,
      bin_slab_size = push_bit LG_PAGE (of_nat (sc_pgs sc)),
      bin_nregs = ucast ((push_bit LG_PAGE (of_nat (sc_pgs sc)) :: size_t) div r),
      bin_bitmap_info = bitmap_info_init n\<rparr>"
    by (simp only: bin_info_of_def Let_def r_def [symmetric] un)
  ultimately show "bin_ok (bin_boot d ! i) (arena_boot_div d ! i) (class_size i) (unat (bin_nregs (bin_boot d ! i)))"
    using ur un us n(2,3) ps r8 rb by (simp only: b dv bin_ok_def bin_info.simps) simp
qed

section \<open>The slab\<close>

text \<open>
  The states of a slab of bin \<open>i\<close>, with the set of the pointers that are allocated: after the
  initialisation, any sequence of allocations while the count is positive, as the callers check,
  and of deallocations of allocated pointers.
\<close>

inductive slab_state :: "sc_data_t \<Rightarrow> nat \<Rightarrow> extent \<Rightarrow> extent \<Rightarrow> 64 word set \<Rightarrow> bool"
  for d i s0 where
  init: "arena_slab_init s0 (bin_boot d ! i) = Some s \<Longrightarrow> slab_state d i s0 s {}"
| alloc: "slab_state d i s0 s L \<Longrightarrow> 0 < extent_nfree_get s \<Longrightarrow>
    arena_slab_reg_alloc s (bin_boot d ! i) = Some (p, s') \<Longrightarrow> slab_state d i s0 s' (insert p L)"
| dalloc: "slab_state d i s0 s L \<Longrightarrow> p \<in> L \<Longrightarrow>
    arena_slab_reg_dalloc (bin_boot d) (arena_boot_div d) s p = Some s' \<Longrightarrow>
    slab_state d i s0 s' (L - {p})"

text \<open>The extent before the initialisation: pages for the bin, which do not wrap around.\<close>

definition slab_extent :: "sc_data_t \<Rightarrow> nat \<Rightarrow> extent \<Rightarrow> bool" where
  "slab_extent d i s0 \<longleftrightarrow> unat (extent_szind_get s0) = i \<and> length (e_slab_bitmap s0) = BITMAP_GROUPS_MAX
     \<and> unat (extent_addr_get s0) + unat (bin_slab_size (bin_boot d ! i)) \<le> 2 ^ 64"

definition region :: "bin_info \<Rightarrow> extent \<Rightarrow> nat \<Rightarrow> 64 word" where
  "region bi s b = extent_addr_get s + bin_reg_size bi * of_nat b"

definition slab_inv :: "nat \<Rightarrow> bin_info \<Rightarrow> nat \<Rightarrow> extent \<Rightarrow> extent \<Rightarrow> 64 word set \<Rightarrow> bool" where
  "slab_inv i bi n s0 s L \<longleftrightarrow> bitmap_inv n (e_slab_bitmap s)
     \<and> extent_addr_get s = extent_addr_get s0 \<and> unat (extent_szind_get s) = i
     \<and> unat (extent_nfree_get s) + card (bitmap_used n (e_slab_bitmap s)) = n
     \<and> L = region bi s0 ` bitmap_used n (e_slab_bitmap s)"

lemma unat_region:
  assumes "bin_ok bi dv r n" "unat (extent_addr_get s) + unat (bin_slab_size bi) \<le> 2 ^ 64" "b < n"
  shows "unat (region bi s b) = unat (extent_addr_get s) + b * r" "b * r < 2 ^ 32"
    "unat (bin_reg_size bi * of_nat b) = b * r"
proof -
  have k: "unat (bin_reg_size bi) = r" "n * r \<le> unat (bin_slab_size bi)" "unat (bin_slab_size bi) < 2 ^ 32"
    "0 < r" "n \<le> 512" using assms(1) by (simp_all add: bin_ok_def)
  have l: "b * r < n * r" using assms(3) k(4) by simp
  with k(2,3) show s: "b * r < 2 ^ 32" by linarith
  have "unat (of_nat b :: size_t) = b" using assms(3) k(5) by (intro unat_of_nat_eq) simp
  then show u: "unat (bin_reg_size bi * of_nat b) = b * r"
    using s k(1) by (subst unat_mult_eq) (simp_all add: mult.commute)
  show "unat (region bi s b) = unat (extent_addr_get s) + b * r"
  proof -
    have "unat (extent_addr_get s) + b * r < 2 ^ 64" using assms(2) l k(2) by linarith
    then show ?thesis unfolding region_def using u by (subst unat_add_eq) simp_all
  qed
qed

lemma region_inj:
  assumes "bin_ok bi dv r n" "unat (extent_addr_get s) + unat (bin_slab_size bi) \<le> 2 ^ 64"
  shows "inj_on (region bi s) {..<n}"
proof (rule inj_onI)
  fix b c assume "b \<in> {..<n}" "c \<in> {..<n}" "region bi s b = region bi s c"
  then have "b * r = c * r" using unat_region(1) [OF assms] by (metis add_left_cancel lessThan_iff)
  moreover have "0 < r" using assms(1) by (simp add: bin_ok_def)
  ultimately show "b = c" by simp
qed

lemma regind_region:
  assumes "bin_ok bi dv r n" "unat (extent_addr_get s0) + unat (bin_slab_size bi) \<le> 2 ^ 64" "b < n"
    and "read_at divs i = Some dv" "extent_addr_get s = extent_addr_get s0"
  shows "map_option unat (arena_slab_regind divs s i (region bi s0 b)) = Some b"
proof -
  note u = unat_region [OF assms(1-3)]
  have "region bi s0 b - extent_addr_get s = bin_reg_size bi * of_nat b"
    by (simp add: region_def assms(5))
  moreover have "unat (div_compute dv (bin_reg_size bi * of_nat b)) = b"
    using assms(1) u by (simp add: bin_ok_def) (intro div_compute_mult; simp)
  ultimately show ?thesis using assms(4) by (simp add: arena_slab_regind_def Let_def)
qed

text \<open>What the counters do to the rest of the descriptor.\<close>

lemma nfree_dec_fields:
  assumes "0 < unat (extent_nfree_get e)"
  shows "unat (extent_nfree_get (extent_nfree_dec e)) = unat (extent_nfree_get e) - 1"
    "unat (extent_szind_get (extent_nfree_dec e)) = unat (extent_szind_get e)"
    "extent_addr_get (extent_nfree_dec e) = extent_addr_get e"
    "e_slab_bitmap (extent_nfree_dec e) = e_slab_bitmap e"
  using view_nfree_dec [OF assms] by (simp_all add: extent_view_def extent_nfree_dec_def)

lemma nfree_inc_fields:
  assumes "unat (extent_nfree_get e) + 1 < 2 ^ 10"
  shows "unat (extent_nfree_get (extent_nfree_inc e)) = unat (extent_nfree_get e) + 1"
    "unat (extent_szind_get (extent_nfree_inc e)) = unat (extent_szind_get e)"
    "extent_addr_get (extent_nfree_inc e) = extent_addr_get e"
    "e_slab_bitmap (extent_nfree_inc e) = e_slab_bitmap e"
  using view_nfree_inc [OF assms] by (simp_all add: extent_view_def extent_nfree_inc_def)

lemma nfree_set_fields:
  assumes "unat n < 2 ^ 10"
  shows "unat (extent_nfree_get (extent_nfree_set e n)) = unat n"
    "unat (extent_szind_get (extent_nfree_set e n)) = unat (extent_szind_get e)"
    "extent_addr_get (extent_nfree_set e n) = extent_addr_get e"
    "e_slab_bitmap (extent_nfree_set e n) = e_slab_bitmap e"
  using view_nfree_set [OF assms] by (simp_all add: extent_view_def extent_nfree_set_def)

lemma bitmap_field_irrelevant:
  "extent_nfree_get (s\<lparr>e_slab_bitmap := bm\<rparr>) = extent_nfree_get s"
  "extent_szind_get (s\<lparr>e_slab_bitmap := bm\<rparr>) = extent_szind_get s"
  "extent_addr_get (s\<lparr>e_slab_bitmap := bm\<rparr>) = extent_addr_get s"
  by (simp_all add: extent_nfree_get_def extent_szind_get_def extent_szind_get_maybe_invalid_def
      extent_addr_get_def)

lemma slab_inv_init:
  assumes "bin_ok bi dv r n" "unat (extent_szind_get s0) = i" "length (e_slab_bitmap s0) = BITMAP_GROUPS_MAX"
  shows "\<exists>s. arena_slab_init s0 bi = Some s \<and> slab_inv i bi n s0 s {}"
proof -
  have n: "unat (bin_nregs bi) = n" "bin_bitmap_info bi = bitmap_info_init n" "0 < n" "n \<le> 512"
    using assms(1) by (simp_all add: bin_ok_def)
  have f: "unat (bin_nregs bi) < 2 ^ 10" using n by simp
  note nf = nfree_set_fields [OF f, of s0]
  have "BITMAP_BITS2GROUPS n \<le> length (e_slab_bitmap s0)"
    using n(4) by (simp add: assms(3) BITMAP_GROUPS_MAX_def BITMAP_MAXBITS_eq BITMAP_BITS2GROUPS_eq div_le_mono)
  from bitmap_init_unset [OF n(3) this] obtain bm where
    bm: "bitmap_init (e_slab_bitmap s0) (bitmap_info_init n) False = Some bm" "bitmap_inv n bm"
      "bitmap_used n bm = {}" by blast
  then show ?thesis
    using nf n assms(2)
    by (simp add: arena_slab_init_def slab_inv_def Let_def extent_slab_data_get_def
        bitmap_field_irrelevant)
qed

lemma slab_inv_alloc:
  assumes "bin_ok bi dv r n" "slab_inv i bi n s0 s L" "0 < extent_nfree_get s"
    and "unat (extent_addr_get s0) + unat (bin_slab_size bi) \<le> 2 ^ 64"
  shows "\<exists>b s'. arena_slab_reg_alloc s bi = Some (region bi s0 b, s') \<and> b < n
    \<and> region bi s0 b \<notin> L \<and> slab_inv i bi n s0 s' (insert (region bi s0 b) L)"
proof -
  let ?u = "bitmap_used n (e_slab_bitmap s)"
  have bi: "bin_bitmap_info bi = bitmap_info_init n" using assms(1) by (simp add: bin_ok_def)
  have s: "bitmap_inv n (e_slab_bitmap s)" "extent_addr_get s = extent_addr_get s0"
    "unat (extent_szind_get s) = i" "unat (extent_nfree_get s) + card ?u = n"
    "L = region bi s0 ` ?u" using assms(2) by (simp_all add: slab_inv_def)
  have nf: "0 < unat (extent_nfree_get s)" using assms(3) by (simp add: unat_gt_0 word_neq_0_conv)
  then have "card ?u < n" using s(4) by linarith
  from bmset.sfu_card [OF s(1) this] obtain b bm where
    b: "bitmap_sfu (e_slab_bitmap s) (bitmap_info_init n) = Some (b, bm)" "b < n" "b \<notin> ?u"
      "bitmap_inv n bm" "bitmap_used n bm = insert b ?u" "card (bitmap_used n bm) = Suc (card ?u)"
    by blast
  let ?s = "extent_nfree_dec (s\<lparr>e_slab_bitmap := bm\<rparr>)"
  have nf': "0 < unat (extent_nfree_get (s\<lparr>e_slab_bitmap := bm\<rparr>))"
    using nf by (simp add: bitmap_field_irrelevant)
  note f = nfree_dec_fields [OF nf', unfolded bitmap_field_irrelevant]
  have a: "arena_slab_reg_alloc s bi = Some (region bi s0 b, ?s)"
    using b(1) s(2) by (simp add: arena_slab_reg_alloc_def extent_slab_data_get_def bi region_def)
  have "region bi s0 b \<notin> L"
  proof
    assume "region bi s0 b \<in> L"
    then obtain c where c: "c \<in> ?u" "region bi s0 b = region bi s0 c" using s(5) by auto
    then have "c < n" by (simp add: bitmap_used_def)
    then have "b = c" using region_inj [OF assms(1,4)] b(2) c(2) by (auto dest: inj_onD)
    with b(3) c(1) show False by simp
  qed
  moreover have "slab_inv i bi n s0 ?s (insert (region bi s0 b) L)"
    using b f s nf by (simp add: slab_inv_def)
  ultimately show ?thesis using a b(2) by blast
qed

lemma slab_inv_dalloc:
  assumes "bin_ok bi dv r n" "slab_inv i bi n s0 s L" "p \<in> L"
    and "unat (extent_addr_get s0) + unat (bin_slab_size bi) \<le> 2 ^ 64"
    and "read_at bins i = Some bi" "read_at divs i = Some dv"
  shows "\<exists>s'. arena_slab_reg_dalloc bins divs s p = Some s' \<and> slab_inv i bi n s0 s' (L - {p})"
proof -
  let ?u = "bitmap_used n (e_slab_bitmap s)"
  have bi: "bin_bitmap_info bi = bitmap_info_init n" "n \<le> 512" using assms(1) by (simp_all add: bin_ok_def)
  have s: "bitmap_inv n (e_slab_bitmap s)" "extent_addr_get s = extent_addr_get s0"
    "unat (extent_szind_get s) = i" "unat (extent_nfree_get s) + card ?u = n"
    "L = region bi s0 ` ?u" using assms(2) by (simp_all add: slab_inv_def)
  obtain b where b: "b \<in> ?u" "p = region bi s0 b" using assms(3) s(5) by auto
  then have bn: "b < n" by (simp add: bitmap_used_def)
  from regind_region [OF assms(1,4) bn assms(6) s(2)] obtain ri where
    ri: "arena_slab_regind divs s i p = Some ri" "unat ri = b" using b(2) by auto
  from bmset.unset_card [OF s(1) b(1)] obtain bm where
    bm: "bitmap_unset (e_slab_bitmap s) (bitmap_info_init n) b = Some bm" "bitmap_inv n bm"
      "bitmap_used n bm = ?u - {b}" "Suc (card (bitmap_used n bm)) = card ?u" by blast
  let ?s = "extent_nfree_inc (s\<lparr>e_slab_bitmap := bm\<rparr>)"
  have "unat (extent_nfree_get s) + 1 \<le> n" using s(4) bm(4) by linarith
  then have nf: "unat (extent_nfree_get (s\<lparr>e_slab_bitmap := bm\<rparr>)) + 1 < 2 ^ 10"
    using bi(2) by (simp add: bitmap_field_irrelevant)
  note f = nfree_inc_fields [OF nf, unfolded bitmap_field_irrelevant]
  have d: "arena_slab_reg_dalloc bins divs s p = Some ?s"
    using assms(5) ri bm(1) s(3)
    by (simp add: arena_slab_reg_dalloc_def extent_slab_data_get_def bi Let_def)
  have "inj_on (region bi s0) ?u"
    by (rule inj_on_subset [OF region_inj [OF assms(1,4)]]) (auto simp: bitmap_used_def)
  then have "L - {p} = region bi s0 ` (?u - {b})"
    using s(5) b by (auto simp: inj_on_image_set_diff [of _ ?u])
  then have "slab_inv i bi n s0 ?s (L - {p})"
    using f s bm by (simp add: slab_inv_def) 
  with d show ?thesis by blast
qed

lemma slab_state_inv:
  assumes "slab_state d i s0 s L" "table_inv d" "i < SC_NBINS" "slab_extent d i s0"
  shows "slab_inv i (bin_boot d ! i) (unat (bin_nregs (bin_boot d ! i))) s0 s L"
  using assms(1)
proof induction
  note ok = bin_of_table [OF assms(2,3)]
  have x: "unat (extent_szind_get s0) = i" "length (e_slab_bitmap s0) = BITMAP_GROUPS_MAX"
    "unat (extent_addr_get s0) + unat (bin_slab_size (bin_boot d ! i)) \<le> 2 ^ 64"
    using assms(4) by (simp_all add: slab_extent_def)
  {
    case (init s)
    with slab_inv_init [OF ok(3) x(1,2)] show ?case by auto
  next
    case (alloc s L p s')
    with slab_inv_alloc [OF ok(3) alloc.IH alloc.hyps(2) x(3)] show ?case by auto
  next
    case (dalloc s L p s')
    from slab_inv_dalloc [OF ok(3) dalloc.IH dalloc.hyps(2) x(3), of "bin_boot d" "arena_boot_div d"]
      ok(1,2) dalloc.hyps(3)
    show ?case by auto
  }
qed

section \<open>Properties\<close>

text \<open>C23: the regions of a slab. Take any bin of the booted size classes, after any sequence of
  \<open>slab_sizes\<close> changes, and an extent of its slab size that does not wrap around the address
  space. The slab can be initialised, and in every state that allocations and deallocations
  reach: every allocated pointer is a region inside the slab, different pointers are disjoint
  regions, the count of free regions is the number of regions not allocated, an allocation with
  a positive count returns a pointer that was not allocated, and an allocated pointer can be
  freed, which is where the exact division recovers its region.\<close>

theorem slab_regions_correct:
  assumes "d = foldl (\<lambda>d (b, e, p). sc_data_update_slab_size d b e p)
      (the (sc_data_init sc_data_global)) updates"
    and "i < SC_NBINS" "slab_extent d i s0"
  shows "(\<exists>s. slab_state d i s0 s {})
    \<and> (\<forall>s L. slab_state d i s0 s L \<longrightarrow>
        (\<forall>p\<in>L. unat (extent_addr_get s0) \<le> unat p
           \<and> unat p + class_size i \<le> unat (extent_addr_get s0) + unat (bin_slab_size (bin_boot d ! i))
           \<and> class_size i dvd unat p - unat (extent_addr_get s0))
      \<and> (\<forall>p\<in>L. \<forall>q\<in>L. p = q \<or> unat p + class_size i \<le> unat q \<or> unat q + class_size i \<le> unat p)
      \<and> unat (extent_nfree_get s) + card L = unat (bin_nregs (bin_boot d ! i))
      \<and> (0 < extent_nfree_get s \<longrightarrow>
          (\<exists>p s'. arena_slab_reg_alloc s (bin_boot d ! i) = Some (p, s') \<and> p \<notin> L))
      \<and> (\<forall>p\<in>L. \<exists>s'. arena_slab_reg_dalloc (bin_boot d) (arena_boot_div d) s p = Some s'))"
proof (intro conjI allI impI)
  have t: "table_inv d" unfolding assms(1) by (rule table_inv_updates)
  note ok = bin_of_table [OF t assms(2)]
  let ?bi = "bin_boot d ! i"
  define n where "n = unat (bin_nregs ?bi)"
  have x: "unat (extent_szind_get s0) = i" "length (e_slab_bitmap s0) = BITMAP_GROUPS_MAX"
    "unat (extent_addr_get s0) + unat (bin_slab_size ?bi) \<le> 2 ^ 64"
    using assms(3) by (simp_all add: slab_extent_def)
  note bok = ok(3) [folded n_def]
  show "\<exists>s. slab_state d i s0 s {}"
    using slab_inv_init [OF bok x(1,2)] slab_state.init by blast
  fix s L assume s: "slab_state d i s0 s L"
  note inv = slab_state_inv [OF s t assms(2,3), folded n_def]
  have L: "\<exists>b<n. p = region ?bi s0 b" if "p \<in> L" for p
    using that inv by (auto simp: slab_inv_def bitmap_used_def)
  have fit: "b * class_size i + class_size i \<le> unat (bin_slab_size ?bi)" if "b < n" for b
  proof -
    have "(b + 1) * class_size i \<le> n * class_size i" using that by (intro mult_le_mono1) simp
    also have "\<dots> \<le> unat (bin_slab_size ?bi)" using bok by (simp add: bin_ok_def)
    finally show ?thesis by simp
  qed
  show "\<forall>p\<in>L. unat (extent_addr_get s0) \<le> unat p
      \<and> unat p + class_size i \<le> unat (extent_addr_get s0) + unat (bin_slab_size ?bi)
      \<and> class_size i dvd unat p - unat (extent_addr_get s0)"
  proof
    fix p assume "p \<in> L"
    from L [OF this] obtain b where "b < n" "p = region ?bi s0 b" by blast
    with unat_region(1) [OF bok x(3)] fit [of b] show "unat (extent_addr_get s0) \<le> unat p
      \<and> unat p + class_size i \<le> unat (extent_addr_get s0) + unat (bin_slab_size ?bi)
      \<and> class_size i dvd unat p - unat (extent_addr_get s0)" by simp
  qed
  show "\<forall>p\<in>L. \<forall>q\<in>L. p = q \<or> unat p + class_size i \<le> unat q \<or> unat q + class_size i \<le> unat p"
  proof (intro ballI)
    fix p q assume "p \<in> L" "q \<in> L"
    then obtain b c where b: "b < n" "p = region ?bi s0 b" and c: "c < n" "q = region ?bi s0 c"
      using L by metis
    have k: "j * class_size i + class_size i \<le> k * class_size i" if "j < k" for j k
      using mult_le_mono1 [of "j + 1" k "class_size i"] that by simp
    show "p = q \<or> unat p + class_size i \<le> unat q \<or> unat q + class_size i \<le> unat p"
      using b c k [of b c] k [of c b] unat_region(1) [OF bok x(3) b(1)] unat_region(1) [OF bok x(3) c(1)]
      by (cases b c rule: linorder_cases) simp_all
  qed
  have "inj_on (region ?bi s0) (bitmap_used n (e_slab_bitmap s))"
    by (rule inj_on_subset [OF region_inj [OF bok x(3)]]) (auto simp: bitmap_used_def)
  then show "unat (extent_nfree_get s) + card L = unat (bin_nregs ?bi)"
    using inv by (simp add: slab_inv_def card_image n_def)
  show "\<exists>p s'. arena_slab_reg_alloc s ?bi = Some (p, s') \<and> p \<notin> L" if "0 < extent_nfree_get s"
    using slab_inv_alloc [OF bok inv that x(3)] by blast
  show "\<forall>p\<in>L. \<exists>s'. arena_slab_reg_dalloc (bin_boot d) (arena_boot_div d) s p = Some s'"
    using slab_inv_dalloc [OF bok inv _ x(3), of _ "bin_boot d" "arena_boot_div d"] ok(1,2) by auto
qed

text \<open>The eight-byte bin, on the first pages of the address space.\<close>

definition witness_slab :: extent where
  "witness_slab = \<lparr>e_self = 0, e_bits = 0, e_addr = 0, e_size_esn = 4096, e_slab_bitmap = replicate 8 0\<rparr>"

theorem slab_regions_correct_witness:
  "\<exists>s. slab_state (the (sc_data_init sc_data_global)) 0 witness_slab s {}
    \<and> unat (extent_nfree_get s) = unat (bin_nregs (bin_boot (the (sc_data_init sc_data_global)) ! 0))"
proof -
  let ?d = "the (sc_data_init sc_data_global)"
  have t: "table_inv ?d" using table_inv_updates [of "[]"] by simp
  have n: "0 < SC_NBINS" by (simp add: sc_macro_values(3))
  have "unat (bin_slab_size (bin_boot ?d ! 0)) \<le> 2 ^ 64"
    using bin_of_table(3) [OF t n] by (simp add: bin_ok_def)
  then have "slab_extent ?d 0 witness_slab"
    by (simp add: slab_extent_def witness_slab_def extent_getters field_def extent_addr_get_def
        BITMAP_GROUPS_MAX_def BITMAP_MAXBITS_eq BITMAP_BITS2GROUPS_eq)
  note c = slab_regions_correct [of ?d "[]", OF _ n this, simplified]
  obtain s where s: "slab_state ?d 0 witness_slab s {}" using conjunct1 [OF c] by blast
  from conjunct2 [OF c, rule_format, OF s]
  have "unat (extent_nfree_get s) = unat (bin_nregs (bin_boot ?d ! 0))" by simp
  with s show ?thesis by blast
qed

end
