(* ===== verification/Ph.thy ===== *)
theory Ph
  imports Extent "HOL-Library.Multiset"
begin

text \<open>
  include/jemalloc/internal/ph.h: pairing heaps with an auxiliary list. A node is its element
  with the list of its children, the nodes from \<open>phn_lchild\<close> along \<open>phn_next\<close>; a heap is the root
  followed by the auxiliary list, which the code links behind the root. The nodes are intrusive:
  an element occurs in one node, by which \<open>ph_remove\<close> finds it. The back links \<open>phn_prev\<close> are
  determined by this structure. The order is the argument \<open>cmp\<close> of the generated functions; the
  two heaps of extent.c are the instances at the end.
\<close>

section \<open>The operations\<close>

datatype 'a phn = Phn (phn_elt: 'a) (phn_children: "'a phn list")

type_synonym 'a ph = "'a phn list"

text \<open>\<open>phn1\<close> becomes the leftmost child of \<open>phn0\<close>.\<close>

definition phn_merge_ordered :: "'a phn \<Rightarrow> 'a phn \<Rightarrow> 'a phn" where
  "phn_merge_ordered phn0 phn1 = Phn (phn_elt phn0) (phn1 # phn_children phn0)"

definition phn_merge :: "('a \<Rightarrow> 'a \<Rightarrow> int) \<Rightarrow> 'a phn option \<Rightarrow> 'a phn option \<Rightarrow> 'a phn option" where
  "phn_merge cmp a_phn0 a_phn1 =
     (case a_phn0 of None \<Rightarrow> a_phn1
      | Some phn0 \<Rightarrow>
          (case a_phn1 of None \<Rightarrow> a_phn0
           | Some phn1 \<Rightarrow>
               if cmp (phn_elt phn0) (phn_elt phn1) < 0 then Some (phn_merge_ordered phn0 phn1)
               else Some (phn_merge_ordered phn1 phn0)))"

definition phn_merge2 :: "('a \<Rightarrow> 'a \<Rightarrow> int) \<Rightarrow> 'a phn \<Rightarrow> 'a phn \<Rightarrow> 'a phn" where
  "phn_merge2 cmp phn0 phn1 = the (phn_merge cmp (Some phn0) (Some phn1))"

text \<open>The single pass over the sibling list that fills the FIFO with merged pairs.\<close>

fun merge_pairs :: "('a \<Rightarrow> 'a \<Rightarrow> int) \<Rightarrow> 'a phn list \<Rightarrow> 'a phn list" where
  "merge_pairs cmp (phn0 # phn1 # phnrest) = phn_merge2 cmp phn0 phn1 # merge_pairs cmp phnrest"
| "merge_pairs cmp [phn0] = [phn0]"
| "merge_pairs cmp [] = []"

text \<open>The first two of the FIFO are merged, and the result is appended, until one is left.\<close>

function merge_fifo :: "('a \<Rightarrow> 'a \<Rightarrow> int) \<Rightarrow> 'a phn list \<Rightarrow> 'a phn option" where
  "merge_fifo cmp [] = None"
| "merge_fifo cmp [phn0] = Some phn0"
| "merge_fifo cmp (phn0 # phn1 # head) =
     (let phn0 = phn_merge2 cmp phn0 phn1
      in if head = [] then Some phn0 else merge_fifo cmp (head @ [phn0]))"
  by pat_completeness auto
termination by (relation "measure (\<lambda>(_, q). length q)") auto

text \<open>\<open>None\<close> for an empty list, on which the code would dereference a null pointer.\<close>

definition ph_merge_siblings :: "('a \<Rightarrow> 'a \<Rightarrow> int) \<Rightarrow> 'a phn list \<Rightarrow> 'a phn option" where
  "ph_merge_siblings cmp phns =
     (case phns of [] \<Rightarrow> None | [phn0] \<Rightarrow> Some phn0 | _ \<Rightarrow> merge_fifo cmp (merge_pairs cmp phns))"

definition ph_merge_aux :: "('a \<Rightarrow> 'a \<Rightarrow> int) \<Rightarrow> 'a ph \<Rightarrow> 'a ph" where
  "ph_merge_aux cmp ph =
     (case ph of [] \<Rightarrow> []
      | root # aux \<Rightarrow>
          if aux = [] then [root]
          else (case phn_merge cmp (Some root) (ph_merge_siblings cmp aux) of
                  None \<Rightarrow> [] | Some root \<Rightarrow> [root]))"

text \<open>The merged children of a node, a list of at most one.\<close>

definition ph_merge_children :: "('a \<Rightarrow> 'a \<Rightarrow> int) \<Rightarrow> 'a phn \<Rightarrow> 'a phn list" where
  "ph_merge_children cmp phn =
     (if phn_children phn = [] then []
      else (case ph_merge_siblings cmp (phn_children phn) of None \<Rightarrow> [] | Some r \<Rightarrow> [r]))"

definition ph_new :: "'a ph" where "ph_new = []"

definition ph_empty :: "'a ph \<Rightarrow> bool" where "ph_empty ph \<longleftrightarrow> ph = []"

definition ph_first :: "('a \<Rightarrow> 'a \<Rightarrow> int) \<Rightarrow> 'a ph \<Rightarrow> 'a option \<times> 'a ph" where
  "ph_first cmp ph =
     (case ph of [] \<Rightarrow> (None, ph)
      | _ \<Rightarrow> (let ph = ph_merge_aux cmp ph in (map_option phn_elt (read_at ph 0), ph)))"

definition ph_any :: "'a ph \<Rightarrow> 'a option" where
  "ph_any ph =
     (case ph of [] \<Rightarrow> None | root # aux \<Rightarrow> (case aux of phn # _ \<Rightarrow> Some (phn_elt phn) | [] \<Rightarrow> Some (phn_elt root)))"

definition ph_insert :: "'a \<Rightarrow> 'a ph \<Rightarrow> 'a ph" where
  "ph_insert x ph =
     (let phn = Phn x [] in case ph of [] \<Rightarrow> [phn] | root # aux \<Rightarrow> root # phn # aux)"

definition ph_remove_first :: "('a \<Rightarrow> 'a \<Rightarrow> int) \<Rightarrow> 'a ph \<Rightarrow> 'a option \<times> 'a ph" where
  "ph_remove_first cmp ph =
     (case ph_merge_aux cmp ph of [] \<Rightarrow> (None, [])
      | ret # _ \<Rightarrow> (Some (phn_elt ret), ph_merge_children cmp ret))"

definition ph_remove_any :: "('a \<Rightarrow> 'a \<Rightarrow> int) \<Rightarrow> 'a ph \<Rightarrow> 'a option \<times> 'a ph" where
  "ph_remove_any cmp ph =
     (case ph of [] \<Rightarrow> (None, [])
      | root # ret # aux \<Rightarrow> (Some (phn_elt ret), root # aux)
      | [ret] \<Rightarrow> (Some (phn_elt ret), ph_merge_children cmp ret))"

text \<open>The node of \<open>x\<close> is replaced, in the sibling list in which it is, by its merged children.\<close>

fun remove_node :: "('a \<Rightarrow> 'a \<Rightarrow> int) \<Rightarrow> 'a \<Rightarrow> 'a phn list \<Rightarrow> 'a phn list" where
  "remove_node cmp x [] = []"
| "remove_node cmp x (Phn y cs # phns) =
     (if y = x then ph_merge_children cmp (Phn y cs) @ phns
      else Phn y (remove_node cmp x cs) # remove_node cmp x phns)"

definition ph_remove :: "('a \<Rightarrow> 'a \<Rightarrow> int) \<Rightarrow> 'a \<Rightarrow> 'a ph \<Rightarrow> 'a ph" where
  "ph_remove cmp x ph =
     (case ph of [] \<Rightarrow> []
      | root # aux \<Rightarrow>
          if phn_elt root = x then
            (if phn_children root = [] then aux
             else (case ph_merge_aux cmp ph of [] \<Rightarrow> []
                   | root # aux \<Rightarrow>
                       if phn_elt root = x then ph_merge_children cmp root
                       else remove_node cmp x (root # aux)))
          else remove_node cmp x ph)"

section \<open>The elements of a heap, and the heap order\<close>

fun mset_phn :: "'a phn \<Rightarrow> 'a multiset" where
  "mset_phn (Phn x cs) = add_mset x (\<Sum>c\<leftarrow>cs. mset_phn c)"

definition mset_phns :: "'a phn list \<Rightarrow> 'a multiset" where
  "mset_phns ts = (\<Sum>t\<leftarrow>ts. mset_phn t)"

lemma mset_phns_simps [simp]:
  "mset_phns [] = {#}" "mset_phns (t # ts) = mset_phn t + mset_phns ts"
  "mset_phns (ts @ us) = mset_phns ts + mset_phns us"
  by (simp_all add: mset_phns_def)

lemma mset_phn_neq [simp]: "mset_phn t \<noteq> {#}"
  by (cases t) simp

lemma mset_phns_eq_empty [simp]: "mset_phns ts = {#} \<longleftrightarrow> ts = []"
  by (cases ts) simp_all

lemma mset_phn_alt: "mset_phn t = add_mset (phn_elt t) (mset_phns (phn_children t))"
  by (cases t) (simp add: mset_phns_def)

fun heap_phn :: "('a \<Rightarrow> 'a \<Rightarrow> int) \<Rightarrow> 'a phn \<Rightarrow> bool" where
  "heap_phn cmp (Phn x cs) \<longleftrightarrow>
     (\<forall>c\<in>set cs. heap_phn cmp c) \<and> (\<forall>y\<in>#(\<Sum>c\<leftarrow>cs. mset_phn c). cmp x y \<le> 0)"

lemma heap_phn_alt: "heap_phn cmp t \<longleftrightarrow> (\<forall>c\<in>set (phn_children t). heap_phn cmp c)
    \<and> (\<forall>y\<in>#mset_phns (phn_children t). cmp (phn_elt t) y \<le> 0)"
  by (cases t) (simp add: mset_phns_def)

text \<open>
  The nodes of the auxiliary list have no children: they were inserted and never merged. That
  is why \<open>ph_remove_any\<close> may take one of them without a look at its children.
\<close>

definition ph_inv :: "('a \<Rightarrow> 'a \<Rightarrow> int) \<Rightarrow> 'a ph \<Rightarrow> bool" where
  "ph_inv cmp ph \<longleftrightarrow> (\<forall>t\<in>set ph. heap_phn cmp t) \<and> (\<forall>t\<in>set (tl ph). phn_children t = [])"

section \<open>Heaps over any comparison function\<close>

text \<open>What the heap code requires of its comparison function.\<close>

locale comparison =
  fixes cmp :: "'a \<Rightarrow> 'a \<Rightarrow> int"
  assumes sign: "cmp a b < 0 \<longleftrightarrow> 0 < cmp b a"
    and trans: "cmp a b \<le> 0 \<Longrightarrow> cmp b c \<le> 0 \<Longrightarrow> cmp a c \<le> 0"
begin

lemma refl: "cmp a a \<le> 0"
  using sign [of a a] by linarith

lemma total: "\<not> cmp a b < 0 \<Longrightarrow> cmp b a \<le> 0"
  using sign [of a b] by linarith

lemma heap_root_least: "heap_phn cmp t \<Longrightarrow> y \<in># mset_phn t \<Longrightarrow> cmp (phn_elt t) y \<le> 0"
  using refl by (auto simp: mset_phn_alt [of t] heap_phn_alt [of cmp t])

lemma merge_ordered:
  "mset_phn (phn_merge_ordered t u) = mset_phn t + mset_phn u"
  "heap_phn cmp t \<Longrightarrow> heap_phn cmp u \<Longrightarrow> cmp (phn_elt t) (phn_elt u) \<le> 0 \<Longrightarrow>
    heap_phn cmp (phn_merge_ordered t u)"
proof -
  show "mset_phn (phn_merge_ordered t u) = mset_phn t + mset_phn u"
    by (simp add: phn_merge_ordered_def mset_phn_alt [of t] mset_phns_def)
  assume h: "heap_phn cmp t" "heap_phn cmp u" "cmp (phn_elt t) (phn_elt u) \<le> 0"
  have "cmp (phn_elt t) y \<le> 0" if "y \<in># mset_phn u" for y
    using trans [OF h(3) heap_root_least [OF h(2) that]] .
  with h(1,2) show "heap_phn cmp (phn_merge_ordered t u)"
    by (auto simp: phn_merge_ordered_def heap_phn_alt [of cmp t] mset_phns_def)
qed

lemma merge2_eq: "phn_merge2 cmp t u =
    (if cmp (phn_elt t) (phn_elt u) < 0 then phn_merge_ordered t u else phn_merge_ordered u t)"
  by (simp add: phn_merge2_def phn_merge_def)

lemma merge2:
  "mset_phn (phn_merge2 cmp t u) = mset_phn t + mset_phn u"
  "heap_phn cmp t \<Longrightarrow> heap_phn cmp u \<Longrightarrow> heap_phn cmp (phn_merge2 cmp t u)"
  by (auto simp: merge2_eq merge_ordered total)

lemma merge_pairs:
  "mset_phns (merge_pairs cmp ts) = mset_phns ts
    \<and> ((\<forall>t\<in>set ts. heap_phn cmp t) \<longrightarrow> (\<forall>t\<in>set (merge_pairs cmp ts). heap_phn cmp t))
    \<and> (merge_pairs cmp ts = [] \<longleftrightarrow> ts = [])"
proof (induction ts rule: induct_list012)
  case (3 t u us)
  note IH = "3.IH"(1)
  show ?case
    using IH by (auto simp: merge2 ac_simps)
qed simp_all

lemma merge_fifo:
  assumes "q \<noteq> []" "\<forall>t\<in>set q. heap_phn cmp t"
  shows "\<exists>t. merge_fifo cmp q = Some t \<and> mset_phn t = mset_phns q \<and> heap_phn cmp t"
  using assms
proof (induction "length q" arbitrary: q rule: less_induct)
  case less
  consider t where "q = [t]" | t u us where "q = t # u # us"
    using less.prems(1) by (metis neq_Nil_conv)
  then show ?case
  proof cases
    case 1
    with less.prems(2) show ?thesis by simp
  next
    case 2
    let ?q = "us @ [phn_merge2 cmp t u]"
    have h: "\<forall>v\<in>set ?q. heap_phn cmp v" "mset_phns ?q = mset_phns q"
      using less.prems(2) 2 by (simp_all add: merge2)
    show ?thesis
    proof (cases "us = []")
      case False
      then show ?thesis using less.hyps [of ?q] 2 h by (simp add: ac_simps)
    next
      case True
      then show ?thesis using 2 h by simp
    qed
  qed
qed

lemma merge_siblings:
  assumes "ts \<noteq> []" "\<forall>t\<in>set ts. heap_phn cmp t"
  shows "\<exists>t. ph_merge_siblings cmp ts = Some t \<and> mset_phn t = mset_phns ts \<and> heap_phn cmp t"
proof (cases ts)
  case (Cons t us)
  show ?thesis
  proof (cases us)
    case (Cons u us')
    with \<open>ts = t # us\<close> have e: "ph_merge_siblings cmp ts = merge_fifo cmp (merge_pairs cmp ts)"
      by (simp add: ph_merge_siblings_def)
    show ?thesis
      unfolding e using merge_fifo [of "merge_pairs cmp ts"] merge_pairs [of ts] assms by auto
  qed (use Cons assms in \<open>simp add: ph_merge_siblings_def\<close>)
qed (use assms in simp)

lemma merge_children:
  assumes "heap_phn cmp t"
  shows "mset_phns (ph_merge_children cmp t) = mset_phns (phn_children t)"
    "\<forall>u\<in>set (ph_merge_children cmp t). heap_phn cmp u" "tl (ph_merge_children cmp t) = []"
  using merge_siblings [of "phn_children t"] assms
  by (auto simp: ph_merge_children_def heap_phn_alt [of cmp t])

lemma merge_aux:
  assumes "\<forall>t\<in>set ph. heap_phn cmp t" "ph \<noteq> []"
  shows "\<exists>t. ph_merge_aux cmp ph = [t] \<and> mset_phn t = mset_phns ph \<and> heap_phn cmp t"
proof (cases ph)
  case (Cons r aux)
  show ?thesis
  proof (cases "aux = []")
    case False
    with merge_siblings [of aux] assms Cons obtain t where
      "ph_merge_siblings cmp aux = Some t" "mset_phn t = mset_phns aux" "heap_phn cmp t" by auto
    with False Cons assms merge2 [of r t] show ?thesis
      by (simp add: ph_merge_aux_def phn_merge2_def phn_merge_def split: if_splits)
  qed (use Cons assms in \<open>simp add: ph_merge_aux_def\<close>)
qed (use assms in simp)

text \<open>The queue operations keep the invariant, and their effect on the elements.\<close>

lemma inv_singleton: "heap_phn cmp t \<Longrightarrow> ph_inv cmp [t]"
  by (simp add: ph_inv_def)

lemma inv_children: "heap_phn cmp t \<Longrightarrow> ph_inv cmp (ph_merge_children cmp t)"
  using merge_children by (simp add: ph_inv_def)

lemma insert_inv: "ph_inv cmp ph \<Longrightarrow> ph_inv cmp (ph_insert x ph)"
  by (cases ph) (auto simp: ph_insert_def ph_inv_def)

lemma mset_insert: "mset_phns (ph_insert x ph) = add_mset x (mset_phns ph)"
  by (cases ph) (simp_all add: ph_insert_def)

lemma merged:
  assumes "ph_inv cmp ph" "ph \<noteq> []"
  obtains t where "ph_merge_aux cmp ph = [t]" "mset_phn t = mset_phns ph" "heap_phn cmp t"
  using merge_aux [of ph] assms by (auto simp: ph_inv_def)

lemma first_least:
  assumes "ph_inv cmp ph" "ph \<noteq> []"
  shows "\<exists>x ph'. ph_first cmp ph = (Some x, ph') \<and> ph_inv cmp ph' \<and> mset_phns ph' = mset_phns ph
    \<and> x \<in># mset_phns ph \<and> (\<forall>y\<in>#mset_phns ph. cmp x y \<le> 0)"
proof -
  from assms obtain t where t: "ph_merge_aux cmp ph = [t]" "mset_phn t = mset_phns ph" "heap_phn cmp t"
    by (rule merged)
  from assms(2) obtain r aux where "ph = r # aux" by (auto simp: neq_Nil_conv)
  with t(1) have "ph_first cmp ph = (Some (phn_elt t), [t])"
    by (simp add: ph_first_def read_at_def)
  moreover have "phn_elt t \<in># mset_phns ph"
    by (simp flip: t(2) add: mset_phn_alt [of t])
  ultimately show ?thesis
    using t inv_singleton heap_root_least [OF t(3)] by simp
qed

lemma remove_first_least:
  assumes "ph_inv cmp ph" "ph \<noteq> []"
  shows "\<exists>x ph'. ph_remove_first cmp ph = (Some x, ph') \<and> ph_inv cmp ph'
    \<and> mset_phns ph = add_mset x (mset_phns ph') \<and> (\<forall>y\<in>#mset_phns ph. cmp x y \<le> 0)"
proof -
  from assms obtain t where t: "ph_merge_aux cmp ph = [t]" "mset_phn t = mset_phns ph" "heap_phn cmp t"
    by (rule merged)
  then have "ph_remove_first cmp ph = (Some (phn_elt t), ph_merge_children cmp t)"
    by (simp add: ph_remove_first_def)
  moreover have "mset_phns ph = add_mset (phn_elt t) (mset_phns (ph_merge_children cmp t))"
    by (simp flip: t(2) add: mset_phn_alt [of t] merge_children [OF t(3)])
  ultimately show ?thesis
    using t inv_children heap_root_least [OF t(3)] by simp
qed

lemma remove_any_inv:
  assumes "ph_inv cmp ph" "ph \<noteq> []"
  shows "\<exists>x ph'. ph_remove_any cmp ph = (Some x, ph') \<and> ph_any ph = Some x \<and> ph_inv cmp ph'
    \<and> mset_phns ph = add_mset x (mset_phns ph')"
proof -
  consider t where "ph = [t]" | r t aux where "ph = r # t # aux"
    using assms(2) by (metis neq_Nil_conv)
  then show ?thesis
  proof cases
    case 1
    with assms have "heap_phn cmp t" by (simp add: ph_inv_def)
    with 1 show ?thesis
      by (simp add: ph_remove_any_def ph_any_def inv_children mset_phn_alt [of t] merge_children)
  next
    case 2
    with assms have "phn_children t = []" by (simp add: ph_inv_def)
    with 2 assms show ?thesis
      by (simp add: ph_remove_any_def ph_any_def mset_phn_alt [of t] ph_inv_def)
  qed
qed

lemma remove_node_absent: "x \<notin># mset_phns ts \<Longrightarrow> remove_node cmp x ts = ts"
proof (induction ts rule: measure_induct_rule [where f = "size_list size"])
  case (less ts)
  show ?case
  proof (cases ts)
    case (Cons t us)
    obtain y cs where "t = Phn y cs" by (cases t)
    with Cons less.prems less.IH [of cs] less.IH [of us] show ?thesis
      by (auto simp: mset_phns_def)
  qed simp
qed

text \<open>Removing the node of \<open>x\<close> from a forest that holds \<open>x\<close> once.\<close>

lemma remove_node_once:
  assumes "count (mset_phns ts) x = 1" "\<forall>t\<in>set ts. heap_phn cmp t"
  shows "mset_phns ts = add_mset x (mset_phns (remove_node cmp x ts))
    \<and> (\<forall>t\<in>set (remove_node cmp x ts). heap_phn cmp t)"
  using assms
proof (induction ts rule: measure_induct_rule [where f = "size_list size"])
  case (less ts)
  from less.prems(1) obtain t us where ts: "ts = t # us" by (cases ts) auto
  obtain y cs where t: "t = Phn y cs" by (cases t)
  have ms: "mset_phn t = add_mset y (mset_phns cs)" by (simp add: t mset_phns_def)
  have hp: "\<forall>c\<in>set cs. heap_phn cmp c" "\<forall>z\<in>#mset_phns cs. cmp y z \<le> 0"
    using less.prems(2) heap_phn_alt [of cmp t] by (auto simp: ts t)
  have "(if y = x then 1 else 0) + count (mset_phns cs) x + count (mset_phns us) x = 1"
    using less.prems(1) by (simp add: ts ms split: if_splits)
  then consider "y = x" | "y \<noteq> x" "x \<in># mset_phns cs" "x \<notin># mset_phns us"
    | "y \<noteq> x" "x \<notin># mset_phns cs" "x \<in># mset_phns us"
    by (cases "y = x"; cases "count (mset_phns cs) x") 
      (simp_all flip: count_greater_zero_iff)
  then show ?case
  proof cases
    case 1
    with less.prems(2) merge_children [of t] show ?thesis
      by (auto simp: ts t ms [unfolded t \<open>y = x\<close>] simp del: mset_phn.simps)
  next
    case 2
    have "count (mset_phns cs) x = 1"
      using less.prems(1) 2(1) 2(3) [THEN not_in_iff [THEN iffD1]] by (simp add: ts ms)
    with less.IH [of cs] hp(1) have IH: "mset_phns cs = add_mset x (mset_phns (remove_node cmp x cs))"
      "\<forall>c\<in>set (remove_node cmp x cs). heap_phn cmp c" by (auto simp: ts t)
    with hp(2) have "heap_phn cmp (Phn y (remove_node cmp x cs))"
      using heap_phn_alt [of cmp "Phn y (remove_node cmp x cs)"] by simp
    moreover have "mset_phn (Phn y (remove_node cmp x cs)) = add_mset y (mset_phns (remove_node cmp x cs))"
      by (simp add: mset_phns_def)
    ultimately show ?thesis
      using 2 less.prems(2) IH(1) by (simp add: ts t ms [unfolded t] remove_node_absent del: mset_phn.simps heap_phn.simps)
  next
    case 3
    have "count (mset_phns us) x = 1"
      using less.prems(1) 3(1) 3(2) [THEN not_in_iff [THEN iffD1]] by (simp add: ts ms)
    with less.IH [of us] less.prems(2) have "mset_phns us = add_mset x (mset_phns (remove_node cmp x us))
      \<and> (\<forall>c\<in>set (remove_node cmp x us). heap_phn cmp c)" by (auto simp: ts)
    with 3 less.prems(2) show ?thesis by (auto simp: ts t remove_node_absent)
  qed
qed

lemma remove_node_heads:
  assumes "\<forall>t\<in>set ts. phn_children t = []"
  shows "\<forall>t\<in>set (remove_node cmp x ts). phn_children t = []"
  using assms
proof (induction ts)
  case (Cons t ts)
  obtain y cs where "t = Phn y cs" by (cases t)
  with Cons show ?case by (auto simp: ph_merge_children_def)
qed simp

lemma remove_inv:
  assumes "ph_inv cmp ph" "count (mset_phns ph) x = 1"
  shows "ph_inv cmp (ph_remove cmp x ph) \<and> mset_phns ph = add_mset x (mset_phns (ph_remove cmp x ph))"
proof -
  from assms(2) obtain r aux where ph: "ph = r # aux" by (cases ph) auto
  obtain y cs where r: "r = Phn y cs" by (cases r)
  note inv = assms(1) [unfolded ph ph_inv_def list.sel]
  show ?thesis
  proof (cases "y = x")
    case False
    then have e: "ph_remove cmp x ph = Phn y (remove_node cmp x cs) # remove_node cmp x aux"
      by (simp add: ph r ph_remove_def)
    with False have "ph_remove cmp x ph = remove_node cmp x ph" by (simp add: ph r)
    moreover have "tl (ph_remove cmp x ph) = remove_node cmp x aux" by (simp add: e)
    ultimately show ?thesis
      using remove_node_once [OF assms(2)] remove_node_heads [of aux x] inv
      by (auto simp: ph_inv_def ph)
  next
    case True
    show ?thesis
    proof (cases "cs = []")
      case cs: True
      have "ph_inv cmp aux" using inv by (cases aux) (auto simp: ph_inv_def)
      with True cs show ?thesis by (simp add: ph r ph_remove_def)
    next
      case False
      from assms(1) obtain t where t: "ph_merge_aux cmp ph = [t]" "mset_phn t = mset_phns ph"
        "heap_phn cmp t" by (rule merged) (simp add: ph)
      have e: "ph_remove cmp x ph =
          (if phn_elt t = x then ph_merge_children cmp t else remove_node cmp x [t])"
        using True False t(1) by (simp add: ph r ph_remove_def)
      show ?thesis
      proof (cases "phn_elt t = x")
        case True
        with t inv_children [OF t(3)] merge_children [OF t(3)] show ?thesis
          by (simp add: e mset_phn_alt [of t] flip: t(2))
      next
        case False
        obtain z ds where "t = Phn z ds" by (cases t)
        with False have tl: "tl (remove_node cmp x [t]) = []" by simp
        have "count (mset_phns [t]) x = 1" using t(2) assms(2) by simp
        from remove_node_once [OF this] t(3) tl False show ?thesis
          by (simp add: e ph_inv_def flip: t(2))
      qed
    qed
  qed
qed

end

section \<open>The contract of the heaps, and their clients\<close>

text \<open>
  What the users of a heap rely on: arena bins (\<open>extent_heap\<close>), the allocation of descriptors
  (\<open>extent_avail\<close>). The elements of a queue are a multiset.
\<close>

locale priority_queue =
  fixes le :: "'a \<Rightarrow> 'a \<Rightarrow> bool"
    and inv :: "'q \<Rightarrow> bool"
    and elems :: "'q \<Rightarrow> 'a multiset"
    and new :: 'q
    and insert :: "'a \<Rightarrow> 'q \<Rightarrow> 'q"
    and first :: "'q \<Rightarrow> 'a option \<times> 'q"
    and remove_first :: "'q \<Rightarrow> 'a option \<times> 'q"
    and remove :: "'a \<Rightarrow> 'q \<Rightarrow> 'q"
  assumes new: "inv new" "elems new = {#}"
    and insert: "inv q \<Longrightarrow> inv (insert x q)" "elems (insert x q) = add_mset x (elems q)"
    and first_empty: "inv q \<Longrightarrow> elems q = {#} \<Longrightarrow> first q = (None, q)"
    and first: "inv q \<Longrightarrow> elems q \<noteq> {#} \<Longrightarrow> \<exists>x q'. first q = (Some x, q') \<and> inv q'
      \<and> elems q' = elems q \<and> x \<in># elems q \<and> (\<forall>y\<in>#elems q. le x y)"
    and remove_first_empty: "inv q \<Longrightarrow> elems q = {#} \<Longrightarrow> remove_first q = (None, q)"
    and remove_first: "inv q \<Longrightarrow> elems q \<noteq> {#} \<Longrightarrow> \<exists>x q'. remove_first q = (Some x, q') \<and> inv q'
      \<and> elems q = add_mset x (elems q') \<and> (\<forall>y\<in>#elems q. le x y)"
    and remove: "inv q \<Longrightarrow> count (elems q) x = 1 \<Longrightarrow>
      inv (remove x q) \<and> elems q = add_mset x (elems (remove x q))"
begin

lemma remove_first_cases:
  assumes "inv q"
  obtains "remove_first q = (None, q)" "elems q = {#}"
  | x q' where "remove_first q = (Some x, q')" "inv q'" "elems q = add_mset x (elems q')"
      "\<And>y. y \<in># elems q \<Longrightarrow> le x y"
  using remove_first_empty [OF assms] remove_first [OF assms] by blast

text \<open>Taking the first two elements, with any insertions between that are not smaller, is ordered.\<close>

lemma remove_first_ordered:
  assumes "inv q" "remove_first q = (Some x, q1)" "remove_first q1 = (Some y, q2)"
  shows "le x y"
proof -
  from assms(1) obtain q1: "inv q1" "elems q = add_mset x (elems q1)" "\<And>z. z \<in># elems q \<Longrightarrow> le x z"
    by (rule remove_first_cases) (use assms(2) in auto)
  from q1(1) have "y \<in># elems q1"
    by (rule remove_first_cases) (use assms(3) in auto)
  with q1(2,3) show ?thesis by simp
qed

text \<open>Looking at the first element and removing it is removing the first, up to equal elements.\<close>

lemma first_remove:
  assumes "inv q" "first q = (Some x, q1)" "count (elems q) x = 1"
  shows "inv (remove x q1)" "elems q = add_mset x (elems (remove x q1))" "\<And>y. y \<in># elems q \<Longrightarrow> le x y"
proof -
  have "elems q \<noteq> {#}" using assms(3) by auto
  from first [OF assms(1) this] assms(2) have q1: "inv q1" "elems q1 = elems q"
    "\<And>y. y \<in># elems q \<Longrightarrow> le x y" by auto
  show "inv (remove x q1)" "elems q = add_mset x (elems (remove x q1))"
    using remove [OF q1(1), of x] q1(2) assms(3) by simp_all
  show "\<And>y. y \<in># elems q \<Longrightarrow> le x y" by (rule q1(3))
qed

end

sublocale comparison \<subseteq> pq: priority_queue "\<lambda>x y. cmp x y \<le> 0" "ph_inv cmp" mset_phns ph_new ph_insert
  "ph_first cmp" "ph_remove_first cmp" "ph_remove cmp"
proof unfold_locales
  show "ph_inv cmp ph_new" "mset_phns ph_new = {#}" by (simp_all add: ph_new_def ph_inv_def)
  show "ph_first cmp q = (None, q)" "ph_remove_first cmp q = (None, q)" if "mset_phns q = {#}" for q
    using that by (simp_all add: ph_first_def ph_remove_first_def ph_merge_aux_def)
qed (use insert_inv first_least remove_first_least remove_inv mset_insert in auto)

text \<open>Only the comparison of its elements matters for a heap.\<close>

lemma heap_phn_cong:
  "\<forall>x\<in>#mset_phn t. \<forall>y\<in>#mset_phn t. cmp x y = cmp' x y \<Longrightarrow> heap_phn cmp t = heap_phn cmp' t"
proof (induction t)
  case (Phn x cs)
  have sub: "y \<in># mset_phn (Phn x cs)" if "c \<in> set cs" "y \<in># mset_phn c" for c y
    using that by (induction cs) auto
  have IH: "heap_phn cmp c = heap_phn cmp' c" if "c \<in> set cs" for c
    using Phn.prems sub that by (intro Phn.IH [OF that]) blast
  have "cmp x y = cmp' x y" if "y \<in># (\<Sum>c\<leftarrow>cs. mset_phn c)" for y
    using Phn.prems that by auto
  with IH show ?case by auto
qed

lemma ph_inv_cong:
  assumes "\<forall>x\<in>#mset_phns ph. \<forall>y\<in>#mset_phns ph. cmp x y = cmp' x y"
  shows "ph_inv cmp ph = ph_inv cmp' ph"
proof -
  have "heap_phn cmp t = heap_phn cmp' t" if "t \<in> set ph" for t
  proof -
    have "mset_phn t \<subseteq># mset_phns ph"
      using that by (induction ph) (auto intro: subset_mset.order_trans)
    with assms show ?thesis by (intro heap_phn_cong) (meson mset_subset_eqD)
  qed
  then show ?thesis by (auto simp: ph_inv_def)
qed

text \<open>The heaps of addresses of extents, ordered by serial number and address.\<close>

lemma lex_compare_linorder:
  fixes a b c d :: "'a :: linorder"
  defines "s \<equiv> (\<lambda>a b. (if a > b then 1 else 0) - (if a < b then 1 else 0) :: int)"
  shows "(if s a b \<noteq> 0 then s a b else s c d) < 0 \<longleftrightarrow> a < b \<or> a = b \<and> c < d"
    "0 < (if s a b \<noteq> 0 then s a b else s c d) \<longleftrightarrow> b < a \<or> a = b \<and> d < c"
  by (auto simp: s_def)

lemma lex_compare:
  "(let ret = sign_compare a b in if ret \<noteq> 0 then ret else sign_compare c d) < 0
    \<longleftrightarrow> a < b \<or> a = b \<and> c < d"
  "0 < (let ret = sign_compare a b in if ret \<noteq> 0 then ret else sign_compare c d)
    \<longleftrightarrow> b < a \<or> a = b \<and> d < c"
  unfolding Let_def sign_compare_def by (rule lex_compare_linorder)+

definition heap_comp :: "(64 word \<Rightarrow> extent) \<Rightarrow> 64 word \<Rightarrow> 64 word \<Rightarrow> int" where
  "heap_comp mem p q = extent_snad_comp (mem p) (mem q)"

definition avail_comp :: "(64 word \<Rightarrow> extent) \<Rightarrow> 64 word \<Rightarrow> 64 word \<Rightarrow> int" where
  "avail_comp mem p q = extent_esnead_comp (mem p) (mem q)"

lemmas extent_comp_defs = heap_comp_def avail_comp_def extent_snad_comp_def extent_sn_comp_def extent_ad_comp_def
  extent_esnead_comp_def extent_esn_comp_def extent_ead_comp_def

interpretation extent_heap: comparison "heap_comp mem" for mem
  by unfold_locales (auto simp only: extent_comp_defs lex_compare not_less [symmetric])

interpretation extent_avail: comparison "avail_comp mem" for mem
  by unfold_locales (auto simp only: extent_comp_defs lex_compare not_less [symmetric])

section \<open>Every reachable heap of extents\<close>

text \<open>
  The heaps reached from \<open>new\<close>, with the elements they should hold. A node is inserted when it
  is in no heap, and \<open>remove\<close> is called on an element of the heap.
\<close>

inductive heap_run :: "(64 word \<Rightarrow> extent) \<Rightarrow> 64 word ph \<Rightarrow> 64 word multiset \<Rightarrow> bool" for mem where
  new: "heap_run mem ph_new {#}"
| insert: "heap_run mem ph A \<Longrightarrow> x \<notin># A \<Longrightarrow> heap_run mem (ph_insert x ph) (add_mset x A)"
| first: "heap_run mem ph A \<Longrightarrow> heap_run mem (snd (ph_first (heap_comp mem) ph)) A"
| remove_first: "heap_run mem ph A \<Longrightarrow> ph_remove_first (heap_comp mem) ph = (Some x, ph') \<Longrightarrow>
    heap_run mem ph' (A - {#x#})"
| remove_any: "heap_run mem ph A \<Longrightarrow> ph_remove_any (heap_comp mem) ph = (Some x, ph') \<Longrightarrow>
    heap_run mem ph' (A - {#x#})"
| remove: "heap_run mem ph A \<Longrightarrow> x \<in># A \<Longrightarrow> heap_run mem (ph_remove (heap_comp mem) x ph) (A - {#x#})"

lemma count_le_add_mset: "\<forall>z. count (add_mset x A) z \<le> 1 \<Longrightarrow> \<forall>z. count A z \<le> 1"
  by (metis count_add_mset nat_le_linear not_less_eq_eq)

lemma heap_run_inv: "heap_run mem ph A \<Longrightarrow>
    ph_inv (heap_comp mem) ph \<and> mset_phns ph = A \<and> (\<forall>x. count A x \<le> 1)"
proof (induction rule: heap_run.induct)
  case new
  then show ?case using extent_heap.pq.new by simp
next
  case (insert ph A x)
  then show ?case
    using extent_heap.pq.insert(1) [of mem ph x] by (auto simp: extent_heap.pq.insert(2) not_in_iff)
next
  case (first ph A)
  then show ?case
    using extent_heap.pq.first [of mem ph] extent_heap.pq.first_empty [of mem ph] by fastforce
next
  case (remove_first ph A x ph')
  then have "ph \<noteq> []" by (auto simp: ph_remove_first_def ph_merge_aux_def)
  with remove_first extent_heap.pq.remove_first [of mem ph]
  have A: "ph_inv (heap_comp mem) ph'" "A = add_mset x (mset_phns ph')" by auto
  with remove_first.IH have "\<forall>z. count (mset_phns ph') z \<le> 1" using count_le_add_mset by metis
  with A show ?case by simp
next
  case (remove_any ph A x ph')
  then have "ph \<noteq> []" by (auto simp: ph_remove_any_def)
  with remove_any extent_heap.remove_any_inv [of mem ph]
  have A: "ph_inv (heap_comp mem) ph'" "A = add_mset x (mset_phns ph')" by auto
  with remove_any.IH have "\<forall>z. count (mset_phns ph') z \<le> 1" using count_le_add_mset by metis
  with A show ?case by simp
next
  case (remove ph A x)
  then have "count A x = 1" by (metis count_eq_zero_iff le_antisym less_one not_le)
  with remove extent_heap.pq.remove [of mem ph x] have A: "ph_inv (heap_comp mem) (ph_remove (heap_comp mem) x ph)"
    "A = add_mset x (mset_phns (ph_remove (heap_comp mem) x ph))" by auto
  with remove.IH have "\<forall>z. count (mset_phns (ph_remove (heap_comp mem) x ph)) z \<le> 1"
    using count_le_add_mset by metis
  with A show ?case by simp
qed

text \<open>C22: after any sequence of insertions and removals of distinct extents, the heap of extents
  holds exactly those inserted and not removed; \<open>remove_first\<close> returns one that no other precedes
  in the order by serial number and address, \<open>first\<close> the same without removing it, \<open>remove_any\<close>
  some element, and all return \<open>None\<close> on the empty heap only.\<close>
theorem extent_heap_correct:
  assumes "heap_run mem ph A"
  shows "(ph_empty ph \<longleftrightarrow> A = {#})
    \<and> (if A = {#} then fst (ph_first (heap_comp mem) ph) = None
         \<and> fst (ph_remove_first (heap_comp mem) ph) = None \<and> fst (ph_remove_any (heap_comp mem) ph) = None
       else (\<exists>x. fst (ph_first (heap_comp mem) ph) = Some x
           \<and> fst (ph_remove_first (heap_comp mem) ph) = Some x \<and> x \<in># A \<and> (\<forall>y\<in>#A. heap_comp mem x y \<le> 0))
         \<and> (\<exists>x. fst (ph_remove_any (heap_comp mem) ph) = Some x \<and> x \<in># A))"
proof -
  from heap_run_inv [OF assms] have h: "ph_inv (heap_comp mem) ph" "mset_phns ph = A" by auto
  show ?thesis
  proof (cases "ph = []")
    case True
    with h(2) show ?thesis
      by (auto simp: ph_empty_def ph_first_def ph_remove_first_def ph_merge_aux_def ph_remove_any_def)
  next
    case ne: False
    obtain t where "ph_merge_aux (heap_comp mem) ph = [t]"
      using extent_heap.merged [OF h(1) ne] by blast
    with ne have same: "fst (ph_first (heap_comp mem) ph) = fst (ph_remove_first (heap_comp mem) ph)"
      by (auto simp: ph_first_def ph_remove_first_def neq_Nil_conv Let_def)
    obtain x where x: "fst (ph_remove_first (heap_comp mem) ph) = Some x" "x \<in># A"
      "\<forall>y\<in>#A. heap_comp mem x y \<le> 0"
      using extent_heap.remove_first_least [OF h(1) ne] unfolding h(2) by force
    obtain z where z: "fst (ph_remove_any (heap_comp mem) ph) = Some z" "z \<in># A"
      using extent_heap.remove_any_inv [OF h(1) ne] unfolding h(2) by force
    have "A \<noteq> {#}" using ne h(2) by auto
    with ne x z show ?thesis unfolding same by (simp add: ph_empty_def)
  qed
qed

text \<open>Three descriptors at addresses 1, 2 and 3, inserted in another order.\<close>

definition example_mem :: "64 word \<Rightarrow> extent" where
  "example_mem p = \<lparr>e_self = p, e_bits = 0, e_addr = p, e_size_esn = 0, e_slab_bitmap = []\<rparr>"

theorem extent_heap_correct_witness:
  "fst (ph_remove_first (heap_comp example_mem) (ph_insert 3 (ph_insert 1 (ph_insert 2 ph_new)))) = Some 1"
proof -
  have run: "heap_run example_mem (ph_insert 3 (ph_insert 1 (ph_insert 2 ph_new))) {#3, 1, 2#}"
    by (rule heap_run.insert heap_run.new | simp)+
  from extent_heap_correct [OF run] obtain x where x:
    "fst (ph_remove_first (heap_comp example_mem) (ph_insert 3 (ph_insert 1 (ph_insert 2 ph_new)))) = Some x"
    "x \<in># {#3, 1, 2#}" "\<forall>y\<in>#{#3, 1, 2#}. heap_comp example_mem x y \<le> 0" by auto
  moreover have "x = 1"
    using x(2,3) by (auto simp: example_mem_def extent_comp_defs sign_compare_def
        extent_sn_get_def extent_addr_get_def split: if_splits)
  ultimately show ?thesis by simp
qed

end
