(* ===== verification/Arena_Bin.thy ===== *)
theory Arena_Bin
  imports Slab Ph "HOL-Library.Monad_Syntax"
begin

text \<open>
  The bins of src/arena.c with include/jemalloc/internal/bin.h and bin_stats.h: the current slab,
  the heap of slabs with free regions and the list of full ones, from which small regions are
  handed out and to which they return. An \<open>extent_t\<close> pointer is an address of the memory of
  descriptors \<open>ar_mem\<close>. Where the code drops the lock of the bin an operation is cut in two,
  \<open>_begin\<close> and \<open>_end\<close>, so that the operations of other threads may come in between. What
  \<open>extents_alloc\<close> and \<open>extent_alloc_wrapper\<close> answer is an argument; the contents of the regions
  (zero and junk filling), the decay ticker and the profiler are not modelled.
\<close>

section \<open>Bins\<close>

record bin_stats =
  bs_nmalloc :: uint64
  bs_ndalloc :: uint64
  bs_nrequests :: uint64
  bs_curregs :: size_t
  bs_nfills :: uint64
  bs_nflushes :: uint64
  bs_nslabs :: uint64
  bs_reslabs :: uint64
  bs_curslabs :: size_t

record bin =
  bin_slabcur :: "64 word option"
  bin_slabs_nonfull :: "64 word ph"
  bin_slabs_full :: "64 word list"
  bin_stats :: bin_stats

definition bin_init :: bin where
  "bin_init = \<lparr>bin_slabcur = None, bin_slabs_nonfull = ph_new, bin_slabs_full = [],
     bin_stats = \<lparr>bs_nmalloc = 0, bs_ndalloc = 0, bs_nrequests = 0, bs_curregs = 0, bs_nfills = 0,
       bs_nflushes = 0, bs_nslabs = 0, bs_reslabs = 0, bs_curslabs = 0\<rparr>\<rparr>"

definition bin_stats_merge :: "bin_stats \<Rightarrow> bin \<Rightarrow> bin_stats" where
  "bin_stats_merge dst bin =
     (let src = bin_stats bin in
      \<lparr>bs_nmalloc = bs_nmalloc dst + bs_nmalloc src, bs_ndalloc = bs_ndalloc dst + bs_ndalloc src,
       bs_nrequests = bs_nrequests dst + bs_nrequests src,
       bs_curregs = bs_curregs dst + bs_curregs src, bs_nfills = bs_nfills dst + bs_nfills src,
       bs_nflushes = bs_nflushes dst + bs_nflushes src, bs_nslabs = bs_nslabs dst + bs_nslabs src,
       bs_reslabs = bs_reslabs dst + bs_reslabs src,
       bs_curslabs = bs_curslabs dst + bs_curslabs src\<rparr>)"

text \<open>
  The part of the arena that the bins use; \<open>ar_auto\<close> is the answer of \<open>arena_is_auto\<close>, and
  \<open>ar_active\<close> the slabs that the arena has taken from the extents and not given back: the extents
  in the active state, which the radix tree finds.
\<close>

record arena =
  ar_auto :: bool
  ar_mem :: "64 word \<Rightarrow> extent"
  ar_active :: "64 word set"
  ar_nactive :: size_t
  ar_bins :: "bin list"

definition arena_bins_init :: "bool \<Rightarrow> (64 word \<Rightarrow> extent) \<Rightarrow> size_t \<Rightarrow> arena" where
  "arena_bins_init auto mem nactive =
     \<lparr>ar_auto = auto, ar_mem = mem, ar_active = {}, ar_nactive = nactive,
       ar_bins = map (\<lambda>_. bin_init) [0..<SC_NBINS]\<rparr>"

abbreviation nfree_at :: "arena \<Rightarrow> 64 word \<Rightarrow> uint64" where
  "nfree_at ar slab \<equiv> extent_nfree_get (ar_mem ar slab)"

section \<open>Slabs from and to the extents\<close>

definition arena_nactive_add :: "arena \<Rightarrow> size_t \<Rightarrow> arena" where
  "arena_nactive_add ar pages = ar\<lparr>ar_nactive := ar_nactive ar + pages\<rparr>"

definition arena_nactive_sub :: "arena \<Rightarrow> size_t \<Rightarrow> arena" where
  "arena_nactive_sub ar pages = ar\<lparr>ar_nactive := ar_nactive ar - pages\<rparr>"

text \<open>
  The answers of the three attempts: the dirty extents, the muzzy ones where the arena may have
  any, and \<open>arena_slab_alloc_hard\<close>. An answer is the address of a descriptor and its contents.
\<close>

record slab_source =
  src_dirty :: "(64 word \<times> extent) option"
  src_may_have_muzzy :: bool
  src_muzzy :: "(64 word \<times> extent) option"
  src_hard :: "(64 word \<times> extent) option"

definition slab_answer :: "slab_source \<Rightarrow> (64 word \<times> extent) option" where
  "slab_answer src =
     (let slab = src_dirty src;
          slab = (if slab = None \<and> src_may_have_muzzy src then src_muzzy src else slab)
      in if slab = None then src_hard src else slab)"

definition arena_slab_alloc ::
  "bin_info \<Rightarrow> arena \<Rightarrow> slab_source \<Rightarrow> (64 word option \<times> arena) option" where
  "arena_slab_alloc bin_info ar src =
     (case slab_answer src of
        None \<Rightarrow> Some (None, ar)
      | Some (slab, e) \<Rightarrow> do {
          e \<leftarrow> arena_slab_init e bin_info;
          Some (Some slab, arena_nactive_add
            (ar\<lparr>ar_mem := (ar_mem ar)(slab := e), ar_active := insert slab (ar_active ar)\<rparr>)
            (drop_bit LG_PAGE (extent_size_get e)))
        })"

definition arena_slab_dalloc :: "arena \<Rightarrow> 64 word \<Rightarrow> arena" where
  "arena_slab_dalloc ar slab =
     (let ar = arena_nactive_sub ar (drop_bit LG_PAGE (extent_size_get (ar_mem ar slab)))
      in ar\<lparr>ar_active := ar_active ar - {slab}\<rparr>)"

section \<open>The sets of slabs of a bin\<close>

definition arena_bin_slabs_nonfull_insert :: "bin \<Rightarrow> 64 word \<Rightarrow> bin" where
  "arena_bin_slabs_nonfull_insert bin slab =
     bin\<lparr>bin_slabs_nonfull := ph_insert slab (bin_slabs_nonfull bin)\<rparr>"

definition arena_bin_slabs_nonfull_remove :: "arena \<Rightarrow> bin \<Rightarrow> 64 word \<Rightarrow> bin" where
  "arena_bin_slabs_nonfull_remove ar bin slab =
     bin\<lparr>bin_slabs_nonfull := ph_remove (heap_comp (ar_mem ar)) slab (bin_slabs_nonfull bin)\<rparr>"

definition arena_bin_slabs_nonfull_tryget :: "arena \<Rightarrow> bin \<Rightarrow> 64 word option \<times> bin" where
  "arena_bin_slabs_nonfull_tryget ar bin =
     (case ph_remove_first (heap_comp (ar_mem ar)) (bin_slabs_nonfull bin) of
        (None, heap) \<Rightarrow> (None, bin\<lparr>bin_slabs_nonfull := heap\<rparr>)
      | (Some slab, heap) \<Rightarrow>
          (Some slab, bin\<lparr>bin_slabs_nonfull := heap,
             bin_stats := (bin_stats bin)\<lparr>bs_reslabs := bs_reslabs (bin_stats bin) + 1\<rparr>\<rparr>))"

definition arena_bin_slabs_full_insert :: "arena \<Rightarrow> bin \<Rightarrow> 64 word \<Rightarrow> bin" where
  "arena_bin_slabs_full_insert ar bin slab =
     (if ar_auto ar then bin else bin\<lparr>bin_slabs_full := bin_slabs_full bin @ [slab]\<rparr>)"

definition arena_bin_slabs_full_remove :: "arena \<Rightarrow> bin \<Rightarrow> 64 word \<Rightarrow> bin" where
  "arena_bin_slabs_full_remove ar bin slab =
     (if ar_auto ar then bin else bin\<lparr>bin_slabs_full := remove1 slab (bin_slabs_full bin)\<rparr>)"

section \<open>Deallocation\<close>

definition arena_dissociate_bin_slab ::
  "bin_info list \<Rightarrow> arena \<Rightarrow> 64 word \<Rightarrow> bin \<Rightarrow> bin option" where
  "arena_dissociate_bin_slab bins ar slab bin =
     (if bin_slabcur bin = Some slab then Some (bin\<lparr>bin_slabcur := None\<rparr>)
      else do {
        bin_info \<leftarrow> read_at bins (unat (extent_szind_get (ar_mem ar slab)));
        Some (if bin_nregs bin_info = 1 then arena_bin_slabs_full_remove ar bin slab
              else arena_bin_slabs_nonfull_remove ar bin slab)
      })"

definition arena_dalloc_bin_slab :: "arena \<Rightarrow> 64 word \<Rightarrow> bin \<Rightarrow> arena \<times> bin" where
  "arena_dalloc_bin_slab ar slab bin =
     (arena_slab_dalloc ar slab,
      bin\<lparr>bin_stats := (bin_stats bin)\<lparr>bs_curslabs := bs_curslabs (bin_stats bin) - 1\<rparr>\<rparr>)"

definition arena_bin_lower_slab :: "arena \<Rightarrow> 64 word \<Rightarrow> bin \<Rightarrow> bin" where
  "arena_bin_lower_slab ar slab bin =
     (case bin_slabcur bin of
        Some cur \<Rightarrow>
          if 0 < extent_snad_comp (ar_mem ar cur) (ar_mem ar slab) then
            let bin = (if 0 < nfree_at ar cur then arena_bin_slabs_nonfull_insert bin cur
                       else arena_bin_slabs_full_insert ar bin cur)
            in bin\<lparr>bin_slabcur := Some slab,
                 bin_stats := (bin_stats bin)\<lparr>bs_reslabs := bs_reslabs (bin_stats bin) + 1\<rparr>\<rparr>
          else arena_bin_slabs_nonfull_insert bin slab
      | None \<Rightarrow> arena_bin_slabs_nonfull_insert bin slab)"

text \<open>The slab moves between the sets of its bin when its count of free regions has become \<open>nfree\<close>.\<close>

definition arena_dalloc_bin_move ::
  "bin_info list \<Rightarrow> bin_info \<Rightarrow> arena \<Rightarrow> 64 word \<Rightarrow> bin \<Rightarrow> (arena \<times> bin) option" where
  "arena_dalloc_bin_move bins bin_info ar slab bin =
     (let nfree = nfree_at ar slab in
      if nfree = ucast (bin_nregs bin_info) then do {
        bin \<leftarrow> arena_dissociate_bin_slab bins ar slab bin;
        Some (arena_dalloc_bin_slab ar slab bin)
      } else if nfree = 1 \<and> bin_slabcur bin \<noteq> Some slab then
        let bin = arena_bin_slabs_full_remove ar bin slab
        in Some (ar, arena_bin_lower_slab ar slab bin)
      else Some (ar, bin))"

definition arena_dalloc_bin_locked_impl ::
  "bin_info list \<Rightarrow> div_info list \<Rightarrow> arena \<Rightarrow> 64 word \<Rightarrow> 64 word \<Rightarrow> arena option" where
  "arena_dalloc_bin_locked_impl bins divs ar slab ptr =
     (let binind = unat (extent_szind_get (ar_mem ar slab)) in do {
        bin \<leftarrow> read_at (ar_bins ar) binind;
        bin_info \<leftarrow> read_at bins binind;
        e \<leftarrow> arena_slab_reg_dalloc bins divs (ar_mem ar slab) ptr;
        (ar, bin) \<leftarrow> arena_dalloc_bin_move bins bin_info (ar\<lparr>ar_mem := (ar_mem ar)(slab := e)\<rparr>) slab bin;
        let bin = bin\<lparr>bin_stats := (bin_stats bin)\<lparr>bs_ndalloc := bs_ndalloc (bin_stats bin) + 1,
                    bs_curregs := bs_curregs (bin_stats bin) - 1\<rparr>\<rparr>;
        bs \<leftarrow> write_at (ar_bins ar) binind bin;
        Some (ar\<lparr>ar_bins := bs\<rparr>)
      })"

text \<open>The extent of a pointer is found by \<open>iealloc\<close>, a lookup in the radix tree: an argument.\<close>

definition arena_dalloc_small ::
  "bin_info list \<Rightarrow> div_info list \<Rightarrow> (64 word \<Rightarrow> 64 word) \<Rightarrow> arena \<Rightarrow> 64 word \<Rightarrow> arena option" where
  "arena_dalloc_small bins divs iealloc ar ptr =
     arena_dalloc_bin_locked_impl bins divs ar (iealloc ptr) ptr"

section \<open>Allocation\<close>

definition arena_slab_reg_alloc_at ::
  "arena \<Rightarrow> 64 word \<Rightarrow> bin_info \<Rightarrow> (64 word \<times> arena) option" where
  "arena_slab_reg_alloc_at ar slab bin_info = do {
     (ret, e) \<leftarrow> arena_slab_reg_alloc (ar_mem ar slab) bin_info;
     Some (ret, ar\<lparr>ar_mem := (ar_mem ar)(slab := e)\<rparr>)
   }"

text \<open>\<open>arena_bin_nonfull_slab_get\<close> after the lock was taken again: \<open>slab\<close> is the new slab.\<close>

definition arena_bin_nonfull_slab_get_end :: "arena \<Rightarrow> bin \<Rightarrow> 64 word option \<Rightarrow> 64 word option \<times> bin" where
  "arena_bin_nonfull_slab_get_end ar bin slab =
     (case slab of
        Some _ \<Rightarrow> (slab, bin\<lparr>bin_stats := (bin_stats bin)\<lparr>bs_nslabs := bs_nslabs (bin_stats bin) + 1,
                          bs_curslabs := bs_curslabs (bin_stats bin) + 1\<rparr>\<rparr>)
      | None \<Rightarrow> arena_bin_slabs_nonfull_tryget ar bin)"

text \<open>\<open>arena_bin_malloc_hard\<close> up to the first \<open>tryget\<close>, after which the lock may be dropped.\<close>

definition arena_bin_malloc_hard_begin :: "arena \<Rightarrow> bin \<Rightarrow> 64 word option \<times> bin" where
  "arena_bin_malloc_hard_begin ar bin =
     (let bin = (case bin_slabcur bin of
                   Some cur \<Rightarrow>
                     if \<not> ar_auto ar then (arena_bin_slabs_full_insert ar bin cur)\<lparr>bin_slabcur := None\<rparr>
                     else bin
                 | None \<Rightarrow> bin)
      in arena_bin_slabs_nonfull_tryget ar bin)"

definition arena_bin_malloc_hard_take ::
  "bin_info \<Rightarrow> arena \<Rightarrow> bin \<Rightarrow> 64 word option \<Rightarrow> (64 word option \<times> arena \<times> bin) option" where
  "arena_bin_malloc_hard_take bin_info ar bin slab =
     (case slab of
        None \<Rightarrow> Some (None, ar, bin)
      | Some slab \<Rightarrow> do {
          let bin = bin\<lparr>bin_slabcur := Some slab\<rparr>;
          (ret, ar) \<leftarrow> arena_slab_reg_alloc_at ar slab bin_info;
          Some (Some ret, ar, bin)
        })"

definition arena_bin_malloc_hard_end ::
  "bin_info \<Rightarrow> arena \<Rightarrow> bin \<Rightarrow> 64 word option \<Rightarrow> (64 word option \<times> arena \<times> bin) option" where
  "arena_bin_malloc_hard_end bin_info ar bin slab =
     (case bin_slabcur bin of
        Some cur \<Rightarrow>
          if 0 < nfree_at ar cur then do {
            (ret, ar) \<leftarrow> arena_slab_reg_alloc_at ar cur bin_info;
            case slab of
              None \<Rightarrow> Some (Some ret, ar, bin)
            | Some slab \<Rightarrow>
                if nfree_at ar slab = ucast (bin_nregs bin_info) then
                  Some (Some ret, arena_dalloc_bin_slab ar slab bin)
                else Some (Some ret, ar, arena_bin_lower_slab ar slab bin)
          } else
            let bin = (arena_bin_slabs_full_insert ar bin cur)\<lparr>bin_slabcur := None\<rparr>
            in arena_bin_malloc_hard_take bin_info ar bin slab
      | None \<Rightarrow> arena_bin_malloc_hard_take bin_info ar bin slab)"

text \<open>
  One allocation from a bin, the test that \<open>arena_malloc_small\<close> and \<open>arena_tcache_fill_small\<close>
  share included: it ends with an answer, or has to wait for a slab, after which it goes on.
\<close>

datatype malloc_step = Done "64 word option" | Wait

definition bin_malloc_begin ::
  "bin_info \<Rightarrow> arena \<Rightarrow> bin \<Rightarrow> (malloc_step \<times> arena \<times> bin) option" where
  "bin_malloc_begin bin_info ar bin =
     (let cur = (case bin_slabcur bin of Some slab \<Rightarrow> 0 < nfree_at ar slab | None \<Rightarrow> False) in
      if cur then do {
        (ret, ar) \<leftarrow> arena_slab_reg_alloc_at ar (the (bin_slabcur bin)) bin_info;
        Some (Done (Some ret), ar, bin)
      } else
        (case arena_bin_malloc_hard_begin ar bin of
           (None, bin) \<Rightarrow> Some (Wait, ar, bin)
         | (Some slab, bin) \<Rightarrow> do {
             (ret, ar, bin) \<leftarrow> arena_bin_malloc_hard_end bin_info ar bin (Some slab);
             Some (Done ret, ar, bin)
           }))"

definition bin_malloc_end ::
  "bin_info \<Rightarrow> arena \<Rightarrow> bin \<Rightarrow> 64 word option \<Rightarrow> (64 word option \<times> arena \<times> bin) option" where
  "bin_malloc_end bin_info ar bin slab =
     (let (slab, bin) = arena_bin_nonfull_slab_get_end ar bin slab
      in arena_bin_malloc_hard_end bin_info ar bin slab)"

text \<open>Without another thread in between.\<close>

definition bin_malloc ::
  "bin_info \<Rightarrow> slab_source \<Rightarrow> arena \<Rightarrow> bin \<Rightarrow> (64 word option \<times> arena \<times> bin) option" where
  "bin_malloc bin_info src ar bin = do {
     (step, ar, bin) \<leftarrow> bin_malloc_begin bin_info ar bin;
     case step of
       Done ret \<Rightarrow> Some (ret, ar, bin)
     | Wait \<Rightarrow> do {
         (slab, ar) \<leftarrow> arena_slab_alloc bin_info ar src;
         bin_malloc_end bin_info ar bin slab
       }
   }"

definition malloc_small_stats :: "64 word option \<Rightarrow> bin \<Rightarrow> bin" where
  "malloc_small_stats ret bin =
     (if ret = None then bin
      else bin\<lparr>bin_stats := (bin_stats bin)\<lparr>bs_nmalloc := bs_nmalloc (bin_stats bin) + 1,
             bs_nrequests := bs_nrequests (bin_stats bin) + 1,
             bs_curregs := bs_curregs (bin_stats bin) + 1\<rparr>\<rparr>)"

definition arena_malloc_small_begin ::
  "bin_info list \<Rightarrow> arena \<Rightarrow> nat \<Rightarrow> (malloc_step \<times> arena) option" where
  "arena_malloc_small_begin bins ar binind = do {
     bin \<leftarrow> read_at (ar_bins ar) binind;
     bin_info \<leftarrow> read_at bins binind;
     (step, ar, bin) \<leftarrow> bin_malloc_begin bin_info ar bin;
     let bin = (case step of Done ret \<Rightarrow> malloc_small_stats ret bin | Wait \<Rightarrow> bin);
     bs \<leftarrow> write_at (ar_bins ar) binind bin;
     Some (step, ar\<lparr>ar_bins := bs\<rparr>)
   }"

definition arena_malloc_small_end ::
  "bin_info list \<Rightarrow> slab_source \<Rightarrow> arena \<Rightarrow> nat \<Rightarrow> (64 word option \<times> arena) option" where
  "arena_malloc_small_end bins src ar binind = do {
     bin \<leftarrow> read_at (ar_bins ar) binind;
     bin_info \<leftarrow> read_at bins binind;
     (slab, ar) \<leftarrow> arena_slab_alloc bin_info ar src;
     (ret, ar, bin) \<leftarrow> bin_malloc_end bin_info ar bin slab;
     bs \<leftarrow> write_at (ar_bins ar) binind (malloc_small_stats ret bin);
     Some (ret, ar\<lparr>ar_bins := bs\<rparr>)
   }"

definition arena_malloc_small ::
  "bin_info list \<Rightarrow> slab_source \<Rightarrow> arena \<Rightarrow> nat \<Rightarrow> (64 word option \<times> arena) option" where
  "arena_malloc_small bins src ar binind = do {
     bin \<leftarrow> read_at (ar_bins ar) binind;
     bin_info \<leftarrow> read_at bins binind;
     (ret, ar, bin) \<leftarrow> bin_malloc bin_info src ar bin;
     bs \<leftarrow> write_at (ar_bins ar) binind (malloc_small_stats ret bin);
     Some (ret, ar\<lparr>ar_bins := bs\<rparr>)
   }"

section \<open>Slabs\<close>

text \<open>The allocated regions of a slab, its pages, and the state in which a bin keeps it.\<close>

definition slab_used :: "bin_info \<Rightarrow> extent \<Rightarrow> 64 word set" where
  "slab_used bi e = region bi e ` bitmap_used (unat (bin_nregs bi)) (e_slab_bitmap e)"

definition slab_pages :: "bin_info \<Rightarrow> extent \<Rightarrow> nat set" where
  "slab_pages bi e =
     {unat (extent_addr_get e)..<unat (extent_addr_get e) + unat (bin_slab_size bi)}"

definition slab_ok :: "nat \<Rightarrow> bin_info \<Rightarrow> extent \<Rightarrow> bool" where
  "slab_ok i bi e \<longleftrightarrow> slab_inv i bi (unat (bin_nregs bi)) e e (slab_used bi e)
     \<and> unat (extent_addr_get e) + unat (bin_slab_size bi) \<le> 2 ^ 64"

definition same_slab :: "extent \<Rightarrow> extent \<Rightarrow> bool" where
  "same_slab e e' \<longleftrightarrow> extent_addr_get e' = extent_addr_get e \<and> extent_sn_get e' = extent_sn_get e
     \<and> extent_size_get e' = extent_size_get e \<and> extent_szind_get e' = extent_szind_get e"

lemma same_slab_pages: "same_slab e e' \<Longrightarrow> slab_pages bi e' = slab_pages bi e"
  by (simp add: same_slab_def slab_pages_def)

lemma same_slab_comp:
  "same_slab (mem a) e \<Longrightarrow> heap_comp (mem(a := e)) = heap_comp mem"
  by (intro ext) (auto simp: extent_comp_defs same_slab_def cong: if_cong)

lemma bin_ok_nregs: "bin_ok bi dv r n \<Longrightarrow> unat (bin_nregs bi) = n"
  by (simp add: bin_ok_def)

lemma slab_inv_ok:
  assumes "slab_inv i bi (unat (bin_nregs bi)) s0 s L"
    and "unat (extent_addr_get s0) + unat (bin_slab_size bi) \<le> 2 ^ 64"
  shows "slab_ok i bi s" "slab_used bi s = L"
  using assms by (auto simp: slab_ok_def slab_inv_def slab_used_def region_def)

lemma slab_okD:
  assumes "slab_ok i bi e" "bin_ok bi dv r n"
  shows "finite (slab_used bi e)" "unat (extent_nfree_get e) + card (slab_used bi e) = n"
    "unat (extent_szind_get e) = i" "unat ` slab_used bi e \<subseteq> slab_pages bi e"
    "slab_inv i bi n e e (slab_used bi e)"
    "unat (extent_addr_get e) + unat (bin_slab_size bi) \<le> 2 ^ 64"
proof -
  note n = bin_ok_nregs [OF assms(2)]
  have i: "slab_inv i bi n e e (slab_used bi e)"
    "unat (extent_addr_get e) + unat (bin_slab_size bi) \<le> 2 ^ 64"
    using assms(1) by (simp_all add: slab_ok_def n)
  then show "slab_inv i bi n e e (slab_used bi e)"
    "unat (extent_addr_get e) + unat (bin_slab_size bi) \<le> 2 ^ 64" "unat (extent_szind_get e) = i"
    by (simp_all add: slab_inv_def)
  have u: "bitmap_used n (e_slab_bitmap e) \<subseteq> {..<n}" by (auto simp: bitmap_used_def)
  then have f: "finite (bitmap_used n (e_slab_bitmap e))" by (rule finite_subset) simp
  then show "finite (slab_used bi e)" by (simp add: slab_used_def n)
  have "card (slab_used bi e) = card (bitmap_used n (e_slab_bitmap e))"
    unfolding slab_used_def n by (rule card_image) (rule inj_on_subset [OF region_inj [OF assms(2) i(2)] u])
  then show "unat (extent_nfree_get e) + card (slab_used bi e) = n" using i(1) by (simp add: slab_inv_def)
  show "unat ` slab_used bi e \<subseteq> slab_pages bi e"
  proof
    fix x assume "x \<in> unat ` slab_used bi e"
    then obtain b where b: "b < n" "x = unat (region bi e b)" using u by (auto simp: slab_used_def n)
    have "0 < r" "n * r \<le> unat (bin_slab_size bi)" using assms(2) by (simp_all add: bin_ok_def)
    moreover have "b * r < n * r" using b(1) \<open>0 < r\<close> by simp
    ultimately have "b * r < unat (bin_slab_size bi)" by linarith
    then show "x \<in> slab_pages bi e"
      using unat_region(1) [OF assms(2) i(2) b(1)] b(2) by (simp add: slab_pages_def)
  qed
qed

lemma slab_nfree_used:
  assumes "slab_ok i bi e" "bin_ok bi dv r n"
  shows "unat (extent_nfree_get e) = n - card (slab_used bi e)"
    "slab_used bi e = {} \<longleftrightarrow> extent_nfree_get e = ucast (bin_nregs bi)"
    "extent_nfree_get e = ucast (bin_nregs bi) \<longleftrightarrow> unat (extent_nfree_get e) = n"
    "extent_nfree_get e = 1 \<longleftrightarrow> unat (extent_nfree_get e) = 1"
    "extent_nfree_get e = 0 \<longleftrightarrow> unat (extent_nfree_get e) = 0"
    "0 < extent_nfree_get e \<longleftrightarrow> 0 < unat (extent_nfree_get e)"
proof -
  note d = slab_okD [OF assms] and n = bin_ok_nregs [OF assms(2)]
  show "unat (extent_nfree_get e) = n - card (slab_used bi e)" using d(2) by linarith
  have "unat (ucast (bin_nregs bi) :: 64 word) = n" using n by (simp add: unat_ucast_64)
  then show e: "extent_nfree_get e = ucast (bin_nregs bi) \<longleftrightarrow> unat (extent_nfree_get e) = n"
    by (metis word_unat_eq_iff)
  have "card (slab_used bi e) = 0 \<longleftrightarrow> slab_used bi e = {}" using d(1) by simp
  with d(2) show "slab_used bi e = {} \<longleftrightarrow> extent_nfree_get e = ucast (bin_nregs bi)"
    unfolding e by linarith
  show "extent_nfree_get e = 1 \<longleftrightarrow> unat (extent_nfree_get e) = 1"
    by (metis unsigned_1 word_unat_eq_iff)
  show "extent_nfree_get e = 0 \<longleftrightarrow> unat (extent_nfree_get e) = 0" by (simp add: unat_eq_0)
  show "0 < extent_nfree_get e \<longleftrightarrow> 0 < unat (extent_nfree_get e)" by (simp add: word_less_nat_alt)
qed

text \<open>The operations on a slab, with their effect on its allocated regions.\<close>

lemma nfree_ops_same:
  "0 < unat (extent_nfree_get e) \<Longrightarrow> same_slab e (extent_nfree_dec (e\<lparr>e_slab_bitmap := bm\<rparr>))"
  "unat (extent_nfree_get e) + 1 < 2 ^ 10 \<Longrightarrow> same_slab e (extent_nfree_inc (e\<lparr>e_slab_bitmap := bm\<rparr>))"
proof -
  have v: "extent_view (e\<lparr>e_slab_bitmap := bm\<rparr>) = extent_view e"
    by (simp add: view_simps)
  have "same_slab e e'" if "extent_view e' = (extent_view e)\<lparr>ev_nfree := k\<rparr>" for e' k
    using that by (simp add: extent_view_def same_slab_def word_unat_eq_iff)
  then show "0 < unat (extent_nfree_get e) \<Longrightarrow> same_slab e (extent_nfree_dec (e\<lparr>e_slab_bitmap := bm\<rparr>))"
    "unat (extent_nfree_get e) + 1 < 2 ^ 10 \<Longrightarrow> same_slab e (extent_nfree_inc (e\<lparr>e_slab_bitmap := bm\<rparr>))"
    using view_nfree_dec [of "e\<lparr>e_slab_bitmap := bm\<rparr>"] view_nfree_inc [of "e\<lparr>e_slab_bitmap := bm\<rparr>"]
    unfolding v bitmap_field_irrelevant by blast+
qed

lemma slab_alloc:
  assumes "bin_ok bi dv r n" "slab_ok i bi e" "0 < extent_nfree_get e"
  shows "\<exists>p e'. arena_slab_reg_alloc e bi = Some (p, e') \<and> p \<notin> slab_used bi e
    \<and> slab_used bi e' = insert p (slab_used bi e) \<and> slab_ok i bi e' \<and> same_slab e e'"
proof -
  note d = slab_okD [OF assms(2,1)] and n = bin_ok_nregs [OF assms(1)]
  from slab_inv_alloc [OF assms(1) d(5) assms(3) d(6)] obtain b e' where
    b: "arena_slab_reg_alloc e bi = Some (region bi e b, e')" "region bi e b \<notin> slab_used bi e"
      "slab_inv i bi n e e' (insert (region bi e b) (slab_used bi e))" by blast
  note o' = slab_inv_ok [OF b(3) [folded n] d(6)]
  have "same_slab e e'"
    using b(1) nfree_ops_same(1) [of e] assms(3) by (auto simp: arena_slab_reg_alloc_def slab_nfree_used(6) [OF assms(2,1)])
  with b o' show ?thesis by blast
qed

lemma slab_dalloc:
  assumes "bin_ok bi dv r n" "slab_ok i bi e" "p \<in> slab_used bi e"
    and "read_at bins i = Some bi" "read_at divs i = Some dv"
  shows "\<exists>e'. arena_slab_reg_dalloc bins divs e p = Some e'
    \<and> slab_used bi e' = slab_used bi e - {p} \<and> slab_ok i bi e' \<and> same_slab e e'"
proof -
  note d = slab_okD [OF assms(2,1)] and n = bin_ok_nregs [OF assms(1)]
  from slab_inv_dalloc [OF assms(1) d(5) assms(3) d(6) assms(4,5)] obtain e' where
    b: "arena_slab_reg_dalloc bins divs e p = Some e'"
      "slab_inv i bi n e e' (slab_used bi e - {p})" by blast
  note o' = slab_inv_ok [OF b(2) [folded n] d(6)]
  have "n \<le> 512" using assms(1) by (simp add: bin_ok_def)
  then have "unat (extent_nfree_get e) + 1 < 2 ^ 10" using d(2) by simp
  from nfree_ops_same(2) [OF this] have "same_slab e e'"
    using b(1) assms(4,5) by (auto simp: arena_slab_reg_dalloc_def Let_def bind_eq_Some_conv)
  with b o' show ?thesis by blast
qed

lemma slab_init:
  assumes "bin_ok bi dv r n" "unat (extent_szind_get e) = i" "length (e_slab_bitmap e) = BITMAP_GROUPS_MAX"
    and "unat (extent_addr_get e) + unat (bin_slab_size bi) \<le> 2 ^ 64"
  shows "\<exists>e'. arena_slab_init e bi = Some e' \<and> slab_used bi e' = {} \<and> slab_ok i bi e' \<and> same_slab e e'"
proof -
  note n = bin_ok_nregs [OF assms(1)]
  from slab_inv_init [OF assms(1-3)] obtain e' where
    e: "arena_slab_init e bi = Some e'" "slab_inv i bi n e e' {}" by blast
  note o' = slab_inv_ok [OF e(2) [folded n] assms(4)]
  have "unat (bin_nregs bi) < 2 ^ 10" using assms(1) by (simp add: bin_ok_def)
  then have "extent_view (extent_nfree_set e (bin_nregs bi)) = (extent_view e)\<lparr>ev_nfree := unat (bin_nregs bi)\<rparr>"
    by (rule view_nfree_set)
  then have "same_slab e (extent_nfree_set e (bin_nregs bi))"
    by (simp add: extent_view_def same_slab_def word_unat_eq_iff)
  moreover have "same_slab e (s\<lparr>e_slab_bitmap := bm\<rparr>)" if "same_slab e s" for s bm
    using that by (simp add: same_slab_def extent_getters extent_addr_get_def extent_size_get_def)
  ultimately have "same_slab e e'"
    using e(1) by (auto simp: arena_slab_init_def Let_def)
  with e(1) o' show ?thesis by blast
qed

section \<open>The sets of a bin\<close>

text \<open>
  \<open>H\<close> are the slabs of the heap, \<open>F\<close> those of the list of full slabs, which only an arena that
  is not automatic keeps.
\<close>

definition bin_sets :: "bool \<Rightarrow> (64 word \<Rightarrow> extent) \<Rightarrow> bin \<Rightarrow> 64 word set \<Rightarrow> 64 word set \<Rightarrow> bool" where
  "bin_sets auto mem b H F \<longleftrightarrow> finite H \<and> finite F \<and> ph_inv (heap_comp mem) (bin_slabs_nonfull b)
     \<and> mset_phns (bin_slabs_nonfull b) = mset_set H
     \<and> mset (bin_slabs_full b) = (if auto then {#} else mset_set F)"

lemma bin_sets_frame:
  assumes "bin_sets auto mem b H F" "\<forall>a\<in>H. mem' a = mem a"
  shows "bin_sets auto mem' b H F"
proof -
  have "ph_inv (heap_comp mem) (bin_slabs_nonfull b) = ph_inv (heap_comp mem') (bin_slabs_nonfull b)"
    using assms by (intro ph_inv_cong) (simp add: bin_sets_def heap_comp_def)
  then show ?thesis using assms(1) by (simp add: bin_sets_def)
qed

lemma bin_sets_cong:
  "bin_slabs_nonfull b' = bin_slabs_nonfull b \<Longrightarrow> bin_slabs_full b' = bin_slabs_full b \<Longrightarrow>
    bin_sets auto mem b' H F = bin_sets auto mem b H F"
  by (simp add: bin_sets_def)

lemma bin_sets_nonfull:
  assumes "bin_sets (ar_auto ar) (ar_mem ar) b H F"
  shows "a \<notin> H \<Longrightarrow> bin_sets (ar_auto ar) (ar_mem ar) (arena_bin_slabs_nonfull_insert b a) (insert a H) F"
    "a \<in> H \<Longrightarrow> bin_sets (ar_auto ar) (ar_mem ar) (arena_bin_slabs_nonfull_remove ar b a) (H - {a}) F"
proof -
  let ?cmp = "heap_comp (ar_mem ar)" and ?h = "bin_slabs_nonfull b"
  have h: "finite H" "ph_inv ?cmp ?h" "mset_phns ?h = mset_set H" using assms by (simp_all add: bin_sets_def)
  show "bin_sets (ar_auto ar) (ar_mem ar) (arena_bin_slabs_nonfull_insert b a) (insert a H) F" if "a \<notin> H"
    using that h assms extent_heap.pq.insert(1) [of "ar_mem ar" ?h a] extent_heap.pq.insert(2)
    by (simp add: bin_sets_def arena_bin_slabs_nonfull_insert_def)
  assume a: "a \<in> H"
  then have "a \<in># mset_phns ?h" "count (mset_phns ?h) a = 1" using h by simp_all
  with h(2) extent_heap.pq.remove [of "ar_mem ar" ?h a] have
    "ph_inv ?cmp (ph_remove ?cmp a ?h)" "mset_phns ?h = add_mset a (mset_phns (ph_remove ?cmp a ?h))"
    by auto
  moreover have "mset_set H = add_mset a (mset_set (H - {a}))"
    using h(1) a by (simp add: mset_set.remove)
  ultimately show "bin_sets (ar_auto ar) (ar_mem ar) (arena_bin_slabs_nonfull_remove ar b a) (H - {a}) F"
    using assms h(3) by (simp add: bin_sets_def arena_bin_slabs_nonfull_remove_def)
qed

lemma bin_sets_tryget:
  assumes "bin_sets (ar_auto ar) (ar_mem ar) b H F"
  shows "if H = {} then \<exists>b'. arena_bin_slabs_nonfull_tryget ar b = (None, b') \<and> bin_slabcur b' = bin_slabcur b
        \<and> bin_sets (ar_auto ar) (ar_mem ar) b' {} F
        \<and> bs_curslabs (bin_stats b') = bs_curslabs (bin_stats b) \<and> bs_curregs (bin_stats b') = bs_curregs (bin_stats b)
    else \<exists>a b'. arena_bin_slabs_nonfull_tryget ar b = (Some a, b') \<and> bin_slabcur b' = bin_slabcur b
        \<and> a \<in> H \<and> (\<forall>c\<in>H. heap_comp (ar_mem ar) a c \<le> 0) \<and> bin_sets (ar_auto ar) (ar_mem ar) b' (H - {a}) F
        \<and> bs_curslabs (bin_stats b') = bs_curslabs (bin_stats b) \<and> bs_curregs (bin_stats b') = bs_curregs (bin_stats b)"
proof -
  let ?cmp = "heap_comp (ar_mem ar)" and ?h = "bin_slabs_nonfull b"
  have h: "finite H" "ph_inv ?cmp ?h" "mset_phns ?h = mset_set H" using assms by (simp_all add: bin_sets_def)
  show ?thesis
  proof (cases "H = {}")
    case True
    then have "?h = []" using h(3) by simp
    then have "ph_remove_first ?cmp ?h = (None, [])" by (simp add: ph_remove_first_def ph_merge_aux_def)
    with True assms h show ?thesis
      by (simp add: arena_bin_slabs_nonfull_tryget_def bin_sets_def ph_inv_def)
  next
    case False
    then have ne: "?h \<noteq> []" using h(1,3) by (auto simp: mset_set_empty_iff)
    from extent_heap.remove_first_least [OF h(2) ne] obtain a h' where
      a: "ph_remove_first ?cmp ?h = (Some a, h')" "ph_inv ?cmp h'"
        "mset_phns ?h = add_mset a (mset_phns h')" "\<forall>y\<in>#mset_phns ?h. ?cmp a y \<le> 0" by blast
    have "a \<in># mset_set H" using a(3) h(3) by (metis union_single_eq_member)
    then have aH: "a \<in> H" using h(1) by simp
    have "mset_set H = add_mset a (mset_set (H - {a}))" using h(1) aH by (simp add: mset_set.remove)
    with a(3) h(3) have "mset_phns h' = mset_set (H - {a})" by simp
    with False aH a assms h show ?thesis
      by (simp add: arena_bin_slabs_nonfull_tryget_def bin_sets_def)
  qed
qed

lemma bin_sets_full:
  assumes "bin_sets (ar_auto ar) (ar_mem ar) b H F"
  shows "a \<notin> F \<Longrightarrow> bin_sets (ar_auto ar) (ar_mem ar) (arena_bin_slabs_full_insert ar b a) H (insert a F)"
    "a \<in> F \<Longrightarrow> bin_sets (ar_auto ar) (ar_mem ar) (arena_bin_slabs_full_remove ar b a) H (F - {a})"
  using assms
  by (auto simp: bin_sets_def arena_bin_slabs_full_insert_def arena_bin_slabs_full_remove_def
      mset_set_Diff)

section \<open>The invariant of a bin\<close>

text \<open>
  \<open>A\<close> are the slabs of the bin. Each has an allocated region, the current one is one of them, and
  every other is in the heap when it has a free region and is full otherwise.
\<close>

definition heap_slabs :: "arena \<Rightarrow> bin \<Rightarrow> 64 word set \<Rightarrow> 64 word set" where
  "heap_slabs ar b A = {a \<in> A. bin_slabcur b \<noteq> Some a \<and> nfree_at ar a \<noteq> 0}"

definition full_slabs :: "arena \<Rightarrow> bin \<Rightarrow> 64 word set \<Rightarrow> 64 word set" where
  "full_slabs ar b A = {a \<in> A. bin_slabcur b \<noteq> Some a \<and> nfree_at ar a = 0}"

definition bin_core :: "nat \<Rightarrow> bin_info \<Rightarrow> arena \<Rightarrow> bin \<Rightarrow> 64 word set \<Rightarrow> bool" where
  "bin_core i bi ar b A \<longleftrightarrow> finite A
     \<and> (\<forall>a\<in>A. slab_ok i bi (ar_mem ar a) \<and> slab_used bi (ar_mem ar a) \<noteq> {})
     \<and> (\<forall>c. bin_slabcur b = Some c \<longrightarrow> c \<in> A)
     \<and> bin_sets (ar_auto ar) (ar_mem ar) b (heap_slabs ar b A) (full_slabs ar b A)"

lemmas bin_core_sets = heap_slabs_def full_slabs_def

lemma bin_core_stats [simp]: "bin_core i bi ar (b\<lparr>bin_stats := s\<rparr>) A = bin_core i bi ar b A"
  by (simp add: bin_core_def bin_core_sets bin_sets_def)

lemma bin_core_arena [simp]:
  "bin_core i bi (ar\<lparr>ar_nactive := k\<rparr>) b A = bin_core i bi ar b A"
  "bin_core i bi (ar\<lparr>ar_bins := bs\<rparr>) b A = bin_core i bi ar b A"
  "bin_core i bi (ar\<lparr>ar_active := act\<rparr>) b A = bin_core i bi ar b A"
  by (simp_all add: bin_core_def bin_core_sets)

lemma bin_core_frame:
  assumes "bin_core i bi ar b A" "\<forall>a\<in>A. mem' a = ar_mem ar a"
  shows "bin_core i bi (ar\<lparr>ar_mem := mem'\<rparr>) b A"
proof -
  have s: "heap_slabs (ar\<lparr>ar_mem := mem'\<rparr>) b A = heap_slabs ar b A"
    "full_slabs (ar\<lparr>ar_mem := mem'\<rparr>) b A = full_slabs ar b A"
    using assms(2) by (auto simp: bin_core_sets)
  have "bin_sets (ar_auto ar) mem' b (heap_slabs ar b A) (full_slabs ar b A)"
  proof (rule bin_sets_frame)
    show "bin_sets (ar_auto ar) (ar_mem ar) b (heap_slabs ar b A) (full_slabs ar b A)"
      using assms(1) by (simp add: bin_core_def)
    show "\<forall>a\<in>heap_slabs ar b A. mem' a = ar_mem ar a" using assms(2) by (simp add: heap_slabs_def)
  qed
  with s assms show ?thesis by (simp add: bin_core_def)
qed

lemma bin_core_init: "bin_core i bi ar bin_init {}"
  by (simp add: bin_core_def bin_core_sets bin_sets_def bin_init_def ph_new_def ph_inv_def)

text \<open>The operations, on a bin without the slabs that are on their way in or out.\<close>

lemma core_insert_heap:
  assumes "bin_core i bi ar b A" "a \<notin> A" "slab_ok i bi (ar_mem ar a)" "slab_used bi (ar_mem ar a) \<noteq> {}"
    and "nfree_at ar a \<noteq> 0"
  shows "bin_core i bi ar (arena_bin_slabs_nonfull_insert b a) (insert a A)"
proof -
  have c: "bin_slabcur b \<noteq> Some a" "a \<notin> heap_slabs ar b A" using assms(1,2) by (auto simp: bin_core_def bin_core_sets)
  let ?b = "arena_bin_slabs_nonfull_insert b a"
  have "bin_slabcur ?b = bin_slabcur b" by (simp add: arena_bin_slabs_nonfull_insert_def)
  then have "heap_slabs ar ?b (insert a A) = insert a (heap_slabs ar b A)"
    "full_slabs ar ?b (insert a A) = full_slabs ar b A"
    using assms(5) c by (auto simp: bin_core_sets)
  with assms c \<open>bin_slabcur ?b = _\<close> show ?thesis
    by (simp add: bin_core_def bin_sets_nonfull)
qed

lemma core_change_cur:
  assumes "bin_core i bi ar b A" "bin_slabcur b = Some c"
    and "new = None \<and> A' = A \<or> (\<exists>a. new = Some a \<and> a \<notin> A \<and> A' = insert a A
      \<and> slab_ok i bi (ar_mem ar a) \<and> slab_used bi (ar_mem ar a) \<noteq> {})"
  shows "bin_core i bi ar ((if nfree_at ar c \<noteq> 0 then arena_bin_slabs_nonfull_insert b c
      else arena_bin_slabs_full_insert ar b c)\<lparr>bin_slabcur := new\<rparr>) A'"
proof -
  let ?b = "if nfree_at ar c \<noteq> 0 then arena_bin_slabs_nonfull_insert b c else arena_bin_slabs_full_insert ar b c"
  let ?b' = "?b\<lparr>bin_slabcur := new\<rparr>"
  have c: "c \<in> A" "c \<notin> heap_slabs ar b A" "c \<notin> full_slabs ar b A" using assms(1,2) by (auto simp: bin_core_def bin_core_sets)
  have s: "bin_sets (ar_auto ar) (ar_mem ar) b (heap_slabs ar b A) (full_slabs ar b A)"
    using assms(1) by (simp add: bin_core_def)
  let ?H = "if nfree_at ar c \<noteq> 0 then insert c (heap_slabs ar b A) else heap_slabs ar b A"
  let ?F = "if nfree_at ar c \<noteq> 0 then full_slabs ar b A else insert c (full_slabs ar b A)"
  have "bin_sets (ar_auto ar) (ar_mem ar) ?b ?H ?F"
    using bin_sets_nonfull(1) [OF s c(2)] bin_sets_full(1) [OF s c(3)] by simp
  then have "bin_sets (ar_auto ar) (ar_mem ar) ?b' ?H ?F"
    by (subst bin_sets_cong [of ?b' ?b]) simp_all
  moreover have cur: "bin_slabcur ?b' = new" by simp
  have "heap_slabs ar ?b' A' = ?H" "full_slabs ar ?b' A' = ?F"
    using assms(2,3) c(1) unfolding bin_core_sets cur by (auto split: if_splits)
  moreover have "finite A'" "\<forall>a\<in>A'. slab_ok i bi (ar_mem ar a) \<and> slab_used bi (ar_mem ar a) \<noteq> {}"
    "\<forall>c. new = Some c \<longrightarrow> c \<in> A'"
    using assms(1,3) by (auto simp: bin_core_def)
  ultimately show ?thesis unfolding bin_core_def cur by simp
qed

lemma core_retire:
  assumes "bin_core i bi ar b A" "bin_slabcur b = Some c" "nfree_at ar c = 0"
  shows "bin_core i bi ar ((arena_bin_slabs_full_insert ar b c)\<lparr>bin_slabcur := None\<rparr>) A"
  using core_change_cur [OF assms(1,2), of None A] assms(3) by simp

lemma core_lower:
  assumes "bin_core i bi ar b A" "a \<notin> A" "slab_ok i bi (ar_mem ar a)" "slab_used bi (ar_mem ar a) \<noteq> {}"
    and "nfree_at ar a \<noteq> 0"
  shows "bin_core i bi ar (arena_bin_lower_slab ar a b) (insert a A)"
proof (cases "\<exists>c. bin_slabcur b = Some c \<and> 0 < extent_snad_comp (ar_mem ar c) (ar_mem ar a)")
  case True
  then obtain c where c: "bin_slabcur b = Some c" "0 < extent_snad_comp (ar_mem ar c) (ar_mem ar a)" by blast
  let ?b = "if nfree_at ar c \<noteq> 0 then arena_bin_slabs_nonfull_insert b c else arena_bin_slabs_full_insert ar b c"
  have "arena_bin_lower_slab ar a b = ?b\<lparr>bin_slabcur := Some a,
      bin_stats := (bin_stats ?b)\<lparr>bs_reslabs := bs_reslabs (bin_stats ?b) + 1\<rparr>\<rparr>"
    using c by (simp add: arena_bin_lower_slab_def Let_def word_neq_0_conv)
  moreover have "bin_core i bi ar (?b\<lparr>bin_slabcur := Some a\<rparr>) (insert a A)"
    by (rule core_change_cur [OF assms(1) c(1)]) (use assms(2-4) in blast)
  ultimately show ?thesis by simp
next
  case False
  then have "arena_bin_lower_slab ar a b = arena_bin_slabs_nonfull_insert b a"
    by (auto simp: arena_bin_lower_slab_def split: option.splits)
  then show ?thesis using core_insert_heap [OF assms] by simp
qed

lemma core_drop:
  assumes "bin_core i bi ar b A" "a \<in> A"
  shows "bin_slabcur b = Some a \<Longrightarrow> bin_core i bi ar (b\<lparr>bin_slabcur := None\<rparr>) (A - {a})"
    "bin_slabcur b \<noteq> Some a \<Longrightarrow> nfree_at ar a \<noteq> 0 \<Longrightarrow>
      bin_core i bi ar (arena_bin_slabs_nonfull_remove ar b a) (A - {a})"
    "bin_slabcur b \<noteq> Some a \<Longrightarrow> nfree_at ar a = 0 \<Longrightarrow>
      bin_core i bi ar (arena_bin_slabs_full_remove ar b a) (A - {a})"
proof -
  have s: "bin_sets (ar_auto ar) (ar_mem ar) b (heap_slabs ar b A) (full_slabs ar b A)"
    using assms(1) by (simp add: bin_core_def)
  show "bin_core i bi ar (b\<lparr>bin_slabcur := None\<rparr>) (A - {a})" if "bin_slabcur b = Some a"
  proof -
    have e: "heap_slabs ar (b\<lparr>bin_slabcur := None\<rparr>) (A - {a}) = heap_slabs ar b A"
      "full_slabs ar (b\<lparr>bin_slabcur := None\<rparr>) (A - {a}) = full_slabs ar b A"
      using that by (auto simp: bin_core_sets)
    show ?thesis
      using assms(1) s unfolding bin_core_def e by (simp add: bin_sets_cong [of "b\<lparr>bin_slabcur := None\<rparr>" b])
  qed
  assume n: "bin_slabcur b \<noteq> Some a"
  show "bin_core i bi ar (arena_bin_slabs_nonfull_remove ar b a) (A - {a})" if "nfree_at ar a \<noteq> 0"
  proof -
    let ?b = "arena_bin_slabs_nonfull_remove ar b a"
    have cur: "bin_slabcur ?b = bin_slabcur b" by (simp add: arena_bin_slabs_nonfull_remove_def)
    have e: "heap_slabs ar ?b (A - {a}) = heap_slabs ar b A - {a}"
      "full_slabs ar ?b (A - {a}) = full_slabs ar b A"
      using that cur by (auto simp: bin_core_sets)
    have "a \<in> heap_slabs ar b A" using assms(2) n that by (simp add: bin_core_sets)
    from bin_sets_nonfull(2) [OF s this] show ?thesis
      using assms n unfolding bin_core_def e cur by auto
  qed
  show "bin_core i bi ar (arena_bin_slabs_full_remove ar b a) (A - {a})" if "nfree_at ar a = 0"
  proof -
    let ?b = "arena_bin_slabs_full_remove ar b a"
    have cur: "bin_slabcur ?b = bin_slabcur b" by (simp add: arena_bin_slabs_full_remove_def)
    have e: "heap_slabs ar ?b (A - {a}) = heap_slabs ar b A"
      "full_slabs ar ?b (A - {a}) = full_slabs ar b A - {a}"
      using that cur by (auto simp: bin_core_sets)
    have "a \<in> full_slabs ar b A" using assms(2) n that by (simp add: bin_core_sets)
    from bin_sets_full(2) [OF s this] show ?thesis
      using assms n unfolding bin_core_def e cur by auto
  qed
qed

lemma core_tryget:
  assumes "bin_core i bi ar b A"
  shows "(heap_slabs ar b A = {} \<and> (\<exists>b'. arena_bin_slabs_nonfull_tryget ar b = (None, b')
        \<and> bin_core i bi ar b' A \<and> bin_slabcur b' = bin_slabcur b
        \<and> bs_curslabs (bin_stats b') = bs_curslabs (bin_stats b) \<and> bs_curregs (bin_stats b') = bs_curregs (bin_stats b)))
    \<or> (\<exists>a b'. arena_bin_slabs_nonfull_tryget ar b = (Some a, b') \<and> a \<in> heap_slabs ar b A
        \<and> (\<forall>c\<in>heap_slabs ar b A. heap_comp (ar_mem ar) a c \<le> 0)
        \<and> bin_core i bi ar b' (A - {a}) \<and> bin_slabcur b' = bin_slabcur b
        \<and> bs_curslabs (bin_stats b') = bs_curslabs (bin_stats b) \<and> bs_curregs (bin_stats b') = bs_curregs (bin_stats b))"
proof -
  have s: "bin_sets (ar_auto ar) (ar_mem ar) b (heap_slabs ar b A) (full_slabs ar b A)"
    using assms by (simp add: bin_core_def)
  show ?thesis
  proof (cases "heap_slabs ar b A = {}")
    case True
    then obtain b' where b': "arena_bin_slabs_nonfull_tryget ar b = (None, b')" "bin_slabcur b' = bin_slabcur b"
      "bin_sets (ar_auto ar) (ar_mem ar) b' (heap_slabs ar b A) (full_slabs ar b A)"
      "bs_curslabs (bin_stats b') = bs_curslabs (bin_stats b)" "bs_curregs (bin_stats b') = bs_curregs (bin_stats b)"
      using bin_sets_tryget [OF s] by auto
    have "bin_core i bi ar b' A"
      using assms b'(3) by (simp add: bin_core_def bin_core_sets b'(2))
    with True b' show ?thesis by blast
  next
    case False
    then obtain a b' where b': "arena_bin_slabs_nonfull_tryget ar b = (Some a, b')" "bin_slabcur b' = bin_slabcur b"
      "a \<in> heap_slabs ar b A" "\<forall>c\<in>heap_slabs ar b A. heap_comp (ar_mem ar) a c \<le> 0"
      "bin_sets (ar_auto ar) (ar_mem ar) b' (heap_slabs ar b A - {a}) (full_slabs ar b A)"
      "bs_curslabs (bin_stats b') = bs_curslabs (bin_stats b)" "bs_curregs (bin_stats b') = bs_curregs (bin_stats b)"
      using bin_sets_tryget [OF s] by auto
    have e: "heap_slabs ar b' (A - {a}) = heap_slabs ar b A - {a}" "full_slabs ar b' (A - {a}) = full_slabs ar b A"
      using b'(2,3) by (auto simp: bin_core_sets)
    have "bin_slabcur b' \<noteq> Some a" using b'(2,3) by (simp add: heap_slabs_def)
    then have "bin_core i bi ar b' (A - {a})"
      using assms b'(5) unfolding bin_core_def e unfolding b'(2) by auto
    with b' show ?thesis by blast
  qed
qed

lemma core_update:
  assumes "bin_core i bi ar b A" "a \<in> A" "slab_ok i bi e" "slab_used bi e \<noteq> {}" "same_slab (ar_mem ar a) e"
    and "bin_slabcur b = Some a \<or> (extent_nfree_get e = 0 \<longleftrightarrow> nfree_at ar a = 0)"
  shows "bin_core i bi (ar\<lparr>ar_mem := (ar_mem ar)(a := e)\<rparr>) b A"
proof -
  let ?ar = "ar\<lparr>ar_mem := (ar_mem ar)(a := e)\<rparr>"
  have s: "heap_slabs ?ar b A = heap_slabs ar b A" "full_slabs ?ar b A = full_slabs ar b A"
    using assms(2,6) by (auto simp: bin_core_sets)
  have "bin_sets (ar_auto ar) ((ar_mem ar)(a := e)) b H F = bin_sets (ar_auto ar) (ar_mem ar) b H F" for H F
    by (simp only: bin_sets_def same_slab_comp [of "ar_mem ar" a, OF assms(5)])
  then show ?thesis using assms(1,3,4) unfolding bin_core_def s by simp
qed

text \<open>A region \<open>p\<close> of slab \<open>a\<close> is handed out.\<close>

definition reg_taken :: "nat \<Rightarrow> bin_info \<Rightarrow> arena \<Rightarrow> arena \<Rightarrow> 64 word \<Rightarrow> 64 word \<Rightarrow> bool" where
  "reg_taken i bi ar ar' a p \<longleftrightarrow> (\<exists>e. ar_mem ar' = (ar_mem ar)(a := e) \<and> same_slab (ar_mem ar a) e
     \<and> slab_ok i bi e \<and> p \<notin> slab_used bi (ar_mem ar a)
     \<and> slab_used bi e = insert p (slab_used bi (ar_mem ar a)))
     \<and> nfree_at ar a \<noteq> 0 \<and> ar_auto ar' = ar_auto ar \<and> ar_bins ar' = ar_bins ar"

lemma reg_alloc_at:
  assumes "bin_ok bi dv r n" "slab_ok i bi (ar_mem ar a)" "nfree_at ar a \<noteq> 0"
  shows "\<exists>p e. arena_slab_reg_alloc_at ar a bi = Some (p, ar\<lparr>ar_mem := (ar_mem ar)(a := e)\<rparr>)
    \<and> same_slab (ar_mem ar a) e \<and> slab_ok i bi e \<and> slab_used bi e \<noteq> {}
    \<and> reg_taken i bi ar (ar\<lparr>ar_mem := (ar_mem ar)(a := e)\<rparr>) a p"
  using slab_alloc [OF assms(1,2)] assms(3)
  by (force simp: arena_slab_reg_alloc_at_def reg_taken_def word_neq_0_conv)

lemma core_alloc_cur:
  assumes "bin_ok bi dv r n" "bin_core i bi ar b A" "bin_slabcur b = Some c" "nfree_at ar c \<noteq> 0"
  shows "\<exists>p e. arena_slab_reg_alloc_at ar c bi = Some (p, ar\<lparr>ar_mem := (ar_mem ar)(c := e)\<rparr>)
    \<and> reg_taken i bi ar (ar\<lparr>ar_mem := (ar_mem ar)(c := e)\<rparr>) c p
    \<and> bin_core i bi (ar\<lparr>ar_mem := (ar_mem ar)(c := e)\<rparr>) b A"
proof -
  have c: "c \<in> A" "slab_ok i bi (ar_mem ar c)" using assms(2,3) by (auto simp: bin_core_def)
  from reg_alloc_at [OF assms(1) c(2) assms(4)] obtain p e where
    e: "arena_slab_reg_alloc_at ar c bi = Some (p, ar\<lparr>ar_mem := (ar_mem ar)(c := e)\<rparr>)"
      "same_slab (ar_mem ar c) e" "slab_ok i bi e" "slab_used bi e \<noteq> {}"
      "reg_taken i bi ar (ar\<lparr>ar_mem := (ar_mem ar)(c := e)\<rparr>) c p" by blast
  with core_update [OF assms(2) c(1) e(3,4,2)] assms(3) show ?thesis by blast
qed

lemma core_take:
  assumes "bin_ok bi dv r n" "bin_core i bi ar b A" "bin_slabcur b = None" "a \<notin> A"
    and "slab_ok i bi (ar_mem ar a)" "nfree_at ar a \<noteq> 0"
  shows "\<exists>p e. arena_bin_malloc_hard_take bi ar b (Some a) =
      Some (Some p, ar\<lparr>ar_mem := (ar_mem ar)(a := e)\<rparr>, b\<lparr>bin_slabcur := Some a\<rparr>)
    \<and> reg_taken i bi ar (ar\<lparr>ar_mem := (ar_mem ar)(a := e)\<rparr>) a p
    \<and> bin_core i bi (ar\<lparr>ar_mem := (ar_mem ar)(a := e)\<rparr>) (b\<lparr>bin_slabcur := Some a\<rparr>) (insert a A)"
proof -
  from reg_alloc_at [OF assms(1,5,6)] obtain p e where
    e: "arena_slab_reg_alloc_at ar a bi = Some (p, ar\<lparr>ar_mem := (ar_mem ar)(a := e)\<rparr>)"
      "same_slab (ar_mem ar a) e" "slab_ok i bi e" "slab_used bi e \<noteq> {}"
      "reg_taken i bi ar (ar\<lparr>ar_mem := (ar_mem ar)(a := e)\<rparr>) a p" by blast
  let ?ar = "ar\<lparr>ar_mem := (ar_mem ar)(a := e)\<rparr>" and ?b = "b\<lparr>bin_slabcur := Some a\<rparr>"
  have f: "bin_core i bi ?ar b A" using assms(2,4) by (intro bin_core_frame) auto
  have s: "heap_slabs ?ar ?b (insert a A) = heap_slabs ?ar b A" "full_slabs ?ar ?b (insert a A) = full_slabs ?ar b A"
    using assms(3,4) by (auto simp: bin_core_sets)
  have "bin_core i bi ?ar ?b (insert a A)"
    using f e(3,4) unfolding bin_core_def s by (simp add: bin_sets_cong [of ?b b])
  with e show ?thesis by (auto simp: arena_bin_malloc_hard_take_def)
qed

lemma stats_kept [simp]:
  "bin_stats (arena_bin_slabs_nonfull_insert b a) = bin_stats b"
  "bin_stats (arena_bin_slabs_nonfull_remove ar b a) = bin_stats b"
  "bin_stats (arena_bin_slabs_full_insert ar b a) = bin_stats b"
  "bin_stats (arena_bin_slabs_full_remove ar b a) = bin_stats b"
  "bs_curslabs (bin_stats (arena_bin_lower_slab ar a b)) = bs_curslabs (bin_stats b)"
  "bs_curregs (bin_stats (arena_bin_lower_slab ar a b)) = bs_curregs (bin_stats b)"
  by (simp_all add: arena_bin_slabs_nonfull_insert_def arena_bin_slabs_nonfull_remove_def
      arena_bin_slabs_full_insert_def arena_bin_slabs_full_remove_def arena_bin_lower_slab_def Let_def
      split: option.splits)

text \<open>
  The bin counts its slabs, and the arena their pages, \<open>k\<close> being the rest of \<open>nactive\<close>; both
  counters wrap around.
\<close>

definition slab_npages :: "arena \<Rightarrow> 64 word \<Rightarrow> size_t" where
  "slab_npages ar a = drop_bit LG_PAGE (extent_size_get (ar_mem ar a))"

definition bin_accounts :: "arena \<Rightarrow> bin \<Rightarrow> 64 word set \<Rightarrow> size_t \<Rightarrow> bool" where
  "bin_accounts ar b A k \<longleftrightarrow> bs_curslabs (bin_stats b) = of_nat (card A)
     \<and> ar_nactive ar = k + (\<Sum>a\<in>A. slab_npages ar a)"

lemma bin_accounts_cong:
  assumes "bin_accounts ar b A k" "bs_curslabs (bin_stats b') = bs_curslabs (bin_stats b)"
    and "ar_nactive ar' = ar_nactive ar" "\<forall>a\<in>A. extent_size_get (ar_mem ar' a) = extent_size_get (ar_mem ar a)"
  shows "bin_accounts ar' b' A k"
proof -
  have "(\<Sum>a\<in>A. slab_npages ar' a) = (\<Sum>a\<in>A. slab_npages ar a)"
    using assms(4) by (intro sum.cong) (simp_all add: slab_npages_def)
  with assms show ?thesis by (simp add: bin_accounts_def)
qed

lemma bin_accounts_taken:
  assumes "bin_accounts ar b A k" "same_slab (ar_mem ar a) e"
    and "bs_curslabs (bin_stats b') = bs_curslabs (bin_stats b)"
  shows "bin_accounts (ar\<lparr>ar_mem := (ar_mem ar)(a := e)\<rparr>) b' A k"
  by (rule bin_accounts_cong [OF assms(1,3)]) (use assms(2) in \<open>auto simp: same_slab_def\<close>)

lemma bin_accounts_dalloc:
  assumes "bin_accounts ar b (insert a A) k" "a \<notin> A" "finite A"
  shows "bin_accounts (fst (arena_dalloc_bin_slab ar a b)) (snd (arena_dalloc_bin_slab ar a b)) A k"
  using assms
  by (simp add: bin_accounts_def arena_dalloc_bin_slab_def arena_slab_dalloc_def arena_nactive_sub_def
      slab_npages_def Let_def)

text \<open>
  What an allocation does to the bin: \<open>S\<close> is the slab in hand, if any. The slabs that the bin
  has afterwards are those with an allocated region.
\<close>

definition live_slabs :: "bin_info \<Rightarrow> arena \<Rightarrow> 64 word set \<Rightarrow> 64 word set" where
  "live_slabs bi ar A = {a \<in> A. slab_used bi (ar_mem ar a) \<noteq> {}}"

definition malloc_result ::
  "nat \<Rightarrow> bin_info \<Rightarrow> arena \<Rightarrow> bin \<Rightarrow> 64 word set \<Rightarrow> 64 word option \<Rightarrow> arena \<Rightarrow> bin \<Rightarrow> bool" where
  "malloc_result i bi ar b A ret ar' b' \<longleftrightarrow>
     bin_core i bi ar' b' (live_slabs bi ar' A)
     \<and> (\<forall>k. bin_accounts ar b A k \<longrightarrow> bin_accounts ar' b' (live_slabs bi ar' A) k)
     \<and> bs_curregs (bin_stats b') = bs_curregs (bin_stats b)
     \<and> ar_active ar' = ar_active ar - (A - live_slabs bi ar' A)
     \<and> (case ret of
          None \<Rightarrow> (\<forall>a\<in>A. nfree_at ar a = 0) \<and> ar' = ar
        | Some p \<Rightarrow> \<exists>a\<in>A. reg_taken i bi ar ar' a p)"

lemma live_slabs_core: "bin_core i bi ar b A \<Longrightarrow> live_slabs bi ar A = A"
  by (auto simp: bin_core_def live_slabs_def)

lemma malloc_result_kept:
  assumes "bin_core i bi (ar\<lparr>ar_mem := (ar_mem ar)(a := e)\<rparr>) b' A" "a \<in> A"
    and "reg_taken i bi ar (ar\<lparr>ar_mem := (ar_mem ar)(a := e)\<rparr>) a p"
    and "bs_curslabs (bin_stats b') = bs_curslabs (bin_stats b)" "bs_curregs (bin_stats b') = bs_curregs (bin_stats b)"
  shows "malloc_result i bi ar b A (Some p) (ar\<lparr>ar_mem := (ar_mem ar)(a := e)\<rparr>) b'"
proof -
  have "same_slab (ar_mem ar a) e" using assms(3) by (auto simp: reg_taken_def dest: fun_cong [of _ _ a])
  then show ?thesis
    using assms bin_accounts_taken [of ar b A _ a e b']
    by (auto simp: malloc_result_def live_slabs_core [OF assms(1)])
qed

lemma hard_end_take:
  assumes "bin_ok bi dv r n" "bin_core i bi ar b A" "bin_slabcur b = None"
    and "\<forall>a. s = Some a \<longrightarrow> a \<notin> A \<and> slab_ok i bi (ar_mem ar a) \<and> nfree_at ar a \<noteq> 0"
    and "s = None \<longrightarrow> (\<forall>a\<in>A. nfree_at ar a = 0)"
  shows "\<exists>ret ar' b'. arena_bin_malloc_hard_take bi ar b s = Some (ret, ar', b')
    \<and> malloc_result i bi ar b (A \<union> set_option s) ret ar' b'"
proof (cases s)
  case None
  with assms show ?thesis
    by (simp add: arena_bin_malloc_hard_take_def malloc_result_def live_slabs_core)
next
  case (Some a)
  with assms have a: "a \<notin> A" "slab_ok i bi (ar_mem ar a)" "nfree_at ar a \<noteq> 0" by auto
  from core_take [OF assms(1-3) a] obtain p e where
    e: "arena_bin_malloc_hard_take bi ar b (Some a) =
          Some (Some p, ar\<lparr>ar_mem := (ar_mem ar)(a := e)\<rparr>, b\<lparr>bin_slabcur := Some a\<rparr>)"
      "reg_taken i bi ar (ar\<lparr>ar_mem := (ar_mem ar)(a := e)\<rparr>) a p"
      "bin_core i bi (ar\<lparr>ar_mem := (ar_mem ar)(a := e)\<rparr>) (b\<lparr>bin_slabcur := Some a\<rparr>) (insert a A)" by blast
  have "malloc_result i bi ar b (insert a A) (Some p) (ar\<lparr>ar_mem := (ar_mem ar)(a := e)\<rparr>)
      (b\<lparr>bin_slabcur := Some a\<rparr>)"
    by (rule malloc_result_kept [OF e(3) _ e(2)]) simp_all
  with Some e(1) show ?thesis by simp
qed

lemma malloc_result_cong:
  assumes "malloc_result i bi ar b1 A ret ar' b'"
    and "bs_curslabs (bin_stats b1) = bs_curslabs (bin_stats b)" "bs_curregs (bin_stats b1) = bs_curregs (bin_stats b)"
  shows "malloc_result i bi ar b A ret ar' b'"
  using assms by (simp add: malloc_result_def bin_accounts_def)

text \<open>The slab in hand when another thread has set the current one.\<close>

lemma hard_end_other:
  assumes "bin_ok bi dv r n" "bin_core i bi ar b A" "bin_slabcur b = Some c" "nfree_at ar c \<noteq> 0"
    and "a \<notin> A" "slab_ok i bi (ar_mem ar a)" "nfree_at ar a \<noteq> 0"
  shows "\<exists>ret ar' b'. arena_bin_malloc_hard_end bi ar b (Some a) = Some (ret, ar', b')
    \<and> malloc_result i bi ar b (insert a A) ret ar' b'"
proof -
  from core_alloc_cur [OF assms(1-4)] obtain p e where
    e: "arena_slab_reg_alloc_at ar c bi = Some (p, ar\<lparr>ar_mem := (ar_mem ar)(c := e)\<rparr>)"
      "reg_taken i bi ar (ar\<lparr>ar_mem := (ar_mem ar)(c := e)\<rparr>) c p"
      "bin_core i bi (ar\<lparr>ar_mem := (ar_mem ar)(c := e)\<rparr>) b A" by blast
  let ?ar = "ar\<lparr>ar_mem := (ar_mem ar)(c := e)\<rparr>"
  have c: "c \<in> A" using assms(2,3) by (simp add: bin_core_def)
  have a: "ar_mem ?ar a = ar_mem ar a" using c assms(5) by auto
  have same: "same_slab (ar_mem ar c) e" using e(2) by (auto simp: reg_taken_def dest: fun_cong [of _ _ c])
  show ?thesis
  proof (cases "slab_used bi (ar_mem ar a) = {}")
    case True
    let ?res = "arena_dalloc_bin_slab ?ar a b"
    have full: "nfree_at ?ar a = ucast (bin_nregs bi)"
      using True slab_nfree_used(2) [OF assms(6,1)] a by simp
    have res: "ar_mem (fst ?res) = ar_mem ?ar" "ar_auto (fst ?res) = ar_auto ar" "ar_bins (fst ?res) = ar_bins ar"
      "fst ?res = ?ar\<lparr>ar_nactive := ar_nactive (fst ?res), ar_active := ar_active ar - {a}\<rparr>"
      "ar_active (fst ?res) = ar_active ar - {a}"
      "bs_curregs (bin_stats (snd ?res)) = bs_curregs (bin_stats b)"
      by (simp_all add: arena_dalloc_bin_slab_def arena_slab_dalloc_def arena_nactive_sub_def)
    have live: "live_slabs bi (fst ?res) (insert a A) = A"
    proof -
      have "live_slabs bi (fst ?res) (insert a A) = live_slabs bi (fst ?res) A"
        using True a unfolding live_slabs_def res(1) by auto
      also have "\<dots> = live_slabs bi ?ar A" by (simp only: live_slabs_def res(1))
      finally show ?thesis using live_slabs_core [OF e(3)] by simp
    qed
    have core: "bin_core i bi (fst ?res) (snd ?res) A"
      using e(3) by (subst res(4)) (simp add: arena_dalloc_bin_slab_def)
    have acc: "bin_accounts (fst ?res) (snd ?res) A k" if "bin_accounts ar b (insert a A) k" for k
      using bin_accounts_dalloc [OF bin_accounts_taken [OF that same refl] assms(5)] assms(2)
      by (simp add: bin_core_def)
    have "reg_taken i bi ar (fst ?res) c p" using e(2) res(1-3) by (simp add: reg_taken_def)
    with core acc live res(5,6) c assms(5) have "malloc_result i bi ar b (insert a A) (Some p) (fst ?res) (snd ?res)"
      by (auto simp: malloc_result_def)
    moreover have "arena_bin_malloc_hard_end bi ar b (Some a) = Some (Some p, ?res)"
      using assms(3,4) e(1) full a by (simp add: arena_bin_malloc_hard_end_def word_neq_0_conv)
    ultimately show ?thesis by (cases ?res) auto
  next
    case False
    have full: "nfree_at ?ar a \<noteq> ucast (bin_nregs bi)"
      using False slab_nfree_used(2) [OF assms(6,1)] a by simp
    have "bin_core i bi ?ar (arena_bin_lower_slab ?ar a b) (insert a A)"
      using False assms(5-7) a e(3) by (intro core_lower) simp_all
    then have "malloc_result i bi ar b (insert a A) (Some p) ?ar (arena_bin_lower_slab ?ar a b)"
      by (rule malloc_result_kept [OF _ _ e(2)]) (simp_all add: c)
    moreover have "arena_bin_malloc_hard_end bi ar b (Some a) = Some (Some p, ?ar, arena_bin_lower_slab ?ar a b)"
      using assms(3,4) e(1) full a by (simp add: arena_bin_malloc_hard_end_def word_neq_0_conv)
    ultimately show ?thesis by blast
  qed
qed

lemma no_heap_slabs:
  "heap_slabs ar b A = {} \<Longrightarrow> (\<And>c. bin_slabcur b = Some c \<Longrightarrow> nfree_at ar c = 0) \<Longrightarrow> \<forall>a\<in>A. nfree_at ar a = 0"
  by (auto simp: heap_slabs_def)

lemma hard_end:
  assumes "bin_ok bi dv r n" "bin_core i bi ar b A"
    and "\<forall>a. s = Some a \<longrightarrow> a \<notin> A \<and> slab_ok i bi (ar_mem ar a) \<and> nfree_at ar a \<noteq> 0"
    and "s = None \<longrightarrow> heap_slabs ar b A = {}"
  shows "\<exists>ret ar' b'. arena_bin_malloc_hard_end bi ar b s = Some (ret, ar', b')
    \<and> malloc_result i bi ar b (A \<union> set_option s) ret ar' b'"
proof (cases "bin_slabcur b")
  case None
  have "s = None \<longrightarrow> (\<forall>a\<in>A. nfree_at ar a = 0)" using no_heap_slabs [of ar b A] assms(4) None by simp
  from hard_end_take [OF assms(1,2) None assms(3) this] None show ?thesis
    by (simp add: arena_bin_malloc_hard_end_def)
next
  case (Some c)
  show ?thesis
  proof (cases "nfree_at ar c = 0")
    case True
    let ?b = "(arena_bin_slabs_full_insert ar b c)\<lparr>bin_slabcur := None\<rparr>"
    have "s = None \<longrightarrow> (\<forall>a\<in>A. nfree_at ar a = 0)" using no_heap_slabs [of ar b A] assms(4) Some True by simp
    from hard_end_take [OF assms(1) core_retire [OF assms(2) Some True] _ assms(3) this]
    obtain ret ar' b' where r: "arena_bin_malloc_hard_take bi ar ?b s = Some (ret, ar', b')"
      "malloc_result i bi ar ?b (A \<union> set_option s) ret ar' b'" by auto
    have "malloc_result i bi ar b (A \<union> set_option s) ret ar' b'"
      by (rule malloc_result_cong [OF r(2)]) simp_all
    with r(1) Some True show ?thesis by (simp add: arena_bin_malloc_hard_end_def)
  next
    case False
    show ?thesis
    proof (cases s)
      case None
      from core_alloc_cur [OF assms(1,2) Some False] obtain p e where
        e: "arena_slab_reg_alloc_at ar c bi = Some (p, ar\<lparr>ar_mem := (ar_mem ar)(c := e)\<rparr>)"
          "reg_taken i bi ar (ar\<lparr>ar_mem := (ar_mem ar)(c := e)\<rparr>) c p"
          "bin_core i bi (ar\<lparr>ar_mem := (ar_mem ar)(c := e)\<rparr>) b A" by blast
      have c: "c \<in> A" using assms(2) Some by (simp add: bin_core_def)
      from malloc_result_kept [OF e(3) c e(2) refl refl] e(1) Some False None show ?thesis
        by (simp add: arena_bin_malloc_hard_end_def word_neq_0_conv)
    next
      case (Some a)
      with hard_end_other [OF assms(1,2) \<open>bin_slabcur b = Some c\<close> False, of a] assms(3) show ?thesis by simp
    qed
  qed
qed

lemma begin_hard_step:
  assumes "bin_ok bi dv r n" "bin_core i bi ar b A" "\<forall>c. bin_slabcur b = Some c \<longrightarrow> nfree_at ar c = 0"
  shows "(\<exists>b'. arena_bin_malloc_hard_begin ar b = (None, b') \<and> bin_core i bi ar b' A
      \<and> (\<forall>a\<in>A. nfree_at ar a = 0)
      \<and> bs_curslabs (bin_stats b') = bs_curslabs (bin_stats b) \<and> bs_curregs (bin_stats b') = bs_curregs (bin_stats b))
    \<or> (\<exists>a b'. arena_bin_malloc_hard_begin ar b = (Some a, b') \<and> a \<in> heap_slabs ar b A
      \<and> (\<forall>c\<in>heap_slabs ar b A. heap_comp (ar_mem ar) a c \<le> 0) \<and> bin_core i bi ar b' (A - {a})
      \<and> (bin_slabcur b' \<noteq> None \<longrightarrow> bin_slabcur b' = bin_slabcur b)
      \<and> bs_curslabs (bin_stats b') = bs_curslabs (bin_stats b) \<and> bs_curregs (bin_stats b') = bs_curregs (bin_stats b))"
proof -
  define b1 where "b1 = (case bin_slabcur b of
      Some cur \<Rightarrow> if \<not> ar_auto ar then (arena_bin_slabs_full_insert ar b cur)\<lparr>bin_slabcur := None\<rparr> else b
    | None \<Rightarrow> b)"
  have b1: "bin_core i bi ar b1 A" "bin_slabcur b1 = None \<or> bin_slabcur b1 = bin_slabcur b"
    "bin_stats b1 = bin_stats b"
    using assms(2,3) core_retire [OF assms(2)] by (auto simp: b1_def split: option.splits)
  have h: "heap_slabs ar b1 A = heap_slabs ar b A"
    using b1(2) assms(3) by (auto simp: heap_slabs_def)
  have e: "arena_bin_malloc_hard_begin ar b = arena_bin_slabs_nonfull_tryget ar b1"
    by (simp add: arena_bin_malloc_hard_begin_def b1_def)
  have "\<forall>a\<in>A. nfree_at ar a = 0" if "heap_slabs ar b A = {}"
    using no_heap_slabs [OF that] assms(3) by blast
  with core_tryget [OF b1(1)] b1(2,3) show ?thesis unfolding e h by fastforce
qed

lemma bin_malloc_begin_cases:
  assumes "bin_ok bi dv r n" "bin_core i bi ar b A"
  shows "(\<exists>p ar' b'. bin_malloc_begin bi ar b = Some (Done (Some p), ar', b')
      \<and> malloc_result i bi ar b A (Some p) ar' b')
    \<or> (\<exists>b'. bin_malloc_begin bi ar b = Some (Wait, ar, b') \<and> bin_core i bi ar b' A
      \<and> (\<forall>a\<in>A. nfree_at ar a = 0)
      \<and> bs_curslabs (bin_stats b') = bs_curslabs (bin_stats b) \<and> bs_curregs (bin_stats b') = bs_curregs (bin_stats b))"
proof (cases "\<exists>c. bin_slabcur b = Some c \<and> nfree_at ar c \<noteq> 0")
  case True
  then obtain c where c: "bin_slabcur b = Some c" "nfree_at ar c \<noteq> 0" by blast
  from core_alloc_cur [OF assms c] obtain p e where
    e: "arena_slab_reg_alloc_at ar c bi = Some (p, ar\<lparr>ar_mem := (ar_mem ar)(c := e)\<rparr>)"
      "reg_taken i bi ar (ar\<lparr>ar_mem := (ar_mem ar)(c := e)\<rparr>) c p"
      "bin_core i bi (ar\<lparr>ar_mem := (ar_mem ar)(c := e)\<rparr>) b A" by blast
  have cA: "c \<in> A" using assms(2) c(1) by (simp add: bin_core_def)
  from malloc_result_kept [OF e(3) cA e(2) refl refl] e(1) c show ?thesis
    by (simp add: bin_malloc_begin_def word_neq_0_conv)
next
  case False
  then have full: "\<forall>c. bin_slabcur b = Some c \<longrightarrow> nfree_at ar c = 0" by blast
  have begin_eq: "bin_malloc_begin bi ar b =
      (case arena_bin_malloc_hard_begin ar b of
         (None, b) \<Rightarrow> Some (Wait, ar, b)
       | (Some slab, b) \<Rightarrow> do {
           (ret, ar, b) \<leftarrow> arena_bin_malloc_hard_end bi ar b (Some slab);
           Some (Done ret, ar, b)
         })"
    using full by (auto simp: bin_malloc_begin_def Let_def split: option.splits)
  show ?thesis
    using begin_hard_step [OF assms full]
  proof (elim disjE exE conjE, goal_cases)
    case (1 b')
    then show ?thesis by (simp add: begin_eq)
  next
    case (2 a b')
    have a: "slab_ok i bi (ar_mem ar a)" "nfree_at ar a \<noteq> 0" "insert a A = A"
      using 2(2) assms(2) by (auto simp: bin_core_def heap_slabs_def)
    from hard_end [OF assms(1) 2(4), of "Some a"] a(1,2) obtain ret ar' b'' where
      r: "arena_bin_malloc_hard_end bi ar b' (Some a) = Some (ret, ar', b'')"
        "malloc_result i bi ar b' A ret ar' b''" by (auto simp: a(3))
    have r': "malloc_result i bi ar b A ret ar' b''" by (rule malloc_result_cong [OF r(2)]) (use 2 in simp_all)
    moreover have "ret \<noteq> None" using r' a(2) 2(2) by (cases ret) (auto simp: malloc_result_def heap_slabs_def)
    ultimately show ?thesis using 2(1) r(1) by (auto simp: begin_eq)
  qed
qed

text \<open>\<open>s\<close> is the new slab, none of whose regions is allocated.\<close>

definition slab_added :: "bin \<Rightarrow> 64 word option \<Rightarrow> bin" where
  "slab_added b s = b\<lparr>bin_stats := (bin_stats b)\<lparr>bs_curslabs :=
     bs_curslabs (bin_stats b) + of_nat (card (set_option s))\<rparr>\<rparr>"

lemma bin_malloc_end_result:
  assumes "bin_ok bi dv r n" "bin_core i bi ar b A"
    and "\<forall>a. s = Some a \<longrightarrow> a \<notin> A \<and> slab_ok i bi (ar_mem ar a) \<and> slab_used bi (ar_mem ar a) = {}"
  shows "\<exists>ret ar' b'. bin_malloc_end bi ar b s = Some (ret, ar', b')
    \<and> malloc_result i bi ar (slab_added b s) (A \<union> set_option s) ret ar' b' \<and> (ret = None \<longrightarrow> s = None)"
proof (cases s)
  case (Some a)
  let ?b = "b\<lparr>bin_stats := (bin_stats b)\<lparr>bs_nslabs := bs_nslabs (bin_stats b) + 1,
      bs_curslabs := bs_curslabs (bin_stats b) + 1\<rparr>\<rparr>"
  have a: "a \<notin> A" "slab_ok i bi (ar_mem ar a)" "nfree_at ar a \<noteq> 0"
  proof -
    show s: "a \<notin> A" "slab_ok i bi (ar_mem ar a)" using assms(3) Some by auto
    have "slab_used bi (ar_mem ar a) = {}" "0 < n" using assms(1,3) Some by (auto simp: bin_ok_def)
    then show "nfree_at ar a \<noteq> 0"
      using slab_okD(2) [OF s(2) assms(1)] by (metis card.empty add.right_neutral less_irrefl unsigned_0)
  qed
  from hard_end [OF assms(1), of i ar ?b A "Some a"] assms(2) a obtain ret ar' b' where
    r: "arena_bin_malloc_hard_end bi ar ?b (Some a) = Some (ret, ar', b')"
      "malloc_result i bi ar ?b (insert a A) ret ar' b'" by auto
  have "bin_malloc_end bi ar b s = Some (ret, ar', b')"
    using r(1) by (simp add: bin_malloc_end_def arena_bin_nonfull_slab_get_end_def Some)
  moreover have "ret \<noteq> None" using r(2) a(3) by (cases ret) (simp_all add: malloc_result_def)
  moreover have "malloc_result i bi ar (slab_added b s) (insert a A) ret ar' b'"
    by (rule malloc_result_cong [OF r(2)]) (simp_all add: slab_added_def Some)
  ultimately show ?thesis by (simp add: Some)
next
  case None
  from core_tryget [OF assms(2)] show ?thesis
  proof (elim disjE exE conjE, goal_cases)
    case (1 b')
    have e: "bin_malloc_end bi ar b s = arena_bin_malloc_hard_end bi ar b' None"
      using 1(2) by (simp add: bin_malloc_end_def arena_bin_nonfull_slab_get_end_def None)
    have "heap_slabs ar b' A = {}" using 1(1,4) by (simp add: heap_slabs_def)
    with hard_end [OF assms(1) 1(3), of None] obtain ret ar' b'' where
      r: "arena_bin_malloc_hard_end bi ar b' None = Some (ret, ar', b'')"
        "malloc_result i bi ar b' A ret ar' b''" by auto
    have "malloc_result i bi ar (slab_added b s) A ret ar' b''"
      by (rule malloc_result_cong [OF r(2)]) (use 1 in \<open>simp_all add: slab_added_def None\<close>)
    with r(1) e show ?thesis by (simp add: None)
  next
    case (2 a b')
    have e: "bin_malloc_end bi ar b s = arena_bin_malloc_hard_end bi ar b' (Some a)"
      using 2(1) by (simp add: bin_malloc_end_def arena_bin_nonfull_slab_get_end_def None)
    have a: "slab_ok i bi (ar_mem ar a)" "nfree_at ar a \<noteq> 0" "insert a A = A"
      using 2(2) assms(2) by (auto simp: bin_core_def heap_slabs_def)
    from hard_end [OF assms(1) 2(4), of "Some a"] a(1,2) obtain ret ar' b'' where
      r: "arena_bin_malloc_hard_end bi ar b' (Some a) = Some (ret, ar', b'')"
        "malloc_result i bi ar b' A ret ar' b''" by (auto simp: a(3))
    have "malloc_result i bi ar (slab_added b s) A ret ar' b''"
      by (rule malloc_result_cong [OF r(2)]) (use 2 in \<open>simp_all add: slab_added_def None\<close>)
    with r(1) e show ?thesis by (simp add: None)
  qed
qed

text \<open>A region of slab \<open>a\<close> is freed: \<open>ar\<close> is the arena with the slab after that.\<close>

lemma dalloc_move_result:
  assumes "bin_ok bi dv r n" "read_at bins i = Some bi" "bin_core i bi ar0 b A" "a \<in> A"
    and "p \<in> slab_used bi (ar_mem ar0 a)" "same_slab (ar_mem ar0 a) e" "slab_ok i bi e"
    and "slab_used bi e = slab_used bi (ar_mem ar0 a) - {p}"
    and "ar = ar0\<lparr>ar_mem := (ar_mem ar0)(a := e)\<rparr>"
  shows "\<exists>ar' b'. arena_dalloc_bin_move bins bi ar a b = Some (ar', b')
    \<and> bin_core i bi ar' b' (live_slabs bi ar A)
    \<and> (\<forall>k. bin_accounts ar b A k \<longrightarrow> bin_accounts ar' b' (live_slabs bi ar A) k)
    \<and> bs_curregs (bin_stats b') = bs_curregs (bin_stats b)
    \<and> ar_active ar' = ar_active ar - (A - live_slabs bi ar A)
    \<and> ar_mem ar' = ar_mem ar \<and> ar_auto ar' = ar_auto ar \<and> ar_bins ar' = ar_bins ar"
proof -
  let ?e0 = "ar_mem ar0 a"
  have ok0: "slab_ok i bi ?e0" and fin: "finite A" using assms(3,4) by (auto simp: bin_core_def)
  note nf = slab_nfree_used [OF assms(7,1)] and nf0 = slab_nfree_used [OF ok0 assms(1)]
  have ea: "ar_mem ar a = e" "ar_auto ar = ar_auto ar0" by (simp_all add: assms(9))
  have fu: "finite (slab_used bi ?e0)" by (rule slab_okD(1) [OF ok0 assms(1)])
  have c: "card (slab_used bi ?e0) = Suc (card (slab_used bi e))"
    unfolding assms(8) using card_Suc_Diff1 [OF fu assms(5)] by simp
  have n0: "unat (extent_nfree_get e) = Suc (unat (extent_nfree_get ?e0))"
    using slab_okD(2) [OF ok0 assms(1)] slab_okD(2) [OF assms(7,1)] c by linarith
  have szi: "unat (extent_szind_get e) = i" by (rule slab_okD(3) [OF assms(7,1)])
  have frame: "bin_core i bi ar b' B" if "bin_core i bi ar0 b' B" "a \<notin> B" for b' B
    unfolding assms(9) by (rule bin_core_frame [OF that(1)]) (use that(2) in auto)
  have comp: "heap_comp (ar_mem ar) = heap_comp (ar_mem ar0)"
    using same_slab_comp [of "ar_mem ar0" a, OF assms(6)] by (simp add: assms(9))
  have rm: "arena_bin_slabs_nonfull_remove ar = arena_bin_slabs_nonfull_remove ar0"
    "arena_bin_slabs_full_remove ar = arena_bin_slabs_full_remove ar0"
    by (intro ext; simp add: arena_bin_slabs_nonfull_remove_def arena_bin_slabs_full_remove_def comp ea(2))+
  note drop = core_drop [OF assms(3,4)]
  have liveA: "live_slabs bi ar0 A = A" by (rule live_slabs_core [OF assms(3)])
  have live: "live_slabs bi ar A = (if slab_used bi e = {} then A - {a} else A)"
    using liveA assms(4) by (auto simp: live_slabs_def assms(9))
  show ?thesis
  proof (cases "slab_used bi e = {}")
    case True
    then have full: "extent_nfree_get e = ucast (bin_nregs bi)" by (simp add: nf(2))
    then have n1: "unat (extent_nfree_get e) = n" by (simp add: nf(3))
    have "bin_nregs bi = 1 \<longleftrightarrow> n = 1"
      using bin_ok_nregs [OF assms(1)] by (metis unsigned_1 word_unat_eq_iff)
    then have nregs1: "bin_nregs bi = 1 \<longleftrightarrow> extent_nfree_get ?e0 = 0" unfolding nf0(5) using n0 n1 by linarith
    have "\<exists>b1. arena_dissociate_bin_slab bins ar a b = Some b1 \<and> bin_core i bi ar0 b1 (A - {a})
        \<and> bin_stats b1 = bin_stats b"
      using drop nregs1 assms(2) by (simp add: arena_dissociate_bin_slab_def ea szi rm)
    then obtain b1 where b1: "arena_dissociate_bin_slab bins ar a b = Some b1"
      "bin_core i bi ar0 b1 (A - {a})" "bin_stats b1 = bin_stats b" by blast
    let ?res = "arena_dalloc_bin_slab ar a b1"
    have "bin_core i bi ar b1 (A - {a})" by (rule frame [OF b1(2)]) simp
    then have "bin_core i bi (fst ?res) (snd ?res) (A - {a})"
      by (simp add: arena_dalloc_bin_slab_def arena_slab_dalloc_def arena_nactive_sub_def)
    moreover have "bin_accounts (fst ?res) (snd ?res) (A - {a}) k" if "bin_accounts ar b A k" for k
      using that assms(4) fin b1(3) by (intro bin_accounts_dalloc) (simp_all add: insert_absorb bin_accounts_def)
    moreover have "arena_dalloc_bin_move bins bi ar a b = Some ?res"
      using full b1(1) by (simp add: arena_dalloc_bin_move_def ea)
    moreover have "bs_curregs (bin_stats (snd ?res)) = bs_curregs (bin_stats b)" "ar_mem (fst ?res) = ar_mem ar"
      "ar_active (fst ?res) = ar_active ar - {a}"
      "ar_auto (fst ?res) = ar_auto ar" "ar_bins (fst ?res) = ar_bins ar"
      by (simp_all add: arena_dalloc_bin_slab_def arena_slab_dalloc_def arena_nactive_sub_def b1(3))
    ultimately show ?thesis using True live assms(4) by (cases ?res) (auto simp: double_diff)
  next
    case False
    then have nfull: "extent_nfree_get e \<noteq> ucast (bin_nregs bi)" by (simp add: nf(2))
    show ?thesis
    proof (cases "extent_nfree_get e = 1 \<and> bin_slabcur b \<noteq> Some a")
      case True
      then have "extent_nfree_get ?e0 = 0" using n0 nf(4) nf0(5) by auto
      with drop(3) True have d: "bin_core i bi ar0 (arena_bin_slabs_full_remove ar0 b a) (A - {a})" by blast
      let ?b = "arena_bin_slabs_full_remove ar b a"
      have "bin_core i bi ar (arena_bin_lower_slab ar a ?b) (insert a (A - {a}))"
        using frame [OF d] False assms(7) True by (intro core_lower) (simp_all add: ea rm)
      then have "bin_core i bi ar (arena_bin_lower_slab ar a ?b) A" using assms(4) by (simp add: insert_absorb)
      moreover have "arena_dalloc_bin_move bins bi ar a b = Some (ar, arena_bin_lower_slab ar a ?b)"
        using True nfull by (simp add: arena_dalloc_bin_move_def ea)
      ultimately show ?thesis using False live by (simp add: bin_accounts_def)
    next
      case other: False
      have "bin_slabcur b = Some a \<or> (extent_nfree_get e = 0 \<longleftrightarrow> extent_nfree_get ?e0 = 0)"
        using other n0 nf(4,5) nf0(5) by auto
      from core_update [OF assms(3,4,7) False assms(6) this] have "bin_core i bi ar b A" by (simp add: assms(9))
      moreover have "arena_dalloc_bin_move bins bi ar a b = Some (ar, b)"
        using other nfull by (auto simp: arena_dalloc_bin_move_def ea)
      ultimately show ?thesis using False live by simp
    qed
  qed
qed

section \<open>The arena\<close>

text \<open>
  \<open>own i\<close> are the slabs of bin \<open>i\<close>, \<open>L i\<close> the pointers of its size class that the application holds,
  and \<open>k\<close> the active pages that do not belong to slabs.
\<close>

definition slabs_disjoint :: "sc_data_t \<Rightarrow> arena \<Rightarrow> (nat \<Rightarrow> 64 word set) \<Rightarrow> bool" where
  "slabs_disjoint d ar own \<longleftrightarrow> (\<forall>i<SC_NBINS. \<forall>j<SC_NBINS. \<forall>a\<in>own i. \<forall>b\<in>own j. a \<noteq> b \<longrightarrow>
     slab_pages (bin_boot d ! i) (ar_mem ar a) \<inter> slab_pages (bin_boot d ! j) (ar_mem ar b) = {})"

definition arena_inv ::
  "sc_data_t \<Rightarrow> size_t \<Rightarrow> arena \<Rightarrow> (nat \<Rightarrow> 64 word set) \<Rightarrow> (nat \<Rightarrow> 64 word set) \<Rightarrow> bool" where
  "arena_inv d k ar own L \<longleftrightarrow> length (ar_bins ar) = SC_NBINS
     \<and> (\<forall>i<SC_NBINS. bin_core i (bin_boot d ! i) ar (ar_bins ar ! i) (own i)
          \<and> bs_curslabs (bin_stats (ar_bins ar ! i)) = of_nat (card (own i))
          \<and> bs_curregs (bin_stats (ar_bins ar ! i)) = of_nat (card (L i))
          \<and> L i = (\<Union>a\<in>own i. slab_used (bin_boot d ! i) (ar_mem ar a)))
     \<and> slabs_disjoint d ar own \<and> ar_active ar = (\<Union>i<SC_NBINS. own i)
     \<and> ar_nactive ar = k + (\<Sum>i<SC_NBINS. \<Sum>a\<in>own i. slab_npages ar a)"

lemma arena_inv_init: "arena_inv d k (arena_bins_init auto mem k) (\<lambda>_. {}) (\<lambda>_. {})"
  using bin_core_init
  by (simp add: arena_inv_def arena_bins_init_def slabs_disjoint_def) (simp add: bin_init_def)

lemma own_slab:
  assumes "arena_inv d k ar own L" "i < SC_NBINS" "a \<in> own i"
  shows "unat (extent_szind_get (ar_mem ar a)) = i" "a \<in> ar_active ar" "slab_ok i (bin_boot d ! i) (ar_mem ar a)"
proof -
  have c: "bin_core i (bin_boot d ! i) ar (ar_bins ar ! i) (own i)" "ar_active ar = (\<Union>i<SC_NBINS. own i)"
    using assms(1,2) by (auto simp: arena_inv_def)
  show ok: "slab_ok i (bin_boot d ! i) (ar_mem ar a)" using c(1) assms(3) by (simp add: bin_core_def)
  then show "unat (extent_szind_get (ar_mem ar a)) = i" by (simp add: slab_ok_def slab_inv_def)
  show "a \<in> ar_active ar" using c(2) assms(2,3) by blast
qed

text \<open>A step of bin \<open>i\<close>, which may take the slab \<open>s\<close> into the bin.\<close>

lemma slabs_disjoint_step:
  assumes "slabs_disjoint d ar own" "A' \<subseteq> own i \<union> set_option s"
    and "\<forall>j<SC_NBINS. j \<noteq> i \<longrightarrow> (\<forall>a\<in>own j. ar_mem ar' a = ar_mem ar a)"
    and "\<forall>a\<in>own i. slab_pages (bin_boot d ! i) (ar_mem ar' a) = slab_pages (bin_boot d ! i) (ar_mem ar a)"
    and "\<forall>f. s = Some f \<longrightarrow> (\<forall>j<SC_NBINS. \<forall>b\<in>own j.
          slab_pages (bin_boot d ! i) (ar_mem ar' f) \<inter> slab_pages (bin_boot d ! j) (ar_mem ar b) = {})"
  shows "slabs_disjoint d ar' (own(i := A'))"
  unfolding slabs_disjoint_def
proof (intro allI impI ballI)
  let ?P = "\<lambda>ar i a. slab_pages (bin_boot d ! i) (ar_mem ar a)"
  fix x y a b assume xy: "x < SC_NBINS" "y < SC_NBINS" "a \<in> (own(i := A')) x" "b \<in> (own(i := A')) y" "a \<noteq> b"
  have old: "a \<in> own x \<and> ?P ar' x a = ?P ar x a \<or> x = i \<and> s = Some a" if "x < SC_NBINS" "a \<in> (own(i := A')) x" for x a
    using that assms(2-4) by (auto split: if_splits)
  from old [OF xy(1,3)] old [OF xy(2,4)] show "?P ar' x a \<inter> ?P ar' y b = {}"
  proof (elim disjE conjE, goal_cases)
    case 1
    then show ?case using assms(1) xy by (simp add: slabs_disjoint_def)
  next
    case 2
    then have "?P ar' i b \<inter> ?P ar x a = {}" using assms(5) xy(1) by blast
    then show ?case using 2 by auto
  next
    case 3
    then show ?case using assms(5) xy(2) by metis
  next
    case 4
    then show ?case using xy(5) by simp
  qed
qed

lemma arena_step:
  assumes "arena_inv d k ar own L" "i < SC_NBINS" "A' \<subseteq> own i \<union> set_option s"
    and "\<forall>j<SC_NBINS. j \<noteq> i \<longrightarrow> (\<forall>a\<in>own j. ar_mem ar' a = ar_mem ar a)"
    and "\<forall>a\<in>own i. slab_pages (bin_boot d ! i) (ar_mem ar' a) = slab_pages (bin_boot d ! i) (ar_mem ar a)"
    and "\<forall>f. s = Some f \<longrightarrow> (\<forall>j<SC_NBINS. \<forall>b\<in>own j.
          slab_pages (bin_boot d ! i) (ar_mem ar' f) \<inter> slab_pages (bin_boot d ! j) (ar_mem ar b) = {})"
    and "ar_auto ar' = ar_auto ar" "ar_bins ar' = (ar_bins ar)[i := b']"
    and "bin_core i (bin_boot d ! i) ar' b' A'"
    and "\<And>k. bin_accounts ar (ar_bins ar ! i) (own i) k \<Longrightarrow> bin_accounts ar' b' A' k"
    and "bs_curregs (bin_stats b') = of_nat (card l)"
    and "l = (\<Union>a\<in>A'. slab_used (bin_boot d ! i) (ar_mem ar' a))"
    and "ar_active ar' = (ar_active ar - own i) \<union> A'"
  shows "arena_inv d k ar' (own(i := A')) (L(i := l))"
proof -
  note inv = assms(1) [unfolded arena_inv_def]
  have len: "i < length (ar_bins ar)" using inv assms(2) by simp
  let ?N = "{..<SC_NBINS} - {i}"
  let ?k = "k + (\<Sum>j\<in>?N. \<Sum>a\<in>own j. slab_npages ar a)"
  have "bin_accounts ar (ar_bins ar ! i) (own i) ?k"
    using inv assms(2) by (simp add: bin_accounts_def sum.remove [of "{..<SC_NBINS}" i])
  then have acc: "bin_accounts ar' b' A' ?k" by (rule assms(10))
  have "(\<Sum>j\<in>?N. \<Sum>a\<in>own j. slab_npages ar a) = (\<Sum>j\<in>?N. \<Sum>a\<in>(own(i := A')) j. slab_npages ar' a)"
  proof (rule sum.cong [OF refl])
    fix j assume j: "j \<in> ?N"
    show "(\<Sum>a\<in>own j. slab_npages ar a) = (\<Sum>a\<in>(own(i := A')) j. slab_npages ar' a)"
      using assms(4) j by (intro sum.cong) (auto simp: slab_npages_def)
  qed
  with acc assms(2) have nact: "ar_nactive ar' = k + (\<Sum>j<SC_NBINS. \<Sum>a\<in>(own(i := A')) j. slab_npages ar' a)"
    by (simp add: bin_accounts_def sum.remove [of "{..<SC_NBINS}" i])
  have other: "bin_core j (bin_boot d ! j) ar' (ar_bins ar ! j) (own j)" if "j < SC_NBINS" "j \<noteq> i" for j
  proof -
    have "bin_core j (bin_boot d ! j) (ar\<lparr>ar_mem := ar_mem ar'\<rparr>) (ar_bins ar ! j) (own j)"
      using inv that assms(4) by (intro bin_core_frame) auto
    then show ?thesis using assms(7) by (simp add: bin_core_def bin_core_sets)
  qed
  have "slabs_disjoint d ar' (own(i := A'))"
    using inv by (intro slabs_disjoint_step [OF _ assms(3-6)]) simp
  moreover have "(\<Union>a\<in>own j. slab_used (bin_boot d ! j) (ar_mem ar' a)) = L j" if "j < SC_NBINS" "j \<noteq> i" for j
    using inv that assms(4) by simp
  moreover have "ar_active ar' = (\<Union>j<SC_NBINS. (own(i := A')) j)"
  proof -
    have "own i \<inter> own j = {}" if "j < SC_NBINS" "j \<noteq> i" for j
      using own_slab(1) [OF assms(1)] that assms(2) by blast
    then have "(\<Union>j<SC_NBINS. own j) - own i = (\<Union>j\<in>?N. own j)" by fastforce
    moreover have "(\<Union>j<SC_NBINS. (own(i := A')) j) = (\<Union>j\<in>?N. own j) \<union> A'" using assms(2) by (auto split: if_splits)
    ultimately show ?thesis using inv assms(13) by simp
  qed
  ultimately show ?thesis
    using inv other nact assms(8,9,11,12) acc len
    by (simp add: arena_inv_def bin_accounts_def nth_list_update)
qed

text \<open>Regions in different pages differ.\<close>

lemma regions_apart:
  assumes "bin_ok bi dv r n" "slab_ok i bi e" "slab_ok i bi e'" "slab_pages bi e \<inter> slab_pages bi e' = {}"
  shows "slab_used bi e \<inter> slab_used bi e' = {}"
proof -
  have "unat ` slab_used bi e \<inter> unat ` slab_used bi e' = {}"
    using slab_okD(4) [OF assms(2,1)] slab_okD(4) [OF assms(3,1)] assms(4) by blast
  then show ?thesis by blast
qed

lemma taken_union:
  assumes "bin_ok bi dv r n" "reg_taken i bi ar ar' a p" "a \<in> A"
    and "\<forall>a\<in>A. slab_ok i bi (ar_mem ar a)"
    and "\<forall>a\<in>A. \<forall>b\<in>A. a \<noteq> b \<longrightarrow> slab_pages bi (ar_mem ar a) \<inter> slab_pages bi (ar_mem ar b) = {}"
  shows "(\<Union>a\<in>live_slabs bi ar' A. slab_used bi (ar_mem ar' a)) = insert p (\<Union>a\<in>A. slab_used bi (ar_mem ar a))"
    "p \<notin> (\<Union>a\<in>A. slab_used bi (ar_mem ar a))"
    "\<forall>b. b \<noteq> a \<longrightarrow> ar_mem ar' b = ar_mem ar b" "same_slab (ar_mem ar a) (ar_mem ar' a)"
proof -
  obtain e where e: "ar_mem ar' = (ar_mem ar)(a := e)" "same_slab (ar_mem ar a) e" "slab_ok i bi e"
    "p \<notin> slab_used bi (ar_mem ar a)" "slab_used bi e = insert p (slab_used bi (ar_mem ar a))"
    using assms(2) by (auto simp: reg_taken_def)
  have "(\<Union>a\<in>live_slabs bi ar' A. slab_used bi (ar_mem ar' a)) = (\<Union>a\<in>A. slab_used bi (ar_mem ar' a))"
    by (auto simp: live_slabs_def)
  also have "\<dots> = insert p (\<Union>a\<in>A. slab_used bi (ar_mem ar a))"
    using assms(3) e(1,5) by (auto split: if_splits)
  finally show "(\<Union>a\<in>live_slabs bi ar' A. slab_used bi (ar_mem ar' a)) = insert p (\<Union>a\<in>A. slab_used bi (ar_mem ar a))" .
  have "p \<notin> slab_used bi (ar_mem ar b)" if "b \<in> A" for b
  proof (cases "b = a")
    case False
    then have "slab_pages bi e \<inter> slab_pages bi (ar_mem ar b) = {}"
      using assms(3,5) that by (simp add: same_slab_pages [OF e(2)])
    from regions_apart [OF assms(1) e(3) _ this] assms(4) that e(5) show ?thesis by blast
  qed (use e(4) in simp)
  then show "p \<notin> (\<Union>a\<in>A. slab_used bi (ar_mem ar a))" by blast
  show "\<forall>b. b \<noteq> a \<longrightarrow> ar_mem ar' b = ar_mem ar b" "same_slab (ar_mem ar a) (ar_mem ar' a)"
    using e(1,2) by simp_all
qed

lemma card_live_finite:
  assumes "bin_ok bi dv r n" "bin_core i bi ar b A"
  shows "finite (\<Union>a\<in>A. slab_used bi (ar_mem ar a))"
proof (rule finite_UN_I)
  show "finite A" using assms(2) by (simp add: bin_core_def)
  show "finite (slab_used bi (ar_mem ar a))" if "a \<in> A" for a
    using that assms(2) by (intro slab_okD(1) [of i, OF _ assms(1)]) (simp add: bin_core_def)
qed

text \<open>
  The end of an allocation in bin \<open>i\<close>, from \<open>ar1\<close> and \<open>b1\<close>, which differ from the start by the
  new slab \<open>s\<close>, with other statistics \<open>st\<close>.
\<close>

lemma malloc_finish:
  assumes "arena_inv d k ar own L" "i < SC_NBINS" "bin_ok (bin_boot d ! i) dv r n"
    and "malloc_result i (bin_boot d ! i) ar1 b1 (own i \<union> set_option s) ret ar2 b2"
    and "ar_auto ar1 = ar_auto ar" "\<forall>a. s \<noteq> Some a \<longrightarrow> ar_mem ar1 a = ar_mem ar a"
    and "\<And>k. bin_accounts ar (ar_bins ar ! i) (own i) k \<Longrightarrow> bin_accounts ar1 b1 (own i \<union> set_option s) k"
    and "b3 = b2\<lparr>bin_stats := st\<rparr>" "bs_curslabs st = bs_curslabs (bin_stats b2)"
      "bs_curregs st = bs_curregs (bin_stats (ar_bins ar ! i)) + (if ret = None then 0 else 1)"
    and "\<forall>f. s = Some f \<longrightarrow> slab_ok i (bin_boot d ! i) (ar_mem ar1 f) \<and> slab_used (bin_boot d ! i) (ar_mem ar1 f) = {}
          \<and> (\<forall>j<SC_NBINS. f \<notin> own j \<and> (\<forall>b\<in>own j.
              slab_pages (bin_boot d ! i) (ar_mem ar1 f) \<inter> slab_pages (bin_boot d ! j) (ar_mem ar b) = {}))"
    and "ret = None \<longrightarrow> s = None"
    and "ar3 = ar2\<lparr>ar_bins := (ar_bins ar)[i := b3]\<rparr>"
    and "ar_active ar1 = ar_active ar \<union> set_option s"
  shows "arena_inv d k ar3 (own(i := live_slabs (bin_boot d ! i) ar3 (own i \<union> set_option s)))
      (case ret of None \<Rightarrow> L | Some p \<Rightarrow> L(i := insert p (L i)))
    \<and> (\<forall>p. ret = Some p \<longrightarrow> p \<notin> L i)"
proof -
  let ?bi = "bin_boot d ! i" and ?A = "own i \<union> set_option s" and ?b = b3
  note inv = assms(1) [unfolded arena_inv_def]
  have core: "bin_core i ?bi ar (ar_bins ar ! i) (own i)" using inv assms(2) by blast
  have m3: "ar_mem ar3 = ar_mem ar2" "ar_auto ar3 = ar_auto ar2" by (simp_all add: assms(13))
  have l3: "live_slabs ?bi ar3 ?A = live_slabs ?bi ar2 ?A" by (simp add: live_slabs_def m3)
  note res = assms(4) [unfolded malloc_result_def]
  have mem1: "ar_mem ar1 a = ar_mem ar a" if "a \<in> own j" "j < SC_NBINS" for a j
    using assms(6,11) that by (cases "s = Some a") auto
  have okA: "\<forall>a\<in>?A. slab_ok i ?bi (ar_mem ar1 a)"
    using core mem1 [OF _ assms(2)] assms(11) by (auto simp: bin_core_def)
  have disA: "\<forall>a\<in>?A. \<forall>b\<in>?A. a \<noteq> b \<longrightarrow> slab_pages ?bi (ar_mem ar1 a) \<inter> slab_pages ?bi (ar_mem ar1 b) = {}"
  proof (intro ballI impI)
    fix a b assume ab: "a \<in> ?A" "b \<in> ?A" "a \<noteq> b"
    have f: "slab_pages ?bi (ar_mem ar1 f) \<inter> slab_pages ?bi (ar_mem ar1 c) = {}" if "s = Some f" "c \<in> own i" for f c
      using assms(2,11) that mem1 [OF that(2) assms(2)] by simp
    show "slab_pages ?bi (ar_mem ar1 a) \<inter> slab_pages ?bi (ar_mem ar1 b) = {}"
    proof (cases "a \<in> own i \<and> b \<in> own i")
      case True
      then show ?thesis using inv assms(2) ab(3) mem1 [OF _ assms(2)] by (simp add: slabs_disjoint_def)
    next
      case False
      then show ?thesis using ab f [of a b] f [of b a] by auto
    qed
  qed
  have LA: "(\<Union>a\<in>?A. slab_used ?bi (ar_mem ar1 a)) = L i"
  proof -
    have "(\<Union>a\<in>?A. slab_used ?bi (ar_mem ar1 a)) = (\<Union>a\<in>own i. slab_used ?bi (ar_mem ar1 a))"
      using assms(11) by (cases s) auto
    also have "\<dots> = (\<Union>a\<in>own i. slab_used ?bi (ar_mem ar a))" using mem1 [OF _ assms(2)] by simp
    finally show ?thesis using inv assms(2) by simp
  qed
  have lv: "live_slabs ?bi ar3 ?A \<subseteq> own i \<union> set_option s" by (auto simp: live_slabs_def)
  have coreF: "bin_core i ?bi ar3 ?b (live_slabs ?bi ar3 ?A)"
    using res by (simp add: assms(8) l3) (simp add: assms(13))
  have acc: "bin_accounts ar3 ?b (live_slabs ?bi ar3 ?A) k" if "bin_accounts ar (ar_bins ar ! i) (own i) k" for k
  proof -
    have "bin_accounts ar2 b2 (live_slabs ?bi ar2 ?A) k" using assms(7) [OF that] res by blast
    then show ?thesis unfolding l3 by (rule bin_accounts_cong) (simp_all add: assms(8,9,13))
  qed
  have act: "ar_active ar3 = (ar_active ar - own i) \<union> live_slabs ?bi ar3 ?A"
  proof -
    have "own i \<subseteq> ar_active ar" using own_slab(2) [OF assms(1,2)] by blast
    moreover have "set_option s \<inter> ar_active ar = {}" using assms(11) inv by auto
    moreover have "ar_active ar3 = (ar_active ar \<union> set_option s) - (?A - live_slabs ?bi ar3 ?A)"
      using res assms(14) by (simp add: l3) (simp add: assms(13))
    ultimately show ?thesis using lv by blast
  qed
  have fin: "finite (L i)" using card_live_finite [OF assms(3) core] inv assms(2) by simp
  show ?thesis
  proof (cases ret)
    case None
    then have s: "s = None" and same: "ar2 = ar1" using assms(12) res by auto
    have eq: "ar_mem ar3 = ar_mem ar" using assms(6) s m3 same by auto
    have "arena_inv d k ar3 (own(i := live_slabs ?bi ar3 ?A)) (L(i := L i))"
    proof (rule arena_step [OF assms(1,2) lv _ _ _ _ _ coreF acc])
      show "bs_curregs (bin_stats ?b) = of_nat (card (L i))"
        using inv assms(2,8,10) None by simp
      have "live_slabs ?bi ar3 ?A = own i" using live_slabs_core [OF core] by (simp add: s live_slabs_def eq)
      then show "L i = (\<Union>a\<in>live_slabs ?bi ar3 ?A. slab_used ?bi (ar_mem ar3 a))"
        using inv assms(2) by (simp add: eq)
    qed (use act assms(5,13) s same eq m3 in simp_all)
    then show ?thesis by (simp add: None)
  next
    case (Some p)
    then obtain a where a: "a \<in> ?A" "reg_taken i ?bi ar1 ar2 a p" using res by auto
    note tk = taken_union [OF assms(3) a(2,1) okA disA]
    have pL: "p \<notin> L i" using tk(2) unfolding LA .
    have pages: "slab_pages ?bi (ar_mem ar2 c) = slab_pages ?bi (ar_mem ar1 c)" for c
      using tk(3) same_slab_pages [OF tk(4)] by (cases "c = a") simp_all
    have "arena_inv d k ar3 (own(i := live_slabs ?bi ar3 ?A)) (L(i := insert p (L i)))"
    proof (rule arena_step [OF assms(1,2) lv _ _ _ _ _ coreF acc])
      show "\<forall>j<SC_NBINS. j \<noteq> i \<longrightarrow> (\<forall>c\<in>own j. ar_mem ar3 c = ar_mem ar c)"
      proof (intro allI impI ballI)
        fix j c assume j: "j < SC_NBINS" "j \<noteq> i" "c \<in> own j"
        have "c \<noteq> a"
        proof
          assume "c = a"
          with a(1) j(1,3) assms(11) have "a \<in> own i" by auto
          moreover have "slab_ok j (bin_boot d ! j) (ar_mem ar a)" "slab_ok i ?bi (ar_mem ar a)"
            using inv j(1,3) \<open>c = a\<close> \<open>a \<in> own i\<close> assms(2) by (auto simp: bin_core_def)
          then show False using j(2) by (auto simp: slab_ok_def slab_inv_def)
        qed
        then show "ar_mem ar3 c = ar_mem ar c" using tk(3) m3 mem1 [OF j(3,1)] by simp
      qed
      show "\<forall>c\<in>own i. slab_pages ?bi (ar_mem ar3 c) = slab_pages ?bi (ar_mem ar c)"
        using pages mem1 [OF _ assms(2)] by (simp add: m3)
      show "\<forall>f. s = Some f \<longrightarrow> (\<forall>j<SC_NBINS. \<forall>b\<in>own j.
          slab_pages ?bi (ar_mem ar3 f) \<inter> slab_pages (bin_boot d ! j) (ar_mem ar b) = {})"
        using assms(11) by (simp add: m3 pages)
      show "ar_auto ar3 = ar_auto ar" using a(2) assms(5) by (simp add: reg_taken_def m3)
      show "ar_bins ar3 = (ar_bins ar)[i := ?b]" by (simp add: assms(13))
      show "bs_curregs (bin_stats ?b) = of_nat (card (insert p (L i)))"
        using inv assms(2,8,10) Some pL fin by simp
      show "insert p (L i) = (\<Union>a\<in>live_slabs ?bi ar3 ?A. slab_used ?bi (ar_mem ar3 a))"
        using tk(1) [unfolded LA] by (simp add: m3 l3)
    qed (assumption | rule act)+
    with pL Some show ?thesis by simp
  qed
qed

text \<open>What the extents promise of a new slab, and the radix tree of a lookup.\<close>

definition fresh_source :: "sc_data_t \<Rightarrow> arena \<Rightarrow> (nat \<Rightarrow> 64 word set) \<Rightarrow> nat \<Rightarrow> slab_source \<Rightarrow> bool" where
  "fresh_source d ar own i src \<longleftrightarrow> (\<forall>a e. slab_answer src = Some (a, e) \<longrightarrow> slab_extent d i e
     \<and> (\<forall>j<SC_NBINS. a \<notin> own j \<and> (\<forall>b\<in>own j.
          slab_pages (bin_boot d ! i) e \<inter> slab_pages (bin_boot d ! j) (ar_mem ar b) = {})))"

definition source_slab :: "slab_source \<Rightarrow> 64 word option" where
  "source_slab src = map_option fst (slab_answer src)"

definition iealloc_ok :: "sc_data_t \<Rightarrow> arena \<Rightarrow> (nat \<Rightarrow> 64 word set) \<Rightarrow> (64 word \<Rightarrow> 64 word) \<Rightarrow> bool" where
  "iealloc_ok d ar own iealloc \<longleftrightarrow> (\<forall>i<SC_NBINS. \<forall>a\<in>own i. \<forall>p.
     unat p \<in> slab_pages (bin_boot d ! i) (ar_mem ar a) \<longrightarrow> iealloc p = a)"

text \<open>
  The arena while a thread works on bin \<open>i\<close>, whose state is \<open>b\<close>, with \<open>m\<close> regions handed out that
  \<open>curregs\<close> does not count yet.
\<close>

definition counted :: "arena \<Rightarrow> nat \<Rightarrow> bin \<Rightarrow> nat \<Rightarrow> arena" where
  "counted ar i b m = ar\<lparr>ar_bins := (ar_bins ar)[i := b\<lparr>bin_stats := (bin_stats b)\<lparr>bs_curregs :=
     bs_curregs (bin_stats b) + of_nat m\<rparr>\<rparr>]\<rparr>"

lemma arena_inv_stats:
  assumes "arena_inv d k (ar\<lparr>ar_bins := (ar_bins ar)[i := b]\<rparr>) own L"
    and "bs_curslabs st = bs_curslabs (bin_stats b)" "bs_curregs st = bs_curregs (bin_stats b)"
  shows "arena_inv d k (ar\<lparr>ar_bins := (ar_bins ar)[i := b\<lparr>bin_stats := st\<rparr>]\<rparr>) own L"
proof -
  have e: "bin_core j bi ar ((ar_bins ar)[i := b\<lparr>bin_stats := st\<rparr>] ! j) A = bin_core j bi ar ((ar_bins ar)[i := b] ! j) A"
    "bs_curslabs (bin_stats ((ar_bins ar)[i := b\<lparr>bin_stats := st\<rparr>] ! j)) = bs_curslabs (bin_stats ((ar_bins ar)[i := b] ! j))"
    "bs_curregs (bin_stats ((ar_bins ar)[i := b\<lparr>bin_stats := st\<rparr>] ! j)) = bs_curregs (bin_stats ((ar_bins ar)[i := b] ! j))"
    if "j < length (ar_bins ar)" for j bi A
    using that assms(2,3) by (cases "i = j"; simp)+
  then show ?thesis
    using assms(1) by (simp add: arena_inv_def slabs_disjoint_def slab_npages_def)
qed

lemma counted_stats:
  assumes "arena_inv d k (counted ar i b m) own L"
    and "bs_curslabs st = bs_curslabs (bin_stats b)" "bs_curregs st = bs_curregs (bin_stats b) + of_nat m"
  shows "arena_inv d k (ar\<lparr>ar_bins := (ar_bins ar)[i := b\<lparr>bin_stats := st\<rparr>]\<rparr>) own L"
  using arena_inv_stats [OF assms(1) [unfolded counted_def], of st] assms(2,3) by simp

lemma counted_malloc_stats:
  assumes "arena_inv d k (counted ar i b (Suc 0)) own L"
  shows "arena_inv d k (ar\<lparr>ar_bins := (ar_bins ar)[i := malloc_small_stats (Some p) b]\<rparr>) own L"
proof -
  have e: "malloc_small_stats (Some p) b = b\<lparr>bin_stats := (bin_stats b)\<lparr>bs_nmalloc := bs_nmalloc (bin_stats b) + 1,
      bs_nrequests := bs_nrequests (bin_stats b) + 1, bs_curregs := bs_curregs (bin_stats b) + 1\<rparr>\<rparr>"
    by (simp add: malloc_small_stats_def)
  show ?thesis unfolding e by (rule counted_stats [OF assms]) simp_all
qed

lemma counted_0: "counted ar i (ar_bins ar ! i) 0 = ar"
  by (simp add: counted_def)

lemma counted_inv:
  assumes "arena_inv d k (counted ar i b m) own L" "i < SC_NBINS"
  shows "bin_core i (bin_boot d ! i) ar b (own i)" "length (ar_bins ar) = SC_NBINS"
    "L i = (\<Union>a\<in>own i. slab_used (bin_boot d ! i) (ar_mem ar a))"
  using assms by (auto simp: arena_inv_def counted_def)

lemma fresh_source_counted: "fresh_source d (counted ar i b m) own j src = fresh_source d ar own j src"
  by (simp add: fresh_source_def counted_def)

text \<open>The slabs of the arena keep their pages.\<close>

definition pages_kept :: "sc_data_t \<Rightarrow> arena \<Rightarrow> arena \<Rightarrow> (nat \<Rightarrow> 64 word set) \<Rightarrow> bool" where
  "pages_kept d ar ar' own \<longleftrightarrow> (\<forall>j<SC_NBINS. \<forall>a\<in>own j.
     slab_pages (bin_boot d ! j) (ar_mem ar' a) = slab_pages (bin_boot d ! j) (ar_mem ar a))"

lemma pages_kept_taken: "reg_taken i bi ar ar' a p \<Longrightarrow> pages_kept d ar ar' own"
proof -
  assume "reg_taken i bi ar ar' a p"
  then obtain e where e: "ar_mem ar' = (ar_mem ar)(a := e)" "same_slab (ar_mem ar a) e" by (auto simp: reg_taken_def)
  then show ?thesis by (simp add: pages_kept_def same_slab_pages [OF e(2)])
qed

lemma begin_counted:
  assumes "table_inv d" "arena_inv d k (counted ar i b m) own L" "i < SC_NBINS"
  shows "(\<exists>p ar' b'. bin_malloc_begin (bin_boot d ! i) ar b = Some (Done (Some p), ar', b')
      \<and> arena_inv d k (counted ar' i b' (Suc m)) own (L(i := insert p (L i))) \<and> p \<notin> L i
      \<and> ar_bins ar' = ar_bins ar \<and> pages_kept d ar ar' own)
    \<or> (\<exists>b'. bin_malloc_begin (bin_boot d ! i) ar b = Some (Wait, ar, b')
      \<and> arena_inv d k (counted ar i b' m) own L \<and> (\<forall>a\<in>own i. nfree_at ar a = 0)
      \<and> bs_curregs (bin_stats b') = bs_curregs (bin_stats b))"
proof -
  note bt = bin_of_table [OF assms(1,3)] and inv = assms(2) [unfolded arena_inv_def]
  let ?bi = "bin_boot d ! i" and ?car = "counted ar i b m"
  note core = counted_inv(1) [OF assms(2,3)] and len = counted_inv(2) [OF assms(2,3)]
  have cb: "ar_bins ?car ! i = b\<lparr>bin_stats := (bin_stats b)\<lparr>bs_curregs := bs_curregs (bin_stats b) + of_nat m\<rparr>\<rparr>"
    using len assms(3) by (simp add: counted_def)
  from bin_malloc_begin_cases [OF bt(3) core] show ?thesis
  proof (elim disjE exE conjE, goal_cases)
    case (1 p ar' b')
    obtain a where a: "a \<in> own i" "reg_taken i ?bi ar ar' a p" using 1(2) by (auto simp: malloc_result_def)
    have bins: "ar_bins ar' = ar_bins ar" using a(2) by (simp add: reg_taken_def)
    have live: "live_slabs ?bi (counted ar' i b' (Suc m)) (own i) = own i"
      using a core by (auto simp: live_slabs_def counted_def reg_taken_def bin_core_def split: if_splits)
    have "arena_inv d k (counted ar' i b' (Suc m)) (own(i := live_slabs ?bi (counted ar' i b' (Suc m)) (own i \<union> set_option None)))
        (case Some p of None \<Rightarrow> L | Some p \<Rightarrow> L(i := insert p (L i))) \<and> (\<forall>q. Some p = Some q \<longrightarrow> q \<notin> L i)"
    proof (rule malloc_finish [OF assms(2,3) bt(3), of ar b None])
      show "malloc_result i ?bi ar b (own i \<union> set_option None) (Some p) ar' b'" using 1(2) by simp
      show "bin_accounts ar b (own i \<union> set_option None) k" if "bin_accounts ?car (ar_bins ?car ! i) (own i) k" for k
        using that by (simp add: cb) (simp add: counted_def bin_accounts_def slab_npages_def)
      show "bs_curregs ((bin_stats b')\<lparr>bs_curregs := bs_curregs (bin_stats b') + of_nat (Suc m)\<rparr>)
          = bs_curregs (bin_stats (ar_bins ?car ! i)) + (if Some p = None then 0 else 1)"
        using 1(2) by (simp add: cb malloc_result_def)
      show "counted ar' i b' (Suc m) = ar'\<lparr>ar_bins := (ar_bins ?car)[i :=
          b'\<lparr>bin_stats := (bin_stats b')\<lparr>bs_curregs := bs_curregs (bin_stats b') + of_nat (Suc m)\<rparr>\<rparr>]\<rparr>"
        by (simp add: counted_def bins)
    qed (simp_all add: counted_def)
    then show ?case using 1(1) live bins pages_kept_taken [OF a(2)] by auto
  next
    case (2 b')
    let ?ar = "counted ar i b' m"
    have "arena_inv d k ?ar (own(i := own i)) (L(i := L i))"
    proof (rule arena_step [OF assms(2,3), of _ None])
      show "bin_core i ?bi ?ar (ar_bins ?ar ! i) (own i)" using 2(2) len assms(3) by (simp add: counted_def)
      show "bin_accounts ?ar (ar_bins ?ar ! i) (own i) k" if "bin_accounts ?car (ar_bins ?car ! i) (own i) k" for k
        using that len assms(3) by (intro bin_accounts_cong [OF that]) (simp_all add: 2(4) counted_def)
      have "bs_curregs (bin_stats (ar_bins ?car ! i)) = of_nat (card (L i))" using inv assms(3) by blast
      then show "bs_curregs (bin_stats (ar_bins ?ar ! i)) = of_nat (card (L i))"
        using 2(5) len assms(3) by (simp add: cb) (simp add: counted_def)
      show "L i = (\<Union>a\<in>own i. slab_used ?bi (ar_mem ?ar a))"
        using counted_inv(3) [OF assms(2,3)] by (simp add: counted_def)
      show "ar_active ?ar = ar_active ?car - own i \<union> own i"
        using own_slab(2) [OF assms(2,3)] by (auto simp: counted_def)
    qed (use len assms(3) in \<open>simp_all add: counted_def\<close>)
    with 2 show ?case by auto
  qed
qed

lemma slab_alloc_source:
  assumes "table_inv d" "i < SC_NBINS" "fresh_source d ar own i src"
  shows "\<exists>ar1. arena_slab_alloc (bin_boot d ! i) ar src = Some (source_slab src, ar1)
    \<and> ar_auto ar1 = ar_auto ar \<and> ar_bins ar1 = ar_bins ar
    \<and> (\<forall>a. source_slab src \<noteq> Some a \<longrightarrow> ar_mem ar1 a = ar_mem ar a)
    \<and> ar_nactive ar1 = ar_nactive ar + (\<Sum>a\<in>set_option (source_slab src). slab_npages ar1 a)
    \<and> ar_active ar1 = ar_active ar \<union> set_option (source_slab src)
    \<and> (\<forall>f. source_slab src = Some f \<longrightarrow> slab_ok i (bin_boot d ! i) (ar_mem ar1 f)
        \<and> slab_used (bin_boot d ! i) (ar_mem ar1 f) = {}
        \<and> (\<exists>e. slab_answer src = Some (f, e)
             \<and> slab_pages (bin_boot d ! i) (ar_mem ar1 f) = slab_pages (bin_boot d ! i) e)
        \<and> (\<forall>j<SC_NBINS. f \<notin> own j \<and> (\<forall>b\<in>own j.
             slab_pages (bin_boot d ! i) (ar_mem ar1 f) \<inter> slab_pages (bin_boot d ! j) (ar_mem ar b) = {})))"
proof (cases "slab_answer src")
  case None
  then show ?thesis by (simp add: arena_slab_alloc_def source_slab_def)
next
  case (Some ae)
  note bt = bin_of_table [OF assms(1,2)]
  obtain a e where ae: "ae = (a, e)" by (cases ae)
  have x: "slab_extent d i e" and fr: "\<forall>j<SC_NBINS. a \<notin> own j \<and> (\<forall>b\<in>own j.
      slab_pages (bin_boot d ! i) e \<inter> slab_pages (bin_boot d ! j) (ar_mem ar b) = {})"
    using assms(3) Some ae by (auto simp: fresh_source_def)
  obtain e' where e: "arena_slab_init e (bin_boot d ! i) = Some e'" "slab_used (bin_boot d ! i) e' = {}"
    "slab_ok i (bin_boot d ! i) e'" "same_slab e e'"
    using slab_init [OF bt(3), of e i] x by (auto simp: slab_extent_def)
  have "extent_size_get e' = extent_size_get e" using e(4) by (simp add: same_slab_def)
  then show ?thesis
    using Some ae e fr
    by (simp add: arena_slab_alloc_def source_slab_def arena_nactive_add_def slab_npages_def
        same_slab_pages [OF e(4)])
qed

lemma end_counted:
  assumes "table_inv d" "arena_inv d k (counted ar i b m) own L" "i < SC_NBINS" "fresh_source d ar own i src"
  shows "\<exists>ret ar1 ar' b'. arena_slab_alloc (bin_boot d ! i) ar src = Some (source_slab src, ar1)
    \<and> bin_malloc_end (bin_boot d ! i) ar1 b (source_slab src) = Some (ret, ar', b')
    \<and> arena_inv d k (counted ar' i b' (m + (if ret = None then 0 else 1)))
        (own(i := live_slabs (bin_boot d ! i) ar' (own i \<union> set_option (source_slab src))))
        (case ret of None \<Rightarrow> L | Some p \<Rightarrow> L(i := insert p (L i)))
    \<and> (case ret of None \<Rightarrow> source_slab src = None \<and> (\<forall>a\<in>own i. nfree_at ar a = 0) | Some p \<Rightarrow> p \<notin> L i)
    \<and> ar_bins ar' = ar_bins ar \<and> pages_kept d ar ar' own
    \<and> (\<forall>f e. slab_answer src = Some (f, e) \<longrightarrow> slab_pages (bin_boot d ! i) (ar_mem ar' f) = slab_pages (bin_boot d ! i) e)"
proof -
  note bt = bin_of_table [OF assms(1,3)]
  let ?bi = "bin_boot d ! i" and ?s = "source_slab src" and ?car = "counted ar i b m"
  note core = counted_inv(1) [OF assms(2,3)] and len = counted_inv(2) [OF assms(2,3)]
  have cb: "ar_bins ?car ! i = b\<lparr>bin_stats := (bin_stats b)\<lparr>bs_curregs := bs_curregs (bin_stats b) + of_nat m\<rparr>\<rparr>"
    using len assms(3) by (simp add: counted_def)
  from slab_alloc_source [OF assms(1,3,4)] obtain ar1 where a1:
    "arena_slab_alloc ?bi ar src = Some (?s, ar1)" "ar_auto ar1 = ar_auto ar"
    "ar_bins ar1 = ar_bins ar" "\<forall>a. ?s \<noteq> Some a \<longrightarrow> ar_mem ar1 a = ar_mem ar a"
    "ar_nactive ar1 = ar_nactive ar + (\<Sum>a\<in>set_option ?s. slab_npages ar1 a)"
    "ar_active ar1 = ar_active ar \<union> set_option ?s"
    "\<forall>f. ?s = Some f \<longrightarrow> slab_ok i ?bi (ar_mem ar1 f) \<and> slab_used ?bi (ar_mem ar1 f) = {}
      \<and> (\<exists>e. slab_answer src = Some (f, e) \<and> slab_pages ?bi (ar_mem ar1 f) = slab_pages ?bi e)
      \<and> (\<forall>j<SC_NBINS. f \<notin> own j \<and> (\<forall>b\<in>own j.
          slab_pages ?bi (ar_mem ar1 f) \<inter> slab_pages (bin_boot d ! j) (ar_mem ar b) = {}))" by blast
  have new: "f \<notin> own j" if "?s = Some f" "j < SC_NBINS" for f j using a1(7) that by blast
  have agree: "\<forall>a\<in>own j. ar_mem ar1 a = ar_mem ar a" if "j < SC_NBINS" for j using a1(4) new [OF _ that] by auto
  have core1: "bin_core i ?bi ar1 b (own i)"
    using bin_core_frame [OF core agree [OF assms(3)]] a1(2) by (simp add: bin_core_def bin_core_sets)
  have fin: "finite (own i)" using core by (simp add: bin_core_def)
  have acc: "bin_accounts ar1 (slab_added b ?s) (own i \<union> set_option ?s) k"
    if "bin_accounts ?car (ar_bins ?car ! i) (own i) k" for k
  proof -
    have "bin_accounts ar b (own i) k"
      using that by (simp add: cb) (simp add: counted_def bin_accounts_def slab_npages_def)
    then have "bin_accounts (ar1\<lparr>ar_nactive := ar_nactive ar\<rparr>) b (own i) k"
      by (rule bin_accounts_cong) (simp_all add: agree [OF assms(3)])
    then show ?thesis using a1(5) new [OF _ assms(3)] fin
      by (cases ?s) (auto simp: bin_accounts_def slab_added_def slab_npages_def)
  qed
  from bin_malloc_end_result [OF bt(3) core1, of ?s] a1(7) new [OF _ assms(3)] obtain ret ar2 b2 where
    r: "bin_malloc_end ?bi ar1 b ?s = Some (ret, ar2, b2)"
      "malloc_result i ?bi ar1 (slab_added b ?s) (own i \<union> set_option ?s) ret ar2 b2" "ret = None \<longrightarrow> ?s = None"
    by blast
  let ?m = "m + (if ret = None then 0 else 1)"
  let ?ar = "counted ar2 i b2 ?m"
  have bins: "ar_bins ar2 = ar_bins ar" using r(2) a1(3)
    by (auto simp: malloc_result_def reg_taken_def split: option.splits)
  have live: "live_slabs ?bi ?ar (own i \<union> set_option ?s) = live_slabs ?bi ar2 (own i \<union> set_option ?s)"
    by (simp add: live_slabs_def counted_def)
  have kept: "pages_kept d ar1 ar2 own'" for own'
    using r(2) by (auto simp: malloc_result_def pages_kept_def split: option.splits
        dest!: pages_kept_taken [of _ _ _ _ _ _ d own'])
  have "arena_inv d k ?ar (own(i := live_slabs ?bi ?ar (own i \<union> set_option ?s)))
      (case ret of None \<Rightarrow> L | Some p \<Rightarrow> L(i := insert p (L i))) \<and> (\<forall>p. ret = Some p \<longrightarrow> p \<notin> L i)"
  proof (rule malloc_finish [OF assms(2,3) bt(3) r(2) _ _ acc])
    show "bs_curregs ((bin_stats b2)\<lparr>bs_curregs := bs_curregs (bin_stats b2) + of_nat ?m\<rparr>)
        = bs_curregs (bin_stats (ar_bins ?car ! i)) + (if ret = None then 0 else 1)"
      using r(2) by (simp add: cb malloc_result_def slab_added_def)
    show "?ar = ar2\<lparr>ar_bins := (ar_bins ?car)[i :=
        b2\<lparr>bin_stats := (bin_stats b2)\<lparr>bs_curregs := bs_curregs (bin_stats b2) + of_nat ?m\<rparr>\<rparr>]\<rparr>"
      by (simp add: counted_def bins)
    show "\<forall>f. ?s = Some f \<longrightarrow> slab_ok i ?bi (ar_mem ar1 f) \<and> slab_used ?bi (ar_mem ar1 f) = {}
        \<and> (\<forall>j<SC_NBINS. f \<notin> own j \<and> (\<forall>b\<in>own j.
            slab_pages ?bi (ar_mem ar1 f) \<inter> slab_pages (bin_boot d ! j) (ar_mem ?car b) = {}))"
      using a1(7) by (simp add: counted_def)
  qed (use a1(2,4,6) r(3) in \<open>simp_all add: counted_def\<close>)
  moreover have "\<forall>a\<in>own i. nfree_at ar a = 0" if "ret = None"
  proof
    fix a assume a: "a \<in> own i"
    have "\<forall>a\<in>own i \<union> set_option ?s. nfree_at ar1 a = 0" using r(2) that by (simp add: malloc_result_def)
    with a have "nfree_at ar1 a = 0" by blast
    then show "nfree_at ar a = 0" using agree [OF assms(3)] a by simp
  qed
  moreover have "pages_kept d ar ar2 own"
    using kept [of own] agree by (simp add: pages_kept_def)
  moreover have "\<forall>f e. slab_answer src = Some (f, e) \<longrightarrow> slab_pages ?bi (ar_mem ar2 f) = slab_pages ?bi e"
  proof (intro allI impI)
    fix f e assume fe: "slab_answer src = Some (f, e)"
    then have "slab_pages ?bi (ar_mem ar1 f) = slab_pages ?bi e" using a1(7) by (simp add: source_slab_def)
    then show "slab_pages ?bi (ar_mem ar2 f) = slab_pages ?bi e"
      using kept [of "\<lambda>_. {f}"] assms(3) by (simp add: pages_kept_def)
  qed
  ultimately show ?thesis using r(1,3) a1(1) bins unfolding live by (cases ret) auto
qed

text \<open>The operations of the arena.\<close>

lemma arena_begin:
  assumes "table_inv d" "arena_inv d k ar own L" "i < SC_NBINS"
  shows "(\<exists>p ar'. arena_malloc_small_begin (bin_boot d) ar i = Some (Done (Some p), ar')
      \<and> arena_inv d k ar' own (L(i := insert p (L i))) \<and> p \<notin> L i)
    \<or> (\<exists>ar'. arena_malloc_small_begin (bin_boot d) ar i = Some (Wait, ar')
      \<and> arena_inv d k ar' own L \<and> (\<forall>a\<in>own i. nfree_at ar a = 0))"
proof -
  note bt = bin_of_table [OF assms(1,3)]
  have len: "length (ar_bins ar) = SC_NBINS" using assms(2) by (simp add: arena_inv_def)
  have rd: "read_at (ar_bins ar) i = Some (ar_bins ar ! i)" "read_at (bin_boot d) i = Some (bin_boot d ! i)"
    using len assms(3) bt(1) by simp_all
  have inv: "arena_inv d k (counted ar i (ar_bins ar ! i) 0) own L" using assms(2) by (simp add: counted_0)
  from begin_counted [OF assms(1) inv assms(3)] show ?thesis
  proof (elim disjE exE conjE, goal_cases)
    case (1 p ar' b')
    have "arena_malloc_small_begin (bin_boot d) ar i =
        Some (Done (Some p), ar'\<lparr>ar_bins := (ar_bins ar')[i := malloc_small_stats (Some p) b']\<rparr>)"
      using 1 rd len assms(3) by (simp add: arena_malloc_small_begin_def)
    moreover have "arena_inv d k (ar'\<lparr>ar_bins := (ar_bins ar')[i := malloc_small_stats (Some p) b']\<rparr>) own (L(i := insert p (L i)))"
      by (rule counted_malloc_stats [OF 1(2)])
    ultimately show ?case using 1 by blast
  next
    case (2 b')
    have e: "counted ar i b' 0 = ar\<lparr>ar_bins := (ar_bins ar)[i := b']\<rparr>" by (simp add: counted_def)
    show ?case using 2(1-3) rd len assms(3) unfolding e by (simp add: arena_malloc_small_begin_def)
  qed
qed

lemma arena_end:
  assumes "table_inv d" "arena_inv d k ar own L" "i < SC_NBINS" "fresh_source d ar own i src"
  shows "\<exists>ret ar'. arena_malloc_small_end (bin_boot d) src ar i = Some (ret, ar')
    \<and> arena_inv d k ar' (own(i := live_slabs (bin_boot d ! i) ar' (own i \<union> set_option (source_slab src))))
        (case ret of None \<Rightarrow> L | Some p \<Rightarrow> L(i := insert p (L i)))
    \<and> (case ret of None \<Rightarrow> source_slab src = None \<and> (\<forall>a\<in>own i. nfree_at ar a = 0) | Some p \<Rightarrow> p \<notin> L i)"
proof -
  note bt = bin_of_table [OF assms(1,3)]
  have len: "length (ar_bins ar) = SC_NBINS" using assms(2) by (simp add: arena_inv_def)
  have rd: "read_at (ar_bins ar) i = Some (ar_bins ar ! i)" "read_at (bin_boot d) i = Some (bin_boot d ! i)"
    using len assms(3) bt(1) by simp_all
  have inv: "arena_inv d k (counted ar i (ar_bins ar ! i) 0) own L" using assms(2) by (simp add: counted_0)
  from end_counted [OF assms(1) inv assms(3,4)] obtain ret ar1 ar2 b2 where
    e: "arena_slab_alloc (bin_boot d ! i) ar src = Some (source_slab src, ar1)"
      "bin_malloc_end (bin_boot d ! i) ar1 (ar_bins ar ! i) (source_slab src) = Some (ret, ar2, b2)"
      "arena_inv d k (counted ar2 i b2 (if ret = None then 0 else 1))
        (own(i := live_slabs (bin_boot d ! i) ar2 (own i \<union> set_option (source_slab src))))
        (case ret of None \<Rightarrow> L | Some p \<Rightarrow> L(i := insert p (L i)))"
      "case ret of None \<Rightarrow> source_slab src = None \<and> (\<forall>a\<in>own i. nfree_at ar a = 0) | Some p \<Rightarrow> p \<notin> L i"
      "ar_bins ar2 = ar_bins ar" by auto
  let ?ar = "ar2\<lparr>ar_bins := (ar_bins ar2)[i := malloc_small_stats ret b2]\<rparr>"
  have "arena_malloc_small_end (bin_boot d) src ar i = Some (ret, ?ar)"
    using e(1,2,5) rd len assms(3) by (simp add: arena_malloc_small_end_def)
  moreover have "arena_inv d k ?ar
      (own(i := live_slabs (bin_boot d ! i) ar2 (own i \<union> set_option (source_slab src))))
      (case ret of None \<Rightarrow> L | Some p \<Rightarrow> L(i := insert p (L i)))"
  proof (cases ret)
    case None
    then show ?thesis using e(3) by (simp add: malloc_small_stats_def counted_def del: fun_upd_apply)
  next
    case (Some p)
    then show ?thesis using e(3) counted_malloc_stats [of d k ar2 i b2 _ _ p] by simp
  qed
  moreover have "live_slabs (bin_boot d ! i) ?ar A = live_slabs (bin_boot d ! i) ar2 A" for A
    by (simp add: live_slabs_def)
  ultimately show ?thesis using e(4) by (simp del: fun_upd_apply)
qed

text \<open>An allocation without another thread in between, on a bin that the caller holds.\<close>

lemma malloc_counted:
  assumes "table_inv d" "arena_inv d k (counted ar i b m) own L" "i < SC_NBINS" "fresh_source d ar own i src"
  shows "\<exists>ret ar' b' own'. bin_malloc (bin_boot d ! i) src ar b = Some (ret, ar', b')
    \<and> arena_inv d k (counted ar' i b' (m + (if ret = None then 0 else 1))) own'
        (case ret of None \<Rightarrow> L | Some p \<Rightarrow> L(i := insert p (L i)))
    \<and> (case ret of None \<Rightarrow> slab_answer src = None | Some p \<Rightarrow> p \<notin> L i)
    \<and> ar_bins ar' = ar_bins ar \<and> pages_kept d ar ar' own
    \<and> (\<forall>j. j \<noteq> i \<longrightarrow> own' j = own j) \<and> own' i \<subseteq> own i \<union> set_option (source_slab src)
    \<and> (\<forall>f e. slab_answer src = Some (f, e) \<and> f \<in> own' i \<longrightarrow> slab_pages (bin_boot d ! i) (ar_mem ar' f) = slab_pages (bin_boot d ! i) e)"
  using begin_counted [OF assms(1-3)]
proof (elim disjE exE conjE, goal_cases)
  case (1 p ar' b')
  have own: "f \<notin> own i" if "slab_answer src = Some (f, e)" for f e
    using assms(3,4) that by (auto simp: fresh_source_def)
  show ?case
    by (rule exI [of _ "Some p"], rule exI [of _ ar'], rule exI [of _ b'], rule exI [of _ own])
      (use 1 own in \<open>auto simp: bin_malloc_def simp del: fun_upd_apply\<close>)
next
  case (2 b')
  let ?own = "\<lambda>ar'. own(i := live_slabs (bin_boot d ! i) ar' (own i \<union> set_option (source_slab src)))"
  from end_counted [OF assms(1) 2(2) assms(3,4)] obtain ret ar1 ar' b'' where
    e: "arena_slab_alloc (bin_boot d ! i) ar src = Some (source_slab src, ar1)"
      "bin_malloc_end (bin_boot d ! i) ar1 b' (source_slab src) = Some (ret, ar', b'')"
      "arena_inv d k (counted ar' i b'' (m + (if ret = None then 0 else 1))) (?own ar')
        (case ret of None \<Rightarrow> L | Some p \<Rightarrow> L(i := insert p (L i)))"
      "case ret of None \<Rightarrow> source_slab src = None \<and> (\<forall>a\<in>own i. nfree_at ar a = 0) | Some p \<Rightarrow> p \<notin> L i"
      "ar_bins ar' = ar_bins ar" "pages_kept d ar ar' own"
      "\<forall>f e. slab_answer src = Some (f, e) \<longrightarrow> slab_pages (bin_boot d ! i) (ar_mem ar' f) = slab_pages (bin_boot d ! i) e"
    by blast
  have "bin_malloc (bin_boot d ! i) src ar b = Some (ret, ar', b'')" using 2(1) e(1,2) by (simp add: bin_malloc_def)
  moreover have "case ret of None \<Rightarrow> slab_answer src = None | Some p \<Rightarrow> p \<notin> L i"
    using e(4) by (cases ret) (simp_all add: source_slab_def)
  moreover have "?own ar' i \<subseteq> own i \<union> set_option (source_slab src)" by (auto simp: live_slabs_def)
  ultimately show ?case using e(3,5-7) by (intro exI conjI) (assumption | simp)+
qed

lemma arena_dalloc:
  assumes "table_inv d" "arena_inv d k ar own L" "i < SC_NBINS" "p \<in> L i" "iealloc_ok d ar own iealloc"
  shows "\<exists>ar'. arena_dalloc_small (bin_boot d) (arena_boot_div d) iealloc ar p = Some ar'
    \<and> arena_inv d k ar' (own(i := live_slabs (bin_boot d ! i) ar' (own i))) (L(i := L i - {p}))
    \<and> pages_kept d ar ar' own"
proof -
  note bt = bin_of_table [OF assms(1,3)] and inv = assms(2) [unfolded arena_inv_def]
  let ?bi = "bin_boot d ! i" and ?b = "ar_bins ar ! i"
  have core: "bin_core i ?bi ar ?b (own i)" using inv assms(3) by blast
  have rd: "read_at (ar_bins ar) i = Some ?b" "read_at (bin_boot d) i = Some ?bi"
    "read_at (arena_boot_div d) i = Some (arena_boot_div d ! i)" "length (ar_bins ar) = SC_NBINS"
    using inv assms(3) bt(1,2) by simp_all
  obtain a where a: "a \<in> own i" "p \<in> slab_used ?bi (ar_mem ar a)" using inv assms(3,4) by auto
  have ok: "slab_ok i ?bi (ar_mem ar a)" using core a(1) by (simp add: bin_core_def)
  have pg: "unat p \<in> slab_pages ?bi (ar_mem ar a)" using slab_okD(4) [OF ok bt(3)] a(2) by blast
  have ie: "iealloc p = a" using assms(3,5) a(1) pg by (simp add: iealloc_ok_def)
  from slab_dalloc [OF bt(3) ok a(2) rd(2,3)] obtain e where
    e: "arena_slab_reg_dalloc (bin_boot d) (arena_boot_div d) (ar_mem ar a) p = Some e"
      "slab_used ?bi e = slab_used ?bi (ar_mem ar a) - {p}" "slab_ok i ?bi e" "same_slab (ar_mem ar a) e" by blast
  let ?ar1 = "ar\<lparr>ar_mem := (ar_mem ar)(a := e)\<rparr>"
  from dalloc_move_result [OF bt(3) rd(2) core a e(4,3,2) refl] obtain ar2 b2 where
    r: "arena_dalloc_bin_move (bin_boot d) ?bi ?ar1 a ?b = Some (ar2, b2)"
      "bin_core i ?bi ar2 b2 (live_slabs ?bi ?ar1 (own i))"
      "\<forall>k. bin_accounts ?ar1 ?b (own i) k \<longrightarrow> bin_accounts ar2 b2 (live_slabs ?bi ?ar1 (own i)) k"
      "bs_curregs (bin_stats b2) = bs_curregs (bin_stats ?b)"
      "ar_active ar2 = ar_active ?ar1 - (own i - live_slabs ?bi ?ar1 (own i))"
      "ar_mem ar2 = ar_mem ?ar1" "ar_auto ar2 = ar_auto ?ar1" "ar_bins ar2 = ar_bins ?ar1" by blast
  let ?b3 = "b2\<lparr>bin_stats := (bin_stats b2)\<lparr>bs_ndalloc := bs_ndalloc (bin_stats b2) + 1,
      bs_curregs := bs_curregs (bin_stats b2) - 1\<rparr>\<rparr>"
  let ?ar3 = "ar2\<lparr>ar_bins := (ar_bins ar)[i := ?b3]\<rparr>"
  have mem3: "ar_mem ?ar3 = (ar_mem ar)(a := e)" using r(6) by simp
  have live: "live_slabs ?bi ?ar1 (own i) = live_slabs ?bi ?ar3 (own i)" by (simp add: live_slabs_def r(6))
  have fin: "finite (L i)" using card_live_finite [OF bt(3) core] inv assms(3) by simp
  have other: "p \<notin> slab_used ?bi (ar_mem ar c)" if "c \<in> own i" "c \<noteq> a" for c
  proof -
    have "slab_pages ?bi (ar_mem ar a) \<inter> slab_pages ?bi (ar_mem ar c) = {}"
      using inv assms(3) a(1) that by (simp add: slabs_disjoint_def)
    from regions_apart [OF bt(3) ok _ this] core that(1) a(2) show ?thesis by (auto simp: bin_core_def)
  qed
  have "arena_inv d k ?ar3 (own(i := live_slabs ?bi ?ar3 (own i))) (L(i := L i - {p}))"
  proof (rule arena_step [OF assms(2,3), of _ None])
    show "live_slabs ?bi ?ar3 (own i) \<subseteq> own i \<union> set_option None" by (auto simp: live_slabs_def)
    show "\<forall>j<SC_NBINS. j \<noteq> i \<longrightarrow> (\<forall>c\<in>own j. ar_mem ?ar3 c = ar_mem ar c)"
    proof (intro allI impI ballI)
      fix j c assume j: "j < SC_NBINS" "j \<noteq> i" "c \<in> own j"
      have "slab_ok j (bin_boot d ! j) (ar_mem ar c)" using inv j(1,3) by (auto simp: bin_core_def)
      then have "c \<noteq> a" using ok j(2) by (auto simp: slab_ok_def slab_inv_def)
      then show "ar_mem ?ar3 c = ar_mem ar c" unfolding mem3 by simp
    qed
    show "\<forall>c\<in>own i. slab_pages ?bi (ar_mem ?ar3 c) = slab_pages ?bi (ar_mem ar c)"
      unfolding mem3 using same_slab_pages [OF e(4)] by simp
    show "bin_core i ?bi ?ar3 ?b3 (live_slabs ?bi ?ar3 (own i))" using r(2) unfolding live by simp
    show "bin_accounts ?ar3 ?b3 (live_slabs ?bi ?ar3 (own i)) k" if acc: "bin_accounts ar ?b (own i) k" for k
    proof -
      have "bin_accounts ?ar1 ?b (own i) k" by (rule bin_accounts_taken [OF acc e(4) refl])
      with r(3) have "bin_accounts ar2 b2 (live_slabs ?bi ?ar3 (own i)) k" unfolding live by blast
      then show ?thesis by (rule bin_accounts_cong) simp_all
    qed
    have "0 < card (L i)" using fin assms(4) by (auto simp: card_gt_0_iff)
    then show "bs_curregs (bin_stats ?b3) = of_nat (card (L i - {p}))"
      using inv assms(3,4) r(4) fin by simp
    have "(\<Union>c\<in>live_slabs ?bi ?ar3 (own i). slab_used ?bi (ar_mem ?ar3 c)) = (\<Union>c\<in>own i. slab_used ?bi (ar_mem ?ar3 c))"
      by (auto simp: live_slabs_def)
    also have "\<dots> = (\<Union>c\<in>own i. slab_used ?bi (ar_mem ar c)) - {p}"
      unfolding mem3 using e(2) other by (auto split: if_splits)
    finally show "L i - {p} = (\<Union>c\<in>live_slabs ?bi ?ar3 (own i). slab_used ?bi (ar_mem ?ar3 c))"
      using inv assms(3) by simp
    show "ar_active ?ar3 = ar_active ar - own i \<union> live_slabs ?bi ?ar3 (own i)"
      using r(5) own_slab(2) [OF assms(2,3)] unfolding live by (auto simp: live_slabs_def)
  qed (use r(7) in simp_all)
  moreover have "arena_dalloc_small (bin_boot d) (arena_boot_div d) iealloc ar p = Some ?ar3"
    using r(1,8) e(1) rd assms(3) slab_okD(3) [OF ok bt(3)]
    by (simp add: arena_dalloc_small_def arena_dalloc_bin_locked_impl_def ie Let_def)
  moreover have "pages_kept d ar ?ar3 own"
    unfolding pages_kept_def mem3 using same_slab_pages [OF e(4)] by simp
  ultimately show ?thesis by blast
qed

section \<open>Every state of the arena\<close>

text \<open>The slabs of bin \<open>i\<close>: the active ones with its index.\<close>

definition own_of :: "arena \<Rightarrow> nat \<Rightarrow> 64 word set" where
  "own_of ar i = {a \<in> ar_active ar. unat (extent_szind_get (ar_mem ar a)) = i}"

lemma own_of_inv:
  assumes "arena_inv d k ar own L"
  shows "i < SC_NBINS \<Longrightarrow> own_of ar i = own i" "arena_inv d k ar (own_of ar) L"
proof -
  have act: "ar_active ar = (\<Union>i<SC_NBINS. own i)" using assms by (simp add: arena_inv_def)
  show eq: "own_of ar i = own i" if "i < SC_NBINS" for i
    using own_slab(1) [OF assms] that unfolding own_of_def act by blast
  then show "arena_inv d k ar (own_of ar) L"
    using assms by (simp add: arena_inv_def slabs_disjoint_def)
qed

text \<open>
  The operations of any number of threads on the bins, one lock section after the other. A thread
  that has to wait for a slab goes on at any later time, with a slab that is in use nowhere.
\<close>

inductive arena_run ::
  "sc_data_t \<Rightarrow> bool \<Rightarrow> (64 word \<Rightarrow> extent) \<Rightarrow> size_t \<Rightarrow> arena \<Rightarrow> (nat \<Rightarrow> 64 word set) \<Rightarrow> bool"
  for d auto mem k where
  start: "arena_run d auto mem k (arena_bins_init auto mem k) (\<lambda>_. {})"
| served: "arena_run d auto mem k ar L \<Longrightarrow> i < SC_NBINS \<Longrightarrow>
    arena_malloc_small_begin (bin_boot d) ar i = Some (Done (Some p), ar') \<Longrightarrow>
    arena_run d auto mem k ar' (L(i := insert p (L i)))"
| waits: "arena_run d auto mem k ar L \<Longrightarrow> i < SC_NBINS \<Longrightarrow>
    arena_malloc_small_begin (bin_boot d) ar i = Some (Wait, ar') \<Longrightarrow> arena_run d auto mem k ar' L"
| goes_on: "arena_run d auto mem k ar L \<Longrightarrow> i < SC_NBINS \<Longrightarrow> fresh_source d ar (own_of ar) i src \<Longrightarrow>
    arena_malloc_small_end (bin_boot d) src ar i = Some (ret, ar') \<Longrightarrow>
    arena_run d auto mem k ar' (case ret of None \<Rightarrow> L | Some p \<Rightarrow> L(i := insert p (L i)))"
| dalloc: "arena_run d auto mem k ar L \<Longrightarrow> i < SC_NBINS \<Longrightarrow> p \<in> L i \<Longrightarrow>
    iealloc_ok d ar (own_of ar) iealloc \<Longrightarrow>
    arena_dalloc_small (bin_boot d) (arena_boot_div d) iealloc ar p = Some ar' \<Longrightarrow>
    arena_run d auto mem k ar' (L(i := L i - {p}))"

lemma arena_run_inv:
  assumes "arena_run d auto mem k ar L" "table_inv d"
  shows "arena_inv d k ar (own_of ar) L"
  using assms(1)
proof induction
  case start
  show ?case by (rule own_of_inv(2) [OF arena_inv_init])
next
  case (served ar L i p ar')
  from arena_begin [OF assms(2) served.IH served.hyps(2)] served.hyps(3)
  have "arena_inv d k ar' (own_of ar) (L(i := insert p (L i)))" by (auto simp del: fun_upd_apply)
  then show ?case by (rule own_of_inv(2))
next
  case (waits ar L i ar')
  from arena_begin [OF assms(2) waits.IH waits.hyps(2)] waits.hyps(3)
  have "arena_inv d k ar' (own_of ar) L" by (auto simp del: fun_upd_apply)
  then show ?case by (rule own_of_inv(2))
next
  case (goes_on ar L i src ret ar')
  from arena_end [OF assms(2) goes_on.IH goes_on.hyps(2,3)] goes_on.hyps(4) obtain own' where
    "arena_inv d k ar' own' (case ret of None \<Rightarrow> L | Some p \<Rightarrow> L(i := insert p (L i)))"
    by (auto simp del: fun_upd_apply)
  then show ?case by (rule own_of_inv(2))
next
  case (dalloc ar L i p iealloc ar')
  from arena_dalloc [OF assms(2) dalloc.IH dalloc.hyps(2-4)] dalloc.hyps(5) obtain own' where
    "arena_inv d k ar' own' (L(i := L i - {p}))" by (auto simp del: fun_upd_apply)
  then show ?case by (rule own_of_inv(2))
qed

lemma used_region:
  assumes "bin_ok bi dv r n" "slab_ok i bi e" "p \<in> slab_used bi e"
  shows "{unat p..<unat p + r} \<subseteq> slab_pages bi e"
    "q \<in> slab_used bi e \<Longrightarrow> p = q \<or> unat p + r \<le> unat q \<or> unat q + r \<le> unat p"
proof -
  note n = bin_ok_nregs [OF assms(1)] and fits = slab_okD(6) [OF assms(2,1)]
  have region: "\<exists>b<n. p = region bi e b \<and> unat p = unat (extent_addr_get e) + b * r" if "p \<in> slab_used bi e" for p
    using that unat_region(1) [OF assms(1) fits] by (auto simp: slab_used_def n bitmap_used_def)
  have le: "j * r + r \<le> k * r" if "j < k" for j k
    using mult_le_mono1 [of "j + 1" k r] that by simp
  from region [OF assms(3)] obtain b where b: "b < n" "p = region bi e b" "unat p = unat (extent_addr_get e) + b * r"
    by blast
  have "n * r \<le> unat (bin_slab_size bi)" using assms(1) by (simp add: bin_ok_def)
  with le [OF b(1)] have "b * r + r \<le> unat (bin_slab_size bi)" by linarith
  then show "{unat p..<unat p + r} \<subseteq> slab_pages bi e" by (auto simp: slab_pages_def b(3))
  show "p = q \<or> unat p + r \<le> unat q \<or> unat q + r \<le> unat p" if q: "q \<in> slab_used bi e"
  proof -
    from region [OF q] obtain c where c: "c < n" "q = region bi e c" "unat q = unat (extent_addr_get e) + c * r"
      by blast
    show ?thesis
      using b c le [of b c] le [of c b] by (cases b c rule: linorder_cases) auto
  qed
qed

lemma live_regions_apart:
  assumes "table_inv d" "arena_inv d k ar own L" "i < SC_NBINS" "j < SC_NBINS" "p \<in> L i" "q \<in> L j"
  shows "i = j \<and> p = q \<or> unat p + class_size i \<le> unat q \<or> unat q + class_size j \<le> unat p"
proof -
  note inv = assms(2) [unfolded arena_inv_def]
  let ?bi = "bin_boot d ! i" and ?bj = "bin_boot d ! j"
  obtain a where a: "a \<in> own i" "p \<in> slab_used ?bi (ar_mem ar a)" using inv assms(3,5) by auto
  obtain b where b: "b \<in> own j" "q \<in> slab_used ?bj (ar_mem ar b)" using inv assms(4,6) by auto
  have ok: "slab_ok i ?bi (ar_mem ar a)" "slab_ok j ?bj (ar_mem ar b)"
    using inv assms(3,4) a(1) b(1) by (auto simp: bin_core_def)
  note bi = bin_of_table(3) [OF assms(1,3)] and bj = bin_of_table(3) [OF assms(1,4)]
  show ?thesis
  proof (cases "a = b")
    case True
    with ok have "i = j" by (simp add: slab_ok_def slab_inv_def)
    with True used_region(2) [OF bi ok(1) a(2)] b(2) show ?thesis by blast
  next
    case False
    then have "slab_pages ?bi (ar_mem ar a) \<inter> slab_pages ?bj (ar_mem ar b) = {}"
      using inv assms(3,4) a(1) b(1) by (simp add: slabs_disjoint_def)
    with used_region(1) [OF bi ok(1) a(2)] used_region(1) [OF bj ok(2) b(2)]
    have d: "{unat p..<unat p + class_size i} \<inter> {unat q..<unat q + class_size j} = {}" by blast
    moreover have "0 < class_size i" "0 < class_size j" using bi bj by (simp_all add: bin_ok_def)
    ultimately show ?thesis by auto
  qed
qed

lemma fresh_pointer:
  assumes "table_inv d" "arena_inv d k ar' own' (L(i := insert p (L i)))" "i < SC_NBINS" "p \<notin> L i" "j < SC_NBINS"
  shows "p \<notin> L j"
proof
  assume p: "p \<in> L j"
  with assms(4) have "i \<noteq> j" by blast
  moreover have "0 < class_size i" "0 < class_size j"
    using bin_of_table(3) [OF assms(1,3)] bin_of_table(3) [OF assms(1,5)] by (simp_all add: bin_ok_def)
  ultimately show False using p live_regions_apart [OF assms(1,2,3,5), of p p] by simp
qed

section \<open>Properties\<close>

text \<open>C4: small allocation. In every state that the threads reach, by any interleaving of their lock
  sections: the regions that the application holds are disjoint, over all bins; an allocation
  either returns a pointer that is not in use, or has to wait, and that only when every slab of the
  bin is full; when it goes on, it returns a pointer not in use, or \<open>NULL\<close> if no slab could be had
  and every slab of the bin is still full; and every pointer in use can be freed.\<close>

theorem arena_small_correct:
  assumes "d = foldl (\<lambda>d (b, e, p). sc_data_update_slab_size d b e p)
      (the (sc_data_init sc_data_global)) updates"
    and "arena_run d auto mem k ar L"
  shows "(\<forall>i<SC_NBINS. \<forall>j<SC_NBINS. \<forall>p\<in>L i. \<forall>q\<in>L j. i = j \<and> p = q
        \<or> unat p + class_size i \<le> unat q \<or> unat q + class_size j \<le> unat p)
    \<and> (\<forall>i<SC_NBINS.
        (\<exists>p ar'. arena_malloc_small_begin (bin_boot d) ar i = Some (Done (Some p), ar') \<and> (\<forall>j<SC_NBINS. p \<notin> L j))
        \<or> (\<exists>ar'. arena_malloc_small_begin (bin_boot d) ar i = Some (Wait, ar') \<and> (\<forall>a\<in>own_of ar i. nfree_at ar a = 0)))
    \<and> (\<forall>i<SC_NBINS. \<forall>src. fresh_source d ar (own_of ar) i src \<longrightarrow>
        (\<exists>ret ar'. arena_malloc_small_end (bin_boot d) src ar i = Some (ret, ar')
          \<and> (case ret of None \<Rightarrow> slab_answer src = None \<and> (\<forall>a\<in>own_of ar i. nfree_at ar a = 0)
             | Some p \<Rightarrow> \<forall>j<SC_NBINS. p \<notin> L j)))
    \<and> (\<forall>i<SC_NBINS. \<forall>p\<in>L i. \<forall>iealloc. iealloc_ok d ar (own_of ar) iealloc \<longrightarrow>
        (\<exists>ar'. arena_dalloc_small (bin_boot d) (arena_boot_div d) iealloc ar p = Some ar'))"
proof (intro conjI allI impI)
  have t: "table_inv d" unfolding assms(1) by (rule table_inv_updates)
  note inv = arena_run_inv [OF assms(2) t]
  fix i assume i: "i < SC_NBINS"
  show "\<forall>p\<in>L i. \<forall>q\<in>L j. i = j \<and> p = q \<or> unat p + class_size i \<le> unat q \<or> unat q + class_size j \<le> unat p"
    if "j < SC_NBINS" for j
    using live_regions_apart [OF t inv i that] by blast
  show "(\<exists>p ar'. arena_malloc_small_begin (bin_boot d) ar i = Some (Done (Some p), ar') \<and> (\<forall>j<SC_NBINS. p \<notin> L j))
      \<or> (\<exists>ar'. arena_malloc_small_begin (bin_boot d) ar i = Some (Wait, ar') \<and> (\<forall>a\<in>own_of ar i. nfree_at ar a = 0))"
    using arena_begin [OF t inv i] fresh_pointer [OF t _ i] by blast
  show "\<forall>p\<in>L i. \<forall>iealloc. iealloc_ok d ar (own_of ar) iealloc \<longrightarrow>
      (\<exists>ar'. arena_dalloc_small (bin_boot d) (arena_boot_div d) iealloc ar p = Some ar')"
    using arena_dalloc [OF t inv i] by blast
  fix src assume "fresh_source d ar (own_of ar) i src"
  from arena_end [OF t inv i this] obtain ret ar' where
    e: "arena_malloc_small_end (bin_boot d) src ar i = Some (ret, ar')"
      "arena_inv d k ar' ((own_of ar)(i := live_slabs (bin_boot d ! i) ar' (own_of ar i \<union> set_option (source_slab src))))
        (case ret of None \<Rightarrow> L | Some p \<Rightarrow> L(i := insert p (L i)))"
      "case ret of None \<Rightarrow> source_slab src = None \<and> (\<forall>a\<in>own_of ar i. nfree_at ar a = 0) | Some p \<Rightarrow> p \<notin> L i"
    by blast
  with fresh_pointer [OF t _ i] show "\<exists>ret ar'. arena_malloc_small_end (bin_boot d) src ar i = Some (ret, ar')
      \<and> (case ret of None \<Rightarrow> slab_answer src = None \<and> (\<forall>a\<in>own_of ar i. nfree_at ar a = 0)
         | Some p \<Rightarrow> \<forall>j<SC_NBINS. p \<notin> L j)"
    by (cases ret) (auto simp: source_slab_def)
qed

text \<open>The first allocation of an arena: it waits for a slab, and returns a pointer of it.\<close>

definition witness_source :: slab_source where
  "witness_source = \<lparr>src_dirty = None, src_may_have_muzzy = False, src_muzzy = None, src_hard = Some (7, witness_slab)\<rparr>"

theorem arena_small_correct_witness:
  "\<exists>ar p ar'. arena_malloc_small_begin (bin_boot (the (sc_data_init sc_data_global)))
        (arena_bins_init True (\<lambda>_. witness_slab) 0) 0 = Some (Wait, ar)
    \<and> arena_malloc_small_end (bin_boot (the (sc_data_init sc_data_global))) witness_source ar 0 = Some (Some p, ar')"
proof -
  let ?d = "the (sc_data_init sc_data_global)" and ?ar = "arena_bins_init True (\<lambda>_. witness_slab) 0"
  have n: "0 < SC_NBINS" by (simp add: sc_macro_values(3))
  have t: "table_inv ?d" using table_inv_updates [of "[]"] by simp
  note run = arena_run.start [of ?d True "\<lambda>_. witness_slab" 0]
  note c = arena_small_correct [of ?d "[]", simplified]
  have "(\<exists>p ar'. arena_malloc_small_begin (bin_boot ?d) ?ar 0 = Some (Done (Some p), ar'))
      \<or> (\<exists>ar'. arena_malloc_small_begin (bin_boot ?d) ?ar 0 = Some (Wait, ar'))"
    using c [OF run] n by blast
  moreover have b: "arena_malloc_small_begin (bin_boot ?d) ?ar 0 =
      Some (Wait, ?ar\<lparr>ar_bins := (ar_bins ?ar)[0 := bin_init]\<rparr>)"
    using n bin_of_table(1) [OF t n]
    by (simp add: arena_malloc_small_begin_def arena_bins_init_def bin_malloc_begin_def bin_init_def Let_def
        arena_bin_malloc_hard_begin_def arena_bin_slabs_nonfull_tryget_def ph_remove_first_def ph_merge_aux_def ph_new_def)
  ultimately obtain ar where w: "arena_malloc_small_begin (bin_boot ?d) ?ar 0 = Some (Wait, ar)" by auto
  have "ar_active ar = {}" using w b by (auto simp: arena_bins_init_def)
  note run' = arena_run.waits [OF run n w]
  have "unat (bin_slab_size (bin_boot ?d ! 0)) \<le> 2 ^ 64"
    using bin_of_table(3) [OF t n] by (simp add: bin_ok_def)
  then have "slab_extent ?d 0 witness_slab"
    by (simp add: slab_extent_def witness_slab_def extent_getters field_def extent_addr_get_def
        BITMAP_GROUPS_MAX_def BITMAP_MAXBITS_eq BITMAP_BITS2GROUPS_eq)
  then have "fresh_source ?d ar (own_of ar) 0 witness_source"
    using \<open>ar_active ar = {}\<close> by (simp add: fresh_source_def witness_source_def slab_answer_def own_of_def)
  from conjunct1 [OF conjunct2 [OF conjunct2 [OF c [OF run']]], rule_format, OF n this] obtain ret ar' where
    "arena_malloc_small_end (bin_boot ?d) witness_source ar 0 = Some (ret, ar')"
    "case ret of None \<Rightarrow> slab_answer witness_source = None \<and> (\<forall>a\<in>own_of ar 0. nfree_at ar a = 0)
      | Some p \<Rightarrow> \<forall>j<SC_NBINS. p \<notin> {}" by blast
  then have "\<exists>p. arena_malloc_small_end (bin_boot ?d) witness_source ar 0 = Some (Some p, ar')"
    by (cases ret) (simp_all add: witness_source_def slab_answer_def)
  with w show ?thesis by blast
qed



end
