(* ===== verification/Tcache.thy ===== *)
theory Tcache
  imports Arena_Bin Ticker
begin

text \<open>
  include/jemalloc/internal/cache_bin.h, src/tcache.c and tcache_inlines.h: the stack of cached
  pointers that a thread keeps for each size class, filled from a bin of its arena and flushed to
  the arenas of its pointers. The slots below \<open>avail\<close> are a list, in which \<open>*(avail - k)\<close> is the
  element \<open>k - 1\<close>; an access outside of the array gives \<open>None\<close>. The counts stay far below the
  range of their types and are integers, \<open>ncached\<close> and \<open>low_water\<close> signed as in the code.
\<close>

section \<open>Cache bins\<close>

record cache_bin =
  cb_low_water :: int
  cb_ncached :: int
  cb_nrequests :: uint64
  cb_avail :: "64 word list"

definition avail_read :: "64 word list \<Rightarrow> int \<Rightarrow> 64 word option" where
  "avail_read avail k = (if 0 < k then read_at avail (nat k - 1) else None)"

definition avail_write :: "64 word list \<Rightarrow> int \<Rightarrow> 64 word \<Rightarrow> 64 word list option" where
  "avail_write avail k p = (if 0 < k then write_at avail (nat k - 1) p else None)"

text \<open>\<open>memmove(avail - dst, avail - src, n * sizeof(void *))\<close>.\<close>

definition avail_memmove :: "nat \<Rightarrow> nat \<Rightarrow> nat \<Rightarrow> 64 word list \<Rightarrow> 64 word list option" where
  "avail_memmove dst src n avail =
     (if n \<le> dst \<and> n \<le> src \<and> dst \<le> length avail \<and> src \<le> length avail
      then Some (take (dst - n) avail @ take n (drop (src - n) avail) @ drop dst avail) else None)"

text \<open>The pointer, or \<open>None\<close> with \<open>*success = false\<close>.\<close>

definition cache_bin_alloc_easy :: "cache_bin \<Rightarrow> (64 word option \<times> cache_bin) option" where
  "cache_bin_alloc_easy bin =
     (let bin = bin\<lparr>cb_ncached := cb_ncached bin - 1\<rparr>;
          low = cb_ncached bin \<le> cb_low_water bin;
          bin = (if low then bin\<lparr>cb_low_water := cb_ncached bin\<rparr> else bin)
      in if low \<and> cb_ncached bin = - 1 then Some (None, bin\<lparr>cb_ncached := 0\<rparr>)
         else map_option (\<lambda>p. (Some p, bin)) (avail_read (cb_avail bin) (cb_ncached bin + 1)))"

text \<open>The push at the end of \<open>tcache_dalloc_small\<close> and \<open>tcache_dalloc_large\<close>.\<close>

definition cache_bin_push :: "64 word \<Rightarrow> cache_bin \<Rightarrow> cache_bin option" where
  "cache_bin_push ptr bin =
     (let n = cb_ncached bin + 1
      in map_option (\<lambda>avail. bin\<lparr>cb_ncached := n, cb_avail := avail\<rparr>) (avail_write (cb_avail bin) n ptr))"

section \<open>The caches of a thread\<close>

record tcache =
  tc_gc_ticker :: ticker
  tc_bins_small :: "cache_bin list"
  tc_next_gc_bin :: nat
  tc_lg_fill_div :: "nat list"
  tc_bins_large :: "cache_bin list"

text \<open>
  The memory behind the caches: the arenas, the extents that \<open>large_dalloc_finish\<close> was called on,
  in order, and the request counts of the large classes of each arena.
\<close>

record heap =
  hp_arenas :: "nat \<Rightarrow> arena"
  hp_large_freed :: "(64 word \<times> 64 word) list"
  hp_large_nrequests :: "nat \<Rightarrow> nat \<Rightarrow> uint64"

definition TCACHE_NSLOTS_SMALL_MIN :: "32 word" where "TCACHE_NSLOTS_SMALL_MIN = 20"
definition TCACHE_NSLOTS_SMALL_MAX :: "32 word" where "TCACHE_NSLOTS_SMALL_MAX = 200"
definition TCACHE_NSLOTS_LARGE :: nat where "TCACHE_NSLOTS_LARGE = 20"
definition TCACHE_GC_SWEEP :: nat where "TCACHE_GC_SWEEP = 8192"

definition TCACHE_GC_INCR :: nat where
  "TCACHE_GC_INCR = TCACHE_GC_SWEEP div SC_NBINS + (if TCACHE_GC_SWEEP div SC_NBINS = 0 then 0 else 1)"

text \<open>The number of slots of a small bin, from the number of its regions.\<close>

definition small_ncached_max :: "bin_info \<Rightarrow> nat" where
  "small_ncached_max bin_info =
     (let n = push_bit 1 (bin_nregs bin_info) in
      if n \<le> TCACHE_NSLOTS_SMALL_MIN then unat TCACHE_NSLOTS_SMALL_MIN
      else if n \<le> TCACHE_NSLOTS_SMALL_MAX then unat n
      else unat TCACHE_NSLOTS_SMALL_MAX)"

text \<open>\<open>tcache_boot\<close>, for \<open>nhbins\<close> classes: \<open>tcache_bin_info\<close> and \<open>stack_nelms\<close>.\<close>

definition tcache_bin_info :: "bin_info list \<Rightarrow> nat \<Rightarrow> nat list" where
  "tcache_bin_info bins nhbins =
     map small_ncached_max (take SC_NBINS bins) @ replicate (nhbins - SC_NBINS) TCACHE_NSLOTS_LARGE"

definition stack_nelms :: "bin_info list \<Rightarrow> nat \<Rightarrow> nat" where
  "stack_nelms bins nhbins = sum_list (tcache_bin_info bins nhbins)"

text \<open>The array of slots was allocated zeroed; each bin has its part of it.\<close>

definition cache_bin_init :: "nat \<Rightarrow> cache_bin" where
  "cache_bin_init ncached_max =
     \<lparr>cb_low_water = 0, cb_ncached = 0, cb_nrequests = 0, cb_avail = replicate ncached_max 0\<rparr>"

definition tcache_init :: "nat list \<Rightarrow> tcache" where
  "tcache_init info =
     \<lparr>tc_gc_ticker = ticker_init \<lparr>tk_tick = 0, tk_nticks = 0\<rparr> (of_nat TCACHE_GC_INCR),
      tc_bins_small = map cache_bin_init (take SC_NBINS info), tc_next_gc_bin = 0,
      tc_lg_fill_div = replicate SC_NBINS 1, tc_bins_large = map cache_bin_init (drop SC_NBINS info)\<rparr>"

section \<open>Filling\<close>

text \<open>
  The loop of \<open>arena_tcache_fill_small\<close>: for each of the \<open>nfill\<close> rounds the slab that it would get
  if it needed one.
\<close>

fun fill_loop ::
  "bin_info \<Rightarrow> slab_source list \<Rightarrow> nat \<Rightarrow> nat \<Rightarrow> arena \<Rightarrow> bin \<Rightarrow> 64 word list \<Rightarrow>
     (nat \<times> arena \<times> bin \<times> 64 word list) option" where
  "fill_loop bin_info [] nfill i ar bin avail = Some (i, ar, bin, avail)"
| "fill_loop bin_info (src # srcs) nfill i ar bin avail = do {
     (ptr, ar, bin) \<leftarrow> bin_malloc bin_info src ar bin;
     case ptr of
       None \<Rightarrow> do {
         avail \<leftarrow> (if 0 < i then avail_memmove i nfill i avail else Some avail);
         Some (i, ar, bin, avail)
       }
     | Some ptr \<Rightarrow> do {
         avail \<leftarrow> avail_write avail (int nfill - int i) ptr;
         fill_loop bin_info srcs nfill (Suc i) ar bin avail
       }
   }"

definition fill_stats :: "nat \<Rightarrow> uint64 \<Rightarrow> bin \<Rightarrow> bin" where
  "fill_stats i nrequests bin = bin\<lparr>bin_stats := (bin_stats bin)\<lparr>
     bs_nmalloc := bs_nmalloc (bin_stats bin) + of_nat i,
     bs_nrequests := bs_nrequests (bin_stats bin) + nrequests,
     bs_curregs := bs_curregs (bin_stats bin) + of_nat i,
     bs_nfills := bs_nfills (bin_stats bin) + 1\<rparr>\<rparr>"

text \<open>There is one source for each round, \<open>nfill\<close> in all.\<close>

definition arena_tcache_fill_small ::
  "bin_info list \<Rightarrow> slab_source list \<Rightarrow> arena \<Rightarrow> cache_bin \<Rightarrow> nat \<Rightarrow> (arena \<times> cache_bin) option" where
  "arena_tcache_fill_small bins srcs ar tbin binind = do {
     bin \<leftarrow> read_at (ar_bins ar) binind;
     bin_info \<leftarrow> read_at bins binind;
     (i, ar, bin, avail) \<leftarrow> fill_loop bin_info srcs (length srcs) 0 ar bin (cb_avail tbin);
     bs \<leftarrow> write_at (ar_bins ar) binind (fill_stats i (cb_nrequests tbin) bin);
     Some (ar\<lparr>ar_bins := bs\<rparr>, tbin\<lparr>cb_avail := avail, cb_nrequests := 0, cb_ncached := int i\<rparr>)
   }"

definition tcache_alloc_small_hard ::
  "bin_info list \<Rightarrow> slab_source list \<Rightarrow> arena \<Rightarrow> cache_bin \<Rightarrow> nat \<Rightarrow>
     (64 word option \<times> arena \<times> cache_bin) option" where
  "tcache_alloc_small_hard bins srcs ar tbin binind = do {
     (ar, tbin) \<leftarrow> arena_tcache_fill_small bins srcs ar tbin binind;
     (ret, tbin) \<leftarrow> cache_bin_alloc_easy tbin;
     Some (ret, ar, tbin)
   }"

section \<open>Flushing\<close>

text \<open>
  What the flushes look up: the boot-time tables, the extent of a pointer (\<open>iealloc\<close>), the arena
  of an extent (\<open>extent_arena_get\<close>), and the arena that the cache is associated with.
\<close>

record cache_env =
  ce_bins :: "bin_info list"
  ce_divs :: "div_info list"
  ce_info :: "nat list"
  ce_iealloc :: "64 word \<Rightarrow> 64 word"
  ce_arena_of :: "64 word \<Rightarrow> nat"
  ce_own :: nat

text \<open>The pointers of one pass, with their extents, are freed under the lock of one bin.\<close>

fun dalloc_all :: "cache_env \<Rightarrow> (64 word \<times> 64 word) list \<Rightarrow> arena \<Rightarrow> arena option" where
  "dalloc_all ce [] ar = Some ar"
| "dalloc_all ce ((ptr, extent) # items) ar = do {
     ar \<leftarrow> arena_dalloc_bin_locked_impl (ce_bins ce) (ce_divs ce) ar extent ptr;
     dalloc_all ce items ar
   }"

definition flush_stats :: "nat \<Rightarrow> uint64 \<Rightarrow> arena \<Rightarrow> arena option" where
  "flush_stats binind nrequests ar = do {
     bin \<leftarrow> read_at (ar_bins ar) binind;
     bs \<leftarrow> write_at (ar_bins ar) binind (bin\<lparr>bin_stats := (bin_stats bin)\<lparr>
             bs_nflushes := bs_nflushes (bin_stats bin) + 1,
             bs_nrequests := bs_nrequests (bin_stats bin) + nrequests\<rparr>\<rparr>);
     Some (ar\<lparr>ar_bins := bs\<rparr>)
   }"

text \<open>The pointers of other arenas than \<open>arena\<close> are stashed in the first slots for a later pass.\<close>

definition deferred :: "cache_env \<Rightarrow> nat \<Rightarrow> (64 word \<times> 64 word) list \<Rightarrow> (64 word \<times> 64 word) list" where
  "deferred ce arena items = filter (\<lambda>(ptr, extent). ce_arena_of ce extent \<noteq> arena) items"

definition handled :: "cache_env \<Rightarrow> nat \<Rightarrow> (64 word \<times> 64 word) list \<Rightarrow> (64 word \<times> 64 word) list" where
  "handled ce arena items = filter (\<lambda>(ptr, extent). ce_arena_of ce extent = arena) items"

definition stash :: "(64 word \<times> 64 word) list \<Rightarrow> cache_bin \<Rightarrow> cache_bin" where
  "stash items tbin = tbin\<lparr>cb_avail := map fst items @ drop (length items) (cb_avail tbin)\<rparr>"

lemma deferred_less: "length (deferred ce (ce_arena_of ce (snd (hd (x # xs)))) (x # xs)) < length (x # xs)"
  by (simp add: deferred_def case_prod_beta less_Suc_eq_le)

text \<open>One pass for each arena, the arena of the first pointer that is left.\<close>

function flush_small_loop ::
  "cache_env \<Rightarrow> nat \<Rightarrow> (64 word \<times> 64 word) list \<Rightarrow> (nat \<Rightarrow> arena) \<Rightarrow> cache_bin \<Rightarrow> bool \<Rightarrow>
     ((nat \<Rightarrow> arena) \<times> cache_bin \<times> bool) option" where
  "flush_small_loop ce binind [] arenas tbin merged_stats = Some (arenas, tbin, merged_stats)"
| "flush_small_loop ce binind (item # items) arenas tbin merged_stats =
     (let items = item # items; bin_arena = ce_arena_of ce (snd (hd items)) in do {
        (ar, tbin, merged_stats) \<leftarrow>
          (if bin_arena = ce_own ce then do {
             ar \<leftarrow> flush_stats binind (cb_nrequests tbin) (arenas bin_arena);
             Some (ar, tbin\<lparr>cb_nrequests := 0\<rparr>, True)
           } else Some (arenas bin_arena, tbin, merged_stats));
        ar \<leftarrow> dalloc_all ce (handled ce bin_arena items) ar;
        let left = deferred ce bin_arena items;
        flush_small_loop ce binind left (arenas(bin_arena := ar)) (stash left tbin) merged_stats
      })"
  by pat_completeness auto
termination
  by (relation "measure (\<lambda>(_, _, items, _). length items)") (use deferred_less in simp_all)

text \<open>The end of both flushes: the remaining pointers are moved down.\<close>

definition flush_rest :: "nat \<Rightarrow> cache_bin \<Rightarrow> cache_bin option" where
  "flush_rest rem tbin = do {
     avail \<leftarrow> avail_memmove rem (nat (cb_ncached tbin)) rem (cb_avail tbin);
     let tbin = tbin\<lparr>cb_avail := avail, cb_ncached := int rem\<rparr>;
     Some (if cb_ncached tbin < cb_low_water tbin then tbin\<lparr>cb_low_water := cb_ncached tbin\<rparr> else tbin)
   }"

definition flush_items :: "cache_env \<Rightarrow> nat \<Rightarrow> cache_bin \<Rightarrow> (64 word \<times> 64 word) list option" where
  "flush_items ce rem tbin =
     (let nflush = nat (cb_ncached tbin) - rem in
      if nflush \<le> length (cb_avail tbin)
      then Some (map (\<lambda>ptr. (ptr, ce_iealloc ce ptr)) (take nflush (cb_avail tbin))) else None)"

definition tcache_bin_flush_small ::
  "cache_env \<Rightarrow> nat \<Rightarrow> nat \<Rightarrow> heap \<Rightarrow> cache_bin \<Rightarrow> (heap \<times> cache_bin) option" where
  "tcache_bin_flush_small ce binind rem hp tbin = do {
     items \<leftarrow> flush_items ce rem tbin;
     (arenas, tbin, merged_stats) \<leftarrow> flush_small_loop ce binind items (hp_arenas hp) tbin False;
     (arenas, tbin) \<leftarrow>
       (if \<not> merged_stats then do {
          ar \<leftarrow> flush_stats binind (cb_nrequests tbin) (arenas (ce_own ce));
          Some (arenas(ce_own ce := ar), tbin\<lparr>cb_nrequests := 0\<rparr>)
        } else Some (arenas, tbin));
     tbin \<leftarrow> flush_rest rem tbin;
     Some (hp\<lparr>hp_arenas := arenas\<rparr>, tbin)
   }"

text \<open>The extents of the large classes go to \<open>large_dalloc_finish\<close>, which is not modelled.\<close>

definition large_stats :: "nat \<Rightarrow> nat \<Rightarrow> uint64 \<Rightarrow> heap \<Rightarrow> heap" where
  "large_stats arena binind nrequests hp =
     hp\<lparr>hp_large_nrequests := (hp_large_nrequests hp)(arena := (hp_large_nrequests hp arena)(binind :=
        hp_large_nrequests hp arena binind + nrequests))\<rparr>"

function flush_large_loop ::
  "cache_env \<Rightarrow> nat \<Rightarrow> (64 word \<times> 64 word) list \<Rightarrow> heap \<Rightarrow> cache_bin \<Rightarrow> bool \<Rightarrow> heap \<times> cache_bin \<times> bool" where
  "flush_large_loop ce binind [] hp tbin merged_stats = (hp, tbin, merged_stats)"
| "flush_large_loop ce binind (item # items) hp tbin merged_stats =
     (let items = item # items; locked_arena = ce_arena_of ce (snd (hd items));
          (hp, tbin, merged_stats) =
            (if locked_arena = ce_own ce
             then (large_stats locked_arena binind (cb_nrequests tbin) hp, tbin\<lparr>cb_nrequests := 0\<rparr>, True)
             else (hp, tbin, merged_stats));
          hp = hp\<lparr>hp_large_freed := hp_large_freed hp @ handled ce locked_arena items\<rparr>;
          left = deferred ce locked_arena items
      in flush_large_loop ce binind left hp (stash left tbin) merged_stats)"
  by pat_completeness auto
termination
  by (relation "measure (\<lambda>(_, _, items, _). length items)") (use deferred_less in simp_all)

definition tcache_bin_flush_large ::
  "cache_env \<Rightarrow> nat \<Rightarrow> nat \<Rightarrow> heap \<Rightarrow> cache_bin \<Rightarrow> (heap \<times> cache_bin) option" where
  "tcache_bin_flush_large ce binind rem hp tbin = do {
     items \<leftarrow> flush_items ce rem tbin;
     let (hp, tbin, merged_stats) = flush_large_loop ce binind items hp tbin False;
     let (hp, tbin) =
       (if \<not> merged_stats
        then (large_stats (ce_own ce) binind (cb_nrequests tbin) hp, tbin\<lparr>cb_nrequests := 0\<rparr>)
        else (hp, tbin));
     tbin \<leftarrow> flush_rest rem tbin;
     Some (hp, tbin)
   }"

section \<open>The operations of a thread\<close>

text \<open>The incremental collection: three quarters of what was not needed since the last one.\<close>

definition gc_small_bin ::
  "cache_env \<Rightarrow> nat \<Rightarrow> heap \<Rightarrow> cache_bin \<Rightarrow> nat \<Rightarrow> (heap \<times> cache_bin \<times> nat) option" where
  "gc_small_bin ce binind hp tbin lg_fill_div =
     (if 0 < cb_low_water tbin then do {
        (hp, tbin) \<leftarrow> tcache_bin_flush_small ce binind
          (nat (cb_ncached tbin - cb_low_water tbin + cb_low_water tbin div 4)) hp tbin;
        ncached_max \<leftarrow> read_at (ce_info ce) binind;
        Some (hp, tbin, if 1 \<le> ncached_max div 2 ^ (lg_fill_div + 1) then lg_fill_div + 1 else lg_fill_div)
      } else Some (hp, tbin, if cb_low_water tbin < 0 \<and> 1 < lg_fill_div then lg_fill_div - 1 else lg_fill_div))"

definition gc_large_bin :: "cache_env \<Rightarrow> nat \<Rightarrow> heap \<Rightarrow> cache_bin \<Rightarrow> (heap \<times> cache_bin) option" where
  "gc_large_bin ce binind hp tbin =
     (if 0 < cb_low_water tbin then
        tcache_bin_flush_large ce binind
          (nat (cb_ncached tbin - cb_low_water tbin + cb_low_water tbin div 4)) hp tbin
      else Some (hp, tbin))"

definition tcache_event_hard :: "cache_env \<Rightarrow> heap \<Rightarrow> tcache \<Rightarrow> (heap \<times> tcache) option" where
  "tcache_event_hard ce hp tc =
     (let binind = tc_next_gc_bin tc in do {
        (hp, tc) \<leftarrow>
          (if binind < SC_NBINS then do {
             tbin \<leftarrow> read_at (tc_bins_small tc) binind;
             lg \<leftarrow> read_at (tc_lg_fill_div tc) binind;
             (hp, tbin, lg) \<leftarrow> gc_small_bin ce binind hp tbin lg;
             bins \<leftarrow> write_at (tc_bins_small tc) binind (tbin\<lparr>cb_low_water := cb_ncached tbin\<rparr>);
             lgs \<leftarrow> write_at (tc_lg_fill_div tc) binind lg;
             Some (hp, tc\<lparr>tc_bins_small := bins, tc_lg_fill_div := lgs\<rparr>)
           } else do {
             tbin \<leftarrow> read_at (tc_bins_large tc) (binind - SC_NBINS);
             (hp, tbin) \<leftarrow> gc_large_bin ce binind hp tbin;
             bins \<leftarrow> write_at (tc_bins_large tc) (binind - SC_NBINS) (tbin\<lparr>cb_low_water := cb_ncached tbin\<rparr>);
             Some (hp, tc\<lparr>tc_bins_large := bins\<rparr>)
           });
        let next_gc_bin = binind + 1;
        Some (hp, tc\<lparr>tc_next_gc_bin := (if next_gc_bin = length (ce_info ce) then 0 else next_gc_bin)\<rparr>)
      })"

definition tcache_event :: "cache_env \<Rightarrow> heap \<Rightarrow> tcache \<Rightarrow> (heap \<times> tcache) option" where
  "tcache_event ce hp tc =
     (if TCACHE_GC_INCR = 0 then Some (hp, tc)
      else
        let (fired, ticker) = ticker_tick (tc_gc_ticker tc); tc = tc\<lparr>tc_gc_ticker := ticker\<rparr>
        in if fired then tcache_event_hard ce hp tc else Some (hp, tc))"

text \<open>
  \<open>arena\<close> is the answer of \<open>arena_choose\<close>, \<open>srcs\<close> the slabs that a fill would get. The pointer is
  \<open>None\<close> for \<open>NULL\<close>.
\<close>

definition tcache_alloc_small ::
  "cache_env \<Rightarrow> nat option \<Rightarrow> (nat \<Rightarrow> slab_source) \<Rightarrow> nat \<Rightarrow> heap \<Rightarrow> tcache \<Rightarrow>
     (64 word option \<times> heap \<times> tcache) option" where
  "tcache_alloc_small ce arena srcs binind hp tc = do {
     bin \<leftarrow> read_at (tc_bins_small tc) binind;
     (ret, bin) \<leftarrow> cache_bin_alloc_easy bin;
     (ret, hp, bin) \<leftarrow>
       (case ret of
          Some p \<Rightarrow> Some (ret, hp, bin)
        | None \<Rightarrow>
            (case arena of
               None \<Rightarrow> Some (None, hp, bin)
             | Some arena \<Rightarrow> do {
                 ncached_max \<leftarrow> read_at (ce_info ce) binind;
                 lg \<leftarrow> read_at (tc_lg_fill_div tc) binind;
                 (ret, ar, bin) \<leftarrow> tcache_alloc_small_hard (ce_bins ce)
                   (map srcs [0..<ncached_max div 2 ^ lg]) (hp_arenas hp arena) bin binind;
                 Some (ret, hp\<lparr>hp_arenas := (hp_arenas hp)(arena := ar)\<rparr>, bin)
               }));
     bins \<leftarrow> write_at (tc_bins_small tc) binind
       (if ret = None then bin else bin\<lparr>cb_nrequests := cb_nrequests bin + 1\<rparr>);
     let tc = tc\<lparr>tc_bins_small := bins\<rparr>;
     (if ret = None then Some (None, hp, tc)
      else do {
        (hp, tc) \<leftarrow> tcache_event ce hp tc;
        Some (ret, hp, tc)
      })
   }"

definition tcache_dalloc_small ::
  "cache_env \<Rightarrow> 64 word \<Rightarrow> nat \<Rightarrow> heap \<Rightarrow> tcache \<Rightarrow> (heap \<times> tcache) option" where
  "tcache_dalloc_small ce ptr binind hp tc = do {
     bin \<leftarrow> read_at (tc_bins_small tc) binind;
     ncached_max \<leftarrow> read_at (ce_info ce) binind;
     (hp, bin) \<leftarrow>
       (if cb_ncached bin = int ncached_max
        then tcache_bin_flush_small ce binind (ncached_max div 2) hp bin
        else Some (hp, bin));
     bin \<leftarrow> cache_bin_push ptr bin;
     bins \<leftarrow> write_at (tc_bins_small tc) binind bin;
     tcache_event ce hp (tc\<lparr>tc_bins_small := bins\<rparr>)
   }"

text \<open>The answer of \<open>large_malloc\<close> is an argument.\<close>

definition tcache_alloc_large ::
  "cache_env \<Rightarrow> nat option \<Rightarrow> 64 word option \<Rightarrow> nat \<Rightarrow> heap \<Rightarrow> tcache \<Rightarrow>
     (64 word option \<times> heap \<times> tcache) option" where
  "tcache_alloc_large ce arena large_malloc binind hp tc = do {
     bin \<leftarrow> read_at (tc_bins_large tc) (binind - SC_NBINS);
     (ret, bin) \<leftarrow> cache_bin_alloc_easy bin;
     let (ret, bin) =
       (case ret of
          Some p \<Rightarrow> (ret, bin\<lparr>cb_nrequests := cb_nrequests bin + 1\<rparr>)
        | None \<Rightarrow> (if arena = None then None else large_malloc, bin));
     bins \<leftarrow> write_at (tc_bins_large tc) (binind - SC_NBINS) bin;
     let tc = tc\<lparr>tc_bins_large := bins\<rparr>;
     (if ret = None then Some (None, hp, tc)
      else do {
        (hp, tc) \<leftarrow> tcache_event ce hp tc;
        Some (ret, hp, tc)
      })
   }"

definition tcache_dalloc_large ::
  "cache_env \<Rightarrow> 64 word \<Rightarrow> nat \<Rightarrow> heap \<Rightarrow> tcache \<Rightarrow> (heap \<times> tcache) option" where
  "tcache_dalloc_large ce ptr binind hp tc = do {
     bin \<leftarrow> read_at (tc_bins_large tc) (binind - SC_NBINS);
     ncached_max \<leftarrow> read_at (ce_info ce) binind;
     (hp, bin) \<leftarrow>
       (if cb_ncached bin = int ncached_max
        then tcache_bin_flush_large ce binind (ncached_max div 2) hp bin
        else Some (hp, bin));
     bin \<leftarrow> cache_bin_push ptr bin;
     bins \<leftarrow> write_at (tc_bins_large tc) (binind - SC_NBINS) bin;
     tcache_event ce hp (tc\<lparr>tc_bins_large := bins\<rparr>)
   }"

text \<open>\<open>tcache_flush_cache\<close>: every bin is emptied, in order.\<close>

fun flush_small_bins ::
  "cache_env \<Rightarrow> nat \<Rightarrow> cache_bin list \<Rightarrow> heap \<Rightarrow> (heap \<times> cache_bin list) option" where
  "flush_small_bins ce i [] hp = Some (hp, [])"
| "flush_small_bins ce i (tbin # tbins) hp = do {
     (hp, tbin) \<leftarrow> tcache_bin_flush_small ce i 0 hp tbin;
     (hp, tbins) \<leftarrow> flush_small_bins ce (Suc i) tbins hp;
     Some (hp, tbin # tbins)
   }"

fun flush_large_bins ::
  "cache_env \<Rightarrow> nat \<Rightarrow> cache_bin list \<Rightarrow> heap \<Rightarrow> (heap \<times> cache_bin list) option" where
  "flush_large_bins ce i [] hp = Some (hp, [])"
| "flush_large_bins ce i (tbin # tbins) hp = do {
     (hp, tbin) \<leftarrow> tcache_bin_flush_large ce i 0 hp tbin;
     (hp, tbins) \<leftarrow> flush_large_bins ce (Suc i) tbins hp;
     Some (hp, tbin # tbins)
   }"

definition tcache_flush_cache :: "cache_env \<Rightarrow> heap \<Rightarrow> tcache \<Rightarrow> (heap \<times> tcache) option" where
  "tcache_flush_cache ce hp tc = do {
     (hp, small) \<leftarrow> flush_small_bins ce 0 (tc_bins_small tc) hp;
     (hp, large) \<leftarrow> flush_large_bins ce SC_NBINS (tc_bins_large tc) hp;
     Some (hp, tc\<lparr>tc_bins_small := small, tc_bins_large := large\<rparr>)
   }"

section \<open>Cache bins are stacks\<close>

text \<open>The cached pointers, the next one last; \<open>m\<close> is the number of slots.\<close>

definition cached :: "cache_bin \<Rightarrow> 64 word list" where
  "cached bin = take (nat (cb_ncached bin)) (cb_avail bin)"

definition cache_bin_ok :: "nat \<Rightarrow> cache_bin \<Rightarrow> bool" where
  "cache_bin_ok m bin \<longleftrightarrow> length (cb_avail bin) = m \<and> 0 \<le> cb_ncached bin \<and> cb_ncached bin \<le> int m
     \<and> - 1 \<le> cb_low_water bin \<and> cb_low_water bin \<le> cb_ncached bin"

lemma length_cached: "cache_bin_ok m bin \<Longrightarrow> int (length (cached bin)) = cb_ncached bin"
  by (auto simp: cache_bin_ok_def cached_def)

lemma cached_nrequests [simp]: "cached (bin\<lparr>cb_nrequests := k\<rparr>) = cached bin"
  "cache_bin_ok m (bin\<lparr>cb_nrequests := k\<rparr>) = cache_bin_ok m bin"
  by (simp_all add: cached_def cache_bin_ok_def)

lemma cache_bin_init_ok: "cache_bin_ok m (cache_bin_init m)" "cached (cache_bin_init m) = []"
  by (simp_all add: cache_bin_ok_def cache_bin_init_def cached_def)

lemma alloc_easy_empty:
  assumes "cache_bin_ok m bin" "cached bin = []"
  shows "\<exists>bin'. cache_bin_alloc_easy bin = Some (None, bin') \<and> cache_bin_ok m bin' \<and> cached bin' = []
    \<and> cb_ncached bin' = 0 \<and> cb_avail bin' = cb_avail bin"
proof -
  have "cb_ncached bin = 0" using length_cached [OF assms(1)] assms(2) by simp
  with assms(1) show ?thesis by (simp add: cache_bin_alloc_easy_def Let_def cache_bin_ok_def cached_def)
qed

lemma alloc_easy_cons:
  assumes "cache_bin_ok m bin" "cached bin = ps @ [p]"
  shows "\<exists>bin'. cache_bin_alloc_easy bin = Some (Some p, bin') \<and> cache_bin_ok m bin' \<and> cached bin' = ps"
proof -
  have n: "cb_ncached bin = int (length ps) + 1" using length_cached [OF assms(1)] assms(2) by simp
  have l: "length ps < length (cb_avail bin)" using assms(1) n by (simp add: cache_bin_ok_def)
  have t: "take (Suc (length ps)) (cb_avail bin) = ps @ [p]" using assms(2) n by (simp add: cached_def nat_add_distrib)
  then have "cb_avail bin ! length ps = p" "take (length ps) (cb_avail bin) = ps"
    using l by (simp_all add: take_Suc_conv_app_nth)
  moreover have "avail_read (cb_avail bin) (cb_ncached bin) = Some (cb_avail bin ! length ps)"
    using n l by (simp add: avail_read_def nat_add_distrib)
  ultimately show ?thesis
    using assms(1) n by (simp add: cache_bin_alloc_easy_def Let_def cache_bin_ok_def cached_def)
qed

lemma cached_count:
  assumes "cache_bin_ok m bin"
  obtains n where "cb_ncached bin = int n" "n = length (cached bin)" "cached bin = take n (cb_avail bin)"
    "n \<le> m" "length (cb_avail bin) = m"
  using assms length_cached [OF assms] by (auto simp: cache_bin_ok_def cached_def)

lemma push_ok:
  assumes "cache_bin_ok m bin" "length (cached bin) < m"
  shows "\<exists>bin'. cache_bin_push p bin = Some bin' \<and> cache_bin_ok m bin' \<and> cached bin' = cached bin @ [p]"
proof -
  obtain n where n: "cb_ncached bin = int n" "n = length (cached bin)" "cached bin = take n (cb_avail bin)"
    "length (cb_avail bin) = m" using cached_count [OF assms(1)] by metis
  have l: "n < length (cb_avail bin)" using assms(2) n(2,4) by simp
  then have "take (Suc n) ((cb_avail bin)[n := p]) = cached bin @ [p]"
    using n(3) by (simp add: take_Suc_conv_app_nth)
  then show ?thesis
    using assms(1) n(1,4) l
    by (simp add: cache_bin_push_def avail_write_def Let_def cache_bin_ok_def cached_def [of "_\<lparr>cb_ncached := _, cb_avail := _\<rparr>"] nat_add_distrib)
qed

lemma avail_memmove_ok:
  assumes "n \<le> src" "src \<le> length avail"
  shows "avail_memmove n src n avail = Some (take n (drop (src - n) avail) @ drop n avail)"
    "length (take n (drop (src - n) avail) @ drop n avail) = length avail"
  using assms by (simp_all add: avail_memmove_def)

text \<open>\<open>avail\<close> may differ from the old slots below the flushed pointers.\<close>

lemma flush_rest_ok:
  assumes "cache_bin_ok m bin" "rem \<le> length (cached bin)"
    and "length avail = m" "drop (length (cached bin) - rem) avail = drop (length (cached bin) - rem) (cb_avail bin)"
  shows "\<exists>bin'. flush_rest rem (bin\<lparr>cb_avail := avail, cb_nrequests := k\<rparr>) = Some bin' \<and> cache_bin_ok m bin'
    \<and> cached bin' = drop (length (cached bin) - rem) (cached bin)"
proof -
  obtain n where n: "cb_ncached bin = int n" "n = length (cached bin)" "cached bin = take n (cb_avail bin)"
    "n \<le> m" using cached_count [OF assms(1)] by metis
  have l: "n \<le> length avail" "rem \<le> n" using assms(2,3) n(2,4) by simp_all
  note mv = avail_memmove_ok [of rem n avail, OF l(2,1)]
  have r: "take rem (drop (n - rem) avail) = drop (n - rem) (cached bin)"
    using assms(4) l(2) unfolding n(2) [symmetric] by (simp add: n(3) drop_take)
  let ?avail = "take rem (drop (n - rem) avail) @ drop rem avail"
  have len: "length (take rem (drop (n - rem) avail)) = rem" using l by simp
  let ?b = "bin\<lparr>cb_avail := ?avail, cb_nrequests := k, cb_ncached := int rem\<rparr>"
  let ?bin = "if int rem < cb_low_water bin then ?b\<lparr>cb_low_water := int rem\<rparr> else ?b"
  have "flush_rest rem (bin\<lparr>cb_avail := avail, cb_nrequests := k\<rparr>) = Some ?bin"
    using mv(1) by (simp add: flush_rest_def n(1))
  moreover have "cache_bin_ok m ?bin"
    using assms(1,3) n(1) l mv(2) by (simp add: cache_bin_ok_def)
  moreover have "cached ?bin = drop (n - rem) (cached bin)"
    unfolding r [symmetric] using len by (simp add: cached_def)
  ultimately show ?thesis unfolding n(2) by blast
qed

section \<open>A fill\<close>

text \<open>The slabs that a fill may get are different, in use nowhere, and found by \<open>iealloc\<close> then.\<close>

definition sources_ok ::
  "sc_data_t \<Rightarrow> arena \<Rightarrow> (nat \<Rightarrow> 64 word set) \<Rightarrow> nat \<Rightarrow> (64 word \<Rightarrow> 64 word) \<Rightarrow> slab_source list \<Rightarrow> bool" where
  "sources_ok d ar own i iealloc srcs \<longleftrightarrow>
     (\<forall>src\<in>set srcs. fresh_source d ar own i src
        \<and> (\<forall>f e. slab_answer src = Some (f, e) \<longrightarrow>
             (\<forall>p. unat p \<in> slab_pages (bin_boot d ! i) e \<longrightarrow> iealloc p = f)))
     \<and> sorted_wrt (\<lambda>s s'. \<forall>f e f' e'. slab_answer s = Some (f, e) \<and> slab_answer s' = Some (f', e') \<longrightarrow>
          f \<noteq> f' \<and> slab_pages (bin_boot d ! i) e \<inter> slab_pages (bin_boot d ! i) e' = {}) srcs"

lemma sources_ok_step:
  assumes "sources_ok d ar own i iealloc (src # srcs)" "iealloc_ok d ar own iealloc" "i < SC_NBINS"
    and "pages_kept d ar ar' own" "\<forall>j. j \<noteq> i \<longrightarrow> own' j = own j" "own' i \<subseteq> own i \<union> set_option (source_slab src)"
    and "\<forall>f e. slab_answer src = Some (f, e) \<and> f \<in> own' i \<longrightarrow>
      slab_pages (bin_boot d ! i) (ar_mem ar' f) = slab_pages (bin_boot d ! i) e"
  shows "sources_ok d ar' own' i iealloc srcs" "iealloc_ok d ar' own' iealloc"
proof -
  let ?P = "\<lambda>ar j a. slab_pages (bin_boot d ! j) (ar_mem ar a)"
  have own': "(a \<in> own j \<and> ?P ar' j a = ?P ar j a)
      \<or> (j = i \<and> (\<exists>e. slab_answer src = Some (a, e) \<and> ?P ar' j a = slab_pages (bin_boot d ! i) e))"
    if "j < SC_NBINS" "a \<in> own' j" for j a
  proof (cases "a \<in> own j")
    case True
    then show ?thesis using assms(4) that(1) by (simp add: pages_kept_def)
  next
    case False
    then have j: "j = i" using assms(5) that(2) by auto
    with False assms(6) that(2) obtain e where "slab_answer src = Some (a, e)" by (auto simp: source_slab_def)
    with assms(7) that(2) j show ?thesis by blast
  qed
  show "iealloc_ok d ar' own' iealloc"
    unfolding iealloc_ok_def
  proof (intro allI impI ballI)
    fix j a and p :: "64 word" assume j: "j < SC_NBINS" "a \<in> own' j" "unat p \<in> ?P ar' j a"
    from own' [OF j(1,2)] show "iealloc p = a"
    proof (elim disjE conjE exE)
      assume "a \<in> own j" "?P ar' j a = ?P ar j a"
      with assms(2) j show ?thesis by (simp add: iealloc_ok_def)
    next
      fix e assume "slab_answer src = Some (a, e)" "?P ar' j a = slab_pages (bin_boot d ! i) e"
      moreover have "\<forall>f e. slab_answer src = Some (f, e) \<longrightarrow>
          (\<forall>p. unat p \<in> slab_pages (bin_boot d ! i) e \<longrightarrow> iealloc p = f)"
        using assms(1) by (simp add: sources_ok_def)
      ultimately show ?thesis using j(3) by blast
    qed
  qed
  have "fresh_source d ar' own' i s" if s: "s \<in> set srcs" for s
    unfolding fresh_source_def
  proof (intro allI impI conjI ballI)
    fix f e assume fe: "slab_answer s = Some (f, e)"
    have fr: "fresh_source d ar own i s" using assms(1) s by (simp add: sources_ok_def)
    then show "slab_extent d i e" using fe by (simp add: fresh_source_def)
    have sep: "f \<noteq> g \<and> slab_pages (bin_boot d ! i) e \<inter> slab_pages (bin_boot d ! i) e' = {}"
      if "slab_answer src = Some (g, e')" for g e'
    proof -
      have "\<forall>s\<in>set srcs. \<forall>f e f' e'. slab_answer src = Some (f, e) \<and> slab_answer s = Some (f', e') \<longrightarrow>
          f \<noteq> f' \<and> slab_pages (bin_boot d ! i) e \<inter> slab_pages (bin_boot d ! i) e' = {}"
        by (rule conjunct1 [OF conjunct2 [OF assms(1) [unfolded sources_ok_def sorted_wrt.simps]]])
      with s fe that have "g \<noteq> f \<and> slab_pages (bin_boot d ! i) e' \<inter> slab_pages (bin_boot d ! i) e = {}"
        by blast
      then show ?thesis by blast
    qed
    fix j assume j: "j < SC_NBINS"
    have old: "f \<notin> own j" "\<forall>b\<in>own j. slab_pages (bin_boot d ! i) e \<inter> ?P ar j b = {}"
      using fr fe j by (simp_all add: fresh_source_def)
    show "f \<notin> own' j" using own' [OF j, of f] old(1) sep by blast
    show "slab_pages (bin_boot d ! i) e \<inter> ?P ar' j b = {}" if "b \<in> own' j" for b
      using own' [OF j that] old(2) sep by metis
  qed
  with assms(1) show "sources_ok d ar' own' i iealloc srcs"
    unfolding sources_ok_def sorted_wrt.simps list.set by blast
qed

lemma take_rev_write:
  assumes "take m (drop (n - m) xs) = rev ps" "m < n" "n \<le> length xs" "length ps = m"
  shows "take (Suc m) (drop (n - Suc m) (xs[n - Suc m := p])) = rev (ps @ [p])"
proof -
  have "drop (n - Suc m) (xs[n - Suc m := p]) = p # drop (n - m) xs"
    using assms(2,3) by (simp add: Cons_nth_drop_Suc [symmetric, of "n - Suc m"] Suc_diff_Suc)
  with assms(1) show ?thesis by simp
qed

lemma fill_loop_result:
  assumes "table_inv d" "i < SC_NBINS" "length ps + length srcs = nfill" "nfill \<le> length avail"
    and "take (length ps) (drop (nfill - length ps) avail) = rev ps"
    and "arena_inv d k (counted ar i b (length ps)) own L" "sources_ok d ar own i iealloc srcs"
      "iealloc_ok d ar own iealloc"
  shows "\<exists>qs ar' b' avail' own'. fill_loop (bin_boot d ! i) srcs nfill (length ps) ar b avail =
      Some (length (ps @ qs), ar', b', avail')
    \<and> distinct qs \<and> set qs \<inter> L i = {} \<and> length avail' = length avail \<and> take (length (ps @ qs)) avail' = rev (ps @ qs)
    \<and> arena_inv d k (counted ar' i b' (length (ps @ qs))) own' (L(i := L i \<union> set qs))
    \<and> iealloc_ok d ar' own' iealloc \<and> ar_bins ar' = ar_bins ar
    \<and> (length qs = length srcs \<or> (slab_answer (srcs ! length qs) = None))"
  using assms(3-)
proof (induction srcs arbitrary: ps ar b avail own L)
  case Nil
  then have "take (length ps) avail = rev ps" by simp
  with Nil show ?case
    by (intro exI [of _ "[]"] exI [of _ ar] exI [of _ b] exI [of _ avail] exI [of _ own]) simp
next
  case (Cons src srcs)
  have fresh: "fresh_source d ar own i src" using Cons.prems(5) by (simp add: sources_ok_def)
  from malloc_counted [OF assms(1) Cons.prems(4) assms(2) fresh] obtain ret ar1 b1 own1 where
    m: "bin_malloc (bin_boot d ! i) src ar b = Some (ret, ar1, b1)"
      "arena_inv d k (counted ar1 i b1 (length ps + (if ret = None then 0 else 1))) own1
        (case ret of None \<Rightarrow> L | Some p \<Rightarrow> L(i := insert p (L i)))"
      "case ret of None \<Rightarrow> slab_answer src = None | Some p \<Rightarrow> p \<notin> L i"
      "ar_bins ar1 = ar_bins ar" "pages_kept d ar ar1 own" "\<forall>j. j \<noteq> i \<longrightarrow> own1 j = own j"
      "own1 i \<subseteq> own i \<union> set_option (source_slab src)"
      "\<forall>f e. slab_answer src = Some (f, e) \<and> f \<in> own1 i \<longrightarrow>
        slab_pages (bin_boot d ! i) (ar_mem ar1 f) = slab_pages (bin_boot d ! i) e" by blast
  note step = sources_ok_step [OF Cons.prems(5,6) assms(2) m(5-8)]
  let ?m = "length ps"
  have mn: "?m < nfill" using Cons.prems(1) by simp
  show ?case
  proof (cases ret)
    case None
    let ?avail = "if 0 < ?m then take ?m (drop (nfill - ?m) avail) @ drop ?m avail else avail"
    have "fill_loop (bin_boot d ! i) (src # srcs) nfill ?m ar b avail = Some (?m, ar1, b1, ?avail)"
      using m(1) None avail_memmove_ok(1) [of ?m nfill avail] mn Cons.prems(2) by simp
    moreover have "length ?avail = length avail" using mn Cons.prems(2) by simp
    moreover have "take ?m ?avail = rev ps" using Cons.prems(3) by simp
    ultimately show ?thesis
      using m(2-4) step(2) None
      by (intro exI [of _ "[]"] exI [of _ ar1] exI [of _ b1] exI [of _ ?avail] exI [of _ own1])
        (simp del: fun_upd_apply)
  next
    case (Some p)
    let ?avail = "avail[nfill - Suc ?m := p]"
    have w: "avail_write avail (int nfill - int ?m) p = Some ?avail"
    proof -
      have "nat (int nfill - int ?m) - 1 = nfill - Suc ?m" by simp
      then show ?thesis using mn Cons.prems(2) by (simp add: avail_write_def)
    qed
    have inv: "arena_inv d k (counted ar1 i b1 (length (ps @ [p]))) own1 (L(i := insert p (L i)))"
      using m(2) Some by (simp del: fun_upd_apply)
    have pre: "length (ps @ [p]) + length srcs = nfill" "nfill \<le> length ?avail"
      "take (length (ps @ [p])) (drop (nfill - length (ps @ [p])) ?avail) = rev (ps @ [p])"
      using Cons.prems(1,2) take_rev_write [OF Cons.prems(3) mn Cons.prems(2) refl, of p] by simp_all
    from Cons.IH [OF pre inv step, unfolded fun_upd_same fun_upd_upd] obtain qs ar2 b2 avail2 own2 where
      r: "fill_loop (bin_boot d ! i) srcs nfill (length (ps @ [p])) ar1 b1 ?avail =
            Some (length ((ps @ [p]) @ qs), ar2, b2, avail2)"
        "distinct qs" "set qs \<inter> insert p (L i) = {}" "length avail2 = length ?avail"
        "take (length ((ps @ [p]) @ qs)) avail2 = rev ((ps @ [p]) @ qs)"
        "arena_inv d k (counted ar2 i b2 (length ((ps @ [p]) @ qs))) own2 (L(i := insert p (L i) \<union> set qs))"
        "iealloc_ok d ar2 own2 iealloc" "ar_bins ar2 = ar_bins ar1"
        "length qs = length srcs \<or> (slab_answer (srcs ! length qs) = None)"
      by blast
    have L: "insert p (L i) \<union> set qs = L i \<union> set (p # qs)" by auto
    show ?thesis
      using r m(1,3,4) Some w unfolding L
      by (intro exI [of _ "p # qs"] exI [of _ ar2] exI [of _ b2] exI [of _ avail2] exI [of _ own2])
        (auto simp del: fun_upd_apply)
  qed
qed

lemma fill_small:
  assumes "table_inv d" "i < SC_NBINS" "arena_inv d k ar own L" "sources_ok d ar own i iealloc srcs"
    and "iealloc_ok d ar own iealloc" "cache_bin_ok m tbin" "cached tbin = []" "length srcs \<le> m"
  shows "\<exists>qs ar' tbin' own'. arena_tcache_fill_small (bin_boot d) srcs ar tbin i = Some (ar', tbin')
    \<and> cache_bin_ok m tbin' \<and> cached tbin' = rev qs \<and> distinct qs \<and> set qs \<inter> L i = {}
    \<and> arena_inv d k ar' own' (L(i := L i \<union> set qs)) \<and> iealloc_ok d ar' own' iealloc
    \<and> (length qs = length srcs \<or> (slab_answer (srcs ! length qs) = None))"
proof -
  have len: "length (ar_bins ar) = SC_NBINS" using assms(3) by (simp add: arena_inv_def)
  have rd: "read_at (ar_bins ar) i = Some (ar_bins ar ! i)" "read_at (bin_boot d) i = Some (bin_boot d ! i)"
    using len assms(2) bin_of_table(1) [OF assms(1,2)] by simp_all
  have n0: "cb_ncached tbin = 0" using length_cached [OF assms(6)] assms(7) by simp
  have avail: "length (cb_avail tbin) = m" using assms(6) by (simp add: cache_bin_ok_def)
  have inv: "arena_inv d k (counted ar i (ar_bins ar ! i) (length [])) own L" using assms(3) by (simp add: counted_0)
  have pre: "length [] + length srcs = length srcs" "length srcs \<le> length (cb_avail tbin)"
    "take (length []) (drop (length srcs - length []) (cb_avail tbin)) = rev []" using assms(8) avail by simp_all
  from fill_loop_result [OF assms(1,2) pre inv assms(4,5), unfolded append_Nil avail list.size(3)] obtain qs ar' b' avail' own' where
    r: "fill_loop (bin_boot d ! i) srcs (length srcs) 0 ar (ar_bins ar ! i) (cb_avail tbin) =
          Some (length qs, ar', b', avail')"
      "distinct qs" "set qs \<inter> L i = {}" "length avail' = m" "take (length qs) avail' = rev qs"
      "arena_inv d k (counted ar' i b' (length qs)) own' (L(i := L i \<union> set qs))"
      "iealloc_ok d ar' own' iealloc" "ar_bins ar' = ar_bins ar"
      "length qs = length srcs \<or> (slab_answer (srcs ! length qs) = None)"
    by blast
  let ?ar = "ar'\<lparr>ar_bins := (ar_bins ar')[i := fill_stats (length qs) (cb_nrequests tbin) b']\<rparr>"
  let ?tbin = "tbin\<lparr>cb_avail := avail', cb_nrequests := 0, cb_ncached := int (length qs)\<rparr>"
  have "arena_tcache_fill_small (bin_boot d) srcs ar tbin i = Some (?ar, ?tbin)"
    using rd r(1,8) len assms(2) by (simp add: arena_tcache_fill_small_def)
  moreover have "arena_inv d k ?ar own' (L(i := L i \<union> set qs))"
    unfolding fill_stats_def by (rule counted_stats [OF r(6)]) simp_all
  moreover have "iealloc_ok d ?ar own' iealloc" using r(7) by (simp add: iealloc_ok_def)
  moreover have "length qs \<le> m" using arg_cong [OF r(5), of length] r(4) by simp
  then have "cache_bin_ok m ?tbin" using assms(6) r(4) n0 by (simp add: cache_bin_ok_def)
  moreover have "cached ?tbin = rev qs" using r(5) by (simp add: cached_def)
  ultimately show ?thesis using r(2,3,9) by blast
qed

lemma alloc_small_hard:
  assumes "table_inv d" "i < SC_NBINS" "arena_inv d k ar own L" "sources_ok d ar own i iealloc srcs"
    and "iealloc_ok d ar own iealloc" "cache_bin_ok m tbin" "cached tbin = []" "length srcs \<le> m"
  shows "\<exists>ret qs ar' tbin' own'. tcache_alloc_small_hard (bin_boot d) srcs ar tbin i = Some (ret, ar', tbin')
    \<and> cache_bin_ok m tbin' \<and> arena_inv d k ar' own' (L(i := L i \<union> set qs)) \<and> iealloc_ok d ar' own' iealloc
    \<and> distinct qs \<and> set qs \<inter> L i = {} \<and> (length qs = length srcs \<or> (slab_answer (srcs ! length qs) = None))
    \<and> (case ret of None \<Rightarrow> qs = [] \<and> cached tbin' = [] | Some p \<Rightarrow> rev qs = cached tbin' @ [p])"
proof -
  from fill_small [OF assms] obtain qs ar' tbin' own' where
    f: "arena_tcache_fill_small (bin_boot d) srcs ar tbin i = Some (ar', tbin')"
      "cache_bin_ok m tbin'" "cached tbin' = rev qs" "distinct qs" "set qs \<inter> L i = {}"
      "arena_inv d k ar' own' (L(i := L i \<union> set qs))" "iealloc_ok d ar' own' iealloc"
      "length qs = length srcs \<or> (slab_answer (srcs ! length qs) = None)" by blast
  show ?thesis
  proof (cases qs)
    case Nil
    with alloc_easy_empty [OF f(2)] f(3) obtain bin' where
      "cache_bin_alloc_easy tbin' = Some (None, bin')" "cache_bin_ok m bin'" "cached bin' = []" by auto
    with f Nil show ?thesis
      by (intro exI [of _ None] exI [of _ "[]"] exI [of _ ar'] exI [of _ bin'] exI [of _ own'])
        (simp add: tcache_alloc_small_hard_def del: fun_upd_apply)
  next
    case (Cons p ps)
    with alloc_easy_cons [OF f(2), of "rev ps" p] f(3) obtain bin' where
      "cache_bin_alloc_easy tbin' = Some (Some p, bin')" "cache_bin_ok m bin'" "cached bin' = rev ps" by auto
    with f Cons show ?thesis
      by (intro exI [of _ "Some p"] exI [of _ qs] exI [of _ ar'] exI [of _ bin'] exI [of _ own'])
        (simp add: tcache_alloc_small_hard_def del: fun_upd_apply)
  qed
qed

section \<open>A flush\<close>

text \<open>The environment of a cache whose pointers all belong to arena 0.\<close>

definition env_ok :: "sc_data_t \<Rightarrow> nat list \<Rightarrow> cache_env \<Rightarrow> bool" where
  "env_ok d info ce \<longleftrightarrow> ce_bins ce = bin_boot d \<and> ce_divs ce = arena_boot_div d \<and> ce_info ce = info
     \<and> ce_arena_of ce = (\<lambda>_. 0) \<and> ce_own ce = 0"

lemma iealloc_ok_mono:
  assumes "iealloc_ok d ar own iealloc" "pages_kept d ar ar' own" "\<And>j. own' j \<subseteq> own j"
  shows "iealloc_ok d ar' own' iealloc"
  using assms unfolding iealloc_ok_def pages_kept_def by blast

lemma dalloc_all_ok:
  assumes "table_inv d" "i < SC_NBINS" "env_ok d info ce" "arena_inv d k ar own L"
    and "iealloc_ok d ar own (ce_iealloc ce)" "distinct ps" "set ps \<subseteq> L i"
  shows "\<exists>ar' own'. dalloc_all ce (map (\<lambda>p. (p, ce_iealloc ce p)) ps) ar = Some ar'
    \<and> arena_inv d k ar' own' (L(i := L i - set ps)) \<and> iealloc_ok d ar' own' (ce_iealloc ce)"
  using assms(4-)
proof (induction ps arbitrary: ar own L)
  case Nil
  then show ?case by auto
next
  case (Cons p ps)
  from arena_dalloc [OF assms(1) Cons.prems(1) assms(2) _ Cons.prems(2), of p] Cons.prems(4) obtain ar1 where
    a: "arena_dalloc_small (bin_boot d) (arena_boot_div d) (ce_iealloc ce) ar p = Some ar1"
      "arena_inv d k ar1 (own(i := live_slabs (bin_boot d ! i) ar1 (own i))) (L(i := L i - {p}))"
      "pages_kept d ar ar1 own" by auto
  have ie: "iealloc_ok d ar1 (own(i := live_slabs (bin_boot d ! i) ar1 (own i))) (ce_iealloc ce)"
    by (rule iealloc_ok_mono [OF Cons.prems(2) a(3)]) (auto simp: live_slabs_def)
  have ps: "distinct ps" "set ps \<subseteq> (L(i := L i - {p})) i" using Cons.prems(3,4) by auto
  from Cons.IH [OF a(2) ie ps, unfolded fun_upd_same fun_upd_upd] obtain ar2 own2 where
    r: "dalloc_all ce (map (\<lambda>p. (p, ce_iealloc ce p)) ps) ar1 = Some ar2"
      "arena_inv d k ar2 own2 (L(i := L i - {p} - set ps))" "iealloc_ok d ar2 own2 (ce_iealloc ce)" by blast
  have "L i - {p} - set ps = L i - set (p # ps)" by auto
  with r have "arena_inv d k ar2 own2 (L(i := L i - set (p # ps)))" by simp
  moreover have "dalloc_all ce (map (\<lambda>p. (p, ce_iealloc ce p)) (p # ps)) ar = Some ar2"
    using a(1) r(1) assms(3) by (simp add: arena_dalloc_small_def env_ok_def)
  ultimately show ?case using r(3) by blast
qed

lemma flush_stats_ok:
  assumes "arena_inv d k ar own L" "i < SC_NBINS"
  shows "\<exists>ar'. flush_stats i n ar = Some ar' \<and> arena_inv d k ar' own L \<and> ar_mem ar' = ar_mem ar"
proof -
  have len: "length (ar_bins ar) = SC_NBINS" using assms(1) by (simp add: arena_inv_def)
  have "arena_inv d k (ar\<lparr>ar_bins := (ar_bins ar)[i := ar_bins ar ! i]\<rparr>) own L" using assms(1) by simp
  from arena_inv_stats [OF this] len assms(2) show ?thesis by (simp add: flush_stats_def)
qed

lemma iealloc_ok_mem: "ar_mem ar' = ar_mem ar \<Longrightarrow> iealloc_ok d ar own ie \<Longrightarrow> iealloc_ok d ar' own ie"
  by (simp add: iealloc_ok_def)

lemma flush_small:
  assumes "table_inv d" "i < SC_NBINS" "env_ok d info ce" "arena_inv d k (hp_arenas hp 0) own L"
    and "iealloc_ok d (hp_arenas hp 0) own (ce_iealloc ce)"
    and "cache_bin_ok m tbin" "distinct (cached tbin)" "set (cached tbin) \<subseteq> L i" "rem \<le> length (cached tbin)"
  shows "\<exists>ar' tbin' own'. tcache_bin_flush_small ce i rem hp tbin = Some (hp\<lparr>hp_arenas := (hp_arenas hp)(0 := ar')\<rparr>, tbin')
    \<and> arena_inv d k ar' own' (L(i := L i - set (take (length (cached tbin) - rem) (cached tbin))))
    \<and> iealloc_ok d ar' own' (ce_iealloc ce) \<and> cache_bin_ok m tbin'
    \<and> cached tbin' = drop (length (cached tbin) - rem) (cached tbin)"
proof -
  obtain n where n: "cb_ncached tbin = int n" "n = length (cached tbin)" "cached tbin = take n (cb_avail tbin)"
    "n \<le> m" "length (cb_avail tbin) = m" using cached_count [OF assms(6)] by metis
  define ps where "ps = take (n - rem) (cached tbin)"
  have ps: "ps = take (n - rem) (cb_avail tbin)" by (simp add: ps_def n(3) min_def)
  have it: "flush_items ce rem tbin = Some (map (\<lambda>p. (p, ce_iealloc ce p)) ps)"
    using n(4,5) by (simp add: flush_items_def n(1) ps Let_def)
  have d: "distinct ps" "set ps \<subseteq> L i" using assms(7,8) by (auto simp: ps_def dest: in_set_takeD)
  have rest: "\<exists>bin'. flush_rest rem (tbin\<lparr>cb_nrequests := 0\<rparr>) = Some bin' \<and> cache_bin_ok m bin'
      \<and> cached bin' = drop (length (cached tbin) - rem) (cached tbin)"
  proof -
    have "tbin\<lparr>cb_avail := cb_avail tbin, cb_nrequests := 0\<rparr> = tbin\<lparr>cb_nrequests := 0\<rparr>" by simp
    with flush_rest_ok [OF assms(6,9) n(5) refl, of 0] show ?thesis by simp
  qed
  then obtain tbin' where tb: "flush_rest rem (tbin\<lparr>cb_nrequests := 0\<rparr>) = Some tbin'" "cache_bin_ok m tbin'"
    "cached tbin' = drop (length (cached tbin) - rem) (cached tbin)" by blast
  obtain ar1 where a1: "flush_stats i (cb_nrequests tbin) (hp_arenas hp 0) = Some ar1" "arena_inv d k ar1 own L"
    "ar_mem ar1 = ar_mem (hp_arenas hp 0)" using flush_stats_ok [OF assms(4,2)] by blast
  have ie1: "iealloc_ok d ar1 own (ce_iealloc ce)" by (rule iealloc_ok_mem [OF a1(3) assms(5)])
  have e: "ce_arena_of ce = (\<lambda>_. 0)" "ce_own ce = 0" using assms(3) by (simp_all add: env_ok_def)
  from dalloc_all_ok [OF assms(1-3) a1(2) ie1 d] obtain ar2 own2 where
    a2: "dalloc_all ce (map (\<lambda>p. (p, ce_iealloc ce p)) ps) ar1 = Some ar2"
      "arena_inv d k ar2 own2 (L(i := L i - set ps))" "iealloc_ok d ar2 own2 (ce_iealloc ce)" by blast
  have "tcache_bin_flush_small ce i rem hp tbin = Some (hp\<lparr>hp_arenas := (hp_arenas hp)(0 := ar2)\<rparr>, tbin')"
  proof (cases ps)
    case Nil
    with a2(1) have "ar2 = ar1" by simp
    with Nil show ?thesis using it a1(1) tb(1) by (simp add: tcache_bin_flush_small_def e)
  next
    case (Cons p qs)
    let ?items = "map (\<lambda>p. (p, ce_iealloc ce p)) ps"
    have h: "handled ce 0 ?items = ?items" "deferred ce 0 ?items = []"
      by (simp_all add: handled_def deferred_def e case_prod_beta)
    have s: "stash [] t = t" for t by (simp add: stash_def)
    have "flush_small_loop ce i ?items (hp_arenas hp) tbin False =
        Some ((hp_arenas hp)(0 := ar2), tbin\<lparr>cb_nrequests := 0\<rparr>, True)"
      using a1(1) a2(1) h s unfolding Cons by (simp add: e Let_def)
    then show ?thesis using it tb(1) by (simp add: tcache_bin_flush_small_def)
  qed
  with a2(2,3) tb(2,3) show ?thesis unfolding ps_def n(2) by blast
qed

text \<open>The pointers of large classes.\<close>

lemma handled_deferred:
  "handled ce k (deferred ce k' items) = (if k = k' then [] else handled ce k items)"
  by (induction items) (auto simp: handled_def deferred_def)

lemma mset_handled_deferred: "mset (handled ce k items) + mset (deferred ce k items) = mset items"
  by (induction items) (auto simp: handled_def deferred_def)

lemma handled_handled: "handled ce k (handled ce k' items) = (if k = k' then handled ce k items else [])"
  by (induction items) (auto simp: handled_def)

lemma handled_append: "handled ce k (xs @ ys) = handled ce k xs @ handled ce k ys"
  by (simp add: handled_def)

lemma handled_hd: "handled ce (ce_arena_of ce (snd x)) (x # xs) \<noteq> []"
  by (simp add: handled_def case_prod_beta)

lemma stash_fields [simp]:
  "cb_nrequests (stash xs tbin) = cb_nrequests tbin" "cb_ncached (stash xs tbin) = cb_ncached tbin"
  "cb_low_water (stash xs tbin) = cb_low_water tbin"
  by (simp_all add: stash_def)

lemma length_stash: "length xs \<le> length (cb_avail tbin) \<Longrightarrow> length (cb_avail (stash xs tbin)) = length (cb_avail tbin)"
  by (simp add: stash_def)

lemma drop_stash: "length xs \<le> n \<Longrightarrow> drop n (cb_avail (stash xs tbin)) = drop n (cb_avail tbin)"
  by (simp add: stash_def)

definition own_large :: "cache_env \<Rightarrow> nat \<Rightarrow> heap \<Rightarrow> uint64" where
  "own_large ce binind hp = hp_large_nrequests hp (ce_own ce) binind"

lemma flush_large_loop_result:
  assumes "length items \<le> length (cb_avail tbin)"
    and "flush_large_loop ce binind items hp tbin m = (hp', tbin', m')"
  shows "\<exists>xs. hp_large_freed hp' = hp_large_freed hp @ xs \<and> mset xs = mset items
    \<and> (\<forall>k. handled ce k xs = handled ce k items) \<and> hp_arenas hp' = hp_arenas hp
    \<and> m' = (m \<or> handled ce (ce_own ce) items \<noteq> [])
    \<and> tbin' = tbin\<lparr>cb_avail := cb_avail tbin', cb_nrequests :=
        if handled ce (ce_own ce) items = [] then cb_nrequests tbin else 0\<rparr>
    \<and> hp_large_nrequests hp' = hp_large_nrequests (if handled ce (ce_own ce) items = [] then hp
        else large_stats (ce_own ce) binind (cb_nrequests tbin) hp)
    \<and> length (cb_avail tbin') = length (cb_avail tbin)
    \<and> drop (length items) (cb_avail tbin') = drop (length items) (cb_avail tbin)"
  using assms
proof (induction "length items" arbitrary: items hp tbin m rule: less_induct)
  case less
  show ?case
  proof (cases items)
    case Nil
    with less.prems(2) show ?thesis by (auto simp: handled_def)
  next
    case (Cons item rest)
    let ?k = "ce_arena_of ce (snd item)"
    let ?left = "deferred ce ?k items" and ?done = "handled ce ?k items"
    let ?own = "?k = ce_own ce"
    let ?hp = "(if ?own then large_stats ?k binind (cb_nrequests tbin) hp else hp)"
    let ?hp1 = "?hp\<lparr>hp_large_freed := hp_large_freed ?hp @ ?done\<rparr>"
    let ?tb = "if ?own then tbin\<lparr>cb_nrequests := 0\<rparr> else tbin"
    have len: "length ?left < length items" using deferred_less [of ce item rest] Cons by simp
    have step: "flush_large_loop ce binind ?left ?hp1 (stash ?left ?tb) (m \<or> ?own) = (hp', tbin', m')"
      using less.prems(2) Cons by (simp add: Let_def split: if_splits)
    have tb: "cb_avail ?tb = cb_avail tbin" by simp
    have st: "length (cb_avail (stash ?left ?tb)) = length (cb_avail tbin)"
      using len less.prems(1) by (subst length_stash) (simp_all add: tb)
    have len': "length ?left \<le> length (cb_avail (stash ?left ?tb))" using len less.prems(1) st by linarith
    from less.hyps [OF len len' step] obtain xs where
      x: "hp_large_freed hp' = hp_large_freed ?hp1 @ xs" "mset xs = mset ?left"
        "\<forall>k. handled ce k xs = handled ce k ?left" "hp_arenas hp' = hp_arenas ?hp1"
        "m' = ((m \<or> ?own) \<or> handled ce (ce_own ce) ?left \<noteq> [])"
        "tbin' = (stash ?left ?tb)\<lparr>cb_avail := cb_avail tbin', cb_nrequests :=
          if handled ce (ce_own ce) ?left = [] then cb_nrequests (stash ?left ?tb) else 0\<rparr>"
        "hp_large_nrequests hp' = hp_large_nrequests (if handled ce (ce_own ce) ?left = [] then ?hp1
          else large_stats (ce_own ce) binind (cb_nrequests (stash ?left ?tb)) ?hp1)"
        "length (cb_avail tbin') = length (cb_avail (stash ?left ?tb))"
        "drop (length ?left) (cb_avail tbin') = drop (length ?left) (cb_avail (stash ?left ?tb))"
      by blast
    have own: "handled ce (ce_own ce) ?left = (if ?own then [] else handled ce (ce_own ce) items)"
      by (auto simp: handled_deferred)
    have done_ne: "handled ce ?k items \<noteq> []" using handled_hd [of ce item rest] Cons by simp
    have freed: "hp_large_freed hp' = hp_large_freed hp @ ?done @ xs" using x(1) by (simp add: large_stats_def)
    have ms: "mset (?done @ xs) = mset items" using x(2) mset_handled_deferred [of ce ?k items] by simp
    have hd: "handled ce k (?done @ xs) = handled ce k items" for k
      using x(3) by (simp add: handled_append handled_handled handled_deferred)
    have dr: "drop (length items) (cb_avail tbin') = drop (length items) (cb_avail tbin)"
    proof -
      have "drop (length items) (cb_avail tbin') = drop (length items - length ?left) (drop (length ?left) (cb_avail tbin'))"
        using len by simp
      also have "\<dots> = drop (length items) (cb_avail (stash ?left ?tb))" unfolding x(9) using len by simp
      also have "\<dots> = drop (length items) (cb_avail tbin)" using len by (subst drop_stash) (simp_all add: tb)
      finally show ?thesis .
    qed
    have ll: "length (cb_avail tbin') = length (cb_avail tbin)" using x(8) st by (rule trans)
    have ar: "hp_arenas hp' = hp_arenas hp" using x(4) by (simp add: large_stats_def)
    show ?thesis
      using freed ms hd dr ll ar x(5-7) own done_ne
      by (intro exI [of _ "?done @ xs"]) (auto simp: stash_def large_stats_def)
  qed
qed

lemma flush_large:
  assumes "cache_bin_ok m tbin" "rem \<le> length (cached tbin)"
  shows "\<exists>hp' tbin' xs. tcache_bin_flush_large ce binind rem hp tbin = Some (hp', tbin')
    \<and> hp_large_freed hp' = hp_large_freed hp @ xs
    \<and> mset xs = mset (map (\<lambda>p. (p, ce_iealloc ce p)) (take (length (cached tbin) - rem) (cached tbin)))
    \<and> (\<forall>k. handled ce k xs = handled ce k (map (\<lambda>p. (p, ce_iealloc ce p)) (take (length (cached tbin) - rem) (cached tbin))))
    \<and> hp_large_nrequests hp' = hp_large_nrequests (large_stats (ce_own ce) binind (cb_nrequests tbin) hp)
    \<and> hp_arenas hp' = hp_arenas hp \<and> cache_bin_ok m tbin'
    \<and> cached tbin' = drop (length (cached tbin) - rem) (cached tbin)"
proof -
  obtain n where n: "cb_ncached tbin = int n" "n = length (cached tbin)" "cached tbin = take n (cb_avail tbin)"
    "n \<le> m" "length (cb_avail tbin) = m" using cached_count [OF assms(1)] by metis
  define items where "items = map (\<lambda>p. (p, ce_iealloc ce p)) (take (n - rem) (cached tbin))"
  have it: "flush_items ce rem tbin = Some items"
    using n(4,5) by (simp add: flush_items_def n(1) items_def Let_def) (simp add: n(3) min_def)
  have "length items = n - rem" by (simp add: items_def n(2) [symmetric])
  then have len: "length items \<le> length (cb_avail tbin)" "length items = n - rem" using n(4,5) by simp_all
  obtain hp1 tb1 m1 where l: "flush_large_loop ce binind items hp tbin False = (hp1, tb1, m1)"
    by (metis prod_cases3)
  from flush_large_loop_result [OF len(1) l] obtain xs where
    x: "hp_large_freed hp1 = hp_large_freed hp @ xs" "mset xs = mset items"
      "\<forall>k. handled ce k xs = handled ce k items" "hp_arenas hp1 = hp_arenas hp"
      "m1 = (handled ce (ce_own ce) items \<noteq> [])"
      "tb1 = tbin\<lparr>cb_avail := cb_avail tb1, cb_nrequests :=
        if handled ce (ce_own ce) items = [] then cb_nrequests tbin else 0\<rparr>"
      "hp_large_nrequests hp1 = hp_large_nrequests (if handled ce (ce_own ce) items = [] then hp
        else large_stats (ce_own ce) binind (cb_nrequests tbin) hp)"
      "length (cb_avail tb1) = m" "drop (length items) (cb_avail tb1) = drop (length items) (cb_avail tbin)"
    unfolding n(5) by auto
  let ?hp = "if m1 then hp1 else large_stats (ce_own ce) binind (cb_nrequests tb1) hp1"
  let ?tb = "tbin\<lparr>cb_avail := cb_avail tb1, cb_nrequests := 0\<rparr>"
  have tb: "(if m1 then tb1 else tb1\<lparr>cb_nrequests := 0\<rparr>) = ?tb" using x(5) by (subst x(6), subst (2) x(6)) simp
  have dr: "drop (length (cached tbin) - rem) (cb_avail tb1) = drop (length (cached tbin) - rem) (cb_avail tbin)"
    using x(9) len(2) n(2) by simp
  obtain tbin' where t: "flush_rest rem ?tb = Some tbin'" "cache_bin_ok m tbin'"
    "cached tbin' = drop (length (cached tbin) - rem) (cached tbin)"
    using flush_rest_ok [OF assms x(8) dr, of 0] by blast
  have "tcache_bin_flush_large ce binind rem hp tbin = Some (?hp, tbin')"
    using it l t(1) tb by (cases m1) (simp_all add: tcache_bin_flush_large_def)
  moreover have "cb_nrequests tb1 = (if m1 then 0 else cb_nrequests tbin)" using x(5) by (subst x(6)) simp
  then have "hp_large_nrequests ?hp = hp_large_nrequests (large_stats (ce_own ce) binind (cb_nrequests tbin) hp)"
    using x(5,7) by (auto simp: large_stats_def)
  moreover have "hp_large_freed ?hp = hp_large_freed hp @ xs" "hp_arenas ?hp = hp_arenas hp"
    using x(1,4) by (simp_all add: large_stats_def)
  ultimately show ?thesis using x(2,3) t(2,3) unfolding items_def n(2) by blast
qed

end
