(* ===== verification/Tcache_Inv.thy ===== *)
theory Tcache_Inv
  imports Tcache
begin

text \<open>
  The state of a thread cache with the arena behind it: which pointers are cached, that every
  operation keeps the caches well formed, and the runs of a thread together with the other threads
  that use its arena.
\<close>

section \<open>Well-formed caches\<close>

definition tc_bin :: "tcache \<Rightarrow> nat \<Rightarrow> cache_bin" where
  "tc_bin tc i = (if i < SC_NBINS then tc_bins_small tc ! i else tc_bins_large tc ! (i - SC_NBINS))"

definition tc_shape :: "nat list \<Rightarrow> tcache \<Rightarrow> bool" where
  "tc_shape info tc \<longleftrightarrow> SC_NBINS \<le> length info \<and> length (tc_bins_small tc) = SC_NBINS
     \<and> length (tc_bins_large tc) = length info - SC_NBINS \<and> length (tc_lg_fill_div tc) = SC_NBINS
     \<and> tc_next_gc_bin tc < length info \<and> (\<forall>i<length info. 2 \<le> info ! i)
     \<and> (\<forall>i<SC_NBINS. 1 \<le> tc_lg_fill_div tc ! i \<and> 1 \<le> info ! i div 2 ^ (tc_lg_fill_div tc ! i))"

text \<open>\<open>U\<close>: the pointers of each class that are in use outside of this cache.\<close>

definition caches_ok :: "nat list \<Rightarrow> tcache \<Rightarrow> (nat \<Rightarrow> 64 word set) \<Rightarrow> bool" where
  "caches_ok info tc U \<longleftrightarrow>
     (\<forall>i<length info. cache_bin_ok (info ! i) (tc_bin tc i) \<and> distinct (cached (tc_bin tc i))
        \<and> U i \<inter> set (cached (tc_bin tc i)) = {})
     \<and> (\<forall>i<length info. \<forall>j<length info. SC_NBINS \<le> i \<longrightarrow> SC_NBINS \<le> j \<longrightarrow> i \<noteq> j \<longrightarrow>
          (U i \<union> set (cached (tc_bin tc i))) \<inter> (U j \<union> set (cached (tc_bin tc j))) = {})"

definition held :: "tcache \<Rightarrow> (nat \<Rightarrow> 64 word set) \<Rightarrow> nat \<Rightarrow> 64 word set" where
  "held tc U i = U i \<union> set (cached (tc_bin tc i))"

definition tcache_inv ::
  "sc_data_t \<Rightarrow> size_t \<Rightarrow> nat list \<Rightarrow> heap \<Rightarrow> tcache \<Rightarrow> (nat \<Rightarrow> 64 word set) \<Rightarrow> (nat \<Rightarrow> 64 word set) \<Rightarrow> bool" where
  "tcache_inv d k info hp tc U own \<longleftrightarrow> tc_shape info tc \<and> caches_ok info tc U
     \<and> arena_inv d k (hp_arenas hp 0) own (held tc U)"

lemma tc_bin_small:
  assumes "tc_shape info tc" "i < SC_NBINS"
  shows "read_at (tc_bins_small tc) i = Some (tc_bin tc i)"
    "write_at (tc_bins_small tc) i b = Some ((tc_bins_small tc)[i := b])"
    "tc_bin (tc\<lparr>tc_bins_small := (tc_bins_small tc)[i := b]\<rparr>) = (tc_bin tc)(i := b)"
    "i < length info"
  using assms by (auto simp: tc_shape_def tc_bin_def fun_eq_iff)

lemma tc_bin_large:
  assumes "tc_shape info tc" "SC_NBINS \<le> i" "i < length info"
  shows "read_at (tc_bins_large tc) (i - SC_NBINS) = Some (tc_bin tc i)"
    "write_at (tc_bins_large tc) (i - SC_NBINS) b = Some ((tc_bins_large tc)[i - SC_NBINS := b])"
    "tc_bin (tc\<lparr>tc_bins_large := (tc_bins_large tc)[i - SC_NBINS := b]\<rparr>) = (tc_bin tc)(i := b)"
proof -
  have l: "i - SC_NBINS < length (tc_bins_large tc)" using assms by (auto simp: tc_shape_def)
  then show "read_at (tc_bins_large tc) (i - SC_NBINS) = Some (tc_bin tc i)"
    "write_at (tc_bins_large tc) (i - SC_NBINS) b = Some ((tc_bins_large tc)[i - SC_NBINS := b])"
    using assms(2) by (simp_all add: tc_bin_def)
  have "j - SC_NBINS = i - SC_NBINS \<longleftrightarrow> j = i" if "SC_NBINS \<le> j" for j using that assms(2) by auto
  then show "tc_bin (tc\<lparr>tc_bins_large := (tc_bins_large tc)[i - SC_NBINS := b]\<rparr>) = (tc_bin tc)(i := b)"
    using l assms(2) by (auto simp: tc_bin_def fun_eq_iff nth_list_update)
qed

lemma tc_shape_bins [simp]:
  "tc_shape info (tc\<lparr>tc_bins_small := (tc_bins_small tc)[i := b]\<rparr>) = tc_shape info tc"
  "tc_shape info (tc\<lparr>tc_bins_large := (tc_bins_large tc)[j := b]\<rparr>) = tc_shape info tc"
  "tc_shape info (tc\<lparr>tc_gc_ticker := t\<rparr>) = tc_shape info tc"
  by (simp_all add: tc_shape_def)

lemma tc_bin_fields [simp]:
  "tc_bin (tc\<lparr>tc_lg_fill_div := lgs\<rparr>) = tc_bin tc" "tc_bin (tc\<lparr>tc_next_gc_bin := n\<rparr>) = tc_bin tc"
  "tc_bin (tc\<lparr>tc_gc_ticker := t\<rparr>) = tc_bin tc"
  by (simp_all add: tc_bin_def fun_eq_iff)

lemma tc_shape_gc:
  assumes "tc_shape info tc" "1 \<le> lg" "i < SC_NBINS \<longrightarrow> 1 \<le> info ! i div 2 ^ lg" "n < length info"
  shows "tc_shape info (tc\<lparr>tc_lg_fill_div := (tc_lg_fill_div tc)[i := lg], tc_next_gc_bin := n\<rparr>)"
proof -
  have "(tc_lg_fill_div tc)[i := lg] ! j = (if j = i then lg else tc_lg_fill_div tc ! j)" if "j < SC_NBINS" for j
    using assms(1) that by (simp add: tc_shape_def nth_list_update)
  with assms show ?thesis by (simp add: tc_shape_def)
qed

lemma caches_ok_cong: "tc_bin tc' = tc_bin tc \<Longrightarrow> caches_ok info tc' U = caches_ok info tc U"
  by (simp add: caches_ok_def)

lemma held_cong: "tc_bin tc' = tc_bin tc \<Longrightarrow> held tc' U = held tc U"
  by (simp add: held_def fun_eq_iff)

text \<open>Pointers that no large class of the cache holds.\<close>

definition large_fresh :: "nat list \<Rightarrow> tcache \<Rightarrow> (nat \<Rightarrow> 64 word set) \<Rightarrow> 64 word \<Rightarrow> bool" where
  "large_fresh info tc U p \<longleftrightarrow> (\<forall>j<length info. SC_NBINS \<le> j \<longrightarrow> p \<notin> held tc U j)"

lemma caches_ok_step:
  assumes "caches_ok info tc U" "tc_bin tc' = (tc_bin tc)(i := b)" "cache_bin_ok (info ! i) b"
    and "distinct (cached b)" "A \<inter> set (cached b) = {}"
    and "SC_NBINS \<le> i \<longrightarrow> (\<forall>p \<in> A \<union> set (cached b). p \<in> held tc U i \<or> large_fresh info tc U p)"
  shows "caches_ok info tc' (U(i := A))"
proof -
  have bins: "cache_bin_ok (info ! j) (tc_bin tc' j) \<and> distinct (cached (tc_bin tc' j))
      \<and> (U(i := A)) j \<inter> set (cached (tc_bin tc' j)) = {}" if "j < length info" for j
    using assms(1-5) that by (cases "j = i") (simp_all add: caches_ok_def)
  have disj: "held tc U j \<inter> held tc U j' = {}"
    if "SC_NBINS \<le> j" "SC_NBINS \<le> j'" "j \<noteq> j'" "j < length info" "j' < length info" for j j'
    using assms(1) that by (simp add: caches_ok_def held_def)
  have h: "held tc' (U(i := A)) j = (if j = i then A \<union> set (cached b) else held tc U j)" for j
    using assms(2) by (simp add: held_def)
  have "held tc' (U(i := A)) j \<inter> held tc' (U(i := A)) j' = {}"
    if "SC_NBINS \<le> j" "SC_NBINS \<le> j'" "j \<noteq> j'" "j < length info" "j' < length info" for j j'
    using assms(6) disj [OF that] that unfolding h large_fresh_def by (auto split: if_splits)
  with bins show ?thesis unfolding caches_ok_def held_def by blast
qed

lemma held_step:
  "tc_bin tc' = (tc_bin tc)(i := b) \<Longrightarrow> held tc' (U(i := A)) = (held tc U)(i := A \<union> set (cached b))"
  by (simp add: held_def fun_eq_iff)

lemma arena_inv_cong:
  "(\<And>i. i < SC_NBINS \<Longrightarrow> L i = L' i) \<Longrightarrow> arena_inv d k ar own L = arena_inv d k ar own L'"
  by (simp add: arena_inv_def)

section \<open>The operations\<close>

lemma set_minus_take:
  "distinct xs \<Longrightarrow> U \<inter> set xs = {} \<Longrightarrow> (U \<union> set xs) - set (take m xs) = U \<union> set (drop m xs)"
proof -
  assume "distinct xs" "U \<inter> set xs = {}"
  moreover have "set xs = set (take m xs) \<union> set (drop m xs)"
    unfolding set_append [symmetric] by simp
  moreover have "set (take m xs) \<inter> set (drop m xs) = {}"
    using \<open>distinct xs\<close> by (simp add: set_take_disj_set_drop_if_distinct)
  ultimately show ?thesis by blast
qed

text \<open>What a flush of bin \<open>i\<close> leaves.\<close>

lemma caches_ok_flush:
  assumes "tcache_inv d k info hp tc U own" "i < length info" "cache_bin_ok (info ! i) b"
    and "cached b = drop m (cached (tc_bin tc i))" "tc_bin tc' = (tc_bin tc)(i := b)"
  shows "caches_ok info tc' U" "held tc' U = (held tc U)(i := held tc U i - set (take m (cached (tc_bin tc i))))"
proof -
  have c: "caches_ok info tc U" using assms(1) by (simp add: tcache_inv_def)
  then have d: "distinct (cached (tc_bin tc i))" "U i \<inter> set (cached (tc_bin tc i)) = {}"
    using assms(2) by (simp_all add: caches_ok_def)
  have "distinct (cached b)" "U i \<inter> set (cached b) = {}" "U i \<union> set (cached b) \<subseteq> held tc U i"
    using d set_drop_subset [of m "cached (tc_bin tc i)"] unfolding assms(4) held_def by auto
  with caches_ok_step [OF c assms(5,3), of "U i"] show "caches_ok info tc' U" by auto
  show "held tc' U = (held tc U)(i := held tc U i - set (take m (cached (tc_bin tc i))))"
    using held_step [OF assms(5), of U "U i"] set_minus_take [OF d, of m] unfolding assms(4)
    by (simp add: held_def [of tc U i])
qed

lemma gc_rem: "cache_bin_ok m bin \<Longrightarrow>
    nat (cb_ncached bin - cb_low_water bin + cb_low_water bin div 4) \<le> length (cached bin)" if "0 < cb_low_water bin"
  using length_cached [of m bin] that by (simp add: cache_bin_ok_def)

lemma low_water_reset [simp]:
  "cache_bin_ok m bin \<Longrightarrow> cache_bin_ok m (bin\<lparr>cb_low_water := cb_ncached bin\<rparr>)"
  "cached (bin\<lparr>cb_low_water := l\<rparr>) = cached bin"
  by (simp_all add: cache_bin_ok_def cached_def)

lemma gc_small_ok:
  assumes "table_inv d" "i < SC_NBINS" "i < length info" "env_ok d info ce" "arena_inv d k (hp_arenas hp 0) own L"
    and "iealloc_ok d (hp_arenas hp 0) own (ce_iealloc ce)"
    and "cache_bin_ok n bin" "distinct (cached bin)" "set (cached bin) \<subseteq> L i"
    and "1 \<le> lg" "1 \<le> info ! i div 2 ^ lg"
  shows "\<exists>hp' b' lg' own' m. gc_small_bin ce i hp bin lg = Some (hp', b', lg') \<and> cache_bin_ok n b'
    \<and> cached b' = drop m (cached bin) \<and> arena_inv d k (hp_arenas hp' 0) own' (L(i := L i - set (take m (cached bin))))
    \<and> iealloc_ok d (hp_arenas hp' 0) own' (ce_iealloc ce) \<and> 1 \<le> lg' \<and> 1 \<le> info ! i div 2 ^ lg'"
proof (cases "0 < cb_low_water bin")
  case True
  let ?rem = "nat (cb_ncached bin - cb_low_water bin + cb_low_water bin div 4)"
  from flush_small [OF assms(1,2,4-9) gc_rem [OF True assms(7)]] obtain ar' tbin' own' where
    f: "tcache_bin_flush_small ce i ?rem hp bin = Some (hp\<lparr>hp_arenas := (hp_arenas hp)(0 := ar')\<rparr>, tbin')"
      "arena_inv d k ar' own' (L(i := L i - set (take (length (cached bin) - ?rem) (cached bin))))"
      "iealloc_ok d ar' own' (ce_iealloc ce)" "cache_bin_ok n tbin'"
      "cached tbin' = drop (length (cached bin) - ?rem) (cached bin)" by blast
  have info: "read_at (ce_info ce) i = Some (info ! i)" using assms(3,4) by (simp add: env_ok_def)
  let ?lg = "if 1 \<le> info ! i div 2 ^ (lg + 1) then lg + 1 else lg"
  have "gc_small_bin ce i hp bin lg = Some (hp\<lparr>hp_arenas := (hp_arenas hp)(0 := ar')\<rparr>, tbin', ?lg)"
    using True f(1) info by (simp add: gc_small_bin_def)
  moreover have "1 \<le> ?lg" "1 \<le> info ! i div 2 ^ ?lg" using assms(10,11) by auto
  moreover have "hp_arenas (hp\<lparr>hp_arenas := (hp_arenas hp)(0 := ar')\<rparr>) 0 = ar'" by simp
  ultimately show ?thesis using f(2-5) by metis
next
  case False
  let ?lg = "if cb_low_water bin < 0 \<and> 1 < lg then lg - 1 else lg"
  have "1 \<le> info ! i div 2 ^ ?lg"
  proof -
    have "info ! i div 2 ^ lg \<le> info ! i div 2 ^ ?lg" by (intro div_le_mono2 power_increasing) auto
    with assms(11) show ?thesis by linarith
  qed
  moreover have "1 \<le> ?lg" using assms(10) by auto
  moreover have "gc_small_bin ce i hp bin lg = Some (hp, bin, ?lg)" using False by (simp add: gc_small_bin_def)
  moreover have "arena_inv d k (hp_arenas hp 0) own (L(i := L i - set (take 0 (cached bin))))"
    "cached bin = drop 0 (cached bin)" using assms(5) by simp_all
  ultimately show ?thesis using assms(6,7) by blast
qed

lemma gc_large_ok:
  assumes "cache_bin_ok n bin"
  shows "\<exists>hp' b' m. gc_large_bin ce i hp bin = Some (hp', b') \<and> cache_bin_ok n b'
    \<and> cached b' = drop m (cached bin) \<and> hp_arenas hp' = hp_arenas hp"
proof (cases "0 < cb_low_water bin")
  case True
  from flush_large [OF assms gc_rem [OF True assms], of ce i hp] show ?thesis
    unfolding gc_large_bin_def using True by auto
next
  case False
  then have "gc_large_bin ce i hp bin = Some (hp, bin)" "cached bin = drop 0 (cached bin)"
    by (simp_all add: gc_large_bin_def)
  with assms show ?thesis by blast
qed

lemma event_ok:
  assumes "table_inv d" "env_ok d info ce" "tcache_inv d k info hp tc U own"
    and "iealloc_ok d (hp_arenas hp 0) own (ce_iealloc ce)"
  shows "\<exists>hp' tc' own'. tcache_event ce hp tc = Some (hp', tc') \<and> tcache_inv d k info hp' tc' U own'
    \<and> iealloc_ok d (hp_arenas hp' 0) own' (ce_iealloc ce)"
proof -
  obtain fired ticker where tick: "ticker_tick (tc_gc_ticker tc) = (fired, ticker)" by fastforce
  define t where "t = tc\<lparr>tc_gc_ticker := ticker\<rparr>"
  have inv: "tcache_inv d k info hp t U own" "tc_next_gc_bin t < length info" "tc_shape info t"
    using assms(3) caches_ok_cong [of t tc] held_cong [of t tc] by (simp_all add: tcache_inv_def t_def tc_shape_def)
  let ?i = "tc_next_gc_bin t" and ?bin = "tc_bin t (tc_next_gc_bin t)"
  let ?next = "if ?i + 1 = length (ce_info ce) then 0 else ?i + 1"
  have info: "ce_info ce = info" using assms(2) by (simp add: env_ok_def)
  have nx: "?next < length info" using inv(2) unfolding info by auto
  have bok: "cache_bin_ok (info ! ?i) ?bin" "distinct (cached ?bin)"
    using inv(1,2) by (simp_all add: tcache_inv_def caches_ok_def)
  have hard: ?thesis if "tcache_event_hard ce hp t = Some (hp', t')" "tcache_inv d k info hp' t' U own'"
      "iealloc_ok d (hp_arenas hp' 0) own' (ce_iealloc ce)" "fired" "TCACHE_GC_INCR \<noteq> 0" for hp' t' own'
  proof -
    have "tcache_event ce hp tc = Some (hp', t')" using that(1,4,5) by (simp add: tcache_event_def tick t_def)
    with that(2,3) show ?thesis by blast
  qed
  show ?thesis
  proof (cases "TCACHE_GC_INCR \<noteq> 0 \<and> fired")
    case False
    then show ?thesis
      using inv(1) assms(3,4) by (cases "TCACHE_GC_INCR = 0") (auto simp: tcache_event_def tick t_def)
  next
    case True
    show ?thesis
    proof (cases "?i < SC_NBINS")
      case small: True
      note b = tc_bin_small [OF inv(3) small]
      have sh: "read_at (tc_lg_fill_div t) ?i = Some (tc_lg_fill_div t ! ?i)" "1 \<le> tc_lg_fill_div t ! ?i"
        "write_at (tc_lg_fill_div t) ?i lg = Some ((tc_lg_fill_div t)[?i := lg])"
        "1 \<le> info ! ?i div 2 ^ (tc_lg_fill_div t ! ?i)" for lg using inv(3) small by (simp_all add: tc_shape_def)
      have ai: "arena_inv d k (hp_arenas hp 0) own (held t U)" using inv(1) by (simp add: tcache_inv_def)
      have sub: "set (cached ?bin) \<subseteq> held t U ?i" by (simp add: held_def)
      from gc_small_ok [OF assms(1) small inv(2) assms(2) ai assms(4) bok sub sh(2,4)] obtain hp' b' lg' own' m where
        g: "gc_small_bin ce ?i hp ?bin (tc_lg_fill_div t ! ?i) = Some (hp', b', lg')" "cache_bin_ok (info ! ?i) b'"
          "cached b' = drop m (cached ?bin)"
          "arena_inv d k (hp_arenas hp' 0) own' ((held t U)(?i := held t U ?i - set (take m (cached ?bin))))"
          "iealloc_ok d (hp_arenas hp' 0) own' (ce_iealloc ce)" "1 \<le> lg'" "1 \<le> info ! ?i div 2 ^ lg'" by blast
      let ?b = "b'\<lparr>cb_low_water := cb_ncached b'\<rparr>"
      let ?t = "t\<lparr>tc_bins_small := (tc_bins_small t)[?i := ?b], tc_lg_fill_div := (tc_lg_fill_div t)[?i := lg'],
        tc_next_gc_bin := ?next\<rparr>"
      have bin: "tc_bin ?t = (tc_bin t)(?i := ?b)" using b(3) by (simp add: tc_bin_def fun_eq_iff)
      have cb: "cache_bin_ok (info ! ?i) ?b" "cached ?b = drop m (cached ?bin)" using g(2,3) by simp_all
      note fl = caches_ok_flush [OF inv(1,2) cb bin]
      have "tc_shape info ?t"
        using tc_shape_gc [of info "t\<lparr>tc_bins_small := (tc_bins_small t)[?i := ?b]\<rparr>" lg' ?i ?next] inv(3) g(6,7) nx by simp
      then have "tcache_inv d k info hp' ?t U own'"
        using fl g(4) unfolding tcache_inv_def fl(2) by blast
      moreover have "tcache_event_hard ce hp t = Some (hp', ?t)"
        using small g(1) sh b(1,2) by (simp add: tcache_event_hard_def Let_def)
      ultimately show ?thesis using hard g(5) True by blast
    next
      case large: False
      note b = tc_bin_large [OF inv(3) _ inv(2)]
      have le: "SC_NBINS \<le> ?i" using large by simp
      from gc_large_ok [OF bok(1), of ce ?i hp] obtain hp' b' m where
        g: "gc_large_bin ce ?i hp ?bin = Some (hp', b')" "cache_bin_ok (info ! ?i) b'"
          "cached b' = drop m (cached ?bin)" "hp_arenas hp' = hp_arenas hp" by blast
      let ?b = "b'\<lparr>cb_low_water := cb_ncached b'\<rparr>"
      let ?t = "t\<lparr>tc_bins_large := (tc_bins_large t)[?i - SC_NBINS := ?b], tc_next_gc_bin := ?next\<rparr>"
      have bin: "tc_bin ?t = (tc_bin t)(?i := ?b)" using b(3) [OF le] by (simp add: tc_bin_def fun_eq_iff)
      have cb: "cache_bin_ok (info ! ?i) ?b" "cached ?b = drop m (cached ?bin)" using g(2,3) by simp_all
      note fl = caches_ok_flush [OF inv(1,2) cb bin]
      have "arena_inv d k (hp_arenas hp' 0) own (held ?t U)"
        using inv(1) le unfolding tcache_inv_def fl(2) g(4) by (subst arena_inv_cong [of _ "held t U"]) auto
      moreover have "tc_shape info ?t" using inv(3) nx by (simp add: tc_shape_def)
      ultimately have "tcache_inv d k info hp' ?t U own" using fl(1) unfolding tcache_inv_def by blast
      moreover have "tcache_event_hard ce hp t = Some (hp', ?t)"
        using large g(1) b(1,2) [OF le] by (simp add: tcache_event_hard_def Let_def)
      ultimately show ?thesis using hard assms(4) True unfolding g(4) [symmetric] by blast
    qed
  qed
qed

text \<open>An allocation from a small class, and what it needs of its environment.\<close>

definition small_env ::
  "sc_data_t \<Rightarrow> nat list \<Rightarrow> heap \<Rightarrow> (nat \<Rightarrow> 64 word set) \<Rightarrow> nat \<Rightarrow> cache_env \<Rightarrow> (nat \<Rightarrow> slab_source) \<Rightarrow> bool" where
  "small_env d info hp own i ce srcs \<longleftrightarrow> env_ok d info ce \<and> iealloc_ok d (hp_arenas hp 0) own (ce_iealloc ce)
     \<and> (\<forall>n\<le>info ! i. sources_ok d (hp_arenas hp 0) own i (ce_iealloc ce) (map srcs [0..<n]))"

lemma tcache_invD:
  assumes "tcache_inv d k info hp tc U own" "i < length info"
  shows "cache_bin_ok (info ! i) (tc_bin tc i)" "distinct (cached (tc_bin tc i))"
    "U i \<inter> set (cached (tc_bin tc i)) = {}" "tc_shape info tc" "arena_inv d k (hp_arenas hp 0) own (held tc U)"
    "caches_ok info tc U"
  using assms by (simp_all add: tcache_inv_def caches_ok_def)

lemma tcache_inv_small:
  assumes "tcache_inv d k info hp tc U own" "i < SC_NBINS" "cache_bin_ok (info ! i) b" "distinct (cached b)"
    and "A \<inter> set (cached b) = {}" "arena_inv d k (hp_arenas hp' 0) own' ((held tc U)(i := A \<union> set (cached b)))"
  shows "tcache_inv d k info hp' (tc\<lparr>tc_bins_small := (tc_bins_small tc)[i := b]\<rparr>) (U(i := A)) own'"
proof -
  have sh: "tc_shape info tc" "caches_ok info tc U" using assms(1) by (simp_all add: tcache_inv_def)
  note b = tc_bin_small(3) [OF sh(1) assms(2), of b]
  have "caches_ok info (tc\<lparr>tc_bins_small := (tc_bins_small tc)[i := b]\<rparr>) (U(i := A))"
    using caches_ok_step [OF sh(2) b assms(3-5)] assms(2) by simp
  with assms(6) sh(1) show ?thesis unfolding tcache_inv_def held_step [OF b] by simp
qed

lemma tcache_inv_large:
  assumes "tcache_inv d k info hp tc U own" "SC_NBINS \<le> i" "i < length info" "cache_bin_ok (info ! i) b"
    and "distinct (cached b)" "A \<inter> set (cached b) = {}"
    and "\<forall>p \<in> A \<union> set (cached b). p \<in> held tc U i \<or> large_fresh info tc U p" "hp_arenas hp' = hp_arenas hp"
  shows "tcache_inv d k info hp' (tc\<lparr>tc_bins_large := (tc_bins_large tc)[i - SC_NBINS := b]\<rparr>) (U(i := A)) own"
proof -
  have sh: "tc_shape info tc" "caches_ok info tc U" "arena_inv d k (hp_arenas hp 0) own (held tc U)"
    using assms(1) by (simp_all add: tcache_inv_def)
  note b = tc_bin_large(3) [OF sh(1) assms(2,3), of b]
  have "arena_inv d k (hp_arenas hp 0) own ((held tc U)(i := A \<union> set (cached b)))"
    using sh(3) assms(2) by (subst arena_inv_cong [of _ "held tc U"]) auto
  moreover have "caches_ok info (tc\<lparr>tc_bins_large := (tc_bins_large tc)[i - SC_NBINS := b]\<rparr>) (U(i := A))"
    using caches_ok_step [OF sh(2) b assms(4-6)] assms(7) by blast
  ultimately show ?thesis using sh(1) unfolding tcache_inv_def held_step [OF b] assms(8) by simp
qed

lemma alloc_small_ok:
  assumes "table_inv d" "i < SC_NBINS" "tcache_inv d k info hp tc U own" "small_env d info hp own i ce srcs"
    and "arena = Some 0 \<or> arena = None"
  shows "\<exists>ret hp' tc' own'. tcache_alloc_small ce arena srcs i hp tc = Some (ret, hp', tc')
    \<and> (case ret of
         None \<Rightarrow> tcache_inv d k info hp' tc' U own' \<and> cached (tc_bin tc i) = [] \<and> (arena = None \<or> slab_answer (srcs 0) = None)
       | Some p \<Rightarrow> tcache_inv d k info hp' tc' (U(i := insert p (U i))) own' \<and> p \<notin> U i)"
proof -
  have sh: "tc_shape info tc" using assms(3) by (simp add: tcache_inv_def)
  note b = tc_bin_small [OF sh assms(2)] and inv = tcache_invD [OF assms(3) tc_bin_small(4) [OF sh assms(2)]]
  have env: "env_ok d info ce" "iealloc_ok d (hp_arenas hp 0) own (ce_iealloc ce)"
    "ce_bins ce = bin_boot d" "ce_info ce = info" using assms(4) by (simp_all add: small_env_def env_ok_def)
  have upd: "(held tc U)(i := held tc U i) = held tc U" by simp
  let ?set = "\<lambda>bin. tc\<lparr>tc_bins_small := (tc_bins_small tc)[i := bin]\<rparr>"
  let ?bin = "tc_bin tc i"
  show ?thesis
  proof (cases "cached ?bin" rule: rev_cases)
    case Nil
    have L: "held tc U i = U i" by (simp add: held_def Nil)
    from alloc_easy_empty [OF inv(1) Nil] obtain bin where
      e: "cache_bin_alloc_easy ?bin = Some (None, bin)" "cache_bin_ok (info ! i) bin" "cached bin = []" by blast
    show ?thesis
    proof (cases "arena = None")
      case True
      have "tcache_alloc_small ce arena srcs i hp tc = Some (None, hp, ?set bin)"
        using b e(1) True by (simp add: tcache_alloc_small_def)
      moreover have "tcache_inv d k info hp (?set bin) (U(i := U i)) own"
        by (rule tcache_inv_small [OF assms(3,2) e(2)]) (use e(3) inv(5) L upd in simp_all)
      ultimately show ?thesis using Nil True by auto
    next
      case False
      then have arena: "arena = Some 0" using assms(5) by blast
      let ?n = "info ! i div 2 ^ (tc_lg_fill_div tc ! i)"
      have n: "1 \<le> ?n" "read_at (tc_lg_fill_div tc) i = Some (tc_lg_fill_div tc ! i)"
        "read_at info i = Some (info ! i)" using sh assms(2) b(4) by (simp_all add: tc_shape_def)
      have src: "sources_ok d (hp_arenas hp 0) own i (ce_iealloc ce) (map srcs [0..<?n])"
        using assms(4) by (simp add: small_env_def)
      have len: "length (map srcs [0..<?n]) \<le> info ! i" by simp
      from alloc_small_hard [OF assms(1,2) inv(5) src env(2) e(2,3) len] obtain ret qs ar' tbin' own' where
        h: "tcache_alloc_small_hard (bin_boot d) (map srcs [0..<?n]) (hp_arenas hp 0) bin i = Some (ret, ar', tbin')"
          "cache_bin_ok (info ! i) tbin'" "arena_inv d k ar' own' ((held tc U)(i := held tc U i \<union> set qs))"
          "iealloc_ok d ar' own' (ce_iealloc ce)" "distinct qs" "set qs \<inter> held tc U i = {}"
          "length qs = length (map srcs [0..<?n]) \<or> slab_answer (map srcs [0..<?n] ! length qs) = None"
          "case ret of None \<Rightarrow> qs = [] \<and> cached tbin' = [] | Some p \<Rightarrow> rev qs = cached tbin' @ [p]"
        by blast
      let ?hp = "hp\<lparr>hp_arenas := (hp_arenas hp)(0 := ar')\<rparr>"
      show ?thesis
      proof (cases ret)
        case None
        then have q: "qs = []" "cached tbin' = []" using h(8) by simp_all
        have "tcache_alloc_small ce arena srcs i hp tc = Some (None, ?hp, ?set tbin')"
          using b e(1) arena n(2,3) h(1) None by (simp add: tcache_alloc_small_def env)
        moreover have "tcache_inv d k info ?hp (?set tbin') (U(i := U i)) own'"
          by (rule tcache_inv_small [OF assms(3,2) h(2)]) (use q h(3) L upd in simp_all)
        moreover have "slab_answer (srcs 0) = None" using h(7) q(1) n(1) by simp
        ultimately show ?thesis using Nil by auto
      next
        case (Some p)
        let ?b = "tbin'\<lparr>cb_nrequests := cb_nrequests tbin' + 1\<rparr>"
        have q: "rev qs = cached tbin' @ [p]" using h(8) Some by simp
        have d: "distinct (cached tbin' @ [p])" "set (cached tbin' @ [p]) \<inter> U i = {}"
          "U i \<union> set qs = insert p (U i) \<union> set (cached tbin')"
          using h(5,6) unfolding L q [symmetric] distinct_rev set_rev by simp_all
            (simp only: set_rev [of qs, symmetric] q, auto)
        have "arena_inv d k (hp_arenas ?hp 0) own' ((held tc U)(i := insert p (U i) \<union> set (cached ?b)))"
          using h(3) d(3) L by simp
        from tcache_inv_small [OF assms(3,2) _ _ _ this] h(2) d(1,2) have
          "tcache_inv d k info ?hp (?set ?b) (U(i := insert p (U i))) own'" by auto
        from event_ok [OF assms(1) env(1) this, of] h(4) obtain hp' tc' own'' where
          "tcache_event ce ?hp (?set ?b) = Some (hp', tc')" "tcache_inv d k info hp' tc' (U(i := insert p (U i))) own''"
          by auto
        moreover have "p \<notin> U i" using d(2) by simp
        ultimately show ?thesis
          using b e(1) arena n(2,3) h(1) Some by (simp add: tcache_alloc_small_def env) (rule exI)
      qed
    qed
  next
    case (snoc ps p)
    from alloc_easy_cons [OF inv(1) snoc] obtain bin where
      e: "cache_bin_alloc_easy ?bin = Some (Some p, bin)" "cache_bin_ok (info ! i) bin" "cached bin = ps" by blast
    let ?b = "bin\<lparr>cb_nrequests := cb_nrequests bin + 1\<rparr>"
    have d: "distinct ps" "p \<notin> set ps" "p \<notin> U i" "U i \<inter> set ps = {}" using inv(2,3) snoc by auto
    have L: "held tc U i = insert p (U i) \<union> set ps" by (auto simp: held_def snoc)
    have "arena_inv d k (hp_arenas hp 0) own ((held tc U)(i := insert p (U i) \<union> set (cached ?b)))"
      using inv(5) upd unfolding L by (simp add: e(3))
    from tcache_inv_small [OF assms(3,2) _ _ _ this] e(2,3) d have
      "tcache_inv d k info hp (?set ?b) (U(i := insert p (U i))) own" by auto
    from event_ok [OF assms(1) env(1) this env(2)] obtain hp' tc' own'' where
      "tcache_event ce hp (?set ?b) = Some (hp', tc')" "tcache_inv d k info hp' tc' (U(i := insert p (U i))) own''"
      by auto
    then show ?thesis using b e(1) d(3) by (simp add: tcache_alloc_small_def) (rule exI)
  qed
qed

lemma dalloc_small_ok:
  assumes "table_inv d" "i < SC_NBINS" "tcache_inv d k info hp tc U own" "env_ok d info ce"
    and "iealloc_ok d (hp_arenas hp 0) own (ce_iealloc ce)" "p \<in> U i"
  shows "\<exists>hp' tc' own'. tcache_dalloc_small ce p i hp tc = Some (hp', tc')
    \<and> tcache_inv d k info hp' tc' (U(i := U i - {p})) own'"
proof -
  have sh: "tc_shape info tc" using assms(3) by (simp add: tcache_inv_def)
  note b = tc_bin_small [OF sh assms(2)] and inv = tcache_invD [OF assms(3) tc_bin_small(4) [OF sh assms(2)]]
  have info: "read_at (ce_info ce) i = Some (info ! i)" "2 \<le> info ! i"
    using assms(4) sh b(4) by (simp_all add: env_ok_def tc_shape_def)
  let ?set = "\<lambda>bin. tc\<lparr>tc_bins_small := (tc_bins_small tc)[i := bin]\<rparr>"
  let ?bin = "tc_bin tc i" and ?full = "cb_ncached (tc_bin tc i) = int (info ! i)"
  have "\<exists>hp1 bin1 own1 m. (if ?full then tcache_bin_flush_small ce i (info ! i div 2) hp ?bin else Some (hp, ?bin)) = Some (hp1, bin1)
    \<and> arena_inv d k (hp_arenas hp1 0) own1 ((held tc U)(i := U i \<union> set (cached bin1)))
    \<and> iealloc_ok d (hp_arenas hp1 0) own1 (ce_iealloc ce) \<and> cache_bin_ok (info ! i) bin1
    \<and> cached bin1 = drop m (cached ?bin) \<and> length (cached bin1) < info ! i"
  proof (cases ?full)
    case True
    then have len: "length (cached ?bin) = info ! i" using length_cached [OF inv(1)] by simp
    then have rem: "info ! i div 2 \<le> length (cached ?bin)" by simp
    have sub: "set (cached ?bin) \<subseteq> held tc U i" by (simp add: held_def)
    from flush_small [OF assms(1,2,4) inv(5) assms(5) inv(1,2) sub rem] obtain ar' tbin' own' where
      f: "tcache_bin_flush_small ce i (info ! i div 2) hp ?bin = Some (hp\<lparr>hp_arenas := (hp_arenas hp)(0 := ar')\<rparr>, tbin')"
        "arena_inv d k ar' own' ((held tc U)(i := held tc U i - set (take (length (cached ?bin) - info ! i div 2) (cached ?bin))))"
        "iealloc_ok d ar' own' (ce_iealloc ce)" "cache_bin_ok (info ! i) tbin'"
        "cached tbin' = drop (length (cached ?bin) - info ! i div 2) (cached ?bin)" by blast
    have "arena_inv d k ar' own' ((held tc U)(i := U i \<union> set (cached tbin')))"
      using f(2) set_minus_take [OF inv(2,3)] unfolding f(5) by (simp add: held_def [of tc U i])
    moreover have "length (cached tbin') < info ! i" using info(2) rem len by (simp add: f(5))
    moreover have "hp_arenas (hp\<lparr>hp_arenas := (hp_arenas hp)(0 := ar')\<rparr>) 0 = ar'" by simp
    ultimately show ?thesis unfolding if_P [OF True] using f(1,3-5) by metis
  next
    case False
    moreover have "length (cached ?bin) < info ! i"
      using False length_cached [OF inv(1)] inv(1) by (simp add: cache_bin_ok_def)
    moreover have "(held tc U)(i := U i \<union> set (cached ?bin)) = held tc U" by (simp add: held_def fun_eq_iff)
    moreover have "cached ?bin = drop 0 (cached ?bin)" by simp
    ultimately show ?thesis using inv(1,5) assms(5) by metis
  qed
  then obtain hp1 bin1 own1 m where
    f: "(if ?full then tcache_bin_flush_small ce i (info ! i div 2) hp ?bin else Some (hp, ?bin)) = Some (hp1, bin1)"
      "arena_inv d k (hp_arenas hp1 0) own1 ((held tc U)(i := U i \<union> set (cached bin1)))"
      "iealloc_ok d (hp_arenas hp1 0) own1 (ce_iealloc ce)" "cache_bin_ok (info ! i) bin1"
      "cached bin1 = drop m (cached ?bin)" "length (cached bin1) < info ! i" by blast
  from push_ok [OF f(4,6), of p] obtain bin2 where
    p: "cache_bin_push p bin1 = Some bin2" "cache_bin_ok (info ! i) bin2" "cached bin2 = cached bin1 @ [p]" by blast
  have "distinct (cached bin1)" "U i \<inter> set (cached bin1) = {}"
    using inv(2,3) set_drop_subset [of m "cached ?bin"] unfolding f(5) by auto
  then have d: "distinct (cached bin2)" "(U i - {p}) \<inter> set (cached bin2) = {}"
    using assms(6) by (auto simp: p(3))
  have "U i \<union> set (cached bin1) = (U i - {p}) \<union> set (cached bin2)" using assms(6) by (auto simp: p(3))
  with f(2) have "arena_inv d k (hp_arenas hp1 0) own1 ((held tc U)(i := (U i - {p}) \<union> set (cached bin2)))" by simp
  note i2 = tcache_inv_small [OF assms(3,2) p(2) d this]
  from event_ok [OF assms(1,4) i2 f(3)] obtain hp' tc' own' where
    "tcache_event ce hp1 (?set bin2) = Some (hp', tc')" "tcache_inv d k info hp' tc' (U(i := U i - {p})) own'" by blast
  moreover have "tcache_dalloc_small ce p i hp tc = tcache_event ce hp1 (?set bin2)"
    using b info(1) f(1) p(1) unfolding tcache_dalloc_small_def by simp
  ultimately show ?thesis by (metis (no_types))
qed

lemma alloc_large_ok:
  assumes "table_inv d" "SC_NBINS \<le> i" "i < length info" "tcache_inv d k info hp tc U own" "env_ok d info ce"
    and "iealloc_ok d (hp_arenas hp 0) own (ce_iealloc ce)" "\<forall>p. answer = Some p \<longrightarrow> large_fresh info tc U p"
  shows "\<exists>ret hp' tc' own'. tcache_alloc_large ce arena answer i hp tc = Some (ret, hp', tc')
    \<and> (case ret of
         None \<Rightarrow> tcache_inv d k info hp' tc' U own' \<and> cached (tc_bin tc i) = [] \<and> (arena = None \<or> answer = None)
       | Some p \<Rightarrow> tcache_inv d k info hp' tc' (U(i := insert p (U i))) own'
           \<and> (\<forall>j<length info. SC_NBINS \<le> j \<longrightarrow> p \<notin> U j))"
proof -
  note inv = tcache_invD [OF assms(4,3)]
  note b = tc_bin_large [OF inv(4) assms(2,3)]
  let ?set = "\<lambda>bin. tc\<lparr>tc_bins_large := (tc_bins_large tc)[i - SC_NBINS := bin]\<rparr>"
  let ?bin = "tc_bin tc i"
  have served: ?thesis
    if "\<exists>bin. tcache_alloc_large ce arena answer i hp tc = (case tcache_event ce hp (?set bin) of None \<Rightarrow> None
          | Some (hp, tc) \<Rightarrow> Some (Some p, hp, tc)) \<and> cache_bin_ok (info ! i) bin \<and> distinct (cached bin)
          \<and> insert p (U i) \<inter> set (cached bin) = {}
          \<and> (\<forall>q \<in> insert p (U i) \<union> set (cached bin). q \<in> held tc U i \<or> large_fresh info tc U q)"
      and p: "\<forall>j<length info. SC_NBINS \<le> j \<longrightarrow> p \<notin> U j" for p
  proof -
    from that(1) obtain bin where
      bin: "tcache_alloc_large ce arena answer i hp tc = (case tcache_event ce hp (?set bin) of None \<Rightarrow> None
          | Some (hp, tc) \<Rightarrow> Some (Some p, hp, tc))" "cache_bin_ok (info ! i) bin" "distinct (cached bin)"
        "insert p (U i) \<inter> set (cached bin) = {}"
        "\<forall>q \<in> insert p (U i) \<union> set (cached bin). q \<in> held tc U i \<or> large_fresh info tc U q" by blast
    note i2 = tcache_inv_large [OF assms(4,2,3) bin(2-5) refl]
    from event_ok [OF assms(1,5) i2 assms(6)] obtain hp' tc' own' where
      "tcache_event ce hp (?set bin) = Some (hp', tc')"
      "tcache_inv d k info hp' tc' (U(i := insert p (U i))) own'" by blast
    then show ?thesis using p unfolding bin(1) by (simp del: fun_upd_apply) (rule exI)
  qed
  have apart: "held tc U i \<inter> held tc U j = {}" if "j < length info" "SC_NBINS \<le> j" "j \<noteq> i" for j
    using inv(6) that assms(2,3) by (simp add: caches_ok_def held_def)
  show ?thesis
  proof (cases "cached ?bin" rule: rev_cases)
    case Nil
    from alloc_easy_empty [OF inv(1) Nil] obtain bin where
      e: "cache_bin_alloc_easy ?bin = Some (None, bin)" "cache_bin_ok (info ! i) bin" "cached bin = []" by blast
    show ?thesis
    proof (cases "if arena = None then None else answer")
      case None
      have "tcache_alloc_large ce arena answer i hp tc = Some (None, hp, ?set bin)"
        using b e(1) None by (simp add: tcache_alloc_large_def)
      moreover have "tcache_inv d k info hp (?set bin) (U(i := U i)) own"
        by (rule tcache_inv_large [OF assms(4,2,3) e(2)]) (use e(3) in \<open>simp_all add: held_def\<close>)
      ultimately show ?thesis using None Nil by (auto split: if_splits)
    next
      case (Some p)
      then have fr: "large_fresh info tc U p" using assms(7) by (simp split: if_splits)
      show ?thesis
      proof (rule served [of p])
        show "\<forall>j<length info. SC_NBINS \<le> j \<longrightarrow> p \<notin> U j" using fr by (simp add: large_fresh_def held_def)
        have "tcache_alloc_large ce arena answer i hp tc = (case tcache_event ce hp (?set bin) of None \<Rightarrow> None
          | Some (hp, tc) \<Rightarrow> Some (Some p, hp, tc))"
          using b e(1) Some by (cases "tcache_event ce hp (?set bin)") (simp_all add: tcache_alloc_large_def split: prod.split)
        then show "\<exists>bin. tcache_alloc_large ce arena answer i hp tc = (case tcache_event ce hp (?set bin) of None \<Rightarrow> None
          | Some (hp, tc) \<Rightarrow> Some (Some p, hp, tc)) \<and> cache_bin_ok (info ! i) bin \<and> distinct (cached bin)
          \<and> insert p (U i) \<inter> set (cached bin) = {}
          \<and> (\<forall>q \<in> insert p (U i) \<union> set (cached bin). q \<in> held tc U i \<or> large_fresh info tc U q)"
          using e(2,3) fr by (intro exI [of _ bin]) (auto simp: held_def)
      qed
    qed
  next
    case (snoc ps p)
    from alloc_easy_cons [OF inv(1) snoc] obtain bin where
      e: "cache_bin_alloc_easy ?bin = Some (Some p, bin)" "cache_bin_ok (info ! i) bin" "cached bin = ps" by blast
    let ?b = "bin\<lparr>cb_nrequests := cb_nrequests bin + 1\<rparr>"
    have d: "distinct ps" "p \<notin> set ps" "p \<notin> U i" "U i \<inter> set ps = {}" using inv(2,3) snoc by auto
    have L: "held tc U i = insert p (U i) \<union> set ps" by (auto simp: held_def snoc)
    show ?thesis
    proof (rule served [of p])
      show "\<forall>j<length info. SC_NBINS \<le> j \<longrightarrow> p \<notin> U j"
        using apart d(3) unfolding L by (auto simp: held_def)
      have "tcache_alloc_large ce arena answer i hp tc = (case tcache_event ce hp (?set ?b) of None \<Rightarrow> None
          | Some (hp, tc) \<Rightarrow> Some (Some p, hp, tc))"
        using b e(1) by (cases "tcache_event ce hp (?set ?b)") (simp_all add: tcache_alloc_large_def split: prod.split)
      then show "\<exists>bin. tcache_alloc_large ce arena answer i hp tc = (case tcache_event ce hp (?set bin) of None \<Rightarrow> None
          | Some (hp, tc) \<Rightarrow> Some (Some p, hp, tc)) \<and> cache_bin_ok (info ! i) bin \<and> distinct (cached bin)
          \<and> insert p (U i) \<inter> set (cached bin) = {}
          \<and> (\<forall>q \<in> insert p (U i) \<union> set (cached bin). q \<in> held tc U i \<or> large_fresh info tc U q)"
        using e(2,3) d unfolding L by (intro exI [of _ ?b]) auto
    qed
  qed
qed

lemma dalloc_large_ok:
  assumes "table_inv d" "SC_NBINS \<le> i" "i < length info" "tcache_inv d k info hp tc U own" "env_ok d info ce"
    and "iealloc_ok d (hp_arenas hp 0) own (ce_iealloc ce)" "p \<in> U i"
  shows "\<exists>hp' tc' own'. tcache_dalloc_large ce p i hp tc = Some (hp', tc')
    \<and> tcache_inv d k info hp' tc' (U(i := U i - {p})) own'"
proof -
  note inv = tcache_invD [OF assms(4,3)]
  note b = tc_bin_large [OF inv(4) assms(2,3)]
  have info: "read_at (ce_info ce) i = Some (info ! i)" "2 \<le> info ! i"
    using assms(3,5) inv(4) by (simp_all add: env_ok_def tc_shape_def)
  let ?set = "\<lambda>bin. tc\<lparr>tc_bins_large := (tc_bins_large tc)[i - SC_NBINS := bin]\<rparr>"
  let ?bin = "tc_bin tc i" and ?full = "cb_ncached (tc_bin tc i) = int (info ! i)"
  have "\<exists>hp1 bin1 m. (if ?full then tcache_bin_flush_large ce i (info ! i div 2) hp ?bin else Some (hp, ?bin)) = Some (hp1, bin1)
    \<and> hp_arenas hp1 = hp_arenas hp \<and> cache_bin_ok (info ! i) bin1
    \<and> cached bin1 = drop m (cached ?bin) \<and> length (cached bin1) < info ! i"
  proof (cases ?full)
    case True
    then have len: "length (cached ?bin) = info ! i" using length_cached [OF inv(1)] by simp
    then have rem: "info ! i div 2 \<le> length (cached ?bin)" by simp
    from flush_large [OF inv(1) rem, of ce i hp] obtain hp' tbin' where
      f: "tcache_bin_flush_large ce i (info ! i div 2) hp ?bin = Some (hp', tbin')"
        "hp_arenas hp' = hp_arenas hp" "cache_bin_ok (info ! i) tbin'"
        "cached tbin' = drop (length (cached ?bin) - info ! i div 2) (cached ?bin)" by blast
    moreover have "length (cached tbin') < info ! i" using info(2) rem len by (simp add: f(4))
    ultimately show ?thesis unfolding if_P [OF True] by metis
  next
    case False
    moreover have "length (cached ?bin) < info ! i"
      using False length_cached [OF inv(1)] inv(1) by (simp add: cache_bin_ok_def)
    moreover have "cached ?bin = drop 0 (cached ?bin)" by simp
    ultimately show ?thesis using inv(1) by metis
  qed
  then obtain hp1 bin1 m where
    f: "(if ?full then tcache_bin_flush_large ce i (info ! i div 2) hp ?bin else Some (hp, ?bin)) = Some (hp1, bin1)"
      "hp_arenas hp1 = hp_arenas hp" "cache_bin_ok (info ! i) bin1"
      "cached bin1 = drop m (cached ?bin)" "length (cached bin1) < info ! i" by blast
  from push_ok [OF f(3,5), of p] obtain bin2 where
    p: "cache_bin_push p bin1 = Some bin2" "cache_bin_ok (info ! i) bin2" "cached bin2 = cached bin1 @ [p]" by blast
  have sub: "set (cached bin1) \<subseteq> set (cached ?bin)" unfolding f(4) by (rule set_drop_subset)
  have "distinct (cached bin1)" using inv(2) unfolding f(4) by simp
  then have d: "distinct (cached bin2)" "(U i - {p}) \<inter> set (cached bin2) = {}"
    "\<forall>q \<in> (U i - {p}) \<union> set (cached bin2). q \<in> held tc U i \<or> large_fresh info tc U q"
    using assms(7) sub inv(3) by (auto simp: p(3) held_def)
  note i2 = tcache_inv_large [OF assms(4,2,3) p(2) d f(2)]
  have ie: "iealloc_ok d (hp_arenas hp1 0) own (ce_iealloc ce)" using assms(6) f(2) by simp
  from event_ok [OF assms(1,5) i2 ie] obtain hp' tc' own' where
    "tcache_event ce hp1 (?set bin2) = Some (hp', tc')" "tcache_inv d k info hp' tc' (U(i := U i - {p})) own'" by blast
  moreover have "tcache_dalloc_large ce p i hp tc = tcache_event ce hp1 (?set bin2)"
    using b info(1) f(1) p(1) unfolding tcache_dalloc_large_def by simp
  ultimately show ?thesis by (metis (no_types))
qed

section \<open>The first state\<close>

lemma small_ncached_max_bounds: "20 \<le> small_ncached_max bi" "small_ncached_max bi \<le> 200"
proof -
  have v: "unat TCACHE_NSLOTS_SMALL_MIN = 20" "unat TCACHE_NSLOTS_SMALL_MAX = 200"
    by (simp_all add: TCACHE_NSLOTS_SMALL_MIN_def TCACHE_NSLOTS_SMALL_MAX_def)
  then show "20 \<le> small_ncached_max bi" "small_ncached_max bi \<le> 200"
    by (auto simp: small_ncached_max_def Let_def word_le_nat_alt)
qed

lemma tcache_bin_info_nth:
  assumes "SC_NBINS \<le> length bins" "SC_NBINS \<le> nhbins"
  shows "length (tcache_bin_info bins nhbins) = nhbins"
    "i < nhbins \<Longrightarrow> tcache_bin_info bins nhbins ! i =
       (if i < SC_NBINS then small_ncached_max (bins ! i) else TCACHE_NSLOTS_LARGE)"
  using assms by (auto simp: tcache_bin_info_def nth_append)

lemma tcache_init_inv:
  assumes "length (bin_boot d) = SC_NBINS" "SC_NBINS \<le> nhbins" "info = tcache_bin_info (bin_boot d) nhbins"
    and "arena_inv d k (hp_arenas hp 0) own (\<lambda>_. {})"
  shows "tcache_inv d k info hp (tcache_init info) (\<lambda>_. {}) own"
proof -
  note n = tcache_bin_info_nth [OF eq_imp_le [OF assms(1) [symmetric]] assms(2), folded assms(3)]
  have i: "20 \<le> info ! i" if "i < nhbins" for i
    using n(2) [OF that] small_ncached_max_bounds by (simp add: TCACHE_NSLOTS_LARGE_def)
  have bin: "tc_bin (tcache_init info) i = cache_bin_init (info ! i)" if "i < nhbins" for i
    using that assms(2) n(1) by (auto simp: tc_bin_def tcache_init_def)
  have pos: "0 < SC_NBINS" by (simp add: sc_macro_values(3))
  have half: "1 \<le> info ! i div 2 ^ 1" if "i < nhbins" for i using i [OF that] by simp
  have sh: "tc_shape info (tcache_init info)"
    unfolding tc_shape_def using assms(2) n(1) pos i half
    by (auto simp: tcache_init_def min_def intro: order_trans [OF _ i])
  have c: "caches_ok info (tcache_init info) (\<lambda>_. {})"
    using bin cache_bin_init_ok n(1) by (simp add: caches_ok_def)
  have "held (tcache_init info) (\<lambda>_. {}) i = {}" if "i < SC_NBINS" for i
    using bin [of i] that assms(2) cache_bin_init_ok(2) by (simp add: held_def)
  then have "arena_inv d k (hp_arenas hp 0) own (held (tcache_init info) (\<lambda>_. {}))"
    using assms(4) by (subst arena_inv_cong [of _ "\<lambda>_. {}"])
  with sh c show ?thesis by (simp add: tcache_inv_def)
qed

section \<open>Every state of a thread and of the others\<close>

text \<open>A lock section of another thread on a bin of the arena; \<open>U\<close> as above.\<close>

inductive arena_step :: "sc_data_t \<Rightarrow> arena \<Rightarrow> (nat \<Rightarrow> 64 word set) \<Rightarrow> arena \<Rightarrow> (nat \<Rightarrow> 64 word set) \<Rightarrow> bool"
  for d ar U where
  served: "i < SC_NBINS \<Longrightarrow> arena_malloc_small_begin (bin_boot d) ar i = Some (Done (Some p), ar') \<Longrightarrow>
    arena_step d ar U ar' (U(i := insert p (U i)))"
| waits: "i < SC_NBINS \<Longrightarrow> arena_malloc_small_begin (bin_boot d) ar i = Some (Wait, ar') \<Longrightarrow>
    arena_step d ar U ar' U"
| goes_on: "i < SC_NBINS \<Longrightarrow> fresh_source d ar (own_of ar) i src \<Longrightarrow>
    arena_malloc_small_end (bin_boot d) src ar i = Some (ret, ar') \<Longrightarrow>
    arena_step d ar U ar' (case ret of None \<Rightarrow> U | Some p \<Rightarrow> U(i := insert p (U i)))"
| dalloc: "i < SC_NBINS \<Longrightarrow> p \<in> U i \<Longrightarrow> iealloc_ok d ar (own_of ar) iealloc \<Longrightarrow>
    arena_dalloc_small (bin_boot d) (arena_boot_div d) iealloc ar p = Some ar' \<Longrightarrow>
    arena_step d ar U ar' (U(i := U i - {p}))"

inductive cache_run ::
  "sc_data_t \<Rightarrow> nat list \<Rightarrow> bool \<Rightarrow> (64 word \<Rightarrow> extent) \<Rightarrow> size_t \<Rightarrow> heap \<Rightarrow> tcache \<Rightarrow> (nat \<Rightarrow> 64 word set) \<Rightarrow> bool"
  for d info auto mem k where
  start: "hp_arenas hp 0 = arena_bins_init auto mem k \<Longrightarrow>
    cache_run d info auto mem k hp (tcache_init info) (\<lambda>_. {})"
| other: "cache_run d info auto mem k hp tc U \<Longrightarrow> arena_step d (hp_arenas hp 0) U ar' U' \<Longrightarrow>
    cache_run d info auto mem k (hp\<lparr>hp_arenas := (hp_arenas hp)(0 := ar')\<rparr>) tc U'"
| alloc_small: "cache_run d info auto mem k hp tc U \<Longrightarrow> i < SC_NBINS \<Longrightarrow>
    small_env d info hp (own_of (hp_arenas hp 0)) i ce srcs \<Longrightarrow> arena = Some 0 \<or> arena = None \<Longrightarrow>
    tcache_alloc_small ce arena srcs i hp tc = Some (ret, hp', tc') \<Longrightarrow>
    cache_run d info auto mem k hp' tc' (case ret of None \<Rightarrow> U | Some p \<Rightarrow> U(i := insert p (U i)))"
| dalloc_small: "cache_run d info auto mem k hp tc U \<Longrightarrow> i < SC_NBINS \<Longrightarrow> p \<in> U i \<Longrightarrow> env_ok d info ce \<Longrightarrow>
    iealloc_ok d (hp_arenas hp 0) (own_of (hp_arenas hp 0)) (ce_iealloc ce) \<Longrightarrow>
    tcache_dalloc_small ce p i hp tc = Some (hp', tc') \<Longrightarrow>
    cache_run d info auto mem k hp' tc' (U(i := U i - {p}))"
| alloc_large: "cache_run d info auto mem k hp tc U \<Longrightarrow> SC_NBINS \<le> i \<Longrightarrow> i < length info \<Longrightarrow> env_ok d info ce \<Longrightarrow>
    iealloc_ok d (hp_arenas hp 0) (own_of (hp_arenas hp 0)) (ce_iealloc ce) \<Longrightarrow>
    \<forall>p. answer = Some p \<longrightarrow> large_fresh info tc U p \<Longrightarrow>
    tcache_alloc_large ce arena answer i hp tc = Some (ret, hp', tc') \<Longrightarrow>
    cache_run d info auto mem k hp' tc' (case ret of None \<Rightarrow> U | Some p \<Rightarrow> U(i := insert p (U i)))"
| dalloc_large: "cache_run d info auto mem k hp tc U \<Longrightarrow> SC_NBINS \<le> i \<Longrightarrow> i < length info \<Longrightarrow> p \<in> U i \<Longrightarrow>
    env_ok d info ce \<Longrightarrow> iealloc_ok d (hp_arenas hp 0) (own_of (hp_arenas hp 0)) (ce_iealloc ce) \<Longrightarrow>
    tcache_dalloc_large ce p i hp tc = Some (hp', tc') \<Longrightarrow>
    cache_run d info auto mem k hp' tc' (U(i := U i - {p}))"

lemma tcache_inv_arena:
  assumes "tcache_inv d k info hp tc U own" "i < SC_NBINS" "A \<inter> set (cached (tc_bin tc i)) = {}"
    and "arena_inv d k ar' own' ((held tc U)(i := A \<union> set (cached (tc_bin tc i))))"
  shows "tcache_inv d k info (hp\<lparr>hp_arenas := (hp_arenas hp)(0 := ar')\<rparr>) tc (U(i := A)) own'"
proof -
  have sh: "tc_shape info tc" "caches_ok info tc U" using assms(1) by (simp_all add: tcache_inv_def)
  note inv = tcache_invD [OF assms(1) tc_bin_small(4) [OF sh(1) assms(2)]]
  have e: "tc_bin tc = (tc_bin tc)(i := tc_bin tc i)" by simp
  have "caches_ok info tc (U(i := A))" using caches_ok_step [OF sh(2) e inv(1,2) assms(3)] assms(2) by simp
  with assms(4) sh(1) show ?thesis unfolding tcache_inv_def held_step [OF e] by simp
qed

lemma tcache_inv_own:
  "tcache_inv d k info hp tc U own \<Longrightarrow> tcache_inv d k info hp tc U (own_of (hp_arenas hp 0))"
  unfolding tcache_inv_def using own_of_inv(2) by blast

lemma arena_step_ok:
  assumes "table_inv d" "tcache_inv d k info hp tc U (own_of (hp_arenas hp 0))" "arena_step d (hp_arenas hp 0) U ar' U'"
  shows "\<exists>own'. tcache_inv d k info (hp\<lparr>hp_arenas := (hp_arenas hp)(0 := ar')\<rparr>) tc U' own'"
  using assms(3)
proof cases
  let ?ar = "hp_arenas hp 0" and ?own = "own_of (hp_arenas hp 0)"
  have ai: "arena_inv d k ?ar ?own (held tc U)" using assms(2) by (simp add: tcache_inv_def)
  have put: ?thesis if "U' = U(i := insert p (U i))" "i < SC_NBINS" "p \<notin> held tc U i"
    "arena_inv d k ar' own' ((held tc U)(i := insert p (held tc U i)))" for i p own'
  proof -
    have n: "i < length info" using assms(2) that(2) by (auto simp: tcache_inv_def tc_shape_def)
    have "insert p (U i) \<inter> set (cached (tc_bin tc i)) = {}"
      using tcache_invD(3) [OF assms(2) n] that(3) by (simp add: held_def)
    moreover have "arena_inv d k ar' own' ((held tc U)(i := insert p (U i) \<union> set (cached (tc_bin tc i))))"
      using that(4) by (simp add: held_def [of tc U i])
    ultimately show ?thesis using tcache_inv_arena [OF assms(2) that(2)] unfolding that(1) by blast
  qed
  {
    case (served i p)
    with arena_begin [OF assms(1) ai served(2)] show ?thesis by (intro put) (auto simp del: fun_upd_apply)
  next
    case (waits i)
    then have "arena_inv d k ar' ?own (held tc U)"
      using arena_begin [OF assms(1) ai waits(2)] by (auto simp del: fun_upd_apply)
    then have "tcache_inv d k info (hp\<lparr>hp_arenas := (hp_arenas hp)(0 := ar')\<rparr>) tc U ?own"
      using assms(2) by (simp add: tcache_inv_def)
    with waits(1) show ?thesis by blast
  next
    case (goes_on i src ret)
    from arena_end [OF assms(1) ai goes_on(2,3)] goes_on(4) obtain own' where
      e: "arena_inv d k ar' own' (case ret of None \<Rightarrow> held tc U | Some p \<Rightarrow> (held tc U)(i := insert p (held tc U i)))"
        "case ret of None \<Rightarrow> True | Some p \<Rightarrow> p \<notin> held tc U i"
      by (cases ret) (auto simp del: fun_upd_apply)
    show ?thesis
    proof (cases ret)
      case None
      then have "tcache_inv d k info (hp\<lparr>hp_arenas := (hp_arenas hp)(0 := ar')\<rparr>) tc U own'"
        using e(1) assms(2) by (simp add: tcache_inv_def)
      with None goes_on(1) show ?thesis by auto
    next
      case (Some p)
      with e goes_on(1,2) show ?thesis by (intro put [of i p own']) (simp_all del: fun_upd_apply)
    qed
  next
    case (dalloc i p iealloc)
    have n: "i < length info" using assms(2) dalloc(2) by (auto simp: tcache_inv_def tc_shape_def)
    have p: "p \<in> held tc U i" using dalloc(3) by (simp add: held_def)
    from arena_dalloc [OF assms(1) ai dalloc(2) p dalloc(4)] dalloc(5) obtain own' where
      a: "arena_inv d k ar' own' ((held tc U)(i := held tc U i - {p}))" by (auto simp del: fun_upd_apply)
    have c: "U i \<inter> set (cached (tc_bin tc i)) = {}" by (rule tcache_invD(3) [OF assms(2) n])
    then have "held tc U i - {p} = (U i - {p}) \<union> set (cached (tc_bin tc i))"
      using dalloc(3) by (auto simp: held_def)
    with tcache_inv_arena [OF assms(2) dalloc(2), of "U i - {p}" ar' own'] a c dalloc(1) show ?thesis by auto
  }
qed

lemma cache_run_inv:
  assumes "cache_run d info auto mem k hp tc U" "table_inv d" "length (bin_boot d) = SC_NBINS"
    and "SC_NBINS \<le> nhbins" "info = tcache_bin_info (bin_boot d) nhbins"
  shows "tcache_inv d k info hp tc U (own_of (hp_arenas hp 0))"
  using assms(1)
proof induction
  case (start hp)
  have "arena_inv d k (hp_arenas hp 0) (\<lambda>_. {}) (\<lambda>_. {})" by (simp add: start arena_inv_init)
  then show ?case by (rule tcache_inv_own [OF tcache_init_inv [OF assms(3-5)]])
next
  case (other hp tc U ar' U')
  from arena_step_ok [OF assms(2) other.IH other.hyps(2)] show ?case by (blast intro: tcache_inv_own)
next
  case (alloc_small hp tc U i ce srcs arena ret hp' tc')
  from alloc_small_ok [OF assms(2) alloc_small.hyps(2) alloc_small.IH alloc_small.hyps(3,4)] alloc_small.hyps(5)
  show ?case by (cases ret) (auto intro: tcache_inv_own simp del: fun_upd_apply)
next
  case (dalloc_small hp tc U i p ce hp' tc')
  from dalloc_small_ok [OF assms(2) dalloc_small.hyps(2) dalloc_small.IH dalloc_small.hyps(4,5,3)] dalloc_small.hyps(6)
  show ?case by (auto intro: tcache_inv_own simp del: fun_upd_apply)
next
  case (alloc_large hp tc U i ce answer arena ret hp' tc')
  from alloc_large_ok [OF assms(2) alloc_large.hyps(2,3) alloc_large.IH alloc_large.hyps(4-6), of arena] alloc_large.hyps(7)
  show ?case by (cases ret) (auto intro: tcache_inv_own simp del: fun_upd_apply)
next
  case (dalloc_large hp tc U i p ce hp' tc')
  from dalloc_large_ok [OF assms(2) dalloc_large.hyps(2,3) dalloc_large.IH dalloc_large.hyps(5,6,4)] dalloc_large.hyps(7)
  show ?case by (auto intro: tcache_inv_own simp del: fun_upd_apply)
qed

lemma length_bin_boot: "table_inv d \<Longrightarrow> length (bin_boot d) = SC_NBINS"
proof -
  assume t: "table_inv d"
  have "SC_NBINS - 1 < SC_NBINS" by (simp add: sc_macro_values(3))
  from bin_of_table(1) [OF t this] have "SC_NBINS \<le> length (bin_boot d)" by linarith
  moreover have "length (bin_boot d) \<le> SC_NBINS" by (simp add: bin_boot_def bin_infos_init_def)
  ultimately show ?thesis by simp
qed

text \<open>A pointer in use is in no other class.\<close>

lemma held_apart:
  assumes "table_inv d" "tcache_inv d k info hp tc U own" "i < SC_NBINS" "j < SC_NBINS" "p \<in> held tc U i" "i \<noteq> j"
  shows "p \<notin> held tc U j"
proof
  assume p: "p \<in> held tc U j"
  have ai: "arena_inv d k (hp_arenas hp 0) own (held tc U)" using assms(2) by (simp add: tcache_inv_def)
  have "0 < class_size i" "0 < class_size j"
    using bin_of_table(3) [OF assms(1,3)] bin_of_table(3) [OF assms(1,4)] by (simp_all add: bin_ok_def)
  with live_regions_apart [OF assms(1) ai assms(3-5) p] assms(6) show False by simp
qed

section \<open>Properties\<close>


lemma witness_fresh:
  assumes "table_inv d" "\<forall>j<SC_NBINS. own j = {}"
  shows "fresh_source d ar own 0 witness_source"
proof -
  have n: "0 < SC_NBINS" by (simp add: sc_macro_values(3))
  have "unat (bin_slab_size (bin_boot d ! 0)) \<le> 2 ^ 64"
    using bin_of_table(3) [OF assms(1) n] by (simp add: bin_ok_def)
  then have "slab_extent d 0 witness_slab"
    by (simp add: slab_extent_def witness_slab_def extent_getters field_def extent_addr_get_def
        BITMAP_GROUPS_MAX_def BITMAP_MAXBITS_eq BITMAP_BITS2GROUPS_eq)
  then show ?thesis using assms(2) by (simp add: fresh_source_def witness_source_def slab_answer_def)
qed

text \<open>A thread whose first allocation fills the cache from the one slab that can be had.\<close>

definition witness_heap :: heap where
  "witness_heap = \<lparr>hp_arenas = \<lambda>_. arena_bins_init True (\<lambda>_. witness_slab) 0, hp_large_freed = [],
     hp_large_nrequests = \<lambda>_ _. 0\<rparr>"

definition witness_env :: "sc_data_t \<Rightarrow> nat list \<Rightarrow> cache_env" where
  "witness_env d info = \<lparr>ce_bins = bin_boot d, ce_divs = arena_boot_div d, ce_info = info,
     ce_iealloc = \<lambda>_. 7, ce_arena_of = \<lambda>_. 0, ce_own = 0\<rparr>"

definition witness_srcs :: "nat \<Rightarrow> slab_source" where
  "witness_srcs n = (if n = 0 then witness_source else witness_source\<lparr>src_hard := None\<rparr>)"

lemma witness_srcs_ok:
  assumes "table_inv d" "\<forall>j<SC_NBINS. own j = {}"
  shows "sources_ok d ar own 0 (\<lambda>_. 7) (map witness_srcs [0..<n])"
proof -
  have none: "slab_answer (witness_srcs k) = (if k = 0 then Some (7, witness_slab) else None)" for k
    by (simp add: witness_srcs_def witness_source_def slab_answer_def)
  have "fresh_source d ar own 0 (witness_srcs k)" for k
  proof (cases "k = 0")
    case True
    then have "witness_srcs k = witness_source" by (simp add: witness_srcs_def)
    with witness_fresh [OF assms] show ?thesis by simp
  next
    case False
    then show ?thesis using none [of k] by (simp add: fresh_source_def)
  qed
  moreover have "sorted_wrt (\<lambda>s s'. \<forall>f e f' e'. slab_answer s = Some (f, e) \<and> slab_answer s' = Some (f', e') \<longrightarrow>
      f \<noteq> f' \<and> slab_pages (bin_boot d ! 0) e \<inter> slab_pages (bin_boot d ! 0) e' = {}) (map witness_srcs [0..<n])"
    by (auto simp: sorted_wrt_map sorted_wrt_iff_nth_less none)
  ultimately show ?thesis by (auto simp: sources_ok_def none split: if_splits)
qed




section \<open>Flushes over any number of arenas\<close>

text \<open>What a flush does to arena \<open>k\<close>: the requests are merged into the own one, and its pointers are freed in order.\<close>

definition flush_arena ::
  "cache_env \<Rightarrow> nat \<Rightarrow> (64 word \<times> 64 word) list \<Rightarrow> uint64 \<Rightarrow> nat \<Rightarrow> arena \<Rightarrow> arena option" where
  "flush_arena ce binind items nrequests k ar = do {
     ar \<leftarrow> (if k = ce_own ce then flush_stats binind nrequests ar else Some ar);
     dalloc_all ce (handled ce k items) ar
   }"

definition loop_arena ::
  "cache_env \<Rightarrow> nat \<Rightarrow> (64 word \<times> 64 word) list \<Rightarrow> uint64 \<Rightarrow> nat \<Rightarrow> arena \<Rightarrow> arena option" where
  "loop_arena ce binind items nrequests k ar =
     (if handled ce k items = [] then Some ar else flush_arena ce binind items nrequests k ar)"

lemma flush_small_loop_arenas:
  assumes "length items \<le> length (cb_avail tbin)"
  shows "case flush_small_loop ce i items arenas tbin m of
      None \<Rightarrow> \<exists>k. loop_arena ce i items (cb_nrequests tbin) k (arenas k) = None
    | Some (arenas', tbin', m') \<Rightarrow>
        (\<forall>k. loop_arena ce i items (cb_nrequests tbin) k (arenas k) = Some (arenas' k))
        \<and> m' = (m \<or> handled ce (ce_own ce) items \<noteq> [])
        \<and> tbin' = tbin\<lparr>cb_avail := cb_avail tbin', cb_nrequests :=
            if handled ce (ce_own ce) items = [] then cb_nrequests tbin else 0\<rparr>
        \<and> length (cb_avail tbin') = length (cb_avail tbin)
        \<and> drop (length items) (cb_avail tbin') = drop (length items) (cb_avail tbin)"
  using assms
proof (induction "length items" arbitrary: items arenas tbin m rule: less_induct)
  case less
  show ?case
  proof (cases items)
    case Nil
    then show ?thesis by (simp add: handled_def loop_arena_def)
  next
    case (Cons item rest)
    let ?a = "ce_arena_of ce (snd item)"
    let ?left = "deferred ce ?a items" and ?own = "?a = ce_own ce"
    let ?tb = "if ?own then tbin\<lparr>cb_nrequests := 0\<rparr> else tbin"
    let ?n = "cb_nrequests tbin"
    have len: "length ?left < length items" using deferred_less [of ce item rest] Cons by simp
    have done_ne: "handled ce ?a items \<noteq> []" using handled_hd [of ce item rest] Cons by simp
    have tb: "cb_avail ?tb = cb_avail tbin" by simp
    have st: "length (cb_avail (stash ?left ?tb)) = length (cb_avail tbin)"
      using len less.prems by (subst length_stash) (simp_all add: tb)
    have step: "flush_small_loop ce i items arenas tbin m = do {
        ar \<leftarrow> loop_arena ce i items ?n ?a (arenas ?a);
        flush_small_loop ce i ?left (arenas(?a := ar)) (stash ?left ?tb) (m \<or> ?own) }"
      using done_ne unfolding loop_arena_def flush_arena_def Cons
      by (cases ?own) (simp_all add: Let_def)
    show ?thesis
    proof (cases "loop_arena ce i items ?n ?a (arenas ?a)")
      case None
      with step show ?thesis by auto
    next
      case (Some ar)
      have same: "loop_arena ce i ?left (cb_nrequests (stash ?left ?tb)) k ((arenas(?a := ar)) k)
          = loop_arena ce i items ?n k (arenas k)" for k
      proof (cases "k = ?a")
        case True
        then show ?thesis using Some by (simp add: loop_arena_def handled_deferred)
      next
        case False
        then show ?thesis by (simp add: loop_arena_def flush_arena_def handled_deferred)
      qed
      have own: "handled ce (ce_own ce) ?left = (if ?own then [] else handled ce (ce_own ce) items)"
        by (auto simp: handled_deferred)
      have len': "length ?left \<le> length (cb_avail (stash ?left ?tb))" using len less.prems st by linarith
      note IH = less.hyps [OF len len', of "arenas(?a := ar)" "m \<or> ?own", unfolded same]
      show ?thesis
      proof (cases "flush_small_loop ce i ?left (arenas(?a := ar)) (stash ?left ?tb) (m \<or> ?own)")
        case None
        with IH step Some show ?thesis by simp
      next
        case (Some res)
        obtain arenas' tbin' m' where res: "res = (arenas', tbin', m')" by (metis prod_cases3)
        with IH Some have r: "\<forall>k. loop_arena ce i items ?n k (arenas k) = Some (arenas' k)"
          "m' = ((m \<or> ?own) \<or> handled ce (ce_own ce) ?left \<noteq> [])"
          "tbin' = (stash ?left ?tb)\<lparr>cb_avail := cb_avail tbin', cb_nrequests :=
            if handled ce (ce_own ce) ?left = [] then cb_nrequests (stash ?left ?tb) else 0\<rparr>"
          "length (cb_avail tbin') = length (cb_avail (stash ?left ?tb))"
          "drop (length ?left) (cb_avail tbin') = drop (length ?left) (cb_avail (stash ?left ?tb))"
          by simp_all
        have "drop (length items) (cb_avail tbin') = drop (length items - length ?left) (drop (length ?left) (cb_avail tbin'))"
          using len by simp
        also have "\<dots> = drop (length items) (cb_avail (stash ?left ?tb))" unfolding r(5) using len by simp
        also have "\<dots> = drop (length items) (cb_avail tbin)" using len by (subst drop_stash) (simp_all add: tb)
        finally have dr: "drop (length items) (cb_avail tbin') = drop (length items) (cb_avail tbin)" .
        have "tbin' = tbin\<lparr>cb_avail := cb_avail tbin', cb_nrequests :=
            if handled ce (ce_own ce) items = [] then cb_nrequests tbin else 0\<rparr>"
        proof (cases ?own)
          case True
          with r(3) own done_ne show ?thesis by (simp add: stash_def)
        next
          case False
          then have "handled ce (ce_own ce) ?left = handled ce (ce_own ce) items" "?tb = tbin" using own by simp_all
          note r3 = r(3) [unfolded this]
          show ?thesis by (subst r3) (simp add: stash_def)
        qed
        moreover have "m' = (m \<or> handled ce (ce_own ce) items \<noteq> [])" using r(2) own done_ne by auto
        moreover have "length (cb_avail tbin') = length (cb_avail tbin)" using r(4) st by (rule trans)
        moreover have "flush_small_loop ce i items arenas tbin m = Some (arenas', tbin', m')"
          using step \<open>loop_arena ce i items ?n ?a (arenas ?a) = Some ar\<close> Some res by simp
        ultimately show ?thesis using r(1) dr by simp
      qed
    qed
  qed
qed

lemma flush_small_arenas:
  assumes "cache_bin_ok m tbin" "rem \<le> length (cached tbin)"
    and "items = map (\<lambda>p. (p, ce_iealloc ce p)) (take (length (cached tbin) - rem) (cached tbin))"
  shows "case tcache_bin_flush_small ce i rem hp tbin of
      None \<Rightarrow> \<exists>k. flush_arena ce i items (cb_nrequests tbin) k (hp_arenas hp k) = None
    | Some (hp', tbin') \<Rightarrow>
        (\<forall>k. flush_arena ce i items (cb_nrequests tbin) k (hp_arenas hp k) = Some (hp_arenas hp' k))
        \<and> hp' = hp\<lparr>hp_arenas := hp_arenas hp'\<rparr> \<and> cache_bin_ok m tbin'
        \<and> cached tbin' = drop (length (cached tbin) - rem) (cached tbin) \<and> cb_nrequests tbin' = 0"
proof -
  obtain n where n: "cb_ncached tbin = int n" "n = length (cached tbin)" "cached tbin = take n (cb_avail tbin)"
    "n \<le> m" "length (cb_avail tbin) = m" using cached_count [OF assms(1)] by metis
  have it: "flush_items ce rem tbin = Some items"
    using n(4,5) unfolding assms(3) n(2) [symmetric] by (simp add: flush_items_def n(1) Let_def) (simp add: n(3) min_def)
  have "length items = n - rem" by (simp add: assms(3) n(2) [symmetric])
  then have len: "length items \<le> length (cb_avail tbin)" "length items = n - rem" using n(4,5) by simp_all
  let ?n = "cb_nrequests tbin" and ?own = "ce_own ce"
  note loop = flush_small_loop_arenas [OF len(1), of ce i "hp_arenas hp" False]
  show ?thesis
  proof (cases "flush_small_loop ce i items (hp_arenas hp) tbin False")
    case None
    then have e: "tcache_bin_flush_small ce i rem hp tbin = None" using it by (simp add: tcache_bin_flush_small_def)
    from loop None obtain k where k: "loop_arena ce i items ?n k (hp_arenas hp k) = None" by auto
    then have "flush_arena ce i items ?n k (hp_arenas hp k) = None" by (simp add: loop_arena_def split: if_splits)
    with e show ?thesis by auto
  next
    case (Some res)
    obtain arenas' tbin' m' where res: "res = (arenas', tbin', m')" by (metis prod_cases3)
    let ?none = "handled ce ?own items = []"
    have l: "\<forall>k. loop_arena ce i items ?n k (hp_arenas hp k) = Some (arenas' k)" "m' = (\<not> ?none)"
      "tbin' = tbin\<lparr>cb_avail := cb_avail tbin', cb_nrequests := if ?none then ?n else 0\<rparr>"
      "length (cb_avail tbin') = m" "drop (length items) (cb_avail tbin') = drop (length items) (cb_avail tbin)"
      using loop unfolding Some res n(5) by simp_all
    let ?tb = "tbin\<lparr>cb_avail := cb_avail tbin', cb_nrequests := 0\<rparr>"
    have dr: "drop (length (cached tbin) - rem) (cb_avail tbin') = drop (length (cached tbin) - rem) (cb_avail tbin)"
      using l(5) len(2) n(2) by simp
    obtain tb2 where t: "flush_rest rem ?tb = Some tb2" "cache_bin_ok m tb2"
      "cached tb2 = drop (length (cached tbin) - rem) (cached tbin)"
      using flush_rest_ok [OF assms(1,2) l(4) dr, of 0] by blast
    have t0: "cb_nrequests tb2 = 0" using t(1) by (auto simp: flush_rest_def Let_def split: bind_splits if_splits)
    have other: "flush_arena ce i items ?n k (hp_arenas hp k) = Some (arenas' k)" if "k \<noteq> ?own \<or> \<not> ?none" for k
    proof (cases "handled ce k items = []")
      case True
      with that have "k \<noteq> ?own" by auto
      with True spec [OF l(1), of k] show ?thesis by (simp add: loop_arena_def flush_arena_def)
    next
      case False
      with spec [OF l(1), of k] show ?thesis by (simp add: loop_arena_def)
    qed
    show ?thesis
    proof (cases ?none)
      case False
      have tb: "?tb = tbin'" using l(3) unfolding if_not_P [OF False] by (rule sym)
      have "tcache_bin_flush_small ce i rem hp tbin = Some (hp\<lparr>hp_arenas := arenas'\<rparr>, tb2)"
        using it Some res l(2) False t(1) unfolding tb by (simp add: tcache_bin_flush_small_def)
      with t(2,3) t0 other False show ?thesis by simp
    next
      case True
      have own: "arenas' ?own = hp_arenas hp ?own" using spec [OF l(1), of ?own] True by (simp add: loop_arena_def)
      have n': "cb_nrequests tbin' = ?n" by (subst l(3)) (simp add: True)
      have tb: "?tb = tbin'\<lparr>cb_nrequests := 0\<rparr>" by (subst (2) l(3)) simp
      have fl: "flush_arena ce i items ?n ?own (hp_arenas hp ?own) = flush_stats i ?n (hp_arenas hp ?own)"
        by (cases "flush_stats i ?n (hp_arenas hp ?own)") (simp_all add: flush_arena_def True)
      have e: "tcache_bin_flush_small ce i rem hp tbin = (case flush_stats i ?n (hp_arenas hp ?own) of
          None \<Rightarrow> None | Some ar \<Rightarrow> Some (hp\<lparr>hp_arenas := arenas'(?own := ar)\<rparr>, tb2))"
        using it Some res l(2) True t(1) unfolding tb
        by (cases "flush_stats i ?n (hp_arenas hp ?own)") (simp_all add: tcache_bin_flush_small_def n' own)
      show ?thesis
      proof (cases "flush_stats i ?n (hp_arenas hp ?own)")
        case None
        with e fl show ?thesis by (auto intro: exI [of _ ?own])
      next
        case (Some ar)
        have "flush_arena ce i items ?n k (hp_arenas hp k) = Some ((arenas'(?own := ar)) k)" for k
          using other [of k] fl Some by (cases "k = ?own") simp_all
        with t(2,3) t0 show ?thesis unfolding e Some by simp
      qed
    qed
  qed
qed


text \<open>Four pointers, alternately of two arenas, none of them the own one.\<close>

definition witness_bin :: cache_bin where
  "witness_bin = \<lparr>cb_low_water = 0, cb_ncached = 4, cb_nrequests = 9, cb_avail = [1, 2, 3, 4, 0]\<rparr>"

definition two_arenas :: cache_env where
  "two_arenas = \<lparr>ce_bins = [], ce_divs = [], ce_info = [], ce_iealloc = \<lambda>p. p, ce_arena_of = \<lambda>p. unat p mod 2, ce_own = 2\<rparr>"


end
