(* ===== verification/Extents.thy ===== *)
theory Extents
  imports Arena_Bin
begin

text \<open>
  The collections of unused extents of src/extent.c (\<open>extents_t\<close>): pairing heaps of extents by
  quantized size, a bitmap of the heaps that are not empty, the list of all extents from the least
  recently used on, and the three fit policies that select an extent for a request. An \<open>extent_t\<close>
  pointer is an address of the memory \<open>mem\<close> of descriptors, as in the theory of the bins.
\<close>

section \<open>Quantized sizes\<close>

definition extent_size_quantize_floor :: "sz_tabs \<Rightarrow> size_t \<Rightarrow> size_t option" where
  "extent_size_quantize_floor t req =
     (let pind = sz_psz2ind (req - sz_large_pad + 1) in
      if pind = 0 then Some req
      else do {
        sz \<leftarrow> sz_pind2sz t (pind - 1);
        Some (sz + sz_large_pad)
      })"

definition extent_size_quantize_ceil :: "sz_tabs \<Rightarrow> size_t \<Rightarrow> size_t option" where
  "extent_size_quantize_ceil t req = do {
     ret \<leftarrow> extent_size_quantize_floor t req;
     if ret < req then do {
       sz \<leftarrow> sz_pind2sz t (sz_psz2ind (ret - sz_large_pad + 1));
       Some (sz + sz_large_pad)
     } else Some ret
   }"

section \<open>Collections\<close>

record extents =
  ex_heaps :: "64 word ph list"
  ex_nextents :: "size_t list"
  ex_nbytes :: "size_t list"
  ex_bitmap :: bitmap
  ex_lru :: "64 word list"
  ex_npages :: size_t
  ex_state :: extent_state
  ex_delay_coalesce :: bool

text \<open>The word behind the bitmap, which \<open>bitmap_ffu\<close> may read: the head of the list.\<close>

definition ex_after :: "extents \<Rightarrow> 64 word" where
  "ex_after extents = (case ex_lru extents of [] \<Rightarrow> 0 | first # _ \<Rightarrow> first)"

definition extents_bitmap_info :: bitmap_info where
  "extents_bitmap_info = bitmap_info_init (SC_NPSIZES + 1)"

definition extents_init :: "extents \<Rightarrow> extent_state \<Rightarrow> bool \<Rightarrow> extents option" where
  "extents_init extents state delay_coalesce = do {
     bitmap \<leftarrow> bitmap_init (ex_bitmap extents) extents_bitmap_info True;
     Some (extents\<lparr>ex_heaps := map (\<lambda>_. ph_new) [0..<SC_NPSIZES + 1], ex_bitmap := bitmap, ex_lru := [],
       ex_npages := 0, ex_state := state, ex_delay_coalesce := delay_coalesce\<rparr>)
   }"

definition extents_state_get :: "extents \<Rightarrow> extent_state" where
  "extents_state_get extents = ex_state extents"

definition extents_npages_get :: "extents \<Rightarrow> size_t" where
  "extents_npages_get extents = ex_npages extents"

definition extents_nextents_get :: "extents \<Rightarrow> nat \<Rightarrow> size_t option" where
  "extents_nextents_get extents pind = read_at (ex_nextents extents) pind"

definition extents_nbytes_get :: "extents \<Rightarrow> nat \<Rightarrow> size_t option" where
  "extents_nbytes_get extents pind = read_at (ex_nbytes extents) pind"

definition extents_stats_add :: "extents \<Rightarrow> nat \<Rightarrow> size_t \<Rightarrow> extents option" where
  "extents_stats_add extents pind sz = do {
     cur \<leftarrow> read_at (ex_nextents extents) pind;
     ns \<leftarrow> write_at (ex_nextents extents) pind (cur + 1);
     cur \<leftarrow> read_at (ex_nbytes extents) pind;
     bs \<leftarrow> write_at (ex_nbytes extents) pind (cur + sz);
     Some (extents\<lparr>ex_nextents := ns, ex_nbytes := bs\<rparr>)
   }"

definition extents_stats_sub :: "extents \<Rightarrow> nat \<Rightarrow> size_t \<Rightarrow> extents option" where
  "extents_stats_sub extents pind sz = do {
     cur \<leftarrow> read_at (ex_nextents extents) pind;
     ns \<leftarrow> write_at (ex_nextents extents) pind (cur - 1);
     cur \<leftarrow> read_at (ex_nbytes extents) pind;
     bs \<leftarrow> write_at (ex_nbytes extents) pind (cur - sz);
     Some (extents\<lparr>ex_nextents := ns, ex_nbytes := bs\<rparr>)
   }"

definition extents_insert_locked ::
  "sz_tabs \<Rightarrow> (64 word \<Rightarrow> extent) \<Rightarrow> extents \<Rightarrow> 64 word \<Rightarrow> extents option" where
  "extents_insert_locked t mem extents extent =
     (let req = extent_size_get (mem extent) in do {
        psz \<leftarrow> extent_size_quantize_floor t req;
        let pind = sz_psz2ind psz;
        heap \<leftarrow> read_at (ex_heaps extents) pind;
        bitmap \<leftarrow> (if ph_empty heap then bitmap_unset (ex_bitmap extents) extents_bitmap_info pind
                   else Some (ex_bitmap extents));
        heaps \<leftarrow> write_at (ex_heaps extents) pind (ph_insert extent heap);
        extents \<leftarrow> extents_stats_add (extents\<lparr>ex_bitmap := bitmap, ex_heaps := heaps\<rparr>) pind req;
        let npages = drop_bit LG_PAGE req;
        Some (extents\<lparr>ex_lru := ex_lru extents @ [extent], ex_npages := ex_npages extents + npages\<rparr>)
      })"

definition extents_remove_locked ::
  "sz_tabs \<Rightarrow> (64 word \<Rightarrow> extent) \<Rightarrow> extents \<Rightarrow> 64 word \<Rightarrow> extents option" where
  "extents_remove_locked t mem extents extent =
     (let req = extent_size_get (mem extent) in do {
        psz \<leftarrow> extent_size_quantize_floor t req;
        let pind = sz_psz2ind psz;
        heap \<leftarrow> read_at (ex_heaps extents) pind;
        let heap = ph_remove (heap_comp mem) extent heap;
        heaps \<leftarrow> write_at (ex_heaps extents) pind heap;
        extents \<leftarrow> extents_stats_sub (extents\<lparr>ex_heaps := heaps\<rparr>) pind req;
        bitmap \<leftarrow> (if ph_empty heap then bitmap_set (ex_bitmap extents) extents_bitmap_info pind
                   else Some (ex_bitmap extents));
        let npages = drop_bit LG_PAGE req;
        Some (extents\<lparr>ex_bitmap := bitmap, ex_lru := remove1 extent (ex_lru extents),
          ex_npages := ex_npages extents - npages\<rparr>)
      })"

section \<open>Selecting an extent\<close>

text \<open>
  \<open>bitmap_ffu\<close> on the bitmap of the collection, and \<open>extent_heap_first\<close>, which may restructure
  the heap and must find it not empty.
\<close>

definition extents_ffu :: "extents \<Rightarrow> nat \<Rightarrow> nat option" where
  "extents_ffu extents min_bit =
     bitmap_ffu (ex_bitmap extents @ [ex_after extents]) extents_bitmap_info min_bit"

definition heap_first_at :: "(64 word \<Rightarrow> extent) \<Rightarrow> extents \<Rightarrow> nat \<Rightarrow> (64 word \<times> extents) option" where
  "heap_first_at mem extents i = do {
     heap \<leftarrow> read_at (ex_heaps extents) i;
     let (first, heap) = ph_first (heap_comp mem) heap;
     extent \<leftarrow> first;
     heaps \<leftarrow> write_at (ex_heaps extents) i heap;
     Some (extent, extents\<lparr>ex_heaps := heaps\<rparr>)
   }"

text \<open>The test of \<open>extents_fit_alignment\<close> on one candidate.\<close>

definition fits_aligned :: "extent \<Rightarrow> size_t \<Rightarrow> size_t \<Rightarrow> bool" where
  "fits_aligned e min_size alignment =
     (let base = extent_base_get e; candidate_size = extent_size_get e;
          next_align = ALIGNMENT_CEILING base (PAGE_CEILING alignment)
      in if base > next_align \<or> base + candidate_size \<le> next_align then False
         else let leadsize = next_align - base in min_size \<le> candidate_size - leadsize)"

partial_function (option) fit_alignment_loop ::
  "(64 word \<Rightarrow> extent) \<Rightarrow> nat \<Rightarrow> size_t \<Rightarrow> size_t \<Rightarrow> nat \<Rightarrow> extents \<Rightarrow> (64 word option \<times> extents) option" where
  "fit_alignment_loop mem pind_max min_size alignment i extents =
     (if i < pind_max then do {
        (extent, extents) \<leftarrow> heap_first_at mem extents i;
        if fits_aligned (mem extent) min_size alignment then Some (Some extent, extents)
        else do {
          i \<leftarrow> extents_ffu extents (i + 1);
          fit_alignment_loop mem pind_max min_size alignment i extents
        }
      } else Some (None, extents))"

definition extents_fit_alignment ::
  "sz_tabs \<Rightarrow> (64 word \<Rightarrow> extent) \<Rightarrow> extents \<Rightarrow> size_t \<Rightarrow> size_t \<Rightarrow> size_t \<Rightarrow> (64 word option \<times> extents) option" where
  "extents_fit_alignment t mem extents min_size max_size alignment = do {
     psz \<leftarrow> extent_size_quantize_ceil t min_size;
     psz_max \<leftarrow> extent_size_quantize_ceil t max_size;
     i \<leftarrow> extents_ffu extents (sz_psz2ind psz);
     fit_alignment_loop mem (sz_psz2ind psz_max) min_size alignment i extents
   }"

definition extents_best_fit_locked ::
  "sz_tabs \<Rightarrow> nat \<Rightarrow> (64 word \<Rightarrow> extent) \<Rightarrow> extents \<Rightarrow> size_t \<Rightarrow> (64 word option \<times> extents) option" where
  "extents_best_fit_locked t opt_lg_extent_max_active_fit mem extents req = do {
     psz \<leftarrow> extent_size_quantize_ceil t req;
     i \<leftarrow> extents_ffu extents (sz_psz2ind psz);
     if i < SC_NPSIZES + 1 then do {
       sz \<leftarrow> sz_pind2sz t i;
       if drop_bit opt_lg_extent_max_active_fit sz > req then Some (None, extents)
       else do {
         (extent, extents) \<leftarrow> heap_first_at mem extents i;
         Some (Some extent, extents)
       }
     } else Some (None, extents)
   }"

partial_function (option) first_fit_loop ::
  "(64 word \<Rightarrow> extent) \<Rightarrow> nat \<Rightarrow> 64 word option \<Rightarrow> extents \<Rightarrow> (64 word option \<times> extents) option" where
  "first_fit_loop mem i ret extents =
     (if i < SC_NPSIZES + 1 then do {
        (extent, extents) \<leftarrow> heap_first_at mem extents i;
        let ret = (case ret of None \<Rightarrow> Some extent
                   | Some r \<Rightarrow> if extent_snad_comp (mem extent) (mem r) < 0 then Some extent else ret);
        if i = SC_NPSIZES then Some (ret, extents)
        else do {
          i \<leftarrow> extents_ffu extents (i + 1);
          first_fit_loop mem i ret extents
        }
      } else Some (ret, extents))"

definition extents_first_fit_locked ::
  "sz_tabs \<Rightarrow> (64 word \<Rightarrow> extent) \<Rightarrow> extents \<Rightarrow> size_t \<Rightarrow> (64 word option \<times> extents) option" where
  "extents_first_fit_locked t mem extents req = do {
     psz \<leftarrow> extent_size_quantize_ceil t req;
     i \<leftarrow> extents_ffu extents (sz_psz2ind psz);
     first_fit_loop mem i None extents
   }"

definition extents_fit_locked ::
  "sz_tabs \<Rightarrow> nat \<Rightarrow> (64 word \<Rightarrow> extent) \<Rightarrow> extents \<Rightarrow> size_t \<Rightarrow> size_t \<Rightarrow> (64 word option \<times> extents) option" where
  "extents_fit_locked t opt_lg_extent_max_active_fit mem extents esize alignment =
     (let max_size = esize + PAGE_CEILING alignment - PAGE in
      if max_size < esize then Some (None, extents)
      else do {
        (extent, extents) \<leftarrow>
          (if ex_delay_coalesce extents
           then extents_best_fit_locked t opt_lg_extent_max_active_fit mem extents max_size
           else extents_first_fit_locked t mem extents max_size);
        if alignment > PAGE \<and> extent = None
        then extents_fit_alignment t mem extents esize max_size alignment
        else Some (extent, extents)
      })"

section \<open>The quantized sizes\<close>

text \<open>The least size of the extents of heap \<open>i\<close>.\<close>

definition qsize :: "nat \<Rightarrow> nat" where
  "qsize i = (if i = 0 then 4096 else group_size 12 (i - 1) + 4096)"

lemma group_size_0: "group_size 12 0 = 4096"
  by (simp add: group_size_def)

lemma page_dvd_group_size: "4096 dvd group_size 12 i"
proof -
  have p: "(4096::nat) dvd 2 ^ (12 + k)" for k by (simp add: power_add)
  show ?thesis
    unfolding group_size_def using p [of "i div 4 - 1"] p [of "i div 4"]
    by (cases "i div 4") (auto intro!: dvd_add dvd_mult simp: power_add)
qed

lemma group_size_12_mono: "group_size 12 i < group_size 12 j \<longleftrightarrow> i < j"
  by (rule strict_mono_less [OF group_size_strict_mono]) simp

lemma group_size_pos: "0 < group_size 12 i"
  using group_size_12_mono [of 0 i] group_size_0 by (cases i) auto

lemma qsize_mono: "strict_mono qsize"
  by (rule strict_mono_Suc_iff [THEN iffD2]) (auto simp: qsize_def group_size_12_mono group_size_pos split: nat.split)

lemma qsize_less: "qsize i < qsize j \<longleftrightarrow> i < j" and qsize_le: "qsize i \<le> qsize j \<longleftrightarrow> i \<le> j"
  by (rule strict_mono_less [OF qsize_mono], rule strict_mono_less_eq [OF qsize_mono])

lemma page_dvd_qsize: "4096 dvd qsize i"
  using page_dvd_group_size [of "i - 1"] by (simp add: qsize_def)

lemma qsize_ge: "4096 \<le> qsize i"
  by (simp add: qsize_def)

lemma qsize_199: "qsize 199 = 7 * 2 ^ 60 + 4096"
  by (simp add: qsize_def max_class_sizes)

lemma qsize_small: "i \<le> 199 \<Longrightarrow> qsize i \<le> 7 * 2 ^ 60 + 4096"
  using qsize_le [of i 199] qsize_199 by simp

lemma unat_qsize: "i \<le> 199 \<Longrightarrow> unat (of_nat (qsize i) :: size_t) = qsize i"
  using qsize_small [of i] by (intro unat_of_nat_eq) simp

lemma psz2ind_top: "\<not> unat w \<le> 7 * 2 ^ 60 \<Longrightarrow> sz_psz2ind w = 199"
proof -
  assume "\<not> unat w \<le> 7 * 2 ^ 60"
  then have "SC_LARGE_MAXCLASS < w" using le_LARGE_MAXCLASS [of w] by (simp add: not_le)
  then show ?thesis by (simp add: sz_psz2ind_def sc_macro_values(2))
qed

lemma psz2ind_le: "0 < unat w \<Longrightarrow> i < 199 \<Longrightarrow> sz_psz2ind w \<le> i \<longleftrightarrow> unat w \<le> group_size 12 i"
proof -
  assume w: "0 < unat w" and i: "i < 199"
  have g: "psz_ind2sz_nat i = group_size 12 i" using i by (simp add: psz_ind2sz_nat_def unat_sz_pind2sz_compute)
  show ?thesis
  proof (cases "unat w \<le> 7 * 2 ^ 60")
    case True
    have "psz_sz2ind_nat (unat w) \<le> i \<longleftrightarrow> unat w \<le> psz_ind2sz_nat i"
      by (rule pszc.galois [OF w]) (use True i le_top_class(2) in \<open>simp_all add: sc_macro_values(2)\<close>)
    then show ?thesis by (simp add: g psz_sz2ind_nat_def)
  next
    case False
    then have "sz_psz2ind w = 199" by (rule psz2ind_top)
    moreover have "group_size 12 i \<le> 7 * 2 ^ 60"
      using strict_mono_less_eq [OF group_size_strict_mono, of 12 i 198] i max_class_sizes by simp
    ultimately show ?thesis using False i by simp
  qed
qed

lemma psz2ind_bound: "0 < unat w \<Longrightarrow> sz_psz2ind w \<le> 199"
proof -
  assume w: "0 < unat w"
  show ?thesis
  proof (cases "unat w \<le> 7 * 2 ^ 60")
    case True
    then have "sz_psz2ind w \<le> 198" using psz2ind_le [OF w, of 198] by (simp add: max_class_sizes)
    then show ?thesis by simp
  next
    case False
    then have "sz_psz2ind w = 199" by (rule psz2ind_top)
    then show ?thesis by simp
  qed
qed

text \<open>Sizes of extents: positive multiples of the page size.\<close>

definition page_size :: "size_t \<Rightarrow> bool" where
  "page_size w \<longleftrightarrow> 0 < unat w \<and> 4096 dvd unat w"

lemma page_size_ge: "page_size w \<Longrightarrow> 4096 \<le> unat w"
  by (auto simp: page_size_def dvd_imp_le)

definition fidx :: "size_t \<Rightarrow> nat" where
  "fidx w = sz_psz2ind (w - sz_large_pad + 1)"

lemma unat_minus_pad: "page_size w \<Longrightarrow> unat (w - sz_large_pad + 1) = unat w - 4095"
proof -
  assume w: "page_size w"
  have p: "unat sz_large_pad = 4096" by (simp add: sz_large_pad_def PAGE_def LG_PAGE_def)
  have "unat (w - sz_large_pad) = unat w - 4096" using page_size_ge [OF w] p by (simp add: unat_diff_eq)
  moreover have "unat w < 2 ^ LENGTH(64)" by (rule unat_lt2p)
  ultimately show ?thesis using page_size_ge [OF w] by (subst unat_add_eq) simp_all
qed

lemma le_fidx: "page_size w \<Longrightarrow> i \<le> 199 \<Longrightarrow> i \<le> fidx w \<longleftrightarrow> qsize i \<le> unat w"
proof (cases i)
  case 0
  assume "page_size w"
  with 0 show ?thesis using page_size_ge by (simp add: qsize_def)
next
  case (Suc j)
  assume w: "page_size w" and i: "i \<le> 199"
  have pos: "0 < unat (w - sz_large_pad + 1)" using unat_minus_pad [OF w] page_size_ge [OF w] by simp
  have "i \<le> fidx w \<longleftrightarrow> \<not> unat w - 4095 \<le> group_size 12 j"
    using psz2ind_le [OF pos, of j] i Suc unat_minus_pad [OF w] by (auto simp: fidx_def)
  moreover obtain a where "group_size 12 j = 4096 * a" using page_dvd_group_size [of j] by (rule dvdE)
  moreover obtain b where "unat w = 4096 * b" using w unfolding page_size_def by (metis dvdE)
  ultimately show ?thesis using Suc by (simp add: qsize_def) linarith
qed

lemma fidx_bound: "page_size w \<Longrightarrow> fidx w \<le> 199"
  unfolding fidx_def using unat_minus_pad page_size_ge by (intro psz2ind_bound) fastforce

lemma fidx_qsize: "page_size w \<Longrightarrow> qsize (fidx w) \<le> unat w"
  using le_fidx [of w "fidx w"] fidx_bound by simp

lemma psz2ind_qsize: "i \<le> 199 \<Longrightarrow> sz_psz2ind (of_nat (qsize i)) = i"
proof -
  assume i: "i \<le> 199"
  let ?w = "of_nat (qsize i) :: size_t"
  note u = unat_qsize [OF i]
  have pos: "0 < unat ?w" using u qsize_ge [of i] by simp
  show ?thesis
  proof (rule order_antisym)
    show "sz_psz2ind ?w \<le> i"
    proof (cases "i < 199")
      case True
      have "qsize i \<le> group_size 12 i"
      proof (cases i)
        case (Suc j)
        obtain a b where "group_size 12 j = 4096 * a" "group_size 12 i = 4096 * b"
          using page_dvd_group_size by (metis dvdE)
        moreover have "group_size 12 j < group_size 12 i" using Suc group_size_12_mono by simp
        ultimately show ?thesis using Suc by (simp add: qsize_def)
      qed (simp add: qsize_def group_size_0)
      with psz2ind_le [OF pos True] u show ?thesis by simp
    qed (use psz2ind_bound [OF pos] i in simp)
    show "i \<le> sz_psz2ind ?w"
    proof (cases i)
      case (Suc j)
      have "\<not> sz_psz2ind ?w \<le> j" using psz2ind_le [OF pos, of j] u i Suc by (simp add: qsize_def)
      with Suc show ?thesis by simp
    qed simp
  qed
qed

lemma sz_pind2sz_pad: "tabs_ok t \<Longrightarrow> i < 199 \<Longrightarrow> \<exists>w. sz_pind2sz t i = Some w \<and> w + sz_large_pad = of_nat (qsize (Suc i))"
  by (simp add: sz_pind2sz_ok sc_macro_values(2) sz_pind2sz_compute_eq qsize_def sz_large_pad_def PAGE_def LG_PAGE_def)

lemma quantize_floor:
  assumes "tabs_ok t" "page_size w"
  shows "extent_size_quantize_floor t w = Some (of_nat (qsize (fidx w)))"
proof (cases "fidx w")
  case 0
  then have "\<not> 1 \<le> fidx w" by simp
  then have "unat w < qsize 1" using le_fidx [OF assms(2), of 1] by simp
  then have "unat w = 4096" using assms(2) by (auto simp: qsize_def group_size_0 page_size_def dvd_def)
  then have "w = of_nat (qsize 0)" by (simp add: qsize_def group_size_0 word_unat_eq_iff)
  with 0 show ?thesis by (simp add: extent_size_quantize_floor_def fidx_def)
next
  case (Suc j)
  then have "j < 199" using fidx_bound [OF assms(2)] by simp
  from sz_pind2sz_pad [OF assms(1) this] Suc show ?thesis
    by (auto simp: extent_size_quantize_floor_def fidx_def [symmetric] Let_def)
qed

definition cidx :: "size_t \<Rightarrow> nat" where
  "cidx w = (if qsize (fidx w) < unat w then Suc (fidx w) else fidx w)"

lemma cidx:
  assumes "page_size w" "unat w \<le> 7 * 2 ^ 60 + 4096"
  shows "cidx w \<le> 199" "unat w \<le> qsize (cidx w)" "i \<le> 199 \<Longrightarrow> unat w \<le> qsize i \<Longrightarrow> cidx w \<le> i"
proof -
  have b: "fidx w \<le> 199" by (rule fidx_bound [OF assms(1)])
  have l: "fidx w < 199" if "qsize (fidx w) < unat w"
    using that assms(2) b qsize_199 by (cases "fidx w = 199") auto
  then show "cidx w \<le> 199" using b by (auto simp: cidx_def)
  show "unat w \<le> qsize (cidx w)"
  proof (cases "qsize (fidx w) < unat w")
    case True
    with le_fidx [OF assms(1), of "Suc (fidx w)"] l show ?thesis by (simp add: cidx_def)
  qed (simp add: cidx_def)
  show "cidx w \<le> i" if "i \<le> 199" "unat w \<le> qsize i"
  proof (cases "qsize (fidx w) < unat w")
    case True
    then have "qsize (fidx w) < qsize i" using that(2) by simp
    with True show ?thesis by (simp add: qsize_less cidx_def)
  next
    case False
    with fidx_qsize [OF assms(1)] that(2) have "qsize (fidx w) \<le> qsize i" by simp
    with False show ?thesis by (simp add: qsize_le cidx_def)
  qed
qed

lemma quantize_ceil:
  assumes "tabs_ok t" "page_size w" "unat w \<le> 7 * 2 ^ 60 + 4096"
  shows "extent_size_quantize_ceil t w = Some (of_nat (qsize (cidx w)))"
proof -
  note f = quantize_floor [OF assms(1,2)] and b = fidx_bound [OF assms(2)]
  let ?ret = "of_nat (qsize (fidx w)) :: size_t"
  have lt: "?ret < w \<longleftrightarrow> qsize (fidx w) < unat w" using unat_qsize [OF b] by (simp add: word_less_nat_alt)
  show ?thesis
  proof (cases "qsize (fidx w) < unat w")
    case False
    with f lt show ?thesis by (simp add: extent_size_quantize_ceil_def cidx_def)
  next
    case True
    have ps: "page_size ?ret" using unat_qsize [OF b] page_dvd_qsize qsize_ge [of "fidx w"] by (simp add: page_size_def)
    have "fidx ?ret = fidx w"
    proof (rule order_antisym)
      have "qsize (fidx ?ret) \<le> qsize (fidx w)" using fidx_qsize [OF ps] unat_qsize [OF b] by simp
      then show "fidx ?ret \<le> fidx w" by (simp add: qsize_le)
      show "fidx w \<le> fidx ?ret" using le_fidx [OF ps b] unat_qsize [OF b] by simp
    qed
    then have i: "sz_psz2ind (?ret - sz_large_pad + 1) = fidx w" by (simp add: fidx_def)
    have "fidx w < 199" using cidx(1) [OF assms(2,3)] True by (simp add: cidx_def)
    from sz_pind2sz_pad [OF assms(1) this] show ?thesis
      using f lt True by (auto simp: extent_size_quantize_ceil_def i cidx_def)
  qed
qed

section \<open>Well-formed collections\<close>

abbreviation esize_at :: "(64 word \<Rightarrow> extent) \<Rightarrow> 64 word \<Rightarrow> size_t" where
  "esize_at mem a \<equiv> extent_size_get (mem a)"

definition heap_set :: "(64 word \<Rightarrow> extent) \<Rightarrow> 64 word list \<Rightarrow> nat \<Rightarrow> 64 word set" where
  "heap_set mem L i = {a \<in> set L. fidx (esize_at mem a) = i}"

text \<open>
  \<open>L\<close> are the extents of the collection, the least recently used first. Heap \<open>i\<close> holds those
  whose size has floor index \<open>i\<close>, and the bitmap has a one where a heap is not empty.
\<close>

definition heaps_ok :: "(64 word \<Rightarrow> extent) \<Rightarrow> 64 word ph list \<Rightarrow> 64 word list \<Rightarrow> bool" where
  "heaps_ok mem heaps L \<longleftrightarrow> length heaps = 200
     \<and> (\<forall>i<200. ph_inv (heap_comp mem) (heaps ! i) \<and> mset_phns (heaps ! i) = mset_set (heap_set mem L i))"

definition bitmap_ok :: "bitmap \<Rightarrow> 64 word ph list \<Rightarrow> bool" where
  "bitmap_ok bm heaps \<longleftrightarrow> length bm = 4 \<and> (\<forall>b<256. bm_bit bm b \<longleftrightarrow> b < 200 \<and> heaps ! b \<noteq> [])"

definition stats_ok :: "(64 word \<Rightarrow> extent) \<Rightarrow> extents \<Rightarrow> 64 word list \<Rightarrow> bool" where
  "stats_ok mem ex L \<longleftrightarrow> length (ex_nextents ex) = 200 \<and> length (ex_nbytes ex) = 200
     \<and> (\<forall>i<200. ex_nextents ex ! i = of_nat (card (heap_set mem L i))
          \<and> ex_nbytes ex ! i = (\<Sum>a\<in>heap_set mem L i. esize_at mem a))
     \<and> ex_npages ex = (\<Sum>a\<in>set L. drop_bit LG_PAGE (esize_at mem a))"

definition extents_inv :: "(64 word \<Rightarrow> extent) \<Rightarrow> extents \<Rightarrow> 64 word list \<Rightarrow> bool" where
  "extents_inv mem ex L \<longleftrightarrow> distinct L \<and> ex_lru ex = L \<and> (\<forall>a\<in>set L. page_size (esize_at mem a))
     \<and> heaps_ok mem (ex_heaps ex) L \<and> bitmap_ok (ex_bitmap ex) (ex_heaps ex) \<and> stats_ok mem ex L"

lemma finite_heap_set [simp]: "finite (heap_set mem L i)"
  by (simp add: heap_set_def)

lemma extents_invD:
  assumes "extents_inv mem ex L"
  shows "length (ex_heaps ex) = 200" "length (ex_bitmap ex) = 4" "distinct L" "ex_lru ex = L"
    "\<And>a. a \<in> set L \<Longrightarrow> page_size (esize_at mem a)"
    "\<And>i. i < 200 \<Longrightarrow> ph_inv (heap_comp mem) (ex_heaps ex ! i)"
    "\<And>i. i < 200 \<Longrightarrow> mset_phns (ex_heaps ex ! i) = mset_set (heap_set mem L i)"
    "\<And>b. b < 256 \<Longrightarrow> bm_bit (ex_bitmap ex) b \<longleftrightarrow> b < 200 \<and> ex_heaps ex ! b \<noteq> []"
    "length (ex_nextents ex) = 200" "length (ex_nbytes ex) = 200"
  using assms by (auto simp: extents_inv_def heaps_ok_def bitmap_ok_def stats_ok_def)

lemma heap_empty_iff: "extents_inv mem ex L \<Longrightarrow> i < 200 \<Longrightarrow> ex_heaps ex ! i = [] \<longleftrightarrow> heap_set mem L i = {}"
  using extents_invD(7) [of mem ex L i] by (metis finite_heap_set mset_phns_eq_empty mset_set_empty_iff)

lemma sc_npsizes_200: "SC_NPSIZES + 1 = 200" "Suc SC_NPSIZES = 200"
  by (simp_all add: sc_macro_values(2))

text \<open>The index of the heap of an extent, as the operations compute it.\<close>

lemma heap_index:
  assumes "tabs_ok t" "page_size w"
  shows "\<exists>psz. extent_size_quantize_floor t w = Some psz \<and> sz_psz2ind psz = fidx w"
    "fidx w < 200"
  using quantize_floor [OF assms] psz2ind_qsize [OF fidx_bound [OF assms(2)]] fidx_bound [OF assms(2)] by simp_all

section \<open>Insertion and removal\<close>

lemma heap_set_append: "a \<notin> set L \<Longrightarrow> heap_set mem (L @ [a]) i =
    (if i = fidx (esize_at mem a) then insert a (heap_set mem L i) else heap_set mem L i)"
  by (auto simp: heap_set_def)

lemma heap_set_remove: "distinct L \<Longrightarrow> heap_set mem (remove1 a L) i = heap_set mem L i - {a}"
  by (auto simp: heap_set_def)

lemma bitmap_toggle_ok:
  assumes "bitmap_ok bm heaps" "i < 200" "length heaps = 200"
    and "(ph = []) \<longleftrightarrow> heaps ! i \<noteq> []"
  shows "bitmap_ok (bm_toggle bm i) (heaps[i := ph])"
proof -
  have "i div 64 < length bm" using assms(1,2) by (simp add: bitmap_ok_def)
  from bm_bit_toggle [OF this] assms show ?thesis by (auto simp: bitmap_ok_def nth_list_update)
qed

lemma bitmap_same_ok:
  "bitmap_ok bm heaps \<Longrightarrow> i < 200 \<Longrightarrow> length heaps = 200 \<Longrightarrow> (ph = []) = (heaps ! i = []) \<Longrightarrow>
    bitmap_ok bm (heaps[i := ph])"
  by (auto simp: bitmap_ok_def nth_list_update)

lemma insert_ok:
  assumes "tabs_ok t" "extents_inv mem ex L" "a \<notin> set L" "page_size (esize_at mem a)"
  shows "\<exists>ex'. extents_insert_locked t mem ex a = Some ex' \<and> extents_inv mem ex' (L @ [a])
    \<and> ex_state ex' = ex_state ex \<and> ex_delay_coalesce ex' = ex_delay_coalesce ex"
proof -
  note inv = extents_invD [OF assms(2)]
  let ?w = "esize_at mem a"
  obtain psz where psz: "extent_size_quantize_floor t ?w = Some psz" "sz_psz2ind psz = fidx ?w"
    using heap_index(1) [OF assms(1,4)] by blast
  define i where "i = fidx ?w"
  have i: "i < 200" using heap_index(2) [OF assms(1,4)] by (simp add: i_def)
  define heap where "heap = ex_heaps ex ! i"
  define heaps where "heaps = (ex_heaps ex)[i := ph_insert a heap]"
  define bm where "bm = (if ph_empty heap then bm_toggle (ex_bitmap ex) i else ex_bitmap ex)"
  have ne: "ph_insert a heap \<noteq> []" by (cases heap) (simp_all add: ph_insert_def)
  have bm_eq: "(if ph_empty heap then bitmap_unset (ex_bitmap ex) extents_bitmap_info i
      else Some (ex_bitmap ex)) = Some bm"
    using i inv(2) by (simp add: bm_def bitmap_unset_eq)
  have "bitmap_ok (ex_bitmap ex) (ex_heaps ex)" using assms(2) by (simp add: extents_inv_def)
  then have bok: "bitmap_ok bm heaps"
    using i inv(1) ne bitmap_toggle_ok [of _ _ i "ph_insert a heap"] bitmap_same_ok [of _ _ i "ph_insert a heap"]
    by (cases "heap = []") (simp_all add: bm_def heaps_def heap_def ph_empty_def)
  have "mset_phns (ph_insert a heap) = mset_set (insert a (heap_set mem L i))"
    using inv(7) [OF i] assms(3) by (simp add: extent_heap.pq.insert(2) heap_def heap_set_def)
  moreover have "ph_inv (heap_comp mem) (ph_insert a heap)"
    using extent_heap.pq.insert(1) inv(6) [OF i] by (simp add: heap_def)
  ultimately have hok: "heaps_ok mem heaps (L @ [a])"
    using inv(1,6,7) i by (auto simp: heaps_ok_def heaps_def nth_list_update heap_set_append [OF assms(3)] i_def)
  define ex' where "ex' = ex\<lparr>ex_bitmap := bm, ex_heaps := heaps, ex_nextents := (ex_nextents ex)[i := ex_nextents ex ! i + 1],
    ex_nbytes := (ex_nbytes ex)[i := ex_nbytes ex ! i + ?w], ex_lru := L @ [a], ex_npages := ex_npages ex + drop_bit LG_PAGE ?w\<rparr>"
  have eq: "extents_insert_locked t mem ex a = Some ex'"
    using psz bm_eq i inv(1,4,9,10)
    by (simp add: extents_insert_locked_def i_def [symmetric] extents_stats_add_def heap_def [symmetric]
        heaps_def [symmetric] ex'_def Let_def cong: if_cong)
  have "a \<notin> heap_set mem L i" using assms(3) by (simp add: heap_set_def)
  then have "stats_ok mem ex' (L @ [a])"
    using assms(2) assms(3) i
    by (auto simp: extents_inv_def stats_ok_def ex'_def nth_list_update heap_set_append [OF assms(3)] i_def
        add.commute)
  then have "extents_inv mem ex' (L @ [a])"
    using inv assms(3,4) bok hok by (auto simp: extents_inv_def ex'_def)
  with eq show ?thesis by (simp add: ex'_def)
qed

lemma remove_ok:
  assumes "tabs_ok t" "extents_inv mem ex L" "a \<in> set L"
  shows "\<exists>ex'. extents_remove_locked t mem ex a = Some ex' \<and> extents_inv mem ex' (remove1 a L)
    \<and> ex_state ex' = ex_state ex \<and> ex_delay_coalesce ex' = ex_delay_coalesce ex"
proof -
  note inv = extents_invD [OF assms(2)]
  let ?w = "esize_at mem a" and ?cmp = "heap_comp mem"
  have w: "page_size ?w" by (rule inv(5) [OF assms(3)])
  obtain psz where psz: "extent_size_quantize_floor t ?w = Some psz" "sz_psz2ind psz = fidx ?w"
    using heap_index(1) [OF assms(1) w] by blast
  define i where "i = fidx ?w"
  have i: "i < 200" using heap_index(2) [OF assms(1) w] by (simp add: i_def)
  have a: "a \<in> heap_set mem L i" using assms(3) by (simp add: heap_set_def i_def)
  define heap where "heap = ex_heaps ex ! i"
  define heap' where "heap' = ph_remove ?cmp a heap"
  define heaps where "heaps = (ex_heaps ex)[i := heap']"
  define bm where "bm = (if ph_empty heap' then bm_toggle (ex_bitmap ex) i else ex_bitmap ex)"
  have bm_eq: "(if ph_empty heap' then bitmap_set (ex_bitmap ex) extents_bitmap_info i
      else Some (ex_bitmap ex)) = Some bm"
    using i inv(2) by (simp add: bm_def bitmap_set_eq)
  have m: "mset_phns heap = mset_set (heap_set mem L i)" "ph_inv ?cmp heap"
    using inv(6,7) [OF i] by (simp_all add: heap_def)
  have c: "a \<in># mset_phns heap" "count (mset_phns heap) a = 1" using a m(1) by simp_all
  have ne: "heap \<noteq> []" using c(1) by auto
  from extent_heap.pq.remove [of mem heap a] m(2) c
  have h: "ph_inv ?cmp heap'" "mset_phns heap = add_mset a (mset_phns heap')" by (auto simp: heap'_def)
  have "mset_set (heap_set mem L i) = add_mset a (mset_set (heap_set mem L i - {a}))"
    using a by (simp add: mset_set.remove)
  with h(2) m(1) have h': "mset_phns heap' = mset_set (heap_set mem L i - {a})" by simp
  have other: "heap_set mem L j - {a} = heap_set mem L j" if "j \<noteq> i" for j
    using that by (auto simp: heap_set_def i_def)
  have "bitmap_ok (ex_bitmap ex) (ex_heaps ex)" using assms(2) by (simp add: extents_inv_def)
  then have bok: "bitmap_ok bm heaps"
    using i inv(1) ne bitmap_toggle_ok [of _ _ i heap'] bitmap_same_ok [of _ _ i heap']
    by (cases "heap' = []") (simp_all add: bm_def heaps_def heap_def ph_empty_def)
  have hok: "heaps_ok mem heaps (remove1 a L)"
    using inv(1,6,7) i h(1) h' other
    by (auto simp: heaps_ok_def heaps_def nth_list_update heap_set_remove [OF inv(3)])
  define ex' where "ex' = ex\<lparr>ex_heaps := heaps, ex_nextents := (ex_nextents ex)[i := ex_nextents ex ! i - 1],
    ex_nbytes := (ex_nbytes ex)[i := ex_nbytes ex ! i - ?w], ex_bitmap := bm, ex_lru := remove1 a L,
    ex_npages := ex_npages ex - drop_bit LG_PAGE ?w\<rparr>"
  have eq: "extents_remove_locked t mem ex a = Some ex'"
    using psz bm_eq i inv(1,4,9,10)
    by (simp add: extents_remove_locked_def i_def [symmetric] extents_stats_sub_def heap_def [symmetric]
        heaps_def [symmetric] ex'_def heap'_def [symmetric] Let_def cong: if_cong)
  have "card (heap_set mem L i) = Suc (card (heap_set mem L i - {a}))"
    by (rule card.remove [OF finite_heap_set a])
  moreover have "(\<Sum>x\<in>heap_set mem L i. esize_at mem x) = ?w + (\<Sum>x\<in>heap_set mem L i - {a}. esize_at mem x)"
    using a by (rule sum.remove [OF finite_heap_set])
  moreover have "(\<Sum>x\<in>set L. drop_bit LG_PAGE (esize_at mem x)) =
      drop_bit LG_PAGE ?w + (\<Sum>x\<in>set L - {a}. drop_bit LG_PAGE (esize_at mem x))"
    using assms(3) by (intro sum.remove) simp_all
  ultimately have "stats_ok mem ex' (remove1 a L)"
    using assms(2) i inv(3) other
    by (auto simp: extents_inv_def stats_ok_def ex'_def nth_list_update heap_set_remove)
  then have "extents_inv mem ex' (remove1 a L)"
    using inv bok hok by (auto simp: extents_inv_def ex'_def)
  with eq show ?thesis by (simp add: ex'_def)
qed

section \<open>The search\<close>

lemma extents_ffu_ok:
  assumes "extents_inv mem ex L" "m < 200"
  shows "\<exists>j. extents_ffu ex m = Some j \<and> m \<le> j \<and> j \<le> 200 \<and> (j < 200 \<longrightarrow> heap_set mem L j \<noteq> {})
    \<and> (\<forall>k. m \<le> k \<longrightarrow> k < j \<longrightarrow> heap_set mem L k = {})"
proof -
  note inv = extents_invD [OF assms(1)]
  let ?bm = "ex_bitmap ex @ [ex_after ex]"
  have b: "bm_bit ?bm b \<longleftrightarrow> b < 200 \<and> heap_set mem L b \<noteq> {}" if "b < 256" for b
  proof -
    have "b div 64 < 4" using that by linarith
    then have "bm_bit ?bm b = bm_bit (ex_bitmap ex) b" using inv(2) by (simp add: bm_bit_def nth_append)
    with inv(8) [OF that] heap_empty_iff [OF assms(1)] show ?thesis by blast
  qed
  have "bitmap_inv 200 ?bm" using inv(2) b by (simp add: bitmap_inv_def BITMAP_BITS2GROUPS_eq)
  moreover have groups: "BITMAP_BITS2GROUPS 200 < length ?bm = True" using inv(2) by (simp add: BITMAP_BITS2GROUPS_eq)
  ultimately have eq: "extents_ffu ex m =
      (if \<exists>b<200. first_one ?bm m b then Some (THE b. first_one ?bm m b) else Some 200)"
    using bitmap_ffu_eq [of 200 ?bm m] assms(2)
    by (simp only: extents_ffu_def extents_bitmap_info_def sc_npsizes_200 groups if_True)
  show ?thesis
  proof (cases "\<exists>b<200. first_one ?bm m b")
    case True
    then obtain c where c: "c < 200" "first_one ?bm m c" by blast
    then have "(THE b. first_one ?bm m b) = c" by (metis first_one_unique theI)
    with eq True have "extents_ffu ex m = Some c" by simp
    moreover have "m \<le> c" "heap_set mem L c \<noteq> {}" "\<forall>k. m \<le> k \<longrightarrow> k < c \<longrightarrow> heap_set mem L k = {}"
      using c b by (auto simp: first_one_def)
    ultimately show ?thesis using c(1) by auto
  next
    case False
    have none: "heap_set mem L k = {}" if "m \<le> k" "k < 200" for k
    proof (rule ccontr)
      assume "heap_set mem L k \<noteq> {}"
      then have ex: "\<exists>c. m \<le> c \<and> c < 200 \<and> bm_bit ?bm c" using that b [of k] by auto
      define c where "c = (LEAST c. m \<le> c \<and> c < 200 \<and> bm_bit ?bm c)"
      have "m \<le> c \<and> c < 200 \<and> bm_bit ?bm c" unfolding c_def by (rule LeastI_ex [OF ex])
      moreover from this have "\<not> bm_bit ?bm j" if "m \<le> j" "j < c" for j
        using not_less_Least [of j "\<lambda>c. m \<le> c \<and> c < 200 \<and> bm_bit ?bm c"] that by (simp add: c_def)
      ultimately show False using False by (auto simp: first_one_def)
    qed
    from eq False have "extents_ffu ex m = Some 200" by simp
    with none assms(2) show ?thesis by auto
  qed
qed

definition oldest_in :: "(64 word \<Rightarrow> extent) \<Rightarrow> 64 word set \<Rightarrow> 64 word \<Rightarrow> bool" where
  "oldest_in mem A a \<longleftrightarrow> a \<in> A \<and> (\<forall>b\<in>A. extent_snad_comp (mem a) (mem b) \<le> 0)"

lemma heap_first_ok:
  assumes "extents_inv mem ex L" "i < 200" "heap_set mem L i \<noteq> {}"
  shows "\<exists>a ex'. heap_first_at mem ex i = Some (a, ex') \<and> extents_inv mem ex' L \<and> oldest_in mem (heap_set mem L i) a
    \<and> ex_state ex' = ex_state ex \<and> ex_delay_coalesce ex' = ex_delay_coalesce ex"
proof -
  note inv = extents_invD [OF assms(1)]
  have ne: "ex_heaps ex ! i \<noteq> []" using heap_empty_iff [OF assms(1,2)] assms(3) by simp
  from extent_heap.first_least [OF inv(6) [OF assms(2)] ne] obtain a ph where
    a: "ph_first (heap_comp mem) (ex_heaps ex ! i) = (Some a, ph)" "ph_inv (heap_comp mem) ph"
      "mset_phns ph = mset_phns (ex_heaps ex ! i)" "a \<in># mset_phns (ex_heaps ex ! i)"
      "\<forall>b\<in>#mset_phns (ex_heaps ex ! i). heap_comp mem a b \<le> 0" by blast
  define ex' where "ex' = ex\<lparr>ex_heaps := (ex_heaps ex)[i := ph]\<rparr>"
  have eq: "heap_first_at mem ex i = Some (a, ex')"
    using a(1) assms(2) inv(1) by (simp add: heap_first_at_def ex'_def)
  have "ph \<noteq> []" using a(3) ne by (metis mset_phns_eq_empty)
  moreover have "bitmap_ok (ex_bitmap ex) (ex_heaps ex)" using assms(1) by (simp add: extents_inv_def)
  ultimately have "bitmap_ok (ex_bitmap ex) ((ex_heaps ex)[i := ph])"
    using ne inv(1) assms(2) by (simp add: bitmap_same_ok)
  moreover have "heaps_ok mem ((ex_heaps ex)[i := ph]) L"
    unfolding heaps_ok_def
  proof (intro conjI allI impI)
    fix j :: nat assume j: "j < 200"
    then show "ph_inv (heap_comp mem) ((ex_heaps ex)[i := ph] ! j)"
      using a(2) inv(1,6) by (cases "j = i") simp_all
    show "mset_phns ((ex_heaps ex)[i := ph] ! j) = mset_set (heap_set mem L j)"
      using j a(3) inv(1,7) by (cases "j = i") simp_all
  qed (simp add: inv(1))
  moreover have "stats_ok mem ex' L" using assms(1) by (simp add: extents_inv_def stats_ok_def ex'_def)
  ultimately have "extents_inv mem ex' L" using assms(1) by (simp add: extents_inv_def ex'_def)
  moreover have "oldest_in mem (heap_set mem L i) a"
    using a(4,5) inv(7) [OF assms(2)] by (simp add: oldest_in_def heap_comp_def)
  ultimately show ?thesis using eq by (auto simp: ex'_def)
qed

definition heap_range :: "(64 word \<Rightarrow> extent) \<Rightarrow> 64 word list \<Rightarrow> nat \<Rightarrow> nat \<Rightarrow> 64 word set" where
  "heap_range mem L m n = {a \<in> set L. m \<le> fidx (esize_at mem a) \<and> fidx (esize_at mem a) < n}"

lemma heap_range_simps:
  "heap_range mem L m m = {}"
  "m \<le> n \<Longrightarrow> heap_range mem L m (Suc n) = heap_range mem L m n \<union> heap_set mem L n"
  "m \<le> n \<Longrightarrow> n \<le> j \<Longrightarrow> (\<forall>k. n \<le> k \<longrightarrow> k < j \<longrightarrow> heap_set mem L k = {}) \<Longrightarrow> heap_range mem L m j = heap_range mem L m n"
proof -
  show "heap_range mem L m j = heap_range mem L m n"
    if "m \<le> n" "n \<le> j" "\<forall>k. n \<le> k \<longrightarrow> k < j \<longrightarrow> heap_set mem L k = {}"
  proof -
    have "fidx (esize_at mem a) < n" if "a \<in> set L" "fidx (esize_at mem a) < j" for a
    proof (rule ccontr)
      assume "\<not> fidx (esize_at mem a) < n"
      with that \<open>\<forall>k. _\<close> have "heap_set mem L (fidx (esize_at mem a)) = {}" by simp
      with that(1) show False unfolding heap_set_def by blast
    qed
    with that show ?thesis by (auto simp: heap_range_def)
  qed
qed (auto simp: heap_range_def heap_set_def)

definition best_of :: "(64 word \<Rightarrow> extent) \<Rightarrow> 64 word set \<Rightarrow> 64 word option \<Rightarrow> bool" where
  "best_of mem A ret \<longleftrightarrow> (case ret of None \<Rightarrow> A = {} | Some a \<Rightarrow> oldest_in mem A a)"

lemma best_of_step:
  assumes "best_of mem A ret" "oldest_in mem B a"
  shows "best_of mem (A \<union> B) (case ret of None \<Rightarrow> Some a
    | Some r \<Rightarrow> if extent_snad_comp (mem a) (mem r) < 0 then Some a else ret)"
proof (cases ret)
  case None
  with assms show ?thesis by (simp add: best_of_def)
next
  case (Some r)
  have trans: "extent_snad_comp (mem x) (mem z) \<le> 0"
    if "extent_snad_comp (mem x) (mem y) \<le> 0" "extent_snad_comp (mem y) (mem z) \<le> 0" for x y z
    using that extent_heap.trans [of mem x y z] by (simp add: heap_comp_def)
  have total: "extent_snad_comp (mem r) (mem a) \<le> 0" if "\<not> extent_snad_comp (mem a) (mem r) < 0"
    using that extent_heap.total [of mem a r] by (simp add: heap_comp_def)
  from Some assms show ?thesis
    by (auto simp: best_of_def oldest_in_def intro: trans less_imp_le dest: total)
qed

lemma first_fit_loop_ok:
  assumes "extents_inv mem ex L" "m \<le> i" "i \<le> 200" "i < 200 \<longrightarrow> heap_set mem L i \<noteq> {}"
    and "best_of mem (heap_range mem L m i) ret"
  shows "\<exists>ret' ex'. first_fit_loop mem i ret ex = Some (ret', ex') \<and> extents_inv mem ex' L
    \<and> best_of mem (heap_range mem L m 200) ret'
    \<and> ex_state ex' = ex_state ex \<and> ex_delay_coalesce ex' = ex_delay_coalesce ex"
  using assms
proof (induction "200 - i" arbitrary: i ret ex rule: less_induct)
  case less
  show ?case
  proof (cases "i < 200")
    case False
    with less.prems have "i = 200" by simp
    with less.prems show ?thesis by (simp add: first_fit_loop.simps sc_macro_values(2))
  next
    case True
    with less.prems(1,4) heap_first_ok [of mem ex L i] obtain a ex1 where
      a: "heap_first_at mem ex i = Some (a, ex1)" "extents_inv mem ex1 L" "oldest_in mem (heap_set mem L i) a"
        "ex_state ex1 = ex_state ex" "ex_delay_coalesce ex1 = ex_delay_coalesce ex" by blast
    define ret1 where "ret1 = (case ret of None \<Rightarrow> Some a
      | Some r \<Rightarrow> if extent_snad_comp (mem a) (mem r) < 0 then Some a else ret)"
    have r1: "best_of mem (heap_range mem L m (Suc i)) ret1"
      using best_of_step [OF less.prems(5) a(3)] heap_range_simps(2) [OF less.prems(2)] by (simp add: ret1_def)
    show ?thesis
    proof (cases "i = 199")
      case True
      have "first_fit_loop mem i ret ex = Some (ret1, ex1)"
        using a(1) True
        by (subst first_fit_loop.simps) (simp add: sc_macro_values(2) ret1_def [symmetric])
      with a r1 True show ?thesis by simp
    next
      case False
      with True have "i + 1 < 200" by simp
      from extents_ffu_ok [OF a(2) this] obtain j where
        j: "extents_ffu ex1 (i + 1) = Some j" "i + 1 \<le> j" "j \<le> 200" "j < 200 \<longrightarrow> heap_set mem L j \<noteq> {}"
          "\<forall>k. i + 1 \<le> k \<longrightarrow> k < j \<longrightarrow> heap_set mem L k = {}" by blast
      have "heap_range mem L m j = heap_range mem L m (Suc i)"
        by (rule heap_range_simps(3)) (use j less.prems(2) in auto)
      with r1 have "best_of mem (heap_range mem L m j) ret1" by simp
      moreover have "200 - j < 200 - i" "m \<le> j" using j(2) True less.prems(2) by simp_all
      ultimately obtain ret' ex' where
        "first_fit_loop mem j ret1 ex1 = Some (ret', ex')" "extents_inv mem ex' L"
        "best_of mem (heap_range mem L m 200) ret'" "ex_state ex' = ex_state ex1"
        "ex_delay_coalesce ex' = ex_delay_coalesce ex1"
        using less.hyps [OF _ a(2) _ j(3,4)] by blast
      moreover have "first_fit_loop mem i ret ex = first_fit_loop mem j ret1 ex1"
        using a(1) j(1) True False
        by (simp add: first_fit_loop.simps [of mem i] sc_macro_values(2) ret1_def [symmetric])
      ultimately show ?thesis using a(4,5) by simp
    qed
  qed
qed

lemma first_fit_ok:
  assumes "tabs_ok t" "extents_inv mem ex L" "page_size req" "unat req \<le> 7 * 2 ^ 60 + 4096"
  shows "\<exists>ret ex'. extents_first_fit_locked t mem ex req = Some (ret, ex') \<and> extents_inv mem ex' L
    \<and> best_of mem (heap_range mem L (cidx req) 200) ret
    \<and> ex_state ex' = ex_state ex \<and> ex_delay_coalesce ex' = ex_delay_coalesce ex"
proof -
  have c: "cidx req \<le> 199" by (rule cidx(1) [OF assms(3,4)])
  then have "cidx req < 200" by simp
  from extents_ffu_ok [OF assms(2) this] obtain j where
    j: "extents_ffu ex (cidx req) = Some j" "cidx req \<le> j" "j \<le> 200" "j < 200 \<longrightarrow> heap_set mem L j \<noteq> {}"
      "\<forall>k. cidx req \<le> k \<longrightarrow> k < j \<longrightarrow> heap_set mem L k = {}" by blast
  have "heap_range mem L (cidx req) j = {}"
    using heap_range_simps(3) [of "cidx req" "cidx req" j mem L] j heap_range_simps(1) by auto
  then have "best_of mem (heap_range mem L (cidx req) j) None" by (simp add: best_of_def)
  from first_fit_loop_ok [OF assms(2) j(2,3,4) this] j(1) show ?thesis
    by (simp add: extents_first_fit_locked_def quantize_ceil [OF assms(1,3,4)] psz2ind_qsize [OF c])
qed

text \<open>
  What a best fit returns: the oldest extent of the first heap that is not empty from the one of
  the request on, unless that heap is of a size that is much larger than the request.
\<close>

definition best_fit :: "sz_tabs \<Rightarrow> nat \<Rightarrow> (64 word \<Rightarrow> extent) \<Rightarrow> 64 word list \<Rightarrow> size_t \<Rightarrow> 64 word option \<Rightarrow> bool" where
  "best_fit t lg mem L req ret \<longleftrightarrow>
     (case ret of Some a \<Rightarrow> \<exists>i\<ge>cidx req. i < 200 \<and> oldest_in mem (heap_set mem L i) a \<and> heap_range mem L (cidx req) i = {}
      | None \<Rightarrow> heap_range mem L (cidx req) 200 = {} \<or>
          (\<exists>i\<ge>cidx req. i < 200 \<and> heap_set mem L i \<noteq> {} \<and> heap_range mem L (cidx req) i = {}
            \<and> (\<exists>sz. sz_pind2sz t i = Some sz \<and> req < drop_bit lg sz)))"

lemma best_fit_ok:
  assumes "tabs_ok t" "extents_inv mem ex L" "page_size req" "unat req \<le> 7 * 2 ^ 60 + 4096"
  shows "\<exists>ret ex'. extents_best_fit_locked t lg mem ex req = Some (ret, ex') \<and> extents_inv mem ex' L
    \<and> best_fit t lg mem L req ret
    \<and> ex_state ex' = ex_state ex \<and> ex_delay_coalesce ex' = ex_delay_coalesce ex"
proof -
  have c: "cidx req \<le> 199" by (rule cidx(1) [OF assms(3,4)])
  then have "cidx req < 200" by simp
  from extents_ffu_ok [OF assms(2) this] obtain j where
    j: "extents_ffu ex (cidx req) = Some j" "cidx req \<le> j" "j \<le> 200" "j < 200 \<longrightarrow> heap_set mem L j \<noteq> {}"
      "\<forall>k. cidx req \<le> k \<longrightarrow> k < j \<longrightarrow> heap_set mem L k = {}" by blast
  have e: "heap_range mem L (cidx req) j = {}"
    using heap_range_simps(3) [of "cidx req" "cidx req" j mem L] j heap_range_simps(1) by auto
  note q = quantize_ceil [OF assms(1,3,4)] psz2ind_qsize [OF c]
  show ?thesis
  proof (cases "j < 200")
    case False
    with j(3) have "j = 200" by simp
    then show ?thesis using q j(1) e assms(2) by (simp add: extents_best_fit_locked_def sc_npsizes_200 best_fit_def)
  next
    case True
    then obtain sz where sz: "sz_pind2sz t j = Some sz"
      using assms(1) by (simp add: sz_pind2sz_ok sc_macro_values(2))
    from True j(4) heap_first_ok [OF assms(2) True] obtain a ex1 where
      a: "heap_first_at mem ex j = Some (a, ex1)" "extents_inv mem ex1 L" "oldest_in mem (heap_set mem L j) a"
        "ex_state ex1 = ex_state ex" "ex_delay_coalesce ex1 = ex_delay_coalesce ex" by blast
    show ?thesis
    proof (cases "req < drop_bit lg sz")
      case lim: True
      then have "extents_best_fit_locked t lg mem ex req = Some (None, ex)"
        using q j(1) sz True by (simp add: extents_best_fit_locked_def sc_npsizes_200)
      moreover have "best_fit t lg mem L req None"
        using lim sz e True j(2,4) by (fastforce simp: best_fit_def)
      ultimately show ?thesis using assms(2) by blast
    next
      case False
      then have "extents_best_fit_locked t lg mem ex req = Some (Some a, ex1)"
        using q j(1) sz a(1) True by (simp add: extents_best_fit_locked_def sc_npsizes_200)
      moreover have "best_fit t lg mem L req (Some a)" using a(3) e True j(2) by (auto simp: best_fit_def)
      ultimately show ?thesis using a by blast
    qed
  qed
qed

section \<open>Aligned requests\<close>

text \<open>Extents lie in the lower half of the address space.\<close>

definition in_space :: "extent \<Rightarrow> bool" where
  "in_space e \<longleftrightarrow> unat (extent_base_get e) + unat (extent_size_get e) \<le> 2 ^ 63"

definition holds_aligned :: "extent \<Rightarrow> size_t \<Rightarrow> nat \<Rightarrow> bool" where
  "holds_aligned e esize d \<longleftrightarrow> (\<exists>p. unat (extent_base_get e) \<le> p \<and> d dvd p
     \<and> p + unat esize \<le> unat (extent_base_get e) + unat (extent_size_get e))"

lemma base_page: "4096 dvd unat (extent_base_get e)"
proof -
  have m: "PAGE_MASK = mask 12" by (simp add: PAGE_MASK_def PAGE_def LG_PAGE_def mask_eq_decr_exp)
  have "unat (extent_base_get e) = unat (e_addr e) div 2 ^ 12 * 2 ^ 12"
    by (simp only: extent_base_get_def PAGE_ADDR2BASE_def m unat_and_not_mask)
  then have "2 ^ 12 dvd unat (extent_base_get e)" by (metis dvd_triv_right)
  then show ?thesis by simp
qed

lemma PAGE_CEILING_pow2: "a < 62 \<Longrightarrow> PAGE_CEILING (2 ^ a) = 2 ^ max 12 a"
proof -
  assume a: "a < 62"
  have p: "(2::nat) ^ a \<le> 2 ^ 61" using a by (intro power_increasing) simp_all
  then have u: "unat (2 ^ a :: size_t) = 2 ^ a" using a by (simp add: unat_two_power)
  have "unat (PAGE_CEILING (2 ^ a)) = nat_round_up 4096 (2 ^ a)"
    using p u by (subst unat_PAGE_CEILING) simp_all
  also have "\<dots> = 2 ^ max 12 a"
  proof (cases "a \<le> 12")
    case True
    have "nat_round_up 4096 (2 ^ a) \<le> 4096"
      using True by (intro nat_round_up_least) (simp_all add: power_increasing [of a 12 "2::nat", simplified])
    moreover have "0 < nat_round_up 4096 (2 ^ a)" 
      using nat_round_up_ge [of 4096 "2 ^ a"] zero_less_power [of "2::nat" a] by linarith
    ultimately have "nat_round_up 4096 (2 ^ a) = 4096"
      using dvd_nat_round_up [of 4096 "2 ^ a"] by (simp add: dvd_imp_le order_antisym)
    with True show ?thesis by (simp add: max_def)
  next
    case False
    have "(2::nat) ^ 12 dvd 2 ^ a" using False by (intro le_imp_power_dvd) simp
    then have "nat_round_up 4096 (2 ^ a) = 2 ^ a"
      by (intro order_antisym nat_round_up_least nat_round_up_ge) simp_all
    with False show ?thesis by (simp add: max_def)
  qed
  also have "\<dots> = unat (2 ^ max 12 a :: size_t)" using a by (simp add: unat_two_power)
  finally show ?thesis by (simp add: word_unat_eq_iff)
qed

lemma unat_next_align:
  assumes "in_space e" "a < 62"
  shows "unat (ALIGNMENT_CEILING (extent_base_get e) (PAGE_CEILING (2 ^ a))) =
    nat_round_up (2 ^ max 12 a) (unat (extent_base_get e))"
proof -
  have "(2::nat) ^ max 12 a \<le> 2 ^ 61" using assms(2) by (intro power_increasing) simp_all
  with assms show ?thesis
    by (simp add: PAGE_CEILING_pow2 in_space_def) (intro unat_ALIGNMENT_CEILING; simp)
qed

lemma fits_aligned_holds:
  assumes "in_space e" "a < 62" "fits_aligned e m (2 ^ a)"
  shows "holds_aligned e m (2 ^ max 12 a)"
proof -
  let ?base = "extent_base_get e" and ?w = "extent_size_get e"
  let ?next = "ALIGNMENT_CEILING ?base (PAGE_CEILING (2 ^ a))"
  have f: "?base \<le> ?next" "?next < ?base + ?w" "m \<le> ?w - (?next - ?base)"
    using assms(3) by (auto simp: fits_aligned_def Let_def split: if_splits)
  have s: "unat (?base + ?w) = unat ?base + unat ?w"
    using assms(1) by (intro unat_add_eq) (simp add: in_space_def)
  have l: "unat (?next - ?base) = unat ?next - unat ?base" using f(1) by (simp add: unat_diff_eq word_le_nat_alt)
  have b: "unat ?base \<le> unat ?next" "unat ?next < unat ?base + unat ?w"
    using f(1,2) s by (simp_all add: word_le_nat_alt word_less_nat_alt)
  then have "?next - ?base \<le> ?w" using l by (simp add: word_le_nat_alt)
  then have "unat (?w - (?next - ?base)) = unat ?w - (unat ?next - unat ?base)" 
    unfolding l [symmetric] by (rule unat_sub)
  then have "unat m \<le> unat ?w - (unat ?next - unat ?base)" using f(3) by (simp add: word_le_nat_alt)
  with b unat_next_align [OF assms(1,2)] show ?thesis
    unfolding holds_aligned_def by (intro exI [of _ "unat ?next"]) simp
qed

text \<open>An extent of the padded size holds the request, whatever its base is.\<close>

lemma padded_holds:
  assumes "in_space e" "12 \<le> k" "unat m + 2 ^ k \<le> unat (extent_size_get e) + 4096"
  shows "holds_aligned e m (2 ^ k)"
proof -
  let ?b = "unat (extent_base_get e)"
  let ?p = "nat_round_up (2 ^ k) ?b"
  have "4096 dvd (2::nat) ^ k" using le_imp_power_dvd [OF assms(2), of "2::nat"] by simp
  then have "4096 dvd ?p" using dvd_trans dvd_nat_round_up by blast
  moreover have "?p < ?b + 2 ^ k" by (rule nat_round_up_less) simp
  moreover have "4096 dvd ?b + 2 ^ k" using base_page \<open>4096 dvd 2 ^ k\<close> by (rule dvd_add)
  ultimately have "?p + 4096 \<le> ?b + 2 ^ k" by (elim dvdE) simp
  with assms(3) nat_round_up_ge [of "2 ^ k" ?b] show ?thesis
    unfolding holds_aligned_def by (intro exI [of _ ?p]) simp
qed

lemma fit_alignment_loop_ok:
  assumes "extents_inv mem ex L" "i \<le> 200" "i < 200 \<longrightarrow> heap_set mem L i \<noteq> {}" "pind_max \<le> 199"
  shows "\<exists>ret ex'. fit_alignment_loop mem pind_max m alignment i ex = Some (ret, ex') \<and> extents_inv mem ex' L
    \<and> (case ret of None \<Rightarrow> True | Some a \<Rightarrow> a \<in> set L \<and> fits_aligned (mem a) m alignment)
    \<and> ex_state ex' = ex_state ex \<and> ex_delay_coalesce ex' = ex_delay_coalesce ex"
  using assms
proof (induction "200 - i" arbitrary: i ex rule: less_induct)
  case less
  show ?case
  proof (cases "i < pind_max")
    case False
    with less.prems show ?thesis by (simp add: fit_alignment_loop.simps)
  next
    case True
    with less.prems heap_first_ok [of mem ex L i] obtain a ex1 where
      a: "heap_first_at mem ex i = Some (a, ex1)" "extents_inv mem ex1 L" "oldest_in mem (heap_set mem L i) a"
        "ex_state ex1 = ex_state ex" "ex_delay_coalesce ex1 = ex_delay_coalesce ex" by auto
    have "a \<in> set L" using a(3) by (simp add: oldest_in_def heap_set_def)
    show ?thesis
    proof (cases "fits_aligned (mem a) m alignment")
      case fits: True
      have "fit_alignment_loop mem pind_max m alignment i ex = Some (Some a, ex1)"
        using a(1) True fits by (subst fit_alignment_loop.simps) simp
      with a fits \<open>a \<in> set L\<close> show ?thesis by simp
    next
      case False
      have "i + 1 < 200" using True less.prems(4) by simp
      from extents_ffu_ok [OF a(2) this] obtain j where
        j: "extents_ffu ex1 (i + 1) = Some j" "i + 1 \<le> j" "j \<le> 200" "j < 200 \<longrightarrow> heap_set mem L j \<noteq> {}" by blast
      have "200 - j < 200 - i" using j(2) True less.prems(4) by simp
      from less.hyps [OF this a(2) j(3,4) less.prems(4)] obtain ret ex' where
        "fit_alignment_loop mem pind_max m alignment j ex1 = Some (ret, ex')" "extents_inv mem ex' L"
        "case ret of None \<Rightarrow> True | Some a \<Rightarrow> a \<in> set L \<and> fits_aligned (mem a) m alignment"
        "ex_state ex' = ex_state ex1" "ex_delay_coalesce ex' = ex_delay_coalesce ex1" by blast
      moreover have "fit_alignment_loop mem pind_max m alignment i ex = fit_alignment_loop mem pind_max m alignment j ex1"
        using a(1) j(1) True False by (subst fit_alignment_loop.simps) simp
      ultimately show ?thesis using a(4,5) by simp
    qed
  qed
qed

lemma fit_alignment_ok:
  assumes "tabs_ok t" "extents_inv mem ex L" "page_size m" "page_size x" "unat m \<le> unat x" "unat x \<le> 7 * 2 ^ 60 + 4096"
  shows "\<exists>ret ex'. extents_fit_alignment t mem ex m x alignment = Some (ret, ex') \<and> extents_inv mem ex' L
    \<and> (case ret of None \<Rightarrow> True | Some a \<Rightarrow> a \<in> set L \<and> fits_aligned (mem a) m alignment)
    \<and> ex_state ex' = ex_state ex \<and> ex_delay_coalesce ex' = ex_delay_coalesce ex"
proof -
  have u: "unat m \<le> 7 * 2 ^ 60 + 4096" using assms(5,6) by simp
  have c: "cidx m \<le> 199" "cidx x \<le> 199" by (rule cidx(1) [OF assms(3) u], rule cidx(1) [OF assms(4,6)])
  then have "cidx m < 200" by simp
  from extents_ffu_ok [OF assms(2) this] obtain j where
    j: "extents_ffu ex (cidx m) = Some j" "j \<le> 200" "j < 200 \<longrightarrow> heap_set mem L j \<noteq> {}" by blast
  from fit_alignment_loop_ok [OF assms(2) j(2,3) c(2)] j(1) show ?thesis
    by (simp add: extents_fit_alignment_def quantize_ceil [OF assms(1,3) u] quantize_ceil [OF assms(1,4,6)]
        psz2ind_qsize [OF c(1)] psz2ind_qsize [OF c(2)])
qed

lemma page_size_pow2: "12 \<le> k \<Longrightarrow> k < 62 \<Longrightarrow> unat m + 2 ^ k \<le> 2 ^ 63 \<Longrightarrow> page_size m \<Longrightarrow>
    unat (m + 2 ^ k - PAGE) = unat m + 2 ^ k - 4096 \<and> page_size (m + 2 ^ k - PAGE)"
proof -
  assume k: "12 \<le> k" "k < 62" and le: "unat m + 2 ^ k \<le> 2 ^ 63" and m: "page_size m"
  have p: "4096 dvd (2::nat) ^ k" using le_imp_power_dvd [OF k(1), of "2::nat"] by simp
  have g: "4096 \<le> (2::nat) ^ k" using p by (simp add: dvd_imp_le)
  have u: "unat (m + 2 ^ k) = unat m + 2 ^ k"
    using k le by (subst unat_add_eq) (simp_all add: unat_two_power)
  moreover have "unat PAGE = 4096" by (simp add: PAGE_def LG_PAGE_def)
  ultimately have "unat (m + 2 ^ k - PAGE) = unat m + 2 ^ k - 4096" using g by (simp add: unat_diff_eq)
  moreover have "4096 dvd unat m + 2 ^ k - 4096" using m p by (intro dvd_diff_nat dvd_add) (simp_all add: page_size_def)
  ultimately show ?thesis using m g by (simp add: page_size_def)
qed

text \<open>The size that the request is padded to, and the sizes a first fit considers.\<close>

definition fit_found :: "(64 word \<Rightarrow> extent) \<Rightarrow> 64 word list \<Rightarrow> size_t \<Rightarrow> nat \<Rightarrow> 64 word option \<Rightarrow> bool" where
  "fit_found mem L esize k ret \<longleftrightarrow> (case ret of None \<Rightarrow> True
     | Some a \<Rightarrow> a \<in> set L \<and> holds_aligned (mem a) esize (2 ^ k))"

lemma heap_range_large:
  assumes "page_size x" "unat x \<le> 7 * 2 ^ 60 + 4096" "a \<in> heap_range mem L (cidx x) n"
    and "extents_inv mem ex L"
  shows "a \<in> set L" "unat x \<le> unat (esize_at mem a)"
proof -
  show a: "a \<in> set L" using assms(3) by (simp add: heap_range_def)
  have p: "page_size (esize_at mem a)" using a assms(4) by (simp add: extents_inv_def)
  have "unat x \<le> qsize (cidx x)" by (rule cidx(2) [OF assms(1,2)])
  also have "\<dots> \<le> qsize (fidx (esize_at mem a))" using assms(3) by (simp add: heap_range_def qsize_le)
  also have "\<dots> \<le> unat (esize_at mem a)" by (rule fidx_qsize [OF p])
  finally show "unat x \<le> unat (esize_at mem a)" .
qed

lemma fit_ok:
  fixes a :: nat
  assumes "tabs_ok t" "extents_inv mem ex L" "\<forall>b\<in>set L. in_space (mem b)" "page_size esize" "a < 62"
    and "unat esize + 2 ^ max 12 a \<le> 7 * 2 ^ 60 + 8192"
  shows "\<exists>ret ex'. extents_fit_locked t lg mem ex esize (2 ^ a) = Some (ret, ex') \<and> extents_inv mem ex' L
    \<and> fit_found mem L esize (max 12 a) ret
    \<and> (ret = None \<and> \<not> ex_delay_coalesce ex \<longrightarrow> heap_range mem L (cidx (esize + 2 ^ max 12 a - PAGE)) 200 = {})
    \<and> ex_state ex' = ex_state ex \<and> ex_delay_coalesce ex' = ex_delay_coalesce ex"
proof -
  let ?k = "max 12 a"
  define x where "x = esize + 2 ^ ?k - PAGE"
  have k: "12 \<le> ?k" "?k < 62" using assms(5) by simp_all
  have x: "unat x = unat esize + 2 ^ ?k - 4096" "page_size x"
    using page_size_pow2 [OF k _ assms(4)] assms(6) by (simp_all add: x_def)
  have ux: "unat x \<le> 7 * 2 ^ 60 + 4096" using x(1) assms(6) by simp
  have p: "4096 \<le> (2::nat) ^ ?k" using power_increasing [OF k(1), of "2::nat"] by simp
  have le: "unat esize \<le> unat x" using x(1) p by simp
  have holds: "holds_aligned (mem b) esize (2 ^ ?k)" if "b \<in> set L" "unat x \<le> unat (esize_at mem b)" for b
    using that assms(3) x(1) p k by (intro padded_holds) auto
  have xeq: "esize + PAGE_CEILING (2 ^ a) - PAGE = x" by (simp add: x_def PAGE_CEILING_pow2 [OF assms(5)])
  have nlt: "\<not> x < esize" using le by (simp add: word_less_nat_alt)
  define fit where "fit = (if ex_delay_coalesce ex then extents_best_fit_locked t lg mem ex x
    else extents_first_fit_locked t mem ex x)"
  have "\<exists>ret ex'. fit = Some (ret, ex') \<and> extents_inv mem ex' L \<and> fit_found mem L esize ?k ret
    \<and> (ret = None \<and> \<not> ex_delay_coalesce ex \<longrightarrow> heap_range mem L (cidx x) 200 = {})
    \<and> ex_state ex' = ex_state ex \<and> ex_delay_coalesce ex' = ex_delay_coalesce ex"
  proof (cases "ex_delay_coalesce ex")
    case True
    from best_fit_ok [OF assms(1,2) x(2) ux, of lg] obtain ret ex' where
      r: "fit = Some (ret, ex')" "extents_inv mem ex' L" "ex_state ex' = ex_state ex"
        "ex_delay_coalesce ex' = ex_delay_coalesce ex"
        "best_fit t lg mem L x ret"
      using True by (auto simp: fit_def)
    have "fit_found mem L esize ?k ret"
    proof (cases ret)
      case (Some b)
      with r(5) have "b \<in> heap_range mem L (cidx x) 200"
        by (auto simp: best_fit_def oldest_in_def heap_set_def heap_range_def)
      from heap_range_large [OF x(2) ux this assms(2)] holds Some show ?thesis by (simp add: fit_found_def)
    qed (simp add: fit_found_def)
    with r True show ?thesis by blast
  next
    case False
    from first_fit_ok [OF assms(1,2) x(2) ux] obtain ret ex' where
      r: "fit = Some (ret, ex')" "extents_inv mem ex' L" "best_of mem (heap_range mem L (cidx x) 200) ret"
        "ex_state ex' = ex_state ex" "ex_delay_coalesce ex' = ex_delay_coalesce ex"
      using False by (auto simp: fit_def)
    have "fit_found mem L esize ?k ret"
    proof (cases ret)
      case (Some b)
      with r(3) have "b \<in> heap_range mem L (cidx x) 200" by (simp add: best_of_def oldest_in_def)
      from heap_range_large [OF x(2) ux this assms(2)] holds Some show ?thesis by (simp add: fit_found_def)
    qed (simp add: fit_found_def)
    moreover have "heap_range mem L (cidx x) 200 = {}" if "ret = None" using r(3) that by (simp add: best_of_def)
    ultimately show ?thesis using r by blast
  qed
  then obtain ret ex1 where f: "fit = Some (ret, ex1)" "extents_inv mem ex1 L" "fit_found mem L esize ?k ret"
    "ret = None \<and> \<not> ex_delay_coalesce ex \<longrightarrow> heap_range mem L (cidx x) 200 = {}"
    "ex_state ex1 = ex_state ex" "ex_delay_coalesce ex1 = ex_delay_coalesce ex" by blast
  have unf: "extents_fit_locked t lg mem ex esize (2 ^ a) =
      (if 2 ^ a > PAGE \<and> ret = None then extents_fit_alignment t mem ex1 esize x (2 ^ a) else Some (ret, ex1))"
    using f(1) nlt by (simp add: extents_fit_locked_def xeq fit_def [symmetric])
  show ?thesis
  proof (cases "2 ^ a > PAGE \<and> ret = None")
    case False
    then have "extents_fit_locked t lg mem ex esize (2 ^ a) = Some (ret, ex1)" unfolding unf by (rule if_not_P)
    with f show ?thesis unfolding x_def by blast
  next
    case True
    from fit_alignment_ok [OF assms(1) f(2) assms(4) x(2) le ux, of "2 ^ a"] obtain ret' ex' where
      r: "extents_fit_alignment t mem ex1 esize x (2 ^ a) = Some (ret', ex')" "extents_inv mem ex' L"
        "case ret' of None \<Rightarrow> True | Some b \<Rightarrow> b \<in> set L \<and> fits_aligned (mem b) esize (2 ^ a)"
        "ex_state ex' = ex_state ex1" "ex_delay_coalesce ex' = ex_delay_coalesce ex1" by blast
    have "fit_found mem L esize ?k ret'"
      using r(3) fits_aligned_holds [OF _ assms(5)] assms(3) by (auto simp: fit_found_def split: option.splits)
    moreover have "extents_fit_locked t lg mem ex esize (2 ^ a) = Some (ret', ex')"
      unfolding unf r(1) [symmetric] by (rule if_P [OF True])
    ultimately show ?thesis using r f(4-6) True unfolding x_def by (metis (no_types))
  qed
qed

section \<open>Every collection that the program reaches\<close>

text \<open>
  The extents of a collection do not change while they are in it; the other descriptors may. The
  counters of a new collection are zero because the arena is in zeroed memory.
\<close>

inductive extents_run ::
  "sz_tabs \<Rightarrow> nat \<Rightarrow> (64 word \<Rightarrow> extent) \<Rightarrow> extents \<Rightarrow> 64 word list \<Rightarrow> bool" for t lg where
  init: "length (ex_bitmap ex0) = 4 \<Longrightarrow> ex_nextents ex0 = replicate 200 0 \<Longrightarrow> ex_nbytes ex0 = replicate 200 0 \<Longrightarrow>
    extents_init ex0 state delay_coalesce = Some ex \<Longrightarrow> extents_run t lg mem ex []"
| insert: "extents_run t lg mem ex L \<Longrightarrow> a \<notin> set L \<Longrightarrow> page_size (esize_at mem a) \<Longrightarrow>
    extents_insert_locked t mem ex a = Some ex' \<Longrightarrow> extents_run t lg mem ex' (L @ [a])"
| remove: "extents_run t lg mem ex L \<Longrightarrow> a \<in> set L \<Longrightarrow> extents_remove_locked t mem ex a = Some ex' \<Longrightarrow>
    extents_run t lg mem ex' (remove1 a L)"
| fit: "extents_run t lg mem ex L \<Longrightarrow> \<forall>b\<in>set L. in_space (mem b) \<Longrightarrow> page_size esize \<Longrightarrow> k < 62 \<Longrightarrow>
    unat esize + 2 ^ max 12 k \<le> 7 * 2 ^ 60 + 8192 \<Longrightarrow>
    extents_fit_locked t lg mem ex esize (2 ^ k) = Some (ret, ex') \<Longrightarrow> extents_run t lg mem ex' L"
| change: "extents_run t lg mem ex L \<Longrightarrow> \<forall>a\<in>set L. mem' a = mem a \<Longrightarrow> extents_run t lg mem' ex L"

lemma init_ok:
  assumes "length (ex_bitmap ex0) = 4" "ex_nextents ex0 = replicate 200 0" "ex_nbytes ex0 = replicate 200 0"
  shows "\<exists>ex. extents_init ex0 state delay_coalesce = Some ex \<and> extents_inv mem ex []"
proof -
  have g: "BITMAP_BITS2GROUPS 200 = 4" by (simp add: BITMAP_BITS2GROUPS_eq)
  from bitmap_init_fill [of 200 "ex_bitmap ex0"] assms(1) obtain bm where
    bm: "bitmap_init (ex_bitmap ex0) extents_bitmap_info True = Some bm" "bitmap_inv 200 bm"
      "bitmap_used 200 bm = {..<200}" "length bm = 4"
    by (auto simp: g extents_bitmap_info_def sc_npsizes_200)
  have b: "\<not> bm_bit bm b" if "b < 256" for b
    using bm(2,3) that g by (cases "b < 200") (auto simp: bitmap_used_def bitmap_inv_def)
  define heaps where "heaps = (map (\<lambda>_. ph_new) [0..<SC_NPSIZES + 1] :: 64 word ph list)"
  have len: "length heaps = 200" by (simp only: heaps_def sc_npsizes_200 length_map length_upt diff_zero)
  have nth: "heaps ! i = []" if "i < 200" for i
    using that by (simp only: heaps_def sc_npsizes_200 nth_map_upt ph_new_def diff_zero)
  have h: "heap_set mem [] i = {}" for i by (simp add: heap_set_def)
  have "heaps_ok mem heaps []" using len nth h by (simp add: heaps_ok_def ph_inv_def)
  moreover have "bitmap_ok bm heaps" using bm(4) b nth by (simp add: bitmap_ok_def)
  ultimately have "extents_inv mem (ex0\<lparr>ex_heaps := heaps, ex_bitmap := bm, ex_lru := [], ex_npages := 0,
      ex_state := state, ex_delay_coalesce := delay_coalesce\<rparr>) []"
    using assms(2,3) h by (simp add: extents_inv_def stats_ok_def)
  then show ?thesis using bm(1) by (simp add: extents_init_def heaps_def)
qed

lemma extents_inv_frame:
  assumes "extents_inv mem ex L" "\<forall>a\<in>set L. mem' a = mem a"
  shows "extents_inv mem' ex L"
proof -
  have hs: "heap_set mem' L i = heap_set mem L i" for i using assms(2) by (auto simp: heap_set_def)
  have mem: "mem' a = mem a" if "a \<in> heap_set mem L i" for a i using that assms(2) by (simp add: heap_set_def)
  have "ph_inv (heap_comp mem') (ex_heaps ex ! i)" if i: "i < 200" for i
  proof -
    note m = extents_invD(7) [OF assms(1) i]
    have "ph_inv (heap_comp mem) (ex_heaps ex ! i) = ph_inv (heap_comp mem') (ex_heaps ex ! i)"
      by (rule ph_inv_cong) (use m mem [of _ i] in \<open>simp add: heap_comp_def\<close>)
    with extents_invD(6) [OF assms(1) i] show ?thesis by simp
  qed
  then have "heaps_ok mem' (ex_heaps ex) L" using assms(1) by (simp add: extents_inv_def heaps_ok_def hs)
  moreover have "stats_ok mem' ex L"
    using assms mem by (simp add: extents_inv_def stats_ok_def hs)
  ultimately show ?thesis using assms by (simp add: extents_inv_def)
qed

lemma extents_run_inv: "extents_run t lg mem ex L \<Longrightarrow> tabs_ok t \<Longrightarrow> extents_inv mem ex L"
proof (induction rule: extents_run.induct)
  case (init ex0 state delay_coalesce ex mem)
  then show ?case using init_ok [of ex0 state delay_coalesce mem] by simp
next
  case (insert mem ex L a ex')
  then show ?case using insert_ok [of t mem ex L a] by simp
next
  case (remove mem ex L a ex')
  then show ?case using remove_ok [of t mem ex L a] by simp
next
  case (fit mem ex L esize k ret ex')
  then show ?case using fit_ok [of t mem ex L esize k lg] by simp
next
  case (change mem ex L mem')
  then show ?case using extents_inv_frame by blast
qed

lemma considered_iff:
  assumes "tabs_ok t" "page_size x" "unat x \<le> 7 * 2 ^ 60 + 4096" "extents_inv mem ex L"
    and "extent_size_quantize_ceil t x = Some c"
  shows "heap_range mem L (cidx x) 200 = {b \<in> set L. c \<le> esize_at mem b}"
proof -
  have c: "cidx x \<le> 199" by (rule cidx(1) [OF assms(2,3)])
  have u: "unat c = qsize (cidx x)" using quantize_ceil [OF assms(1-3)] assms(5) unat_qsize [OF c] by simp
  have "cidx x \<le> fidx (esize_at mem b) \<longleftrightarrow> c \<le> esize_at mem b" "fidx (esize_at mem b) < 200" if "b \<in> set L" for b
    using le_fidx [OF extents_invD(5) [OF assms(4) that] c] fidx_bound [OF extents_invD(5) [OF assms(4) that]] u
    by (simp_all add: word_le_nat_alt)
  then show ?thesis by (auto simp: heap_range_def)
qed

section \<open>A collection of two extents\<close>

definition example_extent :: "64 word \<Rightarrow> extent" where
  "example_extent p = \<lparr>e_self = p, e_bits = 0, e_addr = p * 65536, e_size_esn = 8192, e_slab_bitmap = []\<rparr>"

lemma example_extent_size: "extent_size_get (example_extent p) = 8192"
  by (simp add: example_extent_def extent_size_get_def EXTENT_SIZE_MASK_def PAGE_MASK_def PAGE_def LG_PAGE_def)

lemma page_size_8192: "page_size 8192" "page_size 4096"
  by (simp_all add: page_size_def)

lemma example_space: "in_space (example_extent 1)" "in_space (example_extent 2)"
  by (simp_all add: in_space_def example_extent_size, simp_all add: extent_base_get_def example_extent_def
      PAGE_ADDR2BASE_def PAGE_MASK_def PAGE_def LG_PAGE_def)

lemma example_comp: "extent_snad_comp (example_extent 1) (example_extent 2) = -1"
    "extent_snad_comp (example_extent 2) (example_extent 1) = 1"
  by (simp_all add: extent_snad_comp_def extent_sn_comp_def extent_ad_comp_def extent_sn_get_def
      extent_addr_get_def example_extent_def sign_compare_def Let_def)

lemma example_collection:
  obtains t ex where "tabs_ok t" "extents_run t 6 example_extent ex [2, 1]" "\<not> ex_delay_coalesce ex"
    "\<forall>c. extent_size_quantize_ceil t 4096 = Some c \<longrightarrow> c \<le> 8192"
proof -
  obtain t where t: "tabs_ok t" using sz_boot_ok by blast
  define ex0 where "ex0 = \<lparr>ex_heaps = [], ex_nextents = replicate 200 0, ex_nbytes = replicate 200 0,
    ex_bitmap = replicate 4 0, ex_lru = [], ex_npages = 0, ex_state = extent_state_retained, ex_delay_coalesce = False\<rparr>"
  have z: "length (ex_bitmap ex0) = 4" "ex_nextents ex0 = replicate 200 0" "ex_nbytes ex0 = replicate 200 0"
    by (simp_all add: ex0_def)
  from init_ok [OF z, of extent_state_retained False example_extent] obtain e0 where
    e0: "extents_init ex0 extent_state_retained False = Some e0" "extents_inv example_extent e0 []" by blast
  have r0: "extents_run t 6 example_extent e0 []" by (rule extents_run.init [OF z e0(1)])
  have dc: "\<not> ex_delay_coalesce e0"
    using e0(1) by (auto simp: extents_init_def bind_eq_Some_conv)
  have p: "page_size (esize_at example_extent a)" for a by (simp add: example_extent_size page_size_8192)
  from insert_ok [OF t e0(2) _ p [of 2]] obtain e1 where
    e1: "extents_insert_locked t example_extent e0 2 = Some e1" "extents_inv example_extent e1 [2]"
      "ex_delay_coalesce e1 = ex_delay_coalesce e0" by auto
  have r1: "extents_run t 6 example_extent e1 [2]" using extents_run.insert [OF r0 _ p e1(1)] by simp
  from insert_ok [OF t e1(2) _ p [of 1]] obtain e2 where
    e2: "extents_insert_locked t example_extent e1 1 = Some e2" "ex_delay_coalesce e2 = ex_delay_coalesce e1"
    by auto
  have r2: "extents_run t 6 example_extent e2 [2, 1]" using extents_run.insert [OF r1 _ p e2(1)] by simp
  have "c \<le> 8192" if "extent_size_quantize_ceil t 4096 = Some c" for c
  proof -
    have u: "unat (4096 :: size_t) \<le> 7 * 2 ^ 60 + 4096" by simp
    have "cidx 4096 \<le> 0" by (rule cidx(3) [OF page_size_8192(2) u]) (simp_all add: qsize_def)
    with quantize_ceil [OF t page_size_8192(2) u] that show ?thesis
      by (simp add: qsize_def)
  qed
  with that [OF t r2] dc e1(3) e2(2) show thesis by simp
qed

text \<open>C8: on every collection of extents the program reaches, insertion of an extent of positive
  page-aligned size and removal of a member are defined, that is, the heap, bitmap and counter
  indices are inside their arrays; the LRU list has the members in order of insertion; a heap's
  bit is set exactly when it is not empty; and the counters are exact.\<close>

theorem extents_well_formed:
  assumes "extents_run t lg mem ex L" "tabs_ok t"
  shows "(\<forall>a. a \<notin> set L \<longrightarrow> page_size (esize_at mem a) \<longrightarrow> (\<exists>ex'. extents_insert_locked t mem ex a = Some ex'))
    \<and> (\<forall>a\<in>set L. \<exists>ex'. extents_remove_locked t mem ex a = Some ex')
    \<and> distinct L \<and> ex_lru ex = L
    \<and> (\<forall>m<200. \<exists>j. extents_ffu ex m = Some j \<and> m \<le> j \<and> j \<le> 200
          \<and> (\<forall>a\<in>set L. m \<le> sz_psz2ind (esize_at mem a - sz_large_pad + 1) \<longrightarrow>
                j \<le> sz_psz2ind (esize_at mem a - sz_large_pad + 1))
          \<and> (j < 200 \<longrightarrow> (\<exists>a\<in>set L. sz_psz2ind (esize_at mem a - sz_large_pad + 1) = j)))
    \<and> extents_npages_get ex = (\<Sum>a\<in>set L. drop_bit LG_PAGE (esize_at mem a))
    \<and> (\<forall>i<200. extents_nbytes_get ex i =
          Some (\<Sum>a\<in>{a \<in> set L. sz_psz2ind (esize_at mem a - sz_large_pad + 1) = i}. esize_at mem a)
        \<and> extents_nextents_get ex i =
          Some (of_nat (card {a \<in> set L. sz_psz2ind (esize_at mem a - sz_large_pad + 1) = i})))"
proof (intro conjI)
  note inv = extents_run_inv [OF assms]
  show "\<forall>a. a \<notin> set L \<longrightarrow> page_size (esize_at mem a) \<longrightarrow> (\<exists>ex'. extents_insert_locked t mem ex a = Some ex')"
    using insert_ok [OF assms(2) inv] by blast
  show "\<forall>a\<in>set L. \<exists>ex'. extents_remove_locked t mem ex a = Some ex'"
    using remove_ok [OF assms(2) inv] by blast
  show "distinct L" "ex_lru ex = L" using extents_invD(3,4) [OF inv] by simp_all
  show "\<forall>m<200. \<exists>j. extents_ffu ex m = Some j \<and> m \<le> j \<and> j \<le> 200
      \<and> (\<forall>a\<in>set L. m \<le> sz_psz2ind (esize_at mem a - sz_large_pad + 1) \<longrightarrow>
            j \<le> sz_psz2ind (esize_at mem a - sz_large_pad + 1))
      \<and> (j < 200 \<longrightarrow> (\<exists>a\<in>set L. sz_psz2ind (esize_at mem a - sz_large_pad + 1) = j))"
  proof (intro allI impI)
    fix m :: nat assume "m < 200"
    from extents_ffu_ok [OF inv this] obtain j where
      j: "extents_ffu ex m = Some j" "m \<le> j" "j \<le> 200" "j < 200 \<longrightarrow> heap_set mem L j \<noteq> {}"
        "\<forall>k. m \<le> k \<longrightarrow> k < j \<longrightarrow> heap_set mem L k = {}" by blast
    have "j \<le> fidx (esize_at mem a)" if "a \<in> set L" "m \<le> fidx (esize_at mem a)" for a
    proof (rule ccontr)
      assume "\<not> j \<le> fidx (esize_at mem a)"
      with j(5) that(2) have "heap_set mem L (fidx (esize_at mem a)) = {}" by simp
      with that(1) show False unfolding heap_set_def by blast
    qed
    with j show "\<exists>j. extents_ffu ex m = Some j \<and> m \<le> j \<and> j \<le> 200
      \<and> (\<forall>a\<in>set L. m \<le> sz_psz2ind (esize_at mem a - sz_large_pad + 1) \<longrightarrow>
            j \<le> sz_psz2ind (esize_at mem a - sz_large_pad + 1))
      \<and> (j < 200 \<longrightarrow> (\<exists>a\<in>set L. sz_psz2ind (esize_at mem a - sz_large_pad + 1) = j))"
      unfolding fidx_def [symmetric] by (auto simp: heap_set_def)
  qed
qed (use extents_run_inv [OF assms] in \<open>simp_all add: extents_inv_def stats_ok_def extents_npages_get_def
    extents_nbytes_get_def extents_nextents_get_def heap_set_def fidx_def [symmetric]\<close>)

theorem extents_well_formed_witness:
  "\<exists>ex. ex_lru ex = [2, 1] \<and> extents_npages_get ex = 4
    \<and> (\<exists>t ex'. extents_remove_locked t example_extent ex 1 = Some ex')"
proof -
  obtain t ex where e: "tabs_ok t" "extents_run t 6 example_extent ex [2, 1]" by (rule example_collection)
  note w = extents_well_formed [OF e(2,1)]
  have "extents_npages_get ex = (\<Sum>a\<in>{1, 2}. drop_bit LG_PAGE (esize_at example_extent a))"
    using w by (simp add: insert_commute)
  then have "extents_npages_get ex = 4" by (simp add: example_extent_size LG_PAGE_def)
  with w show ?thesis by auto
qed

text \<open>C32: a first fit returns, of the extents at least as large as the request rounded up to a
  quantized size, the one that no other precedes in age and address, and nothing exactly when
  there is none; it leaves the collection's members unchanged.\<close>

theorem extents_first_fit_oldest:
  assumes "extents_run t lg mem ex L" "tabs_ok t" "page_size req" "unat req \<le> 7 * 2 ^ 60 + 4096"
  shows "\<exists>c ret ex'. extent_size_quantize_ceil t req = Some c \<and> req \<le> c
    \<and> extents_first_fit_locked t mem ex req = Some (ret, ex') \<and> extents_inv mem ex' L
    \<and> (case ret of None \<Rightarrow> \<forall>b\<in>set L. esize_at mem b < c
       | Some a \<Rightarrow> a \<in> set L \<and> c \<le> esize_at mem a
           \<and> (\<forall>b\<in>set L. c \<le> esize_at mem b \<longrightarrow> extent_snad_comp (mem a) (mem b) \<le> 0))"
proof -
  note inv = extents_run_inv [OF assms(1,2)]
  obtain c where c: "extent_size_quantize_ceil t req = Some c" using quantize_ceil [OF assms(2-4)] by simp
  have "unat c = qsize (cidx req)"
    using quantize_ceil [OF assms(2-4)] c unat_qsize [OF cidx(1) [OF assms(3,4)]] by simp
  then have "req \<le> c" using cidx(2) [OF assms(3,4)] by (simp add: word_le_nat_alt)
  with c first_fit_ok [OF assms(2) inv assms(3,4)] show ?thesis
    unfolding considered_iff [OF assms(2-4) inv c]
    by (fastforce simp: best_of_def oldest_in_def split: option.splits)
qed

theorem extents_first_fit_oldest_witness:
  "\<exists>t ex ex'. ex_lru ex = [2, 1] \<and> extents_first_fit_locked t example_extent ex 4096 = Some (Some 1, ex')"
proof -
  obtain t ex where e: "tabs_ok t" "extents_run t 6 example_extent ex [2, 1]" "\<not> ex_delay_coalesce ex"
    "\<forall>c. extent_size_quantize_ceil t 4096 = Some c \<longrightarrow> c \<le> 8192" by (rule example_collection)
  have "unat (4096 :: size_t) \<le> 7 * 2 ^ 60 + 4096" by simp
  from extents_first_fit_oldest [OF e(2,1) page_size_8192(2) this] obtain c ret ex' where
    r: "extent_size_quantize_ceil t 4096 = Some c" "extents_first_fit_locked t example_extent ex 4096 = Some (ret, ex')"
      "case ret of None \<Rightarrow> \<forall>b\<in>set [2, 1]. esize_at example_extent b < c
       | Some a \<Rightarrow> a \<in> set [2, 1] \<and> c \<le> esize_at example_extent a
           \<and> (\<forall>b\<in>set [2, 1]. c \<le> esize_at example_extent b \<longrightarrow>
                extent_snad_comp (example_extent a) (example_extent b) \<le> 0)" by blast
  have "ret = Some 1"
    using r(3) e(4) r(1) by (auto simp: example_extent_size example_comp split: option.splits)
  with r(2) extents_invD(4) [OF extents_run_inv [OF e(2,1)]] show ?thesis by auto
qed



end
