(* ===== verification/Rtree.thy ===== *)
theory Rtree
  imports Extent "HOL-Library.Monad_Syntax"
begin

text \<open>
  src/rtree.c, include/jemalloc/internal/rtree.h and rtree_tsd.h: the radix tree that maps the
  pages of extents to their descriptors, with the direct-mapped and LRU caches of leaves that each
  thread has. The x86_64 configuration has 48 address bits, so the tree has two levels and each
  element is one word that packs the descriptor's address, the size class and the slab bit. An
  element pointer is a leaf with an index; reading through a leaf pointer that is NULL is the
  value \<open>None\<close>. Descriptors and leaves are addresses; \<open>base_alloc\<close> is a parameter, the address
  that it answers (0 when it fails).
\<close>

section \<open>Parameters of the tree\<close>

type_synonym uintptr = "64 word"
type_synonym szind = "32 word"

definition LG_VADDR :: nat where "LG_VADDR = 48"
definition RTREE_NHIB :: nat where "RTREE_NHIB = 2 ^ (3 + 3) - LG_VADDR"
definition RTREE_NLIB :: nat where "RTREE_NLIB = LG_PAGE"
definition RTREE_NSB :: nat where "RTREE_NSB = LG_VADDR - RTREE_NLIB"

definition RTREE_HEIGHT :: nat where
  "RTREE_HEIGHT = (if RTREE_NSB \<le> 10 then 1 else if RTREE_NSB \<le> 36 then 2 else 3)"

definition RTREE_LEAF_COMPACT :: bool where
  "RTREE_LEAF_COMPACT \<longleftrightarrow> LG_CEIL (of_nat SC_NSIZES) \<le> RTREE_NHIB"

definition RTREE_LEAFKEY_INVALID :: uintptr where "RTREE_LEAFKEY_INVALID = 1"

definition RTREE_CTX_LG_NCACHE :: nat where "RTREE_CTX_LG_NCACHE = 4"
definition RTREE_CTX_NCACHE :: nat where "RTREE_CTX_NCACHE = push_bit RTREE_CTX_LG_NCACHE 1"
definition RTREE_CTX_NCACHE_L2 :: nat where "RTREE_CTX_NCACHE_L2 = 8"

text \<open>The rows of \<open>rtree_levels\<close>: the bits of a level and the bits up to it.\<close>

definition rtree_levels :: "(nat \<times> nat) list" where
  "rtree_levels =
     (if RTREE_HEIGHT = 1 then [(RTREE_NSB, RTREE_NHIB + RTREE_NSB)]
      else if RTREE_HEIGHT = 2 then
        [(RTREE_NSB div 2, RTREE_NHIB + RTREE_NSB div 2),
         (RTREE_NSB div 2 + RTREE_NSB mod 2, RTREE_NHIB + RTREE_NSB)]
      else
        [(RTREE_NSB div 3, RTREE_NHIB + RTREE_NSB div 3),
         (RTREE_NSB div 3 + RTREE_NSB mod 3 div 2, RTREE_NHIB + RTREE_NSB div 3 * 2 + RTREE_NSB mod 3 div 2),
         (RTREE_NSB div 3 + RTREE_NSB mod 3 - RTREE_NSB mod 3 div 2, RTREE_NHIB + RTREE_NSB)])"

section \<open>State\<close>

text \<open>
  \<open>rt_root\<close> is the array of the first level, the addresses of leaves, and \<open>rt_leaves\<close> is the
  memory of the leaves, by address and index. Indices are masked to the size of a level.
\<close>

record rtree =
  rt_root :: "nat \<Rightarrow> uintptr"
  rt_leaves :: "uintptr \<Rightarrow> nat \<Rightarrow> uint64"

record ctx_elm =
  ce_leafkey :: uintptr
  ce_leaf :: uintptr

record rtree_ctx =
  ctx_cache :: "ctx_elm list"
  ctx_l2_cache :: "ctx_elm list"

type_synonym leaf_elm = "uintptr \<times> nat"

definition rtree_ctx_data_init :: rtree_ctx where
  "rtree_ctx_data_init =
     (let elm = \<lparr>ce_leafkey = RTREE_LEAFKEY_INVALID, ce_leaf = 0\<rparr>
      in \<lparr>ctx_cache = replicate RTREE_CTX_NCACHE elm, ctx_l2_cache = replicate RTREE_CTX_NCACHE_L2 elm\<rparr>)"

text \<open>\<open>rtree_new\<close> relies on zeroed memory.\<close>

definition rtree_new :: "(uintptr \<Rightarrow> nat \<Rightarrow> uint64) \<Rightarrow> rtree" where
  "rtree_new leaves = \<lparr>rt_root = (\<lambda>_. 0), rt_leaves = leaves\<rparr>"

section \<open>Keys\<close>

definition rtree_leafkey :: "uintptr \<Rightarrow> uintptr" where
  "rtree_leafkey key =
     (let ptrbits = 2 ^ (3 + 3);
          cumbits = snd (rtree_levels ! (RTREE_HEIGHT - 1)) - fst (rtree_levels ! (RTREE_HEIGHT - 1));
          maskbits = ptrbits - cumbits;
          mask = NOT (push_bit maskbits 1 - 1)
      in key AND mask)"

definition rtree_cache_direct_map :: "uintptr \<Rightarrow> nat" where
  "rtree_cache_direct_map key =
     (let ptrbits = 2 ^ (3 + 3);
          cumbits = snd (rtree_levels ! (RTREE_HEIGHT - 1)) - fst (rtree_levels ! (RTREE_HEIGHT - 1));
          maskbits = ptrbits - cumbits
      in unat (drop_bit maskbits key AND of_nat (RTREE_CTX_NCACHE - 1)))"

definition rtree_subkey :: "uintptr \<Rightarrow> nat \<Rightarrow> nat" where
  "rtree_subkey key level =
     (let ptrbits = 2 ^ (3 + 3);
          cumbits = snd (rtree_levels ! level);
          shiftbits = ptrbits - cumbits;
          maskbits = fst (rtree_levels ! level);
          mask = push_bit maskbits 1 - 1
      in unat (drop_bit shiftbits key AND mask))"

section \<open>Elements\<close>

definition rtree_leaf_elm_bits_read :: "rtree \<Rightarrow> leaf_elm \<Rightarrow> uint64 option" where
  "rtree_leaf_elm_bits_read rtree elm = (if fst elm = 0 then None else Some (rt_leaves rtree (fst elm) (snd elm)))"

definition le_bits_store :: "rtree \<Rightarrow> leaf_elm \<Rightarrow> uint64 \<Rightarrow> rtree option" where
  "le_bits_store rtree elm bits =
     (if fst elm = 0 then None
      else Some (rtree\<lparr>rt_leaves := (rt_leaves rtree)(fst elm := (rt_leaves rtree (fst elm))(snd elm := bits))\<rparr>))"

definition rtree_leaf_elm_bits_extent_get :: "uint64 \<Rightarrow> uintptr" where
  "rtree_leaf_elm_bits_extent_get bits =
     signed_drop_bit RTREE_NHIB (push_bit RTREE_NHIB bits) AND NOT 1"

definition rtree_leaf_elm_bits_szind_get :: "uint64 \<Rightarrow> szind" where
  "rtree_leaf_elm_bits_szind_get bits = ucast (drop_bit LG_VADDR bits)"

definition rtree_leaf_elm_bits_slab_get :: "uint64 \<Rightarrow> bool" where
  "rtree_leaf_elm_bits_slab_get bits \<longleftrightarrow> bits AND 1 \<noteq> 0"

definition rtree_leaf_elm_extent_read :: "rtree \<Rightarrow> leaf_elm \<Rightarrow> uintptr option" where
  "rtree_leaf_elm_extent_read rtree elm =
     map_option rtree_leaf_elm_bits_extent_get (rtree_leaf_elm_bits_read rtree elm)"

definition rtree_leaf_elm_szind_read :: "rtree \<Rightarrow> leaf_elm \<Rightarrow> szind option" where
  "rtree_leaf_elm_szind_read rtree elm =
     map_option rtree_leaf_elm_bits_szind_get (rtree_leaf_elm_bits_read rtree elm)"

definition rtree_leaf_elm_slab_read :: "rtree \<Rightarrow> leaf_elm \<Rightarrow> bool option" where
  "rtree_leaf_elm_slab_read rtree elm =
     map_option rtree_leaf_elm_bits_slab_get (rtree_leaf_elm_bits_read rtree elm)"

definition rtree_leaf_elm_extent_write :: "rtree \<Rightarrow> leaf_elm \<Rightarrow> uintptr \<Rightarrow> rtree option" where
  "rtree_leaf_elm_extent_write rtree elm extent = do {
     old_bits \<leftarrow> rtree_leaf_elm_bits_read rtree elm;
     le_bits_store rtree elm
       (push_bit LG_VADDR (ucast (rtree_leaf_elm_bits_szind_get old_bits))
        OR (extent AND (push_bit LG_VADDR 1 - 1))
        OR of_bool (rtree_leaf_elm_bits_slab_get old_bits))
   }"

definition rtree_leaf_elm_szind_write :: "rtree \<Rightarrow> leaf_elm \<Rightarrow> szind \<Rightarrow> rtree option" where
  "rtree_leaf_elm_szind_write rtree elm szind = do {
     old_bits \<leftarrow> rtree_leaf_elm_bits_read rtree elm;
     le_bits_store rtree elm
       (push_bit LG_VADDR (ucast szind)
        OR (rtree_leaf_elm_bits_extent_get old_bits AND (push_bit LG_VADDR 1 - 1))
        OR of_bool (rtree_leaf_elm_bits_slab_get old_bits))
   }"

definition rtree_leaf_elm_slab_write :: "rtree \<Rightarrow> leaf_elm \<Rightarrow> bool \<Rightarrow> rtree option" where
  "rtree_leaf_elm_slab_write rtree elm slab = do {
     old_bits \<leftarrow> rtree_leaf_elm_bits_read rtree elm;
     le_bits_store rtree elm
       (push_bit LG_VADDR (ucast (rtree_leaf_elm_bits_szind_get old_bits))
        OR (rtree_leaf_elm_bits_extent_get old_bits AND (push_bit LG_VADDR 1 - 1))
        OR of_bool slab)
   }"

definition rtree_leaf_elm_write :: "rtree \<Rightarrow> leaf_elm \<Rightarrow> uintptr \<Rightarrow> szind \<Rightarrow> bool \<Rightarrow> rtree option" where
  "rtree_leaf_elm_write rtree elm extent szind slab =
     le_bits_store rtree elm
       (push_bit LG_VADDR (ucast szind) OR (extent AND (push_bit LG_VADDR 1 - 1)) OR of_bool slab)"

definition rtree_leaf_elm_szind_slab_update :: "rtree \<Rightarrow> leaf_elm \<Rightarrow> szind \<Rightarrow> bool \<Rightarrow> rtree option" where
  "rtree_leaf_elm_szind_slab_update rtree elm szind slab = do {
     rtree \<leftarrow> rtree_leaf_elm_slab_write rtree elm slab;
     rtree_leaf_elm_szind_write rtree elm szind
   }"

section \<open>Finding the element of a key\<close>

text \<open>A leaf from \<open>base_alloc\<close> is zeroed memory.\<close>

definition rtree_leaf_init :: "uintptr \<Rightarrow> rtree \<Rightarrow> nat \<Rightarrow> uintptr \<times> rtree" where
  "rtree_leaf_init leaf_alloc rtree subkey =
     (let leaf = rt_root rtree subkey
      in if leaf = 0
         then if leaf_alloc = 0 then (0, rtree)
              else (leaf_alloc, rtree\<lparr>rt_root := (rt_root rtree)(subkey := leaf_alloc),
                                     rt_leaves := (rt_leaves rtree)(leaf_alloc := (\<lambda>_. 0))\<rparr>)
         else (leaf, rtree))"

definition rtree_leaf_valid :: "uintptr \<Rightarrow> bool" where
  "rtree_leaf_valid leaf \<longleftrightarrow> leaf \<noteq> 0"

definition rtree_child_leaf_tryread :: "rtree \<Rightarrow> nat \<Rightarrow> uintptr" where
  "rtree_child_leaf_tryread rtree subkey = rt_root rtree subkey"

definition rtree_child_leaf_read :: "uintptr \<Rightarrow> rtree \<Rightarrow> nat \<Rightarrow> bool \<Rightarrow> uintptr \<times> rtree" where
  "rtree_child_leaf_read leaf_alloc rtree subkey dependent =
     (let leaf = rtree_child_leaf_tryread rtree subkey
      in if \<not> dependent \<and> \<not> rtree_leaf_valid leaf then rtree_leaf_init leaf_alloc rtree subkey
         else (leaf, rtree))"

definition rtree_leaf_elm_lookup_hard ::
  "uintptr \<Rightarrow> rtree \<Rightarrow> rtree_ctx \<Rightarrow> uintptr \<Rightarrow> bool \<Rightarrow> bool \<Rightarrow> leaf_elm option \<times> rtree \<times> rtree_ctx" where
  "rtree_leaf_elm_lookup_hard leaf_alloc rtree ctx key dependent init_missing =
     (let subkey = rtree_subkey key 0;
          (leaf, rtree) = (if init_missing then rtree_child_leaf_read leaf_alloc rtree subkey dependent
                           else (rtree_child_leaf_tryread rtree subkey, rtree))
      in if \<not> dependent \<and> \<not> rtree_leaf_valid leaf then (None, rtree, ctx)
         else
           let l2 = take 1 (ctx_l2_cache ctx) @ butlast (ctx_l2_cache ctx);
               slot = rtree_cache_direct_map key;
               l2 = l2[0 := ctx_cache ctx ! slot];
               cache = (ctx_cache ctx)[slot := \<lparr>ce_leafkey = rtree_leafkey key, ce_leaf = leaf\<rparr>];
               subkey = rtree_subkey key (RTREE_HEIGHT - 1)
           in (Some (leaf, subkey), rtree, ctx\<lparr>ctx_cache := cache, ctx_l2_cache := l2\<rparr>))"

text \<open>A hit in element \<open>i\<close> of the second cache.\<close>

definition rtree_cache_hit_l2 :: "rtree_ctx \<Rightarrow> nat \<Rightarrow> uintptr \<Rightarrow> nat \<Rightarrow> rtree_ctx" where
  "rtree_cache_hit_l2 ctx slot leafkey i =
     (let leaf = ce_leaf (ctx_l2_cache ctx ! i);
          l2 = (if 0 < i
                then (let l2 = (ctx_l2_cache ctx)[i := ctx_l2_cache ctx ! (i - 1)]
                      in l2[i - 1 := ctx_cache ctx ! slot])
                else (ctx_l2_cache ctx)[0 := ctx_cache ctx ! slot])
      in ctx\<lparr>ctx_l2_cache := l2,
             ctx_cache := (ctx_cache ctx)[slot := \<lparr>ce_leafkey = leafkey, ce_leaf = leaf\<rparr>]\<rparr>)"

fun rtree_cache_search_l2 :: "rtree_ctx \<Rightarrow> nat \<Rightarrow> uintptr \<Rightarrow> nat list \<Rightarrow> (uintptr \<times> rtree_ctx) option" where
  "rtree_cache_search_l2 ctx slot leafkey [] = None"
| "rtree_cache_search_l2 ctx slot leafkey (i # is) =
     (if ce_leafkey (ctx_l2_cache ctx ! i) = leafkey
      then Some (ce_leaf (ctx_l2_cache ctx ! i), rtree_cache_hit_l2 ctx slot leafkey i)
      else rtree_cache_search_l2 ctx slot leafkey is)"

definition rtree_leaf_elm_lookup ::
  "uintptr \<Rightarrow> rtree \<Rightarrow> rtree_ctx \<Rightarrow> uintptr \<Rightarrow> bool \<Rightarrow> bool \<Rightarrow> leaf_elm option \<times> rtree \<times> rtree_ctx" where
  "rtree_leaf_elm_lookup leaf_alloc rtree ctx key dependent init_missing =
     (let slot = rtree_cache_direct_map key; leafkey = rtree_leafkey key
      in if ce_leafkey (ctx_cache ctx ! slot) = leafkey
         then (Some (ce_leaf (ctx_cache ctx ! slot), rtree_subkey key (RTREE_HEIGHT - 1)), rtree, ctx)
         else case rtree_cache_search_l2 ctx slot leafkey [0..<RTREE_CTX_NCACHE_L2] of
           Some (leaf, ctx) \<Rightarrow> (Some (leaf, rtree_subkey key (RTREE_HEIGHT - 1)), rtree, ctx)
         | None \<Rightarrow> rtree_leaf_elm_lookup_hard leaf_alloc rtree ctx key dependent init_missing)"

section \<open>Operations\<close>

definition rtree_write ::
  "uintptr \<Rightarrow> rtree \<Rightarrow> rtree_ctx \<Rightarrow> uintptr \<Rightarrow> uintptr \<Rightarrow> szind \<Rightarrow> bool \<Rightarrow> (bool \<times> rtree \<times> rtree_ctx) option" where
  "rtree_write leaf_alloc rtree ctx key extent szind slab =
     (case rtree_leaf_elm_lookup leaf_alloc rtree ctx key False True of
        (None, rtree, ctx) \<Rightarrow> Some (True, rtree, ctx)
      | (Some elm, rtree, ctx) \<Rightarrow> do {
          rtree \<leftarrow> rtree_leaf_elm_write rtree elm extent szind slab;
          Some (False, rtree, ctx)
        })"

text \<open>Reads do not initialise leaves, so they have no use for an answer of \<open>base_alloc\<close>.\<close>

definition rtree_read :: "rtree \<Rightarrow> rtree_ctx \<Rightarrow> uintptr \<Rightarrow> bool \<Rightarrow> leaf_elm option \<times> rtree \<times> rtree_ctx" where
  "rtree_read rtree ctx key dependent = rtree_leaf_elm_lookup 0 rtree ctx key dependent False"

definition rtree_extent_read :: "rtree \<Rightarrow> rtree_ctx \<Rightarrow> uintptr \<Rightarrow> bool \<Rightarrow> (uintptr \<times> rtree_ctx) option" where
  "rtree_extent_read rtree ctx key dependent =
     (case rtree_read rtree ctx key dependent of
        (None, rtree, ctx) \<Rightarrow> if dependent then None else Some (0, ctx)
      | (Some elm, rtree, ctx) \<Rightarrow> do {
          extent \<leftarrow> rtree_leaf_elm_extent_read rtree elm;
          Some (extent, ctx)
        })"

definition rtree_szind_read :: "rtree \<Rightarrow> rtree_ctx \<Rightarrow> uintptr \<Rightarrow> bool \<Rightarrow> (szind \<times> rtree_ctx) option" where
  "rtree_szind_read rtree ctx key dependent =
     (case rtree_read rtree ctx key dependent of
        (None, rtree, ctx) \<Rightarrow> if dependent then None else Some (of_nat SC_NSIZES, ctx)
      | (Some elm, rtree, ctx) \<Rightarrow> do {
          szind \<leftarrow> rtree_leaf_elm_szind_read rtree elm;
          Some (szind, ctx)
        })"

text \<open>The next two return \<open>true\<close>, here \<open>Inl ()\<close>, when there is no element.\<close>

definition rtree_extent_szind_read ::
  "rtree \<Rightarrow> rtree_ctx \<Rightarrow> uintptr \<Rightarrow> bool \<Rightarrow> ((unit + uintptr \<times> szind) \<times> rtree_ctx) option" where
  "rtree_extent_szind_read rtree ctx key dependent =
     (case rtree_read rtree ctx key dependent of
        (None, rtree, ctx) \<Rightarrow> if dependent then None else Some (Inl (), ctx)
      | (Some elm, rtree, ctx) \<Rightarrow> do {
          extent \<leftarrow> rtree_leaf_elm_extent_read rtree elm;
          szind \<leftarrow> rtree_leaf_elm_szind_read rtree elm;
          Some (Inr (extent, szind), ctx)
        })"

definition rtree_szind_slab_read ::
  "rtree \<Rightarrow> rtree_ctx \<Rightarrow> uintptr \<Rightarrow> bool \<Rightarrow> ((unit + szind \<times> bool) \<times> rtree_ctx) option" where
  "rtree_szind_slab_read rtree ctx key dependent =
     (case rtree_read rtree ctx key dependent of
        (None, rtree, ctx) \<Rightarrow> if dependent then None else Some (Inl (), ctx)
      | (Some elm, rtree, ctx) \<Rightarrow> do {
          bits \<leftarrow> rtree_leaf_elm_bits_read rtree elm;
          Some (Inr (rtree_leaf_elm_bits_szind_get bits, rtree_leaf_elm_bits_slab_get bits), ctx)
        })"

definition rtree_szind_slab_update ::
  "rtree \<Rightarrow> rtree_ctx \<Rightarrow> uintptr \<Rightarrow> szind \<Rightarrow> bool \<Rightarrow> (rtree \<times> rtree_ctx) option" where
  "rtree_szind_slab_update rtree ctx key szind slab =
     (case rtree_read rtree ctx key True of
        (None, rtree, ctx) \<Rightarrow> None
      | (Some elm, rtree, ctx) \<Rightarrow> do {
          rtree \<leftarrow> rtree_leaf_elm_szind_slab_update rtree elm szind slab;
          Some (rtree, ctx)
        })"

definition rtree_clear :: "rtree \<Rightarrow> rtree_ctx \<Rightarrow> uintptr \<Rightarrow> (rtree \<times> rtree_ctx) option" where
  "rtree_clear rtree ctx key =
     (case rtree_read rtree ctx key True of
        (None, rtree, ctx) \<Rightarrow> None
      | (Some elm, rtree, ctx) \<Rightarrow> do {
          rtree \<leftarrow> rtree_leaf_elm_write rtree elm 0 (of_nat SC_NSIZES) False;
          Some (rtree, ctx)
        })"

section \<open>The configured tree\<close>

lemma rtree_config: "RTREE_NHIB = 16" "RTREE_NSB = 36" "RTREE_HEIGHT = 2" "LG_VADDR = 48" "RTREE_LEAF_COMPACT"
    "rtree_levels = [(18, 34), (18, 52)]" "RTREE_CTX_NCACHE = 16" "RTREE_CTX_NCACHE_L2 = 8"
  by (simp_all add: RTREE_NHIB_def LG_VADDR_def RTREE_NSB_def RTREE_NLIB_def LG_PAGE_def RTREE_HEIGHT_def
      RTREE_LEAF_COMPACT_def LG_CEIL_SC_NSIZES rtree_levels_def RTREE_CTX_NCACHE_def RTREE_CTX_LG_NCACHE_def
      RTREE_CTX_NCACHE_L2_def)

text \<open>The page of an address: the bits of the address space above the page offset.\<close>

definition page_number :: "uintptr \<Rightarrow> uint64" where
  "page_number key = take_bit RTREE_NSB (drop_bit LG_PAGE key)"

lemma mask_words: "262143 = (mask 18 :: 64 word)" "- 1073741824 = NOT (mask 30 :: 64 word)"
    "15 = (mask 4 :: 64 word)" "281474976710655 = (mask 48 :: 64 word)"
  by (simp_all add: mask_eq_exp_minus_1 not_eq_complement)

lemma subkey_eq:
  "rtree_subkey key 0 = unat (take_bit 18 (drop_bit 30 key))"
  "rtree_subkey key 1 = unat (take_bit 18 (drop_bit 12 key))"
  "rtree_subkey key (Suc 0) = unat (take_bit 18 (drop_bit 12 key))"
  by (simp_all add: rtree_subkey_def rtree_config Let_def mask_words take_bit_eq_mask)

lemma leafkey_eq: "rtree_leafkey key = key AND NOT (mask 30)"
  by (simp add: rtree_leafkey_def rtree_config Let_def mask_words)

lemma direct_map_less: "rtree_cache_direct_map key < 16"
proof -
  have "rtree_cache_direct_map key = unat (take_bit 4 (drop_bit 30 key))"
    by (simp add: rtree_cache_direct_map_def rtree_config Let_def mask_words take_bit_eq_mask)
  also have "\<dots> < 2 ^ 4" by (simp only: unsigned_take_bit_eq take_bit_nat_less_exp)
  finally show ?thesis by simp
qed

lemma leafkey_valid: "rtree_leafkey key \<noteq> RTREE_LEAFKEY_INVALID"
proof
  assume "rtree_leafkey key = RTREE_LEAFKEY_INVALID"
  then have "bit (rtree_leafkey key) 0 = bit (1 :: 64 word) 0" by (simp add: RTREE_LEAFKEY_INVALID_def)
  then show False by (simp add: leafkey_eq bit_simps)
qed

lemma leafkey_subkey: "rtree_leafkey key = rtree_leafkey key' \<Longrightarrow> rtree_subkey key 0 = rtree_subkey key' 0"
proof -
  assume "rtree_leafkey key = rtree_leafkey key'"
  then have "drop_bit 30 (key AND NOT (mask 30)) = drop_bit 30 (key' AND NOT (mask 30))" by (simp add: leafkey_eq)
  moreover have "drop_bit 30 (k AND NOT (mask 30)) = drop_bit 30 k" for k :: "64 word"
    by (rule bit_word_eqI) (auto simp: bit_simps dest: bit_imp_le_length)
  ultimately have "drop_bit 30 key = drop_bit 30 key'" by simp
  then show ?thesis by (simp add: subkey_eq)
qed

lemma page_number_subkeys:
  "page_number key = page_number key' \<longleftrightarrow> rtree_subkey key 0 = rtree_subkey key' 0 \<and> rtree_subkey key (Suc 0) = rtree_subkey key' (Suc 0)"
proof -
  have b: "bit (page_number k) n \<longleftrightarrow> (if n < 18 then bit (take_bit 18 (drop_bit 12 k)) n
      else bit (take_bit 18 (drop_bit 30 k)) (n - 18))" for k n
    by (auto simp: page_number_def rtree_config LG_PAGE_def bit_simps)
  have hi: "bit (take_bit 18 (drop_bit 30 k)) m \<longleftrightarrow> m < 18 \<and> bit (page_number k) (m + 18)" for k m
    by (auto simp: page_number_def rtree_config LG_PAGE_def bit_simps ac_simps)
  have lo: "bit (take_bit 18 (drop_bit 12 k)) m \<longleftrightarrow> m < 18 \<and> bit (page_number k) m" for k m
    by (auto simp: page_number_def rtree_config LG_PAGE_def bit_simps)
  show ?thesis
  proof
    assume "page_number key = page_number key'"
    then show "rtree_subkey key 0 = rtree_subkey key' 0 \<and> rtree_subkey key (Suc 0) = rtree_subkey key' (Suc 0)"
      unfolding subkey_eq by (intro conjI arg_cong [where f = unat] bit_word_eqI) (simp_all only: hi lo)
  next
    assume "rtree_subkey key 0 = rtree_subkey key' 0 \<and> rtree_subkey key (Suc 0) = rtree_subkey key' (Suc 0)"
    then have "take_bit 18 (drop_bit 30 key) = take_bit 18 (drop_bit 30 key')"
      "take_bit 18 (drop_bit 12 key) = take_bit 18 (drop_bit 12 key')"
      by (simp_all only: subkey_eq word_unat_eq_iff)
    then show "page_number key = page_number key'" by (auto simp: b intro!: bit_word_eqI)
  qed
qed

section \<open>The packed element\<close>

text \<open>Addresses of descriptors: sign-extended 48-bit addresses, with the low bit free.\<close>

definition extent_ptr :: "uintptr \<Rightarrow> bool" where
  "extent_ptr p \<longleftrightarrow> signed_drop_bit RTREE_NHIB (push_bit RTREE_NHIB p) = p \<and> p AND 1 = 0"

definition le_pack :: "uintptr \<Rightarrow> szind \<Rightarrow> bool \<Rightarrow> uint64" where
  "le_pack extent szind slab =
     push_bit LG_VADDR (ucast szind) OR (extent AND (push_bit LG_VADDR 1 - 1)) OR of_bool slab"

lemma and_one_0: "w AND 1 = 0 \<longleftrightarrow> \<not> bit w 0" for w :: "64 word"
  by (simp add: and_one_eq bit_0 mod_2_eq_odd)

lemma bit_le_pack: "bit (le_pack e s b) n \<longleftrightarrow> n < 64
    \<and> (48 \<le> n \<and> bit s (n - 48) \<or> bit e n \<and> n < 48 \<or> n = 0 \<and> b)"
  by (auto simp: le_pack_def rtree_config mask_words bit_simps)

lemma bit_restored: "bit (signed_drop_bit 16 (push_bit 16 w)) n \<longleftrightarrow> n < 64 \<and> bit w (min n 47)" for w :: "64 word"
  by (auto simp: bit_simps min_def)

lemma le_pack_get:
  assumes "unat s < 2 ^ 16"
  shows "rtree_leaf_elm_bits_szind_get (le_pack e s b) = s"
    "extent_ptr e \<Longrightarrow> rtree_leaf_elm_bits_extent_get (le_pack e s b) = e"
    "extent_ptr e \<Longrightarrow> rtree_leaf_elm_bits_slab_get (le_pack e s b) = b"
proof -
  have s: "\<not> bit s n" if "16 \<le> n" for n
  proof -
    have "take_bit 16 s = s" using assms by (simp add: word_unat_eq_iff unsigned_take_bit_eq take_bit_nat_eq_self)
    then have "bit s n = bit (take_bit 16 s) n" by simp
    then show ?thesis using that by (simp add: bit_take_bit_iff)
  qed
  show "rtree_leaf_elm_bits_szind_get (le_pack e s b) = s"
    by (intro bit_word_eqI) (use s in \<open>auto simp: rtree_leaf_elm_bits_szind_get_def rtree_config bit_simps
      bit_le_pack not_le [symmetric]\<close>)
  assume e: "extent_ptr e"
  then have r: "bit e n \<longleftrightarrow> n < 64 \<and> bit e (min n 47)" for n
    using bit_restored [of e n] by (simp add: extent_ptr_def rtree_config)
  have z: "\<not> bit e 0" using e by (simp add: extent_ptr_def and_one_0)
  show "rtree_leaf_elm_bits_extent_get (le_pack e s b) = e"
  proof (rule bit_word_eqI)
    fix n assume n: "n < LENGTH(64)"
    have not1: "bit (NOT 1 :: 64 word) n \<longleftrightarrow> n \<noteq> 0" using n by (simp add: bit_simps)
    have hi: "bit e n = bit e 47" if "47 < n" using r [of n] n that by (simp add: min_def)
    have eq: "bit (rtree_leaf_elm_bits_extent_get (le_pack e s b)) n \<longleftrightarrow> bit (le_pack e s b) (min n 47) \<and> n \<noteq> 0"
      unfolding rtree_leaf_elm_bits_extent_get_def rtree_config bit_and_iff bit_restored not1 using n by simp
    show "bit (rtree_leaf_elm_bits_extent_get (le_pack e s b)) n = bit e n"
    proof (cases "47 < n")
      case True
      then show ?thesis unfolding eq hi [OF True] bit_le_pack by (simp add: min_def)
    next
      case False
      then show ?thesis unfolding eq bit_le_pack using z by (cases "n = 0") (simp_all add: min_def)
    qed
  qed
  show "rtree_leaf_elm_bits_slab_get (le_pack e s b) = b"
    using z by (simp add: rtree_leaf_elm_bits_slab_get_def and_one_0 bit_le_pack)
qed

lemma le_pack_0: "rtree_leaf_elm_bits_extent_get 0 = 0"
  by (simp add: rtree_leaf_elm_bits_extent_get_def)

lemma leaf_elm_write_eq: "rtree_leaf_elm_write rtree elm e s b = le_bits_store rtree elm (le_pack e s b)"
  by (simp add: rtree_leaf_elm_write_def le_pack_def)

section \<open>Lookups with and without the caches\<close>

text \<open>No leaf hangs at two places of the root.\<close>

definition rtree_ok :: "rtree \<Rightarrow> bool" where
  "rtree_ok rt \<longleftrightarrow> (\<forall>i j. rt_root rt i = rt_root rt j \<longrightarrow> rt_root rt i \<noteq> 0 \<longrightarrow> i = j)"

definition ctx_elm_ok :: "rtree \<Rightarrow> ctx_elm \<Rightarrow> bool" where
  "ctx_elm_ok rt ce \<longleftrightarrow> ce_leafkey ce = RTREE_LEAFKEY_INVALID
     \<or> (\<exists>key. ce_leafkey ce = rtree_leafkey key \<and> ce_leaf ce = rt_root rt (rtree_subkey key 0) \<and> ce_leaf ce \<noteq> 0)"

definition ctx_ok :: "rtree \<Rightarrow> rtree_ctx \<Rightarrow> bool" where
  "ctx_ok rt ctx \<longleftrightarrow> length (ctx_cache ctx) = 16 \<and> length (ctx_l2_cache ctx) = 8
     \<and> (\<forall>ce\<in>set (ctx_cache ctx) \<union> set (ctx_l2_cache ctx). ctx_elm_ok rt ce)"

lemma ctx_init_ok: "ctx_ok rt rtree_ctx_data_init"
  by (simp add: ctx_ok_def ctx_elm_ok_def rtree_ctx_data_init_def rtree_config Let_def)

text \<open>A context stays good as the tree grows, also when other threads make it grow.\<close>

lemma ctx_ok_mono:
  assumes "ctx_ok rt ctx" "\<And>i. rt_root rt i \<noteq> 0 \<Longrightarrow> rt_root rt' i = rt_root rt i"
  shows "ctx_ok rt' ctx"
proof -
  have "ctx_elm_ok rt' ce" if "ctx_elm_ok rt ce" for ce
    using that assms(2) unfolding ctx_elm_ok_def by metis
  with assms(1) show ?thesis by (auto simp: ctx_ok_def)
qed

lemma ctx_elm_hit:
  assumes "ctx_elm_ok rt ce" "ce_leafkey ce = rtree_leafkey key"
  shows "ce_leaf ce = rt_root rt (rtree_subkey key 0) \<and> rt_root rt (rtree_subkey key 0) \<noteq> 0"
  using assms leafkey_valid leafkey_subkey unfolding ctx_elm_ok_def by metis

lemma ctx_elm_new: "rt_root rt (rtree_subkey key 0) \<noteq> 0 \<Longrightarrow>
    ctx_elm_ok rt \<lparr>ce_leafkey = rtree_leafkey key, ce_leaf = rt_root rt (rtree_subkey key 0)\<rparr>"
  by (auto simp: ctx_elm_ok_def)

lemma hit_l2_ok:
  assumes "ctx_ok rt ctx" "i < 8" "slot < 16"
    and "ctx_elm_ok rt \<lparr>ce_leafkey = leafkey, ce_leaf = ce_leaf (ctx_l2_cache ctx ! i)\<rparr>"
  shows "ctx_ok rt (rtree_cache_hit_l2 ctx slot leafkey i)"
proof -
  have l: "length (ctx_cache ctx) = 16" "length (ctx_l2_cache ctx) = 8"
    and ce: "\<And>ce. ce \<in> set (ctx_cache ctx) \<Longrightarrow> ctx_elm_ok rt ce" "\<And>ce. ce \<in> set (ctx_l2_cache ctx) \<Longrightarrow> ctx_elm_ok rt ce"
    using assms(1) by (auto simp: ctx_ok_def)
  have "ctx_elm_ok rt (ctx_cache ctx ! slot)" "ctx_elm_ok rt (ctx_l2_cache ctx ! (i - 1))"
    using l assms(2,3) by (auto intro: ce)
  then show ?thesis
    using l assms(4) ce unfolding ctx_ok_def rtree_cache_hit_l2_def Let_def
    by (auto dest!: set_update_subset_insert [THEN subsetD] split: if_splits)
qed

lemma search_l2_ok:
  assumes "ctx_ok rt ctx" "\<forall>i\<in>set is. i < 8" "slot < 16"
  shows "(case rtree_cache_search_l2 ctx slot (rtree_leafkey key) is of None \<Rightarrow> True
    | Some (leaf, ctx') \<Rightarrow> leaf = rt_root rt (rtree_subkey key 0) \<and> leaf \<noteq> 0 \<and> ctx_ok rt ctx')"
  using assms(2)
proof (induction "is")
  case (Cons i "is")
  have "ctx_l2_cache ctx ! i \<in> set (ctx_l2_cache ctx)" using Cons.prems assms(1) by (simp add: ctx_ok_def)
  then have ok: "ctx_elm_ok rt (ctx_l2_cache ctx ! i)" using assms(1) by (simp add: ctx_ok_def)
  show ?case
  proof (cases "ce_leafkey (ctx_l2_cache ctx ! i) = rtree_leafkey key")
    case True
    note hit = ctx_elm_hit [OF ok True]
    have "ctx_ok rt (rtree_cache_hit_l2 ctx slot (rtree_leafkey key) i)"
      using hit_l2_ok [OF assms(1) _ assms(3)] ctx_elm_new hit Cons.prems by simp
    with hit True show ?thesis by simp
  next
    case False
    with Cons show ?thesis by simp
  qed
qed simp

lemma lookup_hard_ctx:
  assumes "ctx_ok rt ctx" "rt_root rt (rtree_subkey key 0) \<noteq> 0"
  shows "ctx_ok rt (ctx\<lparr>ctx_cache := (ctx_cache ctx)[rtree_cache_direct_map key :=
        \<lparr>ce_leafkey = rtree_leafkey key, ce_leaf = rt_root rt (rtree_subkey key 0)\<rparr>],
      ctx_l2_cache := (take 1 (ctx_l2_cache ctx) @ butlast (ctx_l2_cache ctx))
        [0 := ctx_cache ctx ! rtree_cache_direct_map key]\<rparr>)"
proof -
  have l: "length (ctx_cache ctx) = 16" "length (ctx_l2_cache ctx) = 8"
    and ce: "\<And>ce. ce \<in> set (ctx_cache ctx) \<Longrightarrow> ctx_elm_ok rt ce" "\<And>ce. ce \<in> set (ctx_l2_cache ctx) \<Longrightarrow> ctx_elm_ok rt ce"
    using assms(1) by (auto simp: ctx_ok_def)
  have "ctx_elm_ok rt (ctx_cache ctx ! rtree_cache_direct_map key)"
    using l direct_map_less by (auto intro: ce)
  then show ?thesis
    using l ce ctx_elm_new [OF assms(2)] unfolding ctx_ok_def
    by (auto dest!: set_update_subset_insert [THEN subsetD] in_set_takeD in_set_butlastD)
qed

text \<open>The tree after a lookup that initialises a missing leaf.\<close>

definition grown :: "uintptr \<Rightarrow> rtree \<Rightarrow> uintptr \<Rightarrow> rtree" where
  "grown leaf_alloc rt key = snd (rtree_leaf_init leaf_alloc rt (rtree_subkey key 0))"

lemma lookup_ok:
  fixes leaf_alloc :: uintptr
  assumes "ctx_ok rt ctx" "dependent \<longrightarrow> \<not> init_missing"
    and "dependent \<longrightarrow> rt_root rt (rtree_subkey key 0) \<noteq> 0"
  defines "rt' \<equiv> if init_missing then grown leaf_alloc rt key else rt"
  shows "\<exists>ctx'. rtree_leaf_elm_lookup leaf_alloc rt ctx key dependent init_missing =
      (if rt_root rt' (rtree_subkey key 0) = 0 then None
       else Some (rt_root rt' (rtree_subkey key 0), rtree_subkey key (Suc 0)), rt', ctx') \<and> ctx_ok rt' ctx'"
proof -
  let ?slot = "rtree_cache_direct_map key" and ?sk = "rtree_subkey key 0"
  have l: "length (ctx_cache ctx) = 16" using assms(1) by (simp add: ctx_ok_def)
  have same: "rt' = rt" if "rt_root rt ?sk \<noteq> 0"
    using that by (simp add: rt'_def grown_def rtree_leaf_init_def)
  have h: "RTREE_HEIGHT - 1 = 1" "RTREE_HEIGHT - Suc 0 = Suc 0" by (simp_all add: rtree_config numeral_2_eq_2)
  show ?thesis
  proof (cases "ce_leafkey (ctx_cache ctx ! ?slot) = rtree_leafkey key")
    case True
    have "ctx_elm_ok rt (ctx_cache ctx ! ?slot)" using assms(1) l direct_map_less by (simp add: ctx_ok_def)
    from ctx_elm_hit [OF this True] same True assms(1) show ?thesis
      by (simp add: rtree_leaf_elm_lookup_def Let_def h)
  next
    case miss: False
    note s = search_l2_ok [OF assms(1), of "[0..<RTREE_CTX_NCACHE_L2]" ?slot key]
    show ?thesis
    proof (cases "rtree_cache_search_l2 ctx ?slot (rtree_leafkey key) [0..<RTREE_CTX_NCACHE_L2]")
      case (Some r)
      obtain leaf ctx' where r: "r = (leaf, ctx')" by (cases r)
      have "leaf = rt_root rt ?sk" "leaf \<noteq> 0" "ctx_ok rt ctx'"
        using s Some r direct_map_less [of key] by (auto simp: rtree_config simp del: upt_rec_numeral)
      with same miss Some r show ?thesis by (simp add: rtree_leaf_elm_lookup_def Let_def h)
    next
      case None
      have leaf: "(if init_missing then rtree_child_leaf_read leaf_alloc rt ?sk dependent
          else (rtree_child_leaf_tryread rt ?sk, rt)) = (rt_root rt' ?sk, rt')"
        using assms(2) by (auto simp: rt'_def grown_def rtree_child_leaf_read_def rtree_child_leaf_tryread_def
            rtree_leaf_valid_def rtree_leaf_init_def Let_def)
      have eq: "rtree_leaf_elm_lookup leaf_alloc rt ctx key dependent init_missing =
          rtree_leaf_elm_lookup_hard leaf_alloc rt ctx key dependent init_missing"
        using miss None by (simp add: rtree_leaf_elm_lookup_def Let_def)
      have mono: "ctx_ok rt' ctx"
        by (rule ctx_ok_mono [OF assms(1)]) (auto simp: rt'_def grown_def rtree_leaf_init_def Let_def)
      show ?thesis
      proof (cases "rt_root rt' ?sk = 0")
        case True
        then have "rt_root rt ?sk = 0" using same by metis
        then have "\<not> dependent" using assms(3) by simp
        with True mono show ?thesis
          unfolding eq rtree_leaf_elm_lookup_hard_def Let_def leaf by (simp add: rtree_leaf_valid_def)
      next
        case False
        with lookup_hard_ctx [OF mono False] show ?thesis
          unfolding eq rtree_leaf_elm_lookup_hard_def Let_def leaf h by (simp add: rtree_leaf_valid_def)
      qed
    qed
  qed
qed

section \<open>The map that the tree implements\<close>

type_synonym rtree_map = "uint64 \<Rightarrow> (uintptr \<times> szind \<times> bool) option"

definition elm_bits :: "rtree \<Rightarrow> uintptr \<Rightarrow> uint64" where
  "elm_bits rt key = rt_leaves rt (rt_root rt (rtree_subkey key 0)) (rtree_subkey key (Suc 0))"

definition elm_abs :: "uintptr \<Rightarrow> uint64 \<Rightarrow> (uintptr \<times> szind \<times> bool) option \<Rightarrow> bool" where
  "elm_abs leaf bits v \<longleftrightarrow> (case v of
     None \<Rightarrow> leaf = 0 \<or> rtree_leaf_elm_bits_extent_get bits = 0
   | Some (extent, szind, slab) \<Rightarrow> leaf \<noteq> 0 \<and> bits = le_pack extent szind slab
       \<and> extent_ptr extent \<and> extent \<noteq> 0 \<and> unat szind \<le> SC_NSIZES)"

definition rtree_abs :: "rtree \<Rightarrow> rtree_map \<Rightarrow> bool" where
  "rtree_abs rt M \<longleftrightarrow> rtree_ok rt
     \<and> (\<forall>key. elm_abs (rt_root rt (rtree_subkey key 0)) (elm_bits rt key) (M (page_number key)))"

lemma rtree_absD: "rtree_abs rt M \<Longrightarrow> elm_abs (rt_root rt (rtree_subkey key 0)) (elm_bits rt key) (M (page_number key))"
  by (simp add: rtree_abs_def)

lemma grown_abs:
  assumes "rtree_abs rt M" "leaf_alloc = 0 \<or> leaf_alloc \<notin> range (rt_root rt)"
  shows "rtree_abs (grown leaf_alloc rt key) M"
    "rt_root (grown leaf_alloc rt key) (rtree_subkey key 0) = 0 \<longleftrightarrow> rt_root rt (rtree_subkey key 0) = 0 \<and> leaf_alloc = 0"
    "rt_root rt i \<noteq> 0 \<Longrightarrow> rt_root (grown leaf_alloc rt key) i = rt_root rt i"
proof -
  let ?sk = "rtree_subkey key 0"
  show "rt_root (grown leaf_alloc rt key) ?sk = 0 \<longleftrightarrow> rt_root rt ?sk = 0 \<and> leaf_alloc = 0"
    "rt_root rt i \<noteq> 0 \<Longrightarrow> rt_root (grown leaf_alloc rt key) i = rt_root rt i"
    by (auto simp: grown_def rtree_leaf_init_def Let_def)
  show "rtree_abs (grown leaf_alloc rt key) M"
  proof (cases "rt_root rt ?sk = 0 \<and> leaf_alloc \<noteq> 0")
    case False
    then have "grown leaf_alloc rt key = rt" by (auto simp: grown_def rtree_leaf_init_def Let_def)
    with assms(1) show ?thesis by simp
  next
    case True
    then have fresh: "leaf_alloc \<notin> range (rt_root rt)" using assms(2) by simp
    have eq: "grown leaf_alloc rt key = rt\<lparr>rt_root := (rt_root rt)(?sk := leaf_alloc),
        rt_leaves := (rt_leaves rt)(leaf_alloc := (\<lambda>_. 0))\<rparr>"
      using True by (simp add: grown_def rtree_leaf_init_def Let_def)
    have "rtree_ok (grown leaf_alloc rt key)"
      using assms(1) fresh unfolding eq rtree_abs_def rtree_ok_def by (auto split: if_splits)
    moreover have "elm_abs (rt_root (grown leaf_alloc rt key) (rtree_subkey k 0)) (elm_bits (grown leaf_alloc rt key) k)
        (M (page_number k))" for k
    proof (cases "rtree_subkey k 0 = ?sk")
      case same: True
      then have "M (page_number k) = None"
        using rtree_absD [OF assms(1), of k] True by (auto simp: elm_abs_def split: option.splits)
      with same show ?thesis by (simp add: eq elm_bits_def elm_abs_def le_pack_0)
    next
      case False
      have "rt_root rt (rtree_subkey k 0) \<noteq> leaf_alloc" using fresh by auto
      with False rtree_absD [OF assms(1), of k] show ?thesis by (simp add: eq elm_bits_def)
    qed
    ultimately show ?thesis by (simp add: rtree_abs_def)
  qed
qed

text \<open>Storing at the element of a key changes the map at its page only.\<close>

lemma store_abs:
  assumes "rtree_abs rt M" "rt_root rt (rtree_subkey key 0) \<noteq> 0"
    and "elm_abs (rt_root rt (rtree_subkey key 0)) bits v"
  shows "\<exists>rt'. le_bits_store rt (rt_root rt (rtree_subkey key 0), rtree_subkey key (Suc 0)) bits = Some rt'
    \<and> rtree_abs rt' (M(page_number key := v)) \<and> rt_root rt' = rt_root rt \<and> elm_bits rt' key = bits"
proof -
  let ?leaf = "rt_root rt (rtree_subkey key 0)"
  define rt' where "rt' = rt\<lparr>rt_leaves := (rt_leaves rt)(?leaf := (rt_leaves rt ?leaf)(rtree_subkey key (Suc 0) := bits))\<rparr>"
  have root: "rt_root rt' = rt_root rt" by (simp add: rt'_def)
  have inj: "rtree_subkey k 0 = rtree_subkey key 0" if "rt_root rt (rtree_subkey k 0) = ?leaf" for k
    using assms(1,2) that by (auto simp: rtree_abs_def rtree_ok_def)
  have "elm_abs (rt_root rt' (rtree_subkey k 0)) (elm_bits rt' k) ((M(page_number key := v)) (page_number k))" for k
  proof (cases "page_number k = page_number key")
    case True
    then have "rtree_subkey k 0 = rtree_subkey key 0" "rtree_subkey k (Suc 0) = rtree_subkey key (Suc 0)"
      using page_number_subkeys by blast+
    with True assms(3) show ?thesis by (simp add: elm_bits_def rt'_def)
  next
    case False
    then have ne: "\<not> (rtree_subkey k 0 = rtree_subkey key 0 \<and> rtree_subkey k (Suc 0) = rtree_subkey key (Suc 0))"
      using page_number_subkeys by blast
    have "elm_bits rt' k = elm_bits rt k"
    proof (cases "rt_root rt (rtree_subkey k 0) = ?leaf")
      case True
      with inj ne have "rtree_subkey k (Suc 0) \<noteq> rtree_subkey key (Suc 0)" by blast
      with True show ?thesis by (simp add: elm_bits_def rt'_def)
    qed (simp add: elm_bits_def rt'_def)
    with False rtree_absD [OF assms(1), of k] show ?thesis by (simp add: root)
  qed
  moreover have "rtree_ok rt'" using assms(1) by (simp add: rtree_abs_def rtree_ok_def root)
  ultimately have "rtree_abs rt' (M(page_number key := v))" by (simp add: rtree_abs_def)
  moreover have "elm_bits rt' key = bits" by (simp add: elm_bits_def rt'_def)
  ultimately show ?thesis using assms(2) root by (simp add: le_bits_store_def rt'_def)
qed

lemma sc_nsizes_16: "unat szind \<le> SC_NSIZES \<Longrightarrow> unat szind < 2 ^ 16" for szind :: szind
  by (simp add: sc_macro_values(1))

lemmas le_pack_gets = le_pack_get [OF sc_nsizes_16]

text \<open>The operations over the map.\<close>

lemma write_ok:
  assumes "rtree_abs rt M" "ctx_ok rt ctx" "leaf_alloc = 0 \<or> leaf_alloc \<notin> range (rt_root rt)"
    and "extent_ptr extent" "extent \<noteq> 0" "unat szind \<le> SC_NSIZES"
  shows "\<exists>err rt' ctx'. rtree_write leaf_alloc rt ctx key extent szind slab = Some (err, rt', ctx')
    \<and> err = (rt_root rt (rtree_subkey key 0) = 0 \<and> leaf_alloc = 0)
    \<and> rtree_abs rt' (if err then M else M(page_number key \<mapsto> (extent, szind, slab))) \<and> ctx_ok rt' ctx'
    \<and> (\<forall>i. rt_root rt i \<noteq> 0 \<longrightarrow> rt_root rt' i = rt_root rt i)"
proof -
  define rt1 where "rt1 = grown leaf_alloc rt key"
  note g = grown_abs [OF assms(1,3), where key = key, folded rt1_def]
  from lookup_ok [OF assms(2), of False True key leaf_alloc] obtain ctx' where
    l: "rtree_leaf_elm_lookup leaf_alloc rt ctx key False True =
      (if rt_root rt1 (rtree_subkey key 0) = 0 then None
       else Some (rt_root rt1 (rtree_subkey key 0), rtree_subkey key (Suc 0)), rt1, ctx')" "ctx_ok rt1 ctx'"
    by (auto simp: rt1_def)
  show ?thesis
  proof (cases "rt_root rt1 (rtree_subkey key 0) = 0")
    case True
    with l(1) have "rtree_write leaf_alloc rt ctx key extent szind slab = Some (True, rt1, ctx')"
      by (simp add: rtree_write_def)
    with True l(2) g show ?thesis by auto
  next
    case False
    from store_abs [OF g(1) False, of "le_pack extent szind slab" "Some (extent, szind, slab)"] assms(4-6) False
    obtain rt' where rt': "le_bits_store rt1 (rt_root rt1 (rtree_subkey key 0), rtree_subkey key (Suc 0))
        (le_pack extent szind slab) = Some rt'" "rtree_abs rt' (M(page_number key \<mapsto> (extent, szind, slab)))"
      "rt_root rt' = rt_root rt1" by (auto simp: elm_abs_def)
    have "ctx_ok rt' ctx'" by (rule ctx_ok_mono [OF l(2)]) (simp add: rt'(3))
    then show ?thesis
      using l(1) False g(2,3) rt' by (auto simp: rtree_write_def leaf_elm_write_eq)
  qed
qed

lemma read_lookup:
  assumes "rtree_abs rt M" "ctx_ok rt ctx" "dependent \<longrightarrow> M (page_number key) \<noteq> None"
  shows "\<exists>ctx'. rtree_read rt ctx key dependent = (if rt_root rt (rtree_subkey key 0) = 0 then None
      else Some (rt_root rt (rtree_subkey key 0), rtree_subkey key (Suc 0)), rt, ctx') \<and> ctx_ok rt ctx'"
proof -
  have "rt_root rt (rtree_subkey key 0) \<noteq> 0" if "dependent"
    using rtree_absD [OF assms(1), of key] assms(3) that by (auto simp: elm_abs_def split: option.splits)
  with lookup_ok [OF assms(2), of dependent False key 0] show ?thesis unfolding rtree_read_def if_False by blast
qed

lemma bits_read: "leaf \<noteq> 0 \<Longrightarrow> leaf = rt_root rt (rtree_subkey key 0) \<Longrightarrow>
    rtree_leaf_elm_bits_read rt (leaf, rtree_subkey key (Suc 0)) = Some (elm_bits rt key)"
  by (simp add: rtree_leaf_elm_bits_read_def elm_bits_def)

lemma extent_read_ok:
  assumes "rtree_abs rt M" "ctx_ok rt ctx" "dependent \<longrightarrow> M (page_number key) \<noteq> None"
  shows "\<exists>ctx'. rtree_extent_read rt ctx key dependent =
      Some (case M (page_number key) of None \<Rightarrow> 0 | Some (extent, szind, slab) \<Rightarrow> extent, ctx') \<and> ctx_ok rt ctx'"
proof -
  from read_lookup [OF assms] obtain ctx' where
    r: "rtree_read rt ctx key dependent = (if rt_root rt (rtree_subkey key 0) = 0 then None
      else Some (rt_root rt (rtree_subkey key 0), rtree_subkey key (Suc 0)), rt, ctx')" "ctx_ok rt ctx'" by blast
  note a = rtree_absD [OF assms(1), of key]
  show ?thesis
  proof (cases "M (page_number key)")
    case None
    with a assms(3) r show ?thesis
      by (auto simp: rtree_extent_read_def elm_abs_def rtree_leaf_elm_extent_read_def bits_read)
  next
    case (Some v)
    obtain extent szind slab where v: "v = (extent, szind, slab)" by (cases v)
    with a Some r show ?thesis
      by (auto simp: rtree_extent_read_def elm_abs_def rtree_leaf_elm_extent_read_def bits_read le_pack_gets)
  qed
qed

lemma other_reads_ok:
  assumes "rtree_abs rt M" "ctx_ok rt ctx" "M (page_number key) = Some (extent, szind, slab)"
  shows "\<exists>ctx'. ctx_ok rt ctx' \<and> rtree_szind_read rt ctx key dependent = Some (szind, ctx')
    \<and> rtree_extent_szind_read rt ctx key dependent = Some (Inr (extent, szind), ctx')
    \<and> rtree_szind_slab_read rt ctx key dependent = Some (Inr (szind, slab), ctx')"
proof -
  from read_lookup [OF assms(1,2), of dependent key] assms(3) obtain ctx' where
    r: "rtree_read rt ctx key dependent = (if rt_root rt (rtree_subkey key 0) = 0 then None
      else Some (rt_root rt (rtree_subkey key 0), rtree_subkey key (Suc 0)), rt, ctx')" "ctx_ok rt ctx'" by auto
  from rtree_absD [OF assms(1), of key] assms(3) r show ?thesis
    by (simp add: elm_abs_def rtree_szind_read_def rtree_extent_szind_read_def rtree_szind_slab_read_def
        rtree_leaf_elm_extent_read_def rtree_leaf_elm_szind_read_def bits_read le_pack_gets)
qed

lemma clear_ok:
  assumes "rtree_abs rt M" "ctx_ok rt ctx" "M (page_number key) \<noteq> None"
  shows "\<exists>rt' ctx'. rtree_clear rt ctx key = Some (rt', ctx') \<and> rtree_abs rt' (M(page_number key := None))
    \<and> ctx_ok rt' ctx' \<and> rt_root rt' = rt_root rt"
proof -
  from read_lookup [OF assms(1,2), of True key] assms(3) obtain ctx' where
    r: "rtree_read rt ctx key True = (if rt_root rt (rtree_subkey key 0) = 0 then None
      else Some (rt_root rt (rtree_subkey key 0), rtree_subkey key (Suc 0)), rt, ctx')" "ctx_ok rt ctx'" by auto
  have ne: "rt_root rt (rtree_subkey key 0) \<noteq> 0"
    using rtree_absD [OF assms(1), of key] assms(3) by (auto simp: elm_abs_def)
  have "extent_ptr 0" by (simp add: extent_ptr_def)
  then have "rtree_leaf_elm_bits_extent_get (le_pack 0 (of_nat SC_NSIZES) False) = 0"
    by (intro le_pack_get(2)) (simp add: sc_macro_values(1))
  with store_abs [OF assms(1) ne, of "le_pack 0 (of_nat SC_NSIZES) False" None] obtain rt' where
    rt': "le_bits_store rt (rt_root rt (rtree_subkey key 0), rtree_subkey key (Suc 0)) (le_pack 0 (of_nat SC_NSIZES) False) = Some rt'"
      "rtree_abs rt' (M(page_number key := None))" "rt_root rt' = rt_root rt" by (auto simp: elm_abs_def)
  have "ctx_ok rt' ctx'" by (rule ctx_ok_mono [OF r(2)]) (simp add: rt'(3))
  with r(1) ne rt' show ?thesis by (simp add: rtree_clear_def leaf_elm_write_eq)
qed

lemma szind_slab_update_ok:
  assumes "rtree_abs rt M" "ctx_ok rt ctx" "M (page_number key) = Some (extent, szind0, slab0)"
    and "unat szind \<le> SC_NSIZES"
  shows "\<exists>rt' ctx'. rtree_szind_slab_update rt ctx key szind slab = Some (rt', ctx')
    \<and> rtree_abs rt' (M(page_number key \<mapsto> (extent, szind, slab))) \<and> ctx_ok rt' ctx' \<and> rt_root rt' = rt_root rt"
proof -
  let ?elm = "(rt_root rt (rtree_subkey key 0), rtree_subkey key (Suc 0))"
  from read_lookup [OF assms(1,2), of True key] assms(3) obtain ctx' where
    r: "rtree_read rt ctx key True = (if rt_root rt (rtree_subkey key 0) = 0 then None else Some ?elm, rt, ctx')"
      "ctx_ok rt ctx'" by auto
  have e: "rt_root rt (rtree_subkey key 0) \<noteq> 0" "elm_bits rt key = le_pack extent szind0 slab0" "extent_ptr extent"
      "extent \<noteq> 0" "unat szind0 \<le> SC_NSIZES"
    using rtree_absD [OF assms(1), of key] assms(3) by (auto simp: elm_abs_def)
  note get = le_pack_get [OF sc_nsizes_16 [OF e(5)]]
  from store_abs [OF assms(1) e(1), of "le_pack extent szind0 slab" "Some (extent, szind0, slab)"] e obtain rt1 where
    rt1: "le_bits_store rt ?elm (le_pack extent szind0 slab) = Some rt1"
      "rtree_abs rt1 (M(page_number key \<mapsto> (extent, szind0, slab)))" "rt_root rt1 = rt_root rt"
      "elm_bits rt1 key = le_pack extent szind0 slab"
    by (auto simp: elm_abs_def)
  from store_abs [OF rt1(2), of key "le_pack extent szind slab" "Some (extent, szind, slab)"] e assms(4) rt1(3) obtain rt2 where
    rt2: "le_bits_store rt1 ?elm (le_pack extent szind slab) = Some rt2"
      "rtree_abs rt2 (M(page_number key \<mapsto> (extent, szind, slab)))" "rt_root rt2 = rt_root rt"
    by (auto simp: elm_abs_def)
  have w1: "rtree_leaf_elm_slab_write rt ?elm slab = Some rt1"
    using rt1(1) e get unfolding rtree_leaf_elm_slab_write_def le_pack_def [symmetric] by (simp add: bits_read)
  have w2: "rtree_leaf_elm_szind_write rt1 ?elm szind = Some rt2"
    using rt2(1) e get rt1(3,4) unfolding rtree_leaf_elm_szind_write_def le_pack_def [symmetric] by (simp add: bits_read)
  have "ctx_ok rt2 ctx'" by (rule ctx_ok_mono [OF r(2)]) (simp add: rt2(3))
  with r(1) e(1) w1 w2 rt2 show ?thesis
    by (simp add: rtree_szind_slab_update_def rtree_leaf_elm_szind_slab_update_def)
qed

section \<open>Every tree that the program reaches\<close>

text \<open>
  Threads share the tree and each has a context. \<open>base_alloc\<close> answers NULL or memory that is no
  leaf yet. A write is to a page that has no entry; clears and updates are to one that has.
\<close>

inductive rtree_run :: "rtree \<Rightarrow> (nat \<Rightarrow> rtree_ctx) \<Rightarrow> rtree_map \<Rightarrow> bool" where
  new: "rtree_run (rtree_new leaves) (\<lambda>_. rtree_ctx_data_init) Map.empty"
| thread: "rtree_run rt C M \<Longrightarrow> rtree_run rt (C(t := rtree_ctx_data_init)) M"
| put: "rtree_run rt C M \<Longrightarrow> M (page_number key) = None \<Longrightarrow> leaf_alloc = 0 \<or> leaf_alloc \<notin> range (rt_root rt) \<Longrightarrow>
    extent_ptr extent \<Longrightarrow> extent \<noteq> 0 \<Longrightarrow> unat szind \<le> SC_NSIZES \<Longrightarrow>
    rtree_write leaf_alloc rt (C t) key extent szind slab = Some (err, rt', ctx) \<Longrightarrow>
    rtree_run rt' (C(t := ctx)) (if err then M else M(page_number key \<mapsto> (extent, szind, slab)))"
| read: "rtree_run rt C M \<Longrightarrow> dependent \<longrightarrow> M (page_number key) \<noteq> None \<Longrightarrow>
    rtree_extent_read rt (C t) key dependent = Some (extent, ctx) \<Longrightarrow> rtree_run rt (C(t := ctx)) M"
| update: "rtree_run rt C M \<Longrightarrow> M (page_number key) = Some (extent, szind0, slab0) \<Longrightarrow> unat szind \<le> SC_NSIZES \<Longrightarrow>
    rtree_szind_slab_update rt (C t) key szind slab = Some (rt', ctx) \<Longrightarrow>
    rtree_run rt' (C(t := ctx)) (M(page_number key \<mapsto> (extent, szind, slab)))"
| clear: "rtree_run rt C M \<Longrightarrow> M (page_number key) \<noteq> None \<Longrightarrow> rtree_clear rt (C t) key = Some (rt', ctx) \<Longrightarrow>
    rtree_run rt' (C(t := ctx)) (M(page_number key := None))"

lemma rtree_new_abs: "rtree_abs (rtree_new leaves) Map.empty"
  by (simp add: rtree_abs_def rtree_ok_def rtree_new_def elm_abs_def)

lemma ctxs_update:
  assumes "\<forall>t. ctx_ok rt (C t)" "ctx_ok rt' ctx" "\<forall>i. rt_root rt i \<noteq> 0 \<longrightarrow> rt_root rt' i = rt_root rt i"
  shows "\<forall>u. ctx_ok rt' ((C(t := ctx)) u)"
  using assms by (auto intro: ctx_ok_mono [where rt = rt])

lemma rtree_run_inv: "rtree_run rt C M \<Longrightarrow> rtree_abs rt M \<and> (\<forall>t. ctx_ok rt (C t))"
proof (induction rule: rtree_run.induct)
  case (new leaves)
  then show ?case by (simp add: rtree_new_abs ctx_init_ok)
next
  case (thread rt C M t)
  then show ?case by (simp add: ctx_init_ok)
next
  case (put rt C M key leaf_alloc extent szind t slab err rt' ctx)
  from write_ok [of rt M "C t" leaf_alloc extent szind key slab] put
  have "rtree_abs rt' (if err then M else M(page_number key \<mapsto> (extent, szind, slab)))" "ctx_ok rt' ctx"
    "\<forall>i. rt_root rt i \<noteq> 0 \<longrightarrow> rt_root rt' i = rt_root rt i" by auto
  with ctxs_update [of rt C rt' ctx t] put.IH show ?case by blast
next
  case (read rt C M dependent key t extent ctx)
  from extent_read_ok [of rt M "C t" dependent key] read have "ctx_ok rt ctx" by auto
  with read.IH show ?case by simp
next
  case (update rt C M key extent szind0 slab0 szind t slab rt' ctx)
  from szind_slab_update_ok [of rt M "C t" key extent szind0 slab0 szind slab] update
  have "rtree_abs rt' (M(page_number key \<mapsto> (extent, szind, slab)))" "ctx_ok rt' ctx" "rt_root rt' = rt_root rt" by auto
  moreover from this ctxs_update [of rt C rt' ctx t] update.IH have "\<forall>u. ctx_ok rt' ((C(t := ctx)) u)" by simp
  ultimately show ?case by blast
next
  case (clear rt C M key t rt' ctx)
  from clear_ok [of rt M "C t" key] clear
  have "rtree_abs rt' (M(page_number key := None))" "ctx_ok rt' ctx" "rt_root rt' = rt_root rt" by auto
  moreover from this ctxs_update [of rt C rt' ctx t] clear.IH have "\<forall>u. ctx_ok rt' ((C(t := ctx)) u)" by simp
  ultimately show ?case by blast
qed

lemma page_number_base:
  assumes "unat key < 2 ^ 48" "unat key' < 2 ^ 48"
  shows "page_number key = page_number key' \<longleftrightarrow> PAGE_ADDR2BASE key = PAGE_ADDR2BASE key'"
proof -
  have p: "unat (page_number k) = unat k div 2 ^ 12" if "unat k < 2 ^ 48" for k
    using that by (simp add: page_number_def rtree_config LG_PAGE_def unsigned_take_bit_eq unat_drop_bit_div
        take_bit_nat_eq_self)
  have b: "unat (PAGE_ADDR2BASE k) = unat k div 2 ^ 12 * 2 ^ 12" for k
  proof -
    have m: "PAGE_MASK = mask 12" by (simp add: PAGE_MASK_def PAGE_def LG_PAGE_def mask_eq_exp_minus_1)
    show ?thesis by (simp only: PAGE_ADDR2BASE_def m unat_and_not_mask)
  qed
  show ?thesis unfolding word_unat_eq_iff p [OF assms(1)] p [OF assms(2)] b by simp
qed

text \<open>C5: whatever the threads did, with whatever contents of their caches of leaves, the tree is a
  map from pages to entries: a read of any address of a page, cached or not, gives the entry last
  written for the page and not cleared since, and NULL when there is none; a write to an absent
  page fails only when its leaf is missing and \<open>base_alloc\<close> fails; and clears and updates of
  present pages always succeed.\<close>

theorem rtree_map_correct:
  assumes "rtree_run rt C M"
  shows "(\<exists>ctx. rtree_extent_read rt (C t) key False =
      Some (case M (page_number key) of None \<Rightarrow> 0 | Some (extent, szind, slab) \<Rightarrow> extent, ctx))
    \<and> (\<forall>extent szind slab. M (page_number key) = Some (extent, szind, slab) \<longrightarrow>
        (\<exists>ctx. rtree_extent_szind_read rt (C t) key True = Some (Inr (extent, szind), ctx)
          \<and> rtree_szind_slab_read rt (C t) key True = Some (Inr (szind, slab), ctx)
          \<and> rtree_szind_read rt (C t) key True = Some (szind, ctx))
        \<and> (\<exists>rt' ctx. rtree_clear rt (C t) key = Some (rt', ctx))
        \<and> (\<forall>szind' slab'. unat szind' \<le> SC_NSIZES \<longrightarrow>
             (\<exists>rt' ctx. rtree_szind_slab_update rt (C t) key szind' slab' = Some (rt', ctx))))
    \<and> (M (page_number key) = None \<longrightarrow> (\<forall>leaf_alloc extent szind slab. leaf_alloc \<noteq> 0 \<longrightarrow> leaf_alloc \<notin> range (rt_root rt) \<longrightarrow>
        extent_ptr extent \<longrightarrow> extent \<noteq> 0 \<longrightarrow> unat szind \<le> SC_NSIZES \<longrightarrow>
        (\<exists>rt' ctx. rtree_write leaf_alloc rt (C t) key extent szind slab = Some (False, rt', ctx)
          \<and> rtree_run rt' (C(t := ctx)) (M(page_number key \<mapsto> (extent, szind, slab))))))"
proof (intro conjI allI impI)
  from rtree_run_inv [OF assms] have inv: "rtree_abs rt M" "ctx_ok rt (C t)" by simp_all
  show "\<exists>ctx. rtree_extent_read rt (C t) key False =
      Some (case M (page_number key) of None \<Rightarrow> 0 | Some (extent, szind, slab) \<Rightarrow> extent, ctx)"
    using extent_read_ok [OF inv, of False key] by blast
  fix extent szind slab assume m: "M (page_number key) = Some (extent, szind, slab)"
  show "\<exists>ctx. rtree_extent_szind_read rt (C t) key True = Some (Inr (extent, szind), ctx)
      \<and> rtree_szind_slab_read rt (C t) key True = Some (Inr (szind, slab), ctx)
      \<and> rtree_szind_read rt (C t) key True = Some (szind, ctx)"
    using other_reads_ok [OF inv m, of True] by blast
  show "\<exists>rt' ctx. rtree_clear rt (C t) key = Some (rt', ctx)" using clear_ok [OF inv, of key] m by blast
  show "\<exists>rt' ctx. rtree_szind_slab_update rt (C t) key szind' slab' = Some (rt', ctx)"
    if "unat szind' \<le> SC_NSIZES" for szind' slab'
    using szind_slab_update_ok [OF inv m that, of slab'] by blast
next
  from rtree_run_inv [OF assms] have inv: "rtree_abs rt M" "ctx_ok rt (C t)" by simp_all
  fix leaf_alloc extent :: uintptr and szind :: szind and slab
  assume a: "M (page_number key) = None" "leaf_alloc \<noteq> 0" "leaf_alloc \<notin> range (rt_root rt)" "extent_ptr extent"
    "extent \<noteq> 0" "unat szind \<le> SC_NSIZES"
  from write_ok [OF inv _ a(4-6), of leaf_alloc key slab] a(2,3) obtain rt' ctx where
    w: "rtree_write leaf_alloc rt (C t) key extent szind slab = Some (False, rt', ctx)" by auto
  moreover from rtree_run.put [OF assms a(1) _ a(4-6) w] a(3)
  have "rtree_run rt' (C(t := ctx)) (M(page_number key \<mapsto> (extent, szind, slab)))" by simp
  ultimately show "\<exists>rt' ctx. rtree_write leaf_alloc rt (C t) key extent szind slab = Some (False, rt', ctx)
      \<and> rtree_run rt' (C(t := ctx)) (M(page_number key \<mapsto> (extent, szind, slab)))" by blast
qed

theorem rtree_map_correct_witness:
  "\<exists>rt (C :: nat \<Rightarrow> rtree_ctx) ctx1 ctx2 ctx3. rtree_extent_read rt (C 1) 0x7f0000001234 False = Some (0x7f0000a00000, ctx1)
    \<and> rtree_extent_read rt (C 1) 0x7f0000002234 False = Some (0, ctx2)
    \<and> rtree_szind_slab_read rt (C 1) 0x7f0000001234 True = Some (Inr (7, True), ctx3)"
proof -
  let ?rt = "rtree_new (\<lambda>_ _. 0)" and ?C = "\<lambda>_ :: nat. rtree_ctx_data_init"
  let ?key = "0x7f0000001000 :: uintptr" and ?e = "0x7f0000a00000 :: uintptr"
  have e: "extent_ptr ?e" by (simp add: extent_ptr_def rtree_config)
  have s: "unat (7 :: szind) \<le> SC_NSIZES" by (simp add: sc_macro_values(1))
  have "rtree_run ?rt ?C Map.empty" by (rule rtree_run.new)
  note c = rtree_map_correct [OF this, where t = 0 and key = ?key, THEN conjunct2, THEN conjunct2, rule_format, of 1 ?e 7 True]
  have "\<exists>rt' ctx. rtree_write 1 ?rt (?C 0) ?key ?e 7 True = Some (False, rt', ctx)
      \<and> rtree_run rt' (?C(0 := ctx)) (Map.empty(page_number ?key \<mapsto> (?e, 7, True)))"
    by (rule c) (use e s in \<open>auto simp: rtree_new_def\<close>)
  then obtain rt ctx where
    w: "rtree_run rt (?C(0 := ctx)) (Map.empty(page_number ?key \<mapsto> (?e, 7, True)))" by blast
  have p: "page_number 0x7f0000001234 = page_number ?key" "page_number 0x7f0000002234 \<noteq> page_number ?key"
    by (simp_all add: page_number_def rtree_config LG_PAGE_def)
  from rtree_map_correct [OF w, where t = 1 and key = "0x7f0000001234"] obtain ctx1 where
    1: "rtree_extent_read rt ((?C(0 := ctx)) 1) 0x7f0000001234 False = Some (?e, ctx1)"
    unfolding p(1) by auto
  from rtree_map_correct [OF w, where t = 1 and key = "0x7f0000001234"] obtain ctx3 where
    3: "rtree_szind_slab_read rt ((?C(0 := ctx)) 1) 0x7f0000001234 True = Some (Inr (7, True), ctx3)"
    unfolding p(1) by auto
  from rtree_map_correct [OF w, where t = 1 and key = "0x7f0000002234"] obtain ctx2 where
    2: "rtree_extent_read rt ((?C(0 := ctx)) 1) 0x7f0000002234 False = Some (0, ctx2)"
    using p(2) by auto
  from 1 2 3 show ?thesis by (intro exI [of _ rt] exI [of _ "?C(0 := ctx)"]) blast
qed

end
