(* ===== verification/Extent_Ops.thy ===== *)
theory Extent_Ops
  imports Extents Rtree
begin

text \<open>
  The life of extents in src/extent.c: descriptors, registration of pages, splitting, merging and
  coalescing, recycling from and recording into the collections, growing of retained memory, and
  the wrappers around the extent hooks. The state is that of one arena; the radix tree appears as
  the map from pages that it implements (theory Rtree).

  What the environment answers is in the state as lists that the calls consume: \<open>es_descs\<close> are the
  descriptors of \<open>base_alloc_extent\<close> and \<open>es_maps\<close> the mappings of the allocation hook with its
  zero and commit flags (NULL, that is 0, when exhausted); \<open>es_outs\<close> are the results of all calls
  that may fail, hooks and initialisations of leaves, with true for failure (and failure when
  exhausted).
\<close>

section \<open>State\<close>

record extent_hooks =
  hk_default :: bool
  hk_dalloc :: bool
  hk_commit :: bool
  hk_decommit :: bool
  hk_purge_lazy :: bool
  hk_purge_forced :: bool
  hk_split :: bool
  hk_merge :: bool

record extent_env =
  en_tabs :: sz_tabs
  en_lg_fit :: nat
  en_retain :: bool
  en_hooks :: extent_hooks
  en_ind :: "32 word"

record estate =
  es_mem :: "uintptr \<Rightarrow> extent"
  es_pages :: rtree_map
  es_avail :: "uintptr ph"
  es_avail_cnt :: size_t
  es_ex :: "extent_state \<Rightarrow> extents"
  es_sn_next :: size_t
  es_grow_next :: nat
  es_grow_limit :: nat
  es_offset :: offset_state
  es_descs :: "uintptr list"
  es_maps :: "(uintptr \<times> bool \<times> bool) list"
  es_outs :: "bool list"

definition mem_set :: "estate \<Rightarrow> uintptr \<Rightarrow> extent \<Rightarrow> estate" where
  "mem_set s d e = s\<lparr>es_mem := (es_mem s)(d := e)\<rparr>"

definition pop_desc :: "estate \<Rightarrow> uintptr \<times> estate" where
  "pop_desc s = (case es_descs s of [] \<Rightarrow> (0, s) | d # ds \<Rightarrow> (d, s\<lparr>es_descs := ds\<rparr>))"

definition pop_map :: "estate \<Rightarrow> (uintptr \<times> bool \<times> bool) \<times> estate" where
  "pop_map s = (case es_maps s of [] \<Rightarrow> ((0, False, False), s) | m # ms \<Rightarrow> (m, s\<lparr>es_maps := ms\<rparr>))"

definition pop_out :: "estate \<Rightarrow> bool \<times> estate" where
  "pop_out s = (case es_outs s of [] \<Rightarrow> (True, s) | b # bs \<Rightarrow> (b, s\<lparr>es_outs := bs\<rparr>))"

section \<open>Descriptors\<close>

definition extent_alloc :: "estate \<Rightarrow> uintptr \<times> estate" where
  "extent_alloc s =
     (case ph_first (avail_comp (es_mem s)) (es_avail s) of
        (None, avail) \<Rightarrow> pop_desc (s\<lparr>es_avail := avail\<rparr>)
      | (Some extent, avail) \<Rightarrow>
          (extent, s\<lparr>es_avail := ph_remove (avail_comp (es_mem s)) extent avail,
                     es_avail_cnt := es_avail_cnt s - 1\<rparr>))"

definition extent_dalloc :: "uintptr \<Rightarrow> estate \<Rightarrow> estate" where
  "extent_dalloc extent s = s\<lparr>es_avail := ph_insert extent (es_avail s), es_avail_cnt := es_avail_cnt s + 1\<rparr>"

definition arena_extent_sn_next :: "estate \<Rightarrow> size_t \<times> estate" where
  "arena_extent_sn_next s = (es_sn_next s, s\<lparr>es_sn_next := es_sn_next s + 1\<rparr>)"

section \<open>Membership\<close>

definition extent_deactivate_locked :: "extent_env \<Rightarrow> extent_state \<Rightarrow> uintptr \<Rightarrow> estate \<Rightarrow> estate option" where
  "extent_deactivate_locked en k extent s = do {
     let s = mem_set s extent (extent_state_set (es_mem s extent) (extents_state_get (es_ex s k)));
     ex \<leftarrow> extents_insert_locked (en_tabs en) (es_mem s) (es_ex s k) extent;
     Some (s\<lparr>es_ex := (es_ex s)(k := ex)\<rparr>)
   }"

definition extent_deactivate :: "extent_env \<Rightarrow> extent_state \<Rightarrow> uintptr \<Rightarrow> estate \<Rightarrow> estate option" where
  "extent_deactivate en k extent s = extent_deactivate_locked en k extent s"

definition extent_activate_locked :: "extent_env \<Rightarrow> extent_state \<Rightarrow> uintptr \<Rightarrow> estate \<Rightarrow> estate option" where
  "extent_activate_locked en k extent s = do {
     ex \<leftarrow> extents_remove_locked (en_tabs en) (es_mem s) (es_ex s k) extent;
     let s = s\<lparr>es_ex := (es_ex s)(k := ex)\<rparr>;
     Some (mem_set s extent (extent_state_set (es_mem s extent) extent_state_active))
   }"

section \<open>Registration\<close>

text \<open>The element of an address is its page; an initialising lookup may fail.\<close>

definition leaf_elm_lookup :: "uintptr \<Rightarrow> bool \<Rightarrow> estate \<Rightarrow> uint64 option \<times> estate" where
  "leaf_elm_lookup addr init_missing s =
     (if init_missing
      then (let (err, s) = pop_out s in (if err then None else Some (page_number addr), s))
      else (Some (page_number addr), s))"

text \<open>The elements of the first and the last page. The second stays unset, here \<open>None\<close>, when the
  first lookup fails.\<close>

definition extent_rtree_leaf_elms_lookup ::
  "extent \<Rightarrow> bool \<Rightarrow> bool \<Rightarrow> estate \<Rightarrow> (bool \<times> uint64 option \<times> uint64 option) \<times> estate" where
  "extent_rtree_leaf_elms_lookup extent dependent init_missing s =
     (let (elm_a, s) = leaf_elm_lookup (extent_base_get extent) init_missing s
      in if \<not> dependent \<and> elm_a = None then ((True, None, None), s)
         else
           let (elm_b, s) = leaf_elm_lookup (extent_last_get extent) init_missing s
           in if \<not> dependent \<and> elm_b = None then ((True, elm_a, None), s)
              else ((False, elm_a, elm_b), s))"

definition page_write :: "uint64 \<Rightarrow> uintptr \<Rightarrow> szind \<Rightarrow> bool \<Rightarrow> estate \<Rightarrow> estate" where
  "page_write elm extent szind slab s =
     s\<lparr>es_pages := (es_pages s)(elm := if extent = 0 then None else Some (extent, szind, slab))\<rparr>"

definition extent_rtree_write_acquired ::
  "uint64 \<Rightarrow> uint64 option \<Rightarrow> uintptr \<Rightarrow> szind \<Rightarrow> bool \<Rightarrow> estate \<Rightarrow> estate" where
  "extent_rtree_write_acquired elm_a elm_b extent szind slab s =
     (let s = page_write elm_a extent szind slab s
      in case elm_b of None \<Rightarrow> s | Some elm_b \<Rightarrow> page_write elm_b extent szind slab s)"

text \<open>The pages of the interior; their leaves exist, because those of both ends do and a slab is
  smaller than what a leaf covers.\<close>

definition interior :: "extent \<Rightarrow> nat list" where
  "interior extent = [1..<unat (drop_bit LG_PAGE (extent_size_get extent) - 1)]"

definition extent_interior_register :: "uintptr \<Rightarrow> szind \<Rightarrow> estate \<Rightarrow> estate" where
  "extent_interior_register extent szind s =
     (let e = es_mem s extent
      in fold (\<lambda>i. page_write (page_number (extent_base_get e + push_bit LG_PAGE (of_nat i))) extent szind True)
           (interior e) s)"

definition extent_interior_deregister :: "uintptr \<Rightarrow> estate \<Rightarrow> estate" where
  "extent_interior_deregister extent s =
     (let e = es_mem s extent
      in fold (\<lambda>i. page_write (page_number (extent_base_get e + push_bit LG_PAGE (of_nat i))) 0 (of_nat SC_NSIZES) False)
           (interior e) s)"

text \<open>A leaf that was there once stays, so that the lookups can fail only for an extent that may be new.\<close>

definition extent_register_impl :: "bool \<Rightarrow> uintptr \<Rightarrow> estate \<Rightarrow> bool \<times> estate" where
  "extent_register_impl is_new extent s =
     (case extent_rtree_leaf_elms_lookup (es_mem s extent) False is_new s of
        ((False, Some elm_a, elm_b), s) \<Rightarrow>
          (let szind = ucast (extent_szind_get_maybe_invalid (es_mem s extent));
               slab = extent_slab_get (es_mem s extent);
               s = extent_rtree_write_acquired elm_a elm_b extent szind slab s
           in (False, if slab then extent_interior_register extent szind s else s))
      | (_, s) \<Rightarrow> (True, s))"

definition extent_register :: "uintptr \<Rightarrow> estate \<Rightarrow> bool \<times> estate" where
  "extent_register extent s = extent_register_impl True extent s"

definition extent_register_no_gdump_add :: "uintptr \<Rightarrow> estate \<Rightarrow> bool \<times> estate" where
  "extent_register_no_gdump_add extent s = extent_register_impl True extent s"

definition extent_reregister :: "uintptr \<Rightarrow> estate \<Rightarrow> estate" where
  "extent_reregister extent s = snd (extent_register_impl False extent s)"

definition extent_deregister_impl :: "uintptr \<Rightarrow> estate \<Rightarrow> estate" where
  "extent_deregister_impl extent s =
     (case extent_rtree_leaf_elms_lookup (es_mem s extent) True False s of
        ((_, Some elm_a, elm_b), s) \<Rightarrow>
          (let s = extent_rtree_write_acquired elm_a elm_b 0 (of_nat SC_NSIZES) False s
           in if extent_slab_get (es_mem s extent)
              then (let s = extent_interior_deregister extent s
                    in mem_set s extent (extent_slab_set (es_mem s extent) False))
              else s)
      | (_, s) \<Rightarrow> s)"

definition extent_deregister :: "uintptr \<Rightarrow> estate \<Rightarrow> estate" where
  "extent_deregister extent s = extent_deregister_impl extent s"

definition extent_deregister_no_gdump_sub :: "uintptr \<Rightarrow> estate \<Rightarrow> estate" where
  "extent_deregister_no_gdump_sub extent s = extent_deregister_impl extent s"

text \<open>The extent of an address: other threads are at rest, so the entry read under the lock is the
  one read before.\<close>

definition extent_lock_from_addr :: "uintptr \<Rightarrow> bool \<Rightarrow> estate \<Rightarrow> uintptr option" where
  "extent_lock_from_addr addr inactive_only s =
     (case es_pages s (page_number addr) of
        None \<Rightarrow> None
      | Some (extent, szind, slab) \<Rightarrow> if inactive_only \<and> slab then None else Some extent)"

section \<open>Hooks\<close>

definition extent_commit_impl :: "extent_env \<Rightarrow> uintptr \<Rightarrow> estate \<Rightarrow> bool \<times> estate" where
  "extent_commit_impl en extent s =
     (let (err, s) = (if \<not> hk_commit (en_hooks en) then (True, s) else pop_out s)
      in (err, mem_set s extent (extent_committed_set (es_mem s extent) (extent_committed_get (es_mem s extent) \<or> \<not> err))))"

definition extent_decommit_wrapper :: "extent_env \<Rightarrow> uintptr \<Rightarrow> estate \<Rightarrow> bool \<times> estate" where
  "extent_decommit_wrapper en extent s =
     (let (err, s) = (if \<not> hk_decommit (en_hooks en) then (True, s) else pop_out s)
      in (err, mem_set s extent (extent_committed_set (es_mem s extent) (extent_committed_get (es_mem s extent) \<and> err))))"

definition extent_purge_lazy_impl :: "extent_env \<Rightarrow> estate \<Rightarrow> bool \<times> estate" where
  "extent_purge_lazy_impl en s = (if \<not> hk_purge_lazy (en_hooks en) then (True, s) else pop_out s)"

definition extent_purge_forced_impl :: "extent_env \<Rightarrow> estate \<Rightarrow> bool \<times> estate" where
  "extent_purge_forced_impl en s = (if \<not> hk_purge_forced (en_hooks en) then (True, s) else pop_out s)"

definition extents_leak :: "extent_env \<Rightarrow> extent_state \<Rightarrow> uintptr \<Rightarrow> estate \<Rightarrow> estate" where
  "extents_leak en k extent s =
     (let s = (if extents_state_get (es_ex s k) = extent_state_dirty
               then (let (err, s) = extent_purge_lazy_impl en s
                     in if err then snd (extent_purge_forced_impl en s) else s)
               else s)
      in extent_dalloc extent s)"

section \<open>Splitting\<close>

definition extent_split_impl ::
  "extent_env \<Rightarrow> uintptr \<Rightarrow> size_t \<Rightarrow> szind \<Rightarrow> bool \<Rightarrow> size_t \<Rightarrow> szind \<Rightarrow> bool \<Rightarrow> estate \<Rightarrow> uintptr option \<times> estate" where
  "extent_split_impl en extent size_a szind_a slab_a size_b szind_b slab_b s =
     (if \<not> hk_split (en_hooks en) then (None, s)
      else
        let (trail, s) = extent_alloc s
        in if trail = 0 then (None, s)
           else
             let e = es_mem s extent;
                 s = mem_set s trail (extent_init (es_mem s trail) (Some (en_ind en)) (extent_base_get e + size_a) size_b
                       slab_b szind_b (extent_sn_get e) (extent_state_get e) (extent_zeroed_get e)
                       (extent_committed_get e) (extent_dumpable_get e));
                 lead = extent_init e (Some (en_ind en)) (extent_addr_get e) size_a
                       slab_a szind_a (extent_sn_get e) (extent_state_get e) (extent_zeroed_get e)
                       (extent_committed_get e) (extent_dumpable_get e);
                 ((_, lead_elm_a, lead_elm_b), s) = extent_rtree_leaf_elms_lookup lead False True s;
                 ((_, trail_elm_a, trail_elm_b), s) = extent_rtree_leaf_elms_lookup (es_mem s trail) False True s
             in (case (lead_elm_a, lead_elm_b, trail_elm_a, trail_elm_b) of
                   (Some lead_elm_a, Some lead_elm_b, Some trail_elm_a, Some trail_elm_b) \<Rightarrow>
                     (let (err, s) = pop_out s
                      in if err then (None, extent_dalloc trail s)
                         else
                           let s = mem_set s extent (extent_size_set (es_mem s extent) size_a);
                               s = mem_set s extent (extent_szind_set (es_mem s extent) szind_a);
                               s = extent_rtree_write_acquired lead_elm_a (Some lead_elm_b) extent szind_a slab_a s;
                               s = extent_rtree_write_acquired trail_elm_a (Some trail_elm_b) trail szind_b slab_b s
                           in (Some trail, s))
                 | _ \<Rightarrow> (None, extent_dalloc trail s)))"

text \<open>The three ways \<open>extent_split_interior\<close> ends: the extent with what was cut off before and
  after it; nothing touched; or what must be leaked and what can be salvaged.\<close>

datatype split_interior =
    extent_split_interior_ok uintptr "uintptr option" "uintptr option"
  | extent_split_interior_cant_alloc
  | extent_split_interior_error "uintptr option" "uintptr option"

definition szind_slab_update :: "uint64 \<Rightarrow> szind \<Rightarrow> bool \<Rightarrow> estate \<Rightarrow> estate option" where
  "szind_slab_update elm szind slab s =
     (case es_pages s elm of None \<Rightarrow> None
      | Some (extent, _, _) \<Rightarrow> Some (s\<lparr>es_pages := (es_pages s)(elm \<mapsto> (extent, szind, slab))\<rparr>))"

definition extent_split_interior ::
  "extent_env \<Rightarrow> uintptr \<Rightarrow> size_t \<Rightarrow> size_t \<Rightarrow> size_t \<Rightarrow> bool \<Rightarrow> szind \<Rightarrow> estate \<Rightarrow> (split_interior \<times> estate) option" where
  "extent_split_interior en extent req pad alignment slab szind s =
     (let esize = req + pad;
          base = extent_base_get (es_mem s extent);
          leadsize = ALIGNMENT_CEILING base (PAGE_CEILING alignment) - base
      in if extent_size_get (es_mem s extent) < leadsize + esize
         then Some (extent_split_interior_cant_alloc, s)
         else
           let trailsize = extent_size_get (es_mem s extent) - leadsize - esize;
               (lead, r, s) =
                 (if leadsize \<noteq> 0
                  then (let (r, s) = extent_split_impl en extent leadsize (of_nat SC_NSIZES) False
                               (esize + trailsize) szind slab s
                        in (Some extent, r, s))
                  else (None, Some extent, s))
           in (case r of
                 None \<Rightarrow> Some (extent_split_interior_error lead None, s)
               | Some extent \<Rightarrow>
                   (let (trail, s) =
                          (if trailsize \<noteq> 0
                           then extent_split_impl en extent esize szind slab trailsize (of_nat SC_NSIZES) False s
                           else (None, s))
                    in if trailsize \<noteq> 0 \<and> trail = None
                       then Some (extent_split_interior_error (Some extent) lead, s)
                       else if leadsize = 0 \<and> trailsize = 0
                       then (let s = mem_set s extent (extent_szind_set (es_mem s extent) szind)
                             in if szind \<noteq> of_nat SC_NSIZES
                                then do {
                                  s \<leftarrow> szind_slab_update (page_number (extent_addr_get (es_mem s extent))) szind slab s;
                                  s \<leftarrow> (if slab \<and> extent_size_get (es_mem s extent) > PAGE
                                       then szind_slab_update (page_number (extent_past_get (es_mem s extent) - PAGE)) szind slab s
                                       else Some s);
                                  Some (extent_split_interior_ok extent lead trail, s)
                                }
                                else Some (extent_split_interior_ok extent lead trail, s))
                       else Some (extent_split_interior_ok extent lead trail, s))))"

section \<open>Merging and coalescing\<close>

definition extent_merge_impl :: "extent_env \<Rightarrow> uintptr \<Rightarrow> uintptr \<Rightarrow> estate \<Rightarrow> bool \<times> estate" where
  "extent_merge_impl en a b s =
     (if \<not> hk_merge (en_hooks en) then (True, s)
      else
        let (err, s) = pop_out s
        in if err then (True, s)
           else
             let a_elm_a = page_number (extent_base_get (es_mem s a));
                 a_elm_b = page_number (extent_last_get (es_mem s a));
                 b_elm_a = page_number (extent_base_get (es_mem s b));
                 b_elm_b = page_number (extent_last_get (es_mem s b));
                 s = page_write a_elm_b 0 (of_nat SC_NSIZES) False s;
                 s = page_write b_elm_a 0 (of_nat SC_NSIZES) False s;
                 s = mem_set s a (extent_size_set (es_mem s a) (extent_size_get (es_mem s a) + extent_size_get (es_mem s b)));
                 s = mem_set s a (extent_szind_set (es_mem s a) (of_nat SC_NSIZES));
                 s = mem_set s a (extent_sn_set (es_mem s a)
                       (if extent_sn_get (es_mem s a) < extent_sn_get (es_mem s b)
                        then extent_sn_get (es_mem s a) else extent_sn_get (es_mem s b)));
                 s = mem_set s a (extent_zeroed_set (es_mem s a)
                       (extent_zeroed_get (es_mem s a) \<and> extent_zeroed_get (es_mem s b)));
                 s = extent_rtree_write_acquired a_elm_a (Some b_elm_b) a (of_nat SC_NSIZES) False s
             in (False, extent_dalloc b s))"

definition extent_can_coalesce :: "extent_env \<Rightarrow> extent_state \<Rightarrow> uintptr \<Rightarrow> uintptr \<Rightarrow> estate \<Rightarrow> bool" where
  "extent_can_coalesce en k inner outer s \<longleftrightarrow>
     extent_arena_ind_get (es_mem s outer) = ucast (en_ind en)
     \<and> extent_state_get (es_mem s outer) = ex_state (es_ex s k)
     \<and> extent_committed_get (es_mem s inner) = extent_committed_get (es_mem s outer)"

definition extent_coalesce ::
  "extent_env \<Rightarrow> extent_state \<Rightarrow> uintptr \<Rightarrow> uintptr \<Rightarrow> bool \<Rightarrow> estate \<Rightarrow> (bool \<times> estate) option" where
  "extent_coalesce en k inner outer forward s = do {
     s \<leftarrow> extent_activate_locked en k outer s;
     let (err, s) = extent_merge_impl en (if forward then inner else outer) (if forward then outer else inner) s;
     s \<leftarrow> (if err then extent_deactivate_locked en k outer s else Some s);
     Some (err, s)
   }"

text \<open>One direction of a pass: the neighbour that the extent was merged with, if any.\<close>

definition coalesce_neighbour ::
  "extent_env \<Rightarrow> extent_state \<Rightarrow> bool \<Rightarrow> uintptr \<Rightarrow> bool \<Rightarrow> estate \<Rightarrow> (uintptr option \<times> estate) option" where
  "coalesce_neighbour en k inactive_only extent forward s =
     (let addr = (if forward then extent_past_get (es_mem s extent) else extent_before_get (es_mem s extent))
      in case extent_lock_from_addr addr inactive_only s of
           None \<Rightarrow> Some (None, s)
         | Some n \<Rightarrow>
             if extent_can_coalesce en k extent n s
             then do {
               (err, s) \<leftarrow> extent_coalesce en k extent n forward s;
               Some (if err then None else Some n, s)
             }
             else Some (None, s))"

text \<open>The result has the extent and \<open>*coalesced\<close>, which is set only when coalescing is delayed.\<close>

partial_function (option) extent_try_coalesce_impl ::
  "extent_env \<Rightarrow> extent_state \<Rightarrow> bool \<Rightarrow> uintptr \<Rightarrow> estate \<Rightarrow> ((uintptr \<times> bool option) \<times> estate) option" where
  "extent_try_coalesce_impl en k inactive_only extent s = do {
     (next, s) \<leftarrow> coalesce_neighbour en k inactive_only extent True s;
     if next \<noteq> None \<and> ex_delay_coalesce (es_ex s k) then Some ((extent, Some True), s)
     else do {
       (prev, s) \<leftarrow> coalesce_neighbour en k inactive_only extent False s;
       let extent = (case prev of None \<Rightarrow> extent | Some prev \<Rightarrow> prev);
       if prev \<noteq> None \<and> ex_delay_coalesce (es_ex s k) then Some ((extent, Some True), s)
       else if next \<noteq> None \<or> prev \<noteq> None then extent_try_coalesce_impl en k inactive_only extent s
       else Some ((extent, if ex_delay_coalesce (es_ex s k) then Some False else None), s)
     }
   }"

definition extent_try_coalesce ::
  "extent_env \<Rightarrow> extent_state \<Rightarrow> uintptr \<Rightarrow> estate \<Rightarrow> ((uintptr \<times> bool option) \<times> estate) option" where
  "extent_try_coalesce en k extent s = extent_try_coalesce_impl en k False extent s"

definition extent_try_coalesce_large ::
  "extent_env \<Rightarrow> extent_state \<Rightarrow> uintptr \<Rightarrow> estate \<Rightarrow> ((uintptr \<times> bool option) \<times> estate) option" where
  "extent_try_coalesce_large en k extent s = extent_try_coalesce_impl en k True extent s"

section \<open>Recording\<close>

partial_function (option) coalesce_large_loop ::
  "extent_env \<Rightarrow> extent_state \<Rightarrow> uintptr \<Rightarrow> estate \<Rightarrow> (uintptr \<times> estate) option" where
  "coalesce_large_loop en k extent s = do {
     ((extent, coalesced), s) \<leftarrow> extent_try_coalesce_large en k extent s;
     if coalesced = Some True then coalesce_large_loop en k extent s else Some (extent, s)
   }"

definition extent_record :: "extent_env \<Rightarrow> extent_state \<Rightarrow> uintptr \<Rightarrow> estate \<Rightarrow> estate option" where
  "extent_record en k extent s = do {
     let s = mem_set s extent (extent_szind_set (es_mem s extent) (of_nat SC_NSIZES));
     let s = (if extent_slab_get (es_mem s extent)
              then (let s = extent_interior_deregister extent s
                    in mem_set s extent (extent_slab_set (es_mem s extent) False))
              else s);
     (extent, s) \<leftarrow>
       (if \<not> ex_delay_coalesce (es_ex s k)
        then do { ((extent, _), s) \<leftarrow> extent_try_coalesce en k extent s; Some (extent, s) }
        else if SC_LARGE_MINCLASS \<le> extent_size_get (es_mem s extent) then coalesce_large_loop en k extent s
        else Some (extent, s));
     extent_deactivate_locked en k extent s
   }"

definition extents_dalloc :: "extent_env \<Rightarrow> extent_state \<Rightarrow> uintptr \<Rightarrow> estate \<Rightarrow> estate option" where
  "extents_dalloc en k extent s = do {
     let s = mem_set s extent (extent_addr_set (es_mem s extent) (extent_base_get (es_mem s extent)));
     let s = mem_set s extent (extent_zeroed_set (es_mem s extent) False);
     extent_record en k extent s
   }"

section \<open>Recycling\<close>

definition extent_recycle_extract ::
  "extent_env \<Rightarrow> extent_state \<Rightarrow> uintptr \<Rightarrow> size_t \<Rightarrow> size_t \<Rightarrow> size_t \<Rightarrow> estate \<Rightarrow> (uintptr option \<times> estate) option" where
  "extent_recycle_extract en k new_addr req pad alignment s = do {
     let esize = req + pad;
     (extent, s) \<leftarrow>
       (if new_addr \<noteq> 0
        then Some (case extent_lock_from_addr new_addr False s of
               None \<Rightarrow> (None, s)
             | Some extent \<Rightarrow>
                 (if extent_arena_ind_get (es_mem s extent) \<noteq> ucast (en_ind en)
                     \<or> extent_size_get (es_mem s extent) < esize
                     \<or> extent_state_get (es_mem s extent) \<noteq> extents_state_get (es_ex s k)
                  then None else Some extent, s))
        else do {
          (extent, ex) \<leftarrow> extents_fit_locked (en_tabs en) (en_lg_fit en) (es_mem s) (es_ex s k) esize alignment;
          Some (extent, s\<lparr>es_ex := (es_ex s)(k := ex)\<rparr>)
        });
     case extent of
       None \<Rightarrow> Some (None, s)
     | Some e \<Rightarrow> do { s \<leftarrow> extent_activate_locked en k e s; Some (Some e, s) }
   }"

text \<open>In the case \<open>cant_alloc\<close> the code would read variables that are not initialised.\<close>

definition extent_recycle_split ::
  "extent_env \<Rightarrow> extent_state \<Rightarrow> size_t \<Rightarrow> size_t \<Rightarrow> size_t \<Rightarrow> bool \<Rightarrow> szind \<Rightarrow> uintptr \<Rightarrow> estate
    \<Rightarrow> (uintptr option \<times> estate) option" where
  "extent_recycle_split en k req pad alignment slab szind extent s = do {
     (result, s) \<leftarrow> extent_split_interior en extent req pad alignment slab szind s;
     case result of
       extent_split_interior_ok extent lead trail \<Rightarrow> do {
         s \<leftarrow> (case lead of None \<Rightarrow> Some s | Some lead \<Rightarrow> extent_deactivate en k lead s);
         s \<leftarrow> (case trail of None \<Rightarrow> Some s | Some trail \<Rightarrow> extent_deactivate en k trail s);
         Some (Some extent, s)
       }
     | extent_split_interior_cant_alloc \<Rightarrow> None
     | extent_split_interior_error to_leak to_salvage \<Rightarrow>
         (let s = (case to_salvage of None \<Rightarrow> s | Some e \<Rightarrow> extent_deregister e s);
              s = (case to_leak of None \<Rightarrow> s
                   | Some e \<Rightarrow> extents_leak en k e (extent_deregister_no_gdump_sub e s))
          in Some (None, s))
   }"

definition addr_randomize :: "uintptr \<Rightarrow> size_t \<Rightarrow> estate \<Rightarrow> estate option" where
  "addr_randomize extent alignment s = do {
     (st, e) \<leftarrow> extent_addr_randomize (es_offset s) (es_mem s extent) alignment;
     Some (mem_set (s\<lparr>es_offset := st\<rparr>) extent e)
   }"

text \<open>The last steps of an allocation, after \<open>commit\<close>. Whether purging has to zero the pages
  leaves no trace in the state.\<close>

definition recycle_commit ::
  "extent_env \<Rightarrow> extent_state \<Rightarrow> bool \<Rightarrow> uintptr \<Rightarrow> estate \<Rightarrow> (bool \<times> estate) option" where
  "recycle_commit en k commit extent s =
     (if commit \<and> \<not> extent_committed_get (es_mem s extent)
      then (let (err, s) = extent_commit_impl en extent s
            in if err then do { s \<leftarrow> extent_record en k extent s; Some (True, s) }
               else Some (False, mem_set s extent (extent_zeroed_set (es_mem s extent) True)))
      else Some (False, s))"

definition slab_register :: "bool \<Rightarrow> szind \<Rightarrow> uintptr \<Rightarrow> estate \<Rightarrow> estate" where
  "slab_register slab szind extent s =
     (if slab
      then (let s = mem_set s extent (extent_slab_set (es_mem s extent) slab)
            in extent_interior_register extent szind s)
      else s)"

definition extent_recycle ::
  "extent_env \<Rightarrow> extent_state \<Rightarrow> uintptr \<Rightarrow> size_t \<Rightarrow> size_t \<Rightarrow> size_t \<Rightarrow> bool \<Rightarrow> szind \<Rightarrow> bool \<Rightarrow> bool \<Rightarrow> estate
    \<Rightarrow> ((uintptr option \<times> bool \<times> bool) \<times> estate) option" where
  "extent_recycle en k new_addr req pad alignment slab szind zero commit s = do {
     (extent, s) \<leftarrow> extent_recycle_extract en k new_addr req pad alignment s;
     case extent of None \<Rightarrow> Some ((None, zero, commit), s)
     | Some extent \<Rightarrow> do {
         (extent, s) \<leftarrow> extent_recycle_split en k req pad alignment slab szind extent s;
         case extent of None \<Rightarrow> Some ((None, zero, commit), s)
         | Some extent \<Rightarrow> do {
             (err, s) \<leftarrow> recycle_commit en k commit extent s;
             if err then Some ((None, zero, commit), s)
             else do {
               let commit = (commit \<or> extent_committed_get (es_mem s extent));
               let zero = (zero \<or> extent_zeroed_get (es_mem s extent));
               s \<leftarrow> (if pad \<noteq> 0 then addr_randomize extent alignment s else Some s);
               Some ((Some extent, zero, commit), slab_register slab szind extent s)
             }
           }
       }
   }"

definition extents_alloc ::
  "extent_env \<Rightarrow> extent_state \<Rightarrow> uintptr \<Rightarrow> size_t \<Rightarrow> size_t \<Rightarrow> size_t \<Rightarrow> bool \<Rightarrow> szind \<Rightarrow> bool \<Rightarrow> bool \<Rightarrow> estate
    \<Rightarrow> ((uintptr option \<times> bool \<times> bool) \<times> estate) option" where
  "extents_alloc en k new_addr req pad alignment slab szind zero commit s =
     extent_recycle en k new_addr req pad alignment slab szind zero commit s"

definition extent_split_wrapper ::
  "extent_env \<Rightarrow> uintptr \<Rightarrow> size_t \<Rightarrow> szind \<Rightarrow> bool \<Rightarrow> size_t \<Rightarrow> szind \<Rightarrow> bool \<Rightarrow> estate \<Rightarrow> uintptr option \<times> estate" where
  "extent_split_wrapper en extent size_a szind_a slab_a size_b szind_b slab_b s =
     extent_split_impl en extent size_a szind_a slab_a size_b szind_b slab_b s"

definition extent_merge_wrapper :: "extent_env \<Rightarrow> uintptr \<Rightarrow> uintptr \<Rightarrow> estate \<Rightarrow> bool \<times> estate" where
  "extent_merge_wrapper en a b s = extent_merge_impl en a b s"

section \<open>Growing\<close>

text \<open>The series of sizes: the number of classes to skip to one that is large enough.\<close>

partial_function (option) grow_skip :: "sz_tabs \<Rightarrow> nat \<Rightarrow> size_t \<Rightarrow> nat \<Rightarrow> size_t \<Rightarrow> (nat \<times> size_t) option option" where
  "grow_skip t grow_next alloc_size_min egn_skip alloc_size =
     (if alloc_size < alloc_size_min then
        let egn_skip = egn_skip + 1
        in if sz_psz2ind SC_LARGE_MAXCLASS \<le> grow_next + egn_skip then Some None
           else do {
             alloc_size \<leftarrow> sz_pind2sz t (grow_next + egn_skip);
             grow_skip t grow_next alloc_size_min egn_skip alloc_size
           }
      else Some (Some (egn_skip, alloc_size)))"

definition record_opt :: "extent_env \<Rightarrow> extent_state \<Rightarrow> uintptr option \<Rightarrow> estate \<Rightarrow> estate option" where
  "record_opt en k e s = (case e of None \<Rightarrow> Some s | Some e \<Rightarrow> extent_record en k e s)"

definition extent_grow_retained ::
  "extent_env \<Rightarrow> size_t \<Rightarrow> size_t \<Rightarrow> size_t \<Rightarrow> bool \<Rightarrow> szind \<Rightarrow> bool \<Rightarrow> bool \<Rightarrow> estate
    \<Rightarrow> ((uintptr option \<times> bool \<times> bool) \<times> estate) option" where
  "extent_grow_retained en req pad alignment slab szind zero commit s =
     (let esize = req + pad;
          alloc_size_min = esize + PAGE_CEILING alignment - PAGE;
          label_err = (\<lambda>zero commit s. Some ((None, zero, commit), s))
      in if alloc_size_min < esize then label_err zero commit s
         else do {
           alloc_size \<leftarrow> sz_pind2sz (en_tabs en) (es_grow_next s + 0);
           found \<leftarrow> grow_skip (en_tabs en) (es_grow_next s) alloc_size_min 0 alloc_size;
           case found of None \<Rightarrow> label_err zero commit s
           | Some (egn_skip, alloc_size) \<Rightarrow>
             (let (extent, s) = extent_alloc s
              in if extent = 0 then label_err zero commit s
                 else
                   let ((ptr, zeroed, committed), s) = pop_map s;
                       (sn, s) = arena_extent_sn_next s;
                       s = mem_set s extent (extent_init (es_mem s extent) (Some (en_ind en)) ptr alloc_size False
                             (of_nat SC_NSIZES) sn extent_state_active zeroed committed True)
                   in if ptr = 0 then label_err zero commit (extent_dalloc extent s)
                      else
                        let (err, s) = extent_register_no_gdump_add extent s
                        in if err then label_err zero commit (extents_leak en extent_state_retained extent s)
                           else
                             let zero = (zero \<or> extent_zeroed_get (es_mem s extent) \<and> extent_committed_get (es_mem s extent));
                                 commit = (commit \<or> extent_committed_get (es_mem s extent))
                             in do {
                               (result, s) \<leftarrow> extent_split_interior en extent req pad alignment slab szind s;
                               case result of
                                 extent_split_interior_ok extent lead trail \<Rightarrow> do {
                                   s \<leftarrow> record_opt en extent_state_retained lead s;
                                   s \<leftarrow> record_opt en extent_state_retained trail s;
                                   (err, s) \<leftarrow> recycle_commit en extent_state_retained commit extent s;
                                   if err then label_err zero commit s
                                   else do {
                                     let s = s\<lparr>es_grow_next := (if es_grow_next s + egn_skip + 1 \<le> es_grow_limit s
                                                then es_grow_next s + (egn_skip + 1) else es_grow_limit s)\<rparr>;
                                     s \<leftarrow> (if pad \<noteq> 0 then addr_randomize extent alignment s else Some s);
                                     Some ((Some extent, zero, commit), slab_register slab szind extent s)
                                   }
                                 }
                               | extent_split_interior_cant_alloc \<Rightarrow> None
                               | extent_split_interior_error to_leak to_salvage \<Rightarrow> do {
                                   s \<leftarrow> record_opt en extent_state_retained to_salvage s;
                                   let s = (case to_leak of None \<Rightarrow> s
                                     | Some e \<Rightarrow> extents_leak en extent_state_retained e (extent_deregister_no_gdump_sub e s));
                                   label_err zero commit s
                                 }
                             })
         })"

definition extent_alloc_retained ::
  "extent_env \<Rightarrow> uintptr \<Rightarrow> size_t \<Rightarrow> size_t \<Rightarrow> size_t \<Rightarrow> bool \<Rightarrow> szind \<Rightarrow> bool \<Rightarrow> bool \<Rightarrow> estate
    \<Rightarrow> ((uintptr option \<times> bool \<times> bool) \<times> estate) option" where
  "extent_alloc_retained en new_addr req pad alignment slab szind zero commit s = do {
     ((extent, zero, commit), s) \<leftarrow>
       extent_recycle en extent_state_retained new_addr req pad alignment slab szind zero commit s;
     if extent \<noteq> None then Some ((extent, zero, commit), s)
     else if en_retain en \<and> new_addr = 0 then extent_grow_retained en req pad alignment slab szind zero commit s
     else Some ((None, zero, commit), s)
   }"

definition extent_alloc_wrapper_hard ::
  "extent_env \<Rightarrow> uintptr \<Rightarrow> size_t \<Rightarrow> size_t \<Rightarrow> size_t \<Rightarrow> bool \<Rightarrow> szind \<Rightarrow> bool \<Rightarrow> bool \<Rightarrow> estate
    \<Rightarrow> ((uintptr option \<times> bool \<times> bool) \<times> estate) option" where
  "extent_alloc_wrapper_hard en new_addr req pad alignment slab szind zero commit s =
     (let esize = req + pad;
          (extent, s) = extent_alloc s
      in if extent = 0 then Some ((None, zero, commit), s)
         else
           let ((addr, zero, commit), s) = pop_map s
           in if addr = 0 then Some ((None, zero, commit), extent_dalloc extent s)
              else
                let (sn, s) = arena_extent_sn_next s;
                    s = mem_set s extent (extent_init (es_mem s extent) (Some (en_ind en)) addr esize slab szind sn
                          extent_state_active zero commit True)
                in do {
                  s \<leftarrow> (if pad \<noteq> 0 then addr_randomize extent alignment s else Some s);
                  let (err, s) = extent_register extent s;
                  if err then Some ((None, zero, commit), extents_leak en extent_state_retained extent s)
                  else Some ((Some extent, zero, commit), s)
                })"

definition extent_alloc_wrapper ::
  "extent_env \<Rightarrow> uintptr \<Rightarrow> size_t \<Rightarrow> size_t \<Rightarrow> size_t \<Rightarrow> bool \<Rightarrow> szind \<Rightarrow> bool \<Rightarrow> bool \<Rightarrow> estate
    \<Rightarrow> ((uintptr option \<times> bool \<times> bool) \<times> estate) option" where
  "extent_alloc_wrapper en new_addr req pad alignment slab szind zero commit s = do {
     ((extent, zero, commit), s) \<leftarrow> extent_alloc_retained en new_addr req pad alignment slab szind zero commit s;
     if extent = None
     then if en_retain en \<and> new_addr \<noteq> 0 then Some ((None, zero, commit), s)
          else extent_alloc_wrapper_hard en new_addr req pad alignment slab szind zero commit s
     else Some ((extent, zero, commit), s)
   }"

section \<open>Deallocation\<close>

definition extent_may_dalloc :: "extent_env \<Rightarrow> bool" where
  "extent_may_dalloc en \<longleftrightarrow> \<not> en_retain en"

definition extent_dalloc_wrapper_try :: "extent_env \<Rightarrow> uintptr \<Rightarrow> estate \<Rightarrow> bool \<times> estate" where
  "extent_dalloc_wrapper_try en extent s =
     (let s = mem_set s extent (extent_addr_set (es_mem s extent) (extent_base_get (es_mem s extent)));
          (err, s) = (if \<not> hk_default (en_hooks en) \<and> \<not> hk_dalloc (en_hooks en) then (True, s) else pop_out s)
      in (err, if \<not> err then extent_dalloc extent s else s))"

text \<open>Decommit, or purge; the pages are zeroed after the first two.\<close>

definition dalloc_purge :: "extent_env \<Rightarrow> uintptr \<Rightarrow> estate \<Rightarrow> bool \<times> estate" where
  "dalloc_purge en extent s =
     (if \<not> extent_committed_get (es_mem s extent) then (True, s)
      else
        let (err, s) = extent_decommit_wrapper en extent s
        in if \<not> err then (True, s)
           else
             let (err, s) = extent_purge_forced_impl en s
             in if \<not> err then (True, s)
                else if extent_state_get (es_mem s extent) = extent_state_muzzy then (False, s)
                else (False, snd (extent_purge_lazy_impl en s)))"

definition extent_dalloc_wrapper :: "extent_env \<Rightarrow> uintptr \<Rightarrow> estate \<Rightarrow> estate option" where
  "extent_dalloc_wrapper en extent s =
     (let (done, s) =
        (if \<not> hk_default (en_hooks en) \<or> extent_may_dalloc en
         then (let (err, s) = extent_dalloc_wrapper_try en extent (extent_deregister extent s)
               in if \<not> err then (True, s) else (False, extent_reregister extent s))
         else (False, s))
      in if done then Some s
         else
           let (zeroed, s) = dalloc_purge en extent s
           in extent_record en extent_state_retained extent
                (mem_set s extent (extent_zeroed_set (es_mem s extent) zeroed)))"

definition extent_dalloc_gap :: "extent_env \<Rightarrow> uintptr \<Rightarrow> estate \<Rightarrow> estate option" where
  "extent_dalloc_gap en extent s =
     (let (err, s) = extent_register extent s
      in if err then Some (extents_leak en extent_state_retained extent s)
         else extent_dalloc_wrapper en extent s)"

definition extent_destroy_wrapper :: "uintptr \<Rightarrow> estate \<Rightarrow> estate" where
  "extent_destroy_wrapper extent s =
     (let s = extent_deregister extent s;
          s = mem_set s extent (extent_addr_set (es_mem s extent) (extent_base_get (es_mem s extent)))
      in extent_dalloc extent s)"

section \<open>Eviction\<close>

definition extent_try_delayed_coalesce ::
  "extent_env \<Rightarrow> extent_state \<Rightarrow> uintptr \<Rightarrow> estate \<Rightarrow> ((bool \<times> uintptr) \<times> estate) option" where
  "extent_try_delayed_coalesce en k extent s = do {
     let s = mem_set s extent (extent_state_set (es_mem s extent) extent_state_active);
     ((e, coalesced), s) \<leftarrow> extent_try_coalesce en k extent s;
     let s = mem_set s e (extent_state_set (es_mem s e) (extents_state_get (es_ex s k)));
     if coalesced \<noteq> Some True then Some ((True, e), s)
     else do {
       ex \<leftarrow> extents_insert_locked (en_tabs en) (es_mem s) (es_ex s k) e;
       Some ((False, e), s\<lparr>es_ex := (es_ex s)(k := ex)\<rparr>)
     }
   }"

partial_function (option) evict_loop ::
  "extent_env \<Rightarrow> extent_state \<Rightarrow> size_t \<Rightarrow> estate \<Rightarrow> (uintptr option \<times> estate) option" where
  "evict_loop en k npages_min s =
     (case ex_lru (es_ex s k) of
        [] \<Rightarrow> Some (None, s)
      | extent # _ \<Rightarrow>
          if extents_npages_get (es_ex s k) \<le> npages_min then Some (None, s)
          else do {
            ex \<leftarrow> extents_remove_locked (en_tabs en) (es_mem s) (es_ex s k) extent;
            let s = s\<lparr>es_ex := (es_ex s)(k := ex)\<rparr>;
            if \<not> ex_delay_coalesce (es_ex s k) then Some (Some extent, s)
            else do {
              ((r, _), s) \<leftarrow> extent_try_delayed_coalesce en k extent s;
              if r then Some (Some extent, s) else evict_loop en k npages_min s
            }
          })"

definition extents_evict ::
  "extent_env \<Rightarrow> extent_state \<Rightarrow> size_t \<Rightarrow> estate \<Rightarrow> (uintptr option \<times> estate) option" where
  "extents_evict en k npages_min s = do {
     (extent, s) \<leftarrow> evict_loop en k npages_min s;
     case extent of
       None \<Rightarrow> Some (None, s)
     | Some e \<Rightarrow>
         (case extents_state_get (es_ex s k) of
            extent_state_active \<Rightarrow> None
          | extent_state_retained \<Rightarrow> Some (Some e, extent_deregister e s)
          | _ \<Rightarrow> Some (Some e, mem_set s e (extent_state_set (es_mem s e) extent_state_active)))
   }"

end
