(* ===== verification/Extent_Inv.thy ===== *)
theory Extent_Inv
  imports Extent_Ops
begin

text \<open>
  The invariant of the extents of an arena and the operations that keep it: the extents in use, in
  the collections and of other arenas are disjoint; exactly their end pages, and all pages of
  slabs, are registered; the collections are well formed; and free descriptors are in use nowhere.
\<close>

section \<open>Reading descriptors\<close>

lemma get_view:
  "extent_size_get e = ev_size (extent_view e)" "extent_addr_get e = ev_addr (extent_view e)"
  "extent_base_get e = PAGE_ADDR2BASE (ev_addr (extent_view e))" "extent_state_get e = ev_state (extent_view e)"
  "extent_slab_get e = ev_slab (extent_view e)" "extent_committed_get e = ev_committed (extent_view e)"
  "extent_zeroed_get e = ev_zeroed (extent_view e)" "extent_dumpable_get e = ev_dumpable (extent_view e)"
  "extent_esn_get e = ev_esn (extent_view e)"
  by (simp_all add: extent_view_def extent_base_get_def extent_addr_get_def)

lemmas view_sets = view_slab_set view_committed_set view_dumpable_set view_zeroed_set view_state_set view_sn_set
  view_addr_set

lemma arena_ind_view: "extent_arena_ind_get e = ucast (i :: 32 word) \<longleftrightarrow> ev_arena (extent_view e) = unat i"
  by (simp add: extent_view_def word_unat_eq_iff unat_ucast_up)

lemma size_ok: "4096 dvd unat w \<Longrightarrow> w AND NOT EXTENT_SIZE_MASK = 0"
proof -
  assume "4096 dvd unat w"
  then have "unat w mod 2 ^ 12 = 0" by (simp add: dvd_eq_mod_eq_0)
  then have "unat (take_bit 12 w) = 0" by (simp only: unat_take_bit)
  then have "take_bit 12 w = 0" by (simp add: unat_eq_0)
  then show ?thesis by (simp add: PAGE_masks take_bit_eq_mask)
qed

lemma szind_ok: "unat szind \<le> SC_NSIZES \<Longrightarrow> unat szind < 2 ^ 8" for szind :: szind
  by (simp add: sc_macro_values(1))

lemma nsizes_ok: "unat (of_nat SC_NSIZES :: szind) \<le> SC_NSIZES"
  by (simp add: sc_macro_values(1))

lemma view_init:
  assumes "unat ind < 2 ^ 12" "unat szind \<le> SC_NSIZES" "4096 dvd unat sz"
  shows "extent_view (extent_init e (Some ind) addr sz slab szind sn state zeroed committed dumpable)
    = (extent_view e)\<lparr>ev_arena := unat ind, ev_slab := slab, ev_committed := committed, ev_dumpable := dumpable,
       ev_zeroed := zeroed, ev_state := state, ev_szind := unat szind, ev_sn := unat sn mod 2 ^ 28, ev_addr := addr,
       ev_size := sz\<rparr>"
  using assms(1) szind_ok [OF assms(2)] size_ok [OF assms(3)]
  by (simp only: extent_init_def Let_def view_arena_set view_addr_set view_size_set view_slab_set
      view_szind_set view_sn_set view_state_set view_zeroed_set view_committed_set view_dumpable_set) simp

lemma self_sets [simp]:
  "e_self (extent_state_set e st) = e_self e" "e_self (extent_slab_set e b) = e_self e"
  "e_self (extent_zeroed_set e b) = e_self e" "e_self (extent_committed_set e b) = e_self e"
  "e_self (extent_szind_set e i) = e_self e" "e_self (extent_sn_set e sn) = e_self e"
  "e_self (extent_size_set e w) = e_self e" "e_self (extent_addr_set e a) = e_self e"
  by (simp_all add: extent_state_set_def extent_slab_set_def extent_zeroed_set_def extent_committed_set_def
      extent_szind_set_def extent_sn_set_def extent_size_set_def extent_addr_set_def)

section \<open>Geometry\<close>

text \<open>The first page, the number of pages and the last page of an extent.\<close>

definition fpg :: "extent \<Rightarrow> nat" where "fpg e = unat (extent_base_get e) div 4096"
definition npg :: "extent \<Rightarrow> nat" where "npg e = unat (extent_size_get e) div 4096"
definition lpg :: "extent \<Rightarrow> nat" where "lpg e = fpg e + npg e - 1"

definition ext_ok :: "extent \<Rightarrow> bool" where
  "ext_ok e \<longleftrightarrow> page_size (extent_size_get e) \<and> 1 \<le> fpg e \<and> fpg e + npg e \<le> 2 ^ 35"

definition apart :: "extent \<Rightarrow> extent \<Rightarrow> bool" where
  "apart e e' \<longleftrightarrow> fpg e + npg e \<le> fpg e' \<or> fpg e' + npg e' \<le> fpg e"

definition same_span :: "extent \<Rightarrow> extent \<Rightarrow> bool" where
  "same_span e e' \<longleftrightarrow> fpg e = fpg e' \<and> npg e = npg e' \<and> extent_size_get e = extent_size_get e'"

lemma unat_base: "unat (extent_base_get e) = 4096 * fpg e"
  using base_page [of e] by (simp add: fpg_def)

lemma ext_okD:
  assumes "ext_ok e"
  shows "unat (extent_size_get e) = 4096 * npg e" "1 \<le> npg e" "1 \<le> fpg e" "fpg e + npg e \<le> 2 ^ 35"
    "fpg e \<le> lpg e" "lpg e < 2 ^ 35" "fpg e + npg e = Suc (lpg e)"
proof -
  show u: "unat (extent_size_get e) = 4096 * npg e" using assms by (simp add: ext_ok_def page_size_def npg_def)
  have "0 < unat (extent_size_get e)" using assms by (simp add: ext_ok_def page_size_def)
  with u show n: "1 \<le> npg e" by simp
  show "1 \<le> fpg e" "fpg e + npg e \<le> 2 ^ 35" using assms by (simp_all add: ext_ok_def)
  with n show "fpg e \<le> lpg e" "lpg e < 2 ^ 35" "fpg e + npg e = Suc (lpg e)" by (simp_all add: lpg_def)
qed

lemma ext_ok_span: "same_span e e' \<Longrightarrow> ext_ok e = ext_ok e'"
  by (simp add: ext_ok_def same_span_def)

lemma page_number_eq:
  assumes "unat a = 4096 * n" "n < 2 ^ 36"
  shows "page_number a = of_nat n"
proof -
  have "unat (page_number a) = take_bit 36 (unat a div 4096)"
    by (simp add: page_number_def rtree_config LG_PAGE_def unsigned_take_bit_eq unat_drop_bit_div)
  also have "\<dots> = n" using assms by (simp add: take_bit_nat_eq_self)
  finally show ?thesis using assms(2) by (simp add: word_unat_eq_iff unat_of_nat_eq)
qed

lemma page_numbers:
  assumes "ext_ok e"
  shows "page_number (extent_base_get e) = of_nat (fpg e)" "page_number (extent_last_get e) = of_nat (lpg e)"
    "page_number (extent_past_get e) = of_nat (fpg e + npg e)" "page_number (extent_before_get e) = of_nat (fpg e - 1)"
    "page_number (extent_past_get e - PAGE) = of_nat (lpg e)"
    "i < npg e \<Longrightarrow> page_number (extent_base_get e + push_bit LG_PAGE (of_nat i)) = of_nat (fpg e + i)"
proof -
  note d = ext_okD [OF assms]
  have pg: "unat PAGE = 4096" by (simp add: PAGE_def LG_PAGE_def)
  have past: "unat (extent_past_get e) = 4096 * (fpg e + npg e)"
    unfolding extent_past_get_def using d(1,4) unat_base [of e] by (subst unat_add_eq) simp_all
  have last: "unat (extent_past_get e - PAGE) = 4096 * lpg e"
    using past pg d(7) by (subst unat_diff_eq) simp_all
  show "page_number (extent_base_get e) = of_nat (fpg e)"
    using unat_base d(4) by (intro page_number_eq) simp_all
  show "page_number (extent_past_get e) = of_nat (fpg e + npg e)"
    using past d(4) by (intro page_number_eq) simp_all
  show l: "page_number (extent_past_get e - PAGE) = of_nat (lpg e)"
    using last d(6) by (intro page_number_eq) simp_all
  then show "page_number (extent_last_get e) = of_nat (lpg e)" by (simp add: extent_last_get_def extent_past_get_def)
  have "unat (extent_before_get e) = 4096 * (fpg e - 1)"
    unfolding extent_before_get_def using unat_base [of e] pg d(3) by (subst unat_diff_eq) (simp_all add: algebra_simps)
  then show "page_number (extent_before_get e) = of_nat (fpg e - 1)"
    using d(4) by (intro page_number_eq) simp_all
  assume i: "i < npg e"
  then have "unat (push_bit LG_PAGE (of_nat i) :: 64 word) = i * 2 ^ 12"
    using d(4) by (simp add: LG_PAGE_def unat_push_bit_eq unat_of_nat_eq)
  then have "unat (extent_base_get e + push_bit LG_PAGE (of_nat i)) = 4096 * (fpg e + i)"
    using unat_base [of e] d(4) i by (subst unat_add_eq) simp_all
  then show "page_number (extent_base_get e + push_bit LG_PAGE (of_nat i)) = of_nat (fpg e + i)"
    using d(4) i by (intro page_number_eq) simp_all
qed

lemma interior_eq: "ext_ok e \<Longrightarrow> interior e = [1..<npg e - 1]"
proof -
  assume "ext_ok e"
  note d = ext_okD [OF this]
  have "unat (drop_bit LG_PAGE (extent_size_get e)) = npg e" using d(1) by (simp add: LG_PAGE_def unat_drop_bit_div)
  then have "unat (drop_bit LG_PAGE (extent_size_get e) - 1) = npg e - 1" using d(2) by (subst unat_diff_eq) simp_all
  then show ?thesis by (simp add: interior_def)
qed

section \<open>Ownership of pages\<close>

text \<open>The position in the series of sizes stays inside it.\<close>

definition grow_bound :: "estate \<Rightarrow> bool" where
  "grow_bound s \<longleftrightarrow> es_grow_next s \<le> 198 \<and> es_grow_limit s \<le> 198"

lemma grow_bound_upd [simp]:
  "grow_bound (s\<lparr>es_mem := a\<rparr>) = grow_bound s" "grow_bound (s\<lparr>es_pages := b\<rparr>) = grow_bound s"
  "grow_bound (s\<lparr>es_avail := c\<rparr>) = grow_bound s" "grow_bound (s\<lparr>es_avail_cnt := d\<rparr>) = grow_bound s"
  "grow_bound (s\<lparr>es_ex := f\<rparr>) = grow_bound s" "grow_bound (s\<lparr>es_sn_next := d\<rparr>) = grow_bound s"
  "grow_bound (s\<lparr>es_offset := g\<rparr>) = grow_bound s" "grow_bound (s\<lparr>es_descs := ds\<rparr>) = grow_bound s"
  "grow_bound (s\<lparr>es_maps := ms\<rparr>) = grow_bound s" "grow_bound (s\<lparr>es_outs := os\<rparr>) = grow_bound s"
  by (simp_all add: grow_bound_def)

definition own :: "rtree_map \<Rightarrow> nat \<Rightarrow> uintptr option" where
  "own P n = map_option fst (P (of_nat n))"

lemma of_nat_64_eq: "n < 2 ^ 64 \<Longrightarrow> m < 2 ^ 64 \<Longrightarrow> (of_nat n :: 64 word) = of_nat m \<longleftrightarrow> n = m"
proof -
  assume "n < 2 ^ 64" "m < 2 ^ 64"
  then have "unat (of_nat n :: 64 word) = n" "unat (of_nat m :: 64 word) = m" by (simp_all add: unat_of_nat_eq)
  then show ?thesis by metis
qed

lemma own_write: "n < 2 ^ 64 \<Longrightarrow> m < 2 ^ 64 \<Longrightarrow>
    own (es_pages (page_write (of_nat m) d szind slab s)) n =
    (if n = m then if d = 0 then None else Some d else own (es_pages s) n)"
  by (simp add: own_def page_write_def of_nat_64_eq del: of_nat_eq_iff)

lemma page_write_other [simp]:
  "es_mem (page_write p d i b s) = es_mem s" "es_avail (page_write p d i b s) = es_avail s"
  "es_avail_cnt (page_write p d i b s) = es_avail_cnt s" "es_ex (page_write p d i b s) = es_ex s"
  "es_sn_next (page_write p d i b s) = es_sn_next s" "es_grow_next (page_write p d i b s) = es_grow_next s"
  "es_grow_limit (page_write p d i b s) = es_grow_limit s" "es_offset (page_write p d i b s) = es_offset s"
  "es_descs (page_write p d i b s) = es_descs s" "es_maps (page_write p d i b s) = es_maps s"
  "es_outs (page_write p d i b s) = es_outs s" "grow_bound (page_write p d i b s) = grow_bound s"
  by (simp_all add: page_write_def)

text \<open>Steps that touch the page map only.\<close>

definition pages_only :: "estate \<Rightarrow> estate \<Rightarrow> bool" where
  "pages_only s s' \<longleftrightarrow> s' = s\<lparr>es_pages := es_pages s'\<rparr>"

lemma pages_only_refl [simp]: "pages_only s s" by (simp add: pages_only_def)

lemma pages_only_write: "pages_only s s' \<Longrightarrow> pages_only s (page_write p d i b s')"
  unfolding pages_only_def page_write_def by (cases s; cases s') simp

lemma pages_onlyD: "pages_only s s' \<Longrightarrow> es_mem s' = es_mem s \<and> es_avail s' = es_avail s \<and> es_ex s' = es_ex s
    \<and> es_avail_cnt s' = es_avail_cnt s \<and> es_sn_next s' = es_sn_next s \<and> es_grow_next s' = es_grow_next s
    \<and> es_grow_limit s' = es_grow_limit s \<and> es_offset s' = es_offset s \<and> es_descs s' = es_descs s
    \<and> es_maps s' = es_maps s \<and> es_outs s' = es_outs s \<and> grow_bound s' = grow_bound s"
  unfolding pages_only_def by (cases s; cases s') (simp add: grow_bound_def)

lemma write_acquired:
  "pages_only s (extent_rtree_write_acquired (of_nat a) (Some (of_nat b)) d szind slab s)"
  "n < 2 ^ 64 \<Longrightarrow> a < 2 ^ 64 \<Longrightarrow> b < 2 ^ 64 \<Longrightarrow>
    own (es_pages (extent_rtree_write_acquired (of_nat a) (Some (of_nat b)) d szind slab s)) n =
    (if n = a \<or> n = b then if d = 0 then None else Some d else own (es_pages s) n)"
  by (auto simp: extent_rtree_write_acquired_def pages_only_write own_write Let_def)

lemma fold_interior:
  assumes "\<And>i. i \<in> set is \<Longrightarrow> f i = of_nat (g i)" "\<And>i. i \<in> set is \<Longrightarrow> g i < 2 ^ 64" "n < 2 ^ 64"
  shows "pages_only s (fold (\<lambda>i. page_write (f i) d szind slab) is s)"
    "own (es_pages (fold (\<lambda>i. page_write (f i) d szind slab) is s)) n =
      (if n \<in> g ` set is then if d = 0 then None else Some d else own (es_pages s) n)"
proof -
  have gen: "pages_only s0 s \<Longrightarrow> pages_only s0 (fold (\<lambda>i. page_write (f i) d szind slab) is s)" for s0 s "is"
    by (induction "is" arbitrary: s) (simp_all add: pages_only_write)
  then show "pages_only s (fold (\<lambda>i. page_write (f i) d szind slab) is s)" by simp
  show "own (es_pages (fold (\<lambda>i. page_write (f i) d szind slab) is s)) n =
      (if n \<in> g ` set is then if d = 0 then None else Some d else own (es_pages s) n)"
    using assms by (induction "is" arbitrary: s) (auto simp: own_write)
qed

lemma interior_register:
  assumes "ext_ok (es_mem s d)" "n < 2 ^ 64"
  shows "pages_only s (extent_interior_register d szind s)"
    "own (es_pages (extent_interior_register d szind s)) n =
      (if fpg (es_mem s d) < n \<and> n < lpg (es_mem s d) then if d = 0 then None else Some d else own (es_pages s) n)"
    "pages_only s (extent_interior_deregister d s)"
    "own (es_pages (extent_interior_deregister d s)) n =
      (if fpg (es_mem s d) < n \<and> n < lpg (es_mem s d) then None else own (es_pages s) n)"
proof -
  let ?e = "es_mem s d"
  note k = ext_okD [OF assms(1)]
  have f: "page_number (extent_base_get ?e + push_bit LG_PAGE (of_nat i)) = of_nat (fpg ?e + i)"
    "fpg ?e + i < 2 ^ 64" if "i \<in> set (interior ?e)" for i
    using that page_numbers(6) [OF assms(1), of i] k(4) by (auto simp: interior_eq [OF assms(1)])
  have img: "n \<in> (\<lambda>i. fpg ?e + i) ` set (interior ?e) \<longleftrightarrow> fpg ?e < n \<and> n < lpg ?e"
  proof
    assume "n \<in> (\<lambda>i. fpg ?e + i) ` set (interior ?e)"
    then show "fpg ?e < n \<and> n < lpg ?e" by (auto simp: interior_eq [OF assms(1)] lpg_def)
  next
    assume "fpg ?e < n \<and> n < lpg ?e"
    then have "n = fpg ?e + (n - fpg ?e)" "n - fpg ?e \<in> set (interior ?e)"
      by (auto simp: interior_eq [OF assms(1)] lpg_def)
    then show "n \<in> (\<lambda>i. fpg ?e + i) ` set (interior ?e)" by blast
  qed
  have po: "pages_only s (fold (\<lambda>i. page_write (page_number (extent_base_get ?e + push_bit LG_PAGE (of_nat i))) a i' b)
        (interior ?e) s)"
    and ow: "own (es_pages (fold (\<lambda>i. page_write (page_number (extent_base_get ?e + push_bit LG_PAGE (of_nat i))) a i' b)
        (interior ?e) s)) n = (if fpg ?e < n \<and> n < lpg ?e then if a = 0 then None else Some a else own (es_pages s) n)" for a i' b
    unfolding img [symmetric]
    by (rule fold_interior [where g = "\<lambda>i. fpg ?e + i"], erule f(1), erule f(2), rule assms(2))+
  show "pages_only s (extent_interior_register d szind s)" "pages_only s (extent_interior_deregister d s)"
    by (simp_all only: extent_interior_register_def extent_interior_deregister_def Let_def po)
  show "own (es_pages (extent_interior_register d szind s)) n =
      (if fpg ?e < n \<and> n < lpg ?e then if d = 0 then None else Some d else own (es_pages s) n)"
    "own (es_pages (extent_interior_deregister d s)) n = (if fpg ?e < n \<and> n < lpg ?e then None else own (es_pages s) n)"
    by (simp_all only: extent_interior_register_def extent_interior_deregister_def Let_def ow simp_thms if_True)
qed

section \<open>Disjoint registered extents\<close>

text \<open>\<open>U\<close> are the registered extents, \<open>I\<close> those whose interior is registered too.\<close>

definition covers :: "uintptr set \<Rightarrow> uintptr \<Rightarrow> extent \<Rightarrow> nat \<Rightarrow> bool" where
  "covers I d e n \<longleftrightarrow> n = fpg e \<or> n = lpg e \<or> d \<in> I \<and> fpg e < n \<and> n < lpg e"

definition geo :: "(uintptr \<Rightarrow> extent) \<Rightarrow> (nat \<Rightarrow> uintptr option) \<Rightarrow> uintptr set \<Rightarrow> uintptr set \<Rightarrow> bool" where
  "geo mem ow U I \<longleftrightarrow> finite U \<and> 0 \<notin> U \<and> I \<subseteq> U \<and> (\<forall>d\<in>U. ext_ok (mem d))
     \<and> (\<forall>d\<in>U. \<forall>e\<in>U. d \<noteq> e \<longrightarrow> apart (mem d) (mem e))
     \<and> (\<forall>n<2 ^ 64. \<forall>d. ow n = Some d \<longleftrightarrow> d \<in> U \<and> covers I d (mem d) n)"

lemma geoD:
  assumes "geo mem ow U I"
  shows "finite U" "0 \<notin> U" "I \<subseteq> U" "d \<in> U \<Longrightarrow> ext_ok (mem d)"
    "d \<in> U \<Longrightarrow> e \<in> U \<Longrightarrow> d \<noteq> e \<Longrightarrow> apart (mem d) (mem e)"
    "n < 2 ^ 64 \<Longrightarrow> ow n = Some d \<longleftrightarrow> d \<in> U \<and> covers I d (mem d) n"
  using assms unfolding geo_def by blast+

lemma covers_span: "same_span e e' \<Longrightarrow> covers I d e n = covers I d e' n"
  by (simp add: covers_def same_span_def lpg_def)

lemma covers_within: "ext_ok e \<Longrightarrow> covers I d e n \<Longrightarrow> fpg e \<le> n \<and> n \<le> lpg e"
  using ext_okD(5) [of e] by (auto simp: covers_def)

lemma apart_span: "same_span e1 e1' \<Longrightarrow> same_span e2 e2' \<Longrightarrow> apart e1 e2 = apart e1' e2'"
  by (simp add: apart_def same_span_def)

lemma apart_sym: "apart e e' = apart e' e" by (auto simp: apart_def)

lemma geo_frame:
  assumes "geo mem ow U I" "\<And>d. d \<in> U \<Longrightarrow> same_span (mem' d) (mem d)"
  shows "geo mem' ow U I"
proof -
  have "ext_ok (mem' d)" if "d \<in> U" for d using geoD(4) [OF assms(1) that] ext_ok_span [OF assms(2) [OF that]] by simp
  moreover have "apart (mem' d) (mem' e)" if "d \<in> U" "e \<in> U" "d \<noteq> e" for d e
    using geoD(5) [OF assms(1) that] apart_span [OF assms(2) [OF that(1)] assms(2) [OF that(2)]] by simp
  moreover have "ow n = Some d \<longleftrightarrow> d \<in> U \<and> covers I d (mem' d) n" if "n < 2 ^ 64" for n d
    using geoD(6) [OF assms(1) that] covers_span [OF assms(2)] by blast
  ultimately show ?thesis using geoD(1-3) [OF assms(1)] unfolding geo_def by blast
qed

lemma geo_cong: "geo mem ow U I \<Longrightarrow> (\<And>n. n < 2 ^ 64 \<Longrightarrow> ow' n = ow n) \<Longrightarrow> geo mem ow' U I"
  unfolding geo_def by simp

lemma geo_unowned:
  assumes "geo mem ow U I" "d \<in> U" "n < 2 ^ 64" "fpg (mem d) \<le> n" "n \<le> lpg (mem d)" "\<not> covers I d (mem d) n"
  shows "ow n = None"
proof (rule ccontr)
  assume "ow n \<noteq> None"
  then obtain e where e: "ow n = Some e" by auto
  then have e: "e \<in> U" "covers I e (mem e) n" using geoD(6) [OF assms(1,3)] by simp_all
  then have "e \<noteq> d" using assms(6) by auto
  from geoD(5) [OF assms(1) e(1) assms(2) this] covers_within [OF geoD(4) [OF assms(1) e(1)] e(2)] assms(4,5)
    ext_okD(7) [OF geoD(4) [OF assms(1) e(1)]] ext_okD(7) [OF geoD(4) [OF assms(1,2)]]
  show False unfolding apart_def by linarith
qed

lemma geo_add:
  assumes "geo mem ow U I" "d \<notin> U" "d \<noteq> 0" "ext_ok (mem d)" "\<And>e. e \<in> U \<Longrightarrow> apart (mem d) (mem e)"
    and "\<And>n. n < 2 ^ 64 \<Longrightarrow> ow' n = (if n = fpg (mem d) \<or> n = lpg (mem d) then Some d else ow n)"
  shows "geo mem ow' (insert d U) I"
proof -
  have d: "d \<notin> I" using assms(2) geoD(3) [OF assms(1)] by blast
  have "ow' n = Some e \<longleftrightarrow> e \<in> insert d U \<and> covers I e (mem e) n" if n: "n < 2 ^ 64" for n e
  proof (cases "n = fpg (mem d) \<or> n = lpg (mem d)")
    case True
    have "\<not> covers I e (mem e) n" if "e \<in> U" for e
    proof
      assume "covers I e (mem e) n"
      from covers_within [OF geoD(4) [OF assms(1) that] this] assms(5) [OF that] True
        ext_okD(7,5) [OF assms(4)] ext_okD(7) [OF geoD(4) [OF assms(1) that]]
      show False unfolding apart_def by linarith
    qed
    moreover have "covers I d (mem d) n" using True by (auto simp: covers_def)
    ultimately show ?thesis using True assms(6) [OF n] by auto
  next
    case False
    then have "\<not> covers I d (mem d) n" using d by (simp add: covers_def)
    with False assms(2,6) n geoD(6) [OF assms(1) n, of e] show ?thesis by auto
  qed
  moreover have "apart (mem x) (mem y)" if "x \<in> insert d U" "y \<in> insert d U" "x \<noteq> y" for x y
    using that assms(5) geoD(5) [OF assms(1)] apart_sym by blast
  ultimately show ?thesis using assms(2-4) geoD(1-4) [OF assms(1)] unfolding geo_def by auto
qed

lemma geo_remove:
  assumes "geo mem ow U I" "d \<in> U"
    and "\<And>n. n < 2 ^ 64 \<Longrightarrow> ow' n = (if fpg (mem d) \<le> n \<and> n \<le> lpg (mem d) then None else ow n)"
  shows "geo mem ow' (U - {d}) (I - {d})"
proof -
  have "ow' n = Some e \<longleftrightarrow> e \<in> U - {d} \<and> covers (I - {d}) e (mem e) n" if n: "n < 2 ^ 64" for n e
  proof (cases "fpg (mem d) \<le> n \<and> n \<le> lpg (mem d)")
    case True
    have "\<not> covers I e (mem e) n" if "e \<in> U" "e \<noteq> d" for e
    proof
      assume "covers I e (mem e) n"
      from covers_within [OF geoD(4) [OF assms(1) that(1)] this] geoD(5) [OF assms(1) that(1) assms(2) that(2)] True
        ext_okD(7) [OF geoD(4) [OF assms(1) that(1)]] ext_okD(7) [OF geoD(4) [OF assms(1,2)]]
      show False unfolding apart_def by linarith
    qed
    with True assms(3) [OF n] show ?thesis by (auto simp: covers_def)
  next
    case False
    then have "ow n \<noteq> Some d"
      using geoD(6) [OF assms(1) n, of d] covers_within [OF geoD(4) [OF assms(1,2)], of I d n] by auto
    moreover have "covers (I - {d}) e (mem e) n = covers I e (mem e) n" if "e \<noteq> d" using that by (simp add: covers_def)
    ultimately show ?thesis using False assms(3) [OF n] geoD(6) [OF assms(1) n, of e] by auto
  qed
  then show ?thesis using geoD(1-5) [OF assms(1)] unfolding geo_def by auto
qed

lemma geo_interior:
  assumes "geo mem ow U I" "d \<in> U"
  shows "(\<And>n. n < 2 ^ 64 \<Longrightarrow> ow' n = (if fpg (mem d) < n \<and> n < lpg (mem d) then Some d else ow n)) \<Longrightarrow>
      geo mem ow' U (insert d I)"
    "(\<And>n. n < 2 ^ 64 \<Longrightarrow> ow' n = (if fpg (mem d) < n \<and> n < lpg (mem d) then None else ow n)) \<Longrightarrow>
      geo mem ow' U (I - {d})"
proof -
  have other: "\<not> covers I e (mem e) n" if "e \<in> U" "e \<noteq> d" "fpg (mem d) < n \<and> n < lpg (mem d)" for e n
  proof
    assume "covers I e (mem e) n"
    from covers_within [OF geoD(4) [OF assms(1) that(1)] this] geoD(5) [OF assms(1) that(1) assms(2) that(2)] that(3)
      ext_okD(7) [OF geoD(4) [OF assms(1) that(1)]] ext_okD(7) [OF geoD(4) [OF assms(1,2)]]
    show False unfolding apart_def by linarith
  qed
  have ins: "covers (insert d I) e (mem e) n \<longleftrightarrow> covers I e (mem e) n \<or> e = d \<and> fpg (mem d) < n \<and> n < lpg (mem d)" for e n
    by (auto simp: covers_def)
  have del: "covers (I - {d}) e (mem e) n \<longleftrightarrow> (if e = d then n = fpg (mem d) \<or> n = lpg (mem d) else covers I e (mem e) n)" for e n
    by (auto simp: covers_def)
  show "geo mem ow' U (insert d I)"
    if ow: "\<And>n. n < 2 ^ 64 \<Longrightarrow> ow' n = (if fpg (mem d) < n \<and> n < lpg (mem d) then Some d else ow n)"
  proof -
    have "ow' n = Some e \<longleftrightarrow> e \<in> U \<and> covers (insert d I) e (mem e) n" if "n < 2 ^ 64" for n e
      using ow [OF that] geoD(6) [OF assms(1) that, of e] other [of e n] assms(2) unfolding ins by auto
    then show ?thesis using geoD(1-5) [OF assms(1)] assms(2) unfolding geo_def by auto
  qed
  show "geo mem ow' U (I - {d})"
    if ow: "\<And>n. n < 2 ^ 64 \<Longrightarrow> ow' n = (if fpg (mem d) < n \<and> n < lpg (mem d) then None else ow n)"
  proof -
    have "ow' n = Some e \<longleftrightarrow> e \<in> U \<and> covers (I - {d}) e (mem e) n" if "n < 2 ^ 64" for n e
      using ow [OF that] geoD(6) [OF assms(1) that, of e] other [of e n] unfolding del
      by (auto simp: covers_def)
    then show ?thesis using geoD(1-5) [OF assms(1)] unfolding geo_def by auto
  qed
qed

text \<open>An extent becomes the lead and a new descriptor the trail.\<close>

lemma geo_split:
  assumes g: "geo mem ow U I" and d: "d \<in> U" "d \<notin> I" and t: "t \<notin> U" "t \<noteq> 0"
    and ok: "ext_ok (mem' d)" "ext_ok (mem' t)"
    and span: "fpg (mem' d) = fpg (mem d)" "fpg (mem' t) = fpg (mem d) + npg (mem' d)"
      "npg (mem' d) + npg (mem' t) = npg (mem d)"
    and frame: "\<And>e. e \<in> U - {d} \<Longrightarrow> same_span (mem' e) (mem e)"
    and ow: "\<And>n. n < 2 ^ 64 \<Longrightarrow> ow' n = (if n = fpg (mem' t) \<or> n = lpg (mem' t) then Some t
      else if n = fpg (mem' d) \<or> n = lpg (mem' d) then Some d else ow n)"
  shows "geo mem' ow' (insert t U) I"
proof -
  define ow1 where "ow1 = (\<lambda>n. if fpg (mem d) \<le> n \<and> n \<le> lpg (mem d) then None else ow n)"
  define ow2 where "ow2 = (\<lambda>n. if n = fpg (mem' d) \<or> n = lpg (mem' d) then Some d else ow1 n)"
  have okd: "ext_ok (mem d)" by (rule geoD(4) [OF g d(1)])
  have g1: "geo mem ow1 (U - {d}) (I - {d})" by (rule geo_remove [OF g d(1)]) (simp add: ow1_def)
  have g1': "geo mem' ow1 (U - {d}) (I - {d})" by (rule geo_frame [OF g1]) (rule frame)
  have ap: "apart (mem' x) (mem' e)" if "e \<in> U - {d}" "x = d \<or> x = t" for x e
  proof -
    have "apart (mem d) (mem e)" using that(1) geoD(5) [OF g d(1)] by auto
    with that frame [OF that(1)] span show ?thesis by (auto simp: apart_def same_span_def)
  qed
  have g2: "geo mem' ow2 (insert d (U - {d})) (I - {d})"
    by (rule geo_add [OF g1']) (use geoD(2) [OF g] d ok ap in \<open>auto simp: ow2_def\<close>)
  have U: "insert d (U - {d}) = U" "I - {d} = I" using d by auto
  have "apart (mem' t) (mem' e)" if "e \<in> U" for e
    using that ap [of e t] span(1,2) by (cases "e = d") (auto simp: apart_def)
  moreover have "ow' n = (if n = fpg (mem' t) \<or> n = lpg (mem' t) then Some t else ow2 n)" if n: "n < 2 ^ 64" for n
  proof (cases "fpg (mem d) \<le> n \<and> n \<le> lpg (mem d)")
    case False
    then show ?thesis using ow [OF n] by (auto simp: ow2_def ow1_def)
  next
    case True
    have l: "lpg (mem' t) = lpg (mem d)" using span ext_okD(2) [OF ok(2)] by (simp add: lpg_def)
    have "ow n = None" if "n \<noteq> fpg (mem d)" "n \<noteq> lpg (mem d)"
      by (rule geo_unowned [OF g d(1) n]) (use True that d(2) in \<open>auto simp: covers_def\<close>)
    then show ?thesis using ow [OF n] True l span(1) by (auto simp: ow2_def ow1_def)
  qed
  ultimately show ?thesis using geo_add [OF g2 [unfolded U] t ok(2), of ow'] by blast
qed

text \<open>Two neighbours become one.\<close>

lemma geo_merge:
  assumes g: "geo mem ow U I" and a: "a \<in> U" "a \<notin> I" and b: "b \<in> U" "b \<notin> I" "a \<noteq> b"
    and adj: "fpg (mem b) = fpg (mem a) + npg (mem a)"
    and ok: "ext_ok (mem' a)" and span: "fpg (mem' a) = fpg (mem a)" "npg (mem' a) = npg (mem a) + npg (mem b)"
    and frame: "\<And>e. e \<in> U - {a, b} \<Longrightarrow> same_span (mem' e) (mem e)"
    and ow: "\<And>n. n < 2 ^ 64 \<Longrightarrow> ow' n = (if n = fpg (mem a) \<or> n = lpg (mem b) then Some a
      else if n = fpg (mem b) \<or> n = lpg (mem a) then None else ow n)"
  shows "geo mem' ow' (U - {b}) I"
proof -
  define ow1 where "ow1 = (\<lambda>n. if fpg (mem a) \<le> n \<and> n \<le> lpg (mem a) then None else ow n)"
  define ow2 where "ow2 = (\<lambda>n. if fpg (mem b) \<le> n \<and> n \<le> lpg (mem b) then None else ow1 n)"
  have g1: "geo mem ow1 (U - {a}) (I - {a})" by (rule geo_remove [OF g a(1)]) (simp add: ow1_def)
  have g2: "geo mem ow2 (U - {a} - {b}) (I - {a} - {b})"
    by (rule geo_remove [OF g1]) (use b in \<open>auto simp: ow2_def\<close>)
  have U: "U - {a} - {b} = U - {a, b}" "I - {a} - {b} = I" "insert a (U - {a, b}) = U - {b}" using a b by auto
  have g2': "geo mem' ow2 (U - {a, b}) I" by (rule geo_frame [OF g2 [unfolded U]]) (rule frame)
  have la: "lpg (mem a) + 1 = fpg (mem b)" using adj ext_okD(7) [OF geoD(4) [OF g a(1)]] by simp
  have lb: "lpg (mem' a) = lpg (mem b)" using adj span by (simp add: lpg_def)
  have ab: "fpg (mem a) \<le> lpg (mem a)" "fpg (mem b) \<le> lpg (mem b)" by (rule ext_okD(5) [OF geoD(4) [OF g]], fact)+
  have "apart (mem' a) (mem' e)" if "e \<in> U - {a, b}" for e
  proof -
    have "apart (mem a) (mem e)" "apart (mem b) (mem e)" using that geoD(5) [OF g] a b by auto
    moreover have "1 \<le> npg (mem e)" using ext_okD(2) [OF geoD(4) [OF g]] that by auto
    ultimately show ?thesis using frame [OF that] span adj by (auto simp: apart_def same_span_def)
  qed
  moreover have "ow' n = (if n = fpg (mem' a) \<or> n = lpg (mem' a) then Some a else ow2 n)" if n: "n < 2 ^ 64" for n
  proof (cases "fpg (mem a) \<le> n \<and> n \<le> lpg (mem a) \<or> fpg (mem b) \<le> n \<and> n \<le> lpg (mem b)")
    case False
    then show ?thesis using ow [OF n] la ab lb span by (auto simp: ow2_def ow1_def)
  next
    case True
    have "ow n = None" if "n \<noteq> fpg (mem a)" "n \<noteq> lpg (mem a)" "n \<noteq> fpg (mem b)" "n \<noteq> lpg (mem b)"
      using True geo_unowned [OF g a(1) n] geo_unowned [OF g b(1) n] that a(2) b(2) by (auto simp: covers_def)
    then show ?thesis using ow [OF n] True lb span(1) by (auto simp: ow2_def ow1_def)
  qed
  ultimately have "geo mem' ow' (insert a (U - {a, b})) I"
    using geo_add [OF g2', of a ow'] ok geoD(2) [OF g] a by auto
  then show ?thesis by (simp only: U)
qed

section \<open>The invariant\<close>

text \<open>
  \<open>A\<close> are the extents in use that an operation works on, \<open>B\<close> all others in use, with their
  descriptors, which the operation must leave as they are: those in use by the arena and those of
  other arenas. \<open>L k\<close> are the members of the collection of state \<open>k\<close> and \<open>V\<close> the free descriptors.
\<close>

definition members :: "(extent_state \<Rightarrow> uintptr list) \<Rightarrow> uintptr set" where
  "members L = (\<Union>k. set (L k))"

definition parts :: "uintptr set \<Rightarrow> uintptr set \<Rightarrow> (extent_state \<Rightarrow> uintptr list) \<Rightarrow> bool" where
  "parts A D L \<longleftrightarrow> A \<inter> D = {} \<and> (A \<union> D) \<inter> members L = {} \<and> L extent_state_active = []
     \<and> (\<forall>j k. j \<noteq> k \<longrightarrow> set (L j) \<inter> set (L k) = {})"

definition conts :: "(uintptr \<Rightarrow> extent) \<Rightarrow> (extent_state \<Rightarrow> extents) \<Rightarrow> (extent_state \<Rightarrow> uintptr list) \<Rightarrow> bool" where
  "conts mem ex L \<longleftrightarrow> (\<forall>k. k \<noteq> extent_state_active \<longrightarrow> extents_inv mem (ex k) (L k) \<and> ex_state (ex k) = k)"

definition cached_desc :: "extent_env \<Rightarrow> extent_state \<Rightarrow> extent \<Rightarrow> bool" where
  "cached_desc en k e \<longleftrightarrow> ev_arena (extent_view e) = unat (en_ind en) \<and> extent_state_get e = k
     \<and> \<not> extent_slab_get e \<and> extent_addr_get e = extent_base_get e"

definition active_desc :: "extent_env \<Rightarrow> extent \<Rightarrow> bool" where
  "active_desc en e \<longleftrightarrow> ev_arena (extent_view e) = unat (en_ind en) \<and> extent_state_get e = extent_state_active"

definition foreign_desc :: "extent_env \<Rightarrow> extent \<Rightarrow> bool" where
  "foreign_desc en e \<longleftrightarrow> ev_arena (extent_view e) \<noteq> unat (en_ind en)"

definition roles :: "extent_env \<Rightarrow> (uintptr \<Rightarrow> extent) \<Rightarrow> uintptr set \<Rightarrow> (uintptr \<rightharpoonup> extent)
    \<Rightarrow> (extent_state \<Rightarrow> uintptr list) \<Rightarrow> bool" where
  "roles en mem A B L \<longleftrightarrow> (\<forall>k. \<forall>d\<in>set (L k). cached_desc en k (mem d))
     \<and> (\<forall>d\<in>A. active_desc en (mem d))
     \<and> (\<forall>d e. B d = Some e \<longrightarrow> mem d = e \<and> (active_desc en e \<or> foreign_desc en e))"

definition free_ok :: "(uintptr \<Rightarrow> extent) \<Rightarrow> uintptr ph \<Rightarrow> uintptr list \<Rightarrow> uintptr set \<Rightarrow> uintptr set \<Rightarrow> bool" where
  "free_ok mem avail descs V U \<longleftrightarrow> finite V \<and> 0 \<notin> V \<and> V \<inter> U = {}
     \<and> ph_inv (avail_comp mem) avail \<and> mset_phns avail = mset_set V
     \<and> distinct (removeAll 0 descs) \<and> set (removeAll 0 descs) \<inter> (U \<union> V) = {}"

definition uses :: "uintptr set \<Rightarrow> (uintptr \<rightharpoonup> extent) \<Rightarrow> (extent_state \<Rightarrow> uintptr list) \<Rightarrow> uintptr set" where
  "uses A B L = A \<union> dom B \<union> members L"

definition est_inv :: "extent_env \<Rightarrow> estate \<Rightarrow> uintptr set \<Rightarrow> (uintptr \<rightharpoonup> extent) \<Rightarrow> uintptr set \<Rightarrow> uintptr set
    \<Rightarrow> (extent_state \<Rightarrow> uintptr list) \<Rightarrow> bool" where
  "est_inv en s A B I V L \<longleftrightarrow> tabs_ok (en_tabs en) \<and> unat (en_ind en) < 2 ^ 12 \<and> I \<subseteq> A \<union> dom B
     \<and> geo (es_mem s) (own (es_pages s)) (uses A B L) I
     \<and> parts A (dom B) L \<and> conts (es_mem s) (es_ex s) L \<and> roles en (es_mem s) A B L
     \<and> free_ok (es_mem s) (es_avail s) (es_descs s) V (uses A B L) \<and> grow_bound s"

text \<open>A descriptor that is neither registered nor free nor still to come from the base allocator.\<close>

definition loose :: "estate \<Rightarrow> uintptr set \<Rightarrow> (uintptr \<rightharpoonup> extent) \<Rightarrow> uintptr set \<Rightarrow> (extent_state \<Rightarrow> uintptr list) \<Rightarrow> uintptr \<Rightarrow> bool" where
  "loose s A B V L d \<longleftrightarrow> d \<noteq> 0 \<and> d \<notin> uses A B L \<and> d \<notin> V \<and> d \<notin> set (es_descs s)"

lemma est_invD:
  assumes "est_inv en s A B I V L"
  shows "tabs_ok (en_tabs en)" "unat (en_ind en) < 2 ^ 12" "I \<subseteq> A \<union> dom B"
    "geo (es_mem s) (own (es_pages s)) (uses A B L) I" "parts A (dom B) L"
    "conts (es_mem s) (es_ex s) L" "roles en (es_mem s) A B L"
    "free_ok (es_mem s) (es_avail s) (es_descs s) V (uses A B L)" "grow_bound s"
  using assms by (simp_all add: est_inv_def)

lemma est_invI:
  assumes "est_inv en s A B I V L" "I' \<subseteq> A' \<union> dom B'"
    and "geo (es_mem s') (own (es_pages s')) (uses A' B' L') I'" "parts A' (dom B') L'"
    and "conts (es_mem s') (es_ex s') L'" "roles en (es_mem s') A' B' L'"
    and "free_ok (es_mem s') (es_avail s') (es_descs s') V' (uses A' B' L')" "grow_bound s'"
  shows "est_inv en s' A' B' I' V' L'"
  using assms by (simp add: est_inv_def)

lemma in_members: "d \<in> set (L k) \<Longrightarrow> d \<in> members L" by (auto simp: members_def)

lemma parts_apart: "parts A D L \<Longrightarrow> d \<in> set (L j) \<Longrightarrow> j \<noteq> k \<Longrightarrow> d \<notin> set (L k)"
  unfolding parts_def by (metis disjoint_iff)

lemma partsD:
  assumes "est_inv en s A B I V L"
  shows "d \<in> A \<Longrightarrow> d \<notin> dom B \<and> d \<notin> members L \<and> d \<notin> V \<and> d \<noteq> 0"
    "d \<in> members L \<Longrightarrow> d \<notin> A \<and> d \<notin> dom B \<and> d \<notin> V \<and> d \<noteq> 0 \<and> d \<notin> I"
    "d \<in> set (L j) \<Longrightarrow> j \<noteq> k \<Longrightarrow> d \<notin> set (L k)" "d \<in> uses A B L \<Longrightarrow> d \<notin> V \<and> d \<noteq> 0 \<and> d \<notin> set (es_descs s)"
proof -
  note i = est_invD [OF assms]
  have z: "e \<notin> V \<and> e \<noteq> 0 \<and> e \<notin> set (es_descs s)" if "e \<in> uses A B L" for e
    proof -
    have "e \<noteq> 0" using geoD(2) [OF i(4)] that by auto
    with i(8) that show ?thesis by (auto simp: free_ok_def)
  qed
  then show "d \<in> uses A B L \<Longrightarrow> d \<notin> V \<and> d \<noteq> 0 \<and> d \<notin> set (es_descs s)" .
  show "d \<in> A \<Longrightarrow> d \<notin> dom B \<and> d \<notin> members L \<and> d \<notin> V \<and> d \<noteq> 0"
    using z [of d] i(5) by (auto simp: parts_def uses_def)
  show "d \<in> members L \<Longrightarrow> d \<notin> A \<and> d \<notin> dom B \<and> d \<notin> V \<and> d \<noteq> 0 \<and> d \<notin> I"
    using z [of d] i(3,5) by (auto simp: parts_def uses_def)
  show "d \<in> set (L j) \<Longrightarrow> j \<noteq> k \<Longrightarrow> d \<notin> set (L k)" by (rule parts_apart [OF i(5)])
qed

text \<open>Changing the descriptor of an extent in use, or of a loose one.\<close>

lemma conts_frame:
  assumes "conts mem ex L" "\<And>d. d \<in> members L \<Longrightarrow> mem' d = mem d"
  shows "conts mem' ex L"
proof -
  have "extents_inv mem' (ex k) (L k)" if "k \<noteq> extent_state_active" for k
    by (rule extents_inv_frame [of mem]) (use assms that in_members [of _ L k] in \<open>auto simp: conts_def\<close>)
  with assms(1) show ?thesis by (simp add: conts_def)
qed

lemma free_frame:
  assumes "free_ok mem avail descs V U" "\<And>d. d \<in> V \<Longrightarrow> mem' d = mem d"
  shows "free_ok mem' avail descs V U"
proof -
  have "ph_inv (avail_comp mem) avail = ph_inv (avail_comp mem') avail"
    by (rule ph_inv_cong) (use assms in \<open>auto simp: free_ok_def avail_comp_def\<close>)
  with assms(1) show ?thesis by (simp add: free_ok_def)
qed

lemma roles_frame:
  assumes "roles en mem A B L" "\<And>d. d \<in> A' \<Longrightarrow> active_desc en (mem' d)"
    and "\<And>d. d \<in> dom B \<union> members L \<Longrightarrow> mem' d = mem d"
  shows "roles en mem' A' B L"
proof -
  have "cached_desc en k (mem' d)" if "d \<in> set (L k)" for k d
    using assms(1,3) that in_members [of d L k] by (simp add: roles_def)
  moreover have "mem' d = mem d" if "B d = Some e" for d e using assms(3) that by blast
  ultimately show ?thesis using assms(1,2) unfolding roles_def by simp
qed

lemma same_span_refl [simp]: "same_span e e" by (simp add: same_span_def)

lemma mem_set_other [simp]:
  "es_mem (mem_set s d e) = (es_mem s)(d := e)" "es_pages (mem_set s d e) = es_pages s" "es_ex (mem_set s d e) = es_ex s"
  "es_avail (mem_set s d e) = es_avail s" "es_descs (mem_set s d e) = es_descs s" "es_maps (mem_set s d e) = es_maps s"
  "es_outs (mem_set s d e) = es_outs s" "grow_bound (mem_set s d e) = grow_bound s"
  by (simp_all add: mem_set_def)

lemma set_active:
  assumes "est_inv en s A B I V L" "d \<in> A" "same_span e (es_mem s d)" "active_desc en e"
  shows "est_inv en (mem_set s d e) A B I V L"
proof -
  note i = est_invD [OF assms(1)] and d = partsD(1) [OF assms(1,2)]
  have "geo ((es_mem s)(d := e)) (own (es_pages s)) (uses A B L) I"
    by (rule geo_frame [OF i(4)]) (use assms(3) in simp)
  moreover have "conts ((es_mem s)(d := e)) (es_ex s) L"
    by (rule conts_frame [OF i(6)]) (use d in auto)
  moreover have "free_ok ((es_mem s)(d := e)) (es_avail s) (es_descs s) V (uses A B L)"
    by (rule free_frame [OF i(8)]) (use d in auto)
  moreover have "roles en ((es_mem s)(d := e)) A B L"
    by (rule roles_frame [OF i(7)]) (use assms(4) d i(7) in \<open>auto simp: roles_def\<close>)
  ultimately show ?thesis using i(1,2,3,5,9) by (simp add: est_inv_def)
qed

lemma set_loose:
  assumes "est_inv en s A B I V L" "loose s A B V L d"
  shows "est_inv en (mem_set s d e) A B I V L" "loose (mem_set s d e) A B V L d"
proof -
  note i = est_invD [OF assms(1)]
  have d: "d \<notin> A" "d \<notin> dom B" "d \<notin> members L" "d \<notin> V" using assms(2) by (auto simp: loose_def uses_def)
  have "geo ((es_mem s)(d := e)) (own (es_pages s)) (uses A B L) I"
    by (rule geo_frame [OF i(4)]) (use d in \<open>auto simp: uses_def\<close>)
  moreover have "conts ((es_mem s)(d := e)) (es_ex s) L"
    by (rule conts_frame [OF i(6)]) (use d in auto)
  moreover have "free_ok ((es_mem s)(d := e)) (es_avail s) (es_descs s) V (uses A B L)"
    by (rule free_frame [OF i(8)]) (use d in auto)
  moreover have "roles en ((es_mem s)(d := e)) A B L"
    by (rule roles_frame [OF i(7)]) (use d i(7) in \<open>auto simp: roles_def\<close>)
  ultimately show "est_inv en (mem_set s d e) A B I V L" using i(1,2,3,5,9) by (simp add: est_inv_def)
  show "loose (mem_set s d e) A B V L d" using assms(2) by (simp add: loose_def)
qed

text \<open>Extents that an operation leaves alone move between \<open>A\<close> and \<open>B\<close>.\<close>

lemma park:
  assumes "est_inv en s (insert d A) B I V L" "d \<notin> A"
  shows "est_inv en s A (B(d \<mapsto> es_mem s d)) I V L"
proof -
  note i = est_invD [OF assms(1)] and d = partsD(1) [OF assms(1), of d]
  have u: "uses A (B(d \<mapsto> es_mem s d)) L = uses (insert d A) B L" by (auto simp: uses_def)
  have "parts A (dom (B(d \<mapsto> es_mem s d))) L" using i(5) assms(2) by (auto simp: parts_def)
  moreover have "roles en (es_mem s) A (B(d \<mapsto> es_mem s d)) L" using i(7) by (auto simp: roles_def)
  ultimately show ?thesis using i by (auto simp: est_inv_def u simp del: fun_upd_apply)
qed

lemma unpark:
  assumes "est_inv en s A B I V L" "B d = Some e" "active_desc en e"
  shows "est_inv en s (insert d A) (B(d := None)) I V L" "d \<notin> A" "es_mem s d = e"
proof -
  note i = est_invD [OF assms(1)]
  show "d \<notin> A" using partsD(1) [OF assms(1), of d] assms(2) by auto
  show e: "es_mem s d = e" using i(7) assms(2) by (auto simp: roles_def)
  have u: "uses (insert d A) (B(d := None)) L = uses A B L" using assms(2) by (auto simp: uses_def)
  have "parts (insert d A) (dom (B(d := None))) L" using i(5) assms(2) by (auto simp: parts_def)
  moreover have "roles en (es_mem s) (insert d A) (B(d := None)) L" using i(7) assms(3) e by (auto simp: roles_def)
  ultimately show "est_inv en s (insert d A) (B(d := None)) I V L" using i assms(2) by (auto simp: est_inv_def u)
qed

text \<open>Parts of the state that the invariant does not mention.\<close>

lemma est_inv_cong:
  "es_mem s' = es_mem s \<Longrightarrow> es_pages s' = es_pages s \<Longrightarrow> es_avail s' = es_avail s \<Longrightarrow> es_ex s' = es_ex s \<Longrightarrow>
    es_descs s' = es_descs s \<Longrightarrow> grow_bound s' = grow_bound s \<Longrightarrow> est_inv en s' A B I V L = est_inv en s A B I V L"
  by (simp add: est_inv_def)

lemma pop_out_frame:
  assumes "pop_out s = (b, s')"
  shows "es_mem s' = es_mem s" "es_pages s' = es_pages s" "es_ex s' = es_ex s" "es_avail s' = es_avail s"
    "es_descs s' = es_descs s" "es_maps s' = es_maps s"
    "est_inv en s' A B I V L = est_inv en s A B I V L" "loose s' A B V L d = loose s A B V L d"
    "grow_bound s' = grow_bound s"
proof -
  show e: "es_mem s' = es_mem s" "es_pages s' = es_pages s" "es_ex s' = es_ex s" "es_avail s' = es_avail s"
    "es_descs s' = es_descs s" "es_maps s' = es_maps s"
    using assms by (auto simp: pop_out_def split: list.splits)
  show "grow_bound s' = grow_bound s" using assms by (auto simp: pop_out_def split: list.splits)
  then show "est_inv en s' A B I V L = est_inv en s A B I V L" by (intro est_inv_cong e)
  show "loose s' A B V L d = loose s A B V L d" by (simp add: loose_def e)
qed

lemma extent_alloc_ok:
  assumes "est_inv en s A B I V L" "extent_alloc s = (d, s')"
  shows "\<exists>V'. V' \<subseteq> V \<and> est_inv en s' A B I V' L \<and> (d \<noteq> 0 \<longrightarrow> loose s' A B V' L d)"
    "es_mem s' = es_mem s" "es_pages s' = es_pages s" "es_ex s' = es_ex s" "es_maps s' = es_maps s" "es_outs s' = es_outs s"
proof -
  note i = est_invD [OF assms(1)]
  let ?U = "uses A B L"
  let ?cmp = "avail_comp (es_mem s)"
  have f: "finite V" "0 \<notin> V" "V \<inter> ?U = {}" "ph_inv ?cmp (es_avail s)" "mset_phns (es_avail s) = mset_set V"
    "distinct (removeAll 0 (es_descs s))" "set (removeAll 0 (es_descs s)) \<inter> (?U \<union> V) = {}"
    using i(8) by (simp_all add: free_ok_def)
  show "es_mem s' = es_mem s" "es_pages s' = es_pages s" "es_ex s' = es_ex s" "es_maps s' = es_maps s" "es_outs s' = es_outs s"
    using assms(2) by (auto simp: extent_alloc_def pop_desc_def split: prod.splits option.splits list.splits)
  have upd: "est_inv en s'' A B I V' L"
    if "es_mem s'' = es_mem s" "es_pages s'' = es_pages s" "es_ex s'' = es_ex s" "grow_bound s'' = grow_bound s"
      "free_ok (es_mem s) (es_avail s'') (es_descs s'') V' ?U" for s'' V'
    using i that by (simp add: est_inv_def)
  show "\<exists>V'. V' \<subseteq> V \<and> est_inv en s' A B I V' L \<and> (d \<noteq> 0 \<longrightarrow> loose s' A B V' L d)"
  proof (cases "V = {}")
    case True
    then have e: "es_avail s = []" using f(5) by simp
    then have "s\<lparr>es_avail := []\<rparr> = s" by (cases s) simp
    moreover have "(d, s') = pop_desc (s\<lparr>es_avail := []\<rparr>)" using assms(2) e by (simp add: extent_alloc_def ph_first_def)
    ultimately have s': "(d, s') = pop_desc s" by metis
    show ?thesis
    proof (cases "es_descs s")
      case Nil
      then have "d = 0" "s' = s" using s' by (simp_all add: pop_desc_def)
      with assms(1) show ?thesis by blast
    next
      case (Cons x xs)
      then have d: "d = x" "s' = s\<lparr>es_descs := xs\<rparr>" using s' by (simp_all add: pop_desc_def)
      have "free_ok (es_mem s) (es_avail s') (es_descs s') V ?U"
        using f Cons d(2) by (auto simp: free_ok_def split: if_splits)
      then have "est_inv en s' A B I V L" by (intro upd) (simp_all add: d(2))
      moreover have "loose s' A B V L d" if "d \<noteq> 0"
        using f(6,7) Cons d that by (auto simp: loose_def)
      ultimately show ?thesis by blast
    qed
  next
    case False
    then have ne: "es_avail s \<noteq> []" using f(1,5) by (metis mset_phns_simps(1) mset_set_empty_iff)
    from extent_avail.first_least [OF f(4) ne] obtain x ph where
      x: "ph_first ?cmp (es_avail s) = (Some x, ph)" "ph_inv ?cmp ph" "mset_phns ph = mset_phns (es_avail s)"
        "x \<in># mset_phns (es_avail s)" by blast
    have xV: "x \<in> V" using x(4) f(1,5) by simp
    have c: "count (mset_phns ph) x = 1" using x(3) f(1,5) xV by simp
    from extent_avail.remove_inv [OF x(2) c] have r: "ph_inv ?cmp (ph_remove ?cmp x ph)"
      "mset_phns ph = add_mset x (mset_phns (ph_remove ?cmp x ph))" by simp_all
    have "mset_set V = add_mset x (mset_set (V - {x}))" using f(1) xV by (simp add: mset_set.remove)
    then have m: "mset_phns (ph_remove ?cmp x ph) = mset_set (V - {x})" using r(2) x(3) f(5) by simp
    have d: "d = x" "s' = s\<lparr>es_avail := ph_remove ?cmp x ph, es_avail_cnt := es_avail_cnt s - 1\<rparr>"
      using assms(2) x(1) by (auto simp: extent_alloc_def)
    have "free_ok (es_mem s) (es_avail s') (es_descs s') (V - {x}) ?U"
      using f r(1) m d(2) by (auto simp: free_ok_def)
    then have "est_inv en s' A B I (V - {x}) L" by (intro upd) (simp_all add: d(2))
    moreover have "loose s' A B (V - {x}) L d" using f xV d by (auto simp: loose_def)
    ultimately show ?thesis by blast
  qed
qed

lemma extent_dalloc_ok:
  assumes "est_inv en s A B I V L" "loose s A B V L d"
  shows "est_inv en (extent_dalloc d s) A B I (insert d V) L"
proof -
  note i = est_invD [OF assms(1)]
  have "free_ok (es_mem s) (ph_insert d (es_avail s)) (es_descs s) (insert d V) (uses A B L)"
    using i(8) assms(2) extent_avail.insert_inv
    by (auto simp: free_ok_def loose_def extent_avail.mset_insert)
  with i show ?thesis by (simp add: est_inv_def extent_dalloc_def)
qed

lemma extent_dalloc_frame [simp]:
  "es_mem (extent_dalloc d s) = es_mem s" "es_pages (extent_dalloc d s) = es_pages s" "es_ex (extent_dalloc d s) = es_ex s"
  "es_maps (extent_dalloc d s) = es_maps s" "es_outs (extent_dalloc d s) = es_outs s"
  "es_descs (extent_dalloc d s) = es_descs s"
  by (simp_all add: extent_dalloc_def)

section \<open>Moving between use and the collections\<close>

lemma members_remove:
  assumes "parts A D L" "distinct (L k)" "d \<in> set (L k)"
  shows "members (L(k := remove1 d (L k))) = members L - {d}" "parts (insert d A) (D - {d}) (L(k := remove1 d (L k)))"
proof -
  have o: "d \<notin> set (L j)" if "j \<noteq> k" for j
    using parts_apart [OF assms(1,3), of j] that by auto
  show m: "members (L(k := remove1 d (L k))) = members L - {d}"
    using o assms(2) by (auto simp: members_def split: if_splits)
  have "set ((L(k := remove1 d (L k))) j) \<subseteq> set (L j)" for j using assms(2) by auto
  then have "set ((L(k := remove1 d (L k))) i) \<inter> set ((L(k := remove1 d (L k))) j) = {}" if "i \<noteq> j" for i j
    using parts_apart [OF assms(1) _ that] by blast
  moreover have "L extent_state_active = []" using assms(1) by (simp add: parts_def)
  moreover have "d \<in> members L" using in_members [of d L k] assms(3) by simp
  ultimately show "parts (insert d A) (D - {d}) (L(k := remove1 d (L k)))"
    using assms(1) unfolding parts_def m by auto
qed

lemma activate_ok:
  assumes "est_inv en s A B I V L" "d \<in> set (L k)" "k \<noteq> extent_state_active"
  shows "\<exists>s'. extent_activate_locked en k d s = Some s'
    \<and> est_inv en s' (insert d A) B I V (L(k := remove1 d (L k)))
    \<and> es_mem s' = (es_mem s)(d := extent_state_set (es_mem s d) extent_state_active) \<and> es_pages s' = es_pages s
    \<and> es_maps s' = es_maps s"
proof -
  note i = est_invD [OF assms(1)] and d = partsD(2) [OF assms(1) in_members [of d L k, OF assms(2)]]
  let ?L = "L(k := remove1 d (L k))" and ?e = "extent_state_set (es_mem s d) extent_state_active"
  have inv: "extents_inv (es_mem s) (es_ex s k) (L k)" using i(6) assms(3) by (simp add: conts_def)
  from remove_ok [OF i(1) inv assms(2)] obtain ex' where
    ex: "extents_remove_locked (en_tabs en) (es_mem s) (es_ex s k) d = Some ex'"
      "extents_inv (es_mem s) ex' (remove1 d (L k))" "ex_state ex' = ex_state (es_ex s k)" by blast
  define s' where "s' = mem_set (s\<lparr>es_ex := (es_ex s)(k := ex')\<rparr>) d ?e"
  have st: "extent_activate_locked en k d s = Some s'" by (simp add: extent_activate_locked_def ex(1) s'_def)
  have dist: "distinct (L k)" using inv by (simp add: extents_inv_def)
  have B: "dom B - {d} = dom B" using d by auto
  note m = members_remove [OF i(5) dist assms(2), unfolded B]
  have u: "uses (insert d A) B ?L = uses A B L" using m(1) in_members [of d L k, OF assms(2)] by (auto simp: uses_def)
  have span: "same_span ?e (es_mem s d)" by (simp add: same_span_def fpg_def npg_def get_view view_sets)
  have "geo (es_mem s') (own (es_pages s)) (uses A B L) I"
    by (rule geo_frame [OF i(4)]) (use span in \<open>simp add: s'_def\<close>)
  then have "geo (es_mem s') (own (es_pages s')) (uses A B L) I" by (simp add: s'_def)
  moreover have c: "conts (es_mem s) ((es_ex s)(k := ex')) ?L" using i(6) ex(2,3) by (simp add: conts_def)
  have "conts (es_mem s') ((es_ex s)(k := ex')) ?L"
    by (rule conts_frame [OF c]) (use m in \<open>auto simp: s'_def\<close>)
  then have "conts (es_mem s') (es_ex s') ?L" by (simp add: s'_def)
  moreover have "free_ok (es_mem s') (es_avail s) (es_descs s) V (uses A B L)"
    by (rule free_frame [OF i(8)]) (use d in \<open>auto simp: s'_def\<close>)
  then have "free_ok (es_mem s') (es_avail s') (es_descs s') V (uses A B L)" by (simp add: s'_def)
  moreover have "roles en (es_mem s') (insert d A) B ?L"
  proof -
    have "cached_desc en j (es_mem s d')" if "d' \<in> set (L j)" for j d' using i(7) that by (simp add: roles_def)
    then have "cached_desc en j (es_mem s' d')" if "d' \<in> set (?L j)" for j d'
      using that dist partsD(3) [OF assms(1,2), of j] by (auto simp: s'_def split: if_splits)
    moreover have "active_desc en ?e"
      using i(7) assms(2) by (simp add: roles_def cached_desc_def active_desc_def get_view view_sets)
    ultimately show ?thesis using i(7) d by (auto simp: roles_def s'_def)
  qed
  ultimately have "est_inv en s' (insert d A) B I V ?L"
    by (intro est_invI [OF assms(1)]) (use i(3,9) m(2) u in \<open>auto simp: s'_def\<close>)
  with st show ?thesis by (auto simp: s'_def)
qed

lemma deactivate_ok:
  assumes "est_inv en s A B I V L" "d \<in> A" "d \<notin> I" "k \<noteq> extent_state_active"
    and "\<not> extent_slab_get (es_mem s d)" "extent_addr_get (es_mem s d) = extent_base_get (es_mem s d)"
  shows "\<exists>s'. extent_deactivate_locked en k d s = Some s'
    \<and> est_inv en s' (A - {d}) B I V (L(k := L k @ [d]))
    \<and> es_mem s' = (es_mem s)(d := extent_state_set (es_mem s d) k) \<and> es_pages s' = es_pages s
    \<and> es_maps s' = es_maps s"
proof -
  note i = est_invD [OF assms(1)] and d = partsD(1) [OF assms(1,2)]
  let ?L = "L(k := L k @ [d])" and ?e = "extent_state_set (es_mem s d) k"
  let ?mem = "(es_mem s)(d := ?e)"
  have k: "extents_state_get (es_ex s k) = k" using i(6) assms(4) by (simp add: conts_def extents_state_get_def)
  have o: "d \<notin> set (L j)" for j using d in_members [of d L j] by auto
  have span: "same_span ?e (es_mem s d)" by (simp add: same_span_def fpg_def npg_def get_view view_sets)
  have c: "conts ?mem (es_ex s) L" by (rule conts_frame [OF i(6)]) (use d in auto)
  then have inv: "extents_inv ?mem (es_ex s k) (L k)" using assms(4) by (simp add: conts_def)
  have ok: "ext_ok (es_mem s d)" using geoD(4) [OF i(4)] assms(2) by (simp add: uses_def)
  have "page_size (esize_at ?mem d)"
    using ok by (simp add: ext_ok_def get_view view_sets)
  from insert_ok [OF i(1) inv o this] obtain ex' where
    ex: "extents_insert_locked (en_tabs en) ?mem (es_ex s k) d = Some ex'"
      "extents_inv ?mem ex' (L k @ [d])" "ex_state ex' = ex_state (es_ex s k)" by blast
  define s' where "s' = mem_set s d ?e\<lparr>es_ex := (es_ex s)(k := ex')\<rparr>"
  have st: "extent_deactivate_locked en k d s = Some s'" by (simp add: extent_deactivate_locked_def ex(1) s'_def k)
  have s': "es_mem s' = ?mem" "es_pages s' = es_pages s" "es_ex s' = (es_ex s)(k := ex')" "es_maps s' = es_maps s"
    "es_avail s' = es_avail s" "es_descs s' = es_descs s" "grow_bound s' = grow_bound s" by (simp_all add: s'_def)
  have m: "members ?L = insert d (members L)" by (auto simp: members_def split: if_splits)
  have u: "uses (A - {d}) B ?L = uses A B L" using m assms(2) by (auto simp: uses_def)
  have "geo ?mem (own (es_pages s)) (uses A B L) I" by (rule geo_frame [OF i(4)]) (use span in simp)
  moreover have "conts ?mem ((es_ex s)(k := ex')) ?L" using c ex(2,3) by (simp add: conts_def)
  moreover have "free_ok ?mem (es_avail s) (es_descs s) V (uses A B L)"
    by (rule free_frame [OF i(8)]) (use d in auto)
  moreover have "parts (A - {d}) (dom B) ?L"
  proof -
    have "set (?L a) \<inter> set (?L b) = {}" if "a \<noteq> b" for a b
      using parts_apart [OF i(5) _ that] o that by (auto split: if_splits)
    then show ?thesis using i(5) d assms(4) unfolding parts_def m by auto
  qed
  moreover have "roles en ?mem (A - {d}) B ?L"
  proof -
    have "cached_desc en k ?e"
      using i(7) assms(2,5,6) by (simp add: roles_def active_desc_def cached_desc_def get_view view_sets)
    then have "cached_desc en j (?mem d')" if "d' \<in> set (?L j)" for j d'
      using that o i(7) by (auto simp: roles_def split: if_splits)
    then show ?thesis using i(7) d by (auto simp: roles_def)
  qed
  ultimately have "est_inv en s' (A - {d}) B I V ?L"
    by (intro est_invI [OF assms(1)]) (use i(3,9) assms(3) u s' in auto)
  with st s' show ?thesis by auto
qed

lemma fit_extents_ok:
  fixes a :: nat
  assumes "est_inv en s A B I V L" "k \<noteq> extent_state_active" "page_size esize" "a < 62"
    and "unat esize + 2 ^ max 12 a \<le> 7 * 2 ^ 60 + 8192"
  shows "\<exists>ret ex'. extents_fit_locked (en_tabs en) (en_lg_fit en) (es_mem s) (es_ex s k) esize (2 ^ a) = Some (ret, ex')
    \<and> est_inv en (s\<lparr>es_ex := (es_ex s)(k := ex')\<rparr>) A B I V L \<and> fit_found (es_mem s) (L k) esize (max 12 a) ret"
proof -
  note i = est_invD [OF assms(1)]
  have inv: "extents_inv (es_mem s) (es_ex s k) (L k)" "ex_state (es_ex s k) = k"
    using i(6) assms(2) by (simp_all add: conts_def)
  have "in_space (es_mem s b)" if "b \<in> set (L k)" for b
  proof -
    have "ext_ok (es_mem s b)" using geoD(4) [OF i(4)] in_members [of b L k, OF that] by (simp add: uses_def)
    from ext_okD(1,4) [OF this] show ?thesis by (simp add: in_space_def unat_base)
  qed
  with fit_ok [OF i(1) inv(1) _ assms(3-5)] obtain ret ex' where
    ex: "extents_fit_locked (en_tabs en) (en_lg_fit en) (es_mem s) (es_ex s k) esize (2 ^ a) = Some (ret, ex')"
      "extents_inv (es_mem s) ex' (L k)" "fit_found (es_mem s) (L k) esize (max 12 a) ret"
      "ex_state ex' = ex_state (es_ex s k)" by blast
  have "conts (es_mem s) ((es_ex s)(k := ex')) L" using i(6) ex(2,4) by (simp add: conts_def)
  then have "est_inv en (s\<lparr>es_ex := (es_ex s)(k := ex')\<rparr>) A B I V L"
    by (intro est_invI [OF assms(1)]) (use i in simp_all)
  with ex show ?thesis by blast
qed

section \<open>Registering and deregistering\<close>

text \<open>Steps that change the page map and the descriptors of the extents worked on.\<close>

definition works :: "estate \<Rightarrow> estate \<Rightarrow> uintptr set \<Rightarrow> bool" where
  "works s s' D \<longleftrightarrow> (\<forall>e. e \<notin> D \<longrightarrow> es_mem s' e = es_mem s e) \<and> es_avail s' = es_avail s \<and> es_ex s' = es_ex s
     \<and> es_descs s' = es_descs s \<and> es_maps s' = es_maps s \<and> grow_bound s' = grow_bound s"

lemma works_pages: "pages_only s s' \<Longrightarrow> works s s' D"
  using pages_onlyD [of s s'] by (simp add: works_def)

lemma works_frames:
  assumes "est_inv en s A B I V L" "works s s' D" "D \<inter> (dom B \<union> members L \<union> V) = {}"
  shows "conts (es_mem s') (es_ex s') L" "free_ok (es_mem s') (es_avail s') (es_descs s') V (uses A B L)"
    "(\<And>d. d \<in> A' \<Longrightarrow> active_desc en (es_mem s' d)) \<Longrightarrow> roles en (es_mem s') A' B L"
proof -
  note i = est_invD [OF assms(1)]
  have m: "es_mem s' d = es_mem s d" if "d \<in> dom B \<union> members L \<union> V" for d
    using assms(2,3) that by (auto simp: works_def)
  have "conts (es_mem s') (es_ex s) L" by (rule conts_frame [OF i(6)]) (simp add: m)
  then show "conts (es_mem s') (es_ex s') L" using assms(2) by (simp add: works_def)
  have "free_ok (es_mem s') (es_avail s) (es_descs s) V (uses A B L)" by (rule free_frame [OF i(8)]) (simp add: m)
  then show "free_ok (es_mem s') (es_avail s') (es_descs s') V (uses A B L)" using assms(2) by (simp add: works_def)
  show "roles en (es_mem s') A' B L" if "\<And>d. d \<in> A' \<Longrightarrow> active_desc en (es_mem s' d)"
    by (rule roles_frame [OF i(7) that]) (simp_all add: m)
qed

lemma keep_active:
  assumes "est_inv en s A B I V L" "works s s' A" "\<And>d. d \<in> A \<Longrightarrow> active_desc en (es_mem s' d)"
    and "geo (es_mem s') (own (es_pages s')) (uses A B L) I'" "I' \<subseteq> A \<union> dom B"
  shows "est_inv en s' A B I' V L"
proof -
  have d: "A \<inter> (dom B \<union> members L \<union> V) = {}" using partsD(1) [OF assms(1)] by blast
  note f = works_frames [OF assms(1,2) d]
  show ?thesis
    by (rule est_invI [OF assms(1,5,4) _ f(1) f(3) f(2)]) (use assms(2,3) est_invD(5,9) [OF assms(1)] in \<open>auto simp: works_def\<close>)
qed

lemma add_active:
  assumes "est_inv en s A B I V L" "loose s A B V L d" "works s s' (insert d A)"
    and "\<And>e. e \<in> insert d A \<Longrightarrow> active_desc en (es_mem s' e)"
    and "geo (es_mem s') (own (es_pages s')) (insert d (uses A B L)) I'" "I' \<subseteq> insert d A \<union> dom B"
  shows "est_inv en s' (insert d A) B I' V L"
proof -
  note i = est_invD [OF assms(1)]
  have ld: "d \<noteq> 0" "d \<notin> A" "d \<notin> dom B" "d \<notin> members L" "d \<notin> V" "d \<notin> set (es_descs s)"
    using assms(2) by (auto simp: loose_def uses_def)
  have D: "insert d A \<inter> (dom B \<union> members L \<union> V) = {}" using partsD(1) [OF assms(1)] ld by blast
  note f = works_frames [OF assms(1,3) D]
  have u: "uses (insert d A) B L = insert d (uses A B L)" by (auto simp: uses_def)
  have "parts (insert d A) (dom B) L" using i(5) ld by (auto simp: parts_def)
  moreover have "roles en (es_mem s') (insert d A) B L"
    by (rule f(3)) (rule assms(4))
  moreover have "free_ok (es_mem s') (es_avail s') (es_descs s') V (insert d (uses A B L))"
    using f(2) ld assms(3) by (auto simp: free_ok_def works_def)
  ultimately show ?thesis
    by (intro est_invI [OF assms(1,6)]) (use assms(3,5) f(1) u i(9) in \<open>simp_all add: works_def\<close>)
qed

lemma drop_active:
  assumes "est_inv en s A B I V L" "d \<in> A" "works s s' A"
    and "\<And>e. e \<in> A - {d} \<Longrightarrow> active_desc en (es_mem s' e)"
    and "geo (es_mem s') (own (es_pages s')) (uses A B L - {d}) I'" "I' \<subseteq> A - {d} \<union> dom B"
  shows "est_inv en s' (A - {d}) B I' V L" "loose s' (A - {d}) B V L d"
proof -
  note i = est_invD [OF assms(1)] and d = partsD(1) [OF assms(1,2)]
  have D: "A \<inter> (dom B \<union> members L \<union> V) = {}" using partsD(1) [OF assms(1)] by blast
  note f = works_frames [OF assms(1,3) D]
  have u: "uses (A - {d}) B L = uses A B L - {d}" using d by (auto simp: uses_def)
  have "parts (A - {d}) (dom B) L" using i(5) by (auto simp: parts_def)
  moreover have "roles en (es_mem s') (A - {d}) B L"
    by (rule f(3)) (rule assms(4))
  moreover have "free_ok (es_mem s') (es_avail s') (es_descs s') V (uses A B L - {d})"
    using f(2) by (auto simp: free_ok_def)
  ultimately show "est_inv en s' (A - {d}) B I' V L"
    by (intro est_invI [OF assms(1,6)]) (use assms(3,5) f(1) u i(9) in \<open>simp_all add: works_def\<close>)
  show "loose s' (A - {d}) B V L d"
    using d partsD(4) [OF assms(1), of d] assms(2,3) by (auto simp: loose_def uses_def works_def)
qed

lemma pages_only_trans: "pages_only s s' \<Longrightarrow> pages_only s' s'' \<Longrightarrow> pages_only s s''"
  unfolding pages_only_def by (cases s; cases s'; cases s'') simp

lemma interior_registered:
  assumes "est_inv en s A B I V L" "d \<in> A"
  shows "est_inv en (extent_interior_register d szind s) A B (insert d I) V L"
    "es_mem (extent_interior_register d szind s) = es_mem s" "es_maps (extent_interior_register d szind s) = es_maps s"
proof -
  note i = est_invD [OF assms(1)]
  have d: "d \<in> uses A B L" "d \<noteq> 0" using assms(2) partsD(1) [OF assms] by (auto simp: uses_def)
  have ok: "ext_ok (es_mem s d)" by (rule geoD(4) [OF i(4) d(1)])
  have po: "pages_only s (extent_interior_register d szind s)" by (rule interior_register(1) [OF ok, of 0]) simp
  show m: "es_mem (extent_interior_register d szind s) = es_mem s" "es_maps (extent_interior_register d szind s) = es_maps s"
    using pages_onlyD [OF po] by simp_all
  have "geo (es_mem s) (own (es_pages (extent_interior_register d szind s))) (uses A B L) (insert d I)"
    by (rule geo_interior(1) [OF i(4) d(1)]) (simp add: interior_register(2) [OF ok] d(2))
  then show "est_inv en (extent_interior_register d szind s) A B (insert d I) V L"
    by (intro keep_active [OF assms(1) works_pages [OF po]])
      (use i(3,7) assms(2) m(1) in \<open>auto simp: roles_def\<close>)
qed

lemma interior_deregistered:
  assumes "est_inv en s A B I V L" "d \<in> A"
  shows "est_inv en (extent_interior_deregister d s) A B (I - {d}) V L"
    "es_mem (extent_interior_deregister d s) = es_mem s" "es_maps (extent_interior_deregister d s) = es_maps s"
proof -
  note i = est_invD [OF assms(1)]
  have d: "d \<in> uses A B L" using assms(2) by (simp add: uses_def)
  have ok: "ext_ok (es_mem s d)" by (rule geoD(4) [OF i(4) d])
  have po: "pages_only s (extent_interior_deregister d s)" by (rule interior_register(3) [OF ok, of 0]) simp
  show m: "es_mem (extent_interior_deregister d s) = es_mem s" "es_maps (extent_interior_deregister d s) = es_maps s"
    using pages_onlyD [OF po] by simp_all
  have "geo (es_mem s) (own (es_pages (extent_interior_deregister d s))) (uses A B L) (I - {d})"
    by (rule geo_interior(2) [OF i(4) d]) (simp add: interior_register(4) [OF ok])
  then show "est_inv en (extent_interior_deregister d s) A B (I - {d}) V L"
    by (intro keep_active [OF assms(1) works_pages [OF po]]) (use i(3,7) m(1) in \<open>auto simp: roles_def\<close>)
qed

text \<open>The answers of the environment in a state are consumed, nothing else.\<close>

lemma leaf_lookup:
  assumes "leaf_elm_lookup addr im s = (r, s')"
  shows "r = None \<or> r = Some (page_number addr)" "\<not> im \<Longrightarrow> r = Some (page_number addr)"
    "\<exists>os. s' = s\<lparr>es_outs := os\<rparr>"
proof -
  have "\<exists>os. s = s\<lparr>es_outs := os\<rparr>" by (rule exI [of _ "es_outs s"]) simp
  then show "\<exists>os. s' = s\<lparr>es_outs := os\<rparr>"
    using assms by (auto simp: leaf_elm_lookup_def pop_out_def split: list.splits if_splits)
  show "r = None \<or> r = Some (page_number addr)" "\<not> im \<Longrightarrow> r = Some (page_number addr)"
    using assms by (auto simp: leaf_elm_lookup_def split: prod.splits if_splits)
qed

lemma leaves_lookup:
  assumes "extent_rtree_leaf_elms_lookup e dep im s = ((err, ra, rb), s')" "ext_ok e"
  shows "\<not> err \<or> dep \<Longrightarrow> \<not> dep \<or> \<not> im \<Longrightarrow> \<not> err \<and> ra = Some (of_nat (fpg e)) \<and> rb = Some (of_nat (lpg e))"
    "err \<Longrightarrow> \<not> dep \<Longrightarrow> ra = None \<or> rb = None" "\<exists>os. s' = s\<lparr>es_outs := os\<rparr>" "\<not> im \<Longrightarrow> \<not> err"
proof -
  obtain a s1 where a: "leaf_elm_lookup (extent_base_get e) im s = (a, s1)" by (cases "leaf_elm_lookup (extent_base_get e) im s")
  obtain b s2 where b: "leaf_elm_lookup (extent_last_get e) im s1 = (b, s2)" by (cases "leaf_elm_lookup (extent_last_get e) im s1")
  note la = leaf_lookup [OF a, unfolded page_numbers(1) [OF assms(2)]] and lb = leaf_lookup [OF b, unfolded page_numbers(2) [OF assms(2)]]
  obtain o1 where o1: "s1 = s\<lparr>es_outs := o1\<rparr>" using la(3) by blast
  obtain o2 where o2: "s2 = s1\<lparr>es_outs := o2\<rparr>" using lb(3) by blast
  have s2: "s2 = s\<lparr>es_outs := o2\<rparr>" by (simp add: o1 o2)
  note eq = assms(1) [unfolded extent_rtree_leaf_elms_lookup_def a b Let_def prod.case]
  show "\<not> err \<or> dep \<Longrightarrow> \<not> dep \<or> \<not> im \<Longrightarrow> \<not> err \<and> ra = Some (of_nat (fpg e)) \<and> rb = Some (of_nat (lpg e))"
    using eq la(1,2) lb(1,2) by (auto split: if_splits)
  show "err \<Longrightarrow> \<not> dep \<Longrightarrow> ra = None \<or> rb = None" using eq by (auto split: if_splits)
  show "\<not> im \<Longrightarrow> \<not> err" using eq la(2) lb(2) by (auto split: if_splits)
  show "\<exists>os. s' = s\<lparr>es_outs := os\<rparr>" using eq o1 s2 by (auto split: if_splits)
qed

lemma outs_only:
  "est_inv en (s\<lparr>es_outs := os\<rparr>) A B I V L = est_inv en s A B I V L"
  "loose (s\<lparr>es_outs := os\<rparr>) A B V L d = loose s A B V L d"
  by (rule est_inv_cong; simp) (simp add: loose_def)

lemma register_ok:
  assumes "est_inv en s A B I V L" "loose s A B V L d" "ext_ok (es_mem s d)" "active_desc en (es_mem s d)"
    and "\<And>e. e \<in> uses A B L \<Longrightarrow> apart (es_mem s d) (es_mem s e)" "extent_register_impl is_new d s = (err, s')"
  shows "es_mem s' = es_mem s" "es_maps s' = es_maps s"
    "err \<Longrightarrow> est_inv en s' A B I V L \<and> loose s' A B V L d"
    "\<not> err \<Longrightarrow> est_inv en s' (insert d A) B (if extent_slab_get (es_mem s d) then insert d I else I) V L"
    "\<not> is_new \<Longrightarrow> \<not> err"
proof -
  note i = est_invD [OF assms(1)] and k = ext_okD [OF assms(3)]
  have d0: "d \<noteq> 0" "d \<notin> uses A B L" using assms(2) by (auto simp: loose_def)
  obtain e1 ra rb s1 where l: "extent_rtree_leaf_elms_lookup (es_mem s d) False is_new s = ((e1, ra, rb), s1)"
    by (metis prod_cases3 surj_pair)
  note ll = leaves_lookup [OF l assms(3)]
  obtain os where s1: "s1 = s\<lparr>es_outs := os\<rparr>" using ll(3) by blast
  have mem1: "es_mem s1 = es_mem s" "es_pages s1 = es_pages s" "es_maps s1 = es_maps s" by (simp_all add: s1)
  have i1: "est_inv en s1 A B I V L" "loose s1 A B V L d" using assms(1,2) by (simp_all add: s1 outs_only)
  have *: "es_mem s' = es_mem s \<and> es_maps s' = es_maps s \<and> (err \<longrightarrow> est_inv en s' A B I V L \<and> loose s' A B V L d)
    \<and> (\<not> err \<longrightarrow> est_inv en s' (insert d A) B (if extent_slab_get (es_mem s d) then insert d I else I) V L)
    \<and> (\<not> is_new \<longrightarrow> \<not> err)"
  proof (cases e1)
    case True
    then have "err \<and> s' = s1" using assms(6) l ll(2) by (auto simp: extent_register_impl_def split: option.splits)
    with i1 mem1 True ll(4) show ?thesis by auto
  next
    case False
    with ll(1,2) have r: "ra = Some (of_nat (fpg (es_mem s d)))" "rb = Some (of_nat (lpg (es_mem s d)))" by auto
    define z where "z = (ucast (extent_szind_get_maybe_invalid (es_mem s d)) :: szind)"
    define s2 where "s2 = extent_rtree_write_acquired (of_nat (fpg (es_mem s d))) (Some (of_nat (lpg (es_mem s d)))) d z
      (extent_slab_get (es_mem s d)) s1"
    have s': "\<not> err" "s' = (if extent_slab_get (es_mem s d) then extent_interior_register d z s2 else s2)"
      using assms(6) l r False by (auto simp: extent_register_impl_def mem1 z_def s2_def Let_def)
    have po: "pages_only s1 s2" unfolding s2_def by (rule write_acquired(1))
    have m2: "es_mem s2 = es_mem s" "es_maps s2 = es_maps s" using pages_onlyD [OF po] mem1 by simp_all
    have "geo (es_mem s) (own (es_pages s2)) (insert d (uses A B L)) I"
      by (rule geo_add [OF i(4) d0(2,1) assms(3,5)])
        (use k(4,5,6) d0(1) in \<open>simp_all add: s2_def write_acquired(2) mem1\<close>)
    then have i2: "est_inv en s2 (insert d A) B I V L"
      by (intro add_active [OF i1 works_pages [OF po]]) (use i(3,7) assms(4) m2 in \<open>auto simp: roles_def\<close>)
    from interior_registered [OF i2, of d z] i2 m2 show ?thesis by (simp add: s')
  qed
  then show "es_mem s' = es_mem s" "es_maps s' = es_maps s" "err \<Longrightarrow> est_inv en s' A B I V L \<and> loose s' A B V L d"
    "\<not> err \<Longrightarrow> est_inv en s' (insert d A) B (if extent_slab_get (es_mem s d) then insert d I else I) V L"
    "\<not> is_new \<Longrightarrow> \<not> err" by simp_all
qed

lemma deregister_ok:
  assumes "est_inv en s A B I V L" "d \<in> A" "d \<in> I \<Longrightarrow> extent_slab_get (es_mem s d)"
  shows "est_inv en (extent_deregister_impl d s) (A - {d}) B (I - {d}) V L"
    "loose (extent_deregister_impl d s) (A - {d}) B V L d"
    "\<And>e. e \<noteq> d \<Longrightarrow> es_mem (extent_deregister_impl d s) e = es_mem s e"
    "es_mem (extent_deregister_impl d s) d = (if extent_slab_get (es_mem s d) then extent_slab_set (es_mem s d) False else es_mem s d)"
    "es_maps (extent_deregister_impl d s) = es_maps s"
proof -
  note i = est_invD [OF assms(1)]
  let ?e = "es_mem s d"
  have d: "d \<in> uses A B L" using assms(2) by (simp add: uses_def)
  have ok: "ext_ok ?e" by (rule geoD(4) [OF i(4) d])
  note k = ext_okD [OF ok]
  obtain e1 ra rb s1 where l: "extent_rtree_leaf_elms_lookup ?e True False s = ((e1, ra, rb), s1)"
    by (metis prod_cases3 surj_pair)
  note ll = leaves_lookup [OF l ok]
  obtain os where s1: "s1 = s\<lparr>es_outs := os\<rparr>" using ll(3) by blast
  have r: "ra = Some (of_nat (fpg ?e))" "rb = Some (of_nat (lpg ?e))" using ll(1) by auto
  define s2 where "s2 = extent_rtree_write_acquired (of_nat (fpg ?e)) (Some (of_nat (lpg ?e))) 0 (of_nat SC_NSIZES) False s1"
  have po: "pages_only s1 s2" unfolding s2_def by (rule write_acquired(1))
  have w2: "works s s2 D" for D using works_pages [OF po] by (simp add: works_def s1)
  have m2: "es_mem s2 = es_mem s" using pages_onlyD [OF po] by (simp add: s1)
  have ow2: "own (es_pages s2) n = (if n = fpg ?e \<or> n = lpg ?e then None else own (es_pages s) n)" if "n < 2 ^ 64" for n
    using that k(4,5,6) by (simp add: s2_def write_acquired(2) s1)
  note e0 = interior_register(3,4) [of s2 d, unfolded m2, OF ok]
  define s' where "s' = extent_deregister_impl d s"
  have s': "s' = (if extent_slab_get ?e then mem_set (extent_interior_deregister d s2) d (extent_slab_set ?e False) else s2)"
    using l r pages_onlyD [OF e0(1) [of 0]] by (simp add: s'_def extent_deregister_impl_def s2_def [symmetric] m2 Let_def)
  have ow: "own (es_pages s') n = (if fpg ?e \<le> n \<and> n \<le> lpg ?e then None else own (es_pages s) n)" if n: "n < 2 ^ 64" for n
  proof (cases "extent_slab_get ?e")
    case True
    then show ?thesis using e0(2) [OF n] ow2 [OF n] k(5) by (auto simp: s')
  next
    case False
    then have "d \<notin> I" using assms(3) by auto
    then have "own (es_pages s) n = None" if "fpg ?e < n" "n < lpg ?e"
      using geo_unowned [OF i(4) d n] that by (auto simp: covers_def)
    then show ?thesis using ow2 [OF n] False k(5) by (auto simp: s')
  qed
  have span: "same_span (es_mem s' e) (es_mem s e)" for e
    using pages_onlyD [OF e0(1) [of 0]] by (simp add: s' m2 same_span_def fpg_def npg_def get_view view_sets)
  have "geo (es_mem s) (own (es_pages s')) (uses A B L - {d}) (I - {d})" by (rule geo_remove [OF i(4) d ow])
  then have g: "geo (es_mem s') (own (es_pages s')) (uses A B L - {d}) (I - {d})" by (rule geo_frame) (rule span)
  have w: "works s s' A"
    using pages_onlyD [OF e0(1) [of 0]] w2 [of A] assms(2) by (auto simp: s' works_def)
  have oth: "es_mem s' e = es_mem s e" if "e \<noteq> d" for e
    using pages_onlyD [OF e0(1) [of 0]] that by (simp add: s' m2)
  have act: "active_desc en (es_mem s' e)" if "e \<in> A - {d}" for e
    using i(7) oth [of e] that by (auto simp: roles_def)
  have I: "I - {d} \<subseteq> A - {d} \<union> dom B" using i(3) by auto
  note da = drop_active [OF assms(1,2) w act g I]
  show "est_inv en (extent_deregister_impl d s) (A - {d}) B (I - {d}) V L"
    "loose (extent_deregister_impl d s) (A - {d}) B V L d"
    "\<And>e. e \<noteq> d \<Longrightarrow> es_mem (extent_deregister_impl d s) e = es_mem s e"
    "es_maps (extent_deregister_impl d s) = es_maps s"
    using da oth w by (simp_all add: s'_def works_def)
  show "es_mem (extent_deregister_impl d s) d = (if extent_slab_get ?e then extent_slab_set ?e False else ?e)"
    using pages_onlyD [OF e0(1) [of 0]] by (simp add: s'_def [symmetric] s' m2)
qed

section \<open>Splitting and merging\<close>

lemma fits_size: "page_size w \<Longrightarrow> w AND NOT EXTENT_SIZE_MASK = 0"
  by (rule size_ok) (simp add: page_size_def)

lemma ext_ok_views:
  assumes "ext_ok e" "page_size w" "extent_addr_get e' = extent_addr_get e" "extent_size_get e' = w"
    and "fpg e + unat w div 4096 \<le> 2 ^ 35"
  shows "ext_ok e'" "fpg e' = fpg e" "npg e' = unat w div 4096"
  using assms by (simp_all add: ext_ok_def fpg_def npg_def get_view)

text \<open>What a merge leaves in the extent that grows: only size, class, serial number and zeroing change.\<close>

definition merged_desc :: "extent \<Rightarrow> extent \<Rightarrow> extent" where
  "merged_desc ea eb =
     (let e = extent_szind_set (extent_size_set ea (extent_size_get ea + extent_size_get eb)) (of_nat SC_NSIZES);
          e = extent_sn_set e (if extent_sn_get e < extent_sn_get eb then extent_sn_get e else extent_sn_get eb)
      in extent_zeroed_set e (extent_zeroed_get e \<and> extent_zeroed_get eb))"

lemma merged_view:
  assumes "ext_ok ea" "ext_ok eb" "fpg ea + npg ea + npg eb \<le> 2 ^ 35"
  shows "extent_addr_get (merged_desc ea eb) = extent_addr_get ea" "extent_slab_get (merged_desc ea eb) = extent_slab_get ea"
    "unat (extent_size_get (merged_desc ea eb)) = unat (extent_size_get ea) + unat (extent_size_get eb)"
    "page_size (extent_size_get ea + extent_size_get eb)"
    "extent_size_get (merged_desc ea eb) = extent_size_get ea + extent_size_get eb"
    "ext_ok (merged_desc ea eb)" "fpg (merged_desc ea eb) = fpg ea" "npg (merged_desc ea eb) = npg ea + npg eb"
    "active_desc en ea \<Longrightarrow> active_desc en (merged_desc ea eb)"
proof -
  note ka = ext_okD [OF assms(1)] and kb = ext_okD [OF assms(2)]
  have u: "unat (extent_size_get ea + extent_size_get eb) = 4096 * (npg ea + npg eb)"
    using ka(1) kb(1) assms(3) by (subst unat_add_eq) simp_all
  show p: "page_size (extent_size_get ea + extent_size_get eb)"
    using u ka(2) by (auto simp: page_size_def)
  note v = view_size_set [OF fits_size [OF p], of ea, unfolded get_view(1)]
  show a: "extent_addr_get (merged_desc ea eb) = extent_addr_get ea" "extent_slab_get (merged_desc ea eb) = extent_slab_get ea"
    and s: "extent_size_get (merged_desc ea eb) = extent_size_get ea + extent_size_get eb"
    using szind_ok [OF nsizes_ok] by (simp_all add: merged_desc_def get_view view_sets view_szind_set v Let_def)
  show "unat (extent_size_get (merged_desc ea eb)) = unat (extent_size_get ea) + unat (extent_size_get eb)"
    using u ka(1) kb(1) by (simp add: s)
  show "ext_ok (merged_desc ea eb)" "fpg (merged_desc ea eb) = fpg ea" "npg (merged_desc ea eb) = npg ea + npg eb"
    using ext_ok_views [OF assms(1) p a(1) s] u assms(3) by simp_all
  show "active_desc en ea \<Longrightarrow> active_desc en (merged_desc ea eb)"
    using szind_ok [OF nsizes_ok] by (simp add: merged_desc_def active_desc_def get_view view_sets view_szind_set v Let_def)
qed

lemma merge_ok:
  assumes "est_inv en s A B I V L" "a \<in> A" "b \<in> A" "a \<noteq> b" "a \<notin> I" "b \<notin> I"
    and adj: "fpg (es_mem s b) = fpg (es_mem s a) + npg (es_mem s a)" and r: "extent_merge_impl en a b s = (err, s')"
  shows "\<And>e. e \<noteq> a \<Longrightarrow> es_mem s' e = es_mem s e" "es_maps s' = es_maps s"
    "err \<Longrightarrow> est_inv en s' A B I V L \<and> es_mem s' = es_mem s"
    "\<not> err \<Longrightarrow> est_inv en s' (A - {b}) B I (insert b V) L \<and> es_mem s' a = merged_desc (es_mem s a) (es_mem s b)"
proof -
  note i = est_invD [OF assms(1)]
  let ?ea = "es_mem s a" and ?eb = "es_mem s b"
  have ab: "a \<in> uses A B L" "b \<in> uses A B L" "a \<noteq> 0" using assms(2,3) partsD(1) [OF assms(1,2)] by (auto simp: uses_def)
  have ok: "ext_ok ?ea" "ext_ok ?eb" by (rule geoD(4) [OF i(4) ab(1)], rule geoD(4) [OF i(4) ab(2)])
  note ka = ext_okD [OF ok(1)] and kb = ext_okD [OF ok(2)]
  have fit: "fpg ?ea + npg ?ea + npg ?eb \<le> 2 ^ 35" using kb(4) adj by simp
  note mv = merged_view [OF ok fit]
  have *: "(\<forall>e. e \<noteq> a \<longrightarrow> es_mem s' e = es_mem s e) \<and> es_maps s' = es_maps s
    \<and> (err \<longrightarrow> est_inv en s' A B I V L \<and> es_mem s' = es_mem s)
    \<and> (\<not> err \<longrightarrow> est_inv en s' (A - {b}) B I (insert b V) L \<and> es_mem s' a = merged_desc ?ea ?eb)"
  proof (cases err)
    case True
    then have "s' = s \<or> pop_out s = (True, s')" using r
      by (auto simp: extent_merge_impl_def Let_def split: if_splits prod.splits)
    then show ?thesis using True assms(1) pop_out_frame [of s True s'] by auto
  next
    case False
    then obtain s1 where s1: "pop_out s = (False, s1)" using r
      by (auto simp: extent_merge_impl_def Let_def split: if_splits prod.splits)
    note p = pop_out_frame [OF s1]
    define s2 where "s2 = page_write (of_nat (fpg ?eb)) 0 (of_nat SC_NSIZES) False
      (page_write (of_nat (lpg ?ea)) 0 (of_nat SC_NSIZES) False s1)"
    define s3 where "s3 = mem_set s2 a (merged_desc ?ea ?eb)"
    define s4 where "s4 = extent_rtree_write_acquired (of_nat (fpg ?ea)) (Some (of_nat (lpg ?eb))) a (of_nat SC_NSIZES) False s3"
    have s': "s' = extent_dalloc b s4"
      using r False s1 assms(4) page_numbers(1,2) [OF ok(1)] page_numbers(1,2) [OF ok(2)]
      by (simp add: extent_merge_impl_def s2_def s3_def s4_def merged_desc_def Let_def p(1) mem_set_def split: if_splits)
    have po: "pages_only s3 s4" unfolding s4_def by (rule write_acquired(1))
    note po' = pages_onlyD [OF po]
    have m4: "es_mem s4 = (es_mem s)(a := merged_desc ?ea ?eb)" using po' by (simp add: s3_def s2_def p(1))
    have w: "works s s4 A" using po' assms(2) by (auto simp: works_def s3_def s2_def p)
    have ow: "own (es_pages s4) n = (if n = fpg ?ea \<or> n = lpg ?eb then Some a
        else if n = fpg ?eb \<or> n = lpg ?ea then None else own (es_pages s) n)" if "n < 2 ^ 64" for n
      using that ka(4,5,6) kb(4,5,6) ab(3)
      by (simp add: s4_def write_acquired(2) s3_def s2_def own_write p(2))
    have g: "geo (es_mem s4) (own (es_pages s4)) (uses A B L - {b}) I"
      by (rule geo_merge [OF i(4) ab(1) assms(5) ab(2) assms(6,4) adj])
        (use mv(6-8) ow in \<open>simp_all add: m4\<close>)
    have act: "active_desc en (es_mem s4 e)" if "e \<in> A - {b}" for e
      using i(7) that mv(9) assms(2) by (simp add: m4 roles_def)
    have I: "I \<subseteq> A - {b} \<union> dom B" using i(3) assms(6) by auto
    note da = drop_active [OF assms(1,3) w act g I]
    from extent_dalloc_ok [OF da] show ?thesis using False m4 w by (simp add: s' works_def)
  qed
  then show "\<And>e. e \<noteq> a \<Longrightarrow> es_mem s' e = es_mem s e" "es_maps s' = es_maps s"
    "err \<Longrightarrow> est_inv en s' A B I V L \<and> es_mem s' = es_mem s"
    "\<not> err \<Longrightarrow> est_inv en s' (A - {b}) B I (insert b V) L \<and> es_mem s' a = merged_desc ?ea ?eb" by blast+
qed

lemma init_get:
  assumes "unat ind < 2 ^ 12" "unat szind \<le> SC_NSIZES" "page_size sz"
    and "e' = extent_init e (Some ind) addr sz slab szind sn state zeroed committed dumpable"
  shows "extent_addr_get e' = addr" "extent_size_get e' = sz" "extent_slab_get e' = slab" "extent_state_get e' = state"
    "extent_committed_get e' = committed" "ev_arena (extent_view e') = unat ind" "ev_szind (extent_view e') = unat szind"
  using view_init [OF assms(1,2)] assms(3) by (simp_all add: assms(4) get_view page_size_def)

definition lead_desc :: "extent \<Rightarrow> size_t \<Rightarrow> szind \<Rightarrow> extent" where
  "lead_desc e sz szind = extent_szind_set (extent_size_set e sz) szind"

lemma lead_get:
  assumes "page_size sz" "unat szind \<le> SC_NSIZES"
  shows "extent_addr_get (lead_desc e sz szind) = extent_addr_get e" "extent_size_get (lead_desc e sz szind) = sz"
    "extent_slab_get (lead_desc e sz szind) = extent_slab_get e"
    "extent_committed_get (lead_desc e sz szind) = extent_committed_get e"
    "active_desc en e \<Longrightarrow> active_desc en (lead_desc e sz szind)" "ev_szind (extent_view (lead_desc e sz szind)) = unat szind"
  using szind_ok [OF assms(2)] view_size_set [OF fits_size [OF assms(1)]]
  by (simp_all add: lead_desc_def active_desc_def get_view view_szind_set)

lemma aligned_base: "4096 dvd unat a \<Longrightarrow> PAGE_ADDR2BASE a = a"
proof -
  assume a: "4096 dvd unat a"
  have m: "PAGE_MASK = mask 12" by (simp add: PAGE_MASK_def PAGE_def LG_PAGE_def mask_eq_decr_exp)
  have "unat (PAGE_ADDR2BASE a) = unat a div 2 ^ 12 * 2 ^ 12"
    by (simp only: PAGE_ADDR2BASE_def m unat_and_not_mask)
  with a show ?thesis by (simp add: word_unat_eq_iff)
qed

text \<open>The sizes and the position of both halves.\<close>

lemma split_geometry:
  assumes "ext_ok e" "page_size sa" "page_size sb" "unat sa + unat sb = unat (extent_size_get e)"
    and "extent_addr_get ea = extent_addr_get e" "extent_size_get ea = sa"
    and "extent_addr_get eb = extent_base_get e + sa" "extent_size_get eb = sb"
  shows "ext_ok ea" "fpg ea = fpg e" "ext_ok eb" "fpg eb = fpg e + npg ea" "npg ea + npg eb = npg e"
    "extent_base_get eb = extent_addr_get eb"
proof -
  note k = ext_okD [OF assms(1)]
  obtain na where "unat sa = 4096 * na" using assms(2) unfolding page_size_def by (elim conjE dvdE)
  moreover obtain nb where "unat sb = 4096 * nb" using assms(3) unfolding page_size_def by (elim conjE dvdE)
  ultimately have n: "unat sa = 4096 * na" "unat sb = 4096 * nb" by simp_all
  have s: "na + nb = npg e" using assms(4) n k(1) by simp
  have pos: "0 < na" "0 < nb" using assms(2,3) n by (auto simp: page_size_def)
  show ea: "ext_ok ea" "fpg ea = fpg e" using ext_ok_views [OF assms(1,2,5,6)] n s k(4) by simp_all
  have na: "npg ea = na" "npg eb = nb" using n assms(6,8) by (simp_all add: npg_def)
  have u: "unat (extent_base_get e + sa) = 4096 * (fpg e + na)"
    using unat_base [of e] n s k(4) by (subst unat_add_eq) simp_all
  show b: "extent_base_get eb = extent_addr_get eb"
    unfolding get_view(3) get_view(2) [symmetric] by (rule aligned_base) (simp add: assms(7) u)
  then have f: "fpg eb = fpg e + na" by (simp add: fpg_def assms(7) u)
  with na show "fpg eb = fpg e + npg ea" "npg ea + npg eb = npg e" using s by simp_all
  show "ext_ok eb" using assms(3,8) f na s k(3,4) by (simp add: ext_ok_def)
qed

lemma split_ok:
  assumes "est_inv en s A B I V L" "d \<in> A" "d \<notin> I" "page_size sa" "page_size sb"
    and "unat sa + unat sb = unat (extent_size_get (es_mem s d))" "unat za \<le> SC_NSIZES" "unat zb \<le> SC_NSIZES"
    and r: "extent_split_impl en d sa za ba sb zb bb s = (r, s')"
  shows "es_maps s' = es_maps s" "\<And>e. e \<in> A - {d} \<Longrightarrow> es_mem s' e = es_mem s e"
    "r = None \<Longrightarrow> es_mem s' d = es_mem s d \<and> (\<exists>V'. est_inv en s' A B I V' L)"
    "r = Some t \<Longrightarrow> t \<notin> uses A B L \<and> (\<exists>V'. est_inv en s' (insert t A) B I V' L)
      \<and> es_mem s' d = lead_desc (es_mem s d) sa za
      \<and> extent_addr_get (es_mem s' t) = extent_base_get (es_mem s d) + sa
      \<and> extent_base_get (es_mem s' t) = extent_addr_get (es_mem s' t) \<and> extent_size_get (es_mem s' t) = sb
      \<and> extent_slab_get (es_mem s' t) = bb
      \<and> extent_committed_get (es_mem s' t) = extent_committed_get (es_mem s d)
      \<and> ev_szind (extent_view (es_mem s' t)) = unat zb"
proof -
  note i = est_invD [OF assms(1)]
  let ?e = "es_mem s d"
  have d: "d \<in> uses A B L" using assms(2) by (simp add: uses_def)
  have ok: "ext_ok ?e" by (rule geoD(4) [OF i(4) d])
  have act: "active_desc en ?e" using i(7) assms(2) by (simp add: roles_def)
  obtain t1 s1 where al: "extent_alloc s = (t1, s1)" by (cases "extent_alloc s")
  note ao = extent_alloc_ok [OF assms(1) al]
  obtain V1 where V1: "est_inv en s1 A B I V1 L" "t1 \<noteq> 0 \<longrightarrow> loose s1 A B V1 L t1" using ao(1) by blast
  define et where "et = extent_init (es_mem s t1) (Some (en_ind en)) (extent_base_get ?e + sa) sb bb zb (extent_sn_get ?e)
    (extent_state_get ?e) (extent_zeroed_get ?e) (extent_committed_get ?e) (extent_dumpable_get ?e)"
  define el where "el = extent_init ?e (Some (en_ind en)) (extent_addr_get ?e) sa ba za (extent_sn_get ?e)
    (extent_state_get ?e) (extent_zeroed_get ?e) (extent_committed_get ?e) (extent_dumpable_get ?e)"
  note gt = init_get [OF i(2) assms(8,5) et_def] and gl = init_get [OF i(2) assms(7,4) el_def]
  note ld = lead_get [OF assms(4,7), where e = ?e]
  note sg = split_geometry [OF ok assms(4-6) gl(1,2) gt(1,2)]
  note sg' = split_geometry [OF ok assms(4-6) ld(1,2) gt(1,2)]
  have lp: "lpg (lead_desc ?e sa za) = lpg el" "fpg (lead_desc ?e sa za) = fpg el"
    using sg(2,5) sg'(2,5) by (simp_all add: lpg_def)
  define s2 where "s2 = mem_set s1 t1 et"
  have *: "es_maps s' = es_maps s \<and> (\<forall>e \<in> A - {d}. es_mem s' e = es_mem s e)
    \<and> (case r of None \<Rightarrow> es_mem s' d = ?e \<and> (\<exists>V'. est_inv en s' A B I V' L)
       | Some t \<Rightarrow> t = t1 \<and> t \<notin> uses A B L \<and> (\<exists>V'. est_inv en s' (insert t A) B I V' L)
           \<and> es_mem s' d = lead_desc ?e sa za \<and> es_mem s' t = et)"
  proof (cases "hk_split (en_hooks en) \<and> t1 \<noteq> 0")
    case False
    then have "r = None" "s' = s \<or> s' = s1" using r al by (auto simp: extent_split_impl_def split: if_splits)
    then show ?thesis using assms(1) ao V1(1) by auto
  next
    case True
    then have l1: "loose s1 A B V1 L t1" using V1(2) by simp
    have tA: "t1 \<notin> A" "t1 \<noteq> d" using l1 assms(2) by (auto simp: loose_def uses_def)
    note s2' = set_loose [OF V1(1) l1, of et, folded s2_def]
    have m2: "es_mem s2 e = es_mem s e" if "e \<noteq> t1" for e using that by (simp add: s2_def ao(2))
    obtain e3 la lb s3 where l3: "extent_rtree_leaf_elms_lookup el False True s2 = ((e3, la, lb), s3)"
      by (metis prod_cases3 surj_pair)
    obtain e4 ta tb s4 where l4: "extent_rtree_leaf_elms_lookup et False True s3 = ((e4, ta, tb), s4)"
      by (metis prod_cases3 surj_pair)
    note k3 = leaves_lookup [OF l3 sg(1)] and k4 = leaves_lookup [OF l4 sg(3)]
    obtain o3 where o3: "s3 = s2\<lparr>es_outs := o3\<rparr>" using k3(3) by blast
    obtain o4 where o4: "s4 = s3\<lparr>es_outs := o4\<rparr>" using k4(3) by blast
    have s4: "s4 = s2\<lparr>es_outs := o4\<rparr>" by (simp add: o3 o4)
    have i4: "est_inv en s4 A B I V1 L" "loose s4 A B V1 L t1" using s2' by (simp_all add: s4 outs_only)
    have m4: "es_mem s4 = es_mem s2" "es_pages s4 = es_pages s" "es_maps s4 = es_maps s" "es_mem s3 = es_mem s2"
      by (simp_all add: s4 o3 s2_def ao)
    have m34: "es_mem s3 t1 = et" by (simp add: m4 s2_def)
    have r: "(r, s') = (case (la, lb, ta, tb) of
                   (Some lead_elm_a, Some lead_elm_b, Some trail_elm_a, Some trail_elm_b) \<Rightarrow>
                     (let (err, s) = pop_out s4
                      in if err then (None, extent_dalloc t1 s)
                         else
                           let s = mem_set s d (extent_size_set (es_mem s d) sa);
                               s = mem_set s d (extent_szind_set (es_mem s d) za);
                               s = extent_rtree_write_acquired lead_elm_a (Some lead_elm_b) d za ba s;
                               s = extent_rtree_write_acquired trail_elm_a (Some trail_elm_b) t1 zb bb s
                           in (Some t1, s))
                 | _ \<Rightarrow> (None, extent_dalloc t1 s4))"
      using r al True l3 l4 m34
      by (simp add: extent_split_impl_def Let_def ao(2) et_def [symmetric] el_def [symmetric] s2_def [symmetric])
    show ?thesis
    proof (cases "\<exists>s5. pop_out s4 = (False, s5) \<and> \<not> e3 \<and> \<not> e4")
      case False
      then have "r = None \<and> (s' = extent_dalloc t1 s4 \<or> (\<exists>s5. pop_out s4 = (True, s5) \<and> s' = extent_dalloc t1 s5))"
        using r k3(2) k4(2) by (auto simp: Let_def split: option.splits prod.splits if_splits)
      then obtain s5 where s5: "r = None" "s' = extent_dalloc t1 s5" "s5 = s4 \<or> pop_out s4 = (True, s5)" by blast
      then have "est_inv en s5 A B I V1 L" "loose s5 A B V1 L t1" "es_mem s5 = es_mem s4" "es_maps s5 = es_maps s4"
        using i4 pop_out_frame [of s4 True s5] by auto
      moreover have "es_mem s2 e = es_mem s e" if "e \<in> A" for e using m2 [of e] tA(1) that by blast
      moreover have "est_inv en s' A B I (insert t1 V1) L"
        unfolding s5(2) by (rule extent_dalloc_ok) fact+
      ultimately show ?thesis using m4 assms(2) by (auto simp: s5(1,2))
    next
      case True
      then obtain s5 where s5: "pop_out s4 = (False, s5)" "\<not> e3" "\<not> e4" by blast
      note p = pop_out_frame [OF s5(1)]
      have lk: "la = Some (of_nat (fpg el))" "lb = Some (of_nat (lpg el))" "ta = Some (of_nat (fpg et))" "tb = Some (of_nat (lpg et))"
        using k3(1) k4(1) s5(2,3) by auto
      define s6 where "s6 = mem_set s5 d (lead_desc ?e sa za)"
      define s7 where "s7 = extent_rtree_write_acquired (of_nat (fpg el)) (Some (of_nat (lpg el))) d za ba s6"
      define s8 where "s8 = extent_rtree_write_acquired (of_nat (fpg et)) (Some (of_nat (lpg et))) t1 zb bb s7"
      have m5: "es_mem s5 d = ?e" using p(1) m4(1) m2 [of d] tA(2) by auto
      have rs: "r = Some t1" "s' = s8"
        using r lk s5(1) m5 by (simp_all add: Let_def s8_def s7_def s6_def lead_desc_def mem_set_def)
      have po: "pages_only s6 s8"
        unfolding s8_def s7_def by (rule pages_only_trans [OF write_acquired(1) write_acquired(1)])
      note po' = pages_onlyD [OF po]
      have m8: "es_mem s8 = (es_mem s)(t1 := et, d := lead_desc ?e sa za)"
        using po' p(1) m4(1) ao(2) by (simp add: s6_def s2_def)
      have w: "works s5 s8 (insert t1 A)" using po' assms(2) by (auto simp: works_def s6_def)
      have ow: "own (es_pages s8) n = (if n = fpg et \<or> n = lpg et then Some t1
          else if n = fpg el \<or> n = lpg el then Some d else own (es_pages s) n)" if n: "n < 2 ^ 64" for n
        using n ext_okD(4,5,6) [OF sg(1)] ext_okD(4,5,6) [OF sg(3)] True partsD(1) [OF assms(1,2)] \<open>hk_split _ \<and> _\<close>
        by (simp add: s8_def s7_def s6_def write_acquired(2) p(2) m4(2))
      have t0: "t1 \<notin> uses A B L" "t1 \<noteq> 0" using l1 by (auto simp: loose_def)
      have g: "geo (es_mem s8) (own (es_pages s8)) (insert t1 (uses A B L)) I"
        by (rule geo_split [OF i(4) d assms(3) t0])
          (use sg sg' tA(2) ow lp t0 in \<open>auto simp: m8\<close>)
      have "active_desc en (es_mem s8 e)" if "e \<in> insert t1 A" for e
        using i(7) that ld(5) [OF act] act gt(4,6) by (auto simp: m8 roles_def active_desc_def)
      then have "est_inv en s8 (insert t1 A) B I V1 L"
        using i(3) i4 p(7,8) w g by (intro add_active [of en s5]) auto
      then show ?thesis using t0 tA m8 po' p(6) m4(3) by (auto simp: rs s6_def)
    qed
  qed
  then show "es_maps s' = es_maps s" "\<And>e. e \<in> A - {d} \<Longrightarrow> es_mem s' e = es_mem s e" by blast+
  show "es_mem s' d = ?e \<and> (\<exists>V'. est_inv en s' A B I V' L)" if "r = None" using * that by simp
  show "t \<notin> uses A B L \<and> (\<exists>V'. est_inv en s' (insert t A) B I V' L)
      \<and> es_mem s' d = lead_desc ?e sa za \<and> extent_addr_get (es_mem s' t) = extent_base_get ?e + sa
      \<and> extent_base_get (es_mem s' t) = extent_addr_get (es_mem s' t) \<and> extent_size_get (es_mem s' t) = sb
      \<and> extent_slab_get (es_mem s' t) = bb \<and> extent_committed_get (es_mem s' t) = extent_committed_get ?e
      \<and> ev_szind (extent_view (es_mem s' t)) = unat zb"
    if "r = Some t"
  proof -
    from * that have "t = t1" "es_mem s' t1 = et" "t1 \<notin> uses A B L" "es_mem s' d = lead_desc ?e sa za"
      "\<exists>V'. est_inv en s' (insert t1 A) B I V' L" by auto
    with gt sg(6) show ?thesis by simp
  qed
qed

end
