(* ===== verification/Extent_Life.thy ===== *)
theory Extent_Life
  imports Extent_Inv
begin

text \<open>
  The operations on whole extents keep the invariant of Extent_Inv: coalescing, recording,
  recycling, growing, freeing and eviction, each on every path. Every operation leaves the extents
  in \<open>B\<close> as they are.
\<close>

section \<open>Coalescing\<close>

text \<open>The extent that an operation is about to put into a collection.\<close>

definition work :: "extent_env \<Rightarrow> estate \<Rightarrow> uintptr \<Rightarrow> (uintptr \<rightharpoonup> extent) \<Rightarrow> uintptr set \<Rightarrow> uintptr set
    \<Rightarrow> (extent_state \<Rightarrow> uintptr list) \<Rightarrow> bool" where
  "work en s d B I V L \<longleftrightarrow> est_inv en s {d} B I V L \<and> d \<notin> I \<and> \<not> extent_slab_get (es_mem s d)
     \<and> extent_addr_get (es_mem s d) = extent_base_get (es_mem s d)"

lemma state_set_get:
  "extent_addr_get (extent_state_set e st) = extent_addr_get e" "extent_base_get (extent_state_set e st) = extent_base_get e"
  "extent_size_get (extent_state_set e st) = extent_size_get e" "extent_slab_get (extent_state_set e st) = extent_slab_get e"
  "extent_state_get (extent_state_set e st) = st" "fpg (extent_state_set e st) = fpg e" "npg (extent_state_set e st) = npg e"
  "extent_committed_get (extent_state_set e st) = extent_committed_get e"
  by (simp_all add: fpg_def npg_def get_view view_sets)

lemma owned_use: "est_inv en s A B I V L \<Longrightarrow> own (es_pages s) p = Some n \<Longrightarrow> p < 2 ^ 64 \<Longrightarrow>
    n \<in> uses A B L \<and> covers I n (es_mem s n) p"
  using geoD(6) [OF est_invD(4), of en s A B I V L p n] by blast

text \<open>A neighbour that may be coalesced is a member of the collection and its extent is adjacent.\<close>

lemma neighbour:
  assumes "est_inv en s {d} B I V L" "k \<noteq> extent_state_active" "extent_can_coalesce en k d n s"
    and "own (es_pages s) p = Some n" "p < 2 ^ 64"
  shows "n \<in> set (L k)" "n \<noteq> d" "n \<notin> I" "\<not> extent_slab_get (es_mem s n)"
    "extent_addr_get (es_mem s n) = extent_base_get (es_mem s n)"
    "p = fpg (es_mem s d) + npg (es_mem s d) \<Longrightarrow> fpg (es_mem s n) = p"
    "Suc p = fpg (es_mem s d) \<Longrightarrow> fpg (es_mem s n) + npg (es_mem s n) = fpg (es_mem s d)"
proof -
  note i = est_invD [OF assms(1)] and o = owned_use [OF assms(1,4,5)]
  have st: "ev_arena (extent_view (es_mem s n)) = unat (en_ind en)" "extent_state_get (es_mem s n) = k"
    using assms(2,3) i(6) by (simp_all add: extent_can_coalesce_def arena_ind_view conts_def)
  have "n \<noteq> d" using i(7) st(2) assms(2) by (auto simp: roles_def active_desc_def)
  moreover have "n \<notin> dom B" using i(7) st assms(2) by (auto simp: roles_def active_desc_def foreign_desc_def)
  ultimately have "n \<in> members L" using o by (auto simp: uses_def)
  then obtain j where j: "n \<in> set (L j)" by (auto simp: members_def)
  then have c: "cached_desc en j (es_mem s n)" using i(7) by (simp add: roles_def)
  with st(2) have "j = k" by (simp add: cached_desc_def)
  with j c show n: "n \<in> set (L k)" "n \<noteq> d" "\<not> extent_slab_get (es_mem s n)"
    "extent_addr_get (es_mem s n) = extent_base_get (es_mem s n)"
    using \<open>n \<noteq> d\<close> by (simp_all add: cached_desc_def)
  show nI: "n \<notin> I" using partsD(2) [OF assms(1) \<open>n \<in> members L\<close>] by simp
  have ok: "ext_ok (es_mem s n)" "ext_ok (es_mem s d)" using geoD(4) [OF i(4)] o by (simp_all add: uses_def)
  have ap: "apart (es_mem s d) (es_mem s n)" using geoD(5) [OF i(4), of d n] o n(2) by (auto simp: uses_def)
  have p: "p = fpg (es_mem s n) \<or> p = lpg (es_mem s n)" using o nI by (auto simp: covers_def)
  note kn = ext_okD [OF ok(1)] and kd = ext_okD [OF ok(2)]
  show "fpg (es_mem s n) = p" if "p = fpg (es_mem s d) + npg (es_mem s d)"
    using that p ap kn(2,5,7) kd(2,5,7) unfolding apart_def by linarith
  show "fpg (es_mem s n) + npg (es_mem s n) = fpg (es_mem s d)" if "Suc p = fpg (es_mem s d)"
    using that p ap kn(2,5,7) kd(2,5,7) unfolding apart_def by linarith
qed

lemma coalesce_ok:
  assumes "work en s d B I V L" "k \<noteq> extent_state_active" "n \<in> set (L k)" "n \<noteq> d"
    and "if forward then fpg (es_mem s n) = fpg (es_mem s d) + npg (es_mem s d)
      else fpg (es_mem s d) = fpg (es_mem s n) + npg (es_mem s n)"
  shows "\<exists>err s' V' L'. extent_coalesce en k d n forward s = Some (err, s')
    \<and> work en s' (if err \<or> forward then d else n) B I V' L' \<and> es_maps s' = es_maps s
    \<and> length (L' k) = (if err then length (L k) else length (L k) - 1) \<and> (\<forall>j. j \<noteq> k \<longrightarrow> L' j = L j)"
proof -
  have w: "est_inv en s {d} B I V L" "d \<notin> I" "\<not> extent_slab_get (es_mem s d)"
    "extent_addr_get (es_mem s d) = extent_base_get (es_mem s d)" using assms(1) by (simp_all add: work_def)
  note i = est_invD [OF w(1)]
  have nm: "n \<in> members L" by (rule in_members [of n L k, OF assms(3)])
  have nI: "n \<notin> I" using partsD(2) [OF w(1) nm] by simp
  have c: "cached_desc en k (es_mem s n)" using i(7) assms(3) by (simp add: roles_def)
  from activate_ok [OF w(1) assms(3,2)] obtain s1 where
    s1: "extent_activate_locked en k n s = Some s1" "est_inv en s1 {n, d} B I V (L(k := remove1 n (L k)))"
      "es_mem s1 = (es_mem s)(n := extent_state_set (es_mem s n) extent_state_active)" "es_maps s1 = es_maps s" by blast
  let ?L = "L(k := remove1 n (L k))"
  have len: "length (?L k) = length (L k) - 1" using assms(3) by (simp add: length_remove1)
  have pos: "0 < length (L k)" using assms(3) by (cases "L k") auto
  define a where "a = (if forward then d else n)"
  define b where "b = (if forward then n else d)"
  have ab: "a \<in> {n, d}" "b \<in> {n, d}" "a \<noteq> b" "a \<notin> I" "b \<notin> I" "{n, d} - {b} = {a}"
    using assms(4) nI w(2) by (auto simp: a_def b_def)
  have adj: "fpg (es_mem s1 b) = fpg (es_mem s1 a) + npg (es_mem s1 a)"
    using assms(4,5) by (cases forward) (simp_all add: a_def b_def s1(3) state_set_get)
  obtain err s2 where m: "extent_merge_impl en a b s1 = (err, s2)" by (cases "extent_merge_impl en a b s1")
  note mo = merge_ok [OF s1(2) ab(1-5) adj m]
  have co: "extent_coalesce en k d n forward s = (if err then extent_deactivate_locked en k n s2 else Some s2) \<bind> (\<lambda>s. Some (err, s))"
    by (simp add: extent_coalesce_def s1(1) a_def [symmetric] b_def [symmetric] m)
  have flat: "\<not> extent_slab_get (es_mem s1 e)" "extent_addr_get (es_mem s1 e) = extent_base_get (es_mem s1 e)" if "e \<in> {n, d}" for e
    using that w(3,4) c by (auto simp: s1(3) state_set_get cached_desc_def)
  show ?thesis
  proof (cases err)
    case True
    from mo(3) [OF True] have e2: "est_inv en s2 {n, d} B I V ?L" "es_mem s2 = es_mem s1" by simp_all
    from deactivate_ok [OF e2(1) _ nI assms(2), unfolded e2(2), OF _ flat] obtain s3 where
      s3: "extent_deactivate_locked en k n s2 = Some s3" "est_inv en s3 ({n, d} - {n}) B I V (?L(k := ?L k @ [n]))"
        "es_mem s3 = (es_mem s1)(n := extent_state_set (es_mem s1 n) k)" "es_maps s3 = es_maps s2" by auto
    have "{n, d} - {n} = {d}" using assms(4) by auto
    with s3 have "work en s3 d B I V (?L(k := ?L k @ [n]))"
      using w(2) flat [of d] assms(4) by (simp add: work_def)
    moreover have "extent_coalesce en k d n forward s = Some (True, s3)" using co True s3(1) by simp
    moreover have "length ((?L(k := ?L k @ [n])) k) = length (L k)" using len pos by simp
    ultimately show ?thesis using True s3(4) mo(2) s1(4)
      by (intro exI [of _ True] exI [of _ s3] exI [of _ V] exI [of _ "?L(k := ?L k @ [n])"]) auto
  next
    case False
    from mo(4) [OF False] ab(6) have e2: "est_inv en s2 {a} B I (insert b V) ?L"
      "es_mem s2 a = merged_desc (es_mem s1 a) (es_mem s1 b)" by simp_all
    have u: "a \<in> uses {n, d} B ?L" "b \<in> uses {n, d} B ?L" using ab(1,2) by (auto simp: uses_def)
    have ok: "ext_ok (es_mem s1 a)" "ext_ok (es_mem s1 b)" using geoD(4) [OF est_invD(4) [OF s1(2)]] u by simp_all
    have "fpg (es_mem s1 a) + npg (es_mem s1 a) + npg (es_mem s1 b) \<le> 2 ^ 35" using ext_okD(4) [OF ok(2)] adj by simp
    note mv = merged_view(1,2) [OF ok this]
    have "work en s2 a B I (insert b V) ?L"
      using e2 mv flat [OF ab(1)] ab(4) by (simp add: work_def get_view)
    moreover have "extent_coalesce en k d n forward s = Some (False, s2)" using co False by simp
    moreover have "a = (if err \<or> forward then d else n)" using False by (simp add: a_def)
    ultimately show ?thesis using False len mo(2) s1(4) by (intro exI [of _ False] exI [of _ s2] exI [of _ "insert b V"] exI [of _ ?L]) auto
  qed
qed

lemma lock_owned:
  assumes "extent_lock_from_addr addr io s = Some n" "page_number addr = of_nat p"
  shows "own (es_pages s) p = Some n"
  using assms by (auto simp: extent_lock_from_addr_def own_def split: option.splits if_splits)

lemma coalesce_neighbour_ok:
  assumes "work en s d B I V L" "k \<noteq> extent_state_active"
  shows "\<exists>r s' V' L'. coalesce_neighbour en k io d forward s = Some (r, s') \<and> es_maps s' = es_maps s
    \<and> work en s' (if forward then d else case r of None \<Rightarrow> d | Some n \<Rightarrow> n) B I V' L'
    \<and> (case r of None \<Rightarrow> length (L' k) = length (L k) | Some n \<Rightarrow> length (L' k) < length (L k))
    \<and> (\<forall>j. j \<noteq> k \<longrightarrow> L' j = L j)"
proof -
  have w: "est_inv en s {d} B I V L" using assms(1) by (simp add: work_def)
  have ok: "ext_ok (es_mem s d)" using geoD(4) [OF est_invD(4) [OF w], of d] by (simp add: uses_def)
  note kd = ext_okD [OF ok]
  define p where "p = (if forward then fpg (es_mem s d) + npg (es_mem s d) else fpg (es_mem s d) - 1)"
  define addr where "addr = (if forward then extent_past_get (es_mem s d) else extent_before_get (es_mem s d))"
  have "page_number addr = of_nat p" using page_numbers(3,4) [OF ok] by (simp add: addr_def p_def)
  moreover have "p \<le> fpg (es_mem s d) + npg (es_mem s d)" by (simp add: p_def trans_le_add1)
  from order_trans [OF this kd(4)] have "p < 2 ^ 64" by (rule order_le_less_trans) simp
  ultimately have pn: "page_number addr = of_nat p" "p < 2 ^ 64" by simp_all
  have cn: "coalesce_neighbour en k io d forward s = (case extent_lock_from_addr addr io s of
           None \<Rightarrow> Some (None, s)
         | Some n \<Rightarrow>
             if extent_can_coalesce en k d n s
             then do { (err, s) \<leftarrow> extent_coalesce en k d n forward s; Some (if err then None else Some n, s) }
             else Some (None, s))"
    by (simp add: coalesce_neighbour_def addr_def Let_def)
  show ?thesis
  proof (cases "\<exists>n. extent_lock_from_addr addr io s = Some n \<and> extent_can_coalesce en k d n s")
    case False
    then have "coalesce_neighbour en k io d forward s = Some (None, s)" using cn by (auto split: option.splits)
    then show ?thesis using assms(1) by (intro exI [of _ None] exI [of _ s] exI [of _ V] exI [of _ L]) auto
  next
    case True
    then obtain n where n: "extent_lock_from_addr addr io s = Some n" "extent_can_coalesce en k d n s" by blast
    note nb = neighbour [OF w assms(2) n(2) lock_owned [OF n(1) pn(1)] pn(2)]
    have adj: "if forward then fpg (es_mem s n) = fpg (es_mem s d) + npg (es_mem s d)
      else fpg (es_mem s d) = fpg (es_mem s n) + npg (es_mem s n)"
      using nb(6,7) kd(3) by (simp add: p_def)
    from coalesce_ok [OF assms nb(1,2) adj] obtain err s' V' L' where
      r: "extent_coalesce en k d n forward s = Some (err, s')"
        "work en s' (if err \<or> forward then d else n) B I V' L'" "es_maps s' = es_maps s"
        "length (L' k) = (if err then length (L k) else length (L k) - 1)" "\<forall>j. j \<noteq> k \<longrightarrow> L' j = L j" by blast
    have "coalesce_neighbour en k io d forward s = Some (if err then None else Some n, s')"
      using cn n r(1) by simp
    moreover have "length (L k) - 1 < length (L k)" using nb(1) by (cases "L k") auto
    ultimately show ?thesis using r(2-5)
      by (intro exI [of _ "if err then None else Some n"] exI [of _ s'] exI [of _ V'] exI [of _ L']) auto
  qed
qed

lemma try_coalesce_ok:
  assumes "work en s d B I V L" "k \<noteq> extent_state_active"
  shows "\<exists>d' c s' V' L'. extent_try_coalesce_impl en k io d s = Some ((d', c), s') \<and> es_maps s' = es_maps s
    \<and> work en s' d' B I V' L' \<and> length (L' k) \<le> length (L k) \<and> (c = Some True \<longrightarrow> length (L' k) < length (L k))
    \<and> (\<forall>j. j \<noteq> k \<longrightarrow> L' j = L j)"
  using assms(1)
proof (induction "length (L k)" arbitrary: s d V L rule: less_induct)
  case less
  from coalesce_neighbour_ok [OF less.prems assms(2), of io True, unfolded if_True] obtain nx s1 V1 L1 where
    n: "coalesce_neighbour en k io d True s = Some (nx, s1)" "es_maps s1 = es_maps s" "work en s1 d B I V1 L1"
      "case nx of None \<Rightarrow> length (L1 k) = length (L k) | Some n \<Rightarrow> length (L1 k) < length (L k)"
      "\<forall>j. j \<noteq> k \<longrightarrow> L1 j = L j" by blast
  show ?case
  proof (cases "nx \<noteq> None \<and> ex_delay_coalesce (es_ex s1 k)")
    case True
    then have "extent_try_coalesce_impl en k io d s = Some ((d, Some True), s1)"
      using n(1) by (subst extent_try_coalesce_impl.simps) simp
    with n True show ?thesis by fastforce
  next
    case False
    from coalesce_neighbour_ok [OF n(3) assms(2), of io False, unfolded if_False simp_thms] obtain pv s2 V2 L2 where
      p: "coalesce_neighbour en k io d False s1 = Some (pv, s2)" "es_maps s2 = es_maps s1"
        "work en s2 (case pv of None \<Rightarrow> d | Some n \<Rightarrow> n) B I V2 L2"
        "case pv of None \<Rightarrow> length (L2 k) = length (L1 k) | Some n \<Rightarrow> length (L2 k) < length (L1 k)"
        "\<forall>j. j \<noteq> k \<longrightarrow> L2 j = L1 j" by blast
    define d2 where "d2 = (case pv of None \<Rightarrow> d | Some n \<Rightarrow> n)"
    have len: "length (L2 k) \<le> length (L k)" "nx \<noteq> None \<or> pv \<noteq> None \<Longrightarrow> length (L2 k) < length (L k)"
      using n(4) p(4) by (auto split: option.splits)
    have unf: "extent_try_coalesce_impl en k io d s =
        (if pv \<noteq> None \<and> ex_delay_coalesce (es_ex s2 k) then Some ((d2, Some True), s2)
         else if nx \<noteq> None \<or> pv \<noteq> None then extent_try_coalesce_impl en k io d2 s2
         else Some ((d2, if ex_delay_coalesce (es_ex s2 k) then Some False else None), s2))"
      using n(1) p(1) False by (subst extent_try_coalesce_impl.simps) (auto simp: d2_def)
    have w2: "work en s2 d2 B I V2 L2" using p(3) by (simp add: d2_def)
    have oth: "\<forall>j. j \<noteq> k \<longrightarrow> L2 j = L j" "es_maps s2 = es_maps s" using n(2,5) p(2,5) by simp_all
    show ?thesis
    proof (cases "(nx \<noteq> None \<or> pv \<noteq> None) \<and> \<not> (pv \<noteq> None \<and> ex_delay_coalesce (es_ex s2 k))")
      case True
      then have "extent_try_coalesce_impl en k io d s = extent_try_coalesce_impl en k io d2 s2" unfolding unf by auto
      moreover from less.hyps [OF len(2) w2] True obtain d' c s' V' L' where
        "extent_try_coalesce_impl en k io d2 s2 = Some ((d', c), s')" "es_maps s' = es_maps s2"
        "work en s' d' B I V' L'" "length (L' k) \<le> length (L2 k)" "\<forall>j. j \<noteq> k \<longrightarrow> L' j = L2 j" by blast
      moreover have "length (L2 k) < length (L k)" using True len(2) by blast
      ultimately show ?thesis using oth
        by (intro exI [of _ d'] exI [of _ c] exI [of _ s'] exI [of _ V'] exI [of _ L']) auto
    next
      case False
      then obtain c where "extent_try_coalesce_impl en k io d s = Some ((d2, c), s2)"
        "c = Some True \<longrightarrow> pv \<noteq> None" unfolding unf by (auto split: if_splits)
      then show ?thesis using w2 oth len
        by (intro exI [of _ d2] exI [of _ c] exI [of _ s2] exI [of _ V2] exI [of _ L2]) auto
    qed
  qed
qed

section \<open>Recording\<close>

lemma coalesce_large_ok:
  assumes "work en s d B I V L" "k \<noteq> extent_state_active"
  shows "\<exists>d' s' V' L'. coalesce_large_loop en k d s = Some (d', s') \<and> es_maps s' = es_maps s \<and> work en s' d' B I V' L'"
  using assms(1)
proof (induction "length (L k)" arbitrary: s d V L rule: less_induct)
  case less
  from try_coalesce_ok [OF less.prems assms(2), of True] obtain d1 c s1 V1 L1 where
    t: "extent_try_coalesce_impl en k True d s = Some ((d1, c), s1)" "es_maps s1 = es_maps s" "work en s1 d1 B I V1 L1"
      "c = Some True \<longrightarrow> length (L1 k) < length (L k)" by blast
  have unf: "coalesce_large_loop en k d s = (if c = Some True then coalesce_large_loop en k d1 s1 else Some (d1, s1))"
    by (subst coalesce_large_loop.simps) (simp add: extent_try_coalesce_large_def t(1))
  show ?case
  proof (cases "c = Some True")
    case True
    from less.hyps [OF t(4) [rule_format, OF True] t(3)] unf True t(2) show ?thesis by auto
  next
    case False
    with unf t show ?thesis by auto
  qed
qed

lemma set_work:
  assumes "work en s d B I V L" "same_span e (es_mem s d)" "active_desc en e"
    and "\<not> extent_slab_get e" "extent_addr_get e = extent_base_get e"
  shows "work en (mem_set s d e) d B I V L"
  using assms set_active [of en s "{d}" B I V L d e] by (simp add: work_def)

lemma deactivate_work:
  assumes "work en s d B I V L" "k \<noteq> extent_state_active"
  shows "\<exists>s'. extent_deactivate_locked en k d s = Some s' \<and> est_inv en s' {} B I V (L(k := L k @ [d]))
    \<and> es_maps s' = es_maps s"
  using deactivate_ok [of en s "{d}" B I V L d k] assms by (auto simp: work_def)

lemma record_ok:
  assumes "est_inv en s {d} B I V L" "extent_addr_get (es_mem s d) = extent_base_get (es_mem s d)"
    and "d \<in> I \<longrightarrow> extent_slab_get (es_mem s d)" "k \<noteq> extent_state_active"
  shows "\<exists>s' V' L'. extent_record en k d s = Some s' \<and> est_inv en s' {} B (I - {d}) V' L' \<and> es_maps s' = es_maps s"
proof -
  note i = est_invD [OF assms(1)]
  have act: "active_desc en (es_mem s d)" using i(7) by (simp add: roles_def)
  define s1 where "s1 = mem_set s d (extent_szind_set (es_mem s d) (of_nat SC_NSIZES))"
  have v: "extent_view (extent_szind_set e (of_nat SC_NSIZES)) = (extent_view e)\<lparr>ev_szind := SC_NSIZES\<rparr>" for e
    using view_szind_set [of "of_nat SC_NSIZES"] szind_ok [OF nsizes_ok] by (simp add: sc_macro_values(1))
  have i1: "est_inv en s1 {d} B I V L"
    unfolding s1_def by (rule set_active [OF assms(1)])
      (use act in \<open>simp_all add: same_span_def fpg_def npg_def get_view v active_desc_def\<close>)
  have m1: "extent_slab_get (es_mem s1 d) = extent_slab_get (es_mem s d)"
    "extent_addr_get (es_mem s1 d) = extent_base_get (es_mem s1 d)" "active_desc en (es_mem s1 d)" "es_maps s1 = es_maps s"
    using assms(2) act by (simp_all add: s1_def get_view v active_desc_def)
  define s2 where "s2 = (if extent_slab_get (es_mem s1 d)
    then (let s = extent_interior_deregister d s1 in mem_set s d (extent_slab_set (es_mem s d) False)) else s1)"
  have w2: "work en s2 d B (I - {d}) V L \<and> es_maps s2 = es_maps s"
  proof (cases "extent_slab_get (es_mem s1 d)")
    case True
    note id = interior_deregistered [OF i1, of d]
    have "est_inv en (mem_set (extent_interior_deregister d s1) d (extent_slab_set (es_mem s1 d) False)) {d} B (I - {d}) V L"
      by (rule set_active [OF id(1)])
        (use m1(3) id(2) in \<open>simp_all add: same_span_def fpg_def npg_def get_view view_sets active_desc_def\<close>)
    then show ?thesis using True m1(2,4) id by (simp add: s2_def work_def Let_def get_view view_sets)
  next
    case False
    then have "d \<notin> I" using assms(3) m1(1) by auto
    then show ?thesis using False i1 m1 by (simp add: s2_def work_def)
  qed
  define c where "c = (if \<not> ex_delay_coalesce (es_ex s2 k)
        then do { ((extent, _), s) \<leftarrow> extent_try_coalesce en k d s2; Some (extent, s) }
        else if SC_LARGE_MINCLASS \<le> extent_size_get (es_mem s2 d) then coalesce_large_loop en k d s2
        else Some (d, s2))"
  have rec: "extent_record en k d s = c \<bind> (\<lambda>(extent, s). extent_deactivate_locked en k extent s)"
    by (simp add: extent_record_def s1_def [symmetric] s2_def [symmetric] c_def)
  have "\<exists>d' s3 V' L'. c = Some (d', s3) \<and> es_maps s3 = es_maps s2 \<and> work en s3 d' B (I - {d}) V' L'"
    using try_coalesce_ok [of en s2 d B "I - {d}" V L k False] coalesce_large_ok [of en s2 d B "I - {d}" V L k] w2 assms(4)
    by (fastforce simp: c_def extent_try_coalesce_def)
  then obtain d' s3 V' L' where c: "c = Some (d', s3)" "es_maps s3 = es_maps s2" "work en s3 d' B (I - {d}) V' L'" by blast
  from deactivate_work [OF c(3) assms(4)] show ?thesis using rec c(1,2) w2 by auto
qed

lemma dalloc_ok:
  assumes "est_inv en s {d} B I V L" "d \<in> I \<longrightarrow> extent_slab_get (es_mem s d)" "k \<noteq> extent_state_active"
  shows "\<exists>s' V' L'. extents_dalloc en k d s = Some s' \<and> est_inv en s' {} B (I - {d}) V' L' \<and> es_maps s' = es_maps s"
proof -
  let ?e = "es_mem s d"
  have act: "active_desc en ?e" using est_invD(7) [OF assms(1)] by (simp add: roles_def)
  define e' where "e' = extent_zeroed_set (extent_addr_set ?e (extent_base_get ?e)) False"
  have base: "PAGE_ADDR2BASE (PAGE_ADDR2BASE a) = PAGE_ADDR2BASE a" for a
    by (simp add: PAGE_ADDR2BASE_def)
  have e': "extent_addr_get e' = extent_base_get e'" "extent_slab_get e' = extent_slab_get ?e" "same_span e' ?e"
    "active_desc en e'"
    using act by (simp_all add: e'_def same_span_def fpg_def npg_def get_view view_sets base active_desc_def)
  have "est_inv en (mem_set s d e') {d} B I V L" by (rule set_active [OF assms(1) _ e'(3,4)]) simp
  from record_ok [OF this _ _ assms(3)] e' assms(2)
  show ?thesis by (simp add: extents_dalloc_def e'_def mem_set_def)
qed

section \<open>Cutting out a request\<close>

lemma interior_cut:
  assumes "ext_ok e" "page_size esize" "a < 62" "holds_aligned e esize (2 ^ max 12 a)"
    and "lead = ALIGNMENT_CEILING (extent_base_get e) (PAGE_CEILING (2 ^ a)) - extent_base_get e"
    and "trail = extent_size_get e - lead - esize"
  shows "\<not> extent_size_get e < lead + esize" "unat lead + unat esize + unat trail = unat (extent_size_get e)"
    "unat (esize + trail) = unat esize + unat trail" "2 ^ max 12 a dvd unat (extent_base_get e) + unat lead"
    "lead \<noteq> 0 \<Longrightarrow> page_size lead" "trail \<noteq> 0 \<Longrightarrow> page_size trail" "page_size (esize + trail)"
    "2 ^ max 12 a dvd unat (extent_base_get e) \<Longrightarrow> lead = 0"
proof -
  note k = ext_okD [OF assms(1)]
  let ?b = "unat (extent_base_get e)" and ?w = "unat (extent_size_get e)" and ?k = "max 12 a"
  have sp: "in_space e" using k(1,4) by (simp add: in_space_def unat_base)
  obtain p where p: "?b \<le> p" "2 ^ ?k dvd p" "p + unat esize \<le> ?b + ?w" using assms(4) by (auto simp: holds_aligned_def)
  let ?n = "nat_round_up (2 ^ ?k) ?b"
  note na = unat_next_align [OF sp assms(3)]
  have n: "?b \<le> ?n" "?n \<le> p" using p(1,2) by (auto intro: nat_round_up_ge nat_round_up_least)
  have l: "unat lead = ?n - ?b" unfolding assms(5) using na n(1) by (simp add: unat_diff_eq word_le_nat_alt)
  have "?n \<le> ?b" if "2 ^ ?k dvd ?b" using that by (intro nat_round_up_least) simp_all
  then show "2 ^ ?k dvd ?b \<Longrightarrow> lead = 0" using l by (simp add: word_unat_eq_iff)
  have lw: "unat lead + unat esize \<le> ?w" using l n p(3) by simp
  have w: "?w \<le> 2 ^ 47" using k(1,4) by simp
  have le: "unat (lead + esize) = unat lead + unat esize" using lw w by (intro unat_add_eq) simp
  show "\<not> extent_size_get e < lead + esize" using lw le by (simp add: word_less_nat_alt)
  have t: "unat trail = ?w - unat lead - unat esize"
    unfolding assms(6) using lw by (simp add: unat_diff_eq word_le_nat_alt)
  show s: "unat lead + unat esize + unat trail = ?w" using t lw by simp
  show et: "unat (esize + trail) = unat esize + unat trail" using s w by (intro unat_add_eq) simp
  show "2 ^ ?k dvd ?b + unat lead" using l n by simp
  have "4096 dvd (2::nat) ^ ?k" using le_imp_power_dvd [of 12 ?k "2::nat"] by simp
  then have "4096 dvd ?n" using dvd_trans dvd_nat_round_up by blast
  then have dl: "4096 dvd unat lead" using base_page [of e] by (simp add: l dvd_diff_nat)
  have de: "4096 dvd unat esize" "0 < unat esize" using assms(2) by (simp_all add: page_size_def)
  have dw: "4096 dvd ?w" using k(1) by simp
  have dt: "4096 dvd unat trail" unfolding t by (intro dvd_diff_nat dl de dw)
  show "lead \<noteq> 0 \<Longrightarrow> page_size lead" "trail \<noteq> 0 \<Longrightarrow> page_size trail" "page_size (esize + trail)"
    using dl dt de et by (simp_all add: page_size_def unat_gt_0)
qed

text \<open>An extent that was cut out of another.\<close>

definition flat :: "extent \<Rightarrow> bool" where
  "flat e \<longleftrightarrow> \<not> extent_slab_get e \<and> extent_addr_get e = extent_base_get e"

definition cut_ok :: "extent \<Rightarrow> size_t \<Rightarrow> nat \<Rightarrow> bool \<Rightarrow> szind \<Rightarrow> uintptr \<Rightarrow> bool" where
  "cut_ok e esize a slab szind na \<longleftrightarrow> extent_addr_get e = extent_base_get e \<and> extent_size_get e = esize
     \<and> 2 ^ max 12 a dvd unat (extent_base_get e) \<and> (extent_slab_get e \<longrightarrow> slab) \<and> ev_szind (extent_view e) = unat szind
     \<and> (na \<noteq> 0 \<longrightarrow> extent_base_get e = na)"

lemma active_in: "est_inv en s A B I V L \<Longrightarrow> d \<in> A \<Longrightarrow> active_desc en (es_mem s d) \<and> ext_ok (es_mem s d)"
  using est_invD(7) [of en s A B I V L] geoD(4) [OF est_invD(4), of en s A B I V L d] by (simp add: roles_def uses_def)

lemma base_of: "extent_addr_get e = extent_addr_get e' \<Longrightarrow> extent_base_get e = extent_base_get e'"
  by (simp add: get_view)

lemma unused_interior: "est_inv en s A B I V L \<Longrightarrow> t \<notin> uses A B L \<Longrightarrow> t \<notin> I"
  using est_invD(3) [of en s A B I V L] by (auto simp: uses_def)

lemma cut_lead_ok:
  assumes "est_inv en s {d} B I V L" "d \<notin> I" "flat (es_mem s d)" "unat szind \<le> SC_NSIZES"
    and "lead \<noteq> 0 \<longrightarrow> page_size lead" "page_size rest" "unat lead + unat rest = unat (extent_size_get (es_mem s d))"
    and r: "(r, s') = (if lead \<noteq> 0 then extent_split_impl en d lead (of_nat SC_NSIZES) False rest szind slab s else (Some d, s))"
  shows "es_maps s' = es_maps s"
    "r = None \<Longrightarrow> lead \<noteq> 0 \<and> (\<exists>V'. est_inv en s' {d} B I V' L)"
    "r = Some e \<Longrightarrow> (\<exists>V'. est_inv en s' (if lead \<noteq> 0 then {e, d} else {e}) B I V' L) \<and> (lead \<noteq> 0 \<longrightarrow> e \<noteq> d \<and> flat (es_mem s' d))
      \<and> (lead = 0 \<longrightarrow> e = d) \<and> e \<notin> I \<and> extent_addr_get (es_mem s' e) = extent_base_get (es_mem s' e)
      \<and> unat (extent_base_get (es_mem s' e)) = unat (extent_base_get (es_mem s d)) + unat lead
      \<and> extent_size_get (es_mem s' e) = rest \<and> (extent_slab_get (es_mem s' e) \<longrightarrow> slab)
      \<and> (lead \<noteq> 0 \<longrightarrow> ev_szind (extent_view (es_mem s' e)) = unat szind)"
proof -
  let ?e = "es_mem s d"
  have fl: "extent_addr_get ?e = extent_base_get ?e" "\<not> extent_slab_get ?e" using assms(3) by (simp_all add: flat_def)
  have ok: "ext_ok ?e" using active_in [OF assms(1)] by simp
  have *: "es_maps s' = es_maps s \<and> (r = None \<longrightarrow> lead \<noteq> 0 \<and> (\<exists>V'. est_inv en s' {d} B I V' L))
    \<and> (r = Some e \<longrightarrow> (\<exists>V'. est_inv en s' (if lead \<noteq> 0 then {e, d} else {e}) B I V' L) \<and> (lead \<noteq> 0 \<longrightarrow> e \<noteq> d \<and> flat (es_mem s' d))
      \<and> (lead = 0 \<longrightarrow> e = d) \<and> e \<notin> I \<and> extent_addr_get (es_mem s' e) = extent_base_get (es_mem s' e)
      \<and> unat (extent_base_get (es_mem s' e)) = unat (extent_base_get ?e) + unat lead
      \<and> extent_size_get (es_mem s' e) = rest \<and> (extent_slab_get (es_mem s' e) \<longrightarrow> slab)
      \<and> (lead \<noteq> 0 \<longrightarrow> ev_szind (extent_view (es_mem s' e)) = unat szind))"
  proof (cases "lead = 0")
    case True
    then have "r = Some d" "s' = s" "extent_size_get ?e = rest" using r assms(7) by (simp_all add: word_unat_eq_iff)
    then show ?thesis using True assms(1,2) fl by auto
  next
    case False
    then have sp: "extent_split_impl en d lead (of_nat SC_NSIZES) False rest szind slab s = (r, s')" using r by simp
    note so = split_ok [OF assms(1) singletonI assms(2) assms(5) [rule_format, OF False] assms(6,7) nsizes_ok assms(4) sp]
    show ?thesis
    proof (cases r)
      case None
      from so(3) [OF None] so(1) None False show ?thesis by simp
    next
      case (Some t)
      note s3 = so(4) [OF Some]
      have td: "t \<noteq> d" using s3 by (auto simp: uses_def)
      have f: "flat (es_mem s' d)"
        using s3 fl lead_get [OF assms(5) [rule_format, OF False] nsizes_ok, where e = ?e] base_of [of "es_mem s' d" ?e] by (simp add: flat_def)
      have "unat (extent_size_get ?e) + 4096 * fpg ?e \<le> 2 ^ 47" using ext_okD(1,4) [OF ok] by simp
      then have "unat (extent_base_get ?e + lead) = unat (extent_base_get ?e) + unat lead"
        using unat_base [of ?e] assms(7) by (intro unat_add_eq) simp
      then show ?thesis using Some s3 td f False so(1) unused_interior [OF assms(1)] by auto
    qed
  qed
  then show "es_maps s' = es_maps s" "r = None \<Longrightarrow> lead \<noteq> 0 \<and> (\<exists>V'. est_inv en s' {d} B I V' L)"
    "r = Some e \<Longrightarrow> (\<exists>V'. est_inv en s' (if lead \<noteq> 0 then {e, d} else {e}) B I V' L) \<and> (lead \<noteq> 0 \<longrightarrow> e \<noteq> d \<and> flat (es_mem s' d))
      \<and> (lead = 0 \<longrightarrow> e = d) \<and> e \<notin> I \<and> extent_addr_get (es_mem s' e) = extent_base_get (es_mem s' e)
      \<and> unat (extent_base_get (es_mem s' e)) = unat (extent_base_get ?e) + unat lead
      \<and> extent_size_get (es_mem s' e) = rest \<and> (extent_slab_get (es_mem s' e) \<longrightarrow> slab)
      \<and> (lead \<noteq> 0 \<longrightarrow> ev_szind (extent_view (es_mem s' e)) = unat szind)" by simp_all
qed

lemma cut_trail_ok:
  assumes "est_inv en s A B I V L" "e \<in> A" "e \<notin> I" "extent_addr_get (es_mem s e) = extent_base_get (es_mem s e)"
    and "unat szind \<le> SC_NSIZES" "page_size esize" "trail \<noteq> 0 \<longrightarrow> page_size trail"
    and "unat esize + unat trail = unat (extent_size_get (es_mem s e))"
    and r: "(r, s') = (if trail \<noteq> 0 then extent_split_impl en e esize szind slab trail (of_nat SC_NSIZES) False s else (None, s))"
  shows "es_maps s' = es_maps s" "\<And>d. d \<in> A - {e} \<Longrightarrow> es_mem s' d = es_mem s d"
    "trail \<noteq> 0 \<Longrightarrow> r = None \<Longrightarrow> \<exists>V'. est_inv en s' A B I V' L \<and> es_mem s' e = es_mem s e"
    "trail \<noteq> 0 \<longrightarrow> r \<noteq> None \<Longrightarrow> (\<exists>V'. est_inv en s' (A \<union> set_option r) B I V' L)
      \<and> extent_addr_get (es_mem s' e) = extent_addr_get (es_mem s e) \<and> extent_slab_get (es_mem s' e) = extent_slab_get (es_mem s e)
      \<and> extent_size_get (es_mem s' e) = esize
      \<and> ev_szind (extent_view (es_mem s' e)) = (if trail \<noteq> 0 then unat szind else ev_szind (extent_view (es_mem s e)))
      \<and> (\<forall>t\<in>set_option r. t \<notin> A \<and> t \<notin> I \<and> flat (es_mem s' t))"
proof -
  have *: "es_maps s' = es_maps s \<and> (\<forall>d \<in> A - {e}. es_mem s' d = es_mem s d)
    \<and> (trail \<noteq> 0 \<longrightarrow> r = None \<longrightarrow> (\<exists>V'. est_inv en s' A B I V' L \<and> es_mem s' e = es_mem s e))
    \<and> ((trail \<noteq> 0 \<longrightarrow> r \<noteq> None) \<longrightarrow> (\<exists>V'. est_inv en s' (A \<union> set_option r) B I V' L)
      \<and> extent_addr_get (es_mem s' e) = extent_addr_get (es_mem s e) \<and> extent_slab_get (es_mem s' e) = extent_slab_get (es_mem s e)
      \<and> extent_size_get (es_mem s' e) = esize
      \<and> ev_szind (extent_view (es_mem s' e)) = (if trail \<noteq> 0 then unat szind else ev_szind (extent_view (es_mem s e)))
      \<and> (\<forall>t\<in>set_option r. t \<notin> A \<and> t \<notin> I \<and> flat (es_mem s' t)))"
  proof (cases "trail = 0")
    case True
    then have "r = None" "s' = s" "extent_size_get (es_mem s e) = esize" using r assms(8) by (simp_all add: word_unat_eq_iff)
    then show ?thesis using True assms(1) by auto
  next
    case False
    then have sp: "extent_split_impl en e esize szind slab trail (of_nat SC_NSIZES) False s = (r, s')" using r by simp
    note so = split_ok [OF assms(1,2,3,6) assms(7) [rule_format, OF False] assms(8,5) nsizes_ok sp]
    show ?thesis
    proof (cases r)
      case None
      with so(1-3) False show ?thesis by blast
    next
      case (Some t)
      note s4 = so(4) [OF Some]
      have "t \<notin> A" "t \<notin> I" using s4 unused_interior [OF assms(1)] by (auto simp: uses_def)
      with s4 so(1,2) Some False show ?thesis
        using lead_get(1-3,6) [OF assms(6,5), where e = "es_mem s e"] by (auto simp: flat_def)
    qed
  qed
  then show "es_maps s' = es_maps s" "\<And>d. d \<in> A - {e} \<Longrightarrow> es_mem s' d = es_mem s d"
    "trail \<noteq> 0 \<Longrightarrow> r = None \<Longrightarrow> \<exists>V'. est_inv en s' A B I V' L \<and> es_mem s' e = es_mem s e"
    "trail \<noteq> 0 \<longrightarrow> r \<noteq> None \<Longrightarrow> (\<exists>V'. est_inv en s' (A \<union> set_option r) B I V' L)
      \<and> extent_addr_get (es_mem s' e) = extent_addr_get (es_mem s e) \<and> extent_slab_get (es_mem s' e) = extent_slab_get (es_mem s e)
      \<and> extent_size_get (es_mem s' e) = esize
      \<and> ev_szind (extent_view (es_mem s' e)) = (if trail \<noteq> 0 then unat szind else ev_szind (extent_view (es_mem s e)))
      \<and> (\<forall>t\<in>set_option r. t \<notin> A \<and> t \<notin> I \<and> flat (es_mem s' t))" by blast+
qed

lemma update_own_ok:
  assumes "own (es_pages s) p = Some d" "p < 2 ^ 64"
  shows "\<exists>s'. szind_slab_update (of_nat p) z b s = Some s' \<and> pages_only s s'
    \<and> (\<forall>n<2 ^ 64. own (es_pages s') n = own (es_pages s) n)"
proof -
  obtain z' b' where e: "es_pages s (of_nat p) = Some (d, z', b')" using assms(1) by (auto simp: own_def)
  define s' where "s' = s\<lparr>es_pages := (es_pages s)(of_nat p \<mapsto> (d, z, b))\<rparr>"
  have "szind_slab_update (of_nat p) z b s = Some s'" by (simp add: szind_slab_update_def e s'_def)
  moreover have "pages_only s s'" by (simp add: pages_only_def s'_def)
  moreover have "own (es_pages s') n = own (es_pages s) n" if "n < 2 ^ 64" for n
    using e that assms(2) by (simp add: own_def s'_def of_nat_64_eq del: of_nat_eq_iff)
  ultimately show ?thesis by blast
qed

lemma szind_slab_inv:
  assumes "est_inv en s A B I V L" "d \<in> A" "p = fpg (es_mem s d) \<or> p = lpg (es_mem s d)"
  shows "\<exists>s'. szind_slab_update (of_nat p) z b s = Some s' \<and> est_inv en s' A B I V L \<and> es_mem s' = es_mem s
    \<and> es_maps s' = es_maps s"
proof -
  note i = est_invD [OF assms(1)] and k = ext_okD [OF conjunct2 [OF active_in [OF assms(1,2)]]]
  have p: "p < 2 ^ 64" using assms(3) k(5,6) by auto
  have "own (es_pages s) p = Some d"
    using geoD(6) [OF i(4) p, of d] assms(2,3) by (auto simp: uses_def covers_def)
  from update_own_ok [OF this p, of z b] obtain s' where
    s': "szind_slab_update (of_nat p) z b s = Some s'" "pages_only s s'" "\<forall>n<2 ^ 64. own (es_pages s') n = own (es_pages s) n"
    by blast
  note po = pages_onlyD [OF s'(2)]
  have "geo (es_mem s') (own (es_pages s')) (uses A B L) I" using geo_cong [OF i(4)] s'(3) po by simp
  then have "est_inv en s' A B I V L"
    by (intro keep_active [OF assms(1) works_pages [OF s'(2)]]) (use i(3,7) po in \<open>auto simp: roles_def\<close>)
  with s'(1) po show ?thesis by blast
qed

text \<open>The last step when nothing was cut off.\<close>

lemma whole_ok:
  assumes "est_inv en s {e} B I V L" "extent_addr_get (es_mem s e) = extent_base_get (es_mem s e)" "unat szind \<le> SC_NSIZES"
  shows "\<exists>s'. (let s = mem_set s e (extent_szind_set (es_mem s e) szind)
       in if szind \<noteq> of_nat SC_NSIZES
          then do {
            s \<leftarrow> szind_slab_update (page_number (extent_addr_get (es_mem s e))) szind slab s;
            s \<leftarrow> (if slab \<and> extent_size_get (es_mem s e) > PAGE
                 then szind_slab_update (page_number (extent_past_get (es_mem s e) - PAGE)) szind slab s
                 else Some s);
            Some (r, s)
          }
          else Some (r, s)) = Some (r, s') \<and> est_inv en s' {e} B I V L \<and> es_maps s' = es_maps s
    \<and> extent_view (es_mem s' e) = (extent_view (es_mem s e))\<lparr>ev_szind := unat szind\<rparr>"
proof -
  define s1 where "s1 = mem_set s e (extent_szind_set (es_mem s e) szind)"
  have v: "extent_view (extent_szind_set x szind) = (extent_view x)\<lparr>ev_szind := unat szind\<rparr>" for x
    using view_szind_set [of szind] szind_ok [OF assms(3)] by simp
  have i1: "est_inv en s1 {e} B I V L"
    unfolding s1_def by (rule set_active [OF assms(1)])
      (use active_in [OF assms(1), of e] in \<open>simp_all add: same_span_def fpg_def npg_def get_view v active_desc_def\<close>)
  have m1: "es_mem s1 e = extent_szind_set (es_mem s e) szind" "es_maps s1 = es_maps s" by (simp_all add: s1_def)
  have ok: "ext_ok (es_mem s1 e)" using active_in [OF i1, of e] by simp
  have "extent_addr_get (es_mem s1 e) = extent_base_get (es_mem s1 e)" using assms(2) by (simp add: m1 get_view v)
  then have pn: "page_number (extent_addr_get (es_mem s1 e)) = of_nat (fpg (es_mem s1 e))"
    "page_number (extent_past_get (es_mem s1 e) - PAGE) = of_nat (lpg (es_mem s1 e))"
    using page_numbers(1,5) [OF ok] by simp_all
  from szind_slab_inv [OF i1, of e _ szind slab] obtain s2 where
    s2: "szind_slab_update (of_nat (fpg (es_mem s1 e))) szind slab s1 = Some s2" "est_inv en s2 {e} B I V L"
      "es_mem s2 = es_mem s1" "es_maps s2 = es_maps s1" by blast
  from szind_slab_inv [OF s2(2), of e "lpg (es_mem s1 e)" szind slab] s2(3) obtain s3 where
    s3: "szind_slab_update (of_nat (lpg (es_mem s1 e))) szind slab s2 = Some s3" "est_inv en s3 {e} B I V L"
      "es_mem s3 = es_mem s1" "es_maps s3 = es_maps s1" using s2(4) by auto
  define s4 where "s4 = (if szind \<noteq> of_nat SC_NSIZES
    then if slab \<and> extent_size_get (es_mem s1 e) > PAGE then s3 else s2 else s1)"
  have r: "est_inv en s4 {e} B I V L" "es_mem s4 = es_mem s1" "es_maps s4 = es_maps s"
    using i1 s2 s3 m1(2) by (simp_all add: s4_def)
  show ?thesis
  proof (intro exI [of _ s4] conjI r(1,3))
    show "extent_view (es_mem s4 e) = (extent_view (es_mem s e))\<lparr>ev_szind := unat szind\<rparr>" by (simp add: r(2) m1(1) v)
  qed (cases slab; use s2(1) s3(1) in \<open>simp add: s1_def [symmetric] pn s2(3) s3(3) s4_def Let_def\<close>)
qed

lemma split_interior_ok:
  assumes "est_inv en s {d} B I V L" "d \<notin> I" "flat (es_mem s d)" "unat szind \<le> SC_NSIZES"
    and "page_size (req + pad)" "a < 62" "holds_aligned (es_mem s d) (req + pad) (2 ^ max 12 a)"
    and na: "na \<noteq> 0 \<longrightarrow> extent_base_get (es_mem s d) = na \<and> a \<le> 12"
  shows "\<exists>res s'. extent_split_interior en d req pad (2 ^ a) slab szind s = Some (res, s') \<and> es_maps s' = es_maps s \<and>
    (case res of
       extent_split_interior_ok e lead trail \<Rightarrow>
         (\<exists>V'. est_inv en s' ({e} \<union> set_option lead \<union> set_option trail) B I V' L) \<and> e \<notin> I
         \<and> cut_ok (es_mem s' e) (req + pad) a slab szind na \<and> e \<notin> set_option lead \<union> set_option trail
         \<and> set_option lead \<inter> set_option trail = {}
         \<and> (\<forall>x\<in>set_option lead \<union> set_option trail. x \<notin> I \<and> flat (es_mem s' x))
     | extent_split_interior_cant_alloc \<Rightarrow> False
     | extent_split_interior_error leak salvage \<Rightarrow>
         \<exists>x. leak = Some x \<and> (\<exists>V'. est_inv en s' ({x} \<union> set_option salvage) B I V' L) \<and> x \<notin> I
           \<and> x \<notin> set_option salvage \<and> (\<forall>y\<in>set_option salvage. y \<notin> I \<and> flat (es_mem s' y)))"
proof -
  let ?e = "es_mem s d" and ?esize = "req + pad"
  define lead where "lead = ALIGNMENT_CEILING (extent_base_get ?e) (PAGE_CEILING (2 ^ a)) - extent_base_get ?e"
  define trail where "trail = extent_size_get ?e - lead - ?esize"
  have ok: "ext_ok ?e" using active_in [OF assms(1)] by simp
  note ic = interior_cut [OF ok assms(5-7) lead_def trail_def]
  have lt: "unat lead + unat (?esize + trail) = unat (extent_size_get ?e)" using ic(2,3) by simp
  obtain r s1 where r: "(r, s1) = (if lead \<noteq> 0 then extent_split_impl en d lead (of_nat SC_NSIZES) False (?esize + trail) szind slab s
      else (Some d, s))" by (metis surj_pair)
  have pl: "lead \<noteq> 0 \<longrightarrow> page_size lead" "trail \<noteq> 0 \<longrightarrow> page_size trail" using ic(5,6) by simp_all
  note cl = cut_lead_ok [OF assms(1-4) pl(1) ic(7) lt r]
  have first: "(if lead \<noteq> 0 then (let (r, s) = extent_split_impl en d lead (of_nat SC_NSIZES) False (?esize + trail) szind slab s
      in (Some d, r, s)) else (None, Some d, s)) = (if lead \<noteq> 0 then Some d else None, r, s1)"
    using r by (cases "lead = 0") (auto split: prod.splits)
  have unf: "extent_split_interior en d req pad (2 ^ a) slab szind s = (case r of
                 None \<Rightarrow> Some (extent_split_interior_error (if lead \<noteq> 0 then Some d else None) None, s1)
               | Some extent \<Rightarrow>
                   (let (tr, s) =
                          (if trail \<noteq> 0
                           then extent_split_impl en extent ?esize szind slab trail (of_nat SC_NSIZES) False s1
                           else (None, s1))
                    in if trail \<noteq> 0 \<and> tr = None
                       then Some (extent_split_interior_error (Some extent) (if lead \<noteq> 0 then Some d else None), s)
                       else if lead = 0 \<and> trail = 0
                       then (let s = mem_set s extent (extent_szind_set (es_mem s extent) szind)
                             in if szind \<noteq> of_nat SC_NSIZES
                                then do {
                                  s \<leftarrow> szind_slab_update (page_number (extent_addr_get (es_mem s extent))) szind slab s;
                                  s \<leftarrow> (if slab \<and> extent_size_get (es_mem s extent) > PAGE
                                       then szind_slab_update (page_number (extent_past_get (es_mem s extent) - PAGE)) szind slab s
                                       else Some s);
                                  Some (extent_split_interior_ok extent (if lead \<noteq> 0 then Some d else None) tr, s)
                                }
                                else Some (extent_split_interior_ok extent (if lead \<noteq> 0 then Some d else None) tr, s))
                       else Some (extent_split_interior_ok extent (if lead \<noteq> 0 then Some d else None) tr, s)))"
    unfolding extent_split_interior_def Let_def [of ?esize] Let_def [of "extent_base_get ?e"] lead_def [symmetric]
      Let_def [of lead] if_not_P [OF ic(1)] trail_def [symmetric] Let_def [of trail] first Let_def [of "(_, r, s1)"] prod.case
    by (rule refl)
  show ?thesis
  proof (cases r)
    case None
    with cl(1,2) unf assms(2) show ?thesis by (intro exI [of _ "extent_split_interior_error (Some d) None"] exI [of _ s1]) simp
  next
    case (Some e)
    note c3 = cl(3) [OF Some]
    define A where "A = (if lead \<noteq> 0 then {e, d} else {e})"
    define lo where "lo = (if lead \<noteq> 0 then Some d else None)"
    obtain V1 where i1: "est_inv en s1 A B I V1 L" using c3 by (auto simp: A_def)
    have A: "A = {e} \<union> set_option lo" "e \<in> A" "e \<notin> set_option lo" using c3 by (auto simp: A_def lo_def)
    obtain tr s2 where t: "(tr, s2) = (if trail \<noteq> 0 then extent_split_impl en e ?esize szind slab trail (of_nat SC_NSIZES) False s1
        else (None, s1))" by (metis surj_pair)
    have es: "unat ?esize + unat trail = unat (extent_size_get (es_mem s1 e))" using c3 ic(3) by simp
    have e1: "e \<notin> I" "extent_addr_get (es_mem s1 e) = extent_base_get (es_mem s1 e)" using c3 by simp_all
    note ct = cut_trail_ok [OF i1 A(2) e1 assms(4,5) pl(2) es t]
    have flo: "\<forall>x\<in>set_option lo. x \<notin> I \<and> flat (es_mem s2 x)"
      using c3 ct(2) [of d] assms(2) by (auto simp: lo_def A_def split: if_splits)
    have al: "2 ^ max 12 a dvd unat (extent_base_get (es_mem s1 e))" using c3 ic(4) by simp
    note unf' = unf [unfolded Some option.case t [symmetric] Let_def [of "(tr, s2)"] prod.case lo_def [symmetric]]
    show ?thesis
    proof (cases "trail \<noteq> 0 \<and> tr = None")
      case True
      with ct(1,3) cl(1) unf' A e1(1) flo show ?thesis
        by (intro exI [of _ "extent_split_interior_error (Some e) lo"] exI [of _ s2]) auto
    next
      case False
      then have "trail \<noteq> 0 \<longrightarrow> tr \<noteq> None" by auto
      note c4 = ct(4) [OF this]
      then have cut: "extent_addr_get (es_mem s2 e) = extent_base_get (es_mem s2 e)" "extent_size_get (es_mem s2 e) = ?esize"
        "2 ^ max 12 a dvd unat (extent_base_get (es_mem s2 e))" "extent_slab_get (es_mem s2 e) \<longrightarrow> slab"
        using c3 al base_of [of "es_mem s2 e" "es_mem s1 e"] by auto
      have "lead = 0" if "na \<noteq> 0" using ic(8) na that base_page [of "es_mem s d"] by (simp add: max_absorb1)
      then have at: "na \<noteq> 0 \<longrightarrow> extent_base_get (es_mem s2 e) = na"
        using c3 c4 na base_of [of "es_mem s2 e" "es_mem s1 e"] by (auto simp: word_unat_eq_iff)
      show ?thesis
      proof (cases "lead = 0 \<and> trail = 0")
        case True
        then have tr: "tr = None" "s2 = s1" "lo = None" "A = {e}" using t by (simp_all add: lo_def A_def)
        have i2: "est_inv en s2 {e} B I V1 L" using i1 tr by simp
        note unf2 = unf' [unfolded if_not_P [OF False] if_P [OF True]]
        from whole_ok [OF i2 cut(1) assms(4), where r = "extent_split_interior_ok e lo tr" and slab = slab] unf2 obtain s3 where
          s3: "extent_split_interior en d req pad (2 ^ a) slab szind s = Some (extent_split_interior_ok e lo tr, s3)"
            "est_inv en s3 {e} B I V1 L" "es_maps s3 = es_maps s2"
            "extent_view (es_mem s3 e) = (extent_view (es_mem s2 e))\<lparr>ev_szind := unat szind\<rparr>" by auto
        have "extent_addr_get (es_mem s3 e) = extent_addr_get (es_mem s2 e)" "extent_base_get (es_mem s3 e) = extent_base_get (es_mem s2 e)"
          "extent_size_get (es_mem s3 e) = extent_size_get (es_mem s2 e)" "extent_slab_get (es_mem s3 e) = extent_slab_get (es_mem s2 e)"
          "ev_szind (extent_view (es_mem s3 e)) = unat szind" using s3(4) by (simp_all add: get_view)
        then have "cut_ok (es_mem s3 e) ?esize a slab szind na" using cut at by (simp add: cut_ok_def)
        then show ?thesis using s3 tr e1(1) cl(1)
          by (intro exI [of _ "extent_split_interior_ok e lo tr"] exI [of _ s3]) auto
      next
        case nz: False
        note unf2 = unf' [unfolded if_not_P [OF False] if_not_P [OF nz]]
        have "ev_szind (extent_view (es_mem s2 e)) = unat szind" using nz c3 c4 by auto
        with cut at have cut: "cut_ok (es_mem s2 e) ?esize a slab szind na" by (simp add: cut_ok_def)
        show ?thesis
          by (rule exI [of _ "extent_split_interior_ok e lo tr"], rule exI [of _ s2])
            (use unf2 ct(1) cl(1) c4 cut A e1(1) flo in auto)
      qed
    qed
  qed
qed

section \<open>Recycling\<close>

lemma member_of:
  assumes "est_inv en s A B I V L" "n \<in> uses A B L" "ev_arena (extent_view (es_mem s n)) = unat (en_ind en)"
    and "extent_state_get (es_mem s n) = k" "k \<noteq> extent_state_active"
  shows "n \<in> set (L k)"
proof -
  note i = est_invD [OF assms(1)]
  have "n \<notin> A" "n \<notin> dom B" using i(7) assms(3-5) by (auto simp: roles_def active_desc_def foreign_desc_def)
  then obtain j where j: "n \<in> set (L j)" using assms(2) by (auto simp: uses_def members_def)
  then have "cached_desc en j (es_mem s n)" using i(7) by (simp add: roles_def)
  with assms(4) have "j = k" by (simp add: cached_desc_def)
  with j show ?thesis by simp
qed

text \<open>The requests that a size class asks for: whole pages, and an alignment that leaves room.\<close>

definition request :: "size_t \<Rightarrow> nat \<Rightarrow> bool" where
  "request esize a \<longleftrightarrow> page_size esize \<and> a < 62 \<and> unat esize + 2 ^ max 12 a \<le> 7 * 2 ^ 60 + 8192"

lemma page_lookup:
  assumes "extent_lock_from_addr addr io s = Some n" "est_inv en s A B I V L"
  shows "n \<in> uses A B L"
proof -
  let ?p = "unat (page_number addr)"
  have p: "?p < 2 ^ 64" using unsigned_less [of "page_number addr"] by simp
  have "own (es_pages s) ?p = Some n"
    by (rule lock_owned [OF assms(1)]) simp
  from owned_use [OF assms(2) this p] show ?thesis by simp
qed

lemma activate_member:
  assumes "est_inv en s {} B I V L" "d \<in> set (L k)" "k \<noteq> extent_state_active"
  shows "\<exists>s'. extent_activate_locked en k d s = Some s' \<and> est_inv en s' {d} B I V (L(k := remove1 d (L k)))
    \<and> es_maps s' = es_maps s \<and> d \<notin> I \<and> flat (es_mem s' d) \<and> extent_base_get (es_mem s' d) = extent_base_get (es_mem s d)
    \<and> extent_size_get (es_mem s' d) = extent_size_get (es_mem s d)"
proof -
  from activate_ok [OF assms] obtain s' where
    s': "extent_activate_locked en k d s = Some s'" "est_inv en s' {d} B I V (L(k := remove1 d (L k)))"
      "es_mem s' = (es_mem s)(d := extent_state_set (es_mem s d) extent_state_active)" "es_maps s' = es_maps s" by blast
  have "cached_desc en k (es_mem s d)" using est_invD(7) [OF assms(1)] assms(2) by (simp add: roles_def)
  moreover have "d \<notin> I" using partsD(2) [OF assms(1) in_members [of d L k, OF assms(2)]] by simp
  ultimately show ?thesis using s' by (auto simp: flat_def cached_desc_def state_set_get)
qed

text \<open>A page that begins where an extent of a holder ends is the first of its owner.\<close>

definition adjoins :: "(uintptr \<rightharpoonup> extent) \<Rightarrow> uintptr \<Rightarrow> uintptr \<Rightarrow> bool" where
  "adjoins B new_addr na \<longleftrightarrow> (na \<noteq> 0 \<longrightarrow> new_addr = na \<and> (\<exists>d e. B d = Some e \<and> na = extent_past_get e))"

lemma past_base:
  assumes "est_inv en s A B I V L" "B d = Some e" "extent_lock_from_addr (extent_past_get e) io s = Some x"
  shows "extent_base_get (es_mem s x) = extent_past_get e"
proof -
  note i = est_invD [OF assms(1)]
  have d: "es_mem s d = e" "d \<in> uses A B L" using i(7) assms(2) by (auto simp: roles_def uses_def)
  have ok: "ext_ok e" using geoD(4) [OF i(4) d(2)] d(1) by simp
  note k = ext_okD [OF ok]
  let ?n = "fpg e + npg e"
  have n: "?n < 2 ^ 64" using k(4) by simp
  have "own (es_pages s) ?n = Some x" by (rule lock_owned [OF assms(3) page_numbers(3) [OF ok]])
  then have x: "x \<in> uses A B L" "covers I x (es_mem s x) ?n" using geoD(6) [OF i(4) n] by auto
  have okx: "ext_ok (es_mem s x)" by (rule geoD(4) [OF i(4) x(1)])
  have wi: "fpg (es_mem s x) \<le> ?n" "?n \<le> lpg (es_mem s x)" using covers_within [OF okx x(2)] by simp_all
  have "x \<noteq> d"
  proof
    assume "x = d"
    with wi(2) d(1) k(7) show False by simp
  qed
  then have "apart (es_mem s x) e" using geoD(5) [OF i(4) x(1) d(2)] d(1) by simp
  then have "fpg (es_mem s x) = ?n" using wi ext_okD(7) [OF okx] k(2) by (auto simp: apart_def)
  moreover have "unat (extent_past_get e) = 4096 * ?n"
    unfolding extent_past_get_def using k(1,4) unat_base [of e] by (subst unat_add_eq) simp_all
  ultimately show ?thesis by (simp add: word_unat_eq_iff unat_base)
qed

lemma recycle_extract_ok:
  assumes "est_inv en s {} B I V L" "k \<noteq> extent_state_active" "request (req + pad) a" "new_addr \<noteq> 0 \<longrightarrow> a \<le> 12"
    and "adjoins B new_addr na"
  shows "\<exists>r s' L'. extent_recycle_extract en k new_addr req pad (2 ^ a) s = Some (r, s') \<and> es_maps s' = es_maps s \<and>
    (case r of None \<Rightarrow> est_inv en s' {} B I V L'
     | Some e \<Rightarrow> est_inv en s' {e} B I V L' \<and> e \<notin> I \<and> flat (es_mem s' e)
         \<and> holds_aligned (es_mem s' e) (req + pad) (2 ^ max 12 a) \<and> (na \<noteq> 0 \<longrightarrow> extent_base_get (es_mem s' e) = na))"
proof -
  let ?esize = "req + pad"
  have rq: "page_size ?esize" "a < 62" "unat ?esize + 2 ^ max 12 a \<le> 7 * 2 ^ 60 + 8192"
    using assms(3) by (simp_all add: request_def)
  define c where "c = (if new_addr \<noteq> 0
        then Some (case extent_lock_from_addr new_addr False s of
               None \<Rightarrow> (None, s)
             | Some extent \<Rightarrow>
                 (if extent_arena_ind_get (es_mem s extent) \<noteq> ucast (en_ind en)
                     \<or> extent_size_get (es_mem s extent) < ?esize
                     \<or> extent_state_get (es_mem s extent) \<noteq> extents_state_get (es_ex s k)
                  then None else Some extent, s))
        else do {
          (extent, ex) \<leftarrow> extents_fit_locked (en_tabs en) (en_lg_fit en) (es_mem s) (es_ex s k) ?esize (2 ^ a);
          Some (extent, s\<lparr>es_ex := (es_ex s)(k := ex)\<rparr>)
        })"
  have "\<exists>r s1. c = Some (r, s1) \<and> est_inv en s1 {} B I V L \<and> es_maps s1 = es_maps s
    \<and> (\<forall>e. r = Some e \<longrightarrow> e \<in> set (L k) \<and> holds_aligned (es_mem s1 e) ?esize (2 ^ max 12 a)
        \<and> (na \<noteq> 0 \<longrightarrow> extent_base_get (es_mem s1 e) = na))"
  proof (cases "new_addr = 0")
    case True
    from fit_extents_ok [OF assms(1,2) rq] obtain ret ex' where
      "extents_fit_locked (en_tabs en) (en_lg_fit en) (es_mem s) (es_ex s k) ?esize (2 ^ a) = Some (ret, ex')"
      "est_inv en (s\<lparr>es_ex := (es_ex s)(k := ex')\<rparr>) {} B I V L" "fit_found (es_mem s) (L k) ?esize (max 12 a) ret" by blast
    with True assms(5) show ?thesis by (auto simp: c_def fit_found_def adjoins_def)
  next
    case False
    have st: "extents_state_get (es_ex s k) = k"
      using est_invD(6) [OF assms(1)] assms(2) by (simp add: conts_def extents_state_get_def)
    have "e \<in> set (L k) \<and> holds_aligned (es_mem s e) ?esize (2 ^ max 12 a)"
      if "extent_lock_from_addr new_addr False s = Some e" "extent_arena_ind_get (es_mem s e) = ucast (en_ind en)"
        "?esize \<le> extent_size_get (es_mem s e)" "extent_state_get (es_mem s e) = k" for e
    proof
      show "e \<in> set (L k)"
        using member_of [OF assms(1) page_lookup [OF that(1) assms(1)] _ that(4) assms(2)] that(2) by (simp add: arena_ind_view)
      have "max 12 a = 12" using assms(4) False by simp
      then show "holds_aligned (es_mem s e) ?esize (2 ^ max 12 a)"
        using base_page [of "es_mem s e"] that(3)
        by (auto simp: holds_aligned_def word_le_nat_alt intro!: exI [of _ "unat (extent_base_get (es_mem s e))"])
    qed
    moreover have "extent_base_get (es_mem s e) = na" if "na \<noteq> 0" "extent_lock_from_addr new_addr False s = Some e" for e
      using assms(5) that past_base [OF assms(1)] by (auto simp: adjoins_def)
    ultimately show ?thesis using False assms(1) st by (auto simp: c_def split: option.splits)
  qed
  then obtain r s1 where c: "c = Some (r, s1)" "est_inv en s1 {} B I V L" "es_maps s1 = es_maps s"
    "\<forall>e. r = Some e \<longrightarrow> e \<in> set (L k) \<and> holds_aligned (es_mem s1 e) ?esize (2 ^ max 12 a)
        \<and> (na \<noteq> 0 \<longrightarrow> extent_base_get (es_mem s1 e) = na)" by blast
  have unf: "extent_recycle_extract en k new_addr req pad (2 ^ a) s = (case r of
       None \<Rightarrow> Some (None, s1)
     | Some e \<Rightarrow> do { s \<leftarrow> extent_activate_locked en k e s1; Some (Some e, s) })"
    using c(1) by (simp add: extent_recycle_extract_def Let_def c_def [symmetric])
  show ?thesis
  proof (cases r)
    case None
    with unf c show ?thesis by auto
  next
    case (Some e)
    with c(4) have e: "e \<in> set (L k)" "holds_aligned (es_mem s1 e) ?esize (2 ^ max 12 a)"
      "na \<noteq> 0 \<longrightarrow> extent_base_get (es_mem s1 e) = na" by simp_all
    from activate_member [OF c(2) e(1) assms(2)] obtain s' where
      s': "extent_activate_locked en k e s1 = Some s'" "est_inv en s' {e} B I V (L(k := remove1 e (L k)))"
        "es_maps s' = es_maps s1" "e \<notin> I" "flat (es_mem s' e)"
        "extent_base_get (es_mem s' e) = extent_base_get (es_mem s1 e)" "extent_size_get (es_mem s' e) = extent_size_get (es_mem s1 e)" by blast
    then have "holds_aligned (es_mem s' e) ?esize (2 ^ max 12 a)" using e(2) by (simp add: holds_aligned_def)
    with s' Some unf c(3) e(3) show ?thesis by auto
  qed
qed

lemma purge_frame:
  assumes "(b, s') = extent_purge_lazy_impl en s \<or> (b, s') = extent_purge_forced_impl en s"
  shows "est_inv en s' A B I V L = est_inv en s A B I V L" "loose s' A B V L d = loose s A B V L d"
    "es_mem s' = es_mem s" "es_maps s' = es_maps s"
proof -
  have "s' = s \<or> pop_out s = (b, s')"
    using assms by (auto simp: extent_purge_lazy_impl_def extent_purge_forced_impl_def split: if_splits)
  then show "est_inv en s' A B I V L = est_inv en s A B I V L" "loose s' A B V L d = loose s A B V L d"
    "es_mem s' = es_mem s" "es_maps s' = es_maps s"
    using pop_out_frame [of s b s'] by blast+
qed

lemma leak_ok:
  assumes "est_inv en s A B I V L" "loose s A B V L d"
  shows "est_inv en (extents_leak en k d s) A B I (insert d V) L" "es_mem (extents_leak en k d s) = es_mem s"
    "es_maps (extents_leak en k d s) = es_maps s"
proof -
  obtain b1 s1 where l: "extent_purge_lazy_impl en s = (b1, s1)" by (cases "extent_purge_lazy_impl en s")
  obtain b2 s2 where f: "extent_purge_forced_impl en s1 = (b2, s2)" by (cases "extent_purge_forced_impl en s1")
  define s' where "s' = (if extents_state_get (es_ex s k) = extent_state_dirty then if b1 then s2 else s1 else s)"
  have eq: "extents_leak en k d s = extent_dalloc d s'" by (simp add: extents_leak_def l f s'_def)
  note p1 = purge_frame [of b1 s1 en s] and p2 = purge_frame [of b2 s2 en s1]
  have s': "est_inv en s' A B I V L" "loose s' A B V L d" "es_mem s' = es_mem s" "es_maps s' = es_maps s"
    using assms p1 p2 l f by (simp_all add: s'_def)
  from extent_dalloc_ok [OF s'(1,2)] s'(3,4)
  show "est_inv en (extents_leak en k d s) A B I (insert d V) L" "es_mem (extents_leak en k d s) = es_mem s"
    "es_maps (extents_leak en k d s) = es_maps s" by (simp_all add: eq)
qed

lemma deregister_leak:
  assumes "est_inv en s {d} B I V L" "d \<notin> I"
  shows "est_inv en (extents_leak en k d (extent_deregister_impl d s)) {} B I (insert d V) L"
    "es_maps (extents_leak en k d (extent_deregister_impl d s)) = es_maps s"
proof -
  have "{d} - {d} = {}" "I - {d} = I" using assms(2) by auto
  note dr = deregister_ok [OF assms(1), of d, unfolded this]
  show "est_inv en (extents_leak en k d (extent_deregister_impl d s)) {} B I (insert d V) L"
    "es_maps (extents_leak en k d (extent_deregister_impl d s)) = es_maps s"
    using leak_ok [of en "extent_deregister_impl d s" "{}" B I V L d k] dr assms(2) by simp_all
qed

text \<open>Putting back what was cut off.\<close>

lemma deactivate_opt:
  assumes "est_inv en s (A \<union> set_option x) B I V L" "k \<noteq> extent_state_active" "A \<inter> set_option x = {}"
    and "\<forall>y\<in>set_option x. y \<notin> I \<and> flat (es_mem s y)"
  shows "\<exists>s' L'. (case x of None \<Rightarrow> Some s | Some y \<Rightarrow> extent_deactivate en k y s) = Some s'
    \<and> est_inv en s' A B I V L' \<and> es_maps s' = es_maps s \<and> (\<forall>e\<in>A. es_mem s' e = es_mem s e)"
proof (cases x)
  case None
  with assms(1) show ?thesis by auto
next
  case (Some y)
  have y: "y \<notin> I" "\<not> extent_slab_get (es_mem s y)" "extent_addr_get (es_mem s y) = extent_base_get (es_mem s y)" "y \<notin> A"
    using assms(3,4) Some by (auto simp: flat_def)
  from deactivate_ok [of en s "A \<union> {y}" B I V L y k] assms(1,2) y Some obtain s' where
    s': "extent_deactivate_locked en k y s = Some s'" "est_inv en s' (A \<union> {y} - {y}) B I V (L(k := L k @ [y]))"
      "es_mem s' = (es_mem s)(y := extent_state_set (es_mem s y) k)" "es_maps s' = es_maps s" by auto
  moreover have "A \<union> {y} - {y} = A" using y(4) by auto
  ultimately show ?thesis using Some y(4) by (auto simp: extent_deactivate_def)
qed

lemma recycle_split_ok:
  assumes "est_inv en s {d} B I V L" "d \<notin> I" "flat (es_mem s d)" "unat szind \<le> SC_NSIZES" "k \<noteq> extent_state_active"
    and "request (req + pad) a" "holds_aligned (es_mem s d) (req + pad) (2 ^ max 12 a)"
    and "na \<noteq> 0 \<longrightarrow> extent_base_get (es_mem s d) = na \<and> a \<le> 12"
  shows "\<exists>r s' V' L'. extent_recycle_split en k req pad (2 ^ a) slab szind d s = Some (r, s') \<and> es_maps s' = es_maps s \<and>
    est_inv en s' (set_option r) B I V' L' \<and> (\<forall>e\<in>set_option r. e \<notin> I \<and> cut_ok (es_mem s' e) (req + pad) a slab szind na)"
proof -
  have rq: "page_size (req + pad)" "a < 62" using assms(6) by (simp_all add: request_def)
  from split_interior_ok [OF assms(1-4) rq assms(7,8), of slab] obtain res s1 where
    r: "extent_split_interior en d req pad (2 ^ a) slab szind s = Some (res, s1)" "es_maps s1 = es_maps s"
      "case res of
       extent_split_interior_ok e lead trail \<Rightarrow>
         (\<exists>V'. est_inv en s1 ({e} \<union> set_option lead \<union> set_option trail) B I V' L) \<and> e \<notin> I
         \<and> cut_ok (es_mem s1 e) (req + pad) a slab szind na \<and> e \<notin> set_option lead \<union> set_option trail
         \<and> set_option lead \<inter> set_option trail = {}
         \<and> (\<forall>x\<in>set_option lead \<union> set_option trail. x \<notin> I \<and> flat (es_mem s1 x))
     | extent_split_interior_cant_alloc \<Rightarrow> False
     | extent_split_interior_error leak salvage \<Rightarrow>
         \<exists>x. leak = Some x \<and> (\<exists>V'. est_inv en s1 ({x} \<union> set_option salvage) B I V' L) \<and> x \<notin> I
           \<and> x \<notin> set_option salvage \<and> (\<forall>y\<in>set_option salvage. y \<notin> I \<and> flat (es_mem s1 y))" by blast
  show ?thesis
  proof (cases res)
    case (extent_split_interior_ok e lead trail)
    with r(3) obtain V1 where V1: "est_inv en s1 (({e} \<union> set_option trail) \<union> set_option lead) B I V1 L"
      and c: "e \<notin> I" "cut_ok (es_mem s1 e) (req + pad) a slab szind na" "e \<notin> set_option lead \<union> set_option trail"
        "set_option lead \<inter> set_option trail = {}" "\<forall>x\<in>set_option lead \<union> set_option trail. x \<notin> I \<and> flat (es_mem s1 x)"
      by (auto simp: Un_ac)
    from deactivate_opt [OF V1 assms(5)] c obtain s2 L2 where
      s2: "(case lead of None \<Rightarrow> Some s1 | Some y \<Rightarrow> extent_deactivate en k y s1) = Some s2"
        "est_inv en s2 ({e} \<union> set_option trail) B I V1 L2" "es_maps s2 = es_maps s1"
        "\<forall>x\<in>{e} \<union> set_option trail. es_mem s2 x = es_mem s1 x" by blast
    from deactivate_opt [OF s2(2) assms(5)] c s2(4) obtain s3 L3 where
      s3: "(case trail of None \<Rightarrow> Some s2 | Some y \<Rightarrow> extent_deactivate en k y s2) = Some s3"
        "est_inv en s3 {e} B I V1 L3" "es_maps s3 = es_maps s2" "es_mem s3 e = es_mem s2 e" by auto
    have "extent_recycle_split en k req pad (2 ^ a) slab szind d s = Some (Some e, s3)"
      using r(1) extent_split_interior_ok s2(1) s3(1) by (simp add: extent_recycle_split_def)
    then show ?thesis using s2(3,4) s3 c r(2) by (intro exI [of _ "Some e"] exI [of _ s3] exI [of _ V1] exI [of _ L3]) simp
  next
    case extent_split_interior_cant_alloc
    with r(3) show ?thesis by simp
  next
    case (extent_split_interior_error leak salvage)
    with r(3) obtain x V1 where x: "leak = Some x" "est_inv en s1 ({x} \<union> set_option salvage) B I V1 L" "x \<notin> I"
      "x \<notin> set_option salvage" "\<forall>y\<in>set_option salvage. y \<notin> I \<and> flat (es_mem s1 y)" by auto
    define s2 where "s2 = (case salvage of None \<Rightarrow> s1 | Some e \<Rightarrow> extent_deregister e s1)"
    have "est_inv en s2 {x} B I V1 L \<and> es_maps s2 = es_maps s1"
    proof (cases salvage)
      case None
      with x(2) show ?thesis by (simp add: s2_def)
    next
      case (Some y)
      have "{x} \<union> set_option salvage - {y} = {x}" "I - {y} = I" using x(4,5) Some by auto
      with deregister_ok [OF x(2), of y] x(5) Some show ?thesis by (simp add: s2_def extent_deregister_def)
    qed
    with deregister_leak [of en s2 x B I V1 L k] x(3) have
      "est_inv en (extents_leak en k x (extent_deregister_impl x s2)) {} B I (insert x V1) L"
      "es_maps (extents_leak en k x (extent_deregister_impl x s2)) = es_maps s" using r(2) by simp_all
    moreover have "extent_recycle_split en k req pad (2 ^ a) slab szind d s
        = Some (None, extents_leak en k x (extent_deregister_impl x s2))"
      using r(1) extent_split_interior_error x(1)
      by (simp add: extent_recycle_split_def s2_def [symmetric] extent_deregister_no_gdump_sub_def)
    ultimately show ?thesis by (intro exI [of _ None] exI) auto
  qed
qed

text \<open>What an allocation hands out.\<close>

definition granted :: "extent \<Rightarrow> size_t \<Rightarrow> size_t \<Rightarrow> nat \<Rightarrow> bool \<Rightarrow> szind \<Rightarrow> uintptr \<Rightarrow> bool" where
  "granted e req pad a slab szind na \<longleftrightarrow> extent_size_get e = req + pad
     \<and> 2 ^ max 12 a dvd unat (extent_base_get e) \<and> 2 ^ a dvd unat (extent_addr_get e)
     \<and> unat (extent_base_get e) \<le> unat (extent_addr_get e)
     \<and> unat (extent_addr_get e) < unat (extent_base_get e) + 4096
     \<and> (pad = 0 \<longrightarrow> extent_addr_get e = extent_base_get e) \<and> extent_slab_get e = slab \<and> ev_szind (extent_view e) = unat szind
     \<and> (na \<noteq> 0 \<longrightarrow> extent_base_get e = na)"

lemma committed_get:
  "extent_addr_get (extent_committed_set e b) = extent_addr_get e" "extent_base_get (extent_committed_set e b) = extent_base_get e"
  "extent_size_get (extent_committed_set e b) = extent_size_get e" "extent_slab_get (extent_committed_set e b) = extent_slab_get e"
  "active_desc en (extent_committed_set e b) = active_desc en e" "same_span (extent_committed_set e b) e"
  "ev_szind (extent_view (extent_committed_set e b)) = ev_szind (extent_view e)"
  by (simp_all add: same_span_def fpg_def npg_def get_view view_sets active_desc_def)

lemma zeroed_get:
  "extent_addr_get (extent_zeroed_set e b) = extent_addr_get e" "extent_base_get (extent_zeroed_set e b) = extent_base_get e"
  "extent_size_get (extent_zeroed_set e b) = extent_size_get e" "extent_slab_get (extent_zeroed_set e b) = extent_slab_get e"
  "active_desc en (extent_zeroed_set e b) = active_desc en e" "same_span (extent_zeroed_set e b) e"
  "ev_szind (extent_view (extent_zeroed_set e b)) = ev_szind (extent_view e)"
  by (simp_all add: same_span_def fpg_def npg_def get_view view_sets active_desc_def)

lemma commit_ok:
  assumes "est_inv en s {e} B I V L" "extent_commit_impl en e s = (err, s')"
  shows "est_inv en s' {e} B I V L" "es_maps s' = es_maps s" "\<exists>b. es_mem s' e = extent_committed_set (es_mem s e) b"
proof -
  obtain b s1 where s1: "(if \<not> hk_commit (en_hooks en) then (True, s) else pop_out s) = (b, s1)" by (metis surj_pair)
  then have "s1 = s \<or> pop_out s = (b, s1)" by (auto split: if_splits)
  then have i1: "est_inv en s1 {e} B I V L" "es_mem s1 = es_mem s" "es_maps s1 = es_maps s"
    using assms(1) pop_out_frame [of s b s1] by auto
  have s': "s' = mem_set s1 e (extent_committed_set (es_mem s1 e) (extent_committed_get (es_mem s1 e) \<or> \<not> b))"
    using assms(2) by (auto simp: extent_commit_impl_def s1)
  show "est_inv en s' {e} B I V L"
    unfolding s' by (rule set_active [OF i1(1)]) (use active_in [OF i1(1), of e] in \<open>simp_all add: committed_get\<close>)
  show "es_maps s' = es_maps s" "\<exists>b. es_mem s' e = extent_committed_set (es_mem s e) b"
    using i1 by (auto simp: s')
qed

lemma recycle_commit_ok:
  assumes "est_inv en s {e} B I V L" "e \<notin> I" "cut_ok (es_mem s e) esize a slab szind na" "k \<noteq> extent_state_active"
  shows "\<exists>err s' V' L'. recycle_commit en k commit e s = Some (err, s') \<and> es_maps s' = es_maps s
    \<and> est_inv en s' (if err then {} else {e}) B I V' L' \<and> (\<not> err \<longrightarrow> cut_ok (es_mem s' e) esize a slab szind na)"
proof (cases "commit \<and> \<not> extent_committed_get (es_mem s e)")
  case False
  then have "recycle_commit en k commit e s = Some (False, s)" by (auto simp: recycle_commit_def)
  with assms show ?thesis by (intro exI [of _ False] exI [of _ s] exI [of _ V] exI [of _ L]) simp
next
  case True
  obtain err s1 where c: "extent_commit_impl en e s = (err, s1)" by (cases "extent_commit_impl en e s")
  note co = commit_ok [OF assms(1) c]
  then have cut: "cut_ok (es_mem s1 e) esize a slab szind na" using assms(3) by (auto simp: cut_ok_def committed_get)
  have unf: "recycle_commit en k commit e s = (if err then do { s \<leftarrow> extent_record en k e s1; Some (True, s) }
      else Some (False, mem_set s1 e (extent_zeroed_set (es_mem s1 e) True)))"
    using True c by (simp add: recycle_commit_def)
  show ?thesis
  proof (cases err)
    case True
    have "I - {e} = I" using assms(2) by auto
    with record_ok [OF co(1) _ _ assms(4)] assms(2) cut obtain s2 V2 L2 where
      "extent_record en k e s1 = Some s2" "est_inv en s2 {} B I V2 L2" "es_maps s2 = es_maps s1"
      by (auto simp: cut_ok_def)
    with True unf co(2) show ?thesis by (intro exI [of _ True] exI [of _ s2] exI [of _ V2] exI [of _ L2]) simp
  next
    case False
    have "est_inv en (mem_set s1 e (extent_zeroed_set (es_mem s1 e) True)) {e} B I V L"
      by (rule set_active [OF co(1)]) (use active_in [OF co(1), of e] in \<open>simp_all add: zeroed_get\<close>)
    moreover have "cut_ok (extent_zeroed_set (es_mem s1 e) True) esize a slab szind na" using cut by (simp add: cut_ok_def zeroed_get)
    ultimately show ?thesis using False unf co(2)
      by (intro exI [of _ False] exI [of _ "mem_set s1 e (extent_zeroed_set (es_mem s1 e) True)"] exI [of _ V] exI [of _ L]) simp
  qed
qed

text \<open>Randomising the address.\<close>

definition placed_ok :: "extent \<Rightarrow> size_t \<Rightarrow> size_t \<Rightarrow> nat \<Rightarrow> bool \<Rightarrow> szind \<Rightarrow> uintptr \<Rightarrow> bool" where
  "placed_ok e req pad a slab szind na \<longleftrightarrow> granted e req pad a (extent_slab_get e) szind na \<and> (extent_slab_get e \<longrightarrow> slab)"

lemma cut_placed: "cut_ok e (req + pad) a slab szind na \<Longrightarrow> placed_ok e req pad a slab szind na"
proof -
  assume c: "cut_ok e (req + pad) a slab szind na"
  have "(2::nat) ^ a dvd 2 ^ max 12 a" by (rule le_imp_power_dvd) simp
  with c show ?thesis by (auto simp: cut_ok_def placed_ok_def granted_def)
qed

lemma view_same_bits:
  "e_bits e' = e_bits e \<Longrightarrow> e_size_esn e' = e_size_esn e \<Longrightarrow> extent_view e' = (extent_view e)\<lparr>ev_addr := extent_addr_get e'\<rparr>"
  by (simp add: extent_view_def extent_arena_ind_get_def extent_slab_get_def extent_committed_get_def extent_dumpable_get_def
      extent_zeroed_get_def extent_state_get_def extent_szind_get_def extent_szind_get_maybe_invalid_def extent_nfree_get_def
      extent_sn_get_def extent_size_get_def extent_esn_get_def)

lemma randomize_desc:
  assumes "cut_ok e (req + pad) a slab szind na" "a < 62" "pad \<noteq> 0"
  shows "\<exists>st' e'. extent_addr_randomize st e (2 ^ a) = Some (st', e') \<and> placed_ok e' req pad a slab szind na
    \<and> same_span e' e \<and> active_desc en e' = active_desc en e \<and> extent_slab_get e' = extent_slab_get e"
proof -
  have ab: "extent_base_get e = extent_addr_get e" using assms(1) by (simp add: cut_ok_def)
  have "a < 64" using assms(2) by simp
  from addr_randomize_ok [OF this ab, of st] obtain st' e' where
    r: "extent_addr_randomize st e (2 ^ a) = Some (st', e')" "extent_base_get e' = extent_base_get e"
      "e_bits e' = e_bits e" "e_size_esn e' = e_size_esn e" "unat (extent_addr_get e) \<le> unat (extent_addr_get e')"
      "unat (extent_addr_get e') < unat (extent_addr_get e) + 4096"
      "if a < 12 then 2 ^ max 6 a dvd unat (extent_addr_get e') else st' = st \<and> e' = e" by blast
  obtain w where v: "extent_view e' = (extent_view e)\<lparr>ev_addr := w\<rparr>"
    using view_same_bits [OF r(3,4)] by blast
  have g: "extent_size_get e' = extent_size_get e" "extent_slab_get e' = extent_slab_get e" "active_desc en e' = active_desc en e"
    "ev_szind (extent_view e') = ev_szind (extent_view e)" by (simp_all add: get_view v active_desc_def)
  have "2 ^ a dvd unat (extent_addr_get e')"
  proof (cases "a < 12")
    case True
    with r(7) have "2 ^ max 6 a dvd unat (extent_addr_get e')" by simp
    with le_imp_power_dvd [of a "max 6 a" "2::nat"] show ?thesis by (auto intro: dvd_trans)
  next
    case False
    then have "e' = e" using r(7) by simp
    with cut_placed [OF assms(1)] show ?thesis by (simp add: placed_ok_def granted_def)
  qed
  then have "placed_ok e' req pad a slab szind na"
    using assms(1,3) r(2,5,6) g ab by (simp add: placed_ok_def granted_def cut_ok_def)
  moreover have "same_span e' e" using g r(2) by (simp add: same_span_def fpg_def npg_def)
  ultimately show ?thesis using r(1) g by blast
qed

lemma randomize_ok:
  assumes "est_inv en s {e} B I V L" "cut_ok (es_mem s e) (req + pad) a slab szind na" "a < 62"
  shows "\<exists>s'. (if pad \<noteq> 0 then addr_randomize e (2 ^ a) s else Some s) = Some s' \<and> est_inv en s' {e} B I V L
    \<and> es_maps s' = es_maps s \<and> placed_ok (es_mem s' e) req pad a slab szind na"
proof (cases "pad = 0")
  case True
  with assms(1) cut_placed [OF assms(2)] show ?thesis by simp
next
  case False
  from randomize_desc [OF assms(2,3) False, of "es_offset s" en] obtain st' e' where
    r: "extent_addr_randomize (es_offset s) (es_mem s e) (2 ^ a) = Some (st', e')" "placed_ok e' req pad a slab szind na"
      "same_span e' (es_mem s e)" "active_desc en e' = active_desc en (es_mem s e)" by blast
  define s' where "s' = mem_set (s\<lparr>es_offset := st'\<rparr>) e e'"
  have "est_inv en (s\<lparr>es_offset := st'\<rparr>) {e} B I V L" using assms(1) by (subst est_inv_cong) simp_all
  then have "est_inv en s' {e} B I V L" unfolding s'_def
    by (rule set_active) (use active_in [OF assms(1), of e] r in simp_all)
  moreover have "addr_randomize e (2 ^ a) s = Some s'" by (simp add: addr_randomize_def r(1) s'_def)
  ultimately show ?thesis using False r(2) by (intro exI [of _ s']) (simp add: s'_def)
qed

lemma randomize_loose:
  assumes "est_inv en s A B I V L" "loose s A B V L e" "cut_ok (es_mem s e) (req + pad) a slab szind na" "a < 62"
  shows "\<exists>s'. (if pad \<noteq> 0 then addr_randomize e (2 ^ a) s else Some s) = Some s' \<and> est_inv en s' A B I V L
    \<and> loose s' A B V L e \<and> placed_ok (es_mem s' e) req pad a slab szind na \<and> same_span (es_mem s' e) (es_mem s e)
    \<and> active_desc en (es_mem s' e) = active_desc en (es_mem s e) \<and> extent_slab_get (es_mem s' e) = extent_slab_get (es_mem s e)
    \<and> (\<forall>d. d \<noteq> e \<longrightarrow> es_mem s' d = es_mem s d)"
proof (cases "pad = 0")
  case True
  with assms(1,2) cut_placed [OF assms(3)] show ?thesis by simp
next
  case False
  from randomize_desc [OF assms(3,4) False, of "es_offset s" en] obtain st' e' where
    r: "extent_addr_randomize (es_offset s) (es_mem s e) (2 ^ a) = Some (st', e')" "placed_ok e' req pad a slab szind na"
      "same_span e' (es_mem s e)" "active_desc en e' = active_desc en (es_mem s e)"
      "extent_slab_get e' = extent_slab_get (es_mem s e)" by blast
  define s' where "s' = mem_set (s\<lparr>es_offset := st'\<rparr>) e e'"
  have "est_inv en (s\<lparr>es_offset := st'\<rparr>) A B I V L" using assms(1) by (subst est_inv_cong) simp_all
  moreover have "loose (s\<lparr>es_offset := st'\<rparr>) A B V L e" using assms(2) by (simp add: loose_def)
  ultimately have "est_inv en s' A B I V L" "loose s' A B V L e" unfolding s'_def by (rule set_loose)+
  moreover have "addr_randomize e (2 ^ a) s = Some s'" by (simp add: addr_randomize_def r(1) s'_def)
  ultimately show ?thesis using False r by (intro exI [of _ s']) (simp add: s'_def)
qed

lemma slab_register_ok:
  assumes "est_inv en s {e} B I V L" "e \<notin> I" "placed_ok (es_mem s e) req pad a slab szind na"
  shows "est_inv en (slab_register slab szind e s) {e} B (if slab then insert e I else I) V L"
    "es_maps (slab_register slab szind e s) = es_maps s" "granted (es_mem (slab_register slab szind e s) e) req pad a slab szind na"
proof -
  let ?e = "es_mem s e"
  have sl: "est_inv en (mem_set s e (extent_slab_set ?e True)) {e} B I V L"
    by (rule set_active [OF assms(1)])
      (use active_in [OF assms(1), of e] in \<open>simp_all add: same_span_def fpg_def npg_def get_view view_sets active_desc_def\<close>)
  note ir = interior_registered [OF sl, of e szind]
  show "est_inv en (slab_register slab szind e s) {e} B (if slab then insert e I else I) V L"
    "es_maps (slab_register slab szind e s) = es_maps s"
    using assms(1) ir by (simp_all add: slab_register_def Let_def)
  have "granted (extent_slab_set ?e True) req pad a True szind na"
    using assms(3) by (simp add: placed_ok_def granted_def get_view view_sets)
  then show "granted (es_mem (slab_register slab szind e s) e) req pad a slab szind na"
    using ir(2) assms(3) by (cases slab; cases "extent_slab_get ?e") (simp_all add: slab_register_def Let_def placed_ok_def)
qed

lemma recycle_ok:
  assumes "est_inv en s {} B I V L" "k \<noteq> extent_state_active" "request (req + pad) a" "new_addr \<noteq> 0 \<longrightarrow> a \<le> 12"
    and "unat szind \<le> SC_NSIZES" "adjoins B new_addr na"
  shows "\<exists>r z c s' V' L'. extent_recycle en k new_addr req pad (2 ^ a) slab szind zero commit s = Some ((r, z, c), s')
    \<and> es_maps s' = es_maps s
    \<and> (case r of None \<Rightarrow> est_inv en s' {} B I V' L'
       | Some e \<Rightarrow> est_inv en s' {e} B (if slab then insert e I else I) V' L' \<and> e \<notin> I \<and> granted (es_mem s' e) req pad a slab szind na)"
proof -
  have a: "a < 62" using assms(3) by (simp add: request_def)
  from recycle_extract_ok [OF assms(1-4,6)] obtain r1 s1 L1 where
    x: "extent_recycle_extract en k new_addr req pad (2 ^ a) s = Some (r1, s1)" "es_maps s1 = es_maps s"
      "case r1 of None \<Rightarrow> est_inv en s1 {} B I V L1
       | Some e \<Rightarrow> est_inv en s1 {e} B I V L1 \<and> e \<notin> I \<and> flat (es_mem s1 e)
           \<and> holds_aligned (es_mem s1 e) (req + pad) (2 ^ max 12 a) \<and> (na \<noteq> 0 \<longrightarrow> extent_base_get (es_mem s1 e) = na)" by blast
  show ?thesis
  proof (cases r1)
    case None
    with x show ?thesis by (intro exI [of _ None] exI [of _ zero] exI [of _ commit] exI [of _ s1] exI [of _ V] exI [of _ L1])
        (simp add: extent_recycle_def)
  next
    case (Some d)
    with x(3) have d: "est_inv en s1 {d} B I V L1" "d \<notin> I" "flat (es_mem s1 d)"
      "holds_aligned (es_mem s1 d) (req + pad) (2 ^ max 12 a)" "na \<noteq> 0 \<longrightarrow> extent_base_get (es_mem s1 d) = na \<and> a \<le> 12"
      using assms(4,6) by (simp_all add: adjoins_def)
    from recycle_split_ok [OF d(1-3) assms(5,2,3) d(4,5), of slab] obtain r2 s2 V2 L2 where
      sp: "extent_recycle_split en k req pad (2 ^ a) slab szind d s1 = Some (r2, s2)" "es_maps s2 = es_maps s1"
        "est_inv en s2 (set_option r2) B I V2 L2" "\<forall>e\<in>set_option r2. e \<notin> I \<and> cut_ok (es_mem s2 e) (req + pad) a slab szind na" by blast
    show ?thesis
    proof (cases r2)
      case None
      with x(1,2) Some sp show ?thesis
        by (intro exI [of _ None] exI [of _ zero] exI [of _ commit] exI [of _ s2] exI [of _ V2] exI [of _ L2])
          (simp add: extent_recycle_def)
    next
      case r2: (Some e)
      with sp(3,4) have e: "est_inv en s2 {e} B I V2 L2" "e \<notin> I" "cut_ok (es_mem s2 e) (req + pad) a slab szind na" by simp_all
      from recycle_commit_ok [OF e assms(2), of commit] obtain err s3 V3 L3 where
        c: "recycle_commit en k commit e s2 = Some (err, s3)" "es_maps s3 = es_maps s2"
          "est_inv en s3 (if err then {} else {e}) B I V3 L3" "\<not> err \<longrightarrow> cut_ok (es_mem s3 e) (req + pad) a slab szind na" by blast
      show ?thesis
      proof (cases err)
        case True
        with x(1,2) Some sp(1,2) r2 c show ?thesis
          by (intro exI [of _ None] exI [of _ zero] exI [of _ commit] exI [of _ s3] exI [of _ V3] exI [of _ L3])
            (simp add: extent_recycle_def)
      next
        case False
        with c(3,4) have i3: "est_inv en s3 {e} B I V3 L3" "cut_ok (es_mem s3 e) (req + pad) a slab szind na" by simp_all
        from randomize_ok [OF i3 a] obtain s4 where
          s4: "(if pad \<noteq> 0 then addr_randomize e (2 ^ a) s3 else Some s3) = Some s4" "est_inv en s4 {e} B I V3 L3"
            "es_maps s4 = es_maps s3" "placed_ok (es_mem s4 e) req pad a slab szind na" by blast
        note sr = slab_register_ok [OF s4(2) e(2) s4(4)]
        have "extent_recycle en k new_addr req pad (2 ^ a) slab szind zero commit s
            = Some ((Some e, zero \<or> extent_zeroed_get (es_mem s3 e), commit \<or> extent_committed_get (es_mem s3 e)),
                slab_register slab szind e s4)"
          using x(1) Some sp(1) r2 c(1) False s4(1) by (simp add: extent_recycle_def)
        then show ?thesis using sr e(2) x(2) sp(2) c(2) s4(3)
          by (intro exI [of _ "Some e"] exI [of _ "zero \<or> extent_zeroed_get (es_mem s3 e)"]
              exI [of _ "commit \<or> extent_committed_get (es_mem s3 e)"] exI [of _ "slab_register slab szind e s4"]
              exI [of _ V3] exI [of _ L3]) simp
      qed
    qed
  qed
qed

end
