(* ===== verification/Extent_Grow.thy ===== *)
theory Extent_Grow
  imports Extent_Life
begin

text \<open>
  Growing of retained memory, the wrappers around the allocation and deallocation hooks, and
  eviction with delayed coalescing keep the invariant of the extents of an arena (theory
  Extent_Inv). What the allocation hook promises of new memory is a hypothesis, \<open>hook_fresh\<close> and
  \<open>hook_placed\<close>.
\<close>

section \<open>Setting extents aside\<close>

lemma park_set:
  assumes "est_inv en s (A \<union> D) B I V L" "A \<inter> D = {}"
  shows "est_inv en s D (\<lambda>d. if d \<in> A then Some (es_mem s d) else B d) I V L"
proof -
  let ?B = "\<lambda>d. if d \<in> A then Some (es_mem s d) else B d"
  note i = est_invD [OF assms(1)]
  have dm: "dom ?B = A \<union> dom B" by (auto split: if_splits)
  have u: "uses D ?B L = uses (A \<union> D) B L" unfolding uses_def dm by auto
  have "parts D (dom ?B) L" using i(5) assms(2) unfolding parts_def dm by auto
  moreover have "roles en (es_mem s) D ?B L" using i(7) by (auto simp: roles_def)
  moreover have "I \<subseteq> D \<union> dom ?B" using i(3) unfolding dm by auto
  ultimately show ?thesis using i by (simp add: est_inv_def u)
qed

lemma unpark_set:
  assumes "est_inv en s D (\<lambda>d. if d \<in> A then Some (m d) else B d) I V L" "A \<inter> dom B = {}" "\<forall>d\<in>A. active_desc en (m d)"
  shows "est_inv en s (A \<union> D) B I V L" "d \<in> A \<Longrightarrow> es_mem s d = m d"
proof -
  let ?B = "\<lambda>d. if d \<in> A then Some (m d) else B d"
  note i = est_invD [OF assms(1)]
  have dm: "dom ?B = A \<union> dom B" by (auto split: if_splits)
  have u: "uses (A \<union> D) B L = uses D ?B L" unfolding uses_def dm by auto
  have e: "es_mem s d = m d" if "d \<in> A" for d
  proof -
    have "?B d = Some (m d)" using that by simp
    then show ?thesis using i(7) unfolding roles_def by blast
  qed
  then show "d \<in> A \<Longrightarrow> es_mem s d = m d" .
  have "parts (A \<union> D) (dom B) L" using i(5) assms(2) unfolding parts_def dm by auto
  moreover have "roles en (es_mem s) (A \<union> D) B L"
  proof -
    have "B d = ?B d" if "B d = Some x" for d x using that assms(2) by auto
    then have "es_mem s d = x \<and> (active_desc en x \<or> foreign_desc en x)" if "B d = Some x" for d x
      using i(7) that unfolding roles_def by metis
    then show ?thesis using i(7) assms(3) e by (auto simp: roles_def)
  qed
  moreover have "I \<subseteq> A \<union> D \<union> dom B" using i(3) unfolding dm by auto
  ultimately show "est_inv en s (A \<union> D) B I V L" using i by (simp add: est_inv_def u)
qed

lemma record_other:
  assumes "est_inv en s (insert d A) B I V L" "d \<notin> A" "d \<notin> I" "flat (es_mem s d)" "k \<noteq> extent_state_active"
  shows "\<exists>s' V' L'. extent_record en k d s = Some s' \<and> est_inv en s' A B I V' L' \<and> es_maps s' = es_maps s
    \<and> (\<forall>e\<in>A. es_mem s' e = es_mem s e)"
proof -
  let ?B = "\<lambda>d. if d \<in> A then Some (es_mem s d) else B d"
  have AB: "A \<inter> dom B = {}" "\<forall>e\<in>A. active_desc en (es_mem s e)"
    using partsD(1) [OF assms(1)] active_in [OF assms(1)] by blast+
  have "est_inv en s (A \<union> {d}) B I V L" using assms(1) by simp
  then have p: "est_inv en s {d} ?B I V L" by (rule park_set) (use assms(2) in simp)
  have "I - {d} = I" using assms(3) by auto
  with record_ok [OF p _ _ assms(5)] assms(3,4) obtain s' V' L' where
    s': "extent_record en k d s = Some s'" "est_inv en s' {} ?B I V' L'" "es_maps s' = es_maps s"
    by (auto simp: flat_def)
  from unpark_set [OF s'(2) AB] s' show ?thesis by auto
qed

lemma record_opt_ok:
  assumes "est_inv en s (A \<union> set_option x) B I V L" "A \<inter> set_option x = {}"
    and "\<forall>y\<in>set_option x. y \<notin> I \<and> flat (es_mem s y)" "k \<noteq> extent_state_active"
  shows "\<exists>s' V' L'. record_opt en k x s = Some s' \<and> est_inv en s' A B I V' L' \<and> es_maps s' = es_maps s
    \<and> (\<forall>e\<in>A. es_mem s' e = es_mem s e)"
proof (cases x)
  case None
  with assms(1) show ?thesis by (auto simp: record_opt_def)
next
  case (Some y)
  with assms have "est_inv en s (insert y A) B I V L" "y \<notin> A" "y \<notin> I" "flat (es_mem s y)" by auto
  from record_other [OF this assms(4)] Some show ?thesis by (simp add: record_opt_def)
qed

section \<open>New memory\<close>

text \<open>What the allocation hook promises at the time it is called: pages that no registered extent
  has, below the end of the address space of a process.\<close>

definition fresh_region :: "estate \<Rightarrow> uintptr \<Rightarrow> size_t \<Rightarrow> bool" where
  "fresh_region s p sz \<longleftrightarrow> 4096 dvd unat p \<and> 0 < unat p \<and> unat p + unat sz \<le> 2 ^ 47
     \<and> (\<forall>n d. own (es_pages s) n = Some d \<longrightarrow> unat p + unat sz \<le> 4096 * fpg (es_mem s d)
          \<or> 4096 * (fpg (es_mem s d) + npg (es_mem s d)) \<le> unat p)"

definition hook_fresh :: "estate \<Rightarrow> size_t \<Rightarrow> bool" where
  "hook_fresh s sz \<longleftrightarrow> (case es_maps s of [] \<Rightarrow> True | (p, _) # _ \<Rightarrow> p \<noteq> 0 \<longrightarrow> fresh_region s p sz)"

lemma fresh_extent:
  assumes "est_inv en s A B I V L" "fresh_region s p sz" "page_size sz"
    and "extent_addr_get e = p" "extent_size_get e = sz"
  shows "ext_ok e" "u \<in> uses A B L \<Longrightarrow> apart e (es_mem s u)" "extent_base_get e = p"
proof -
  note i = est_invD [OF assms(1)]
  have f: "4096 dvd unat p" "0 < unat p" "unat p + unat sz \<le> 2 ^ 47" using assms(2) by (simp_all add: fresh_region_def)
  show b: "extent_base_get e = p" using aligned_base [OF f(1)] assms(4) by (simp add: get_view)
  obtain m where m: "unat p = 4096 * m" using f(1) by (rule dvdE)
  obtain n where n: "unat sz = 4096 * n" using assms(3) unfolding page_size_def by (elim conjE dvdE)
  have fp: "fpg e = m" "npg e = n" by (simp_all add: fpg_def npg_def b assms(5) m n)
  have "1 \<le> m" "m + n \<le> 2 ^ 35" using f(2,3) m n by simp_all
  then show "ext_ok e" using assms(3,5) by (simp add: ext_ok_def fp)
  assume u: "u \<in> uses A B L"
  note k = ext_okD [OF geoD(4) [OF i(4) u]]
  have "fpg (es_mem s u) < 2 ^ 64" using k(5,6) by simp
  then have "own (es_pages s) (fpg (es_mem s u)) = Some u" using geoD(6) [OF i(4)] u by (simp add: covers_def)
  then have "unat p + unat sz \<le> 4096 * fpg (es_mem s u) \<or> 4096 * (fpg (es_mem s u) + npg (es_mem s u)) \<le> unat p"
    using assms(2) unfolding fresh_region_def by blast
  then show "apart e (es_mem s u)" unfolding apart_def fp using m n by auto
qed

text \<open>The states before the hook is called differ in nothing that the promise mentions.\<close>

lemma hook_fresh_cong: "es_maps s' = es_maps s \<Longrightarrow> es_pages s' = es_pages s \<Longrightarrow> es_mem s' = es_mem s \<Longrightarrow>
    hook_fresh s' sz = hook_fresh s sz"
  by (cases "es_maps s") (auto simp: hook_fresh_def fresh_region_def)

lemma pop_map_frame:
  assumes "pop_map s = ((p, z, c), s')"
  shows "est_inv en s' A B I V L = est_inv en s A B I V L" "loose s' A B V L d = loose s A B V L d"
    "es_mem s' = es_mem s" "es_pages s' = es_pages s" "hook_fresh s sz \<Longrightarrow> p \<noteq> 0 \<Longrightarrow> fresh_region s' p sz"
proof -
  have e: "es_mem s' = es_mem s" "es_pages s' = es_pages s" "es_ex s' = es_ex s" "es_avail s' = es_avail s"
    "es_descs s' = es_descs s" "grow_bound s' = grow_bound s"
    using assms by (auto simp: pop_map_def split: list.splits)
  show "es_mem s' = es_mem s" "es_pages s' = es_pages s" by (rule e)+
  show "est_inv en s' A B I V L = est_inv en s A B I V L" by (intro est_inv_cong e)
  show "loose s' A B V L d = loose s A B V L d" by (simp add: loose_def e)
  show "fresh_region s' p sz" if "hook_fresh s sz" "p \<noteq> 0"
    using assms that by (auto simp: pop_map_def hook_fresh_def fresh_region_def e split: list.splits)
qed

lemma sn_next_frame:
  assumes "arena_extent_sn_next s = (sn, s')"
  shows "est_inv en s' A B I V L = est_inv en s A B I V L" "loose s' A B V L d = loose s A B V L d"
    "es_mem s' = es_mem s" "es_pages s' = es_pages s" "fresh_region s' p sz = fresh_region s p sz"
proof -
  have s': "s' = s\<lparr>es_sn_next := es_sn_next s + 1\<rparr>" using assms by (auto simp: arena_extent_sn_next_def)
  show "es_mem s' = es_mem s" "es_pages s' = es_pages s" "fresh_region s' p sz = fresh_region s p sz"
    "loose s' A B V L d = loose s A B V L d"
    by (simp_all add: s' fresh_region_def loose_def)
  show "est_inv en s' A B I V L = est_inv en s A B I V L" by (intro est_inv_cong) (simp_all add: s')
qed

text \<open>A descriptor for the new memory, before it is registered.\<close>

lemma new_extent_ok:
  assumes "est_inv en s {} B I V L" "hook_fresh s sz" "page_size sz" "unat szind \<le> SC_NSIZES"
    and al: "extent_alloc s = (e, s1)" "e \<noteq> 0" and pm: "pop_map s1 = ((p, z, c), s2)"
    and sn: "arena_extent_sn_next s2 = (sn, s3)"
    and s4: "s4 = mem_set s3 e (extent_init (es_mem s3 e) (Some (en_ind en)) p sz slab szind sn extent_state_active z c True)"
  shows "\<exists>V'. est_inv en s4 {} B I V' L \<and> loose s4 {} B V' L e \<and> est_inv en s2 {} B I V' L \<and> loose s2 {} B V' L e"
    "p \<noteq> 0 \<Longrightarrow> ext_ok (es_mem s4 e)" "active_desc en (es_mem s4 e)"
    "p \<noteq> 0 \<Longrightarrow> u \<in> uses {} B L \<Longrightarrow> apart (es_mem s4 e) (es_mem s4 u)"
    "p \<noteq> 0 \<Longrightarrow> extent_base_get (es_mem s4 e) = p" "extent_addr_get (es_mem s4 e) = p" "extent_size_get (es_mem s4 e) = sz"
    "extent_slab_get (es_mem s4 e) = slab" "ev_szind (extent_view (es_mem s4 e)) = unat szind"
proof -
  note ao = extent_alloc_ok [OF assms(1) al(1)] and pf = pop_map_frame [OF pm] and nf = sn_next_frame [OF sn]
  obtain V1 where V1: "est_inv en s1 {} B I V1 L" "loose s1 {} B V1 L e" using ao(1) al(2) by blast
  have i3: "est_inv en s3 {} B I V1 L" "loose s3 {} B V1 L e" using V1 pf nf by simp_all
  note sl = set_loose [OF i3, of "extent_init (es_mem s3 e) (Some (en_ind en)) p sz slab szind sn extent_state_active z c True", folded s4]
  show "\<exists>V'. est_inv en s4 {} B I V' L \<and> loose s4 {} B V' L e \<and> est_inv en s2 {} B I V' L \<and> loose s2 {} B V' L e"
    using sl V1 pf by blast
  have m4: "es_mem s4 e = extent_init (es_mem s3 e) (Some (en_ind en)) p sz slab szind sn extent_state_active z c True"
    by (simp add: s4)
  note g = init_get [OF est_invD(2) [OF assms(1)] assms(4,3) m4]
  show "extent_addr_get (es_mem s4 e) = p" "extent_size_get (es_mem s4 e) = sz" "extent_slab_get (es_mem s4 e) = slab"
    "active_desc en (es_mem s4 e)" "ev_szind (extent_view (es_mem s4 e)) = unat szind"
    using g by (simp_all add: active_desc_def)
  assume p: "p \<noteq> 0"
  have "hook_fresh s1 sz" using assms(2) hook_fresh_cong [of s1 s sz] ao(2-5) by simp
  from pf(5) [OF this p] have "fresh_region s3 p sz" using nf(5) by simp
  note fe = fresh_extent [OF i3(1) this assms(3) g(1,2)]
  then show "ext_ok (es_mem s4 e)" "extent_base_get (es_mem s4 e) = p" by simp_all
  show "u \<in> uses {} B L \<Longrightarrow> apart (es_mem s4 e) (es_mem s4 u)"
    using fe(2) i3(2) by (auto simp: s4 loose_def)
qed

section \<open>Growing\<close>

lemma maxclass_psz: "sz_psz2ind SC_LARGE_MAXCLASS = 198"
proof -
  note u = SC_LARGE_MAXCLASS_unat
  have "sz_psz2ind SC_LARGE_MAXCLASS \<le> 198" using psz2ind_le [of SC_LARGE_MAXCLASS 198] max_class_sizes(2) u by simp
  moreover have "\<not> sz_psz2ind SC_LARGE_MAXCLASS \<le> 197"
    using psz2ind_le [of SC_LARGE_MAXCLASS 197] group_size_12_mono [of 197 198] max_class_sizes(2) u by simp
  ultimately show ?thesis by simp
qed

lemma pind2sz_ok:
  assumes "tabs_ok t" "i \<le> 198"
  shows "\<exists>sz. sz_pind2sz t i = Some sz \<and> page_size sz"
proof -
  have "unat (sz_pind2sz_compute i) = group_size 12 i" using assms(2) by (simp add: unat_sz_pind2sz_compute)
  then have "page_size (sz_pind2sz_compute i)" using page_dvd_group_size group_size_pos by (simp add: page_size_def)
  then show ?thesis using assms sz_pind2sz_ok [OF assms(1), of i] by (simp add: sc_macro_values(2))
qed

lemma grow_skip_ok:
  assumes "tabs_ok t" "next + skip \<le> 198" "page_size sz"
  shows "\<exists>r. grow_skip t next lim skip sz = Some r
    \<and> (\<forall>skip' sz'. r = Some (skip', sz') \<longrightarrow> page_size sz' \<and> lim \<le> sz')"
  using assms(2,3)
proof (induction "198 - (next + skip)" arbitrary: skip sz rule: less_induct)
  case less
  show ?case
  proof (cases "sz < lim")
    case False
    then have "grow_skip t next lim skip sz = Some (Some (skip, sz))" by (subst grow_skip.simps) simp
    with less.prems(2) False show ?thesis by (simp add: not_less)
  next
    case lt: True
    show ?thesis
    proof (cases "198 \<le> next + (skip + 1)")
      case True
      then show ?thesis using lt by (subst grow_skip.simps) (simp add: maxclass_psz)
    next
      case False
      then have "next + (skip + 1) \<le> 198" by simp
      from pind2sz_ok [OF assms(1) this] obtain sz1 where
        sz1: "sz_pind2sz t (next + (skip + 1)) = Some sz1" "page_size sz1" by blast
      have "grow_skip t next lim skip sz = grow_skip t next lim (skip + 1) sz1"
        using lt False sz1(1) by (subst grow_skip.simps) (simp add: maxclass_psz)
      moreover have "198 - (next + (skip + 1)) < 198 - (next + skip)" using False by simp
      ultimately show ?thesis using less.hyps [of "skip + 1" sz1] sz1(2) False by simp
    qed
  qed
qed

text \<open>The size that growing asks the hook for.\<close>

definition grow_size :: "extent_env \<Rightarrow> estate \<Rightarrow> size_t \<Rightarrow> size_t \<Rightarrow> size_t" where
  "grow_size en s esize alignment =
     (case sz_pind2sz (en_tabs en) (es_grow_next s) of None \<Rightarrow> 0
      | Some sz \<Rightarrow>
          (case grow_skip (en_tabs en) (es_grow_next s) (esize + PAGE_CEILING alignment - PAGE) 0 sz of
             Some (Some (skip, sz)) \<Rightarrow> sz
           | _ \<Rightarrow> 0))"

lemma grow_no_overflow:
  assumes "request esize a"
  shows "\<not> esize + PAGE_CEILING (2 ^ a) - PAGE < esize"
    "unat (esize + PAGE_CEILING (2 ^ a) - PAGE) = unat esize + 2 ^ max 12 a - 4096" "4096 \<le> (2::nat) ^ max 12 a"
proof -
  have rq: "page_size esize" "a < 62" "unat esize + 2 ^ max 12 a \<le> 7 * 2 ^ 60 + 8192"
    using assms by (simp_all add: request_def)
  have k12: "12 \<le> max 12 a" "max 12 a < 62" using rq(2) by simp_all
  show p: "4096 \<le> (2::nat) ^ max 12 a" using power_increasing [OF k12(1), of "2::nat"] by simp
  show u: "unat (esize + PAGE_CEILING (2 ^ a) - PAGE) = unat esize + 2 ^ max 12 a - 4096"
    using page_size_pow2 [OF k12 _ rq(1)] rq(3) by (simp add: PAGE_CEILING_pow2 [OF rq(2)])
  show "\<not> esize + PAGE_CEILING (2 ^ a) - PAGE < esize" using p unfolding word_less_nat_alt u by simp
qed

lemma grown_holds:
  assumes "request esize a" "esize + PAGE_CEILING (2 ^ a) - PAGE \<le> extent_size_get e" "ext_ok e"
  shows "holds_aligned e esize (2 ^ max 12 a)"
proof -
  note k = ext_okD [OF assms(3)] and o = grow_no_overflow [OF assms(1)]
  have "unat esize + 2 ^ max 12 a \<le> unat (extent_size_get e) + 4096"
    using assms(2) o(3) unfolding word_le_nat_alt o(2) by simp
  moreover have "in_space e" using k(1,4) by (simp add: in_space_def unat_base)
  ultimately show ?thesis by (intro padded_holds) simp_all
qed

lemma grow_next_ok: "est_inv en s A B I V L \<Longrightarrow> n \<le> 198 \<Longrightarrow> est_inv en (s\<lparr>es_grow_next := n\<rparr>) A B I V L"
  by (simp add: est_inv_def grow_bound_def)

text \<open>The end of \<open>extent_grow_retained\<close>, from the new extent on.\<close>

definition grow_tail ::
  "extent_env \<Rightarrow> uintptr \<Rightarrow> size_t \<Rightarrow> size_t \<Rightarrow> size_t \<Rightarrow> bool \<Rightarrow> szind \<Rightarrow> nat \<Rightarrow> bool \<Rightarrow> bool \<Rightarrow> estate
    \<Rightarrow> ((uintptr option \<times> bool \<times> bool) \<times> estate) option" where
  "grow_tail en d req pad alignment slab szind egn_skip zero commit s = do {
       (result, s) \<leftarrow> extent_split_interior en d req pad alignment slab szind s;
       case result of
         extent_split_interior_ok extent lead trail \<Rightarrow> do {
           s \<leftarrow> record_opt en extent_state_retained lead s;
           s \<leftarrow> record_opt en extent_state_retained trail s;
           (err, s) \<leftarrow> recycle_commit en extent_state_retained commit extent s;
           if err then Some ((None, zero, commit), s)
           else do {
             let s = s\<lparr>es_grow_next := (if es_grow_next s + egn_skip + 1 \<le> es_grow_limit s
                        then es_grow_next s + (egn_skip + 1) else es_grow_limit s)\<rparr>;
             s \<leftarrow> (if pad \<noteq> 0 then addr_randomize extent alignment s else Some s);
             Some ((Some extent, zero, commit), slab_register slab szind extent s)
           }
         }
       | extent_split_interior_cant_alloc \<Rightarrow> None
       | extent_split_interior_error to_leak to_salvage \<Rightarrow> do {
           s \<leftarrow> record_opt en extent_state_retained to_salvage s;
           let s = (case to_leak of None \<Rightarrow> s
             | Some e \<Rightarrow> extents_leak en extent_state_retained e (extent_deregister_no_gdump_sub e s));
           Some ((None, zero, commit), s)
         }
     }"

lemma grow_tail_ok:
  assumes "est_inv en s {d} B I V L" "d \<notin> I" "flat (es_mem s d)" "unat szind \<le> SC_NSIZES"
    and "request (req + pad) a" "holds_aligned (es_mem s d) (req + pad) (2 ^ max 12 a)" "na = 0"
  shows "\<exists>r z c s' V' L'. grow_tail en d req pad (2 ^ a) slab szind egn_skip zero commit s = Some ((r, z, c), s')
    \<and> (case r of None \<Rightarrow> est_inv en s' {} B I V' L'
       | Some e \<Rightarrow> est_inv en s' {e} B (if slab then insert e I else I) V' L' \<and> e \<notin> I \<and> granted (es_mem s' e) req pad a slab szind na)
    \<and> es_maps s' = es_maps s"
    (is "\<exists>r z c s' V' L'. ?tail = Some ((r, z, c), s') \<and> _")
proof -
  let ?R = extent_state_retained
  have rq: "page_size (req + pad)" "a < 62" using assms(5) by (simp_all add: request_def)
  have "na \<noteq> 0 \<longrightarrow> extent_base_get (es_mem s d) = na \<and> a \<le> 12" using assms(7) by simp
  from split_interior_ok [OF assms(1-4) rq assms(6) this, of slab] obtain res s1 where
    r: "extent_split_interior en d req pad (2 ^ a) slab szind s = Some (res, s1)" "es_maps s1 = es_maps s"
      "case res of
       extent_split_interior_ok e lead trail \<Rightarrow>
         (\<exists>V'. est_inv en s1 ({e} \<union> set_option lead \<union> set_option trail) B I V' L) \<and> e \<notin> I
         \<and> cut_ok (es_mem s1 e) (req + pad) a slab szind na \<and> e \<notin> set_option lead \<union> set_option trail
         \<and> set_option lead \<inter> set_option trail = {}
         \<and> (\<forall>x\<in>set_option lead \<union> set_option trail. x \<notin> I \<and> flat (es_mem s1 x))
     | extent_split_interior_cant_alloc \<Rightarrow> False
     | extent_split_interior_error leak salvage \<Rightarrow>
         \<exists>x. leak = Some x \<and> (\<exists>V'. est_inv en s1 ({x} \<union> set_option salvage) B I V' L) \<and> x \<notin> I
           \<and> x \<notin> set_option salvage \<and> (\<forall>y\<in>set_option salvage. y \<notin> I \<and> flat (es_mem s1 y))" by blast
  show ?thesis
  proof (cases res)
    case (extent_split_interior_ok e lead trail)
    with r(3) obtain V1 where V1: "est_inv en s1 (({e} \<union> set_option trail) \<union> set_option lead) B I V1 L"
      and c: "e \<notin> I" "cut_ok (es_mem s1 e) (req + pad) a slab szind na" "e \<notin> set_option lead \<union> set_option trail"
        "set_option lead \<inter> set_option trail = {}" "\<forall>x\<in>set_option lead \<union> set_option trail. x \<notin> I \<and> flat (es_mem s1 x)"
      by (auto simp: Un_ac)
    have nR: "?R \<noteq> extent_state_active" by simp
    from record_opt_ok [OF V1 _ _ nR] c obtain s2 V2 L2 where
      s2: "record_opt en ?R lead s1 = Some s2" "est_inv en s2 ({e} \<union> set_option trail) B I V2 L2" "es_maps s2 = es_maps s1"
        "\<forall>x\<in>{e} \<union> set_option trail. es_mem s2 x = es_mem s1 x" by blast
    from record_opt_ok [OF s2(2) _ _ nR] c s2(4) obtain s3 V3 L3 where
      s3: "record_opt en ?R trail s2 = Some s3" "est_inv en s3 {e} B I V3 L3" "es_maps s3 = es_maps s2" "es_mem s3 e = es_mem s2 e"
      by auto
    have cut: "cut_ok (es_mem s3 e) (req + pad) a slab szind na" using c(2) s2(4) s3(4) by simp
    from recycle_commit_ok [OF s3(2) c(1) cut nR, of commit] obtain err s4 V4 L4 where
      c4: "recycle_commit en ?R commit e s3 = Some (err, s4)" "es_maps s4 = es_maps s3"
        "est_inv en s4 (if err then {} else {e}) B I V4 L4" "\<not> err \<longrightarrow> cut_ok (es_mem s4 e) (req + pad) a slab szind na" by blast
    show ?thesis
    proof (cases err)
      case True
      have "?tail = Some ((None, zero, commit), s4)"
        using r(1) extent_split_interior_ok s2(1) s3(1) c4(1) True by (simp add: grow_tail_def)
      then show ?thesis using True c4(2,3) r(2) s2(3) s3(3)
        by (intro exI [of _ None] exI [of _ zero] exI [of _ commit] exI [of _ s4] exI [of _ V4] exI [of _ L4]) simp
    next
      case False
      define s5 where "s5 = s4\<lparr>es_grow_next := (if es_grow_next s4 + egn_skip + 1 \<le> es_grow_limit s4
        then es_grow_next s4 + (egn_skip + 1) else es_grow_limit s4)\<rparr>"
      have s5': "s4\<lparr>es_grow_next := (if Suc (es_grow_next s4 + egn_skip) \<le> es_grow_limit s4
        then es_grow_next s4 + (egn_skip + 1) else es_grow_limit s4)\<rparr> = s5" by (simp add: s5_def)
      have i4: "est_inv en s4 {e} B I V4 L4" "cut_ok (es_mem s4 e) (req + pad) a slab szind na" using c4(3,4) False by simp_all
      have "grow_bound s4" by (rule est_invD(9) [OF i4(1)])
      then have i5: "est_inv en s5 {e} B I V4 L4" unfolding s5_def by (intro grow_next_ok [OF i4(1)]) (simp add: grow_bound_def)
      have cut5: "cut_ok (es_mem s5 e) (req + pad) a slab szind na" using i4(2) by (simp add: s5_def)
      from randomize_ok [OF i5 cut5 rq(2)] obtain s6 where
        s6: "(if pad \<noteq> 0 then addr_randomize e (2 ^ a) s5 else Some s5) = Some s6" "est_inv en s6 {e} B I V4 L4"
          "es_maps s6 = es_maps s5" "placed_ok (es_mem s6 e) req pad a slab szind na" by blast
      note sr = slab_register_ok [OF s6(2) c(1) s6(4)]
      have "?tail = Some ((Some e, zero, commit), slab_register slab szind e s6)"
        using r(1) extent_split_interior_ok s2(1) s3(1) c4(1) False s6(1) by (simp add: grow_tail_def s5' split del: if_split)
      then show ?thesis using sr c(1) c4(2) r(2) s2(3) s3(3) s6(3)
        by (intro exI [of _ "Some e"] exI [of _ zero] exI [of _ commit] exI [of _ "slab_register slab szind e s6"]
            exI [of _ V4] exI [of _ L4]) (simp add: s5_def)
    qed
  next
    case extent_split_interior_cant_alloc
    with r(3) show ?thesis by simp
  next
    case (extent_split_interior_error leak salvage)
    with r(3) obtain x V1 where x: "leak = Some x" "est_inv en s1 ({x} \<union> set_option salvage) B I V1 L" "x \<notin> I"
      "x \<notin> set_option salvage" "\<forall>y\<in>set_option salvage. y \<notin> I \<and> flat (es_mem s1 y)" by auto
    from record_opt_ok [OF x(2), of ?R] x(4,5) obtain s2 V2 L2 where
      s2: "record_opt en ?R salvage s1 = Some s2" "est_inv en s2 {x} B I V2 L2" "es_maps s2 = es_maps s1" by auto
    note dl = deregister_leak [OF s2(2) x(3), of ?R]
    have "?tail = Some ((None, zero, commit), extents_leak en ?R x (extent_deregister_impl x s2))"
      using r(1) extent_split_interior_error x(1) s2(1) by (simp add: grow_tail_def extent_deregister_no_gdump_sub_def)
    then show ?thesis using dl r(2) s2(3)
      by (intro exI [of _ None] exI [of _ zero] exI [of _ commit]
          exI [of _ "extents_leak en ?R x (extent_deregister_impl x s2)"] exI [of _ "insert x V2"] exI [of _ L2]) simp
  qed
qed

text \<open>The outcome of an allocation, and the state after it.\<close>

definition alloc_result :: "extent_env \<Rightarrow> (uintptr \<rightharpoonup> extent) \<Rightarrow> uintptr set \<Rightarrow> size_t \<Rightarrow> size_t \<Rightarrow> nat \<Rightarrow> bool
    \<Rightarrow> szind \<Rightarrow> uintptr \<Rightarrow> uintptr option \<Rightarrow> estate \<Rightarrow> bool" where
  "alloc_result en B I req pad a slab szind na r s \<longleftrightarrow> (\<exists>V L. case r of None \<Rightarrow> est_inv en s {} B I V L
     | Some e \<Rightarrow> est_inv en s {e} B (if slab then insert e I else I) V L \<and> e \<notin> I \<and> granted (es_mem s e) req pad a slab szind na)"

lemma register_new:
  assumes "est_inv en s {} B I V L" "loose s {} B V L e" "ext_ok (es_mem s e)" "active_desc en (es_mem s e)"
    and "\<forall>u\<in>uses {} B L. apart (es_mem s e) (es_mem s u)" "extent_register_impl is_new e s = (err, s')"
  shows "es_mem s' = es_mem s" "err \<Longrightarrow> est_inv en (extents_leak en k e s') {} B I (insert e V) L"
    "\<not> err \<Longrightarrow> est_inv en s' {e} B (if extent_slab_get (es_mem s e) then insert e I else I) V L"
proof -
  show "es_mem s' = es_mem s" by (rule register_ok(1) [OF assms(1-4) _ assms(6)]) (use assms(5) in blast)
  show "est_inv en s' {e} B (if extent_slab_get (es_mem s e) then insert e I else I) V L" if "\<not> err"
    by (rule register_ok(4) [OF assms(1-4) _ assms(6) that]) (use assms(5) in blast)
  have "est_inv en s' {} B I V L \<and> loose s' {} B V L e" if err
    by (rule register_ok(3) [OF assms(1-4) _ assms(6) that]) (use assms(5) in blast)
  then show "est_inv en (extents_leak en k e s') {} B I (insert e V) L" if err using that leak_ok(1) by blast
qed

lemma grow_ok:
  assumes "est_inv en s {} B I V L" "request (req + pad) a" "unat szind \<le> SC_NSIZES"
    and "hook_fresh s (grow_size en s (req + pad) (2 ^ a))" "na = 0"
  shows "\<exists>r z c s'. extent_grow_retained en req pad (2 ^ a) slab szind zero commit s = Some ((r, z, c), s')
    \<and> alloc_result en B I req pad a slab szind na r s'"
proof -
  note i = est_invD [OF assms(1)]
  let ?esize = "req + pad" and ?min = "req + pad + PAGE_CEILING (2 ^ a) - PAGE"
  have gn: "es_grow_next s \<le> 198" using i(9) by (simp add: grow_bound_def)
  from pind2sz_ok [OF i(1) gn] obtain sz0 where sz0: "sz_pind2sz (en_tabs en) (es_grow_next s) = Some sz0" "page_size sz0" by blast
  have gn0: "es_grow_next s + 0 \<le> 198" using gn by simp
  from grow_skip_ok [OF i(1) gn0 sz0(2), of ?min] obtain found where
    f: "grow_skip (en_tabs en) (es_grow_next s) ?min 0 sz0 = Some found"
      "\<forall>skip' sz'. found = Some (skip', sz') \<longrightarrow> page_size sz' \<and> ?min \<le> sz'" by blast
  have none: ?thesis if "extent_grow_retained en req pad (2 ^ a) slab szind zero commit s = Some ((None, z, c), s')"
    "est_inv en s' {} B I V' L" for z c s' V'
    using that by (intro exI [of _ None] exI [of _ z] exI [of _ c] exI [of _ s']) (auto simp: alloc_result_def)
  note o = grow_no_overflow [OF assms(2)]
  show ?thesis
  proof (cases found)
    case None
    then have "extent_grow_retained en req pad (2 ^ a) slab szind zero commit s = Some ((None, zero, commit), s)"
      using o(1) sz0(1) f(1) by (simp add: extent_grow_retained_def)
    then show ?thesis using none assms(1) by blast
  next
    case (Some ss)
    obtain skip sz where ss: "found = Some (skip, sz)" using Some by (cases ss) simp
    with f have sz: "page_size sz" "?min \<le> sz" by simp_all
    have gs: "grow_size en s ?esize (2 ^ a) = sz" using sz0(1) f(1) ss by (simp add: grow_size_def)
    obtain e s1 where al: "extent_alloc s = (e, s1)" by (cases "extent_alloc s")
    show ?thesis
    proof (cases "e = 0")
      case True
      then have "extent_grow_retained en req pad (2 ^ a) slab szind zero commit s = Some ((None, zero, commit), s1)"
        using o(1) sz0(1) f(1) ss al by (simp add: extent_grow_retained_def)
      then show ?thesis using none extent_alloc_ok(1) [OF assms(1) al] by blast
    next
      case e0: False
      obtain p z c s2 where pm: "pop_map s1 = ((p, z, c), s2)" by (metis prod_cases3 surj_pair)
      obtain sn s3 where sn: "arena_extent_sn_next s2 = (sn, s3)" by (cases "arena_extent_sn_next s2")
      define s4 where "s4 = mem_set s3 e (extent_init (es_mem s3 e) (Some (en_ind en)) p sz False (of_nat SC_NSIZES) sn
        extent_state_active z c True)"
      note ne = new_extent_ok [OF assms(1) assms(4) [unfolded gs] sz(1) nsizes_ok al e0 pm sn s4_def]
      obtain V1 where V1: "est_inv en s4 {} B I V1 L" "loose s4 {} B V1 L e" using ne(1) by blast
      show ?thesis
      proof (cases "p = 0")
        case True
        then have "extent_grow_retained en req pad (2 ^ a) slab szind zero commit s
            = Some ((None, zero, commit), extent_dalloc e s4)"
          using o(1) sz0(1) f(1) ss al e0 pm sn by (simp add: extent_grow_retained_def s4_def)
        then show ?thesis using none extent_dalloc_ok [OF V1] by blast
      next
        case p0: False
        obtain err s5 where rg: "extent_register_impl True e s4 = (err, s5)" by (cases "extent_register_impl True e s4")
        have ap: "\<forall>u\<in>uses {} B L. apart (es_mem s4 e) (es_mem s4 u)" using ne(4) [OF p0] by blast
        note rn = register_new [OF V1 ne(2) [OF p0] ne(3) ap rg]
        show ?thesis
        proof (cases err)
          case True
          then have "extent_grow_retained en req pad (2 ^ a) slab szind zero commit s
              = Some ((None, zero, commit), extents_leak en extent_state_retained e s5)"
            using o(1) sz0(1) f(1) ss al e0 pm sn p0 rg
            by (simp add: extent_grow_retained_def s4_def [symmetric] extent_register_no_gdump_add_def)
          then show ?thesis using none rn(2) [OF True] by blast
        next
          case False
          have slab0: "\<not> extent_slab_get (es_mem s4 e)" using ne(8) by simp
          have i5: "est_inv en s5 {e} B I V1 L" using rn(3) [OF False] slab0 by simp
          have eI: "e \<notin> I" using i(3) V1(2) by (auto simp: loose_def uses_def)
          have fl: "flat (es_mem s5 e)" using slab0 ne(5) [OF p0] ne(6) rn(1) by (simp add: flat_def)
          have "holds_aligned (es_mem s5 e) ?esize (2 ^ max 12 a)"
            by (rule grown_holds [OF assms(2)]) (use sz(2) ne(2) [OF p0] ne(7) rn(1) in simp_all)
          from grow_tail_ok [OF i5 eI fl assms(3,2) this assms(5), of slab skip
              "zero \<or> extent_zeroed_get (es_mem s5 e) \<and> extent_committed_get (es_mem s5 e)"
              "commit \<or> extent_committed_get (es_mem s5 e)"]
          have "\<exists>r z c s'. grow_tail en e req pad (2 ^ a) slab szind skip
              (zero \<or> extent_zeroed_get (es_mem s5 e) \<and> extent_committed_get (es_mem s5 e))
              (commit \<or> extent_committed_get (es_mem s5 e)) s5 = Some ((r, z, c), s') \<and> alloc_result en B I req pad a slab szind na r s'"
            unfolding alloc_result_def by blast
          moreover have "extent_grow_retained en req pad (2 ^ a) slab szind zero commit s = grow_tail en e req pad (2 ^ a) slab szind skip
              (zero \<or> extent_zeroed_get (es_mem s5 e) \<and> extent_committed_get (es_mem s5 e))
              (commit \<or> extent_committed_get (es_mem s5 e)) s5"
            using o(1) sz0(1) f(1) ss al e0 pm sn p0 rg False
            by (simp add: extent_grow_retained_def s4_def [symmetric] extent_register_no_gdump_add_def grow_tail_def Let_def)
          ultimately show ?thesis by simp
        qed
      qed
    qed
  qed
qed

section \<open>The wrapper around the allocation hook\<close>

text \<open>The hook returns memory aligned as it was asked to, and at the address asked for if there is one.\<close>

definition hook_placed :: "estate \<Rightarrow> uintptr \<Rightarrow> nat \<Rightarrow> bool" where
  "hook_placed s new_addr a \<longleftrightarrow> (case es_maps s of [] \<Rightarrow> True
     | (p, _) # _ \<Rightarrow> 2 ^ max 12 a dvd unat p \<and> (p \<noteq> 0 \<and> new_addr \<noteq> 0 \<longrightarrow> p = new_addr))"

lemma pop_map_placed: "pop_map s = ((p, z, c), s') \<Longrightarrow> hook_placed s new_addr a \<Longrightarrow>
    2 ^ max 12 a dvd unat p \<and> (p \<noteq> 0 \<and> new_addr \<noteq> 0 \<longrightarrow> p = new_addr)"
  by (auto simp: pop_map_def hook_placed_def split: list.splits)

lemma hard_ok:
  assumes "est_inv en s {} B I V L" "request (req + pad) a" "unat szind \<le> SC_NSIZES"
    and "hook_fresh s (req + pad)" "hook_placed s new_addr a" "adjoins B new_addr na"
  shows "\<exists>r z c s'. extent_alloc_wrapper_hard en new_addr req pad (2 ^ a) slab szind zero commit s = Some ((r, z, c), s')
    \<and> alloc_result en B I req pad a slab szind na r s'"
proof -
  have rq: "page_size (req + pad)" "a < 62" using assms(2) by (simp_all add: request_def)
  have none: ?thesis if "extent_alloc_wrapper_hard en new_addr req pad (2 ^ a) slab szind zero commit s = Some ((None, z, c), s')"
    "est_inv en s' {} B I V' L" for z c s' V'
    using that by (intro exI [of _ None] exI [of _ z] exI [of _ c] exI [of _ s']) (auto simp: alloc_result_def)
  obtain e s1 where al: "extent_alloc s = (e, s1)" by (cases "extent_alloc s")
  show ?thesis
  proof (cases "e = 0")
    case True
    then have "extent_alloc_wrapper_hard en new_addr req pad (2 ^ a) slab szind zero commit s = Some ((None, zero, commit), s1)"
      using al by (simp add: extent_alloc_wrapper_hard_def)
    then show ?thesis using none extent_alloc_ok(1) [OF assms(1) al] by blast
  next
    case e0: False
    obtain p z c s2 where pm: "pop_map s1 = ((p, z, c), s2)" by (metis prod_cases3 surj_pair)
    obtain sn s3 where sn: "arena_extent_sn_next s2 = (sn, s3)" by (cases "arena_extent_sn_next s2")
    define s4 where "s4 = mem_set s3 e (extent_init (es_mem s3 e) (Some (en_ind en)) p (req + pad) slab szind sn
      extent_state_active z c True)"
    note ne = new_extent_ok [OF assms(1,4) rq(1) assms(3) al e0 pm sn s4_def]
    obtain V1 where V1: "est_inv en s4 {} B I V1 L" "loose s4 {} B V1 L e" "est_inv en s2 {} B I V1 L" "loose s2 {} B V1 L e"
      using ne(1) by blast
    show ?thesis
    proof (cases "p = 0")
      case True
      then have "extent_alloc_wrapper_hard en new_addr req pad (2 ^ a) slab szind zero commit s
          = Some ((None, z, c), extent_dalloc e s2)"
        using al e0 pm by (simp add: extent_alloc_wrapper_hard_def)
      then show ?thesis using none extent_dalloc_ok [OF V1(3,4)] by blast
    next
      case p0: False
      have "hook_placed s1 new_addr a" using extent_alloc_ok(5) [OF assms(1) al] assms(5) by (simp add: hook_placed_def)
      from pop_map_placed [OF pm this] have "2 ^ max 12 a dvd unat p" "na \<noteq> 0 \<longrightarrow> p = na"
        using p0 assms(6) by (auto simp: adjoins_def)
      then have cut: "cut_ok (es_mem s4 e) (req + pad) a slab szind na" using ne(5) [OF p0] ne(6-9) by (simp add: cut_ok_def)
      from randomize_loose [OF V1(1,2) cut rq(2)] obtain s5 where
        s5: "(if pad \<noteq> 0 then addr_randomize e (2 ^ a) s4 else Some s4) = Some s5" "est_inv en s5 {} B I V1 L"
          "loose s5 {} B V1 L e" "placed_ok (es_mem s5 e) req pad a slab szind na" "same_span (es_mem s5 e) (es_mem s4 e)"
          "active_desc en (es_mem s5 e) = active_desc en (es_mem s4 e)"
          "extent_slab_get (es_mem s5 e) = extent_slab_get (es_mem s4 e)" "\<forall>d. d \<noteq> e \<longrightarrow> es_mem s5 d = es_mem s4 d" by blast
      have ok5: "ext_ok (es_mem s5 e)" "active_desc en (es_mem s5 e)"
        using ne(2) [OF p0] ne(3) s5(5,6) by (simp_all add: ext_ok_span)
      have ap: "\<forall>u\<in>uses {} B L. apart (es_mem s5 e) (es_mem s5 u)"
      proof
        fix u assume u: "u \<in> uses {} B L"
        then have "u \<noteq> e" using s5(3) by (auto simp: loose_def)
        then have "es_mem s5 u = es_mem s4 u" using s5(8) by blast
        then show "apart (es_mem s5 e) (es_mem s5 u)"
          using ne(4) [OF p0 u] apart_span [OF s5(5) same_span_refl] by simp
      qed
      obtain err s6 where rg: "extent_register_impl True e s5 = (err, s6)" by (cases "extent_register_impl True e s5")
      note rn = register_new [OF s5(2,3) ok5 ap rg]
      have sl: "extent_slab_get (es_mem s5 e) = slab" using s5(7) ne(8) by simp
      have eq: "extent_alloc_wrapper_hard en new_addr req pad (2 ^ a) slab szind zero commit s
          = (if err then Some ((None, z, c), extents_leak en extent_state_retained e s6) else Some ((Some e, z, c), s6))"
        using al e0 pm p0 sn s5(1) rg by (simp add: extent_alloc_wrapper_hard_def s4_def [symmetric] extent_register_def)
      show ?thesis
      proof (cases err)
        case True
        with eq have "extent_alloc_wrapper_hard en new_addr req pad (2 ^ a) slab szind zero commit s
            = Some ((None, z, c), extents_leak en extent_state_retained e s6)" by simp
        then show ?thesis using none rn(2) [OF True] by blast
      next
        case False
        have "e \<notin> I" using est_invD(3) [OF assms(1)] V1(2) by (auto simp: loose_def uses_def)
        moreover have "granted (es_mem s6 e) req pad a slab szind na" using s5(4) sl rn(1) by (simp add: placed_ok_def)
        ultimately have "alloc_result en B I req pad a slab szind na (Some e) s6" using rn(3) [OF False] sl
          unfolding alloc_result_def by (intro exI [of _ V1] exI [of _ L]) simp
        then show ?thesis using eq False
          by (intro exI [of _ "Some e"] exI [of _ z] exI [of _ c] exI [of _ s6]) simp
      qed
    qed
  qed
qed

text \<open>The promises of the hook, at the times when it is called.\<close>

definition hooks_kept ::
  "extent_env \<Rightarrow> uintptr \<Rightarrow> size_t \<Rightarrow> size_t \<Rightarrow> nat \<Rightarrow> bool \<Rightarrow> szind \<Rightarrow> bool \<Rightarrow> bool \<Rightarrow> estate \<Rightarrow> bool" where
  "hooks_kept en new_addr req pad a slab szind zero commit s \<longleftrightarrow>
     (en_retain en \<and> new_addr = 0 \<longrightarrow> (\<forall>z c s1.
        extent_recycle en extent_state_retained new_addr req pad (2 ^ a) slab szind zero commit s = Some ((None, z, c), s1)
        \<longrightarrow> hook_fresh s1 (grow_size en s1 (req + pad) (2 ^ a))))
     \<and> (\<forall>z c s1. extent_alloc_retained en new_addr req pad (2 ^ a) slab szind zero commit s = Some ((None, z, c), s1)
        \<longrightarrow> hook_fresh s1 (req + pad) \<and> hook_placed s1 new_addr a)"

lemma retained_ok:
  assumes "est_inv en s {} B I V L" "request (req + pad) a" "new_addr \<noteq> 0 \<longrightarrow> a \<le> 12" "unat szind \<le> SC_NSIZES"
    and "en_retain en \<and> new_addr = 0 \<longrightarrow> (\<forall>z c s1.
        extent_recycle en extent_state_retained new_addr req pad (2 ^ a) slab szind zero commit s = Some ((None, z, c), s1)
        \<longrightarrow> hook_fresh s1 (grow_size en s1 (req + pad) (2 ^ a)))" "adjoins B new_addr na"
  shows "\<exists>r z c s'. extent_alloc_retained en new_addr req pad (2 ^ a) slab szind zero commit s = Some ((r, z, c), s')
    \<and> alloc_result en B I req pad a slab szind na r s'"
proof -
  have "extent_state_retained \<noteq> extent_state_active" by simp
  from recycle_ok [OF assms(1) this assms(2-4,6), of slab zero commit] obtain r z c s1 V1 L1 where
    r: "extent_recycle en extent_state_retained new_addr req pad (2 ^ a) slab szind zero commit s = Some ((r, z, c), s1)"
      "case r of None \<Rightarrow> est_inv en s1 {} B I V1 L1
       | Some e \<Rightarrow> est_inv en s1 {e} B (if slab then insert e I else I) V1 L1 \<and> e \<notin> I \<and> granted (es_mem s1 e) req pad a slab szind na"
    by blast
  have ar: "alloc_result en B I req pad a slab szind na r s1" using r(2) unfolding alloc_result_def by blast
  show ?thesis
  proof (cases "r = None \<and> en_retain en \<and> new_addr = 0")
    case True
    with r have "est_inv en s1 {} B I V1 L1" "hook_fresh s1 (grow_size en s1 (req + pad) (2 ^ a))" using assms(5) by auto
    moreover have "na = 0" using assms(6) True by (simp add: adjoins_def)
    ultimately show ?thesis
      using r(1) True grow_ok [of en s1 B I V1 L1 req pad a szind na slab z c] assms(2,4) by (simp add: extent_alloc_retained_def)
  next
    case False
    with r(1) have "extent_alloc_retained en new_addr req pad (2 ^ a) slab szind zero commit s = Some ((r, z, c), s1)"
      by (auto simp: extent_alloc_retained_def)
    with ar show ?thesis by blast
  qed
qed

lemma wrapper_ok:
  assumes "est_inv en s {} B I V L" "request (req + pad) a" "new_addr \<noteq> 0 \<longrightarrow> a \<le> 12" "unat szind \<le> SC_NSIZES"
    and "hooks_kept en new_addr req pad a slab szind zero commit s" "adjoins B new_addr na"
  shows "\<exists>r z c s'. extent_alloc_wrapper en new_addr req pad (2 ^ a) slab szind zero commit s = Some ((r, z, c), s')
    \<and> alloc_result en B I req pad a slab szind na r s'"
proof -
  from retained_ok [OF assms(1-4) _ assms(6), of slab zero commit] assms(5) obtain r z c s1 where
    r: "extent_alloc_retained en new_addr req pad (2 ^ a) slab szind zero commit s = Some ((r, z, c), s1)"
      "alloc_result en B I req pad a slab szind na r s1" unfolding hooks_kept_def by blast
  show ?thesis
  proof (cases "r = None \<and> \<not> (en_retain en \<and> new_addr \<noteq> 0)")
    case True
    with r obtain V1 L1 where i1: "est_inv en s1 {} B I V1 L1" by (auto simp: alloc_result_def)
    have "hook_fresh s1 (req + pad)" "hook_placed s1 new_addr a" using r(1) True assms(5) unfolding hooks_kept_def by blast+
    moreover have "extent_alloc_wrapper en new_addr req pad (2 ^ a) slab szind zero commit s
        = extent_alloc_wrapper_hard en new_addr req pad (2 ^ a) slab szind z c s1"
      using r(1) True by (auto simp: extent_alloc_wrapper_def)
    ultimately show ?thesis using hard_ok [OF i1 assms(2,4) _ _ assms(6), of slab z c] by simp
  next
    case False
    with r(1) have "extent_alloc_wrapper en new_addr req pad (2 ^ a) slab szind zero commit s = Some ((r, z, c), s1)"
      by (auto simp: extent_alloc_wrapper_def)
    with r(2) show ?thesis by blast
  qed
qed

section \<open>The wrapper around the deallocation hook\<close>

lemma dalloc_purge_ok:
  assumes "est_inv en s {d} B I V L" "dalloc_purge en d s = (zeroed, s')"
  shows "est_inv en s' {d} B I V L" "es_maps s' = es_maps s" "extent_slab_get (es_mem s' d) = extent_slab_get (es_mem s d)"
    "extent_addr_get (es_mem s' d) = extent_addr_get (es_mem s d)" "extent_base_get (es_mem s' d) = extent_base_get (es_mem s d)"
proof -
  let ?ok = "\<lambda>s'. est_inv en s' {d} B I V L \<and> es_maps s' = es_maps s \<and> extent_slab_get (es_mem s' d) = extent_slab_get (es_mem s d)
    \<and> extent_addr_get (es_mem s' d) = extent_addr_get (es_mem s d) \<and> extent_base_get (es_mem s' d) = extent_base_get (es_mem s d)"
  have decommit: "?ok s1" if "extent_decommit_wrapper en d s = (err, s1)" for err s1
  proof -
    define r where "r = (if \<not> hk_decommit (en_hooks en) then (True, s) else pop_out s)"
    obtain b s0 where r0: "r = (b, s0)" by (cases r)
    then have s0: "s0 = s \<or> pop_out s = (b, s0)" by (auto simp: r_def split: if_splits)
    have i0: "est_inv en s0 {d} B I V L" "es_mem s0 = es_mem s" "es_maps s0 = es_maps s"
      using s0 pop_out_frame [of s b s0] assms(1) by auto
    have s1: "s1 = mem_set s0 d (extent_committed_set (es_mem s0 d) (extent_committed_get (es_mem s0 d) \<and> b))"
      using that r0 unfolding extent_decommit_wrapper_def r_def [symmetric] by auto
    have "active_desc en (es_mem s0 d)" using est_invD(7) [OF i0(1)] by (simp add: roles_def)
    then have "est_inv en s1 {d} B I V L" unfolding s1 by (intro set_active [OF i0(1)]) (simp_all add: committed_get)
    then show ?thesis by (simp add: s1 i0(2,3) committed_get)
  qed
  have fr: "?ok s2" if "?ok s1" "(b, s2) = extent_purge_lazy_impl en s1 \<or> (b, s2) = extent_purge_forced_impl en s1" for b s1 s2
    using that(1) purge_frame [OF that(2)] by simp
  have "?ok s'"
  proof (cases "extent_committed_get (es_mem s d)")
    case False
    with assms show ?thesis by (simp add: dalloc_purge_def)
  next
    case True
    obtain e1 s1 where d1: "extent_decommit_wrapper en d s = (e1, s1)" by (cases "extent_decommit_wrapper en d s")
    obtain e2 s2 where d2: "extent_purge_forced_impl en s1 = (e2, s2)" by (cases "extent_purge_forced_impl en s1")
    obtain e3 s3 where d3: "extent_purge_lazy_impl en s2 = (e3, s3)" by (cases "extent_purge_lazy_impl en s2")
    have o1: "?ok s1" by (rule decommit [OF d1])
    have o2: "?ok s2" by (rule fr [OF o1, of e2]) (use d2 in simp)
    have o3: "?ok s3" by (rule fr [OF o2, of e3]) (use d3 in simp)
    have "s' = s1 \<or> s' = s2 \<or> s' = s3" using assms(2) True d1 d2 d3
      by (auto simp: dalloc_purge_def split: if_splits)
    with o1 o2 o3 show ?thesis by blast
  qed
  then show "est_inv en s' {d} B I V L" "es_maps s' = es_maps s" "extent_slab_get (es_mem s' d) = extent_slab_get (es_mem s d)"
    "extent_addr_get (es_mem s' d) = extent_addr_get (es_mem s d)" "extent_base_get (es_mem s' d) = extent_base_get (es_mem s d)"
    by blast+
qed

lemma slab_unset_get:
  "extent_addr_get (extent_slab_set e b) = extent_addr_get e" "extent_base_get (extent_slab_set e b) = extent_base_get e"
  "extent_slab_get (extent_slab_set e b) = b" "same_span (extent_slab_set e b) e" "active_desc en (extent_slab_set e b) = active_desc en e"
  by (simp_all add: same_span_def fpg_def npg_def get_view view_sets active_desc_def)

text \<open>The hook is tried on an extent that nobody finds any more.\<close>

lemma dalloc_try_ok:
  assumes "est_inv en s {d} B I V L" "d \<in> I \<longrightarrow> extent_slab_get (es_mem s d)"
    and "extent_addr_get (es_mem s d) = extent_base_get (es_mem s d)"
    and "extent_dalloc_wrapper_try en d (extent_deregister d s) = (err, s')"
  shows "\<not> err \<Longrightarrow> est_inv en s' {} B (I - {d}) (insert d V) L"
    "err \<Longrightarrow> est_inv en (extent_reregister d s') {d} B (I - {d}) V L \<and> flat (es_mem (extent_reregister d s') d)"
    "es_maps s' = es_maps s" "err \<Longrightarrow> es_maps (extent_reregister d s') = es_maps s"
proof -
  note i = est_invD [OF assms(1)]
  define s1 where "s1 = extent_deregister_impl d s"
  have sl: "d \<in> I \<Longrightarrow> extent_slab_get (es_mem s d)" using assms(2) by blast
  note dr = deregister_ok [OF assms(1) singletonI sl, folded s1_def, simplified]
  define e where "e = extent_addr_set (es_mem s1 d) (extent_base_get (es_mem s1 d))"
  define s2 where "s2 = mem_set s1 d e"
  note ls = set_loose [OF dr(1,2), of e, folded s2_def]
  have act: "active_desc en (es_mem s d)" "ext_ok (es_mem s d)" using active_in [OF assms(1), of d] by simp_all
  have base: "PAGE_ADDR2BASE (PAGE_ADDR2BASE a) = PAGE_ADDR2BASE a" for a
    by (simp add: PAGE_ADDR2BASE_def)
  have e: "extent_addr_get e = extent_base_get (es_mem s d)" "extent_base_get e = extent_base_get (es_mem s d)"
    "extent_size_get e = extent_size_get (es_mem s d)" "\<not> extent_slab_get e" "active_desc en e"
    using act(1) by (simp_all add: e_def dr(4) active_desc_def get_view view_sets base)
  have span: "same_span e (es_mem s d)" using e by (simp add: same_span_def fpg_def npg_def)
  have m2: "es_mem s2 d = e" "es_maps s2 = es_maps s" using dr(5) by (simp_all add: s2_def)
  obtain b s3 where r: "(if \<not> hk_default (en_hooks en) \<and> \<not> hk_dalloc (en_hooks en) then (True, s2) else pop_out s2) = (b, s3)"
    by (metis surj_pair)
  then have s3': "s3 = s2 \<or> pop_out s2 = (b, s3)" by (auto split: if_splits)
  have i3: "est_inv en s3 {} B (I - {d}) V L" "loose s3 {} B V L d" "es_mem s3 = es_mem s2" "es_maps s3 = es_maps s2"
    using s3' pop_out_frame [of s2 b s3] ls by auto
  have er: "err = b" "s' = (if \<not> b then extent_dalloc d s3 else s3)"
    using assms(4) r unfolding extent_dalloc_wrapper_try_def extent_deregister_def s1_def [symmetric] e_def [symmetric]
      s2_def [symmetric] Let_def r by (auto split: if_splits)
  show "\<not> err \<Longrightarrow> est_inv en s' {} B (I - {d}) (insert d V) L" using extent_dalloc_ok [OF i3(1,2)] er by simp
  show mp: "es_maps s' = es_maps s" using i3(4) m2(2) er(2) by simp
  have s3m: "es_mem s3 d = e" using i3(3) m2 by simp
  have ap: "apart (es_mem s3 d) (es_mem s3 u)" if "u \<in> uses {} B L" for u
  proof -
    have ud: "u \<noteq> d" using that i3(2) by (auto simp: loose_def)
    have "u \<in> uses {d} B L" using that by (auto simp: uses_def)
    then have "apart (es_mem s d) (es_mem s u)"
      using geoD(5) [OF i(4), of d u] ud by (auto simp: uses_def)
    moreover have "es_mem s3 u = es_mem s u" using dr(3) ud i3(3) by (simp add: s2_def)
    ultimately show ?thesis using apart_span [OF span same_span_refl] s3m by simp
  qed
  have ok3: "ext_ok (es_mem s3 d)" "active_desc en (es_mem s3 d)" using e(5) s3m ext_ok_span [OF span] act(2) by simp_all
  obtain err4 s4 where rg: "extent_register_impl False d s3 = (err4, s4)" by (cases "extent_register_impl False d s3")
  note ro = register_ok [OF i3(1,2) ok3 ap rg]
  have e4: "\<not> err4" by (rule ro(5)) simp_all
  have "est_inv en s4 {d} B (if extent_slab_get (es_mem s3 d) then insert d (I - {d}) else I - {d}) V L"
    by (rule ro(4)) (simp_all add: e4)
  then have i4: "est_inv en s4 {d} B (I - {d}) V L" using s3m e(4) by simp
  have s4: "extent_reregister d s3 = s4" using rg by (simp add: extent_reregister_def)
  show "err \<Longrightarrow> est_inv en (extent_reregister d s') {d} B (I - {d}) V L \<and> flat (es_mem (extent_reregister d s') d)"
    using i4 er s4 ro(1) s3m e by (simp add: flat_def)
  show "err \<Longrightarrow> es_maps (extent_reregister d s') = es_maps s" using ro(2) er s4 i3(4) m2(2) by simp
qed

lemma dalloc_wrapper_ok:
  assumes "est_inv en s {d} B I V L" "d \<in> I \<longrightarrow> extent_slab_get (es_mem s d)"
    and "extent_addr_get (es_mem s d) = extent_base_get (es_mem s d)"
  shows "\<exists>s' V' L'. extent_dalloc_wrapper en d s = Some s' \<and> est_inv en s' {} B (I - {d}) V' L' \<and> es_maps s' = es_maps s"
proof -
  have rest: "\<exists>s' V' L'. (let (zeroed, s) = dalloc_purge en d s1
           in extent_record en extent_state_retained d (mem_set s d (extent_zeroed_set (es_mem s d) zeroed))) = Some s'
      \<and> est_inv en s' {} B (J - {d}) V' L' \<and> es_maps s' = es_maps s"
    if i1: "est_inv en s1 {d} B J V L" and sl: "d \<in> J \<longrightarrow> extent_slab_get (es_mem s1 d)"
      and ad: "extent_addr_get (es_mem s1 d) = extent_base_get (es_mem s1 d)" and mp: "es_maps s1 = es_maps s" for s1 J
  proof -
    obtain z s2 where dp: "dalloc_purge en d s1 = (z, s2)" by (cases "dalloc_purge en d s1")
    note p = dalloc_purge_ok [OF i1 dp]
    define s3 where "s3 = mem_set s2 d (extent_zeroed_set (es_mem s2 d) z)"
    have "active_desc en (es_mem s2 d)" using active_in [OF p(1)] by simp
    then have i3: "est_inv en s3 {d} B J V L" unfolding s3_def by (intro set_active [OF p(1)]) (simp_all add: zeroed_get)
    have "extent_addr_get (es_mem s3 d) = extent_base_get (es_mem s3 d)" "d \<in> J \<longrightarrow> extent_slab_get (es_mem s3 d)"
      using p(3-5) sl ad by (simp_all add: s3_def zeroed_get)
    from record_ok [OF i3 this, of extent_state_retained] dp p(2) mp show ?thesis by (simp add: s3_def)
  qed
  show ?thesis
  proof (cases "\<not> hk_default (en_hooks en) \<or> extent_may_dalloc en")
    case False
    with rest [OF assms refl] show ?thesis by (simp add: extent_dalloc_wrapper_def)
  next
    case True
    obtain err s1 where tr: "extent_dalloc_wrapper_try en d (extent_deregister d s) = (err, s1)"
      by (cases "extent_dalloc_wrapper_try en d (extent_deregister d s)")
    note dt = dalloc_try_ok [OF assms tr]
    show ?thesis
    proof (cases err)
      case False
      with True tr have "extent_dalloc_wrapper en d s = Some s1" by (simp add: extent_dalloc_wrapper_def)
      with dt(1,3) False show ?thesis by blast
    next
      case err: True
      from dt(2) [OF err] have i: "est_inv en (extent_reregister d s1) {d} B (I - {d}) V L"
        "flat (es_mem (extent_reregister d s1) d)" by simp_all
      have "extent_dalloc_wrapper en d s = (let (zeroed, s) = dalloc_purge en d (extent_reregister d s1)
           in extent_record en extent_state_retained d (mem_set s d (extent_zeroed_set (es_mem s d) zeroed)))"
        using True tr err by (simp add: extent_dalloc_wrapper_def)
      with rest [OF i(1) _ _ dt(4) [OF err]] i(2) show ?thesis by (simp add: flat_def)
    qed
  qed
qed

section \<open>Eviction\<close>

text \<open>An extent that was taken from its collection and still carries its state.\<close>

definition limbo :: "extent_env \<Rightarrow> estate \<Rightarrow> uintptr \<Rightarrow> (uintptr \<rightharpoonup> extent) \<Rightarrow> uintptr set \<Rightarrow> uintptr set
    \<Rightarrow> (extent_state \<Rightarrow> uintptr list) \<Rightarrow> bool" where
  "limbo en s d B I V L \<longleftrightarrow>
     work en (mem_set s d (extent_state_set (es_mem s d) extent_state_active)) d B I V L"

lemma work_limbo:
  assumes "work en s d B I V L"
  shows "limbo en (mem_set s d (extent_state_set (es_mem s d) st)) d B I V L"
proof -
  have a: "active_desc en (es_mem s d)" using active_in [of en s "{d}" B I V L d] assms by (simp add: work_def)
  let ?e = "extent_state_set (extent_state_set (es_mem s d) st) extent_state_active"
  have "work en (mem_set s d ?e) d B I V L"
    by (rule set_work [OF assms]) (use a assms in \<open>simp_all add: same_span_def state_set_get active_desc_def get_view view_sets work_def\<close>)
  then show ?thesis by (simp add: limbo_def mem_set_def)
qed

lemma delay_kept:
  "extents_remove_locked t mem ex d = Some ex' \<Longrightarrow> ex_delay_coalesce ex' = ex_delay_coalesce ex"
  "extents_insert_locked t mem ex d = Some ex' \<Longrightarrow> ex_delay_coalesce ex' = ex_delay_coalesce ex"
  by (auto simp: extents_remove_locked_def extents_insert_locked_def extents_stats_sub_def extents_stats_add_def Let_def
      split: Option.bind_splits if_splits)

lemma merge_delay: "extent_merge_impl en a b s = (err, s') \<Longrightarrow> es_ex s' = es_ex s"
  by (auto simp: extent_merge_impl_def pop_out_def extent_dalloc_def extent_rtree_write_acquired_def Let_def
      split: if_splits prod.splits list.splits)

lemma coalesce_delay:
  "coalesce_neighbour en k io d forward s = Some (r, s') \<Longrightarrow> ex_delay_coalesce (es_ex s' k) = ex_delay_coalesce (es_ex s k)"
  by (auto simp: coalesce_neighbour_def extent_coalesce_def extent_activate_locked_def extent_deactivate_locked_def Let_def
      dest!: delay_kept merge_delay split: option.splits if_splits prod.splits Option.bind_splits)

text \<open>When coalescing is delayed, an extent that was not coalesced is the one it was.\<close>

lemma try_coalesce_same:
  assumes "extent_try_coalesce_impl en k io d s = Some ((d', c), s')" "ex_delay_coalesce (es_ex s k)" "c \<noteq> Some True"
  shows "d' = d"
proof -
  from assms(1) obtain nx s1 where n: "coalesce_neighbour en k io d True s = Some (nx, s1)"
    by (subst (asm) extent_try_coalesce_impl.simps) (auto split: Option.bind_splits)
  have d1: "ex_delay_coalesce (es_ex s1 k)" using coalesce_delay [OF n] assms(2) by simp
  have nx: "nx = None" using assms(1,3) n d1 by (subst (asm) extent_try_coalesce_impl.simps) (auto split: if_splits)
  from assms(1) obtain pv s2 where p: "coalesce_neighbour en k io d False s1 = Some (pv, s2)"
    using n nx by (subst (asm) extent_try_coalesce_impl.simps) (auto split: Option.bind_splits)
  have d2: "ex_delay_coalesce (es_ex s2 k)" using coalesce_delay [OF p] d1 by simp
  have pv: "pv = None" using assms(1,3) n nx p d2 by (subst (asm) extent_try_coalesce_impl.simps) (auto simp: Let_def split: if_splits)
  show ?thesis using assms(1) n nx p pv d2 by (subst (asm) extent_try_coalesce_impl.simps) auto
qed

lemma remove_limbo:
  assumes "est_inv en s {} B I V L" "d \<in> set (L k)" "k \<noteq> extent_state_active"
  shows "\<exists>ex'. extents_remove_locked (en_tabs en) (es_mem s) (es_ex s k) d = Some ex'
    \<and> limbo en (s\<lparr>es_ex := (es_ex s)(k := ex')\<rparr>) d B I V (L(k := remove1 d (L k)))"
proof -
  have m: "d \<in> members L" by (rule in_members [of d L k, OF assms(2)])
  have c: "cached_desc en k (es_mem s d)" using est_invD(7) [OF assms(1)] assms(2) by (simp add: roles_def)
  from activate_ok [OF assms] obtain s1 where
    s1: "extent_activate_locked en k d s = Some s1" "est_inv en s1 {d} B I V (L(k := remove1 d (L k)))" by blast
  from s1(1) obtain ex' where ex: "extents_remove_locked (en_tabs en) (es_mem s) (es_ex s k) d = Some ex'"
    "s1 = mem_set (s\<lparr>es_ex := (es_ex s)(k := ex')\<rparr>) d (extent_state_set (es_mem s d) extent_state_active)"
    by (auto simp: extent_activate_locked_def split: Option.bind_splits)
  have "work en s1 d B I V (L(k := remove1 d (L k)))"
    using s1(2) partsD(2) [OF assms(1) m] c by (simp add: work_def ex(2) state_set_get cached_desc_def)
  with ex show ?thesis by (simp add: limbo_def)
qed

lemma evict_loop_ok:
  assumes "est_inv en s {} B I V L" "k \<noteq> extent_state_active"
  shows "\<exists>r s' V' L'. evict_loop en k n s = Some (r, s') \<and> es_maps s' = es_maps s
    \<and> (case r of None \<Rightarrow> est_inv en s' {} B I V' L' \<and> (ex_lru (es_ex s' k) = [] \<or> extents_npages_get (es_ex s' k) \<le> n)
       | Some d \<Rightarrow> limbo en s' d B I V' L' \<and> length (L' k) < length (L k))"
  using assms(1)
proof (induction "length (L k)" arbitrary: s V L rule: less_induct)
  case less
  note i = est_invD [OF less.prems]
  have inv: "extents_inv (es_mem s) (es_ex s k) (L k)" "ex_state (es_ex s k) = k"
    using i(6) assms(2) by (simp_all add: conts_def)
  have lru: "ex_lru (es_ex s k) = L k" using inv(1) by (simp add: extents_inv_def)
  show ?case
  proof (cases "L k = [] \<or> extents_npages_get (es_ex s k) \<le> n")
    case True
    then have "evict_loop en k n s = Some (None, s)" using lru by (subst evict_loop.simps) (auto split: list.splits)
    with less.prems True lru show ?thesis by (intro exI [of _ None] exI [of _ s] exI [of _ V] exI [of _ L]) auto
  next
    case False
    then obtain d ds where d: "L k = d # ds" by (cases "L k") auto
    then have dL: "d \<in> set (L k)" by simp
    let ?L = "L(k := remove1 d (L k))"
    from remove_limbo [OF less.prems dL assms(2)] obtain ex' where
      ex: "extents_remove_locked (en_tabs en) (es_mem s) (es_ex s k) d = Some ex'"
        "limbo en (s\<lparr>es_ex := (es_ex s)(k := ex')\<rparr>) d B I V ?L" by blast
    define s1 where "s1 = s\<lparr>es_ex := (es_ex s)(k := ex')\<rparr>"
    have s1: "limbo en s1 d B I V ?L" "es_maps s1 = es_maps s" using ex(2) by (simp_all add: s1_def)
    have len: "length (?L k) < length (L k)" by (simp add: d)
    show ?thesis
    proof (cases "ex_delay_coalesce (es_ex s1 k)")
      case nodelay: False
      then have "evict_loop en k n s = Some (Some d, s1)"
        using lru False d ex(1) by (subst evict_loop.simps) (simp add: s1_def)
      with s1 len show ?thesis by (intro exI [of _ "Some d"] exI [of _ s1] exI [of _ V] exI [of _ ?L]) simp
    next
      case delay: True
      define s2 where "s2 = mem_set s1 d (extent_state_set (es_mem s1 d) extent_state_active)"
      have w2: "work en s2 d B I V ?L" using s1(1) by (simp add: limbo_def s2_def)
      from try_coalesce_ok [OF w2 assms(2), of False] obtain d' c s3 V3 L3 where
        t: "extent_try_coalesce_impl en k False d s2 = Some ((d', c), s3)" "es_maps s3 = es_maps s2" "work en s3 d' B I V3 L3"
          "length (L3 k) \<le> length (?L k)" "c = Some True \<longrightarrow> length (L3 k) < length (?L k)" by blast
      have st3: "extents_state_get (es_ex s3 k) = k"
      proof -
        have "est_inv en s3 {d'} B I V3 L3" using t(3) by (simp add: work_def)
        from est_invD(6) [OF this] assms(2) show ?thesis by (simp add: conts_def extents_state_get_def)
      qed
      define s4 where "s4 = mem_set s3 d' (extent_state_set (es_mem s3 d') k)"
      have unf: "evict_loop en k n s = do {
              ((r, _), s) \<leftarrow> extent_try_delayed_coalesce en k d s1;
              if r then Some (Some d, s) else evict_loop en k n s }"
        using lru False d ex(1) delay by (subst evict_loop.simps) (simp add: s1_def)
      show ?thesis
      proof (cases "c = Some True")
        case False
        have "d' = d" by (rule try_coalesce_same [OF t(1) _ False]) (use delay in \<open>simp add: s2_def\<close>)
        then have "extent_try_delayed_coalesce en k d s1 = Some ((True, d), s4)"
          using t(1) False st3 by (simp add: extent_try_delayed_coalesce_def s2_def [symmetric] extent_try_coalesce_def s4_def)
        then have "evict_loop en k n s = Some (Some d, s4)" using unf by simp
        moreover have "limbo en s4 d B I V3 L3" using work_limbo [OF t(3)] \<open>d' = d\<close> by (simp add: s4_def)
        ultimately show ?thesis using t(2,4) s1(2) len
          by (intro exI [of _ "Some d"] exI [of _ s4] exI [of _ V3] exI [of _ L3]) (simp add: s4_def s2_def)
      next
        case True
        from deactivate_work [OF t(3) assms(2)] obtain s5 where
          s5: "extent_deactivate_locked en k d' s3 = Some s5" "est_inv en s5 {} B I V3 (L3(k := L3 k @ [d']))"
            "es_maps s5 = es_maps s3" by blast
        have "extent_try_delayed_coalesce en k d s1 = Some ((False, d'), s5)"
          using t(1) True s5(1)
          by (simp add: extent_try_delayed_coalesce_def s2_def [symmetric] extent_try_coalesce_def extent_deactivate_locked_def
              split: Option.bind_splits)
        then have "evict_loop en k n s = evict_loop en k n s5" using unf by simp
        moreover have "length ((L3(k := L3 k @ [d'])) k) < length (L k)" using t(5) True len by simp
        from less.hyps [OF this s5(2)] obtain r s' V' L' where
          "evict_loop en k n s5 = Some (r, s')" "es_maps s' = es_maps s5"
          "case r of None \<Rightarrow> est_inv en s' {} B I V' L' \<and> (ex_lru (es_ex s' k) = [] \<or> extents_npages_get (es_ex s' k) \<le> n)
           | Some d \<Rightarrow> limbo en s' d B I V' L' \<and> length (L' k) < length ((L3(k := L3 k @ [d'])) k)" by blast
        ultimately show ?thesis using s5(3) t(2) s1(2) \<open>length ((L3(k := L3 k @ [d'])) k) < length (L k)\<close>
          by (intro exI [of _ r] exI [of _ s'] exI [of _ V'] exI [of _ L']) (auto simp: s2_def split: option.splits)
      qed
    qed
  qed
qed

lemma deregister_cong:
  assumes "extent_base_get x = extent_base_get y" "extent_size_get x = extent_size_get y"
    "\<not> extent_slab_get x" "\<not> extent_slab_get y"
  shows "extent_deregister_impl d (mem_set s d x) = mem_set (extent_deregister_impl d (mem_set s d y)) d x"
proof -
  have l: "extent_last_get x = extent_last_get y" using assms(1,2) by (simp add: extent_last_get_def)
  have w: "extent_rtree_write_acquired a b e i f (mem_set s d z) = mem_set (extent_rtree_write_acquired a b e i f s) d z" for a b e i f z
    by (simp add: extent_rtree_write_acquired_def page_write_def mem_set_def Let_def split: option.splits)
  show ?thesis
    using assms l by (simp add: extent_deregister_impl_def extent_rtree_leaf_elms_lookup_def leaf_elm_lookup_def w Let_def)
      (simp add: mem_set_def)
qed

lemma extents_evict_ok:
  assumes "est_inv en s {} B I V L" "k \<noteq> extent_state_active"
  shows "\<exists>r s' V' L'. extents_evict en k n s = Some (r, s') \<and> es_maps s' = es_maps s
    \<and> (case r of None \<Rightarrow> est_inv en s' {} B I V' L' \<and> (ex_lru (es_ex s' k) = [] \<or> extents_npages_get (es_ex s' k) \<le> n)
       | Some d \<Rightarrow> length (L' k) < length (L k) \<and> ext_ok (es_mem s' d) \<and> \<not> extent_slab_get (es_mem s' d)
           \<and> (if k = extent_state_retained then est_inv en s' {} B I V' L' \<and> loose s' {} B V' L' d
                \<and> (\<forall>u\<in>uses {} B L'. apart (es_mem s' d) (es_mem s' u))
              else work en s' d B I V' L'))"
proof -
  from evict_loop_ok [OF assms] obtain r s1 V1 L1 where
    r: "evict_loop en k n s = Some (r, s1)" "es_maps s1 = es_maps s"
      "case r of None \<Rightarrow> est_inv en s1 {} B I V1 L1 \<and> (ex_lru (es_ex s1 k) = [] \<or> extents_npages_get (es_ex s1 k) \<le> n)
       | Some d \<Rightarrow> limbo en s1 d B I V1 L1 \<and> length (L1 k) < length (L k)" by blast
  show ?thesis
  proof (cases r)
    case None
    with r show ?thesis by (intro exI [of _ None] exI [of _ s1] exI [of _ V1] exI [of _ L1]) (simp add: extents_evict_def)
  next
    case (Some d)
    define s2 where "s2 = mem_set s1 d (extent_state_set (es_mem s1 d) extent_state_active)"
    have w: "work en s2 d B I V1 L1" using r(3) Some by (simp add: limbo_def s2_def)
    then have i2: "est_inv en s2 {d} B I V1 L1" "d \<notin> I" by (simp_all add: work_def)
    have st: "extents_state_get (es_ex s1 k) = k"
      using est_invD(6) [OF i2(1)] assms(2) by (simp add: conts_def extents_state_get_def s2_def)
    show ?thesis
    proof (cases "k = extent_state_retained")
      case False
      then have "extents_evict en k n s = Some (Some d, s2)"
        using r(1) Some st assms(2) by (cases k) (simp_all add: extents_evict_def s2_def)
      with w r(2,3) False Some active_in [OF i2(1), of d] show ?thesis
        by (intro exI [of _ "Some d"] exI [of _ s2] exI [of _ V1] exI [of _ L1]) (simp add: s2_def work_def)
    next
      case True
      have e: "extents_evict en k n s = Some (Some d, extent_deregister d s1)"
        using r(1) Some st True by (simp add: extents_evict_def)
      have "\<not> extent_slab_get (es_mem s1 d)" using w by (simp add: work_def s2_def state_set_get)
      then have "extent_deregister_impl d (mem_set s1 d (es_mem s1 d))
          = mem_set (extent_deregister_impl d s2) d (es_mem s1 d)"
        unfolding s2_def by (intro deregister_cong) (simp_all add: state_set_get)
      then have d1: "extent_deregister d s1 = mem_set (extent_deregister_impl d s2) d (es_mem s1 d)"
        by (simp add: extent_deregister_def mem_set_def)
      have sl: "d \<in> I \<Longrightarrow> extent_slab_get (es_mem s2 d)" using i2(2) by simp
      note dr = deregister_ok [OF i2(1) singletonI sl]
      have "{d} - {d} = {}" "I - {d} = I" using i2(2) by auto
      with dr have "est_inv en (extent_deregister_impl d s2) {} B I V1 L1" "loose (extent_deregister_impl d s2) {} B V1 L1 d"
        "es_maps (extent_deregister_impl d s2) = es_maps s1" by (simp_all add: s2_def)
      moreover have "ext_ok (es_mem s1 d)" using active_in [OF i2(1), of d] by (simp add: s2_def ext_ok_def state_set_get)
      moreover have "apart (es_mem s1 d) (es_mem s1 u)" if u: "u \<in> uses {} B L1" for u
      proof -
        have ud: "u \<noteq> d" using partsD(1) [OF i2(1), of d] u by (auto simp: uses_def)
        have "apart (es_mem s2 d) (es_mem s2 u)"
          by (rule geoD(5) [OF est_invD(4) [OF i2(1)]]) (use u ud in \<open>auto simp: uses_def\<close>)
        then show ?thesis using ud by (simp add: s2_def apart_def state_set_get)
      qed
      moreover have "es_mem (extent_deregister d s1) u = es_mem s1 u" for u
        using dr(3) [of u] by (cases "u = d") (simp_all add: d1 s2_def)
      ultimately show ?thesis
        using set_loose [of en "extent_deregister_impl d s2" "{}" B I V1 L1 d "es_mem s1 d"] e r(2,3) True Some
          \<open>\<not> extent_slab_get (es_mem s1 d)\<close>
        by (intro exI [of _ "Some d"] exI [of _ "extent_deregister d s1"] exI [of _ V1] exI [of _ L1]) (simp add: d1)
    qed
  qed
qed

text \<open>Destroying an evicted extent: its page entries are gone already.\<close>

lemma destroy_ok:
  assumes "est_inv en s {} B I V L" "loose s {} B V L d" "ext_ok (es_mem s d)" "\<not> extent_slab_get (es_mem s d)"
    and "\<forall>u\<in>uses {} B L. apart (es_mem s d) (es_mem s u)"
  shows "est_inv en (extent_destroy_wrapper d s) {} B I (insert d V) L" "es_maps (extent_destroy_wrapper d s) = es_maps s"
    "es_ex (extent_destroy_wrapper d s) = es_ex s"
proof -
  note i = est_invD [OF assms(1)] and k = ext_okD [OF assms(3)]
  let ?e = "es_mem s d"
  obtain e1 ra rb s1 where l: "extent_rtree_leaf_elms_lookup ?e True False s = ((e1, ra, rb), s1)"
    by (metis prod_cases3 surj_pair)
  note ll = leaves_lookup [OF l assms(3)]
  obtain os where s1: "s1 = s\<lparr>es_outs := os\<rparr>" using ll(3) by blast
  define s2 where "s2 = extent_rtree_write_acquired (of_nat (fpg ?e)) (Some (of_nat (lpg ?e))) 0 (of_nat SC_NSIZES) False s1"
  have dr: "extent_deregister d s = s2"
    using l ll(1) assms(4) pages_onlyD [OF write_acquired(1) [of s1]]
    by (simp add: extent_deregister_def extent_deregister_impl_def s2_def s1 Let_def)
  have po: "pages_only s1 s2" unfolding s2_def by (rule write_acquired(1))
  note po' = pages_onlyD [OF po]
  have unowned: "own (es_pages s) n = None" if n: "n < 2 ^ 64" "n = fpg ?e \<or> n = lpg ?e" for n
  proof (rule ccontr)
    assume "own (es_pages s) n \<noteq> None"
    then obtain u where u: "u \<in> uses {} B L" "covers I u (es_mem s u) n" using geoD(6) [OF i(4) n(1)] by auto
    have ok: "ext_ok (es_mem s u)" by (rule geoD(4) [OF i(4) u(1)])
    note ku = ext_okD [OF ok]
    have "fpg (es_mem s u) \<le> n" "n \<le> lpg (es_mem s u)" using covers_within [OF ok u(2)] by simp_all
    moreover have "apart ?e (es_mem s u)" using assms(5) u(1) by blast
    ultimately show False using n(2) k(5,7) ku(5,7) unfolding apart_def by auto
  qed
  have "own (es_pages s2) n = own (es_pages s) n" if "n < 2 ^ 64" for n
    using that k(4,5,6) unowned by (simp add: s2_def write_acquired(2) s1)
  then have g: "geo (es_mem s) (own (es_pages s2)) (uses {} B L) I" by (rule geo_cong [OF i(4)])
  have i2: "est_inv en s2 {} B I V L"
    using i g po' by (simp add: est_inv_def s1)
  have l2: "loose s2 {} B V L d" using assms(2) po' by (simp add: loose_def s1)
  define s3 where "s3 = mem_set s2 d (extent_addr_set (es_mem s2 d) (extent_base_get (es_mem s2 d)))"
  note sl = set_loose [OF i2 l2, of "extent_addr_set (es_mem s2 d) (extent_base_get (es_mem s2 d))", folded s3_def]
  have eq: "extent_destroy_wrapper d s = extent_dalloc d s3"
    by (simp add: extent_destroy_wrapper_def dr s3_def Let_def)
  show "est_inv en (extent_destroy_wrapper d s) {} B I (insert d V) L" unfolding eq by (rule extent_dalloc_ok(1) [OF sl])
  show "es_maps (extent_destroy_wrapper d s) = es_maps s" "es_ex (extent_destroy_wrapper d s) = es_ex s"
    using po' by (simp_all add: eq s3_def s1)
qed

end
