(* ===== verification/Extent_Runs.thy ===== *)
theory Extent_Runs
  imports Extent_Grow
begin

text \<open>
  The runs of one arena's extents: a step is one call of src/extent.c by the rest of the allocator,
  together with what the caller then holds. The properties say that every call is defined, what an
  allocation hands out, and that the extents in use stay apart, unchanged and findable by address.
\<close>

section \<open>Runs\<close>

text \<open>The extents held by callers, and those of other arenas, with their descriptors.\<close>

type_synonym held = "uintptr \<rightharpoonup> extent"

definition slabs :: "held \<Rightarrow> uintptr set" where
  "slabs B = {d. \<exists>e. B d = Some e \<and> extent_slab_get e}"

definition handed :: "uintptr option \<Rightarrow> estate \<Rightarrow> held \<Rightarrow> held" where
  "handed r s B = (case r of None \<Rightarrow> B | Some e \<Rightarrow> B(e \<mapsto> es_mem s e))"

text \<open>A held extent of this arena.\<close>

definition holds :: "extent_env \<Rightarrow> held \<Rightarrow> uintptr \<Rightarrow> extent \<Rightarrow> bool" where
  "holds en B d e \<longleftrightarrow> B d = Some e \<and> active_desc en e"

text \<open>At the start the collections are empty, no descriptor is free, and exactly the pages of the
  extents that are there already are registered.\<close>

definition extents_started :: "extent_env \<Rightarrow> estate \<Rightarrow> held \<Rightarrow> bool" where
  "extents_started en s B \<longleftrightarrow> tabs_ok (en_tabs en) \<and> unat (en_ind en) < 2 ^ 12
     \<and> es_avail s = ph_new \<and> distinct (removeAll 0 (es_descs s)) \<and> set (es_descs s) \<inter> dom B = {} \<and> grow_bound s
     \<and> (\<forall>k. k \<noteq> extent_state_active \<longrightarrow> (\<exists>ex0 delay. length (ex_bitmap ex0) = 4 \<and> ex_nextents ex0 = replicate 200 0
          \<and> ex_nbytes ex0 = replicate 200 0 \<and> extents_init ex0 k delay = Some (es_ex s k)))
     \<and> geo (es_mem s) (own (es_pages s)) (dom B) (slabs B)
     \<and> (\<forall>d e. B d = Some e \<longrightarrow> es_mem s d = e \<and> (active_desc en e \<or> foreign_desc en e))"

inductive extent_step :: "extent_env \<Rightarrow> estate \<times> held \<Rightarrow> estate \<times> held \<Rightarrow> bool" for en where
  alloc: "k \<noteq> extent_state_active \<Longrightarrow> request (req + pad) a \<Longrightarrow> new_addr \<noteq> 0 \<longrightarrow> a \<le> 12 \<Longrightarrow> unat szind \<le> SC_NSIZES \<Longrightarrow>
    extents_alloc en k new_addr req pad (2 ^ a) slab szind zero commit s = Some ((r, z, c), s') \<Longrightarrow>
    extent_step en (s, B) (s', handed r s' B)"
| alloc_wrapper: "request (req + pad) a \<Longrightarrow> new_addr \<noteq> 0 \<longrightarrow> a \<le> 12 \<Longrightarrow> unat szind \<le> SC_NSIZES \<Longrightarrow>
    hooks_kept en new_addr req pad a slab szind zero commit s \<Longrightarrow>
    extent_alloc_wrapper en new_addr req pad (2 ^ a) slab szind zero commit s = Some ((r, z, c), s') \<Longrightarrow>
    extent_step en (s, B) (s', handed r s' B)"
| dalloc: "k \<noteq> extent_state_active \<Longrightarrow> holds en B d e \<Longrightarrow> extents_dalloc en k d s = Some s' \<Longrightarrow>
    extent_step en (s, B) (s', B(d := None))"
| dalloc_wrapper: "holds en B d e \<Longrightarrow> extent_addr_get e = extent_base_get e \<Longrightarrow> extent_dalloc_wrapper en d s = Some s' \<Longrightarrow>
    extent_step en (s, B) (s', B(d := None))"
| evict: "k \<noteq> extent_state_active \<Longrightarrow> extents_evict en k n s = Some (r, s') \<Longrightarrow>
    extent_step en (s, B) (s', if k = extent_state_retained then B else handed r s' B)"
| split: "holds en B d e \<Longrightarrow> \<not> extent_slab_get e \<Longrightarrow> page_size sa \<Longrightarrow> page_size sb \<Longrightarrow>
    unat sa + unat sb = unat (extent_size_get e) \<Longrightarrow> unat za \<le> SC_NSIZES \<Longrightarrow> unat zb \<le> SC_NSIZES \<Longrightarrow>
    extent_split_wrapper en d sa za False sb zb False s = (r, s') \<Longrightarrow>
    extent_step en (s, B) (s', handed r s' (B(d \<mapsto> es_mem s' d)))"
| merge: "holds en B a ea \<Longrightarrow> holds en B b eb \<Longrightarrow> a \<noteq> b \<Longrightarrow> \<not> extent_slab_get ea \<Longrightarrow> \<not> extent_slab_get eb \<Longrightarrow>
    extent_past_get ea = extent_base_get eb \<Longrightarrow> extent_merge_wrapper en a b s = (err, s') \<Longrightarrow>
    extent_step en (s, B) (s', if err then B else B(a \<mapsto> es_mem s' a, b := None))"
| change: "holds en B d e \<Longrightarrow> same_span e' e \<Longrightarrow> active_desc en e' \<Longrightarrow> extent_slab_get e' = extent_slab_get e \<Longrightarrow>
    extent_step en (s, B) (mem_set s d e', B(d \<mapsto> e'))"
| destroy: "extents_evict en extent_state_retained n s = Some (Some d, s') \<Longrightarrow>
    extent_step en (s, B) (extent_destroy_wrapper d s', B)"
| purge: "extent_purge_lazy_impl en s = (err, s') \<Longrightarrow> extent_step en (s, B) (s', B)"
| szind: "holds en B d e \<Longrightarrow> \<not> extent_slab_get e \<Longrightarrow> page_number (extent_addr_get e) = page_number (extent_base_get e) \<Longrightarrow>
    szind_slab_update (page_number (extent_addr_get e)) szind False s = Some s' \<Longrightarrow> extent_step en (s, B) (s', B)"

definition extents_reach :: "extent_env \<Rightarrow> estate \<Rightarrow> held \<Rightarrow> bool" where
  "extents_reach en s B \<longleftrightarrow> (\<exists>s0 B0. extents_started en s0 B0 \<and> (extent_step en)\<^sup>*\<^sup>* (s0, B0) (s, B))"

section \<open>The invariant of runs\<close>

definition run_inv :: "extent_env \<Rightarrow> estate \<Rightarrow> held \<Rightarrow> bool" where
  "run_inv en s B \<longleftrightarrow> (\<exists>V L. est_inv en s {} B (slabs B) V L)"

lemma slabs_upd: "slabs (B(d \<mapsto> e)) = (if extent_slab_get e then insert d (slabs B) else slabs B - {d})"
  "slabs (B(d := None)) = slabs B - {d}"
  by (auto simp: slabs_def)

lemma slabs_dom: "slabs B \<subseteq> dom B" by (auto simp: slabs_def)

lemma started_est:
  assumes "extents_started en s B"
  shows "est_inv en s {} B (slabs B) {} (\<lambda>_. [])"
proof -
  let ?L = "\<lambda>_. [] :: uintptr list"
  have m: "members ?L = {}" "uses {} B ?L = dom B" by (simp_all add: members_def uses_def)
  have "conts (es_mem s) (es_ex s) ?L"
    unfolding conts_def
  proof (intro allI impI)
    fix k assume "k \<noteq> extent_state_active"
    with assms obtain ex0 delay where z: "length (ex_bitmap ex0) = 4" "ex_nextents ex0 = replicate 200 0"
      "ex_nbytes ex0 = replicate 200 0" "extents_init ex0 k delay = Some (es_ex s k)" unfolding extents_started_def by blast
    have "ex_state ex' = st" if "extents_init ex0 st delay = Some ex'" for ex' st
      using that by (auto simp: extents_init_def bind_eq_Some_conv)
    from this [OF z(4)] have "ex_state (es_ex s k) = k" .
    with init_ok [OF z(1-3), of k delay "es_mem s"] z(4) show "extents_inv (es_mem s) (es_ex s k) [] \<and> ex_state (es_ex s k) = k"
      by simp
  qed
  moreover have "parts {} (dom B) ?L" by (simp add: parts_def m)
  moreover have "roles en (es_mem s) {} B ?L" using assms by (simp add: roles_def extents_started_def)
  moreover have "free_ok (es_mem s) (es_avail s) (es_descs s) {} (dom B)"
    using assms by (auto simp: free_ok_def extents_started_def ph_new_def ph_inv_def)
  ultimately show ?thesis
    using assms slabs_dom by (simp add: est_inv_def m extents_started_def)
qed

lemma started_inv: "extents_started en s B \<Longrightarrow> run_inv en s B"
  using started_est unfolding run_inv_def by blast

text \<open>An extent that an operation produced is held afterwards; a held one is available to it.\<close>

lemma hand_out:
  assumes "est_inv en s {d} B I V L" "I = (if extent_slab_get (es_mem s d) then insert d (slabs B) else slabs B)"
  shows "run_inv en s (B(d \<mapsto> es_mem s d))"
proof -
  have "d \<notin> dom B" using partsD(1) [OF assms(1)] by blast
  then have "slabs B - {d} = slabs B" using slabs_dom by blast
  then have "I = slabs (B(d \<mapsto> es_mem s d))" by (simp add: assms(2) slabs_upd)
  then show ?thesis using park [of en s d "{}" B I V L] assms(1) unfolding run_inv_def by auto
qed

lemma take_held:
  assumes "run_inv en s B" "holds en B d e"
  obtains V L where "est_inv en s {d} (B(d := None)) (slabs B) V L" "es_mem s d = e" "d \<in> slabs B \<longleftrightarrow> extent_slab_get e"
proof -
  obtain V L where i: "est_inv en s {} B (slabs B) V L" using assms(1) by (auto simp: run_inv_def)
  have h: "B d = Some e" "active_desc en e" using assms(2) by (simp_all add: holds_def)
  note u = unpark [OF i h]
  have "d \<in> slabs B \<longleftrightarrow> extent_slab_get e" using h by (simp add: slabs_def)
  with that u show thesis by blast
qed

lemma give_back:
  assumes "est_inv en s {} (B(d := None)) (slabs B - {d}) V L"
  shows "run_inv en s (B(d := None))"
  using assms unfolding run_inv_def slabs_upd by blast

lemma alloc_inv:
  assumes "alloc_result en B (slabs B) req pad a slab szind na r s"
  shows "run_inv en s (handed r s B)"
proof (cases r)
  case None
  with assms show ?thesis by (auto simp: alloc_result_def handed_def run_inv_def)
next
  case (Some e)
  with assms obtain V L where "est_inv en s {e} B (if slab then insert e (slabs B) else slabs B) V L"
    "granted (es_mem s e) req pad a slab szind na" by (auto simp: alloc_result_def)
  with hand_out [OF this(1)] Some show ?thesis by (simp add: handed_def granted_def)
qed

text \<open>The place that an address asked for fixes: the end of an extent of a holder.\<close>

definition at_end :: "held \<Rightarrow> uintptr \<Rightarrow> uintptr" where
  "at_end B new_addr = (if \<exists>d e. B d = Some e \<and> new_addr = extent_past_get e then new_addr else 0)"

lemma at_end_adjoins: "adjoins B new_addr (at_end B new_addr)"
  by (simp add: adjoins_def at_end_def)

lemma alloc_run:
  assumes "run_inv en s B" "k \<noteq> extent_state_active" "request (req + pad) a" "new_addr \<noteq> 0 \<longrightarrow> a \<le> 12" "unat szind \<le> SC_NSIZES"
  shows "\<exists>r z c s'. extents_alloc en k new_addr req pad (2 ^ a) slab szind zero commit s = Some ((r, z, c), s')
    \<and> alloc_result en B (slabs B) req pad a slab szind (at_end B new_addr) r s'"
proof -
  obtain V L where "est_inv en s {} B (slabs B) V L" using assms(1) by (auto simp: run_inv_def)
  from recycle_ok [OF this assms(2-5) at_end_adjoins, of slab zero commit] show ?thesis
    unfolding extents_alloc_def alloc_result_def by blast
qed

lemma wrapper_run:
  assumes "run_inv en s B" "request (req + pad) a" "new_addr \<noteq> 0 \<longrightarrow> a \<le> 12" "unat szind \<le> SC_NSIZES"
    and "hooks_kept en new_addr req pad a slab szind zero commit s"
  shows "\<exists>r z c s'. extent_alloc_wrapper en new_addr req pad (2 ^ a) slab szind zero commit s = Some ((r, z, c), s')
    \<and> alloc_result en B (slabs B) req pad a slab szind (at_end B new_addr) r s'"
proof -
  obtain V L where "est_inv en s {} B (slabs B) V L" using assms(1) by (auto simp: run_inv_def)
  from wrapper_ok [OF this assms(2-5) at_end_adjoins] show ?thesis .
qed

lemma dalloc_run:
  assumes "run_inv en s B" "holds en B d e" "k \<noteq> extent_state_active"
  shows "\<exists>s'. extents_dalloc en k d s = Some s' \<and> run_inv en s' (B(d := None))"
proof -
  from take_held [OF assms(1,2)] obtain V L where
    h: "est_inv en s {d} (B(d := None)) (slabs B) V L" "es_mem s d = e" "d \<in> slabs B \<longleftrightarrow> extent_slab_get e" .
  from dalloc_ok [OF h(1) _ assms(3)] h(2,3) give_back show ?thesis by blast
qed

lemma dalloc_wrapper_run:
  assumes "run_inv en s B" "holds en B d e" "extent_addr_get e = extent_base_get e"
  shows "\<exists>s'. extent_dalloc_wrapper en d s = Some s' \<and> run_inv en s' (B(d := None))"
proof -
  from take_held [OF assms(1,2)] obtain V L where
    h: "est_inv en s {d} (B(d := None)) (slabs B) V L" "es_mem s d = e" "d \<in> slabs B \<longleftrightarrow> extent_slab_get e" .
  from dalloc_wrapper_ok [OF h(1)] h(2,3) assms(3) give_back show ?thesis by blast
qed

lemma evict_run:
  assumes "run_inv en s B" "k \<noteq> extent_state_active"
  shows "\<exists>r s'. extents_evict en k n s = Some (r, s')
    \<and> run_inv en s' (if k = extent_state_retained then B else handed r s' B)
    \<and> (case r of None \<Rightarrow> ex_lru (es_ex s' k) = [] \<or> extents_npages_get (es_ex s' k) \<le> n
       | Some d \<Rightarrow> length (ex_lru (es_ex s' k)) < length (ex_lru (es_ex s k))
          \<and> (k = extent_state_retained \<longrightarrow> run_inv en (extent_destroy_wrapper d s') B
                \<and> es_ex (extent_destroy_wrapper d s') = es_ex s')
          \<and> (k \<noteq> extent_state_retained \<longrightarrow> d \<notin> dom B \<and> active_desc en (es_mem s' d) \<and> flat (es_mem s' d)))"
proof -
  obtain V L where i: "est_inv en s {} B (slabs B) V L" using assms(1) by (auto simp: run_inv_def)
  have lru: "ex_lru (es_ex s k) = L k" if "est_inv en s A B I V L" for s A B I V L
    using est_invD(6) [OF that] assms(2) by (simp add: conts_def extents_inv_def)
  from extents_evict_ok [OF i assms(2), of n] obtain r s' V' L' where
    r: "extents_evict en k n s = Some (r, s')"
      "case r of None \<Rightarrow> est_inv en s' {} B (slabs B) V' L' \<and> (ex_lru (es_ex s' k) = [] \<or> extents_npages_get (es_ex s' k) \<le> n)
       | Some d \<Rightarrow> length (L' k) < length (L k) \<and> ext_ok (es_mem s' d) \<and> \<not> extent_slab_get (es_mem s' d)
           \<and> (if k = extent_state_retained then est_inv en s' {} B (slabs B) V' L' \<and> loose s' {} B V' L' d
                \<and> (\<forall>u\<in>uses {} B L'. apart (es_mem s' d) (es_mem s' u))
              else work en s' d B (slabs B) V' L')" by blast
  show ?thesis
  proof (cases r)
    case None
    with r show ?thesis by (auto simp: handed_def run_inv_def)
  next
    case (Some d)
    with r(2) have d: "length (L' k) < length (ex_lru (es_ex s k))" "ext_ok (es_mem s' d)" "\<not> extent_slab_get (es_mem s' d)"
      using lru [OF i] by simp_all
    show ?thesis
    proof (cases "k = extent_state_retained")
      case True
      with r(2) Some have i': "est_inv en s' {} B (slabs B) V' L'" "loose s' {} B V' L' d"
        "\<forall>u\<in>uses {} B L'. apart (es_mem s' d) (es_mem s' u)" by simp_all
      from destroy_ok [OF i'(1,2) d(2,3) i'(3)] have "run_inv en (extent_destroy_wrapper d s') B"
        "es_ex (extent_destroy_wrapper d s') = es_ex s'" unfolding run_inv_def by blast+
      moreover have "run_inv en s' B" using i'(1) unfolding run_inv_def by blast
      ultimately show ?thesis using r(1) Some True d(1) lru [OF i'(1)] by simp
    next
      case False
      with r(2) Some have w: "work en s' d B (slabs B) V' L'" by simp
      then have i': "est_inv en s' {d} B (slabs B) V' L'" by (simp add: work_def)
      have "run_inv en s' (handed r s' B)" using hand_out [OF i'] w Some by (simp add: work_def handed_def)
      moreover have "d \<notin> dom B" using partsD(1) [OF i', of d] by blast
      ultimately show ?thesis using r(1) Some False d(1,3) lru [OF i'] active_in [OF i', of d] w
        by (simp add: work_def flat_def)
    qed
  qed
qed

lemma purge_run:
  assumes "run_inv en s B" "extent_purge_lazy_impl en s = (err, s')"
  shows "run_inv en s' B" "es_mem s' = es_mem s" "es_ex s' = es_ex s"
proof -
  have p: "(err, s') = extent_purge_lazy_impl en s \<or> (err, s') = extent_purge_forced_impl en s" using assms(2) by simp
  show "run_inv en s' B" "es_mem s' = es_mem s" using assms(1) purge_frame [OF p] by (simp_all add: run_inv_def)
  show "es_ex s' = es_ex s" using assms(2)
    by (auto simp: extent_purge_lazy_impl_def pop_out_def split: if_splits list.splits)
qed

lemma szind_run:
  assumes "run_inv en s B" "holds en B d e" "\<not> extent_slab_get e" "page_number (extent_addr_get e) = page_number (extent_base_get e)"
  shows "\<exists>s'. szind_slab_update (page_number (extent_addr_get e)) szind False s = Some s' \<and> run_inv en s' B \<and> es_mem s' = es_mem s"
proof -
  from take_held [OF assms(1,2)] obtain V L where
    h: "est_inv en s {d} (B(d := None)) (slabs B) V L" "es_mem s d = e" "d \<in> slabs B \<longleftrightarrow> extent_slab_get e" .
  have ok: "ext_ok (es_mem s d)" using active_in [OF h(1)] by simp
  have pn: "page_number (extent_addr_get e) = of_nat (fpg (es_mem s d))"
    using assms(4) page_numbers(1) [OF ok] h(2) by simp
  from szind_slab_inv [OF h(1) singletonI, of "fpg (es_mem s d)" szind False] obtain s' where
    s': "szind_slab_update (of_nat (fpg (es_mem s d))) szind False s = Some s'"
      "est_inv en s' {d} (B(d := None)) (slabs B) V L" "es_mem s' = es_mem s" by blast
  have "d \<notin> slabs B" using h(3) assms(3) by simp
  then have "slabs (B(d := None)) = slabs B" by (simp add: slabs_upd)
  with hand_out [OF s'(2)] s'(3) h(2) assms(3) have "run_inv en s' (B(d := None, d \<mapsto> e))" by simp
  moreover have "B(d := None, d \<mapsto> e) = B" using assms(2) by (auto simp: holds_def)
  ultimately show ?thesis using s'(1,3) by (simp add: pn)
qed

lemma split_run:
  assumes "run_inv en s B" "holds en B d e" "\<not> extent_slab_get e" "page_size sa" "page_size sb"
    "unat sa + unat sb = unat (extent_size_get e)" "unat za \<le> SC_NSIZES" "unat zb \<le> SC_NSIZES"
    and r: "extent_split_wrapper en d sa za False sb zb False s = (r, s')"
  shows "run_inv en s' (handed r s' (B(d \<mapsto> es_mem s' d))) \<and> (r = None \<longrightarrow> es_mem s' d = e)
    \<and> (\<forall>t. r = Some t \<longrightarrow> es_mem s' d = lead_desc e sa za \<and> t \<notin> dom B \<and> active_desc en (es_mem s' t)
        \<and> extent_size_get (es_mem s' t) = sb)"
proof -
  from take_held [OF assms(1,2)] obtain V L where
    h: "est_inv en s {d} (B(d := None)) (slabs B) V L" "es_mem s d = e" "d \<in> slabs B \<longleftrightarrow> extent_slab_get e" .
  have dI: "d \<notin> slabs B" using h(3) assms(3) by simp
  have sz: "unat sa + unat sb = unat (extent_size_get (es_mem s d))" using assms(6) h(2) by simp
  note so = split_ok [OF h(1) singletonI dI assms(4,5) sz assms(7,8) r [unfolded extent_split_wrapper_def]]
  have B: "(B(d := None))(d \<mapsto> x) = B(d \<mapsto> x)" for x by simp
  have I: "slabs (B(d := None)) = slabs B" using dI by (simp add: slabs_upd)
  show ?thesis
  proof (cases r)
    case None
    with so(3) obtain V' where V': "es_mem s' d = e" "est_inv en s' {d} (B(d := None)) (slabs B) V' L" using h(2) by auto
    from hand_out [OF V'(2)] None V'(1) assms(3) I show ?thesis by (simp add: handed_def B)
  next
    case (Some t)
    from so(4) [OF Some] obtain V' where t: "t \<notin> uses {d} (B(d := None)) L" "est_inv en s' {t, d} (B(d := None)) (slabs B) V' L"
      "es_mem s' d = lead_desc e sa za" "\<not> extent_slab_get (es_mem s' t)" "extent_size_get (es_mem s' t) = sb" using h(2) by auto
    have tB: "t \<notin> dom B" "active_desc en (es_mem s' t)" using t(1) active_in [OF t(2), of t] by (auto simp: uses_def)
    have td: "t \<noteq> d" "{t, d} = insert d {t}" using t(1) by (auto simp: uses_def)
    have "est_inv en s' {t} ((B(d := None))(d \<mapsto> es_mem s' d)) (slabs B) V' L"
      by (rule park) (use t(2) td in \<open>simp_all\<close>)
    then have p: "est_inv en s' {t} (B(d \<mapsto> es_mem s' d)) (slabs B) V' L" by (simp add: B)
    have "\<not> extent_slab_get (es_mem s' d)" using t(3) assms(3) lead_get(3) [OF assms(4,7)] by simp
    then have "slabs (B(d \<mapsto> es_mem s' d)) = slabs B" using dI by (simp add: slabs_upd)
    with hand_out [OF p] t(3-5) tB Some show ?thesis by (simp add: handed_def del: fun_upd_apply)
  qed
qed

lemma past_pages:
  assumes "ext_ok a" "ext_ok b" "extent_past_get a = extent_base_get b"
  shows "fpg b = fpg a + npg a"
proof -
  have "page_number (extent_past_get a) = of_nat (fpg a + npg a)" using page_numbers(3) [OF assms(1)] .
  moreover have "page_number (extent_base_get b) = of_nat (fpg b)" using page_numbers(1) [OF assms(2)] .
  ultimately have "(of_nat (fpg b) :: 64 word) = of_nat (fpg a + npg a)" using assms(3) by simp
  then show ?thesis by (rule of_nat_64_eq [THEN iffD1, rotated 2])
    (use ext_okD(4) [OF assms(1)] ext_okD(4) [OF assms(2)] in simp_all)
qed

lemma merge_run:
  assumes "run_inv en s B" "holds en B a ea" "holds en B b eb" "a \<noteq> b" "\<not> extent_slab_get ea" "\<not> extent_slab_get eb"
    "extent_past_get ea = extent_base_get eb" and r: "extent_merge_wrapper en a b s = (err, s')"
  shows "run_inv en s' (if err then B else B(a \<mapsto> es_mem s' a, b := None))
    \<and> (err \<longrightarrow> es_mem s' = es_mem s) \<and> (\<not> err \<longrightarrow> es_mem s' a = merged_desc ea eb)"
proof -
  from take_held [OF assms(1,2)] obtain V L where
    h: "est_inv en s {a} (B(a := None)) (slabs B) V L" "es_mem s a = ea" "a \<in> slabs B \<longleftrightarrow> extent_slab_get ea" .
  have Bb: "(B(a := None)) b = Some eb" "active_desc en eb" using assms(3,4) by (simp_all add: holds_def)
  note u = unpark [OF h(1) Bb]
  let ?B = "B(a := None, b := None)"
  have i: "est_inv en s {a, b} ?B (slabs B) V L" using u(1) by (simp add: insert_commute del: fun_upd_apply)
  have I: "a \<notin> slabs B" "b \<notin> slabs B" using h(3) assms(3,5,6) by (auto simp: holds_def slabs_def)
  have ok: "ext_ok (es_mem s a)" "ext_ok (es_mem s b)" using active_in [OF i] by simp_all
  have adj: "fpg (es_mem s b) = fpg (es_mem s a) + npg (es_mem s a)"
    by (rule past_pages [OF ok]) (use h(2) u(3) assms(7) in simp)
  note mo = merge_ok [OF i insertI1 insertI2 [OF singletonI] assms(4) I adj r [unfolded extent_merge_wrapper_def]]
  show ?thesis
  proof (cases err)
    case True
    from mo(3) [OF True] have e: "est_inv en s' {a, b} ?B (slabs B) V L" "es_mem s' = es_mem s" by simp_all
    have "a \<notin> {b}" using assms(4) by simp
    from park [OF e(1) this] have "est_inv en s' {b} (?B(a \<mapsto> ea)) (slabs B) V L" using e(2) h(2) by simp
    then have "est_inv en s' {} (?B(a \<mapsto> ea, b \<mapsto> eb)) (slabs B) V L"
      using park [of en s' b "{}" "?B(a \<mapsto> ea)"] e(2) u(3) by (simp del: fun_upd_apply)
    moreover have "?B(a \<mapsto> ea, b \<mapsto> eb) = B" using assms(2,3) by (auto simp: holds_def)
    ultimately show ?thesis using True e(2) by (auto simp: run_inv_def)
  next
    case False
    have ab: "{a, b} - {b} = {a}" using assms(4) by auto
    from mo(4) [OF False] have e: "est_inv en s' {a} ?B (slabs B) (insert b V) L"
      "es_mem s' a = merged_desc (es_mem s a) (es_mem s b)" unfolding ab by simp_all
    have "fpg (es_mem s a) + npg (es_mem s a) + npg (es_mem s b) \<le> 2 ^ 35" using ext_okD(4) [OF ok(2)] adj by simp
    from merged_view(1,2) [OF ok this] have "\<not> extent_slab_get (es_mem s' a)" using e(2) assms(5) h(2) by simp
    moreover have "slabs ?B = slabs B" using I by (simp add: slabs_upd)
    ultimately have "run_inv en s' (?B(a \<mapsto> es_mem s' a))" using hand_out [OF e(1)] by simp
    moreover have "?B(a \<mapsto> es_mem s' a) = B(a \<mapsto> es_mem s' a, b := None)" using assms(4) by auto
    ultimately show ?thesis using False e(2) h(2) u(3) by simp
  qed
qed

lemma change_run:
  assumes "run_inv en s B" "holds en B d e" "same_span e' e" "active_desc en e'" "extent_slab_get e' = extent_slab_get e"
  shows "run_inv en (mem_set s d e') (B(d \<mapsto> e'))"
proof -
  from take_held [OF assms(1,2)] obtain V L where
    h: "est_inv en s {d} (B(d := None)) (slabs B) V L" "es_mem s d = e" "d \<in> slabs B \<longleftrightarrow> extent_slab_get e" .
  have "est_inv en (mem_set s d e') {d} (B(d := None)) (slabs B) V L"
    by (rule set_active [OF h(1) singletonI _ assms(4)]) (use assms(3) h(2) in simp)
  from hand_out [OF this] show ?thesis using h(3) assms(5) by (auto simp: slabs_upd insert_absorb)
qed

lemma step_inv: "extent_step en sB sB' \<Longrightarrow> run_inv en (fst sB) (snd sB) \<Longrightarrow> run_inv en (fst sB') (snd sB')"
proof (induction rule: extent_step.induct)
  case (alloc k req pad a new_addr szind slab zero commit s r z c s' B)
  with alloc_run [of en s B k req pad a new_addr szind slab zero commit] alloc_inv show ?case by auto
next
  case (alloc_wrapper req pad a new_addr szind slab zero commit s r z c s' B)
  with wrapper_run [of en s B req pad a new_addr szind slab zero commit] alloc_inv show ?case by auto
next
  case (dalloc k B d e s s')
  with dalloc_run [of en s B d e k] show ?case by (auto simp del: fun_upd_apply)
next
  case (dalloc_wrapper B d e s s')
  with dalloc_wrapper_run [of en s B d e] show ?case by (auto simp del: fun_upd_apply)
next
  case (evict k n s r s' B)
  with evict_run [of en s B k n] show ?case by (auto simp del: fun_upd_apply)
next
  case (split B d e sa sb za zb s r s')
  with split_run [of en s B d e sa sb za zb r s'] show ?case by simp
next
  case (merge B a ea b eb s err s')
  with merge_run [of en s B a ea b eb err s'] show ?case by simp
next
  case (change B d e e' s)
  with change_run [of en s B d e e'] show ?case by (simp del: fun_upd_apply)
next
  case (destroy n s d s' B)
  with evict_run [of en s B extent_state_retained n] show ?case by auto
next
  case (purge s err s' B)
  with purge_run [of en s B err s'] show ?case by simp
next
  case (szind B d e szind s s')
  with szind_run [of en s B d e szind] show ?case by auto
qed

lemma reach_inv: "extents_reach en s B \<Longrightarrow> run_inv en s B"
proof -
  have "run_inv en (fst q) (snd q)" if "(extent_step en)\<^sup>*\<^sup>* p q" "run_inv en (fst p) (snd p)" for p q
    using that by (induction rule: rtranclp_induct) (auto intro: step_inv)
  then show "extents_reach en s B \<Longrightarrow> run_inv en s B"
    using started_inv unfolding extents_reach_def by fastforce
qed

section \<open>An example\<close>

text \<open>One extent of one page is held at first; there is one descriptor and one mapping to come.\<close>

definition one_desc :: extent where
  "one_desc = extent_init \<lparr>e_self = 1, e_bits = 0, e_addr = 0, e_size_esn = 0, e_slab_bitmap = []\<rparr> (Some 0) 65536 4096 False 0 0
     extent_state_active True True True"

definition one_env :: "sz_tabs \<Rightarrow> extent_env" where
  "one_env t = \<lparr>en_tabs = t, en_lg_fit = 6, en_retain = False, en_hooks = \<lparr>hk_default = True, hk_dalloc = True,
     hk_commit = True, hk_decommit = True, hk_purge_lazy = True, hk_purge_forced = True, hk_split = True, hk_merge = True\<rparr>,
     en_ind = 0\<rparr>"

definition one_state :: "(extent_state \<Rightarrow> extents) \<Rightarrow> estate" where
  "one_state ex = \<lparr>es_mem = (\<lambda>_. one_desc), es_pages = [16 \<mapsto> (1, 0, False)], es_avail = ph_new, es_avail_cnt = 0,
     es_ex = ex, es_sn_next = 1, es_grow_next = 0, es_grow_limit = 198, es_offset = Arena_state 0, es_descs = [2],
     es_maps = [(1048576, True, True)], es_outs = [False, False]\<rparr>"

definition one_held :: held where "one_held = [1 \<mapsto> one_desc]"

lemma one_get:
  "extent_addr_get one_desc = 65536" "extent_size_get one_desc = 4096" "\<not> extent_slab_get one_desc"
  "extent_state_get one_desc = extent_state_active" "ev_arena (extent_view one_desc) = 0" "extent_base_get one_desc = 65536"
  "fpg one_desc = 16" "npg one_desc = 1" "lpg one_desc = 16"
proof -
  note g = init_get [OF _ _ _ one_desc_def, simplified]
  show a: "extent_addr_get one_desc = 65536" "extent_size_get one_desc = 4096" "\<not> extent_slab_get one_desc"
    "extent_state_get one_desc = extent_state_active" "ev_arena (extent_view one_desc) = 0"
    using g by (simp_all add: page_size_def)
  have "PAGE_ADDR2BASE 65536 = 65536" by (rule aligned_base) simp
  then show b: "extent_base_get one_desc = 65536" using a(1) by (simp add: get_view)
  show "fpg one_desc = 16" "npg one_desc = 1" "lpg one_desc = 16" using a(2) b by (simp_all add: lpg_def fpg_def npg_def)
qed

lemma one_start:
  obtains t ex where "extents_started (one_env t) (one_state ex) one_held"
    "est_inv (one_env t) (one_state ex) {} one_held {} {} (\<lambda>_. [])"
proof -
  obtain t where t: "tabs_ok t" using sz_boot_ok by blast
  define ex0 where "ex0 = \<lparr>ex_heaps = [], ex_nextents = replicate 200 0, ex_nbytes = replicate 200 0,
    ex_bitmap = replicate 4 0, ex_lru = [], ex_npages = 0, ex_state = extent_state_retained, ex_delay_coalesce = False\<rparr>"
  have z: "length (ex_bitmap ex0) = 4" "ex_nextents ex0 = replicate 200 0" "ex_nbytes ex0 = replicate 200 0"
    by (simp_all add: ex0_def)
  have "\<exists>e. extents_init ex0 k False = Some e" for k using init_ok [OF z, of k False "\<lambda>_. one_desc"] by blast
  then obtain ex where ex: "\<And>k. extents_init ex0 k False = Some (ex k)" by metis
  have act: "active_desc (one_env t) one_desc" by (simp add: active_desc_def one_get one_env_def)
  have sl: "slabs one_held = {}" by (auto simp: slabs_def one_held_def one_get split: if_splits)
  have own: "own (es_pages (one_state ex)) n = (if n = 16 then Some 1 else None)" if "n < 2 ^ 64" for n
    using that of_nat_64_eq [of n 16] by (simp add: own_def one_state_def)
  have "geo (es_mem (one_state ex)) (own (es_pages (one_state ex))) (dom one_held) (slabs one_held)"
    unfolding geo_def using own
    by (auto simp: one_held_def sl [unfolded one_held_def] one_state_def ext_ok_def one_get covers_def page_size_def)
  then have st: "extents_started (one_env t) (one_state ex) one_held"
    unfolding extents_started_def
  proof (intro conjI allI impI)
    show "tabs_ok (en_tabs (one_env t))" "unat (en_ind (one_env t)) < 2 ^ 12" using t by (simp_all add: one_env_def)
    show "es_avail (one_state ex) = ph_new" "distinct (removeAll 0 (es_descs (one_state ex)))" "grow_bound (one_state ex)"
      "set (es_descs (one_state ex)) \<inter> dom one_held = {}"
      by (simp_all add: one_state_def grow_bound_def one_held_def)
    show "\<exists>ex0 delay. length (ex_bitmap ex0) = 4 \<and> ex_nextents ex0 = replicate 200 0 \<and> ex_nbytes ex0 = replicate 200 0
        \<and> extents_init ex0 k delay = Some (es_ex (one_state ex) k)" for k
      by (intro exI [of _ ex0] exI [of _ False]) (use z ex [of k] in \<open>simp add: one_state_def\<close>)
  qed (use act in \<open>auto simp: one_state_def one_held_def split: if_splits\<close>)
  from started_est [OF st] sl have "est_inv (one_env t) (one_state ex) {} one_held {} {} (\<lambda>_. [])" by simp
  with st that show thesis by blast
qed

text \<open>Nothing is recycled from an empty collection.\<close>

lemma recycle_empty:
  assumes "est_inv en s A B I V L" "k \<noteq> extent_state_active" "L k = []" "request (req + pad) a"
  shows "\<exists>ex'. extent_recycle en k 0 req pad (2 ^ a) slab szind zero commit s
    = Some ((None, zero, commit), s\<lparr>es_ex := (es_ex s)(k := ex')\<rparr>)"
proof -
  have rq: "page_size (req + pad)" "a < 62" "unat (req + pad) + 2 ^ max 12 a \<le> 7 * 2 ^ 60 + 8192"
    using assms(4) by (simp_all add: request_def)
  from fit_extents_ok [OF assms(1,2) rq] obtain ret ex' where
    f: "extents_fit_locked (en_tabs en) (en_lg_fit en) (es_mem s) (es_ex s k) (req + pad) (2 ^ a) = Some (ret, ex')"
      "fit_found (es_mem s) (L k) (req + pad) (max 12 a) ret" by blast
  have "ret = None" using f(2) assms(3) by (simp add: fit_found_def split: option.splits)
  then have "extent_recycle_extract en k 0 req pad (2 ^ a) s = Some (None, s\<lparr>es_ex := (es_ex s)(k := ex')\<rparr>)"
    using f(1) by (simp add: extent_recycle_extract_def)
  then show ?thesis by (auto simp: extent_recycle_def)
qed

text \<open>From there the hook answers a request with a new extent.\<close>

lemma one_alloc:
  assumes "est_inv (one_env t) (one_state ex) {} one_held {} {} (\<lambda>_. [])"
  shows "request (4096 + 0) 0" "hooks_kept (one_env t) 0 4096 0 0 False 0 False True (one_state ex)"
    "\<exists>z c s'. extent_alloc_wrapper (one_env t) 0 4096 0 (2 ^ 0) False 0 False True (one_state ex) = Some ((Some 2, z, c), s')"
proof -
  let ?R = extent_state_retained and ?s = "one_state ex"
  show rq: "request (4096 + 0) 0" by (simp add: request_def page_size_def)
  from recycle_empty [OF assms _ _ rq, of ?R False 0 False True] obtain ex' where
    r: "extent_recycle (one_env t) ?R 0 4096 0 (2 ^ 0) False 0 False True ?s
      = Some ((None, False, True), ?s\<lparr>es_ex := (es_ex ?s)(?R := ex')\<rparr>)" by auto
  define s1 where "s1 = ?s\<lparr>es_ex := (es_ex ?s)(?R := ex')\<rparr>"
  have ret: "extent_alloc_retained (one_env t) 0 4096 0 (2 ^ 0) False 0 False True ?s = Some ((None, False, True), s1)"
    using r by (simp add: extent_alloc_retained_def one_env_def s1_def)
  have own: "own (es_pages s1) n = Some d \<Longrightarrow> es_mem s1 d = one_desc" for n d
    by (simp add: s1_def one_state_def)
  have fresh: "hook_fresh s1 sz" if "unat sz \<le> 2 ^ 46" for sz
    unfolding hook_fresh_def fresh_region_def using that own
    by (simp add: s1_def one_state_def one_get)
  have al: "hook_placed s1 0 0" by (simp add: hook_placed_def s1_def one_state_def)
  show "hooks_kept (one_env t) 0 4096 0 0 False 0 False True ?s"
    unfolding hooks_kept_def using ret fresh [of 4096] al by (simp add: s1_def one_env_def)
  have e: "extent_alloc s1 = (2, s1\<lparr>es_descs := []\<rparr>)" "es_mem s1 = (\<lambda>_. one_desc)"
    by (simp_all add: s1_def one_state_def extent_alloc_def ph_first_def ph_new_def pop_desc_def)
  obtain sn s2 where sn: "arena_extent_sn_next (s1\<lparr>es_descs := [], es_maps := []\<rparr>) = (sn, s2)"
    "es_outs s2 = [False, False]"
    by (simp add: arena_extent_sn_next_def s1_def one_state_def)
  define s3 where "s3 = mem_set s2 2 (extent_init (es_mem s2 2) (Some (en_ind (one_env t))) 1048576 4096 False 0 sn
    extent_state_active True True True)"
  obtain s4 where "extent_register 2 s3 = (False, s4)"
    using sn(2) by (simp add: extent_register_def extent_register_impl_def extent_rtree_leaf_elms_lookup_def leaf_elm_lookup_def
        pop_out_def s3_def mem_set_def Let_def)
  moreover have "pop_map (s1\<lparr>es_descs := []\<rparr>) = ((1048576, True, True), s1\<lparr>es_descs := [], es_maps := []\<rparr>)"
    by (simp add: pop_map_def s1_def one_state_def)
  ultimately have "extent_alloc_wrapper_hard (one_env t) 0 4096 0 (2 ^ 0) False 0 False True s1
      = Some ((Some 2, True, True), s4)"
    using e sn(1) by (simp add: extent_alloc_wrapper_hard_def s3_def [symmetric])
  then show "\<exists>z c s'. extent_alloc_wrapper (one_env t) 0 4096 0 (2 ^ 0) False 0 False True ?s = Some ((Some 2, z, c), s')"
    using ret by (intro exI [of _ True] exI [of _ s4]) (simp add: extent_alloc_wrapper_def)
qed

section \<open>Properties\<close>

text \<open>The addresses of an extent, and those whose pages its owner is found by.\<close>

definition bytes_of :: "extent \<Rightarrow> nat set" where
  "bytes_of e = {unat (extent_base_get e)..<unat (extent_base_get e) + unat (extent_size_get e)}"

definition found_at :: "extent \<Rightarrow> uintptr \<Rightarrow> bool" where
  "found_at e addr \<longleftrightarrow> unat addr \<in> bytes_of e \<and> (extent_slab_get e \<or> unat addr < unat (extent_base_get e) + 4096
     \<or> unat (extent_base_get e) + unat (extent_size_get e) \<le> unat addr + 4096)"

lemma apart_bytes: "ext_ok e \<Longrightarrow> ext_ok e' \<Longrightarrow> apart e e' \<Longrightarrow> bytes_of e \<inter> bytes_of e' = {}"
  using ext_okD(1) [of e] ext_okD(1) [of e'] by (auto simp: bytes_of_def apart_def unat_base)

lemma page_number_div: "unat a div 4096 < 2 ^ 36 \<Longrightarrow> page_number a = of_nat (unat a div 4096)"
proof -
  assume n: "unat a div 4096 < 2 ^ 36"
  have "unat (page_number a) = take_bit 36 (unat a div 4096)"
    by (simp add: page_number_def rtree_config LG_PAGE_def unsigned_take_bit_eq unat_drop_bit_div)
  also have "\<dots> = unat a div 4096" using n by (simp add: take_bit_nat_eq_self)
  finally show ?thesis using n by (simp add: word_unat_eq_iff unat_of_nat_eq)
qed

lemma bytes_pages:
  assumes "ext_ok e"
  shows "unat a \<in> bytes_of e \<longleftrightarrow> fpg e \<le> unat a div 4096 \<and> unat a div 4096 \<le> lpg e"
    "found_at e a \<longleftrightarrow> unat a \<in> bytes_of e \<and> (extent_slab_get e \<or> unat a div 4096 = fpg e \<or> unat a div 4096 = lpg e)"
proof -
  note k = ext_okD [OF assms]
  have b: "unat a \<in> bytes_of e \<longleftrightarrow> 4096 * fpg e \<le> unat a \<and> unat a < 4096 * (fpg e + npg e)"
    using k(1) by (simp add: bytes_of_def unat_base algebra_simps)
  then show m: "unat a \<in> bytes_of e \<longleftrightarrow> fpg e \<le> unat a div 4096 \<and> unat a div 4096 \<le> lpg e"
  proof -
    have "4096 * fpg e \<le> unat a \<longleftrightarrow> fpg e \<le> unat a div 4096"
      by (simp add: less_eq_div_iff_mult_less_eq mult.commute)
    moreover have "unat a < 4096 * Suc (lpg e) \<longleftrightarrow> unat a div 4096 \<le> lpg e"
      using div_less_iff_less_mult [of 4096 "unat a" "Suc (lpg e)"] by (simp add: mult.commute less_Suc_eq_le)
    ultimately show ?thesis using b k(7) by simp
  qed
  have "unat a < 4096 * Suc (fpg e) \<longleftrightarrow> unat a div 4096 \<le> fpg e"
    using div_less_iff_less_mult [of 4096 "unat a" "Suc (fpg e)"] by (simp add: mult.commute less_Suc_eq_le)
  moreover have "4096 * lpg e \<le> unat a \<longleftrightarrow> lpg e \<le> unat a div 4096"
    by (simp add: less_eq_div_iff_mult_less_eq mult.commute)
  moreover have "4096 * fpg e + 4096 * npg e = 4096 * lpg e + 4096" using k(7) by simp
  ultimately show "found_at e a \<longleftrightarrow> unat a \<in> bytes_of e \<and> (extent_slab_get e \<or> unat a div 4096 = fpg e \<or> unat a div 4096 = lpg e)"
    using m k(1) by (auto simp: found_at_def unat_base)
qed

lemma found_covers:
  assumes "ext_ok e" "d \<in> I \<longleftrightarrow> extent_slab_get e"
  shows "found_at e a \<longleftrightarrow> covers I d e (unat a div 4096)"
  using bytes_pages [OF assms(1), of a] assms(2) ext_okD(5) [OF assms(1)] by (auto simp: covers_def)

lemma lookup_owner:
  assumes "est_inv en s {} B (slabs B) V L"
  shows "B d = Some e \<Longrightarrow> found_at e addr \<Longrightarrow> extent_lock_from_addr addr False s = Some d"
    "extent_lock_from_addr addr io s = Some d \<Longrightarrow> unat addr div 4096 < 2 ^ 36 \<Longrightarrow>
      d \<in> uses {} B L \<and> unat addr \<in> bytes_of (es_mem s d)"
proof -
  note i = est_invD [OF assms]
  show "extent_lock_from_addr addr False s = Some d" if d: "B d = Some e" and f: "found_at e addr"
  proof -
    have m: "es_mem s d = e" "d \<in> uses {} B L" using i(7) d by (auto simp: roles_def uses_def)
    have ok: "ext_ok e" using geoD(4) [OF i(4) m(2)] m(1) by simp
    have "d \<in> slabs B \<longleftrightarrow> extent_slab_get e" using d by (simp add: slabs_def)
    from found_covers [OF ok this, of addr] f have c: "covers (slabs B) d (es_mem s d) (unat addr div 4096)" using m(1) by simp
    have n: "unat addr div 4096 < 2 ^ 35" using bytes_pages(1) [OF ok, of addr] f ext_okD(6) [OF ok] by (simp add: found_at_def)
    then have "own (es_pages s) (unat addr div 4096) = Some d" using geoD(6) [OF i(4)] m(2) c by simp
    then show ?thesis using page_number_div [of addr] n
      by (auto simp: extent_lock_from_addr_def own_def split: option.splits)
  qed
  assume l: "extent_lock_from_addr addr io s = Some d" and n: "unat addr div 4096 < 2 ^ 36"
  have "own (es_pages s) (unat addr div 4096) = Some d" by (rule lock_owned [OF l]) (rule page_number_div [OF n])
  then have c: "d \<in> uses {} B L" "covers (slabs B) d (es_mem s d) (unat addr div 4096)"
    using geoD(6) [OF i(4), of "unat addr div 4096" d] n by auto
  have ok: "ext_ok (es_mem s d)" by (rule geoD(4) [OF i(4) c(1)])
  show "d \<in> uses {} B L \<and> unat addr \<in> bytes_of (es_mem s d)"
    using c covers_within [OF ok c(2)] bytes_pages(1) [OF ok, of addr] by simp
qed

lemma held_desc: "run_inv en s B \<Longrightarrow> B d = Some e \<Longrightarrow> es_mem s d = e \<and> ext_ok e"
proof -
  assume "run_inv en s B" and d: "B d = Some e"
  then obtain V L where i: "est_inv en s {} B (slabs B) V L" by (auto simp: run_inv_def)
  have "es_mem s d = e" "d \<in> uses {} B L" using est_invD(7) [OF i] d by (auto simp: roles_def uses_def)
  with geoD(4) [OF est_invD(4) [OF i]] show ?thesis by auto
qed

lemma held_disjoint:
  assumes "run_inv en s B" "B d = Some e" "B d' = Some e'" "d \<noteq> d'"
  shows "bytes_of e \<inter> bytes_of e' = {}"
proof -
  obtain V L where i: "est_inv en s {} B (slabs B) V L" using assms(1) by (auto simp: run_inv_def)
  note h = held_desc [OF assms(1,2)] held_desc [OF assms(1,3)]
  have "apart (es_mem s d) (es_mem s d')"
    by (rule geoD(5) [OF est_invD(4) [OF i] _ _ assms(4)]) (use assms(2,3) in \<open>auto simp: uses_def\<close>)
  with h apart_bytes [of "es_mem s d" "es_mem s d'"] show ?thesis by simp
qed

lemma cached_apart:
  assumes "run_inv en s B" "k \<noteq> extent_state_active" "d \<in> set (ex_lru (es_ex s k))" "B d' = Some e'"
  shows "d \<noteq> d' \<and> bytes_of (es_mem s d) \<inter> bytes_of e' = {}"
proof -
  obtain V L where i: "est_inv en s {} B (slabs B) V L" using assms(1) by (auto simp: run_inv_def)
  have "ex_lru (es_ex s k) = L k" using est_invD(6) [OF i] assms(2) by (simp add: conts_def extents_inv_def)
  then have m: "d \<in> members L" using assms(3) in_members [of d L k] by simp
  have ne: "d \<noteq> d'" using partsD(2) [OF i m] assms(4) by auto
  have u: "d \<in> uses {} B L" "d' \<in> uses {} B L" using m assms(4) by (auto simp: uses_def)
  have "ext_ok (es_mem s d)" "apart (es_mem s d) (es_mem s d')"
    using geoD(4,5) [OF est_invD(4) [OF i]] u ne by blast+
  with held_desc [OF assms(1,4)] ne apart_bytes [of "es_mem s d" "es_mem s d'"] show ?thesis by simp
qed

text \<open>C1: in every state that the extents of an arena reach, from any start with empty collections,
  by allocating from the collections and from the hooks, freeing, evicting, splitting and merging: an
  extent that is held has the descriptor its holder gave or got, is found by \<open>extent_lock_from_addr\<close>
  from its first and last page, and as a slab from every page; no two held extents share a byte, nor
  does a held one with an extent of a collection; and whatever the look-up of an address returns
  contains the address.\<close>

theorem extents_safe:
  assumes "extents_reach en s B"
  shows "(\<forall>d e. B d = Some e \<longrightarrow> es_mem s d = e \<and> (\<forall>addr. found_at e addr \<longrightarrow> extent_lock_from_addr addr False s = Some d))
    \<and> (\<forall>d e d' e'. B d = Some e \<and> B d' = Some e' \<and> d \<noteq> d' \<longrightarrow> bytes_of e \<inter> bytes_of e' = {})
    \<and> (\<forall>k d d' e'. k \<noteq> extent_state_active \<and> d \<in> set (ex_lru (es_ex s k)) \<and> B d' = Some e' \<longrightarrow>
        d \<noteq> d' \<and> bytes_of (es_mem s d) \<inter> bytes_of e' = {})
    \<and> (\<forall>addr io d. extent_lock_from_addr addr io s = Some d \<and> unat addr < 2 ^ 48 \<longrightarrow> unat addr \<in> bytes_of (es_mem s d))"
proof -
  note inv = reach_inv [OF assms]
  obtain V L where i: "est_inv en s {} B (slabs B) V L" using inv by (auto simp: run_inv_def)
  have "unat addr \<in> bytes_of (es_mem s d)" if "extent_lock_from_addr addr io s = Some d" "unat addr < 2 ^ 48" for addr io d
    using lookup_owner(2) [OF i that(1)] that(2) by (simp add: div_less_iff_less_mult)
  with held_desc [OF inv] lookup_owner(1) [OF i] held_disjoint [OF inv] cached_apart [OF inv] show ?thesis by blast
qed

theorem extents_safe_witness:
  "\<exists>en s0 s B. extents_started en s0 one_held \<and> (extent_step en)\<^sup>*\<^sup>* (s0, one_held) (s, B) \<and> B 1 = Some one_desc \<and> B 2 \<noteq> None
    \<and> (\<forall>addr. found_at one_desc addr \<longrightarrow> extent_lock_from_addr addr False s = Some 1)
    \<and> bytes_of one_desc \<inter> bytes_of (the (B 2)) = {}"
proof -
  obtain t ex where st: "extents_started (one_env t) (one_state ex) one_held"
    "est_inv (one_env t) (one_state ex) {} one_held {} {} (\<lambda>_. [])" by (rule one_start)
  note oa = one_alloc [OF st(2)]
  obtain z c s where al: "extent_alloc_wrapper (one_env t) 0 4096 0 (2 ^ 0) False 0 False True (one_state ex) = Some ((Some 2, z, c), s)"
    using oa(3) by blast
  let ?B = "handed (Some 2) s one_held"
  have "extent_step (one_env t) (one_state ex, one_held) (s, ?B)"
    by (rule extent_step.alloc_wrapper [OF oa(1) _ _ oa(2) al]) simp_all
  then have run: "(extent_step (one_env t))\<^sup>*\<^sup>* (one_state ex, one_held) (s, ?B)" by blast
  with st(1) have re: "extents_reach (one_env t) s ?B" unfolding extents_reach_def by blast
  have B: "?B 1 = Some one_desc" "?B 2 = Some (es_mem s 2)" "(1::uintptr) \<noteq> 2" by (simp_all add: handed_def one_held_def)
  note sf = extents_safe [OF re]
  have "\<forall>addr. found_at one_desc addr \<longrightarrow> extent_lock_from_addr addr False s = Some 1"
    using conjunct1 [OF sf, THEN spec, THEN spec, THEN mp, OF B(1)] by (rule conjunct2)
  moreover have "bytes_of one_desc \<inter> bytes_of (the (?B 2)) = {}"
    unfolding B(2) option.sel
    by (rule conjunct1 [OF conjunct2 [OF sf], THEN spec, THEN spec, THEN spec, THEN spec, THEN mp, OF conjI [OF B(1) conjI [OF B(2,3)]]])
  moreover have "?B 2 \<noteq> None" using B(2) by simp
  ultimately show ?thesis using st(1) run B(1) by blast
qed

text \<open>What an allocation that succeeds is: new to the holders, of this arena, of the size and alignment
  asked for and away from everything held, which stays as it was.\<close>

definition grants :: "extent_env \<Rightarrow> held \<Rightarrow> size_t \<Rightarrow> size_t \<Rightarrow> nat \<Rightarrow> bool \<Rightarrow> szind \<Rightarrow> uintptr
    \<Rightarrow> uintptr option \<Rightarrow> estate \<Rightarrow> bool" where
  "grants en B req pad a slab szind new_addr r s \<longleftrightarrow> (\<forall>d x. B d = Some x \<longrightarrow> es_mem s d = x)
     \<and> (\<forall>e. r = Some e \<longrightarrow> e \<notin> dom B \<and> active_desc en (es_mem s e) \<and> granted (es_mem s e) req pad a slab szind (at_end B new_addr)
         \<and> (\<forall>d x. B d = Some x \<longrightarrow> bytes_of (es_mem s e) \<inter> bytes_of x = {}))"

lemma result_grants:
  assumes "alloc_result en B (slabs B) req pad a slab szind (at_end B new_addr) r s"
  shows "grants en B req pad a slab szind new_addr r s"
proof (cases r)
  case None
  with alloc_inv [OF assms] held_desc [of en s B] show ?thesis by (simp add: grants_def handed_def)
next
  case (Some e)
  note inv = alloc_inv [OF assms]
  from assms Some obtain I V L where e: "est_inv en s {e} B I V L" "granted (es_mem s e) req pad a slab szind (at_end B new_addr)"
    by (auto simp: alloc_result_def)
  have eB: "e \<notin> dom B" using partsD(1) [OF e(1)] by blast
  have h: "(handed r s B) e = Some (es_mem s e)" "\<And>d x. B d = Some x \<Longrightarrow> d \<noteq> e \<and> (handed r s B) d = Some x"
    using eB Some by (auto simp: handed_def)
  have "es_mem s d = x \<and> bytes_of (es_mem s e) \<inter> bytes_of x = {}" if "B d = Some x" for d x
    using held_desc [OF inv, of d x] held_disjoint [OF inv h(1), of d x] h(2) [OF that] by auto
  then show ?thesis using active_in [OF e(1)] e(2) eB Some by (auto simp: grants_def)
qed

lemma reach_step: "extents_reach en s B \<Longrightarrow> extent_step en (s, B) (s', B') \<Longrightarrow> extents_reach en s' B'"
  unfolding extents_reach_def by (meson rtranclp.rtrancl_into_rtrancl)

text \<open>C3: in every reachable state a request of a positive page-aligned size below the largest class,
  aligned to a power of two, returns, from a collection as well as from the hooks: either no extent, or
  one that is new to all holders, active, of the padded size, its base and its address aligned as asked,
  with the slab flag and the size class asked for, at the address asked for where that is the end of a
  held extent, and without a byte in common with any extent held before; these keep their descriptors.\<close>

theorem extents_alloc_grants:
  assumes "extents_reach en s B" "request (req + pad) a" "new_addr \<noteq> 0 \<longrightarrow> a \<le> 12" "unat szind \<le> SC_NSIZES"
  shows "(\<forall>k. k \<noteq> extent_state_active \<longrightarrow>
      (\<exists>r z c s'. extents_alloc en k new_addr req pad (2 ^ a) slab szind zero commit s = Some ((r, z, c), s')
        \<and> grants en B req pad a slab szind new_addr r s' \<and> extents_reach en s' (handed r s' B)))
    \<and> (hooks_kept en new_addr req pad a slab szind zero commit s \<longrightarrow>
      (\<exists>r z c s'. extent_alloc_wrapper en new_addr req pad (2 ^ a) slab szind zero commit s = Some ((r, z, c), s')
        \<and> grants en B req pad a slab szind new_addr r s' \<and> extents_reach en s' (handed r s' B)))"
proof (intro conjI allI impI)
  note inv = reach_inv [OF assms(1)]
  fix k assume k: "k \<noteq> extent_state_active"
  from alloc_run [OF inv k assms(2-4), of slab zero commit] obtain r z c s' where
    r: "extents_alloc en k new_addr req pad (2 ^ a) slab szind zero commit s = Some ((r, z, c), s')"
      "alloc_result en B (slabs B) req pad a slab szind (at_end B new_addr) r s'" by blast
  with reach_step [OF assms(1) extent_step.alloc [OF k assms(2-4) r(1)]] result_grants [OF r(2)]
  show "\<exists>r z c s'. extents_alloc en k new_addr req pad (2 ^ a) slab szind zero commit s = Some ((r, z, c), s')
        \<and> grants en B req pad a slab szind new_addr r s' \<and> extents_reach en s' (handed r s' B)" by blast
next
  note inv = reach_inv [OF assms(1)]
  assume h: "hooks_kept en new_addr req pad a slab szind zero commit s"
  from wrapper_run [OF inv assms(2-4) h] obtain r z c s' where
    r: "extent_alloc_wrapper en new_addr req pad (2 ^ a) slab szind zero commit s = Some ((r, z, c), s')"
      "alloc_result en B (slabs B) req pad a slab szind (at_end B new_addr) r s'" by blast
  with reach_step [OF assms(1) extent_step.alloc_wrapper [OF assms(2-4) h r(1)]] result_grants [OF r(2)]
  show "\<exists>r z c s'. extent_alloc_wrapper en new_addr req pad (2 ^ a) slab szind zero commit s = Some ((r, z, c), s')
        \<and> grants en B req pad a slab szind new_addr r s' \<and> extents_reach en s' (handed r s' B)" by blast
qed

theorem extents_alloc_grants_witness:
  "\<exists>en s s' z c. extents_reach en s one_held
    \<and> extent_alloc_wrapper en 0 4096 0 1 False 0 False True s = Some ((Some 2, z, c), s')
    \<and> grants en one_held 4096 0 0 False 0 0 (Some 2) s'"
proof -
  obtain t ex where st: "extents_started (one_env t) (one_state ex) one_held"
    "est_inv (one_env t) (one_state ex) {} one_held {} {} (\<lambda>_. [])" by (rule one_start)
  have re: "extents_reach (one_env t) (one_state ex) one_held" using st(1) unfolding extents_reach_def by blast
  note oa = one_alloc [OF st(2)]
  have "(0::uintptr) \<noteq> 0 \<longrightarrow> (0::nat) \<le> 12" "unat (0::szind) \<le> SC_NSIZES" by simp_all
  from conjunct2 [OF extents_alloc_grants [OF re oa(1) this, of False False True]] oa(2,3) re show ?thesis by fastforce
qed

text \<open>C6: in every reachable state the calls that free or evict return, that is, coalescing comes to
  an end and every member, heap and counter that the code relies on is there: a held extent can be
  given back to any collection, or to the hooks, and is then held no more; and an eviction returns an
  extent unless the collection is empty or within the limit.\<close>

theorem extents_free_returns:
  assumes "extents_reach en s B"
  shows "(\<forall>k d e. k \<noteq> extent_state_active \<and> holds en B d e \<longrightarrow>
      (\<exists>s'. extents_dalloc en k d s = Some s' \<and> extents_reach en s' (B(d := None))))
    \<and> (\<forall>d e. holds en B d e \<and> extent_addr_get e = extent_base_get e \<longrightarrow>
      (\<exists>s'. extent_dalloc_wrapper en d s = Some s' \<and> extents_reach en s' (B(d := None))))
    \<and> (\<forall>k n. k \<noteq> extent_state_active \<longrightarrow> (\<exists>r s'. extents_evict en k n s = Some (r, s')
        \<and> (r = None \<longrightarrow> ex_lru (es_ex s' k) = [] \<or> extents_npages_get (es_ex s' k) \<le> n)))"
proof (intro conjI allI impI; (elim conjE)?)
  note inv = reach_inv [OF assms]
  fix k d e n
  show "\<exists>s'. extents_dalloc en k d s = Some s' \<and> extents_reach en s' (B(d := None))"
    if "k \<noteq> extent_state_active" "holds en B d e"
    using dalloc_run [OF inv that(2,1)] reach_step [OF assms] extent_step.dalloc [OF that] by blast
  show "\<exists>s'. extent_dalloc_wrapper en d s = Some s' \<and> extents_reach en s' (B(d := None))"
    if "holds en B d e" "extent_addr_get e = extent_base_get e"
    using dalloc_wrapper_run [OF inv that] reach_step [OF assms] extent_step.dalloc_wrapper [OF that] by blast
  show "\<exists>r s'. extents_evict en k n s = Some (r, s')
        \<and> (r = None \<longrightarrow> ex_lru (es_ex s' k) = [] \<or> extents_npages_get (es_ex s' k) \<le> n)"
    if "k \<noteq> extent_state_active" using evict_run [OF inv that, of n] by (auto split: option.splits)
qed

theorem extents_free_returns_witness:
  "\<exists>en s s'. extents_reach en s one_held \<and> extents_dalloc en extent_state_dirty 1 s = Some s' \<and> extents_reach en s' Map.empty"
proof -
  obtain t ex where st: "extents_started (one_env t) (one_state ex) one_held"
    "est_inv (one_env t) (one_state ex) {} one_held {} {} (\<lambda>_. [])" by (rule one_start)
  have re: "extents_reach (one_env t) (one_state ex) one_held" using st(1) unfolding extents_reach_def by blast
  have h: "holds (one_env t) one_held 1 one_desc" by (simp add: holds_def one_held_def active_desc_def one_get one_env_def)
  have "extent_state_dirty \<noteq> extent_state_active" "one_held(1 := None) = Map.empty" by (auto simp: one_held_def)
  with conjunct1 [OF extents_free_returns [OF re]] h re show ?thesis by metis
qed

end
