(* ===== verification/Smoothstep.thy ===== *)
theory Smoothstep
  imports Jem_Prelude
begin

text \<open>
  include/jemalloc/internal/smoothstep.h: the table of 200 fixed-point values, with 24 fractional
  bits, of the curve \<open>6 x ^ 5 - 15 x ^ 4 + 10 x ^ 3\<close>, by which the decay of unused pages is weighted.
\<close>

definition SMOOTHSTEP_NSTEPS :: nat where "SMOOTHSTEP_NSTEPS = 200"
definition SMOOTHSTEP_BFP :: nat where "SMOOTHSTEP_BFP = 24"

definition h_steps :: "uint64 list" where
  "h_steps =
    [
     0x14, 0xa5, 0x229, 0x516, 0x9dc, 0x10e8, 0x1aa4, 0x2777,
     0x37c2, 0x4be6, 0x643c, 0x811f, 0xa2e2, 0xc9d8, 0xf64f, 0x12891,
     0x160e7, 0x19f95, 0x1e4dc, 0x230fc, 0x28430, 0x2deb0, 0x340b1, 0x3aa67,
     0x41c00, 0x495a8, 0x5178b, 0x5a1cf, 0x63498, 0x6d009, 0x7743f, 0x82157,
     0x8d76b, 0x99691, 0xa5edf, 0xb3067, 0xc0b38, 0xcef5e, 0xddce6, 0xed3d8,
     0xfd439, 0x10de0e, 0x11f158, 0x130e17, 0x143448, 0x1563e7, 0x169cec, 0x17df4f,
     0x192b04, 0x1a8000, 0x1bde32, 0x1d458b, 0x1eb5f8, 0x202f65, 0x21b1bb, 0x233ce3,
     0x24d0c3, 0x266d40, 0x28123d, 0x29bf9c, 0x2b753d, 0x2d32fe, 0x2ef8bc, 0x30c654,
     0x329b9f, 0x347875, 0x365cb0, 0x384825, 0x3a3aa8, 0x3c340f, 0x3e342b, 0x403ace,
     0x4247c8, 0x445ae9, 0x467400, 0x4892d8, 0x4ab740, 0x4ce102, 0x4f0fe9, 0x5143bf,
     0x537c4d, 0x55b95b, 0x57fab1, 0x5a4015, 0x5c894e, 0x5ed622, 0x612655, 0x6379ac,
     0x65cfeb, 0x6828d6, 0x6a842f, 0x6ce1bb, 0x6f413a, 0x71a270, 0x74051d, 0x766905,
     0x78cde7, 0x7b3387, 0x7d99a4, 0x800000, 0x82665b, 0x84cc78, 0x873218, 0x8996fa,
     0x8bfae2, 0x8e5d8f, 0x90bec5, 0x931e44, 0x957bd0, 0x97d729, 0x9a3014, 0x9c8653,
     0x9ed9aa, 0xa129dd, 0xa376b1, 0xa5bfea, 0xa8054e, 0xaa46a4, 0xac83b2, 0xaebc40,
     0xb0f016, 0xb31efd, 0xb548bf, 0xb76d27, 0xb98c00, 0xbba516, 0xbdb837, 0xbfc531,
     0xc1cbd4, 0xc3cbf0, 0xc5c557, 0xc7b7da, 0xc9a34f, 0xcb878a, 0xcd6460, 0xcf39ab,
     0xd10743, 0xd2cd01, 0xd48ac2, 0xd64063, 0xd7edc2, 0xd992bf, 0xdb2f3c, 0xdcc31c,
     0xde4e44, 0xdfd09a, 0xe14a07, 0xe2ba74, 0xe421cd, 0xe58000, 0xe6d4fb, 0xe820b0,
     0xe96313, 0xea9c18, 0xebcbb7, 0xecf1e8, 0xee0ea7, 0xef21f1, 0xf02bc6, 0xf12c27,
     0xf22319, 0xf310a1, 0xf3f4c7, 0xf4cf98, 0xf5a120, 0xf6696e, 0xf72894, 0xf7dea8,
     0xf88bc0, 0xf92ff6, 0xf9cb67, 0xfa5e30, 0xfae874, 0xfb6a57, 0xfbe400, 0xfc5598,
     0xfcbf4e, 0xfd214f, 0xfd7bcf, 0xfdcf03, 0xfe1b23, 0xfe606a, 0xfe9f18, 0xfed76e,
     0xff09b0, 0xff3627, 0xff5d1d, 0xff7ee0, 0xff9bc3, 0xffb419, 0xffc83d, 0xffd888,
     0xffe55b, 0xffef17, 0xfff623, 0xfffae9, 0xfffdd6, 0xffff5a, 0xffffeb, 0x1000000]"

text \<open>The curve at \<open>x = i / 200\<close>, scaled by \<open>200 ^ 5\<close>.\<close>

definition smootherstep :: "nat \<Rightarrow> nat" where
  "smootherstep i = 6 * i ^ 5 + 10 * 200 ^ 2 * i ^ 3 - 15 * 200 * i ^ 4"

lemma length_h_steps: "length h_steps = 200" by (simp add: h_steps_def)

lemma h_steps_exact: "map unat h_steps = map (\<lambda>i. 2 ^ 24 * smootherstep i div 200 ^ 5) [1..<201]"
proof -
  have "[1..<201] = 1 # [2..<201]" by (simp add: upt_conv_Cons)
  then show ?thesis by (simp add: h_steps_def smootherstep_def upt_rec_numeral)
qed

lemma h_steps_sorted: "sorted h_steps"
  unfolding h_steps_def by (simp only: sorted2 sorted1) simp

text \<open>C27: the 200 entries of the table are the values of the curve at \<open>1 / 200\<close>, ..., \<open>1\<close>, rounded down to 24
  fractional bits; they increase to exactly one.\<close>

theorem h_steps_smootherstep:
  "length h_steps = SMOOTHSTEP_NSTEPS \<and> sorted h_steps \<and> last h_steps = 2 ^ SMOOTHSTEP_BFP
    \<and> map unat h_steps = map (\<lambda>i. 2 ^ SMOOTHSTEP_BFP * smootherstep i div SMOOTHSTEP_NSTEPS ^ 5) [1..<SMOOTHSTEP_NSTEPS + 1]"
proof -
  have "last h_steps = 16777216" by (simp add: h_steps_def)
  with length_h_steps h_steps_sorted h_steps_exact show ?thesis
    by (simp add: SMOOTHSTEP_NSTEPS_def SMOOTHSTEP_BFP_def)
qed

end
