(* ===== verification/Decay.thy ===== *)
theory Decay
  imports Smoothstep Nstime Prng "HOL-Library.Monad_Syntax"
begin

text \<open>
  src/arena.c, the timing part of decay: epochs with randomized deadlines, and the backlog of the
  pages that became unused in the last 200 epochs, from which the limit of unpurged pages is computed.
  What the clock reads and the number of unused pages are arguments.
\<close>

section \<open>Definitions\<close>

text \<open>The value of \<open>time_ms\<close>, of type \<open>ssize_t\<close>, is an \<open>int\<close>; \<open>dc_self\<close> is the address of the struct.\<close>

record arena_decay =
  dc_self :: uint64
  dc_purging :: bool
  dc_time_ms :: int
  dc_interval :: nstime
  dc_epoch :: nstime
  dc_jitter_state :: uint64
  dc_deadline :: nstime
  dc_nunpurged :: size_t
  dc_backlog :: "size_t list"

definition arena_decay_ms_read :: "arena_decay \<Rightarrow> int" where
  "arena_decay_ms_read decay = dc_time_ms decay"

definition arena_decay_ms_write :: "arena_decay \<Rightarrow> int \<Rightarrow> arena_decay" where
  "arena_decay_ms_write decay decay_ms = decay\<lparr>dc_time_ms := decay_ms\<rparr>"

definition arena_decay_deadline_init :: "arena_decay \<Rightarrow> arena_decay option" where
  "arena_decay_deadline_init decay =
     (let decay = decay\<lparr>dc_deadline := nstime_copy (dc_deadline decay) (dc_epoch decay)\<rparr>;
          decay = decay\<lparr>dc_deadline := nstime_add (dc_deadline decay) (dc_interval decay)\<rparr>
      in if arena_decay_ms_read decay > 0
         then do {
           (r, state) \<leftarrow> prng_range_u64 (dc_jitter_state decay) (nstime_ns (dc_interval decay));
           let jitter = nstime_init \<lparr>ns = 0\<rparr> r;
           Some (decay\<lparr>dc_jitter_state := state, dc_deadline := nstime_add (dc_deadline decay) jitter\<rparr>)
         }
         else Some decay)"

definition arena_decay_deadline_reached :: "arena_decay \<Rightarrow> nstime \<Rightarrow> bool" where
  "arena_decay_deadline_reached decay time \<longleftrightarrow> nstime_compare (dc_deadline decay) time \<le> 0"

definition arena_decay_backlog_npages_limit :: "arena_decay \<Rightarrow> size_t" where
  "arena_decay_backlog_npages_limit decay =
     drop_bit SMOOTHSTEP_BFP
       (fold (\<lambda>i sum. sum + dc_backlog decay ! i * h_steps ! i) [0..<SMOOTHSTEP_NSTEPS] 0)"

definition arena_decay_backlog_update_last :: "arena_decay \<Rightarrow> size_t \<Rightarrow> arena_decay" where
  "arena_decay_backlog_update_last decay current_npages =
     (let npages_delta = (if current_npages > dc_nunpurged decay then current_npages - dc_nunpurged decay else 0)
      in decay\<lparr>dc_backlog := (dc_backlog decay)[SMOOTHSTEP_NSTEPS - 1 := npages_delta]\<rparr>)"

text \<open>\<open>memset\<close> and \<open>memmove\<close> on the array.\<close>

definition backlog_clear :: "nat \<Rightarrow> nat \<Rightarrow> size_t list \<Rightarrow> size_t list" where
  "backlog_clear i n backlog = take i backlog @ replicate n 0 @ drop (i + n) backlog"

definition backlog_move :: "nat \<Rightarrow> size_t list \<Rightarrow> size_t list" where
  "backlog_move n backlog = drop n backlog @ drop (SMOOTHSTEP_NSTEPS - n) backlog"

definition arena_decay_backlog_update :: "arena_decay \<Rightarrow> uint64 \<Rightarrow> size_t \<Rightarrow> arena_decay" where
  "arena_decay_backlog_update decay nadvance_u64 current_npages =
     (let decay =
        (if nadvance_u64 \<ge> of_nat SMOOTHSTEP_NSTEPS
         then decay\<lparr>dc_backlog := backlog_clear 0 (SMOOTHSTEP_NSTEPS - 1) (dc_backlog decay)\<rparr>
         else
           let nadvance_z = unat nadvance_u64;
               decay = decay\<lparr>dc_backlog := backlog_move nadvance_z (dc_backlog decay)\<rparr>
           in if nadvance_z > 1
              then decay\<lparr>dc_backlog := backlog_clear (SMOOTHSTEP_NSTEPS - nadvance_z) (nadvance_z - 1) (dc_backlog decay)\<rparr>
              else decay)
      in arena_decay_backlog_update_last decay current_npages)"

text \<open>The assertions of the code are branches to \<open>None\<close>: that the deadline is reached, that at least
  one interval has passed, and the one in \<open>nstime_imultiply\<close>.\<close>

definition arena_decay_epoch_advance_helper :: "arena_decay \<Rightarrow> nstime \<Rightarrow> size_t \<Rightarrow> arena_decay option" where
  "arena_decay_epoch_advance_helper decay time current_npages =
     (if \<not> arena_decay_deadline_reached decay time then None
      else do {
        let delta = nstime_subtract (nstime_copy \<lparr>ns = 0\<rparr> time) (dc_epoch decay);
        nadvance_u64 \<leftarrow> nstime_divide delta (dc_interval decay);
        if nadvance_u64 = 0 \<or> \<not> imultiply_assert (dc_interval decay) nadvance_u64 then None
        else do {
          let delta = nstime_imultiply (nstime_copy delta (dc_interval decay)) nadvance_u64;
          decay \<leftarrow> arena_decay_deadline_init (decay\<lparr>dc_epoch := nstime_add (dc_epoch decay) delta\<rparr>);
          Some (arena_decay_backlog_update decay nadvance_u64 current_npages)
        }
      })"

text \<open>\<open>arena_decay_epoch_advance\<close> up to the decision to purge: the new limit comes with the state.\<close>

definition decay_epoch_step :: "arena_decay \<Rightarrow> nstime \<Rightarrow> size_t \<Rightarrow> (size_t \<times> arena_decay) option" where
  "decay_epoch_step decay time current_npages = do {
     decay \<leftarrow> arena_decay_epoch_advance_helper decay time current_npages;
     let npages_limit = arena_decay_backlog_npages_limit decay;
     Some (npages_limit, decay\<lparr>dc_nunpurged := (if npages_limit > current_npages then npages_limit else current_npages)\<rparr>)
   }"

text \<open>\<open>clock\<close> is what \<open>nstime_update\<close> reads.\<close>

definition arena_decay_reinit :: "uint64 \<times> uint64 \<Rightarrow> arena_decay \<Rightarrow> int \<Rightarrow> arena_decay option" where
  "arena_decay_reinit clock decay decay_ms = do {
     let decay = arena_decay_ms_write decay decay_ms;
     decay \<leftarrow> (if decay_ms > 0
       then do {
         let interval = nstime_init (dc_interval decay) (of_int decay_ms * 1000000);
         interval \<leftarrow> nstime_idivide interval (of_nat SMOOTHSTEP_NSTEPS);
         Some (decay\<lparr>dc_interval := interval\<rparr>)
       }
       else Some decay);
     let epoch = nstime_init (dc_epoch decay) 0;
     let decay = decay\<lparr>dc_epoch := snd (nstime_update_impl clock epoch), dc_jitter_state := dc_self decay\<rparr>;
     decay \<leftarrow> arena_decay_deadline_init decay;
     Some (decay\<lparr>dc_nunpurged := 0, dc_backlog := replicate SMOOTHSTEP_NSTEPS 0\<rparr>)
   }"

text \<open>A decay struct before its initialisation is zeroed memory; the mutex may fail to initialise.\<close>

definition arena_decay_zero :: "uint64 \<Rightarrow> arena_decay" where
  "arena_decay_zero self = \<lparr>dc_self = self, dc_purging = False, dc_time_ms = 0, dc_interval = \<lparr>ns = 0\<rparr>, dc_epoch = \<lparr>ns = 0\<rparr>,
     dc_jitter_state = 0, dc_deadline = \<lparr>ns = 0\<rparr>, dc_nunpurged = 0, dc_backlog = replicate SMOOTHSTEP_NSTEPS 0\<rparr>"

definition arena_decay_init :: "bool \<Rightarrow> uint64 \<times> uint64 \<Rightarrow> arena_decay \<Rightarrow> int \<Rightarrow> (bool \<times> arena_decay) option" where
  "arena_decay_init mutex_err clock decay decay_ms =
     (if mutex_err then Some (True, decay)
      else do {
        let decay = decay\<lparr>dc_purging := False\<rparr>;
        decay \<leftarrow> arena_decay_reinit clock decay decay_ms;
        Some (False, decay)
      })"

definition NSTIME_SEC_MAX :: uint64 where "NSTIME_SEC_MAX = 18446744072"

definition arena_decay_ms_valid :: "int \<Rightarrow> bool" where
  "arena_decay_ms_valid decay_ms =
     (if decay_ms < -1 then False
      else if decay_ms = -1 \<or> (of_int decay_ms :: uint64) \<le> NSTIME_SEC_MAX * 1000 then True
      else False)"

definition arena_decay_ms_get :: "arena_decay \<Rightarrow> int" where
  "arena_decay_ms_get decay = arena_decay_ms_read decay"

section \<open>The backlog in numbers\<close>

definition hs :: "nat \<Rightarrow> nat" where "hs i = unat (h_steps ! i)"

text \<open>The weighted sum, and its value in pages.\<close>

definition weight :: "size_t list \<Rightarrow> nat" where
  "weight b = (\<Sum>i<200. unat (b ! i) * hs i)"

lemma h_mono: "i \<le> j \<Longrightarrow> j < 200 \<Longrightarrow> hs i \<le> hs j"
  using sorted_nth_mono [OF h_steps_sorted, of i j] by (simp add: hs_def length_h_steps word_le_nat_alt)

lemma h_last: "hs 199 = 2 ^ 24"
proof -
  have "h_steps ! 199 = 16777216" by (simp add: h_steps_def)
  then show ?thesis by (simp add: hs_def)
qed

lemma h_le: "i < 200 \<Longrightarrow> hs i \<le> 2 ^ 24"
  using h_mono [of i 199] h_last by simp

lemma fold_weight:
  assumes "(\<Sum>i<n. unat (b ! i) * unat (c ! i)) < 2 ^ 64"
  shows "unat (fold (\<lambda>i sum. sum + b ! i * c ! i) [0..<n] (0 :: 64 word)) = (\<Sum>i<n. unat (b ! i) * unat (c ! i))"
  using assms
proof (induction n)
  case (Suc n)
  have m: "unat (b ! n) * unat (c ! n) < 2 ^ 64" "(\<Sum>i<n. unat (b ! i) * unat (c ! i)) < 2 ^ 64" using Suc.prems by simp_all
  then have "unat (b ! n * c ! n) = unat (b ! n) * unat (c ! n)" by (intro unat_mult_eq) simp_all
  with Suc.IH [OF m(2)] Suc.prems show ?case by (simp add: unat_add_eq)
qed simp

lemma limit_weight:
  assumes "weight (dc_backlog d) < 2 ^ 64"
  shows "unat (arena_decay_backlog_npages_limit d) = weight (dc_backlog d) div 2 ^ 24"
  using fold_weight [where n = 200 and b = "dc_backlog d" and c = h_steps] assms
  by (simp add: arena_decay_backlog_npages_limit_def weight_def hs_def SMOOTHSTEP_NSTEPS_def SMOOTHSTEP_BFP_def unat_drop_bit_div)

text \<open>Advancing by \<open>n\<close> intervals.\<close>

definition advanced :: "nat \<Rightarrow> size_t \<Rightarrow> size_t list \<Rightarrow> size_t list" where
  "advanced n delta b = map (\<lambda>i. if i = 199 then delta else if i + n < 200 then b ! (i + n) else 0) [0..<200]"

lemma update_advanced:
  assumes "length (dc_backlog d) = 200" "nadvance \<noteq> 0"
  shows "arena_decay_backlog_update d nadvance npages = d\<lparr>dc_backlog := advanced (unat nadvance)
    (if npages > dc_nunpurged d then npages - dc_nunpurged d else 0) (dc_backlog d)\<rparr>"
proof -
  have n0: "0 < unat nadvance" using assms(2) by (simp add: unat_gt_0)
  have w: "(200 \<le> nadvance) = (200 \<le> unat nadvance)"
    by (simp add: word_le_nat_alt)
  define delta where "delta = (if npages > dc_nunpurged d then npages - dc_nunpurged d else 0)"
  define b where "b = dc_backlog d"
  let ?n = "unat nadvance"
  define b1 where "b1 = (if 200 \<le> ?n then backlog_clear 0 199 b
    else if 1 < ?n then backlog_clear (200 - ?n) (?n - 1) (backlog_move ?n b) else backlog_move ?n b)"
  have l: "length b = 200" using assms(1) by (simp add: b_def)
  have "arena_decay_backlog_update d nadvance npages = d\<lparr>dc_backlog := b1[199 := delta]\<rparr>"
    by (simp add: arena_decay_backlog_update_def w Let_def arena_decay_backlog_update_last_def b1_def b_def delta_def
        SMOOTHSTEP_NSTEPS_def)
  moreover have "b1[199 := delta] = advanced ?n delta b"
  proof (rule nth_equalityI)
    show len: "length (b1[199 := delta]) = length (advanced ?n delta b)"
      using l n0 by (auto simp: b1_def advanced_def backlog_clear_def backlog_move_def SMOOTHSTEP_NSTEPS_def)
    fix i assume "i < length (b1[199 := delta])"
    then have i: "i < 200" using len by (simp add: advanced_def)
    show "b1[199 := delta] ! i = advanced ?n delta b ! i"
      using i l n0 len
      by (auto simp: b1_def advanced_def backlog_clear_def backlog_move_def SMOOTHSTEP_NSTEPS_def nth_append nth_list_update
          min_def add.commute)
  qed
  ultimately show ?thesis by (simp add: delta_def b_def)
qed

section \<open>The weight of an advanced backlog\<close>

lemma weight_advanced:
  assumes "length b = 200" "0 < n"
  shows "weight (advanced n delta b) \<le> weight b + unat delta * 2 ^ 24"
proof -
  let ?g = "\<lambda>i. unat (b ! i) * hs i"
  let ?f = "\<lambda>i. unat (advanced n delta b ! i) * hs i"
  have "?f i \<le> (if i + n < 200 then ?g (i + n) else 0)" if "i < 199" for i
    using that h_mono [of i "i + n"] by (simp add: advanced_def)
  then have "(\<Sum>i<199. ?f i) \<le> (\<Sum>i<199. if i + n < 200 then ?g (i + n) else 0)" by (intro sum_mono) simp
  also have "\<dots> = (\<Sum>i\<in>{i. i < 199 \<and> i + n < 200}. ?g (i + n))"
    by (simp add: sum.inter_filter [symmetric])
  also have "\<dots> = (\<Sum>j\<in>(\<lambda>i. i + n) ` {i. i < 199 \<and> i + n < 200}. ?g j)" by (simp add: sum.reindex)
  also have "\<dots> \<le> (\<Sum>j<200. ?g j)" by (rule sum_mono2) auto
  finally have "(\<Sum>i<199. ?f i) \<le> weight b" by (simp add: weight_def)
  moreover have "weight (advanced n delta b) = (\<Sum>i<199. ?f i) + ?f 199"
  proof -
    have "{..<200} = insert 199 {..<199::nat}" by auto
    then show ?thesis by (simp add: weight_def)
  qed
  moreover have "?f 199 = unat delta * 2 ^ 24" by (simp add: advanced_def h_last)
  ultimately show ?thesis by simp
qed

text \<open>The entries of the last \<open>m\<close> epochs are zero.\<close>

definition quiet_for :: "nat \<Rightarrow> size_t list \<Rightarrow> bool" where
  "quiet_for m b \<longleftrightarrow> (\<forall>i<200. 200 \<le> i + m \<longrightarrow> b ! i = 0)"

lemma quiet_advanced: "length b = 200 \<Longrightarrow> quiet_for m b \<Longrightarrow> 0 < n \<Longrightarrow> quiet_for (Suc m) (advanced n 0 b)"
  by (auto simp: quiet_for_def advanced_def)

lemma quiet_weight: "quiet_for 200 b \<Longrightarrow> weight b = 0"
  by (simp add: quiet_for_def weight_def)

section \<open>Runs\<close>

text \<open>A clock that is before the year 2262, and at most \<open>2 ^ 36\<close> pages.\<close>

definition clock_ok :: "uint64 \<times> uint64 \<Rightarrow> bool" where
  "clock_ok clock \<longleftrightarrow> ns (snd (nstime_update_impl clock \<lparr>ns = 0\<rparr>)) < 2 ^ 63"

inductive decay_run :: "arena_decay \<Rightarrow> bool" where
  init: "arena_decay_ms_valid decay_ms \<Longrightarrow> clock_ok clock \<Longrightarrow> decay_ms < 2 ^ 63 \<Longrightarrow>
    arena_decay_init False clock (arena_decay_zero self) decay_ms = Some (err, d) \<Longrightarrow> decay_run d"
| reinit: "decay_run d \<Longrightarrow> arena_decay_ms_valid decay_ms \<Longrightarrow> clock_ok clock \<Longrightarrow> decay_ms < 2 ^ 63 \<Longrightarrow>
    arena_decay_reinit clock d decay_ms = Some d' \<Longrightarrow> decay_run d'"
| epoch: "decay_run d \<Longrightarrow> 0 < arena_decay_ms_read d \<Longrightarrow> arena_decay_deadline_reached d time \<Longrightarrow> ns time < 2 ^ 63 \<Longrightarrow>
    npages \<le> 2 ^ 36 \<Longrightarrow> decay_epoch_step d time npages = Some (limit, d') \<Longrightarrow> decay_run d'"
| purging: "decay_run d \<Longrightarrow> decay_run (d\<lparr>dc_purging := b\<rparr>)"

text \<open>With a positive decay time the deadline is one to two intervals after the epoch.\<close>

definition times_ok :: "arena_decay \<Rightarrow> bool" where
  "times_ok d \<longleftrightarrow> 0 < ns (dc_interval d) \<and> unat (ns (dc_interval d)) < 2 ^ 57 \<and> ns (dc_epoch d) < 2 ^ 63
     \<and> unat (ns (dc_epoch d)) + unat (ns (dc_interval d)) \<le> unat (ns (dc_deadline d))
     \<and> unat (ns (dc_deadline d)) < unat (ns (dc_epoch d)) + 2 * unat (ns (dc_interval d))"

definition backlog_ok :: "arena_decay \<Rightarrow> bool" where
  "backlog_ok d \<longleftrightarrow> length (dc_backlog d) = 200 \<and> dc_nunpurged d \<le> 2 ^ 36
     \<and> weight (dc_backlog d) < (unat (dc_nunpurged d) + 1) * 2 ^ 24"

definition decay_inv :: "arena_decay \<Rightarrow> bool" where
  "decay_inv d \<longleftrightarrow> backlog_ok d \<and> (0 < dc_time_ms d \<longrightarrow> times_ok d)"

lemma deadline_init_ok:
  assumes "0 < dc_time_ms d" "1 < ns (dc_interval d)" "unat (ns (dc_interval d)) < 2 ^ 57" "ns (dc_epoch d) < 2 ^ 63"
  shows "\<exists>st dl. arena_decay_deadline_init d = Some (d\<lparr>dc_jitter_state := st, dc_deadline := dl\<rparr>)
    \<and> times_ok (d\<lparr>dc_jitter_state := st, dc_deadline := dl\<rparr>)"
proof -
  let ?i = "ns (dc_interval d)" and ?e = "ns (dc_epoch d)"
  have i: "?i \<le> 2 ^ 63" using assms(3) by (simp add: word_le_nat_alt)
  from range_u64_ends [OF assms(2) i, of "dc_jitter_state d"] obtain x st where
    x: "prng_range_u64 (dc_jitter_state d) ?i = Some (x, st)" "x < ?i" by blast
  have u: "unat ?e < 2 ^ 63" "unat x < unat ?i" "1 < unat ?i" using assms(2,4) x(2) by (simp_all add: word_less_nat_alt)
  have s1: "unat (?e + ?i) = unat ?e + unat ?i" using u assms(3) by (intro unat_add_eq) simp_all
  have s2: "unat (?e + ?i + x) = unat ?e + unat ?i + unat x" using u assms(3) s1 by (subst unat_add_eq) simp_all
  define dl where "dl = nstime_add (nstime_add (dc_epoch d) (dc_interval d)) (nstime_init \<lparr>ns = 0\<rparr> x)"
  have "ns dl = ?e + ?i + x" by (simp add: dl_def nstime_add_def nstime_init_def)
  with s2 u assms have "times_ok (d\<lparr>dc_jitter_state := st, dc_deadline := dl\<rparr>)"
    by (simp add: times_ok_def word_less_nat_alt)
  moreover have "arena_decay_deadline_init d = Some (d\<lparr>dc_jitter_state := st, dc_deadline := dl\<rparr>)"
    using assms(1) x(1) by (simp add: arena_decay_deadline_init_def arena_decay_ms_read_def nstime_ns_def nstime_copy_def
        dl_def Let_def)
  ultimately show ?thesis by blast
qed

text \<open>One epoch: the new epoch is the last one that began before the time, in multiples of the interval.\<close>

lemma epoch_times:
  assumes "times_ok d" "arena_decay_deadline_reached d time" "ns time < 2 ^ 63"
  shows "\<exists>n. nstime_divide (nstime_subtract (nstime_copy z time) (dc_epoch d)) (dc_interval d) = Some n \<and> n \<noteq> 0
    \<and> imultiply_assert (dc_interval d) n
    \<and> unat (ns (nstime_add (dc_epoch d) (nstime_imultiply (nstime_copy y (dc_interval d)) n)))
        = unat (ns (dc_epoch d)) + unat n * unat (ns (dc_interval d))
    \<and> unat (ns (dc_epoch d)) + unat n * unat (ns (dc_interval d)) \<le> unat (ns time)
    \<and> unat (ns time) < unat (ns (dc_epoch d)) + unat n * unat (ns (dc_interval d)) + unat (ns (dc_interval d))"
proof -
  let ?i = "ns (dc_interval d)" and ?e = "ns (dc_epoch d)" and ?t = "ns time"
  have k: "0 < unat ?i" "unat ?i < 2 ^ 57" "unat ?e + unat ?i \<le> unat (ns (dc_deadline d))"
    using assms(1) by (simp_all add: times_ok_def word_less_nat_alt)
  have "unat (ns (dc_deadline d)) \<le> unat ?t"
    using assms(2) by (simp add: arena_decay_deadline_reached_def nstime_compare_def word_less_nat_alt split: if_splits)
  then have et: "unat ?e + unat ?i \<le> unat ?t" using k(3) by simp
  have t63: "unat ?t < 2 ^ 63" using assms(3) by (simp add: word_less_nat_alt)
  have del: "unat (?t - ?e) = unat ?t - unat ?e" using et by (intro unat_diff_eq) simp
  define n where "n = (?t - ?e) div ?i"
  have n: "unat n = (unat ?t - unat ?e) div unat ?i" by (simp add: n_def unat_div del)
  have n1: "1 \<le> unat n" using et k(1) by (simp add: n less_eq_div_iff_mult_less_eq)
  have le: "unat n * unat ?i \<le> unat ?t - unat ?e" using n by simp
  have lt: "unat ?t - unat ?e < unat n * unat ?i + unat ?i"
    using k(1) by (simp add: n) (metis add.commute dividend_less_div_times)
  have m: "unat (?i * n) = unat ?i * unat n" using le t63 by (intro unat_mult_eq) (simp add: mult.commute)
  have "unat (?e + ?i * n) = unat ?e + unat n * unat ?i" using m le et t63 by (subst unat_add_eq) (simp_all add: mult.commute)
  moreover have "imultiply_assert (dc_interval d) n"
  proof -
    have "unat (?i * n div n) = unat ?i" using m n1 by (simp add: unat_div)
    then have "?i * n div n = ?i" by (simp add: word_unat_eq_iff)
    then show ?thesis by (simp add: imultiply_assert_def)
  qed
  moreover have "?i \<noteq> 0" using k(1) by auto
  moreover have "n \<noteq> 0" using n1 by auto
  moreover have "unat ?e + unat n * unat ?i \<le> unat ?t" "unat ?t < unat ?e + unat n * unat ?i + unat ?i"
    using le lt et by linarith+
  ultimately show ?thesis
    by (intro exI [of _ n])
      (simp add: nstime_divide_def nstime_subtract_def nstime_copy_def nstime_add_def nstime_imultiply_def n_def [symmetric])
qed

text \<open>The limit after new pages are counted is at most the larger of the old one and their number.\<close>

lemma weight_step:
  assumes "backlog_ok d" "npages \<le> 2 ^ 36" "0 < n"
    and b': "b' = advanced n (if npages > dc_nunpurged d then npages - dc_nunpurged d else 0) (dc_backlog d)"
  shows "weight b' \<le> weight (dc_backlog d) \<or> weight b' < (unat npages + 1) * 2 ^ 24"
    "npages \<le> dc_nunpurged d \<Longrightarrow> weight b' \<le> weight (dc_backlog d)" "weight b' < 2 ^ 62"
proof -
  have k: "length (dc_backlog d) = 200" "unat (dc_nunpurged d) \<le> 2 ^ 36"
    "weight (dc_backlog d) < (unat (dc_nunpurged d) + 1) * 2 ^ 24" using assms(1) by (simp_all add: backlog_ok_def word_le_nat_alt)
  have np: "unat npages \<le> 2 ^ 36" using assms(2) by (simp add: word_le_nat_alt)
  note w = weight_advanced [OF k(1) assms(3)]
  show le: "weight b' \<le> weight (dc_backlog d)" if "npages \<le> dc_nunpurged d"
    using w [of 0] that by (simp add: b' not_less [symmetric])
  have lt: "weight b' < (unat npages + 1) * 2 ^ 24" if n: "dc_nunpurged d < npages"
  proof -
    have u: "unat (npages - dc_nunpurged d) = unat npages - unat (dc_nunpurged d)" "unat (dc_nunpurged d) < unat npages"
      using n by (simp_all add: unat_diff_eq word_less_nat_alt)
    have "weight b' \<le> weight (dc_backlog d) + (unat npages - unat (dc_nunpurged d)) * 2 ^ 24"
      using w [of "npages - dc_nunpurged d"] n u(1) by (simp add: b')
    also have "\<dots> < (unat (dc_nunpurged d) + 1) * 2 ^ 24 + (unat npages - unat (dc_nunpurged d)) * 2 ^ 24" using k(3) by simp
    also have "\<dots> = (unat npages + 1) * 2 ^ 24" using u(2) by (simp add: algebra_simps)
    finally show ?thesis .
  qed
  then show "weight b' \<le> weight (dc_backlog d) \<or> weight b' < (unat npages + 1) * 2 ^ 24" using le by (cases "dc_nunpurged d < npages") auto
  with k(2,3) np show "weight b' < 2 ^ 62" by auto
qed

text \<open>The length of an interval in the code's reckoning.\<close>

definition steps_between :: "arena_decay \<Rightarrow> arena_decay \<Rightarrow> nat \<Rightarrow> bool" where
  "steps_between d d' n \<longleftrightarrow> unat (ns (dc_epoch d')) = unat (ns (dc_epoch d)) + n * unat (ns (dc_interval d))"

lemma step_ok:
  assumes "decay_inv d" "0 < dc_time_ms d" "1 < ns (dc_interval d)" "arena_decay_deadline_reached d time" "ns time < 2 ^ 63"
    and "npages \<le> 2 ^ 36"
  shows "\<exists>limit d' n. decay_epoch_step d time npages = Some (limit, d') \<and> decay_inv d'
    \<and> dc_time_ms d' = dc_time_ms d \<and> dc_interval d' = dc_interval d \<and> 0 < n \<and> steps_between d d' n
    \<and> ns (dc_epoch d') \<le> ns time \<and> unat (ns time) < unat (ns (dc_epoch d')) + unat (ns (dc_interval d))
    \<and> dc_backlog d' = advanced n (if npages > dc_nunpurged d then npages - dc_nunpurged d else 0) (dc_backlog d)
    \<and> unat limit = weight (dc_backlog d') div 2 ^ 24 \<and> dc_nunpurged d' = max limit npages
    \<and> limit = arena_decay_backlog_npages_limit d'"
proof -
  have t: "times_ok d" and b: "backlog_ok d" using assms(1,2) by (simp_all add: decay_inv_def)
  from epoch_times [OF t assms(4,5), of "\<lparr>ns = 0\<rparr>" "nstime_subtract (nstime_copy \<lparr>ns = 0\<rparr> time) (dc_epoch d)"] obtain n where
    n: "nstime_divide (nstime_subtract (nstime_copy \<lparr>ns = 0\<rparr> time) (dc_epoch d)) (dc_interval d) = Some n" "n \<noteq> 0"
      "imultiply_assert (dc_interval d) n"
      and e: "unat (ns (nstime_add (dc_epoch d) (nstime_imultiply (nstime_copy
          (nstime_subtract (nstime_copy \<lparr>ns = 0\<rparr> time) (dc_epoch d)) (dc_interval d)) n)))
        = unat (ns (dc_epoch d)) + unat n * unat (ns (dc_interval d))"
      "unat (ns (dc_epoch d)) + unat n * unat (ns (dc_interval d)) \<le> unat (ns time)"
      "unat (ns time) < unat (ns (dc_epoch d)) + unat n * unat (ns (dc_interval d)) + unat (ns (dc_interval d))" by blast
  define ep where "ep = nstime_add (dc_epoch d) (nstime_imultiply (nstime_copy
          (nstime_subtract (nstime_copy \<lparr>ns = 0\<rparr> time) (dc_epoch d)) (dc_interval d)) n)"
  define d1 where "d1 = d\<lparr>dc_epoch := ep\<rparr>"
  have d1: "0 < dc_time_ms d1" "1 < ns (dc_interval d1)" "unat (ns (dc_interval d1)) < 2 ^ 57" "ns (dc_epoch d1) < 2 ^ 63"
    using assms(2,3,5) t e(1,2) by (simp_all add: d1_def times_ok_def word_less_nat_alt ep_def)
  from deadline_init_ok [OF d1] obtain st dl where
    di: "arena_decay_deadline_init d1 = Some (d1\<lparr>dc_jitter_state := st, dc_deadline := dl\<rparr>)"
      "times_ok (d1\<lparr>dc_jitter_state := st, dc_deadline := dl\<rparr>)" by blast
  define d2 where "d2 = d1\<lparr>dc_jitter_state := st, dc_deadline := dl\<rparr>"
  define b' where "b' = advanced (unat n) (if npages > dc_nunpurged d then npages - dc_nunpurged d else 0) (dc_backlog d)"
  have n0: "0 < unat n" using n(2) by (simp add: unat_gt_0)
  have d2: "length (dc_backlog d2) = 200" "dc_nunpurged d2 = dc_nunpurged d" "dc_backlog d2 = dc_backlog d"
    using b by (simp_all add: d2_def d1_def backlog_ok_def)
  have up: "arena_decay_backlog_update d2 n npages = d2\<lparr>dc_backlog := b'\<rparr>"
    using update_advanced [OF d2(1) n(2), of npages] d2 by (simp add: b'_def)
  note w = weight_step [OF b assms(6) n0 b'_def]
  define limit where "limit = arena_decay_backlog_npages_limit (d2\<lparr>dc_backlog := b'\<rparr>)"
  have lim: "unat limit = weight b' div 2 ^ 24" using w(3) unfolding limit_def by (subst limit_weight) simp_all
  define d' where "d' = d2\<lparr>dc_backlog := b', dc_nunpurged := max limit npages\<rparr>"
  have "decay_epoch_step d time npages = Some (limit, d')"
    using assms(4) n di(1) up
    by (simp add: decay_epoch_step_def arena_decay_epoch_advance_helper_def Let_def ep_def [symmetric] d1_def [symmetric]
        d2_def [symmetric] limit_def [symmetric] d'_def max_def not_less [symmetric])
  moreover have "decay_inv d'"
  proof -
    have "weight b' < (unat (max limit npages) + 1) * 2 ^ 24"
    proof -
      have "weight b' < (weight b' div 2 ^ 24 + 1) * 2 ^ 24" by (metis add.commute dividend_less_div_times mult.commute mult_Suc plus_1_eq_Suc zero_less_numeral zero_less_power)
      also have "\<dots> \<le> (unat (max limit npages) + 1) * 2 ^ 24" using lim by (simp add: max_def word_le_nat_alt)
      finally show ?thesis .
    qed
    moreover have "max limit npages \<le> 2 ^ 36"
    proof -
      have "weight b' div 2 ^ 24 \<le> 2 ^ 36"
        using w(1) b assms(6) by (auto simp: backlog_ok_def word_le_nat_alt less_mult_imp_div_less)
      then show ?thesis using assms(6) lim by (simp add: word_le_nat_alt max_def)
    qed
    moreover have "length b' = 200" by (simp add: b'_def advanced_def)
    ultimately have "backlog_ok d'" by (simp add: backlog_ok_def d'_def)
    moreover have "times_ok d'" using di(2) by (simp add: d'_def d2_def times_ok_def)
    ultimately show ?thesis by (simp add: decay_inv_def)
  qed
  moreover have "dc_time_ms d' = dc_time_ms d" "dc_interval d' = dc_interval d" "dc_epoch d' = ep" "dc_backlog d' = b'"
    "dc_nunpurged d' = max limit npages"
    by (simp_all add: d'_def d2_def d1_def)
  moreover have "limit = arena_decay_backlog_npages_limit d'" by (simp add: limit_def d'_def arena_decay_backlog_npages_limit_def)
  ultimately show ?thesis using n0 e lim
    by (intro exI [of _ limit] exI [of _ d'] exI [of _ "unat n"])
      (simp add: steps_between_def ep_def b'_def word_le_nat_alt)
qed

lemma ns_set: "t\<lparr>ns := x\<rparr> = \<lparr>ns = x\<rparr>" for t :: nstime
  by (cases t) simp

lemma valid_ms:
  assumes "arena_decay_ms_valid decay_ms" "0 < decay_ms" "decay_ms < 2 ^ 63"
  shows "unat (of_int decay_ms * 1000000 :: uint64) = nat decay_ms * 1000000" "nat decay_ms \<le> 18446744072000"
proof -
  define m where "m = nat decay_ms"
  have dm: "decay_ms = int m" "m < 2 ^ 63" using assms(2,3) by (simp_all add: m_def)
  have u: "unat (of_nat m :: uint64) = m" using dm(2) by (intro unat_of_nat_eq) simp
  show le: "nat decay_ms \<le> 18446744072000"
    using assms(1) dm u by (simp add: arena_decay_ms_valid_def NSTIME_SEC_MAX_def word_le_nat_alt split: if_splits)
  show "unat (of_int decay_ms * 1000000 :: uint64) = nat decay_ms * 1000000"
    using u le dm by (subst unat_mult_eq) simp_all
qed

lemma reinit_ok:
  assumes "arena_decay_ms_valid decay_ms" "clock_ok clock" "decay_ms < 2 ^ 63"
  shows "\<exists>d'. arena_decay_reinit clock d decay_ms = Some d' \<and> decay_inv d' \<and> dc_time_ms d' = decay_ms
    \<and> (0 < decay_ms \<longrightarrow> 1 < ns (dc_interval d') \<and> unat (ns (dc_interval d')) = nat decay_ms * 5000
        \<and> dc_epoch d' = snd (nstime_update_impl clock \<lparr>ns = 0\<rparr>) \<and> dc_nunpurged d' = 0)"
proof -
  define ep where "ep = snd (nstime_update_impl clock (nstime_init (dc_epoch d) 0))"
  have ep: "ns ep < 2 ^ 63" using assms(2) by (simp add: ep_def clock_ok_def nstime_init_def ns_set)
  have z: "weight (replicate 200 0) = 0" by (simp add: weight_def)
  show ?thesis
  proof (cases "0 < decay_ms")
    case False
    then show ?thesis
      by (simp add: arena_decay_reinit_def arena_decay_ms_write_def arena_decay_deadline_init_def arena_decay_ms_read_def
          decay_inv_def backlog_ok_def z SMOOTHSTEP_NSTEPS_def Let_def)
  next
    case True
    note v = valid_ms [OF assms(1) True assms(3)]
    define i where "i = (of_int decay_ms * 1000000 :: uint64) div 200"
    have ui: "unat i = nat decay_ms * 1000000 div 200" by (simp add: i_def unat_div v(1))
    have i: "1 < i" "unat i < 2 ^ 57" using v(2) True unfolding word_less_nat_alt ui by (auto simp: div_less_iff_less_mult)
    define d1 where "d1 = d\<lparr>dc_time_ms := decay_ms, dc_interval := \<lparr>ns = i\<rparr>, dc_epoch := ep, dc_jitter_state := dc_self d\<rparr>"
    have "0 < dc_time_ms d1" "1 < ns (dc_interval d1)" "unat (ns (dc_interval d1)) < 2 ^ 57" "ns (dc_epoch d1) < 2 ^ 63"
      using True i ep by (simp_all add: d1_def)
    from deadline_init_ok [OF this] obtain st dl where
      di: "arena_decay_deadline_init d1 = Some (d1\<lparr>dc_jitter_state := st, dc_deadline := dl\<rparr>)"
        "times_ok (d1\<lparr>dc_jitter_state := st, dc_deadline := dl\<rparr>)" by blast
    define d' where "d' = d1\<lparr>dc_jitter_state := st, dc_deadline := dl, dc_nunpurged := 0, dc_backlog := replicate 200 0\<rparr>"
    have "arena_decay_reinit clock d decay_ms = Some d'"
      using True di(1) by (simp add: arena_decay_reinit_def arena_decay_ms_write_def nstime_idivide_def nstime_init_def ns_set
          SMOOTHSTEP_NSTEPS_def Let_def i_def [symmetric] ep_def [unfolded nstime_init_def ns_set, symmetric] d1_def d'_def)
    moreover have "times_ok d'" using di(2) by (simp add: d'_def times_ok_def)
    then have "decay_inv d'" by (simp add: decay_inv_def backlog_ok_def d'_def z)
    moreover have "dc_time_ms d' = decay_ms" "1 < ns (dc_interval d')" "unat (ns (dc_interval d')) = nat decay_ms * 5000"
      "dc_epoch d' = snd (nstime_update_impl clock \<lparr>ns = 0\<rparr>)" "dc_nunpurged d' = 0"
      using i ui by (simp_all add: d'_def d1_def ep_def nstime_init_def ns_set)
    ultimately show ?thesis by blast
  qed
qed

text \<open>All of it is invariant.\<close>

definition run_ok :: "arena_decay \<Rightarrow> bool" where
  "run_ok d \<longleftrightarrow> decay_inv d \<and> (0 < dc_time_ms d \<longrightarrow> 1 < ns (dc_interval d))"

lemma decay_run_ok: "decay_run d \<Longrightarrow> run_ok d"
proof (induction rule: decay_run.induct)
  case (init decay_ms clock self err d)
  with reinit_ok [OF init(1-3), of "arena_decay_zero self\<lparr>dc_purging := False\<rparr>"] show ?case
    by (auto simp: arena_decay_init_def run_ok_def)
next
  case (reinit d decay_ms clock d')
  with reinit_ok [of decay_ms clock d] show ?case by (auto simp: run_ok_def)
next
  case (epoch d time npages limit d')
  then have h: "decay_inv d" "0 < dc_time_ms d" "1 < ns (dc_interval d)" by (simp_all add: run_ok_def arena_decay_ms_read_def)
  from step_ok [OF h epoch(3-5)] epoch(6) h(3) show ?case by (auto simp: run_ok_def)
next
  case (purging d b)
  then show ?case by (simp add: run_ok_def decay_inv_def backlog_ok_def times_ok_def)
qed

lemma run_step:
  assumes "decay_run d" "0 < arena_decay_ms_read d" "arena_decay_deadline_reached d time" "ns time < 2 ^ 63" "npages \<le> 2 ^ 36"
  obtains limit d' n where "decay_epoch_step d time npages = Some (limit, d')" "decay_run d'"
    "dc_time_ms d' = dc_time_ms d" "dc_interval d' = dc_interval d" "0 < n" "steps_between d d' n"
    "ns (dc_epoch d') \<le> ns time" "unat (ns time) < unat (ns (dc_epoch d')) + unat (ns (dc_interval d))"
    "dc_backlog d' = advanced n (if npages > dc_nunpurged d then npages - dc_nunpurged d else 0) (dc_backlog d)"
    "unat limit = weight (dc_backlog d') div 2 ^ 24" "dc_nunpurged d' = max limit npages"
    "limit = arena_decay_backlog_npages_limit d'"
proof -
  have "decay_inv d" "0 < dc_time_ms d" "1 < ns (dc_interval d)"
    using decay_run_ok [OF assms(1)] assms(2) by (simp_all add: run_ok_def arena_decay_ms_read_def)
  from step_ok [OF this assms(3-5)] obtain limit d' n where r: "decay_epoch_step d time npages = Some (limit, d')"
    "dc_time_ms d' = dc_time_ms d" "dc_interval d' = dc_interval d" "0 < n" "steps_between d d' n"
    "ns (dc_epoch d') \<le> ns time" "unat (ns time) < unat (ns (dc_epoch d')) + unat (ns (dc_interval d))"
    "dc_backlog d' = advanced n (if npages > dc_nunpurged d then npages - dc_nunpurged d else 0) (dc_backlog d)"
    "unat limit = weight (dc_backlog d') div 2 ^ 24" "dc_nunpurged d' = max limit npages"
    "limit = arena_decay_backlog_npages_limit d'" by blast
  have "decay_run d'" using decay_run.epoch [OF assms r(1)] .
  with r that show thesis by blast
qed

lemma run_limit: "decay_run d \<Longrightarrow> unat (arena_decay_backlog_npages_limit d) = weight (dc_backlog d) div 2 ^ 24"
proof (rule limit_weight)
  assume "decay_run d"
  then have b: "backlog_ok d" using decay_run_ok by (simp add: run_ok_def decay_inv_def)
  have "weight (dc_backlog d) < (unat (dc_nunpurged d) + 1) * 2 ^ 24" using b by (simp add: backlog_ok_def)
  also have "\<dots> \<le> (2 ^ 36 + 1) * 2 ^ 24" using b by (simp add: backlog_ok_def word_le_nat_alt)
  finally show "weight (dc_backlog d) < 2 ^ 64" by simp
qed

section \<open>Properties\<close>

text \<open>An arena with a decay time of one millisecond, at the start of the clock.\<close>

lemma one_ms:
  obtains d where "decay_run d" "arena_decay_ms_read d = 1" "ns (dc_epoch d) = 0" "unat (ns (dc_interval d)) = 5000"
    "dc_nunpurged d = 0"
proof -
  have c: "clock_ok (0, 0)" "ns (snd (nstime_update_impl (0, 0) \<lparr>ns = 0\<rparr>)) = 0"
    by (simp_all add: clock_ok_def nstime_update_impl_def nstime_get_def nstime_init2_def nstime_compare_def nstime_copy_def Let_def)
  have v: "arena_decay_ms_valid 1" by (simp add: arena_decay_ms_valid_def NSTIME_SEC_MAX_def)
  from reinit_ok [OF v c(1), of "arena_decay_zero 0\<lparr>dc_purging := False\<rparr>"] obtain d where
    d: "arena_decay_reinit (0, 0) (arena_decay_zero 0\<lparr>dc_purging := False\<rparr>) 1 = Some d" "dc_time_ms d = 1"
      "unat (ns (dc_interval d)) = 5000" "ns (dc_epoch d) = 0" "dc_nunpurged d = 0" using c(2) by auto
  have "arena_decay_init False (0, 0) (arena_decay_zero 0) 1 = Some (False, d)" using d(1) by (simp add: arena_decay_init_def)
  then have "decay_run d" by (intro decay_run.init [OF v c(1)]) simp_all
  with d that show thesis by (simp add: arena_decay_ms_read_def)
qed

text \<open>At its deadline an arena is ready for the next epoch.\<close>

lemma deadline_due:
  assumes "decay_run d" "0 < arena_decay_ms_read d" "unat (ns (dc_epoch d)) + 2 * unat (ns (dc_interval d)) < 2 ^ 63"
  shows "arena_decay_deadline_reached d (dc_deadline d)" "ns (dc_deadline d) < 2 ^ 63"
    "unat (ns (dc_deadline d)) < unat (ns (dc_epoch d)) + 2 * unat (ns (dc_interval d))"
  using decay_run_ok [OF assms(1)] assms(2,3)
  by (simp_all add: arena_decay_deadline_reached_def nstime_compare_def run_ok_def decay_inv_def times_ok_def
      arena_decay_ms_read_def word_less_nat_alt)

text \<open>C19: in every state that the decay of an arena reaches with a positive decay time, an epoch advance
  at or after the deadline returns, that is, the assertions on the deadline, on the number of intervals
  and on their product hold and the jitter is drawn. The epoch moves by a positive number of whole
  intervals to less than one interval before the present, and the next deadline is one to two intervals
  after it. The limit is the weighted sum of the backlog without overflow, at most the larger of the
  limit before and the number of pages, which is what the debugging check on \<open>ceil_npages\<close> asserts.\<close>

theorem decay_epochs_correct:
  assumes "decay_run d" "0 < arena_decay_ms_read d" "arena_decay_deadline_reached d time" "ns time < 2 ^ 63" "npages \<le> 2 ^ 36"
  shows "\<exists>limit d' n. decay_epoch_step d time npages = Some (limit, d') \<and> decay_run d' \<and> 0 < n \<and> steps_between d d' n
    \<and> ns (dc_epoch d') \<le> ns time \<and> unat (ns time) < unat (ns (dc_epoch d')) + unat (ns (dc_interval d))
    \<and> unat (ns (dc_epoch d')) + unat (ns (dc_interval d)) \<le> unat (ns (dc_deadline d'))
    \<and> unat (ns (dc_deadline d')) < unat (ns (dc_epoch d')) + 2 * unat (ns (dc_interval d))
    \<and> unat limit = (\<Sum>i<200. unat (dc_backlog d' ! i) * unat (h_steps ! i)) div 2 ^ 24
    \<and> limit \<le> max (arena_decay_backlog_npages_limit d) npages"
proof -
  from assms obtain limit d' n where r: "decay_epoch_step d time npages = Some (limit, d')" "decay_run d'"
    "dc_time_ms d' = dc_time_ms d" "dc_interval d' = dc_interval d" "0 < n" "steps_between d d' n"
    "ns (dc_epoch d') \<le> ns time" "unat (ns time) < unat (ns (dc_epoch d')) + unat (ns (dc_interval d))"
    "dc_backlog d' = advanced n (if npages > dc_nunpurged d then npages - dc_nunpurged d else 0) (dc_backlog d)"
    "unat limit = weight (dc_backlog d') div 2 ^ 24" by (rule run_step)
  have "times_ok d'" using decay_run_ok [OF r(2)] assms(2) r(3)
    by (simp add: run_ok_def decay_inv_def arena_decay_ms_read_def)
  moreover have "limit \<le> max (arena_decay_backlog_npages_limit d) npages"
  proof -
    have b: "backlog_ok d" using decay_run_ok [OF assms(1)] by (simp add: run_ok_def decay_inv_def)
    have "unat limit \<le> weight (dc_backlog d) div 2 ^ 24 \<or> unat limit \<le> unat npages"
      using weight_step(1) [OF b assms(5) r(5,9)] unfolding r(10)
      by (auto intro: div_le_mono simp: less_Suc_eq_le [symmetric] less_mult_imp_div_less)
    then show ?thesis using run_limit [OF assms(1)] by (auto simp: word_le_nat_alt max_def)
  qed
  ultimately show ?thesis using r
    by (intro exI [of _ limit] exI [of _ d'] exI [of _ n]) (simp add: times_ok_def weight_def hs_def)
qed

theorem decay_epochs_correct_witness:
  "\<exists>d time limit d'. decay_run d \<and> arena_decay_ms_read d = 1 \<and> decay_epoch_step d time 1000 = Some (limit, d')
    \<and> ns (dc_epoch d') \<le> ns time \<and> limit \<le> max (arena_decay_backlog_npages_limit d) 1000"
proof -
  obtain d where d: "decay_run d" "arena_decay_ms_read d = 1" "ns (dc_epoch d) = 0" "unat (ns (dc_interval d)) = 5000"
    by (rule one_ms)
  have p: "0 < arena_decay_ms_read d" "unat (ns (dc_epoch d)) + 2 * unat (ns (dc_interval d)) < 2 ^ 63"
    using d by simp_all
  note due = deadline_due [OF d(1) p]
  have "(1000 :: size_t) \<le> 2 ^ 36" by (simp add: word_le_nat_alt)
  from decay_epochs_correct [OF d(1) p(1) due(1,2) this] d(1,2) show ?thesis by blast
qed

text \<open>Epochs in which no pages are added to the unpurged ones.\<close>

inductive quiet_run :: "nat \<Rightarrow> arena_decay \<Rightarrow> arena_decay \<Rightarrow> bool" where
  start: "quiet_run 0 d d"
| epoch: "quiet_run n d d' \<Longrightarrow> 0 < arena_decay_ms_read d' \<Longrightarrow> arena_decay_deadline_reached d' time \<Longrightarrow> ns time < 2 ^ 63 \<Longrightarrow>
    npages \<le> dc_nunpurged d' \<Longrightarrow> decay_epoch_step d' time npages = Some (limit, d'') \<Longrightarrow> quiet_run (Suc n) d d''"

lemma quiet_fades:
  assumes "quiet_run n d d'" "decay_run d"
  shows "decay_run d' \<and> weight (dc_backlog d') \<le> weight (dc_backlog d) \<and> quiet_for n (dc_backlog d')"
  using assms
proof (induction rule: quiet_run.induct)
  case (start d)
  then show ?case by (simp add: quiet_for_def)
next
  case (epoch n d d' time npages limit d'')
  then have d': "decay_run d'" "weight (dc_backlog d') \<le> weight (dc_backlog d)" "quiet_for n (dc_backlog d')" by simp_all
  have b: "backlog_ok d'" using decay_run_ok [OF d'(1)] by (simp add: run_ok_def decay_inv_def)
  then have l: "length (dc_backlog d') = 200" by (simp add: backlog_ok_def)
  have np: "npages \<le> 2 ^ 36" using epoch.hyps(5) b by (auto simp: backlog_ok_def)
  from run_step [OF d'(1) epoch.hyps(2-4) np] epoch.hyps(6) obtain m where
    m: "decay_run d''" "0 < m"
      "dc_backlog d'' = advanced m (if npages > dc_nunpurged d' then npages - dc_nunpurged d' else 0) (dc_backlog d')"
    by (metis Pair_inject option.inject)
  have "\<not> dc_nunpurged d' < npages" using epoch.hyps(5) by simp
  with m(3) have z: "dc_backlog d'' = advanced m 0 (dc_backlog d')" by simp
  from weight_advanced [OF l m(2), of 0] quiet_advanced [OF l d'(3) m(2)] m(1) z d'(2) show ?case by simp
qed

text \<open>C26: while no pages become unused beyond those already counted, the limit of unpurged pages never
  grows from one epoch to the next, and after 200 epochs it is zero.\<close>

theorem decay_fades:
  assumes "decay_run d" "quiet_run n d d'"
  shows "arena_decay_backlog_npages_limit d' \<le> arena_decay_backlog_npages_limit d
    \<and> (200 \<le> n \<longrightarrow> arena_decay_backlog_npages_limit d' = 0)"
proof -
  from quiet_fades [OF assms(2,1)] have q: "decay_run d'" "weight (dc_backlog d') \<le> weight (dc_backlog d)"
    "quiet_for n (dc_backlog d')" by simp_all
  have "weight (dc_backlog d') = 0" if "200 \<le> n"
    by (rule quiet_weight) (use q(3) that in \<open>simp add: quiet_for_def\<close>)
  then have "unat (arena_decay_backlog_npages_limit d') = 0" if "200 \<le> n" using run_limit [OF q(1)] that by simp
  then have "arena_decay_backlog_npages_limit d' = 0" if "200 \<le> n" using that by (simp only: unat_eq_zero)
  moreover have "unat (arena_decay_backlog_npages_limit d') \<le> unat (arena_decay_backlog_npages_limit d)"
    unfolding run_limit [OF q(1)] run_limit [OF assms(1)] by (rule div_le_mono [OF q(2)])
  ultimately show ?thesis by (simp only: word_le_nat_alt) blast
qed

lemma quiet_exists:
  assumes "decay_run d" "0 < arena_decay_ms_read d" "unat (ns (dc_interval d)) = i"
    "unat (ns (dc_epoch d)) + 2 * (n + 1) * i < 2 ^ 63"
  shows "\<exists>d'. quiet_run n d d' \<and> decay_run d' \<and> 0 < arena_decay_ms_read d' \<and> unat (ns (dc_interval d')) = i
    \<and> unat (ns (dc_epoch d')) \<le> unat (ns (dc_epoch d)) + 2 * n * i"
  using assms(4)
proof (induction n)
  case 0
  with assms show ?case using quiet_run.start by auto
next
  case (Suc n)
  then obtain d1 where d1: "quiet_run n d d1" "decay_run d1" "0 < arena_decay_ms_read d1" "unat (ns (dc_interval d1)) = i"
    "unat (ns (dc_epoch d1)) \<le> unat (ns (dc_epoch d)) + 2 * n * i" by (auto simp: algebra_simps)
  have b: "unat (ns (dc_epoch d1)) + 2 * unat (ns (dc_interval d1)) < 2 ^ 63"
    using d1(4,5) Suc.prems by (simp add: algebra_simps)
  note due = deadline_due [OF d1(2,3) b]
  have np: "(0 :: size_t) \<le> 2 ^ 36" "0 \<le> dc_nunpurged d1" by simp_all
  from run_step [OF d1(2,3) due(1,2) np(1)] obtain limit d2 where
    d2: "decay_epoch_step d1 (dc_deadline d1) 0 = Some (limit, d2)" "decay_run d2" "dc_time_ms d2 = dc_time_ms d1"
      "dc_interval d2 = dc_interval d1" "ns (dc_epoch d2) \<le> ns (dc_deadline d1)" by metis
  have "quiet_run (Suc n) d d2" by (rule quiet_run.epoch [OF d1(1,3) due(1,2) np(2) d2(1)])
  moreover have "unat (ns (dc_epoch d2)) \<le> unat (ns (dc_epoch d)) + 2 * Suc n * i"
    using d2(5) due(3) d1(4,5) by (simp add: word_le_nat_alt algebra_simps)
  ultimately show ?case using d2 d1(3,4) by (auto simp: arena_decay_ms_read_def)
qed

text \<open>A thousand pages that became unused in one epoch are to be purged 200 epochs later.\<close>

theorem decay_fades_witness:
  "\<exists>d d'. decay_run d \<and> quiet_run 200 d d' \<and> arena_decay_backlog_npages_limit d = 1000 \<and> arena_decay_backlog_npages_limit d' = 0"
proof -
  obtain d where d: "decay_run d" "arena_decay_ms_read d = 1" "ns (dc_epoch d) = 0" "unat (ns (dc_interval d)) = 5000"
    "dc_nunpurged d = 0" by (rule one_ms)
  have p: "0 < arena_decay_ms_read d" "unat (ns (dc_epoch d)) + 2 * unat (ns (dc_interval d)) < 2 ^ 63"
    using d by simp_all
  note due = deadline_due [OF d(1) p]
  have np: "(1000 :: size_t) \<le> 2 ^ 36" "(0 :: size_t) < 1000" by (simp_all add: word_le_nat_alt)
  obtain limit d1 n where r: "decay_run d1" "dc_time_ms d1 = dc_time_ms d" "dc_interval d1 = dc_interval d" "0 < n"
      "ns (dc_epoch d1) \<le> ns (dc_deadline d)"
      "dc_backlog d1 = advanced n (if 1000 > dc_nunpurged d then 1000 - dc_nunpurged d else 0) (dc_backlog d)"
    by (rule run_step [OF d(1) p(1) due(1,2) np(1)])
  have "dc_backlog d1 = advanced n 1000 (dc_backlog d)" using r(6) d(5) np(2) by simp
  note d1 = r(1-5) this
  have "weight (dc_backlog d) < 2 ^ 24" using decay_run_ok [OF d(1)] d(5) by (simp add: run_ok_def decay_inv_def backlog_ok_def)
  have l: "length (dc_backlog d) = 200" using decay_run_ok [OF d(1)] by (simp add: run_ok_def decay_inv_def backlog_ok_def)
  have "weight (advanced n 1000 (dc_backlog d)) \<ge> 1000 * 2 ^ 24"
  proof -
    have "unat (advanced n 1000 (dc_backlog d) ! 199) * hs 199 \<le> weight (advanced n 1000 (dc_backlog d))"
      unfolding weight_def by (rule member_le_sum) simp_all
    then show ?thesis by (simp add: advanced_def h_last)
  qed
  moreover have "weight (advanced n 1000 (dc_backlog d)) < 1001 * 2 ^ 24"
    using weight_advanced [OF l d1(4), of 1000] \<open>weight (dc_backlog d) < 2 ^ 24\<close> by simp
  ultimately have "unat (arena_decay_backlog_npages_limit d1) = 1000"
    using run_limit [OF d1(1)] d1(6) by simp
  then have lim: "arena_decay_backlog_npages_limit d1 = 1000" by (simp add: word_unat_eq_iff)
  have "0 < arena_decay_ms_read d1" "unat (ns (dc_interval d1)) = 5000"
    "unat (ns (dc_epoch d1)) + 2 * (200 + 1) * 5000 < 2 ^ 63"
    using d1 d due(3) by (simp_all add: arena_decay_ms_read_def word_le_nat_alt)
  from quiet_exists [OF d1(1) this] obtain d2 where q: "quiet_run 200 d1 d2" by blast
  from decay_fades [OF d1(1) q] lim d1(1) q show ?thesis by auto
qed

end
