(* ===== verification/Arena_Pages.thy ===== *)
theory Arena_Pages
  imports Extent_Runs Decay Ticker Slab
begin

text \<open>
  The pages of an arena in src/arena.c: decay of unused dirty and muzzy extents by purging, and the
  extents for slabs. It puts the timing of theory Decay on the extents of theory Extent_Ops. The
  readings of the clock and the answers of the try-lock are sequences in the state. What a background
  thread is told leaves no trace in the arena; whether there is one is \<open>pa_background\<close>.
\<close>

section \<open>State\<close>

record decay_stats =
  sd_npurge :: uint64
  sd_nmadvise :: uint64
  sd_purged :: uint64

record large_counts =
  ls_nmalloc :: uint64
  ls_ndalloc :: uint64

record arena_pages =
  pa_est :: estate
  pa_decay_dirty :: arena_decay
  pa_decay_muzzy :: arena_decay
  pa_stats_dirty :: decay_stats
  pa_stats_muzzy :: decay_stats
  pa_nactive :: size_t
  pa_mapped :: size_t
  pa_lstats :: "large_counts list"
  pa_large :: "uintptr list"
  pa_auto :: bool
  pa_background :: bool
  pa_ticker :: "ticker option"
  pa_clock :: "nat \<Rightarrow> uint64 \<times> uint64"
  pa_now :: nat
  pa_busy :: "nat \<Rightarrow> bool"
  pa_tries :: nat

definition pages_can_purge_lazy :: bool where "pages_can_purge_lazy = False"

text \<open>The decay struct that belongs to a collection.\<close>

definition decay_of :: "extent_state \<Rightarrow> arena_pages \<Rightarrow> arena_decay" where
  "decay_of k ar = (if k = extent_state_dirty then pa_decay_dirty ar else pa_decay_muzzy ar)"

definition decay_put :: "extent_state \<Rightarrow> arena_decay \<Rightarrow> arena_pages \<Rightarrow> arena_pages" where
  "decay_put k decay ar =
     (if k = extent_state_dirty then ar\<lparr>pa_decay_dirty := decay\<rparr> else ar\<lparr>pa_decay_muzzy := decay\<rparr>)"

definition decay_stats_add :: "uint64 \<Rightarrow> uint64 \<Rightarrow> uint64 \<Rightarrow> decay_stats \<Rightarrow> decay_stats" where
  "decay_stats_add npurge nmadvise purged st =
     \<lparr>sd_npurge = sd_npurge st + npurge, sd_nmadvise = sd_nmadvise st + nmadvise, sd_purged = sd_purged st + purged\<rparr>"

definition npages_of :: "extent_state \<Rightarrow> arena_pages \<Rightarrow> size_t" where
  "npages_of k ar = extents_npages_get (es_ex (pa_est ar) k)"

definition clock_read :: "arena_pages \<Rightarrow> nstime \<times> arena_pages" where
  "clock_read ar = (snd (nstime_update_impl (pa_clock ar (pa_now ar)) (nstime_init \<lparr>ns = 0\<rparr> 0)), ar\<lparr>pa_now := pa_now ar + 1\<rparr>)"

definition arena_dirty_decay_ms_get :: "arena_pages \<Rightarrow> int" where
  "arena_dirty_decay_ms_get ar = arena_decay_ms_get (pa_decay_dirty ar)"

definition arena_muzzy_decay_ms_get :: "arena_pages \<Rightarrow> int" where
  "arena_muzzy_decay_ms_get ar = arena_decay_ms_get (pa_decay_muzzy ar)"

definition arena_may_have_muzzy :: "arena_pages \<Rightarrow> bool" where
  "arena_may_have_muzzy ar \<longleftrightarrow> pages_can_purge_lazy \<and> arena_muzzy_decay_ms_get ar \<noteq> 0"

section \<open>Purging\<close>

partial_function (option) arena_stash_decayed ::
  "extent_env \<Rightarrow> extent_state \<Rightarrow> size_t \<Rightarrow> size_t \<Rightarrow> size_t \<Rightarrow> uintptr list \<Rightarrow> estate \<Rightarrow> (size_t \<times> uintptr list \<times> estate) option" where
  "arena_stash_decayed en k npages_limit npages_decay_max nstashed decay_extents s =
     (if nstashed < npages_decay_max
      then do {
        (extent, s) \<leftarrow> extents_evict en k npages_limit s;
        case extent of
          None \<Rightarrow> Some (nstashed, decay_extents, s)
        | Some e \<Rightarrow>
            arena_stash_decayed en k npages_limit npages_decay_max
              (nstashed + drop_bit LG_PAGE (extent_size_get (es_mem s e))) (decay_extents @ [e]) s
      }
      else Some (nstashed, decay_extents, s))"

text \<open>One stashed extent: whether it was handed to the hooks, and the state. Reaching an active or
  retained collection is a failed assertion.\<close>

definition decay_one :: "extent_env \<Rightarrow> extent_state \<Rightarrow> bool \<Rightarrow> int \<Rightarrow> uintptr \<Rightarrow> estate \<Rightarrow> (bool \<times> estate) option" where
  "decay_one en k all muzzy_decay_ms extent s =
     (case extents_state_get (es_ex s k) of
        extent_state_dirty \<Rightarrow>
          (let (err, s') = (if \<not> all \<and> muzzy_decay_ms \<noteq> 0 then extent_purge_lazy_impl en s else (True, s))
           in if \<not> err then do { s \<leftarrow> extents_dalloc en extent_state_muzzy extent s'; Some (False, s) }
              else do { s \<leftarrow> extent_dalloc_wrapper en extent s'; Some (True, s) })
      | extent_state_muzzy \<Rightarrow> do { s \<leftarrow> extent_dalloc_wrapper en extent s; Some (True, s) }
      | _ \<Rightarrow> None)"

text \<open>All of them: numbers of purged and of unmapped pages.\<close>

fun decay_all :: "extent_env \<Rightarrow> extent_state \<Rightarrow> bool \<Rightarrow> int \<Rightarrow> uintptr list \<Rightarrow> estate \<Rightarrow> (size_t \<times> size_t \<times> estate) option" where
  "decay_all en k all muzzy_decay_ms [] s = Some (0, 0, s)"
| "decay_all en k all muzzy_decay_ms (extent # decay_extents) s = do {
     let npages = drop_bit LG_PAGE (extent_size_get (es_mem s extent));
     (unmapped, s) \<leftarrow> decay_one en k all muzzy_decay_ms extent s;
     (npurged, nunmapped, s) \<leftarrow> decay_all en k all muzzy_decay_ms decay_extents s;
     Some (npages + npurged, (if unmapped then npages else 0) + nunmapped, s)
   }"

definition arena_decay_stashed ::
  "extent_env \<Rightarrow> extent_state \<Rightarrow> bool \<Rightarrow> uintptr list \<Rightarrow> arena_pages \<Rightarrow> (size_t \<times> arena_pages) option" where
  "arena_decay_stashed en k all decay_extents ar = do {
     let nmadvise = of_nat (length decay_extents);
     let muzzy_decay_ms = arena_muzzy_decay_ms_get ar;
     (npurged, nunmapped, s) \<leftarrow> decay_all en k all muzzy_decay_ms decay_extents (pa_est ar);
     let ar = ar\<lparr>pa_est := s, pa_mapped := pa_mapped ar - push_bit LG_PAGE nunmapped\<rparr>;
     let ar = (if k = extent_state_dirty then ar\<lparr>pa_stats_dirty := decay_stats_add 1 nmadvise npurged (pa_stats_dirty ar)\<rparr>
               else ar\<lparr>pa_stats_muzzy := decay_stats_add 1 nmadvise npurged (pa_stats_muzzy ar)\<rparr>);
     Some (npurged, ar)
   }"

definition arena_decay_to_limit :: "extent_env \<Rightarrow> extent_state \<Rightarrow> bool \<Rightarrow> size_t \<Rightarrow> size_t \<Rightarrow> arena_pages \<Rightarrow> arena_pages option" where
  "arena_decay_to_limit en k all npages_limit npages_decay_max ar =
     (if dc_purging (decay_of k ar) then Some ar
      else do {
        let ar = decay_put k (decay_of k ar\<lparr>dc_purging := True\<rparr>) ar;
        (npurge, decay_extents, s) \<leftarrow> arena_stash_decayed en k npages_limit npages_decay_max 0 [] (pa_est ar);
        let ar = ar\<lparr>pa_est := s\<rparr>;
        ar \<leftarrow> (if npurge \<noteq> 0
              then do {
                (npurged, ar) \<leftarrow> arena_decay_stashed en k all decay_extents ar;
                if npurged \<noteq> npurge then None else Some ar
              }
              else Some ar);
        Some (decay_put k (decay_of k ar\<lparr>dc_purging := False\<rparr>) ar)
      })"

definition arena_decay_try_purge :: "extent_env \<Rightarrow> extent_state \<Rightarrow> size_t \<Rightarrow> size_t \<Rightarrow> arena_pages \<Rightarrow> arena_pages option" where
  "arena_decay_try_purge en k current_npages npages_limit ar =
     (if current_npages > npages_limit
      then arena_decay_to_limit en k False npages_limit (current_npages - npages_limit) ar
      else Some ar)"

definition arena_decay_epoch_advance :: "extent_env \<Rightarrow> extent_state \<Rightarrow> nstime \<Rightarrow> bool \<Rightarrow> arena_pages \<Rightarrow> arena_pages option" where
  "arena_decay_epoch_advance en k time is_background_thread ar = do {
     let current_npages = npages_of k ar;
     (npages_limit, decay) \<leftarrow> decay_epoch_step (decay_of k ar) time current_npages;
     let ar = decay_put k decay ar;
     if \<not> pa_background ar \<or> is_background_thread
     then arena_decay_try_purge en k current_npages npages_limit ar
     else Some ar
   }"

definition arena_maybe_decay :: "extent_env \<Rightarrow> extent_state \<Rightarrow> bool \<Rightarrow> arena_pages \<Rightarrow> (bool \<times> arena_pages) option" where
  "arena_maybe_decay en k is_background_thread ar =
     (let decay_ms = arena_decay_ms_read (decay_of k ar)
      in if decay_ms \<le> 0
         then do {
           ar \<leftarrow> (if decay_ms = 0 then arena_decay_to_limit en k False 0 (npages_of k ar) ar else Some ar);
           Some (False, ar)
         }
         else do {
           let (time, ar) = clock_read ar;
           ar \<leftarrow> (if \<not> nstime_monotonic_impl \<and> nstime_compare (dc_epoch (decay_of k ar)) time > 0
                 then do {
                   decay \<leftarrow> arena_decay_deadline_init (decay_of k ar\<lparr>dc_epoch := time\<rparr>);
                   Some (decay_put k decay ar)
                 }
                 else if nstime_compare (dc_epoch (decay_of k ar)) time \<le> 0 then Some ar else None);
           let advance_epoch = arena_decay_deadline_reached (decay_of k ar) time;
           ar \<leftarrow> (if advance_epoch then arena_decay_epoch_advance en k time is_background_thread ar
                 else if is_background_thread
                 then arena_decay_try_purge en k (npages_of k ar) (arena_decay_backlog_npages_limit (decay_of k ar)) ar
                 else Some ar);
           Some (advance_epoch, ar)
         })"

text \<open>The interval check of the background threads afterwards changes nothing here.\<close>

definition arena_decay_impl :: "extent_env \<Rightarrow> extent_state \<Rightarrow> bool \<Rightarrow> bool \<Rightarrow> arena_pages \<Rightarrow> (bool \<times> arena_pages) option" where
  "arena_decay_impl en k is_background_thread all ar =
     (if all
      then do { ar \<leftarrow> arena_decay_to_limit en k all 0 (npages_of k ar) ar; Some (False, ar) }
      else
        let busy = pa_busy ar (pa_tries ar);
            ar = ar\<lparr>pa_tries := pa_tries ar + 1\<rparr>
        in if busy then Some (True, ar)
           else do { (epoch_advanced, ar) \<leftarrow> arena_maybe_decay en k is_background_thread ar; Some (False, ar) })"

definition arena_decay_dirty :: "extent_env \<Rightarrow> bool \<Rightarrow> bool \<Rightarrow> arena_pages \<Rightarrow> (bool \<times> arena_pages) option" where
  "arena_decay_dirty en is_background_thread all ar = arena_decay_impl en extent_state_dirty is_background_thread all ar"

definition arena_decay_muzzy :: "extent_env \<Rightarrow> bool \<Rightarrow> bool \<Rightarrow> arena_pages \<Rightarrow> (bool \<times> arena_pages) option" where
  "arena_decay_muzzy en is_background_thread all ar = arena_decay_impl en extent_state_muzzy is_background_thread all ar"

text \<open>\<open>arena_decay\<close>; the record of its state has taken the plain name.\<close>

definition arena_decay_run :: "extent_env \<Rightarrow> bool \<Rightarrow> bool \<Rightarrow> arena_pages \<Rightarrow> arena_pages option" where
  "arena_decay_run en is_background_thread all ar = do {
     (busy, ar) \<leftarrow> arena_decay_dirty en is_background_thread all ar;
     if busy then Some ar
     else do { (busy, ar) \<leftarrow> arena_decay_muzzy en is_background_thread all ar; Some ar }
   }"

definition arena_decay_ms_set :: "extent_env \<Rightarrow> extent_state \<Rightarrow> int \<Rightarrow> arena_pages \<Rightarrow> (bool \<times> arena_pages) option" where
  "arena_decay_ms_set en k decay_ms ar =
     (if \<not> arena_decay_ms_valid decay_ms then Some (True, ar)
      else do {
        decay \<leftarrow> arena_decay_reinit (pa_clock ar (pa_now ar)) (decay_of k ar) decay_ms;
        let ar = decay_put k decay (ar\<lparr>pa_now := pa_now ar + 1\<rparr>);
        (_, ar) \<leftarrow> arena_maybe_decay en k False ar;
        Some (False, ar)
      })"

definition arena_dirty_decay_ms_set :: "extent_env \<Rightarrow> int \<Rightarrow> arena_pages \<Rightarrow> (bool \<times> arena_pages) option" where
  "arena_dirty_decay_ms_set en decay_ms ar = arena_decay_ms_set en extent_state_dirty decay_ms ar"

definition arena_muzzy_decay_ms_set :: "extent_env \<Rightarrow> int \<Rightarrow> arena_pages \<Rightarrow> (bool \<times> arena_pages) option" where
  "arena_muzzy_decay_ms_set en decay_ms ar = arena_decay_ms_set en extent_state_muzzy decay_ms ar"

definition arena_extents_dirty_dalloc :: "extent_env \<Rightarrow> uintptr \<Rightarrow> arena_pages \<Rightarrow> arena_pages option" where
  "arena_extents_dirty_dalloc en extent ar = do {
     s \<leftarrow> extents_dalloc en extent_state_dirty extent (pa_est ar);
     let ar = ar\<lparr>pa_est := s\<rparr>;
     if arena_dirty_decay_ms_get ar = 0
     then do { (_, ar) \<leftarrow> arena_decay_dirty en False True ar; Some ar }
     else Some ar
   }"

definition arena_decay_ticks :: "extent_env \<Rightarrow> 32 word \<Rightarrow> arena_pages \<Rightarrow> arena_pages option" where
  "arena_decay_ticks en nticks ar =
     (case pa_ticker ar of
        None \<Rightarrow> Some ar
      | Some t \<Rightarrow>
          (let (fired, t) = ticker_ticks t nticks;
               ar = ar\<lparr>pa_ticker := Some t\<rparr>
           in if fired then arena_decay_run en False False ar else Some ar))"

definition arena_decay_tick :: "extent_env \<Rightarrow> arena_pages \<Rightarrow> arena_pages option" where
  "arena_decay_tick en ar = arena_decay_ticks en 1 ar"

section \<open>Numbers of pages and requests\<close>

definition arena_pages_add :: "size_t \<Rightarrow> arena_pages \<Rightarrow> arena_pages" where
  "arena_pages_add add_pages ar = ar\<lparr>pa_nactive := pa_nactive ar + add_pages\<rparr>"

text \<open>Giving back more than there is would violate the assertion.\<close>

definition arena_pages_sub :: "size_t \<Rightarrow> arena_pages \<Rightarrow> arena_pages option" where
  "arena_pages_sub sub_pages ar =
     (if sub_pages \<le> pa_nactive ar then Some (ar\<lparr>pa_nactive := pa_nactive ar - sub_pages\<rparr>) else None)"

definition large_hindex :: "sz_tabs \<Rightarrow> size_t \<Rightarrow> nat option" where
  "large_hindex t usize = do {
     let usize = (if usize < SC_LARGE_MINCLASS then SC_LARGE_MINCLASS else usize);
     ind \<leftarrow> sz_size2index t usize;
     Some (if ind \<ge> SC_NBINS then ind - SC_NBINS else 0)
   }"

definition arena_large_malloc_stats_update :: "extent_env \<Rightarrow> size_t \<Rightarrow> arena_pages \<Rightarrow> arena_pages option" where
  "arena_large_malloc_stats_update en usize ar = do {
     hindex \<leftarrow> large_hindex (en_tabs en) usize;
     ls \<leftarrow> read_at (pa_lstats ar) hindex;
     lstats \<leftarrow> write_at (pa_lstats ar) hindex (ls\<lparr>ls_nmalloc := ls_nmalloc ls + 1\<rparr>);
     Some (ar\<lparr>pa_lstats := lstats\<rparr>)
   }"

definition arena_large_dalloc_stats_update :: "extent_env \<Rightarrow> size_t \<Rightarrow> arena_pages \<Rightarrow> arena_pages option" where
  "arena_large_dalloc_stats_update en usize ar = do {
     hindex \<leftarrow> large_hindex (en_tabs en) usize;
     ls \<leftarrow> read_at (pa_lstats ar) hindex;
     lstats \<leftarrow> write_at (pa_lstats ar) hindex (ls\<lparr>ls_ndalloc := ls_ndalloc ls + 1\<rparr>);
     Some (ar\<lparr>pa_lstats := lstats\<rparr>)
   }"

definition arena_large_ralloc_stats_update :: "extent_env \<Rightarrow> size_t \<Rightarrow> size_t \<Rightarrow> arena_pages \<Rightarrow> arena_pages option" where
  "arena_large_ralloc_stats_update en oldusize usize ar = do {
     ar \<leftarrow> arena_large_dalloc_stats_update en oldusize ar;
     arena_large_malloc_stats_update en usize ar
   }"

section \<open>Extents for slabs\<close>

definition arena_slab_alloc_hard :: "extent_env \<Rightarrow> bin_info \<Rightarrow> szind \<Rightarrow> arena_pages \<Rightarrow> (uintptr option \<times> arena_pages) option" where
  "arena_slab_alloc_hard en bin_info szind ar = do {
     ((slab, _, _), s) \<leftarrow> extent_alloc_wrapper en 0 (bin_slab_size bin_info) 0 PAGE True szind False True (pa_est ar);
     let ar = ar\<lparr>pa_est := s\<rparr>;
     Some (slab, if slab \<noteq> None then ar\<lparr>pa_mapped := pa_mapped ar + bin_slab_size bin_info\<rparr> else ar)
   }"

text \<open>\<open>arena_slab_alloc\<close> on the extents; theory Arena_Bin has its effect on the bins.\<close>

definition arena_slab_extent :: "extent_env \<Rightarrow> bin_info \<Rightarrow> szind \<Rightarrow> arena_pages \<Rightarrow> (uintptr option \<times> arena_pages) option" where
  "arena_slab_extent en bin_info binind ar = do {
     szind \<leftarrow> sz_size2index (en_tabs en) (bin_reg_size bin_info);
     ((slab, zero, commit), s) \<leftarrow>
       extents_alloc en extent_state_dirty 0 (bin_slab_size bin_info) 0 PAGE True binind False True (pa_est ar);
     ((slab, zero, commit), s) \<leftarrow>
       (if slab = None \<and> arena_may_have_muzzy ar
        then extents_alloc en extent_state_muzzy 0 (bin_slab_size bin_info) 0 PAGE True binind zero commit s
        else Some ((slab, zero, commit), s));
     let ar = ar\<lparr>pa_est := s\<rparr>;
     (slab, ar) \<leftarrow> (if slab = None then arena_slab_alloc_hard en bin_info (of_nat szind) ar else Some (slab, ar));
     case slab of
       None \<Rightarrow> Some (None, ar)
     | Some slab \<Rightarrow>
         if \<not> extent_slab_get (es_mem (pa_est ar) slab) then None
         else do {
           e \<leftarrow> arena_slab_init (es_mem (pa_est ar) slab) bin_info;
           Some (Some slab, arena_pages_add (drop_bit LG_PAGE (extent_size_get e)) (ar\<lparr>pa_est := mem_set (pa_est ar) slab e\<rparr>))
         }
   }"

text \<open>\<open>arena_slab_dalloc\<close> on the extents.\<close>

definition arena_slab_free :: "extent_env \<Rightarrow> uintptr \<Rightarrow> arena_pages \<Rightarrow> arena_pages option" where
  "arena_slab_free en slab ar = do {
     ar \<leftarrow> arena_pages_sub (drop_bit LG_PAGE (extent_size_get (es_mem (pa_est ar) slab))) ar;
     arena_extents_dirty_dalloc en slab ar
   }"

section \<open>Destroying\<close>

partial_function (option) arena_destroy_retained :: "extent_env \<Rightarrow> arena_pages \<Rightarrow> arena_pages option" where
  "arena_destroy_retained en ar = do {
     (extent, s) \<leftarrow> extents_evict en extent_state_retained 0 (pa_est ar);
     case extent of
       None \<Rightarrow> Some (ar\<lparr>pa_est := s\<rparr>)
     | Some e \<Rightarrow> arena_destroy_retained en (ar\<lparr>pa_est := extent_destroy_wrapper e s\<rparr>)
   }"

section \<open>Numbers of pages\<close>

text \<open>Extents that are apart share the \<open>2 ^ 35\<close> pages of the address space.\<close>

lemma disjoint_pages:
  assumes "finite D" "\<And>d. d \<in> D \<Longrightarrow> ext_ok (f d)" "\<And>d d'. d \<in> D \<Longrightarrow> d' \<in> D \<Longrightarrow> d \<noteq> d' \<Longrightarrow> apart (f d) (f d')"
  shows "(\<Sum>d\<in>D. npg (f d)) \<le> 2 ^ 35"
proof -
  let ?P = "\<lambda>d. {fpg (f d)..<fpg (f d) + npg (f d)}"
  have "(\<Sum>d\<in>D. npg (f d)) = (\<Sum>d\<in>D. card (?P d))" by simp
  also have "\<dots> = card (\<Union>d\<in>D. ?P d)"
  proof (rule card_UN_disjoint [symmetric])
    have "?P d \<inter> ?P d' = {}" if "d \<in> D" "d' \<in> D" "d \<noteq> d'" for d d' using assms(3) [OF that] by (auto simp: apart_def)
    then show "\<forall>d\<in>D. \<forall>d'\<in>D. d \<noteq> d' \<longrightarrow> ?P d \<inter> ?P d' = {}" by blast
  qed (use assms(1) in simp_all)
  also have "\<dots> \<le> card {..<(2::nat) ^ 35}"
    by (rule card_mono) (use ext_okD(4) [OF assms(2)] in fastforce)+
  finally show ?thesis by simp
qed

lemma use_pages:
  assumes "est_inv en s A B I V L" "D \<subseteq> uses A B L"
  shows "(\<Sum>d\<in>D. npg (es_mem s d)) \<le> 2 ^ 35"
proof -
  note g = geoD [OF est_invD(4) [OF assms(1)]]
  show ?thesis
  proof (rule disjoint_pages)
    show "finite D" using assms(2) g(1) by (rule finite_subset)
    show "ext_ok (es_mem s d)" if "d \<in> D" for d using g(4) assms(2) that by blast
    show "apart (es_mem s d) (es_mem s d')" if "d \<in> D" "d' \<in> D" "d \<noteq> d'" for d d' using g(5) assms(2) that by blast
  qed
qed

lemma pages_of: "drop_bit LG_PAGE (extent_size_get e) = of_nat (npg e)"
proof -
  have "unat (extent_size_get e) div 4096 < 2 ^ 64" using unat_lt2p [of "extent_size_get e"] by (simp add: div_less_iff_less_mult)
  then show ?thesis by (simp add: LG_PAGE_def npg_def word_unat_eq_iff unat_drop_bit_div unat_of_nat_eq)
qed

lemma collection_pages:
  assumes "run_inv en s B" "k \<noteq> extent_state_active"
  shows "extents_npages_get (es_ex s k) \<le> 2 ^ 36"
proof -
  obtain V L where i: "est_inv en s {} B (slabs B) V L" using assms(1) by (auto simp: run_inv_def)
  have "stats_ok (es_mem s) (es_ex s k) (L k)" using est_invD(6) [OF i] assms(2) by (simp add: conts_def extents_inv_def)
  then have n: "extents_npages_get (es_ex s k) = of_nat (\<Sum>d\<in>set (L k). npg (es_mem s d))"
    by (simp add: stats_ok_def extents_npages_get_def pages_of)
  have "(\<Sum>d\<in>set (L k). npg (es_mem s d)) \<le> 2 ^ 35" by (rule use_pages [OF i]) (auto simp: uses_def members_def)
  then show ?thesis unfolding n word_le_nat_alt by (subst unat_of_nat_eq) simp_all
qed

section \<open>Decay keeps what is held\<close>

text \<open>The stashed extents are held by the purging thread.\<close>

definition stashed :: "uintptr list \<Rightarrow> estate \<Rightarrow> held \<Rightarrow> held" where
  "stashed ds s B = (\<lambda>d. if d \<in> set ds then Some (es_mem s d) else B d)"

definition stash_ok :: "extent_env \<Rightarrow> held \<Rightarrow> uintptr list \<Rightarrow> estate \<Rightarrow> bool" where
  "stash_ok en B ds s \<longleftrightarrow> extents_reach en s (stashed ds s B) \<and> distinct ds \<and> set ds \<inter> dom B = {}
     \<and> (\<forall>d\<in>set ds. active_desc en (es_mem s d) \<and> flat (es_mem s d))"

lemma stashed_keep:
  assumes "stash_ok en B ds s" "run_inv en s' B'" "\<And>d. d \<in> set ds \<Longrightarrow> B' d = stashed ds s B d"
  shows "\<And>d. d \<in> set ds \<Longrightarrow> es_mem s' d = es_mem s d" "stashed ds s' B = stashed ds s B"
proof -
  show m: "es_mem s' d = es_mem s d" if "d \<in> set ds" for d
    using held_desc [OF assms(2), of d "es_mem s d"] assms(3) [OF that] that by (simp add: stashed_def)
  then show "stashed ds s' B = stashed ds s B" by (auto simp: stashed_def)
qed

lemma stash_ok_loop:
  assumes "stash_ok en B ds s" "k = extent_state_dirty \<or> k = extent_state_muzzy"
    and "n = (\<Sum>d\<leftarrow>ds. of_nat (npg (es_mem s d)))"
  shows "\<exists>n' ds' s'. arena_stash_decayed en k lim mx n ds s = Some (n', ds', s') \<and> stash_ok en B ds' s'
    \<and> n' = (\<Sum>d\<leftarrow>ds'. of_nat (npg (es_mem s' d)))"
  using assms
proof (induction "length (ex_lru (es_ex s k))" arbitrary: n ds s rule: less_induct)
  case less
  have inv: "run_inv en s (stashed ds s B)" using less.prems(1) reach_inv by (simp add: stash_ok_def)
  have k: "k \<noteq> extent_state_active" "k \<noteq> extent_state_retained" using less.prems(2) by auto
  show ?case
  proof (cases "n < mx")
    case False
    with less.prems show ?thesis by (subst arena_stash_decayed.simps) simp
  next
    case True
    from evict_run [OF inv k(1), of lim] k(2) obtain r s' where
      r: "extents_evict en k lim s = Some (r, s')" "run_inv en s' (handed r s' (stashed ds s B))"
        "\<And>d. r = Some d \<Longrightarrow> length (ex_lru (es_ex s' k)) < length (ex_lru (es_ex s k)) \<and> d \<notin> dom (stashed ds s B)
          \<and> active_desc en (es_mem s' d) \<and> flat (es_mem s' d)" by (fastforce split: option.splits)
    have reach: "extents_reach en s' (handed r s' (stashed ds s B))"
      using reach_step [OF _ extent_step.evict [OF k(1) r(1)]] less.prems(1) k(2) by (simp add: stash_ok_def)
    have hd: "handed r s' (stashed ds s B) d = stashed ds s B d" if "d \<in> set ds" for d
      using r(3) that by (auto simp: handed_def stashed_def split: option.splits)
    note keep = stashed_keep [OF less.prems(1) r(2) hd]
    show ?thesis
    proof (cases r)
      case None
      have "stash_ok en B ds s'"
        using less.prems(1) reach keep None by (simp add: stash_ok_def handed_def)
      moreover have "n = (\<Sum>d\<leftarrow>ds. of_nat (npg (es_mem s' d)))" using keep(1) by (simp add: less.prems(3) cong: map_cong)
      ultimately show ?thesis using True r(1) None by (subst arena_stash_decayed.simps) simp
    next
      case (Some d)
      note d = r(3) [OF Some]
      have ds: "d \<notin> set ds" "d \<notin> dom B" using d by (auto simp: stashed_def split: if_splits)
      have eq: "stashed (ds @ [d]) s' B = handed r s' (stashed ds s B)"
        using keep(1) Some by (auto simp: stashed_def handed_def)
      have "stash_ok en B (ds @ [d]) s'"
        using less.prems(1) reach d ds keep(1) by (auto simp: stash_ok_def eq)
      moreover have "n + of_nat (npg (es_mem s' d)) = (\<Sum>d\<leftarrow>ds @ [d]. of_nat (npg (es_mem s' d)))"
        using keep(1) by (simp add: less.prems(3) cong: map_cong)
      ultimately show ?thesis
        using less.hyps [OF conjunct1 [OF d], of "ds @ [d]" "n + of_nat (npg (es_mem s' d))"] less.prems(2) True r(1) Some
        by (subst arena_stash_decayed.simps) (simp add: pages_of)
    qed
  qed
qed

lemma decay_one_ok:
  assumes "extents_reach en s B" "holds en B d e" "flat e" "k = extent_state_dirty \<or> k = extent_state_muzzy"
  shows "\<exists>u s'. decay_one en k all ms d s = Some (u, s') \<and> extents_reach en s' (B(d := None))"
proof -
  note inv = reach_inv [OF assms(1)]
  obtain V L where "est_inv en s {} B (slabs B) V L" using inv by (auto simp: run_inv_def)
  then have k: "extents_state_get (es_ex s k) = k"
    using est_invD(6) assms(4) by (auto simp: conts_def extents_state_get_def)
  have fl: "extent_addr_get e = extent_base_get e" using assms(3) by (simp add: flat_def)
  obtain err s1 where s1: "(if \<not> all \<and> ms \<noteq> 0 then extent_purge_lazy_impl en s else (True, s)) = (err, s1)" by (metis surj_pair)
  have r1: "extents_reach en s1 B"
    using s1 assms(1) reach_step [OF assms(1) extent_step.purge] by (auto split: if_splits)
  have dw: "\<exists>s'. extent_dalloc_wrapper en d s2 = Some s' \<and> extents_reach en s' (B(d := None))" if r: "extents_reach en s2 B" for s2
    using dalloc_wrapper_run [OF reach_inv [OF r] assms(2) fl] reach_step [OF r extent_step.dalloc_wrapper [OF assms(2) fl]] by blast
  have dm: "\<exists>s'. extents_dalloc en extent_state_muzzy d s1 = Some s' \<and> extents_reach en s' (B(d := None))"
    using dalloc_run [OF reach_inv [OF r1] assms(2), of extent_state_muzzy]
      reach_step [OF r1 extent_step.dalloc [OF _ assms(2)]] by blast
  show ?thesis
    using assms(4) k s1 dw [OF r1] dw [OF assms(1)] dm unfolding decay_one_def
    by (elim disjE) (auto simp del: fun_upd_apply split del: if_split split: if_split)
qed

lemma decay_all_ok:
  assumes "stash_ok en B ds s" "k = extent_state_dirty \<or> k = extent_state_muzzy"
  shows "\<exists>u s'. decay_all en k all ms ds s = Some (\<Sum>d\<leftarrow>ds. of_nat (npg (es_mem s d)), u, s') \<and> extents_reach en s' B"
  using assms(1)
proof (induction ds arbitrary: s)
  case Nil
  then show ?case by (simp add: stash_ok_def stashed_def)
next
  case (Cons d ds)
  let ?B = "stashed (d # ds) s B"
  have c: "extents_reach en s ?B" "distinct (d # ds)" "set (d # ds) \<inter> dom B = {}"
    "holds en ?B d (es_mem s d)" "flat (es_mem s d)"
    using Cons.prems by (auto simp: stash_ok_def holds_def stashed_def)
  from decay_one_ok [OF c(1,4,5) assms(2), of all ms] obtain u s1 where
    s1: "decay_one en k all ms d s = Some (u, s1)" "extents_reach en s1 (?B(d := None))" by blast
  have B1: "?B(d := None) = stashed ds s B" using c(2,3) by (auto simp: stashed_def)
  have m: "es_mem s1 x = es_mem s x" if "x \<in> set ds" for x
    using held_desc [OF reach_inv [OF s1(2)], of x "es_mem s x"] that by (simp add: B1) (simp add: stashed_def)
  then have "stashed ds s1 B = stashed ds s B" by (auto simp: stashed_def)
  then have "stash_ok en B ds s1" using Cons.prems s1(2) m by (auto simp: stash_ok_def B1)
  from Cons.IH [OF this] obtain u' s2 where
    s2: "decay_all en k all ms ds s1 = Some (\<Sum>d\<leftarrow>ds. of_nat (npg (es_mem s1 d)), u', s2)" "extents_reach en s2 B" by blast
  have "(\<Sum>d\<leftarrow>ds. of_nat (npg (es_mem s1 d))) = (\<Sum>d\<leftarrow>ds. of_nat (npg (es_mem s d)) :: size_t)" using m by (simp cong: map_cong)
  with s1(1) s2 show ?case by (simp add: pages_of Let_def)
qed

text \<open>The clock does not run backwards, and it is before the year 2262. No decay is under way, and the
  epochs are in the past.\<close>

definition clock_steady :: "arena_pages \<Rightarrow> bool" where
  "clock_steady ar \<longleftrightarrow> (\<forall>i. reading (pa_clock ar i) < 2 ^ 63) \<and> (\<forall>i j. i \<le> j \<longrightarrow> reading (pa_clock ar i) \<le> reading (pa_clock ar j))"

definition decay_idle :: "arena_pages \<Rightarrow> arena_decay \<Rightarrow> bool" where
  "decay_idle ar d \<longleftrightarrow> decay_run d \<and> \<not> dc_purging d \<and> (\<forall>i\<ge>pa_now ar. ns (dc_epoch d) \<le> reading (pa_clock ar i))"

definition pages_ok :: "extent_env \<Rightarrow> arena_pages \<Rightarrow> held \<Rightarrow> bool" where
  "pages_ok en ar B \<longleftrightarrow> extents_reach en (pa_est ar) B \<and> clock_steady ar
     \<and> decay_idle ar (pa_decay_dirty ar) \<and> decay_idle ar (pa_decay_muzzy ar)"

text \<open>What purging leaves alone.\<close>

definition kept :: "arena_pages \<Rightarrow> arena_pages \<Rightarrow> bool" where
  "kept ar ar' \<longleftrightarrow> pa_nactive ar' = pa_nactive ar \<and> pa_lstats ar' = pa_lstats ar \<and> pa_large ar' = pa_large ar
     \<and> pa_auto ar' = pa_auto ar \<and> pa_background ar' = pa_background ar \<and> pa_clock ar' = pa_clock ar"

lemma kept_refl [simp]: "kept ar ar" by (simp add: kept_def)
lemma kept_trans: "kept a b \<Longrightarrow> kept b c \<Longrightarrow> kept a c" by (simp add: kept_def)

lemma decay_put_simps [simp]:
  "pa_est (decay_put k d ar) = pa_est ar" "pa_clock (decay_put k d ar) = pa_clock ar" "pa_now (decay_put k d ar) = pa_now ar"
  "pa_background (decay_put k d ar) = pa_background ar" "kept ar (decay_put k d ar)" "npages_of j (decay_put k d ar) = npages_of j ar"
  by (simp_all add: decay_put_def kept_def npages_of_def)

lemma decay_of_put [simp]: "decay_of k (decay_put k d ar) = d"
  by (simp add: decay_of_def decay_put_def)

lemma decay_put_put [simp]: "decay_put k d (decay_put k d' ar) = decay_put k d ar"
  by (simp add: decay_put_def)

lemma decay_put_same: "decay_put k (decay_of k ar) ar = ar"
  by (simp add: decay_of_def decay_put_def)

lemma pages_ok_put: "pages_ok en ar B \<Longrightarrow> decay_idle ar d \<Longrightarrow> pages_ok en (decay_put k d ar) B"
  by (auto simp: pages_ok_def decay_put_def clock_steady_def decay_idle_def)

lemma pages_ok_idle: "pages_ok en ar B \<Longrightarrow> decay_idle ar (decay_of k ar)"
  by (simp add: pages_ok_def decay_of_def)

text \<open>Same decays and clock, another state of the extents.\<close>

lemma pages_ok_est:
  assumes "pages_ok en ar B" "extents_reach en (pa_est ar') B'" "pa_clock ar' = pa_clock ar" "pa_now ar \<le> pa_now ar'"
    "pa_decay_dirty ar' = pa_decay_dirty ar" "pa_decay_muzzy ar' = pa_decay_muzzy ar"
  shows "pages_ok en ar' B'"
  using assms by (auto simp: pages_ok_def clock_steady_def decay_idle_def)

lemma decay_stashed_ok:
  assumes "stash_ok en B ds (pa_est ar)" "k = extent_state_dirty \<or> k = extent_state_muzzy"
  shows "\<exists>ar'. arena_decay_stashed en k all ds ar = Some (\<Sum>d\<leftarrow>ds. of_nat (npg (es_mem (pa_est ar) d)), ar')
    \<and> extents_reach en (pa_est ar') B \<and> kept ar ar' \<and> pa_now ar' = pa_now ar
    \<and> pa_decay_dirty ar' = pa_decay_dirty ar \<and> pa_decay_muzzy ar' = pa_decay_muzzy ar"
proof -
  from decay_all_ok [OF assms, of all "arena_muzzy_decay_ms_get ar"] obtain u s' where
    "decay_all en k all (arena_muzzy_decay_ms_get ar) ds (pa_est ar) = Some (\<Sum>d\<leftarrow>ds. of_nat (npg (es_mem (pa_est ar) d)), u, s')"
    "extents_reach en s' B" by blast
  then show ?thesis by (simp add: arena_decay_stashed_def Let_def kept_def)
qed

text \<open>An empty count means an empty stash.\<close>

lemma stash_count:
  assumes "stash_ok en B ds s" "(\<Sum>d\<leftarrow>ds. of_nat (npg (es_mem s d)) :: size_t) = 0"
  shows "ds = []"
proof -
  have inv: "run_inv en s (stashed ds s B)" using assms(1) reach_inv by (simp add: stash_ok_def)
  then obtain V L where i: "est_inv en s {} (stashed ds s B) (slabs (stashed ds s B)) V L" by (auto simp: run_inv_def)
  have "(\<Sum>d\<in>set ds. npg (es_mem s d)) \<le> 2 ^ 35" by (rule use_pages [OF i]) (auto simp: uses_def stashed_def)
  moreover have sum: "(\<Sum>d\<leftarrow>ds. npg (es_mem s d)) = (\<Sum>d\<in>set ds. npg (es_mem s d))"
    using assms(1) by (simp add: stash_ok_def sum_list_distinct_conv_sum_set)
  moreover have "(\<Sum>d\<leftarrow>ds. of_nat (npg (es_mem s d)) :: size_t) = of_nat (\<Sum>d\<leftarrow>ds. npg (es_mem s d))"
    by (induction ds) simp_all
  ultimately have z: "(\<Sum>d\<leftarrow>ds. npg (es_mem s d)) = 0"
    using assms(2) unat_of_nat_eq [of "\<Sum>d\<leftarrow>ds. npg (es_mem s d)", where 'a = 64] by simp
  have "0 < npg (es_mem s d)" if "d \<in> set ds" for d
    using held_desc [OF inv, of d "es_mem s d"] ext_okD(2) [of "es_mem s d"] that by (simp add: stashed_def)
  then have "npg (es_mem s d) \<noteq> 0" if "d \<in> set ds" for d using that by blast
  with z show ?thesis by (cases ds) simp_all
qed

lemma to_limit_ok:
  assumes "pages_ok en ar B" "k = extent_state_dirty \<or> k = extent_state_muzzy"
  shows "\<exists>ar'. arena_decay_to_limit en k all lim mx ar = Some ar' \<and> pages_ok en ar' B \<and> kept ar ar'"
proof -
  let ?ar = "decay_put k (decay_of k ar\<lparr>dc_purging := True\<rparr>) ar"
  have idle: "\<not> dc_purging (decay_of k ar)" using pages_ok_idle [OF assms(1)] by (simp add: decay_idle_def)
  have "stash_ok en B [] (pa_est ar)" using assms(1) by (simp add: stash_ok_def stashed_def pages_ok_def)
  from stash_ok_loop [OF this assms(2), of 0 lim mx] obtain n ds s where
    st: "arena_stash_decayed en k lim mx 0 [] (pa_est ar) = Some (n, ds, s)" "stash_ok en B ds s"
      "n = (\<Sum>d\<leftarrow>ds. of_nat (npg (es_mem s d)))" by auto
  from decay_stashed_ok [of en B ds "?ar\<lparr>pa_est := s\<rparr>" k all] st(2,3) assms(2) obtain ar2 where
    r: "arena_decay_stashed en k all ds (?ar\<lparr>pa_est := s\<rparr>) = Some (n, ar2)" "extents_reach en (pa_est ar2) B"
      "kept ?ar ar2" "pa_now ar2 = pa_now ar" "pa_decay_dirty ar2 = pa_decay_dirty ?ar" "pa_decay_muzzy ar2 = pa_decay_muzzy ?ar"
    by (auto simp: kept_def)
  define ar3 where "ar3 = (if n \<noteq> 0 then ar2 else ?ar\<lparr>pa_est := s\<rparr>)"
  have r3: "arena_decay_to_limit en k all lim mx ar = Some (decay_put k (decay_of k ar3\<lparr>dc_purging := False\<rparr>) ar3)"
    using idle st(1) r(1) by (simp add: arena_decay_to_limit_def Let_def ar3_def)
  have "ds = []" if "n = 0" using stash_count [OF st(2)] st(3) that by simp
  then have "extents_reach en s B" if "n = 0" using st(2) that by (simp add: stash_ok_def stashed_def)
  then have a: "extents_reach en (pa_est ar3) B" "kept ?ar ar3" "pa_now ar3 = pa_now ar"
      "pa_decay_dirty ar3 = pa_decay_dirty ?ar" "pa_decay_muzzy ar3 = pa_decay_muzzy ?ar"
    using r(2-6) by (simp_all add: ar3_def kept_def)
  define ar4 where "ar4 = decay_put k (decay_of k ar3\<lparr>dc_purging := False\<rparr>) ar3"
  have d: "pa_decay_dirty ar4 = pa_decay_dirty ar" "pa_decay_muzzy ar4 = pa_decay_muzzy ar"
    using a(4,5) idle by (simp_all add: ar4_def decay_put_def decay_of_def split: if_splits)
  have c: "pa_clock ar4 = pa_clock ar" "pa_now ar4 = pa_now ar" "pa_est ar4 = pa_est ar3" "kept ar ar4"
    using a(2,3) by (simp_all add: ar4_def kept_def decay_put_def split: if_splits)
  have "pages_ok en ar4 B" by (rule pages_ok_est [OF assms(1)]) (use a(1) c d in simp_all)
  with r3 c(4) show ?thesis by (simp add: ar4_def)
qed

lemma try_purge_ok:
  assumes "pages_ok en ar B" "k = extent_state_dirty \<or> k = extent_state_muzzy"
  shows "\<exists>ar'. arena_decay_try_purge en k cur lim ar = Some ar' \<and> pages_ok en ar' B \<and> kept ar ar'"
  using to_limit_ok [OF assms, of False lim "cur - lim"] assms(1) by (auto simp: arena_decay_try_purge_def)

lemma deadline_init_purging: "arena_decay_deadline_init d = Some d' \<Longrightarrow> dc_purging d' = dc_purging d"
  by (auto simp: arena_decay_deadline_init_def Let_def bind_eq_Some_conv split: if_splits prod.splits)

lemma backlog_update_purging [simp]: "dc_purging (arena_decay_backlog_update d n c) = dc_purging d"
  by (simp add: arena_decay_backlog_update_def arena_decay_backlog_update_last_def Let_def)

lemma helper_purging: "arena_decay_epoch_advance_helper d time n = Some x \<Longrightarrow> dc_purging x = dc_purging d"
  unfolding arena_decay_epoch_advance_helper_def Let_def bind_eq_Some_conv
  by (clarsimp simp: bind_eq_Some_conv split: if_split_asm) (drule deadline_init_purging, simp)

lemma step_purging: "decay_epoch_step d time n = Some (lim, d') \<Longrightarrow> dc_purging d' = dc_purging d"
  unfolding decay_epoch_step_def Let_def bind_eq_Some_conv
  by (elim exE conjE) (drule helper_purging, clarsimp)

lemma reinit_purging: "arena_decay_reinit clock d ms = Some d' \<Longrightarrow> dc_purging d' = dc_purging d"
  by (auto simp: arena_decay_reinit_def arena_decay_ms_write_def Let_def bind_eq_Some_conv
      dest: deadline_init_purging split: if_splits)

lemma deadline_init_epoch: "arena_decay_deadline_init d = Some d' \<Longrightarrow> dc_epoch d' = dc_epoch d"
  by (auto simp: arena_decay_deadline_init_def Let_def bind_eq_Some_conv split: if_splits prod.splits)

lemma reinit_epoch: "arena_decay_reinit clock d ms = Some d' \<Longrightarrow> dc_epoch d' = \<lparr>ns = reading clock\<rparr>"
  by (auto simp: arena_decay_reinit_def arena_decay_ms_write_def Let_def bind_eq_Some_conv nstime_update_eq nstime_init_def
      dest!: deadline_init_epoch split: if_splits)

lemma clock_read_eq: "clock_read ar = (\<lparr>ns = reading (pa_clock ar (pa_now ar))\<rparr>, ar\<lparr>pa_now := Suc (pa_now ar)\<rparr>)"
  by (simp add: clock_read_def nstime_update_eq nstime_init_def)

lemma epoch_advance_ok:
  assumes "pages_ok en ar B" "k = extent_state_dirty \<or> k = extent_state_muzzy" "0 < arena_decay_ms_read (decay_of k ar)"
    and "arena_decay_deadline_reached (decay_of k ar) time" "ns time < 2 ^ 63" "\<forall>i\<ge>pa_now ar. ns time \<le> reading (pa_clock ar i)"
  shows "\<exists>ar'. arena_decay_epoch_advance en k time bg ar = Some ar' \<and> pages_ok en ar' B \<and> kept ar ar'"
proof -
  have idle: "decay_run (decay_of k ar)" "\<not> dc_purging (decay_of k ar)"
    using pages_ok_idle [OF assms(1)] by (simp_all add: decay_idle_def)
  have "extents_reach en (pa_est ar) B" using assms(1) by (simp add: pages_ok_def)
  then have np: "npages_of k ar \<le> 2 ^ 36"
    using collection_pages [OF reach_inv, of en _ B k] assms(2) by (auto simp: npages_of_def)
  from run_step [OF idle(1) assms(3-5) np] obtain lim d' where
    d: "decay_epoch_step (decay_of k ar) time (npages_of k ar) = Some (lim, d')" "decay_run d'" "ns (dc_epoch d') \<le> ns time" by blast
  have "decay_idle ar d'" using d(2,3) step_purging [OF d(1)] idle(2) assms(6) by (auto simp: decay_idle_def)
  from pages_ok_put [OF assms(1) this] have p: "pages_ok en (decay_put k d' ar) B" .
  from try_purge_ok [OF p assms(2), of "npages_of k ar" lim] obtain ar' where
    "arena_decay_try_purge en k (npages_of k ar) lim (decay_put k d' ar) = Some ar'" "pages_ok en ar' B" "kept (decay_put k d' ar) ar'"
    by blast
  with p d(1) show ?thesis
    by (auto simp: arena_decay_epoch_advance_def Let_def intro: kept_trans [of ar "decay_put k d' ar"])
qed

lemma maybe_decay_ok:
  assumes "pages_ok en ar B" "k = extent_state_dirty \<or> k = extent_state_muzzy"
  shows "\<exists>b ar'. arena_maybe_decay en k bg ar = Some (b, ar') \<and> pages_ok en ar' B \<and> kept ar ar'"
proof (cases "arena_decay_ms_read (decay_of k ar) \<le> 0")
  case True
  then show ?thesis
    using to_limit_ok [OF assms, of False 0 "npages_of k ar"] assms(1) by (auto simp: arena_maybe_decay_def)
next
  case False
  define time where "time = \<lparr>ns = reading (pa_clock ar (pa_now ar))\<rparr>"
  define ar1 where "ar1 = ar\<lparr>pa_now := Suc (pa_now ar)\<rparr>"
  have p1: "pages_ok en ar1 B" "kept ar ar1" "decay_of k ar1 = decay_of k ar"
    using assms(1) by (auto simp: ar1_def pages_ok_def clock_steady_def decay_idle_def kept_def decay_of_def)
  have t: "ns time < 2 ^ 63" "\<forall>i\<ge>pa_now ar1. ns time \<le> reading (pa_clock ar1 i)" "ns (dc_epoch (decay_of k ar)) \<le> ns time"
    using assms(1) pages_ok_idle [OF assms(1), of k] by (simp_all add: time_def ar1_def pages_ok_def clock_steady_def decay_idle_def)
  have mono: "(\<not> nstime_monotonic_impl \<and> nstime_compare (dc_epoch (decay_of k ar1)) time > 0) = False"
    "nstime_compare (dc_epoch (decay_of k ar1)) time \<le> 0"
    using t(3) nstime_compare_iff(1) [of "dc_epoch (decay_of k ar)" time] by (simp_all add: p1(3) not_less [symmetric])
  have eq: "arena_maybe_decay en k bg ar = do {
      ar \<leftarrow> (if arena_decay_deadline_reached (decay_of k ar1) time then arena_decay_epoch_advance en k time bg ar1
            else if bg then arena_decay_try_purge en k (npages_of k ar1) (arena_decay_backlog_npages_limit (decay_of k ar1)) ar1
            else Some ar1);
      Some (arena_decay_deadline_reached (decay_of k ar1) time, ar) }"
    using False mono by (simp add: arena_maybe_decay_def clock_read_eq time_def [symmetric] ar1_def [symmetric] Let_def)
  have ms: "0 < arena_decay_ms_read (decay_of k ar1)" using False p1(3) by simp
  have "\<exists>ar'. (if arena_decay_deadline_reached (decay_of k ar1) time then arena_decay_epoch_advance en k time bg ar1
            else if bg then arena_decay_try_purge en k (npages_of k ar1) (arena_decay_backlog_npages_limit (decay_of k ar1)) ar1
            else Some ar1) = Some ar' \<and> pages_ok en ar' B \<and> kept ar1 ar'"
    using epoch_advance_ok [OF p1(1) assms(2) ms _ t(1,2), of bg]
      try_purge_ok [OF p1(1) assms(2), of "npages_of k ar1" "arena_decay_backlog_npages_limit (decay_of k ar1)"] p1(1) by simp
  then obtain ar' where "(if arena_decay_deadline_reached (decay_of k ar1) time then arena_decay_epoch_advance en k time bg ar1
            else if bg then arena_decay_try_purge en k (npages_of k ar1) (arena_decay_backlog_npages_limit (decay_of k ar1)) ar1
            else Some ar1) = Some ar'" "pages_ok en ar' B" "kept ar1 ar'" by blast
  then show ?thesis unfolding eq using kept_trans [OF p1(2)] by simp
qed

lemma decay_impl_ok:
  assumes "pages_ok en ar B" "k = extent_state_dirty \<or> k = extent_state_muzzy"
  shows "\<exists>b ar'. arena_decay_impl en k bg all ar = Some (b, ar') \<and> pages_ok en ar' B \<and> kept ar ar'"
proof (cases all)
  case True
  then show ?thesis using to_limit_ok [OF assms, of True 0 "npages_of k ar"] by (auto simp: arena_decay_impl_def)
next
  case False
  define ar1 where "ar1 = ar\<lparr>pa_tries := Suc (pa_tries ar)\<rparr>"
  have p1: "pages_ok en ar1 B" "kept ar ar1"
    using pages_ok_est [OF assms(1), of ar1 B] assms(1) by (simp_all add: ar1_def kept_def pages_ok_def)
  from maybe_decay_ok [OF p1(1) assms(2), of bg] obtain b ar2 where
    "arena_maybe_decay en k bg ar1 = Some (b, ar2)" "pages_ok en ar2 B" "kept ar1 ar2" by blast
  then show ?thesis
    using False p1 kept_trans [OF p1(2)] by (cases "pa_busy ar (pa_tries ar)") (auto simp: arena_decay_impl_def Let_def ar1_def [symmetric])
qed

lemma decay_run_ok2:
  assumes "pages_ok en ar B"
  shows "\<exists>ar'. arena_decay_run en bg all ar = Some ar' \<and> pages_ok en ar' B \<and> kept ar ar'"
proof -
  from decay_impl_ok [OF assms, of extent_state_dirty bg all] obtain b ar1 where
    a: "arena_decay_dirty en bg all ar = Some (b, ar1)" "pages_ok en ar1 B" "kept ar ar1" by (auto simp: arena_decay_dirty_def)
  from decay_impl_ok [OF a(2), of extent_state_muzzy bg all] obtain b' ar2 where
    "arena_decay_muzzy en bg all ar1 = Some (b', ar2)" "pages_ok en ar2 B" "kept ar1 ar2" by (auto simp: arena_decay_muzzy_def)
  with a kept_trans [OF a(3)] show ?thesis by (auto simp: arena_decay_run_def)
qed

lemma ticks_ok:
  assumes "pages_ok en ar B"
  shows "\<exists>ar'. arena_decay_ticks en n ar = Some ar' \<and> pages_ok en ar' B \<and> kept ar ar'"
proof (cases "pa_ticker ar")
  case None
  with assms show ?thesis by (simp add: arena_decay_ticks_def)
next
  case (Some t)
  define ar1 where "ar1 = ar\<lparr>pa_ticker := Some (snd (ticker_ticks t n))\<rparr>"
  have p1: "pages_ok en ar1 B" "kept ar ar1"
    using pages_ok_est [OF assms, of ar1 B] assms by (simp_all add: ar1_def kept_def pages_ok_def)
  from decay_run_ok2 [OF p1(1), of False False] kept_trans [OF p1(2)] Some p1 show ?thesis
    by (auto simp: arena_decay_ticks_def ar1_def [symmetric] case_prod_beta Let_def)
qed

lemma ms_set_ok:
  assumes "pages_ok en ar B" "k = extent_state_dirty \<or> k = extent_state_muzzy" "ms < 2 ^ 63"
  shows "\<exists>ar'. arena_decay_ms_set en k ms ar = Some (\<not> arena_decay_ms_valid ms, ar') \<and> pages_ok en ar' B \<and> kept ar ar'"
proof (cases "arena_decay_ms_valid ms")
  case False
  with assms(1) show ?thesis by (simp add: arena_decay_ms_set_def)
next
  case True
  let ?c = "pa_clock ar (pa_now ar)"
  have idle: "decay_run (decay_of k ar)" "\<not> dc_purging (decay_of k ar)"
    using pages_ok_idle [OF assms(1)] by (simp_all add: decay_idle_def)
  have c: "clock_ok ?c" using assms(1) by (simp add: clock_ok_def nstime_update_eq pages_ok_def clock_steady_def)
  from reinit_ok [OF True c assms(3), of "decay_of k ar"] obtain d where d: "arena_decay_reinit ?c (decay_of k ar) ms = Some d"
    by blast
  have ep: "ns (dc_epoch d) = reading ?c"
    using reinit_epoch [OF d] by simp
  define ar1 where "ar1 = ar\<lparr>pa_now := Suc (pa_now ar)\<rparr>"
  have p1: "pages_ok en ar1 B" "kept ar ar1"
    using assms(1) pages_ok_est [OF assms(1), of ar1 B] by (simp_all add: ar1_def pages_ok_def kept_def)
  have "decay_idle ar1 d"
    using decay_run.reinit [OF idle(1) True c assms(3) d] reinit_purging [OF d] idle(2) ep assms(1)
    by (simp add: decay_idle_def ar1_def pages_ok_def clock_steady_def)
  from pages_ok_put [OF p1(1) this] have p2: "pages_ok en (decay_put k d ar1) B" .
  from maybe_decay_ok [OF p2 assms(2), of False] obtain b ar3 where
    "arena_maybe_decay en k False (decay_put k d ar1) = Some (b, ar3)" "pages_ok en ar3 B" "kept (decay_put k d ar1) ar3" by blast
  then show ?thesis
    using True d kept_trans [OF p1(2)] kept_trans [of ar1 "decay_put k d ar1" ar3]
    by (simp add: arena_decay_ms_set_def Let_def ar1_def [symmetric])
qed

lemma dirty_dalloc_ok:
  assumes "pages_ok en ar B" "holds en B d e"
  shows "\<exists>ar'. arena_extents_dirty_dalloc en d ar = Some ar' \<and> pages_ok en ar' (B(d := None)) \<and> kept ar ar'"
proof -
  have re: "extents_reach en (pa_est ar) B" using assms(1) by (simp add: pages_ok_def)
  from dalloc_run [OF reach_inv [OF re] assms(2), of extent_state_dirty] obtain s where
    s: "extents_dalloc en extent_state_dirty d (pa_est ar) = Some s" by auto
  define ar1 where "ar1 = ar\<lparr>pa_est := s\<rparr>"
  have "extents_reach en (pa_est ar1) (B(d := None))"
    using reach_step [OF re extent_step.dalloc [OF _ assms(2) s]] by (simp add: ar1_def del: fun_upd_apply)
  then have p1: "pages_ok en ar1 (B(d := None))" "kept ar ar1"
    using pages_ok_est [OF assms(1), of ar1 "B(d := None)"] by (simp_all add: ar1_def kept_def del: fun_upd_apply)
  from decay_impl_ok [OF p1(1), of extent_state_dirty False True] obtain b ar2 where
    "arena_decay_dirty en False True ar1 = Some (b, ar2)" "pages_ok en ar2 (B(d := None))" "kept ar1 ar2"
    by (auto simp: arena_decay_dirty_def)
  with s p1 kept_trans [OF p1(2)] show ?thesis
    by (simp add: arena_extents_dirty_dalloc_def ar1_def [symmetric] Let_def del: fun_upd_apply)
qed

end
