(* ===== verification/Large.thy ===== *)
theory Large
  imports Arena_Pages
begin

text \<open>
  src/large.c with the functions of src/arena.c that it calls: allocation, resizing in place and
  freeing of large extents on one arena, with the numbers of active pages and of requests. The arena
  that \<open>arena_choose_maybe_huge\<close> picks is the argument. The bytes of the user are not part of the
  model, so zeroing, junk filling and the assertions on them leave no trace; \<open>opt_zero\<close> is an argument
  because it changes what is asked of the extents.
\<close>

section \<open>The accounts of the arena\<close>

definition arena_extent_alloc_large ::
  "extent_env \<Rightarrow> size_t \<Rightarrow> size_t \<Rightarrow> bool \<Rightarrow> arena_pages \<Rightarrow> ((uintptr option \<times> bool) \<times> arena_pages) option" where
  "arena_extent_alloc_large en usize alignment zero ar = do {
     szind \<leftarrow> sz_size2index (en_tabs en) usize;
     ((extent, zero, commit), s) \<leftarrow>
       extents_alloc en extent_state_dirty 0 usize sz_large_pad alignment False (of_nat szind) zero True (pa_est ar);
     ((extent, zero, commit), s) \<leftarrow>
       (if extent = None \<and> arena_may_have_muzzy ar
        then extents_alloc en extent_state_muzzy 0 usize sz_large_pad alignment False (of_nat szind) zero commit s
        else Some ((extent, zero, commit), s));
     let size = usize + sz_large_pad;
     let mapped_add = (if extent = None then size else 0);
     ((extent, zero, commit), s) \<leftarrow>
       (if extent = None
        then extent_alloc_wrapper en 0 usize sz_large_pad alignment False (of_nat szind) zero commit s
        else Some ((extent, zero, commit), s));
     let ar = ar\<lparr>pa_est := s\<rparr>;
     case extent of
       None \<Rightarrow> Some ((None, zero), ar)
     | Some e \<Rightarrow> do {
         ar \<leftarrow> arena_large_malloc_stats_update en usize ar;
         let ar = (if mapped_add \<noteq> 0 then ar\<lparr>pa_mapped := pa_mapped ar + mapped_add\<rparr> else ar);
         Some ((Some e, zero), arena_pages_add (drop_bit LG_PAGE size) ar)
       }
   }"

definition arena_extent_dalloc_large_prep :: "extent_env \<Rightarrow> uintptr \<Rightarrow> arena_pages \<Rightarrow> arena_pages option" where
  "arena_extent_dalloc_large_prep en extent ar = do {
     usize \<leftarrow> extent_usize_get (en_tabs en) (es_mem (pa_est ar) extent);
     ar \<leftarrow> arena_large_dalloc_stats_update en usize ar;
     arena_pages_sub (drop_bit LG_PAGE (extent_size_get (es_mem (pa_est ar) extent))) ar
   }"

definition arena_extent_ralloc_large_shrink :: "extent_env \<Rightarrow> uintptr \<Rightarrow> size_t \<Rightarrow> arena_pages \<Rightarrow> arena_pages option" where
  "arena_extent_ralloc_large_shrink en extent oldusize ar = do {
     usize \<leftarrow> extent_usize_get (en_tabs en) (es_mem (pa_est ar) extent);
     let udiff = oldusize - usize;
     ar \<leftarrow> arena_large_ralloc_stats_update en oldusize usize ar;
     arena_pages_sub (drop_bit LG_PAGE udiff) ar
   }"

definition arena_extent_ralloc_large_expand :: "extent_env \<Rightarrow> uintptr \<Rightarrow> size_t \<Rightarrow> arena_pages \<Rightarrow> arena_pages option" where
  "arena_extent_ralloc_large_expand en extent oldusize ar = do {
     usize \<leftarrow> extent_usize_get (en_tabs en) (es_mem (pa_est ar) extent);
     let udiff = usize - oldusize;
     ar \<leftarrow> arena_large_ralloc_stats_update en oldusize usize ar;
     Some (arena_pages_add (drop_bit LG_PAGE udiff) ar)
   }"

section \<open>Allocation and deallocation\<close>

definition large_palloc ::
  "extent_env \<Rightarrow> bool \<Rightarrow> size_t \<Rightarrow> size_t \<Rightarrow> bool \<Rightarrow> arena_pages \<Rightarrow> (uintptr option \<times> arena_pages) option" where
  "large_palloc en opt_zero usize alignment zero ar = do {
     ausize \<leftarrow> sz_sa2u (en_tabs en) usize alignment;
     if ausize = 0 \<or> ausize > SC_LARGE_MAXCLASS then Some (None, ar)
     else do {
       let zero = (zero \<or> opt_zero);
       ((extent, is_zeroed), ar) \<leftarrow> arena_extent_alloc_large en usize alignment zero ar;
       case extent of
         None \<Rightarrow> Some (None, ar)
       | Some e \<Rightarrow> do {
           let ar = (if \<not> pa_auto ar then ar\<lparr>pa_large := pa_large ar @ [e]\<rparr> else ar);
           ar \<leftarrow> arena_decay_tick en ar;
           Some (Some (extent_addr_get (es_mem (pa_est ar) e)), ar)
         }
     }
   }"

definition large_malloc :: "extent_env \<Rightarrow> bool \<Rightarrow> size_t \<Rightarrow> bool \<Rightarrow> arena_pages \<Rightarrow> (uintptr option \<times> arena_pages) option" where
  "large_malloc en opt_zero usize zero ar = do {
     u \<leftarrow> sz_s2u (en_tabs en) usize;
     if usize \<noteq> u then None else large_palloc en opt_zero usize CACHELINE zero ar
   }"

text \<open>Removing an element that is not on the list would corrupt it.\<close>

definition large_list_remove :: "uintptr \<Rightarrow> arena_pages \<Rightarrow> arena_pages option" where
  "large_list_remove extent ar =
     (if extent \<in> set (pa_large ar) then Some (ar\<lparr>pa_large := remove1 extent (pa_large ar)\<rparr>) else None)"

text \<open>Both variants take the extent off the list; they differ in who holds the mutex and in junk filling.\<close>

definition large_dalloc_prep_impl :: "extent_env \<Rightarrow> uintptr \<Rightarrow> arena_pages \<Rightarrow> arena_pages option" where
  "large_dalloc_prep_impl en extent ar = do {
     ar \<leftarrow> (if \<not> pa_auto ar then large_list_remove extent ar else Some ar);
     arena_extent_dalloc_large_prep en extent ar
   }"

definition large_dalloc_finish_impl :: "extent_env \<Rightarrow> uintptr \<Rightarrow> arena_pages \<Rightarrow> arena_pages option" where
  "large_dalloc_finish_impl en extent ar = arena_extents_dirty_dalloc en extent ar"

definition large_dalloc_prep_junked_locked :: "extent_env \<Rightarrow> uintptr \<Rightarrow> arena_pages \<Rightarrow> arena_pages option" where
  "large_dalloc_prep_junked_locked en extent ar = large_dalloc_prep_impl en extent ar"

definition large_dalloc_finish :: "extent_env \<Rightarrow> uintptr \<Rightarrow> arena_pages \<Rightarrow> arena_pages option" where
  "large_dalloc_finish en extent ar = large_dalloc_finish_impl en extent ar"

definition large_dalloc :: "extent_env \<Rightarrow> uintptr \<Rightarrow> arena_pages \<Rightarrow> arena_pages option" where
  "large_dalloc en extent ar = do {
     ar \<leftarrow> large_dalloc_prep_impl en extent ar;
     ar \<leftarrow> large_dalloc_finish_impl en extent ar;
     arena_decay_tick en ar
   }"

definition large_salloc :: "extent_env \<Rightarrow> uintptr \<Rightarrow> arena_pages \<Rightarrow> size_t option" where
  "large_salloc en extent ar = extent_usize_get (en_tabs en) (es_mem (pa_est ar) extent)"

section \<open>Resizing\<close>

definition large_ralloc_no_move_shrink :: "extent_env \<Rightarrow> uintptr \<Rightarrow> size_t \<Rightarrow> arena_pages \<Rightarrow> (bool \<times> arena_pages) option" where
  "large_ralloc_no_move_shrink en extent usize ar = do {
     oldusize \<leftarrow> extent_usize_get (en_tabs en) (es_mem (pa_est ar) extent);
     let diff = extent_size_get (es_mem (pa_est ar) extent) - (usize + sz_large_pad);
     if \<not> oldusize > usize then None
     else if \<not> hk_split (en_hooks en) then Some (True, ar)
     else do {
       (err, ar) \<leftarrow>
         (if diff \<noteq> 0
          then do {
            szind \<leftarrow> sz_size2index (en_tabs en) usize;
            let (trail, s) = extent_split_wrapper en extent (usize + sz_large_pad) (of_nat szind) False
                               diff (of_nat SC_NSIZES) False (pa_est ar);
            let ar = ar\<lparr>pa_est := s\<rparr>;
            case trail of
              None \<Rightarrow> Some (True, ar)
            | Some trail \<Rightarrow> do { ar \<leftarrow> arena_extents_dirty_dalloc en trail ar; Some (False, ar) }
          }
          else Some (False, ar));
       if err then Some (True, ar)
       else do { ar \<leftarrow> arena_extent_ralloc_large_shrink en extent oldusize ar; Some (False, ar) }
     }
   }"

text \<open>The three attempts of \<open>large_ralloc_no_move_expand\<close> to get the trail, and whether it is a new mapping.\<close>

definition trail_alloc :: "extent_env \<Rightarrow> uintptr \<Rightarrow> size_t \<Rightarrow> bool \<Rightarrow> estate \<Rightarrow> (bool \<times> uintptr option \<times> estate) option" where
  "trail_alloc en past trailsize zero s = do {
     ((trail, z, c), s) \<leftarrow> extents_alloc en extent_state_dirty past trailsize 0 CACHELINE False (of_nat SC_NSIZES) zero True s;
     ((trail, z, c), s) \<leftarrow>
       (if trail = None then extents_alloc en extent_state_muzzy past trailsize 0 CACHELINE False (of_nat SC_NSIZES) z c s
        else Some ((trail, z, c), s));
     let new_mapping = (trail = None);
     ((trail, z, c), s) \<leftarrow>
       (if trail = None then extent_alloc_wrapper en past trailsize 0 CACHELINE False (of_nat SC_NSIZES) z c s
        else Some ((trail, z, c), s));
     Some (new_mapping, trail, s)
   }"

definition large_ralloc_no_move_expand ::
  "extent_env \<Rightarrow> bool \<Rightarrow> uintptr \<Rightarrow> size_t \<Rightarrow> bool \<Rightarrow> arena_pages \<Rightarrow> (bool \<times> arena_pages) option" where
  "large_ralloc_no_move_expand en opt_zero extent usize zero ar = do {
     oldusize \<leftarrow> extent_usize_get (en_tabs en) (es_mem (pa_est ar) extent);
     let trailsize = usize - oldusize;
     if \<not> hk_merge (en_hooks en) then Some (True, ar)
     else do {
       let is_zeroed_trail = (zero \<or> opt_zero);
       let past = extent_past_get (es_mem (pa_est ar) extent);
       (new_mapping, trail, s) \<leftarrow> trail_alloc en past trailsize is_zeroed_trail (pa_est ar);
       case trail of
         None \<Rightarrow> Some (True, ar\<lparr>pa_est := s\<rparr>)
       | Some trail \<Rightarrow> do {
           let (err, s) = extent_merge_wrapper en extent trail s;
           if err
           then do { s \<leftarrow> extent_dalloc_wrapper en trail s; Some (True, ar\<lparr>pa_est := s\<rparr>) }
           else do {
             szind \<leftarrow> sz_size2index (en_tabs en) usize;
             let s = mem_set s extent (extent_szind_set (es_mem s extent) (of_nat szind));
             s \<leftarrow> szind_slab_update (page_number (extent_addr_get (es_mem s extent))) (of_nat szind) False s;
             let ar = ar\<lparr>pa_est := s\<rparr>;
             let ar = (if new_mapping then ar\<lparr>pa_mapped := pa_mapped ar + trailsize\<rparr> else ar);
             ar \<leftarrow> arena_extent_ralloc_large_expand en extent oldusize ar;
             Some (False, ar)
           }
         }
     }
   }"

text \<open>The end of every successful way through \<open>large_ralloc_no_move\<close>.\<close>

definition ticked :: "extent_env \<Rightarrow> arena_pages \<Rightarrow> (bool \<times> arena_pages) option" where
  "ticked en ar = do { ar \<leftarrow> arena_decay_tick en ar; Some (False, ar) }"

text \<open>Its second half, after the attempts to expand.\<close>

definition large_ralloc_no_move_rest ::
  "extent_env \<Rightarrow> uintptr \<Rightarrow> size_t \<Rightarrow> size_t \<Rightarrow> size_t \<Rightarrow> arena_pages \<Rightarrow> (bool \<times> arena_pages) option" where
  "large_ralloc_no_move_rest en extent oldusize usize_min usize_max ar =
     (if oldusize \<ge> usize_min \<and> oldusize \<le> usize_max then ticked en ar
      else if oldusize > usize_max
      then do {
        (err, ar) \<leftarrow> large_ralloc_no_move_shrink en extent usize_max ar;
        if \<not> err then ticked en ar else Some (True, ar)
      }
      else Some (True, ar))"

text \<open>The second attempt, with \<open>usize_min\<close>, counts as a success when it returns true, as in the code,
  although true is an error.\<close>

definition large_ralloc_no_move ::
  "extent_env \<Rightarrow> bool \<Rightarrow> uintptr \<Rightarrow> size_t \<Rightarrow> size_t \<Rightarrow> bool \<Rightarrow> arena_pages \<Rightarrow> (bool \<times> arena_pages) option" where
  "large_ralloc_no_move en opt_zero extent usize_min usize_max zero ar = do {
     oldusize \<leftarrow> extent_usize_get (en_tabs en) (es_mem (pa_est ar) extent);
     if \<not> (usize_min > 0 \<and> usize_max \<le> SC_LARGE_MAXCLASS) \<or> \<not> (oldusize \<ge> SC_LARGE_MINCLASS \<and> usize_max \<ge> SC_LARGE_MINCLASS)
     then None
     else if usize_max > oldusize
     then do {
       (err, ar) \<leftarrow> large_ralloc_no_move_expand en opt_zero extent usize_max zero ar;
       if \<not> err then ticked en ar
       else do {
         (again, ar) \<leftarrow>
           (if usize_min < usize_max \<and> usize_min > oldusize
            then large_ralloc_no_move_expand en opt_zero extent usize_min zero ar
            else Some (False, ar));
         if again then ticked en ar
         else large_ralloc_no_move_rest en extent oldusize usize_min usize_max ar
       }
     }
     else large_ralloc_no_move_rest en extent oldusize usize_min usize_max ar
   }"

definition large_ralloc_move_helper ::
  "extent_env \<Rightarrow> bool \<Rightarrow> size_t \<Rightarrow> size_t \<Rightarrow> bool \<Rightarrow> arena_pages \<Rightarrow> (uintptr option \<times> arena_pages) option" where
  "large_ralloc_move_helper en opt_zero usize alignment zero ar =
     (if alignment \<le> CACHELINE then large_malloc en opt_zero usize zero ar
      else large_palloc en opt_zero usize alignment zero ar)"

definition iealloc :: "estate \<Rightarrow> uintptr \<Rightarrow> uintptr option" where
  "iealloc s ptr = map_option fst (es_pages s (page_number ptr))"

text \<open>The old memory is freed without a thread cache, where \<open>isdalloct\<close> of a large size is \<open>large_dalloc\<close>
  of the extent of the pointer. Hooks that report the calls do not change the arena.\<close>

definition large_ralloc ::
  "extent_env \<Rightarrow> bool \<Rightarrow> uintptr \<Rightarrow> size_t \<Rightarrow> size_t \<Rightarrow> bool \<Rightarrow> arena_pages \<Rightarrow> (uintptr option \<times> arena_pages) option" where
  "large_ralloc en opt_zero ptr usize alignment zero ar = do {
     extent \<leftarrow> iealloc (pa_est ar) ptr;
     oldusize \<leftarrow> extent_usize_get (en_tabs en) (es_mem (pa_est ar) extent);
     if \<not> (usize > 0 \<and> usize \<le> SC_LARGE_MAXCLASS) \<or> \<not> (oldusize \<ge> SC_LARGE_MINCLASS \<and> usize \<ge> SC_LARGE_MINCLASS)
     then None
     else do {
       (err, ar) \<leftarrow> large_ralloc_no_move en opt_zero extent usize usize zero ar;
       if \<not> err then Some (Some (extent_addr_get (es_mem (pa_est ar) extent)), ar)
       else do {
         (ret, ar) \<leftarrow> large_ralloc_move_helper en opt_zero usize alignment zero ar;
         case ret of
           None \<Rightarrow> Some (None, ar)
         | Some ret \<Rightarrow> do {
             extent \<leftarrow> iealloc (pa_est ar) (extent_addr_get (es_mem (pa_est ar) extent));
             ar \<leftarrow> large_dalloc en extent ar;
             Some (Some ret, ar)
           }
       }
     }
   }"

section \<open>Sizes of classes\<close>

text \<open>The size of class \<open>i\<close>, and the large classes.\<close>

definition usz :: "nat \<Rightarrow> size_t" where "usz i = of_nat (class_size i)"

definition large_class :: "nat \<Rightarrow> bool" where "large_class i \<longleftrightarrow> SC_NBINS \<le> i \<and> i < SC_NSIZES"

lemma large_class_iff: "large_class i \<longleftrightarrow> 36 \<le> i \<and> i < 232"
  by (simp add: large_class_def sc_macro_values)

lemma class_top: "i < 232 \<Longrightarrow> class_size i \<le> 7 * 2 ^ 60"
  using class_size_le_iff [of i 231] max_class_sizes(1) by simp

lemma unat_usz: "i < 232 \<Longrightarrow> unat (usz i) = class_size i"
  using class_top [of i] by (simp add: usz_def unat_of_nat_eq)

lemma usz_le: "i < 232 \<Longrightarrow> j < 232 \<Longrightarrow> usz i \<le> usz j \<longleftrightarrow> i \<le> j" "i < 232 \<Longrightarrow> j < 232 \<Longrightarrow> usz i < usz j \<longleftrightarrow> i < j"
  by (simp_all add: word_le_nat_alt word_less_nat_alt unat_usz class_size_le_iff class_size_less_iff)

lemma class_pages: "36 \<le> i \<Longrightarrow> 4096 dvd class_size i"
proof -
  assume "36 \<le> i"
  moreover have "4096 dvd class_size 36" by (simp add: class_size_group)
  ultimately show ?thesis using class_size_psz [of i] by (cases "i = 36") auto
qed

lemma usz_index:
  assumes "tabs_ok t" "i < 232"
  shows "sz_size2index t (usz i) = Some i" "sz_index2size t i = Some (usz i)" "sz_s2u t (usz i) = Some (usz i)"
proof -
  have "sz_index2size_compute i = usz i" by (simp add: usz_def sz_index2size_compute_eq)
  then show z: "sz_index2size t i = Some (usz i)" using sz_index2size_ok [OF assms(1), of i] assms(2) by (simp add: sc_macro_values)
  have n: "0 < sz_ind2sz_nat i" using sz_ind2sz_nat_eq [of i] class_size_pos assms(2) by (simp add: sc_macro_values)
  have "sz_size2index_compute (usz i) = i"
    using szc.roundtrip [of i] n assms(2) unat_usz [of i] sz_ind2sz_nat_eq [of i]
    by (simp add: sz_size2index_compute_nat sc_macro_values)
  then show "sz_size2index t (usz i) = Some i" using sz_size2index_ok [OF assms(1)] by simp
  have "usz i \<le> SC_LARGE_MAXCLASS" using usz_le(1) [of i 231] assms(2) by (simp add: sc_macro_values usz_def)
  then show "sz_s2u t (usz i) = Some (usz i)"
    using sz_s2u_ok [OF assms(1), of "usz i"] sz_s2u_compute_eq [of "usz i"] \<open>sz_size2index_compute (usz i) = i\<close>
      \<open>sz_index2size_compute i = usz i\<close> by simp
qed

lemma hindex_ok:
  assumes "tabs_ok t" "large_class i"
  shows "large_hindex t (usz i) = Some (i - 36)"
proof -
  have i: "36 \<le> i" "i < 232" using assms(2) by (simp_all add: large_class_iff)
  have "usz 36 = SC_LARGE_MINCLASS" by (simp add: usz_def class_size_group sc_macro_values)
  then have "\<not> usz i < SC_LARGE_MINCLASS" using usz_le(1) [of 36 i] i by (simp add: not_less)
  with i show ?thesis by (simp add: large_hindex_def usz_index [OF assms(1)] sc_macro_values)
qed

section \<open>The invariant\<close>

text \<open>A large extent of class \<open>i\<close>: padded by a page, the address in the first page.\<close>

definition large_ext :: "extent_env \<Rightarrow> extent \<Rightarrow> nat \<Rightarrow> bool" where
  "large_ext en e i \<longleftrightarrow> active_desc en e \<and> \<not> extent_slab_get e \<and> large_class i \<and> ev_szind (extent_view e) = i
     \<and> unat (extent_size_get e) = class_size i + 4096
     \<and> unat (extent_base_get e) \<le> unat (extent_addr_get e) \<and> unat (extent_addr_get e) < unat (extent_base_get e) + 4096"

text \<open>The extents of this arena that are held.\<close>

definition mine :: "extent_env \<Rightarrow> held \<Rightarrow> uintptr set" where
  "mine en B = {d. \<exists>e. B d = Some e \<and> active_desc en e}"

definition held_pages :: "extent_env \<Rightarrow> held \<Rightarrow> nat" where
  "held_pages en B = (\<Sum>d\<in>mine en B. npg (the (B d)))"

definition larges :: "extent_env \<Rightarrow> held \<Rightarrow> uintptr set" where
  "larges en B = {d. \<exists>e i. B d = Some e \<and> large_ext en e i}"

definition apages_inv :: "extent_env \<Rightarrow> arena_pages \<Rightarrow> held \<Rightarrow> bool" where
  "apages_inv en ar B \<longleftrightarrow> pages_ok en ar B \<and> length (pa_lstats ar) = SC_NSIZES - SC_NBINS
     \<and> unat (pa_nactive ar) = held_pages en B
     \<and> (pa_auto ar \<or> distinct (pa_large ar) \<and> set (pa_large ar) = larges en B)"

lemma usize_large: "tabs_ok t \<Longrightarrow> large_ext en e i \<Longrightarrow> extent_usize_get t e = Some (usz i)"
  by (simp add: extent_usize_get_def usz_index large_ext_def large_class_iff extent_view_def)

lemma npg_large: "large_ext en e i \<Longrightarrow> npg e = class_size i div 4096 + 1"
  by (simp add: npg_def large_ext_def)

lemma addr_page: "large_ext en e i \<Longrightarrow> ext_ok e \<Longrightarrow> page_number (extent_addr_get e) = page_number (extent_base_get e)"
proof -
  assume l: "large_ext en e i" and ok: "ext_ok e"
  have f: "fpg e < 2 ^ 36" using ext_okD(4) [OF ok] by simp
  have "4096 * fpg e \<le> unat (extent_addr_get e)" "unat (extent_addr_get e) < 4096 * Suc (fpg e)"
    using l unat_base [of e] by (simp_all add: large_ext_def)
  then have "unat (extent_addr_get e) div 4096 = fpg e"
    by (intro antisym) (simp_all add: div_less_iff_less_mult less_eq_div_iff_mult_less_eq less_Suc_eq_le [symmetric] mult.commute)
  then show ?thesis using page_number_div [of "extent_addr_get e"] page_numbers(1) [OF ok] f by simp
qed

lemma reach_tabs: "run_inv en s B \<Longrightarrow> tabs_ok (en_tabs en)"
  by (auto simp: run_inv_def est_inv_def)

lemma held_finite: "run_inv en s B \<Longrightarrow> finite (dom B)"
  using geoD(1) [OF est_invD(4)] by (fastforce simp: run_inv_def uses_def)

lemma mine_finite: "run_inv en s B \<Longrightarrow> finite (mine en B)"
  by (rule finite_subset [OF _ held_finite]) (auto simp: mine_def)

lemma held_pages_bound: "run_inv en s B \<Longrightarrow> held_pages en B \<le> 2 ^ 35"
proof -
  assume r: "run_inv en s B"
  then obtain V L where i: "est_inv en s {} B (slabs B) V L" by (auto simp: run_inv_def)
  have "held_pages en B = (\<Sum>d\<in>mine en B. npg (es_mem s d))"
    unfolding held_pages_def by (rule sum.cong) (use held_desc [OF r] in \<open>auto simp: mine_def\<close>)
  moreover have "mine en B \<subseteq> uses {} B L" by (auto simp: mine_def uses_def)
  ultimately show ?thesis using use_pages [OF i] by simp
qed

lemma held_pages_add:
  assumes "finite (mine en B)" "d \<notin> dom B" "active_desc en e"
  shows "held_pages en (B(d \<mapsto> e)) = held_pages en B + npg e"
proof -
  have m: "mine en (B(d \<mapsto> e)) = insert d (mine en B)" "d \<notin> mine en B" using assms(2,3) by (auto simp: mine_def)
  have "(\<Sum>x\<in>mine en B. npg (the ((B(d \<mapsto> e)) x))) = held_pages en B"
    unfolding held_pages_def by (rule sum.cong) (use m(2) in auto)
  then show ?thesis using assms(1) m by (simp add: held_pages_def)
qed

lemma held_pages_take:
  assumes "finite (mine en B)" "B d = Some e" "active_desc en e"
  shows "held_pages en B = held_pages en (B(d := None)) + npg e"
proof -
  have B: "B = (B(d := None))(d \<mapsto> e)" using assms(2) by auto
  have "finite (mine en (B(d := None)))" by (rule finite_subset [OF _ assms(1)]) (auto simp: mine_def split: if_splits)
  from held_pages_add [OF this _ assms(3), of d] B show ?thesis by simp
qed

lemma larges_upd:
  "d \<notin> dom B \<Longrightarrow> large_ext en e i \<Longrightarrow> larges en (B(d \<mapsto> e)) = insert d (larges en B)"
  "larges en (B(d := None)) = larges en B - {d}"
  "B d = Some e \<Longrightarrow> large_ext en e i \<Longrightarrow> large_ext en e' j \<Longrightarrow> larges en (B(d \<mapsto> e')) = larges en B"
  by (auto simp: larges_def split: if_splits)

lemma larges_finite: "run_inv en s B \<Longrightarrow> finite (larges en B)"
  by (rule finite_subset [OF _ held_finite]) (auto simp: larges_def)

text \<open>Purging leaves the accounts alone.\<close>

lemma apages_inv_kept: "apages_inv en ar B \<Longrightarrow> pages_ok en ar' B \<Longrightarrow> kept ar ar' \<Longrightarrow> apages_inv en ar' B"
  by (simp add: apages_inv_def kept_def)

lemma tick_ok:
  assumes "apages_inv en ar B"
  shows "\<exists>ar'. arena_decay_tick en ar = Some ar' \<and> apages_inv en ar' B"
  using ticks_ok [of en ar B 1] apages_inv_kept [OF assms] assms by (auto simp: apages_inv_def arena_decay_tick_def)

section \<open>Allocating and freeing\<close>

lemma no_muzzy [simp]: "\<not> arena_may_have_muzzy ar"
  by (simp add: arena_may_have_muzzy_def pages_can_purge_lazy_def)

definition palloc_fits :: "nat \<Rightarrow> nat \<Rightarrow> bool" where
  "palloc_fits i a \<longleftrightarrow> large_class i \<and> a < 62 \<and> class_size i + 2 ^ max 12 a \<le> 7 * 2 ^ 60 + 4096"

text \<open>The promises of the hooks when the collection of dirty extents has nothing to give.\<close>

definition palloc_hooks :: "extent_env \<Rightarrow> nat \<Rightarrow> nat \<Rightarrow> bool \<Rightarrow> arena_pages \<Rightarrow> bool" where
  "palloc_hooks en i a zero ar \<longleftrightarrow> (\<forall>z c s.
     extents_alloc en extent_state_dirty 0 (usz i) sz_large_pad (2 ^ a) False (of_nat i) zero True (pa_est ar) = Some ((None, z, c), s)
     \<longrightarrow> hooks_kept en 0 (usz i) sz_large_pad a False (of_nat i) z c s)"

lemma unat_pad: "unat sz_large_pad = 4096"
  by (simp add: sz_large_pad_def PAGE_def LG_PAGE_def)

lemma padded:
  assumes "i < 232"
  shows "unat (usz i + sz_large_pad) = class_size i + 4096"
  using class_top [OF assms] unat_pad unat_usz [OF assms] by (subst unat_add_eq) simp_all

lemma padded_request: "palloc_fits i a \<Longrightarrow> request (usz i + sz_large_pad) a"
proof -
  assume f: "palloc_fits i a"
  then have i: "36 \<le> i" "i < 232" by (simp_all add: palloc_fits_def large_class_iff)
  with f padded [OF i(2)] class_pages [OF i(1)] show ?thesis by (simp add: request_def page_size_def palloc_fits_def)
qed

lemma szind_small: "i < 232 \<Longrightarrow> unat (of_nat i :: szind) = i"
  by (simp add: unat_of_nat_eq)

lemma granted_large:
  assumes "granted e (usz i) sz_large_pad a False (of_nat i) na" "active_desc en e" "large_class i"
  shows "large_ext en e i" "2 ^ a dvd unat (extent_addr_get e)"
  using assms padded [of i] szind_small [of i] by (simp_all add: granted_def large_ext_def large_class_iff)

lemma malloc_stats_ok:
  assumes "tabs_ok (en_tabs en)" "large_class i" "length (pa_lstats ar) = SC_NSIZES - SC_NBINS"
  shows "\<exists>ls. arena_large_malloc_stats_update en (usz i) ar = Some (ar\<lparr>pa_lstats := ls\<rparr>) \<and> length ls = SC_NSIZES - SC_NBINS"
    "\<exists>ls. arena_large_dalloc_stats_update en (usz i) ar = Some (ar\<lparr>pa_lstats := ls\<rparr>) \<and> length ls = SC_NSIZES - SC_NBINS"
proof -
  have "i - 36 < length (pa_lstats ar)" using assms(2,3) by (auto simp: large_class_iff sc_macro_values)
  then have "arena_large_malloc_stats_update en (usz i) ar = Some (ar\<lparr>pa_lstats := (pa_lstats ar)[i - 36 :=
        (pa_lstats ar ! (i - 36))\<lparr>ls_nmalloc := ls_nmalloc (pa_lstats ar ! (i - 36)) + 1\<rparr>]\<rparr>)"
    "arena_large_dalloc_stats_update en (usz i) ar = Some (ar\<lparr>pa_lstats := (pa_lstats ar)[i - 36 :=
        (pa_lstats ar ! (i - 36))\<lparr>ls_ndalloc := ls_ndalloc (pa_lstats ar ! (i - 36)) + 1\<rparr>]\<rparr>)"
    by (simp_all add: arena_large_malloc_stats_update_def arena_large_dalloc_stats_update_def hindex_ok [OF assms(1,2)])
  with assms(3) show "\<exists>ls. arena_large_malloc_stats_update en (usz i) ar = Some (ar\<lparr>pa_lstats := ls\<rparr>) \<and> length ls = SC_NSIZES - SC_NBINS"
    "\<exists>ls. arena_large_dalloc_stats_update en (usz i) ar = Some (ar\<lparr>pa_lstats := ls\<rparr>) \<and> length ls = SC_NSIZES - SC_NBINS"
    by (metis length_list_update)+
qed

lemma active_new:
  assumes "pages_ok en ar B" "extents_reach en s (B(d \<mapsto> e))"
  shows "pages_ok en (ar\<lparr>pa_est := s, pa_nactive := n, pa_mapped := m, pa_lstats := l\<rparr>) (B(d \<mapsto> e))"
  by (rule pages_ok_est [OF assms(1)]) (use assms(2) in simp_all)

lemma extent_alloc_large_ok:
  assumes "apages_inv en ar B" "palloc_fits i a" "palloc_hooks en i a zero ar"
  shows "\<exists>r z ar'. arena_extent_alloc_large en (usz i) (2 ^ a) zero ar = Some ((r, z), ar') \<and> pa_auto ar' = pa_auto ar \<and>
    (case r of None \<Rightarrow> apages_inv en ar' B
     | Some d \<Rightarrow> \<exists>e. d \<notin> dom B \<and> large_ext en e i \<and> 2 ^ a dvd unat (extent_addr_get e) \<and> pages_ok en ar' (B(d \<mapsto> e))
         \<and> length (pa_lstats ar') = SC_NSIZES - SC_NBINS \<and> unat (pa_nactive ar') = held_pages en (B(d \<mapsto> e))
         \<and> pa_large ar' = pa_large ar)"
proof -
  have ok: "pages_ok en ar B" "extents_reach en (pa_est ar) B" using assms(1) by (simp_all add: apages_inv_def pages_ok_def)
  note inv = reach_inv [OF ok(2)] and tabs = reach_tabs [OF reach_inv [OF ok(2)]]
  have i: "large_class i" "i < 232" using assms(2) by (simp_all add: palloc_fits_def large_class_iff)
  note rq = padded_request [OF assms(2)]
  have zi: "unat (of_nat i :: szind) \<le> SC_NSIZES" using szind_small [OF i(2)] i(2) by (simp add: sc_macro_values)
  have nw: "(0::uintptr) \<noteq> 0 \<longrightarrow> a \<le> 12" by simp
  have dk: "extent_state_dirty \<noteq> extent_state_active" by simp
  from alloc_run [OF inv dk rq nw zi, of False zero True] obtain r1 z1 c1 s1 where
    r1: "extents_alloc en extent_state_dirty 0 (usz i) sz_large_pad (2 ^ a) False (of_nat i) zero True (pa_est ar) = Some ((r1, z1, c1), s1)"
      "alloc_result en B (slabs B) (usz i) sz_large_pad a False (of_nat i) (at_end B 0) r1 s1" by blast
  note re1 = reach_step [OF ok(2) extent_step.alloc [OF dk rq nw zi r1(1)]]
  define c where "c = (if r1 = None
        then extent_alloc_wrapper en 0 (usz i) sz_large_pad (2 ^ a) False (of_nat i) z1 c1 s1
        else Some ((r1, z1, c1), s1))"
  have "\<exists>r z k s. c = Some ((r, z, k), s) \<and> grants en B (usz i) sz_large_pad a False (of_nat i) 0 r s
      \<and> extents_reach en s (handed r s B)"
  proof (cases r1)
    case (Some d)
    with result_grants [OF r1(2)] re1 show ?thesis by (simp add: c_def)
  next
    case None
    have h: "hooks_kept en 0 (usz i) sz_large_pad a False (of_nat i) z1 c1 s1"
      using assms(3) r1(1) None by (simp add: palloc_hooks_def)
    have re: "extents_reach en s1 B" using re1 None by (simp add: handed_def)
    from wrapper_run [OF reach_inv [OF re] rq nw zi h] obtain r z k s where
      r: "extent_alloc_wrapper en 0 (usz i) sz_large_pad (2 ^ a) False (of_nat i) z1 c1 s1 = Some ((r, z, k), s)"
        "alloc_result en B (slabs B) (usz i) sz_large_pad a False (of_nat i) (at_end B 0) r s" by blast
    from reach_step [OF re extent_step.alloc_wrapper [OF rq nw zi h r(1)]] result_grants [OF r(2)] r(1) None show ?thesis
      by (simp add: c_def)
  qed
  then obtain r z k s where c: "c = Some ((r, z, k), s)" "grants en B (usz i) sz_large_pad a False (of_nat i) 0 r s"
    "extents_reach en s (handed r s B)" by blast
  let ?ar = "ar\<lparr>pa_est := s\<rparr>"
  define mapped_add where "mapped_add = (if r1 = None then usz i + sz_large_pad else 0)"
  have unf: "arena_extent_alloc_large en (usz i) (2 ^ a) zero ar = (case r of
       None \<Rightarrow> Some ((None, z), ?ar)
     | Some e \<Rightarrow> do {
         ar \<leftarrow> arena_large_malloc_stats_update en (usz i) ?ar;
         let ar = (if mapped_add \<noteq> 0 then ar\<lparr>pa_mapped := pa_mapped ar + mapped_add\<rparr> else ar);
         Some ((Some e, z), arena_pages_add (drop_bit LG_PAGE (usz i + sz_large_pad)) ar)
       })"
    using r1(1) c(1) by (cases r1)
      (auto simp: arena_extent_alloc_large_def usz_index [OF tabs i(2)] Let_def c_def mapped_add_def cong: option.case_cong if_cong)
  show ?thesis
  proof (cases r)
    case None
    with c(3) have "extents_reach en s B" by (simp add: handed_def)
    then have "pages_ok en ?ar B" using pages_ok_est [OF ok(1), of ?ar B] by simp
    then have "apages_inv en ?ar B" using assms(1) by (simp add: apages_inv_def)
    with unf None show ?thesis by simp
  next
    case (Some d)
    let ?e = "es_mem s d"
    have d: "d \<notin> dom B" "active_desc en ?e" "granted ?e (usz i) sz_large_pad a False (of_nat i) (at_end B 0)"
      "extents_reach en s (B(d \<mapsto> ?e))"
      using c(2,3) Some by (auto simp: grants_def handed_def)
    note l = granted_large [OF d(3,2) i(1)]
    from malloc_stats_ok(1) [OF tabs i(1), of ?ar] assms(1) obtain ls where
      ls: "arena_large_malloc_stats_update en (usz i) ?ar = Some (?ar\<lparr>pa_lstats := ls\<rparr>)" "length ls = SC_NSIZES - SC_NBINS"
      by (auto simp: apages_inv_def)
    define ar' where "ar' = ar\<lparr>pa_est := s, pa_nactive := pa_nactive ar + drop_bit LG_PAGE (usz i + sz_large_pad),
      pa_mapped := (if mapped_add \<noteq> 0 then pa_mapped ar + mapped_add else pa_mapped ar), pa_lstats := ls\<rparr>"
    have "arena_extent_alloc_large en (usz i) (2 ^ a) zero ar = Some ((Some d, z), ar')"
      using unf Some ls(1) by (simp add: Let_def arena_pages_add_def ar'_def)
    moreover have "pages_ok en ar' (B(d \<mapsto> ?e))" unfolding ar'_def by (rule active_new [OF ok(1) d(4)])
    moreover have "unat (pa_nactive ar') = held_pages en (B(d \<mapsto> ?e))"
    proof -
      have hp: "held_pages en (B(d \<mapsto> ?e)) = held_pages en B + npg ?e" by (rule held_pages_add [OF mine_finite [OF inv] d(1,2)])
      have b: "held_pages en (B(d \<mapsto> ?e)) \<le> 2 ^ 35" by (rule held_pages_bound [OF reach_inv [OF d(4)]])
      have sz: "extent_size_get ?e = usz i + sz_large_pad" using d(3) by (simp add: granted_def)
      have "drop_bit LG_PAGE (usz i + sz_large_pad) = of_nat (npg ?e)" using pages_of [of ?e] sz by simp
      then show ?thesis using assms(1) hp b
        by (simp add: ar'_def apages_inv_def) (subst unat_add_eq; simp add: unat_of_nat_eq)
    qed
    ultimately show ?thesis using d(1) l ls(2) by (auto simp: ar'_def)
  qed
qed

lemma sa2u_large:
  assumes "tabs_ok t" "palloc_fits i a"
  shows "\<exists>u. sz_sa2u t (usz i) (2 ^ a) = Some u \<and> u \<noteq> 0"
proof -
  have i: "36 \<le> i" "i < 232" "a < 62" using assms(2) by (simp_all add: palloc_fits_def large_class_iff)
  have "4096 \<le> class_size i" using class_size_le_iff [of 28 i] i(1) by (simp add: class_size_small)
  then have i4: "2 ^ max 12 a \<le> (7 * 2 ^ 60 :: nat)" using assms(2) by (simp add: palloc_fits_def)
  have "usz 35 = SC_SMALL_MAXCLASS" by (simp add: usz_def sc_macro_values)
  then have "\<not> usz i \<le> SC_SMALL_MAXCLASS" using usz_le(1) [of i 35] i by simp
  then have l: "sz_sa2u t (usz i) (2 ^ a) = sz_sa2u_large t (usz i) (2 ^ a)" by (simp add: sz_sa2u_def)
  have w: "0 < usz i" using unat_usz [OF i(2)] class_size_pos [of i] by (simp add: word_less_nat_alt)
  have le: "usz i \<le> SC_LARGE_MAXCLASS" using usz_le(1) [of i 231] i by (simp add: sc_macro_values usz_def)
  have "(2::nat) ^ a \<le> 2 ^ max 12 a" by (rule power_increasing) simp_all
  then have "(2::nat) ^ a \<le> 7 * 2 ^ 60" using i4 by linarith
  then have "(2 ^ a :: size_t) \<le> SC_LARGE_MAXCLASS"
    using i(3) by (simp only: le_LARGE_MAXCLASS) (simp add: unat_two_power)
  with sz_sa2u_large_ok [OF assms(1) w, of a] i(3) le l show ?thesis by auto
qed

text \<open>A held large extent is on the list from then on.\<close>

lemma palloc_ok:
  assumes "apages_inv en ar B" "palloc_fits i a" "palloc_hooks en i a (zero \<or> oz) ar"
  shows "\<exists>r ar'. large_palloc en oz (usz i) (2 ^ a) zero ar = Some (r, ar') \<and>
    (case r of None \<Rightarrow> apages_inv en ar' B
     | Some p \<Rightarrow> \<exists>d e. d \<notin> dom B \<and> large_ext en e i \<and> p = extent_addr_get e \<and> 2 ^ a dvd unat p
         \<and> apages_inv en ar' (B(d \<mapsto> e)))"
proof -
  have "extents_reach en (pa_est ar) B" using assms(1) by (simp add: apages_inv_def pages_ok_def)
  note inv = reach_inv [OF this]
  note tabs = reach_tabs [OF inv]
  from sa2u_large [OF tabs assms(2)] obtain u where u: "sz_sa2u (en_tabs en) (usz i) (2 ^ a) = Some u" "u \<noteq> 0" by blast
  show ?thesis
  proof (cases "u > SC_LARGE_MAXCLASS")
    case True
    then have "large_palloc en oz (usz i) (2 ^ a) zero ar = Some (None, ar)" using u by (simp add: large_palloc_def)
    with assms(1) show ?thesis by simp
  next
    case False
    from extent_alloc_large_ok [OF assms] obtain r z ar1 where
      r: "arena_extent_alloc_large en (usz i) (2 ^ a) (zero \<or> oz) ar = Some ((r, z), ar1)" "pa_auto ar1 = pa_auto ar"
        "case r of None \<Rightarrow> apages_inv en ar1 B
         | Some d \<Rightarrow> \<exists>e. d \<notin> dom B \<and> large_ext en e i \<and> 2 ^ a dvd unat (extent_addr_get e) \<and> pages_ok en ar1 (B(d \<mapsto> e))
             \<and> length (pa_lstats ar1) = SC_NSIZES - SC_NBINS \<and> unat (pa_nactive ar1) = held_pages en (B(d \<mapsto> e))
             \<and> pa_large ar1 = pa_large ar" by blast
    note unf = u r(1) False
    show ?thesis
    proof (cases r)
      case None
      with unf r(3) show ?thesis by (simp add: large_palloc_def)
    next
      case (Some d)
      with r(3) obtain e where e: "d \<notin> dom B" "large_ext en e i" "2 ^ a dvd unat (extent_addr_get e)"
        "pages_ok en ar1 (B(d \<mapsto> e))" "length (pa_lstats ar1) = SC_NSIZES - SC_NBINS"
        "unat (pa_nactive ar1) = held_pages en (B(d \<mapsto> e))" "pa_large ar1 = pa_large ar" by auto
      define ar2 where "ar2 = (if \<not> pa_auto ar1 then ar1\<lparr>pa_large := pa_large ar1 @ [d]\<rparr> else ar1)"
      have "pages_ok en ar2 (B(d \<mapsto> e))"
        using pages_ok_est [OF e(4), of ar2 "B(d \<mapsto> e)"] e(4) by (simp add: ar2_def pages_ok_def)
      moreover have "d \<notin> larges en B" using e(1) by (auto simp: larges_def)
      ultimately have "apages_inv en ar2 (B(d \<mapsto> e))"
        using assms(1) e r(2) larges_upd(1) [OF e(1,2)] by (auto simp: apages_inv_def ar2_def)
      from tick_ok [OF this] obtain ar3 where t: "arena_decay_tick en ar2 = Some ar3" "apages_inv en ar3 (B(d \<mapsto> e))" by blast
      have "extents_reach en (pa_est ar3) (B(d \<mapsto> e))" using t(2) by (simp add: apages_inv_def pages_ok_def)
      then have "es_mem (pa_est ar3) d = e" using held_desc [OF reach_inv, of en "pa_est ar3" "B(d \<mapsto> e)" d e] by simp
      with unf Some t(1) have "large_palloc en oz (usz i) (2 ^ a) zero ar = Some (Some (extent_addr_get e), ar3)"
        by (simp add: large_palloc_def ar2_def Let_def split del: if_split)
      with e t(2) show ?thesis by auto
    qed
  qed
qed

lemma prep_ok:
  assumes "apages_inv en ar B" "B d = Some e" "large_ext en e i"
  shows "\<exists>ar'. large_dalloc_prep_impl en d ar = Some ar' \<and> pages_ok en ar' B \<and> length (pa_lstats ar') = SC_NSIZES - SC_NBINS
    \<and> unat (pa_nactive ar') = held_pages en (B(d := None))
    \<and> (pa_auto ar' \<or> distinct (pa_large ar') \<and> set (pa_large ar') = larges en (B(d := None)))"
proof -
  have ok: "pages_ok en ar B" "extents_reach en (pa_est ar) B" using assms(1) by (simp_all add: apages_inv_def pages_ok_def)
  note inv = reach_inv [OF ok(2)]
  have m: "es_mem (pa_est ar) d = e" using held_desc [OF inv assms(2)] by simp
  have i: "large_class i" "active_desc en e" using assms(3) by (simp_all add: large_ext_def)
  have "d \<in> larges en B" using assms(2,3) by (auto simp: larges_def)
  then have inl: "pa_auto ar \<or> d \<in> set (pa_large ar)" using assms(1) by (auto simp: apages_inv_def)
  define ar1 where "ar1 = (if \<not> pa_auto ar then ar\<lparr>pa_large := remove1 d (pa_large ar)\<rparr> else ar)"
  have 1: "(if \<not> pa_auto ar then large_list_remove d ar else Some ar) = Some ar1"
    using inl by (auto simp: large_list_remove_def ar1_def)
  have ar1: "pa_est ar1 = pa_est ar" "length (pa_lstats ar1) = SC_NSIZES - SC_NBINS" "pa_nactive ar1 = pa_nactive ar"
    "pa_auto ar1 \<or> distinct (pa_large ar1) \<and> set (pa_large ar1) = larges en (B(d := None))"
    using assms(1) by (simp_all add: ar1_def apages_inv_def larges_upd(2)) (elim conjE disjE; simp add: distinct_remove1 set_remove1_eq)
  from malloc_stats_ok(2) [OF reach_tabs [OF inv] i(1) ar1(2)] obtain ls where
    ls: "arena_large_dalloc_stats_update en (usz i) ar1 = Some (ar1\<lparr>pa_lstats := ls\<rparr>)" "length ls = SC_NSIZES - SC_NBINS" by blast
  have hp: "held_pages en B = held_pages en (B(d := None)) + npg e" by (rule held_pages_take [OF mine_finite [OF inv] assms(2) i(2)])
  have na: "unat (pa_nactive ar) = held_pages en B" using assms(1) by (simp add: apages_inv_def)
  have b: "held_pages en B \<le> 2 ^ 35" by (rule held_pages_bound [OF inv])
  have n: "unat (of_nat (npg e) :: size_t) = npg e" using hp b by (intro unat_of_nat_eq) simp
  define ar2 where "ar2 = ar1\<lparr>pa_lstats := ls, pa_nactive := pa_nactive ar - of_nat (npg e)\<rparr>"
  have le: "of_nat (npg e) \<le> pa_nactive ar" using n na hp by (simp add: word_le_nat_alt)
  have "arena_extent_dalloc_large_prep en d ar1 = Some ar2"
    using ls(1) usize_large [OF reach_tabs [OF inv] assms(3)] m ar1(1,3) le
    by (simp add: arena_extent_dalloc_large_prep_def arena_pages_sub_def pages_of ar2_def)
  moreover have "pages_ok en ar2 B"
    by (rule pages_ok_est [OF ok(1)]) (use ok(2) in \<open>simp_all add: ar2_def ar1_def\<close>)
  moreover have "unat (pa_nactive ar2) = held_pages en (B(d := None))"
    using le n na hp by (simp add: ar2_def unat_diff_eq)
  ultimately show ?thesis using 1 ls(2) ar1(4) by (simp add: large_dalloc_prep_impl_def ar2_def)
qed

lemma large_dalloc_ok:
  assumes "apages_inv en ar B" "B d = Some e" "large_ext en e i"
  shows "\<exists>ar'. large_dalloc en d ar = Some ar' \<and> apages_inv en ar' (B(d := None))"
proof -
  from prep_ok [OF assms] obtain ar1 where
    a1: "large_dalloc_prep_impl en d ar = Some ar1" "pages_ok en ar1 B" "length (pa_lstats ar1) = SC_NSIZES - SC_NBINS"
      "unat (pa_nactive ar1) = held_pages en (B(d := None))"
      "pa_auto ar1 \<or> distinct (pa_large ar1) \<and> set (pa_large ar1) = larges en (B(d := None))" by blast
  have h: "holds en B d e" using assms(2,3) by (simp add: holds_def large_ext_def)
  from dirty_dalloc_ok [OF a1(2) h] obtain ar2 where
    a2: "arena_extents_dirty_dalloc en d ar1 = Some ar2" "pages_ok en ar2 (B(d := None))" "kept ar1 ar2" by blast
  have "apages_inv en ar2 (B(d := None))" using a1 a2(2,3) by (simp add: apages_inv_def kept_def)
  from tick_ok [OF this] a1(1) a2(1) show ?thesis by (simp add: large_dalloc_def large_dalloc_finish_impl_def del: fun_upd_apply)
qed

section \<open>Resizing in place\<close>

text \<open>What the account of a resized extent comes to.\<close>

lemma ralloc_stats_ok:
  assumes "tabs_ok (en_tabs en)" "large_class i" "large_class j" "length (pa_lstats ar) = SC_NSIZES - SC_NBINS"
  shows "\<exists>ls. arena_large_ralloc_stats_update en (usz i) (usz j) ar = Some (ar\<lparr>pa_lstats := ls\<rparr>) \<and> length ls = SC_NSIZES - SC_NBINS"
proof -
  from malloc_stats_ok(2) [OF assms(1,2,4)] obtain ls where
    l: "arena_large_dalloc_stats_update en (usz i) ar = Some (ar\<lparr>pa_lstats := ls\<rparr>)" "length ls = SC_NSIZES - SC_NBINS" by blast
  from malloc_stats_ok(1) [OF assms(1,3), of "ar\<lparr>pa_lstats := ls\<rparr>"] l show ?thesis
    by (auto simp: arena_large_ralloc_stats_update_def)
qed

lemma pages_between:
  assumes "36 \<le> i" "i < j" "j < 232"
  shows "unat (usz j - usz i) = class_size j - class_size i" "drop_bit LG_PAGE (usz j - usz i) = of_nat ((class_size j - class_size i) div 4096)"
    "4096 dvd class_size j - class_size i" "class_size i < class_size j"
proof -
  show lt: "class_size i < class_size j" using assms(2) by (simp add: class_size_less_iff)
  show u: "unat (usz j - usz i) = class_size j - class_size i"
    using assms lt by (subst unat_diff_eq) (simp_all add: word_le_nat_alt unat_usz)
  show "4096 dvd class_size j - class_size i" using class_pages [of i] class_pages [of j] assms by (simp add: dvd_diff_nat)
  have "(class_size j - class_size i) div 4096 < 2 ^ 64"
    using class_top [OF assms(3)] by (intro le_less_trans [OF div_le_dividend]) simp
  then show "drop_bit LG_PAGE (usz j - usz i) = of_nat ((class_size j - class_size i) div 4096)"
    by (simp add: word_unat_eq_iff unat_drop_bit_div LG_PAGE_def u unat_of_nat_eq)
qed

lemma npg_between:
  assumes "large_ext en e i" "large_ext en e' j" "i < j"
  shows "npg e' = npg e + (class_size j - class_size i) div 4096"
proof -
  have ij: "36 \<le> i" "i < j" "j < 232" using assms by (auto simp: large_ext_def large_class_iff)
  obtain p q where "class_size i = 4096 * p" "class_size j = 4096 * q"
    using class_pages [of i] class_pages [of j] ij by (auto elim!: dvdE)
  then show ?thesis using pages_between(4) [OF ij] assms(1,2) by (simp add: npg_large diff_mult_distrib2 [symmetric])
qed

lemma held_pages_resize:
  assumes "finite (mine en B)" "B d = Some e" "active_desc en e" "active_desc en e'"
  shows "held_pages en (B(d \<mapsto> e')) + npg e = held_pages en B + npg e'"
proof -
  have "finite (mine en (B(d := None)))" by (rule finite_subset [OF _ assms(1)]) (auto simp: mine_def split: if_splits)
  from held_pages_add [OF this _ assms(4), of d] held_pages_take [OF assms(1-3)] show ?thesis by simp
qed

lemma expand_account_ok:
  assumes "apages_inv en ar B" "B d = Some e" "large_ext en e i" "large_ext en e' j" "i < j"
    and "extents_reach en s (B(d \<mapsto> e'))"
  shows "\<exists>ar'. arena_extent_ralloc_large_expand en d (usz i) (ar\<lparr>pa_est := s, pa_mapped := m\<rparr>) = Some ar' \<and> apages_inv en ar' (B(d \<mapsto> e'))"
proof -
  let ?ar = "ar\<lparr>pa_est := s, pa_mapped := m\<rparr>" and ?p = "(class_size j - class_size i) div 4096"
  have ok: "pages_ok en ar B" "extents_reach en (pa_est ar) B" using assms(1) by (simp_all add: apages_inv_def pages_ok_def)
  note inv = reach_inv [OF assms(6)] and inv0 = reach_inv [OF ok(2)]
  have ij: "large_class i" "large_class j" "36 \<le> i" "j < 232" "active_desc en e" "active_desc en e'"
    using assms(3,4) by (simp_all add: large_ext_def large_class_iff)
  have m: "es_mem s d = e'" using held_desc [OF inv, of d e'] by simp
  from ralloc_stats_ok [OF reach_tabs [OF inv] ij(1,2), of ?ar] assms(1) obtain ls where
    ls: "arena_large_ralloc_stats_update en (usz i) (usz j) ?ar = Some (?ar\<lparr>pa_lstats := ls\<rparr>)" "length ls = SC_NSIZES - SC_NBINS"
    by (auto simp: apages_inv_def)
  define ar' where "ar' = ar\<lparr>pa_est := s, pa_nactive := pa_nactive ar + of_nat ?p, pa_mapped := m, pa_lstats := ls\<rparr>"
  have "arena_extent_ralloc_large_expand en d (usz i) ?ar = Some ar'"
    using ls(1) usize_large [OF reach_tabs [OF inv] assms(4)] m pages_between(2) [OF ij(3) assms(5) ij(4)]
    by (simp add: arena_extent_ralloc_large_expand_def arena_pages_add_def Let_def ar'_def)
  moreover have "pages_ok en ar' (B(d \<mapsto> e'))" unfolding ar'_def by (rule active_new [OF ok(1) assms(6)])
  moreover have "unat (pa_nactive ar') = held_pages en (B(d \<mapsto> e'))"
  proof -
    have "held_pages en (B(d \<mapsto> e')) = held_pages en B + ?p"
      using held_pages_resize [OF mine_finite [OF inv0] assms(2) ij(5,6)] npg_between [OF assms(3-5)] by simp
    moreover have "held_pages en (B(d \<mapsto> e')) \<le> 2 ^ 35" by (rule held_pages_bound [OF inv])
    moreover have "unat (pa_nactive ar) = held_pages en B" using assms(1) by (simp add: apages_inv_def)
    ultimately show ?thesis by (simp add: ar'_def) (subst unat_add_eq; simp add: unat_of_nat_eq)
  qed
  ultimately show ?thesis using assms(1) ls(2) larges_upd(3) [of B d e, OF assms(2-4)] by (simp add: apages_inv_def ar'_def)
qed

text \<open>The promises of the hooks when neither dirty nor muzzy extents follow the extent.\<close>

definition expand_hooks :: "extent_env \<Rightarrow> extent \<Rightarrow> nat \<Rightarrow> nat \<Rightarrow> bool \<Rightarrow> arena_pages \<Rightarrow> bool" where
  "expand_hooks en e i j zero ar \<longleftrightarrow> hk_merge (en_hooks en) \<longrightarrow> (\<forall>z c s z' c' s'.
     extents_alloc en extent_state_dirty (extent_past_get e) (usz j - usz i) 0 CACHELINE False (of_nat SC_NSIZES) zero True (pa_est ar)
       = Some ((None, z, c), s) \<longrightarrow>
     extents_alloc en extent_state_muzzy (extent_past_get e) (usz j - usz i) 0 CACHELINE False (of_nat SC_NSIZES) z c s
       = Some ((None, z', c'), s') \<longrightarrow>
     hooks_kept en (extent_past_get e) (usz j - usz i) 0 6 False (of_nat SC_NSIZES) z' c' s')"

lemma trail_request:
  assumes "36 \<le> i" "i < j" "j < 232"
  shows "request (usz j - usz i + 0) 6"
proof -
  have "unat (usz j - usz i) \<le> 7 * 2 ^ 60" using pages_between(1) [OF assms] class_top [OF assms(3)] by simp
  then show ?thesis using pages_between [OF assms] by (simp add: request_def page_size_def)
qed

lemma past_nonzero: "ext_ok e \<Longrightarrow> extent_past_get e \<noteq> 0"
proof -
  assume ok: "ext_ok e"
  have "unat (extent_past_get e) = 4096 * (fpg e + npg e)"
    unfolding extent_past_get_def using ext_okD(1,4) [OF ok] unat_base [of e] by (subst unat_add_eq) simp_all
  with ext_okD(2) [OF ok] show ?thesis by auto
qed

lemma trail_alloc_ok:
  assumes "extents_reach en s B" "B d = Some e" "36 \<le> i" "i < j" "j < 232" "pa_est ar = s" "expand_hooks en e i j zero ar"
    and "hk_merge (en_hooks en)"
  shows "\<exists>nm r s'. trail_alloc en (extent_past_get e) (usz j - usz i) zero s = Some (nm, r, s')
    \<and> extents_reach en s' (handed r s' B) \<and> grants en B (usz j - usz i) 0 6 False (of_nat SC_NSIZES) (extent_past_get e) r s'"
proof -
  let ?past = "extent_past_get e" and ?w = "usz j - usz i" and ?z = "of_nat SC_NSIZES :: szind"
  have al: "CACHELINE = 2 ^ 6" by (simp add: CACHELINE_def)
  note rq = trail_request [OF assms(3-5)]
  have nw: "?past \<noteq> 0 \<longrightarrow> (6::nat) \<le> 12" by simp
  have k: "extent_state_dirty \<noteq> extent_state_active" "extent_state_muzzy \<noteq> extent_state_active" by simp_all
  from alloc_run [OF reach_inv [OF assms(1)] k(1) rq nw nsizes_ok, of False zero True] obtain r1 z1 c1 s1 where
    r1: "extents_alloc en extent_state_dirty ?past ?w 0 (2 ^ 6) False ?z zero True s = Some ((r1, z1, c1), s1)"
      "alloc_result en B (slabs B) ?w 0 6 False ?z (at_end B ?past) r1 s1" by blast
  note re1 = reach_step [OF assms(1) extent_step.alloc [OF k(1) rq nw nsizes_ok r1(1)]]
  show ?thesis
  proof (cases r1)
    case (Some t)
    with r1 re1 result_grants [OF r1(2)] show ?thesis by (intro exI [of _ False]) (simp add: trail_alloc_def al Let_def)
  next
    case None
    then have re1: "extents_reach en s1 B" using re1 by (simp add: handed_def)
    from alloc_run [OF reach_inv [OF re1] k(2) rq nw nsizes_ok, of False z1 c1] obtain r2 z2 c2 s2 where
      r2: "extents_alloc en extent_state_muzzy ?past ?w 0 (2 ^ 6) False ?z z1 c1 s1 = Some ((r2, z2, c2), s2)"
        "alloc_result en B (slabs B) ?w 0 6 False ?z (at_end B ?past) r2 s2" by blast
    note re2 = reach_step [OF re1 extent_step.alloc [OF k(2) rq nw nsizes_ok r2(1)]]
    show ?thesis
    proof (cases r2)
      case (Some t)
      with r1(1) r2 None re2 result_grants [OF r2(2)] show ?thesis by (intro exI [of _ False]) (simp add: trail_alloc_def al Let_def)
    next
      case r2n: None
      then have re2: "extents_reach en s2 B" using re2 by (simp add: handed_def)
      have h: "hooks_kept en ?past ?w 0 6 False ?z z2 c2 s2"
        using assms(6-8) r1(1) r2(1) None r2n by (simp add: expand_hooks_def al)
      from wrapper_run [OF reach_inv [OF re2] rq nw nsizes_ok h] obtain r3 z3 c3 s3 where
        r3: "extent_alloc_wrapper en ?past ?w 0 (2 ^ 6) False ?z z2 c2 s2 = Some ((r3, z3, c3), s3)"
          "alloc_result en B (slabs B) ?w 0 6 False ?z (at_end B ?past) r3 s3" by blast
      from reach_step [OF re2 extent_step.alloc_wrapper [OF rq nw nsizes_ok h r3(1)]] result_grants [OF r3(2)] r1(1) r2(1) r3(1) None r2n
      show ?thesis by (intro exI [of _ True]) (simp add: trail_alloc_def al Let_def)
    qed
  qed
qed

lemma expand_unfold:
  assumes "extent_usize_get (en_tabs en) (es_mem (pa_est ar) d) = Some (usz i)" "hk_merge (en_hooks en)"
    and "trail_alloc en (extent_past_get (es_mem (pa_est ar) d)) (usz j - usz i) (zero \<or> oz) (pa_est ar) = Some (nm, r, s)"
    and "sz_size2index (en_tabs en) (usz j) = Some j"
  shows "large_ralloc_no_move_expand en oz d (usz j) zero ar = (case r of
       None \<Rightarrow> Some (True, ar\<lparr>pa_est := s\<rparr>)
     | Some trail \<Rightarrow> (let (err, s) = extent_merge_wrapper en d trail s
         in if err then do { s \<leftarrow> extent_dalloc_wrapper en trail s; Some (True, ar\<lparr>pa_est := s\<rparr>) }
            else do {
              s \<leftarrow> szind_slab_update (page_number (extent_addr_get (extent_szind_set (es_mem s d) (of_nat j)))) (of_nat j) False
                     (mem_set s d (extent_szind_set (es_mem s d) (of_nat j)));
              ar \<leftarrow> arena_extent_ralloc_large_expand en d (usz i)
                     (ar\<lparr>pa_est := s, pa_mapped := (if nm then pa_mapped ar + (usz j - usz i) else pa_mapped ar)\<rparr>);
              Some (False, ar)
            }))"
  using assms by (cases r) (simp_all add: large_ralloc_no_move_expand_def Let_def mem_set_def case_prod_beta cong: if_cong)

text \<open>The extent that the old one and a trail behind it become.\<close>

lemma expanded_desc:
  assumes "large_ext en e i" "large_class j" "i < j" "ext_ok e" "ext_ok t" "active_desc en e"
    and "extent_base_get t = extent_past_get e" "extent_size_get t = usz j - usz i"
  shows "large_ext en (extent_szind_set (merged_desc e t) (of_nat j)) j"
    "extent_addr_get (extent_szind_set (merged_desc e t) (of_nat j)) = extent_addr_get e"
    "same_span (extent_szind_set (merged_desc e t) (of_nat j)) (merged_desc e t)"
    "page_number (extent_addr_get (merged_desc e t)) = page_number (extent_base_get (merged_desc e t))"
proof -
  let ?m = "merged_desc e t" and ?e = "extent_szind_set (merged_desc e t) (of_nat j)"
  have ij: "36 \<le> i" "i < j" "j < 232" using assms(1-3) by (simp_all add: large_ext_def large_class_iff)
  have pp: "fpg t = fpg e + npg e" by (rule past_pages [OF assms(4,5)]) (use assms(7) in simp)
  have "fpg e + npg e + npg t \<le> 2 ^ 35" using pp ext_okD(4) [OF assms(5)] by simp
  note mv = merged_view [OF assms(4,5) this]
  have "unat (of_nat j :: szind) < 2 ^ 8" using ij(3) by (simp add: szind_small)
  note v = view_szind_set [OF this, of ?m]
  have b: "extent_base_get ?m = extent_base_get e" by (rule base_of) (rule mv(1))
  have "unat (extent_size_get ?m) = class_size j + 4096"
    using mv(3) assms(1,8) pages_between(1,4) [OF ij] by (simp add: large_ext_def)
  then show "large_ext en ?e j" using assms(1,2,6) mv(1,2,9) b ij(3)
    by (simp add: large_ext_def active_desc_def get_view v szind_small)
  show "extent_addr_get ?e = extent_addr_get e" using mv(1) by (simp add: get_view v)
  show "same_span ?e ?m" by (simp add: same_span_def fpg_def npg_def get_view v)
  show "page_number (extent_addr_get ?m) = page_number (extent_base_get ?m)"
    using addr_page [OF assms(1,4)] mv(1) b by simp
qed

lemma expand_ok:
  assumes "apages_inv en ar B" "B d = Some e" "large_ext en e i" "large_class j" "i < j" "expand_hooks en e i j (zero \<or> oz) ar"
  shows "\<exists>err ar'. large_ralloc_no_move_expand en oz d (usz j) zero ar = Some (err, ar') \<and>
    (if err then apages_inv en ar' B
     else \<exists>e'. apages_inv en ar' (B(d \<mapsto> e')) \<and> large_ext en e' j \<and> extent_addr_get e' = extent_addr_get e)"
proof -
  have ok: "pages_ok en ar B" "extents_reach en (pa_est ar) B" using assms(1) by (simp_all add: apages_inv_def pages_ok_def)
  note inv = reach_inv [OF ok(2)]
  note tabs = reach_tabs [OF inv]
  have ij: "36 \<le> i" "i < j" "j < 232" "active_desc en e" "\<not> extent_slab_get e"
    using assms(3-5) by (simp_all add: large_ext_def large_class_iff)
  have m: "es_mem (pa_est ar) d = e" "ext_ok e" using held_desc [OF inv assms(2)] by simp_all
  note us = usize_large [OF tabs assms(3)]
  have put: "apages_inv en (ar\<lparr>pa_est := s\<rparr>) B" if "extents_reach en s B" for s
    using pages_ok_est [OF ok(1), of "ar\<lparr>pa_est := s\<rparr>" B] that assms(1) by (simp add: apages_inv_def)
  show ?thesis
  proof (cases "hk_merge (en_hooks en)")
    case False
    with us m assms(1) show ?thesis by (intro exI [of _ True] exI [of _ ar]) (simp add: large_ralloc_no_move_expand_def Let_def)
  next
    case True
    from trail_alloc_ok [OF ok(2) assms(2) ij(1-3) refl assms(6) True] obtain nm r s1 where
      t: "trail_alloc en (extent_past_get e) (usz j - usz i) (zero \<or> oz) (pa_est ar) = Some (nm, r, s1)"
        "extents_reach en s1 (handed r s1 B)" "grants en B (usz j - usz i) 0 6 False (of_nat SC_NSIZES) (extent_past_get e) r s1"
      by blast
    have "extent_usize_get (en_tabs en) (es_mem (pa_est ar) d) = Some (usz i)"
      "trail_alloc en (extent_past_get (es_mem (pa_est ar) d)) (usz j - usz i) (zero \<or> oz) (pa_est ar) = Some (nm, r, s1)"
      using us t(1) m(1) by simp_all
    note unf = expand_unfold [OF this(1) True this(2) usz_index(1) [OF tabs ij(3)]]
    show ?thesis
    proof (cases r)
      case None
      with t(2) have "extents_reach en s1 B" by (simp add: handed_def)
      with unf None put show ?thesis by (intro exI [of _ True]) simp
    next
      case (Some x)
      let ?B1 = "B(x \<mapsto> es_mem s1 x)"
      have x: "x \<notin> dom B" "active_desc en (es_mem s1 x)" "extents_reach en s1 ?B1"
        "granted (es_mem s1 x) (usz j - usz i) 0 6 False (of_nat SC_NSIZES) (at_end B (extent_past_get e))"
        using t(2,3) Some by (simp_all add: grants_def handed_def)
      have at: "at_end B (extent_past_get e) = extent_past_get e" using assms(2) by (auto simp: at_end_def)
      have g: "extent_size_get (es_mem s1 x) = usz j - usz i" "extent_base_get (es_mem s1 x) = extent_past_get e"
        "extent_addr_get (es_mem s1 x) = extent_base_get (es_mem s1 x)" "\<not> extent_slab_get (es_mem s1 x)"
        using x(4) past_nonzero [OF m(2)] by (simp_all add: granted_def at)
      have xd: "x \<noteq> d" using x(1) assms(2) by auto
      have h: "holds en ?B1 d e" "holds en ?B1 x (es_mem s1 x)" using xd assms(2) ij(4) x(2) by (simp_all add: holds_def)
      note inv1 = reach_inv [OF x(3)]
      have ms: "es_mem s1 d = e" "ext_ok (es_mem s1 x)"
        using held_desc [OF inv1, of d e] held_desc [OF inv1, of x "es_mem s1 x"] xd assms(2) by simp_all
      obtain err s2 where mg: "extent_merge_wrapper en d x s1 = (err, s2)" by (cases "extent_merge_wrapper en d x s1")
      note mr = merge_run [OF inv1 h xd [symmetric] ij(5) g(4) g(2) [symmetric] mg]
      note re2 = reach_step [OF x(3) extent_step.merge [OF h xd [symmetric] ij(5) g(4) g(2) [symmetric] mg]]
      show ?thesis
      proof (cases err)
        case True
        with re2 have r2: "extents_reach en s2 ?B1" by simp
        from dalloc_wrapper_run [OF reach_inv [OF r2] h(2) g(3)] obtain s3 where
          s3: "extent_dalloc_wrapper en x s2 = Some s3" by blast
        from reach_step [OF r2 extent_step.dalloc_wrapper [OF h(2) g(3) s3]] have "extents_reach en s3 (?B1(x := None))" .
        moreover have "?B1(x := None) = B" using x(1) by auto
        ultimately have "extents_reach en s3 B" by simp
        with unf Some mg True s3 put show ?thesis by (intro exI [of _ True]) simp
      next
        case False
        let ?m = "merged_desc e (es_mem s1 x)"
        define e' where "e' = extent_szind_set ?m (of_nat j)"
        have md: "es_mem s2 d = ?m" using mr False by simp
        have B2: "?B1(d \<mapsto> ?m, x := None) = B(d \<mapsto> ?m)" using x(1) xd by auto
        have r2: "extents_reach en s2 (B(d \<mapsto> ?m))" using re2 False md B2 by (simp del: fun_upd_apply)
        note ex = expanded_desc [OF assms(3,4,5) m(2) ms(2) ij(4) g(2,1), folded e'_def]
        have a': "active_desc en e'" "\<not> extent_slab_get e'" using ex(1) by (simp_all add: large_ext_def)
        have okm: "ext_ok ?m" using held_desc [OF reach_inv [OF r2], of d ?m] by simp
        have "\<not> extent_slab_get ?m" using a'(2) ij(3) view_szind_set [of "of_nat j" ?m]
          by (simp add: e'_def get_view szind_small)
        have am: "active_desc en ?m" using a'(1) ij(3) view_szind_set [of "of_nat j" ?m]
          by (simp add: e'_def active_desc_def get_view szind_small)
        have hm: "holds en (B(d \<mapsto> ?m)) d ?m" using am by (simp add: holds_def)
        have "extents_reach en (mem_set s2 d e') (B(d \<mapsto> ?m, d \<mapsto> e'))"
          by (rule reach_step [OF r2 extent_step.change [OF hm ex(3) a'(1)]]) (use a'(2) \<open>\<not> extent_slab_get ?m\<close> in simp)
        then have r3: "extents_reach en (mem_set s2 d e') (B(d \<mapsto> e'))" by simp
        have h3: "holds en (B(d \<mapsto> e')) d e'" using a'(1) by (simp add: holds_def)
        have ok3: "ext_ok e'" using held_desc [OF reach_inv [OF r3], of d e'] by simp
        from szind_run [OF reach_inv [OF r3] h3 a'(2) addr_page [OF ex(1) ok3], of "of_nat j"] obtain s4 where
          s4: "szind_slab_update (page_number (extent_addr_get e')) (of_nat j) False (mem_set s2 d e') = Some s4" by blast
        from reach_step [OF r3 extent_step.szind [OF h3 a'(2) addr_page [OF ex(1) ok3] s4]]
        have r4: "extents_reach en s4 (B(d \<mapsto> e'))" .
        from expand_account_ok [OF assms(1-3) ex(1) assms(5) r4, of "if nm then pa_mapped ar + (usz j - usz i) else pa_mapped ar"]
        obtain ar' where "arena_extent_ralloc_large_expand en d (usz i)
            (ar\<lparr>pa_est := s4, pa_mapped := (if nm then pa_mapped ar + (usz j - usz i) else pa_mapped ar)\<rparr>) = Some ar'"
          "apages_inv en ar' (B(d \<mapsto> e'))" by blast
        with unf Some mg False md s4 ex(1,2) show ?thesis
          by (intro exI [of _ False] exI [of _ ar']) (auto simp: e'_def [symmetric] simp del: fun_upd_apply)
      qed
    qed
  qed
qed

lemma shrink_account_ok:
  assumes "pages_ok en ar B'" "length (pa_lstats ar) = SC_NSIZES - SC_NBINS"
    and "unat (pa_nactive ar) = held_pages en B" "run_inv en s B" "B d = Some e" "large_ext en e i" "large_ext en e' j" "j < i"
    and "B' = B(d \<mapsto> e')" "pa_auto ar \<or> distinct (pa_large ar) \<and> set (pa_large ar) = larges en B"
  shows "\<exists>ar'. arena_extent_ralloc_large_shrink en d (usz i) ar = Some ar' \<and> apages_inv en ar' B'"
proof -
  let ?p = "(class_size i - class_size j) div 4096"
  have re: "extents_reach en (pa_est ar) B'" using assms(1) by (simp add: pages_ok_def)
  note inv = reach_inv [OF re]
  have ij: "large_class i" "large_class j" "36 \<le> j" "i < 232" "active_desc en e" "active_desc en e'"
    using assms(6,7) by (simp_all add: large_ext_def large_class_iff)
  have m: "es_mem (pa_est ar) d = e'" using held_desc [OF inv, of d e'] assms(9) by simp
  from ralloc_stats_ok [OF reach_tabs [OF inv] ij(1,2) assms(2)] obtain ls where
    ls: "arena_large_ralloc_stats_update en (usz i) (usz j) ar = Some (ar\<lparr>pa_lstats := ls\<rparr>)" "length ls = SC_NSIZES - SC_NBINS" by blast
  have hp: "held_pages en B = held_pages en B' + ?p"
    using held_pages_resize [OF mine_finite [OF assms(4)] assms(5) ij(5,6)] npg_between [OF assms(7,6,8)] assms(9)
    by simp
  have b: "held_pages en B \<le> 2 ^ 35" by (rule held_pages_bound [OF assms(4)])
  have n: "unat (of_nat ?p :: size_t) = ?p" using hp b by (intro unat_of_nat_eq) simp
  have le: "of_nat ?p \<le> pa_nactive ar" using n hp assms(3) by (simp add: word_le_nat_alt)
  define ar' where "ar' = ar\<lparr>pa_lstats := ls, pa_nactive := pa_nactive ar - of_nat ?p\<rparr>"
  have "arena_extent_ralloc_large_shrink en d (usz i) ar = Some ar'"
    using ls(1) usize_large [OF reach_tabs [OF inv] assms(7)] m pages_between(2) [OF ij(3) assms(8) ij(4)] le
    by (simp add: arena_extent_ralloc_large_shrink_def arena_pages_sub_def Let_def ar'_def)
  moreover have "pages_ok en ar' B'"
    by (rule pages_ok_est [OF assms(1)]) (use re in \<open>simp_all add: ar'_def\<close>)
  moreover have "unat (pa_nactive ar') = held_pages en B'"
    using le n hp assms(3) by (simp add: ar'_def unat_diff_eq)
  moreover have "larges en B' = larges en B" unfolding assms(9) by (rule larges_upd(3) [of B d e, OF assms(5-7)])
  ultimately show ?thesis using ls(2) assms(10) by (simp add: apages_inv_def ar'_def)
qed

lemma shrink_ok:
  assumes "apages_inv en ar B" "B d = Some e" "large_ext en e i" "large_class j" "j < i"
  shows "\<exists>err ar'. large_ralloc_no_move_shrink en d (usz j) ar = Some (err, ar') \<and>
    (if err then apages_inv en ar' B
     else \<exists>e'. apages_inv en ar' (B(d \<mapsto> e')) \<and> large_ext en e' j \<and> extent_addr_get e' = extent_addr_get e)"
proof -
  have ok: "pages_ok en ar B" "extents_reach en (pa_est ar) B" using assms(1) by (simp_all add: apages_inv_def pages_ok_def)
  note inv = reach_inv [OF ok(2)]
  note tabs = reach_tabs [OF inv]
  have ij: "36 \<le> j" "j < i" "i < 232" "active_desc en e" "\<not> extent_slab_get e"
    using assms(3-5) by (simp_all add: large_ext_def large_class_iff)
  have j: "j < 232" using ij by simp
  have m: "es_mem (pa_est ar) d = e" "ext_ok e" using held_desc [OF inv assms(2)] by simp_all
  have us: "extent_usize_get (en_tabs en) (es_mem (pa_est ar) d) = Some (usz i)" using usize_large [OF tabs assms(3)] m by simp
  have lt: "usz j < usz i" using usz_le(2) [OF j ij(3)] ij(2) by simp
  let ?sa = "usz j + sz_large_pad" and ?sb = "extent_size_get e - (usz j + sz_large_pad)"
  have ul: "unat ?sa = class_size j + 4096" "unat (extent_size_get e) = class_size i + 4096"
    using padded [OF j] assms(3) by (simp_all add: large_ext_def)
  note pb = pages_between [OF ij(1-3)]
  have ub: "unat ?sb = class_size i - class_size j" using ul pb(4) by (subst unat_diff_eq) (simp_all add: word_le_nat_alt)
  have ps: "page_size ?sa" "page_size ?sb" "unat ?sa + unat ?sb = unat (extent_size_get e)"
    using ul ub pb(3,4) class_pages [OF ij(1)] by (simp_all add: page_size_def)
  have zj: "unat (of_nat j :: szind) \<le> SC_NSIZES" using szind_small [OF j] j by (simp add: sc_macro_values)
  have nz: "?sb \<noteq> 0" using ub pb(4) by auto
  show ?thesis
  proof (cases "hk_split (en_hooks en)")
    case False
    with us lt assms(1) show ?thesis
      by (intro exI [of _ True] exI [of _ ar]) (simp add: large_ralloc_no_move_shrink_def Let_def)
  next
    case True
    obtain r s1 where sp: "extent_split_wrapper en d ?sa (of_nat j) False ?sb (of_nat SC_NSIZES) False (pa_est ar) = (r, s1)"
      by (cases "extent_split_wrapper en d ?sa (of_nat j) False ?sb (of_nat SC_NSIZES) False (pa_est ar)")
    have h: "holds en B d e" using assms(2) ij(4) by (simp add: holds_def)
    note sr = split_run [OF inv h ij(5) ps zj nsizes_ok sp]
    note re1 = reach_step [OF ok(2) extent_step.split [OF h ij(5) ps zj nsizes_ok sp]]
    have unf: "large_ralloc_no_move_shrink en d (usz j) ar = (case r of
         None \<Rightarrow> Some (True, ar\<lparr>pa_est := s1\<rparr>)
       | Some t \<Rightarrow> do {
           ar \<leftarrow> arena_extents_dirty_dalloc en t (ar\<lparr>pa_est := s1\<rparr>);
           ar \<leftarrow> arena_extent_ralloc_large_shrink en d (usz i) ar;
           Some (False, ar)
         })"
      using us lt True sp nz m(1) usz_index(1) [OF tabs j]
      by (cases r) (simp_all add: large_ralloc_no_move_shrink_def Let_def)
    show ?thesis
    proof (cases r)
      case None
      with sr have "es_mem s1 d = e" by simp
      then have "B(d \<mapsto> es_mem s1 d) = B" using assms(2) by auto
      then have "extents_reach en s1 B" using re1 None by (simp add: handed_def)
      then have "apages_inv en (ar\<lparr>pa_est := s1\<rparr>) B"
        using pages_ok_est [OF ok(1), of "ar\<lparr>pa_est := s1\<rparr>" B] assms(1) by (simp add: apages_inv_def)
      with unf None show ?thesis by (intro exI [of _ True]) simp
    next
      case (Some t)
      define e' where "e' = lead_desc e ?sa (of_nat j)"
      have t: "es_mem s1 d = e'" "t \<notin> dom B" "active_desc en (es_mem s1 t)" using sr Some by (simp_all add: e'_def)
      have td: "t \<noteq> d" using t(2) assms(2) by auto
      note lg = lead_get [OF ps(1) zj, where e = e, folded e'_def]
      have le: "large_ext en e' j" "extent_addr_get e' = extent_addr_get e"
        using lg(1-3,6) lg(5) [OF ij(4)] assms(3,4) ul(1) base_of [OF lg(1)] by (simp_all add: large_ext_def szind_small [OF j])
      let ?B1 = "B(d \<mapsto> e', t \<mapsto> es_mem s1 t)"
      have r1: "extents_reach en s1 ?B1" using re1 Some t(1) by (simp add: handed_def del: fun_upd_apply)
      have p1: "pages_ok en (ar\<lparr>pa_est := s1\<rparr>) ?B1" using pages_ok_est [OF ok(1), of "ar\<lparr>pa_est := s1\<rparr>" ?B1] r1 by simp
      have h1: "holds en ?B1 t (es_mem s1 t)" using t(3) by (simp add: holds_def)
      from dirty_dalloc_ok [OF p1 h1] obtain ar2 where
        a2: "arena_extents_dirty_dalloc en t (ar\<lparr>pa_est := s1\<rparr>) = Some ar2" "pages_ok en ar2 (?B1(t := None))" "kept (ar\<lparr>pa_est := s1\<rparr>) ar2"
        by blast
      have "?B1(t := None) = B(d \<mapsto> e')" using t(2) td by auto
      then have p2: "pages_ok en ar2 (B(d \<mapsto> e'))" using a2(2) by simp
      have acc: "length (pa_lstats ar2) = SC_NSIZES - SC_NBINS" "unat (pa_nactive ar2) = held_pages en B"
        "pa_auto ar2 \<or> distinct (pa_large ar2) \<and> set (pa_large ar2) = larges en B"
        using a2(3) assms(1) by (simp_all add: kept_def apages_inv_def)
      from shrink_account_ok [OF p2 acc(1,2) inv assms(2,3) le(1) assms(5) refl acc(3)] obtain ar3 where
        "arena_extent_ralloc_large_shrink en d (usz i) ar2 = Some ar3" "apages_inv en ar3 (B(d \<mapsto> e'))" by blast
      with unf Some a2(1) le show ?thesis by (intro exI [of _ False] exI [of _ ar3]) auto
    qed
  qed
qed

lemma ticked_ok: "apages_inv en ar B \<Longrightarrow> \<exists>ar'. ticked en ar = Some (False, ar') \<and> apages_inv en ar' B"
  using tick_ok by (fastforce simp: ticked_def)

text \<open>What resizing in place to a class between two others comes to: an error and nothing changed, or
  the same address with such a class.\<close>

definition resized :: "extent_env \<Rightarrow> held \<Rightarrow> uintptr \<Rightarrow> extent \<Rightarrow> nat \<Rightarrow> nat \<Rightarrow> bool \<Rightarrow> arena_pages \<Rightarrow> bool" where
  "resized en B d e lo hi err ar' \<longleftrightarrow>
     (if err then apages_inv en ar' B
      else \<exists>e' k. apages_inv en ar' (B(d \<mapsto> e')) \<and> large_ext en e' k \<and> lo \<le> k \<and> k \<le> hi
        \<and> extent_addr_get e' = extent_addr_get e)"

lemma resizedI: "apages_inv en ar' (B(d \<mapsto> e')) \<Longrightarrow> large_ext en e' k \<Longrightarrow> lo \<le> k \<Longrightarrow> k \<le> hi \<Longrightarrow>
    extent_addr_get e' = extent_addr_get e \<Longrightarrow> resized en B d e lo hi False ar'"
  by (auto simp: resized_def)

lemma rest_ok:
  assumes "apages_inv en ar B" "B d = Some e" "large_ext en e i" "large_class hi" "lo \<le> hi" "lo < 232"
  shows "\<exists>err ar'. large_ralloc_no_move_rest en d (usz i) (usz lo) (usz hi) ar = Some (err, ar') \<and> resized en B d e lo hi err ar'
    \<and> (i < lo \<longrightarrow> err)"
proof -
  have i: "i < 232" "hi < 232" using assms(3,4) by (simp_all add: large_ext_def large_class_iff)
  note le = usz_le [OF assms(6) i(1)] usz_le [OF i] usz_le [OF i(2,1)]
  consider (keep) "lo \<le> i" "i \<le> hi" | (shrink) "hi < i" | (low) "i < lo" using assms(5) by linarith
  then show ?thesis
  proof cases
    case keep
    from ticked_ok [OF assms(1)] obtain ar' where t: "ticked en ar = Some (False, ar')" "apages_inv en ar' B" by blast
    have "B(d \<mapsto> e) = B" using assms(2) by auto
    then have "resized en B d e lo hi False ar'" by (intro resizedI [of _ _ _ _ e i]) (use t(2) assms(3) keep in simp_all)
    with t(1) keep le show ?thesis by (intro exI [of _ False] exI [of _ ar']) (simp add: large_ralloc_no_move_rest_def)
  next
    case shrink
    from shrink_ok [OF assms(1-4) shrink] obtain err ar1 where
      s: "large_ralloc_no_move_shrink en d (usz hi) ar = Some (err, ar1)"
        "if err then apages_inv en ar1 B
         else \<exists>e'. apages_inv en ar1 (B(d \<mapsto> e')) \<and> large_ext en e' hi \<and> extent_addr_get e' = extent_addr_get e" by blast
    have unf: "large_ralloc_no_move_rest en d (usz i) (usz lo) (usz hi) ar = (if \<not> err then ticked en ar1 else Some (True, ar1))"
      using s(1) shrink le assms(5) by (simp add: large_ralloc_no_move_rest_def)
    show ?thesis
    proof (cases err)
      case True
      with unf s(2) have "large_ralloc_no_move_rest en d (usz i) (usz lo) (usz hi) ar = Some (True, ar1) \<and> resized en B d e lo hi True ar1"
        by (simp add: resized_def)
      with assms(5) shrink show ?thesis by blast
    next
      case False
      with s(2) obtain e' where e': "apages_inv en ar1 (B(d \<mapsto> e'))" "large_ext en e' hi" "extent_addr_get e' = extent_addr_get e" by auto
      from ticked_ok [OF e'(1)] obtain ar2 where "ticked en ar1 = Some (False, ar2)" "apages_inv en ar2 (B(d \<mapsto> e'))" by blast
      with unf False resizedI [OF this(2) e'(2) assms(5) order_refl e'(3)] shrink assms(5) show ?thesis
        by (intro exI [of _ False] exI [of _ ar2]) simp
    qed
  next
    case low
    then have "large_ralloc_no_move_rest en d (usz i) (usz lo) (usz hi) ar = Some (True, ar)"
      using le assms(5) by (auto simp: large_ralloc_no_move_rest_def not_less dest: leD)
    with assms(1) show ?thesis by (intro exI [of _ True] exI [of _ ar]) (simp add: resized_def)
  qed
qed

lemma no_move_start:
  assumes "apages_inv en ar B" "B d = Some e" "large_ext en e i" "large_class hi" "lo \<le> hi" "lo < 232"
  shows "large_ralloc_no_move en oz d (usz lo) (usz hi) zero ar =
    (if i < hi
     then do {
       (err, ar) \<leftarrow> large_ralloc_no_move_expand en oz d (usz hi) zero ar;
       if \<not> err then ticked en ar
       else do {
         (again, ar) \<leftarrow> (if lo < hi \<and> i < lo then large_ralloc_no_move_expand en oz d (usz lo) zero ar else Some (False, ar));
         if again then ticked en ar else large_ralloc_no_move_rest en d (usz i) (usz lo) (usz hi) ar
       }
     }
     else large_ralloc_no_move_rest en d (usz i) (usz lo) (usz hi) ar)"
proof -
  have "extents_reach en (pa_est ar) B" using assms(1) by (simp add: apages_inv_def pages_ok_def)
  note inv = reach_inv [OF this]
  have m: "es_mem (pa_est ar) d = e" using held_desc [OF inv assms(2)] by simp
  note us = usize_large [OF reach_tabs [OF inv] assms(3)]
  have i: "36 \<le> i" "i < 232" "36 \<le> hi" "hi < 232" using assms(3,4) by (simp_all add: large_ext_def large_class_iff)
  have "usz 36 = SC_LARGE_MINCLASS" by (simp add: usz_def class_size_group sc_macro_values)
  then have mn: "SC_LARGE_MINCLASS \<le> usz i" "SC_LARGE_MINCLASS \<le> usz hi" using usz_le(1) [of 36] i by simp_all
  have mx: "usz hi \<le> SC_LARGE_MAXCLASS" using usz_le(1) [of hi 231] i by (simp add: sc_macro_values usz_def)
  have p: "0 < usz lo" using unat_usz [OF assms(6)] class_size_pos [of lo] by (simp add: word_less_nat_alt)
  show ?thesis
    using us m mn mx p usz_le(2) [OF i(2,4)] usz_le(2) [OF assms(6) i(4)] usz_le(2) [OF i(2) assms(6)]
    by (simp add: large_ralloc_no_move_def cong: if_cong)
qed

lemma no_move_ok:
  assumes "apages_inv en ar B" "B d = Some e" "large_ext en e i" "large_class hi" "lo \<le> hi" "lo < 232"
    and "lo \<le> i \<or> lo = hi" "i < hi \<longrightarrow> expand_hooks en e i hi (zero \<or> oz) ar"
  shows "\<exists>err ar'. large_ralloc_no_move en oz d (usz lo) (usz hi) zero ar = Some (err, ar') \<and> resized en B d e lo hi err ar'"
proof (cases "i < hi")
  case False
  with no_move_start [OF assms(1-6)] rest_ok [OF assms(1-6)] show ?thesis by auto
next
  case True
  from expand_ok [OF assms(1-4) True] assms(8) True obtain err ar1 where
    x: "large_ralloc_no_move_expand en oz d (usz hi) zero ar = Some (err, ar1)"
      "if err then apages_inv en ar1 B
       else \<exists>e'. apages_inv en ar1 (B(d \<mapsto> e')) \<and> large_ext en e' hi \<and> extent_addr_get e' = extent_addr_get e" by blast
  have "\<not> (lo < hi \<and> i < lo)" using assms(7) by auto
  then have unf: "large_ralloc_no_move en oz d (usz lo) (usz hi) zero ar
      = (if \<not> err then ticked en ar1 else large_ralloc_no_move_rest en d (usz i) (usz lo) (usz hi) ar1)"
    using no_move_start [OF assms(1-6)] True x(1) by auto
  show ?thesis
  proof (cases err)
    case True
    with x(2) have "apages_inv en ar1 B" by simp
    from rest_ok [OF this assms(2-6)] unf True show ?thesis by auto
  next
    case False
    with x(2) obtain e' where e': "apages_inv en ar1 (B(d \<mapsto> e'))" "large_ext en e' hi" "extent_addr_get e' = extent_addr_get e" by auto
    from ticked_ok [OF e'(1)] obtain ar2 where "ticked en ar1 = Some (False, ar2)" "apages_inv en ar2 (B(d \<mapsto> e'))" by blast
    with unf False resizedI [OF this(2) e'(2) assms(5) order_refl e'(3)] show ?thesis
      by (intro exI [of _ False] exI [of _ ar2]) simp
  qed
qed

text \<open>With a smaller size to fall back on, larger than the old one, the answer is the opposite of what
  the second attempt did.\<close>

lemma no_move_again:
  assumes "apages_inv en ar B" "B d = Some e" "large_ext en e i" "large_class hi" "i < lo" "lo < hi"
    and "large_ralloc_no_move_expand en oz d (usz hi) zero ar = Some (True, ar1)" "apages_inv en ar1 B"
    and "expand_hooks en e i lo (zero \<or> oz) ar1"
  shows "\<exists>err ar'. large_ralloc_no_move en oz d (usz lo) (usz hi) zero ar = Some (err, ar')
    \<and> (if err then \<exists>e'. apages_inv en ar' (B(d \<mapsto> e')) \<and> large_ext en e' lo \<and> extent_addr_get e' = extent_addr_get e
       else apages_inv en ar' B)"
proof -
  have lo: "large_class lo" "lo < 232" "lo \<le> hi" "i < hi" using assms(3-6) by (auto simp: large_ext_def large_class_iff)
  from expand_ok [OF assms(8,2,3) lo(1) assms(5,9)] obtain err ar2 where
    x: "large_ralloc_no_move_expand en oz d (usz lo) zero ar1 = Some (err, ar2)"
      "if err then apages_inv en ar2 B
       else \<exists>e'. apages_inv en ar2 (B(d \<mapsto> e')) \<and> large_ext en e' lo \<and> extent_addr_get e' = extent_addr_get e" by blast
  have unf: "large_ralloc_no_move en oz d (usz lo) (usz hi) zero ar
      = (if err then ticked en ar2 else large_ralloc_no_move_rest en d (usz i) (usz lo) (usz hi) ar2)"
    using no_move_start [OF assms(1-4) lo(3,2)] lo(4) assms(5,6,7) x(1) by simp
  show ?thesis
  proof (cases err)
    case True
    with x(2) ticked_ok [of en ar2 B] unf show ?thesis by (auto intro: exI [of _ False])
  next
    case False
    have i: "i < 232" "hi < 232" using assms(3,4) by (simp_all add: large_ext_def large_class_iff)
    have "large_ralloc_no_move_rest en d (usz i) (usz lo) (usz hi) ar2 = Some (True, ar2)"
      using usz_le [OF lo(2) i(1)] usz_le [OF i(2,1)] assms(5) lo(4) by (simp add: large_ralloc_no_move_rest_def)
    with unf False x(2) show ?thesis by (intro exI [of _ True] exI [of _ ar2]) simp
  qed
qed

end
