(* ===== verification/Arena_Runs.thy ===== *)
theory Arena_Runs
  imports Large
begin

text \<open>
  Runs of an arena: allocations, resizings and frees of large extents, of slabs, decay and changes of
  the decay times in any order, from any state whose accounts are right. The properties of
  src/large.c and of the page level of src/arena.c are here.
\<close>

section \<open>Slabs\<close>

text \<open>A bin of the boot table asks for whole pages.\<close>

definition slab_request :: "extent_env \<Rightarrow> bin_info \<Rightarrow> szind \<Rightarrow> bool" where
  "slab_request en bi z \<longleftrightarrow> request (bin_slab_size bi + 0) 12 \<and> unat z < SC_NBINS \<and> unat (bin_nregs bi) < 2 ^ 10
     \<and> sz_size2index (en_tabs en) (bin_reg_size bi) = Some (unat z)"

definition slab_hooks :: "extent_env \<Rightarrow> bin_info \<Rightarrow> szind \<Rightarrow> arena_pages \<Rightarrow> bool" where
  "slab_hooks en bi z ar \<longleftrightarrow> (\<forall>zero commit s.
     extents_alloc en extent_state_dirty 0 (bin_slab_size bi) 0 PAGE True z False True (pa_est ar) = Some ((None, zero, commit), s)
     \<longrightarrow> hooks_kept en 0 (bin_slab_size bi) 0 12 True z False True s)"

lemma view_bitmap: "extent_view (e\<lparr>e_slab_bitmap := bm\<rparr>) = extent_view e"
  by (simp add: extent_view_def extent_getters extent_addr_get_def extent_size_get_def extent_esn_get_def)

lemma slab_init_desc:
  assumes "arena_slab_init e bi = Some e'" "unat (bin_nregs bi) < 2 ^ 10" "active_desc en e"
  shows "active_desc en e'" "same_span e' e" "extent_slab_get e' = extent_slab_get e" "extent_size_get e' = extent_size_get e"
proof -
  obtain bm where e': "e' = (extent_nfree_set e (bin_nregs bi))\<lparr>e_slab_bitmap := bm\<rparr>"
    using assms(1) by (auto simp: arena_slab_init_def Let_def)
  have v: "extent_view e' = (extent_view e)\<lparr>ev_nfree := unat (bin_nregs bi)\<rparr>"
    using view_nfree_set [OF assms(2), of e] e' by (simp add: view_bitmap)
  show "active_desc en e'" "same_span e' e" "extent_slab_get e' = extent_slab_get e" "extent_size_get e' = extent_size_get e"
    using v assms(3) by (simp_all add: active_desc_def same_span_def get_view fpg_def npg_def)
qed

lemma not_large: "extent_slab_get e \<Longrightarrow> \<not> large_ext en e i" by (simp add: large_ext_def)

lemma larges_slab:
  "d \<notin> dom B \<Longrightarrow> extent_slab_get e \<Longrightarrow> larges en (B(d \<mapsto> e)) = larges en B"
  "B d = Some e \<Longrightarrow> extent_slab_get e \<Longrightarrow> larges en (B(d := None)) = larges en B"
  using not_large by (fastforce simp: larges_def split: if_splits)+

lemma slab_counts:
  assumes "pages_ok en ar B" "unat (pa_nactive ar) = held_pages en B" "extents_reach en s (B(d \<mapsto> e))" "d \<notin> dom B" "active_desc en e"
  shows "unat (pa_nactive ar + of_nat (npg e)) = held_pages en (B(d \<mapsto> e))"
proof -
  have inv: "run_inv en (pa_est ar) B" using assms(1) reach_inv by (simp add: pages_ok_def)
  have hp: "held_pages en (B(d \<mapsto> e)) = held_pages en B + npg e" by (rule held_pages_add [OF mine_finite [OF inv] assms(4,5)])
  have "held_pages en (B(d \<mapsto> e)) \<le> 2 ^ 35" by (rule held_pages_bound [OF reach_inv [OF assms(3)]])
  then show ?thesis using assms(2) hp by (subst unat_add_eq) (simp_all add: unat_of_nat_eq)
qed

lemma slab_extent_ok:
  assumes "apages_inv en ar B" "slab_request en bi z" "slab_hooks en bi z ar" "arena_slab_extent en bi z ar = Some (r, ar')"
  shows "apages_inv en ar' (handed r (pa_est ar') B)"
proof -
  have ok: "pages_ok en ar B" "extents_reach en (pa_est ar) B" using assms(1) by (simp_all add: apages_inv_def pages_ok_def)
  have rq: "request (bin_slab_size bi + 0) 12" "unat (bin_nregs bi) < 2 ^ 10" "unat z \<le> SC_NSIZES"
    "sz_size2index (en_tabs en) (bin_reg_size bi) = Some (unat z)"
    using assms(2) by (simp_all add: slab_request_def sc_macro_values)
  have nw: "(0::uintptr) \<noteq> 0 \<longrightarrow> 12 \<le> (12::nat)" and dk: "extent_state_dirty \<noteq> extent_state_active" by simp_all
  have pg: "PAGE = 2 ^ 12" by (simp add: PAGE_def LG_PAGE_def)
  from alloc_run [OF reach_inv [OF ok(2)] dk rq(1) nw rq(3), of True False True] obtain r1 z1 c1 s1 where
    r1: "extents_alloc en extent_state_dirty 0 (bin_slab_size bi) 0 PAGE True z False True (pa_est ar) = Some ((r1, z1, c1), s1)"
      "alloc_result en B (slabs B) (bin_slab_size bi) 0 12 True z (at_end B 0) r1 s1" unfolding pg by blast
  note re1 = reach_step [OF ok(2) extent_step.alloc [OF dk rq(1) nw rq(3) r1(1) [unfolded pg]]]
  define a where "a = (if r1 = None then arena_slab_alloc_hard en bi z (ar\<lparr>pa_est := s1\<rparr>) else Some (r1, ar\<lparr>pa_est := s1\<rparr>))"
  have "\<exists>r s m. a = Some (r, ar\<lparr>pa_est := s, pa_mapped := m\<rparr>) \<and> extents_reach en s (handed r s B)
      \<and> grants en B (bin_slab_size bi) 0 12 True z 0 r s"
  proof (cases r1)
    case (Some d)
    with re1 result_grants [OF r1(2)] show ?thesis
      by (intro exI [of _ r1] exI [of _ s1] exI [of _ "pa_mapped ar"]) (simp add: a_def)
  next
    case None
    have h: "hooks_kept en 0 (bin_slab_size bi) 0 12 True z False True s1"
      using assms(3) r1(1) None by (auto simp: slab_hooks_def)
    have re: "extents_reach en s1 B" using re1 None by (simp add: handed_def)
    from wrapper_run [OF reach_inv [OF re] rq(1) nw rq(3) h] obtain r z' k s where
      r: "extent_alloc_wrapper en 0 (bin_slab_size bi) 0 PAGE True z False True s1 = Some ((r, z', k), s)"
        "alloc_result en B (slabs B) (bin_slab_size bi) 0 12 True z (at_end B 0) r s" unfolding pg by blast
    from reach_step [OF re extent_step.alloc_wrapper [OF rq(1) nw rq(3) h r(1) [unfolded pg]]] result_grants [OF r(2)] r(1) None
    show ?thesis
      by (intro exI [of _ r] exI [of _ s] exI [of _ "if r = None then pa_mapped ar else pa_mapped ar + bin_slab_size bi"])
        (auto simp: a_def arena_slab_alloc_hard_def Let_def)
  qed
  then obtain r2 s m where a: "a = Some (r2, ar\<lparr>pa_est := s, pa_mapped := m\<rparr>)" "extents_reach en s (handed r2 s B)"
    "grants en B (bin_slab_size bi) 0 12 True z 0 r2 s" by blast
  have unf: "arena_slab_extent en bi z ar = (case r2 of None \<Rightarrow> Some (None, ar\<lparr>pa_est := s, pa_mapped := m\<rparr>)
     | Some d \<Rightarrow> if \<not> extent_slab_get (es_mem s d) then None
         else do {
           e \<leftarrow> arena_slab_init (es_mem s d) bi;
           Some (Some d, arena_pages_add (drop_bit LG_PAGE (extent_size_get e)) (ar\<lparr>pa_mapped := m, pa_est := mem_set s d e\<rparr>))
         })"
    using r1(1) a(1) rq(4) by (simp add: arena_slab_extent_def a_def Let_def cong: if_cong option.case_cong)
  show ?thesis
  proof (cases r2)
    case None
    with unf assms(4) have eq: "r = None" "ar' = ar\<lparr>pa_est := s, pa_mapped := m\<rparr>" by simp_all
    have "pages_ok en ar' B" by (rule pages_ok_est [OF ok(1)]) (use a(2) None eq in \<open>simp_all add: handed_def\<close>)
    then show ?thesis using assms(1) eq by (simp add: apages_inv_def handed_def)
  next
    case (Some d)
    have g: "d \<notin> dom B" "active_desc en (es_mem s d)" "extents_reach en s (B(d \<mapsto> es_mem s d))"
      using a(2,3) Some by (auto simp: grants_def handed_def)
    from assms(4) unf Some obtain e where e: "extent_slab_get (es_mem s d)" "arena_slab_init (es_mem s d) bi = Some e" "r = Some d"
      "ar' = arena_pages_add (drop_bit LG_PAGE (extent_size_get e)) (ar\<lparr>pa_mapped := m, pa_est := mem_set s d e\<rparr>)"
      by (auto simp: bind_eq_Some_conv split: if_splits)
    note si = slab_init_desc [OF e(2) rq(2) g(2)]
    have "holds en (B(d \<mapsto> es_mem s d)) d (es_mem s d)" using g(2) by (simp add: holds_def)
    from reach_step [OF g(3) extent_step.change [OF this si(2,1,3)]]
    have re: "extents_reach en (mem_set s d e) (B(d \<mapsto> e))" by simp
    have p: "pages_ok en ar' (B(d \<mapsto> e))"
      by (rule pages_ok_est [OF ok(1)]) (use re e(4) in \<open>simp_all add: arena_pages_add_def\<close>)
    have "unat (pa_nactive ar') = held_pages en (B(d \<mapsto> e))"
      using slab_counts [OF ok(1) _ re g(1) si(1)] assms(1) e(4) by (simp add: apages_inv_def arena_pages_add_def pages_of)
    moreover have "larges en (B(d \<mapsto> e)) = larges en B" using larges_slab(1) [OF g(1)] e(1) si(3) by simp
    moreover have "handed r (pa_est ar') B = B(d \<mapsto> e)" using e(3,4) by (simp add: handed_def arena_pages_add_def mem_set_def)
    ultimately show ?thesis using p assms(1) e(4) by (simp add: apages_inv_def arena_pages_add_def del: fun_upd_apply)
  qed
qed

lemma slab_free_ok:
  assumes "apages_inv en ar B" "holds en B d e" "extent_slab_get e"
  shows "\<exists>ar'. arena_slab_free en d ar = Some ar' \<and> apages_inv en ar' (B(d := None))"
proof -
  have ok: "pages_ok en ar B" "extents_reach en (pa_est ar) B" using assms(1) by (simp_all add: apages_inv_def pages_ok_def)
  note inv = reach_inv [OF ok(2)]
  have e: "B d = Some e" "active_desc en e" using assms(2) by (simp_all add: holds_def)
  have m: "es_mem (pa_est ar) d = e" using held_desc [OF inv e(1)] by simp
  have hp: "held_pages en B = held_pages en (B(d := None)) + npg e" by (rule held_pages_take [OF mine_finite [OF inv] e])
  have na: "unat (pa_nactive ar) = held_pages en B" using assms(1) by (simp add: apages_inv_def)
  have n: "unat (of_nat (npg e) :: size_t) = npg e" using hp held_pages_bound [OF inv] by (intro unat_of_nat_eq) simp
  have le: "of_nat (npg e) \<le> pa_nactive ar" using n na hp by (simp add: word_le_nat_alt)
  define ar1 where "ar1 = ar\<lparr>pa_nactive := pa_nactive ar - of_nat (npg e)\<rparr>"
  have 1: "arena_pages_sub (drop_bit LG_PAGE (extent_size_get (es_mem (pa_est ar) d))) ar = Some ar1"
    using m le by (simp add: arena_pages_sub_def pages_of ar1_def)
  have p1: "pages_ok en ar1 B" by (rule pages_ok_est [OF ok(1)]) (use ok(2) in \<open>simp_all add: ar1_def\<close>)
  from dirty_dalloc_ok [OF p1 assms(2)] obtain ar2 where
    a2: "arena_extents_dirty_dalloc en d ar1 = Some ar2" "pages_ok en ar2 (B(d := None))" "kept ar1 ar2" by blast
  have "unat (pa_nactive ar1) = held_pages en (B(d := None))" using le n na hp by (simp add: ar1_def unat_diff_eq)
  moreover have "larges en (B(d := None)) = larges en B" by (rule larges_slab(2) [of B d e]) (use e(1) assms(3) in simp_all)
  ultimately have "apages_inv en ar2 (B(d := None))"
    using a2(2,3) assms(1) by (simp add: apages_inv_def kept_def ar1_def del: fun_upd_apply)
  with 1 a2(1) show ?thesis by (simp add: arena_slab_free_def)
qed

section \<open>Moving an allocation\<close>

lemma iealloc_held:
  assumes "run_inv en s B" "B d = Some e" "large_ext en e i"
  shows "iealloc s (extent_addr_get e) = Some d"
proof -
  obtain V L where inv: "est_inv en s {} B (slabs B) V L" using assms(1) by (auto simp: run_inv_def)
  note m = held_desc [OF assms(1,2)]
  have f: "fpg e < 2 ^ 36" using ext_okD(4) [of e] m by simp
  have "d \<in> uses {} B L" using assms(2) by (auto simp: uses_def)
  moreover have "covers (slabs B) d (es_mem s d) (fpg e)" using m ext_okD(3) [of e] by (auto simp: covers_def lpg_def)
  ultimately have "own (es_pages s) (fpg e) = Some d" using geoD(6) [OF est_invD(4) [OF inv], of "fpg e" d] f by auto
  then show ?thesis using addr_page [OF assms(3)] m page_numbers(1) [of e] by (simp add: iealloc_def own_def)
qed

lemma apages_held: "apages_inv en ar B \<Longrightarrow> B d = Some e \<Longrightarrow> es_mem (pa_est ar) d = e"
  using held_desc [OF reach_inv] by (auto simp: apages_inv_def pages_ok_def)

lemma iealloc_apages: "apages_inv en ar B \<Longrightarrow> B d = Some e \<Longrightarrow> large_ext en e i \<Longrightarrow> iealloc (pa_est ar) (extent_addr_get e) = Some d"
  using iealloc_held [OF reach_inv] by (auto simp: apages_inv_def pages_ok_def)

lemma salloc_held: "apages_inv en ar B \<Longrightarrow> B d = Some e \<Longrightarrow> large_ext en e i \<Longrightarrow> large_salloc en d ar = Some (usz i)"
  using usize_large [OF reach_tabs [OF reach_inv]] apages_held [of en ar B d e]
  by (auto simp: large_salloc_def apages_inv_def pages_ok_def)

lemma helper_palloc:
  assumes "tabs_ok (en_tabs en)" "large_class j" "a < 62"
  shows "large_ralloc_move_helper en oz (usz j) (2 ^ a) zero ar = large_palloc en oz (usz j) (2 ^ max 6 a) zero ar"
proof (cases "a \<le> 6")
  case True
  have "(2 :: size_t) ^ a \<le> CACHELINE"
    using True power_increasing [of a 6 "2 :: nat"] by (simp add: CACHELINE_def word_le_nat_alt unat_two_power assms(3))
  moreover have "sz_s2u (en_tabs en) (usz j) = Some (usz j)" by (rule usz_index(3) [OF assms(1)]) (use assms(2) in \<open>simp add: large_class_iff\<close>)
  ultimately show ?thesis using True by (simp add: large_ralloc_move_helper_def large_malloc_def CACHELINE_def max_def)
next
  case False
  have "unat ((2 :: size_t) ^ a) = 2 ^ a" using assms(3) by (simp add: unat_two_power)
  moreover have "(2 :: nat) ^ 7 \<le> 2 ^ a" using False by (intro power_increasing) simp_all
  ultimately have "\<not> (2 :: size_t) ^ a \<le> CACHELINE" by (simp add: CACHELINE_def word_le_nat_alt)
  then show ?thesis using False by (simp add: large_ralloc_move_helper_def max_def)
qed

text \<open>The hooks of the allocation that follows when the extent cannot be resized.\<close>

definition move_hooks :: "extent_env \<Rightarrow> bool \<Rightarrow> uintptr \<Rightarrow> nat \<Rightarrow> nat \<Rightarrow> bool \<Rightarrow> arena_pages \<Rightarrow> bool" where
  "move_hooks en oz d j a zero ar \<longleftrightarrow> (\<forall>ar1. large_ralloc_no_move en oz d (usz j) (usz j) zero ar = Some (True, ar1)
     \<longrightarrow> palloc_hooks en j (max 6 a) (zero \<or> oz) ar1)"

text \<open>A resized allocation: where it was, or at a new place with the old extent given back.\<close>

definition moved :: "extent_env \<Rightarrow> held \<Rightarrow> uintptr \<Rightarrow> extent \<Rightarrow> nat \<Rightarrow> nat \<Rightarrow> uintptr option \<Rightarrow> arena_pages \<Rightarrow> bool" where
  "moved en B d e j a r ar' \<longleftrightarrow> (case r of None \<Rightarrow> apages_inv en ar' B
     | Some p \<Rightarrow> \<exists>d' e'. apages_inv en ar' ((B(d := None))(d' \<mapsto> e')) \<and> large_ext en e' j \<and> p = extent_addr_get e'
         \<and> (if d' = d then p = extent_addr_get e else d' \<notin> dom B \<and> 2 ^ a dvd unat p))"

lemma ralloc_ok:
  assumes "apages_inv en ar B" "B d = Some e" "large_ext en e i" "palloc_fits j (max 6 a)"
    and "i < j \<longrightarrow> expand_hooks en e i j (zero \<or> oz) ar" "move_hooks en oz d j a zero ar"
  shows "\<exists>r ar'. large_ralloc en oz (extent_addr_get e) (usz j) (2 ^ a) zero ar = Some (r, ar') \<and> moved en B d e j a r ar'"
proof -
  have j: "large_class j" "j < 232" "a < 62" using assms(4) by (simp_all add: palloc_fits_def large_class_iff)
  have i: "36 \<le> i" "i < 232" "36 \<le> j" using assms(3) j(1) by (simp_all add: large_ext_def large_class_iff)
  have "extents_reach en (pa_est ar) B" using assms(1) by (simp add: apages_inv_def pages_ok_def)
  note tabs = reach_tabs [OF reach_inv [OF this]]
  have "usz 36 = SC_LARGE_MINCLASS" by (simp add: usz_def class_size_group sc_macro_values)
  then have mn: "SC_LARGE_MINCLASS \<le> usz i" "SC_LARGE_MINCLASS \<le> usz j" using usz_le(1) [of 36] i j by simp_all
  have mx: "usz j \<le> SC_LARGE_MAXCLASS" using usz_le(1) [of j 231] j by (simp add: sc_macro_values usz_def)
  have p: "0 < usz j" using unat_usz [OF j(2)] class_size_pos [of j] by (simp add: word_less_nat_alt)
  from no_move_ok [OF assms(1-3) j(1) order_refl j(2) _ assms(5)] obtain err ar1 where
    n: "large_ralloc_no_move en oz d (usz j) (usz j) zero ar = Some (err, ar1)" "resized en B d e j j err ar1" by blast
  have unf: "large_ralloc en oz (extent_addr_get e) (usz j) (2 ^ a) zero ar =
    (if \<not> err then Some (Some (extent_addr_get (es_mem (pa_est ar1) d)), ar1)
     else do {
         (ret, ar) \<leftarrow> large_palloc en oz (usz j) (2 ^ max 6 a) zero ar1;
         case ret of
           None \<Rightarrow> Some (None, ar)
         | Some ret \<Rightarrow> do {
             extent \<leftarrow> iealloc (pa_est ar) (extent_addr_get (es_mem (pa_est ar) d));
             ar \<leftarrow> large_dalloc en extent ar;
             Some (Some ret, ar)
           }
       })"
    using n(1) p mx mn by (simp add: large_ralloc_def iealloc_apages [OF assms(1-3)] apages_held [OF assms(1,2)]
        usize_large [OF tabs assms(3)] helper_palloc [OF tabs j(1,3)] cong: if_cong)
  show ?thesis
  proof (cases err)
    case False
    with n(2) obtain e' where e': "apages_inv en ar1 (B(d \<mapsto> e'))" "large_ext en e' j" "extent_addr_get e' = extent_addr_get e"
      by (auto simp: resized_def)
    have "(B(d := None))(d \<mapsto> e') = B(d \<mapsto> e')" by simp
    with e' have "moved en B d e j a (Some (extent_addr_get e)) ar1"
      by (simp add: moved_def) (intro exI [of _ d], force)
    moreover have "es_mem (pa_est ar1) d = e'" by (rule apages_held [OF e'(1)]) simp
    ultimately show ?thesis using unf False e'(3) by (intro exI [of _ "Some (extent_addr_get e)"] exI [of _ ar1]) simp
  next
    case True
    have inv1: "apages_inv en ar1 B" using n(2) True by (simp add: resized_def)
    have h: "palloc_hooks en j (max 6 a) (zero \<or> oz) ar1" using assms(6) n(1) True by (simp add: move_hooks_def)
    from palloc_ok [OF inv1 assms(4) h] obtain r ar2 where
      r: "large_palloc en oz (usz j) (2 ^ max 6 a) zero ar1 = Some (r, ar2)"
        "case r of None \<Rightarrow> apages_inv en ar2 B | Some p \<Rightarrow> \<exists>d' e'. d' \<notin> dom B \<and> large_ext en e' j \<and> p = extent_addr_get e'
          \<and> 2 ^ max 6 a dvd unat p \<and> apages_inv en ar2 (B(d' \<mapsto> e'))" by blast
    show ?thesis
    proof (cases r)
      case None
      with unf True r show ?thesis by (intro exI [of _ None] exI [of _ ar2]) (simp add: moved_def)
    next
      case (Some q)
      with r(2) obtain d' e' where d': "d' \<notin> dom B" "large_ext en e' j" "q = extent_addr_get e'" "2 ^ max 6 a dvd unat q"
        "apages_inv en ar2 (B(d' \<mapsto> e'))" by auto
      have dd: "d' \<noteq> d" "(B(d' \<mapsto> e')) d = Some e" using d'(1) assms(2) by auto
      from large_dalloc_ok [OF d'(5) dd(2) assms(3)] obtain ar3 where
        f: "large_dalloc en d ar2 = Some ar3" "apages_inv en ar3 ((B(d' \<mapsto> e'))(d := None))" by blast
      have eq: "(B(d' \<mapsto> e'))(d := None) = (B(d := None))(d' \<mapsto> e')" using dd(1) by auto
      have "2 ^ a dvd unat q" using d'(4) le_imp_power_dvd [of a "max 6 a" "2 :: nat"] dvd_trans by fastforce
      then have "moved en B d e j a (Some q) ar3"
        using f(2) d'(1-3) dd(1) unfolding moved_def eq by auto
      with unf True r(1) Some f(1) show ?thesis
        by (intro exI [of _ "Some q"] exI [of _ ar3])
          (simp add: apages_held [OF d'(5) dd(2)] iealloc_apages [OF d'(5) dd(2) assms(3)])
    qed
  qed
qed

section \<open>Runs\<close>

text \<open>The promises of the hooks for both attempts to resize in place.\<close>

definition resize_hooks :: "extent_env \<Rightarrow> bool \<Rightarrow> extent \<Rightarrow> uintptr \<Rightarrow> nat \<Rightarrow> nat \<Rightarrow> nat \<Rightarrow> bool \<Rightarrow> arena_pages \<Rightarrow> bool" where
  "resize_hooks en oz e d i lo hi zero ar \<longleftrightarrow> (i < hi \<longrightarrow> expand_hooks en e i hi (zero \<or> oz) ar)
     \<and> (i < lo \<and> lo < hi \<longrightarrow> (\<forall>ar1. large_ralloc_no_move_expand en oz d (usz hi) zero ar = Some (True, ar1)
           \<longrightarrow> expand_hooks en e i lo (zero \<or> oz) ar1))"

text \<open>The state of the arena when it goes into use: its accounts agree with what is held.\<close>

definition arena_started :: "extent_env \<Rightarrow> arena_pages \<Rightarrow> held \<Rightarrow> bool" where
  "arena_started en ar B \<longleftrightarrow> extents_started en (pa_est ar) B \<and> clock_steady ar
     \<and> decay_idle ar (pa_decay_dirty ar) \<and> decay_idle ar (pa_decay_muzzy ar)
     \<and> length (pa_lstats ar) = SC_NSIZES - SC_NBINS \<and> unat (pa_nactive ar) = held_pages en B
     \<and> (pa_auto ar \<or> distinct (pa_large ar) \<and> set (pa_large ar) = larges en B)"

inductive arena_step :: "extent_env \<Rightarrow> bool \<Rightarrow> arena_pages \<times> held \<Rightarrow> arena_pages \<times> held \<Rightarrow> bool" for en oz where
  palloc_none: "palloc_fits i a \<Longrightarrow> palloc_hooks en i a (zero \<or> oz) ar \<Longrightarrow>
    large_palloc en oz (usz i) (2 ^ a) zero ar = Some (None, ar') \<Longrightarrow> arena_step en oz (ar, B) (ar', B)"
| palloc: "palloc_fits i a \<Longrightarrow> palloc_hooks en i a (zero \<or> oz) ar \<Longrightarrow>
    large_palloc en oz (usz i) (2 ^ a) zero ar = Some (Some p, ar') \<Longrightarrow> iealloc (pa_est ar') p = Some d \<Longrightarrow>
    arena_step en oz (ar, B) (ar', B(d \<mapsto> es_mem (pa_est ar') d))"
| dalloc: "B d = Some e \<Longrightarrow> large_ext en e i \<Longrightarrow> large_dalloc en d ar = Some ar' \<Longrightarrow> arena_step en oz (ar, B) (ar', B(d := None))"
| resize: "B d = Some e \<Longrightarrow> large_ext en e i \<Longrightarrow> large_class hi \<Longrightarrow> lo \<le> hi \<Longrightarrow> resize_hooks en oz e d i lo hi zero ar \<Longrightarrow>
    large_ralloc_no_move en oz d (usz lo) (usz hi) zero ar = Some (err, ar') \<Longrightarrow>
    arena_step en oz (ar, B) (ar', B(d \<mapsto> es_mem (pa_est ar') d))"
| ralloc_none: "B d = Some e \<Longrightarrow> large_ext en e i \<Longrightarrow> palloc_fits j (max 6 a) \<Longrightarrow> resize_hooks en oz e d i j j zero ar \<Longrightarrow>
    move_hooks en oz d j a zero ar \<Longrightarrow> large_ralloc en oz (extent_addr_get e) (usz j) (2 ^ a) zero ar = Some (None, ar') \<Longrightarrow>
    arena_step en oz (ar, B) (ar', B)"
| ralloc: "B d = Some e \<Longrightarrow> large_ext en e i \<Longrightarrow> palloc_fits j (max 6 a) \<Longrightarrow> resize_hooks en oz e d i j j zero ar \<Longrightarrow>
    move_hooks en oz d j a zero ar \<Longrightarrow> large_ralloc en oz (extent_addr_get e) (usz j) (2 ^ a) zero ar = Some (Some p, ar') \<Longrightarrow>
    iealloc (pa_est ar') p = Some d' \<Longrightarrow> arena_step en oz (ar, B) (ar', (B(d := None))(d' \<mapsto> es_mem (pa_est ar') d'))"
| slab_alloc: "slab_request en bi z \<Longrightarrow> slab_hooks en bi z ar \<Longrightarrow> arena_slab_extent en bi z ar = Some (r, ar') \<Longrightarrow>
    arena_step en oz (ar, B) (ar', handed r (pa_est ar') B)"
| slab_free: "holds en B d e \<Longrightarrow> extent_slab_get e \<Longrightarrow> arena_slab_free en d ar = Some ar' \<Longrightarrow>
    arena_step en oz (ar, B) (ar', B(d := None))"
| decay: "arena_decay_run en bg all ar = Some ar' \<Longrightarrow> arena_step en oz (ar, B) (ar', B)"
| ticks: "arena_decay_ticks en n ar = Some ar' \<Longrightarrow> arena_step en oz (ar, B) (ar', B)"
| ms_set: "k = extent_state_dirty \<or> k = extent_state_muzzy \<Longrightarrow> ms < 2 ^ 63 \<Longrightarrow> arena_decay_ms_set en k ms ar = Some (err, ar') \<Longrightarrow>
    arena_step en oz (ar, B) (ar', B)"

definition arena_reach :: "extent_env \<Rightarrow> bool \<Rightarrow> arena_pages \<Rightarrow> held \<Rightarrow> bool" where
  "arena_reach en oz ar B \<longleftrightarrow> (\<exists>ar0 B0. arena_started en ar0 B0 \<and> (arena_step en oz)\<^sup>*\<^sup>* (ar0, B0) (ar, B))"

lemma started_apages: "arena_started en ar B \<Longrightarrow> apages_inv en ar B"
  by (auto simp: arena_started_def apages_inv_def pages_ok_def extents_reach_def)

lemma pages_inv: "apages_inv en ar B \<Longrightarrow> pages_ok en ar' B \<and> kept ar ar' \<Longrightarrow> apages_inv en ar' B"
  by (blast intro: apages_inv_kept)

text \<open>An attempt to resize in place, with whatever result, leaves the accounts right.\<close>

lemma kept_same: "apages_inv en ar B \<Longrightarrow> B d = Some e \<Longrightarrow> apages_inv en ar (B(d \<mapsto> es_mem (pa_est ar) d))"
  by (metis apages_held fun_upd_triv)

lemma kept_new: "apages_inv en ar (B(d \<mapsto> e)) \<Longrightarrow> apages_inv en ar (B(d \<mapsto> es_mem (pa_est ar) d))"
  by (metis apages_held fun_upd_same)

lemma first_attempt:
  assumes "apages_inv en ar B" "B d = Some e" "large_ext en e i" "large_class hi" "i < lo" "lo < hi" "resize_hooks en oz e d i lo hi zero ar"
  shows "(\<exists>ar' e'. large_ralloc_no_move en oz d (usz lo) (usz hi) zero ar = Some (False, ar') \<and> apages_inv en ar' (B(d \<mapsto> e'))
        \<and> large_ext en e' hi \<and> extent_addr_get e' = extent_addr_get e)
    \<or> (\<exists>ar1 ar' err. large_ralloc_no_move_expand en oz d (usz hi) zero ar = Some (True, ar1)
        \<and> large_ralloc_no_move en oz d (usz lo) (usz hi) zero ar = Some (err, ar')
        \<and> (if err then \<exists>e'. apages_inv en ar' (B(d \<mapsto> e')) \<and> large_ext en e' lo \<and> extent_addr_get e' = extent_addr_get e
            else apages_inv en ar' B))"
proof -
  have lo: "i < hi" "lo \<le> hi" "lo < 232" using assms(4-6) by (simp_all add: large_class_iff)
  have h: "expand_hooks en e i hi (zero \<or> oz) ar" using assms(7) lo(1) by (simp add: resize_hooks_def)
  from expand_ok [OF assms(1-4) lo(1) h] obtain err ar1 where
    x: "large_ralloc_no_move_expand en oz d (usz hi) zero ar = Some (err, ar1)"
      "if err then apages_inv en ar1 B
       else \<exists>e'. apages_inv en ar1 (B(d \<mapsto> e')) \<and> large_ext en e' hi \<and> extent_addr_get e' = extent_addr_get e" by blast
  show ?thesis
  proof (cases err)
    case True
    have h: "expand_hooks en e i lo (zero \<or> oz) ar1" using assms(5-7) x(1) True by (simp add: resize_hooks_def)
    have y: "large_ralloc_no_move_expand en oz d (usz hi) zero ar = Some (True, ar1)" "apages_inv en ar1 B" using x True by simp_all
    from no_move_again [OF assms(1-6) y h] y(1) show ?thesis by (intro disjI2) blast
  next
    case False
    with x(2) obtain e' where e': "apages_inv en ar1 (B(d \<mapsto> e'))" "large_ext en e' hi" "extent_addr_get e' = extent_addr_get e" by auto
    from ticked_ok [OF e'(1)] obtain ar2 where "ticked en ar1 = Some (False, ar2)" "apages_inv en ar2 (B(d \<mapsto> e'))" by blast
    with no_move_start [OF assms(1-4) lo(2,3), of oz zero] x(1) False lo(1) e'(2,3) show ?thesis
      by (intro disjI1 exI [of _ ar2] exI [of _ e']) simp
  qed
qed

lemma resize_inv:
  assumes "apages_inv en ar B" "B d = Some e" "large_ext en e i" "large_class hi" "lo \<le> hi" "resize_hooks en oz e d i lo hi zero ar"
  shows "\<exists>err ar'. large_ralloc_no_move en oz d (usz lo) (usz hi) zero ar = Some (err, ar')
    \<and> apages_inv en ar' (B(d \<mapsto> es_mem (pa_est ar') d))"
proof (cases "i < lo \<and> lo < hi")
  case True
  from first_attempt [OF assms(1-4) conjunct1 [OF True] conjunct2 [OF True] assms(6)] show ?thesis
  proof (elim disjE exE conjE)
    fix ar' e'
    assume "large_ralloc_no_move en oz d (usz lo) (usz hi) zero ar = Some (False, ar')" "apages_inv en ar' (B(d \<mapsto> e'))"
    with kept_new show ?thesis by blast
  next
    fix ar1 ar' err
    assume r: "large_ralloc_no_move en oz d (usz lo) (usz hi) zero ar = Some (err, ar')"
      "if err then \<exists>e'. apages_inv en ar' (B(d \<mapsto> e')) \<and> large_ext en e' lo \<and> extent_addr_get e' = extent_addr_get e
       else apages_inv en ar' B"
    then have "apages_inv en ar' (B(d \<mapsto> es_mem (pa_est ar') d))"
      using kept_new kept_same [of en ar' B d e, OF _ assms(2)] by (cases err) (simp_all only: if_True if_False, blast+)
    with r(1) show ?thesis by blast
  qed
next
  case False
  then have c: "lo \<le> i \<or> lo = hi" "lo < 232" "i < hi \<longrightarrow> expand_hooks en e i hi (zero \<or> oz) ar"
    using assms(4-6) by (auto simp: large_class_iff resize_hooks_def)
  from no_move_ok [OF assms(1-5) c(2,1,3)] obtain err ar' where
    r: "large_ralloc_no_move en oz d (usz lo) (usz hi) zero ar = Some (err, ar')" "resized en B d e lo hi err ar'" by blast
  then have "apages_inv en ar' (B(d \<mapsto> es_mem (pa_est ar') d))"
    using kept_new kept_same [of en ar' B d e, OF _ assms(2)] by (cases err) (auto simp: resized_def)
  with r(1) show ?thesis by blast
qed

lemma palloc_found:
  assumes "apages_inv en ar B" "palloc_fits i a" "palloc_hooks en i a (zero \<or> oz) ar"
    and "large_palloc en oz (usz i) (2 ^ a) zero ar = Some (Some p, ar')" "iealloc (pa_est ar') p = Some d"
  shows "d \<notin> dom B \<and> large_ext en (es_mem (pa_est ar') d) i \<and> p = extent_addr_get (es_mem (pa_est ar') d) \<and> 2 ^ a dvd unat p
    \<and> apages_inv en ar' (B(d \<mapsto> es_mem (pa_est ar') d))"
proof -
  from palloc_ok [OF assms(1-3)] assms(4) obtain d1 e where
    d: "d1 \<notin> dom B" "large_ext en e i" "p = extent_addr_get e" "2 ^ a dvd unat p" "apages_inv en ar' (B(d1 \<mapsto> e))" by auto
  have "es_mem (pa_est ar') d1 = e" "d1 = d"
    using apages_held [OF d(5), of d1 e] iealloc_apages [OF d(5) _ d(2), of d1] assms(5) d(3) by simp_all
  with d show ?thesis by auto
qed

lemma ralloc_found:
  assumes "moved en B d e j a (Some p) ar'" "iealloc (pa_est ar') p = Some d'"
  shows "apages_inv en ar' ((B(d := None))(d' \<mapsto> es_mem (pa_est ar') d')) \<and> large_ext en (es_mem (pa_est ar') d') j
    \<and> p = extent_addr_get (es_mem (pa_est ar') d') \<and> (if d' = d then p = extent_addr_get e else d' \<notin> dom B \<and> 2 ^ a dvd unat p)"
proof -
  from assms(1) obtain d1 e' where
    d: "apages_inv en ar' ((B(d := None))(d1 \<mapsto> e'))" "large_ext en e' j" "p = extent_addr_get e'"
      "if d1 = d then p = extent_addr_get e else d1 \<notin> dom B \<and> 2 ^ a dvd unat p" by (auto simp: moved_def)
  have "es_mem (pa_est ar') d1 = e'" "d1 = d'"
    using apages_held [OF d(1), of d1 e'] iealloc_apages [OF d(1) _ d(2), of d1] assms(2) d(3) by simp_all
  with d show ?thesis by auto
qed

lemma arena_step_inv: "arena_step en oz x y \<Longrightarrow> apages_inv en (fst x) (snd x) \<Longrightarrow> apages_inv en (fst y) (snd y)"
proof (induction rule: arena_step.induct)
  case (palloc_none i a zero ar ar' B)
  then show ?case using palloc_ok [of en ar B i a zero oz] by auto
next
  case (palloc i a zero ar p ar' d B)
  then show ?case using palloc_found [of en ar B i a zero oz p ar' d] by (simp del: fun_upd_apply)
next
  case (dalloc B d e i ar ar')
  then show ?case using large_dalloc_ok [of en ar B d e i] by (auto simp del: fun_upd_apply)
next
  case (resize B d e i hi lo zero ar err ar')
  then show ?case using resize_inv [of en ar B d e i hi lo oz zero] by (auto simp del: fun_upd_apply)
next
  case (ralloc_none B d e i j a zero ar ar')
  then show ?case using ralloc_ok [of en ar B d e i j a zero oz] by (auto simp: resize_hooks_def moved_def)
next
  case (ralloc B d e i j a zero ar p ar' d')
  then have "moved en B d e j a (Some p) ar'" using ralloc_ok [of en ar B d e i j a zero oz] by (auto simp: resize_hooks_def)
  from ralloc_found [OF this] ralloc show ?case by (simp del: fun_upd_apply)
next
  case (slab_alloc bi z ar r ar' B)
  then show ?case using slab_extent_ok by simp
next
  case (slab_free B d e ar ar')
  then show ?case using slab_free_ok [of en ar B d e] by (auto simp del: fun_upd_apply)
next
  case (decay bg all ar ar' B)
  then have p: "pages_ok en ar B" by (simp add: apages_inv_def)
  from decay_run_ok2 [OF this, of bg all] decay pages_inv show ?case by auto
next
  case (ticks n ar ar' B)
  then have p: "pages_ok en ar B" by (simp add: apages_inv_def)
  from ticks_ok [OF this, of n] ticks pages_inv show ?case by auto
next
  case (ms_set k ms ar err ar' B)
  then have p: "pages_ok en ar B" by (simp add: apages_inv_def)
  from ms_set_ok [OF this ms_set(1,2)] ms_set pages_inv show ?case by auto
qed

lemma arena_reach_inv: "arena_reach en oz ar B \<Longrightarrow> apages_inv en ar B"
proof -
  assume "arena_reach en oz ar B"
  then obtain ar0 B0 where r: "arena_started en ar0 B0" "(arena_step en oz)\<^sup>*\<^sup>* (ar0, B0) (ar, B)" by (auto simp: arena_reach_def)
  from r(2) have "apages_inv en (fst (ar, B)) (snd (ar, B))"
    by (induction rule: rtranclp_induct) (use started_apages [OF r(1)] arena_step_inv in auto)
  then show ?thesis by simp
qed

lemma arena_reach_step: "arena_reach en oz ar B \<Longrightarrow> arena_step en oz (ar, B) (ar', B') \<Longrightarrow> arena_reach en oz ar' B'"
  unfolding arena_reach_def by (meson rtranclp.rtrancl_into_rtrancl)

section \<open>An arena to start from\<close>

text \<open>A large extent of five pages is held.\<close>

definition big_desc :: extent where
  "big_desc = extent_init \<lparr>e_self = 1, e_bits = 0, e_addr = 0, e_size_esn = 0, e_slab_bitmap = []\<rparr> (Some 0) 65536 20480 False 36 0
     extent_state_active True True True"

definition big_env :: "sz_tabs \<Rightarrow> bool \<Rightarrow> extent_env" where
  "big_env t merge = \<lparr>en_tabs = t, en_lg_fit = 6, en_retain = False, en_hooks = \<lparr>hk_default = True, hk_dalloc = True,
     hk_commit = True, hk_decommit = True, hk_purge_lazy = True, hk_purge_forced = True, hk_split = True, hk_merge = merge\<rparr>,
     en_ind = 0\<rparr>"

definition big_state :: "(extent_state \<Rightarrow> extents) \<Rightarrow> uintptr \<Rightarrow> estate" where
  "big_state ex p = \<lparr>es_mem = (\<lambda>_. big_desc), es_pages = [16 \<mapsto> (1, 36, False), 20 \<mapsto> (1, 36, False)], es_avail = ph_new,
     es_avail_cnt = 0, es_ex = ex, es_sn_next = 1, es_grow_next = 0, es_grow_limit = 198, es_offset = Arena_state 0, es_descs = [2],
     es_maps = [(p, True, True)], es_outs = [False, False, False]\<rparr>"

definition big_held :: held where "big_held = [1 \<mapsto> big_desc]"

definition big_arena :: "(extent_state \<Rightarrow> extents) \<Rightarrow> arena_decay \<Rightarrow> uintptr \<Rightarrow> arena_pages" where
  "big_arena ex d p = \<lparr>pa_est = big_state ex p, pa_decay_dirty = d, pa_decay_muzzy = d,
     pa_stats_dirty = \<lparr>sd_npurge = 0, sd_nmadvise = 0, sd_purged = 0\<rparr>,
     pa_stats_muzzy = \<lparr>sd_npurge = 0, sd_nmadvise = 0, sd_purged = 0\<rparr>, pa_nactive = 5, pa_mapped = 20480,
     pa_lstats = replicate 196 \<lparr>ls_nmalloc = 0, ls_ndalloc = 0\<rparr>, pa_large = [1], pa_auto = False, pa_background = False,
     pa_ticker = None, pa_clock = (\<lambda>_. (0, 0)), pa_now = 0, pa_busy = (\<lambda>_. False), pa_tries = 0\<rparr>"

lemma big_get:
  "extent_addr_get big_desc = 65536" "extent_size_get big_desc = 20480" "\<not> extent_slab_get big_desc"
  "extent_state_get big_desc = extent_state_active" "ev_arena (extent_view big_desc) = 0" "extent_base_get big_desc = 65536"
  "fpg big_desc = 16" "npg big_desc = 5" "lpg big_desc = 20" "ev_szind (extent_view big_desc) = 36"
proof -
  note g = init_get [OF _ _ _ big_desc_def, simplified]
  show a: "extent_addr_get big_desc = 65536" "extent_size_get big_desc = 20480" "\<not> extent_slab_get big_desc"
    "extent_state_get big_desc = extent_state_active" "ev_arena (extent_view big_desc) = 0" "ev_szind (extent_view big_desc) = 36"
    using g by (simp_all add: page_size_def sc_macro_values)
  have "PAGE_ADDR2BASE 65536 = 65536" by (rule aligned_base) simp
  then show b: "extent_base_get big_desc = 65536" using a(1) by (simp add: get_view)
  show "fpg big_desc = 16" "npg big_desc = 5" "lpg big_desc = 20" using a(2) b by (simp_all add: lpg_def fpg_def npg_def)
qed

lemma class_36: "class_size 36 = 16384" by (simp add: class_size_group)

lemma big_large: "large_ext (big_env t m) big_desc 36"
  by (simp add: large_ext_def active_desc_def big_get big_env_def large_class_iff class_36)

lemma big_start:
  obtains t ex d where "\<And>m p. arena_started (big_env t m) (big_arena ex d p) big_held"
    "\<And>m p. est_inv (big_env t m) (big_state ex p) {} big_held {} {} (\<lambda>_. [])"
proof -
  obtain t where t: "tabs_ok t" using sz_boot_ok by blast
  define ex0 where "ex0 = \<lparr>ex_heaps = [], ex_nextents = replicate 200 0, ex_nbytes = replicate 200 0,
    ex_bitmap = replicate 4 0, ex_lru = [], ex_npages = 0, ex_state = extent_state_retained, ex_delay_coalesce = False\<rparr>"
  have z: "length (ex_bitmap ex0) = 4" "ex_nextents ex0 = replicate 200 0" "ex_nbytes ex0 = replicate 200 0"
    by (simp_all add: ex0_def)
  have "\<exists>e. extents_init ex0 k False = Some e" for k using init_ok [OF z, of k False "\<lambda>_. big_desc"] by blast
  then obtain ex where ex: "\<And>k. extents_init ex0 k False = Some (ex k)" by metis
  have sl: "slabs big_held = {}" by (auto simp: slabs_def big_held_def big_get split: if_splits)
  have own: "own (es_pages (big_state ex p)) n = (if n = 16 \<or> n = 20 then Some 1 else None)" if "n < 2 ^ 64" for n p
    using that of_nat_64_eq [of n 16] of_nat_64_eq [of n 20] by (auto simp: own_def big_state_def)
  have "geo (es_mem (big_state ex p)) (own (es_pages (big_state ex p))) (dom big_held) (slabs big_held)" for p
    unfolding geo_def using own
    by (auto simp: big_held_def sl [unfolded big_held_def] big_state_def ext_ok_def big_get covers_def page_size_def)
  then have st: "extents_started (big_env t m) (big_state ex p) big_held" for m p
    unfolding extents_started_def
  proof (intro conjI allI impI)
    show "tabs_ok (en_tabs (big_env t m))" "unat (en_ind (big_env t m)) < 2 ^ 12" using t by (simp_all add: big_env_def)
    show "es_avail (big_state ex p) = ph_new" "distinct (removeAll 0 (es_descs (big_state ex p)))" "grow_bound (big_state ex p)"
      "set (es_descs (big_state ex p)) \<inter> dom big_held = {}"
      by (simp_all add: big_state_def grow_bound_def big_held_def)
    show "\<exists>ex0 delay. length (ex_bitmap ex0) = 4 \<and> ex_nextents ex0 = replicate 200 0 \<and> ex_nbytes ex0 = replicate 200 0
        \<and> extents_init ex0 k delay = Some (es_ex (big_state ex p) k)" for k
      by (intro exI [of _ ex0] exI [of _ False]) (use z ex [of k] in \<open>simp add: big_state_def\<close>)
  qed (use big_large in \<open>auto simp: big_state_def big_held_def large_ext_def split: if_splits\<close>)
  have est: "est_inv (big_env t m) (big_state ex p) {} big_held {} {} (\<lambda>_. [])" for m p
    using started_est [OF st] sl by simp
  obtain d0 where d0: "decay_run d0" "ns (dc_epoch d0) = 0" by (rule one_ms)
  define d where "d = d0\<lparr>dc_purging := False\<rparr>"
  have mine: "mine (big_env t m) big_held = {1}" "larges (big_env t m) big_held = {1}" for m
    using big_large [of t m] by (auto simp: mine_def larges_def big_held_def large_ext_def split: if_splits)
  have "arena_started (big_env t m) (big_arena ex d p) big_held" for m p
    using st [of m p] d0 mine [of m] decay_run.purging [OF d0(1), of False]
    by (simp add: arena_started_def big_arena_def clock_steady_def decay_idle_def reading_def held_pages_def d_def sc_macro_values)
      (simp add: big_held_def big_get)
  with est that show thesis by blast
qed

lemma big_reach: "arena_started en ar B \<Longrightarrow> arena_reach en oz ar B"
  by (auto simp: arena_reach_def)

text \<open>Its hook has one mapping of \<open>p\<close> to give, which is free memory.\<close>

lemma big_fresh:
  assumes "86016 \<le> unat p" "unat p \<le> 2 ^ 20" "4096 dvd unat p" "unat sz \<le> 2 ^ 20"
  shows "hook_fresh (big_state ex p\<lparr>es_ex := ex'\<rparr>) sz"
proof -
  have "own (es_pages (big_state ex p\<lparr>es_ex := ex'\<rparr>)) n = Some d \<Longrightarrow> es_mem (big_state ex p\<lparr>es_ex := ex'\<rparr>) d = big_desc" for n d
    by (simp add: big_state_def)
  then show ?thesis unfolding hook_fresh_def fresh_region_def using assms
    by (simp add: big_state_def big_get)
qed

lemma big_palloc:
  assumes "est_inv (big_env t m) (big_state ex 1048576) {} big_held {} {} (\<lambda>_. [])" "tabs_ok t" "large_class i" "class_size i \<le> 2 ^ 19"
  shows "palloc_fits i 6" "palloc_hooks (big_env t m) i 6 z (big_arena ex d 1048576)"
    "\<exists>z1 ar'. arena_extent_alloc_large (big_env t m) (usz i) (2 ^ 6) z (big_arena ex d 1048576) = Some ((Some 2, z1), ar')"
proof -
  let ?en = "big_env t m" and ?D = extent_state_dirty and ?R = extent_state_retained and ?s = "big_state ex 1048576"
    and ?req = "usz i" and ?szi = "of_nat i :: szind"
  show f: "palloc_fits i 6" using assms(3,4) by (simp add: palloc_fits_def)
  note rq = padded_request [OF f]
  have i: "i < 232" using assms(3) by (simp add: large_class_iff)
  have k: "?D \<noteq> extent_state_active" "?R \<noteq> extent_state_active" by simp_all
  from recycle_empty [OF assms(1) k(1) refl rq, of False ?szi z True] obtain e1 where
    r1: "extents_alloc ?en ?D 0 ?req sz_large_pad (2 ^ 6) False ?szi z True ?s = Some ((None, z, True), ?s\<lparr>es_ex := (es_ex ?s)(?D := e1)\<rparr>)"
    by (auto simp: extents_alloc_def)
  let ?s1 = "?s\<lparr>es_ex := (es_ex ?s)(?D := e1)\<rparr>"
  from fit_extents_ok [OF assms(1) k(2), of "?req + sz_large_pad" 6] rq obtain ret e2 where
    f2: "extents_fit_locked t 6 (es_mem ?s) (es_ex ?s ?R) (?req + sz_large_pad) (2 ^ 6) = Some (ret, e2)"
      "fit_found (es_mem ?s) [] (?req + sz_large_pad) (max 12 6) ret" by (auto simp: request_def big_env_def)
  have "ret = None" using f2(2) by (simp add: fit_found_def split: option.splits)
  define s2 where "s2 = ?s1\<lparr>es_ex := (es_ex ?s1)(?R := e2)\<rparr>"
  have ret: "extent_alloc_retained ?en 0 ?req sz_large_pad (2 ^ 6) False ?szi z True ?s1 = Some ((None, z, True), s2)"
    using f2(1) \<open>ret = None\<close> by (simp add: extent_alloc_retained_def extent_recycle_def extent_recycle_extract_def big_env_def s2_def)
  have "unat (?req + sz_large_pad) \<le> 2 ^ 20" using padded [OF i] assms(4) by simp
  then have fr: "hook_fresh s2 (?req + sz_large_pad)" unfolding s2_def using big_fresh [of 1048576] by simp
  have pl: "hook_placed s2 0 6" by (simp add: hook_placed_def s2_def big_state_def)
  have hk: "hooks_kept ?en 0 ?req sz_large_pad 6 False ?szi z True ?s1"
    unfolding hooks_kept_def using ret fr pl by (simp add: big_env_def)
  show "palloc_hooks ?en i 6 z (big_arena ex d 1048576)"
    unfolding palloc_hooks_def using r1 hk by (simp add: big_arena_def)
  show "\<exists>z1 ar'. arena_extent_alloc_large ?en ?req (2 ^ 6) z (big_arena ex d 1048576) = Some ((Some 2, z1), ar')"
  proof -
    have e: "extent_alloc s2 = (2, s2\<lparr>es_descs := []\<rparr>)"
      by (simp add: s2_def big_state_def extent_alloc_def ph_first_def ph_new_def pop_desc_def)
    have pm: "pop_map (s2\<lparr>es_descs := []\<rparr>) = ((1048576, True, True), s2\<lparr>es_descs := [], es_maps := []\<rparr>)"
      by (simp add: pop_map_def s2_def big_state_def)
    obtain sn s3 where sn: "arena_extent_sn_next (s2\<lparr>es_descs := [], es_maps := []\<rparr>) = (sn, s3)" "es_outs s3 = [False, False, False]"
      by (simp add: arena_extent_sn_next_def s2_def big_state_def)
    let ?e = "extent_init (es_mem s3 2) (Some (en_ind ?en)) 1048576 (?req + sz_large_pad) False ?szi sn extent_state_active True True True"
    define s4 where "s4 = mem_set s3 2 ?e"
    have zi: "unat ?szi \<le> SC_NSIZES" using szind_small [OF i] i by (simp add: sc_macro_values)
    have "extent_addr_get ?e = 1048576" by (rule init_get(1) [OF _ zi _ refl]) (use rq in \<open>simp_all add: request_def big_env_def\<close>)
    moreover have "PAGE_ADDR2BASE 1048576 = 1048576" by (rule aligned_base) simp
    ultimately have "extent_base_get (es_mem s4 2) = extent_addr_get (es_mem s4 2)" by (simp add: s4_def get_view)
    from addr_randomize_ok [OF _ this, of 6 "es_offset s4"] obtain st e' where
      "extent_addr_randomize (es_offset s4) (es_mem s4 2) (2 ^ 6) = Some (st, e')" by auto
    then have ar: "addr_randomize 2 (2 ^ 6) s4 = Some (mem_set (s4\<lparr>es_offset := st\<rparr>) 2 e')" by (simp add: addr_randomize_def)
    obtain s5 where rg: "extent_register 2 (mem_set (s4\<lparr>es_offset := st\<rparr>) 2 e') = (False, s5)"
      using sn(2) by (simp add: extent_register_def extent_register_impl_def extent_rtree_leaf_elms_lookup_def leaf_elm_lookup_def
          pop_out_def s4_def mem_set_def Let_def)
    have pad: "sz_large_pad \<noteq> 0" using unat_pad by auto
    have "extent_alloc_wrapper_hard ?en 0 ?req sz_large_pad (2 ^ 6) False ?szi z True s2 = Some ((Some 2, True, True), s5)"
      using e pm sn(1) ar rg pad by (simp add: extent_alloc_wrapper_hard_def s4_def [symmetric])
    then have w: "extent_alloc_wrapper ?en 0 ?req sz_large_pad (2 ^ 6) False ?szi z True ?s1 = Some ((Some 2, True, True), s5)"
      using ret by (simp add: extent_alloc_wrapper_def)
    let ?ar = "(big_arena ex d 1048576)\<lparr>pa_est := s5\<rparr>"
    from malloc_stats_ok(1) [of ?en i ?ar] assms(2,3) obtain ls where
      "arena_large_malloc_stats_update ?en ?req ?ar = Some (?ar\<lparr>pa_lstats := ls\<rparr>)"
      by (auto simp: big_env_def big_arena_def sc_macro_values)
    moreover have "sz_size2index (en_tabs ?en) ?req = Some i" "pa_est (big_arena ex d 1048576) = ?s"
      using usz_index(1) [OF assms(2) i] by (simp_all add: big_env_def big_arena_def)
    ultimately have "\<exists>ar'. arena_extent_alloc_large ?en ?req (2 ^ 6) z (big_arena ex d 1048576) = Some ((Some 2, True), ar')"
      using r1 w by (simp add: arena_extent_alloc_large_def Let_def)
    then show ?thesis by blast
  qed
qed

lemma big_past: "extent_past_get big_desc = 86016"
  by (simp add: extent_past_get_def big_get)

text \<open>The pages after the held extent are not registered, so only the hook can extend it.\<close>

lemma big_expand_hooks:
  assumes "class_size j - class_size 36 \<le> 2 ^ 19" "36 < j" "j < 232"
  shows "expand_hooks (big_env t m) big_desc 36 j z (big_arena ex d 86016)"
proof -
  let ?s = "big_state ex 86016"
  have pn: "page_number 86016 = 21" using page_number_div [of 86016] by simp
  have none: "extent_recycle (big_env t m) k 86016 req pad al slab szi zero commit ?s = Some ((None, zero, commit), ?s)"
    for k req pad al slab szi zero commit
    by (simp add: extent_recycle_def extent_recycle_extract_def extent_lock_from_addr_def pn) (simp add: big_state_def)
  have sz: "unat (usz j - usz 36) = class_size j - class_size 36"
    using assms(2,3) usz_le(1) [of 36 j] unat_usz [of j] unat_usz [of 36] by (simp add: unat_sub)
  have "hook_fresh (?s\<lparr>es_ex := es_ex ?s\<rparr>) (usz j - usz 36)"
    by (rule big_fresh) (use sz assms(1) in simp_all)
  then have fr: "hook_fresh ?s (usz j - usz 36)" by simp
  have pl: "hook_placed ?s 86016 6" by (simp add: hook_placed_def big_state_def)
  have rt: "extent_alloc_retained (big_env t m) 86016 (usz j - usz 36) 0 (2 ^ 6) False (of_nat SC_NSIZES) z' True ?s
    = Some ((None, z', True), ?s)" for z'
    using none by (simp add: extent_alloc_retained_def big_env_def)
  show ?thesis unfolding expand_hooks_def hooks_kept_def
    using none rt fr pl by (simp add: extents_alloc_def big_past big_arena_def)
qed

section \<open>Properties\<close>

text \<open>C15: in every reachable state the number of active pages is the number of pages of the extents of
  the arena that are held, at most \<open>2 ^ 35\<close>; an arena that is not chosen automatically has each held large
  extent once on its list; and every held large extent is found by the address handed out and has the
  usable size of its class.\<close>

theorem arena_accounts:
  assumes "arena_reach en oz ar B"
  shows "unat (pa_nactive ar) = held_pages en B \<and> held_pages en B \<le> 2 ^ 35
    \<and> (pa_auto ar \<or> distinct (pa_large ar) \<and> set (pa_large ar) = larges en B)
    \<and> (\<forall>d e i. B d = Some e \<and> large_ext en e i \<longrightarrow>
         iealloc (pa_est ar) (extent_addr_get e) = Some d \<and> large_salloc en d ar = Some (usz i))"
proof (intro conjI allI impI; (elim conjE)?)
  note inv = arena_reach_inv [OF assms]
  have re: "run_inv en (pa_est ar) B" using inv reach_inv by (simp add: apages_inv_def pages_ok_def)
  show "unat (pa_nactive ar) = held_pages en B" "pa_auto ar \<or> distinct (pa_large ar) \<and> set (pa_large ar) = larges en B"
    using inv by (simp_all add: apages_inv_def)
  show "held_pages en B \<le> 2 ^ 35" by (rule held_pages_bound [OF re])
  fix d e i assume d: "B d = Some e" "large_ext en e i"
  show "iealloc (pa_est ar) (extent_addr_get e) = Some d" by (rule iealloc_held [OF re d])
  show "large_salloc en d ar = Some (usz i)" by (rule salloc_held [OF inv d])
qed

theorem arena_accounts_witness:
  "\<exists>en ar. arena_reach en False ar big_held \<and> unat (pa_nactive ar) = held_pages en big_held
    \<and> iealloc (pa_est ar) 65536 = Some 1 \<and> large_salloc en 1 ar = Some 16384"
proof -
  obtain t ex d where st: "\<And>m p. arena_started (big_env t m) (big_arena ex d p) big_held" using big_start by metis
  note re = big_reach [OF st [of True 86016], of False]
  have "usz 36 = 16384" by (simp add: usz_def class_36)
  moreover have "big_held 1 = Some big_desc" by (simp add: big_held_def)
  ultimately show ?thesis using arena_accounts [OF re] big_large [of t True] re big_get(1) by metis
qed

lemma large_bytes: "large_ext en e i \<Longrightarrow> {unat (extent_addr_get e)..<unat (extent_addr_get e) + class_size i} \<subseteq> bytes_of e"
  by (auto simp: large_ext_def bytes_of_def)

lemma new_disjoint:
  assumes "apages_inv en ar (B(d \<mapsto> e))" "d \<notin> dom B" "B d' = Some e'"
  shows "bytes_of e \<inter> bytes_of e' = {}"
proof -
  have "run_inv en (pa_est ar) (B(d \<mapsto> e))" using assms(1) reach_inv by (auto simp: apages_inv_def pages_ok_def)
  then show ?thesis by (rule held_disjoint [of _ _ _ d e d' e']) (use assms(2,3) in auto)
qed

text \<open>C12: in every reachable state \<open>large_palloc\<close> returns for every large class and power of two that fit
  the address space: null, or an address that is aligned as asked, leads to a new active extent of the
  class, and is followed by as many bytes as the class has, none of which belongs to an extent held
  before. The hooks promise fresh memory where they are called.\<close>

theorem large_palloc_correct:
  assumes "arena_reach en oz ar B" "palloc_fits i a" "palloc_hooks en i a (zero \<or> oz) ar"
  shows "\<exists>r ar'. large_palloc en oz (usz i) (2 ^ a) zero ar = Some (r, ar') \<and>
    (case r of None \<Rightarrow> arena_reach en oz ar' B
     | Some p \<Rightarrow> \<exists>d e. iealloc (pa_est ar') p = Some d \<and> d \<notin> dom B \<and> large_ext en e i \<and> p = extent_addr_get e
         \<and> 2 ^ a dvd unat p \<and> {unat p..<unat p + class_size i} \<subseteq> bytes_of e
         \<and> (\<forall>d' e'. B d' = Some e' \<longrightarrow> bytes_of e \<inter> bytes_of e' = {}) \<and> arena_reach en oz ar' (B(d \<mapsto> e)))"
proof -
  note inv = arena_reach_inv [OF assms(1)]
  from palloc_ok [OF inv assms(2,3)] obtain r ar' where
    r: "large_palloc en oz (usz i) (2 ^ a) zero ar = Some (r, ar')"
      "case r of None \<Rightarrow> apages_inv en ar' B | Some p \<Rightarrow> \<exists>d e. d \<notin> dom B \<and> large_ext en e i \<and> p = extent_addr_get e
         \<and> 2 ^ a dvd unat p \<and> apages_inv en ar' (B(d \<mapsto> e))" by blast
  show ?thesis
  proof (cases r)
    case None
    with r(1) arena_reach_step [OF assms(1) arena_step.palloc_none [OF assms(2,3)]] show ?thesis by auto
  next
    case (Some p)
    with r(2) obtain d e where d: "d \<notin> dom B" "large_ext en e i" "p = extent_addr_get e" "2 ^ a dvd unat p"
      "apages_inv en ar' (B(d \<mapsto> e))" by auto
    have ie: "iealloc (pa_est ar') p = Some d" unfolding d(3) by (rule iealloc_apages [OF d(5) _ d(2)]) simp
    have "es_mem (pa_est ar') d = e" by (rule apages_held [OF d(5)]) simp
    with arena_reach_step [OF assms(1) arena_step.palloc [OF assms(2,3) r(1) [unfolded Some] ie]]
    have "arena_reach en oz ar' (B(d \<mapsto> e))" by simp
    moreover have "\<forall>d' e'. B d' = Some e' \<longrightarrow> bytes_of e \<inter> bytes_of e' = {}" using new_disjoint [OF d(5,1)] by blast
    moreover have "{unat p..<unat p + class_size i} \<subseteq> bytes_of e" using large_bytes [OF d(2)] d(3) by simp
    ultimately show ?thesis using r(1) ie d(1-4) unfolding Some by (intro exI [of _ "Some p"] exI [of _ ar']) (simp only: option.case, blast)
  qed
qed

theorem large_palloc_correct_witness:
  "\<exists>en ar ar' p d e. arena_reach en False ar big_held \<and> large_palloc en False 16384 64 False ar = Some (Some p, ar')
    \<and> large_ext en e 36 \<and> 64 dvd unat p \<and> bytes_of e \<inter> bytes_of big_desc = {} \<and> arena_reach en False ar' (big_held(d \<mapsto> e))"
proof -
  obtain t ex d where st: "\<And>m p. arena_started (big_env t m) (big_arena ex d p) big_held"
    "\<And>m p. est_inv (big_env t m) (big_state ex p) {} big_held {} {} (\<lambda>_. [])" using big_start by metis
  let ?en = "big_env t True" and ?ar = "big_arena ex d 1048576"
  note re = big_reach [OF st(1) [of True 1048576], of False]
  have tabs: "tabs_ok t" using st(1) [of True 0] by (simp add: arena_started_def extents_started_def big_env_def)
  have u: "usz 36 = 16384" "(2::size_t) ^ 6 = 64" by (simp_all add: usz_def class_36)
  have c: "large_class 36" "class_size 36 \<le> 2 ^ 19" by (simp_all add: large_class_iff class_36)
  note pa = big_palloc [OF st(2) [of True 1048576] tabs c]
  have sa: "sz_sa2u (en_tabs ?en) 16384 64 = Some 16384"
    by (simp add: sz_sa2u_def sz_sa2u_large_def sc_macro_values sz_large_pad_def PAGE_def LG_PAGE_def PAGE_CEILING_def PAGE_MASK_def
        class_size_group)
  have ph: "palloc_hooks ?en 36 6 (False \<or> False) ?ar" using pa(2) by simp
  from large_palloc_correct [OF re pa(1) ph] obtain r ar' where
    r: "large_palloc ?en False (usz 36) (2 ^ 6) False ?ar = Some (r, ar')"
      "case r of None \<Rightarrow> arena_reach ?en False ar' big_held
     | Some p \<Rightarrow> \<exists>d e. iealloc (pa_est ar') p = Some d \<and> d \<notin> dom big_held \<and> large_ext ?en e 36 \<and> p = extent_addr_get e
         \<and> 2 ^ 6 dvd unat p \<and> {unat p..<unat p + class_size 36} \<subseteq> bytes_of e
         \<and> (\<forall>d' e'. big_held d' = Some e' \<longrightarrow> bytes_of e \<inter> bytes_of e' = {}) \<and> arena_reach ?en False ar' (big_held(d \<mapsto> e))" by blast
  from pa(3) [of False d] obtain z ar1 where al: "arena_extent_alloc_large ?en 16384 64 False ?ar = Some ((Some 2, z), ar1)" by (auto simp: u)
  have "\<not> 16384 > SC_LARGE_MAXCLASS" by (simp add: sc_macro_values class_size_group)
  then have "r \<noteq> None" using r(1) al sa by (auto simp: large_palloc_def u Let_def bind_eq_Some_conv)
  then obtain p where p: "r = Some p" by blast
  have b: "big_held 1 = Some big_desc" by (simp add: big_held_def)
  from r(2) p obtain d' e where "large_ext ?en e 36" "2 ^ 6 dvd unat p" "bytes_of e \<inter> bytes_of big_desc = {}"
    "arena_reach ?en False ar' (big_held(d' \<mapsto> e))" using b by (simp del: fun_upd_apply) blast
  with re r(1) p u show ?thesis by (intro exI [of _ ?en] exI [of _ ?ar] exI [of _ ar'] exI [of _ p] exI [of _ d'] exI [of _ e]) simp
qed

text \<open>C17: freeing a held large extent, and a held slab, returns in every reachable state, whatever is
  decayed on the way; the extent is held no more, all others stay, and the number of active pages drops
  by its pages.\<close>

theorem large_free_correct:
  assumes "arena_reach en oz ar B" "B d = Some e"
  shows "(\<forall>i. large_ext en e i \<longrightarrow> (\<exists>ar'. large_dalloc en d ar = Some ar' \<and> arena_reach en oz ar' (B(d := None))
        \<and> unat (pa_nactive ar) = unat (pa_nactive ar') + npg e))
    \<and> (active_desc en e \<and> extent_slab_get e \<longrightarrow> (\<exists>ar'. arena_slab_free en d ar = Some ar' \<and> arena_reach en oz ar' (B(d := None))
        \<and> unat (pa_nactive ar) = unat (pa_nactive ar') + npg e))"
proof -
  note inv = arena_reach_inv [OF assms(1)]
  have re: "run_inv en (pa_est ar) B" using inv reach_inv by (simp add: apages_inv_def pages_ok_def)
  have n: "unat (pa_nactive ar) = unat (pa_nactive ar') + npg e" if "apages_inv en ar' (B(d := None))" "active_desc en e" for ar'
    using that inv held_pages_take [OF mine_finite [OF re] assms(2) that(2)] by (simp add: apages_inv_def del: fun_upd_apply)
  have l: "\<exists>ar'. large_dalloc en d ar = Some ar' \<and> arena_reach en oz ar' (B(d := None)) \<and> unat (pa_nactive ar) = unat (pa_nactive ar') + npg e"
    if i: "large_ext en e i" for i
  proof -
    from large_dalloc_ok [OF inv assms(2) i] obtain ar' where a: "large_dalloc en d ar = Some ar'" "apages_inv en ar' (B(d := None))"
      by blast
    have "active_desc en e" using i by (simp add: large_ext_def)
    with a n arena_reach_step [OF assms(1) arena_step.dalloc [of B d e en i ar ar' oz, OF assms(2) i a(1)]] show ?thesis by blast
  qed
  have s: "\<exists>ar'. arena_slab_free en d ar = Some ar' \<and> arena_reach en oz ar' (B(d := None)) \<and> unat (pa_nactive ar) = unat (pa_nactive ar') + npg e"
    if "active_desc en e" "extent_slab_get e"
  proof -
    have h: "holds en B d e" using assms(2) that(1) by (simp add: holds_def)
    from slab_free_ok [OF inv h that(2)] obtain ar' where a: "arena_slab_free en d ar = Some ar'" "apages_inv en ar' (B(d := None))"
      by blast
    with n that(1) arena_reach_step [OF assms(1) arena_step.slab_free [OF h that(2) a(1)]] show ?thesis by blast
  qed
  from l s show ?thesis by blast
qed

theorem large_free_correct_witness:
  "\<exists>en ar ar'. arena_reach en False ar big_held \<and> large_dalloc en 1 ar = Some ar' \<and> arena_reach en False ar' Map.empty
    \<and> unat (pa_nactive ar) = unat (pa_nactive ar') + 5"
proof -
  obtain t ex d where st: "\<And>m p. arena_started (big_env t m) (big_arena ex d p) big_held" using big_start by metis
  note re = big_reach [OF st [of True 86016], of False]
  have b: "big_held 1 = Some big_desc" "big_held(1 := None) = Map.empty" by (auto simp: big_held_def)
  from conjunct1 [OF large_free_correct [OF re b(1)]] big_large re show ?thesis unfolding b(2) big_get by blast
qed



text \<open>C18: with a smaller acceptable size to fall back on that is larger than the old one, the answer after
  a failed first attempt is the opposite of what the second one did: an error is reported exactly when
  the extent has been expanded to the smaller size, and success when nothing has changed.\<close>

theorem large_resize_again:
  assumes "arena_reach en oz ar B" "B d = Some e" "large_ext en e i" "large_class hi" "i < lo" "lo < hi"
    and "resize_hooks en oz e d i lo hi zero ar" "large_ralloc_no_move_expand en oz d (usz hi) zero ar = Some (True, ar1)"
  shows "\<exists>err ar'. large_ralloc_no_move en oz d (usz lo) (usz hi) zero ar = Some (err, ar') \<and>
    (if err then \<exists>e'. large_ext en e' lo \<and> extent_addr_get e' = extent_addr_get e \<and> arena_reach en oz ar' (B(d \<mapsto> e'))
     else arena_reach en oz ar' B)"
proof -
  note inv = arena_reach_inv [OF assms(1)]
  have lh: "lo \<le> hi" "i < hi" using assms(5,6) by simp_all
  have lo: "large_class lo" using assms(3-6) by (auto simp: large_ext_def large_class_iff)
  have h: "expand_hooks en e i lo (zero \<or> oz) ar1" "expand_hooks en e i hi (zero \<or> oz) ar"
    using assms(5-8) by (simp_all add: resize_hooks_def)
  from expand_ok [OF inv assms(2-4) lh(2) h(2)] assms(8) have inv1: "apages_inv en ar1 B" by auto
  from no_move_again [OF inv assms(2-6,8) inv1 h(1)] obtain err ar' where
    r: "large_ralloc_no_move en oz d (usz lo) (usz hi) zero ar = Some (err, ar')"
      "if err then \<exists>e'. apages_inv en ar' (B(d \<mapsto> e')) \<and> large_ext en e' lo \<and> extent_addr_get e' = extent_addr_get e
       else apages_inv en ar' B" by blast
  note re = arena_reach_step [OF assms(1) arena_step.resize [of B d e en i, OF assms(2-4) lh(1) assms(7) r(1)]]
  show ?thesis
  proof (cases err)
    case True
    with r(2) obtain e' where e': "apages_inv en ar' (B(d \<mapsto> e'))" "large_ext en e' lo" "extent_addr_get e' = extent_addr_get e" by auto
    have "es_mem (pa_est ar') d = e'" by (rule apages_held [OF e'(1)]) simp
    with r(1) True re e'(2,3) show ?thesis by auto
  next
    case False
    with r(2) have "es_mem (pa_est ar') d = e" using apages_held [of en ar' B d e, OF _ assms(2)] by simp
    moreover have "B(d \<mapsto> e) = B" using assms(2) by auto
    ultimately show ?thesis using r(1) False re by auto
  qed
qed

theorem large_resize_again_witness:
  "\<exists>en ar ar'. arena_reach en False ar big_held \<and> large_ralloc_no_move en False 1 20480 24576 False ar = Some (False, ar')
    \<and> arena_reach en False ar' big_held \<and> large_salloc en 1 ar' = Some 16384"
proof -
  obtain t ex d where st: "\<And>m p. arena_started (big_env t m) (big_arena ex d p) big_held" using big_start by metis
  let ?en = "big_env t False" and ?ar = "big_arena ex d 86016"
  note re = big_reach [OF st [of False 86016], of False]
  have b: "big_held 1 = Some big_desc" by (simp add: big_held_def)
  have c: "class_size 37 = 20480" "class_size 38 = 24576" "large_class 38" "(36::nat) < 37" "(37::nat) < 38"
    by (simp_all add: class_size_group large_class_iff)
  have m: "\<not> hk_merge (en_hooks ?en)" by (simp add: big_env_def)
  then have h: "resize_hooks ?en False big_desc 1 36 37 38 False ?ar" by (simp add: resize_hooks_def expand_hooks_def)
  have u: "usz 36 = 16384" "usz 37 = 20480" "usz 38 = 24576" by (simp_all add: usz_def class_36 c(1,2))
  have sal: "large_salloc ?en 1 ar' = Some 16384" if "arena_reach ?en False ar' big_held" for ar'
    using salloc_held [of ?en ar' big_held 1 big_desc 36, OF arena_reach_inv [OF that] b big_large] u(1) by simp
  have ex: "large_ralloc_no_move_expand ?en False 1 w False ?ar = Some (True, ?ar)" for w
    using sal [OF re] m by (simp add: large_ralloc_no_move_expand_def large_salloc_def Let_def)
  from large_resize_again [OF re b big_large c(3-5) h ex] obtain err ar' where
    r: "large_ralloc_no_move ?en False 1 (usz 37) (usz 38) False ?ar = Some (err, ar')"
      "if err then \<exists>e'. large_ext ?en e' 37 \<and> extent_addr_get e' = extent_addr_get big_desc \<and> arena_reach ?en False ar' (big_held(1 \<mapsto> e'))
       else arena_reach ?en False ar' big_held" by blast
  have "(37::nat) \<le> 38" "(37::nat) < 232" by simp_all
  note ns = no_move_start [OF arena_reach_inv [OF re] b big_large c(3) this, of False False]
  from ticked_ok [OF arena_reach_inv [OF re]] obtain ar2 where "ticked ?en ?ar = Some (False, ar2)" by blast
  then have "\<not> err" using r(1) ns ex by simp
  with r u sal re show ?thesis by auto
qed



text \<open>C16: in every reachable state the decay of both collections returns, as a step of the clock or of all
  pages, and so do the ticks of the counter and a change of the decay times, which reports an error
  exactly for a time out of range; no extent that is held is touched, and no account changes.\<close>

theorem arena_decay_keeps:
  assumes "arena_reach en oz ar B"
  shows "(\<forall>bg all. \<exists>ar'. arena_decay_run en bg all ar = Some ar' \<and> arena_reach en oz ar' B \<and> kept ar ar')
    \<and> (\<forall>n. \<exists>ar'. arena_decay_ticks en n ar = Some ar' \<and> arena_reach en oz ar' B \<and> kept ar ar')
    \<and> (\<forall>k ms. (k = extent_state_dirty \<or> k = extent_state_muzzy) \<and> ms < 2 ^ 63 \<longrightarrow>
         (\<exists>ar'. arena_decay_ms_set en k ms ar = Some (\<not> arena_decay_ms_valid ms, ar') \<and> arena_reach en oz ar' B \<and> kept ar ar'))"
proof (intro conjI allI impI; (elim conjE)?)
  have p: "pages_ok en ar B" using arena_reach_inv [OF assms] by (simp add: apages_inv_def)
  show "\<exists>ar'. arena_decay_run en bg all ar = Some ar' \<and> arena_reach en oz ar' B \<and> kept ar ar'" for bg all
    using decay_run_ok2 [OF p, of bg all] arena_reach_step [OF assms arena_step.decay] by blast
  show "\<exists>ar'. arena_decay_ticks en n ar = Some ar' \<and> arena_reach en oz ar' B \<and> kept ar ar'" for n
    using ticks_ok [OF p, of n] arena_reach_step [OF assms arena_step.ticks] by blast
  show "\<exists>ar'. arena_decay_ms_set en k ms ar = Some (\<not> arena_decay_ms_valid ms, ar') \<and> arena_reach en oz ar' B \<and> kept ar ar'"
    if k: "k = extent_state_dirty \<or> k = extent_state_muzzy" "ms < 2 ^ 63" for k ms
    using ms_set_ok [OF p k] arena_reach_step [OF assms arena_step.ms_set [OF k]] by blast
qed

theorem arena_decay_keeps_witness:
  "\<exists>en ar ar1 ar2. arena_reach en False ar big_held \<and> arena_decay_run en False True ar = Some ar1 \<and> arena_reach en False ar1 big_held
    \<and> arena_decay_ms_set en extent_state_dirty 0 ar1 = Some (False, ar2) \<and> pa_nactive ar2 = 5"
proof -
  obtain t ex d where st: "\<And>m p. arena_started (big_env t m) (big_arena ex d p) big_held" using big_start by metis
  let ?en = "big_env t True" and ?ar = "big_arena ex d 86016"
  note re = big_reach [OF st [of True 86016], of False]
  from arena_decay_keeps [OF re] obtain ar1 where
    a1: "arena_decay_run ?en False True ?ar = Some ar1" "arena_reach ?en False ar1 big_held" "kept ?ar ar1" by blast
  have v: "arena_decay_ms_valid 0" by (simp add: arena_decay_ms_valid_def NSTIME_SEC_MAX_def)
  have "\<exists>ar'. arena_decay_ms_set ?en extent_state_dirty 0 ar1 = Some (\<not> arena_decay_ms_valid 0, ar') \<and> arena_reach ?en False ar' big_held \<and> kept ar1 ar'"
    using conjunct2 [OF conjunct2 [OF arena_decay_keeps [OF a1(2)]]] by simp
  then obtain ar2 where "arena_decay_ms_set ?en extent_state_dirty 0 ar1 = Some (False, ar2)" "kept ar1 ar2" using v by auto
  with re a1 show ?thesis
    by (intro exI [of _ ?en] exI [of _ ?ar] exI [of _ ar1] exI [of _ ar2]) (simp add: kept_def big_arena_def)
qed

end
