(* ===== verification/Base.thy ===== *)
theory Base
  imports Sz Ph "HOL-Library.Monad_Syntax"
begin

text \<open>
  The allocator for metadata in src/base.c: blocks of memory from the hooks, each with a header that
  has the extent of its unused rest, and one heap of such extents for each size class. A block is its
  address and size; the chain of blocks is a list; the extents are in a memory indexed by address. The
  addresses that mapping returns are a list in the state of the system. The mutex is dropped while a
  block is mapped: the steps of other threads in between are an argument of \<open>base_alloc_impl\<close>, and
  its two halves are steps of their own in the runs. Mapping, the switch to huge pages, for which the
  mutex is taken again, and the initialisation of the block are one step.
\<close>

section \<open>Huge pages\<close>

definition LG_HUGEPAGE :: nat where "LG_HUGEPAGE = 21"
definition HUGEPAGE :: size_t where "HUGEPAGE = push_bit LG_HUGEPAGE 1"
definition HUGEPAGE_MASK :: size_t where "HUGEPAGE_MASK = HUGEPAGE - 1"

definition HUGEPAGE_CEILING :: "size_t \<Rightarrow> size_t" where
  "HUGEPAGE_CEILING s = (s + HUGEPAGE_MASK) AND NOT HUGEPAGE_MASK"

definition QUANTUM :: size_t where "QUANTUM = push_bit LG_QUANTUM 1"
definition QUANTUM_MASK :: size_t where "QUANTUM_MASK = QUANTUM - 1"

definition QUANTUM_CEILING :: "size_t \<Rightarrow> size_t" where
  "QUANTUM_CEILING a = (a + QUANTUM_MASK) AND NOT QUANTUM_MASK"

datatype metadata_thp_mode = metadata_thp_disabled | metadata_thp_auto | metadata_thp_always

section \<open>State\<close>

text \<open>The sizes of the structs, the settings and the address of the default hooks.\<close>

record base_env =
  be_tabs :: sz_tabs
  be_header :: size_t
  be_base :: size_t
  be_extent :: size_t
  be_thp :: metadata_thp_mode
  be_thp_default :: bool
  be_hooks_default :: "64 word"

record base_block =
  bb_addr :: "64 word"
  bb_size :: size_t

text \<open>The extent comes after the size and the link to the next block.\<close>

definition block_extent :: "base_block \<Rightarrow> 64 word" where "block_extent block = bb_addr block + 16"

record base =
  ba_ind :: "32 word"
  ba_hooks :: "64 word"
  ba_auto_thp_switched :: bool
  ba_pind_last :: nat
  ba_extent_sn_next :: size_t
  ba_blocks :: "base_block list"
  ba_avail :: "64 word ph list"
  ba_allocated :: size_t
  ba_resident :: size_t
  ba_mapped :: size_t
  ba_n_thp :: size_t

text \<open>The calls that give memory back. The last one only advises the system.\<close>

datatype unmap_call = call_dalloc | call_decommit | call_purge_forced | call_purge_lazy | call_nohuge

text \<open>The answers of the system to the mappings to come, and the blocks given back with the calls made.\<close>

record base_world =
  bw_mem :: "64 word \<Rightarrow> extent"
  bw_maps :: "64 word list"
  bw_unmaps :: "(64 word \<times> size_t \<times> unmap_call list) list"

definition BASE_AUTO_THP_THRESHOLD :: nat where "BASE_AUTO_THP_THRESHOLD = 2"
definition BASE_AUTO_THP_THRESHOLD_A0 :: nat where "BASE_AUTO_THP_THRESHOLD_A0 = 5"

definition metadata_thp_enabled :: "base_env \<Rightarrow> bool" where
  "metadata_thp_enabled en \<longleftrightarrow> be_thp en \<noteq> metadata_thp_disabled"

definition metadata_thp_madvise :: "base_env \<Rightarrow> bool" where
  "metadata_thp_madvise en \<longleftrightarrow> metadata_thp_enabled en \<and> be_thp_default en"

definition base_ind_get :: "base \<Rightarrow> 32 word" where "base_ind_get base = ba_ind base"

section \<open>Mapping\<close>

text \<open>What the system or the hook answers, 0 when it has no memory.\<close>

definition base_map :: "size_t \<Rightarrow> base_world \<Rightarrow> (64 word \<times> base_world) option" where
  "base_map sz w =
     (if sz \<noteq> HUGEPAGE_CEILING sz then None
      else case bw_maps w of [] \<Rightarrow> Some (0, w) | addr # maps \<Rightarrow> Some (addr, w\<lparr>bw_maps := maps\<rparr>))"

text \<open>The calls in the order in which they are made, until one of them succeeds. An entry is absent
  when the application has no such hook; the default hooks have all four, and one of them succeeds.\<close>

fun unmap_cascade :: "(unmap_call \<Rightarrow> bool option) \<Rightarrow> unmap_call list \<Rightarrow> unmap_call list \<times> bool" where
  "unmap_cascade fails [] = ([], False)"
| "unmap_cascade fails (c # cs) =
     (case fails c of
        None \<Rightarrow> unmap_cascade fails cs
      | Some err \<Rightarrow> if \<not> err then ([c], True) else (let (calls, ok) = unmap_cascade fails cs in (c # calls, ok)))"

definition base_unmap ::
  "base_env \<Rightarrow> 64 word \<Rightarrow> (unmap_call \<Rightarrow> bool option) \<Rightarrow> 64 word \<Rightarrow> size_t \<Rightarrow> base_world \<Rightarrow> base_world option" where
  "base_unmap en extent_hooks fails addr sz w =
     (let (calls, ok) = unmap_cascade fails [call_dalloc, call_decommit, call_purge_forced, call_purge_lazy]
      in if extent_hooks = be_hooks_default en \<and> \<not> ok then None
         else if metadata_thp_madvise en
         then if addr AND HUGEPAGE_MASK \<noteq> 0 \<or> sz AND HUGEPAGE_MASK \<noteq> 0 then None
              else Some (w\<lparr>bw_unmaps := bw_unmaps w @ [(addr, sz, calls @ [call_nohuge])]\<rparr>)
         else Some (w\<lparr>bw_unmaps := bw_unmaps w @ [(addr, sz, calls)]\<rparr>))"

section \<open>Blocks\<close>

definition base_extent_init :: "size_t \<Rightarrow> 64 word \<Rightarrow> 64 word \<Rightarrow> size_t \<Rightarrow> (64 word \<Rightarrow> extent) \<Rightarrow> size_t \<times> (64 word \<Rightarrow> extent)" where
  "base_extent_init extent_sn_next extent addr sz mem =
     (extent_sn_next + 1, mem(extent := extent_binit (mem extent) addr sz extent_sn_next))"

definition base_get_num_blocks :: "base \<Rightarrow> bool \<Rightarrow> nat option" where
  "base_get_num_blocks base with_new_block =
     (if ba_blocks base = [] then None
      else Some ((if with_new_block then 2 else 1) + (length (ba_blocks base) - 1)))"

text \<open>The loop over the blocks; for an arena other than the first it ends after one block.\<close>

fun auto_thp_blocks :: "32 word \<Rightarrow> (64 word \<Rightarrow> extent) \<Rightarrow> base_block list \<Rightarrow> size_t \<Rightarrow> size_t option" where
  "auto_thp_blocks ind mem [] n_thp = Some n_thp"
| "auto_thp_blocks ind mem (block # blocks) n_thp =
     (if bb_size block AND HUGEPAGE_MASK \<noteq> 0 \<or> \<not> (blocks = [] \<or> ind = 0) then None
      else auto_thp_blocks ind mem blocks
        (n_thp + drop_bit LG_HUGEPAGE (HUGEPAGE_CEILING (bb_size block - extent_bsize_get (mem (block_extent block))))))"

definition base_auto_thp_switch :: "base_env \<Rightarrow> (64 word \<Rightarrow> extent) \<Rightarrow> base \<Rightarrow> base option" where
  "base_auto_thp_switch en mem base =
     (if be_thp en \<noteq> metadata_thp_auto then None
      else if ba_auto_thp_switched base then Some base
      else do {
        n \<leftarrow> base_get_num_blocks base True;
        let should_switch = (if base_ind_get base \<noteq> 0 then n = BASE_AUTO_THP_THRESHOLD else n = BASE_AUTO_THP_THRESHOLD_A0);
        if \<not> should_switch then Some base
        else do {
          let base = base\<lparr>ba_auto_thp_switched := True\<rparr>;
          if ba_n_thp base \<noteq> 0 then None
          else do {
            n_thp \<leftarrow> auto_thp_blocks (base_ind_get base) mem (ba_blocks base) (ba_n_thp base);
            Some (base\<lparr>ba_n_thp := n_thp\<rparr>)
          }
        }
      })"

text \<open>The size of the next block.\<close>

definition base_block_size :: "base_env \<Rightarrow> nat \<Rightarrow> size_t \<Rightarrow> size_t \<Rightarrow> size_t option" where
  "base_block_size en pind_last sz alignment = do {
     let alignment = ALIGNMENT_CEILING alignment QUANTUM;
     let usize = ALIGNMENT_CEILING sz alignment;
     let header_size = be_header en;
     let gap_size = ALIGNMENT_CEILING header_size alignment - header_size;
     let min_block_size = HUGEPAGE_CEILING (sz_psz2u (header_size + gap_size + usize));
     let pind_next = (if pind_last + 1 < sz_psz2ind SC_LARGE_MAXCLASS then pind_last + 1 else pind_last);
     next_size \<leftarrow> sz_pind2sz (be_tabs en) pind_next;
     let next_block_size = HUGEPAGE_CEILING next_size;
     Some (if min_block_size > next_block_size then min_block_size else next_block_size)
   }"

text \<open>\<open>base\<close> is absent for the first block of a new base. Asking for huge pages leaves no trace.\<close>

definition block_thp :: "base_env \<Rightarrow> 64 word \<Rightarrow> size_t \<Rightarrow> (64 word \<Rightarrow> extent) \<Rightarrow> base option \<Rightarrow> base option option" where
  "block_thp en addr block_size mem base =
     (if metadata_thp_madvise en
      then if addr AND HUGEPAGE_MASK \<noteq> 0 \<or> block_size AND HUGEPAGE_MASK \<noteq> 0 then None
           else if be_thp en = metadata_thp_auto
           then (case base of None \<Rightarrow> Some None | Some base \<Rightarrow> map_option Some (base_auto_thp_switch en mem base))
           else Some base
      else Some base)"

definition base_block_alloc ::
  "base_env \<Rightarrow> base option \<Rightarrow> nat \<Rightarrow> size_t \<Rightarrow> size_t \<Rightarrow> size_t \<Rightarrow> base_world
    \<Rightarrow> ((base_block option \<times> nat \<times> size_t) \<times> base option \<times> base_world) option" where
  "base_block_alloc en base pind_last extent_sn_next sz alignment w = do {
     block_size \<leftarrow> base_block_size en pind_last sz alignment;
     (addr, w) \<leftarrow> base_map block_size w;
     if addr = 0 then Some ((None, pind_last, extent_sn_next), base, w)
     else do {
       base \<leftarrow> block_thp en addr block_size (bw_mem w) base;
       let pind_last = sz_psz2ind block_size;
       let block = \<lparr>bb_addr = addr, bb_size = block_size\<rparr>;
       if \<not> block_size \<ge> be_header en then None
       else do {
         let (extent_sn_next, mem) = base_extent_init extent_sn_next (block_extent block) (addr + be_header en)
                                       (block_size - be_header en) (bw_mem w);
         Some ((Some block, pind_last, extent_sn_next), base, w\<lparr>bw_mem := mem\<rparr>)
       }
     }
   }"

text \<open>\<open>base_extent_alloc\<close>, before and after the mutex is taken again.\<close>

definition base_extent_map ::
  "base_env \<Rightarrow> size_t \<Rightarrow> size_t \<Rightarrow> base \<Rightarrow> base_world \<Rightarrow> (base_block option \<times> base \<times> base_world) option" where
  "base_extent_map en sz alignment base w = do {
     ((block, pind_last, sn_next), b, w) \<leftarrow>
       base_block_alloc en (Some base) (ba_pind_last base) (ba_extent_sn_next base) sz alignment w;
     base \<leftarrow> b;
     Some (block, base\<lparr>ba_pind_last := pind_last, ba_extent_sn_next := sn_next\<rparr>, w)
   }"

definition base_extent_link :: "base_env \<Rightarrow> base_block option \<Rightarrow> base \<Rightarrow> (64 word option \<times> base) option" where
  "base_extent_link en block base =
     (case block of
        None \<Rightarrow> Some (None, base)
      | Some block \<Rightarrow> do {
          let base = base\<lparr>ba_blocks := block # ba_blocks base, ba_allocated := ba_allocated base + be_header en,
                          ba_resident := ba_resident base + PAGE_CEILING (be_header en), ba_mapped := ba_mapped base + bb_size block\<rparr>;
          base \<leftarrow> (if metadata_thp_madvise en \<and> \<not> (be_thp en = metadata_thp_auto \<and> \<not> ba_auto_thp_switched base)
                  then if ba_n_thp base > 0
                       then Some (base\<lparr>ba_n_thp := ba_n_thp base + drop_bit LG_HUGEPAGE (HUGEPAGE_CEILING (be_header en))\<rparr>)
                       else None
                  else Some base);
          if ba_allocated base \<le> ba_resident base \<and> ba_resident base \<le> ba_mapped base
             \<and> push_bit LG_HUGEPAGE (ba_n_thp base) \<le> ba_mapped base
          then Some (Some (block_extent block), base) else None
        })"

section \<open>Allocation from an extent\<close>

definition base_extent_bump_alloc_helper ::
  "64 word \<Rightarrow> size_t \<Rightarrow> size_t \<Rightarrow> (64 word \<Rightarrow> extent) \<Rightarrow> ((64 word \<times> size_t) \<times> (64 word \<Rightarrow> extent)) option" where
  "base_extent_bump_alloc_helper extent sz alignment mem =
     (if alignment \<noteq> ALIGNMENT_CEILING alignment QUANTUM \<or> sz \<noteq> ALIGNMENT_CEILING sz alignment then None
      else
        let e = mem extent;
            gap_size = ALIGNMENT_CEILING (extent_addr_get e) alignment - extent_addr_get e;
            ret = extent_addr_get e + gap_size
        in if \<not> extent_bsize_get e \<ge> gap_size + sz then None
           else Some ((ret, gap_size),
             mem(extent := extent_binit e (extent_addr_get e + gap_size + sz) (extent_bsize_get e - gap_size - sz)
                             (extent_sn_get e))))"

definition base_extent_bump_alloc_post ::
  "base_env \<Rightarrow> 64 word \<Rightarrow> size_t \<Rightarrow> 64 word \<Rightarrow> size_t \<Rightarrow> (64 word \<Rightarrow> extent) \<Rightarrow> base \<Rightarrow> base option" where
  "base_extent_bump_alloc_post en extent gap_size addr sz mem base = do {
     base \<leftarrow> (if extent_bsize_get (mem extent) > 0
             then do {
               i \<leftarrow> sz_size2index (be_tabs en) (extent_bsize_get (mem extent) + 1);
               if i = 0 then None
               else do {
                 heap \<leftarrow> read_at (ba_avail base) (i - 1);
                 avail \<leftarrow> write_at (ba_avail base) (i - 1) (ph_insert extent heap);
                 Some (base\<lparr>ba_avail := avail\<rparr>)
               }
             }
             else Some base);
     let base = base\<lparr>ba_allocated := ba_allocated base + sz,
                     ba_resident := ba_resident base + (PAGE_CEILING (addr + sz) - PAGE_CEILING (addr - gap_size))\<rparr>;
     if \<not> (ba_allocated base \<le> ba_resident base \<and> ba_resident base \<le> ba_mapped base) then None
     else if metadata_thp_madvise en \<and> (be_thp en = metadata_thp_always \<or> ba_auto_thp_switched base)
     then
       let base = base\<lparr>ba_n_thp := ba_n_thp base
             + drop_bit LG_HUGEPAGE (HUGEPAGE_CEILING (addr + sz) - HUGEPAGE_CEILING (addr - gap_size))\<rparr>
       in if ba_mapped base \<ge> push_bit LG_HUGEPAGE (ba_n_thp base) then Some base else None
     else Some base
   }"

definition base_extent_bump_alloc ::
  "base_env \<Rightarrow> 64 word \<Rightarrow> size_t \<Rightarrow> size_t \<Rightarrow> base \<Rightarrow> base_world \<Rightarrow> (64 word \<times> base \<times> base_world) option" where
  "base_extent_bump_alloc en extent sz alignment base w = do {
     ((ret, gap_size), mem) \<leftarrow> base_extent_bump_alloc_helper extent sz alignment (bw_mem w);
     base \<leftarrow> base_extent_bump_alloc_post en extent gap_size ret sz mem base;
     Some (ret, base, w\<lparr>bw_mem := mem\<rparr>)
   }"

section \<open>The operations\<close>

text \<open>The heaps from an index on; the first extent found is taken out.\<close>

fun find_avail :: "(64 word \<Rightarrow> extent) \<Rightarrow> nat list \<Rightarrow> 64 word ph list \<Rightarrow> (64 word option \<times> 64 word ph list) option" where
  "find_avail mem [] avail = Some (None, avail)"
| "find_avail mem (i # is) avail = do {
     heap \<leftarrow> read_at avail i;
     let (extent, heap) = ph_remove_first (heap_comp mem) heap;
     avail \<leftarrow> write_at avail i heap;
     if extent \<noteq> None then Some (extent, avail) else find_avail mem is avail
   }"

text \<open>\<open>base_alloc_impl\<close> up to the mapping of a block, if one is needed, and from there on.\<close>

definition base_alloc_begin ::
  "base_env \<Rightarrow> size_t \<Rightarrow> size_t \<Rightarrow> base \<Rightarrow> base_world \<Rightarrow> ((64 word + base_block option) \<times> base \<times> base_world) option" where
  "base_alloc_begin en sz alignment base w = do {
     let alignment = QUANTUM_CEILING alignment;
     let usize = ALIGNMENT_CEILING sz alignment;
     let asize = usize + alignment - QUANTUM;
     i \<leftarrow> sz_size2index (be_tabs en) asize;
     (extent, avail) \<leftarrow> find_avail (bw_mem w) [i..<SC_NSIZES] (ba_avail base);
     let base = base\<lparr>ba_avail := avail\<rparr>;
     case extent of
       Some e \<Rightarrow> Some (Inl e, base, w)
     | None \<Rightarrow> do {
         (block, base, w) \<leftarrow> base_extent_map en usize alignment base w;
         Some (Inr block, base, w)
       }
   }"

definition base_alloc_end ::
  "base_env \<Rightarrow> size_t \<Rightarrow> size_t \<Rightarrow> 64 word + base_block option \<Rightarrow> base \<Rightarrow> base_world
    \<Rightarrow> ((64 word \<times> size_t) option \<times> base \<times> base_world) option" where
  "base_alloc_end en sz alignment got base w = do {
     let alignment = QUANTUM_CEILING alignment;
     let usize = ALIGNMENT_CEILING sz alignment;
     (extent, base) \<leftarrow> (case got of Inl e \<Rightarrow> Some (Some e, base) | Inr block \<Rightarrow> base_extent_link en block base);
     case extent of
       None \<Rightarrow> Some (None, base, w)
     | Some extent \<Rightarrow> do {
         (ret, base, w) \<leftarrow> base_extent_bump_alloc en extent usize alignment base w;
         Some (Some (ret, extent_sn_get (bw_mem w extent)), base, w)
       }
   }"

text \<open>The result is the address with the serial number of the extent, or null.\<close>

definition base_alloc_impl ::
  "base_env \<Rightarrow> (base \<times> base_world \<Rightarrow> base \<times> base_world) \<Rightarrow> size_t \<Rightarrow> size_t \<Rightarrow> base \<Rightarrow> base_world
    \<Rightarrow> ((64 word \<times> size_t) option \<times> base \<times> base_world) option" where
  "base_alloc_impl en others sz alignment base w = do {
     (got, base, w) \<leftarrow> base_alloc_begin en sz alignment base w;
     let (base, w) = (case got of Inl _ \<Rightarrow> (base, w) | Inr _ \<Rightarrow> others (base, w));
     base_alloc_end en sz alignment got base w
   }"

definition base_alloc ::
  "base_env \<Rightarrow> (base \<times> base_world \<Rightarrow> base \<times> base_world) \<Rightarrow> size_t \<Rightarrow> size_t \<Rightarrow> base \<Rightarrow> base_world
    \<Rightarrow> (64 word option \<times> base \<times> base_world) option" where
  "base_alloc en others sz alignment base w = do {
     (ret, base, w) \<leftarrow> base_alloc_impl en others sz alignment base w;
     Some (map_option fst ret, base, w)
   }"

definition base_alloc_extent ::
  "base_env \<Rightarrow> (base \<times> base_world \<Rightarrow> base \<times> base_world) \<Rightarrow> base \<Rightarrow> base_world \<Rightarrow> (64 word option \<times> base \<times> base_world) option" where
  "base_alloc_extent en others base w = do {
     (ret, base, w) \<leftarrow> base_alloc_impl en others (be_extent en) CACHELINE base w;
     case ret of
       None \<Rightarrow> Some (None, base, w)
     | Some (extent, esn) \<Rightarrow>
         Some (Some extent, base, w\<lparr>bw_mem := (bw_mem w)(extent := extent_esn_set (bw_mem w extent) esn)\<rparr>)
   }"

text \<open>The address of the new base comes with it. When the mutex cannot be initialised the block is
  unmapped.\<close>

definition base_new ::
  "base_env \<Rightarrow> (unmap_call \<Rightarrow> bool option) \<Rightarrow> 32 word \<Rightarrow> 64 word \<Rightarrow> bool \<Rightarrow> base_world \<Rightarrow> ((64 word \<times> base) option \<times> base_world) option" where
  "base_new en fails ind extent_hooks mutex_fails w = do {
     ((block, pind_last, extent_sn_next), _, w) \<leftarrow> base_block_alloc en None 0 0 (be_base en) QUANTUM w;
     case block of
       None \<Rightarrow> Some (None, w)
     | Some block \<Rightarrow> do {
         let base_alignment = CACHELINE;
         let base_size = ALIGNMENT_CEILING (be_base en) base_alignment;
         ((addr, gap_size), mem) \<leftarrow> base_extent_bump_alloc_helper (block_extent block) base_size base_alignment (bw_mem w);
         let w = w\<lparr>bw_mem := mem\<rparr>;
         if mutex_fails then map_option (Pair None) (base_unmap en extent_hooks fails (bb_addr block) (bb_size block) w)
         else do {
           let base = \<lparr>ba_ind = ind, ba_hooks = extent_hooks, ba_auto_thp_switched = False, ba_pind_last = pind_last,
             ba_extent_sn_next = extent_sn_next, ba_blocks = [block], ba_avail = replicate SC_NSIZES ph_new,
             ba_allocated = be_header en, ba_resident = PAGE_CEILING (be_header en), ba_mapped = bb_size block,
             ba_n_thp = (if be_thp en = metadata_thp_always \<and> metadata_thp_madvise en
               then drop_bit LG_HUGEPAGE (HUGEPAGE_CEILING (be_header en)) else 0)\<rparr>;
           if \<not> (ba_allocated base \<le> ba_resident base \<and> ba_resident base \<le> ba_mapped base
                \<and> push_bit LG_HUGEPAGE (ba_n_thp base) \<le> ba_mapped base) then None
           else do {
             base \<leftarrow> base_extent_bump_alloc_post en (block_extent block) gap_size addr base_size mem base;
             Some (Some (addr, base), w)
           }
         }
       }
   }"

definition base_extent_hooks_get :: "base \<Rightarrow> 64 word" where "base_extent_hooks_get base = ba_hooks base"

text \<open>The loop over the blocks; \<open>fails\<close> says for each address which calls fail.\<close>

fun delete_blocks ::
  "base_env \<Rightarrow> 64 word \<Rightarrow> (64 word \<Rightarrow> unmap_call \<Rightarrow> bool option) \<Rightarrow> base_block list \<Rightarrow> base_world \<Rightarrow> base_world option" where
  "delete_blocks en extent_hooks fails [] w = Some w"
| "delete_blocks en extent_hooks fails (block # blocks) w = do {
     w \<leftarrow> base_unmap en extent_hooks (fails (bb_addr block)) (bb_addr block) (bb_size block) w;
     delete_blocks en extent_hooks fails blocks w
   }"

definition base_delete ::
  "base_env \<Rightarrow> (64 word \<Rightarrow> unmap_call \<Rightarrow> bool option) \<Rightarrow> base \<Rightarrow> base_world \<Rightarrow> base_world option" where
  "base_delete en fails base w =
     (if ba_blocks base = [] then None else delete_blocks en (base_extent_hooks_get base) fails (ba_blocks base) w)"

definition base_extent_hooks_set :: "base \<Rightarrow> 64 word \<Rightarrow> 64 word \<times> base" where
  "base_extent_hooks_set base extent_hooks = (base_extent_hooks_get base, base\<lparr>ba_hooks := extent_hooks\<rparr>)"

definition base_stats_get :: "base \<Rightarrow> (size_t \<times> size_t \<times> size_t \<times> size_t) option" where
  "base_stats_get base =
     (if ba_allocated base \<le> ba_resident base \<and> ba_resident base \<le> ba_mapped base
      then Some (ba_allocated base, ba_resident base, ba_mapped base, ba_n_thp base) else None)"

definition base_boot :: "base_env \<Rightarrow> (unmap_call \<Rightarrow> bool option) \<Rightarrow> bool \<Rightarrow> base_world \<Rightarrow> ((bool \<times> base option) \<times> base_world) option" where
  "base_boot en fails mutex_fails w = do {
     (b0, w) \<leftarrow> base_new en fails 0 (be_hooks_default en) mutex_fails w;
     Some ((b0 = None, map_option snd b0), w)
   }"

end
