(* ===== verification/Base_Inv.thy ===== *)
theory Base_Inv
  imports Base
begin

text \<open>
  What the metadata allocator keeps: blocks apart from each other, each with its used part below the
  extent of the rest, exactly the rests in the heaps by size, and statistics that say how much is used.
\<close>

section \<open>Rounding\<close>

lemma round_up_dvd: "0 < d \<Longrightarrow> d dvd n \<Longrightarrow> nat_round_up d n = n"
  by (intro antisym nat_round_up_least nat_round_up_ge) simp_all

lemma pow2_nat_dvd: "a \<le> b \<Longrightarrow> (2::nat) ^ a dvd 2 ^ b"
  by (rule le_imp_power_dvd)

lemma quantum_pow: "QUANTUM = 2 ^ 4" "QUANTUM_MASK = mask 4"
  by (simp_all add: QUANTUM_def QUANTUM_MASK_def LG_QUANTUM_def mask_eq_decr_exp)

lemma pow_round_up: "nat_round_up (2 ^ 4) (2 ^ a) = 2 ^ max 4 a"
proof (cases "a \<le> 4")
  case True
  have "(2::nat) ^ a \<le> 2 ^ 4" using True by (intro power_increasing) simp_all
  then have "nat_round_up (2 ^ 4) (2 ^ a) \<le> 2 ^ 4" by (intro nat_round_up_least) simp_all
  moreover have "2 ^ 4 \<le> nat_round_up (2 ^ 4) (2 ^ a)"
  proof (rule dvd_imp_le)
    show "(2::nat) ^ 4 dvd nat_round_up (2 ^ 4) (2 ^ a)" by (rule dvd_nat_round_up)
    have "2 ^ a \<le> nat_round_up (2 ^ 4) (2 ^ a)" by (rule nat_round_up_ge) simp
    then show "0 < nat_round_up (2 ^ 4) (2 ^ a)" by (rule less_le_trans [rotated]) simp
  qed
  ultimately show ?thesis using True by (simp add: max_def)
next
  case False
  then show ?thesis using round_up_dvd [OF _ pow2_nat_dvd [of 4 a]] by (simp add: max_def)
qed

lemma alignment_ceilings:
  assumes "a \<le> 44"
  shows "ALIGNMENT_CEILING (2 ^ a) QUANTUM = 2 ^ max 4 a" "QUANTUM_CEILING (2 ^ a) = 2 ^ max 4 a"
proof -
  have p: "(2::nat) ^ a \<le> 2 ^ 44" using assms by (intro power_increasing) simp_all
  have u: "unat ((2 :: size_t) ^ a) = 2 ^ a" "unat ((2 :: size_t) ^ max 4 a) = 2 ^ max 4 a" using assms by (simp_all add: unat_two_power)
  have "unat (ALIGNMENT_CEILING (2 ^ a) (2 ^ 4)) = nat_round_up (2 ^ 4) (2 ^ a)"
    using p u(1) by (subst unat_ALIGNMENT_CEILING) simp_all
  then show "ALIGNMENT_CEILING (2 ^ a) QUANTUM = 2 ^ max 4 a" by (simp only: quantum_pow word_unat_eq_iff u pow_round_up)
  have "unat (((2 :: size_t) ^ a + mask 4) AND NOT (mask 4)) = nat_round_up (2 ^ 4) (2 ^ a)"
    using p u(1) by (subst unat_round_up) simp_all
  then show "QUANTUM_CEILING (2 ^ a) = 2 ^ max 4 a" by (simp only: QUANTUM_CEILING_def quantum_pow word_unat_eq_iff u pow_round_up)
qed

lemma ceiling_pow: "k \<le> 44 \<Longrightarrow> 4 \<le> k \<Longrightarrow> ALIGNMENT_CEILING (2 ^ k) QUANTUM = 2 ^ k"
  using alignment_ceilings(1) [of k] by (simp add: max_def)

lemma unat_huge:
  assumes "unat s + (2 ^ 21 - 1) < 2 ^ 64"
  shows "unat (HUGEPAGE_CEILING s) = nat_round_up (2 ^ 21) (unat s)"
proof -
  have m: "HUGEPAGE_MASK = mask 21" by (simp add: HUGEPAGE_MASK_def HUGEPAGE_def LG_HUGEPAGE_def mask_eq_decr_exp)
  show ?thesis unfolding HUGEPAGE_CEILING_def m by (rule unat_round_up) (use assms in simp_all)
qed

lemma huge_zero: "2 ^ 21 dvd unat s \<Longrightarrow> s AND HUGEPAGE_MASK = 0"
proof -
  assume d: "2 ^ 21 dvd unat s"
  have m: "HUGEPAGE_MASK = mask 21" by (simp add: HUGEPAGE_MASK_def HUGEPAGE_def LG_HUGEPAGE_def mask_eq_decr_exp)
  have "unat (s AND mask 21) = unat s mod 2 ^ 21" by (rule unat_and_mask)
  with d show ?thesis unfolding m by (simp add: word_unat_eq_iff)
qed

section \<open>Sizes of blocks\<close>

definition base_env_ok :: "base_env \<Rightarrow> bool" where
  "base_env_ok en \<longleftrightarrow> tabs_ok (be_tabs en) \<and> 16 dvd unat (be_header en) \<and> 16 < unat (be_header en) \<and> unat (be_header en) \<le> 4096
     \<and> unat (be_base en) \<le> 2 ^ 20"

lemma psz2u_bounds:
  assumes "0 < unat w" "unat w \<le> 7 * 2 ^ 60"
  shows "unat w \<le> unat (sz_psz2u w)" "unat (sz_psz2u w) \<le> 7 * 2 ^ 60" "sz_psz2ind w < 199"
proof -
  have m: "w \<le> SC_LARGE_MAXCLASS" using assms(2) by (simp only: le_LARGE_MAXCLASS)
  have "unat w \<le> psz_ind2sz_nat (SC_NPSIZES - 1)" using m by (simp only: le_LARGE_MAXCLASS le_top_class)
  from pszc.sz2ind_less [OF assms(1) this] show i: "sz_psz2ind w < 199" by (simp add: psz_sz2ind_nat_def sc_macro_values)
  have u: "unat (sz_psz2u w) = group_size 12 (sz_psz2ind w)"
    unfolding sz_psz2u_eq [OF assms(1) m] by (rule unat_sz_pind2sz_compute [OF i])
  have "sz_psz2ind w = group_index 12 (unat w)" by (rule sz_psz2ind_eq [OF assms(1) m])
  with u group_index_covers [of 12 "unat w"] assms(1) show "unat w \<le> unat (sz_psz2u w)" by simp
  have "group_size 12 (sz_psz2ind w) \<le> group_size 12 198"
    using strict_mono_less_eq [OF group_size_strict_mono, of 12 "sz_psz2ind w" 198] i by simp
  then show "unat (sz_psz2u w) \<le> 7 * 2 ^ 60" using u max_class_sizes(2) by simp
qed

lemma pind2sz_bound:
  assumes "i \<le> 199"
  shows "unat (sz_pind2sz_compute i) \<le> 7 * 2 ^ 60 + 4096"
proof (cases "i = 199")
  case True
  have m: "unat SC_LARGE_MAXCLASS = 7 * 2 ^ 60" by (simp add: sc_macro_values max_class_sizes)
  have "unat (SC_LARGE_MAXCLASS + PAGE) = 7 * 2 ^ 60 + 4096"
    using m by (subst unat_add_eq) (simp_all add: PAGE_def LG_PAGE_def)
  with True show ?thesis by (simp add: sz_pind2sz_compute_def sc_macro_values)
next
  case False
  then have i: "i < 199" using assms by simp
  have "group_size 12 i \<le> group_size 12 198"
    using strict_mono_less_eq [OF group_size_strict_mono, of 12 i 198] i by simp
  then show ?thesis using unat_sz_pind2sz_compute [OF i] max_class_sizes(2) by simp
qed

lemma psz2ind_199: "0 < unat w \<Longrightarrow> sz_psz2ind w \<le> 199"
proof (cases "w \<le> SC_LARGE_MAXCLASS")
  case True
  assume "0 < unat w"
  moreover have "unat w \<le> 7 * 2 ^ 60" using True by (simp only: le_LARGE_MAXCLASS)
  ultimately show ?thesis using psz2u_bounds(3) [of w] by simp
next
  case False
  then have "SC_LARGE_MAXCLASS < w" by simp
  then have "sz_psz2ind w = SC_NPSIZES" by (simp only: sz_psz2ind_def if_True)
  then show ?thesis by (simp add: sc_macro_values)
qed

text \<open>The header is followed by the object at the alignment, whatever the address of the block.\<close>

lemma block_size_ok:
  assumes "base_env_ok en" "unat s \<le> 2 ^ 45" "a \<le> 44" "pind \<le> 199"
  shows "\<exists>bs. base_block_size en pind s (2 ^ a) = Some bs \<and> 2 ^ 21 dvd unat bs \<and> 0 < unat bs
    \<and> nat_round_up (2 ^ max 4 a) (unat (be_header en)) + nat_round_up (2 ^ max 4 a) (unat s) \<le> unat bs"
proof -
  let ?k = "max 4 a" and ?h = "be_header en"
  let ?w = "ALIGNMENT_CEILING ?h (2 ^ ?k) + ALIGNMENT_CEILING s (2 ^ ?k)"
  have env: "tabs_ok (be_tabs en)" "16 < unat ?h" "unat ?h \<le> 4096" using assms(1) by (simp_all add: base_env_ok_def)
  have p: "(2::nat) ^ ?k \<le> 2 ^ 44" using assms(3) by (intro power_increasing) simp_all
  have u: "unat (ALIGNMENT_CEILING ?h (2 ^ ?k)) = nat_round_up (2 ^ ?k) (unat ?h)"
    "unat (ALIGNMENT_CEILING s (2 ^ ?k)) = nat_round_up (2 ^ ?k) (unat s)"
    by (rule unat_ALIGNMENT_CEILING; use p env(3) assms(2,3) in simp)+
  have b: "nat_round_up (2 ^ ?k) (unat ?h) < 2 ^ 46" "nat_round_up (2 ^ ?k) (unat s) < 2 ^ 46"
    using nat_round_up_less [of "2 ^ ?k" "unat ?h"] nat_round_up_less [of "2 ^ ?k" "unat s"] p env(3) assms(2) by simp_all
  have uw: "unat ?w = nat_round_up (2 ^ ?k) (unat ?h) + nat_round_up (2 ^ ?k) (unat s)"
    using u b by (subst unat_add_eq) simp_all
  have w: "0 < unat ?w" "unat ?w \<le> 7 * 2 ^ 60"
    using uw b env nat_round_up_ge [of "2 ^ ?k" "unat ?h"] by simp_all
  note pu = psz2u_bounds [OF w]
  define min where "min = HUGEPAGE_CEILING (sz_psz2u ?w)"
  have min: "unat min = nat_round_up (2 ^ 21) (unat (sz_psz2u ?w))"
    unfolding min_def by (rule unat_huge) (use pu(2) in simp)
  define nx where "nx = (if pind + 1 < sz_psz2ind SC_LARGE_MAXCLASS then pind + 1 else pind)"
  have "sz_psz2ind SC_LARGE_MAXCLASS \<le> 199" by (rule psz2ind_199) (simp add: sc_macro_values max_class_sizes)
  then have nx: "nx \<le> 199" using assms(4) by (simp add: nx_def)
  define next' where "next' = HUGEPAGE_CEILING (sz_pind2sz_compute nx)"
  have next': "unat next' = nat_round_up (2 ^ 21) (unat (sz_pind2sz_compute nx))"
    unfolding next'_def by (rule unat_huge) (use pind2sz_bound [OF nx] in simp)
  have "sz_pind2sz (be_tabs en) nx = Some (sz_pind2sz_compute nx)"
    using env nx by (intro sz_pind2sz_ok) (simp_all add: sc_macro_values)
  moreover have W: "?h + (ALIGNMENT_CEILING ?h (2 ^ ?k) - ?h) + ALIGNMENT_CEILING s (2 ^ ?k) = ?w" by simp
  ultimately have eq: "base_block_size en pind s (2 ^ a) = Some (if min > next' then min else next')"
    unfolding base_block_size_def Let_def alignment_ceilings(1) [OF assms(3)] W nx_def [symmetric] min_def [symmetric]
    by (simp add: next'_def)
  have "unat ?w \<le> unat min" using pu(1) nat_round_up_ge [of "2 ^ 21" "unat (sz_psz2u ?w)"] min by simp
  then have "unat ?w \<le> unat (if min > next' then min else next')" by (simp add: word_less_nat_alt)
  moreover have "2 ^ 21 dvd unat min" "2 ^ 21 dvd unat next'" unfolding min next' by (rule dvd_nat_round_up)+
  ultimately show ?thesis using eq uw w(1) by auto
qed

section \<open>Blocks and their rests\<close>

definition lo :: "base_block \<Rightarrow> nat" where "lo b = unat (bb_addr b)"
definition hi :: "base_block \<Rightarrow> nat" where "hi b = unat (bb_addr b) + unat (bb_size b)"

text \<open>Where the rest begins, and its size.\<close>

definition mark :: "(64 word \<Rightarrow> extent) \<Rightarrow> base_block \<Rightarrow> nat" where
  "mark mem b = unat (extent_addr_get (mem (block_extent b)))"

definition room :: "(64 word \<Rightarrow> extent) \<Rightarrow> base_block \<Rightarrow> nat" where
  "room mem b = unat (extent_bsize_get (mem (block_extent b)))"

text \<open>A mapping as the system or the hook promises it.\<close>

definition region_ok :: "base_block \<Rightarrow> bool" where
  "region_ok b \<longleftrightarrow> 2 ^ 21 dvd lo b \<and> 2 ^ 21 dvd hi b \<and> 0 < lo b \<and> lo b < hi b \<and> hi b \<le> 2 ^ 47"

definition block_ok :: "base_env \<Rightarrow> (64 word \<Rightarrow> extent) \<Rightarrow> base_block \<Rightarrow> bool" where
  "block_ok en mem b \<longleftrightarrow> region_ok b \<and> lo b + unat (be_header en) \<le> mark mem b \<and> mark mem b + room mem b = hi b \<and> 16 dvd mark mem b"

definition clear_of :: "base_block \<Rightarrow> base_block \<Rightarrow> bool" where
  "clear_of b b' \<longleftrightarrow> hi b \<le> lo b' \<or> hi b' \<le> lo b"

lemma binit_fields [simp]:
  "extent_addr_get (extent_binit e p n s) = p" "extent_bsize_get (extent_binit e p n s) = n"
  by (simp_all add: extent_binit_def Let_def extent_addr_get_def extent_bsize_get_def extent_arena_set_def extent_addr_set_def
      extent_bsize_set_def extent_slab_set_def extent_szind_set_def extent_sn_set_def extent_state_set_def extent_zeroed_set_def
      extent_committed_set_def extent_dumpable_set_def)

lemma mark_other: "block_extent b' \<noteq> x \<Longrightarrow> mark (mem(x := e)) b' = mark mem b'"
  "block_extent b' \<noteq> x \<Longrightarrow> room (mem(x := e)) b' = room mem b'"
  by (simp_all add: mark_def room_def)

lemma block_ok_other: "block_extent b' \<noteq> x \<Longrightarrow> block_ok en (mem(x := e)) b' = block_ok en mem b'"
  by (simp add: block_ok_def mark_other)

lemma extent_inj: "block_extent b = block_extent b' \<longleftrightarrow> bb_addr b = bb_addr b'"
  by (simp add: block_extent_def)

lemma clear_neq: "region_ok b \<Longrightarrow> region_ok b' \<Longrightarrow> clear_of b b' \<Longrightarrow> block_extent b \<noteq> block_extent b'"
  by (auto simp: extent_inj clear_of_def region_ok_def lo_def hi_def)

text \<open>The offset of the next aligned address is small in two cases: in a new block, and in a rest that
  starts at a multiple of the quantum.\<close>

lemma gap_quantum:
  assumes "16 dvd n" "4 \<le> k"
  shows "nat_round_up (2 ^ k) n + 16 \<le> n + 2 ^ k"
proof -
  have d: "(16::nat) dvd 2 ^ k" using pow2_nat_dvd [OF assms(2)] by simp
  have "16 dvd nat_round_up (2 ^ k) n" by (rule dvd_trans [OF d dvd_nat_round_up])
  then have "16 dvd n + 2 ^ k - nat_round_up (2 ^ k) n" using d assms(1) by (intro dvd_diff_nat dvd_add) simp_all
  moreover have "0 < n + 2 ^ k - nat_round_up (2 ^ k) n" using nat_round_up_less [of "2 ^ k" n] by simp
  ultimately have "16 \<le> n + 2 ^ k - nat_round_up (2 ^ k) n" by (rule dvd_imp_le)
  then show ?thesis by simp
qed

lemma gap_block:
  assumes "2 ^ 21 dvd l" "0 < h" "h \<le> 4096"
  shows "nat_round_up (2 ^ k) (l + h) \<le> l + nat_round_up (2 ^ k) h"
proof (cases "k \<le> 21")
  case True
  have "2 ^ k dvd l" by (rule dvd_trans [OF pow2_nat_dvd [OF True] assms(1)])
  then show ?thesis by (intro nat_round_up_least) (simp_all add: nat_round_up_ge)
next
  case False
  let ?D = "nat_round_up (2 ^ k) (l + h)"
  have d: "(2::nat) ^ 21 dvd 2 ^ k" by (rule pow2_nat_dvd) (use False in simp)
  have h: "2 ^ k \<le> nat_round_up (2 ^ k) h"
    by (rule dvd_imp_le [OF dvd_nat_round_up]) (use nat_round_up_ge [of "2 ^ k" h] assms(2) in simp)
  show ?thesis
  proof (rule ccontr)
    assume "\<not> ?thesis"
    then have g: "0 < ?D - (l + 2 ^ k)" using h by simp
    have "2 ^ 21 dvd ?D" by (rule dvd_trans [OF d dvd_nat_round_up])
    then have "2 ^ 21 dvd ?D - (l + 2 ^ k)" using d assms(1) by (intro dvd_diff_nat dvd_add)
    then have "2 ^ 21 \<le> ?D - (l + 2 ^ k)" using g by (rule dvd_imp_le)
    then show False using nat_round_up_less [of "2 ^ k" "l + h"] assms(3) by simp
  qed
qed

section \<open>Bumping\<close>

text \<open>The parameters of an allocation after rounding.\<close>

definition rounded :: "size_t \<Rightarrow> nat \<Rightarrow> bool" where
  "rounded s k \<longleftrightarrow> 4 \<le> k \<and> k \<le> 44 \<and> 2 ^ k dvd unat s \<and> unat s \<le> 2 ^ 45"

lemma ceiling_fix: "rounded s k \<Longrightarrow> ALIGNMENT_CEILING s (2 ^ k) = s"
proof -
  assume r: "rounded s k"
  have k: "k \<le> 44" "unat s \<le> 2 ^ 45" using r by (simp_all add: rounded_def)
  have p: "(2::nat) ^ k \<le> 2 ^ 44" using k(1) by (intro power_increasing) simp_all
  have "unat (ALIGNMENT_CEILING s (2 ^ k)) = nat_round_up (2 ^ k) (unat s)"
    by (rule unat_ALIGNMENT_CEILING) (use k p in simp_all)
  then show ?thesis using r round_up_dvd [of "2 ^ k" "unat s"] by (simp add: rounded_def word_unat_eq_iff)
qed

lemma bump_ok:
  assumes "block_ok en mem b" "rounded s k" "nat_round_up (2 ^ k) (mark mem b) + unat s \<le> hi b" "0 < unat (be_header en)"
  shows "\<exists>ret gap mem'. base_extent_bump_alloc_helper (block_extent b) s (2 ^ k) mem = Some ((ret, gap), mem')
    \<and> unat ret = nat_round_up (2 ^ k) (mark mem b) \<and> unat gap = unat ret - mark mem b \<and> (\<forall>x. x \<noteq> block_extent b \<longrightarrow> mem' x = mem x)
    \<and> block_ok en mem' b \<and> mark mem' b = unat ret + unat s"
proof -
  let ?e = "mem (block_extent b)"
  have k: "4 \<le> k" "k \<le> 44" "2 ^ k dvd unat s" "unat s \<le> 2 ^ 45" using assms(2) by (simp_all add: rounded_def)
  have p: "(2::nat) ^ k \<le> 2 ^ 44" using k(2) by (intro power_increasing) simp_all
  have b: "mark mem b \<le> hi b" "hi b \<le> 2 ^ 47" "mark mem b + room mem b = hi b" "16 dvd mark mem b" "lo b + unat (be_header en) \<le> mark mem b"
    using assms(1) by (simp_all add: block_ok_def region_ok_def)
  let ?r = "nat_round_up (2 ^ k) (mark mem b)"
  have r: "mark mem b \<le> ?r" "?r \<le> hi b" using nat_round_up_ge [of "2 ^ k" "mark mem b"] assms(3) by simp_all
  have c: "unat (ALIGNMENT_CEILING (extent_addr_get ?e) (2 ^ k)) = ?r"
    unfolding mark_def by (rule unat_ALIGNMENT_CEILING) (use b p k(2) in \<open>simp_all add: mark_def\<close>)
  define gap where "gap = ALIGNMENT_CEILING (extent_addr_get ?e) (2 ^ k) - extent_addr_get ?e"
  have g: "unat gap = ?r - mark mem b" unfolding gap_def using c r(1) by (subst unat_diff_eq) (simp_all add: mark_def)
  define ret where "ret = extent_addr_get ?e + gap"
  have re: "ret = ALIGNMENT_CEILING (extent_addr_get ?e) (2 ^ k)" by (simp add: ret_def gap_def)
  have gs: "unat (gap + s) = ?r - mark mem b + unat s" using g b(2) r k(4) by (subst unat_add_eq) simp_all
  have room: "unat (extent_bsize_get ?e) = hi b - mark mem b" using b(3) by (simp add: room_def)
  have fit: "gap + s \<le> extent_bsize_get ?e" using gs room assms(3) r by (simp add: word_le_nat_alt)
  have rs: "unat (ret + s) = ?r + unat s" using c re assms(3) b(2) by (subst unat_add_eq) simp_all
  have rest: "unat (extent_bsize_get ?e - gap - s) = hi b - (?r + unat s)"
  proof -
    have "unat (extent_bsize_get ?e - (gap + s)) = unat (extent_bsize_get ?e) - unat (gap + s)"
      using fit by (subst unat_diff_eq) (simp_all add: word_le_nat_alt)
    then show ?thesis using gs room r by (simp add: diff_diff_add)
  qed
  let ?mem = "mem(block_extent b := extent_binit ?e (extent_addr_get ?e + gap + s) (extent_bsize_get ?e - gap - s) (extent_sn_get ?e))"
  have h: "base_extent_bump_alloc_helper (block_extent b) s (2 ^ k) mem = Some ((ret, gap), ?mem)"
    using fit ceiling_pow [OF k(2,1)] ceiling_fix [OF assms(2)]
    by (simp add: base_extent_bump_alloc_helper_def Let_def gap_def ret_def)
  have t: "mark ?mem b = ?r + unat s" "room ?mem b = hi b - (?r + unat s)"
    using rs rest by (simp_all add: mark_def room_def ret_def)
  have "16 dvd ?r + unat s"
    using pow2_nat_dvd [OF k(1)] k(3) dvd_trans [of 16 "2 ^ k" "unat s"] dvd_trans [of 16 "2 ^ k" ?r] by simp
  then have "block_ok en ?mem b" using assms(1,3) t r(1) b(5) by (simp add: block_ok_def)
  with h t c g show ?thesis by (intro exI [of _ ret] exI [of _ gap] exI [of _ ?mem]) (simp add: re)
qed

section \<open>The heaps\<close>

text \<open>The heap of a rest: the largest class that is not larger.\<close>

definition floor_class :: "nat \<Rightarrow> nat" where
  "floor_class n = sz_size2index_compute (of_nat n + 1) - 1"

lemma floor_class_ok:
  assumes "tabs_ok t" "16 dvd unat n" "0 < unat n" "unat n \<le> 2 ^ 47"
  shows "\<exists>i. sz_size2index t (n + 1) = Some i \<and> i \<noteq> 0 \<and> i - 1 = floor_class (unat n) \<and> floor_class (unat n) < 232
    \<and> class_size (floor_class (unat n)) \<le> unat n"
proof -
  let ?m = "unat n + 1" and ?i = "sz_size2index_compute (n + 1)"
  have "16 \<le> unat n" using assms(2,3) by (rule dvd_imp_le)
  have m: "unat (n + 1) = ?m" using assms(4) by (subst unat_add_eq) simp_all
  have mark: "sz_ind2sz_nat (SC_NSIZES - 1) = 7 * 2 ^ 60"
    by (simp add: sz_ind2sz_nat_def sc_macro_values unat_sz_index2size_compute max_class_sizes)
  have le: "0 < ?m" "?m \<le> sz_ind2sz_nat (SC_NSIZES - 1)" using assms(4) mark by simp_all
  have i: "?i = sz_sz2ind_nat ?m" by (simp only: sz_size2index_compute_nat m)
  have n: "?i < 232" using szc.sz2ind_less [OF le] by (simp add: i sc_macro_values)
  have z: "sz_ind2sz_nat 0 = 8" by (simp add: sz_ind2sz_nat_eq class_size_small sc_macro_values)
  have "\<not> ?i \<le> 0" unfolding i using szc.galois [OF le, of 0] z \<open>16 \<le> unat n\<close> by (simp add: sc_macro_values)
  then have p: "0 < ?i" by simp
  have "sz_ind2sz_nat (?i - 1) < ?m" unfolding i by (rule szc.below [OF le]) (use p i in simp)
  then have "class_size (?i - 1) \<le> unat n" using n by (simp add: sz_ind2sz_nat_eq sc_macro_values)
  moreover have "floor_class (unat n) = ?i - 1" by (simp add: floor_class_def)
  ultimately show ?thesis using sz_size2index_ok [OF assms(1), of "n + 1"] p n by auto
qed

lemma floor_class_le:
  assumes "16 dvd n" "0 < n" "n \<le> 2 ^ 47"
  shows "floor_class n < 232" "class_size (floor_class n) \<le> n"
proof -
  have u: "unat (of_nat n :: size_t) = n" using assms(3) by (simp add: unat_of_nat_eq)
  show "floor_class n < 232" "class_size (floor_class n) \<le> n"
    using sz_boot_ok floor_class_ok [of _ "of_nat n"] u assms by auto
qed

text \<open>The rests of the blocks in \<open>R\<close> are in the heaps by class; all others are not.\<close>

definition waiting :: "(64 word \<Rightarrow> extent) \<Rightarrow> base_block set \<Rightarrow> nat \<Rightarrow> 64 word set" where
  "waiting mem R i = block_extent ` {b \<in> R. 0 < room mem b \<and> floor_class (room mem b) = i}"

definition avail_ok :: "(64 word \<Rightarrow> extent) \<Rightarrow> base_block set \<Rightarrow> 64 word ph list \<Rightarrow> bool" where
  "avail_ok mem R avail \<longleftrightarrow> length avail = 232
     \<and> (\<forall>i<232. ph_inv (heap_comp mem) (avail ! i) \<and> mset_phns (avail ! i) = mset_set (waiting mem R i))"

lemma waiting_other:
  assumes "\<forall>b\<in>R. mem' (block_extent b) = mem (block_extent b)"
  shows "waiting mem' R i = waiting mem R i"
  using assms by (auto simp: waiting_def room_def)

lemma avail_other:
  assumes "avail_ok mem R avail" "\<forall>b\<in>R. mem' (block_extent b) = mem (block_extent b)" "finite R"
  shows "avail_ok mem' R avail"
proof -
  have "ph_inv (heap_comp mem') (avail ! i)" if i: "i < 232" for i
  proof -
    have "mset_phns (avail ! i) = mset_set (waiting mem R i)" using assms(1) i by (simp add: avail_ok_def)
    then have "x \<in># mset_phns (avail ! i) \<Longrightarrow> mem' x = mem x" for x
      using assms(2,3) by (auto simp: waiting_def)
    then have "ph_inv (heap_comp mem) (avail ! i) = ph_inv (heap_comp mem') (avail ! i)"
      by (intro ph_inv_cong) (simp add: heap_comp_def)
    with assms(1) i show ?thesis by (simp add: avail_ok_def)
  qed
  with assms(1) show ?thesis by (simp add: avail_ok_def waiting_other [OF assms(2)])
qed

text \<open>A new rest is put into its heap.\<close>

lemma avail_insert:
  assumes "avail_ok mem R avail" "b \<notin> R" "finite R" "0 < room mem b" "floor_class (room mem b) = i" "i < 232"
    and "\<forall>b'\<in>R. block_extent b' \<noteq> block_extent b"
  shows "avail_ok mem (insert b R) (avail[i := ph_insert (block_extent b) (avail ! i)])"
proof -
  have w: "waiting mem (insert b R) j = (if j = i then insert (block_extent b) (waiting mem R j) else waiting mem R j)" for j
    using assms(4,5) by (auto simp: waiting_def)
  have f: "finite (waiting mem R j)" "block_extent b \<notin> waiting mem R j" for j
    using assms(3,7) by (auto simp: waiting_def)
  show ?thesis using assms(1,6) f
    by (auto simp: avail_ok_def w nth_list_update extent_heap.insert_inv extent_heap.mset_insert)
qed

lemma avail_skip: "avail_ok mem R avail \<Longrightarrow> room mem b = 0 \<Longrightarrow> avail_ok mem (insert b R) avail"
proof -
  assume "avail_ok mem R avail" "room mem b = 0"
  moreover have "waiting mem (insert b R) j = waiting mem R j" for j using \<open>room mem b = 0\<close> by (auto simp: waiting_def)
  ultimately show ?thesis by (simp add: avail_ok_def)
qed

text \<open>The search takes out a rest of at least the class it starts from, or leaves everything as it was.\<close>

lemma find_ok:
  assumes "avail_ok mem R avail" "finite R" "inj_on block_extent R" "set is \<subseteq> {..<232}"
  shows "\<exists>r avail'. find_avail mem is avail = Some (r, avail') \<and>
    (case r of None \<Rightarrow> avail' = avail
     | Some x \<Rightarrow> \<exists>b\<in>R. x = block_extent b \<and> 0 < room mem b \<and> floor_class (room mem b) \<in> set is \<and> avail_ok mem (R - {b}) avail')"
  using assms(4)
proof (induction "is")
  case Nil
  then show ?case by simp
next
  case (Cons i "is")
  have i: "i < 232" "i < length avail" using Cons.prems assms(1) by (auto simp: avail_ok_def)
  have h: "ph_inv (heap_comp mem) (avail ! i)" "mset_phns (avail ! i) = mset_set (waiting mem R i)"
    using assms(1) i(1) by (simp_all add: avail_ok_def)
  have fin: "finite (waiting mem R j)" for j using assms(2) by (simp add: waiting_def)
  show ?case
  proof (cases "avail ! i = []")
    case True
    then have "ph_remove_first (heap_comp mem) (avail ! i) = (None, [])" by (simp add: ph_remove_first_def ph_merge_aux_def)
    moreover have "avail[i := []] = avail" using True i(2) list_update_id [of avail i] by simp
    ultimately have "find_avail mem (i # is) avail = find_avail mem is avail"
      using i(2) by (simp add: read_at_def write_at_def)
    moreover have sub: "set is \<subseteq> {..<232}" using Cons.prems by simp
    from Cons.IH [OF sub] obtain r avail' where "find_avail mem is avail = Some (r, avail')"
      "case r of None \<Rightarrow> avail' = avail
       | Some x \<Rightarrow> \<exists>b\<in>R. x = block_extent b \<and> 0 < room mem b \<and> floor_class (room mem b) \<in> set is \<and> avail_ok mem (R - {b}) avail'"
      by blast
    ultimately show ?thesis
      by (intro exI [of _ r] exI [of _ avail']) (cases r; auto simp del: find_avail.simps)
  next
    case False
    from extent_heap.remove_first_least [OF h(1) False] obtain x q where
      q: "ph_remove_first (heap_comp mem) (avail ! i) = (Some x, q)" "ph_inv (heap_comp mem) q"
        "mset_phns (avail ! i) = add_mset x (mset_phns q)" by blast
    have f: "find_avail mem (i # is) avail = Some (Some x, avail[i := q])"
      using q(1) i(2) by (simp add: read_at_def write_at_def)
    have "x \<in># mset_set (waiting mem R i)" using q(3) h(2) by simp
    then have "x \<in> waiting mem R i" using fin by simp
    then obtain b where b: "b \<in> R" "x = block_extent b" "0 < room mem b" "floor_class (room mem b) = i"
      by (auto simp: waiting_def)
    have w: "waiting mem (R - {b}) j = waiting mem R j - (if j = i then {x} else {})" for j
    proof -
      have "block_extent b' \<noteq> x" if "b' \<in> R" "b' \<noteq> b" for b' using assms(3) b(1,2) that by (auto simp: inj_on_def)
      then show ?thesis using b by (auto simp: waiting_def)
    qed
    have "mset_phns q = mset_set (waiting mem (R - {b}) i)"
      using q(3) h(2) fin \<open>x \<in> waiting mem R i\<close> by (simp add: w mset_set_Diff)
    then have "avail_ok mem (R - {b}) (avail[i := q])" using assms(1) q(2) i(2) w by (auto simp: avail_ok_def nth_list_update)
    with f b show ?thesis by (intro exI [of _ "Some x"] exI [of _ "avail[i := q]"]) auto
  qed
qed

section \<open>The invariant\<close>

definition used :: "(64 word \<Rightarrow> extent) \<Rightarrow> base_block \<Rightarrow> nat" where "used mem b = mark mem b - lo b"

definition thp_on :: "base_env \<Rightarrow> base \<Rightarrow> bool" where
  "thp_on en base \<longleftrightarrow> metadata_thp_madvise en \<and> (be_thp en = metadata_thp_always \<or> ba_auto_thp_switched base)"

text \<open>Blocks in use and pending ones, each pending one with the rounded request that it is for.\<close>

definition blocks_ok :: "base_env \<Rightarrow> (64 word \<Rightarrow> extent) \<Rightarrow> base_block list \<Rightarrow> (base_block \<times> size_t \<times> nat) set \<Rightarrow> bool" where
  "blocks_ok en mem bs P \<longleftrightarrow> bs \<noteq> [] \<and> distinct bs \<and> inj_on fst P \<and> set bs \<inter> fst ` P = {}
     \<and> (\<forall>b\<in>set bs \<union> fst ` P. block_ok en mem b)
     \<and> (\<forall>b\<in>set bs \<union> fst ` P. \<forall>b'\<in>set bs \<union> fst ` P. b \<noteq> b' \<longrightarrow> clear_of b b')
     \<and> (\<forall>(b, s, k)\<in>P. rounded s k \<and> mark mem b = lo b + unat (be_header en) \<and> nat_round_up (2 ^ k) (mark mem b) + unat s \<le> hi b)"

text \<open>The regions given out.\<close>

definition regions_ok :: "base_env \<Rightarrow> (64 word \<Rightarrow> extent) \<Rightarrow> base_block list \<Rightarrow> (nat \<times> nat) list \<Rightarrow> bool" where
  "regions_ok en mem bs A \<longleftrightarrow> sorted_wrt (\<lambda>(p, n) (q, m). p + n \<le> q \<or> q + m \<le> p) A
     \<and> (\<forall>(p, n)\<in>set A. \<exists>b\<in>set bs. lo b + unat (be_header en) \<le> p \<and> p + n \<le> mark mem b)"

definition stats_right :: "base_env \<Rightarrow> (64 word \<Rightarrow> extent) \<Rightarrow> base \<Rightarrow> (nat \<times> nat) list \<Rightarrow> bool" where
  "stats_right en mem base A \<longleftrightarrow>
     unat (ba_allocated base) = length (ba_blocks base) * unat (be_header en) + (\<Sum>r\<leftarrow>A. snd r)
     \<and> unat (ba_allocated base) \<le> (\<Sum>b\<leftarrow>ba_blocks base. used mem b)
     \<and> unat (ba_resident base) = (\<Sum>b\<leftarrow>ba_blocks base. nat_round_up 4096 (used mem b))
     \<and> unat (ba_mapped base) = (\<Sum>b\<leftarrow>ba_blocks base. hi b - lo b)
     \<and> unat (ba_n_thp base) = (if thp_on en base then \<Sum>b\<leftarrow>ba_blocks base. nat_round_up (2 ^ 21) (used mem b) div 2 ^ 21 else 0)"

text \<open>\<open>R\<close> are the blocks whose rests are in the heaps.\<close>

definition base_inv ::
  "base_env \<Rightarrow> base \<Rightarrow> (64 word \<Rightarrow> extent) \<Rightarrow> (nat \<times> nat) list \<Rightarrow> (base_block \<times> size_t \<times> nat) set \<Rightarrow> base_block set \<Rightarrow> bool" where
  "base_inv en base mem A P R \<longleftrightarrow> blocks_ok en mem (ba_blocks base) P \<and> regions_ok en mem (ba_blocks base) A
     \<and> stats_right en mem base A \<and> R \<subseteq> set (ba_blocks base) \<and> avail_ok mem R (ba_avail base) \<and> ba_pind_last base \<le> 199"

lemma blocks_okD:
  assumes "blocks_ok en mem bs P"
  shows "b \<in> set bs \<or> b \<in> fst ` P \<Longrightarrow> block_ok en mem b"
    "b \<in> set bs \<or> b \<in> fst ` P \<Longrightarrow> b' \<in> set bs \<or> b' \<in> fst ` P \<Longrightarrow> b \<noteq> b' \<Longrightarrow> clear_of b b'"
    "b \<in> set bs \<or> b \<in> fst ` P \<Longrightarrow> b' \<in> set bs \<or> b' \<in> fst ` P \<Longrightarrow> b \<noteq> b' \<Longrightarrow> block_extent b \<noteq> block_extent b'"
proof -
  show 1: "b \<in> set bs \<or> b \<in> fst ` P \<Longrightarrow> block_ok en mem b" for b using assms by (auto simp: blocks_ok_def)
  show 2: "b \<in> set bs \<or> b \<in> fst ` P \<Longrightarrow> b' \<in> set bs \<or> b' \<in> fst ` P \<Longrightarrow> b \<noteq> b' \<Longrightarrow> clear_of b b'"
    using assms unfolding blocks_ok_def by blast
  show "b \<in> set bs \<or> b \<in> fst ` P \<Longrightarrow> b' \<in> set bs \<or> b' \<in> fst ` P \<Longrightarrow> b \<noteq> b' \<Longrightarrow> block_extent b \<noteq> block_extent b'"
    using clear_neq [of b b'] 1 [of b] 1 [of b'] 2 by (simp add: block_ok_def)
qed

text \<open>All blocks fit below the top of the address space.\<close>

lemma block_total:
  assumes "distinct bs" "\<And>b. b \<in> set bs \<Longrightarrow> region_ok b" "\<And>b b'. b \<in> set bs \<Longrightarrow> b' \<in> set bs \<Longrightarrow> b \<noteq> b' \<Longrightarrow> clear_of b b'"
  shows "(\<Sum>b\<leftarrow>bs. hi b - lo b) \<le> 2 ^ 47"
proof -
  have "(\<Sum>b\<leftarrow>bs. hi b - lo b) = (\<Sum>b\<in>set bs. card {lo b..<hi b})"
    using assms(1) by (simp add: sum_list_distinct_conv_sum_set)
  also have "\<dots> = card (\<Union>b\<in>set bs. {lo b..<hi b})"
    by (rule card_UN_disjoint [symmetric]) (use assms(3) in \<open>fastforce simp: clear_of_def\<close>)+
  also have "\<dots> \<le> card {..<(2::nat) ^ 47}"
    by (rule card_mono) (use assms(2) in \<open>fastforce simp: region_ok_def\<close>)+
  finally show ?thesis by simp
qed

lemma sum_list_change:
  fixes f f' :: "'a \<Rightarrow> nat"
  assumes "distinct xs" "x \<in> set xs" "\<And>y. y \<in> set xs \<Longrightarrow> y \<noteq> x \<Longrightarrow> f' y = f y"
  shows "(\<Sum>y\<leftarrow>xs. f' y) + f x = (\<Sum>y\<leftarrow>xs. f y) + f' x"
  using assms
proof (induction xs)
  case (Cons a xs)
  show ?case
  proof (cases "x = a")
    case True
    with Cons.prems have "map f' xs = map f xs" by auto
    with True show ?thesis by (simp cong: map_cong)
  next
    case False
    with Cons show ?thesis by force
  qed
qed simp

lemma huge_part: "nat_round_up (2 ^ 21) n div 2 ^ 21 * 2 ^ 21 = nat_round_up (2 ^ 21) n"
  by (simp add: nat_round_up_def)

text \<open>Each block's share of the statistics.\<close>

lemma shares:
  assumes "block_ok en mem b"
  shows "used mem b \<le> nat_round_up 4096 (used mem b)" "nat_round_up 4096 (used mem b) \<le> hi b - lo b"
    "nat_round_up (2 ^ 21) (used mem b) \<le> hi b - lo b" "unat (be_header en) \<le> used mem b" "lo b + used mem b = mark mem b"
proof -
  have b: "2 ^ 21 dvd hi b - lo b" "mark mem b \<le> hi b" "lo b + unat (be_header en) \<le> mark mem b"
    using assms by (auto simp: block_ok_def region_ok_def)
  show "used mem b \<le> nat_round_up 4096 (used mem b)" by (rule nat_round_up_ge) simp
  have "4096 dvd (2::nat) ^ 21" by simp
  then have "4096 dvd hi b - lo b" using b(1) by (rule dvd_trans)
  then show "nat_round_up 4096 (used mem b) \<le> hi b - lo b" using b(2) by (intro nat_round_up_least) (simp_all add: used_def)
  show "nat_round_up (2 ^ 21) (used mem b) \<le> hi b - lo b" using b(1,2) by (intro nat_round_up_least) (simp_all add: used_def)
  show "unat (be_header en) \<le> used mem b" "lo b + used mem b = mark mem b" using b(3) by (simp_all add: used_def)
qed

lemma sum_list_mono': "(\<And>x. x \<in> set xs \<Longrightarrow> f x \<le> g x) \<Longrightarrow> (\<Sum>x\<leftarrow>xs. f x) \<le> (\<Sum>x\<leftarrow>xs. g x)" for f g :: "'a \<Rightarrow> nat"
  by (induction xs) (simp_all add: add_mono)

lemma stats_order:
  assumes "blocks_ok en mem (ba_blocks base) P" "stats_right en mem base A"
  shows "ba_allocated base \<le> ba_resident base" "ba_resident base \<le> ba_mapped base" "unat (ba_mapped base) \<le> 2 ^ 47"
    "push_bit LG_HUGEPAGE (ba_n_thp base) \<le> ba_mapped base"
proof -
  let ?bs = "ba_blocks base"
  have d: "distinct ?bs" using assms(1) by (simp add: blocks_ok_def)
  have ok: "block_ok en mem b" if "b \<in> set ?bs" for b using blocks_okD(1) [OF assms(1)] that by blast
  note sh = shares [OF ok]
  have s: "unat (ba_allocated base) \<le> (\<Sum>b\<leftarrow>?bs. used mem b)" "unat (ba_resident base) = (\<Sum>b\<leftarrow>?bs. nat_round_up 4096 (used mem b))"
    "unat (ba_mapped base) = (\<Sum>b\<leftarrow>?bs. hi b - lo b)"
    "unat (ba_n_thp base) = (if thp_on en base then \<Sum>b\<leftarrow>?bs. nat_round_up (2 ^ 21) (used mem b) div 2 ^ 21 else 0)"
    using assms(2) by (simp_all add: stats_right_def)
  show m: "unat (ba_mapped base) \<le> 2 ^ 47" unfolding s(3)
    by (rule block_total [OF d]) (use ok blocks_okD(2) [OF assms(1)] in \<open>auto simp: block_ok_def\<close>)
  have "(\<Sum>b\<leftarrow>?bs. used mem b) \<le> unat (ba_resident base)" unfolding s(2) by (rule sum_list_mono') (rule sh(1))
  with s(1) show "ba_allocated base \<le> ba_resident base" by (simp add: word_le_nat_alt)
  have "unat (ba_resident base) \<le> unat (ba_mapped base)" unfolding s(2,3) by (rule sum_list_mono') (rule sh(2))
  then show "ba_resident base \<le> ba_mapped base" by (simp add: word_le_nat_alt)
  have "(\<Sum>b\<leftarrow>?bs. nat_round_up (2 ^ 21) (used mem b) div 2 ^ 21) * 2 ^ 21 = (\<Sum>b\<leftarrow>?bs. nat_round_up (2 ^ 21) (used mem b))"
    unfolding sum_list_mult_const [symmetric] huge_part ..
  also have "\<dots> \<le> unat (ba_mapped base)" unfolding s(3) by (rule sum_list_mono') (rule sh(3))
  finally have h: "unat (ba_n_thp base) * 2 ^ 21 \<le> unat (ba_mapped base)" using s(4) by simp
  then have "unat (push_bit 21 (ba_n_thp base)) = 2 ^ 21 * unat (ba_n_thp base)"
    using m by (simp add: unat_push_bit_mod mult.commute)
  with h show "push_bit LG_HUGEPAGE (ba_n_thp base) \<le> ba_mapped base" by (simp add: LG_HUGEPAGE_def word_le_nat_alt)
qed

section \<open>Allocation keeps the invariant\<close>

lemma regions_add:
  assumes "regions_ok en mem bs A" "blocks_ok en mem bs P" "b \<in> set bs" "mark mem b \<le> p" "p + n \<le> mark mem' b" "mark mem' b \<le> hi b"
    and "\<And>b'. b' \<in> set bs \<Longrightarrow> b' \<noteq> b \<Longrightarrow> mark mem' b' = mark mem b'"
  shows "regions_ok en mem' bs ((p, n) # A)"
proof -
  have ok: "block_ok en mem b'" if "b' \<in> set bs" for b' using blocks_okD(1) [OF assms(2)] that by blast
  have old: "\<exists>b'\<in>set bs. lo b' + unat (be_header en) \<le> q \<and> q + m \<le> mark mem b'" if "(q, m) \<in> set A" for q m
    using assms(1) that by (auto simp: regions_ok_def)
  have grow: "mark mem b' \<le> mark mem' b'" if "b' \<in> set bs" for b' using assms(4,5,7) that by (cases "b' = b") auto
  have "p + n \<le> q \<or> q + m \<le> p" if "(q, m) \<in> set A" for q m
  proof -
    from old [OF that(1)] obtain b' where b': "b' \<in> set bs" "lo b' \<le> q" "q + m \<le> mark mem b'" by auto
    show ?thesis
    proof (cases "b' = b")
      case True
      with b' assms(4) show ?thesis by simp
    next
      case False
      then have "clear_of b' b" using blocks_okD(2) [OF assms(2)] b'(1) assms(3) by blast
      moreover have "mark mem b' \<le> hi b'" "lo b \<le> mark mem b" using ok [OF b'(1)] ok [OF assms(3)] by (simp_all add: block_ok_def)
      ultimately show ?thesis using b'(2,3) assms(4-6) unfolding clear_of_def by linarith
    qed
  qed
  then have "sorted_wrt (\<lambda>(p, n) (q, m). p + n \<le> q \<or> q + m \<le> p) ((p, n) # A)" using assms(1) by (auto simp: regions_ok_def)
  moreover have "\<exists>b'\<in>set bs. lo b' + unat (be_header en) \<le> q \<and> q + m \<le> mark mem' b'" if "(q, m) \<in> set ((p, n) # A)" for q m
  proof (cases "(q, m) \<in> set A")
    case True
    from old [OF True] grow show ?thesis by fastforce
  next
    case False
    then have "q = p" "m = n" using that by auto
    moreover have "lo b + unat (be_header en) \<le> p" using ok [OF assms(3)] assms(4) by (simp add: block_ok_def)
    ultimately show ?thesis using assms(3,5) by blast
  qed
  ultimately show ?thesis by (auto simp: regions_ok_def)
qed

text \<open>The statistics round addresses; blocks are aligned, so that is the same as rounding what is used.\<close>

lemma round_up_base: "d dvd l \<Longrightarrow> 0 < d \<Longrightarrow> nat_round_up d (l + n) = l + nat_round_up d n"
proof -
  assume "d dvd l" "0 < d"
  then obtain q where l: "l = q * d" by (auto elim: dvdE)
  have "(l + n + (d - 1)) div d = q + (n + (d - 1)) div d"
    using \<open>0 < d\<close> div_mult_self3 [of d q "n + (d - 1)"] by (simp add: l add.assoc del: div_mult_self3)
  then show ?thesis by (simp add: nat_round_up_def l algebra_simps)
qed

lemma unat_huge_pages:
  assumes "unat v \<le> unat w" "unat w \<le> 2 ^ 47"
  shows "unat (drop_bit LG_HUGEPAGE (HUGEPAGE_CEILING w - HUGEPAGE_CEILING v))
      = nat_round_up (2 ^ 21) (unat w) div 2 ^ 21 - nat_round_up (2 ^ 21) (unat v) div 2 ^ 21"
proof -
  have u: "unat (HUGEPAGE_CEILING w) = nat_round_up (2 ^ 21) (unat w)" "unat (HUGEPAGE_CEILING v) = nat_round_up (2 ^ 21) (unat v)"
    by (rule unat_huge; use assms in simp)+
  have le: "nat_round_up (2 ^ 21) (unat v) \<le> nat_round_up (2 ^ 21) (unat w)"
    by (rule nat_round_up_least [OF _ dvd_nat_round_up]) (use nat_round_up_ge [of "2 ^ 21" "unat w"] assms(1) in simp_all)
  have "unat (HUGEPAGE_CEILING w - HUGEPAGE_CEILING v) = nat_round_up (2 ^ 21) (unat w) - nat_round_up (2 ^ 21) (unat v)"
    using u le by (subst unat_diff_eq) simp_all
  then have "unat (drop_bit LG_HUGEPAGE (HUGEPAGE_CEILING w - HUGEPAGE_CEILING v))
      = (nat_round_up (2 ^ 21) (unat w) - nat_round_up (2 ^ 21) (unat v)) div 2 ^ 21"
    by (simp add: LG_HUGEPAGE_def unat_drop_bit_div)
  also have "\<dots> = nat_round_up (2 ^ 21) (unat w) div 2 ^ 21 - nat_round_up (2 ^ 21) (unat v) div 2 ^ 21"
    unfolding nat_round_up_def by (simp only: diff_mult_distrib [symmetric] nonzero_mult_div_cancel_right [of "2 ^ 21 :: nat"] power_not_zero)
      simp
  finally show ?thesis .
qed

lemma unat_pages:
  assumes "unat v \<le> unat w" "unat w \<le> 2 ^ 47"
  shows "unat (PAGE_CEILING w - PAGE_CEILING v) = nat_round_up 4096 (unat w) - nat_round_up 4096 (unat v)"
proof -
  have "unat (PAGE_CEILING w) = nat_round_up 4096 (unat w)" "unat (PAGE_CEILING v) = nat_round_up 4096 (unat v)"
    by (rule unat_PAGE_CEILING; use assms in simp)+
  moreover have "nat_round_up 4096 (unat v) \<le> nat_round_up 4096 (unat w)"
    by (rule nat_round_up_least [OF _ dvd_nat_round_up]) (use nat_round_up_ge [of 4096 "unat w"] assms(1) in simp_all)
  ultimately show ?thesis by (subst unat_diff_eq) simp_all
qed

lemma word_move:
  fixes x :: size_t
  assumes "unat x = s" "unat d = f' - f" "f \<le> f'" "s' + f = s + f'" "s' \<le> 2 ^ 47"
  shows "unat (x + d) = s'"
  using assms by (subst unat_add_eq) simp_all

text \<open>The statistics after one block's rest has moved from \<open>t\<close> to \<open>t'\<close>.\<close>

lemma stats_move:
  assumes "blocks_ok en mem bs P" "blocks_ok en mem' bs P" "b \<in> set bs" "\<And>b'. b' \<in> set bs \<Longrightarrow> b' \<noteq> b \<Longrightarrow> mark mem' b' = mark mem b'"
    and "stats_right en mem base A" "ba_blocks base = bs" "unat t = mark mem b" "unat t' = mark mem' b" "mark mem b \<le> p" "p + unat s = mark mem' b"
    and "ba_blocks base' = bs" "ba_auto_thp_switched base' = ba_auto_thp_switched base"
    and "ba_allocated base' = ba_allocated base + s" "ba_resident base' = ba_resident base + (PAGE_CEILING t' - PAGE_CEILING t)"
    and "ba_mapped base' = ba_mapped base"
    and "ba_n_thp base' = (if thp_on en base then ba_n_thp base + drop_bit LG_HUGEPAGE (HUGEPAGE_CEILING t' - HUGEPAGE_CEILING t)
                           else ba_n_thp base)"
  shows "stats_right en mem' base' ((p, unat s) # A)"
proof -
  have d: "distinct bs" using assms(1) by (simp add: blocks_ok_def)
  note ok = blocks_okD(1) [OF assms(1) disjI1 [OF assms(3)]] and ok' = blocks_okD(1) [OF assms(2) disjI1 [OF assms(3)]]
  have h: "mark mem' b \<le> hi b" "hi b \<le> 2 ^ 47" "2 ^ 21 dvd lo b" "lo b \<le> mark mem b"
    using ok ok' by (simp_all add: block_ok_def region_ok_def)
  have t: "unat t \<le> unat t'" "unat t' \<le> 2 ^ 47" using assms(7-10) h by simp_all
  have us: "used mem' b = used mem b + (p - mark mem b) + unat s" using assms(9,10) h(4) by (simp add: used_def)
  have tops: "mark mem b = lo b + used mem b" "mark mem' b = lo b + used mem' b" using shares(5) [OF ok] shares(5) [OF ok'] by simp_all
  have same: "used mem' b' = used mem b'" if "b' \<in> set bs" "b' \<noteq> b" for b' using assms(4) [OF that] by (simp add: used_def)
  have lift: "(\<Sum>y\<leftarrow>bs. f (used mem' y)) + f (used mem b) = (\<Sum>y\<leftarrow>bs. f (used mem y)) + f (used mem' b)" for f :: "nat \<Rightarrow> nat"
    by (rule sum_list_change [OF d assms(3)]) (simp add: same)
  have total: "(\<Sum>y\<leftarrow>bs. hi y - lo y) \<le> 2 ^ 47"
    by (rule block_total [OF d]) (use blocks_okD(1,2) [OF assms(2)] in \<open>auto simp: block_ok_def\<close>)
  have o: "unat (ba_allocated base) = length bs * unat (be_header en) + (\<Sum>r\<leftarrow>A. snd r)"
    "unat (ba_allocated base) \<le> (\<Sum>y\<leftarrow>bs. used mem y)" "unat (ba_resident base) = (\<Sum>y\<leftarrow>bs. nat_round_up 4096 (used mem y))"
    "unat (ba_mapped base) = (\<Sum>y\<leftarrow>bs. hi y - lo y)"
    "unat (ba_n_thp base) = (if thp_on en base then \<Sum>y\<leftarrow>bs. nat_round_up (2 ^ 21) (used mem y) div 2 ^ 21 else 0)"
    using assms(5,6) by (simp_all add: stats_right_def)
  have share': "used mem' y \<le> hi y - lo y \<and> nat_round_up 4096 (used mem' y) \<le> hi y - lo y" if "y \<in> set bs" for y
    using shares(1,2) [OF blocks_okD(1) [OF assms(2) disjI1 [OF that]]] by simp
  have le1: "(\<Sum>y\<leftarrow>bs. used mem' y) \<le> 2 ^ 47"
    by (rule order_trans [OF sum_list_mono' total]) (use share' in blast)
  have le2: "(\<Sum>y\<leftarrow>bs. nat_round_up 4096 (used mem' y)) \<le> 2 ^ 47"
    by (rule order_trans [OF sum_list_mono' total]) (use share' in blast)
  have sum1: "(\<Sum>y\<leftarrow>bs. used mem y) + unat s \<le> (\<Sum>y\<leftarrow>bs. used mem' y)" using lift [of id] us by simp
  have a: "unat (ba_allocated base') = unat (ba_allocated base) + unat s"
    unfolding assms(13) by (rule unat_add_eq) (use o(2) sum1 le1 in simp)
  have m: "nat_round_up 4096 (mark mem b) = lo b + nat_round_up 4096 (used mem b)" "nat_round_up 4096 (mark mem' b) = lo b + nat_round_up 4096 (used mem' b)"
    unfolding tops by (rule round_up_base; use dvd_trans [OF _ h(3), of 4096] in simp)+
  have mono: "nat_round_up e (used mem b) \<le> nat_round_up e (used mem' b)" if "0 < e" for e
    by (rule nat_round_up_least [OF that dvd_nat_round_up]) (use nat_round_up_ge [OF that, of "used mem' b"] us in simp)
  have "unat (PAGE_CEILING t' - PAGE_CEILING t) = nat_round_up 4096 (used mem' b) - nat_round_up 4096 (used mem b)"
    using unat_pages [OF t] m assms(7,8) by simp
  then have r: "unat (ba_resident base') = (\<Sum>y\<leftarrow>bs. nat_round_up 4096 (used mem' y))"
    unfolding assms(14) by (rule word_move [OF o(3) _ _ lift le2]) (simp add: mono)
  have n: "unat (ba_n_thp base') = (if thp_on en base' then \<Sum>y\<leftarrow>bs. nat_round_up (2 ^ 21) (used mem' y) div 2 ^ 21 else 0)"
  proof (cases "thp_on en base")
    case True
    let ?f = "\<lambda>n. nat_round_up (2 ^ 21) n div 2 ^ 21"
    have m: "?f (mark mem b) = lo b div 2 ^ 21 + ?f (used mem b)" "?f (mark mem' b) = lo b div 2 ^ 21 + ?f (used mem' b)"
      unfolding tops round_up_base [OF h(3) zero_less_power [OF zero_less_numeral]] by (rule div_plus_div_distrib_dvd_left [OF h(3)])+
    have "?f n \<le> nat_round_up (2 ^ 21) n" for n by (rule div_le_dividend)
    then have "(\<Sum>y\<leftarrow>bs. ?f (used mem' y)) \<le> (\<Sum>y\<leftarrow>bs. hi y - lo y)"
      using shares(3) [OF blocks_okD(1) [OF assms(2)]] by (intro sum_list_mono') (meson order_trans)
    then have le: "(\<Sum>y\<leftarrow>bs. ?f (used mem' y)) \<le> 2 ^ 47" using total by simp
    have "unat (drop_bit LG_HUGEPAGE (HUGEPAGE_CEILING t' - HUGEPAGE_CEILING t)) = ?f (used mem' b) - ?f (used mem b)"
      using unat_huge_pages [OF t] m assms(7,8) by simp
    moreover have "?f (used mem b) \<le> ?f (used mem' b)" by (rule div_le_mono [OF mono]) simp
    moreover have "thp_on en base'" using True assms(12) by (simp add: thp_on_def)
    moreover have "unat (ba_n_thp base) = (\<Sum>y\<leftarrow>bs. ?f (used mem y))" using o(5) True by simp
    ultimately show ?thesis using word_move [OF _ _ _ lift [of ?f] le] True assms(16) by (simp del: mult_numeral_1)
  next
    case False
    then have "\<not> thp_on en base'" using assms(12) by (simp add: thp_on_def)
    moreover have "unat (ba_n_thp base') = 0" unfolding assms(16) if_not_P [OF False] using o(5) False by simp
    ultimately show ?thesis by simp
  qed
  show ?thesis unfolding stats_right_def assms(11) using a r n o sum1 assms(15) by simp
qed

lemma bump_full:
  assumes "base_inv en base (bw_mem w) A P (set (ba_blocks base) - {b})" "base_env_ok en" "b \<in> set (ba_blocks base)"
    and "rounded s k" "nat_round_up (2 ^ k) (mark (bw_mem w) b) + unat s \<le> hi b"
  shows "\<exists>ret base' w'. base_extent_bump_alloc en (block_extent b) s (2 ^ k) base w = Some (ret, base', w')
    \<and> 2 ^ k dvd unat ret \<and> base_inv en base' (bw_mem w') ((unat ret, unat s) # A) P (set (ba_blocks base'))
    \<and> ba_blocks base' = ba_blocks base \<and> bw_maps w' = bw_maps w"
proof -
  let ?m = "bw_mem w" and ?bs = "ba_blocks base" and ?h = "unat (be_header en)"
  have inv: "blocks_ok en ?m ?bs P" "regions_ok en ?m ?bs A" "stats_right en ?m base A" "avail_ok ?m (set ?bs - {b}) (ba_avail base)"
    "ba_pind_last base \<le> 199" using assms(1) by (simp_all add: base_inv_def)
  note ok = blocks_okD(1) [OF inv(1) disjI1]
  have hd: "0 < ?h" "tabs_ok (be_tabs en)" using assms(2) by (simp_all add: base_env_ok_def)
  from bump_ok [OF ok [OF assms(3)] assms(4,5) hd(1)] obtain ret gap mem' where
    bu: "base_extent_bump_alloc_helper (block_extent b) s (2 ^ k) ?m = Some ((ret, gap), mem')"
      "unat ret = nat_round_up (2 ^ k) (mark ?m b)" "unat gap = unat ret - mark ?m b" "\<forall>x. x \<noteq> block_extent b \<longrightarrow> mem' x = ?m x"
      "block_ok en mem' b" "mark mem' b = unat ret + unat s" by blast
  have same: "mem' (block_extent b') = ?m (block_extent b')" if "b' \<in> set ?bs \<or> b' \<in> fst ` P" "b' \<noteq> b" for b'
    using bu(4) blocks_okD(3) [OF inv(1) that(1) disjI1 [OF assms(3)] that(2)] by blast
  then have other: "mark mem' b' = mark ?m b'" "room mem' b' = room ?m b'" if "b' \<in> set ?bs \<or> b' \<in> fst ` P" "b' \<noteq> b" for b'
    using that by (simp_all add: mark_def room_def)
  have bP: "b \<notin> fst ` P" using inv(1) assms(3) by (auto simp: blocks_ok_def)
  have blk: "blocks_ok en mem' ?bs P"
  proof -
    have "block_ok en mem' b'" if "b' \<in> set ?bs \<or> b' \<in> fst ` P" for b'
      using blocks_okD(1) [OF inv(1) that] bu(5) other [OF that] by (cases "b' = b") (simp_all add: block_ok_def)
    moreover have "rounded s k \<and> mark mem' b' = lo b' + ?h \<and> nat_round_up (2 ^ k) (mark mem' b') + unat s \<le> hi b'"
      if "(b', s, k) \<in> P" for b' s k
    proof -
      have "b' \<in> fst ` P" using that by force
      then have "mark mem' b' = mark ?m b'" using other(1) [of b'] bP by metis
      then show ?thesis using inv(1) that by (auto simp: blocks_ok_def)
    qed
    ultimately show ?thesis using inv(1) unfolding blocks_ok_def by blast
  qed
  have le: "mark ?m b \<le> unat ret" unfolding bu(2) by (rule nat_round_up_ge) simp
  have tb: "mark mem' b \<le> hi b" "hi b \<le> 2 ^ 47" "2 ^ 21 dvd lo b" "lo b \<le> mark ?m b"
    using bu(5) ok [OF assms(3)] by (auto simp: block_ok_def region_ok_def)
  have reg: "regions_ok en mem' ?bs ((unat ret, unat s) # A)"
    by (rule regions_add [OF inv(2,1) assms(3) le _ tb(1)]) (use bu(6) other(1) in auto)
  have "avail_ok mem' (set ?bs - {b}) (ba_avail base)"
    by (rule avail_other [OF inv(4)]) (use same in auto)
  note av = this
  have R: "b \<notin> set ?bs - {b}" "finite (set ?bs - {b})" "insert b (set ?bs - {b}) = set ?bs" using assms(3) by auto
  have roomb: "unat (extent_bsize_get (mem' (block_extent b))) = room mem' b" "room mem' b \<le> 2 ^ 47" "16 dvd room mem' b"
  proof -
    have "16 dvd hi b - mark mem' b"
      using bu(5) dvd_trans [of 16 "2 ^ 21" "hi b"] by (intro dvd_diff_nat) (simp_all add: block_ok_def region_ok_def)
    moreover have "room mem' b = hi b - mark mem' b" using bu(5) by (auto simp: block_ok_def)
    ultimately show "16 dvd room mem' b" "room mem' b \<le> 2 ^ 47" using tb(2) by simp_all
  qed (simp add: room_def)
  define base0 where "base0 = (\<lambda>avail. base\<lparr>ba_avail := avail, ba_allocated := ba_allocated base + s,
    ba_resident := ba_resident base + (PAGE_CEILING (ret + s) - PAGE_CEILING (ret - gap)),
    ba_n_thp := (if thp_on en base then ba_n_thp base + drop_bit LG_HUGEPAGE (HUGEPAGE_CEILING (ret + s) - HUGEPAGE_CEILING (ret - gap))
                 else ba_n_thp base)\<rparr>)"
  have st: "stats_right en mem' (base0 avail) ((unat ret, unat s) # A)" for avail
  proof (rule stats_move [OF inv(1) blk assms(3) _ inv(3) refl, where t = "ret - gap" and t' = "ret + s"])
    show "unat (ret - gap) = mark ?m b" using bu(3) le by (subst unat_diff_eq) simp_all
    show "unat (ret + s) = mark mem' b" using bu(6) tb(1,2) by (subst unat_add_eq) simp_all
  qed (use bu(6) le other(1) in \<open>simp_all add: base0_def\<close>)
  have ord: "ba_allocated (base0 avail) \<le> ba_resident (base0 avail)" "ba_resident (base0 avail) \<le> ba_mapped (base0 avail)"
    "push_bit LG_HUGEPAGE (ba_n_thp (base0 avail)) \<le> ba_mapped (base0 avail)" for avail
    using stats_order [where P = P, OF _ st [of avail]] blk by (simp_all add: base0_def)
  have post: "base_extent_bump_alloc_post en (block_extent b) gap ret s mem' base = Some (base0 avail)"
    if "(if extent_bsize_get (mem' (block_extent b)) > 0
             then do {
               i \<leftarrow> sz_size2index (be_tabs en) (extent_bsize_get (mem' (block_extent b)) + 1);
               if i = 0 then None
               else do {
                 heap \<leftarrow> read_at (ba_avail base) (i - 1);
                 avail \<leftarrow> write_at (ba_avail base) (i - 1) (ph_insert (block_extent b) heap);
                 Some (base\<lparr>ba_avail := avail\<rparr>)
               }
             }
             else Some base) = Some (base\<lparr>ba_avail := avail\<rparr>)" for avail
    unfolding base_extent_bump_alloc_post_def that using ord [of avail]
    by (auto simp: base0_def Let_def thp_on_def)
  have "\<exists>avail. base_extent_bump_alloc_post en (block_extent b) gap ret s mem' base = Some (base0 avail) \<and> avail_ok mem' (set ?bs) avail"
  proof (cases "room mem' b = 0")
    case True
    then have z: "\<not> extent_bsize_get (mem' (block_extent b)) > 0" by (simp add: word_less_nat_alt roomb(1))
    have "avail_ok mem' (set ?bs) (ba_avail base)" using avail_skip [OF av True] R(3) by simp
    moreover have "base_extent_bump_alloc_post en (block_extent b) gap ret s mem' base = Some (base0 (ba_avail base))"
      by (rule post) (use z in simp)
    ultimately show ?thesis by blast
  next
    case False
    then have z: "extent_bsize_get (mem' (block_extent b)) > 0" by (simp add: word_less_nat_alt roomb(1))
    let ?n = "extent_bsize_get (mem' (block_extent b))"
    from floor_class_ok [OF hd(2), of ?n] False roomb obtain i where
      i: "sz_size2index (be_tabs en) (?n + 1) = Some i" "i \<noteq> 0" "i - 1 = floor_class (room mem' b)" "floor_class (room mem' b) < 232"
      by auto
    have len: "i - 1 < length (ba_avail base)" using av i(3,4) by (simp add: avail_ok_def)
    let ?avail = "(ba_avail base)[i - 1 := ph_insert (block_extent b) (ba_avail base ! (i - 1))]"
    have "avail_ok mem' (insert b (set ?bs - {b})) ?avail"
      by (rule avail_insert [OF av R(1,2)])
        (use False i(3,4) blocks_okD(3) [OF inv(1) disjI1 disjI1 [OF assms(3)]] in auto)
    moreover have "base_extent_bump_alloc_post en (block_extent b) gap ret s mem' base = Some (base0 ?avail)"
      by (rule post) (use z i len in \<open>simp add: read_at_def write_at_def\<close>)
    ultimately show ?thesis using R(3) by auto
  qed
  then obtain avail where fin: "base_extent_bump_alloc_post en (block_extent b) gap ret s mem' base = Some (base0 avail)"
    "avail_ok mem' (set ?bs) avail" by blast
  have bs: "ba_blocks (base0 avail) = ?bs" "ba_pind_last (base0 avail) = ba_pind_last base" "ba_avail (base0 avail) = avail"
    by (simp_all add: base0_def)
  have "base_inv en (base0 avail) mem' ((unat ret, unat s) # A) P (set ?bs)"
    using blk reg st fin(2) inv(5) by (simp add: base_inv_def bs)
  moreover have "2 ^ k dvd unat ret" unfolding bu(2) by (rule dvd_nat_round_up)
  moreover have "base_extent_bump_alloc en (block_extent b) s (2 ^ k) base w = Some (ret, base0 avail, w\<lparr>bw_mem := mem'\<rparr>)"
    by (simp add: base_extent_bump_alloc_def bu(1) fin(1))
  ultimately show ?thesis by (intro exI [of _ ret] exI [of _ "base0 avail"] exI [of _ "w\<lparr>bw_mem := mem'\<rparr>"]) (simp add: bs)
qed

section \<open>A new block\<close>

text \<open>What the system or the hook promises of an answer other than 0: memory at the alignment that was
  asked for, apart from everything mapped before.\<close>

definition map_fresh :: "base_block set \<Rightarrow> base_block \<Rightarrow> bool" where
  "map_fresh B b \<longleftrightarrow> bb_addr b = 0 \<or> (region_ok b \<and> (\<forall>b'\<in>B. clear_of b b'))"

lemma auto_blocks_ok:
  assumes "\<forall>b\<in>set bs. block_ok en mem b" "ind = 0 \<or> length bs \<le> 1"
    and "unat n + (\<Sum>b\<leftarrow>bs. nat_round_up (2 ^ 21) (used mem b) div 2 ^ 21) < 2 ^ 64"
  shows "\<exists>m. auto_thp_blocks ind mem bs n = Some m
    \<and> unat m = unat n + (\<Sum>b\<leftarrow>bs. nat_round_up (2 ^ 21) (used mem b) div 2 ^ 21)"
  using assms
proof (induction bs arbitrary: n)
  case (Cons b bs)
  have b: "block_ok en mem b" using Cons.prems(1) by simp
  have sz: "unat (bb_size b) = hi b - lo b" by (simp add: hi_def lo_def)
  have r: "mark mem b + room mem b = hi b" "lo b \<le> mark mem b" "hi b \<le> 2 ^ 47" "2 ^ 21 dvd hi b - lo b"
    using b by (auto simp: block_ok_def region_ok_def)
  have m: "bb_size b AND HUGEPAGE_MASK = 0" by (rule huge_zero) (use r(4) sz in simp)
  let ?e = "extent_bsize_get (mem (block_extent b))"
  have "unat (bb_size b - ?e) = used mem b"
    using r(1,2) sz by (subst unat_diff_eq) (simp_all add: room_def [symmetric] used_def)
  then have u: "unat (drop_bit LG_HUGEPAGE (HUGEPAGE_CEILING (bb_size b - ?e))) = nat_round_up (2 ^ 21) (used mem b) div 2 ^ 21"
    using r(1,3) by (simp add: LG_HUGEPAGE_def unat_drop_bit_div unat_huge used_def)
  have nn: "unat (n + drop_bit LG_HUGEPAGE (HUGEPAGE_CEILING (bb_size b - ?e))) = unat n + nat_round_up (2 ^ 21) (used mem b) div 2 ^ 21"
    using u Cons.prems(3) by (subst unat_add_eq) simp_all
  from Cons.IH [of "n + drop_bit LG_HUGEPAGE (HUGEPAGE_CEILING (bb_size b - ?e))"] Cons.prems obtain m' where
    "auto_thp_blocks ind mem bs (n + drop_bit LG_HUGEPAGE (HUGEPAGE_CEILING (bb_size b - ?e))) = Some m'"
    "unat m' = unat n + nat_round_up (2 ^ 21) (used mem b) div 2 ^ 21 + (\<Sum>b\<leftarrow>bs. nat_round_up (2 ^ 21) (used mem b) div 2 ^ 21)"
    unfolding nn by (auto simp: add.assoc)
  moreover have "bs = [] \<or> ind = 0" using Cons.prems(2) by (cases bs) auto
  ultimately show ?case using m by (intro exI [of _ m']) auto
qed simp

text \<open>Switching to huge pages changes two fields and keeps the invariant.\<close>

lemma switch_ok:
  assumes "base_inv en base mem A P R" "be_thp en = metadata_thp_auto" "metadata_thp_madvise en"
  shows "\<exists>sw n. base_auto_thp_switch en mem base = Some (base\<lparr>ba_auto_thp_switched := sw, ba_n_thp := n\<rparr>)
    \<and> base_inv en (base\<lparr>ba_auto_thp_switched := sw, ba_n_thp := n\<rparr>) mem A P R"
proof -
  let ?bs = "ba_blocks base"
  have inv: "blocks_ok en mem ?bs P" "stats_right en mem base A" using assms(1) by (simp_all add: base_inv_def)
  have bs: "?bs \<noteq> []" using inv(1) by (simp add: blocks_ok_def)
  have ok: "\<forall>b\<in>set ?bs. block_ok en mem b" using blocks_okD(1) [OF inv(1)] by blast
  have same: "base\<lparr>ba_auto_thp_switched := ba_auto_thp_switched base, ba_n_thp := ba_n_thp base\<rparr> = base" by simp
  show ?thesis
  proof (cases "ba_auto_thp_switched base \<or> \<not> (if base_ind_get base \<noteq> 0 then 2 + (length ?bs - 1) = BASE_AUTO_THP_THRESHOLD
      else 2 + (length ?bs - 1) = BASE_AUTO_THP_THRESHOLD_A0)")
    case True
    then have "base_auto_thp_switch en mem base = Some base"
      using bs assms(2) by (auto simp: base_auto_thp_switch_def base_get_num_blocks_def)
    then show ?thesis using same assms(1) by metis
  next
    case False
    have z: "ba_n_thp base = 0" using inv(2) False assms(2) by (simp add: stats_right_def thp_on_def word_unat_eq_iff)
    have ind: "base_ind_get base = 0 \<or> length ?bs \<le> 1" using False by (auto simp: BASE_AUTO_THP_THRESHOLD_def split: if_splits)
    have "(\<Sum>b\<leftarrow>?bs. nat_round_up (2 ^ 21) (used mem b) div 2 ^ 21) \<le> (\<Sum>b\<leftarrow>?bs. hi b - lo b)"
      using shares(3) ok by (intro sum_list_mono') (meson div_le_dividend order_trans)
    also have "\<dots> \<le> 2 ^ 47"
      by (rule block_total) (use inv(1) blocks_okD(1,2) [OF inv(1)] in \<open>auto simp: block_ok_def blocks_ok_def\<close>)
    finally have lt: "unat (ba_n_thp base) + (\<Sum>b\<leftarrow>?bs. nat_round_up (2 ^ 21) (used mem b) div 2 ^ 21) < 2 ^ 64" using z by simp
    from auto_blocks_ok [OF ok ind lt] obtain m where
      m: "auto_thp_blocks (base_ind_get base) mem ?bs (ba_n_thp base) = Some m"
        "unat m = (\<Sum>b\<leftarrow>?bs. nat_round_up (2 ^ 21) (used mem b) div 2 ^ 21)" using z by auto
    let ?b' = "base\<lparr>ba_auto_thp_switched := True, ba_n_thp := m\<rparr>"
    have "base_auto_thp_switch en mem base = Some ?b'"
      using False bs assms(2) z m(1) by (simp add: base_auto_thp_switch_def base_get_num_blocks_def base_ind_get_def split: if_splits)
    moreover have "base_inv en ?b' mem A P R"
      using assms(1,3) m(2) inv(2) by (simp add: base_inv_def stats_right_def thp_on_def)
    ultimately show ?thesis by blast
  qed
qed

lemma stats_cong:
  assumes "stats_right en mem base A" "\<And>b. b \<in> set (ba_blocks base) \<Longrightarrow> used mem' b = used mem b"
    and "ba_blocks base' = ba_blocks base" "ba_allocated base' = ba_allocated base" "ba_resident base' = ba_resident base"
      "ba_mapped base' = ba_mapped base" "ba_n_thp base' = ba_n_thp base" "ba_auto_thp_switched base' = ba_auto_thp_switched base"
  shows "stats_right en mem' base' A"
proof -
  have "(\<Sum>b\<leftarrow>ba_blocks base. f (used mem' b)) = (\<Sum>b\<leftarrow>ba_blocks base. f (used mem b))" for f :: "nat \<Rightarrow> nat"
    by (rule arg_cong [where f = sum_list]) (simp add: assms(2))
  from this [of id] this [of "nat_round_up 4096"] this [of "\<lambda>n. nat_round_up (2 ^ 21) n div 2 ^ 21"]
  show ?thesis using assms(1,3-) unfolding stats_right_def thp_on_def id_apply by (elim conjE) (simp only: simp_thms)
qed

text \<open>Mapping a block for a request and writing its header.\<close>

lemma blocks_ok_pending:
  assumes "blocks_ok en mem bs P" "rounded s k" "block_ok en mem' b" "mark mem' b = lo b + unat (be_header en)"
    and "nat_round_up (2 ^ k) (mark mem' b) + unat s \<le> hi b" "\<forall>b'\<in>set bs \<union> fst ` P. clear_of b b'"
    and "\<forall>x. x \<noteq> block_extent b \<longrightarrow> mem' x = mem x"
  shows "blocks_ok en mem' bs (insert (b, s, k) P)" "b \<notin> set bs \<union> fst ` P"
    "\<And>b'. b' \<in> set bs \<union> fst ` P \<Longrightarrow> mem' (block_extent b') = mem (block_extent b')"
proof -
  have reg: "region_ok b" using assms(3) by (simp add: block_ok_def)
  then have irr: "\<not> clear_of b b" by (auto simp: clear_of_def region_ok_def)
  then show new: "b \<notin> set bs \<union> fst ` P" using assms(6) by blast
  have ok: "block_ok en mem b'" if "b' \<in> set bs \<union> fst ` P" for b' using blocks_okD(1) [OF assms(1)] that by blast
  have "block_extent b \<noteq> block_extent b'" if "b' \<in> set bs \<union> fst ` P" for b'
    using clear_neq [OF reg _ assms(6) [rule_format, OF that]] ok [OF that] by (simp add: block_ok_def)
  then show same: "mem' (block_extent b') = mem (block_extent b')" if "b' \<in> set bs \<union> fst ` P" for b'
    using assms(7) that by metis
  have ok': "block_ok en mem' b'" "mark mem' b' = mark mem b'" if "b' \<in> set bs \<union> fst ` P" for b'
    using ok [OF that] same [OF that] by (simp_all add: block_ok_def mark_def room_def)
  have sym: "clear_of b' b" if "b' \<in> set bs \<union> fst ` P" for b' using assms(6) that by (auto simp: clear_of_def)
  have U: "set bs \<union> fst ` insert (b, s, k) P = insert b (set bs \<union> fst ` P)" by simp
  show "blocks_ok en mem' bs (insert (b, s, k) P)" unfolding blocks_ok_def U
  proof (intro conjI)
    show "inj_on fst (insert (b, s, k) P)" using assms(1) new by (auto simp: blocks_ok_def)
    show "\<forall>b'\<in>insert b (set bs \<union> fst ` P). block_ok en mem' b'" using ok'(1) assms(3) by blast
    show "\<forall>x\<in>insert b (set bs \<union> fst ` P). \<forall>y\<in>insert b (set bs \<union> fst ` P). x \<noteq> y \<longrightarrow> clear_of x y"
    proof (intro ballI impI)
      fix x y assume xy: "x \<in> insert b (set bs \<union> fst ` P)" "y \<in> insert b (set bs \<union> fst ` P)" "x \<noteq> y"
      then consider "x = b" "y \<in> set bs \<union> fst ` P" | "y = b" "x \<in> set bs \<union> fst ` P"
        | "x \<in> set bs \<union> fst ` P" "y \<in> set bs \<union> fst ` P" by blast
      then show "clear_of x y" using assms(6) sym blocks_okD(2) [OF assms(1), of x y] xy(3) by cases simp_all
    qed
    show "\<forall>(b', s', k')\<in>insert (b, s, k) P. rounded s' k' \<and> mark mem' b' = lo b' + unat (be_header en)
        \<and> nat_round_up (2 ^ k') (mark mem' b') + unat s' \<le> hi b'"
    proof (clarify)
      fix b' s' k' assume "(b', s', k') \<in> insert (b, s, k) P"
      then consider "b' = b" "s' = s" "k' = k" | "(b', s', k') \<in> P" by auto
      then show "rounded s' k' \<and> mark mem' b' = lo b' + unat (be_header en) \<and> nat_round_up (2 ^ k') (mark mem' b') + unat s' \<le> hi b'"
      proof cases
        case 1
        then show ?thesis using assms(2,4,5) by simp
      next
        case 2
        then have "b' \<in> fst ` P" by force
        then have "mark mem' b' = mark mem b'" using ok'(2) by blast
        then show ?thesis using assms(1) 2 by (auto simp: blocks_ok_def)
      qed
    qed
  qed (use assms(1) new in \<open>auto simp: blocks_ok_def\<close>)
qed

lemma new_block_ok:
  fixes mem :: "64 word \<Rightarrow> extent" and e and sn
  assumes "base_env_ok en" "region_ok b" "rounded s k"
    and "nat_round_up (2 ^ k) (unat (be_header en)) + nat_round_up (2 ^ k) (unat s) \<le> unat (bb_size b)"
  defines "mem' \<equiv> mem(block_extent b := extent_binit e (bb_addr b + be_header en) (bb_size b - be_header en) sn)"
  shows "bb_size b \<ge> be_header en" "block_ok en mem' b" "mark mem' b = lo b + unat (be_header en)"
    "nat_round_up (2 ^ k) (mark mem' b) + unat s \<le> hi b"
proof -
  let ?h = "unat (be_header en)"
  have h: "16 dvd ?h" "0 < ?h" "?h \<le> 4096" using assms(1) by (simp_all add: base_env_ok_def)
  have r: "2 ^ 21 dvd lo b" "2 ^ 21 dvd hi b" "lo b < hi b" "hi b \<le> 2 ^ 47" using assms(2) by (simp_all add: region_ok_def)
  have sz: "unat (bb_size b) = hi b - lo b" "unat (bb_addr b) = lo b" by (simp_all add: hi_def lo_def)
  have "2 ^ 21 dvd hi b - lo b" using r by (intro dvd_diff_nat)
  then have big: "2 ^ 21 \<le> hi b - lo b" using r(3) by (intro dvd_imp_le) simp_all
  then show le: "bb_size b \<ge> be_header en" using h sz by (simp add: word_le_nat_alt)
  have m: "mark mem' b = lo b + ?h" unfolding mark_def mem'_def using r(3,4) h sz by (simp, subst unat_add_eq) simp_all
  then show "mark mem' b = lo b + ?h" .
  have ro: "room mem' b = hi b - lo b - ?h"
    unfolding room_def mem'_def using le sz by (simp, subst unat_diff_eq) (simp_all add: word_le_nat_alt)
  have "(16 :: nat) dvd 2 ^ 21" by simp
  then have d16: "16 dvd lo b" using r(1) by (rule dvd_trans)
  show "block_ok en mem' b" using assms(2) m ro big h d16 by (simp add: block_ok_def)
  have "nat_round_up (2 ^ k) (unat s) = unat s" using assms(3) by (intro round_up_dvd) (simp_all add: rounded_def)
  then show "nat_round_up (2 ^ k) (mark mem' b) + unat s \<le> hi b"
    using gap_block [OF r(1) h(2,3), of k] assms(4) m sz r(3) by simp
qed

lemma huge_fix: "2 ^ 21 dvd unat n \<Longrightarrow> HUGEPAGE_CEILING n = n"
proof -
  assume d: "2 ^ 21 dvd unat n"
  then have "2 ^ 21 dvd 2 ^ 64 - unat n" by (intro dvd_diff_nat) (simp_all add: le_imp_power_dvd)
  then have "2 ^ 21 \<le> 2 ^ 64 - unat n" by (rule dvd_imp_le) (use unsigned_less [of n] in simp)
  then have "unat (HUGEPAGE_CEILING n) = nat_round_up (2 ^ 21) (unat n)" by (intro unat_huge) simp
  then show ?thesis using round_up_dvd [OF _ d] by (simp add: word_unat_eq_iff)
qed

text \<open>The promise about the next mapping.\<close>

definition maps_ok :: "base_env \<Rightarrow> size_t \<Rightarrow> nat \<Rightarrow> base_block set \<Rightarrow> nat \<Rightarrow> base_world \<Rightarrow> bool" where
  "maps_ok en s k B pind w \<longleftrightarrow>
     (case bw_maps w of [] \<Rightarrow> True | addr # _ \<Rightarrow>
        (case base_block_size en pind s (2 ^ k) of None \<Rightarrow> True | Some n \<Rightarrow> map_fresh B \<lparr>bb_addr = addr, bb_size = n\<rparr>))"

lemma map_ok:
  assumes "base_inv en base (bw_mem w) A P (set (ba_blocks base))" "base_env_ok en" "rounded s k"
    and fresh: "maps_ok en s k (set (ba_blocks base) \<union> fst ` P) (ba_pind_last base) w"
  shows "\<exists>r base' w'. base_extent_map en s (2 ^ k) base w = Some (r, base', w') \<and> ba_blocks base' = ba_blocks base
    \<and> (case r of
         None \<Rightarrow> (bw_maps w = [] \<or> hd (bw_maps w) = 0) \<and> bw_mem w' = bw_mem w \<and> base_inv en base' (bw_mem w') A P (set (ba_blocks base'))
       | Some b \<Rightarrow> b \<notin> fst ` P \<and> base_inv en base' (bw_mem w') A (insert (b, s, k) P) (set (ba_blocks base')))"
proof -
  let ?m = "bw_mem w" and ?bs = "ba_blocks base"
  have inv: "blocks_ok en ?m ?bs P" "regions_ok en ?m ?bs A" "stats_right en ?m base A" "avail_ok ?m (set ?bs) (ba_avail base)"
    "ba_pind_last base \<le> 199" using assms(1) by (simp_all add: base_inv_def)
  have k: "k \<le> 44" "4 \<le> k" "unat s \<le> 2 ^ 45" using assms(3) by (simp_all add: rounded_def)
  then have mk: "max 4 k = k" by simp
  from block_size_ok [OF assms(2) k(3,1) inv(5), unfolded mk] obtain n where
    n: "base_block_size en (ba_pind_last base) s (2 ^ k) = Some n" "2 ^ 21 dvd unat n" "0 < unat n"
      "nat_round_up (2 ^ k) (unat (be_header en)) + nat_round_up (2 ^ k) (unat s) \<le> unat n" by blast
  have hc: "HUGEPAGE_CEILING n = n" by (rule huge_fix [OF n(2)])
  show ?thesis
  proof (cases "bw_maps w = [] \<or> hd (bw_maps w) = 0")
    case True
    then obtain w' where w': "base_map n w = Some (0, w')" "bw_mem w' = ?m" using hc by (cases "bw_maps w") (auto simp: base_map_def)
    then have "base_extent_map en s (2 ^ k) base w = Some (None, base, w')"
      by (simp add: base_extent_map_def base_block_alloc_def n(1))
    with True w'(2) assms(1) show ?thesis by (intro exI [of _ None] exI [of _ base] exI [of _ w']) simp
  next
    case False
    then obtain addr maps where m: "bw_maps w = addr # maps" "addr \<noteq> 0" by (cases "bw_maps w") auto
    let ?b = "\<lparr>bb_addr = addr, bb_size = n\<rparr>"
    have f: "region_ok ?b" "\<forall>b'\<in>set ?bs \<union> fst ` P. clear_of ?b b'" using fresh m n(1) by (simp_all add: maps_ok_def map_fresh_def)
    have "\<exists>base1. block_thp en addr n ?m (Some base) = Some (Some base1) \<and> base_inv en base1 ?m A P (set ?bs) \<and> ba_blocks base1 = ?bs
        \<and> ba_extent_sn_next base1 = ba_extent_sn_next base"
    proof (cases "metadata_thp_madvise en \<and> be_thp en = metadata_thp_auto")
      case True
      have "2 ^ 21 dvd unat addr" using f(1) by (simp add: region_ok_def lo_def)
      then have "addr AND HUGEPAGE_MASK = 0" "n AND HUGEPAGE_MASK = 0" using huge_zero n(2) by blast+
      with switch_ok [OF assms(1)] True show ?thesis by (fastforce simp: block_thp_def)
    next
      case no: False
      have "2 ^ 21 dvd unat addr" using f(1) by (simp add: region_ok_def lo_def)
      then have "addr AND HUGEPAGE_MASK = 0" "n AND HUGEPAGE_MASK = 0" using huge_zero n(2) by blast+
      then have "block_thp en addr n ?m (Some base) = Some (Some base)" using no by (auto simp: block_thp_def)
      with assms(1) show ?thesis by blast
    qed
    then obtain base1 where b1: "block_thp en addr n ?m (Some base) = Some (Some base1)" "base_inv en base1 ?m A P (set ?bs)"
      "ba_blocks base1 = ?bs" by blast
    let ?sn = "ba_extent_sn_next base"
    let ?mem' = "?m(block_extent ?b := extent_binit (?m (block_extent ?b)) (addr + be_header en) (n - be_header en) ?sn)"
    note nb = new_block_ok(2-4) [OF assms(2) f(1) assms(3), where mem = ?m and e = "?m (block_extent ?b)" and sn = ?sn,
      simplified base_block.simps, OF n(4)]
    note le = new_block_ok(1) [OF assms(2) f(1) assms(3), simplified base_block.simps, OF n(4)]
    let ?base' = "base1\<lparr>ba_pind_last := sz_psz2ind n, ba_extent_sn_next := ?sn + 1\<rparr>"
    have run: "base_extent_map en s (2 ^ k) base w = Some (Some ?b, ?base', w\<lparr>bw_maps := maps, bw_mem := ?mem'\<rparr>)"
      using hc m b1(1) le
      by (simp add: base_extent_map_def base_block_alloc_def n(1) base_map_def base_extent_init_def Let_def)
    have i1: "blocks_ok en ?m ?bs P" "regions_ok en ?m ?bs A" "stats_right en ?m base1 A" "avail_ok ?m (set ?bs) (ba_avail base1)"
      using b1(2,3) by (simp_all add: base_inv_def)
    have others: "\<forall>x. x \<noteq> block_extent ?b \<longrightarrow> ?mem' x = ?m x" by simp
    note pend = blocks_ok_pending [where mem' = ?mem', OF i1(1) assms(3) nb f(2) others]
    have same: "mark ?mem' b' = mark ?m b'" if "b' \<in> set ?bs" for b' using pend(3) [of b'] that by (simp add: mark_def)
    have reg: "regions_ok en ?mem' ?bs A" using i1(2) same by (fastforce simp: regions_ok_def)
    have st: "stats_right en ?mem' ?base' A" by (rule stats_cong [OF i1(3)]) (use same b1(3) in \<open>simp_all add: used_def\<close>)
    have av: "avail_ok ?mem' (set ?bs) (ba_avail base1)" by (rule avail_other [OF i1(4)]) (use pend(3) in auto)
    have "base_inv en ?base' ?mem' A (insert (?b, s, k) P) (set ?bs)"
      using pend(1) reg st av b1(3) psz2ind_199 [of n] n(3) by (simp add: base_inv_def)
    moreover have "?b \<notin> fst ` P" using pend(2) by blast
    ultimately show ?thesis using run b1(3)
      by (intro exI [of _ "Some ?b"] exI [of _ ?base'] exI [of _ "w\<lparr>bw_maps := maps, bw_mem := ?mem'\<rparr>"]) simp
  qed
qed

text \<open>A pending block is linked.\<close>

lemma link_ok:
  assumes "base_inv en base mem A P (set (ba_blocks base))" "base_env_ok en" "(b, s, k) \<in> P"
  shows "\<exists>base'. base_extent_link en (Some b) base = Some (Some (block_extent b), base') \<and> ba_blocks base' = b # ba_blocks base
    \<and> base_inv en base' mem A (P - {(b, s, k)}) (set (ba_blocks base') - {b})"
proof -
  let ?bs = "ba_blocks base" and ?h = "unat (be_header en)" and ?P = "P - {(b, s, k)}"
  have inv: "blocks_ok en mem ?bs P" "regions_ok en mem ?bs A" "stats_right en mem base A" "avail_ok mem (set ?bs) (ba_avail base)"
    "ba_pind_last base \<le> 199" using assms(1) by (simp_all add: base_inv_def)
  have bP: "b \<in> fst ` P" using assms(3) by force
  have mk: "mark mem b = lo b + ?h" using inv(1) assms(3) by (auto simp: blocks_ok_def)
  then have us: "used mem b = ?h" by (simp add: used_def)
  have new: "b \<notin> set ?bs" using inv(1) bP by (auto simp: blocks_ok_def)
  have inj: "inj_on fst P" using inv(1) by (simp add: blocks_ok_def)
  have fP: "fst ` ?P = fst ` P - {b}" using inj_on_image_set_diff [OF inj, of P "{(b, s, k)}"] assms(3) by simp
  have blk: "blocks_ok en mem (b # ?bs) ?P"
  proof -
    have U: "set (b # ?bs) \<union> fst ` ?P = set ?bs \<union> fst ` P" using fP bP by auto
    have "set (b # ?bs) \<inter> fst ` ?P = {}" using inv(1) fP by (auto simp: blocks_ok_def)
    moreover have "inj_on fst ?P" using inj by (rule inj_on_subset) blast
    moreover have "distinct (b # ?bs)" "?bs \<noteq> []" using inv(1) new by (simp_all add: blocks_ok_def)
    moreover have "\<forall>b\<in>set ?bs \<union> fst ` P. block_ok en mem b" using inv(1) unfolding blocks_ok_def by (elim conjE)
    moreover have "\<forall>b\<in>set ?bs \<union> fst ` P. \<forall>b'\<in>set ?bs \<union> fst ` P. b \<noteq> b' \<longrightarrow> clear_of b b'"
      using inv(1) unfolding blocks_ok_def by (elim conjE)
    moreover have "\<forall>(b, s, k)\<in>?P. rounded s k \<and> mark mem b = lo b + ?h \<and> nat_round_up (2 ^ k) (mark mem b) + unat s \<le> hi b"
      using inv(1) by (auto simp: blocks_ok_def)
    ultimately show ?thesis unfolding blocks_ok_def U by simp
  qed
  have ok: "block_ok en mem b" using blocks_okD(1) [OF inv(1)] bP by blast
  note sh = shares [OF ok, unfolded us]
  have tot: "(\<Sum>y\<leftarrow>b # ?bs. hi y - lo y) \<le> 2 ^ 47"
    by (rule block_total) (use blk blocks_okD(1,2) [OF blk] in \<open>auto simp: block_ok_def blocks_ok_def\<close>)
  have o: "unat (ba_allocated base) = length ?bs * ?h + (\<Sum>r\<leftarrow>A. snd r)"
    "unat (ba_allocated base) \<le> (\<Sum>y\<leftarrow>?bs. used mem y)" "unat (ba_resident base) = (\<Sum>y\<leftarrow>?bs. nat_round_up 4096 (used mem y))"
    "unat (ba_mapped base) = (\<Sum>y\<leftarrow>?bs. hi y - lo y)"
    "unat (ba_n_thp base) = (if thp_on en base then \<Sum>y\<leftarrow>?bs. nat_round_up (2 ^ 21) (used mem y) div 2 ^ 21 else 0)"
    using inv(3) by (simp_all add: stats_right_def)
  have bounds: "unat (ba_allocated base) \<le> unat (ba_mapped base)" "unat (ba_resident base) \<le> unat (ba_mapped base)"
    "unat (ba_n_thp base) \<le> unat (ba_mapped base)"
  proof -
    note so = stats_order [OF inv(1,3)]
    show "unat (ba_allocated base) \<le> unat (ba_mapped base)" "unat (ba_resident base) \<le> unat (ba_mapped base)"
      using so(1,2) by (simp_all add: word_le_nat_alt)
    have "(\<Sum>y\<leftarrow>?bs. nat_round_up (2 ^ 21) (used mem y) div 2 ^ 21) \<le> (\<Sum>y\<leftarrow>?bs. hi y - lo y)"
      using shares(3) blocks_okD(1) [OF inv(1)] by (intro sum_list_mono') (meson div_le_dividend order_trans)
    then show "unat (ba_n_thp base) \<le> unat (ba_mapped base)" using o(4,5) by simp
  qed
  have bsz: "unat (bb_size b) = hi b - lo b" by (simp add: hi_def lo_def)
  have "unat (PAGE_CEILING (be_header en)) = nat_round_up 4096 ?h" using assms(2) by (intro unat_PAGE_CEILING) (simp add: base_env_ok_def)
  moreover have "unat (HUGEPAGE_CEILING (be_header en)) = nat_round_up (2 ^ 21) ?h"
    using assms(2) by (intro unat_huge) (simp add: base_env_ok_def)
  moreover have "unat (drop_bit LG_HUGEPAGE (HUGEPAGE_CEILING (be_header en))) = nat_round_up (2 ^ 21) ?h div 2 ^ 21"
    using calculation(2) by (simp add: LG_HUGEPAGE_def unat_drop_bit_div)
  moreover have "nat_round_up (2 ^ 21) ?h div 2 ^ 21 \<le> hi b - lo b" using sh(3) by (meson div_le_dividend order_trans)
  moreover have "unat (ba_mapped base) + (hi b - lo b) \<le> 2 ^ 47" using tot o(4) by simp
  ultimately have add: "unat (ba_allocated base + be_header en) = unat (ba_allocated base) + ?h"
    "unat (ba_resident base + PAGE_CEILING (be_header en)) = unat (ba_resident base) + nat_round_up 4096 ?h"
    "unat (ba_mapped base + bb_size b) = unat (ba_mapped base) + (hi b - lo b)"
    "unat (ba_n_thp base + drop_bit LG_HUGEPAGE (HUGEPAGE_CEILING (be_header en))) = unat (ba_n_thp base) + nat_round_up (2 ^ 21) ?h div 2 ^ 21"
    using bounds sh bsz by (simp_all add: unat_add_eq)
  let ?base' = "base\<lparr>ba_blocks := b # ?bs, ba_allocated := ba_allocated base + be_header en,
      ba_resident := ba_resident base + PAGE_CEILING (be_header en), ba_mapped := ba_mapped base + bb_size b,
      ba_n_thp := (if thp_on en base then ba_n_thp base + drop_bit LG_HUGEPAGE (HUGEPAGE_CEILING (be_header en)) else ba_n_thp base)\<rparr>"
  have st: "stats_right en mem ?base' A"
  proof -
    have on: "thp_on en ?base' = thp_on en base" by (simp add: thp_on_def)
    show ?thesis using o add us sh(1) by (simp add: stats_right_def on)
  qed
  have blk': "blocks_ok en mem (ba_blocks ?base') ?P" using blk by simp
  note so = stats_order [OF blk' st]
  have pos: "ba_n_thp base > 0" if "thp_on en base"
  proof -
    from inv(1) obtain y ys where y: "?bs = y # ys" by (cases ?bs) (auto simp: blocks_ok_def)
    have yo: "block_ok en mem y" using blocks_okD(1) [OF inv(1)] y by simp
    have "0 < used mem y" using shares(4) [OF yo] assms(2) by (simp add: base_env_ok_def)
    then have "2 ^ 21 \<le> nat_round_up (2 ^ 21) (used mem y)"
      using nat_round_up_ge [of "2 ^ 21" "used mem y"] by (intro dvd_imp_le dvd_nat_round_up) simp
    then have "0 < nat_round_up (2 ^ 21) (used mem y) div 2 ^ 21" by (simp add: div_greater_zero_iff)
    then show ?thesis using o(5) that y by (simp add: word_less_nat_alt)
  qed
  have cond: "metadata_thp_madvise en \<and> \<not> (be_thp en = metadata_thp_auto \<and> \<not> ba_auto_thp_switched base) \<longleftrightarrow> thp_on en base"
    by (cases "be_thp en") (auto simp: thp_on_def metadata_thp_madvise_def metadata_thp_enabled_def)
  have run: "base_extent_link en (Some b) base = Some (Some (block_extent b), ?base')"
    using so pos cond by (cases "thp_on en base") (auto simp: base_extent_link_def Let_def)
  have sub: "set (b # ?bs) - {b} = set ?bs" using new by auto
  have reg: "regions_ok en mem (b # ?bs) A" using inv(2) by (fastforce simp: regions_ok_def)
  have "base_inv en ?base' mem A ?P (set (b # ?bs) - {b})"
    unfolding sub using blk reg st inv(4,5) by (auto simp: base_inv_def)
  with run show ?thesis by (intro exI [of _ ?base']) simp
qed

section \<open>The two halves of an allocation\<close>

definition base_request :: "size_t \<Rightarrow> nat \<Rightarrow> size_t \<times> nat" where
  "base_request sz a = (ALIGNMENT_CEILING sz (2 ^ max 4 a), max 4 a)"

definition valid_request :: "size_t \<Rightarrow> nat \<Rightarrow> bool" where
  "valid_request sz a \<longleftrightarrow> 0 < sz \<and> unat sz \<le> 2 ^ 44 \<and> a \<le> 43"

lemma base_request_ok:
  assumes "valid_request sz a" "base_request sz a = (s, k)"
  shows "rounded s k" "QUANTUM_CEILING (2 ^ a) = 2 ^ k" "ALIGNMENT_CEILING sz (2 ^ k) = s" "unat sz \<le> unat s" "a \<le> k" "k \<le> 43"
    "unat s \<le> 2 ^ 45" "0 < unat s"
proof -
  have v: "0 < unat sz" "unat sz \<le> 2 ^ 44" "a \<le> 43" using assms(1) by (simp_all add: valid_request_def word_less_nat_alt)
  have k1: "max 4 a = k" "ALIGNMENT_CEILING sz (2 ^ max 4 a) = s" using assms(2) by (auto simp: base_request_def)
  have k: "k = max 4 a" "s = ALIGNMENT_CEILING sz (2 ^ k)" using k1(1) k1(2) [unfolded k1(1)] by simp_all
  have p: "(2::nat) ^ k \<le> 2 ^ 43" using v(3) k(1) by (intro power_increasing) simp_all
  have u: "unat s = nat_round_up (2 ^ k) (unat sz)" unfolding k(2)
    by (rule unat_ALIGNMENT_CEILING) (use v p k(1) in simp_all)
  show "unat sz \<le> unat s" unfolding u by (rule nat_round_up_ge) simp
  then show "0 < unat s" using v(1) by simp
  show le: "unat s \<le> 2 ^ 45" using u nat_round_up_less [of "2 ^ k" "unat sz"] v(2) p by simp
  show "ALIGNMENT_CEILING sz (2 ^ k) = s" "a \<le> k" "k \<le> 43" using k v(3) by simp_all
  show "QUANTUM_CEILING (2 ^ a) = 2 ^ k" using alignment_ceilings(2) [of a] v(3) k(1) by simp
  show "rounded s k" using le u k(1) v(3) dvd_nat_round_up [of "2 ^ k" "unat sz"] by (simp add: rounded_def)
qed

lemma rest_quantum:
  assumes "block_ok en mem b"
  shows "16 dvd room mem b"
proof -
  have a: "mark mem b + room mem b = hi b" "16 dvd mark mem b" "2 ^ 21 dvd hi b" using assms by (simp_all add: block_ok_def region_ok_def)
  have "(16 :: nat) dvd 2 ^ 21" by simp
  then have "16 dvd hi b" using a(3) by (rule dvd_trans)
  then show ?thesis using a(1,2) by (metis dvd_add_right_iff)
qed

text \<open>The search starts at the class of the size with the largest gap.\<close>

lemma found_fits:
  assumes "block_ok en mem b" "rounded s k" "k \<le> 43" "unat asize + 16 = unat s + 2 ^ k" "0 < unat asize"
    and "sz_size2index_compute asize \<le> floor_class (room mem b)" "0 < room mem b"
  shows "nat_round_up (2 ^ k) (mark mem b) + unat s \<le> hi b"
proof -
  have b: "mark mem b + room mem b = hi b" "16 dvd mark mem b" "hi b \<le> 2 ^ 47" "16 dvd room mem b"
    using assms(1) rest_quantum [OF assms(1)] by (simp_all add: block_ok_def region_ok_def)
  have k: "4 \<le> k" using assms(2) by (simp add: rounded_def)
  have "room mem b \<le> 2 ^ 47" using b by simp
  then have fl: "floor_class (room mem b) < 232" "class_size (floor_class (room mem b)) \<le> room mem b"
    using floor_class_le [of "room mem b"] b(4) assms(7) by simp_all
  have top: "sz_ind2sz_nat (SC_NSIZES - 1) = 7 * 2 ^ 60"
    by (simp add: sz_ind2sz_nat_def sc_macro_values unat_sz_index2size_compute max_class_sizes)
  have p: "(2::nat) ^ k \<le> 2 ^ 43" using assms(3) by (intro power_increasing) simp_all
  have s: "unat s \<le> 2 ^ 45" using assms(2) by (simp add: rounded_def)
  have le: "unat asize \<le> sz_ind2sz_nat (SC_NSIZES - 1)" unfolding top using assms(4) p s by simp
  have i: "sz_size2index_compute asize = sz_sz2ind_nat (unat asize)" by (rule sz_size2index_compute_nat)
  have "unat asize \<le> sz_ind2sz_nat (floor_class (room mem b))"
    using szc.galois [OF assms(5) le, of "floor_class (room mem b)"] assms(6) fl(1) i by (simp add: sc_macro_values)
  then have "unat asize \<le> room mem b" using fl by (simp add: sz_ind2sz_nat_eq sc_macro_values)
  then show ?thesis using gap_quantum [OF b(2) k] b(1) assms(4) by simp
qed

lemma begin_ok:
  assumes "base_inv en base (bw_mem w) A P (set (ba_blocks base))" "base_env_ok en" "valid_request sz a" "base_request sz a = (s, k)"
    and "maps_ok en s k (set (ba_blocks base) \<union> fst ` P) (ba_pind_last base) w"
  shows "\<exists>got base' w'. base_alloc_begin en sz (2 ^ a) base w = Some (got, base', w') \<and> ba_blocks base' = ba_blocks base
    \<and> (case got of
         Inl x \<Rightarrow> w' = w \<and> (\<exists>b\<in>set (ba_blocks base). x = block_extent b \<and> nat_round_up (2 ^ k) (mark (bw_mem w) b) + unat s \<le> hi b
                   \<and> base_inv en base' (bw_mem w) A P (set (ba_blocks base') - {b}))
       | Inr None \<Rightarrow> (bw_maps w = [] \<or> hd (bw_maps w) = 0) \<and> bw_mem w' = bw_mem w \<and> base_inv en base' (bw_mem w') A P (set (ba_blocks base'))
       | Inr (Some b) \<Rightarrow> b \<notin> fst ` P \<and> base_inv en base' (bw_mem w') A (insert (b, s, k) P) (set (ba_blocks base')))"
proof -
  note r = base_request_ok [OF assms(3,4)]
  let ?m = "bw_mem w" and ?bs = "ba_blocks base" and ?asize = "s + 2 ^ k - QUANTUM"
  have inv: "blocks_ok en ?m ?bs P" "avail_ok ?m (set ?bs) (ba_avail base)" using assms(1) by (simp_all add: base_inv_def)
  have t: "tabs_ok (be_tabs en)" using assms(2) by (simp add: base_env_ok_def)
  have p: "(2::nat) ^ k \<le> 2 ^ 43" "(2::nat) ^ 4 \<le> 2 ^ k" using r(1,6) by (auto simp only: rounded_def intro!: power_increasing)
  have u2: "unat ((2 :: size_t) ^ k) = 2 ^ k" using r(6) by (simp add: unat_two_power)
  have as: "unat ?asize + 16 = unat s + 2 ^ k"
  proof -
    have "unat (s + 2 ^ k) = unat s + 2 ^ k" using r(7) p(1) u2 by (subst unat_add_eq) simp_all
    then show ?thesis using p(2) by (subst unat_diff_eq) (simp_all add: quantum_pow)
  qed
  then have as0: "0 < unat ?asize" using r(8) p(2) by simp
  let ?i = "sz_size2index_compute ?asize"
  have si: "sz_size2index (be_tabs en) ?asize = Some ?i" by (rule sz_size2index_ok [OF t])
  have sub: "set [?i..<SC_NSIZES] \<subseteq> {..<232}" by (auto simp: sc_macro_values)
  have inj: "inj_on block_extent (set ?bs)" using blocks_okD(3) [OF inv(1)] by (auto simp: inj_on_def)
  from find_ok [OF inv(2) finite_set inj sub] obtain x avail where
    f: "find_avail ?m [?i..<SC_NSIZES] (ba_avail base) = Some (x, avail)"
      "case x of None \<Rightarrow> avail = ba_avail base
       | Some x \<Rightarrow> \<exists>b\<in>set ?bs. x = block_extent b \<and> 0 < room ?m b \<and> floor_class (room ?m b) \<in> set [?i..<SC_NSIZES]
           \<and> avail_ok ?m (set ?bs - {b}) avail" by blast
  note unf = base_alloc_begin_def r(2,3) Let_def si f(1)
  show ?thesis
  proof (cases x)
    case (Some e)
    with f(2) obtain b where b: "b \<in> set ?bs" "e = block_extent b" "0 < room ?m b" "?i \<le> floor_class (room ?m b)"
      "avail_ok ?m (set ?bs - {b}) avail" by auto
    have "block_ok en ?m b" using blocks_okD(1) [OF inv(1)] b(1) by blast
    then have "nat_round_up (2 ^ k) (mark ?m b) + unat s \<le> hi b" using r(1,6) as as0 b(4,3) by (rule found_fits)
    moreover have "base_inv en (base\<lparr>ba_avail := avail\<rparr>) ?m A P (set ?bs - {b})"
      using assms(1) b(5) by (auto simp: base_inv_def stats_right_def thp_on_def)
    moreover have "base_alloc_begin en sz (2 ^ a) base w = Some (Inl e, base\<lparr>ba_avail := avail\<rparr>, w)"
      unfolding unf Some by (simp add: r(3) si f(1) Some)
    ultimately show ?thesis using b(1,2)
      by (intro exI [of _ "Inl e"] exI [of _ "base\<lparr>ba_avail := avail\<rparr>"] exI [of _ w]) auto
  next
    case None
    then have av: "base\<lparr>ba_avail := avail\<rparr> = base" using f(2) by simp
    from map_ok [OF assms(1,2) r(1) assms(5)] obtain got base' w' where
      m: "base_extent_map en s (2 ^ k) base w = Some (got, base', w')" "ba_blocks base' = ?bs"
        "case got of None \<Rightarrow> (bw_maps w = [] \<or> hd (bw_maps w) = 0) \<and> bw_mem w' = ?m \<and> base_inv en base' (bw_mem w') A P (set (ba_blocks base'))
         | Some b \<Rightarrow> b \<notin> fst ` P \<and> base_inv en base' (bw_mem w') A (insert (b, s, k) P) (set (ba_blocks base'))" by blast
    have "base_alloc_begin en sz (2 ^ a) base w = Some (Inr got, base', w')"
      unfolding unf by (simp add: r(3) si f(1) None av m(1))
    with m(2,3) show ?thesis by (intro exI [of _ "Inr got"] exI [of _ base'] exI [of _ w']) (cases got; auto)
  qed
qed

lemma end_found:
  assumes "base_inv en base (bw_mem w) A P (set (ba_blocks base) - {b})" "base_env_ok en" "valid_request sz a" "base_request sz a = (s, k)"
    and "b \<in> set (ba_blocks base)" "nat_round_up (2 ^ k) (mark (bw_mem w) b) + unat s \<le> hi b"
  shows "\<exists>p sn base' w'. base_alloc_end en sz (2 ^ a) (Inl (block_extent b)) base w = Some (Some (p, sn), base', w')
    \<and> 2 ^ k dvd unat p \<and> base_inv en base' (bw_mem w') ((unat p, unat s) # A) P (set (ba_blocks base')) \<and> bw_maps w' = bw_maps w"
proof -
  note r = base_request_ok [OF assms(3,4)]
  from bump_full [OF assms(1,2,5) r(1) assms(6)] obtain p base' w' where
    "base_extent_bump_alloc en (block_extent b) s (2 ^ k) base w = Some (p, base', w')" "2 ^ k dvd unat p"
    "base_inv en base' (bw_mem w') ((unat p, unat s) # A) P (set (ba_blocks base'))" "bw_maps w' = bw_maps w" by blast
  then show ?thesis by (simp add: base_alloc_end_def r(2,3) Let_def)
qed

lemma end_linked:
  assumes "base_inv en base (bw_mem w) A P (set (ba_blocks base))" "base_env_ok en" "valid_request sz a" "base_request sz a = (s, k)" "(b, s, k) \<in> P"
  shows "\<exists>p sn base' w'. base_alloc_end en sz (2 ^ a) (Inr (Some b)) base w = Some (Some (p, sn), base', w')
    \<and> 2 ^ k dvd unat p \<and> base_inv en base' (bw_mem w') ((unat p, unat s) # A) (P - {(b, s, k)}) (set (ba_blocks base')) \<and> bw_maps w' = bw_maps w"
proof -
  note r = base_request_ok [OF assms(3,4)]
  from link_ok [OF assms(1,2,5)] obtain base1 where
    l: "base_extent_link en (Some b) base = Some (Some (block_extent b), base1)" "ba_blocks base1 = b # ba_blocks base"
      "base_inv en base1 (bw_mem w) A (P - {(b, s, k)}) (set (ba_blocks base1) - {b})" by blast
  have "nat_round_up (2 ^ k) (mark (bw_mem w) b) + unat s \<le> hi b" using assms(1,5) by (auto simp: base_inv_def blocks_ok_def)
  from bump_full [OF l(3) assms(2) _ r(1) this] obtain p base' w' where
    "base_extent_bump_alloc en (block_extent b) s (2 ^ k) base1 w = Some (p, base', w')" "2 ^ k dvd unat p"
    "base_inv en base' (bw_mem w') ((unat p, unat s) # A) (P - {(b, s, k)}) (set (ba_blocks base'))" "bw_maps w' = bw_maps w"
    using l(2) by auto
  then show ?thesis by (simp add: base_alloc_end_def r(2,3) Let_def l(1))
qed

end
