(* ===== verification/Base_Runs.thy ===== *)
theory Base_Runs
  imports Base_Inv
begin

text \<open>
  Runs of the metadata allocator: the steps of many threads on one base, from \<open>base_new\<close> on, with the
  mutex dropped while a block is mapped, and what holds in every state that they reach.
\<close>

section \<open>Runs\<close>

text \<open>A state is the base with the world, the regions given out and the blocks that have been mapped
  for a request and are not linked yet. The mutex is held during each step; between the two halves of
  an allocation that maps a block, other threads take their steps.\<close>

type_synonym base_conf = "base \<times> base_world \<times> (nat \<times> nat) list \<times> (base_block \<times> size_t \<times> nat) set"

inductive base_step :: "base_env \<Rightarrow> base_conf \<Rightarrow> base_conf \<Rightarrow> bool" for en where
  found: "valid_request sz a \<Longrightarrow> maps_ok en (fst (base_request sz a)) (snd (base_request sz a)) (set (ba_blocks base) \<union> fst ` P) (ba_pind_last base) w \<Longrightarrow>
    base_alloc_begin en sz (2 ^ a) base w = Some (Inl e, base1, w1) \<Longrightarrow>
    base_alloc_end en sz (2 ^ a) (Inl e) base1 w1 = Some (Some (p, sn), base', w') \<Longrightarrow>
    base_step en (base, w, A, P) (base', w', (unat p, unat (fst (base_request sz a))) # A, P)"
| unmapped: "valid_request sz a \<Longrightarrow> maps_ok en (fst (base_request sz a)) (snd (base_request sz a)) (set (ba_blocks base) \<union> fst ` P) (ba_pind_last base) w \<Longrightarrow>
    base_alloc_begin en sz (2 ^ a) base w = Some (Inr None, base', w') \<Longrightarrow>
    base_step en (base, w, A, P) (base', w', A, P)"
| mapped: "valid_request sz a \<Longrightarrow> maps_ok en (fst (base_request sz a)) (snd (base_request sz a)) (set (ba_blocks base) \<union> fst ` P) (ba_pind_last base) w \<Longrightarrow>
    base_alloc_begin en sz (2 ^ a) base w = Some (Inr (Some b), base', w') \<Longrightarrow>
    base_step en (base, w, A, P) (base', w', A, insert (b, base_request sz a) P)"
| linked: "valid_request sz a \<Longrightarrow> (b, base_request sz a) \<in> P \<Longrightarrow>
    base_alloc_end en sz (2 ^ a) (Inr (Some b)) base w = Some (Some (p, sn), base', w') \<Longrightarrow>
    base_step en (base, w, A, P) (base', w', (unat p, unat (fst (base_request sz a))) # A, P - {(b, base_request sz a)})"
| user: "(p, n) \<in> set A \<Longrightarrow> p \<le> unat x \<Longrightarrow> unat x < p + n \<Longrightarrow>
    base_step en (base, w, A, P) (base, w\<lparr>bw_mem := (bw_mem w)(x := e)\<rparr>, A, P)"
| hooks: "base_extent_hooks_set base h = (old, base') \<Longrightarrow> base_step en (base, w, A, P) (base', w, A, P)"
| system: "base_step en (base, w, A, P) (base, w\<lparr>bw_maps := maps\<rparr>, A, P)"

inductive base_reach :: "base_env \<Rightarrow> base_conf \<Rightarrow> bool" for en where
  new: "base_env_ok en \<Longrightarrow> maps_ok en (be_base en) 4 {} 0 w \<Longrightarrow>
    base_new en fails ind h False w = Some (Some (addr, base), w') \<Longrightarrow>
    base_reach en (base, w', [(unat addr, unat (ALIGNMENT_CEILING (be_base en) CACHELINE))], {})"
| step: "base_reach en c \<Longrightarrow> base_step en c c' \<Longrightarrow> base_reach en c'"

definition conf_inv :: "base_env \<Rightarrow> base_conf \<Rightarrow> bool" where
  "conf_inv en c \<longleftrightarrow> (case c of (base, w, A, P) \<Rightarrow> base_inv en base (bw_mem w) A P (set (ba_blocks base)))"

lemma post_keeps:
  assumes "base_extent_bump_alloc_post en x gap p s mem base = Some base'"
  shows "ba_ind base' = ba_ind base" "ba_hooks base' = ba_hooks base"
  using assms by (auto simp: base_extent_bump_alloc_post_def Let_def split: bind_splits if_splits)

text \<open>A new base has one block, and itself in it.\<close>

lemma base_new_ok:
  assumes "base_env_ok en" "maps_ok en (be_base en) 4 {} 0 w"
  shows "\<exists>r w'. base_new en fails ind h False w = Some (r, w') \<and> (case r of
      None \<Rightarrow> bw_maps w = [] \<or> hd (bw_maps w) = 0
    | Some (addr, base) \<Rightarrow> 64 dvd unat addr \<and> length (ba_blocks base) = 1 \<and> ba_ind base = ind \<and> base_extent_hooks_get base = h
        \<and> base_inv en base (bw_mem w') [(unat addr, unat (ALIGNMENT_CEILING (be_base en) CACHELINE))] {} (set (ba_blocks base)))"
proof -
  let ?h = "unat (be_header en)" and ?s = "ALIGNMENT_CEILING (be_base en) CACHELINE"
  have env: "0 < ?h" "?h \<le> 4096" "unat (be_base en) \<le> 2 ^ 20" using assms(1) by (simp_all add: base_env_ok_def)
  have q: "QUANTUM = 2 ^ 4" by (rule quantum_pow)
  have c: "CACHELINE = 2 ^ 6" by (simp add: CACHELINE_def)
  from block_size_ok [OF assms(1), of "be_base en" 4 0] env(3) obtain n where
    n: "base_block_size en 0 (be_base en) (2 ^ 4) = Some n" "2 ^ 21 dvd unat n" "0 < unat n" by auto
  note hc = huge_fix [OF n(2)]
  have nq: "base_block_size en 0 (be_base en) QUANTUM = Some n" unfolding q by (rule n(1))
  show ?thesis
  proof (cases "bw_maps w = [] \<or> hd (bw_maps w) = 0")
    case True
    then obtain w' where "base_map n w = Some (0, w')" using hc by (cases "bw_maps w") (auto simp: base_map_def)
    then have "base_block_alloc en None 0 0 (be_base en) QUANTUM w = Some ((None, 0, 0), None, w')"
      by (simp add: base_block_alloc_def nq)
    then have "base_new en fails ind h False w = Some (None, w')" unfolding base_new_def by simp
    with True show ?thesis by simp
  next
    case False
    then obtain addr maps where m: "bw_maps w = addr # maps" "addr \<noteq> 0" by (cases "bw_maps w") auto
    let ?b = "\<lparr>bb_addr = addr, bb_size = n\<rparr>"
    have reg: "region_ok ?b" using assms(2) m n(1) by (simp add: maps_ok_def map_fresh_def)
    have "2 ^ 21 dvd unat addr" using reg by (simp add: region_ok_def lo_def)
    then have "addr AND HUGEPAGE_MASK = 0" "n AND HUGEPAGE_MASK = 0" using huge_zero n(2) by blast+
    then have thp: "block_thp en addr n (bw_mem w) None = Some None" by (simp add: block_thp_def)
    have us: "unat ?s = nat_round_up 64 (unat (be_base en))"
      unfolding c using env(3) by (subst unat_ALIGNMENT_CEILING) simp_all
    have r: "rounded ?s 6" using us nat_round_up_less [of 64 "unat (be_base en)"] env(3) dvd_nat_round_up [of 64]
      by (simp add: rounded_def)
    have z: "rounded 0 4" by (simp add: rounded_def)
    let ?mem = "(bw_mem w)(block_extent ?b := extent_binit (bw_mem w (block_extent ?b)) (addr + be_header en) (n - be_header en) 0)"
    have "2 ^ 21 \<le> unat n" using n(2,3) by (rule dvd_imp_le)
    then have "nat_round_up (2 ^ 4) ?h + nat_round_up (2 ^ 4) (unat (0 :: size_t)) \<le> unat (bb_size ?b)"
      using nat_round_up_less [of "2 ^ 4" ?h] env(2) by (simp add: nat_round_up_def)
    note nb = new_block_ok(2,3) [OF assms(1) reg z this, where mem = "bw_mem w" and e = "bw_mem w (block_extent ?b)" and sn = 0,
        simplified base_block.simps] and le = new_block_ok(1) [OF assms(1) reg z this, simplified base_block.simps]
    have alloc: "base_block_alloc en None 0 0 (be_base en) QUANTUM w
        = Some ((Some ?b, sz_psz2ind n, 1), None, w\<lparr>bw_maps := maps, bw_mem := ?mem\<rparr>)"
      using hc m thp le by (simp add: base_block_alloc_def nq base_map_def base_extent_init_def Let_def)
    let ?w = "w\<lparr>bw_maps := maps, bw_mem := ?mem\<rparr>"
    define base where "base = \<lparr>ba_ind = ind, ba_hooks = h, ba_auto_thp_switched = False, ba_pind_last = sz_psz2ind n,
             ba_extent_sn_next = 1, ba_blocks = [?b], ba_avail = replicate SC_NSIZES ph_new,
             ba_allocated = be_header en, ba_resident = PAGE_CEILING (be_header en), ba_mapped = n,
             ba_n_thp = (if be_thp en = metadata_thp_always \<and> metadata_thp_madvise en
               then drop_bit LG_HUGEPAGE (HUGEPAGE_CEILING (be_header en)) else 0)\<rparr>"
    have used: "used ?mem ?b = ?h" using nb(2) by (simp add: used_def)
    have blk: "blocks_ok en ?mem [?b] {}" using nb(1) by (simp add: blocks_ok_def)
    have st: "stats_right en ?mem base []"
    proof -
      have "unat (PAGE_CEILING (be_header en)) = nat_round_up 4096 ?h" using env by (intro unat_PAGE_CEILING) simp
      moreover have "unat (HUGEPAGE_CEILING (be_header en)) = nat_round_up (2 ^ 21) ?h" using env by (intro unat_huge) simp
      moreover have "thp_on en base \<longleftrightarrow> be_thp en = metadata_thp_always \<and> metadata_thp_madvise en" by (auto simp: thp_on_def base_def)
      ultimately show ?thesis
        by (simp add: stats_right_def used) (simp add: base_def used hi_def lo_def LG_HUGEPAGE_def unat_drop_bit_div)
    qed
    have bs: "ba_blocks base = [?b]" by (simp add: base_def)
    have "mset_set (waiting ?mem {} i) = {#}" for i by (simp add: waiting_def)
    then have av: "avail_ok ?mem {} (ba_avail base)"
      by (simp add: avail_ok_def base_def sc_macro_values ph_new_def ph_inv_def)
    have inv: "base_inv en base (bw_mem ?w) [] {} (set (ba_blocks base) - {?b})"
      using blk st av psz2ind_199 [OF n(3)] by (simp add: base_inv_def bs regions_ok_def) (simp add: base_def)
    have fit: "nat_round_up (2 ^ 6) (mark (bw_mem ?w) ?b) + unat ?s \<le> hi ?b"
      using nat_round_up_less [of 64 "mark ?mem ?b"] nat_round_up_less [of 64 "unat (be_base en)"] nb(2) us env \<open>2 ^ 21 \<le> unat n\<close>
      by (simp add: hi_def lo_def)
    from bump_full [OF inv assms(1) _ r fit] obtain p base' w' where
      bu: "base_extent_bump_alloc en (block_extent ?b) ?s (2 ^ 6) base ?w = Some (p, base', w')" "2 ^ 6 dvd unat p"
        "base_inv en base' (bw_mem w') [(unat p, unat ?s)] {} (set (ba_blocks base'))" "ba_blocks base' = [?b]"
      using bs by auto
    from bu(1) obtain gap mem' where h: "base_extent_bump_alloc_helper (block_extent ?b) ?s (2 ^ 6) ?mem = Some ((p, gap), mem')"
      "base_extent_bump_alloc_post en (block_extent ?b) gap p ?s mem' base = Some base'" "w' = ?w\<lparr>bw_mem := mem'\<rparr>"
      by (auto simp: base_extent_bump_alloc_def split: bind_splits)
    note so = stats_order(1,2,4) [where P = "{}", OF _ st, unfolded bs, OF blk]
    have "base_new en fails ind h False w = Some (Some (p, base'), w')"
      unfolding base_new_def alloc using so h by (simp add: Let_def c base_def)
    moreover have "ba_ind base' = ind" "base_extent_hooks_get base' = h"
      using post_keeps [OF h(2)] by (simp_all add: base_def base_extent_hooks_get_def)
    ultimately show ?thesis using bu(2-4) by (intro exI [of _ "Some (p, base')"] exI [of _ w']) simp
  qed
qed

text \<open>No extent of a block is in memory that has been given out.\<close>

lemma user_ok:
  assumes "base_inv en base mem A P (set (ba_blocks base))" "base_env_ok en" "(p, n) \<in> set A" "p \<le> unat x" "unat x < p + n"
  shows "base_inv en base (mem(x := e)) A P (set (ba_blocks base))"
proof -
  let ?bs = "ba_blocks base" and ?mem' = "mem(x := e)"
  have inv: "blocks_ok en mem ?bs P" "regions_ok en mem ?bs A" "stats_right en mem base A" "avail_ok mem (set ?bs) (ba_avail base)"
    "ba_pind_last base \<le> 199" using assms(1) by (simp_all add: base_inv_def)
  have h: "16 < unat (be_header en)" "unat (be_header en) \<le> 4096" using assms(2) by (simp_all add: base_env_ok_def)
  from inv(2) assms(3) obtain b where b: "b \<in> set ?bs" "lo b + unat (be_header en) \<le> p" "p + n \<le> mark mem b" by (auto simp: regions_ok_def)
  have bo: "mark mem b \<le> hi b" using blocks_okD(1) [OF inv(1) disjI1 [OF b(1)]] by (simp add: block_ok_def)
  have ne: "block_extent b' \<noteq> x" if "b' \<in> set ?bs \<or> b' \<in> fst ` P" for b'
  proof
    assume x: "block_extent b' = x"
    have o: "block_ok en mem b'" by (rule blocks_okD(1) [OF inv(1) that])
    then have r: "lo b' + unat (be_header en) \<le> hi b'" "hi b' \<le> 2 ^ 47" by (simp_all add: block_ok_def region_ok_def)
    have "unat x = lo b' + 16" unfolding x [symmetric] block_extent_def lo_def
      by (subst unat_add_eq) (use r h in \<open>simp_all add: lo_def\<close>)
    moreover have "clear_of b' b \<or> b' = b" using blocks_okD(2) [OF inv(1) that disjI1 [OF b(1)]] by blast
    ultimately show False using b(2,3) bo r h assms(4,5) unfolding clear_of_def by auto
  qed
  have same: "?mem' (block_extent b') = mem (block_extent b')" if "b' \<in> set ?bs \<or> b' \<in> fst ` P" for b' using ne [OF that] by simp
  then have mk: "mark ?mem' b' = mark mem b'" "room ?mem' b' = room mem b'" if "b' \<in> set ?bs \<or> b' \<in> fst ` P" for b'
    using that by (simp_all add: mark_def room_def)
  have "blocks_ok en ?mem' ?bs P"
  proof -
    have "block_ok en ?mem' b'" if "b' \<in> set ?bs \<union> fst ` P" for b'
      using blocks_okD(1) [OF inv(1)] mk [of b'] that by (simp add: block_ok_def)
    moreover have "rounded s k \<and> mark ?mem' b' = lo b' + unat (be_header en) \<and> nat_round_up (2 ^ k) (mark ?mem' b') + unat s \<le> hi b'"
      if "(b', s, k) \<in> P" for b' s k
    proof -
      have "b' \<in> fst ` P" using that by force
      then show ?thesis using inv(1) that mk(1) [of b'] by (auto simp: blocks_ok_def)
    qed
    ultimately show ?thesis using inv(1) unfolding blocks_ok_def by blast
  qed
  moreover have "regions_ok en ?mem' ?bs A" using inv(2) mk(1) by (fastforce simp: regions_ok_def)
  moreover have "stats_right en ?mem' base A" by (rule stats_cong [OF inv(3)]) (simp_all add: used_def mk)
  moreover have "avail_ok ?mem' (set ?bs) (ba_avail base)" by (rule avail_other [OF inv(4)]) (use same in auto)
  ultimately show ?thesis using inv(5) by (simp add: base_inv_def)
qed

lemma conf_inv_eq [simp]: "conf_inv en (base, w, A, P) = base_inv en base (bw_mem w) A P (set (ba_blocks base))"
  by (simp add: conf_inv_def)

lemma base_step_inv:
  assumes "base_step en c c'" "conf_inv en c" "base_env_ok en"
  shows "conf_inv en c'"
  using assms(1,2)
proof (cases rule: base_step.cases)
  case (found sz a base P w e base1 w1 p sn base' w' A)
  obtain s k where r: "base_request sz a = (s, k)" by (cases "base_request sz a")
  have inv: "base_inv en base (bw_mem w) A P (set (ba_blocks base))" using found(1) assms(2) by simp
  have "maps_ok en s k (set (ba_blocks base) \<union> fst ` P) (ba_pind_last base) w" using found(4) r by simp
  from begin_ok [OF inv assms(3) found(3) r this] found(5) obtain b where
    b: "ba_blocks base1 = ba_blocks base" "w1 = w" "b \<in> set (ba_blocks base)" "e = block_extent b"
      "nat_round_up (2 ^ k) (mark (bw_mem w) b) + unat s \<le> hi b" "base_inv en base1 (bw_mem w) A P (set (ba_blocks base1) - {b})" by auto
  from end_found [OF b(6) assms(3) found(3) r _ b(5)] b found(2,6) r show ?thesis by auto
next
  case (unmapped sz a base P w base' w' A)
  obtain s k where r: "base_request sz a = (s, k)" by (cases "base_request sz a")
  have inv: "base_inv en base (bw_mem w) A P (set (ba_blocks base))" using unmapped(1) assms(2) by simp
  have "maps_ok en s k (set (ba_blocks base) \<union> fst ` P) (ba_pind_last base) w" using unmapped(4) r by simp
  from begin_ok [OF inv assms(3) unmapped(3) r this] unmapped(2,5) show ?thesis by auto
next
  case (mapped sz a base P w b base' w' A)
  obtain s k where r: "base_request sz a = (s, k)" by (cases "base_request sz a")
  have inv: "base_inv en base (bw_mem w) A P (set (ba_blocks base))" using mapped(1) assms(2) by simp
  have "maps_ok en s k (set (ba_blocks base) \<union> fst ` P) (ba_pind_last base) w" using mapped(4) r by simp
  from begin_ok [OF inv assms(3) mapped(3) r this] mapped(2,5) r show ?thesis by auto
next
  case (linked sz a b P base w p sn base' w' A)
  obtain s k where r: "base_request sz a = (s, k)" by (cases "base_request sz a")
  have inv: "base_inv en base (bw_mem w) A P (set (ba_blocks base))" using linked(1) assms(2) by simp
  have "(b, s, k) \<in> P" using linked(4) r by simp
  from end_linked [OF inv assms(3) linked(3) r this] linked(2,5) r show ?thesis by auto
next
  case (user p n A x base w P e)
  then show ?thesis using user_ok [of en base "bw_mem w" A P p n x e] assms(2,3) by simp
next
  case (hooks base h old base' w A P)
  then show ?thesis using assms(2)
    by (auto simp: base_extent_hooks_set_def base_inv_def stats_right_def thp_on_def)
next
  case (system base w A P maps)
  then show ?thesis using assms(2) by simp
qed

lemma base_reach_inv: "base_reach en c \<Longrightarrow> base_env_ok en \<and> conf_inv en c"
proof (induction rule: base_reach.induct)
  case (new w fails ind h addr base w')
  from base_new_ok [OF new(1,2), of fails ind h] new(3) show ?case using new(1) by auto
next
  case (step c c')
  then show ?case using base_step_inv by blast
qed

section \<open>Allocations return\<close>

lemma base_steps_grow:
  assumes "(base_step en)\<^sup>*\<^sup>* (base, w, A, P) (base', w', A', P')"
  shows "set A \<subseteq> set A'"
  using assms
proof (induction "(base', w', A', P')" arbitrary: base' w' A' P' rule: rtranclp_induct)
  case (step c)
  obtain b1 w1 A1 P1 where c: "c = (b1, w1, A1, P1)" by (cases c)
  have "set A \<subseteq> set A1" by (rule step.hyps(3) [OF c])
  moreover have "set A1 \<subseteq> set A'" using step.hyps(2) unfolding c by (cases rule: base_step.cases) auto
  ultimately show ?case by blast
qed simp

lemma base_steps_reach: "(base_step en)\<^sup>*\<^sup>* c c' \<Longrightarrow> base_reach en c \<Longrightarrow> base_reach en c'"
  by (induction rule: rtranclp_induct) (auto intro: base_reach.step)

text \<open>What other threads may do while the mutex is dropped: any steps that do not take over a block that
  this thread has mapped.\<close>

definition others_ok ::
  "base_env \<Rightarrow> (base \<times> base_world \<Rightarrow> base \<times> base_world) \<Rightarrow> (nat \<times> nat) list \<Rightarrow> (base_block \<times> size_t \<times> nat) set \<Rightarrow> bool" where
  "others_ok en others A P \<longleftrightarrow> (\<forall>base w P1 base' w'. base_reach en (base, w, A, P1) \<longrightarrow> P \<subseteq> P1 \<longrightarrow> others (base, w) = (base', w') \<longrightarrow>
     (\<exists>A' P'. (base_step en)\<^sup>*\<^sup>* (base, w, A, P1) (base', w', A', P') \<and> P1 - P \<subseteq> P'))"

lemma alloc_impl_ok:
  assumes "base_reach en (base, w, A, P)" "valid_request sz a" "base_request sz a = (s, k)"
    and "maps_ok en s k (set (ba_blocks base) \<union> fst ` P) (ba_pind_last base) w" "others_ok en others A P"
  shows "\<exists>r base' w' A' P'. base_alloc_impl en others sz (2 ^ a) base w = Some (r, base', w') \<and> base_reach en (base', w', A', P') \<and> set A \<subseteq> set A'
    \<and> (case r of None \<Rightarrow> bw_maps w = [] \<or> hd (bw_maps w) = 0
       | Some (p, sn) \<Rightarrow> 2 ^ a dvd unat p \<and> unat sz \<le> unat s \<and> (\<exists>B. A' = (unat p, unat s) # B \<and> set A \<subseteq> set B))"
proof -
  have env: "base_env_ok en" and inv: "base_inv en base (bw_mem w) A P (set (ba_blocks base))"
    using base_reach_inv [OF assms(1)] by simp_all
  note r = base_request_ok [OF assms(2,3)]
  have pw: "2 ^ a dvd unat p" if "2 ^ k dvd unat p" for p :: "64 word" by (rule dvd_trans [OF pow2_nat_dvd [OF r(5)] that])
  have mp: "maps_ok en (fst (base_request sz a)) (snd (base_request sz a)) (set (ba_blocks base) \<union> fst ` P) (ba_pind_last base) w"
    using assms(3,4) by simp
  from begin_ok [OF inv env assms(2-4)] obtain got base1 w1 where
    b: "base_alloc_begin en sz (2 ^ a) base w = Some (got, base1, w1)" "ba_blocks base1 = ba_blocks base"
      "case got of
         Inl x \<Rightarrow> w1 = w \<and> (\<exists>b\<in>set (ba_blocks base). x = block_extent b \<and> nat_round_up (2 ^ k) (mark (bw_mem w) b) + unat s \<le> hi b
                   \<and> base_inv en base1 (bw_mem w) A P (set (ba_blocks base1) - {b}))
       | Inr None \<Rightarrow> (bw_maps w = [] \<or> hd (bw_maps w) = 0) \<and> bw_mem w1 = bw_mem w \<and> base_inv en base1 (bw_mem w1) A P (set (ba_blocks base1))
       | Inr (Some b) \<Rightarrow> b \<notin> fst ` P \<and> base_inv en base1 (bw_mem w1) A (insert (b, s, k) P) (set (ba_blocks base1))" by blast
  show ?thesis
  proof (cases got)
    case (Inl x)
    with b obtain blk where blk: "w1 = w" "blk \<in> set (ba_blocks base1)" "x = block_extent blk"
      "nat_round_up (2 ^ k) (mark (bw_mem w) blk) + unat s \<le> hi blk" "base_inv en base1 (bw_mem w) A P (set (ba_blocks base1) - {blk})" by auto
    from end_found [OF blk(5) env assms(2,3) blk(2,4)] obtain p sn base' w' where
      e: "base_alloc_end en sz (2 ^ a) (Inl x) base1 w = Some (Some (p, sn), base', w')" "2 ^ k dvd unat p" unfolding blk(3) by blast
    have "base_step en (base, w, A, P) (base', w', (unat p, unat (fst (base_request sz a))) # A, P)"
      using b(1) e(1) blk(1) by (intro base_step.found [OF assms(2) mp, of x]) (simp_all add: Inl)
    then have "base_reach en (base', w', (unat p, unat s) # A, P)" using base_reach.step [OF assms(1)] assms(3) by simp
    moreover have "base_alloc_impl en others sz (2 ^ a) base w = Some (Some (p, sn), base', w')"
      by (simp add: base_alloc_impl_def b(1) Inl e(1) blk(1))
    ultimately show ?thesis using pw [OF e(2)] r(4)
      by (intro exI [of _ "Some (p, sn)"] exI [of _ base'] exI [of _ w'] exI [of _ "(unat p, unat s) # A"] exI [of _ P]) auto
  next
    case (Inr blk)
    obtain base2 w2 where o: "others (base1, w1) = (base2, w2)" by (cases "others (base1, w1)")
    have oth: "\<exists>A' P'. (base_step en)\<^sup>*\<^sup>* (base1, w1, A, P1) (base2, w2, A', P') \<and> P1 - P \<subseteq> P'"
      if "base_reach en (base1, w1, A, P1)" "P \<subseteq> P1" for P1
      using assms(5) that o unfolding others_ok_def by blast
    have run: "base_alloc_impl en others sz (2 ^ a) base w = base_alloc_end en sz (2 ^ a) (Inr blk) base2 w2"
      by (simp add: base_alloc_impl_def b(1) Inr o)
    show ?thesis
    proof (cases blk)
      case None
      have "base_reach en (base1, w1, A, P)"
        using b(1) by (intro base_reach.step [OF assms(1)] base_step.unmapped [OF assms(2) mp]) (simp add: Inr None)
      from oth [OF this] this obtain A' P' where st: "(base_step en)\<^sup>*\<^sup>* (base1, w1, A, P) (base2, w2, A', P')" "base_reach en (base2, w2, A', P')"
        using base_steps_reach by blast
      have "base_alloc_impl en others sz (2 ^ a) base w = Some (None, base2, w2)"
        unfolding run by (simp add: None base_alloc_end_def base_extent_link_def Let_def)
      then show ?thesis using st(2) base_steps_grow [OF st(1)] b(3) None Inr
        by (intro exI [of _ None] exI [of _ base2] exI [of _ w2] exI [of _ A'] exI [of _ P']) simp
    next
      case (Some blk)
      let ?P1 = "insert (blk, s, k) P"
      have i1: "base_inv en base1 (bw_mem w1) A ?P1 (set (ba_blocks base1))" using b(3) Inr Some by simp
      have re: "base_reach en (base1, w1, A, ?P1)"
        using base_step.mapped [OF assms(2) mp, of blk base1 w1 A] b(1) Inr Some assms(3) base_reach.step [OF assms(1)] by auto
      have new: "(blk, s, k) \<notin> P" using b(3) Inr Some by force
      from oth [OF re] obtain A' P' where st: "(base_step en)\<^sup>*\<^sup>* (base1, w1, A, ?P1) (base2, w2, A', P')" "(blk, s, k) \<in> P'"
        using new by blast
      have re2: "base_reach en (base2, w2, A', P')" by (rule base_steps_reach [OF st(1) re])
      then have "base_inv en base2 (bw_mem w2) A' P' (set (ba_blocks base2))" using base_reach_inv [OF re2] by simp
      from end_linked [OF this env assms(2,3) st(2)] obtain p sn base' w' where
        e: "base_alloc_end en sz (2 ^ a) (Inr (Some blk)) base2 w2 = Some (Some (p, sn), base', w')" "2 ^ k dvd unat p" by blast
      have "base_step en (base2, w2, A', P') (base', w', (unat p, unat s) # A', P' - {(blk, s, k)})"
        using base_step.linked [OF assms(2), of blk P' en base2 w2 p sn base' w' A'] e(1) st(2) assms(3) by simp
      then have "base_reach en (base', w', (unat p, unat s) # A', P' - {(blk, s, k)})" by (rule base_reach.step [OF re2])
      moreover have "base_alloc_impl en others sz (2 ^ a) base w = Some (Some (p, sn), base', w')" unfolding run by (simp add: Some e(1))
      ultimately show ?thesis using pw [OF e(2)] r(4) base_steps_grow [OF st(1)]
        by (intro exI [of _ "Some (p, sn)"] exI [of _ base'] exI [of _ w'] exI [of _ "(unat p, unat s) # A'"] exI [of _ "P' - {(blk, s, k)}"]) auto
    qed
  qed
qed

text \<open>C11: In every state that the allocator reaches, \<open>base_alloc\<close> returns, whatever other threads do while a
  block is being mapped. It returns null only when the system has no memory, and otherwise a pointer at
  the alignment asked for to at least as many bytes as asked for, in a state that is reached again and
  where the new region has been added to the earlier ones.\<close>

theorem base_alloc_returns:
  assumes "base_reach en (base, w, A, P)" "valid_request sz a" "base_request sz a = (s, k)"
    and "maps_ok en s k (set (ba_blocks base) \<union> fst ` P) (ba_pind_last base) w" "others_ok en others A P"
  shows "\<exists>r base' w' A' P'. base_alloc en others sz (2 ^ a) base w = Some (r, base', w') \<and> base_reach en (base', w', A', P') \<and> set A \<subseteq> set A'
    \<and> (case r of None \<Rightarrow> bw_maps w = [] \<or> hd (bw_maps w) = 0
       | Some p \<Rightarrow> 2 ^ a dvd unat p \<and> unat sz \<le> unat s \<and> (\<exists>B. A' = (unat p, unat s) # B \<and> set A \<subseteq> set B))"
proof -
  from alloc_impl_ok [OF assms] obtain r base' w' A' P' where
    r: "base_alloc_impl en others sz (2 ^ a) base w = Some (r, base', w')" "base_reach en (base', w', A', P')" "set A \<subseteq> set A'"
      "case r of None \<Rightarrow> bw_maps w = [] \<or> hd (bw_maps w) = 0
       | Some (p, sn) \<Rightarrow> 2 ^ a dvd unat p \<and> unat sz \<le> unat s \<and> (\<exists>B. A' = (unat p, unat s) # B \<and> set A \<subseteq> set B)" by blast
  have "base_alloc en others sz (2 ^ a) base w = Some (map_option fst r, base', w')" by (simp add: base_alloc_def r(1))
  with r(2-4) show ?thesis
    by (intro exI [of _ "map_option fst r"] exI [of _ base'] exI [of _ w'] exI [of _ A'] exI [of _ P']) (cases r; auto)
qed

text \<open>The same for an extent, whose serial number is then written into the new memory.\<close>

lemma base_alloc_extent_returns:
  assumes "base_reach en (base, w, A, P)" "valid_request (be_extent en) 6" "base_request (be_extent en) 6 = (s, k)"
    and "maps_ok en s k (set (ba_blocks base) \<union> fst ` P) (ba_pind_last base) w" "others_ok en others A P"
  shows "\<exists>r base' w' A' P'. base_alloc_extent en others base w = Some (r, base', w') \<and> base_reach en (base', w', A', P') \<and> set A \<subseteq> set A'
    \<and> (case r of None \<Rightarrow> bw_maps w = [] \<or> hd (bw_maps w) = 0
       | Some p \<Rightarrow> 2 ^ 6 dvd unat p \<and> (\<exists>B. A' = (unat p, unat s) # B \<and> set A \<subseteq> set B))"
proof -
  have c: "CACHELINE = 2 ^ 6" by (simp add: CACHELINE_def)
  from alloc_impl_ok [OF assms] obtain r base' w' A' P' where
    r: "base_alloc_impl en others (be_extent en) CACHELINE base w = Some (r, base', w')" "base_reach en (base', w', A', P')" "set A \<subseteq> set A'"
      "case r of None \<Rightarrow> bw_maps w = [] \<or> hd (bw_maps w) = 0
       | Some (p, sn) \<Rightarrow> 2 ^ 6 dvd unat p \<and> unat (be_extent en) \<le> unat s \<and> (\<exists>B. A' = (unat p, unat s) # B \<and> set A \<subseteq> set B)"
    unfolding c by blast
  show ?thesis
  proof (cases r)
    case None
    with r show ?thesis by (simp add: base_alloc_extent_def) blast
  next
    case (Some x)
    obtain p sn where x: "x = (p, sn)" by (cases x)
    let ?w = "w'\<lparr>bw_mem := (bw_mem w')(p := extent_esn_set (bw_mem w' p) sn)\<rparr>"
    from r(4) Some x obtain B where B: "A' = (unat p, unat s) # B" "set A \<subseteq> set B" "2 ^ 6 dvd unat p" by auto
    have "0 < unat s" using base_request_ok(8) [OF assms(2,3)] .
    then have "base_step en (base', w', A', P') (base', ?w, A', P')" by (intro base_step.user [of "unat p" "unat s"]) (simp_all add: B(1))
    then have "base_reach en (base', ?w, A', P')" by (rule base_reach.step [OF r(2)])
    moreover have "base_alloc_extent en others base w = Some (Some p, base', ?w)" by (simp add: base_alloc_extent_def r(1) Some x)
    ultimately show ?thesis using B r(3) by (intro exI [of _ "Some p"] exI [of _ base'] exI [of _ ?w] exI [of _ A'] exI [of _ P']) simp
  qed
qed

section \<open>What holds in every state\<close>

text \<open>C10: In every state that the allocator reaches, with any number of threads and mappings under way, no
  two allocations overlap; each allocation lies in a block of the base, above its header and below the
  rest that is still free; no two blocks overlap, whether linked or not; and each rest is in the heap of
  its size class, once, so no free memory is lost.\<close>

theorem base_disjoint:
  assumes "base_reach en (base, w, A, P)"
  shows "sorted_wrt (\<lambda>(p, n) (q, m). p + n \<le> q \<or> q + m \<le> p) A
    \<and> (\<forall>(p, n)\<in>set A. \<exists>b\<in>set (ba_blocks base). unat (bb_addr b) + unat (be_header en) \<le> p
         \<and> p + n \<le> unat (extent_addr_get (bw_mem w (block_extent b)))
         \<and> unat (extent_addr_get (bw_mem w (block_extent b))) + unat (extent_bsize_get (bw_mem w (block_extent b)))
             = unat (bb_addr b) + unat (bb_size b))
    \<and> (\<forall>b\<in>set (ba_blocks base) \<union> fst ` P. \<forall>b'\<in>set (ba_blocks base) \<union> fst ` P. b \<noteq> b' \<longrightarrow> clear_of b b')
    \<and> (\<forall>i<SC_NSIZES. mset_phns (ba_avail base ! i)
         = mset_set (block_extent ` {b \<in> set (ba_blocks base). 0 < room (bw_mem w) b \<and> floor_class (room (bw_mem w) b) = i}))
    \<and> (\<forall>b\<in>set (ba_blocks base). 0 < room (bw_mem w) b \<longrightarrow> floor_class (room (bw_mem w) b) < SC_NSIZES)"
proof -
  let ?m = "bw_mem w" and ?bs = "ba_blocks base"
  have "base_inv en base ?m A P (set ?bs)" using base_reach_inv [OF assms] by simp
  then have inv: "blocks_ok en ?m ?bs P" "regions_ok en ?m ?bs A" "avail_ok ?m (set ?bs) (ba_avail base)" by (simp_all add: base_inv_def)
  have ok: "mark ?m b + room ?m b = hi b" "16 dvd room ?m b" "room ?m b \<le> 2 ^ 47" if "b \<in> set ?bs" for b
  proof -
    have o: "block_ok en ?m b" using blocks_okD(1) [OF inv(1)] that by blast
    then show "mark ?m b + room ?m b = hi b" "room ?m b \<le> 2 ^ 47" by (simp_all add: block_ok_def region_ok_def)
    show "16 dvd room ?m b" by (rule rest_quantum [OF o])
  qed
  have "\<exists>b\<in>set ?bs. unat (bb_addr b) + unat (be_header en) \<le> p \<and> p + n \<le> unat (extent_addr_get (?m (block_extent b)))
      \<and> unat (extent_addr_get (?m (block_extent b))) + unat (extent_bsize_get (?m (block_extent b))) = unat (bb_addr b) + unat (bb_size b)"
    if "(p, n) \<in> set A" for p n
  proof -
    from inv(2) that obtain b where b: "b \<in> set ?bs" "lo b + unat (be_header en) \<le> p" "p + n \<le> mark ?m b" by (auto simp: regions_ok_def)
    with ok(1) [OF b(1)] show ?thesis by (intro bexI [of _ b]) (simp_all add: lo_def hi_def mark_def room_def)
  qed
  moreover have "sorted_wrt (\<lambda>(p, n) (q, m). p + n \<le> q \<or> q + m \<le> p) A" using inv(2) by (simp add: regions_ok_def)
  moreover have "\<forall>b\<in>set ?bs \<union> fst ` P. \<forall>b'\<in>set ?bs \<union> fst ` P. b \<noteq> b' \<longrightarrow> clear_of b b'"
    using inv(1) unfolding blocks_ok_def by (elim conjE)
  moreover have "\<forall>i<SC_NSIZES. mset_phns (ba_avail base ! i) = mset_set (block_extent ` {b \<in> set ?bs. 0 < room ?m b \<and> floor_class (room ?m b) = i})"
    using inv(3) by (simp add: avail_ok_def waiting_def sc_macro_values)
  moreover have "\<forall>b\<in>set ?bs. 0 < room ?m b \<longrightarrow> floor_class (room ?m b) < SC_NSIZES"
    using ok(2,3) floor_class_le(1) by (simp add: sc_macro_values)
  ultimately show ?thesis by blast
qed

text \<open>C31: In every state, \<open>base_stats_get\<close> returns what is true: the bytes allocated are those of the
  headers and of the allocations, the bytes mapped those of the linked blocks, the resident ones those
  of the pages that the used part of each block touches, and when huge pages are on, their number is
  that of the huge pages these parts touch. So allocated \<open>\<le>\<close> resident \<open>\<le>\<close> mapped always holds.\<close>

theorem base_accounts:
  assumes "base_reach en (base, w, A, P)"
  shows "\<exists>al re ma th. base_stats_get base = Some (al, re, ma, th)
    \<and> unat al = length (ba_blocks base) * unat (be_header en) + (\<Sum>r\<leftarrow>A. snd r)
    \<and> unat ma = (\<Sum>b\<leftarrow>ba_blocks base. unat (bb_size b))
    \<and> unat re = (\<Sum>b\<leftarrow>ba_blocks base. nat_round_up 4096 (used (bw_mem w) b))
    \<and> unat th = (if thp_on en base then \<Sum>b\<leftarrow>ba_blocks base. nat_round_up (2 ^ 21) (used (bw_mem w) b) div 2 ^ 21 else 0)
    \<and> al \<le> re \<and> re \<le> ma \<and> push_bit LG_HUGEPAGE th \<le> ma"
proof -
  have "base_inv en base (bw_mem w) A P (set (ba_blocks base))" using base_reach_inv [OF assms] by simp
  then have inv: "blocks_ok en (bw_mem w) (ba_blocks base) P" "stats_right en (bw_mem w) base A" by (simp_all add: base_inv_def)
  note so = stats_order [OF inv]
  then have "base_stats_get base = Some (ba_allocated base, ba_resident base, ba_mapped base, ba_n_thp base)" by (simp add: base_stats_get_def)
  with so(1,2,4) inv(2) show ?thesis by (simp add: stats_right_def hi_def lo_def)
qed

section \<open>A base with one block\<close>

text \<open>The sizes that the structs have on a machine with 64 bits, and a system that maps one block.\<close>

definition meta_env :: "sz_tabs \<Rightarrow> base_env" where
  "meta_env t = \<lparr>be_tabs = t, be_header = 144, be_base = 2240, be_extent = 128, be_thp = metadata_thp_auto, be_thp_default = True,
     be_hooks_default = 4096\<rparr>"

definition meta_world :: base_world where
  "meta_world = \<lparr>bw_mem = \<lambda>_. \<lparr>e_self = 0, e_bits = 0, e_addr = 0, e_size_esn = 0, e_slab_bitmap = []\<rparr>, bw_maps = [2 ^ 30], bw_unmaps = []\<rparr>"

lemma meta_env_ok: "tabs_ok t \<Longrightarrow> base_env_ok (meta_env t)"
  by (simp add: base_env_ok_def meta_env_def)

lemma meta_size:
  assumes "tabs_ok t"
  shows "base_block_size (meta_env t) 0 2240 (2 ^ 4) = Some (2 ^ 21)"
proof -
  have "sz_pind2sz t 1 = Some (sz_pind2sz_compute 1)" using assms by (intro sz_pind2sz_ok) (simp_all add: sc_macro_values)
  moreover have "sz_pind2sz_compute 1 = 8192" by code_simp
  moreover have "sz_psz2u 2384 = 4096"
  proof -
    have m: "(2384 :: size_t) \<le> SC_LARGE_MAXCLASS" by (simp add: le_LARGE_MAXCLASS)
    have "sz_psz2ind 2384 = 0" using sz_psz2ind_eq [OF _ m] group_index_low(2) [of 12 2384] by simp
    moreover have "sz_pind2sz_compute 0 = 4096" by code_simp
    ultimately show ?thesis using sz_psz2u_eq [OF _ m] by simp
  qed
  moreover have "1 < sz_psz2ind SC_LARGE_MAXCLASS"
  proof (rule ccontr)
    let ?i = "sz_psz2ind SC_LARGE_MAXCLASS"
    assume "\<not> 1 < ?i"
    then have "group_size 12 ?i \<le> group_size 12 1" using strict_mono_less_eq [OF group_size_strict_mono, of 12 ?i 1] by simp
    moreover have "?i = group_index 12 (7 * 2 ^ 60)" using sz_psz2ind_eq [of SC_LARGE_MAXCLASS] by (simp add: SC_LARGE_MAXCLASS_unat)
    then have "7 * 2 ^ 60 \<le> group_size 12 ?i" using group_index_covers [of 12 "7 * 2 ^ 60"] by simp
    moreover have "group_size 12 1 = 8192" by (simp add: group_size_def)
    ultimately show False by simp
  qed
  moreover have "HUGEPAGE_CEILING 4096 = 2 ^ 21" "HUGEPAGE_CEILING 8192 = 2 ^ 21" by code_simp+
  moreover have "ALIGNMENT_CEILING 16 QUANTUM = 16" "ALIGNMENT_CEILING 2240 16 = 2240" "ALIGNMENT_CEILING 144 16 = 144" by code_simp+
  ultimately show ?thesis by (simp add: base_block_size_def meta_env_def Let_def)
qed

lemma meta_maps: "tabs_ok t \<Longrightarrow> maps_ok (meta_env t) (be_base (meta_env t)) 4 {} 0 meta_world"
  using meta_size [of t] by (simp add: maps_ok_def meta_world_def meta_env_def map_fresh_def region_ok_def lo_def hi_def)

lemma meta_reach:
  assumes "tabs_ok t"
  shows "\<exists>(addr :: 64 word) base w. base_boot (meta_env t) (\<lambda>_. None) False meta_world = Some ((False, Some base), w)
    \<and> base_reach (meta_env t) (base, w, [(unat addr, 2240)], {})"
proof -
  note en = meta_env_ok [OF assms] and mp = meta_maps [OF assms]
  from base_new_ok [OF en mp, of "\<lambda>_. None" 0 4096] obtain r w' where
    n: "base_new (meta_env t) (\<lambda>_. None) 0 4096 False meta_world = Some (r, w')"
      "case r of None \<Rightarrow> bw_maps meta_world = [] \<or> hd (bw_maps meta_world) = 0 | Some _ \<Rightarrow> True" by (auto split: option.splits)
  have "bw_maps meta_world \<noteq> [] \<and> hd (bw_maps meta_world) \<noteq> 0" by (simp add: meta_world_def)
  with n(2) obtain addr base where r: "r = Some (addr, base)" by (cases r) auto
  have c: "unat (ALIGNMENT_CEILING (be_base (meta_env t)) CACHELINE) = 2240" unfolding meta_env_def by code_simp
  have "base_reach (meta_env t) (base, w', [(unat addr, 2240)], {})"
    using base_reach.new [OF en mp, of "\<lambda>_. None" 0 4096 addr base w'] n(1) r c by simp
  moreover have "base_boot (meta_env t) (\<lambda>_. None) False meta_world = Some ((False, Some base), w')" using n(1) r by (simp add: base_boot_def meta_env_def)
  ultimately show ?thesis by blast
qed

section \<open>The properties at a concrete base\<close>

lemma others_id: "others_ok en id A P"
  unfolding others_ok_def by (auto intro!: exI)

theorem base_alloc_returns_witness:
  "\<exists>t base w r base' w' A'. base_boot (meta_env t) (\<lambda>_. None) False meta_world = Some ((False, Some base), w)
     \<and> base_alloc (meta_env t) id 100 (2 ^ 5) base (w\<lparr>bw_maps := []\<rparr>) = Some (r, base', w')
     \<and> (\<exists>P'. base_reach (meta_env t) (base', w', A', P'))"
proof -
  from sz_boot_ok obtain t where t: "tabs_ok t" by blast
  from meta_reach [OF t] obtain addr :: "64 word" and base w where
    b: "base_boot (meta_env t) (\<lambda>_. None) False meta_world = Some ((False, Some base), w)"
      "base_reach (meta_env t) (base, w, [(unat addr, 2240)], {})" by blast
  have re: "base_reach (meta_env t) (base, w\<lparr>bw_maps := []\<rparr>, [(unat addr, 2240)], {})"
    by (rule base_reach.step [OF b(2) base_step.system])
  have v: "valid_request 100 5" by (simp add: valid_request_def)
  have m: "maps_ok (meta_env t) s k B i (w\<lparr>bw_maps := []\<rparr>)" for s k B i by (simp add: maps_ok_def)
  from base_alloc_returns [OF re v surjective_pairing m others_id] obtain r base' w' A' P' where
    "base_alloc (meta_env t) id 100 (2 ^ 5) base (w\<lparr>bw_maps := []\<rparr>) = Some (r, base', w')"
    "base_reach (meta_env t) (base', w', A', P')" by blast
  with b(1) show ?thesis by blast
qed

theorem base_disjoint_witness:
  "\<exists>t (addr :: 64 word) base w b. base_boot (meta_env t) (\<lambda>_. None) False meta_world = Some ((False, Some base), w)
     \<and> b \<in> set (ba_blocks base) \<and> unat (bb_addr b) + 144 \<le> unat addr
     \<and> unat addr + 2240 \<le> unat (extent_addr_get (bw_mem w (block_extent b)))"
proof -
  from sz_boot_ok obtain t where t: "tabs_ok t" by blast
  from meta_reach [OF t] obtain addr :: "64 word" and base w where
    b: "base_boot (meta_env t) (\<lambda>_. None) False meta_world = Some ((False, Some base), w)"
      "base_reach (meta_env t) (base, w, [(unat addr, 2240)], {})" by blast
  have "unat (be_header (meta_env t)) = 144" by (simp add: meta_env_def)
  with base_disjoint [OF b(2)] have "\<exists>b\<in>set (ba_blocks base). unat (bb_addr b) + 144 \<le> unat addr
      \<and> unat addr + 2240 \<le> unat (extent_addr_get (bw_mem w (block_extent b)))" by auto
  with b(1) show ?thesis by blast
qed

theorem base_accounts_witness:
  "\<exists>t base w al re ma th. base_boot (meta_env t) (\<lambda>_. None) False meta_world = Some ((False, Some base), w)
     \<and> base_stats_get base = Some (al, re, ma, th) \<and> unat al = length (ba_blocks base) * 144 + 2240 \<and> al \<le> re \<and> re \<le> ma"
proof -
  from sz_boot_ok obtain t where t: "tabs_ok t" by blast
  from meta_reach [OF t] obtain addr :: "64 word" and base w where
    b: "base_boot (meta_env t) (\<lambda>_. None) False meta_world = Some ((False, Some base), w)"
      "base_reach (meta_env t) (base, w, [(unat addr, 2240)], {})" by blast
  have "unat (be_header (meta_env t)) = 144" by (simp add: meta_env_def)
  with base_accounts [OF b(2)] obtain al re ma th where
    "base_stats_get base = Some (al, re, ma, th)" "unat al = length (ba_blocks base) * 144 + 2240" "al \<le> re" "re \<le> ma" by auto
  with b(1) show ?thesis by blast
qed

text \<open>Deleting a base unmaps each of its blocks once, when for the default hooks one of the calls works.\<close>

lemma unmap_ok:
  assumes "h = be_hooks_default en \<longrightarrow> (\<exists>c\<in>{call_dalloc, call_decommit, call_purge_forced, call_purge_lazy}. fails c = Some False)"
    and "p AND HUGEPAGE_MASK = 0" "n AND HUGEPAGE_MASK = 0"
  shows "\<exists>calls. base_unmap en h fails p n w = Some (w\<lparr>bw_unmaps := bw_unmaps w @ [(p, n, calls)]\<rparr>)"
proof -
  have "snd (unmap_cascade fails [call_dalloc, call_decommit, call_purge_forced, call_purge_lazy])" if "h = be_hooks_default en"
    using assms(1) that by (auto split: option.splits)
  then show ?thesis using assms(2,3) by (auto simp: base_unmap_def Let_def split: prod.splits)
qed

lemma base_delete_unmaps:
  assumes "base_reach en (base, w, A, P)"
    and "ba_hooks base = be_hooks_default en \<longrightarrow>
      (\<forall>p. \<exists>c\<in>{call_dalloc, call_decommit, call_purge_forced, call_purge_lazy}. fails p c = Some False)"
  shows "\<exists>w'. base_delete en fails base w = Some w'
    \<and> map (\<lambda>(p, n, _). (p, n)) (bw_unmaps w') = map (\<lambda>(p, n, _). (p, n)) (bw_unmaps w) @ map (\<lambda>b. (bb_addr b, bb_size b)) (ba_blocks base)"
proof -
  have inv: "blocks_ok en (bw_mem w) (ba_blocks base) P" using base_reach_inv [OF assms(1)] by (simp add: base_inv_def)
  have "region_ok b" if "b \<in> set (ba_blocks base)" for b using blocks_okD(1) [OF inv disjI1 [OF that]] by (simp add: block_ok_def)
  then have "\<exists>w'. delete_blocks en (ba_hooks base) fails bs v = Some w'
      \<and> map (\<lambda>(p, n, _). (p, n)) (bw_unmaps w') = map (\<lambda>(p, n, _). (p, n)) (bw_unmaps v) @ map (\<lambda>b. (bb_addr b, bb_size b)) bs"
    if "set bs \<subseteq> set (ba_blocks base)" for bs v
    using that
  proof (induction bs arbitrary: v)
    case (Cons b bs)
    have r: "region_ok b" using Cons.prems by simp
    then have "2 ^ 21 dvd lo b" "2 ^ 21 dvd hi b - lo b" by (auto simp: region_ok_def)
    then have a: "bb_addr b AND HUGEPAGE_MASK = 0" "bb_size b AND HUGEPAGE_MASK = 0"
      using huge_zero [of "bb_addr b"] huge_zero [of "bb_size b"] by (simp_all add: lo_def hi_def)
    from unmap_ok [OF _ a, of "ba_hooks base" en "fails (bb_addr b)" v] assms(2) obtain calls where
      "base_unmap en (ba_hooks base) (fails (bb_addr b)) (bb_addr b) (bb_size b) v
        = Some (v\<lparr>bw_unmaps := bw_unmaps v @ [(bb_addr b, bb_size b, calls)]\<rparr>)" by blast
    with Cons.IH [OF _ _, of "v\<lparr>bw_unmaps := bw_unmaps v @ [(bb_addr b, bb_size b, calls)]\<rparr>"] Cons.prems show ?case by auto
  qed simp
  moreover have "ba_blocks base \<noteq> []" using inv by (simp add: blocks_ok_def)
  ultimately show ?thesis by (auto simp: base_delete_def base_extent_hooks_get_def)
qed

text \<open>The automatic mode compares the number of blocks with the threshold for equality. Once more blocks
  than that are linked, because several were mapped at the same time, it never switches.\<close>

lemma auto_thp_missed:
  assumes "be_thp en = metadata_thp_auto" "\<not> ba_auto_thp_switched base" "BASE_AUTO_THP_THRESHOLD_A0 \<le> length (ba_blocks base)"
  shows "base_auto_thp_switch en mem base = Some base"
  using assms by (auto simp: base_auto_thp_switch_def base_get_num_blocks_def BASE_AUTO_THP_THRESHOLD_A0_def BASE_AUTO_THP_THRESHOLD_def)

end
