(* ===== verification/Malloc_Io.thy ===== *)
theory Malloc_Io
  imports Jem_Prelude
begin

text \<open>
  src/malloc_io.c: the conversions between integers and text and the formatted output that
  jemalloc uses in place of the C library. A C string is the list of its characters without the
  terminating null character, a pointer into it the list of those that follow. The functions that
  print digits write backwards into a buffer on the stack; their result is \<open>None\<close> when the buffer is
  too short, and otherwise the text.
\<close>

section \<open>Parsing integers\<close>

datatype errno = EINVAL | ERANGE

definition blanks :: "char set" where
  "blanks = {CHR 0x09, CHR 0x0A, CHR 0x0B, CHR 0x0C, CHR 0x0D, CHR '' ''}"

text \<open>Swallows the leading white space and the sign.\<close>

fun skip_sign :: "string \<Rightarrow> bool \<times> string" where
  "skip_sign [] = (False, [])"
| "skip_sign (c # p) =
     (if c \<in> blanks then skip_sign p
      else if c = CHR ''-'' then (True, p)
      else if c = CHR ''+'' then (False, p)
      else (False, c # p))"

text \<open>\<open>ch p k\<close> is \<open>p[k]\<close>, the null character at the end of the string.\<close>

definition ch :: "string \<Rightarrow> nat \<Rightarrow> char" where
  "ch p k = (if k < length p then p ! k else CHR 0x00)"

text \<open>A character is compared by its code.\<close>

definition code :: "char \<Rightarrow> nat" where "code c = of_char c"

definition octal :: "char \<Rightarrow> bool" where
  "octal c \<longleftrightarrow> code (CHR ''0'') \<le> code c \<and> code c \<le> code (CHR ''7'')"
definition decimal :: "char \<Rightarrow> bool" where
  "decimal c \<longleftrightarrow> code (CHR ''0'') \<le> code c \<and> code c \<le> code (CHR ''9'')"
definition upper :: "char \<Rightarrow> bool" where
  "upper c \<longleftrightarrow> code (CHR ''A'') \<le> code c \<and> code c \<le> code (CHR ''Z'')"
definition lower :: "char \<Rightarrow> bool" where
  "lower c \<longleftrightarrow> code (CHR ''a'') \<le> code c \<and> code c \<le> code (CHR ''z'')"
definition hexadecimal :: "char \<Rightarrow> bool" where
  "hexadecimal c \<longleftrightarrow> decimal c
     \<or> code (CHR ''A'') \<le> code c \<and> code c \<le> code (CHR ''F'')
     \<or> code (CHR ''a'') \<le> code c \<and> code c \<le> code (CHR ''f'')"

text \<open>
  The prefix. The result is the base and the rest of the string, or the rest behind a zero that is
  taken as the whole number.
\<close>

definition get_prefix :: "nat \<Rightarrow> string \<Rightarrow> string + nat \<times> string" where
  "get_prefix b p =
     (if ch p 0 = CHR ''0'' then
        if octal (ch p 1) then
          (let b = (if b = 0 then 8 else b) in Inr (b, if b = 8 then drop 1 p else p))
        else if ch p 1 = CHR ''X'' \<or> ch p 1 = CHR ''x'' then
          if hexadecimal (ch p 2) then
            (let b = (if b = 0 then 16 else b) in Inr (b, if b = 16 then drop 2 p else p))
          else Inr (b, p)
        else Inl (drop 1 p)
      else Inr (b, p))"

text \<open>The value of a digit; the last two cases are reached only when the earlier ones are not.\<close>

definition digit_of :: "nat \<Rightarrow> char \<Rightarrow> nat option" where
  "digit_of b c =
     (if decimal c \<and> code c - code (CHR ''0'') < b then Some (code c - code (CHR ''0''))
      else if upper c \<and> 10 + code c - code (CHR ''A'') < b then Some (10 + code c - code (CHR ''A''))
      else if lower c \<and> 10 + code c - code (CHR ''a'') < b then Some (10 + code c - code (CHR ''a''))
      else None)"

text \<open>The conversion loop: the value, the rest of the string, and whether an overflow was seen.\<close>

fun strto_loop :: "nat \<Rightarrow> uint64 \<Rightarrow> string \<Rightarrow> uint64 \<times> string \<times> bool" where
  "strto_loop b ret [] = (ret, [], False)"
| "strto_loop b ret (c # p) =
     (case digit_of b c of None \<Rightarrow> (ret, c # p, False)
      | Some digit \<Rightarrow>
          (let pret = ret; ret = ret * of_nat b; ret = ret + of_nat digit
           in if ret < pret then (- 1, c # p, True) else strto_loop b ret p))"

text \<open>
  The value, \<open>*endptr\<close>, and the value of \<open>errno\<close> when it is set. Whether \<open>p\<close> moved past \<open>ns\<close> is read
  off the lengths of what remains.
\<close>

definition malloc_strtoumax :: "string \<Rightarrow> int \<Rightarrow> uint64 \<times> string \<times> errno option" where
  "malloc_strtoumax nptr base =
     (if base < 0 \<or> base = 1 \<or> base > 36 then (- 1, nptr, Some EINVAL)
      else
        let b = nat base; (neg, ns) = skip_sign nptr
        in case get_prefix b ns of
             Inl p \<Rightarrow> (0, p, None)
           | Inr (b, p) \<Rightarrow>
               let b = (if b = 0 then 10 else b)
               in case strto_loop b 0 p of (ret, p, overflow) \<Rightarrow>
                    if overflow then (ret, if length p = length ns then nptr else p, Some ERANGE)
                    else
                      let ret = (if neg then - ret else ret)
                      in if length p = length ns then (- 1, nptr, Some EINVAL)
                         else (ret, p, None))"

section \<open>Printing integers\<close>

definition U2S_BUFSIZE :: nat where "U2S_BUFSIZE = 65"
definition D2S_BUFSIZE :: nat where "D2S_BUFSIZE = 1 + U2S_BUFSIZE"
definition O2S_BUFSIZE :: nat where "O2S_BUFSIZE = 1 + U2S_BUFSIZE"
definition X2S_BUFSIZE :: nat where "X2S_BUFSIZE = 2 + U2S_BUFSIZE"

definition digits_lower :: string where "digits_lower = ''0123456789abcdefghijklmnopqrstuvwxyz''"
definition digits_upper :: string where "digits_upper = ''0123456789ABCDEFGHIJKLMNOPQRSTUVWXYZ''"

text \<open>
  The loop of \<open>u2s\<close>: \<open>i\<close> is the index of the last character written, \<open>acc\<close> what is behind it.
  \<open>low\<close> and \<open>high\<close> are the last digit of the number and the number without it.
\<close>

fun u2s_loop :: "(uint64 \<Rightarrow> nat) \<Rightarrow> (uint64 \<Rightarrow> uint64) \<Rightarrow> string \<Rightarrow> nat \<Rightarrow> uint64 \<Rightarrow> string \<Rightarrow> string option" where
  "u2s_loop low high digits 0 x acc = None"
| "u2s_loop low high digits (Suc i) x acc =
     (let acc = digits ! low x # acc; x = high x
      in if x > 0 then u2s_loop low high digits i x acc else Some acc)"

definition u2s :: "uint64 \<Rightarrow> nat \<Rightarrow> bool \<Rightarrow> string option" where
  "u2s x base uppercase =
     (let i = U2S_BUFSIZE - 1; digits = (if uppercase then digits_upper else digits_lower)
      in if base = 10 then u2s_loop (\<lambda>x. unat (x mod 10)) (\<lambda>x. x div 10) digits_lower i x []
         else if base = 16 then u2s_loop (\<lambda>x. unat (x AND 0xf)) (\<lambda>x. drop_bit 4 x) digits i x []
         else u2s_loop (\<lambda>x. unat (x mod of_nat base)) (\<lambda>x. x div of_nat base) digits i x [])"

text \<open>
  The functions below prepend to the text that \<open>u2s\<close> left in the buffer, which ends at index
  \<open>U2S_BUFSIZE - 1\<close>: \<open>prepend\<close> fails when that would be before its start.
\<close>

definition prepend :: "string \<Rightarrow> string \<Rightarrow> string option" where
  "prepend t s = (if length t + length s \<le> U2S_BUFSIZE - 1 then Some (t @ s) else None)"

definition d2s :: "uint64 \<Rightarrow> char \<Rightarrow> string option" where
  "d2s x sign =
     (let neg = sint x < 0; x = (if neg then - x else x)
      in case u2s x 10 False of None \<Rightarrow> None
         | Some s \<Rightarrow>
             let sign = (if neg then CHR ''-'' else sign)
             in if sign = CHR ''-'' \<and> \<not> neg then Some s
                else if sign = CHR ''-'' \<or> sign = CHR '' '' \<or> sign = CHR ''+'' then prepend [sign] s
                else None)"

definition o2s :: "uint64 \<Rightarrow> bool \<Rightarrow> string option" where
  "o2s x alt_form =
     (case u2s x 8 False of None \<Rightarrow> None
      | Some s \<Rightarrow> if alt_form \<and> ch s 0 \<noteq> CHR ''0'' then prepend ''0'' s else Some s)"

definition x2s :: "uint64 \<Rightarrow> bool \<Rightarrow> bool \<Rightarrow> string option" where
  "x2s x alt_form uppercase =
     (case u2s x 16 uppercase of None \<Rightarrow> None
      | Some s \<Rightarrow> if alt_form then prepend (if uppercase then ''0X'' else ''0x'') s else Some s)"

section \<open>Digits and their values\<close>

text \<open>The value of a list of digits, the most significant first, and the digits of a number.\<close>

definition digits_val :: "nat \<Rightarrow> nat \<Rightarrow> nat list \<Rightarrow> nat" where
  "digits_val b a ds = foldl (\<lambda>a d. a * b + d) a ds"

lemma digits_val_simps [simp]:
  "digits_val b a [] = a" "digits_val b a (d # ds) = digits_val b (a * b + d) ds"
  "digits_val b a (ds @ es) = digits_val b (digits_val b a ds) es"
  by (simp_all add: digits_val_def)

lemma digits_val_ge: "1 \<le> b \<Longrightarrow> a \<le> digits_val b a ds"
proof (induction ds arbitrary: a)
  case (Cons d ds)
  have "a \<le> a * b + d" using Cons.prems by (metis le_add1 le_trans mult.right_neutral mult_le_mono2)
  with Cons.IH [OF Cons.prems, of "a * b + d"] show ?case by simp
qed simp

fun nat_digits :: "nat \<Rightarrow> nat \<Rightarrow> nat list" where
  "nat_digits b n = (if n < b \<or> b < 2 then [n] else nat_digits b (n div b) @ [n mod b])"

declare nat_digits.simps [simp del]

lemma nat_digits_val: "digits_val b 0 (nat_digits b n) = n"
proof (induction b n rule: nat_digits.induct)
  case (1 b n)
  then show ?case by (cases "n < b \<or> b < 2") (simp_all add: nat_digits.simps [of b n])
qed

lemma nat_digits_less: "2 \<le> b \<Longrightarrow> d \<in> set (nat_digits b n) \<Longrightarrow> d < b"
proof (induction b n rule: nat_digits.induct)
  case (1 b n)
  then show ?case by (cases "n < b") (auto simp: nat_digits.simps [of b n])
qed

lemma nat_digits_length: "2 \<le> b \<Longrightarrow> 0 < k \<Longrightarrow> n < b ^ k \<Longrightarrow> length (nat_digits b n) \<le> k"
proof (induction k arbitrary: n)
  case (Suc k)
  show ?case
  proof (cases "n < b")
    case False
    with Suc.prems have "0 < k" by (cases k) auto
    moreover have "n div b < b ^ k" using Suc.prems by (simp add: less_mult_imp_div_less mult.commute)
    ultimately show ?thesis
      using Suc.IH [of "n div b"] Suc.prems(1) False by (simp add: nat_digits.simps [of b n])
  qed (simp add: nat_digits.simps [of b n])
qed simp

text \<open>Only the number 0 starts with the digit 0.\<close>

lemma nat_digits_hd: "2 \<le> b \<Longrightarrow> 0 < n \<Longrightarrow> nat_digits b n \<noteq> [] \<and> hd (nat_digits b n) \<noteq> 0"
proof (induction b n rule: nat_digits.induct)
  case (1 b n)
  show ?case
  proof (cases "n < b")
    case False
    then have "0 < n div b" using 1 by (simp add: div_greater_zero_iff)
    with 1 False show ?thesis by (simp add: nat_digits.simps [of b n])
  qed (use 1 in \<open>simp add: nat_digits.simps [of b n]\<close>)
qed

lemma nat_digits_0 [simp]: "2 \<le> b \<Longrightarrow> nat_digits b 0 = [0]"
  by (simp add: nat_digits.simps)

section \<open>The printed text\<close>

definition digits_text :: "bool \<Rightarrow> nat \<Rightarrow> uint64 \<Rightarrow> string" where
  "digits_text uppercase b x =
     map ((!) (if uppercase \<and> b \<noteq> 10 then digits_upper else digits_lower)) (nat_digits b (unat x))"

lemma u2s_loop_correct:
  assumes "2 \<le> b" "\<And>x. low x = unat x mod b" "\<And>x. unat (high x) = unat x div b"
  shows "0 < i \<Longrightarrow> unat x < b ^ i \<Longrightarrow>
    u2s_loop low high digits i x acc = Some (map ((!) digits) (nat_digits b (unat x)) @ acc)"
proof (induction i arbitrary: x acc)
  case (Suc i)
  have h: "high x > 0 \<longleftrightarrow> \<not> unat x < b"
    using assms(1) assms(3) [of x] by (simp add: word_greater_zero_iff unat_gt_0 [symmetric] div_greater_zero_iff not_less)
  show ?case
  proof (cases "unat x < b")
    case True
    with h assms(2) show ?thesis by (simp add: nat_digits.simps [of b "unat x"])
  next
    case False
    with Suc.prems have "0 < i" by (cases i) auto
    moreover have "unat (high x) < b ^ i"
      using Suc.prems assms(3) by (simp add: less_mult_imp_div_less mult.commute)
    ultimately show ?thesis
      using False h assms Suc.IH [of "high x" "digits ! low x # acc"]
      by (simp add: nat_digits.simps [of b "unat x"])
  qed
qed simp

lemma u2s_correct:
  assumes "2 \<le> base" "base \<le> 36"
  shows "u2s x base uppercase = Some (digits_text uppercase base x)"
proof -
  have "(2::nat) ^ 64 \<le> base ^ 64" by (rule power_mono) (use assms in auto)
  then have x: "unat x < base ^ (U2S_BUFSIZE - 1)"
    using unat_lt2p [of x] by (simp add: U2S_BUFSIZE_def)
  have b: "unat (of_nat base :: uint64) = base" using assms by (simp add: unat_of_nat take_bit_nat_eq_self)
  note loop = u2s_loop_correct [where b = base and i = "U2S_BUFSIZE - 1" and acc = "[]", OF assms(1)]
  consider "base = 10" | "base = 16" | "base \<noteq> 10" "base \<noteq> 16" by blast
  then show ?thesis
  proof cases
    case 1
    have "u2s x base uppercase = u2s_loop (\<lambda>x. unat (x mod 10)) (\<lambda>x. x div 10) digits_lower (U2S_BUFSIZE - 1) x []"
      by (simp add: u2s_def 1)
    also have "\<dots> = Some (digits_text uppercase base x)"
      using x by (subst loop) (simp_all add: 1 unat_mod unat_div digits_text_def U2S_BUFSIZE_def)
    finally show ?thesis .
  next
    case 2
    have a: "unat (x AND 0xf) = unat x mod 16" for x :: uint64
      using unat_and_mask [of x 4] by (simp add: mask_eq_exp_minus_1)
    have "u2s x base uppercase = u2s_loop (\<lambda>x. unat (x AND 0xf)) (\<lambda>x. drop_bit 4 x)
        (if uppercase then digits_upper else digits_lower) (U2S_BUFSIZE - 1) x []"
      by (simp add: u2s_def 2)
    also have "\<dots> = Some (digits_text uppercase base x)"
      using x by (subst loop) (simp_all add: 2 a unat_drop_bit_eq drop_bit_nat_def digits_text_def U2S_BUFSIZE_def)
    finally show ?thesis .
  next
    case 3
    then have "u2s x base uppercase = u2s_loop (\<lambda>x. unat (x mod of_nat base)) (\<lambda>x. x div of_nat base)
        (if uppercase then digits_upper else digits_lower) (U2S_BUFSIZE - 1) x []"
      by (simp add: u2s_def)
    also have "\<dots> = Some (digits_text uppercase base x)"
      using x 3 by (subst loop) (simp_all add: b unat_mod unat_div digits_text_def U2S_BUFSIZE_def)
    finally show ?thesis .
  qed
qed

section \<open>The value that is parsed\<close>

text \<open>The conversion loop on unbounded numbers.\<close>

fun strto_nat :: "nat \<Rightarrow> nat \<Rightarrow> string \<Rightarrow> nat \<times> string" where
  "strto_nat b n [] = (n, [])"
| "strto_nat b n (c # p) =
     (case digit_of b c of None \<Rightarrow> (n, c # p) | Some digit \<Rightarrow> strto_nat b (n * b + digit) p)"

lemma strto_nat_ge: "1 \<le> b \<Longrightarrow> n \<le> fst (strto_nat b n p)"
proof (induction b n p rule: strto_nat.induct)
  case (2 b n c p)
  have "n \<le> n * b + d" for d using "2.prems" by (metis le_add1 le_trans mult.right_neutral mult_le_mono2)
  with 2 show ?case by (auto split: option.splits intro: le_trans)
qed simp

text \<open>Below \<open>2 ^ 64\<close> the loop on words is the loop on numbers, and sees no overflow.\<close>

lemma strto_loop_exact:
  assumes "1 \<le> b" "b \<le> 36" "fst (strto_nat b (unat ret) p) < 2 ^ 64"
  shows "strto_loop b ret p = (of_nat (fst (strto_nat b (unat ret) p)), snd (strto_nat b (unat ret) p), False)"
  using assms(3)
proof (induction p arbitrary: ret)
  case (Cons c p)
  show ?case
  proof (cases "digit_of b c")
    case (Some d)
    let ?r = "ret * of_nat b + of_nat d"
    have lt: "unat ret * b + d < 2 ^ 64"
      using strto_nat_ge [OF assms(1), of "unat ret * b + d" p] Cons.prems Some by simp
    have "?r = of_nat (unat ret * b + d)" by simp
    then have r: "unat ?r = unat ret * b + d"
      using unat_of_nat_eq [of "unat ret * b + d", where 'a = 64] lt by simp
    have "unat ret \<le> unat ret * b + d"
      using assms(1) by (metis le_add1 le_trans mult.right_neutral mult_le_mono2)
    then have "\<not> ?r < ret" by (simp add: word_less_nat_alt r)
    with Cons.IH [of ?r] Cons.prems Some r show ?thesis by simp
  qed simp
qed simp

text \<open>The table of digits and the classes of characters are inverse to each other.\<close>

lemma digit_tables:
  "\<forall>d<36. digit_of 36 (digits_lower ! d) = Some d \<and> digit_of 36 (digits_upper ! d) = Some d
     \<and> digits_lower ! d \<notin> insert (CHR ''-'') (insert (CHR ''+'') blanks)
     \<and> digits_upper ! d \<notin> insert (CHR ''-'') (insert (CHR ''+'') blanks)
     \<and> (digits_lower ! d = CHR ''0'' \<longleftrightarrow> d = 0) \<and> (digits_upper ! d = CHR ''0'' \<longleftrightarrow> d = 0)"
  by code_simp

lemma digit_of_base: "b \<le> 36 \<Longrightarrow> digit_of b c = (case digit_of 36 c of None \<Rightarrow> None | Some d \<Rightarrow> if d < b then Some d else None)"
  by (auto simp: digit_of_def decimal_def upper_def lower_def code_def)

definition digit_char :: "bool \<Rightarrow> nat \<Rightarrow> nat \<Rightarrow> char" where
  "digit_char uppercase b = (!) (if uppercase \<and> b \<noteq> 10 then digits_upper else digits_lower)"

lemma digit_char:
  assumes "d < b" "b \<le> 36"
  shows "digit_of b (digit_char up b d) = Some d" "digit_char up b d \<notin> blanks"
    "digit_char up b d \<noteq> CHR ''-''" "digit_char up b d \<noteq> CHR ''+''" "digit_char up b d = CHR ''0'' \<longleftrightarrow> d = 0"
proof -
  have "d < 36" using assms by simp
  note t = digit_tables [rule_format, OF this]
  show "digit_of b (digit_char up b d) = Some d"
    unfolding digit_of_base [OF assms(2)] using t assms(1) by (simp add: digit_char_def)
  show "digit_char up b d \<notin> blanks" "digit_char up b d \<noteq> CHR ''-''" "digit_char up b d \<noteq> CHR ''+''"
    "digit_char up b d = CHR ''0'' \<longleftrightarrow> d = 0"
    using t by (auto simp: digit_char_def)
qed

text \<open>A text after which a number ends in every base.\<close>

definition ends_number :: "string \<Rightarrow> bool" where
  "ends_number rest \<longleftrightarrow> digit_of 36 (ch rest 0) = None"

lemma strto_nat_text:
  assumes "\<forall>d\<in>set ds. d < b" "b \<le> 36" "ends_number rest"
  shows "strto_nat b n (map (digit_char up b) ds @ rest) = (digits_val b n ds, rest)"
  using assms(1)
proof (induction ds arbitrary: n)
  case Nil
  have "digit_of b (ch rest 0) = None"
    using assms(2,3) by (simp add: digit_of_base [of b] ends_number_def)
  then show ?case by (cases rest) (simp_all add: ch_def)
next
  case (Cons d ds)
  with assms(2) show ?case by (simp add: digit_char(1))
qed

lemma digits_text_char: "digits_text up b x = map (digit_char up b) (nat_digits b (unat x))"
  by (simp add: digits_text_def digit_char_def)

lemma nat_digits_neq_Nil [simp]: "nat_digits b n \<noteq> []"
  by (simp add: nat_digits.simps [of b n])

lemma strto_loop_text:
  assumes "2 \<le> b" "b \<le> 36" "ends_number rest"
  shows "strto_loop b 0 (digits_text up b x @ rest) = (x, rest, False)"
proof -
  have "strto_nat b 0 (digits_text up b x @ rest) = (unat x, rest)"
    using strto_nat_text [of "nat_digits b (unat x)" b rest 0 up] nat_digits_less [OF assms(1)] assms
    by (simp add: digits_text_char nat_digits_val)
  with strto_loop_exact [of b 0 "digits_text up b x @ rest"] assms unat_lt2p [of x] show ?thesis
    by simp
qed

lemma digits_text_hd:
  assumes "2 \<le> b" "b \<le> 36"
  obtains d ds where "nat_digits b (unat x) = d # ds" "d < b" "d = 0 \<longleftrightarrow> x = 0" "x = 0 \<longrightarrow> ds = []"
    "digits_text up b x = digit_char up b d # map (digit_char up b) ds"
proof -
  obtain d ds where ds: "nat_digits b (unat x) = d # ds"
    using nat_digits_neq_Nil by (meson neq_Nil_conv)
  have "d < b" using nat_digits_less [OF assms(1), of d "unat x"] ds by simp
  moreover have "d = 0 \<longleftrightarrow> x = 0"
    using nat_digits_hd [OF assms(1), of "unat x"] ds assms(1) by (cases "x = 0") (auto simp: unat_gt_0)
  moreover have "x = 0 \<longrightarrow> ds = []" using ds assms(1) by auto
  ultimately show thesis using that ds by (simp add: digits_text_char)
qed

lemma skip_sign_digit: "d < b \<Longrightarrow> b \<le> 36 \<Longrightarrow> skip_sign (digit_char up b d # p) = (False, digit_char up b d # p)"
  using digit_char by simp

lemma ends_number_prefix:
  assumes "ends_number rest"
  shows "\<not> octal (ch rest 0)" "ch rest 0 \<noteq> CHR ''X''" "ch rest 0 \<noteq> CHR ''x''"
proof -
  show "\<not> octal (ch rest 0)"
    using assms by (auto simp: ends_number_def octal_def decimal_def digit_of_def code_def split: if_splits)
  show "ch rest 0 \<noteq> CHR ''X''" "ch rest 0 \<noteq> CHR ''x''"
    using assms by (auto simp: ends_number_def digit_of_def decimal_def upper_def lower_def code_def)
qed

lemma get_prefix_text:
  assumes "2 \<le> b" "b \<le> 36" "ends_number rest"
  shows "get_prefix b (digits_text up b x @ rest)
    = (if x = 0 then Inl rest else Inr (b, digits_text up b x @ rest))"
proof -
  from assms(1,2) obtain d ds where d: "d < b" "d = 0 \<longleftrightarrow> x = 0" "x = 0 \<longrightarrow> ds = []"
    "digits_text up b x = digit_char up b d # map (digit_char up b) ds"
    by (rule digits_text_hd [of b x up])
  have z: "digit_char up b d = CHR ''0'' \<longleftrightarrow> x = 0" using digit_char(5) [OF d(1) assms(2)] d(2) by simp
  have h: "ch (digits_text up b x @ rest) 0 = digit_char up b d" by (simp add: d(4) ch_def)
  show ?thesis
  proof (cases "x = 0")
    case True
    with d have t: "digits_text up b x = [digit_char up b d]" by simp
    have "ch (digits_text up b x @ rest) 1 = ch rest 0" "drop 1 (digits_text up b x @ rest) = rest"
      unfolding t by (simp_all add: ch_def)
    with True z h ends_number_prefix [OF assms(3)] show ?thesis by (simp add: get_prefix_def)
  qed (use h z in \<open>simp add: get_prefix_def\<close>)
qed

lemma strtoumax_text:
  assumes "2 \<le> b" "b \<le> 36" "ends_number rest"
  shows "malloc_strtoumax (digits_text up b x @ rest) (int b) = (x, rest, None)"
proof -
  from assms(1,2) obtain d ds where d: "d < b"
    "digits_text up b x = digit_char up b d # map (digit_char up b) ds"
    by (rule digits_text_hd [of b x up])
  have "skip_sign (digits_text up b x @ rest) = (False, digits_text up b x @ rest)"
    unfolding d(2) append_Cons by (rule skip_sign_digit [OF d(1) assms(2)])
  with get_prefix_text [OF assms, of up x] strto_loop_text [OF assms, of up x] assms d(2) show ?thesis
    by (simp add: malloc_strtoumax_def)
qed

text \<open>C34: a number printed in any base from 2 to 36, in either case, fits the buffer and is read back
  by \<open>malloc_strtoumax\<close> in that base: the same 64 bits, the text behind it left over, no error.\<close>
theorem u2s_strtoumax_roundtrip:
  assumes "2 \<le> base" "base \<le> 36" "ends_number rest"
  shows "\<exists>s. u2s x base uppercase = Some s \<and> length s \<le> U2S_BUFSIZE - 1
    \<and> malloc_strtoumax (s @ rest) (int base) = (x, rest, None)"
proof -
  have "(2::nat) ^ 64 \<le> base ^ 64" by (rule power_mono) (use assms in auto)
  then have "unat x < base ^ 64" using unat_lt2p [of x] by simp
  then have "length (digits_text uppercase base x) \<le> 64"
    using nat_digits_length [of base 64 "unat x"] assms by (simp add: digits_text_char)
  with u2s_correct [of base x uppercase] strtoumax_text [OF assms] assms show ?thesis
    by (simp add: U2S_BUFSIZE_def)
qed

theorem u2s_strtoumax_roundtrip_witness:
  "\<exists>s. u2s 51966 16 True = Some s \<and> length s \<le> U2S_BUFSIZE - 1
    \<and> malloc_strtoumax (s @ '' kB'') (int 16) = (51966, '' kB'', None)"
  by (rule u2s_strtoumax_roundtrip) (simp_all add: ends_number_def ch_def digit_of_def decimal_def upper_def lower_def code_def)

text \<open>The rest of the string is a suffix of it.\<close>

lemma skip_sign_suffix: "\<exists>k. snd (skip_sign p) = drop k p"
proof (induction p rule: skip_sign.induct)
  case (2 c p)
  then show ?case
  proof (cases "c \<in> blanks")
    case True
    with 2 obtain k where "snd (skip_sign p) = drop k p" by auto
    with True show ?thesis by (intro exI [of _ "Suc k"]) simp
  next
    case False
    then show ?thesis by (auto intro: exI [of _ 0] exI [of _ 1])
  qed
qed simp

lemma strto_nat_suffix: "\<exists>k. snd (strto_nat b n p) = drop k p"
proof (induction b n p rule: strto_nat.induct)
  case (2 b n c p)
  show ?case
  proof (cases "digit_of b c")
    case (Some d)
    with 2 obtain k where "snd (strto_nat b (n * b + d) p) = drop k p" by auto
    with Some show ?thesis by (intro exI [of _ "Suc k"]) simp
  qed (simp add: exI [of _ 0])
qed simp

lemma get_prefix_suffix: "get_prefix b p = Inr (c, q) \<Longrightarrow> \<exists>k. q = drop k p"
  by (auto simp: get_prefix_def Let_def split: if_splits intro: exI [of _ 0])

lemma get_prefix_base:
  "get_prefix b p = Inr (c, q) \<Longrightarrow> b \<noteq> 1 \<Longrightarrow> b \<le> 36 \<Longrightarrow>
    2 \<le> (if c = 0 then 10 else c) \<and> (if c = 0 then 10 else c) \<le> 36"
  by (auto simp: get_prefix_def Let_def split: if_splits)

lemma strto_loop_overflow:
  assumes "1 \<le> b" "b \<le> 36" "snd (snd (strto_loop b ret p))"
  shows "2 ^ 64 \<le> fst (strto_nat b (unat ret) p) \<and> fst (strto_loop b ret p) = - 1"
proof -
  have "fst (strto_loop b ret p) = - 1"
    using assms(3) by (induction b ret p rule: strto_loop.induct) (auto simp: Let_def split: option.splits if_splits)
  moreover have "2 ^ 64 \<le> fst (strto_nat b (unat ret) p)"
    using strto_loop_exact [OF assms(1,2), of ret p] assms(3) by (metis not_le snd_conv)
  ultimately show ?thesis by simp
qed



text \<open>The printed forms with a sign or a prefix.\<close>

lemma digits_text_length:
  assumes "2 \<le> b" "0 < k" "2 ^ 64 \<le> b ^ k"
  shows "length (digits_text up b x) \<le> k"
proof -
  have "unat x < b ^ k" using unat_lt2p [of x] assms(3) by simp
  with nat_digits_length [OF assms(1,2)] show ?thesis by (simp add: digits_text_char)
qed

lemma d2s_correct: "sign \<in> {CHR ''-'', CHR '' '', CHR ''+''} \<Longrightarrow> d2s x sign = Some
    (if sint x < 0 then CHR ''-'' # digits_text False 10 (- x)
     else if sign = CHR ''-'' then digits_text False 10 x else sign # digits_text False 10 x)"
  using digits_text_length [of 10 20 False x] digits_text_length [of 10 20 False "- x"]
  by (auto simp: d2s_def u2s_correct prepend_def U2S_BUFSIZE_def Let_def)

lemma hexadecimal_digit: "d < 16 \<Longrightarrow> hexadecimal (digit_char up 16 d)"
proof -
  have "\<forall>d<16. hexadecimal (digits_lower ! d) \<and> hexadecimal (digits_upper ! d)" by code_simp
  then show "d < 16 \<Longrightarrow> hexadecimal (digit_char up 16 d)" by (simp add: digit_char_def)
qed

lemma octal_digit: "d < 8 \<Longrightarrow> octal (digit_char up 8 d)"
proof -
  have "\<forall>d<8. octal (digits_lower ! d) \<and> octal (digits_upper ! d)" by code_simp
  then show "d < 8 \<Longrightarrow> octal (digit_char up 8 d)" by (simp add: digit_char_def)
qed

lemma strtoumax_sign:
  assumes "ends_number rest"
  shows "malloc_strtoumax (CHR ''-'' # digits_text up 10 x @ rest) 10 = (- x, rest, None)"
    "malloc_strtoumax (CHR ''+'' # digits_text up 10 x @ rest) 10 = (x, rest, None)"
    "malloc_strtoumax (CHR '' '' # digits_text up 10 x @ rest) 10 = (x, rest, None)"
proof -
  obtain d ds where d: "d < 10" "digits_text up 10 x = digit_char up 10 d # map (digit_char up 10) ds"
    by (rule digits_text_hd [of 10 x up]) simp_all
  have s: "skip_sign (digits_text up 10 x @ rest) = (False, digits_text up 10 x @ rest)"
    unfolding d(2) append_Cons by (rule skip_sign_digit [OF d(1)]) simp
  have "length (digits_text up 10 x) \<noteq> 0" by (simp add: d(2))
  with s get_prefix_text [OF _ _ assms, of 10 up x] strto_loop_text [OF _ _ assms, of 10 up x]
  show "malloc_strtoumax (CHR ''-'' # digits_text up 10 x @ rest) 10 = (- x, rest, None)"
    "malloc_strtoumax (CHR ''+'' # digits_text up 10 x @ rest) 10 = (x, rest, None)"
    "malloc_strtoumax (CHR '' '' # digits_text up 10 x @ rest) 10 = (x, rest, None)"
    by (simp_all add: malloc_strtoumax_def blanks_def)
qed

lemma strtoumax_hex:
  assumes "ends_number rest"
  shows "malloc_strtoumax ((if up then ''0X'' else ''0x'') @ digits_text up 16 x @ rest) 0 = (x, rest, None)"
proof -
  obtain d ds where d: "d < 16" "digits_text up 16 x = digit_char up 16 d # map (digit_char up 16) ds"
    by (rule digits_text_hd [of 16 x up]) simp_all
  have "skip_sign ((if up then ''0X'' else ''0x'') @ p) = (False, (if up then ''0X'' else ''0x'') @ p)" for p
    by (simp add: blanks_def)
  moreover have "get_prefix 0 ((if up then ''0X'' else ''0x'') @ digits_text up 16 x @ rest)
      = Inr (16, digits_text up 16 x @ rest)"
  proof -
    have "(digits_text up 16 x @ rest) ! 0 = digit_char up 16 d" "digits_text up 16 x \<noteq> []"
      by (simp_all add: d(2))
    with hexadecimal_digit [OF d(1), of up] show ?thesis
      by (cases up) (simp_all add: get_prefix_def ch_def octal_def code_def)
  qed
  ultimately show ?thesis
    using strto_loop_text [OF _ _ assms, of 16 up x] by (simp add: malloc_strtoumax_def d(2))
qed

lemma strtoumax_octal:
  assumes "ends_number rest" "x \<noteq> 0"
  shows "malloc_strtoumax (CHR ''0'' # digits_text up 8 x @ rest) 0 = (x, rest, None)"
proof -
  obtain d ds where d: "d < 8" "digits_text up 8 x = digit_char up 8 d # map (digit_char up 8) ds"
    by (rule digits_text_hd [of 8 x up]) simp_all
  have "skip_sign (CHR ''0'' # p) = (False, CHR ''0'' # p)" for p
    by (simp add: blanks_def)
  moreover have "get_prefix 0 (CHR ''0'' # digits_text up 8 x @ rest) = Inr (8, digits_text up 8 x @ rest)"
    using octal_digit [OF d(1), of up] by (simp add: get_prefix_def ch_def d(2))
  ultimately show ?thesis
    using strto_loop_text [OF _ _ assms(1), of 8 up x] by (simp add: malloc_strtoumax_def)
qed

text \<open>C36: the texts of \<open>%d\<close>, \<open>%#o\<close> and \<open>%#x\<close> are read back: a signed number in base 10 with any of
  the three sign flags, and a number with its octal or hexadecimal prefix in base 0, which
  takes the base from the prefix.\<close>
theorem printed_forms_roundtrip:
  assumes "ends_number rest" "sign \<in> {CHR ''-'', CHR '' '', CHR ''+''}"
  shows "(\<exists>s. d2s x sign = Some s \<and> malloc_strtoumax (s @ rest) 10 = (x, rest, None))
    \<and> (\<exists>s. o2s x True = Some s \<and> malloc_strtoumax (s @ rest) 0 = (x, rest, None))
    \<and> (\<exists>s. x2s x True uppercase = Some s \<and> malloc_strtoumax (s @ rest) 0 = (x, rest, None))"
proof (intro conjI)
  show "\<exists>s. d2s x sign = Some s \<and> malloc_strtoumax (s @ rest) 10 = (x, rest, None)"
    using strtoumax_sign [OF assms(1), of False] strtoumax_text [OF _ _ assms(1), of 10 False x] assms(2)
    by (auto simp: d2s_correct [OF assms(2)])
  have "o2s x True = Some (if x = 0 then ''0'' else CHR ''0'' # digits_text False 8 x)"
  proof -
    obtain d ds where d: "d < 8" "d = 0 \<longleftrightarrow> x = 0" "x = 0 \<longrightarrow> ds = []"
      "digits_text False 8 x = digit_char False 8 d # map (digit_char False 8) ds"
      by (rule digits_text_hd [of 8 x False]) simp_all
    have "ch (digits_text False 8 x) 0 = CHR ''0'' \<longleftrightarrow> x = 0"
      using digit_char(5) [of d 8 False] d(1,2) by (simp add: d(4) ch_def)
    moreover have "x = 0 \<Longrightarrow> digits_text False 8 x = ''0''"
      using digit_char(5) [of d 8 False] d by simp
    ultimately show ?thesis
      using digits_text_length [of 8 22 False x] by (auto simp: o2s_def u2s_correct prepend_def U2S_BUFSIZE_def)
  qed
  moreover have "malloc_strtoumax (''0'' @ rest) 0 = (0, rest, None)"
    using ends_number_prefix [OF assms(1)]
    by (simp add: malloc_strtoumax_def blanks_def get_prefix_def ch_def split: if_splits)
  ultimately show "\<exists>s. o2s x True = Some s \<and> malloc_strtoumax (s @ rest) 0 = (x, rest, None)"
    using strtoumax_octal [OF assms(1), of x False] by auto
  show "\<exists>s. x2s x True uppercase = Some s \<and> malloc_strtoumax (s @ rest) 0 = (x, rest, None)"
    using strtoumax_hex [OF assms(1), of uppercase x] digits_text_length [of 16 16 uppercase x]
    by (auto simp: x2s_def u2s_correct prepend_def U2S_BUFSIZE_def)
qed

theorem printed_forms_roundtrip_witness:
  "(\<exists>s. d2s (- 7) (CHR ''+'') = Some s \<and> malloc_strtoumax (s @ '','') 10 = (- 7, '','', None))
    \<and> (\<exists>s. o2s (- 7) True = Some s \<and> malloc_strtoumax (s @ '','') 0 = (- 7, '','', None))
    \<and> (\<exists>s. x2s (- 7) True False = Some s \<and> malloc_strtoumax (s @ '','') 0 = (- 7, '','', None))"
  by (rule printed_forms_roundtrip)
    (simp_all add: ends_number_def ch_def digit_of_def decimal_def upper_def lower_def code_def)

text \<open>Where the code falls short of the C library: a product that wraps past the old value is not
  noticed, and a number whose leading 0 is followed by an 8 or 9 is taken to be that 0.\<close>

lemma strtoumax_missed_overflow:
  "malloc_strtoumax ''30000000000000000000'' 10 = (11553255926290448384, [], None)"
  by code_simp

lemma strtoumax_leading_zero: "malloc_strtoumax ''08'' 10 = (0, ''8'', None)"
  by code_simp

end
