(* ===== verification/Malloc_Printf.thy ===== *)
theory Malloc_Printf
  imports Malloc_Io
begin

text \<open>
  src/malloc_io.c: \<open>malloc_vsnprintf\<close>. The variable arguments are a list of values of 32 or 64 bits
  and strings; \<open>None\<close> is what C leaves undefined: an argument of the wrong kind, a conversion that
  the code declares unreachable, a precision beyond the end of a string, a buffer of size 0.
\<close>

section \<open>The writer\<close>

text \<open>\<open>i\<close> counts the characters of the whole output, \<open>str\<close> is the buffer of \<open>sz\<close> (\<open>size\<close> in the code) characters.\<close>

type_synonym writer = "nat \<times> string"

definition append_c :: "nat \<Rightarrow> char \<Rightarrow> writer \<Rightarrow> writer" where
  "append_c sz c w = (case w of (i, str) \<Rightarrow> (i + 1, if i < sz then str[i := c] else str))"

definition append_s :: "nat \<Rightarrow> string \<Rightarrow> writer \<Rightarrow> writer" where
  "append_s sz s w =
     (case w of (i, str) \<Rightarrow>
        (i + length s,
         if i < sz then
           (let cpylen = (if length s \<le> sz - i then length s else sz - i)
            in take i str @ take cpylen s @ drop (i + cpylen) str)
         else str))"

text \<open>The width is an \<open>int\<close>, converted to \<open>size_t\<close>.\<close>

definition pad_len :: "nat \<Rightarrow> int \<Rightarrow> nat" where
  "pad_len slen width =
     (if width = - 1 then 0
      else let w = unat (word_of_int width :: size_t) in if slen < w then w - slen else 0)"

definition append_padded_s :: "nat \<Rightarrow> string \<Rightarrow> int \<Rightarrow> bool \<Rightarrow> writer \<Rightarrow> writer" where
  "append_padded_s sz s width left_justify w =
     (let n = pad_len (length s) width;
          w = (if \<not> left_justify \<and> n \<noteq> 0 then (append_c sz (CHR '' '') ^^ n) w else w);
          w = append_s sz s w
      in if left_justify \<and> n \<noteq> 0 then (append_c sz (CHR '' '') ^^ n) w else w)"

section \<open>The conversion specifications\<close>

datatype va_arg = Va_int "32 word" | Va_long "64 word" | Va_str string

record fspec =
  alt_form :: bool
  left_justify :: bool
  plus_space :: bool
  plus_plus :: bool
  fs_prec :: int
  fs_width :: int
  fs_len :: char

definition fspec0 :: fspec where
  "fspec0 = \<lparr>alt_form = False, left_justify = False, plus_space = False, plus_plus = False,
     fs_prec = - 1, fs_width = - 1, fs_len = CHR ''?''\<rparr>"

fun get_flags :: "fspec \<Rightarrow> string \<Rightarrow> fspec \<times> string" where
  "get_flags fs [] = (fs, [])"
| "get_flags fs (c # f) =
     (if c = CHR ''#'' then get_flags (fs\<lparr>alt_form := True\<rparr>) f
      else if c = CHR ''-'' then get_flags (fs\<lparr>left_justify := True\<rparr>) f
      else if c = CHR '' '' then get_flags (fs\<lparr>plus_space := True\<rparr>) f
      else if c = CHR ''+'' then get_flags (fs\<lparr>plus_plus := True\<rparr>) f
      else (fs, c # f))"

text \<open>A decimal number in the format, converted to \<open>int\<close>.\<close>

definition get_number :: "string \<Rightarrow> int \<times> string" where
  "get_number f = (case malloc_strtoumax f 10 of (u, f, _) \<Rightarrow> (sint (ucast u :: 32 word), f))"

definition get_width :: "fspec \<Rightarrow> string \<Rightarrow> va_arg list \<Rightarrow> (fspec \<times> string \<times> va_arg list) option" where
  "get_width fs f ap =
     (if ch f 0 = CHR ''*'' then
        (case ap of Va_int w # ap \<Rightarrow>
           Some (if sint w < 0 then fs\<lparr>left_justify := True, fs_width := - sint w\<rparr>
                 else fs\<lparr>fs_width := sint w\<rparr>, drop 1 f, ap)
         | _ \<Rightarrow> None)
      else if decimal (ch f 0) then (case get_number f of (n, f) \<Rightarrow> Some (fs\<lparr>fs_width := n\<rparr>, f, ap))
      else Some (fs, f, ap))"

definition get_prec :: "fspec \<Rightarrow> string \<Rightarrow> va_arg list \<Rightarrow> (fspec \<times> string \<times> va_arg list) option" where
  "get_prec fs f ap =
     (if ch f 0 = CHR ''.'' then
        (let f = drop 1 f
         in if ch f 0 = CHR ''*'' then
              (case ap of Va_int w # ap \<Rightarrow> Some (fs\<lparr>fs_prec := sint w\<rparr>, drop 1 f, ap) | _ \<Rightarrow> None)
            else if decimal (ch f 0) then (case get_number f of (n, f) \<Rightarrow> Some (fs\<lparr>fs_prec := n\<rparr>, f, ap))
            else Some (fs, f, ap))
      else Some (fs, f, ap))"

definition get_len :: "fspec \<Rightarrow> string \<Rightarrow> fspec \<times> string" where
  "get_len fs f =
     (if ch f 0 = CHR ''l'' then
        (if ch f 1 = CHR ''l'' then (fs\<lparr>fs_len := CHR ''q''\<rparr>, drop 2 f)
         else (fs\<lparr>fs_len := CHR ''l''\<rparr>, drop 1 f))
      else if ch f 0 \<in> set ''qjtz'' then (fs\<lparr>fs_len := ch f 0\<rparr>, drop 1 f)
      else (fs, f))"

text \<open>
  \<open>GET_ARG_NUMERIC\<close>: an \<open>int\<close> is sign extended, an \<open>unsigned int\<close> (the 0x80 bit of the length) is
  not; an unsigned \<open>t\<close> is not reached.
\<close>

definition get_arg_numeric :: "char \<Rightarrow> bool \<Rightarrow> va_arg list \<Rightarrow> (uint64 \<times> va_arg list) option" where
  "get_arg_numeric len unsgn ap =
     (if len = CHR ''?'' then
        (case ap of Va_int w # ap \<Rightarrow> Some (if unsgn then ucast w else scast w, ap) | _ \<Rightarrow> None)
      else if len \<in> set ''lqjzp'' \<or> len = CHR ''t'' \<and> \<not> unsgn then
        (case ap of Va_long w # ap \<Rightarrow> Some (w, ap) | _ \<Rightarrow> None)
      else None)"

text \<open>What a conversion appends: a character, or a text in a field.\<close>

datatype piece = Plain char | Padded string int bool

definition padded :: "fspec \<Rightarrow> string option \<times> va_arg list \<Rightarrow> (piece \<times> va_arg list) option" where
  "padded fs r = (case r of (s, ap) \<Rightarrow>
     map_option (\<lambda>s. (Padded s (fs_width fs) (left_justify fs), ap)) s)"

definition convert :: "fspec \<Rightarrow> char \<Rightarrow> va_arg list \<Rightarrow> (piece \<times> va_arg list) option" where
  "convert fs c ap =
     (if c = CHR ''%'' then Some (Plain (CHR ''%''), ap)
      else if c = CHR ''d'' \<or> c = CHR ''i'' then
        Option.bind (get_arg_numeric (fs_len fs) False ap) (\<lambda>(val, ap).
          padded fs (d2s val (if plus_plus fs then CHR ''+'' else if plus_space fs then CHR '' '' else CHR ''-''), ap))
      else if c = CHR ''o'' then
        Option.bind (get_arg_numeric (fs_len fs) True ap) (\<lambda>(val, ap). padded fs (o2s val (alt_form fs), ap))
      else if c = CHR ''u'' then
        Option.bind (get_arg_numeric (fs_len fs) True ap) (\<lambda>(val, ap). padded fs (u2s val 10 False, ap))
      else if c = CHR ''x'' \<or> c = CHR ''X'' then
        Option.bind (get_arg_numeric (fs_len fs) True ap) (\<lambda>(val, ap).
          padded fs (x2s val (alt_form fs) (c = CHR ''X''), ap))
      else if c = CHR ''c'' then
        (case ap of Va_int w # ap \<Rightarrow> padded fs (Some [char_of (unat (ucast w :: uint8))], ap) | _ \<Rightarrow> None)
      else if c = CHR ''s'' then
        (case ap of Va_str s # ap \<Rightarrow>
           if fs_prec fs < 0 then padded fs (Some s, ap)
           else if nat (fs_prec fs) \<le> length s then padded fs (Some (take (nat (fs_prec fs)) s), ap)
           else None
         | _ \<Rightarrow> None)
      else if c = CHR ''p'' then
        Option.bind (get_arg_numeric (CHR ''p'') False ap) (\<lambda>(val, ap). padded fs (x2s val True False, ap))
      else None)"

text \<open>One conversion, behind its percent sign.\<close>

definition get_conversion :: "string \<Rightarrow> va_arg list \<Rightarrow> (piece \<times> string \<times> va_arg list) option" where
  "get_conversion f ap =
     (case get_flags fspec0 f of (fs, f) \<Rightarrow>
        Option.bind (get_width fs f ap) (\<lambda>(fs, f, ap).
        Option.bind (get_prec fs f ap) (\<lambda>(fs, f, ap).
          case get_len fs f of (fs, f) \<Rightarrow>
            (case f of [] \<Rightarrow> None
             | c # f \<Rightarrow> map_option (\<lambda>(p, ap). (p, f, ap)) (convert fs c ap)))))"

definition append_piece :: "nat \<Rightarrow> piece \<Rightarrow> writer \<Rightarrow> writer" where
  "append_piece sz p w =
     (case p of Plain c \<Rightarrow> append_c sz c w | Padded s width left \<Rightarrow> append_padded_s sz s width left w)"

text \<open>A conversion consumes part of the format.\<close>

lemma strto_loop_rest_length: "length (fst (snd (strto_loop b r p))) \<le> length p"
  by (induction p arbitrary: r) (auto simp: Let_def le_SucI split: option.splits)

lemma skip_sign_length: "length (snd (skip_sign p)) \<le> length p"
  using skip_sign_suffix [of p] by auto

lemma get_prefix_length:
  "get_prefix b p = Inr (c, q) \<Longrightarrow> length q \<le> length p" "get_prefix b p = Inl q \<Longrightarrow> length q \<le> length p"
  by (auto simp: get_prefix_def Let_def split: if_splits)

lemma strtoumax_rest_length: "length (fst (snd (malloc_strtoumax p b))) \<le> length p"
proof (cases "b < 0 \<or> b = 1 \<or> b > 36")
  case False
  obtain neg ns where s: "skip_sign p = (neg, ns)" by (cases "skip_sign p")
  then have ns: "length ns \<le> length p" using skip_sign_length [of p] by simp
  show ?thesis
  proof (cases "get_prefix (nat b) ns")
    case (Inl q)
    with s ns False get_prefix_length(2) [OF Inl] show ?thesis by (simp add: malloc_strtoumax_def)
  next
    case (Inr cq)
    obtain c q where cq: "cq = (c, q)" by (cases cq)
    let ?c = "if c = 0 then 10 else c"
    obtain ret r ov where l: "strto_loop ?c 0 q = (ret, r, ov)" by (metis prod_cases3)
    have "length r \<le> length p"
      using strto_loop_rest_length [of ?c 0 q] get_prefix_length(1) [OF Inr [unfolded cq]] ns l by simp
    with s False Inr cq l show ?thesis by (simp add: malloc_strtoumax_def Let_def)
  qed
qed (simp add: malloc_strtoumax_def)

lemma get_number_length: "length (snd (get_number f)) \<le> length f"
  using strtoumax_rest_length [of f 10] by (cases "malloc_strtoumax f 10") (simp add: get_number_def)

lemma get_flags_length: "length (snd (get_flags fs f)) \<le> length f"
  by (induction fs f rule: get_flags.induct) (simp_all add: le_SucI)

lemma get_width_length: "get_width fs f ap = Some (fs', f', ap') \<Longrightarrow> length f' \<le> length f"
  using get_number_length [of f] by (auto simp: get_width_def split: if_splits list.splits va_arg.splits prod.splits)

lemma get_prec_length: "get_prec fs f ap = Some (fs', f', ap') \<Longrightarrow> length f' \<le> length f"
  using get_number_length [of "drop 1 f"]
  by (auto simp: get_prec_def Let_def split: if_splits list.splits va_arg.splits prod.splits)

lemma get_len_length: "length (snd (get_len fs f)) \<le> length f"
  by (simp add: get_len_def)

lemma get_conversion_length:
  assumes "get_conversion f ap = Some (p, f', ap')"
  shows "length f' < length f"
proof -
  obtain fs g where 1: "get_flags fspec0 f = (fs, g)" by (cases "get_flags fspec0 f")
  with assms obtain fs2 g2 ap2 where 2: "get_width fs g ap = Some (fs2, g2, ap2)"
    by (auto simp: get_conversion_def bind_eq_Some_conv)
  with assms 1 obtain fs3 g3 ap3 where 3: "get_prec fs2 g2 ap2 = Some (fs3, g3, ap3)"
    by (auto simp: get_conversion_def bind_eq_Some_conv)
  obtain fs4 g4 where 4: "get_len fs3 g3 = (fs4, g4)" by (cases "get_len fs3 g3")
  with assms 1 2 3 obtain c where "g4 = c # f'"
    by (auto simp: get_conversion_def split: list.splits)
  moreover have "length g \<le> length f" "length g2 \<le> length g" "length g3 \<le> length g2" "length g4 \<le> length g3"
    using get_flags_length [of fspec0 f] get_width_length [OF 2] get_prec_length [OF 3] get_len_length [of fs3 g3]
    by (simp_all add: 1 4)
  ultimately show ?thesis by simp
qed

section \<open>The formatted output\<close>

text \<open>The loop over the format.\<close>

function vsnprintf_loop :: "nat \<Rightarrow> string \<Rightarrow> va_arg list \<Rightarrow> writer \<Rightarrow> writer option" where
  "vsnprintf_loop sz [] ap w = Some w"
| "vsnprintf_loop sz (c # f) ap w =
     (if c = CHR ''%'' then
        (case get_conversion f ap of None \<Rightarrow> None
         | Some (p, f, ap) \<Rightarrow> vsnprintf_loop sz f ap (append_piece sz p w))
      else vsnprintf_loop sz f ap (append_c sz c w))"
  by pat_completeness auto
termination
  by (relation "measure (\<lambda>(_, f, _). length f)") (auto dest: get_conversion_length)

definition malloc_vsnprintf :: "string \<Rightarrow> nat \<Rightarrow> string \<Rightarrow> va_arg list \<Rightarrow> (nat \<times> string) option" where
  "malloc_vsnprintf str sz format ap =
     (case vsnprintf_loop sz format ap (0, str) of None \<Rightarrow> None
      | Some (i, str) \<Rightarrow>
          if i < sz then Some (i, str[i := CHR 0x00])
          else if sz = 0 then None
          else Some (i, str[sz - 1 := CHR 0x00]))"

section \<open>The text of a format\<close>

text \<open>What an unlimited buffer would hold.\<close>

definition piece_text :: "piece \<Rightarrow> string" where
  "piece_text p =
     (case p of Plain c \<Rightarrow> [c]
      | Padded s width left \<Rightarrow>
          (let blank = replicate (pad_len (length s) width) (CHR '' '')
           in if left then s @ blank else blank @ s))"

function format_text :: "string \<Rightarrow> va_arg list \<Rightarrow> string option" where
  "format_text [] ap = Some []"
| "format_text (c # f) ap =
     (if c = CHR ''%'' then
        (case get_conversion f ap of None \<Rightarrow> None
         | Some (p, f, ap) \<Rightarrow> map_option ((@) (piece_text p)) (format_text f ap))
      else map_option ((#) c) (format_text f ap))"
  by pat_completeness auto
termination
  by (relation "measure (\<lambda>(f, _). length f)") (auto dest: get_conversion_length)

text \<open>The buffer of the writer after the text \<open>t\<close>: as much of \<open>t\<close> as fits, over what was there.\<close>

definition written :: "nat \<Rightarrow> string \<Rightarrow> string \<Rightarrow> writer" where
  "written sz str t = (length t, take sz (t @ drop (length t) str))"

lemma written_alt:
  assumes "length str = sz"
  shows "written sz str t = (length t, if length t < sz then t @ drop (length t) str else take sz t)"
  using assms by (simp add: written_def)

lemma append_c_written:
  assumes "length str = sz"
  shows "append_c sz c (written sz str t) = written sz str (t @ [c])"
proof (cases "length t < sz")
  case True
  then have "drop (length t) str = str ! length t # drop (Suc (length t)) str"
    using assms by (simp add: Cons_nth_drop_Suc)
  with True assms show ?thesis
    by (cases "Suc (length t) = sz") (simp_all add: append_c_def written_alt)
qed (use assms in \<open>simp add: append_c_def written_alt\<close>)

lemma append_s_written:
  assumes "length str = sz"
  shows "append_s sz s (written sz str t) = written sz str (t @ s)"
proof (cases "length t < sz")
  case True
  with assms show ?thesis
    by (cases "length s \<le> sz - length t"; cases "length t + length s = sz")
      (auto simp: append_s_def written_alt add.commute)
qed (use assms in \<open>simp add: append_s_def written_alt\<close>)

lemma append_cs_written:
  "length str = sz \<Longrightarrow> (append_c sz c ^^ n) (written sz str t) = written sz str (t @ replicate n c)"
  by (induction n) (simp_all add: append_c_written flip: replicate_append_same)

lemma append_piece_written:
  assumes "length str = sz"
  shows "append_piece sz p (written sz str t) = written sz str (t @ piece_text p)"
  using assms
  by (cases p) (simp_all add: append_piece_def append_padded_s_def piece_text_def append_c_written
      append_s_written append_cs_written Let_def)

lemma vsnprintf_loop_written:
  "length str = sz \<Longrightarrow> vsnprintf_loop sz f ap (written sz str t)
    = map_option (\<lambda>u. written sz str (t @ u)) (format_text f ap)"
proof (induction f ap arbitrary: t rule: format_text.induct)
  case (2 c f ap)
  then show ?case
    by (auto simp: append_c_written append_piece_written option.map_comp comp_def split: option.splits)
qed simp



lemma vsnprintf_example:
  "format_text ''%5u %s'' [Va_int 42, Va_str ''bytes''] = Some ''   42 bytes''"
  by code_simp

end
