(* ===== verification/Hash.thy ===== *)
theory Hash
  imports Jem_Prelude
begin

text \<open>
  include/jemalloc/internal/hash.h: the MurmurHash3 functions. A key is the list of its bytes;
  blocks are read in the little endian order of the target. The loops that count a negative index
  up to 0 run over the same blocks in the same order as one that counts from 0.
\<close>

section \<open>The primitives\<close>

type_synonym key = "uint8 list"

definition hash_rotl_32 :: "uint32 \<Rightarrow> nat \<Rightarrow> uint32" where
  "hash_rotl_32 x r = push_bit r x OR drop_bit (32 - r) x"

definition hash_rotl_64 :: "uint64 \<Rightarrow> nat \<Rightarrow> uint64" where
  "hash_rotl_64 x r = push_bit r x OR drop_bit (64 - r) x"

text \<open>A little endian word in memory.\<close>

fun le_word :: "uint8 list \<Rightarrow> 'a::len word" where
  "le_word [] = 0"
| "le_word (b # bs) = ucast b OR push_bit 8 (le_word bs)"

definition hash_get_block_32 :: "key \<Rightarrow> nat \<Rightarrow> uint32" where
  "hash_get_block_32 p i = le_word (take 4 (drop (4 * i) p))"

definition hash_get_block_64 :: "key \<Rightarrow> nat \<Rightarrow> uint64" where
  "hash_get_block_64 p i = le_word (take 8 (drop (8 * i) p))"

definition hash_fmix_32 :: "uint32 \<Rightarrow> uint32" where
  "hash_fmix_32 h =
     (let h = h XOR drop_bit 16 h;
          h = h * 0x85ebca6b;
          h = h XOR drop_bit 13 h;
          h = h * 0xc2b2ae35
      in h XOR drop_bit 16 h)"

definition hash_fmix_64 :: "uint64 \<Rightarrow> uint64" where
  "hash_fmix_64 k =
     (let k = k XOR drop_bit 33 k;
          k = k * 0xff51afd7ed558ccd;
          k = k XOR drop_bit 33 k;
          k = k * 0xc4ceb9fe1a85ec53
      in k XOR drop_bit 33 k)"

text \<open>
  The fall-through cases of a tail: the bytes \<open>n - 1\<close>, \<dots>, \<open>0\<close> are shifted to their places and
  added by exclusive or.
\<close>

fun hash_tail :: "nat \<Rightarrow> uint8 list \<Rightarrow> 'a::len word \<Rightarrow> 'a word" where
  "hash_tail 0 tail k = k"
| "hash_tail (Suc j) tail k = hash_tail j tail (k XOR push_bit (8 * j) (ucast (tail ! j)))"

section \<open>The 32-bit hash\<close>

definition mix_32 :: "uint32 \<Rightarrow> nat \<Rightarrow> uint32 \<Rightarrow> uint32 \<Rightarrow> uint32" where
  "mix_32 c r c' k = (let k = k * c; k = hash_rotl_32 k r in k * c')"

definition x86_32_body :: "key \<Rightarrow> uint32 \<Rightarrow> nat \<Rightarrow> uint32" where
  "x86_32_body blocks h1 i =
     (let k1 = hash_get_block_32 blocks i;
          k1 = mix_32 0xcc9e2d51 15 0x1b873593 k1;
          h1 = h1 XOR k1;
          h1 = hash_rotl_32 h1 13
      in h1 * 5 + 0xe6546b64)"

definition x86_32_tail :: "key \<Rightarrow> uint32 \<Rightarrow> uint32" where
  "x86_32_tail tail h1 =
     (if length tail = 0 then h1
      else h1 XOR mix_32 0xcc9e2d51 15 0x1b873593 (hash_tail (length tail) tail 0))"

definition hash_x86_32 :: "key \<Rightarrow> uint32 \<Rightarrow> uint32" where
  "hash_x86_32 key seed =
     (let len = length key; nblocks = len div 4;
          h1 = foldl (x86_32_body key) seed [0..<nblocks];
          h1 = x86_32_tail (drop (nblocks * 4) key) h1
      in hash_fmix_32 (h1 XOR of_nat len))"

section \<open>The 128-bit hash for 32-bit targets\<close>

type_synonym x86_state = "uint32 \<times> uint32 \<times> uint32 \<times> uint32"

definition x86_k1 :: "uint32 \<Rightarrow> uint32" where "x86_k1 = mix_32 0x239b961b 15 0xab0e9789"
definition x86_k2 :: "uint32 \<Rightarrow> uint32" where "x86_k2 = mix_32 0xab0e9789 16 0x38b34ae5"
definition x86_k3 :: "uint32 \<Rightarrow> uint32" where "x86_k3 = mix_32 0x38b34ae5 17 0xa1e38b93"
definition x86_k4 :: "uint32 \<Rightarrow> uint32" where "x86_k4 = mix_32 0xa1e38b93 18 0x239b961b"

definition x86_128_body :: "key \<Rightarrow> x86_state \<Rightarrow> nat \<Rightarrow> x86_state" where
  "x86_128_body blocks h i = (case h of (h1, h2, h3, h4) \<Rightarrow>
     (let k1 = hash_get_block_32 blocks (i * 4 + 0);
          k2 = hash_get_block_32 blocks (i * 4 + 1);
          k3 = hash_get_block_32 blocks (i * 4 + 2);
          k4 = hash_get_block_32 blocks (i * 4 + 3);
          h1 = h1 XOR x86_k1 k1; h1 = hash_rotl_32 h1 19; h1 = h1 + h2; h1 = h1 * 5 + 0x561ccd1b;
          h2 = h2 XOR x86_k2 k2; h2 = hash_rotl_32 h2 17; h2 = h2 + h3; h2 = h2 * 5 + 0x0bcaa747;
          h3 = h3 XOR x86_k3 k3; h3 = hash_rotl_32 h3 15; h3 = h3 + h4; h3 = h3 * 5 + 0x96cd1c35;
          h4 = h4 XOR x86_k4 k4; h4 = hash_rotl_32 h4 13; h4 = h4 + h1; h4 = h4 * 5 + 0x32ac3b17
      in (h1, h2, h3, h4)))"

definition x86_128_tail :: "key \<Rightarrow> x86_state \<Rightarrow> x86_state" where
  "x86_128_tail tail h = (case h of (h1, h2, h3, h4) \<Rightarrow>
     (let n = length tail;
          h4 = (if n > 12 then h4 XOR x86_k4 (hash_tail (n - 12) (drop 12 tail) 0) else h4);
          h3 = (if n > 8 then h3 XOR x86_k3 (hash_tail (min 4 (n - 8)) (drop 8 tail) 0) else h3);
          h2 = (if n > 4 then h2 XOR x86_k2 (hash_tail (min 4 (n - 4)) (drop 4 tail) 0) else h2);
          h1 = (if n > 0 then h1 XOR x86_k1 (hash_tail (min 4 n) tail 0) else h1)
      in (h1, h2, h3, h4)))"

definition x86_128_final :: "nat \<Rightarrow> x86_state \<Rightarrow> uint64 \<times> uint64" where
  "x86_128_final len h = (case h of (h1, h2, h3, h4) \<Rightarrow>
     (let h1 = h1 XOR of_nat len; h2 = h2 XOR of_nat len; h3 = h3 XOR of_nat len; h4 = h4 XOR of_nat len;
          h1 = h1 + h2; h1 = h1 + h3; h1 = h1 + h4;
          h2 = h2 + h1; h3 = h3 + h1; h4 = h4 + h1;
          h1 = hash_fmix_32 h1; h2 = hash_fmix_32 h2; h3 = hash_fmix_32 h3; h4 = hash_fmix_32 h4;
          h1 = h1 + h2; h1 = h1 + h3; h1 = h1 + h4;
          h2 = h2 + h1; h3 = h3 + h1; h4 = h4 + h1
      in (push_bit 32 (ucast h2) OR ucast h1, push_bit 32 (ucast h4) OR ucast h3)))"

definition hash_x86_128 :: "key \<Rightarrow> uint32 \<Rightarrow> uint64 \<times> uint64" where
  "hash_x86_128 key seed =
     (let len = length key; nblocks = len div 16;
          h = foldl (x86_128_body key) (seed, seed, seed, seed) [0..<nblocks];
          h = x86_128_tail (drop (nblocks * 16) key) h
      in x86_128_final len h)"

section \<open>The 128-bit hash for 64-bit targets\<close>

type_synonym x64_state = "uint64 \<times> uint64"

definition mix_64 :: "uint64 \<Rightarrow> nat \<Rightarrow> uint64 \<Rightarrow> uint64 \<Rightarrow> uint64" where
  "mix_64 c r c' k = (let k = k * c; k = hash_rotl_64 k r in k * c')"

definition x64_k1 :: "uint64 \<Rightarrow> uint64" where "x64_k1 = mix_64 0x87c37b91114253d5 31 0x4cf5ad432745937f"
definition x64_k2 :: "uint64 \<Rightarrow> uint64" where "x64_k2 = mix_64 0x4cf5ad432745937f 33 0x87c37b91114253d5"

definition x64_128_body :: "key \<Rightarrow> x64_state \<Rightarrow> nat \<Rightarrow> x64_state" where
  "x64_128_body blocks h i = (case h of (h1, h2) \<Rightarrow>
     (let k1 = hash_get_block_64 blocks (i * 2 + 0);
          k2 = hash_get_block_64 blocks (i * 2 + 1);
          h1 = h1 XOR x64_k1 k1; h1 = hash_rotl_64 h1 27; h1 = h1 + h2; h1 = h1 * 5 + 0x52dce729;
          h2 = h2 XOR x64_k2 k2; h2 = hash_rotl_64 h2 31; h2 = h2 + h1; h2 = h2 * 5 + 0x38495ab5
      in (h1, h2)))"

definition x64_128_tail :: "key \<Rightarrow> x64_state \<Rightarrow> x64_state" where
  "x64_128_tail tail h = (case h of (h1, h2) \<Rightarrow>
     (let n = length tail;
          h2 = (if n > 8 then h2 XOR x64_k2 (hash_tail (n - 8) (drop 8 tail) 0) else h2);
          h1 = (if n > 0 then h1 XOR x64_k1 (hash_tail (min 8 n) tail 0) else h1)
      in (h1, h2)))"

definition x64_128_final :: "nat \<Rightarrow> x64_state \<Rightarrow> uint64 \<times> uint64" where
  "x64_128_final len h = (case h of (h1, h2) \<Rightarrow>
     (let h1 = h1 XOR of_nat len; h2 = h2 XOR of_nat len;
          h1 = h1 + h2; h2 = h2 + h1;
          h1 = hash_fmix_64 h1; h2 = hash_fmix_64 h2;
          h1 = h1 + h2; h2 = h2 + h1
      in (h1, h2)))"

definition hash_x64_128 :: "key \<Rightarrow> uint32 \<Rightarrow> uint64 \<times> uint64" where
  "hash_x64_128 key seed =
     (let len = length key; nblocks = len div 16;
          h = foldl (x64_128_body key) (ucast seed, ucast seed) [0..<nblocks];
          h = x64_128_tail (drop (nblocks * 16) key) h
      in x64_128_final len h)"

text \<open>The API on a 64-bit little endian target.\<close>

definition hash :: "key \<Rightarrow> uint32 \<Rightarrow> size_t \<times> size_t" where
  "hash key seed = hash_x64_128 key seed"

section \<open>The primitives are injective\<close>

text \<open>Equal little endian words of lists of the same length, at most that of the word.\<close>

fun le_nat :: "uint8 list \<Rightarrow> nat" where
  "le_nat [] = 0"
| "le_nat (b # bs) = unat b + 256 * le_nat bs"

lemma le_nat_less: "le_nat bs < 256 ^ length bs"
proof (induction bs)
  case (Cons b bs)
  have "unat b < 256" using unat_lt2p [of b] by simp
  with Cons show ?case by simp
qed simp

lemma le_nat_inj: "length xs = length ys \<Longrightarrow> le_nat xs = le_nat ys \<Longrightarrow> xs = ys"
proof (induction xs ys rule: list_induct2)
  case (Cons x xs y ys)
  have lt: "unat x < 256" "unat y < 256" using unat_lt2p [of x] unat_lt2p [of y] by simp_all
  have "unat x = (unat x + 256 * le_nat xs) mod 256" using lt by simp
  also have "\<dots> = unat y" using Cons.prems lt by simp
  finally have "x = y" by (simp add: unsigned_word_eqI)
  with Cons show ?case by simp
qed simp

lemma le_nat_append: "le_nat (xs @ ys) = le_nat xs + 256 ^ length xs * le_nat ys"
  by (induction xs) (simp_all add: algebra_simps)

lemma disjoint_low_high: "unat a < 2 ^ k \<Longrightarrow> a AND push_bit k b = 0" for a b :: "'a::len word"
proof (rule bit_eqI)
  fix n
  assume "unat a < 2 ^ k"
  then have "take_bit k (unat a) = unat a" by (simp add: take_bit_nat_eq_self)
  then have "bit (unat a) n \<Longrightarrow> n < k" by (metis bit_take_bit_iff)
  then have "bit a n \<Longrightarrow> n < k" by (simp add: bit_unsigned_iff)
  then show "bit (a AND push_bit k b) n = bit 0 n" by (auto simp: bit_simps)
qed

lemma unat_le_word: "8 * length bs \<le> LENGTH('a) \<Longrightarrow> unat (le_word bs :: 'a::len word) = le_nat bs"
proof (induction bs)
  case (Cons b bs)
  have b: "unat (ucast b :: 'a word) = unat b" "unat b < 2 ^ 8"
    using Cons.prems unat_lt2p [of b] power_increasing [of 8 "LENGTH('a)" "2::nat"]
    by (simp_all add: unsigned_ucast_eq take_bit_nat_eq_self)
  have p: "(256::nat) ^ length bs * 256 \<le> 2 ^ LENGTH('a)"
  proof -
    have "(256::nat) ^ length bs * 256 = 2 ^ (8 * length (b # bs))" by (simp add: power_mult power_add)
    also have "\<dots> \<le> 2 ^ LENGTH('a)" using Cons.prems by (intro power_increasing) simp_all
    finally show ?thesis .
  qed
  have "le_nat bs * 256 < 2 ^ LENGTH('a)"
    using le_nat_less [of bs] p by linarith
  then have h: "unat (push_bit 8 (le_word bs) :: 'a word) = le_nat bs * 256"
    using Cons by (subst unat_push_bit_eq) simp_all
  have "unat (ucast b :: 'a word) + unat (push_bit 8 (le_word bs) :: 'a word) < 2 ^ LENGTH('a)"
    using le_nat_less [of "b # bs"] p unfolding h b(1) by (simp add: algebra_simps)
  then have "unat (ucast b + push_bit 8 (le_word bs) :: 'a word) = unat b + 256 * le_nat bs"
    by (simp add: unat_add_eq h b)
  moreover have "(ucast b :: 'a word) + push_bit 8 (le_word bs) = le_word (b # bs)"
    using disjoint_low_high [of "ucast b :: 'a word" 8 "le_word bs"] b by (simp add: disjunctive_add_eq_or)
  ultimately show ?case by simp
qed simp

lemma le_word_inj:
  assumes "length xs = length ys" "8 * length xs \<le> LENGTH('a)" "(le_word xs :: 'a::len word) = le_word ys"
  shows "xs = ys"
  using le_nat_inj [OF assms(1)] unat_le_word [of xs, where 'a = 'a] unat_le_word [of ys, where 'a = 'a] assms
  by simp

lemma le_word_snoc: "le_word (xs @ [b]) = le_word xs XOR push_bit (8 * length xs) (ucast b)"
proof (induction xs)
  case (Cons x xs)
  have "8 \<le> n \<Longrightarrow> \<not> bit x n" for n using bit_imp_le_length [of x n] by auto
  then show ?case
    unfolding append_Cons le_word.simps Cons.IH
    by (intro bit_eqI) (auto simp: bit_simps algebra_simps)
qed simp

lemma xor_cancel: "a XOR b = a XOR c \<longleftrightarrow> b = c" "b XOR a = c XOR a \<longleftrightarrow> b = c" for a b c :: "'a::len word"
  by (metis xor.assoc xor.commute xor_self_eq xor.left_neutral)+

lemma hash_tail_le_word:
  "n \<le> length tail \<Longrightarrow> hash_tail n tail k = k XOR le_word (take n tail)"
proof (induction n arbitrary: k)
  case (Suc j)
  then have "take (Suc j) tail = take j tail @ [tail ! j]" by (simp add: take_Suc_conv_app_nth)
  then have "le_word (take (Suc j) tail) = le_word (take j tail) XOR push_bit (8 * j) (ucast (tail ! j) :: 'a word)"
    using le_word_snoc [of "take j tail" "tail ! j"] Suc.prems by (simp add: min_def)
  with Suc show ?case by (simp add: ac_simps)
qed simp

lemma rotl_inj:
  fixes x y :: "'a::len word"
  assumes "0 < r" "r < LENGTH('a)"
    and "push_bit r x OR drop_bit (LENGTH('a) - r) x = push_bit r y OR drop_bit (LENGTH('a) - r) y"
  shows "x = y"
proof (rule bit_word_eqI)
  fix n
  assume n: "n < LENGTH('a)"
  have *: "bit z n = bit (push_bit r z OR drop_bit (LENGTH('a) - r) z) (if n + r < LENGTH('a) then n + r else n + r - LENGTH('a))"
    for z :: "'a word"
    using n assms(1,2) bit_imp_le_length [of z "n + LENGTH('a)"] by (auto simp: bit_simps add.commute)
  show "bit x n \<longleftrightarrow> bit y n" unfolding * [of x] * [of y] assms(3) ..
qed

lemma drop_bit_fixpoint: "0 < k \<Longrightarrow> drop_bit k d = d \<Longrightarrow> d = 0" for d :: "'a::len word"
proof -
  assume k: "0 < k" "drop_bit k d = d"
  have "drop_bit (k * n) d = d" for n
  proof (induction n)
    case (Suc n)
    have "drop_bit (k * Suc n) d = drop_bit (k * n) (drop_bit k d)" by (simp add: add.commute)
    with Suc k(2) show ?case by simp
  qed simp
  from this [of "LENGTH('a)"] have "drop_bit (k * LENGTH('a)) d = d" .
  moreover have "drop_bit (k * LENGTH('a)) d = 0"
    using k(1) by (intro bit_eqI) (auto simp: bit_simps dest: bit_imp_le_length)
  ultimately show "d = 0" by simp
qed

lemma xorshift_inj:
  fixes x y :: "'a::len word"
  assumes "0 < k" "x XOR drop_bit k x = y XOR drop_bit k y"
  shows "x = y"
proof -
  have "drop_bit k (x XOR y) = x XOR y"
    using assms(2) by simp (metis xor.assoc xor.commute xor_self_eq xor.left_neutral)
  from drop_bit_fixpoint [OF assms(1) this] show ?thesis
    by (metis xor_self_eq xor_cancel(2))
qed

lemma mult_inj: "c * d = 1 \<Longrightarrow> a * c = b * c \<Longrightarrow> a = b" for a b c d :: "'a::len word"
  by (metis mult.assoc mult.right_neutral)

text \<open>The odd constants and their inverses.\<close>

lemma mult_inj_32:
  fixes x y :: "32 word"
  shows "x * 0xcc9e2d51 = y * 0xcc9e2d51 \<longleftrightarrow> x = y"
    "x * 0x1b873593 = y * 0x1b873593 \<longleftrightarrow> x = y"
    "x * 0x239b961b = y * 0x239b961b \<longleftrightarrow> x = y"
    "x * 0xab0e9789 = y * 0xab0e9789 \<longleftrightarrow> x = y"
    "x * 0x38b34ae5 = y * 0x38b34ae5 \<longleftrightarrow> x = y"
    "x * 0xa1e38b93 = y * 0xa1e38b93 \<longleftrightarrow> x = y"
    "x * 0x85ebca6b = y * 0x85ebca6b \<longleftrightarrow> x = y"
    "x * 0xc2b2ae35 = y * 0xc2b2ae35 \<longleftrightarrow> x = y"
    "x * 5 = y * 5 \<longleftrightarrow> x = y"
proof -
  show "x * 0xcc9e2d51 = y * 0xcc9e2d51 \<longleftrightarrow> x = y"
    using mult_inj [of "0xcc9e2d51 :: 32 word" 3739302833 x y] by auto
  show "x * 0x1b873593 = y * 0x1b873593 \<longleftrightarrow> x = y"
    using mult_inj [of "0x1b873593 :: 32 word" 1458385051 x y] by auto
  show "x * 0x239b961b = y * 0x239b961b \<longleftrightarrow> x = y"
    using mult_inj [of "0x239b961b :: 32 word" 2311672851 x y] by auto
  show "x * 0xab0e9789 = y * 0xab0e9789 \<longleftrightarrow> x = y"
    using mult_inj [of "0xab0e9789 :: 32 word" 3742568121 x y] by auto
  show "x * 0x38b34ae5 = y * 0x38b34ae5 \<longleftrightarrow> x = y"
    using mult_inj [of "0x38b34ae5 :: 32 word" 1954046701 x y] by auto
  show "x * 0xa1e38b93 = y * 0xa1e38b93 \<longleftrightarrow> x = y"
    using mult_inj [of "0xa1e38b93 :: 32 word" 1490438811 x y] by auto
  show "x * 0x85ebca6b = y * 0x85ebca6b \<longleftrightarrow> x = y"
    using mult_inj [of "0x85ebca6b :: 32 word" 2781581891 x y] by auto
  show "x * 0xc2b2ae35 = y * 0xc2b2ae35 \<longleftrightarrow> x = y"
    using mult_inj [of "0xc2b2ae35 :: 32 word" 2127672349 x y] by auto
  show "x * 5 = y * 5 \<longleftrightarrow> x = y"
    using mult_inj [of "5 :: 32 word" 3435973837 x y] by auto
qed

lemma mult_inj_64:
  fixes x y :: "64 word"
  shows "x * 0x87c37b91114253d5 = y * 0x87c37b91114253d5 \<longleftrightarrow> x = y"
    "x * 0x4cf5ad432745937f = y * 0x4cf5ad432745937f \<longleftrightarrow> x = y"
    "x * 0xff51afd7ed558ccd = y * 0xff51afd7ed558ccd \<longleftrightarrow> x = y"
    "x * 0xc4ceb9fe1a85ec53 = y * 0xc4ceb9fe1a85ec53 \<longleftrightarrow> x = y"
    "x * 5 = y * 5 \<longleftrightarrow> x = y"
proof -
  show "x * 0x87c37b91114253d5 = y * 0x87c37b91114253d5 \<longleftrightarrow> x = y"
    using mult_inj [of "0x87c37b91114253d5 :: 64 word" 12214898983567248765 x y] by auto
  show "x * 0x4cf5ad432745937f = y * 0x4cf5ad432745937f \<longleftrightarrow> x = y"
    using mult_inj [of "0x4cf5ad432745937f :: 64 word" 12114143059468233855 x y] by auto
  show "x * 0xff51afd7ed558ccd = y * 0xff51afd7ed558ccd \<longleftrightarrow> x = y"
    using mult_inj [of "0xff51afd7ed558ccd :: 64 word" 5725274745694666757 x y] by auto
  show "x * 0xc4ceb9fe1a85ec53 = y * 0xc4ceb9fe1a85ec53 \<longleftrightarrow> x = y"
    using mult_inj [of "0xc4ceb9fe1a85ec53 :: 64 word" 11291846944257947611 x y] by auto
  show "x * 5 = y * 5 \<longleftrightarrow> x = y"
    using mult_inj [of "5 :: 64 word" 14757395258967641293 x y] by auto
qed

lemma hash_rotl_inj:
  "0 < r \<Longrightarrow> r < 32 \<Longrightarrow> hash_rotl_32 a r = hash_rotl_32 b r \<longleftrightarrow> a = b"
  "0 < r \<Longrightarrow> r < 64 \<Longrightarrow> hash_rotl_64 c r = hash_rotl_64 d r \<longleftrightarrow> c = d"
  using rotl_inj [of r a b] rotl_inj [of r c d] by (auto simp: hash_rotl_32_def hash_rotl_64_def)

lemma hash_fmix_inj:
  "hash_fmix_32 a = hash_fmix_32 b \<longleftrightarrow> a = b" "hash_fmix_64 c = hash_fmix_64 d \<longleftrightarrow> c = d"
proof -
  show "hash_fmix_32 a = hash_fmix_32 b \<longleftrightarrow> a = b"
    by (auto simp: hash_fmix_32_def Let_def mult_inj_32 dest!: xorshift_inj [rotated])
  show "hash_fmix_64 c = hash_fmix_64 d \<longleftrightarrow> c = d"
    by (auto simp: hash_fmix_64_def Let_def mult_inj_64 dest!: xorshift_inj [rotated])
qed

lemma mix_inj:
  "x86_k1 a = x86_k1 b \<longleftrightarrow> a = b" "x86_k2 a = x86_k2 b \<longleftrightarrow> a = b"
  "x86_k3 a = x86_k3 b \<longleftrightarrow> a = b" "x86_k4 a = x86_k4 b \<longleftrightarrow> a = b"
  "x64_k1 c = x64_k1 d \<longleftrightarrow> c = d" "x64_k2 c = x64_k2 d \<longleftrightarrow> c = d"
  "mix_32 0xcc9e2d51 15 0x1b873593 a = mix_32 0xcc9e2d51 15 0x1b873593 b \<longleftrightarrow> a = b"
  by (simp_all add: x86_k1_def x86_k2_def x86_k3_def x86_k4_def x64_k1_def x64_k2_def mix_32_def mix_64_def
      Let_def mult_inj_32 mult_inj_64 hash_rotl_inj)

section \<open>Hashes by blocks\<close>

text \<open>
  What the three hashes share: a state that absorbs the blocks of the key one after another, then
  the tail, and is scrambled at the end, where each step is injective in the state and in the
  block it absorbs.
\<close>

definition blk :: "nat \<Rightarrow> nat \<Rightarrow> key \<Rightarrow> key" where
  "blk n i key = take n (drop (n * i) key)"

locale block_hash =
  fixes n :: nat
    and body :: "key \<Rightarrow> 's \<Rightarrow> nat \<Rightarrow> 's"
    and tail :: "key \<Rightarrow> 's \<Rightarrow> 's"
    and final :: "nat \<Rightarrow> 's \<Rightarrow> 'r"
  assumes body_cong: "blk n i key = blk n i key' \<Longrightarrow> body key s i = body key' s i"
    and body_state: "body key s i = body key s' i \<Longrightarrow> s = s'"
    and body_block: "length (blk n i key) = n \<Longrightarrow> length (blk n i key') = n \<Longrightarrow>
      body key s i = body key' s i \<Longrightarrow> blk n i key = blk n i key'"
    and tail_state: "tail key s = tail key s' \<Longrightarrow> s = s'"
    and tail_block: "length key < n \<Longrightarrow> length key = length key' \<Longrightarrow> tail key s = tail key' s \<Longrightarrow> key = key'"
    and final: "final len s = final len s' \<Longrightarrow> s = s'"
    and pos: "0 < n"
begin

lemma run_cong:
  "\<forall>i<m. blk n i key = blk n i key' \<Longrightarrow> foldl (body key) s [0..<m] = foldl (body key') s [0..<m]"
proof (induction m)
  case (Suc m)
  then show ?case using body_cong [of m key key'] by simp
qed simp

text \<open>Keys of the same length that differ in one block have different hashes.\<close>

lemma one_block:
  assumes len: "length key = length key'" and m: "m = length key div n" and j: "j \<le> m"
    and same: "\<forall>i\<le>m. i \<noteq> j \<longrightarrow> blk n i key = blk n i key'"
    and eq: "final (length key) (tail (drop (m * n) key) (foldl (body key) s [0..<m]))
      = final (length key') (tail (drop (m * n) key') (foldl (body key') s [0..<m]))"
  shows "blk n j key = blk n j key'"
proof -
  from eq len have t: "tail (drop (m * n) key) (foldl (body key) s [0..<m])
      = tail (drop (m * n) key') (foldl (body key') s [0..<m])"
    using final by simp
  have lt: "length (drop (m * n) key) < n"
    using pos m by (simp add: minus_div_mult_eq_mod)
  have last: "drop (m * n) k = blk n m k" if "length k = length key" for k
    using lt that by (simp add: blk_def mult.commute)
  show ?thesis
  proof (cases "j = m")
    case True
    then have "foldl (body key) s [0..<m] = foldl (body key') s [0..<m]"
      using same by (intro run_cong) auto
    with t tail_block [OF lt, of "drop (m * n) key'"] len have "drop (m * n) key = drop (m * n) key'" by simp
    with True len last show ?thesis by simp
  next
    case False
    have "drop (m * n) key = drop (m * n) key'" using same False len last by simp
    with t tail_state have run: "foldl (body key) s [0..<m] = foldl (body key') s [0..<m]" by simp
    have *: "foldl (body key) s [0..<Suc j] = foldl (body key') s [0..<Suc j]"
    proof -
      have "foldl (body key) s [0..<Suc j + k] = foldl (body key') s [0..<Suc j + k] \<Longrightarrow> Suc j + k \<le> m \<Longrightarrow> ?thesis" for k
      proof (induction k)
        case (Suc k)
        have "body key' u (Suc j + k) = body key u (Suc j + k)" for u
          using same Suc.prems(2) by (intro body_cong) auto
        with Suc.prems(1) have "foldl (body key) s [0..<Suc j + k] = foldl (body key') s [0..<Suc j + k]"
          using body_state by simp
        with Suc show ?case by simp
      qed simp
      from this [of "m - Suc j"] run False j show ?thesis by simp
    qed
    have "foldl (body key) s [0..<j] = foldl (body key') s [0..<j]"
      using same j by (intro run_cong) auto
    moreover have "length (blk n j k) = n" if "length k = length key" for k
    proof -
      have "n * Suc j \<le> n * m" using False j by (intro mult_le_mono) simp_all
      also have "\<dots> \<le> length key" by (simp add: m)
      finally show ?thesis using that by (simp add: blk_def)
    qed
    ultimately show ?thesis using * body_block [of j key key'] len by simp
  qed
qed

end

text \<open>Words of a block, and tails, determine the bytes.\<close>

lemma blk_get_32:
  "hash_get_block_32 p i = le_word (blk 4 i p)"
  "hash_get_block_32 p (i * 4 + 0) = le_word (take 4 (blk 16 i p))"
  "hash_get_block_32 p (i * 4 + 1) = le_word (take 4 (drop 4 (blk 16 i p)))"
  "hash_get_block_32 p (i * 4 + 2) = le_word (take 4 (drop 8 (blk 16 i p)))"
  "hash_get_block_32 p (i * 4 + 3) = le_word (drop 12 (blk 16 i p))"
  by (simp_all add: hash_get_block_32_def blk_def drop_take algebra_simps)

lemma blk_get_64:
  "hash_get_block_64 p (i * 2 + 0) = le_word (take 8 (blk 16 i p))"
  "hash_get_block_64 p (i * 2 + 1) = le_word (drop 8 (blk 16 i p))"
  by (simp_all add: hash_get_block_64_def blk_def drop_take algebra_simps)

lemma take_drop_eq: "take k xs = take k ys \<Longrightarrow> drop k xs = drop k ys \<Longrightarrow> xs = ys"
  by (metis append_take_drop_id)

lemma hash_tail_inj:
  assumes "length xs = length ys" "m \<le> length xs" "8 * m \<le> LENGTH('a)"
    "hash_tail m xs (0 :: 'a::len word) = hash_tail m ys 0"
  shows "take m xs = take m ys"
  using le_word_inj [of "take m xs" "take m ys", where 'a = 'a] hash_tail_le_word [of m xs "0 :: 'a word"]
    hash_tail_le_word [of m ys "0 :: 'a word"] assms by (simp add: min_def)

lemma add2_inj: "a + b = c + d \<and> b + (a + b) = d + (c + d) \<longleftrightarrow> a = c \<and> b = d" for a b c d :: "'a::len word"
  by (metis add_right_cancel)

lemma add4_inj:
  fixes a b c d :: "'a::len word"
  shows "((b + (a + b + c + d) = f + (e + f + g + h) \<and> a + b + c + d = e + f + g + h)
      \<and> (d + (a + b + c + d) = h + (e + f + g + h) \<and> c + (a + b + c + d) = g + (e + f + g + h)))
    \<longleftrightarrow> (b = f \<and> a = e) \<and> (d = h \<and> c = g)"
proof
  assume eq: "(b + (a + b + c + d) = f + (e + f + g + h) \<and> a + b + c + d = e + f + g + h)
      \<and> (d + (a + b + c + d) = h + (e + f + g + h) \<and> c + (a + b + c + d) = g + (e + f + g + h))"
  then have "b = f" "c = g" "d = h" by (metis add_right_cancel)+
  with eq show "(b = f \<and> a = e) \<and> (d = h \<and> c = g)" by (metis add_right_cancel)
qed simp

lemma pack_inj:
  "push_bit 32 (ucast a) OR ucast b = (push_bit 32 (ucast c) OR ucast d :: uint64) \<longleftrightarrow> a = c \<and> b = d"
  for a b c d :: uint32
proof
  assume eq: "push_bit 32 (ucast a) OR ucast b = (push_bit 32 (ucast c) OR ucast d :: uint64)"
  have *: "bit (push_bit 32 (ucast u) OR ucast v :: uint64) n = bit v n"
    "bit (push_bit 32 (ucast u) OR ucast v :: uint64) (n + 32) = bit u n" if "n < 32" for u v :: uint32 and n
    using that bit_imp_le_length [of v "n + 32"] by (auto simp: bit_simps)
  show "a = c \<and> b = d"
    using *(1) [of _ a b] *(1) [of _ c d] *(2) [of _ a b] *(2) [of _ c d] eq
    by (auto intro!: bit_word_eqI)
qed simp

interpretation x64_128: block_hash 16 x64_128_body x64_128_tail x64_128_final
proof unfold_locales
  fix key key' :: key and s s' :: x64_state and i len :: nat
  show "blk 16 i key = blk 16 i key' \<Longrightarrow> x64_128_body key s i = x64_128_body key' s i"
    by (simp only: x64_128_body_def blk_get_64)
  show "x64_128_body key s i = x64_128_body key s' i \<Longrightarrow> s = s'"
    by (cases s; cases s') (auto simp: x64_128_body_def Let_def mult_inj_64 hash_rotl_inj xor_cancel
        simp del: distrib_right_numeral)
  show "length (blk 16 i key) = 16 \<Longrightarrow> length (blk 16 i key') = 16 \<Longrightarrow>
      x64_128_body key s i = x64_128_body key' s i \<Longrightarrow> blk 16 i key = blk 16 i key'"
    using le_word_inj [where 'a = 64] unfolding x64_128_body_def blk_get_64
    by (cases s) (auto simp: Let_def mult_inj_64 hash_rotl_inj xor_cancel mix_inj 
        simp del: distrib_right_numeral intro!: take_drop_eq [of 8 "blk 16 i key"])
  show "x64_128_tail key s = x64_128_tail key s' \<Longrightarrow> s = s'"
    by (cases s; cases s') (auto simp: x64_128_tail_def Let_def xor_cancel split: if_splits)
  show "x64_128_final len s = x64_128_final len s' \<Longrightarrow> s = s'"
    by (cases s; cases s') (simp only: x64_128_final_def Let_def prod.case prod.inject add2_inj xor_cancel hash_fmix_inj)
  show "key = key'" if "length key < 16" "length key = length key'" "x64_128_tail key s = x64_128_tail key' s"
  proof (rule take_drop_eq [of 8])
    obtain h1 h2 where s: "s = (h1, h2)" by (cases s)
    show "take 8 key = take 8 key'"
      using that hash_tail_inj [of key key' "min 8 (length key)", where 'a = 64]
      by (auto simp: s x64_128_tail_def Let_def xor_cancel mix_inj split: if_splits)
    show "drop 8 key = drop 8 key'"
      using that hash_tail_inj [of "drop 8 key" "drop 8 key'" "length key - 8", where 'a = 64]
      by (auto simp: s x64_128_tail_def Let_def xor_cancel mix_inj split: if_splits)
  qed
qed simp

interpretation x86_32: block_hash 4 x86_32_body x86_32_tail "\<lambda>len h. hash_fmix_32 (h XOR of_nat len)"
proof unfold_locales
  fix key key' :: key and s s' :: uint32 and i len :: nat
  show "blk 4 i key = blk 4 i key' \<Longrightarrow> x86_32_body key s i = x86_32_body key' s i"
    by (simp only: x86_32_body_def blk_get_32)
  show "x86_32_body key s i = x86_32_body key s' i \<Longrightarrow> s = s'"
    by (auto simp: x86_32_body_def Let_def mult_inj_32 hash_rotl_inj xor_cancel)
  show "length (blk 4 i key) = 4 \<Longrightarrow> length (blk 4 i key') = 4 \<Longrightarrow>
      x86_32_body key s i = x86_32_body key' s i \<Longrightarrow> blk 4 i key = blk 4 i key'"
    using le_word_inj [of "blk 4 i key" "blk 4 i key'", where 'a = 32]
    by (auto simp: x86_32_body_def blk_get_32(1) Let_def mult_inj_32 hash_rotl_inj xor_cancel mix_inj)
  show "x86_32_tail key s = x86_32_tail key s' \<Longrightarrow> s = s'"
    by (auto simp: x86_32_tail_def xor_cancel split: if_splits)
  show "hash_fmix_32 (s XOR of_nat len) = hash_fmix_32 (s' XOR of_nat len) \<Longrightarrow> s = s'"
    by (simp add: hash_fmix_inj xor_cancel)
  show "key = key'" if "length key < 4" "length key = length key'" "x86_32_tail key s = x86_32_tail key' s"
    using that hash_tail_inj [of key key' "length key", where 'a = 32]
    by (auto simp: x86_32_tail_def xor_cancel mix_inj split: if_splits)
qed simp

text \<open>The four quarters of a block.\<close>

lemma quarters_eq:
  assumes "take 4 xs = take 4 ys" "take 4 (drop 4 xs) = take 4 (drop 4 ys)"
    "take 4 (drop 8 xs) = take 4 (drop 8 ys)" "drop 12 xs = drop 12 ys"
  shows "xs = ys"
proof -
  have "drop 8 xs = drop 8 ys" using take_drop_eq [of 4 "drop 8 xs" "drop 8 ys"] assms(3,4) by simp
  then have "drop 4 xs = drop 4 ys" using take_drop_eq [of 4 "drop 4 xs" "drop 4 ys"] assms(2) by simp
  then show ?thesis using take_drop_eq assms(1) by metis
qed

interpretation x86_128: block_hash 16 x86_128_body x86_128_tail x86_128_final
proof unfold_locales
  fix key key' :: key and s s' :: x86_state and i len :: nat
  show "blk 16 i key = blk 16 i key' \<Longrightarrow> x86_128_body key s i = x86_128_body key' s i"
    by (simp only: x86_128_body_def blk_get_32(2-5))
  show "x86_128_body key s i = x86_128_body key s' i \<Longrightarrow> s = s'"
    by (cases s; cases s') (auto simp: x86_128_body_def Let_def mult_inj_32 hash_rotl_inj xor_cancel
        simp del: distrib_right_numeral)
  show "length (blk 16 i key) = 16 \<Longrightarrow> length (blk 16 i key') = 16 \<Longrightarrow>
      x86_128_body key s i = x86_128_body key' s i \<Longrightarrow> blk 16 i key = blk 16 i key'"
    using le_word_inj [where 'a = 32] unfolding x86_128_body_def blk_get_32(2-5)
    by (cases s) (auto simp: Let_def mult_inj_32 hash_rotl_inj xor_cancel mix_inj
        simp del: distrib_right_numeral intro!: quarters_eq [of "blk 16 i key"])
  show "x86_128_tail key s = x86_128_tail key s' \<Longrightarrow> s = s'"
    by (cases s; cases s') (auto simp: x86_128_tail_def Let_def xor_cancel split: if_splits)
  show "x86_128_final len s = x86_128_final len s' \<Longrightarrow> s = s'"
    by (cases s; cases s') (simp only: x86_128_final_def Let_def prod.case prod.inject pack_inj add4_inj
        xor_cancel hash_fmix_inj)
  show "key = key'" if "length key < 16" "length key = length key'" "x86_128_tail key s = x86_128_tail key' s"
  proof (rule quarters_eq)
    obtain h1 h2 h3 h4 where s: "s = (h1, h2, h3, h4)" by (cases s)
    note eqs = that(2,3) [unfolded s x86_128_tail_def Let_def prod.case prod.inject]
    show "take 4 key = take 4 key'"
      using eqs hash_tail_inj [of key key' "min 4 (length key)", where 'a = 32]
      by (auto simp: xor_cancel mix_inj split: if_splits)
    show "take 4 (drop 4 key) = take 4 (drop 4 key')"
      using eqs hash_tail_inj [of "drop 4 key" "drop 4 key'" "min 4 (length key - 4)", where 'a = 32]
      by (auto simp: xor_cancel mix_inj split: if_splits)
    show "take 4 (drop 8 key) = take 4 (drop 8 key')"
      using eqs hash_tail_inj [of "drop 8 key" "drop 8 key'" "min 4 (length key - 8)", where 'a = 32]
      by (auto simp: xor_cancel mix_inj split: if_splits)
    show "drop 12 key = drop 12 key'"
      using eqs that(1) hash_tail_inj [of "drop 12 key" "drop 12 key'" "length key - 12", where 'a = 32]
      by (auto simp: xor_cancel mix_inj split: if_splits)
  qed
qed simp

section \<open>The properties\<close>

lemma blks_eq:
  assumes "length key = length key'" "0 < n" "\<forall>i \<le> length key div n. blk n i key = blk n i key'"
  shows "key = key'"
proof (rule nth_equalityI)
  fix m
  assume m: "m < length key"
  have "blk n (m div n) key = blk n (m div n) key'"
    using assms(3) m by (simp add: div_le_mono)
  then have "blk n (m div n) key ! (m mod n) = blk n (m div n) key' ! (m mod n)" by simp
  moreover have "n * (m div n) \<le> length key" using m by (metis le_trans less_imp_le times_div_less_eq_dividend)
  ultimately show "key ! m = key' ! m" using assms(1,2) by (simp add: blk_def)
qed (rule assms(1))

text \<open>Two keys of the same length that differ within one block of 16 bytes, or only in their tail,
  never have the same 128-bit hash; in particular keys of at most 16 bytes, such as the
  pointers and pairs that jemalloc hashes, collide only when they are equal.\<close>
theorem hash_one_block:
  assumes "length key = length key'" "\<forall>i \<le> length key div 16. i \<noteq> j \<longrightarrow> blk 16 i key = blk 16 i key'"
    and "j \<le> length key div 16"
  shows "(hash key seed = hash key' seed \<longleftrightarrow> blk 16 j key = blk 16 j key')
    \<and> (hash_x86_128 key seed = hash_x86_128 key' seed \<longleftrightarrow> blk 16 j key = blk 16 j key')"
proof -
  have eq: "key = key'" if "blk 16 j key = blk 16 j key'"
    by (rule blks_eq [OF assms(1), of 16]) (use assms(2) that in auto)
  moreover have "blk 16 j key = blk 16 j key'" if "hash key seed = hash key' seed"
    using x64_128.one_block [OF assms(1) HOL.refl assms(3,2), of "(ucast seed, ucast seed)"] that assms(1)
    by (simp add: hash_def hash_x64_128_def Let_def)
  moreover have "blk 16 j key = blk 16 j key'" if "hash_x86_128 key seed = hash_x86_128 key' seed"
    using x86_128.one_block [OF assms(1) HOL.refl assms(3,2), of "(seed, seed, seed, seed)"] that assms(1)
    by (simp add: hash_x86_128_def Let_def)
  ultimately show ?thesis by blast
qed

theorem hash_one_block_witness:
  "(hash [1, 2, 3, 4, 5, 6, 7, 8] 7 = hash [1, 2, 3, 4, 5, 6, 7, 9] 7
      \<longleftrightarrow> blk 16 0 [1, 2, 3, 4, 5, 6, 7, 8] = blk 16 0 [1, 2, 3, 4, 5, 6, 7, 9])
    \<and> (hash_x86_128 [1, 2, 3, 4, 5, 6, 7, 8] 7 = hash_x86_128 [1, 2, 3, 4, 5, 6, 7, 9] 7
      \<longleftrightarrow> blk 16 0 [1, 2, 3, 4, 5, 6, 7, 8] = blk 16 0 [1, 2, 3, 4, 5, 6, 7, 9])"
  by (rule hash_one_block) simp_all

lemma hash_x86_32_one_block:
  assumes "length key = length key'" "\<forall>i \<le> length key div 4. i \<noteq> j \<longrightarrow> blk 4 i key = blk 4 i key'"
    and "j \<le> length key div 4" "hash_x86_32 key seed = hash_x86_32 key' seed"
  shows "key = key'"
proof (rule blks_eq [OF assms(1), of 4])
  have "blk 4 j key = blk 4 j key'"
    using x86_32.one_block [OF assms(1) HOL.refl assms(3,2), of seed] assms(1,4)
    by (simp add: hash_x86_32_def Let_def)
  with assms(2) show "\<forall>i \<le> length key div 4. blk 4 i key = blk 4 i key'" by metis
qed simp

end
