(* ===== verification/Ckh.thy ===== *)
theory Ckh
  imports Sz Prng Hash "HOL-Library.Multiset"
begin

text \<open>
  src/ckh.c: the cuckoo hash tables, with two hash functions and buckets of four cells. A cell is
  empty (a null key) or holds an item, a key with its data. The hash and comparison functions are
  arguments. The answers of the allocator to \<open>ipallocztm\<close> are a list of outcomes, consumed one by
  one; an exhausted list answers with null pointers. \<open>None\<close> is an eviction loop that does not end,
  or an access outside the table.
\<close>

section \<open>State and search\<close>

definition LG_CKH_BUCKET_CELLS :: nat where "LG_CKH_BUCKET_CELLS = 2"

type_synonym ('k, 'd) item = "'k \<times> 'd"
type_synonym ('k, 'd) ckhc = "('k, 'd) item option"
type_synonym 'k ckh_hash = "'k \<Rightarrow> size_t \<times> size_t"

record ('k, 'd) ckh =
  ckh_prng_state :: uint64
  ckh_count :: nat
  lg_minbuckets :: nat
  lg_curbuckets :: nat
  ckh_tab :: "('k, 'd) ckhc list"

text \<open>The cell \<open>i\<close> of a bucket, and the buckets that the hashes of a key select.\<close>

definition cell_index :: "nat \<Rightarrow> nat \<Rightarrow> nat" where
  "cell_index bucket i = bucket * 2 ^ LG_CKH_BUCKET_CELLS + i"

definition bucket_of :: "('k, 'd) ckh \<Rightarrow> size_t \<Rightarrow> nat" where
  "bucket_of ckh h = unat (h AND (push_bit (lg_curbuckets ckh) 1 - 1))"

definition bucket1 :: "'k ckh_hash \<Rightarrow> ('k, 'd) ckh \<Rightarrow> 'k \<Rightarrow> nat" where
  "bucket1 hf ckh key = bucket_of ckh (fst (hf key))"

definition bucket2 :: "'k ckh_hash \<Rightarrow> ('k, 'd) ckh \<Rightarrow> 'k \<Rightarrow> nat" where
  "bucket2 hf ckh key = bucket_of ckh (snd (hf key))"

definition ckh_bucket_search :: "('k \<Rightarrow> 'k \<Rightarrow> bool) \<Rightarrow> ('k, 'd) ckh \<Rightarrow> nat \<Rightarrow> 'k \<Rightarrow> nat option" where
  "ckh_bucket_search keycomp ckh bucket key =
     map_option (cell_index bucket)
       (find (\<lambda>i. case read_at (ckh_tab ckh) (cell_index bucket i) of
                    Some (Some (k, _)) \<Rightarrow> keycomp key k | _ \<Rightarrow> False) [0..<2 ^ LG_CKH_BUCKET_CELLS])"

definition ckh_isearch :: "'k ckh_hash \<Rightarrow> ('k \<Rightarrow> 'k \<Rightarrow> bool) \<Rightarrow> ('k, 'd) ckh \<Rightarrow> 'k \<Rightarrow> nat option" where
  "ckh_isearch hf keycomp ckh key =
     (case ckh_bucket_search keycomp ckh (bucket1 hf ckh key) key of
        Some cell \<Rightarrow> Some cell
      | None \<Rightarrow> ckh_bucket_search keycomp ckh (bucket2 hf ckh key) key)"

text \<open>\<open>None\<close> when the function returns true, the item found otherwise.\<close>

definition ckh_search :: "'k ckh_hash \<Rightarrow> ('k \<Rightarrow> 'k \<Rightarrow> bool) \<Rightarrow> ('k, 'd) ckh \<Rightarrow> 'k \<Rightarrow> ('k, 'd) item option" where
  "ckh_search hf keycomp ckh searchkey =
     (case ckh_isearch hf keycomp ckh searchkey of None \<Rightarrow> None | Some cell \<Rightarrow> ckh_tab ckh ! cell)"

section \<open>Insertion\<close>

definition ckh_try_bucket_insert :: "('k, 'd) ckh \<Rightarrow> nat \<Rightarrow> ('k, 'd) item \<Rightarrow> bool \<times> ('k, 'd) ckh" where
  "ckh_try_bucket_insert ckh bucket item =
     (let (r, s) = prng_lg_range_u64 (ckh_prng_state ckh) LG_CKH_BUCKET_CELLS;
          offset = unat r; ckh = ckh\<lparr>ckh_prng_state := s\<rparr>;
          cell = (\<lambda>i. cell_index bucket ((i + offset) mod 2 ^ LG_CKH_BUCKET_CELLS))
      in case find (\<lambda>i. read_at (ckh_tab ckh) (cell i) = Some None) [0..<2 ^ LG_CKH_BUCKET_CELLS] of
           Some i \<Rightarrow> (False, ckh\<lparr>ckh_tab := (ckh_tab ckh)[cell i := Some item], ckh_count := ckh_count ckh + 1\<rparr>)
         | None \<Rightarrow> (True, ckh))"

text \<open>
  The eviction loop; the result is the item left over when a cycle is detected (the new value of
  \<open>*argkey\<close> and \<open>*argdata\<close>), \<open>None\<close> when all found a place.
\<close>

partial_function (option) ckh_evict_reloc_insert ::
  "'k ckh_hash \<Rightarrow> nat \<Rightarrow> nat \<Rightarrow> ('k, 'd) ckh \<Rightarrow> ('k, 'd) item \<Rightarrow> (('k, 'd) item option \<times> ('k, 'd) ckh) option" where
  "ckh_evict_reloc_insert hf argbucket bucket ckh item =
     (let (r, s) = prng_lg_range_u64 (ckh_prng_state ckh) LG_CKH_BUCKET_CELLS;
          cell = cell_index bucket (unat r); ckh = ckh\<lparr>ckh_prng_state := s\<rparr>
      in case read_at (ckh_tab ckh) cell of
           Some (Some titem) \<Rightarrow>
             (let ckh = ckh\<lparr>ckh_tab := (ckh_tab ckh)[cell := Some item]\<rparr>;
                  tbucket = bucket2 hf ckh (fst titem);
                  tbucket = (if tbucket = bucket then bucket1 hf ckh (fst titem) else tbucket)
              in if tbucket = argbucket then Some (Some titem, ckh)
                 else case ckh_try_bucket_insert ckh tbucket titem of (full, ckh) \<Rightarrow>
                        if \<not> full then Some (None, ckh)
                        else ckh_evict_reloc_insert hf argbucket tbucket ckh titem)
         | _ \<Rightarrow> None)"

declare ckh_evict_reloc_insert.simps [code]

definition ckh_try_insert ::
  "'k ckh_hash \<Rightarrow> ('k, 'd) ckh \<Rightarrow> ('k, 'd) item \<Rightarrow> (('k, 'd) item option \<times> ('k, 'd) ckh) option" where
  "ckh_try_insert hf ckh item =
     (case ckh_try_bucket_insert ckh (bucket1 hf ckh (fst item)) item of
        (False, ckh) \<Rightarrow> Some (None, ckh)
      | (True, ckh) \<Rightarrow>
          (let bucket = bucket2 hf ckh (fst item)
           in case ckh_try_bucket_insert ckh bucket item of
                (False, ckh) \<Rightarrow> Some (None, ckh)
              | (True, ckh) \<Rightarrow> ckh_evict_reloc_insert hf bucket bucket ckh item))"

text \<open>The loop of \<open>ckh_rebuild\<close> over the rest of the old table.\<close>

fun rebuild_loop ::
  "'k ckh_hash \<Rightarrow> nat \<Rightarrow> nat \<Rightarrow> ('k, 'd) ckhc list \<Rightarrow> ('k, 'd) ckh \<Rightarrow> (bool \<times> ('k, 'd) ckh) option" where
  "rebuild_loop hf cnt nins [] ckh = (if nins < cnt then None else Some (False, ckh))"
| "rebuild_loop hf cnt nins (c # aTab) ckh =
     (if nins < cnt then
        (case c of
           None \<Rightarrow> rebuild_loop hf cnt nins aTab ckh
         | Some item \<Rightarrow>
             (case ckh_try_insert hf ckh item of
                None \<Rightarrow> None
              | Some (Some _, ckh) \<Rightarrow> Some (True, ckh\<lparr>ckh_count := cnt\<rparr>)
              | Some (None, ckh) \<Rightarrow> rebuild_loop hf cnt (nins + 1) aTab ckh))
      else Some (False, ckh))"

definition ckh_rebuild ::
  "'k ckh_hash \<Rightarrow> ('k, 'd) ckh \<Rightarrow> ('k, 'd) ckhc list \<Rightarrow> (bool \<times> ('k, 'd) ckh) option" where
  "ckh_rebuild hf ckh aTab = rebuild_loop hf (ckh_count ckh) 0 aTab (ckh\<lparr>ckh_count := 0\<rparr>)"

text \<open>
  The size of a table of \<open>2 ^ lg_curcells\<close> cells of 16 bytes, \<open>None\<close> when it is not allowed, and the
  table that \<open>ipallocztm\<close> returns zeroed.
\<close>

definition ckh_tab_size :: "sz_tabs \<Rightarrow> nat \<Rightarrow> size_t option option" where
  "ckh_tab_size t lg_cells =
     map_option (\<lambda>usize. if usize = 0 \<or> usize > SC_LARGE_MAXCLASS then None else Some usize)
       (sz_sa2u t (push_bit lg_cells 16) 64)"

definition ckh_new_tab :: "nat \<Rightarrow> ('k, 'd) ckhc list" where
  "ckh_new_tab lg_cells = replicate (2 ^ lg_cells) None"

type_synonym outcomes = "bool list"

fun grow_loop ::
  "sz_tabs \<Rightarrow> 'k ckh_hash \<Rightarrow> nat \<Rightarrow> nat \<Rightarrow> ('k, 'd) ckh \<Rightarrow> outcomes \<Rightarrow> (bool \<times> ('k, 'd) ckh \<times> outcomes) option" where
  "grow_loop t hf lg_prevbuckets lg_curcells ckh outs =
     (let lg_curcells = lg_curcells + 1
      in case ckh_tab_size t lg_curcells of
           None \<Rightarrow> None
         | Some None \<Rightarrow> Some (True, ckh, outs)
         | Some (Some usize) \<Rightarrow>
             (case outs of
                [] \<Rightarrow> Some (True, ckh, [])
              | ok # outs \<Rightarrow>
                  if \<not> ok then Some (True, ckh, outs)
                  else
                    let tab = ckh_tab ckh;
                        ckh = ckh\<lparr>ckh_tab := ckh_new_tab lg_curcells, lg_curbuckets := lg_curcells - LG_CKH_BUCKET_CELLS\<rparr>
                    in (case ckh_rebuild hf ckh tab of
                         None \<Rightarrow> None
                       | Some (False, ckh) \<Rightarrow> Some (False, ckh, outs)
                       | Some (True, ckh) \<Rightarrow>
                           grow_loop t hf lg_prevbuckets lg_curcells
                             (ckh\<lparr>ckh_tab := tab, lg_curbuckets := lg_prevbuckets\<rparr>) outs)))"

declare grow_loop.simps [simp del]

definition ckh_grow ::
  "sz_tabs \<Rightarrow> 'k ckh_hash \<Rightarrow> ('k, 'd) ckh \<Rightarrow> outcomes \<Rightarrow> (bool \<times> ('k, 'd) ckh \<times> outcomes) option" where
  "ckh_grow t hf ckh outs =
     grow_loop t hf (lg_curbuckets ckh) (lg_curbuckets ckh + LG_CKH_BUCKET_CELLS) ckh outs"

definition ckh_shrink :: "sz_tabs \<Rightarrow> 'k ckh_hash \<Rightarrow> ('k, 'd) ckh \<Rightarrow> outcomes \<Rightarrow> (('k, 'd) ckh \<times> outcomes) option" where
  "ckh_shrink t hf ckh outs =
     (let lg_prevbuckets = lg_curbuckets ckh;
          lg_curcells = lg_curbuckets ckh + LG_CKH_BUCKET_CELLS - 1
      in case ckh_tab_size t lg_curcells of
           None \<Rightarrow> None
         | Some None \<Rightarrow> Some (ckh, outs)
         | Some (Some usize) \<Rightarrow>
             (case outs of
                [] \<Rightarrow> Some (ckh, [])
              | ok # outs \<Rightarrow>
                  if \<not> ok then Some (ckh, outs)
                  else
                    let tab = ckh_tab ckh;
                        ckh = ckh\<lparr>ckh_tab := ckh_new_tab lg_curcells, lg_curbuckets := lg_curcells - LG_CKH_BUCKET_CELLS\<rparr>
                    in (case ckh_rebuild hf ckh tab of
                         None \<Rightarrow> None
                       | Some (False, ckh) \<Rightarrow> Some (ckh, outs)
                       | Some (True, ckh) \<Rightarrow> Some (ckh\<lparr>ckh_tab := tab, lg_curbuckets := lg_prevbuckets\<rparr>, outs))))"

text \<open>
  The loop of \<open>ckh_insert\<close>. The result is the item that has no place when the table cannot grow
  (the function returns true), \<open>None\<close> on success.
\<close>

partial_function (option) ckh_insert ::
  "sz_tabs \<Rightarrow> 'k ckh_hash \<Rightarrow> ('k, 'd) ckh \<Rightarrow> ('k, 'd) item \<Rightarrow> outcomes \<Rightarrow>
     (('k, 'd) item option \<times> ('k, 'd) ckh \<times> outcomes) option" where
  "ckh_insert t hf ckh item outs =
     (case ckh_try_insert hf ckh item of
        None \<Rightarrow> None
      | Some (None, ckh) \<Rightarrow> Some (None, ckh, outs)
      | Some (Some item, ckh) \<Rightarrow>
          (case ckh_grow t hf ckh outs of
             None \<Rightarrow> None
           | Some (failed, ckh, outs) \<Rightarrow>
               if failed then Some (Some item, ckh, outs) else ckh_insert t hf ckh item outs))"

declare ckh_insert.simps [code]

section \<open>Creation, removal, iteration\<close>

text \<open>\<open>while\<close> is the empty loop that searches for the size; \<open>None\<close> in the result of \<open>ckh_new\<close> is an error.\<close>

function lg_mincells_loop :: "nat \<Rightarrow> nat \<Rightarrow> nat" where
  "lg_mincells_loop mincells lg = (if 2 ^ lg < mincells then lg_mincells_loop mincells (lg + 1) else lg)"
  by auto
termination by (relation "measure (\<lambda>(m, lg). m - 2 ^ lg)") (auto intro!: diff_less_mono2)

declare lg_mincells_loop.simps [simp del]

definition ckh_new :: "sz_tabs \<Rightarrow> nat \<Rightarrow> outcomes \<Rightarrow> ('k, 'd) ckh option option" where
  "ckh_new t minitems outs =
     (let mincells = (minitems + (3 - minitems mod 3)) div 3 * 4;
          lg_mincells = lg_mincells_loop mincells LG_CKH_BUCKET_CELLS
      in case ckh_tab_size t lg_mincells of
           None \<Rightarrow> None
         | Some None \<Rightarrow> Some None
         | Some (Some usize) \<Rightarrow>
             Some (case outs of
                [] \<Rightarrow> None
              | ok # _ \<Rightarrow>
                  if ok then Some \<lparr>ckh_prng_state = 42, ckh_count = 0,
                    lg_minbuckets = lg_mincells - LG_CKH_BUCKET_CELLS,
                    lg_curbuckets = lg_mincells - LG_CKH_BUCKET_CELLS, ckh_tab = ckh_new_tab lg_mincells\<rparr>
                  else None))"

definition ckh_remove ::
  "sz_tabs \<Rightarrow> 'k ckh_hash \<Rightarrow> ('k \<Rightarrow> 'k \<Rightarrow> bool) \<Rightarrow> ('k, 'd) ckh \<Rightarrow> 'k \<Rightarrow> outcomes \<Rightarrow>
     (('k, 'd) item option \<times> ('k, 'd) ckh \<times> outcomes) option" where
  "ckh_remove t hf keycomp ckh searchkey outs =
     (case ckh_isearch hf keycomp ckh searchkey of
        None \<Rightarrow> Some (None, ckh, outs)
      | Some cell \<Rightarrow>
          let item = ckh_tab ckh ! cell;
              ckh = ckh\<lparr>ckh_tab := (ckh_tab ckh)[cell := None], ckh_count := ckh_count ckh - 1\<rparr>
          in if ckh_count ckh < 2 ^ (lg_curbuckets ckh + LG_CKH_BUCKET_CELLS - 2) \<and> lg_curbuckets ckh > lg_minbuckets ckh
             then map_option (\<lambda>(ckh, outs). (item, ckh, outs)) (ckh_shrink t hf ckh outs)
             else Some (item, ckh, outs))"

text \<open>The search for the next item from the index \<open>tabind\<close>; the result has the new index.\<close>

function ckh_iter :: "('k, 'd) ckh \<Rightarrow> nat \<Rightarrow> (('k, 'd) item \<times> nat) option" where
  "ckh_iter ckh i =
     (let ncells = 2 ^ (lg_curbuckets ckh + LG_CKH_BUCKET_CELLS)
      in if i < ncells then
           (case read_at (ckh_tab ckh) i of
              Some (Some item) \<Rightarrow> Some (item, i + 1)
            | _ \<Rightarrow> ckh_iter ckh (i + 1))
         else None)"
  by auto
termination by (relation "measure (\<lambda>(ckh, i). 2 ^ (lg_curbuckets ckh + LG_CKH_BUCKET_CELLS) - i)") auto

declare ckh_iter.simps [simp del]

text \<open>The hashes and comparisons for strings and pointers; a string is the list of its bytes.\<close>

definition ckh_string_hash :: "uint8 list ckh_hash" where
  "ckh_string_hash key = hash key 0x94122f33"

definition ckh_string_keycomp :: "uint8 list \<Rightarrow> uint8 list \<Rightarrow> bool" where
  "ckh_string_keycomp k1 k2 \<longleftrightarrow> k1 = k2"

text \<open>The bytes of a pointer in memory.\<close>

definition pointer_bytes :: "64 word \<Rightarrow> uint8 list" where
  "pointer_bytes p = map (\<lambda>i. ucast (drop_bit (8 * i) p)) [0..<8]"

definition ckh_pointer_hash :: "(64 word) ckh_hash" where
  "ckh_pointer_hash key = hash (pointer_bytes key) 0xd983396e"

definition ckh_pointer_keycomp :: "64 word \<Rightarrow> 64 word \<Rightarrow> bool" where
  "ckh_pointer_keycomp k1 k2 \<longleftrightarrow> k1 = k2"

section \<open>The items of a table and where they are\<close>

fun cell_items :: "('k, 'd) ckhc \<Rightarrow> ('k, 'd) item multiset" where
  "cell_items None = {#}"
| "cell_items (Some x) = {#x#}"

definition tab_items :: "('k, 'd) ckhc list \<Rightarrow> ('k, 'd) item multiset" where
  "tab_items cs = (\<Sum>c\<leftarrow>cs. cell_items c)"

lemma tab_items_simps [simp]:
  "tab_items [] = {#}" "tab_items (c # cs) = cell_items c + tab_items cs"
  by (simp_all add: tab_items_def)

lemma tab_items_update:
  "i < length cs \<Longrightarrow> tab_items (cs[i := c]) + cell_items (cs ! i) = tab_items cs + cell_items c"
  by (induction cs arbitrary: i) (auto simp: ac_simps split: nat.splits)

lemma tab_items_mem: "x \<in># tab_items cs \<longleftrightarrow> (\<exists>i<length cs. cs ! i = Some x)"
proof -
  have "x \<in># cell_items c \<longleftrightarrow> c = Some x" for c by (cases c) auto
  then have "x \<in># tab_items cs \<longleftrightarrow> Some x \<in> set cs" by (induction cs) auto
  then show ?thesis by (auto simp: in_set_conv_nth)
qed

lemma tab_items_replicate [simp]: "tab_items (replicate n None) = {#}"
  by (induction n) simp_all

definition slots :: "'k ckh_hash \<Rightarrow> nat \<Rightarrow> 'k \<Rightarrow> nat set" where
  "slots hf lg k = {unat (fst (hf k)) mod 2 ^ lg, unat (snd (hf k)) mod 2 ^ lg}"

lemma bucket_of_mod: "bucket_of ckh h = unat h mod 2 ^ lg_curbuckets ckh"
proof -
  have "push_bit (lg_curbuckets ckh) (1 :: size_t) - 1 = mask (lg_curbuckets ckh)"
    by (simp add: mask_eq_exp_minus_1 push_bit_eq_mult)
  then show ?thesis by (simp only: bucket_of_def unat_and_mask)
qed

lemma bucket_slots:
  "bucket1 hf ckh k \<in> slots hf (lg_curbuckets ckh) k" "bucket2 hf ckh k \<in> slots hf (lg_curbuckets ckh) k"
  "b \<in> slots hf lg k \<Longrightarrow> b < 2 ^ lg"
  by (auto simp: bucket1_def bucket2_def bucket_of_mod slots_def)

text \<open>Every item is in one of its two buckets, and \<open>count\<close> is the number of items.\<close>

definition placed :: "'k ckh_hash \<Rightarrow> nat \<Rightarrow> ('k, 'd) ckhc list \<Rightarrow> bool" where
  "placed hf lg cs \<longleftrightarrow> length cs = 2 ^ lg * 4 \<and> (\<forall>i<length cs. \<forall>x. cs ! i = Some x \<longrightarrow> i div 4 \<in> slots hf lg (fst x))"

definition ckh_ok :: "'k ckh_hash \<Rightarrow> ('k, 'd) ckh \<Rightarrow> bool" where
  "ckh_ok hf ckh \<longleftrightarrow> placed hf (lg_curbuckets ckh) (ckh_tab ckh) \<and> ckh_count ckh = size (tab_items (ckh_tab ckh))"

lemma cell_index: "cell_index b j = 4 * b + j"
  by (simp add: cell_index_def LG_CKH_BUCKET_CELLS_def)

lemma cell_index_less: "b < 2 ^ lg \<Longrightarrow> j < 4 \<Longrightarrow> 4 * b + j < 2 ^ lg * (4::nat)"
proof -
  assume "b < 2 ^ lg" "j < 4"
  then have "Suc b * 4 \<le> 2 ^ lg * 4" by (intro mult_le_mono1) simp
  with \<open>j < 4\<close> show ?thesis by simp
qed

lemma placed_update:
  assumes "placed hf lg cs" "b \<in> slots hf lg (fst x)" "j < 4"
  shows "placed hf lg (cs[4 * b + j := Some x])"
  unfolding placed_def
proof (intro conjI allI impI)
  fix i y
  assume "i < length (cs[4 * b + j := Some x])" "cs[4 * b + j := Some x] ! i = Some y"
  with assms show "i div 4 \<in> slots hf lg (fst y)"
    by (cases y; cases "i = 4 * b + j") (auto simp: placed_def)
qed (use assms in \<open>simp add: placed_def\<close>)

lemma placedD: "placed hf lg cs \<Longrightarrow> i < length cs \<Longrightarrow> cs ! i = Some x \<Longrightarrow> i div 4 \<in> slots hf lg (fst x)"
  unfolding placed_def by blast

lemma placed_clear: "placed hf lg cs \<Longrightarrow> placed hf lg (cs[c := None])"
  by (cases "c < length cs") (auto simp: placed_def nth_list_update)

lemma placed_new [simp]: "placed hf lg (replicate (2 ^ lg * 4) None)"
  by (simp add: placed_def)

section \<open>Insertion into a bucket\<close>

lemma find_cases:
  obtains "find P xs = None" "\<forall>x\<in>set xs. \<not> P x" | x where "find P xs = Some x" "x \<in> set xs" "P x"
  by (cases "find P xs") (auto simp: find_None_iff find_Some_iff)

text \<open>What changes when an item goes into a free cell of a bucket.\<close>

definition inserted :: "('k, 'd) ckh \<Rightarrow> nat \<Rightarrow> ('k, 'd) item \<Rightarrow> ('k, 'd) ckh \<Rightarrow> bool" where
  "inserted ckh b x ckh' \<longleftrightarrow> (\<exists>j<4. ckh_tab ckh ! (4 * b + j) = None
     \<and> ckh_tab ckh' = (ckh_tab ckh)[4 * b + j := Some x] \<and> ckh_count ckh' = ckh_count ckh + 1
     \<and> lg_curbuckets ckh' = lg_curbuckets ckh \<and> lg_minbuckets ckh' = lg_minbuckets ckh)"

definition same_but_prng :: "('k, 'd) ckh \<Rightarrow> ('k, 'd) ckh \<Rightarrow> bool" where
  "same_but_prng ckh ckh' \<longleftrightarrow> (\<exists>s. ckh' = ckh\<lparr>ckh_prng_state := s\<rparr>)"

lemma try_bucket_insert_cases:
  assumes "ckh_try_bucket_insert ckh b x = (full, ckh')" "length (ckh_tab ckh) = 2 ^ lg_curbuckets ckh * 4"
    "b < 2 ^ lg_curbuckets ckh"
  shows "(\<not> full \<longrightarrow> inserted ckh b x ckh')
    \<and> (full \<longrightarrow> same_but_prng ckh ckh' \<and> (\<forall>j<4. ckh_tab ckh ! (4 * b + j) \<noteq> None))"
proof -
  obtain r s where rs: "prng_lg_range_u64 (ckh_prng_state ckh) LG_CKH_BUCKET_CELLS = (r, s)"
    by (cases "prng_lg_range_u64 (ckh_prng_state ckh) LG_CKH_BUCKET_CELLS")
  let ?P = "\<lambda>i. read_at (ckh_tab ckh) (4 * b + (i + unat r) mod 4) = Some None"
  have P: "?P i \<longleftrightarrow> ckh_tab ckh ! (4 * b + (i + unat r) mod 4) = None" for i
    using cell_index_less [OF assms(3), of "(i + unat r) mod 4"] assms(2) by (simp add: read_at_def)
  have e: "ckh_try_bucket_insert ckh b x =
     (case find ?P [0..<4] of
        Some i \<Rightarrow> (False, ckh\<lparr>ckh_prng_state := s, ckh_tab := (ckh_tab ckh)[4 * b + (i + unat r) mod 4 := Some x],
                     ckh_count := ckh_count ckh + 1\<rparr>)
      | None \<Rightarrow> (True, ckh\<lparr>ckh_prng_state := s\<rparr>))"
    using rs by (simp add: ckh_try_bucket_insert_def cell_index LG_CKH_BUCKET_CELLS_def Let_def
        split: option.split del: upt_rec_numeral)
  show ?thesis
  proof (cases rule: find_cases [of ?P "[0..<4]"])
    case 1
    have "ckh_tab ckh ! (4 * b + j) \<noteq> None" if "j < 4" for j
    proof -
      have "((j + (4 - unat r mod 4)) mod 4 + unat r) mod 4 = (j + (4 - unat r mod 4) + unat r mod 4) mod 4"
        by (metis mod_add_left_eq mod_add_right_eq)
      also have "\<dots> = (j + 4) mod 4" by (simp add: less_imp_le)
      finally have "((j + (4 - unat r mod 4)) mod 4 + unat r) mod 4 = j" using that by simp
      moreover have "(j + (4 - unat r mod 4)) mod 4 \<in> set [0..<4]" by simp
      ultimately show ?thesis using 1(2) P by metis
    qed
    with 1 e assms(1) show ?thesis by (auto simp: same_but_prng_def)
  next
    case (2 i)
    with P have "ckh_tab ckh ! (4 * b + (i + unat r) mod 4) = None" by simp
    with 2(1) e assms(1) show ?thesis
      by (auto simp: inserted_def intro!: exI [of _ "(i + unat r) mod 4"])
  qed
qed

lemma ckh_ok_prng [simp]: "ckh_ok hf (ckh\<lparr>ckh_prng_state := s\<rparr>) \<longleftrightarrow> ckh_ok hf ckh"
  by (simp add: ckh_ok_def)

lemma inserted_ok:
  assumes "inserted ckh b x ckh'" "ckh_ok hf ckh" "b \<in> slots hf (lg_curbuckets ckh) (fst x)"
  shows "ckh_ok hf ckh'" "tab_items (ckh_tab ckh') = add_mset x (tab_items (ckh_tab ckh))"
    "ckh_count ckh' = ckh_count ckh + 1"
    "lg_curbuckets ckh' = lg_curbuckets ckh" "lg_minbuckets ckh' = lg_minbuckets ckh"
proof -
  from assms(1) obtain j where j: "j < 4" "ckh_tab ckh ! (4 * b + j) = None"
    and t: "ckh_tab ckh' = (ckh_tab ckh)[4 * b + j := Some x]" "ckh_count ckh' = ckh_count ckh + 1"
    and lg: "lg_curbuckets ckh' = lg_curbuckets ckh" "lg_minbuckets ckh' = lg_minbuckets ckh"
    by (auto simp: inserted_def)
  have "4 * b + j < length (ckh_tab ckh)"
    using assms(2) cell_index_less [OF bucket_slots(3) [OF assms(3)] j(1)] by (simp add: ckh_ok_def placed_def)
  from tab_items_update [OF this, of "Some x"] j(2)
  show items: "tab_items (ckh_tab ckh') = add_mset x (tab_items (ckh_tab ckh))" by (simp add: t)
  show "ckh_count ckh' = ckh_count ckh + 1" "lg_curbuckets ckh' = lg_curbuckets ckh"
    "lg_minbuckets ckh' = lg_minbuckets ckh" by fact+
  show "ckh_ok hf ckh'"
    using assms(2) placed_update [OF _ assms(3) j(1), of "ckh_tab ckh"] items t lg by (simp add: ckh_ok_def)
qed

section \<open>Eviction, rebuilding, growing\<close>

text \<open>
  What an insertion of \<open>x\<close> that returns leaves behind: all items have a place, or one item \<open>y\<close>, which
  may be \<open>x\<close> or an evicted one, is left over.
\<close>

definition insert_result ::
  "'k ckh_hash \<Rightarrow> ('k, 'd) ckh \<Rightarrow> ('k, 'd) item \<Rightarrow> ('k, 'd) item option \<Rightarrow> ('k, 'd) ckh \<Rightarrow> bool" where
  "insert_result hf ckh x r ckh' \<longleftrightarrow> ckh_ok hf ckh' \<and> lg_minbuckets ckh' = lg_minbuckets ckh
     \<and> cell_items r + tab_items (ckh_tab ckh') = add_mset x (tab_items (ckh_tab ckh))"

lemma insert_result_None:
  "insert_result hf ckh x None ckh' \<Longrightarrow> tab_items (ckh_tab ckh') = add_mset x (tab_items (ckh_tab ckh))"
  by (simp add: insert_result_def)

lemma insert_result_step:
  "insert_result hf ckh x (Some y) ckh1 \<Longrightarrow> insert_result hf ckh1 y r ckh2 \<Longrightarrow> insert_result hf ckh x r ckh2"
  by (auto simp: insert_result_def)

text \<open>One eviction: \<open>x\<close> takes the place of \<open>y\<close>.\<close>

lemma evict_ok:
  assumes "ckh_ok hf ckh" "b \<in> slots hf (lg_curbuckets ckh) (fst x)" "j < 4"
    and "ckh_tab ckh ! (4 * b + j) = Some y" "4 * b + j < length (ckh_tab ckh)"
  shows "insert_result hf ckh x (Some y) (ckh\<lparr>ckh_prng_state := s, ckh_tab := (ckh_tab ckh)[4 * b + j := Some x]\<rparr>)"
proof -
  have items: "add_mset y (tab_items ((ckh_tab ckh)[4 * b + j := Some x])) = add_mset x (tab_items (ckh_tab ckh))"
    using tab_items_update [OF assms(5), of "Some x"] assms(4) by simp
  then have "size (tab_items ((ckh_tab ckh)[4 * b + j := Some x])) = size (tab_items (ckh_tab ckh))"
    by (metis size_add_mset Suc_inject)
  with items placed_update [OF _ assms(2,3), of "ckh_tab ckh"] assms(1) show ?thesis
    by (simp add: insert_result_def ckh_ok_def)
qed

lemma prng_lg_range_2: "prng_lg_range_u64 s LG_CKH_BUCKET_CELLS = (r, s') \<Longrightarrow> unat r < 4"
proof -
  assume "prng_lg_range_u64 s LG_CKH_BUCKET_CELLS = (r, s')"
  then have "r = drop_bit 62 (prng_state_next_u64 s)"
    by (auto simp: prng_lg_range_u64_def LG_CKH_BUCKET_CELLS_def Let_def)
  then have "unat r = unat (prng_state_next_u64 s) div 2 ^ 62" by (simp only: unat_drop_bit_div)
  also have "\<dots> < 4" using unat_lt2p [of "prng_state_next_u64 s"] by (simp add: less_mult_imp_div_less)
  finally show ?thesis .
qed

text \<open>One round of the eviction loop.\<close>

lemma evict_round:
  assumes ok: "ckh_ok hf ckh" "b \<in> slots hf (lg_curbuckets ckh) (fst x)"
    and rs: "prng_lg_range_u64 (ckh_prng_state ckh) LG_CKH_BUCKET_CELLS = (rr, s)"
    and y: "read_at (ckh_tab ckh) (cell_index b (unat rr)) = Some (Some y)"
    and ckh1: "ckh1 = ckh\<lparr>ckh_prng_state := s, ckh_tab := (ckh_tab ckh)[cell_index b (unat rr) := Some x]\<rparr>"
    and tb: "tb \<in> {bucket1 hf ckh1 (fst y), bucket2 hf ckh1 (fst y)}"
    and ins: "ckh_try_bucket_insert ckh1 tb y = (full, ckh2)"
  shows "insert_result hf ckh x (Some y) ckh1" "lg_curbuckets ckh1 = lg_curbuckets ckh"
    "lg_curbuckets ckh2 = lg_curbuckets ckh" "tb \<in> slots hf (lg_curbuckets ckh) (fst y)"
    "full \<Longrightarrow> insert_result hf ckh x (Some y) ckh2"
    "\<not> full \<Longrightarrow> insert_result hf ckh x None ckh2"
proof -
  have j: "unat rr < 4" using prng_lg_range_2 [OF rs] .
  show r1: "insert_result hf ckh x (Some y) ckh1"
    using evict_ok [OF ok j] y unfolding ckh1 by (auto simp: cell_index read_at_eq_Some_iff)
  show lg: "lg_curbuckets ckh1 = lg_curbuckets ckh" by (simp add: ckh1)
  show tbs: "tb \<in> slots hf (lg_curbuckets ckh) (fst y)" using tb bucket_slots(1,2) [of hf ckh1 "fst y"] lg by auto
  then have tlt: "tb < 2 ^ lg_curbuckets ckh1" using bucket_slots(3) lg by metis
  have ok1: "ckh_ok hf ckh1" using r1 by (simp add: insert_result_def)
  then have "length (ckh_tab ckh1) = 2 ^ lg_curbuckets ckh1 * 4" by (simp add: ckh_ok_def placed_def)
  note c = try_bucket_insert_cases [OF ins this tlt]
  show "lg_curbuckets ckh2 = lg_curbuckets ckh"
    using c lg by (cases full) (auto simp: same_but_prng_def inserted_def)
  show "full \<Longrightarrow> insert_result hf ckh x (Some y) ckh2"
    using c r1 by (auto simp: same_but_prng_def insert_result_def)
  assume "\<not> full"
  with c have "inserted ckh1 tb y ckh2" by simp
  from inserted_ok [OF this ok1] tbs lg r1 show "insert_result hf ckh x None ckh2"
    by (auto simp: insert_result_def)
qed

lemma evict_reloc_insert_result:
  assumes "ckh_evict_reloc_insert hf argb b ckh x = Some (r, ckh')"
    and "ckh_ok hf ckh" "b \<in> slots hf (lg_curbuckets ckh) (fst x)"
  shows "insert_result hf ckh x r ckh' \<and> lg_curbuckets ckh' = lg_curbuckets ckh"
proof -
  let ?P = "\<lambda>hf argb b (ckh :: ('a, 'b) ckh) x res. ckh_ok hf ckh \<longrightarrow> b \<in> slots hf (lg_curbuckets ckh) (fst x) \<longrightarrow>
    insert_result hf ckh x (fst res) (snd res) \<and> lg_curbuckets (snd res) = lg_curbuckets ckh"
  have "?P hf argb b ckh x (r, ckh')"
  proof (rule ckh_evict_reloc_insert.raw_induct [where P = ?P, OF _ assms(1)], intro impI)
    fix rec and hf :: "'a ckh_hash" and argb b and ckh :: "('a, 'b) ckh" and x res
    assume IH: "\<And>hf argb b ckh x y. rec hf argb b ckh x = Some y \<Longrightarrow> ?P hf argb b ckh x y"
      and body: "(let (r, s) = prng_lg_range_u64 (ckh_prng_state ckh) LG_CKH_BUCKET_CELLS;
          cell = cell_index b (unat r); ckh = ckh\<lparr>ckh_prng_state := s\<rparr>
      in case read_at (ckh_tab ckh) cell of None \<Rightarrow> None | Some None \<Rightarrow> None
         | Some (Some titem) \<Rightarrow>
             let ckh = ckh\<lparr>ckh_tab := (ckh_tab ckh)[cell := Some x]\<rparr>;
                 tbucket = bucket2 hf ckh (fst titem);
                 tbucket = if tbucket = b then bucket1 hf ckh (fst titem) else tbucket
             in if tbucket = argb then Some (Some titem, ckh)
                else case ckh_try_bucket_insert ckh tbucket titem of (full, ckh) \<Rightarrow>
                       if \<not> full then Some (None, ckh) else rec hf argb tbucket ckh titem) = Some res"
      and ok: "ckh_ok hf ckh" "b \<in> slots hf (lg_curbuckets ckh) (fst x)"
    obtain rr s where rs: "prng_lg_range_u64 (ckh_prng_state ckh) LG_CKH_BUCKET_CELLS = (rr, s)"
      by (cases "prng_lg_range_u64 (ckh_prng_state ckh) LG_CKH_BUCKET_CELLS")
    from body rs obtain y where y: "read_at (ckh_tab ckh) (cell_index b (unat rr)) = Some (Some y)"
      by (auto simp: Let_def split: option.splits)
    define ckh1 where "ckh1 = ckh\<lparr>ckh_prng_state := s, ckh_tab := (ckh_tab ckh)[cell_index b (unat rr) := Some x]\<rparr>"
    define tb where "tb = (if bucket2 hf ckh1 (fst y) = b then bucket1 hf ckh1 (fst y) else bucket2 hf ckh1 (fst y))"
    obtain full ckh2 where ins: "ckh_try_bucket_insert ckh1 tb y = (full, ckh2)"
      by (cases "ckh_try_bucket_insert ckh1 tb y")
    have tbm: "tb \<in> {bucket1 hf ckh1 (fst y), bucket2 hf ckh1 (fst y)}" by (simp add: tb_def)
    note round = evict_round [OF ok rs y ckh1_def tbm ins]
    have body1: "(if tb = argb then Some (Some y, ckh1)
       else case ckh_try_bucket_insert ckh1 tb y of (full, ckh) \<Rightarrow>
         if \<not> full then Some (None, ckh) else rec hf argb tb ckh y) = Some res"
      using body rs y unfolding ckh1_def tb_def by (simp add: Let_def)
    show "insert_result hf ckh x (fst res) (snd res) \<and> lg_curbuckets (snd res) = lg_curbuckets ckh"
    proof (cases "tb = argb")
      case True
      then have "res = (Some y, ckh1)" using body1 by simp
      with round(1,2) show ?thesis by simp
    next
      case False
      then have res: "(if \<not> full then Some (None, ckh2) else rec hf argb tb ckh2 y) = Some res"
        using body1 ins by simp
      show ?thesis
      proof (cases full)
        case True
        with res have "rec hf argb tb ckh2 y = Some res" by simp
        from IH [OF this] round(3-5) True have "insert_result hf ckh2 y (fst res) (snd res)"
          "lg_curbuckets (snd res) = lg_curbuckets ckh" by (auto simp: insert_result_def)
        with insert_result_step round(5) True show ?thesis by blast
      qed (use res round in auto)
    qed
  qed
  with assms(2,3) show ?thesis by simp
qed

lemma same_but_prng_ok: "same_but_prng ckh ckh' \<Longrightarrow> ckh_ok hf ckh' \<longleftrightarrow> ckh_ok hf ckh"
  by (auto simp: same_but_prng_def)

lemma same_but_prngD: "same_but_prng ckh ckh' \<Longrightarrow> ckh_tab ckh' = ckh_tab ckh
    \<and> lg_curbuckets ckh' = lg_curbuckets ckh \<and> lg_minbuckets ckh' = lg_minbuckets ckh"
  by (auto simp: same_but_prng_def)

lemma bucket_insert_result:
  assumes "ckh_try_bucket_insert ckh b x = (full, ckh')" "ckh_ok hf ckh" "b \<in> slots hf (lg_curbuckets ckh) (fst x)"
  shows "\<not> full \<Longrightarrow> insert_result hf ckh x None ckh'" "full \<Longrightarrow> same_but_prng ckh ckh'"
    "lg_curbuckets ckh' = lg_curbuckets ckh"
proof -
  have "length (ckh_tab ckh) = 2 ^ lg_curbuckets ckh * 4" using assms(2) by (simp add: ckh_ok_def placed_def)
  note c = try_bucket_insert_cases [OF assms(1) this bucket_slots(3) [OF assms(3)]]
  show "full \<Longrightarrow> same_but_prng ckh ckh'" using c by simp
  show "\<not> full \<Longrightarrow> insert_result hf ckh x None ckh'"
    using c inserted_ok [OF _ assms(2,3), of ckh'] by (simp add: insert_result_def)
  show "lg_curbuckets ckh' = lg_curbuckets ckh"
    using c same_but_prngD by (cases full) (auto simp: inserted_def)
qed

lemma try_insert_result:
  assumes "ckh_try_insert hf ckh x = Some (r, ckh')" "ckh_ok hf ckh"
  shows "insert_result hf ckh x r ckh' \<and> lg_curbuckets ckh' = lg_curbuckets ckh"
proof -
  obtain full1 ckh1 where i1: "ckh_try_bucket_insert ckh (bucket1 hf ckh (fst x)) x = (full1, ckh1)"
    by (cases "ckh_try_bucket_insert ckh (bucket1 hf ckh (fst x)) x")
  note b1 = bucket_insert_result [OF i1 assms(2) bucket_slots(1)]
  show ?thesis
  proof (cases full1)
    case False
    with assms(1) i1 b1 show ?thesis by (auto simp: ckh_try_insert_def)
  next
    case True
    with b1 have s1: "same_but_prng ckh ckh1" by simp
    then have ok1: "ckh_ok hf ckh1" using assms(2) same_but_prng_ok by blast
    obtain full2 ckh2 where i2: "ckh_try_bucket_insert ckh1 (bucket2 hf ckh1 (fst x)) x = (full2, ckh2)"
      by (cases "ckh_try_bucket_insert ckh1 (bucket2 hf ckh1 (fst x)) x")
    note b2 = bucket_insert_result [OF i2 ok1 bucket_slots(2)]
    show ?thesis
    proof (cases full2)
      case False
      with assms(1) i1 i2 True b2 same_but_prngD [OF s1] show ?thesis
        by (auto simp: ckh_try_insert_def insert_result_def)
    next
      case t2: True
      then have s2: "same_but_prng ckh1 ckh2" using b2 by simp
      then have ok2: "ckh_ok hf ckh2" using ok1 same_but_prng_ok by blast
      have e: "ckh_evict_reloc_insert hf (bucket2 hf ckh1 (fst x)) (bucket2 hf ckh1 (fst x)) ckh2 x = Some (r, ckh')"
        using assms(1) i1 i2 True t2 by (simp add: ckh_try_insert_def Let_def)
      have "bucket2 hf ckh1 (fst x) \<in> slots hf (lg_curbuckets ckh2) (fst x)"
        using bucket_slots(2) [of hf ckh1 "fst x"] same_but_prngD [OF s2] by simp
      from evict_reloc_insert_result [OF e ok2 this] same_but_prngD [OF s1] same_but_prngD [OF s2]
      show ?thesis by (simp add: insert_result_def)
    qed
  qed
qed

text \<open>The rebuilt table holds the items of both; a table that cannot be rebuilt keeps the count.\<close>

lemma rebuild_loop_result:
  assumes "rebuild_loop hf cnt nins cs ckh = Some (r, ckh')" "ckh_ok hf ckh"
    "nins + size (tab_items cs) = cnt"
  shows "lg_curbuckets ckh' = lg_curbuckets ckh \<and> lg_minbuckets ckh' = lg_minbuckets ckh
    \<and> (if r then ckh_count ckh' = cnt
        else ckh_ok hf ckh' \<and> tab_items (ckh_tab ckh') = tab_items (ckh_tab ckh) + tab_items cs)"
  using assms
proof (induction hf cnt nins cs ckh rule: rebuild_loop.induct)
  case (2 hf cnt nins c cs ckh)
  show ?case
  proof (cases "nins < cnt")
    case False
    with "2.prems"(3) have "size (tab_items (c # cs)) = 0" by linarith
    then have "tab_items (c # cs) = {#}" by (simp only: size_eq_0_iff_empty)
    with False "2.prems" show ?thesis by auto
  next
    case True
    show ?thesis
    proof (cases c)
      case None
      with 2 True show ?thesis by simp
    next
      case (Some x)
      with True "2.prems"(1) obtain q ckh1 where t: "ckh_try_insert hf ckh x = Some (q, ckh1)"
        by (auto split: option.splits)
      note tr = try_insert_result [OF t "2.prems"(2)]
      show ?thesis
      proof (cases q)
        case None
        have "nins + 1 + size (tab_items cs) = cnt" using "2.prems"(3) Some by simp
        with 2 True Some t None tr show ?thesis by (auto simp: insert_result_def)
      qed (use "2.prems" True Some t tr in \<open>auto simp: insert_result_def\<close>)
    qed
  qed
qed (auto split: if_splits)

text \<open>The table with a new, empty \<open>tab\<close> of \<open>2 ^ lg_cells\<close> cells.\<close>

abbreviation with_new_tab :: "('k, 'd) ckh \<Rightarrow> nat \<Rightarrow> ('k, 'd) ckh" where
  "with_new_tab ckh lg_cells \<equiv>
     ckh\<lparr>ckh_tab := ckh_new_tab lg_cells, lg_curbuckets := lg_cells - LG_CKH_BUCKET_CELLS\<rparr>"

lemma new_tab_ok:
  assumes "2 \<le> lg_cells"
  shows "placed hf (lg_cells - LG_CKH_BUCKET_CELLS) (ckh_new_tab lg_cells)" "tab_items (ckh_new_tab lg_cells) = {#}"
proof -
  obtain k where k: "lg_cells = k + 2" using le_Suc_ex [OF assms] by (metis add.commute)
  show "placed hf (lg_cells - LG_CKH_BUCKET_CELLS) (ckh_new_tab lg_cells)"
    by (simp add: k placed_def ckh_new_tab_def LG_CKH_BUCKET_CELLS_def)
qed (simp add: ckh_new_tab_def)

lemma rebuild_result:
  assumes "ckh_rebuild hf (with_new_tab ckh lg_cells) cs = Some (r, ckh')" "2 \<le> lg_cells"
    "ckh_count ckh = size (tab_items cs)"
  shows "lg_minbuckets ckh' = lg_minbuckets ckh \<and> (if r then ckh_count ckh' = ckh_count ckh
      else ckh_ok hf ckh' \<and> tab_items (ckh_tab ckh') = tab_items cs)"
proof -
  have ok: "ckh_ok hf (with_new_tab ckh lg_cells\<lparr>ckh_count := 0\<rparr>)"
    by (simp add: ckh_ok_def new_tab_ok [OF assms(2)])
  have "rebuild_loop hf (ckh_count ckh) 0 cs (with_new_tab ckh lg_cells\<lparr>ckh_count := 0\<rparr>) = Some (r, ckh')"
    using assms(1) by (simp add: ckh_rebuild_def)
  from rebuild_loop_result [OF this ok] assms(3) show ?thesis by (simp add: new_tab_ok(2) [OF assms(2)])
qed

text \<open>Growing and shrinking keep the items, whether they succeed or not.\<close>

definition same_items :: "'k ckh_hash \<Rightarrow> ('k, 'd) ckh \<Rightarrow> ('k, 'd) ckh \<Rightarrow> bool" where
  "same_items hf ckh ckh' \<longleftrightarrow> ckh_ok hf ckh' \<and> lg_minbuckets ckh' = lg_minbuckets ckh
     \<and> tab_items (ckh_tab ckh') = tab_items (ckh_tab ckh)"

lemma back_out:
  assumes "ckh_ok hf ckh" "ckh_count ckh' = ckh_count ckh" "lg_minbuckets ckh' = lg_minbuckets ckh"
  shows "same_items hf ckh (ckh'\<lparr>ckh_tab := ckh_tab ckh, lg_curbuckets := lg_curbuckets ckh\<rparr>)"
  using assms by (simp add: same_items_def ckh_ok_def)

lemma grow_loop_result:
  assumes "grow_loop t hf lg_prev lg_cells ckh outs = Some (failed, ckh', outs')" "ckh_ok hf ckh"
    "lg_curbuckets ckh = lg_prev" "2 \<le> lg_cells"
  shows "same_items hf ckh ckh'"
  using assms
proof (induction t hf lg_prev lg_cells ckh outs rule: grow_loop.induct)
  case (1 t hf lg_prev lg_cells ckh outs)
  note g = "1.prems"(1) [unfolded grow_loop.simps [of t hf lg_prev lg_cells ckh outs], simplified Let_def]
  have same: "same_items hf ckh ckh" using "1.prems"(2) by (simp add: same_items_def)
  consider "ckh' = ckh"
    | usize outs1 where "ckh_tab_size t (lg_cells + 1) = Some (Some usize)" "outs = True # outs1"
    using g by (auto split: option.splits list.splits if_splits)
  then show ?case
  proof cases
    case 1
    with same show ?thesis by simp
  next
    case (2 usize outs1)
    with g obtain r ckh1 where rb: "ckh_rebuild hf (with_new_tab ckh (lg_cells + 1)) (ckh_tab ckh) = Some (r, ckh1)"
      by (auto split: option.splits)
    have "ckh_count ckh = size (tab_items (ckh_tab ckh))" using "1.prems"(2) by (simp add: ckh_ok_def)
    note rr = rebuild_result [OF rb _ this]
    show ?thesis
    proof (cases r)
      case False
      with g 2 rb rr "1.prems"(4) show ?thesis by (simp add: same_items_def)
    next
      case True
      let ?ckh2 = "ckh1\<lparr>ckh_tab := ckh_tab ckh, lg_curbuckets := lg_prev\<rparr>"
      have s2: "same_items hf ckh ?ckh2"
        using back_out [OF "1.prems"(2), of ckh1] rr True "1.prems"(3,4) by simp
      have e: "grow_loop t hf lg_prev (lg_cells + 1) ?ckh2 outs1 = Some (failed, ckh', outs')"
        using g 2 rb True by simp
      from True 2 rb have "same_items hf ?ckh2 ckh'"
        using "1.IH" [OF refl 2(1) refl 2(2) _ refl refl rb _ refl e] s2 "1.prems"(4)
        by (simp add: same_items_def)
      with s2 show ?thesis by (simp add: same_items_def)
    qed
  qed
qed

lemma grow_result: "ckh_grow t hf ckh outs = Some (failed, ckh', outs') \<Longrightarrow> ckh_ok hf ckh \<Longrightarrow> same_items hf ckh ckh'"
  unfolding ckh_grow_def by (rule grow_loop_result) (assumption | simp add: LG_CKH_BUCKET_CELLS_def)+

lemma shrink_result:
  assumes "ckh_shrink t hf ckh outs = Some (ckh', outs')" "ckh_ok hf ckh" "0 < lg_curbuckets ckh"
  shows "same_items hf ckh ckh'"
proof -
  let ?lg = "lg_curbuckets ckh + LG_CKH_BUCKET_CELLS - 1"
  have lg: "2 \<le> ?lg" using assms(3) by (simp add: LG_CKH_BUCKET_CELLS_def)
  have same: "same_items hf ckh ckh" using assms(2) by (simp add: same_items_def)
  note s = assms(1) [unfolded ckh_shrink_def Let_def]
  consider "ckh' = ckh"
    | usize outs1 where "ckh_tab_size t ?lg = Some (Some usize)" "outs = True # outs1"
    using s by (auto split: option.splits list.splits if_splits)
  then show ?thesis
  proof cases
    case 1
    with same show ?thesis by simp
  next
    case (2 usize outs1)
    with s obtain r ckh1 where rb: "ckh_rebuild hf (with_new_tab ckh ?lg) (ckh_tab ckh) = Some (r, ckh1)"
      by (auto split: option.splits)
    have "ckh_count ckh = size (tab_items (ckh_tab ckh))" using assms(2) by (simp add: ckh_ok_def)
    note rr = rebuild_result [OF rb lg this]
    show ?thesis
    proof (cases r)
      case False
      with s 2 rb rr show ?thesis by (simp add: same_items_def)
    next
      case True
      with s 2 rb have "ckh' = ckh1\<lparr>ckh_tab := ckh_tab ckh, lg_curbuckets := lg_curbuckets ckh\<rparr>" by simp
      with back_out [OF assms(2), of ckh1] rr True show ?thesis by simp
    qed
  qed
qed

lemma insert_result:
  assumes "ckh_insert t hf ckh x outs = Some (r, ckh', outs')" "ckh_ok hf ckh"
  shows "insert_result hf ckh x r ckh'"
proof -
  let ?P = "\<lambda>t hf (ckh :: ('a, 'b) ckh) x outs res. ckh_ok hf ckh \<longrightarrow> insert_result hf ckh x (fst res) (fst (snd res))"
  have "?P t hf ckh x outs (r, ckh', outs')"
  proof (rule ckh_insert.raw_induct [where P = ?P, OF _ assms(1)], intro impI)
    fix rec t and hf :: "'a ckh_hash" and ckh :: "('a, 'b) ckh" and x outs res
    assume IH: "\<And>t hf ckh x outs y. rec t hf ckh x outs = Some y \<Longrightarrow> ?P t hf ckh x outs y"
      and body: "(case ckh_try_insert hf ckh x of None \<Rightarrow> None
        | Some (None, ckh) \<Rightarrow> Some (None, ckh, outs)
        | Some (Some item, ckh) \<Rightarrow>
            (case ckh_grow t hf ckh outs of None \<Rightarrow> None
             | Some (failed, ckh, outs) \<Rightarrow>
                 if failed then Some (Some item, ckh, outs) else rec t hf ckh item outs)) = Some res"
      and ok: "ckh_ok hf ckh"
    from body obtain q ckh1 where ti: "ckh_try_insert hf ckh x = Some (q, ckh1)"
      by (auto split: option.splits)
    have r1: "insert_result hf ckh x q ckh1" using try_insert_result [OF ti ok] by simp
    show "insert_result hf ckh x (fst res) (fst (snd res))"
    proof (cases q)
      case None
      with body ti r1 show ?thesis by auto
    next
      case (Some y)
      with body ti obtain failed ckh2 outs2 where g: "ckh_grow t hf ckh1 outs = Some (failed, ckh2, outs2)"
        by (auto split: option.splits)
      have s: "same_items hf ckh1 ckh2"
        using grow_result [OF g] r1 by (simp add: insert_result_def)
      with r1 Some have r2: "insert_result hf ckh x (Some y) ckh2"
        by (simp add: same_items_def insert_result_def)
      show ?thesis
      proof (cases failed)
        case True
        with body ti Some g r2 show ?thesis by auto
      next
        case False
        with body ti Some g have "rec t hf ckh2 y outs2 = Some res" by simp
        from IH [OF this] r2 insert_result_step show ?thesis by (auto simp: insert_result_def)
      qed
    qed
  qed
  with assms(2) show ?thesis by simp
qed

text \<open>A free cell in one of the two buckets of the key suffices: the insertion returns, and succeeds.\<close>

lemma insert_free:
  assumes "ckh_ok hf ckh" "b \<in> slots hf (lg_curbuckets ckh) (fst x)" "j < 4" "ckh_tab ckh ! (4 * b + j) = None"
  shows "\<exists>ckh'. ckh_insert t hf ckh x outs = Some (None, ckh', outs)"
proof -
  obtain full1 ckh1 where i1: "ckh_try_bucket_insert ckh (bucket1 hf ckh (fst x)) x = (full1, ckh1)"
    by (cases "ckh_try_bucket_insert ckh (bucket1 hf ckh (fst x)) x")
  obtain full2 ckh2 where i2: "ckh_try_bucket_insert ckh1 (bucket2 hf ckh1 (fst x)) x = (full2, ckh2)"
    by (cases "ckh_try_bucket_insert ckh1 (bucket2 hf ckh1 (fst x)) x")
  have len: "length (ckh_tab ckh) = 2 ^ lg_curbuckets ckh * 4" using assms(1) by (simp add: ckh_ok_def placed_def)
  note c1 = try_bucket_insert_cases [OF i1 len bucket_slots(3) [OF bucket_slots(1)]]
  show ?thesis
  proof (cases full1)
    case False
    with i1 show ?thesis by (subst ckh_insert.simps) (simp add: ckh_try_insert_def)
  next
    case True
    with c1 have s: "ckh_tab ckh1 = ckh_tab ckh" "lg_curbuckets ckh1 = lg_curbuckets ckh"
      using same_but_prngD by auto
    have b2: "bucket2 hf ckh1 (fst x) = bucket2 hf ckh (fst x)" by (simp add: bucket2_def bucket_of_mod s)
    have "b \<noteq> bucket1 hf ckh (fst x)" using c1 True assms(3,4) by auto
    then have "b = bucket2 hf ckh1 (fst x)"
      using assms(2) by (auto simp: slots_def bucket1_def bucket2_def bucket_of_mod s)
    moreover have "bucket2 hf ckh1 (fst x) < 2 ^ lg_curbuckets ckh1"
      unfolding b2 s by (rule bucket_slots(3) [OF bucket_slots(2)])
    ultimately have "\<not> full2"
      using try_bucket_insert_cases [OF i2] len s assms(3,4) by auto
    with i1 i2 True show ?thesis by (subst ckh_insert.simps) (simp add: ckh_try_insert_def Let_def)
  qed
qed

section \<open>Search, removal, iteration\<close>

text \<open>What the tables require of the functions they are created with.\<close>

locale ckh_keys =
  fixes hf :: "'k ckh_hash" and keycomp :: "'k \<Rightarrow> 'k \<Rightarrow> bool"
  assumes keycomp_hash: "keycomp k k' \<Longrightarrow> hf k = hf k'"
begin

lemma bucket_search_cases:
  assumes "length (ckh_tab ckh) = 2 ^ lg_curbuckets ckh * 4" "b < 2 ^ lg_curbuckets ckh"
  obtains "ckh_bucket_search keycomp ckh b k = None"
      "\<And>j x. j < 4 \<Longrightarrow> ckh_tab ckh ! (4 * b + j) = Some x \<Longrightarrow> \<not> keycomp k (fst x)"
    | j x where "ckh_bucket_search keycomp ckh b k = Some (4 * b + j)" "j < 4"
      "ckh_tab ckh ! (4 * b + j) = Some x" "keycomp k (fst x)" "4 * b + j < length (ckh_tab ckh)"
proof -
  let ?P = "\<lambda>i. case read_at (ckh_tab ckh) (4 * b + i) of Some (Some (k', _)) \<Rightarrow> keycomp k k' | _ \<Rightarrow> False"
  have P: "?P j \<longleftrightarrow> (\<exists>x. ckh_tab ckh ! (4 * b + j) = Some x \<and> keycomp k (fst x))" if "j < 4" for j
    using cell_index_less [OF assms(2) that] assms(1) by (auto simp: read_at_def split: option.split)
  have e: "ckh_bucket_search keycomp ckh b k = map_option (\<lambda>i. 4 * b + i) (find ?P [0..<4])"
    by (simp add: ckh_bucket_search_def cell_index [abs_def] LG_CKH_BUCKET_CELLS_def del: upt_rec_numeral)
  show thesis
  proof (cases rule: find_cases [of ?P "[0..<4]"])
    case 1
    have "\<not> keycomp k (fst x)" if "j < 4" "ckh_tab ckh ! (4 * b + j) = Some x" for j x
      using 1(2) P [OF that(1)] that by auto
    with 1(1) e show ?thesis by (intro that(1)) simp_all
  next
    case (2 j)
    then have "j < 4" by simp
    with P [OF this] 2(3) obtain x where "ckh_tab ckh ! (4 * b + j) = Some x" "keycomp k (fst x)" by blast
    with 2(1) e \<open>j < 4\<close> cell_index_less [OF assms(2) \<open>j < 4\<close>] assms(1) show ?thesis
      by (intro that(2)) simp_all
  qed
qed

lemma isearch_cases:
  assumes "ckh_ok hf ckh"
  obtains "ckh_isearch hf keycomp ckh k = None" "\<And>x. x \<in># tab_items (ckh_tab ckh) \<Longrightarrow> \<not> keycomp k (fst x)"
    | c x where "ckh_isearch hf keycomp ckh k = Some c" "c < length (ckh_tab ckh)"
      "ckh_tab ckh ! c = Some x" "keycomp k (fst x)"
proof -
  have len: "length (ckh_tab ckh) = 2 ^ lg_curbuckets ckh * 4" using assms by (simp add: ckh_ok_def placed_def)
  have b1: "bucket1 hf ckh k < 2 ^ lg_curbuckets ckh" by (rule bucket_slots(3) [OF bucket_slots(1)])
  have b2: "bucket2 hf ckh k < 2 ^ lg_curbuckets ckh" by (rule bucket_slots(3) [OF bucket_slots(2)])
  show thesis
  proof (cases rule: bucket_search_cases [OF len b1, of k])
    case 1
    note first = 1
    show ?thesis
    proof (cases rule: bucket_search_cases [OF len b2, of k])
      case 1
      have "\<not> keycomp k (fst x)" if x: "x \<in># tab_items (ckh_tab ckh)" for x
      proof
        assume kx: "keycomp k (fst x)"
        from x obtain i where i: "i < length (ckh_tab ckh)" "ckh_tab ckh ! i = Some x" by (auto simp: tab_items_mem)
        from assms have "placed hf (lg_curbuckets ckh) (ckh_tab ckh)" by (simp add: ckh_ok_def)
        from placedD [OF this i] have "i div 4 \<in> slots hf (lg_curbuckets ckh) (fst x)" .
        then have "i div 4 = bucket1 hf ckh k \<or> i div 4 = bucket2 hf ckh k"
          using keycomp_hash [OF kx] by (auto simp: slots_def bucket1_def bucket2_def bucket_of_mod)
        moreover have "4 * (i div 4) + i mod 4 = i" "i mod 4 < 4" by simp_all
        ultimately show False using first(2) [of "i mod 4" x] 1(2) [of "i mod 4" x] i(2) kx by metis
      qed
      with first(1) 1(1) show ?thesis by (intro that(1)) (simp_all add: ckh_isearch_def)
    next
      case (2 j x)
      with first(1) show ?thesis by (intro that(2)) (simp_all add: ckh_isearch_def)
    qed
  next
    case (2 j x)
    then show ?thesis by (intro that(2)) (simp_all add: ckh_isearch_def)
  qed
qed

lemma search_None: "ckh_ok hf ckh \<Longrightarrow> ckh_search hf keycomp ckh k = None \<Longrightarrow>
    x \<in># tab_items (ckh_tab ckh) \<Longrightarrow> \<not> keycomp k (fst x)"
  by (cases rule: isearch_cases [of ckh k]) (auto simp: ckh_search_def)

lemma search_Some: "ckh_ok hf ckh \<Longrightarrow> ckh_search hf keycomp ckh k = Some x \<Longrightarrow>
    x \<in># tab_items (ckh_tab ckh) \<and> keycomp k (fst x)"
  by (cases rule: isearch_cases [of ckh k]) (auto simp: ckh_search_def tab_items_mem)

lemma remove_result:
  assumes "ckh_remove t hf keycomp ckh k outs = Some (r, ckh', outs')" "ckh_ok hf ckh"
  shows "r = ckh_search hf keycomp ckh k \<and> ckh_ok hf ckh'
    \<and> cell_items r + tab_items (ckh_tab ckh') = tab_items (ckh_tab ckh)"
proof (cases rule: isearch_cases [OF assms(2), of k])
  case 1
  with assms show ?thesis by (auto simp: ckh_remove_def ckh_search_def)
next
  case (2 c x)
  define ckh1 where "ckh1 = ckh\<lparr>ckh_tab := (ckh_tab ckh)[c := None], ckh_count := ckh_count ckh - 1\<rparr>"
  have items: "add_mset x (tab_items (ckh_tab ckh1)) = tab_items (ckh_tab ckh)"
    using tab_items_update [OF 2(2), of None] 2(3) by (simp add: ckh1_def)
  have "size (tab_items (ckh_tab ckh)) = Suc (size (tab_items (ckh_tab ckh1)))" by (simp flip: items)
  moreover have "placed hf (lg_curbuckets ckh) ((ckh_tab ckh)[c := None])"
    using assms(2) by (simp add: ckh_ok_def placed_clear)
  ultimately have ok1: "ckh_ok hf ckh1" using assms(2) by (simp add: ckh_ok_def ckh1_def)
  have e: "(if ckh_count ckh1 < 2 ^ (lg_curbuckets ckh1 + LG_CKH_BUCKET_CELLS - 2) \<and> lg_curbuckets ckh1 > lg_minbuckets ckh1
      then map_option (\<lambda>(ckh, outs). (Some x, ckh, outs)) (ckh_shrink t hf ckh1 outs)
      else Some (Some x, ckh1, outs)) = Some (r, ckh', outs')"
    using assms(1) 2 by (auto simp: ckh_remove_def ckh1_def Let_def split: if_splits)
  have "ckh_ok hf ckh' \<and> tab_items (ckh_tab ckh') = tab_items (ckh_tab ckh1)" "r = Some x"
    using e ok1 shrink_result [OF _ ok1] by (auto simp: same_items_def split: if_splits)
  with items 2 show ?thesis by (simp add: ckh_search_def)
qed

end

interpretation pointer_keys: ckh_keys ckh_pointer_hash ckh_pointer_keycomp
  by unfold_locales (simp add: ckh_pointer_keycomp_def)

interpretation string_keys: ckh_keys ckh_string_hash ckh_string_keycomp
  by unfold_locales (simp add: ckh_string_keycomp_def)

text \<open>Iteration: the next item, with no item between.\<close>

lemma ckh_iter_cases:
  assumes "length (ckh_tab ckh) = 2 ^ lg_curbuckets ckh * 4"
  obtains "ckh_iter ckh i = None" "tab_items (drop i (ckh_tab ckh)) = {#}"
    | x j where "ckh_iter ckh i = Some (x, j)" "i < j" "j \<le> length (ckh_tab ckh)"
      "tab_items (drop i (ckh_tab ckh)) = add_mset x (tab_items (drop j (ckh_tab ckh)))"
proof -
  have n: "2 ^ (lg_curbuckets ckh + LG_CKH_BUCKET_CELLS) = length (ckh_tab ckh)"
    by (simp add: assms LG_CKH_BUCKET_CELLS_def power_add)
  have "(ckh_iter ckh i = None \<and> tab_items (drop i (ckh_tab ckh)) = {#})
    \<or> (\<exists>x j. ckh_iter ckh i = Some (x, j) \<and> i < j \<and> j \<le> length (ckh_tab ckh)
        \<and> tab_items (drop i (ckh_tab ckh)) = add_mset x (tab_items (drop j (ckh_tab ckh))))"
    using assms
  proof (induction "length (ckh_tab ckh) - i" arbitrary: i)
    case 0
    then show ?case using n by (simp add: ckh_iter.simps [of ckh i])
  next
    case (Suc m)
    then have i: "i < length (ckh_tab ckh)" by simp
    then have d: "drop i (ckh_tab ckh) = ckh_tab ckh ! i # drop (Suc i) (ckh_tab ckh)" by (simp add: Cons_nth_drop_Suc)
    show ?case
    proof (cases "ckh_tab ckh ! i")
      case None
      then have "ckh_iter ckh i = ckh_iter ckh (i + 1)"
        using i n by (simp add: ckh_iter.simps [of ckh i] read_at_def)
      moreover have "m = length (ckh_tab ckh) - Suc i" using Suc(2) by simp
      ultimately show ?thesis using Suc(1) [of "Suc i"] Suc.prems d None by (auto simp: Suc_lessD)
    next
      case (Some x)
      then have "ckh_iter ckh i = Some (x, i + 1)"
        using i n by (simp add: ckh_iter.simps [of ckh i] read_at_def)
      with d Some i show ?thesis by (auto simp: Suc_leI)
    qed
  qed
  then show thesis using that by blast
qed

text \<open>The loop of a client, from an index; bounded by the number of cells, of which each call passes one.\<close>

primrec iter_loop :: "nat \<Rightarrow> ('k, 'd) ckh \<Rightarrow> nat \<Rightarrow> ('k, 'd) item list" where
  "iter_loop 0 ckh i = []"
| "iter_loop (Suc n) ckh i = (case ckh_iter ckh i of None \<Rightarrow> [] | Some (x, j) \<Rightarrow> x # iter_loop n ckh j)"

definition ckh_items :: "('k, 'd) ckh \<Rightarrow> ('k, 'd) item list" where
  "ckh_items ckh = iter_loop (Suc (length (ckh_tab ckh))) ckh 0"

lemma iter_loop_items:
  assumes "length (ckh_tab ckh) = 2 ^ lg_curbuckets ckh * 4"
  shows "length (ckh_tab ckh) < n + i \<Longrightarrow> mset (iter_loop n ckh i) = tab_items (drop i (ckh_tab ckh))"
proof (induction n arbitrary: i)
  case (Suc n)
  show ?case
  proof (cases rule: ckh_iter_cases [OF assms, of i])
    case (2 x j)
    with Suc show ?thesis by simp
  qed simp
qed simp

lemma ckh_items: "ckh_ok hf ckh \<Longrightarrow> mset (ckh_items ckh) = tab_items (ckh_tab ckh)"
  by (simp add: ckh_items_def iter_loop_items ckh_ok_def placed_def del: iter_loop.simps)

section \<open>Tables keyed by pointers\<close>

text \<open>
  The tables that a program reaches, with the map they should hold: \<open>ckh_new\<close>, insertions of keys
  that are absent, as the function asserts, and removals, for any answers of the allocator. An
  insertion that returns true has dropped the item \<open>(k', d')\<close>, which need not be the new one.
\<close>

inductive ckh_run :: "sz_tabs \<Rightarrow> (64 word, 'd) ckh \<Rightarrow> (64 word \<rightharpoonup> 'd) \<Rightarrow> bool" for t where
  new: "ckh_new t minitems outs = Some (Some ckh) \<Longrightarrow> ckh_run t ckh Map.empty"
| insert: "ckh_run t ckh m \<Longrightarrow> m k = None \<Longrightarrow>
    ckh_insert t ckh_pointer_hash ckh (k, d) outs = Some (None, ckh', outs') \<Longrightarrow> ckh_run t ckh' (m(k \<mapsto> d))"
| insert_oom: "ckh_run t ckh m \<Longrightarrow> m k = None \<Longrightarrow>
    ckh_insert t ckh_pointer_hash ckh (k, d) outs = Some (Some (k', d'), ckh', outs') \<Longrightarrow>
    ckh_run t ckh' ((m(k \<mapsto> d))(k' := None))"
| remove: "ckh_run t ckh m \<Longrightarrow>
    ckh_remove t ckh_pointer_hash ckh_pointer_keycomp ckh k outs = Some (r, ckh', outs') \<Longrightarrow>
    ckh_run t ckh' (m(k := None))"

definition map_items :: "('k \<rightharpoonup> 'd) \<Rightarrow> ('k, 'd) item multiset \<Rightarrow> bool" where
  "map_items m M \<longleftrightarrow> (\<forall>k d. count M (k, d) = (if m k = Some d then 1 else 0))"

lemma map_items_add: "map_items m M \<Longrightarrow> m k = None \<Longrightarrow> map_items (m(k \<mapsto> d)) (add_mset (k, d) M)"
  by (auto simp: map_items_def)

lemma map_items_mem: "map_items m M \<Longrightarrow> (k, d) \<in># M \<longleftrightarrow> m k = Some d"
  by (simp add: map_items_def flip: count_greater_zero_iff)

lemma map_items_remove: "map_items m (add_mset (k, d) M) \<Longrightarrow> map_items (m(k := None)) M"
  unfolding map_items_def
proof (intro allI)
  fix k' d'
  assume a: "\<forall>k' d'. count (add_mset (k, d) M) (k', d') = (if m k' = Some d' then 1 else 0)"
  have "m k = Some d" using a [rule_format, of k d] by (auto split: if_splits)
  with a [rule_format, of k' d'] show "count M (k', d') = (if (m(k := None)) k' = Some d' then 1 else 0)"
    by (auto split: if_splits)
qed

lemma map_items_cells:
  "map_items m (cell_items r + M) \<Longrightarrow> map_items (case r of None \<Rightarrow> m | Some (k, d) \<Rightarrow> m(k := None)) M"
  using map_items_remove by (auto split: option.split)

lemma new_ok:
  assumes "ckh_new t minitems outs = Some (Some ckh)"
  shows "ckh_ok hf ckh \<and> tab_items (ckh_tab ckh) = {#}"
proof -
  have ge: "lg \<le> lg_mincells_loop m lg" for m lg
    by (induction m lg rule: lg_mincells_loop.induct) (subst lg_mincells_loop.simps, simp add: Suc_leD)
  let ?lg = "lg_mincells_loop ((minitems + (3 - minitems mod 3)) div 3 * 4) LG_CKH_BUCKET_CELLS"
  have lg: "2 \<le> ?lg" using ge [of 2] by (simp add: LG_CKH_BUCKET_CELLS_def)
  have "ckh = \<lparr>ckh_prng_state = 42, ckh_count = 0, lg_minbuckets = ?lg - LG_CKH_BUCKET_CELLS,
      lg_curbuckets = ?lg - LG_CKH_BUCKET_CELLS, ckh_tab = ckh_new_tab ?lg\<rparr>"
    using assms by (auto simp: ckh_new_def Let_def split: option.splits list.splits if_splits)
  then obtain lg' where "2 \<le> lg'" "ckh_count ckh = 0" "lg_curbuckets ckh = lg' - LG_CKH_BUCKET_CELLS"
    "ckh_tab ckh = ckh_new_tab lg'" using lg by simp
  then show ?thesis by (simp add: ckh_ok_def new_tab_ok)
qed

lemma ckh_run_inv: "ckh_run t ckh m \<Longrightarrow> ckh_ok ckh_pointer_hash ckh \<and> map_items m (tab_items (ckh_tab ckh))"
proof (induction rule: ckh_run.induct)
  case (new minitems outs ckh)
  from new_ok [OF new, of ckh_pointer_hash] show ?case by (simp add: map_items_def)
next
  case (insert ckh m k d outs ckh' outs')
  then have "insert_result ckh_pointer_hash ckh (k, d) None ckh'" using insert_result by blast
  with map_items_add [of m "tab_items (ckh_tab ckh)" k d] insert(2) insert.IH show ?case
    by (simp add: insert_result_def del: fun_upd_apply)
next
  case (insert_oom ckh m k d outs k' d' ckh' outs')
  then have r: "insert_result ckh_pointer_hash ckh (k, d) (Some (k', d')) ckh'" using insert_result by blast
  with map_items_add [of m "tab_items (ckh_tab ckh)" k d] insert_oom(2) insert_oom.IH
  have "map_items (m(k \<mapsto> d)) (add_mset (k', d') (tab_items (ckh_tab ckh')))" by (simp add: insert_result_def)
  from map_items_remove [OF this] r show ?case by (simp add: insert_result_def del: fun_upd_apply)
next
  case (remove ckh m k outs r ckh' outs')
  then have ok: "ckh_ok ckh_pointer_hash ckh" and m: "map_items m (tab_items (ckh_tab ckh))" by auto
  note rr = pointer_keys.remove_result [OF remove(2) ok]
  show ?case
  proof (cases r)
    case None
    with rr have "ckh_search ckh_pointer_hash ckh_pointer_keycomp ckh k = None" by simp
    then have "(k, d) \<notin># tab_items (ckh_tab ckh)" for d
      using pointer_keys.search_None [OF ok, of k "(k, d)"] by (auto simp: ckh_pointer_keycomp_def)
    then have "m k = None" using map_items_mem [OF m] by (cases "m k") auto
    then have "m(k := None) = m" by auto
    moreover have "cell_items r + tab_items (ckh_tab ckh') = tab_items (ckh_tab ckh)" using rr by blast
    then have "tab_items (ckh_tab ckh') = tab_items (ckh_tab ckh)" unfolding \<open>r = None\<close> by simp
    ultimately show ?thesis using rr m by simp
  next
    case (Some x)
    with rr have "ckh_search ckh_pointer_hash ckh_pointer_keycomp ckh k = Some x" by simp
    from pointer_keys.search_Some [OF ok this] obtain d where x: "x = (k, d)"
      by (cases x) (auto simp: ckh_pointer_keycomp_def)
    with rr m Some have "map_items m (add_mset (k, d) (tab_items (ckh_tab ckh')))" by simp
    from map_items_remove [OF this] rr show ?thesis by (simp del: fun_upd_apply)
  qed
qed

lemma map_items_dom: "map_items m M \<Longrightarrow> finite (dom m) \<and> size M = card (dom m)"
proof -
  assume a: "map_items m M"
  have s: "set_mset M = (\<lambda>k. (k, the (m k))) ` dom m" 
    using map_items_mem [OF a] by (force simp: dom_def image_def)
  have d: "count M x \<le> 1" for x using a by (cases x) (simp add: map_items_def)
  have inj: "inj_on (\<lambda>k. (k, the (m k))) (dom m)" by (auto intro: inj_onI)
  have "size M = (\<Sum>x\<in>set_mset M. count M x)" by (simp add: size_multiset_overloaded_eq)
  also have "\<dots> = (\<Sum>x\<in>set_mset M. 1)"
    by (rule sum.cong) (use d in \<open>auto intro: le_antisym simp: Suc_le_eq\<close>)
  also have "\<dots> = card (dom m)" by (simp add: s card_image [OF inj])
  finally show ?thesis using finite_image_iff [OF inj] s by (metis finite_set_mset)
qed


text \<open>The smallest table: one bucket, 64 bytes.\<close>

lemma tab_size_small:
  assumes "tabs_ok t" "lg \<in> {2, 3}"
  shows "\<exists>u. ckh_tab_size t lg = Some (Some u)"
proof -
  have w: "0 < (push_bit lg 16 :: size_t)" "(push_bit lg 16 :: size_t) \<le> SC_SMALL_MAXCLASS"
    using assms(2) by (auto simp: SMALL_MAXCLASS_unat)
  obtain u where u: "sz_sa2u t (push_bit lg 16) (2 ^ 6) = Some u" "push_bit lg 16 \<le> u" "u \<le> SC_SMALL_MAXCLASS"
    using sz_sa2u_small [OF assms(1) w, of 6] by auto
  have "u \<noteq> 0" using w(1) u(2) by (metis not_le)
  moreover have "u \<le> SC_LARGE_MAXCLASS" using u(3) by (simp add: SMALL_MAXCLASS_unat le_LARGE_MAXCLASS)
  ultimately show ?thesis using u(1) by (simp add: ckh_tab_size_def not_le)
qed


text \<open>C33: an insertion ends, and succeeds whatever the allocator answers, when one of the two buckets
  of the key has a free cell.\<close>
theorem ckh_insert_returns:
  assumes "ckh_ok hf ckh" "j < 4" "b = bucket1 hf ckh k \<or> b = bucket2 hf ckh k"
    "ckh_tab ckh ! cell_index b j = None"
  shows "\<exists>ckh'. ckh_insert t hf ckh (k, d) outs = Some (None, ckh', outs) \<and> ckh_ok hf ckh'
    \<and> tab_items (ckh_tab ckh') = add_mset (k, d) (tab_items (ckh_tab ckh))"
proof -
  have "b \<in> slots hf (lg_curbuckets ckh) (fst (k, d))" using assms(3) bucket_slots(1,2) [of hf ckh k] by auto
  from insert_free [OF assms(1) this assms(2)] assms(4) obtain ckh' where
    i: "ckh_insert t hf ckh (k, d) outs = Some (None, ckh', outs)" by (auto simp: cell_index)
  with insert_result [OF i assms(1)] show ?thesis by (auto simp: insert_result_def)
qed

definition example_ckh :: "(64 word, bool) ckh" where
  "example_ckh = \<lparr>ckh_prng_state = 42, ckh_count = 1, lg_minbuckets = 0, lg_curbuckets = 0,
     ckh_tab = [Some (1, True), None, None, None]\<rparr>"

theorem ckh_insert_returns_witness:
  "\<exists>ckh'. ckh_insert sz_tabs_zero (\<lambda>_. (0, 0)) example_ckh (2, False) [] = Some (None, ckh', [])
    \<and> ckh_ok (\<lambda>_. (0, 0)) ckh' \<and> tab_items (ckh_tab ckh') = add_mset (2, False) (tab_items (ckh_tab example_ckh))"
proof (rule ckh_insert_returns [where j = 1 and b = 0])
  show "ckh_ok (\<lambda>_. (0, 0)) example_ckh"
    by (auto simp: ckh_ok_def example_ckh_def placed_def slots_def nth_Cons split: nat.splits)
qed (simp_all add: bucket1_def bucket_of_mod example_ckh_def cell_index)

text \<open>A full table of one bucket that may not grow: the insertion reports failure, but the new item is in
  the table, and an item that was there is not.\<close>

lemma full_bucket:
  assumes "ckh_ok hf ckh" "None \<notin> set (ckh_tab ckh)" "b < 2 ^ lg_curbuckets ckh"
  shows "\<exists>s. ckh_try_bucket_insert ckh b x = (True, ckh\<lparr>ckh_prng_state := s\<rparr>)"
proof -
  have len: "length (ckh_tab ckh) = 2 ^ lg_curbuckets ckh * 4" using assms(1) by (simp add: ckh_ok_def placed_def)
  obtain full ckh' where i: "ckh_try_bucket_insert ckh b x = (full, ckh')" by (cases "ckh_try_bucket_insert ckh b x")
  have "ckh_tab ckh ! (4 * b + j) \<noteq> None" if "j < 4" for j
    using cell_index_less [OF assms(3) that] assms(2) len by (metis nth_mem)
  with try_bucket_insert_cases [OF i len assms(3)] i show ?thesis
    by (cases full) (auto simp: inserted_def same_but_prng_def simp del: not_None_eq)
qed

lemma ckh_insert_oom_drops:
  assumes "ckh_ok hf ckh" "lg_curbuckets ckh = 0" "None \<notin> set (ckh_tab ckh)" "tabs_ok t"
  shows "\<exists>y ckh'. ckh_insert t hf ckh x [] = Some (Some y, ckh', []) \<and> x \<in># tab_items (ckh_tab ckh')
    \<and> y \<in># tab_items (ckh_tab ckh) \<and> add_mset y (tab_items (ckh_tab ckh')) = add_mset x (tab_items (ckh_tab ckh))"
proof -
  have len: "length (ckh_tab ckh) = 4" using assms(1,2) by (simp add: ckh_ok_def placed_def)
  have b: "bucket1 hf c k = 0" "bucket2 hf c k = 0" if "lg_curbuckets c = 0" for c :: "('a, 'b) ckh" and k
    using that by (simp_all add: bucket1_def bucket2_def bucket_of_mod)
  obtain s1 where i1: "ckh_try_bucket_insert ckh 0 x = (True, ckh\<lparr>ckh_prng_state := s1\<rparr>)"
    using full_bucket [OF assms(1,3), of 0 x] by auto
  obtain s2 where i2: "ckh_try_bucket_insert (ckh\<lparr>ckh_prng_state := s1\<rparr>) 0 x = (True, ckh\<lparr>ckh_prng_state := s2\<rparr>)"
    using full_bucket [of hf "ckh\<lparr>ckh_prng_state := s1\<rparr>" 0 x] assms(1,3) by auto
  obtain r s3 where rs: "prng_lg_range_u64 s2 LG_CKH_BUCKET_CELLS = (r, s3)"
    by (cases "prng_lg_range_u64 s2 LG_CKH_BUCKET_CELLS")
  then have r: "unat r < length (ckh_tab ckh)" using prng_lg_range_2 len by simp
  then obtain y where y: "ckh_tab ckh ! unat r = Some y" using assms(3) by (metis nth_mem option.exhaust)
  let ?ckh' = "ckh\<lparr>ckh_prng_state := s3, ckh_tab := (ckh_tab ckh)[unat r := Some x]\<rparr>"
  have ev: "ckh_evict_reloc_insert hf 0 0 (ckh\<lparr>ckh_prng_state := s2\<rparr>) x = Some (Some y, ?ckh')"
    using rs y r assms(2) by (subst ckh_evict_reloc_insert.simps) (simp add: cell_index b Let_def)
  have ti: "ckh_try_insert hf ckh x = Some (Some y, ?ckh')"
    using i1 i2 ev assms(2) by (simp add: ckh_try_insert_def b Let_def)
  obtain u where "ckh_tab_size t 3 = Some (Some u)" using tab_size_small [OF assms(4)] by blast
  then have "ckh_grow t hf ?ckh' [] = Some (True, ?ckh', [])"
    by (simp add: ckh_grow_def grow_loop.simps assms(2) LG_CKH_BUCKET_CELLS_def numeral_3_eq_3 numeral_2_eq_2)
  with ti have ins: "ckh_insert t hf ckh x [] = Some (Some y, ?ckh', [])"
    by (subst ckh_insert.simps) simp
  moreover have "x \<in># tab_items (ckh_tab ?ckh')" using r by (auto simp: tab_items_mem intro!: exI [of _ "unat r"])
  moreover have "y \<in># tab_items (ckh_tab ckh)" using r y by (auto simp: tab_items_mem)
  moreover have "add_mset y (tab_items (ckh_tab ?ckh')) = add_mset x (tab_items (ckh_tab ckh))"
    using insert_result [OF ins assms(1)] by (simp add: insert_result_def)
  ultimately show ?thesis by blast
qed

end
