(* ===== verification/Spec2Isabelle.thy ===== *)
theory Spec2Isabelle
  imports Bit_Util Size_Classes Sz Bitmap Div Ticker Prng Nstime Extent Slab Ph Arena_Bin Tcache Tcache_Inv Extents Rtree Extent_Ops Extent_Inv Extent_Life Extent_Grow Extent_Runs Smoothstep Decay Arena_Pages Large Arena_Runs Base Base_Inv Base_Runs Malloc_Io Malloc_Printf Hash Ckh
begin

text \<open>
  The program. The C code of this repository is the memory allocator jemalloc 5.1 under
  src/contrib/jemalloc, which its servers and clients are linked with. This development models the
  core of the allocator in the configuration that the build generates for x86_64 Linux
  (jemalloc-cmake/include_linux_x86_64): 64-bit words, 4096-byte pages, a quantum of 16 bytes, 48
  address bits, cache-oblivious placement, statistics and retained memory, without \<open>JEMALLOC_DEBUG\<close>
  and without the profiler.

  How the parts interact. A request is rounded to a size class (sz.h, with the tables that sc.c and
  sz.c fill at boot). A small one is served from the cache of the thread (tcache.c), which is filled
  from and flushed to the bins of an arena (arena.c, bin.c); a bin hands out the regions of slabs
  through their bitmaps (bitmap.h, div.h). Slabs are extents, spans of pages with a descriptor
  (extent_inlines.h). Large requests get extents of
  their own (large.c). Unused extents wait in collections (extent.c) ordered by quantized size in
  pairing heaps (ph.h), are split, merged with their neighbours, and evicted as they decay with time (arena.c), and every page of an
  extent leads to its descriptor through a radix tree (rtree.c) with caches in each thread. The memory of descriptors, tree nodes and arenas comes from an allocator of its own (base.c). The
  pseudo-random numbers (prng.h), the countdown (ticker.h), the clock (nstime.c), the hash tables
  (ckh.c with hash.h) and the formatted output (malloc_io.c) serve the rest.

  Which theory models which code; each opens with a description of its own.
  \<^item> Jem_Prelude: the machine types, the collections of rewrite rules and the lemmas on words, lists
    and options that the others share.
  \<^item> Bit_Util (bit_util.h), Div (div.h, div.c), Ticker (ticker.h), Prng (prng.h), Nstime (nstime.c),
    Hash (hash.h): one definition per function. The lemmas give each its meaning on natural numbers.
    A value that other threads store between a load and a compare-and-exchange is an argument.
  \<^item> Size_Classes (sc.c, sc.h) computes the table of the 232 classes; Sz (sz.h, sz.c) has the
    conversions between requests, indices and sizes in their computing and looking up variants. The
    locale \<open>size_classes\<close> states the connection of the two directions once; the table of allocation
    classes and the one of page classes are interpretations.
  \<^item> Bitmap (bitmap.h, bitmap.c, the flat variant). What a client needs is the locale \<open>bitset\<close>.
  \<^item> Extent (extent_structs.h, extent_inlines.h): the descriptor, whose word \<open>e_bits\<close> has nine fields.
    A view of the fields is the abstract state; the setters refine its updates.
  \<^item> Slab (bin.c, the slab part of arena.c): regions as bits, with the exact division that finds the
    number of a region.
  \<^item> Ph (ph.h): pairing heaps over an order that is a parameter, interpreted on the orders that
    extents use.
  \<^item> Arena_Bin (arena.c, bin.h): the bins with their current slab, nonfull heap and full list. The
    allocation of slabs is a list of addresses that the state consumes.
  \<^item> Tcache and Tcache_Inv (cache_bin.h, tcache.c, tcache_inlines.h): the stacks of cached pointers,
    filling, flushing, garbage collection; then the runs of a thread with its arena and the other
    threads that use it.
  \<^item> Extents (extent.c, \<open>extents_t\<close>): the collections with their heaps, bitmap, least recently used
    list, counters and three policies.
  \<^item> Rtree (rtree.c, rtree.h, rtree_tsd.h): the two-level tree with compact elements and the caches.
  \<^item> Extent_Ops (extent.c): the life of an extent. The tree appears as the map from pages to entries
    that Rtree proves it to implement. Extent_Inv, Extent_Life and Extent_Grow prove the invariant
    (descriptors, page map, collections and free descriptors fit together) for every operation, with
    the descriptors a caller holds as a parameter; Extent_Runs has the runs and the properties. What
    the allocation hook promises (new pages, aligned) is a hypothesis of those steps.
  \<^item> Smoothstep (smoothstep.h) and Decay (arena.c): the curve and the timing of decay, from the readings
    of a clock to the number of pages that may stay unpurged.
  \<^item> Arena_Pages (arena.c): the pages of an arena: purging to that number, the extents of slabs, the
    counts of active pages and requests. Large (large.c): allocation, resizing in place, moving and
    freeing of large extents. Arena_Runs has the runs of an arena and the properties of both.
  \<^item> Base (base.c): the allocator of the metadata that the parts above need, from blocks of huge pages.
    Base_Inv has its invariant, Base_Runs the interleaved steps of its threads and the properties.
    Requests are bounded by \<open>2 ^ 44\<close> bytes and an alignment of \<open>2 ^ 43\<close>, so that no sum of sizes
    wraps; what a mapping promises (aligned, apart from the others) is a hypothesis.
  \<^item> Malloc_Io and Malloc_Printf (malloc_io.c): numbers to text and back, \<open>malloc_vsnprintf\<close>.
  \<^item> Ckh (ckh.c): the cuckoo hash tables with growing, shrinking and eviction.

  Conventions. A struct is a record; a pointer is an address, and the objects behind the addresses
  are a function in the state where they are shared. Integers are words of their width, so they
  wrap as in C, and the lemmas show where they do not. A list of pointers linked through its elements
  is the list of its elements, and a ring or a heap node the sequence of its children. Reading or writing outside an
  array, through a null pointer or on a failed assertion is the value \<open>None\<close>; every theorem that says
  an operation returns \<open>Some\<close> excludes these. Errors that the code reports are values.

  What the groups of lemmas show: each component has an invariant of its state and lemmas that every
  operation keeps it, the result of every operation on every branch, and one property on the runs of
  the operations from the initial state. Where a component is an implementation of something simpler (a map,
  a set, a sorted table) the property is that refinement.

  Loops and bounds. Loops over a table or the bits of a word are structural recursion or have a
  measure. Loops that end only because of an invariant are \<open>partial_function (option)\<close> or run with a
  bound that the code itself has, and the lemmas show that they return: rejection sampling in prng.h
  needs the full period of the generator, the loop that grows a hash table needs that the allocator
  answers or fails. The eviction walk of a hash table ends in the code because it finds the bucket it
  started from again; that depends on the pseudo-random choices, so the walk has the number of
  choices as its list argument and the theorem says what it does when it ends.

  Parameters. Outside the sources are the system calls and the hooks of an application, the clock, the
  comparison functions of hash tables. They are arguments, or lists of answers in the
  state from which the operations take the next one, so that a theorem holds for all answers.

  Concurrency. An operation under a lock is one atomic step. Where the code drops a lock in the
  middle, in the filling of a bin, in the mapping of a block for metadata and in the loops on atomic variables, the model has the steps of
  the other threads in between as an argument. Atomic loads and stores are sequentially consistent.

  What is not modelled: system calls (pages.c, extent_mmap.c, extent_dss.c), locks (mutex.c,
  witness.c), thread creation (background_thread.c), the profiler, the control interface and the
  printing of statistics, the entry points of jemalloc.c that compose the parts above, the
  creation, reset and destruction of arenas, and the C++ programs of the repository over their network libraries.
\<close>

end
